(* ===== verification/Nexs_Prelude.thy ===== *)
theory Nexs_Prelude
  imports Main "HOL-Library.Word"
begin

text \<open>
  Shared ground of the NexsOS1 development: the machine types, pointers and the byte memory of
  the kernel, panics as values, and the generic facts on lists, words and bit arrays that the
  components use.  The locale \<open>bit_array\<close> is the interface of an allocation bitmap; the
  physical memory manager provides it on arrays of 64-bit words.
\<close>

unbundle bit_operations_syntax

section \<open>Machine types\<close>

type_synonym u8 = "8 word"
type_synonym u16 = "16 word"
type_synonym u32 = "32 word"
type_synonym u64 = "64 word"

text \<open>A pointer is a 64-bit address; the null pointer is address 0.\<close>

type_synonym ptr = "64 word"

abbreviation NULL :: ptr where
  "NULL \<equiv> 0"

text \<open>The byte-addressed memory of the machine.\<close>

type_synonym memory = "u64 \<Rightarrow> u8"

text \<open>\<open>panic()\<close> does not return: a function that can panic returns a value of this sum.\<close>

datatype kpanic = Panic string

type_synonym 'a kres = "kpanic + 'a"

fun kbind :: "'a kres \<Rightarrow> ('a \<Rightarrow> 'b kres) \<Rightarrow> 'b kres" where
  "kbind (Inl p) f = Inl p"
| "kbind (Inr x) f = f x"

lemma kbind_Inr_iff: "kbind r f = Inr y \<longleftrightarrow> (\<exists>x. r = Inr x \<and> f x = Inr y)"
  by (cases r) auto

lemma kbind_InrE: "kbind r f = Inr y \<Longrightarrow> (\<And>x. r = Inr x \<Longrightarrow> f x = Inr y \<Longrightarrow> thesis) \<Longrightarrow> thesis"
  by (auto simp: kbind_Inr_iff)

named_theorems kernel_simps \<open>unfolding rules of the small kernel helpers\<close>
named_theorems wf_intros \<open>introduction rules for the invariants of the components\<close>

section \<open>Memory ranges\<close>

definition mem_fill :: "memory \<Rightarrow> u64 \<Rightarrow> nat \<Rightarrow> u8 \<Rightarrow> memory" where
  "mem_fill m a n v = (\<lambda>x. if unat (x - a) < n then v else m x)"

definition in_range :: "u64 \<Rightarrow> nat \<Rightarrow> u64 \<Rightarrow> bool" where
  "in_range a n x \<longleftrightarrow> unat (x - a) < n"

lemma mem_fill_in: "in_range a n x \<Longrightarrow> mem_fill m a n v x = v"
  by (simp add: mem_fill_def in_range_def)

lemma mem_fill_out: "\<not> in_range a n x \<Longrightarrow> mem_fill m a n v x = m x"
  by (simp add: mem_fill_def in_range_def)

section \<open>Words as bit vectors\<close>

lemma word_test_bit_and_mask:
  fixes w :: "'a::len word"
  shows "(w AND push_bit k 1 \<noteq> 0) \<longleftrightarrow> k < LENGTH('a) \<and> bit w k"
  by (auto simp: bit_eq_iff [where 'a = "'a word"] bit_simps)

lemma word_all_ones_iff:
  fixes w :: "'a::len word"
  shows "w = - 1 \<longleftrightarrow> (\<forall>k < LENGTH('a). bit w k)"
  by (auto simp: bit_eq_iff bit_simps)

text \<open>\<open>__builtin_ctzll\<close>: the number of trailing zero bits (undefined in C for 0, where the
  model returns the width).\<close>

definition ctz :: "'a::len word \<Rightarrow> nat" where
  "ctz w = length (takeWhile (\<lambda>k. \<not> bit w k) [0..<LENGTH('a)])"

lemma find_length_takeWhile:
  "find P xs = (let n = length (takeWhile (\<lambda>x. \<not> P x) xs) in
     if n < length xs then Some (xs ! n) else None)"
  by (induction xs) (auto simp: Let_def)

lemma find_ctz:
  fixes w :: "'a::len word"
  assumes "w \<noteq> 0"
  shows "find (bit w) [0..<LENGTH('a)] = Some (ctz w)"
proof -
  have "find (bit w) [0..<LENGTH('a)] \<noteq> None"
    using assms by (auto simp: find_None_iff bit_eq_iff bit_simps)
  then show ?thesis
    by (auto simp: find_length_takeWhile ctz_def Let_def split: if_splits)
qed

section \<open>Alignment arithmetic on 64-bit words\<close>

lemma unat_less_64: "unat (x::u64) < 2 ^ 64"
  using unsigned_less [of x, where ?'a = nat] by simp

lemma unat_exp_64: "k < 64 \<Longrightarrow> unat ((2::u64) ^ k) = 2 ^ k"
proof -
  assume "k < 64"
  then have "(2::nat) ^ k < 2 ^ 64" by (rule power_strict_increasing) simp
  then have "unat (of_nat (2 ^ k) :: u64) = 2 ^ k" unfolding unat_of_nat by (intro mod_less) simp
  then show ?thesis by simp
qed

lemma align_down_unat:
  fixes x :: u64
  assumes "k < 64"
  shows "unat (x AND NOT (2 ^ k - 1)) = unat x div 2 ^ k * 2 ^ k"
proof -
  have d: "unat (drop_bit k x) = unat x div 2 ^ k"
    using unat_drop_bit_eq [of k x] drop_bit_eq_div [of k "unat x"] by simp
  have "x AND NOT (2 ^ k - 1) = push_bit k (drop_bit k x)"
    by (rule bit_word_eqI) (auto simp: bit_simps mask_eq_exp_minus_1 [symmetric])
  also have "\<dots> = drop_bit k x * 2 ^ k" by (rule push_bit_eq_mult)
  finally have "unat (x AND NOT (2 ^ k - 1)) = (unat x div 2 ^ k * 2 ^ k) mod 2 ^ 64"
    by (simp only: unat_word_ariths d unat_exp_64 [OF assms] len_bit0 len_num1 mult_1_right) simp
  moreover have "unat x div 2 ^ k * 2 ^ k < 2 ^ 64"
    by (rule le_less_trans [OF div_times_less_eq_dividend unat_less_64])
  ultimately show ?thesis by simp
qed

text \<open>\<open>(addr + align - 1) & ~(align - 1)\<close> is the next multiple of the alignment.\<close>

lemma align_up_unat:
  fixes x :: u64
  assumes "k < 64" and "unat x + 2 ^ k \<le> 2 ^ 64"
  shows "unat ((x + 2 ^ k - 1) AND NOT (2 ^ k - 1)) = (unat x + 2 ^ k - 1) div 2 ^ k * 2 ^ k"
proof -
  have "unat ((2::u64) ^ k) = 2 ^ k" using assms(1) by (rule unat_exp_64)
  moreover have "(1::u64) \<le> 2 ^ k" using assms(1) by (simp add: word_le_nat_alt unat_exp_64)
  moreover note unat_exp_64 [OF assms(1)]
  ultimately have p: "unat ((2::u64) ^ k - 1) = 2 ^ k - 1" by (simp add: unat_sub)
  have "unat (x + (2 ^ k - 1)) = unat x + (2 ^ k - 1)"
    unfolding unat_word_ariths p using assms(2) by (intro mod_less) simp
  then show ?thesis
    using align_down_unat [OF assms(1), of "x + 2 ^ k - 1"] by (simp add: add_diff_eq)
qed


section \<open>Searching and counting over an interval\<close>

lemma find_append:
  "find P (xs @ ys) = (case find P xs of None \<Rightarrow> find P ys | Some x \<Rightarrow> Some x)"
  by (induction xs) auto

lemma find_upt_split:
  "a \<le> b \<Longrightarrow> b \<le> c \<Longrightarrow>
   find P [a..<c] = (case find P [a..<b] of None \<Rightarrow> find P [b..<c] | Some x \<Rightarrow> Some x)"
  using upt_add_eq_append [of a b "c - b"] by (simp add: find_append)

lemma find_upt_Some_iff:
  "find P [a..<b] = Some x \<longleftrightarrow> a \<le> x \<and> x < b \<and> P x \<and> (\<forall>y. a \<le> y \<and> y < x \<longrightarrow> \<not> P y)"
proof (cases "a \<le> b")
  case True
  show ?thesis
  proof
    assume "find P [a..<b] = Some x"
    then obtain i where i: "i < b - a" "P (a + i)" "x = a + i" "\<forall>j<i. \<not> P (a + j)"
      by (auto simp: find_Some_iff)
    have "\<not> P y" if "a \<le> y" "y < x" for y
      using i(4) [rule_format, of "y - a"] that i(3) by simp
    with i show "a \<le> x \<and> x < b \<and> P x \<and> (\<forall>y. a \<le> y \<and> y < x \<longrightarrow> \<not> P y)" by auto
  next
    assume "a \<le> x \<and> x < b \<and> P x \<and> (\<forall>y. a \<le> y \<and> y < x \<longrightarrow> \<not> P y)"
    then show "find P [a..<b] = Some x"
      by (auto simp: find_Some_iff intro!: exI [of _ "x - a"])
  qed
qed (auto)

lemma find_upt_None_iff:
  "find P [a..<b] = None \<longleftrightarrow> (\<forall>x. a \<le> x \<and> x < b \<longrightarrow> \<not> P x)"
  by (auto simp: find_None_iff)

lemma find_upt_skip:
  assumes "a \<le> b" and "\<And>x. a \<le> x \<Longrightarrow> x < b \<Longrightarrow> \<not> P x"
  shows "find P [a..<c] = find P [b..<c]"
proof (cases "b \<le> c")
  case True
  then show ?thesis
    using assms by (simp add: find_upt_split [of a b c] find_upt_None_iff [of P a b, THEN iffD2])
next
  case False
  then show ?thesis
    using assms(2) by (auto simp: find_upt_None_iff [of P a c, THEN iffD2])
qed

lemma interval_subset_iff:
  fixes p c :: nat
  shows "{p..<p + c} \<subseteq> S \<longleftrightarrow> (\<forall>k < c. p + k \<in> S)"
proof
  assume all: "\<forall>k < c. p + k \<in> S"
  show "{p..<p + c} \<subseteq> S"
  proof
    fix q assume "q \<in> {p..<p + c}"
    then have "p + (q - p) \<in> S" using all by (intro all [rule_format]) auto
    then show "q \<in> S" using \<open>q \<in> {p..<p + c}\<close> by simp
  qed
qed auto

definition clear_count :: "(nat \<Rightarrow> bool) \<Rightarrow> nat \<Rightarrow> nat" where
  "clear_count t n = length (filter (\<lambda>i. \<not> t i) [0..<n])"

lemma clear_count_card: "clear_count t n = card {i. i < n \<and> \<not> t i}"
proof -
  have "set (filter (\<lambda>i. \<not> t i) [0..<n]) = {i. i < n \<and> \<not> t i}" by auto
  moreover have "distinct (filter (\<lambda>i. \<not> t i) [0..<n])" by simp
  ultimately show ?thesis unfolding clear_count_def by (metis distinct_card)
qed

lemma clear_count_le: "clear_count t n \<le> n"
  unfolding clear_count_def by (metis diff_zero length_filter_le length_upt)

lemma clear_count_cong: "(\<And>i. i < n \<Longrightarrow> t i = t' i) \<Longrightarrow> clear_count t n = clear_count t' n"
  unfolding clear_count_def by (intro arg_cong [where f = length] filter_cong) auto

lemma clear_count_remove:
  assumes "i < n" and "\<not> t i" and "\<And>j. j < n \<Longrightarrow> t' j \<longleftrightarrow> j = i \<or> t j"
  shows "clear_count t n = Suc (clear_count t' n)"
proof -
  have "{j. j < n \<and> \<not> t j} = insert i {j. j < n \<and> \<not> t' j}"
    using assms by auto
  moreover have "i \<notin> {j. j < n \<and> \<not> t' j}" using assms by auto
  ultimately show ?thesis by (simp add: clear_count_card)
qed

lemma clear_count_zero_iff: "clear_count t n = 0 \<longleftrightarrow> (\<forall>i < n. t i)"
  by (auto simp: clear_count_def filter_empty_conv)

lemma clear_count_all_clear: "(\<And>i. i < n \<Longrightarrow> \<not> t i) \<Longrightarrow> clear_count t n = n"
  by (simp add: clear_count_def filter_id_conv [THEN iffD2])

section \<open>The interface of an allocation bitmap\<close>

text \<open>
  A bit array of fixed capacity: \<open>bset\<close> and \<open>bclr\<close> change exactly the bit they name.  The
  counting lemmas are what an allocator needs to keep its number of free units in step with
  its bitmap.
\<close>

locale bit_array =
  fixes btest :: "'b \<Rightarrow> nat \<Rightarrow> bool"
    and bset :: "'b \<Rightarrow> nat \<Rightarrow> 'b"
    and bclr :: "'b \<Rightarrow> nat \<Rightarrow> 'b"
    and bcap :: "'b \<Rightarrow> nat"
  assumes btest_bset: "i < bcap b \<Longrightarrow> btest (bset b i) j \<longleftrightarrow> j = i \<or> btest b j"
    and btest_bclr: "i < bcap b \<Longrightarrow> btest (bclr b i) j \<longleftrightarrow> j \<noteq> i \<and> btest b j"
    and bcap_bset: "bcap (bset b i) = bcap b"
    and bcap_bclr: "bcap (bclr b i) = bcap b"
begin

lemma count_bset:
  assumes "n \<le> bcap b" and "i < n" and "\<not> btest b i"
  shows "clear_count (btest b) n = Suc (clear_count (btest (bset b i)) n)"
  using assms by (intro clear_count_remove [of i]) (auto simp: btest_bset)

lemma count_bclr:
  assumes "n \<le> bcap b" and "i < n" and "btest b i"
  shows "clear_count (btest (bclr b i)) n = Suc (clear_count (btest b) n)"
  using assms by (intro clear_count_remove [of i]) (auto simp: btest_bclr)

lemma bcap_fold_bset: "bcap (fold (\<lambda>i b. bset b (s + i)) xs b) = bcap b"
  by (induction xs arbitrary: b) (auto simp: bcap_bset)

lemma btest_fold_bset:
  assumes "\<forall>i \<in> set xs. s + i < bcap b"
  shows "btest (fold (\<lambda>i b. bset b (s + i)) xs b) j \<longleftrightarrow> (\<exists>i \<in> set xs. j = s + i) \<or> btest b j"
  using assms by (induction xs arbitrary: b) (auto simp: btest_bset bcap_bset)

lemma count_fold_bset:
  assumes "n \<le> bcap b" and "s + c \<le> n" and "\<forall>i < c. \<not> btest b (s + i)"
  shows "clear_count (btest b) n = clear_count (btest (fold (\<lambda>i b. bset b (s + i)) [0..<c] b)) n + c"
  using assms
proof (induction c)
  case 0
  then show ?case by simp
next
  case (Suc c)
  let ?b = "fold (\<lambda>i b. bset b (s + i)) [0..<c] b"
  have "clear_count (btest b) n = clear_count (btest ?b) n + c"
    using Suc by simp
  moreover have "\<not> btest ?b (s + c)"
    using Suc.prems by (subst btest_fold_bset) auto
  then have "clear_count (btest ?b) n = Suc (clear_count (btest (bset ?b (s + c))) n)"
    using Suc.prems by (intro count_bset) (auto simp: bcap_fold_bset)
  ultimately show ?case by simp
qed

lemma bclr_bset_id:
  assumes "i < bcap b" and "\<not> btest b i"
  shows "btest (bclr (bset b i) i) = btest b"
  using assms by (auto simp: btest_bset btest_bclr bcap_bset)

end

section \<open>Increasing chains of subsets of a finite set\<close>

text \<open>A chain of sets that stops growing once two neighbours agree is complete after as many steps as
  its bound has elements: the fact behind the bounded walks and fixpoint loops of the kernel.\<close>

lemma chain_stable:
  fixes W :: "nat \<Rightarrow> 'a set"
  assumes grow: "\<And>n. W n \<subseteq> W (Suc n)"
    and stay: "\<And>n. W n = W (Suc n) \<Longrightarrow> W (Suc n) = W (Suc (Suc n))"
    and fin: "finite U" and sub: "\<And>n. W n \<subseteq> U"
  shows "W m \<subseteq> W (card U)"
proof (cases "\<exists>k \<le> card U. W k = W (Suc k)")
  case True
  then obtain k where k: "k \<le> card U" "W k = W (Suc k)" by blast
  have step: "W (k + i) = W (Suc (k + i))" for i
    by (induction i) (use k stay in auto)
  have const: "W (k + i) = W k" for i
    by (induction i) (use step in auto)
  have mono: "i \<le> j \<Longrightarrow> W i \<subseteq> W j" for i j
    using grow by (rule lift_Suc_mono_le)
  have "W m \<subseteq> W k"
    using mono [of m k] const [of "m - k"] by (cases "m \<le> k") auto
  then show ?thesis using mono [OF k(1)] by blast
next
  case False
  have "k \<le> Suc (card U) \<Longrightarrow> k \<le> card (W k)" for k
  proof (induction k)
    case (Suc k)
    then have "W k \<subset> W (Suc k)" using False grow [of k] by auto
    then have "card (W k) < card (W (Suc k))"
      using finite_subset [OF sub fin] by (rule psubset_card_mono [rotated])
    with Suc show ?case by simp
  qed simp
  then have "Suc (card U) \<le> card (W (Suc (card U)))" by simp
  also have "\<dots> \<le> card U" using sub fin by (rule card_mono [rotated])
  finally show ?thesis by simp
qed

end
