(* ===== verification/Pmm_Bitmap.thy ===== *)
theory Pmm_Bitmap
  imports Nexs_Prelude
begin

text \<open>
  The frame bitmaps of the physical memory manager (\<open>kernel/mm/pmm.c\<close>): an array of 64-bit
  words, one bit per page frame, 1 for an allocated frame.  The two searches are translated
  with their word-level fast paths and proved equal to bit-by-bit reference searches.
  A bit index is a \<open>nat\<close>: it is below 64 times the length of an array in memory, so the
  \<open>uint64_t\<close> arithmetic of the source cannot wrap.
\<close>

type_synonym bitmap = "u64 list"

section \<open>Single bits\<close>

definition bitmap_set :: "bitmap \<Rightarrow> nat \<Rightarrow> bitmap" where
  "bitmap_set bm b = bm[b div 64 := (bm ! (b div 64)) OR push_bit (b mod 64) 1]"

definition bitmap_clear :: "bitmap \<Rightarrow> nat \<Rightarrow> bitmap" where
  "bitmap_clear bm b = bm[b div 64 := (bm ! (b div 64)) AND NOT (push_bit (b mod 64) 1)]"

definition bitmap_test :: "bitmap \<Rightarrow> nat \<Rightarrow> bool" where
  "bitmap_test bm b \<longleftrightarrow> (bm ! (b div 64)) AND push_bit (b mod 64) 1 \<noteq> 0"

section \<open>Searching for one free frame\<close>

text \<open>
  The three loops of \<open>bitmap_find_free\<close>.  The first two return \<open>Inl i\<close> when they find the
  free bit \<open>i\<close> (the \<open>return\<close> inside the loop) and \<open>Inr i\<close> with the loop index when they end.
\<close>

function find_free_head :: "bitmap \<Rightarrow> nat \<Rightarrow> nat \<Rightarrow> nat + nat" where
  "find_free_head bm i e =
     (if i < e \<and> i mod 64 \<noteq> 0
      then if \<not> bitmap_test bm i then Inl i else find_free_head bm (i + 1) e
      else Inr i)"
  by pat_completeness auto
termination
  by (relation "measure (\<lambda>(bm, i, e). e - i)") auto

function find_free_body :: "bitmap \<Rightarrow> nat \<Rightarrow> nat \<Rightarrow> nat + nat" where
  "find_free_body bm i e =
     (if i + 64 \<le> e
      then let w = bm ! (i div 64)
           in if w \<noteq> - 1 then Inl (i + ctz (NOT w)) else find_free_body bm (i + 64) e
      else Inr i)"
  by pat_completeness auto
termination
  by (relation "measure (\<lambda>(bm, i, e). e - i)") auto

function find_free_tail :: "bitmap \<Rightarrow> nat \<Rightarrow> nat \<Rightarrow> nat option" where
  "find_free_tail bm i e =
     (if i < e
      then if \<not> bitmap_test bm i then Some i else find_free_tail bm (i + 1) e
      else None)"
  by pat_completeness auto
termination
  by (relation "measure (\<lambda>(bm, i, e). e - i)") auto

definition bitmap_find_free :: "bitmap \<Rightarrow> nat \<Rightarrow> nat \<Rightarrow> nat option" where
  "bitmap_find_free bm start e =
     (case find_free_head bm start e of
        Inl i \<Rightarrow> Some i
      | Inr i \<Rightarrow>
         (case find_free_body bm i e of
            Inl j \<Rightarrow> Some j
          | Inr j \<Rightarrow> find_free_tail bm j e))"

section \<open>Searching for a run of free frames\<close>

function find_contiguous_loop ::
  "bitmap \<Rightarrow> nat \<Rightarrow> nat \<Rightarrow> nat \<Rightarrow> nat \<Rightarrow> nat \<Rightarrow> nat option" where
  "find_contiguous_loop bm e count found first i =
     (if i < e
      then if found = 0 \<and> i mod 64 = 0 \<and> i + 64 \<le> e \<and> bm ! (i div 64) = - 1
           then find_contiguous_loop bm e count found first (i + 64)
           else if \<not> bitmap_test bm i
           then let first' = (if found = 0 then i else first)
                in if found + 1 = count then Some first'
                   else find_contiguous_loop bm e count (found + 1) first' (i + 1)
           else find_contiguous_loop bm e count 0 first (i + 1)
      else None)"
  by pat_completeness auto
termination
  by (relation "measure (\<lambda>(bm, e, count, found, first, i). e - i)") auto

definition bitmap_find_contiguous :: "bitmap \<Rightarrow> nat \<Rightarrow> nat \<Rightarrow> nat \<Rightarrow> nat option" where
  "bitmap_find_contiguous bm start e count = find_contiguous_loop bm e count 0 0 start"

declare find_free_head.simps [simp del] find_free_body.simps [simp del]
  find_free_tail.simps [simp del] find_contiguous_loop.simps [simp del]

section \<open>The bitmap is a bit array\<close>

definition bitmap_cap :: "bitmap \<Rightarrow> nat" where
  "bitmap_cap bm = 64 * length bm"

lemma bitmap_test_bit: "bitmap_test bm b \<longleftrightarrow> bit (bm ! (b div 64)) (b mod 64)"
  unfolding bitmap_test_def word_test_bit_and_mask by simp

lemma same_bit_iff: "(j::nat) = i \<longleftrightarrow> j div 64 = i div 64 \<and> j mod 64 = i mod 64"
  by (metis div_mult_mod_eq)

interpretation fb: bit_array bitmap_test bitmap_set bitmap_clear bitmap_cap
proof
  fix bm :: bitmap and i j :: nat
  assume "i < bitmap_cap bm"
  then have l: "i div 64 < length bm" by (simp add: bitmap_cap_def less_mult_imp_div_less mult.commute)
  show "bitmap_test (bitmap_set bm i) j \<longleftrightarrow> j = i \<or> bitmap_test bm j"
    using l by (cases "j div 64 = i div 64")
      (auto simp: bitmap_test_bit bitmap_set_def bit_simps same_bit_iff [of j i])
  show "bitmap_test (bitmap_clear bm i) j \<longleftrightarrow> j \<noteq> i \<and> bitmap_test bm j"
    using l by (cases "j div 64 = i div 64")
      (auto simp: bitmap_test_bit bitmap_clear_def bit_simps same_bit_iff [of j i])
qed (simp_all add: bitmap_cap_def bitmap_set_def bitmap_clear_def)

section \<open>The searches against their references\<close>

lemma find_free_tail_find:
  "find_free_tail bm i e = find (\<lambda>j. \<not> bitmap_test bm j) [i..<e]"
proof (induction bm i e rule: find_free_tail.induct)
  case (1 bm i e)
  then show ?case
    by (cases "i < e") (simp_all add: find_free_tail.simps [of bm i e] upt_conv_Cons)
qed

text \<open>What a loop that may stop early says about the rest of the search.\<close>

definition found_or :: "nat + nat \<Rightarrow> (nat \<Rightarrow> nat option) \<Rightarrow> nat option" where
  "found_or r k = (case r of Inl i \<Rightarrow> Some i | Inr i \<Rightarrow> k i)"

lemma find_free_head_find:
  "found_or (find_free_head bm i e) (\<lambda>k. find (\<lambda>j. \<not> bitmap_test bm j) [k..<e])
     = find (\<lambda>j. \<not> bitmap_test bm j) [i..<e]"
proof (induction bm i e rule: find_free_head.induct)
  case (1 bm i e)
  then show ?case
    by (cases "i < e \<and> i mod 64 \<noteq> 0")
      (auto simp: find_free_head.simps [of bm i e] found_or_def upt_conv_Cons)
qed

lemma find_free_head_aligned:
  "find_free_head bm i e = Inr k \<Longrightarrow> k mod 64 = 0 \<or> e \<le> k"
proof (induction bm i e rule: find_free_head.induct)
  case (1 bm i e)
  then show ?case
    by (auto simp: find_free_head.simps [of bm i e] split: if_splits)
qed

text \<open>A 64-bit word scanned at once is the 64 single-bit tests of its interval.\<close>

lemma find_word:
  assumes "i mod 64 = 0"
  shows "find (\<lambda>j. \<not> bitmap_test bm j) [i..<i + 64] =
    (if bm ! (i div 64) = - 1 then None else Some (i + ctz (NOT (bm ! (i div 64)))))"
proof -
  let ?w = "bm ! (i div 64)"
  have bits: "bitmap_test bm (i + k) \<longleftrightarrow> bit ?w k" if "k < 64" for k
    using that assms by (auto simp: bitmap_test_bit mod_add_eq [symmetric] div_add1_eq [of i])
  show ?thesis
  proof (cases "?w = - 1")
    case True
    have "bitmap_test bm x" if "i \<le> x" "x < i + 64" for x
      using bits [of "x - i"] that True by simp
    with True show ?thesis by (simp add: find_upt_None_iff)
  next
    case False
    then have "NOT ?w \<noteq> 0" by (metis bit.double_compl bit.compl_zero)
    then have "find (bit (NOT ?w)) [0..<64] = Some (ctz (NOT ?w))"
      using find_ctz [of "NOT ?w"] by simp
    then have c: "ctz (NOT ?w) < 64" "bit (NOT ?w) (ctz (NOT ?w))"
      "\<forall>y < ctz (NOT ?w). \<not> bit (NOT ?w) y"
      by (auto simp: find_upt_Some_iff)
    have "bitmap_test bm y" if "i \<le> y" "y < i + ctz (NOT ?w)" for y
      using bits [of "y - i"] c(1) c(3) [rule_format, of "y - i"] that by (simp add: bit_simps)
    with False c bits show ?thesis
      by (simp add: find_upt_Some_iff bit_simps)
  qed
qed

lemma find_free_body_find:
  "i mod 64 = 0 \<or> e \<le> i \<Longrightarrow>
   found_or (find_free_body bm i e) (\<lambda>k. find (\<lambda>j. \<not> bitmap_test bm j) [k..<e])
     = find (\<lambda>j. \<not> bitmap_test bm j) [i..<e]"
proof (induction bm i e rule: find_free_body.induct)
  case (1 bm i e)
  show ?case
  proof (cases "i + 64 \<le> e")
    case True
    with "1.prems" have "i mod 64 = 0" by auto
    with True "1" show ?thesis
      by (auto simp: find_free_body.simps [of bm i e] found_or_def Let_def
          find_upt_split [of i "i + 64" e] find_word)
  next
    case False
    then show ?thesis by (simp add: find_free_body.simps [of bm i e] found_or_def)
  qed
qed

text \<open>The reference search for a run: the first position from which \<open>count\<close> bits are clear.\<close>

definition free_run :: "bitmap \<Rightarrow> nat \<Rightarrow> nat \<Rightarrow> bool" where
  "free_run bm count f = list_all (\<lambda>k. \<not> bitmap_test bm (f + k)) [0..<count]"

lemma free_run_iff: "free_run bm count f \<longleftrightarrow> (\<forall>k < count. \<not> bitmap_test bm (f + k))"
  by (auto simp: free_run_def list_all_iff)

lemma full_word_test:
  assumes "i mod 64 = 0" and "bm ! (i div 64) = - 1" and "i \<le> x" and "x < i + 64"
  shows "bitmap_test bm x"
  using find_word [OF assms(1), of bm] assms(2-) by (auto simp: find_upt_None_iff)

lemma find_contiguous_loop_find:
  assumes "found < count" and "found \<le> i"
    and "found \<noteq> 0 \<Longrightarrow> first = i - found"
    and "\<And>k. k < found \<Longrightarrow> \<not> bitmap_test bm (i - found + k)"
  shows "find_contiguous_loop bm e count found first i = find (free_run bm count) [i - found..<Suc e - count]"
  using assms
proof (induction bm e count found first i rule: find_contiguous_loop.induct)
  case (1 bm e count found first i)
  note loop = find_contiguous_loop.simps [of bm e count found first i]
  consider (past) "e \<le> i"
    | (skip) "i < e" "found = 0 \<and> i mod 64 = 0 \<and> i + 64 \<le> e \<and> bm ! (i div 64) = - 1"
    | (hit) "i < e" "\<not> (found = 0 \<and> i mod 64 = 0 \<and> i + 64 \<le> e \<and> bm ! (i div 64) = - 1)"
        "\<not> bitmap_test bm i" "found + 1 = count"
    | (free) "i < e" "\<not> (found = 0 \<and> i mod 64 = 0 \<and> i + 64 \<le> e \<and> bm ! (i div 64) = - 1)"
        "\<not> bitmap_test bm i" "found + 1 \<noteq> count"
    | (used) "i < e" "\<not> (found = 0 \<and> i mod 64 = 0 \<and> i + 64 \<le> e \<and> bm ! (i div 64) = - 1)"
        "bitmap_test bm i"
    by linarith
  then show ?case
  proof cases
    case past
    with "1.prems" show ?thesis by (simp add: loop)
  next
    case skip
    then have "find (free_run bm count) [i..<Suc e - count] = find (free_run bm count) [i + 64..<Suc e - count]"
      using "1.prems" by (intro find_upt_skip)
        (auto simp: free_run_iff intro!: exI [of _ 0] full_word_test [of i])
    moreover have "find_contiguous_loop bm e count found first (i + 64)
        = find (free_run bm count) [i + 64..<Suc e - count]"
      using "1.IH"(1) [OF skip] "1.prems" skip by simp
    ultimately show ?thesis using skip by (subst loop) simp
  next
    case hit
    have "\<not> bitmap_test bm (i - found + k)" if "k < count" for k
      using "1.prems"(2) "1.prems"(4) [of k] hit that by (cases "k < found") (auto simp: less_Suc_eq)
    then have "find (free_run bm count) [i - found..<Suc e - count] = Some (i - found)"
      using hit "1.prems" by (simp add: find_upt_Some_iff free_run_iff) linarith
    with hit "1.prems" show ?thesis by (auto simp: loop)
  next
    case free
    have "\<not> bitmap_test bm (Suc i - Suc found + k)" if "k < Suc found" for k
      using "1.prems"(2) "1.prems"(4) [of k] free that by (cases "k < found") (auto simp: less_Suc_eq)
    then show ?thesis
      using "1.IH"(2) [OF free(1-3) refl free(4)] "1.prems" free by (auto simp: loop Let_def)
  next
    case used
    have "\<not> free_run bm count x" if "i - found \<le> x" "x < Suc i" for x
      using used that "1.prems"(1,2) by (auto simp: free_run_iff intro!: exI [of _ "i - x"])
    then have "find (free_run bm count) [i - found..<Suc e - count] = find (free_run bm count) [Suc i..<Suc e - count]"
      by (intro find_upt_skip) auto
    moreover have "find_contiguous_loop bm e count 0 first (i + 1)
        = find (free_run bm count) [Suc i..<Suc e - count]"
      using "1.IH"(3) [OF used(1,2)] used(3) "1.prems" by simp
    ultimately show ?thesis using used by (auto simp: loop)
  qed
qed

section \<open>The correctness of the searches\<close>

lemma bitmap_find_free_find:
  "bitmap_find_free bm s e = find (\<lambda>j. \<not> bitmap_test bm j) [s..<e]"
proof -
  have "bitmap_find_free bm s e = found_or (find_free_head bm s e)
      (\<lambda>i. found_or (find_free_body bm i e) (\<lambda>k. find (\<lambda>j. \<not> bitmap_test bm j) [k..<e]))"
    by (auto simp: bitmap_find_free_def found_or_def find_free_tail_find split: sum.splits)
  also have "\<dots> = found_or (find_free_head bm s e) (\<lambda>i. find (\<lambda>j. \<not> bitmap_test bm j) [i..<e])"
    using find_free_head_aligned [of bm s e]
    by (auto simp: found_or_def find_free_body_find [unfolded found_or_def] split: sum.splits)
  finally show ?thesis by (simp add: find_free_head_find)
qed

lemma bitmap_find_contiguous_find:
  "0 < count \<Longrightarrow> bitmap_find_contiguous bm s e count = find (free_run bm count) [s..<Suc e - count]"
  using find_contiguous_loop_find [of 0 count s 0 bm e] by (simp add: bitmap_find_contiguous_def)

lemma bitmap_find_contiguous_SomeD:
  assumes "bitmap_find_contiguous bm s e count = Some f" and "0 < count"
  shows "s \<le> f \<and> f + count \<le> e \<and> (\<forall>k < count. \<not> bitmap_test bm (f + k))"
  using assms by (auto simp: bitmap_find_contiguous_find find_upt_Some_iff free_run_iff)

section \<open>The searches against their reference\<close>

text \<open>The three-phase search (bits up to a word boundary, whole words with a count of trailing
  zeros, remaining bits) returns exactly what a bit-by-bit scan of the interval returns: the first
  clear bit, or nothing when every bit is set.\<close>

theorem bitmap_find_free_correct:
  "(bitmap_find_free bm s e = Some j \<longleftrightarrow> s \<le> j \<and> j < e \<and> \<not> bitmap_test bm j \<and> (\<forall>i. s \<le> i \<and> i < j \<longrightarrow> bitmap_test bm i))
   \<and> (bitmap_find_free bm s e = None \<longleftrightarrow> (\<forall>i. s \<le> i \<and> i < e \<longrightarrow> bitmap_test bm i))"
  unfolding bitmap_find_free_find find_upt_Some_iff find_upt_None_iff by auto

theorem bitmap_find_free_correct_witness:
  "bitmap_find_free [0xFFFFFFFFFFFFFFFF, 7] 3 100 = Some 67 \<and> \<not> bitmap_test [0xFFFFFFFFFFFFFFFF, 7] 67"
proof -
  have "bitmap_find_free [0xFFFFFFFFFFFFFFFF, 7] 3 100 = Some 67" by code_simp
  then show ?thesis using bitmap_find_free_correct [of "[0xFFFFFFFFFFFFFFFF, 7]" 3 100 67] by simp
qed

text \<open>The contiguous search, which skips full words and restarts after every set bit, finds the lowest
  run of \<open>count\<close> clear bits inside the interval, and reports failure only when there is none.\<close>

theorem bitmap_find_contiguous_correct:
  assumes "0 < count"
  shows "(bitmap_find_contiguous bm s e count = Some f \<longleftrightarrow>
            s \<le> f \<and> f + count \<le> e \<and> free_run bm count f \<and> (\<forall>g. s \<le> g \<and> g < f \<longrightarrow> \<not> free_run bm count g))
       \<and> (bitmap_find_contiguous bm s e count = None \<longleftrightarrow> (\<forall>g. s \<le> g \<and> g + count \<le> e \<longrightarrow> \<not> free_run bm count g))"
  using assms unfolding bitmap_find_contiguous_find [OF assms] find_upt_Some_iff find_upt_None_iff
  by (auto simp: less_diff_conv)

theorem bitmap_find_contiguous_correct_witness:
  "bitmap_find_contiguous [0xFFFFFFFFFFFFFF5F, 0xF1] 0 128 3 = Some 65 \<and> free_run [0xFFFFFFFFFFFFFF5F, 0xF1] 3 65"
proof -
  have "bitmap_find_contiguous [0xFFFFFFFFFFFFFF5F, 0xF1] 0 128 3 = Some 65" by code_simp
  then show ?thesis using bitmap_find_contiguous_correct [of 3 "[0xFFFFFFFFFFFFFF5F, 0xF1]" 0 128 65] by simp
qed

end
