(* ===== verification/Pmm.thy ===== *)
theory Pmm
  imports Pmm_Bitmap
begin

text \<open>
  The physical memory manager (\<open>kernel/mm/pmm.c\<close>, \<open>kernel/include/kernel/pmm.h\<close>): two zones
  of page frames with a bitmap each, an array of page descriptors, and the global counters.
  Every operation is a function of the manager's state; the zone lock makes each of them
  atomic, so a run of the manager is a sequence of these functions.  Frame numbers are
  \<open>nat\<close> (they index \<open>page_array\<close>, at most \<open>2 ^ 26\<close> entries), addresses and counters are
  64-bit words.  The field \<open>search_ticks\<close> is the difference of the two timer readings around
  a bitmap search, an input from the hardware; \<open>dma_log\<close> records the ranges that were
  cache-cleaned and fenced.  Log output is not modelled.
\<close>

section \<open>Layout of the two architectures\<close>

datatype arch = AARCH64 | AMD64

fun KERNEL_VIRT_BASE :: "arch \<Rightarrow> u64" where
  "KERNEL_VIRT_BASE AARCH64 = 0xFFFF000000000000"
| "KERNEL_VIRT_BASE AMD64 = 0xFFFF800000000000"

fun MEMORY_BASE :: "arch \<Rightarrow> u64" where
  "MEMORY_BASE AARCH64 = 0x40000000"
| "MEMORY_BASE AMD64 = 0"

abbreviation PAGE_SIZE :: nat where
  "PAGE_SIZE \<equiv> 4096"

definition phys_to_virt :: "arch \<Rightarrow> u64 \<Rightarrow> ptr" where
  "phys_to_virt a phys = phys + KERNEL_VIRT_BASE a"

definition virt_to_phys :: "arch \<Rightarrow> ptr \<Rightarrow> u64" where
  "virt_to_phys a virt = virt - KERNEL_VIRT_BASE a"

definition phys_to_pfn :: "u64 \<Rightarrow> nat" where
  "phys_to_pfn phys = unat (drop_bit 12 phys)"

definition pfn_to_phys :: "nat \<Rightarrow> u64" where
  "pfn_to_phys pfn = push_bit 12 (of_nat pfn)"

section \<open>Page descriptors, zones and the state of the manager\<close>

record page =
  pg_flags :: u32
  pg_refcount :: u32

definition PG_RESERVED :: u32 where "PG_RESERVED = 1"
definition PG_KERNEL :: u32 where "PG_KERNEL = 2"

record zone =
  z_name :: string
  z_start_pfn :: nat
  z_end_pfn :: nat
  z_free_pages :: u64
  z_bitmap :: bitmap
  z_next_free_pfn :: nat

datatype zone_id = ZONE_DMA | ZONE_NORMAL

record pmm =
  pmm_arch :: arch
  page_array_va :: ptr
  page_array :: "page list"
  zones :: "zone_id \<Rightarrow> zone"
  total_pages :: nat
  free_pages :: u64
  usable_pages :: nat
  pmm_metadata_end_phys :: u64
  stat_alloc_calls :: u64
  stat_free_calls :: u64
  stat_alloc_search_ticks_total :: u64
  stat_alloc_search_ticks_max :: u64
  ram :: memory
  dma_log :: "(ptr \<times> nat) list"
  search_ticks :: u64

definition zone_npages :: "zone \<Rightarrow> nat" where
  "zone_npages z = z_end_pfn z - z_start_pfn z"

text \<open>The kernel virtual address of a page frame.\<close>

definition frame_addr :: "arch \<Rightarrow> nat \<Rightarrow> ptr" where
  "frame_addr a pfn = phys_to_virt a (MEMORY_BASE a + pfn_to_phys pfn)"

section \<open>Zone construction and reservation\<close>

definition zone_init :: "string \<Rightarrow> nat \<Rightarrow> nat \<Rightarrow> zone" where
  "zone_init name start_pfn end_pfn =
     \<lparr>z_name = name, z_start_pfn = start_pfn, z_end_pfn = end_pfn,
      z_free_pages = of_nat (end_pfn - start_pfn),
      z_bitmap = replicate ((end_pfn - start_pfn + 63) div 64) 0,
      z_next_free_pfn = 0\<rparr>"

text \<open>The descriptor update of a fresh allocation: \<open>flags = 0\<close>, \<open>refcount = 1\<close>.\<close>

definition page_fresh :: "page list \<Rightarrow> nat \<Rightarrow> page list" where
  "page_fresh pa pfn = pa[pfn := (pa ! pfn)\<lparr>pg_flags := 0, pg_refcount := 1\<rparr>]"

text \<open>One iteration of the reservation loop: frame \<open>pfn\<close> below \<open>total_pages\<close>.\<close>

definition reserve_frame :: "nat \<Rightarrow> pmm \<Rightarrow> pmm" where
  "reserve_frame pfn s =
     (let pg = page_array s ! pfn in
      if pg_flags pg AND PG_RESERVED \<noteq> 0 then s
      else
        let zi = (if pfn < z_end_pfn (zones s ZONE_DMA) then ZONE_DMA else ZONE_NORMAL);
            z = zones s zi;
            zp = (if pfn < z_end_pfn (zones s ZONE_DMA) then pfn
                  else pfn - z_end_pfn (zones s ZONE_DMA))
        in s\<lparr>page_array := (page_array s)[pfn :=
               pg\<lparr>pg_flags := PG_RESERVED OR PG_KERNEL, pg_refcount := 1\<rparr>],
             zones := (zones s)(zi := z\<lparr>z_bitmap := bitmap_set (z_bitmap z) zp,
                                        z_free_pages := z_free_pages z - 1\<rparr>),
             free_pages := free_pages s - 1\<rparr>)"

function pmm_reserve_range :: "nat \<Rightarrow> nat \<Rightarrow> pmm \<Rightarrow> pmm" where
  "pmm_reserve_range pfn end_pfn s =
     (if pfn < end_pfn
      then if pfn \<ge> total_pages s then s
           else pmm_reserve_range (pfn + 1) end_pfn (reserve_frame pfn s)
      else s)"
  by pat_completeness auto
termination
  by (relation "measure (\<lambda>(pfn, end_pfn, s). end_pfn - pfn)") auto

declare pmm_reserve_range.simps [simp del]

section \<open>Allocation\<close>

text \<open>The bookkeeping at the end of both allocation paths.\<close>

definition alloc_stats :: "nat \<Rightarrow> pmm \<Rightarrow> pmm" where
  "alloc_stats count s =
     s\<lparr>free_pages := free_pages s - of_nat count,
       stat_alloc_calls := stat_alloc_calls s + 1,
       stat_alloc_search_ticks_total := stat_alloc_search_ticks_total s + search_ticks s,
       stat_alloc_search_ticks_max :=
         (if search_ticks s > stat_alloc_search_ticks_max s then search_ticks s
          else stat_alloc_search_ticks_max s)\<rparr>"

definition zone_alloc_page :: "zone_id \<Rightarrow> bool \<Rightarrow> pmm \<Rightarrow> ptr \<times> pmm" where
  "zone_alloc_page zi dma s =
     (let z = zones s zi;
          npages = z_end_pfn z - z_start_pfn z;
          found = (case bitmap_find_free (z_bitmap z) (z_next_free_pfn z) npages of
                     Some p \<Rightarrow> Some p
                   | None \<Rightarrow> bitmap_find_free (z_bitmap z) 0 (z_next_free_pfn z))
      in case found of
           None \<Rightarrow> (NULL, s)
         | Some pfn \<Rightarrow>
            let z' = z\<lparr>z_next_free_pfn := (pfn + 1) mod npages,
                       z_bitmap := bitmap_set (z_bitmap z) pfn,
                       z_free_pages := z_free_pages z - 1\<rparr>;
                abs_pfn = z_start_pfn z + pfn;
                addr = phys_to_virt (pmm_arch s) (MEMORY_BASE (pmm_arch s) + pfn_to_phys abs_pfn)
            in (addr,
                alloc_stats 1
                  (s\<lparr>zones := (zones s)(zi := z'),
                     page_array := page_fresh (page_array s) abs_pfn,
                     ram := mem_fill (ram s) addr PAGE_SIZE 0,
                     dma_log := (if dma then (addr, PAGE_SIZE) # dma_log s else dma_log s)\<rparr>)))"

definition alloc_page_impl :: "bool \<Rightarrow> pmm \<Rightarrow> ptr \<times> pmm" where
  "alloc_page_impl dma s =
     (let (page, s1) = zone_alloc_page ZONE_NORMAL dma s
      in if page = NULL then zone_alloc_page ZONE_DMA dma s1 else (page, s1))"

definition pmm_alloc_page :: "pmm \<Rightarrow> ptr \<times> pmm" where
  "pmm_alloc_page s = alloc_page_impl False s"

definition pmm_alloc_page_dma :: "pmm \<Rightarrow> ptr \<times> pmm" where
  "pmm_alloc_page_dma s = alloc_page_impl True s"

definition alloc_pages_impl :: "nat \<Rightarrow> bool \<Rightarrow> pmm \<Rightarrow> ptr \<times> pmm" where
  "alloc_pages_impl count dma s =
     (if count = 0 then (NULL, s)
      else if count = 1 then (if dma then pmm_alloc_page_dma s else pmm_alloc_page s)
      else
        let z = zones s ZONE_NORMAL in
        case bitmap_find_contiguous (z_bitmap z) 0 (z_end_pfn z - z_start_pfn z) count of
          None \<Rightarrow> (NULL, s)
        | Some pfn \<Rightarrow>
           let z' = z\<lparr>z_bitmap := fold (\<lambda>i bm. bitmap_set bm (pfn + i)) [0..<count] (z_bitmap z),
                      z_free_pages := z_free_pages z - of_nat count\<rparr>;
               abs_pfn = z_start_pfn z + pfn;
               addr = phys_to_virt (pmm_arch s) (MEMORY_BASE (pmm_arch s) + pfn_to_phys abs_pfn)
           in (addr,
               alloc_stats count
                 (s\<lparr>zones := (zones s)(ZONE_NORMAL := z'),
                    page_array := fold (\<lambda>i pa. page_fresh pa (abs_pfn + i)) [0..<count] (page_array s),
                    ram := mem_fill (ram s) addr (PAGE_SIZE * count) 0,
                    dma_log := (if dma then (addr, PAGE_SIZE * count) # dma_log s else dma_log s)\<rparr>)))"

definition pmm_alloc_pages :: "nat \<Rightarrow> pmm \<Rightarrow> ptr \<times> pmm" where
  "pmm_alloc_pages count s = alloc_pages_impl count False s"

definition pmm_alloc_pages_dma :: "nat \<Rightarrow> pmm \<Rightarrow> ptr \<times> pmm" where
  "pmm_alloc_pages_dma count s = alloc_pages_impl count True s"

section \<open>Release\<close>

text \<open>
  \<open>pmm_free_page\<close>.  The guard \<open>phys < MEMORY_BASE\<close> of the source is under
  \<open>#if ARCH_MEMORY_BASE > 0\<close>; no file defines that macro, so it is not compiled and the
  model does not have it.
\<close>

definition pmm_free_page :: "ptr \<Rightarrow> pmm \<Rightarrow> pmm kres" where
  "pmm_free_page page s =
     (if page = NULL then Inr s
      else
        let phys = virt_to_phys (pmm_arch s) page;
            pfn = phys_to_pfn (phys - MEMORY_BASE (pmm_arch s))
        in if pfn \<ge> total_pages s then Inr s
           else
             let pg = page_array s ! pfn in
             if pg_flags pg AND PG_RESERVED \<noteq> 0 then Inr s
             else
               let s1 = s\<lparr>page_array := (page_array s)[pfn := pg\<lparr>pg_refcount := pg_refcount pg - 1\<rparr>]\<rparr>
               in if pg_refcount pg > 1 then Inr s1
                  else
                    let zi = (if pfn < z_end_pfn (zones s1 ZONE_DMA) then ZONE_DMA else ZONE_NORMAL);
                        zone_pfn = (if pfn < z_end_pfn (zones s1 ZONE_DMA) then pfn
                                    else pfn - z_end_pfn (zones s1 ZONE_DMA));
                        z = zones s1 zi
                    in if \<not> bitmap_test (z_bitmap z) zone_pfn
                       then Inl (Panic ''PMM: Double free detected'')
                       else Inr (s1\<lparr>zones := (zones s1)(zi := z\<lparr>z_bitmap := bitmap_clear (z_bitmap z) zone_pfn,
                                                               z_free_pages := z_free_pages z + 1\<rparr>),
                                    ram := mem_fill (ram s1) page PAGE_SIZE 0xCC,
                                    free_pages := free_pages s1 + 1,
                                    stat_free_calls := stat_free_calls s1 + 1\<rparr>))"

fun free_pages_loop :: "ptr \<Rightarrow> nat list \<Rightarrow> pmm \<Rightarrow> pmm kres" where
  "free_pages_loop va [] s = Inr s"
| "free_pages_loop va (i # is) s =
     kbind (pmm_free_page (va + of_nat (i * PAGE_SIZE)) s) (free_pages_loop va is)"

definition pmm_free_pages :: "ptr \<Rightarrow> nat \<Rightarrow> pmm \<Rightarrow> pmm kres" where
  "pmm_free_pages page count s = free_pages_loop page [0..<count] s"

definition pmm_alloc_aligned :: "u64 \<Rightarrow> u64 \<Rightarrow> pmm \<Rightarrow> (ptr \<times> pmm) kres" where
  "pmm_alloc_aligned sz align s =
     (let pages = (sz + 4095) div 4096;
          align_pages = (align + 4095) div 4096
      in if align_pages \<le> 1 then Inr (pmm_alloc_pages_dma (unat pages) s)
         else
           let total = pages + align_pages - 1;
               (mem, s1) = pmm_alloc_pages_dma (unat total) s
           in if mem = NULL then Inr (NULL, s1)
              else
                let aligned = (mem + align - 1) AND NOT (align - 1);
                    skip = (aligned - mem) div 4096;
                    unused = total - skip - pages
                in kbind (if skip > 0 then pmm_free_pages mem (unat skip) s1 else Inr s1)
                     (\<lambda>s2. kbind (if unused > 0 then pmm_free_pages (aligned + pages * 4096) (unat unused) s2
                                  else Inr s2)
                       (\<lambda>s3. Inr (aligned, s3))))"

section \<open>Descriptors, statistics\<close>

definition pmm_phys_to_page :: "u64 \<Rightarrow> pmm \<Rightarrow> nat option" where
  "pmm_phys_to_page phys s =
     (let pfn = phys_to_pfn (phys - MEMORY_BASE (pmm_arch s))
      in if pfn \<ge> total_pages s then None else Some pfn)"

definition pmm_page_to_phys :: "nat \<Rightarrow> pmm \<Rightarrow> u64" where
  "pmm_page_to_phys pfn s = MEMORY_BASE (pmm_arch s) + pfn_to_phys pfn"

definition pmm_get_counters :: "pmm \<Rightarrow> u64 \<times> u64 \<times> u64 \<times> u64" where
  "pmm_get_counters s = (stat_alloc_calls s, stat_free_calls s,
     stat_alloc_search_ticks_total s, stat_alloc_search_ticks_max s)"

text \<open>The fragmentation scan: its four local variables and the step for one bit.\<close>

record frag =
  fr_cur :: nat
  fr_max :: nat
  fr_runs :: nat
  fr_in_run :: bool

definition frag_extend :: "nat \<Rightarrow> frag \<Rightarrow> frag" where
  "frag_extend n f =
     (let f1 = (if \<not> fr_in_run f then f\<lparr>fr_in_run := True, fr_runs := fr_runs f + 1, fr_cur := 0\<rparr> else f);
          cur = fr_cur f1 + n
      in f1\<lparr>fr_cur := cur, fr_max := (if cur > fr_max f1 then cur else fr_max f1)\<rparr>)"

definition frag_close :: "frag \<Rightarrow> frag" where
  "frag_close f = f\<lparr>fr_in_run := False, fr_cur := 0\<rparr>"

definition frag_bit :: "bool \<Rightarrow> frag \<Rightarrow> frag" where
  "frag_bit used f = (if \<not> used then frag_extend 1 f else frag_close f)"

definition frag_word :: "bitmap \<Rightarrow> nat \<Rightarrow> nat \<Rightarrow> nat \<Rightarrow> frag \<Rightarrow> frag" where
  "frag_word bm npages nwords wi f =
     (let w = bm ! wi;
          bits = (if wi = nwords - 1 \<and> npages mod 64 \<noteq> 0 then npages mod 64 else 64)
      in if w = 0 \<and> bits = 64 then frag_extend 64 f
         else if w = - 1 then frag_close f
         else fold (\<lambda>b. frag_bit (w AND push_bit b 1 \<noteq> 0)) [0..<bits] f)"

definition pmm_get_fragmentation :: "pmm \<Rightarrow> nat \<times> nat" where
  "pmm_get_fragmentation s =
     (let z = zones s ZONE_NORMAL;
          npages = z_end_pfn z - z_start_pfn z;
          nwords = (npages + 63) div 64;
          f = fold (frag_word (z_bitmap z) npages nwords) [0..<nwords]
                \<lparr>fr_cur = 0, fr_max = 0, fr_runs = 0, fr_in_run = False\<rparr>
      in (fr_max f, fr_runs f))"

end
