(* ===== verification/Pmm_Correct.thy ===== *)
theory Pmm_Correct
  imports Pmm
begin

text \<open>
  Correctness of the physical memory manager: the invariant that ties the bitmaps, the page
  descriptors and the counters together, its preservation by every operation, and the contract
  of allocation and release in terms of the set of free frames.
\<close>

section \<open>The invariant\<close>

definition zone_ok :: "zone \<Rightarrow> bool" where
  "zone_ok z \<longleftrightarrow> z_start_pfn z \<le> z_end_pfn z
     \<and> length (z_bitmap z) = (zone_npages z + 63) div 64
     \<and> z_free_pages z = of_nat (clear_count (bitmap_test (z_bitmap z)) (zone_npages z))
     \<and> z_next_free_pfn z \<le> zone_npages z"

definition zone_of :: "pmm \<Rightarrow> nat \<Rightarrow> zone_id" where
  "zone_of s pfn = (if pfn < z_end_pfn (zones s ZONE_DMA) then ZONE_DMA else ZONE_NORMAL)"

definition zone_rel :: "pmm \<Rightarrow> nat \<Rightarrow> nat" where
  "zone_rel s pfn = (if pfn < z_end_pfn (zones s ZONE_DMA) then pfn
                     else pfn - z_end_pfn (zones s ZONE_DMA))"

definition frame_used :: "pmm \<Rightarrow> nat \<Rightarrow> bool" where
  "frame_used s pfn \<longleftrightarrow> bitmap_test (z_bitmap (zones s (zone_of s pfn))) (zone_rel s pfn)"

definition zones_cover :: "pmm \<Rightarrow> bool" where
  "zones_cover s \<longleftrightarrow> z_start_pfn (zones s ZONE_DMA) = 0
     \<and> z_start_pfn (zones s ZONE_NORMAL) = z_end_pfn (zones s ZONE_DMA)
     \<and> z_end_pfn (zones s ZONE_NORMAL) = total_pages s
     \<and> length (page_array s) = total_pages s
     \<and> total_pages s \<le> 2 ^ 26"

definition page_ok :: "pmm \<Rightarrow> nat \<Rightarrow> bool" where
  "page_ok s pfn \<longleftrightarrow> (frame_used s pfn \<longleftrightarrow> pg_refcount (page_array s ! pfn) \<noteq> 0)
     \<and> (pg_flags (page_array s ! pfn) AND PG_RESERVED \<noteq> 0 \<longrightarrow> frame_used s pfn)"

definition pmm_wf :: "pmm \<Rightarrow> bool" where
  "pmm_wf s \<longleftrightarrow> zones_cover s \<and> (\<forall>zi. zone_ok (zones s zi))
     \<and> free_pages s = z_free_pages (zones s ZONE_DMA) + z_free_pages (zones s ZONE_NORMAL)
     \<and> (\<forall>pfn < total_pages s. page_ok s pfn)"

definition free_frames :: "pmm \<Rightarrow> nat set" where
  "free_frames s = {pfn. pfn < total_pages s \<and> \<not> frame_used s pfn}"

lemma pmm_wfD:
  assumes "pmm_wf s"
  shows "zones_cover s" and "zone_ok (zones s zi)"
    and "free_pages s = z_free_pages (zones s ZONE_DMA) + z_free_pages (zones s ZONE_NORMAL)"
    and "pfn < total_pages s \<Longrightarrow> page_ok s pfn"
  using assms by (auto simp: pmm_wf_def)

lemma zone_id_all: "(\<forall>zi. P zi) \<longleftrightarrow> P ZONE_DMA \<and> P ZONE_NORMAL"
  by (metis zone_id.exhaust)

section \<open>Coordinates: absolute frame numbers and zone-relative ones\<close>

lemma zone_coords:
  assumes "zones_cover s" and "i < zone_npages (zones s zi)"
  shows "zone_of s (z_start_pfn (zones s zi) + i) = zi"
    and "zone_rel s (z_start_pfn (zones s zi) + i) = i"
    and "z_start_pfn (zones s ZONE_NORMAL) \<le> z_end_pfn (zones s ZONE_NORMAL) \<Longrightarrow>
         z_start_pfn (zones s zi) + i < total_pages s"
  using assms by (cases zi; auto simp: zones_cover_def zone_of_def zone_rel_def zone_npages_def)+

lemma zone_rel_bound:
  assumes "zones_cover s" and "pfn < total_pages s"
  shows "zone_rel s pfn < zone_npages (zones s (zone_of s pfn))"
    and "z_start_pfn (zones s (zone_of s pfn)) + zone_rel s pfn = pfn"
  using assms by (auto simp: zones_cover_def zone_of_def zone_rel_def zone_npages_def)

lemma bitmap_cap_zone: "zone_ok z \<Longrightarrow> zone_npages z \<le> bitmap_cap (z_bitmap z)"
  by (auto simp: zone_ok_def bitmap_cap_def)

section \<open>Addresses\<close>

lemma pfn_phys_roundtrip: "pfn < 2 ^ 52 \<Longrightarrow> phys_to_pfn (pfn_to_phys pfn) = pfn"
  by (simp add: phys_to_pfn_def pfn_to_phys_def unat_drop_bit_eq push_bit_eq_mult
      drop_bit_eq_div unat_word_ariths unat_of_nat)

lemma virt_phys_frame [simp]:
  "virt_to_phys a (frame_addr a pfn) - MEMORY_BASE a = pfn_to_phys pfn"
  by (simp add: virt_to_phys_def frame_addr_def phys_to_virt_def)

lemma unat_pfn_to_phys: "pfn < 2 ^ 52 \<Longrightarrow> unat (pfn_to_phys pfn) = pfn * 4096"
  by (simp add: pfn_to_phys_def push_bit_eq_mult unat_word_ariths unat_of_nat)

lemma unat_frame_addr:
  assumes "pfn < 2 ^ 32"
  shows "unat (frame_addr a pfn) = unat (KERNEL_VIRT_BASE a) + unat (MEMORY_BASE a) + pfn * 4096"
  using assms unat_pfn_to_phys [of pfn]
  by (cases a) (simp_all add: frame_addr_def phys_to_virt_def unat_word_ariths)

lemma frame_addr_nonnull: "pfn < 2 ^ 32 \<Longrightarrow> frame_addr a pfn \<noteq> NULL"
proof -
  assume "pfn < 2 ^ 32"
  moreover have "unat (KERNEL_VIRT_BASE a) \<noteq> 0" by (cases a) simp_all
  ultimately show ?thesis using unat_frame_addr [of pfn a] by (metis add_is_0 unat_0)
qed

lemma frame_addr_inj: "pfn < 2 ^ 32 \<Longrightarrow> q < 2 ^ 32 \<Longrightarrow> frame_addr a pfn = frame_addr a q \<longleftrightarrow> pfn = q"
  using unat_frame_addr [of pfn a] unat_frame_addr [of q a]
  by (metis add_left_cancel mult_cancel2 zero_neq_numeral)

lemma frame_addr_add:
  "frame_addr a pfn + of_nat (i * 4096) = frame_addr a (pfn + i)"
  by (simp add: frame_addr_def phys_to_virt_def pfn_to_phys_def push_bit_eq_mult algebra_simps)

section \<open>Taking a run of free frames\<close>

lemma length_page_fresh_fold [simp]:
  "length (fold (\<lambda>k pa. page_fresh pa (p + k)) xs pa) = length pa"
  by (induction xs arbitrary: pa) (simp_all add: page_fresh_def)

lemma nth_page_fresh:
  "q < length pa \<Longrightarrow> page_fresh pa p ! q =
     (if q = p then (pa ! q)\<lparr>pg_flags := 0, pg_refcount := 1\<rparr> else pa ! q)"
  by (simp add: page_fresh_def nth_list_update)

lemma nth_page_fresh_fold:
  "q < length pa \<Longrightarrow> fold (\<lambda>k pa. page_fresh pa (p + k)) [0..<c] pa ! q =
     (if p \<le> q \<and> q < p + c then (pa ! q)\<lparr>pg_flags := 0, pg_refcount := 1\<rparr> else pa ! q)"
proof (induction c)
  case (Suc c)
  let ?f = "fold (\<lambda>k pa. page_fresh pa (p + k)) [0..<c] pa"
  have "fold (\<lambda>k pa. page_fresh pa (p + k)) [0..<Suc c] pa = page_fresh ?f (p + c)" by simp
  then show ?case
    using Suc by (auto simp: nth_page_fresh)
qed auto

definition frames_taken :: "pmm \<Rightarrow> zone_id \<Rightarrow> nat \<Rightarrow> nat \<Rightarrow> nat \<Rightarrow> pmm \<Rightarrow> bool" where
  "frames_taken s zi i c nx s' \<longleftrightarrow>
     zones s' = (zones s)(zi := (zones s zi)\<lparr>z_next_free_pfn := nx,
        z_bitmap := fold (\<lambda>k bm. bitmap_set bm (i + k)) [0..<c] (z_bitmap (zones s zi)),
        z_free_pages := z_free_pages (zones s zi) - of_nat c\<rparr>)
     \<and> page_array s' = fold (\<lambda>k pa. page_fresh pa (z_start_pfn (zones s zi) + i + k)) [0..<c] (page_array s)
     \<and> free_pages s' = free_pages s - of_nat c
     \<and> total_pages s' = total_pages s \<and> pmm_arch s' = pmm_arch s"

lemma frames_taken_zones:
  assumes "frames_taken s zi i c nx s'"
  shows "z_start_pfn (zones s' zj) = z_start_pfn (zones s zj)"
    and "z_end_pfn (zones s' zj) = z_end_pfn (zones s zj)"
    and "zone_npages (zones s' zj) = zone_npages (zones s zj)"
    and "zone_of s' = zone_of s" and "zone_rel s' = zone_rel s"
  using assms by (auto simp: frames_taken_def zone_npages_def zone_of_def zone_rel_def fun_eq_iff)

lemma frames_taken_used:
  assumes wf: "pmm_wf s" and fit: "i + c \<le> zone_npages (zones s zi)"
    and taken: "frames_taken s zi i c nx s'" and q: "q < total_pages s"
  shows "frame_used s' q \<longleftrightarrow>
    q \<in> {z_start_pfn (zones s zi) + i..<z_start_pfn (zones s zi) + i + c} \<or> frame_used s q"
proof -
  note cover = pmm_wfD(1) [OF wf]
  have cap: "i + c \<le> bitmap_cap (z_bitmap (zones s zi))"
    using fit bitmap_cap_zone [OF pmm_wfD(2) [OF wf, of zi]] by simp
  show ?thesis
  proof (cases "zone_of s q = zi")
    case True
    have "z_start_pfn (zones s zi) + zone_rel s q = q"
      using zone_rel_bound [OF cover q] True by simp
    moreover have "frame_used s' q \<longleftrightarrow> (\<exists>k < c. zone_rel s q = i + k) \<or> frame_used s q"
      using cap taken True
      by (auto simp: frame_used_def frames_taken_zones(4,5) [OF taken] frames_taken_def fb.btest_fold_bset)
    moreover have "(\<exists>k < c. zone_rel s q = i + k) \<longleftrightarrow> i \<le> zone_rel s q \<and> zone_rel s q < i + c"
      by (auto intro: exI [of _ "zone_rel s q - i"])
    ultimately show ?thesis by auto
  next
    case False
    have "q \<notin> {z_start_pfn (zones s zi) + i..<z_start_pfn (zones s zi) + i + c}"
    proof
      assume "q \<in> {z_start_pfn (zones s zi) + i..<z_start_pfn (zones s zi) + i + c}"
      then have "zone_of s (z_start_pfn (zones s zi) + (q - z_start_pfn (zones s zi))) = zi"
        and "z_start_pfn (zones s zi) \<le> q"
        using fit zone_coords(1) [OF cover, of "q - z_start_pfn (zones s zi)" zi] by auto
      with False show False by simp
    qed
    with False taken show ?thesis
      by (auto simp: frame_used_def frames_taken_zones(4,5) [OF taken] frames_taken_def)
  qed
qed

lemma frames_taken_zone_ok:
  assumes wf: "pmm_wf s" and fit: "i + c \<le> zone_npages (zones s zi)"
    and clear: "\<forall>k < c. \<not> bitmap_test (z_bitmap (zones s zi)) (i + k)"
    and nx: "nx \<le> zone_npages (zones s zi)" and taken: "frames_taken s zi i c nx s'"
  shows "zone_ok (zones s' zj)"
proof (cases "zj = zi")
  case True
  let ?bm = "z_bitmap (zones s zi)" and ?n = "zone_npages (zones s zi)"
  note ok = pmm_wfD(2) [OF wf, of zi]
  have "length (fold (\<lambda>k bm. bitmap_set bm (i + k)) xs bm) = length bm" for xs bm
    by (induction xs arbitrary: bm) (simp_all add: bitmap_set_def)
  moreover have "clear_count (bitmap_test ?bm) ?n =
      clear_count (bitmap_test (fold (\<lambda>k bm. bitmap_set bm (i + k)) [0..<c] ?bm)) ?n + c"
    using fit clear bitmap_cap_zone [OF ok] by (intro fb.count_fold_bset) auto
  ultimately show ?thesis
    using ok nx taken True
    by (auto simp: zone_ok_def frames_taken_def zone_npages_def)
next
  case False
  then show ?thesis using pmm_wfD(2) [OF wf, of zj] taken by (auto simp: frames_taken_def)
qed

lemma frames_taken_wf:
  assumes wf: "pmm_wf s" and fit: "i + c \<le> zone_npages (zones s zi)"
    and clear: "\<forall>k < c. \<not> bitmap_test (z_bitmap (zones s zi)) (i + k)"
    and nx: "nx \<le> zone_npages (zones s zi)" and taken: "frames_taken s zi i c nx s'"
  shows "pmm_wf s'"
proof -
  note cover = pmm_wfD(1) [OF wf] and used = frames_taken_used [OF wf fit taken]
  have "zones_cover s'"
    using cover taken frames_taken_zones [OF taken] by (auto simp: zones_cover_def frames_taken_def)
  moreover have "zone_ok (zones s' zj)" for zj
    by (rule frames_taken_zone_ok [OF assms])
  moreover have "free_pages s' = z_free_pages (zones s' ZONE_DMA) + z_free_pages (zones s' ZONE_NORMAL)"
    using pmm_wfD(3) [OF wf] taken by (cases zi) (auto simp: frames_taken_def)
  moreover have "page_ok s' q" if "q < total_pages s'" for q
  proof -
    have q: "q < total_pages s" using that taken by (simp add: frames_taken_def)
    then have "q < length (page_array s)" using cover by (simp add: zones_cover_def)
    then show ?thesis
      using pmm_wfD(4) [OF wf q] used [OF q] taken
      by (auto simp: page_ok_def frames_taken_def nth_page_fresh_fold)
  qed
  ultimately show ?thesis by (simp add: pmm_wf_def)
qed

lemma frames_taken_free:
  assumes wf: "pmm_wf s" and fit: "i + c \<le> zone_npages (zones s zi)"
    and clear: "\<forall>k < c. \<not> bitmap_test (z_bitmap (zones s zi)) (i + k)"
    and taken: "frames_taken s zi i c nx s'" and pfn: "pfn = z_start_pfn (zones s zi) + i"
  shows "{pfn..<pfn + c} \<subseteq> free_frames s" and "free_frames s' = free_frames s - {pfn..<pfn + c}"
proof -
  note cover = pmm_wfD(1) [OF wf]
  show "{pfn..<pfn + c} \<subseteq> free_frames s"
  proof
    fix q assume q: "q \<in> {pfn..<pfn + c}"
    define k where "k = q - z_start_pfn (zones s zi)"
    have k: "i \<le> k" "k < i + c" "q = z_start_pfn (zones s zi) + k" using q pfn by (auto simp: k_def)
    have "zone_of s q = zi" "zone_rel s q = k" "q < total_pages s"
      using zone_coords [OF cover, of k zi] k fit pmm_wfD(2) [OF wf, of ZONE_NORMAL]
      by (auto simp: zone_ok_def)
    then show "q \<in> free_frames s"
      using clear [rule_format, of "k - i"] k by (simp add: free_frames_def frame_used_def)
  qed
  show "free_frames s' = free_frames s - {pfn..<pfn + c}"
    using frames_taken_used [OF wf fit taken] taken pfn
    by (auto simp: free_frames_def frames_taken_def)
qed

section \<open>Allocation of one page\<close>

lemma zone_alloc_page_cases:
  assumes wf: "pmm_wf s" and alloc: "zone_alloc_page zi dma s = (p, s')"
  obtains (none) "p = NULL" "s' = s" "\<forall>i < zone_npages (zones s zi). bitmap_test (z_bitmap (zones s zi)) i"
  | (some) i where "i < zone_npages (zones s zi)" "\<not> bitmap_test (z_bitmap (zones s zi)) i"
      "p = frame_addr (pmm_arch s) (z_start_pfn (zones s zi) + i)"
      "frames_taken s zi i 1 ((i + 1) mod zone_npages (zones s zi)) s'"
      "ram s' = mem_fill (ram s) p PAGE_SIZE 0"
      "dma_log s' = (if dma then (p, PAGE_SIZE) # dma_log s else dma_log s)"
proof -
  let ?z = "zones s zi"
  let ?bm = "z_bitmap ?z" and ?n = "zone_npages ?z"
  have next_le: "z_next_free_pfn ?z \<le> ?n" using pmm_wfD(2) [OF wf, of zi] by (simp add: zone_ok_def)
  let ?found = "case bitmap_find_free ?bm (z_next_free_pfn ?z) ?n of Some p \<Rightarrow> Some p
                | None \<Rightarrow> bitmap_find_free ?bm 0 (z_next_free_pfn ?z)"
  show thesis
  proof (cases ?found)
    case None
    have "\<forall>i < ?n. bitmap_test ?bm i"
      using None
      by (simp add: bitmap_find_free_find find_upt_None_iff split: option.splits) (metis not_le)
    with None alloc that(1) show thesis
      by (simp add: zone_alloc_page_def Let_def flip: zone_npages_def)
  next
    case (Some i)
    then have "i < ?n" "\<not> bitmap_test ?bm i"
      using next_le by (auto simp: bitmap_find_free_find find_upt_Some_iff split: option.splits)
    with Some alloc that(2) [of i] show thesis
      by (auto simp: zone_alloc_page_def Let_def frames_taken_def alloc_stats_def frame_addr_def
          simp flip: zone_npages_def)
  qed
qed

text \<open>What an allocation of \<open>c\<close> frames starting at frame \<open>pfn\<close> does to the manager.\<close>

definition allocated :: "pmm \<Rightarrow> nat \<Rightarrow> nat \<Rightarrow> pmm \<Rightarrow> bool" where
  "allocated s pfn c s' \<longleftrightarrow> pfn + c \<le> total_pages s
     \<and> {pfn..<pfn + c} \<subseteq> free_frames s
     \<and> free_frames s' = free_frames s - {pfn..<pfn + c}
     \<and> ram s' = mem_fill (ram s) (frame_addr (pmm_arch s) pfn) (PAGE_SIZE * c) 0
     \<and> (\<forall>q < total_pages s. page_array s' ! q =
          (if q \<in> {pfn..<pfn + c} then (page_array s ! q)\<lparr>pg_flags := 0, pg_refcount := 1\<rparr>
           else page_array s ! q))
     \<and> total_pages s' = total_pages s \<and> pmm_arch s' = pmm_arch s"

lemma frames_taken_allocated:
  assumes wf: "pmm_wf s" and fit: "i + c \<le> zone_npages (zones s zi)"
    and clear: "\<forall>k < c. \<not> bitmap_test (z_bitmap (zones s zi)) (i + k)"
    and taken: "frames_taken s zi i c nx s'" and pfn: "pfn = z_start_pfn (zones s zi) + i"
    and ram: "ram s' = mem_fill (ram s) (frame_addr (pmm_arch s) pfn) (PAGE_SIZE * c) 0"
  shows "allocated s pfn c s'"
proof -
  note cover = pmm_wfD(1) [OF wf]
  have "pfn + c \<le> total_pages s"
    using fit pfn cover pmm_wfD(2) [OF wf, of ZONE_NORMAL]
    by (cases zi) (auto simp: zones_cover_def zone_npages_def zone_ok_def)
  moreover have "page_array s' ! q =
      (if q \<in> {pfn..<pfn + c} then (page_array s ! q)\<lparr>pg_flags := 0, pg_refcount := 1\<rparr>
       else page_array s ! q)" if "q < total_pages s" for q
    using that cover taken pfn by (simp add: frames_taken_def zones_cover_def nth_page_fresh_fold)
  ultimately show ?thesis
    using frames_taken_free [OF wf fit clear taken pfn] ram taken
    by (auto simp: allocated_def frames_taken_def)
qed

lemma zone_free_frames:
  assumes wf: "pmm_wf s"
  shows "(\<forall>i < zone_npages (zones s zi). bitmap_test (z_bitmap (zones s zi)) i) \<longleftrightarrow>
    (\<forall>pfn \<in> free_frames s. zone_of s pfn \<noteq> zi)"
proof -
  note cover = pmm_wfD(1) [OF wf]
  have le: "z_start_pfn (zones s ZONE_NORMAL) \<le> z_end_pfn (zones s ZONE_NORMAL)"
    using pmm_wfD(2) [OF wf, of ZONE_NORMAL] by (simp add: zone_ok_def)
  show ?thesis
  proof
    assume all: "\<forall>i < zone_npages (zones s zi). bitmap_test (z_bitmap (zones s zi)) i"
    show "\<forall>pfn \<in> free_frames s. zone_of s pfn \<noteq> zi"
      using all zone_rel_bound(1) [OF cover] by (auto simp: free_frames_def frame_used_def)
  next
    assume none: "\<forall>pfn \<in> free_frames s. zone_of s pfn \<noteq> zi"
    show "\<forall>i < zone_npages (zones s zi). bitmap_test (z_bitmap (zones s zi)) i"
    proof (intro allI impI)
      fix i assume i: "i < zone_npages (zones s zi)"
      show "bitmap_test (z_bitmap (zones s zi)) i"
        using none zone_coords [OF cover i] le by (force simp: free_frames_def frame_used_def)
    qed
  qed
qed

lemma zone_alloc_page_spec:
  assumes wf: "pmm_wf s" and alloc: "zone_alloc_page zi dma s = (p, s')"
  shows "pmm_wf s'"
    and "p = NULL \<longleftrightarrow> (\<forall>pfn \<in> free_frames s. zone_of s pfn \<noteq> zi)"
    and "p = NULL \<Longrightarrow> s' = s"
    and "p \<noteq> NULL \<Longrightarrow> \<exists>pfn. p = frame_addr (pmm_arch s) pfn \<and> zone_of s pfn = zi \<and> allocated s pfn 1 s'
           \<and> dma_log s' = (if dma then (p, PAGE_SIZE) # dma_log s else dma_log s)"
proof -
  note cover = pmm_wfD(1) [OF wf]
  have "pmm_wf s' \<and> (p = NULL \<longleftrightarrow> (\<forall>pfn \<in> free_frames s. zone_of s pfn \<noteq> zi)) \<and> (p = NULL \<longrightarrow> s' = s) \<and>
    (p \<noteq> NULL \<longrightarrow> (\<exists>pfn. p = frame_addr (pmm_arch s) pfn \<and> zone_of s pfn = zi \<and> allocated s pfn 1 s'
       \<and> dma_log s' = (if dma then (p, PAGE_SIZE) # dma_log s else dma_log s)))"
    using wf alloc
  proof (cases rule: zone_alloc_page_cases)
    case none
    then show ?thesis using wf zone_free_frames [OF wf] by simp
  next
    case (some i)
    let ?pfn = "z_start_pfn (zones s zi) + i"
    have fit: "i + 1 \<le> zone_npages (zones s zi)"
      and clear: "\<forall>k < 1. \<not> bitmap_test (z_bitmap (zones s zi)) (i + k)"
      using some by auto
    have "pmm_wf s'"
      using some(1) by (intro frames_taken_wf [OF wf fit clear _ some(4)]) (simp add: order.strict_implies_order)
    moreover have al: "allocated s ?pfn 1 s'"
      using frames_taken_allocated [OF wf fit clear some(4) refl] some(3,5) by simp
    moreover have "?pfn < 2 ^ 32"
      using al cover by (simp add: allocated_def zones_cover_def)
    then have "p \<noteq> NULL" using some(3) frame_addr_nonnull by simp
    moreover have "zone_of s ?pfn = zi" by (rule zone_coords(1) [OF cover some(1)])
    ultimately show ?thesis
      using some(3,6) by (auto simp: allocated_def)
  qed
  then show "pmm_wf s'"
    and "p = NULL \<longleftrightarrow> (\<forall>pfn \<in> free_frames s. zone_of s pfn \<noteq> zi)"
    and "p = NULL \<Longrightarrow> s' = s"
    and "p \<noteq> NULL \<Longrightarrow> \<exists>pfn. p = frame_addr (pmm_arch s) pfn \<and> zone_of s pfn = zi \<and> allocated s pfn 1 s'
           \<and> dma_log s' = (if dma then (p, PAGE_SIZE) # dma_log s else dma_log s)"
    by blast+
qed

lemma alloc_page_impl_spec:
  assumes wf: "pmm_wf s" and alloc: "alloc_page_impl dma s = (p, s')"
  shows "pmm_wf s'"
    and "p = NULL \<longleftrightarrow> free_frames s = {}"
    and "p = NULL \<Longrightarrow> s' = s"
    and "p \<noteq> NULL \<Longrightarrow> \<exists>pfn. p = frame_addr (pmm_arch s) pfn \<and> allocated s pfn 1 s'
           \<and> (zone_of s pfn = ZONE_DMA \<longrightarrow> (\<forall>q \<in> free_frames s. zone_of s q = ZONE_DMA))
           \<and> dma_log s' = (if dma then (p, PAGE_SIZE) # dma_log s else dma_log s)"
proof -
  obtain p1 s1 where n: "zone_alloc_page ZONE_NORMAL dma s = (p1, s1)" by fastforce
  note N = zone_alloc_page_spec [OF wf n]
  have split: "(\<forall>q \<in> free_frames s. zone_of s q \<noteq> ZONE_NORMAL) \<longleftrightarrow> (\<forall>q \<in> free_frames s. zone_of s q = ZONE_DMA)"
    by (metis zone_id.exhaust zone_id.distinct(1))
  have "pmm_wf s' \<and> (p = NULL \<longleftrightarrow> free_frames s = {}) \<and> (p = NULL \<longrightarrow> s' = s) \<and>
    (p \<noteq> NULL \<longrightarrow> (\<exists>pfn. p = frame_addr (pmm_arch s) pfn \<and> allocated s pfn 1 s'
           \<and> (zone_of s pfn = ZONE_DMA \<longrightarrow> (\<forall>q \<in> free_frames s. zone_of s q = ZONE_DMA))
           \<and> dma_log s' = (if dma then (p, PAGE_SIZE) # dma_log s else dma_log s)))"
  proof (cases "p1 = NULL")
    case True
    then have d: "zone_alloc_page ZONE_DMA dma s = (p, s')"
      using alloc n N(3) by (simp add: alloc_page_impl_def)
    note D = zone_alloc_page_spec [OF wf d]
    have dma: "\<forall>q \<in> free_frames s. zone_of s q = ZONE_DMA" using N(2) True split by simp
    then have "p = NULL \<longleftrightarrow> free_frames s = {}" using D(2) by auto
    with D(1,3,4) dma show ?thesis by blast
  next
    case False
    then have eq: "p = p1" "s' = s1" using alloc n by (simp_all add: alloc_page_impl_def)
    have "free_frames s \<noteq> {}" using N(2) False by auto
    moreover obtain pfn where "p1 = frame_addr (pmm_arch s) pfn" "zone_of s pfn = ZONE_NORMAL"
      "allocated s pfn 1 s1" "dma_log s1 = (if dma then (p1, PAGE_SIZE) # dma_log s else dma_log s)"
      using N(4) [OF False] by blast
    ultimately show ?thesis
      unfolding eq using N(1) False zone_id.distinct(1) by metis
  qed
  then show "pmm_wf s'" and "p = NULL \<longleftrightarrow> free_frames s = {}" and "p = NULL \<Longrightarrow> s' = s"
    and "p \<noteq> NULL \<Longrightarrow> \<exists>pfn. p = frame_addr (pmm_arch s) pfn \<and> allocated s pfn 1 s'
           \<and> (zone_of s pfn = ZONE_DMA \<longrightarrow> (\<forall>q \<in> free_frames s. zone_of s q = ZONE_DMA))
           \<and> dma_log s' = (if dma then (p, PAGE_SIZE) # dma_log s else dma_log s)"
    by blast+
qed

section \<open>Allocation of a run of pages\<close>

lemma alloc_run_cases:
  assumes wf: "pmm_wf s" and alloc: "alloc_pages_impl c dma s = (p, s')" and c: "1 < c"
  obtains (none) "p = NULL" "s' = s"
      "\<forall>i. i + c \<le> zone_npages (zones s ZONE_NORMAL) \<longrightarrow> \<not> free_run (z_bitmap (zones s ZONE_NORMAL)) c i"
  | (some) i where "i + c \<le> zone_npages (zones s ZONE_NORMAL)"
      "\<forall>k < c. \<not> bitmap_test (z_bitmap (zones s ZONE_NORMAL)) (i + k)"
      "p = frame_addr (pmm_arch s) (z_start_pfn (zones s ZONE_NORMAL) + i)"
      "frames_taken s ZONE_NORMAL i c (z_next_free_pfn (zones s ZONE_NORMAL)) s'"
      "ram s' = mem_fill (ram s) p (PAGE_SIZE * c) 0"
      "dma_log s' = (if dma then (p, PAGE_SIZE * c) # dma_log s else dma_log s)"
proof -
  let ?z = "zones s ZONE_NORMAL"
  let ?found = "bitmap_find_contiguous (z_bitmap ?z) 0 (zone_npages ?z) c"
  show thesis
  proof (cases ?found)
    case None
    then have "\<forall>i. i + c \<le> zone_npages ?z \<longrightarrow> \<not> free_run (z_bitmap ?z) c i"
      using c by (auto simp: bitmap_find_contiguous_find find_upt_None_iff less_diff_conv)
    with None alloc c that(1) show thesis
      by (simp add: alloc_pages_impl_def Let_def flip: zone_npages_def)
  next
    case (Some i)
    with c have "i + c \<le> zone_npages ?z" "\<forall>k < c. \<not> bitmap_test (z_bitmap ?z) (i + k)"
      using bitmap_find_contiguous_SomeD [OF Some] by auto
    with Some alloc c that(2) [of i] show thesis
      by (auto simp: alloc_pages_impl_def Let_def frames_taken_def alloc_stats_def frame_addr_def
          simp flip: zone_npages_def)
  qed
qed

lemma normal_run_iff:
  assumes wf: "pmm_wf s"
  shows "(\<exists>i. i + c \<le> zone_npages (zones s ZONE_NORMAL) \<and> free_run (z_bitmap (zones s ZONE_NORMAL)) c i)
    \<longleftrightarrow> (\<exists>pfn. z_start_pfn (zones s ZONE_NORMAL) \<le> pfn \<and> pfn + c \<le> total_pages s \<and> {pfn..<pfn + c} \<subseteq> free_frames s)"
    (is "?L \<longleftrightarrow> ?R")
proof -
  note cover = pmm_wfD(1) [OF wf]
  let ?b = "z_start_pfn (zones s ZONE_NORMAL)" and ?n = "zone_npages (zones s ZONE_NORMAL)"
  have b: "?b + ?n = total_pages s"
    using cover pmm_wfD(2) [OF wf, of ZONE_NORMAL] by (simp add: zones_cover_def zone_npages_def zone_ok_def)
  have used: "frame_used s (?b + k) \<longleftrightarrow> bitmap_test (z_bitmap (zones s ZONE_NORMAL)) k" if "k < ?n" for k
    using zone_coords(1,2) [OF cover that] by (simp add: frame_used_def)
  have run: "free_run (z_bitmap (zones s ZONE_NORMAL)) c i \<longleftrightarrow> {?b + i..<?b + i + c} \<subseteq> free_frames s"
    if "i + c \<le> ?n" for i
  proof -
    have "{?b + i..<?b + i + c} \<subseteq> free_frames s \<longleftrightarrow> (\<forall>k < c. ?b + (i + k) \<in> free_frames s)"
      using interval_subset_iff [of "?b + i" c "free_frames s"] by (simp add: add.assoc)
    also have "\<dots> \<longleftrightarrow> (\<forall>k < c. \<not> bitmap_test (z_bitmap (zones s ZONE_NORMAL)) (i + k))"
      using that b used by (simp add: free_frames_def)
    finally show ?thesis by (simp add: free_run_iff)
  qed
  show ?thesis
  proof
    assume ?L
    then obtain i where "i + c \<le> ?n" "{?b + i..<?b + i + c} \<subseteq> free_frames s" using run by blast
    with b show ?R by (intro exI [of _ "?b + i"]) simp
  next
    assume ?R
    then obtain pfn where pfn: "?b \<le> pfn" "pfn + c \<le> total_pages s" "{pfn..<pfn + c} \<subseteq> free_frames s" by blast
    with b run [of "pfn - ?b"] show ?L by (intro exI [of _ "pfn - ?b"]) simp
  qed
qed

lemma alloc_pages_impl_spec:
  assumes wf: "pmm_wf s" and alloc: "alloc_pages_impl c dma s = (p, s')"
  shows "pmm_wf s'" and "p = NULL \<Longrightarrow> s' = s"
    and "p \<noteq> NULL \<Longrightarrow> 0 < c \<and> (\<exists>pfn. p = frame_addr (pmm_arch s) pfn \<and> allocated s pfn c s')"
    and "1 < c \<Longrightarrow> p = NULL \<longleftrightarrow> (\<nexists>pfn. z_start_pfn (zones s ZONE_NORMAL) \<le> pfn \<and> pfn + c \<le> total_pages s
           \<and> {pfn..<pfn + c} \<subseteq> free_frames s)"
proof -
  note cover = pmm_wfD(1) [OF wf]
  consider "c = 0" | "c = 1" | "1 < c" by linarith
  then have "pmm_wf s' \<and> (p = NULL \<longrightarrow> s' = s) \<and>
    (p \<noteq> NULL \<longrightarrow> 0 < c \<and> (\<exists>pfn. p = frame_addr (pmm_arch s) pfn \<and> allocated s pfn c s')) \<and>
    (1 < c \<longrightarrow> (p = NULL \<longleftrightarrow> (\<nexists>pfn. z_start_pfn (zones s ZONE_NORMAL) \<le> pfn \<and> pfn + c \<le> total_pages s
       \<and> {pfn..<pfn + c} \<subseteq> free_frames s)))"
  proof cases
    case 1
    with alloc wf show ?thesis by (simp add: alloc_pages_impl_def)
  next
    case 2
    then have "alloc_page_impl dma s = (p, s')"
      using alloc by (simp add: alloc_pages_impl_def pmm_alloc_page_def pmm_alloc_page_dma_def split: if_splits)
    from alloc_page_impl_spec [OF wf this] 2 show ?thesis by auto
  next
    case 3
    from wf alloc 3 show ?thesis
    proof (cases rule: alloc_run_cases)
      case none
      then show ?thesis using wf normal_run_iff [OF wf, of c] 3 by blast
    next
      case (some i)
      let ?pfn = "z_start_pfn (zones s ZONE_NORMAL) + i"
      have "pmm_wf s'"
        using pmm_wfD(2) [OF wf, of ZONE_NORMAL]
        by (intro frames_taken_wf [OF wf some(1,2) _ some(4)]) (simp add: zone_ok_def)
      moreover have al: "allocated s ?pfn c s'"
        using frames_taken_allocated [OF wf some(1,2,4) refl] some(3,5) by simp
      moreover have "?pfn < 2 ^ 32"
        using al cover 3 by (simp add: allocated_def zones_cover_def)
      then have "p \<noteq> NULL" using some(3) frame_addr_nonnull by simp
      moreover have "free_run (z_bitmap (zones s ZONE_NORMAL)) c i" using some(2) by (simp add: free_run_iff)
      moreover have "0 < c" using 3 by simp
      ultimately show ?thesis
        using some(1,3) normal_run_iff [OF wf, of c] 3 by blast
    qed
  qed
  then show "pmm_wf s'" and "p = NULL \<Longrightarrow> s' = s"
    and "p \<noteq> NULL \<Longrightarrow> 0 < c \<and> (\<exists>pfn. p = frame_addr (pmm_arch s) pfn \<and> allocated s pfn c s')"
    and "1 < c \<Longrightarrow> p = NULL \<longleftrightarrow> (\<nexists>pfn. z_start_pfn (zones s ZONE_NORMAL) \<le> pfn \<and> pfn + c \<le> total_pages s
           \<and> {pfn..<pfn + c} \<subseteq> free_frames s)"
    by blast+
qed

section \<open>Release\<close>

lemma zone_ok_release:
  assumes ok: "zone_ok z" and i: "i < zone_npages z" and used: "bitmap_test (z_bitmap z) i"
  shows "zone_ok (z\<lparr>z_bitmap := bitmap_clear (z_bitmap z) i, z_free_pages := z_free_pages z + 1\<rparr>)"
  using fb.count_bclr [OF bitmap_cap_zone [OF ok] i used] ok
  by (simp add: zone_ok_def zone_npages_def bitmap_clear_def)

text \<open>Changing one bit of the bitmap of the zone that holds frame \<open>pfn\<close>.\<close>

lemma frame_used_point:
  assumes cover: "zones_cover s" and pfn: "pfn < total_pages s" and q: "q < total_pages s"
    and bm: "\<And>j. bitmap_test bm' j \<longleftrightarrow> (if j = zone_rel s pfn then v else bitmap_test (z_bitmap (zones s (zone_of s pfn))) j)"
    and zs: "zones s' = (zones s)(zone_of s pfn := (zones s (zone_of s pfn))\<lparr>z_bitmap := bm', z_free_pages := fp\<rparr>)"
  shows "frame_used s' q \<longleftrightarrow> (if q = pfn then v else frame_used s q)"
proof -
  have "z_end_pfn (zones s' ZONE_DMA) = z_end_pfn (zones s ZONE_DMA)" unfolding zs by simp
  then have coords: "zone_of s' = zone_of s" "zone_rel s' = zone_rel s"
    by (simp_all add: zone_of_def zone_rel_def fun_eq_iff)
  have "zone_of s q = zone_of s pfn \<Longrightarrow> zone_rel s q = zone_rel s pfn \<Longrightarrow> q = pfn"
    using zone_rel_bound(2) [OF cover q] zone_rel_bound(2) [OF cover pfn] by metis
  moreover have "frame_used s' q \<longleftrightarrow> bitmap_test bm' (zone_rel s q)" if "zone_of s q = zone_of s pfn"
    using that by (simp add: frame_used_def coords zs)
  moreover have "frame_used s' q \<longleftrightarrow> frame_used s q" if "zone_of s q \<noteq> zone_of s pfn"
    using that by (simp add: frame_used_def coords zs)
  moreover have "frame_used s q \<longleftrightarrow> bitmap_test (z_bitmap (zones s (zone_of s pfn))) (zone_rel s q)"
    if "zone_of s q = zone_of s pfn"
    using that by (simp add: frame_used_def)
  ultimately show ?thesis
    using bm by (cases "zone_of s q = zone_of s pfn") (simp_all, metis+)
qed

text \<open>The release of frame \<open>pfn\<close>, when its last reference goes.\<close>

definition released :: "pmm \<Rightarrow> nat \<Rightarrow> ptr \<Rightarrow> pmm \<Rightarrow> bool" where
  "released s pfn p s' \<longleftrightarrow> frame_used s pfn \<and> free_frames s' = insert pfn (free_frames s)
     \<and> ram s' = mem_fill (ram s) p PAGE_SIZE 0xCC
     \<and> page_array s' = (page_array s)[pfn := (page_array s ! pfn)\<lparr>pg_refcount := 0\<rparr>]
     \<and> total_pages s' = total_pages s \<and> pmm_arch s' = pmm_arch s"

lemma word_le1_cases: "\<not> (w::u32) > 1 \<Longrightarrow> w = 0 \<or> w = 1"
proof -
  assume "\<not> w > 1"
  then have "unat w = 0 \<or> unat w = 1" by (auto simp: word_less_nat_alt)
  then show ?thesis by (auto simp: word_unat_eq_iff)
qed

definition frame_of_ptr :: "pmm \<Rightarrow> ptr \<Rightarrow> nat" where
  "frame_of_ptr s p = phys_to_pfn (virt_to_phys (pmm_arch s) p - MEMORY_BASE (pmm_arch s))"

lemma frame_of_frame_addr [simp]: "pfn < 2 ^ 52 \<Longrightarrow> pmm_arch s = a \<Longrightarrow> frame_of_ptr s (frame_addr a pfn) = pfn"
  by (auto simp: frame_of_ptr_def pfn_phys_roundtrip)

lemma pmm_free_page_cases:
  assumes wf: "pmm_wf s" and p: "p \<noteq> NULL"
  obtains (outside) "total_pages s \<le> frame_of_ptr s p" "pmm_free_page p s = Inr s"
  | (reserved) "frame_of_ptr s p < total_pages s"
      "pg_flags (page_array s ! frame_of_ptr s p) AND PG_RESERVED \<noteq> 0" "pmm_free_page p s = Inr s"
  | (shared) s' where "frame_of_ptr s p < total_pages s" "pg_refcount (page_array s ! frame_of_ptr s p) > 1"
      "pmm_free_page p s = Inr s'" "pmm_wf s'" "free_frames s' = free_frames s" "ram s' = ram s"
      "page_array s' = (page_array s)[frame_of_ptr s p := (page_array s ! frame_of_ptr s p)
         \<lparr>pg_refcount := pg_refcount (page_array s ! frame_of_ptr s p) - 1\<rparr>]"
      "pg_flags (page_array s ! frame_of_ptr s p) AND PG_RESERVED = 0"
  | (double) "frame_of_ptr s p \<in> free_frames s" "pmm_free_page p s = Inl (Panic ''PMM: Double free detected'')"
  | (freed) s' where "frame_of_ptr s p < total_pages s"
      "pg_flags (page_array s ! frame_of_ptr s p) AND PG_RESERVED = 0"
      "pg_refcount (page_array s ! frame_of_ptr s p) = 1" "pmm_free_page p s = Inr s'" "pmm_wf s'"
      "released s (frame_of_ptr s p) p s'"
proof -
  let ?pfn = "frame_of_ptr s p"
  let ?pg = "page_array s ! ?pfn"
  let ?s1 = "s\<lparr>page_array := (page_array s)[?pfn := ?pg\<lparr>pg_refcount := pg_refcount ?pg - 1\<rparr>]\<rparr>"
  let ?zi = "zone_of s ?pfn" and ?zp = "zone_rel s ?pfn"
  let ?z = "zones s ?zi"
  let ?s2 = "?s1\<lparr>zones := (zones s)(?zi := ?z\<lparr>z_bitmap := bitmap_clear (z_bitmap ?z) ?zp,
      z_free_pages := z_free_pages ?z + 1\<rparr>), ram := mem_fill (ram s) p PAGE_SIZE 0xCC,
      free_pages := free_pages s + 1, stat_free_calls := stat_free_calls s + 1\<rparr>"
  note cover = pmm_wfD(1) [OF wf]
  have op: "pmm_free_page p s =
     (if ?pfn \<ge> total_pages s then Inr s
      else if pg_flags ?pg AND PG_RESERVED \<noteq> 0 then Inr s
      else if pg_refcount ?pg > 1 then Inr ?s1
      else if \<not> frame_used s ?pfn then Inl (Panic ''PMM: Double free detected'') else Inr ?s2)"
    using p by (simp add: pmm_free_page_def Let_def frame_used_def zone_of_def zone_rel_def flip: frame_of_ptr_def)
  show thesis
  proof (cases "?pfn < total_pages s \<and> pg_flags ?pg AND PG_RESERVED = 0")
    case False
    then show thesis using op outside reserved by (cases "?pfn < total_pages s") auto
  next
    case True
    then have pfn: "?pfn < total_pages s" and nres: "pg_flags ?pg AND PG_RESERVED = 0" by auto
    have len: "?pfn < length (page_array s)" using pfn cover by (simp add: zones_cover_def)
    note page = pmm_wfD(4) [OF wf pfn]
    show thesis
    proof (cases "pg_refcount ?pg > 1")
      case shared_page: True
      have refs: "pg_refcount ?pg \<noteq> 0" "pg_refcount ?pg - 1 \<noteq> 0" using shared_page by auto
      have used1: "frame_used ?s1 q \<longleftrightarrow> frame_used s q" for q
        by (simp add: frame_used_def zone_of_def zone_rel_def)
      have "pmm_wf ?s1"
        using wf page nres refs len
        by (auto simp: pmm_wf_def zones_cover_def page_ok_def used1 nth_list_update)
      then show thesis
        using pfn shared_page op nres by (intro that(3) [of ?s1]) (auto simp: free_frames_def used1)
    next
      case last_ref: False
      show thesis
      proof (cases "frame_used s ?pfn")
        case False
        then show thesis using op pfn nres last_ref by (intro that(4)) (auto simp: free_frames_def)
      next
        case used: True
        have ref1: "pg_refcount ?pg = 1"
          using word_le1_cases [OF last_ref] page used by (auto simp: page_ok_def)
        have rel: "?zp < zone_npages ?z" using zone_rel_bound(1) [OF cover pfn] .
        then have cap: "?zp < bitmap_cap (z_bitmap ?z)"
          using bitmap_cap_zone [OF pmm_wfD(2) [OF wf]] by (rule order.strict_trans2)
        have used2: "frame_used ?s2 q \<longleftrightarrow> q \<noteq> ?pfn \<and> frame_used s q" if "q < total_pages s" for q
          using frame_used_point [OF cover pfn that, of _ False ?s2] cap by (simp add: fb.btest_bclr)
        have zok: "zone_ok (zones ?s2 zj)" for zj
          using pmm_wfD(2) [OF wf] zone_ok_release [OF pmm_wfD(2) [OF wf] rel] used by (simp add: frame_used_def)
        have "zones_cover ?s2" using cover by (auto simp: zones_cover_def)
        moreover have "free_pages ?s2 = z_free_pages (zones ?s2 ZONE_DMA) + z_free_pages (zones ?s2 ZONE_NORMAL)"
          using pmm_wfD(3) [OF wf] by (cases ?zi) auto
        moreover have "page_ok ?s2 q" if "q < total_pages s" for q
          using pmm_wfD(4) [OF wf that] used2 [OF that] len ref1 nres by (auto simp: page_ok_def nth_list_update)
        ultimately have wf2: "pmm_wf ?s2" using zok by (simp add: pmm_wf_def)
        have "released s ?pfn p ?s2"
          using used used2 pfn ref1 by (auto simp: released_def free_frames_def)
        with wf2 show thesis
          using pfn nres last_ref used ref1 op by (intro that(5) [of ?s2]) auto
      qed
    qed
  qed
qed

lemma pmm_free_page_wf:
  assumes wf: "pmm_wf s" and free: "pmm_free_page p s = Inr s'"
  shows "pmm_wf s'"
proof (cases "p = NULL")
  case True
  with assms show ?thesis by (simp add: pmm_free_page_def)
next
  case False
  from wf False show ?thesis by (cases rule: pmm_free_page_cases) (use free wf in auto)
qed

lemma free_pages_loop_wf: "pmm_wf s \<Longrightarrow> free_pages_loop p is s = Inr s' \<Longrightarrow> pmm_wf s'"
proof (induction "is" arbitrary: s)
  case (Cons i is')
  then show ?case
    by (cases "pmm_free_page (p + of_nat (i * PAGE_SIZE)) s") (auto intro: pmm_free_page_wf)
qed simp

text \<open>The frames whose only reference is the allocation that returned them.\<close>

definition owned_frames :: "pmm \<Rightarrow> nat set" where
  "owned_frames s = {pfn. pfn < total_pages s \<and> pg_refcount (page_array s ! pfn) = 1
     \<and> pg_flags (page_array s ! pfn) AND PG_RESERVED = 0}"

lemma owned_not_free: "pmm_wf s \<Longrightarrow> owned_frames s \<inter> free_frames s = {}"
  using pmm_wfD(4) by (fastforce simp: owned_frames_def free_frames_def page_ok_def)

lemma allocated_owned:
  assumes "allocated s pfn c s'"
  shows "owned_frames s' = owned_frames s \<union> {pfn..<pfn + c}"
  using assms by (auto simp: allocated_def owned_frames_def)

lemma pmm_free_page_owned:
  assumes wf: "pmm_wf s" and own: "pfn \<in> owned_frames s" and p: "p = frame_addr (pmm_arch s) pfn"
  obtains s' where "pmm_free_page p s = Inr s'" "pmm_wf s'" "released s pfn p s'"
    "owned_frames s' = owned_frames s - {pfn}"
proof -
  note cover = pmm_wfD(1) [OF wf]
  have pfn: "pfn < total_pages s" "pg_refcount (page_array s ! pfn) = 1"
    "pg_flags (page_array s ! pfn) AND PG_RESERVED = 0" using own by (auto simp: owned_frames_def)
  have small: "pfn < 2 ^ 26" using pfn cover by (simp add: zones_cover_def)
  then have fr: "frame_of_ptr s p = pfn" and nn: "p \<noteq> NULL" using p frame_addr_nonnull by simp_all
  have nf: "pfn \<notin> free_frames s" using owned_not_free [OF wf] own by blast
  from wf nn show thesis
  proof (cases rule: pmm_free_page_cases)
    case (freed s')
    have "owned_frames s' = owned_frames s - {pfn}"
      using freed(6) pfn cover fr by (auto simp: released_def owned_frames_def zones_cover_def nth_list_update)
    with freed fr show thesis by (intro that [of s']) auto
  qed (use pfn fr nf in auto)
qed

lemma free_pages_loop_owned:
  assumes "pmm_wf s" and "distinct is" and "\<forall>i \<in> set is. pfn + i \<in> owned_frames s"
  shows "\<exists>s'. free_pages_loop (frame_addr (pmm_arch s) pfn) is s = Inr s' \<and> pmm_wf s'
    \<and> free_frames s' = free_frames s \<union> (\<lambda>i. pfn + i) ` set is
    \<and> owned_frames s' = owned_frames s - (\<lambda>i. pfn + i) ` set is
    \<and> total_pages s' = total_pages s \<and> pmm_arch s' = pmm_arch s"
  using assms
proof (induction "is" arbitrary: s)
  case (Cons i is')
  have own: "pfn + i \<in> owned_frames s" using Cons.prems by simp
  obtain s1 where s1: "pmm_free_page (frame_addr (pmm_arch s) (pfn + i)) s = Inr s1" "pmm_wf s1"
    "released s (pfn + i) (frame_addr (pmm_arch s) (pfn + i)) s1"
    "owned_frames s1 = owned_frames s - {pfn + i}"
    by (rule pmm_free_page_owned [OF Cons.prems(1) own refl])
  have arch: "pmm_arch s1 = pmm_arch s" and tot: "total_pages s1 = total_pages s"
    using s1(3) by (simp_all add: released_def)
  obtain s' where s': "free_pages_loop (frame_addr (pmm_arch s) pfn) is' s1 = Inr s'" "pmm_wf s'"
    "free_frames s' = free_frames s1 \<union> (\<lambda>i. pfn + i) ` set is'"
    "owned_frames s' = owned_frames s1 - (\<lambda>i. pfn + i) ` set is'"
    "total_pages s' = total_pages s" "pmm_arch s' = pmm_arch s"
    using Cons.IH [OF s1(2)] Cons.prems s1(4) arch tot by auto
  have "free_pages_loop (frame_addr (pmm_arch s) pfn) (i # is') s = Inr s'"
    using s1(1) s'(1) by (simp only: free_pages_loop.simps frame_addr_add kbind.simps)
  moreover have "free_frames s1 = insert (pfn + i) (free_frames s)" using s1(3) by (simp add: released_def)
  ultimately show ?case using s' s1(4) by auto
qed simp

lemma pmm_free_pages_owned:
  assumes "pmm_wf s" and "{pfn..<pfn + c} \<subseteq> owned_frames s"
  obtains s' where "pmm_free_pages (frame_addr (pmm_arch s) pfn) c s = Inr s'" "pmm_wf s'"
    "free_frames s' = free_frames s \<union> {pfn..<pfn + c}" "owned_frames s' = owned_frames s - {pfn..<pfn + c}"
    "total_pages s' = total_pages s" "pmm_arch s' = pmm_arch s"
proof -
  have "(\<lambda>i. pfn + i) ` set [0..<c] = {pfn..<pfn + c}" by (simp add: add.commute)
  then show thesis
    using free_pages_loop_owned [OF assms(1), of "[0..<c]" pfn] assms(2) that
    by (auto simp: pmm_free_pages_def interval_subset_iff)
qed

section \<open>The interface the rest of the kernel relies on\<close>

text \<open>
  A provider of page runs: \<open>pfree\<close> are the addresses of the free pages, \<open>powned\<close> those handed
  out and not yet returned.  The heap and the buffer cache need no more than these laws.
\<close>

definition page_run :: "ptr \<Rightarrow> nat \<Rightarrow> ptr set" where
  "page_run p n = (\<lambda>i. p + of_nat (i * PAGE_SIZE)) ` {..<n}"

locale page_provider =
  fixes pinv :: "'s \<Rightarrow> bool"
    and pfree :: "'s \<Rightarrow> ptr set"
    and powned :: "'s \<Rightarrow> ptr set"
    and palloc :: "nat \<Rightarrow> 's \<Rightarrow> ptr \<times> 's"
    and prelease :: "ptr \<Rightarrow> nat \<Rightarrow> 's \<Rightarrow> 's kres"
  assumes alloc_inv: "pinv s \<Longrightarrow> palloc n s = (p, s') \<Longrightarrow> pinv s'"
    and alloc_none: "pinv s \<Longrightarrow> palloc n s = (NULL, s') \<Longrightarrow> s' = s"
    and alloc_some: "pinv s \<Longrightarrow> palloc n s = (p, s') \<Longrightarrow> p \<noteq> NULL \<Longrightarrow>
      page_run p n \<subseteq> pfree s \<and> pfree s' = pfree s - page_run p n \<and> powned s' = powned s \<union> page_run p n"
    and owned_disjoint: "pinv s \<Longrightarrow> powned s \<inter> pfree s = {}"
    and release_run: "pinv s \<Longrightarrow> page_run p n \<subseteq> powned s \<Longrightarrow>
      \<exists>s'. prelease p n s = Inr s' \<and> pinv s' \<and> pfree s' = pfree s \<union> page_run p n
           \<and> powned s' = powned s - page_run p n"
begin

lemma alloc_fresh:
  assumes "pinv s" and "palloc n s = (p, s')" and "p \<noteq> NULL"
  shows "page_run p n \<inter> powned s = {}"
  using alloc_some [OF assms] owned_disjoint [OF assms(1)] by blast

lemma two_allocs_disjoint:
  assumes "pinv s" and "palloc n s = (p, s1)" and "p \<noteq> NULL" and "palloc m s1 = (q, s2)" and "q \<noteq> NULL"
  shows "page_run p n \<inter> page_run q m = {}"
  using alloc_some [OF assms(1-3)] alloc_some [OF alloc_inv [OF assms(1,2)] assms(4,5)] by blast

lemma alloc_release:
  assumes "pinv s" and "palloc n s = (p, s1)" and "p \<noteq> NULL"
  shows "\<exists>s'. prelease p n s1 = Inr s' \<and> pinv s' \<and> pfree s' = pfree s \<and> powned s' = powned s"
proof -
  note A = alloc_some [OF assms]
  obtain s' where "prelease p n s1 = Inr s'" "pinv s'" "pfree s' = pfree s1 \<union> page_run p n"
    "powned s' = powned s1 - page_run p n"
    using release_run [OF alloc_inv [OF assms(1,2)]] A by blast
  with A alloc_fresh [OF assms] show ?thesis by blast
qed

end

definition free_addrs :: "pmm \<Rightarrow> ptr set" where
  "free_addrs s = frame_addr (pmm_arch s) ` free_frames s"

definition owned_addrs :: "pmm \<Rightarrow> ptr set" where
  "owned_addrs s = frame_addr (pmm_arch s) ` owned_frames s"

lemma page_run_frames: "page_run (frame_addr a pfn) n = frame_addr a ` {pfn..<pfn + n}"
proof -
  have "{pfn..<pfn + n} = (\<lambda>i. pfn + i) ` {..<n}" by (simp add: lessThan_atLeast0 add.commute)
  then show ?thesis by (simp only: page_run_def frame_addr_add image_image)
qed

lemma frame_addr_inj_on:
  assumes "pmm_wf s"
  shows "inj_on (frame_addr (pmm_arch s)) {..<total_pages s}"
  using pmm_wfD(1) [OF assms] by (auto simp: inj_on_def zones_cover_def frame_addr_inj)

lemma owned_run_frames:
  assumes wf: "pmm_wf s" and run: "page_run (frame_addr (pmm_arch s) pfn) n \<subseteq> owned_addrs s"
    and pfn: "pfn < total_pages s"
  shows "{pfn..<pfn + n} \<subseteq> owned_frames s"
proof -
  have tot: "total_pages s \<le> 2 ^ 26" using pmm_wfD(1) [OF wf] by (simp add: zones_cover_def)
  have member: "pfn + i \<in> owned_frames s" if "i < n" "pfn + i \<le> total_pages s" for i
  proof -
    have "frame_addr (pmm_arch s) (pfn + i) \<in> owned_addrs s"
      using run that by (auto simp: page_run_frames)
    then obtain q where "q \<in> owned_frames s" "frame_addr (pmm_arch s) (pfn + i) = frame_addr (pmm_arch s) q"
      by (auto simp: owned_addrs_def)
    moreover have "q < 2 ^ 32" "pfn + i < 2 ^ 32"
      using calculation(1) that tot by (auto simp: owned_frames_def)
    ultimately show ?thesis by (simp add: frame_addr_inj)
  qed
  have "pfn + i \<in> owned_frames s" if "i < n" for i
    using that
  proof (induction i)
    case 0
    then show ?case using member [of 0] pfn by simp
  next
    case (Suc i)
    then have "pfn + i < total_pages s" by (simp add: owned_frames_def)
    with Suc show ?case by (intro member) auto
  qed
  then show ?thesis by (simp add: interval_subset_iff)
qed

interpretation pp: page_provider pmm_wf free_addrs owned_addrs pmm_alloc_pages pmm_free_pages
proof
  fix s s' :: pmm and n :: nat and p :: ptr
  assume wf: "pmm_wf s"
  show "owned_addrs s \<inter> free_addrs s = {}"
  proof -
    have "owned_frames s \<subseteq> {..<total_pages s}" "free_frames s \<subseteq> {..<total_pages s}"
      by (auto simp: owned_frames_def free_frames_def)
    from inj_on_image_Int [OF frame_addr_inj_on [OF wf] this] show ?thesis
      using owned_not_free [OF wf] by (simp add: owned_addrs_def free_addrs_def)
  qed
  show "\<exists>s'. pmm_free_pages p n s = Inr s' \<and> pmm_wf s' \<and> free_addrs s' = free_addrs s \<union> page_run p n
      \<and> owned_addrs s' = owned_addrs s - page_run p n" if run: "page_run p n \<subseteq> owned_addrs s"
  proof (cases "n = 0")
    case True
    then show ?thesis using wf by (simp add: pmm_free_pages_def page_run_def)
  next
    case False
    then have "p \<in> owned_addrs s" using run by (force simp: page_run_def)
    then obtain pfn where pfn: "p = frame_addr (pmm_arch s) pfn" "pfn < total_pages s"
      by (auto simp: owned_addrs_def owned_frames_def)
    note own = owned_run_frames [OF wf _ pfn(2), of n, folded pfn(1), OF run]
    obtain s' where s': "pmm_free_pages p n s = Inr s'" "pmm_wf s'"
      "free_frames s' = free_frames s \<union> {pfn..<pfn + n}" "owned_frames s' = owned_frames s - {pfn..<pfn + n}"
      "total_pages s' = total_pages s" "pmm_arch s' = pmm_arch s"
      using pmm_free_pages_owned [OF wf own] pfn(1) by metis
    have "owned_frames s \<subseteq> {..<total_pages s}" by (auto simp: owned_frames_def)
    then have "frame_addr (pmm_arch s) ` (owned_frames s - {pfn..<pfn + n}) = owned_addrs s - page_run p n"
      unfolding owned_addrs_def pfn(1) page_run_frames
      using own by (intro inj_on_image_set_diff [OF frame_addr_inj_on [OF wf]]) auto
    with s' show ?thesis
      by (auto simp: free_addrs_def owned_addrs_def pfn(1) page_run_frames)
  qed
  assume alloc: "pmm_alloc_pages n s = (p, s')"
  note spec = alloc_pages_impl_spec [OF wf alloc [unfolded pmm_alloc_pages_def]]
  show "pmm_wf s'" by (rule spec(1))
  show "page_run p n \<subseteq> free_addrs s \<and> free_addrs s' = free_addrs s - page_run p n
      \<and> owned_addrs s' = owned_addrs s \<union> page_run p n" if nn: "p \<noteq> NULL"
  proof -
    obtain pfn where pfn: "p = frame_addr (pmm_arch s) pfn" and al: "allocated s pfn n s'"
      using spec(3) [OF nn] by blast
    have "free_frames s \<subseteq> {..<total_pages s}" by (auto simp: free_frames_def)
    then have "frame_addr (pmm_arch s) ` (free_frames s - {pfn..<pfn + n}) = free_addrs s - page_run p n"
      unfolding free_addrs_def pfn page_run_frames
      using al by (intro inj_on_image_set_diff [OF frame_addr_inj_on [OF wf]]) (auto simp: allocated_def)
    then show ?thesis
      using al allocated_owned [OF al]
      by (auto simp: free_addrs_def owned_addrs_def pfn page_run_frames allocated_def)
  qed
next
  show "pmm_wf s \<Longrightarrow> pmm_alloc_pages n s = (NULL, s') \<Longrightarrow> s' = s" for s s' n
    using alloc_pages_impl_spec(2) by (metis pmm_alloc_pages_def)
qed

section \<open>Aligned allocation\<close>

lemma round_up_pages:
  fixes m a :: nat
  assumes "0 < a"
  shows "(4096 * m + 4096 * a - 1) div (4096 * a) * (4096 * a) = 4096 * ((m + a - 1) div a * a)"
    and "m \<le> (m + a - 1) div a * a" and "(m + a - 1) div a * a \<le> m + a - 1"
proof -
  have "4096 * m + 4096 * a - 1 = 4095 + (m + a - 1) * 4096" using assms by (simp add: algebra_simps)
  then have "(4096 * m + 4096 * a - 1) div 4096 = m + a - 1" by simp
  then have "(4096 * m + 4096 * a - 1) div (4096 * a) = (m + a - 1) div a"
    by (simp add: div_mult2_eq)
  then show "(4096 * m + 4096 * a - 1) div (4096 * a) * (4096 * a) = 4096 * ((m + a - 1) div a * a)" by simp
  show "(m + a - 1) div a * a \<le> m + a - 1" by simp
  have "m + a - 1 < ((m + a - 1) div a) * a + a"
    using dividend_less_div_times [OF assms, of "m + a - 1"] by simp
  then show "m \<le> (m + a - 1) div a * a" by simp
qed

text \<open>The first frame at or after \<open>pfn\<close> whose address has the alignment.\<close>

lemma aligned_frame:
  assumes pfn: "pfn < 2 ^ 26" and k: "12 \<le> k" "k \<le> 40"
    and al_def: "al = (frame_addr a pfn + 2 ^ k - 1) AND NOT (2 ^ k - 1)"
  obtains sk where "sk < 2 ^ (k - 12)" "al = frame_addr a (pfn + sk)" "2 ^ k dvd unat al"
    "unat ((al - frame_addr a pfn) div 4096) = sk"
proof -
  define A :: nat where "A = 2 ^ (k - 12)"
  have kA: "(2::nat) ^ k = 4096 * A"
    using k power_add [of "2::nat" "k - 12" 12] by (simp add: A_def)
  have A: "0 < A" "A \<le> 2 ^ 28" using k power_increasing [of "k - 12" 28 "2::nat"] by (auto simp: A_def)
  define m where "m = (unat (KERNEL_VIRT_BASE a) + unat (MEMORY_BASE a)) div 4096 + pfn"
  have M: "unat (frame_addr a pfn) = 4096 * m"
    using unat_frame_addr [of pfn a] pfn by (cases a) (simp_all add: m_def)
  have m: "m < 2 ^ 52 - 2 ^ 30" using pfn by (cases a) (simp_all add: m_def)
  define r where "r = (m + A - 1) div A * A"
  note R = round_up_pages(2,3) [OF A(1), of m, folded r_def]
  have al: "unat al = 4096 * r"
    using align_up_unat [of k "frame_addr a pfn"] k m A(2) round_up_pages(1) [OF A(1), of m]
    by (simp add: al_def M kA r_def)
  have "unat (frame_addr a (pfn + (r - m))) = 4096 * r"
    using unat_frame_addr [of "pfn + (r - m)" a] unat_frame_addr [of pfn a] M R A pfn by simp
  then have eq: "al = frame_addr a (pfn + (r - m))" using al by (metis word_unat_eq_iff)
  have "unat (al - frame_addr a pfn) = 4096 * (r - m)"
    using al M R(1) by (subst unat_sub) (simp_all add: word_le_nat_alt right_diff_distrib')
  then have "unat ((al - frame_addr a pfn) div 4096) = r - m" by (simp add: unat_div)
  moreover have "2 ^ k dvd unat al" by (simp add: al kA r_def)
  moreover have "r - m < A" using R A by linarith
  ultimately show thesis using that eq A_def by blast
qed

lemma div_pages_unat:
  fixes sz :: u64
  assumes "unat sz \<le> 2 ^ 52"
  shows "unat ((sz + 4095) div 4096) = (unat sz + 4095) div 4096"
proof -
  have "unat (sz + 4095) = unat sz + 4095" using assms by (simp add: unat_word_ariths)
  then show ?thesis by (simp add: unat_div)
qed

text \<open>Both trimming steps free a possibly empty run.\<close>

lemma free_run_opt:
  fixes w :: u64
  assumes wf: "pmm_wf s" and own: "{q..<q + unat w} \<subseteq> owned_frames s" and a: "pmm_arch s = a"
  obtains s' where "(if w > 0 then pmm_free_pages (frame_addr a q) (unat w) s else Inr s) = Inr s'"
    "pmm_wf s'" "free_frames s' = free_frames s \<union> {q..<q + unat w}"
    "owned_frames s' = owned_frames s - {q..<q + unat w}" "pmm_arch s' = a"
proof (cases "w > 0")
  case True
  obtain s' where "pmm_free_pages (frame_addr (pmm_arch s) q) (unat w) s = Inr s'" "pmm_wf s'"
    "free_frames s' = free_frames s \<union> {q..<q + unat w}" "owned_frames s' = owned_frames s - {q..<q + unat w}"
    "total_pages s' = total_pages s" "pmm_arch s' = pmm_arch s"
    by (rule pmm_free_pages_owned [OF wf own])
  with True a show thesis by (intro that [of s']) auto
next
  case False
  then have "w = 0" by (simp add: word_gt_0)
  with wf a show thesis by (intro that [of s]) auto
qed

text \<open>Trimming a run of \<open>t\<close> frames to \<open>n\<close> frames at offset \<open>sk\<close>.\<close>

lemma trim_run:
  fixes pages tl skip :: u64
  assumes wf: "pmm_wf s" and own: "{pfn..<pfn + t} \<subseteq> owned_frames s" and a: "pmm_arch s = a"
    and pages: "unat pages = n" and tl: "unat tl = t" and skip: "unat skip = sk" and fit: "sk + n \<le> t"
    and aligned: "aligned = frame_addr a (pfn + sk)"
  obtains s' where "kbind (if skip > 0 then pmm_free_pages (frame_addr a pfn) (unat skip) s else Inr s)
      (\<lambda>s2. kbind (if tl - skip - pages > 0
           then pmm_free_pages (aligned + pages * 4096) (unat (tl - skip - pages)) s2 else Inr s2)
         (\<lambda>s3. Inr (aligned, s3))) = Inr (aligned, s')" "pmm_wf s'"
    "free_frames s' = free_frames s \<union> ({pfn..<pfn + t} - {pfn + sk..<pfn + sk + n})"
    "owned_frames s' = owned_frames s - ({pfn..<pfn + t} - {pfn + sk..<pfn + sk + n})"
proof -
  have "unat (tl - skip) = t - sk"
    using tl skip fit by (subst unat_sub) (auto simp: word_le_nat_alt)
  then have un: "unat (tl - skip - pages) = t - sk - n"
    using pages fit by (subst unat_sub) (auto simp: word_le_nat_alt)
  have "{pfn..<pfn + unat skip} \<subseteq> owned_frames s" using own skip fit by auto
  then obtain s2 where s2:
    "(if skip > 0 then pmm_free_pages (frame_addr a pfn) (unat skip) s else Inr s) = Inr s2" "pmm_wf s2"
    "free_frames s2 = free_frames s \<union> {pfn..<pfn + unat skip}"
    "owned_frames s2 = owned_frames s - {pfn..<pfn + unat skip}" "pmm_arch s2 = a"
    by (rule free_run_opt [OF wf _ a])
  have "{pfn + sk + n..<pfn + sk + n + unat (tl - skip - pages)} \<subseteq> owned_frames s2"
    using own s2(4) un skip fit by auto
  then obtain s3 where s3:
    "(if tl - skip - pages > 0 then pmm_free_pages (frame_addr a (pfn + sk + n)) (unat (tl - skip - pages)) s2
      else Inr s2) = Inr s3" "pmm_wf s3"
    "free_frames s3 = free_frames s2 \<union> {pfn + sk + n..<pfn + sk + n + unat (tl - skip - pages)}"
    "owned_frames s3 = owned_frames s2 - {pfn + sk + n..<pfn + sk + n + unat (tl - skip - pages)}"
    by (rule free_run_opt [OF s2(2) _ s2(5)])
  have tail: "aligned + pages * 4096 = frame_addr a (pfn + sk + n)"
    using frame_addr_add [of a "pfn + sk" n] unfolding aligned pages [symmetric] by simp
  show thesis
  proof (rule that [of s3])
    show "kbind (if skip > 0 then pmm_free_pages (frame_addr a pfn) (unat skip) s else Inr s)
      (\<lambda>s2. kbind (if tl - skip - pages > 0
           then pmm_free_pages (aligned + pages * 4096) (unat (tl - skip - pages)) s2 else Inr s2)
         (\<lambda>s3. Inr (aligned, s3))) = Inr (aligned, s3)"
      unfolding s2(1) kbind.simps tail s3(1) ..
    show "free_frames s3 = free_frames s \<union> ({pfn..<pfn + t} - {pfn + sk..<pfn + sk + n})"
      unfolding s3(3) s2(3) un skip using fit by auto
    show "owned_frames s3 = owned_frames s - ({pfn..<pfn + t} - {pfn + sk..<pfn + sk + n})"
      unfolding s3(4) s2(4) un skip using fit by auto
  qed (rule s3(2))
qed

lemma pmm_alloc_aligned_spec:
  assumes wf: "pmm_wf s" and k: "12 \<le> k" "k \<le> 40" and sz: "unat sz \<le> 2 ^ 52"
  obtains p s' where "pmm_alloc_aligned sz (2 ^ k) s = Inr (p, s')" "pmm_wf s'"
    "p \<noteq> NULL \<Longrightarrow> 2 ^ k dvd unat p \<and> (\<exists>pfn. p = frame_addr (pmm_arch s) pfn
       \<and> {pfn..<pfn + (unat sz + 4095) div 4096} \<subseteq> free_frames s
       \<and> free_frames s' = free_frames s - {pfn..<pfn + (unat sz + 4095) div 4096}
       \<and> owned_frames s' = owned_frames s \<union> {pfn..<pfn + (unat sz + 4095) div 4096})"
proof -
  define n where "n = (unat sz + 4095) div 4096"
  define A :: nat where "A = 2 ^ (k - 12)"
  let ?pages = "(sz + 4095) div 4096 :: u64" and ?ap = "(2 ^ k + 4095) div 4096 :: u64"
  have kA: "(2::nat) ^ k = 4096 * A"
    using k power_add [of "2::nat" "k - 12" 12] by (simp add: A_def)
  have A: "0 < A" "A \<le> 2 ^ 28" using k power_increasing [of "k - 12" 28 "2::nat"] by (auto simp: A_def)
  have pages: "unat ?pages = n" using div_pages_unat [OF sz] by (simp add: n_def)
  have n: "n \<le> 2 ^ 41" using sz by (simp add: n_def)
  have "unat (2 ^ k :: u64) = 4096 * A" using unat_exp_64 [of k] k kA by simp
  then have ap: "unat ?ap = A" using div_pages_unat [of "2 ^ k"] A by simp
  have tot: "unat (?pages + ?ap - 1) = n + A - 1"
  proof -
    have "unat (?pages + ?ap) = n + A" using pages ap n A by (simp add: unat_word_ariths)
    moreover have "(1::u64) \<le> ?pages + ?ap" using calculation A by (simp add: word_le_nat_alt)
    ultimately show ?thesis by (simp add: unat_sub)
  qed
  obtain mem s1 where alloc: "pmm_alloc_pages_dma (n + A - 1) s = (mem, s1)" by fastforce
  note spec = alloc_pages_impl_spec [OF wf alloc [unfolded pmm_alloc_pages_dma_def]]
  show thesis
  proof (cases "mem = NULL")
    case True
    then have "pmm_alloc_aligned sz (2 ^ k) s = Inr (NULL, s1)"
      using alloc tot pages ap A
      by (cases "A = 1") (auto simp: pmm_alloc_aligned_def Let_def word_le_nat_alt)
    with spec(1) show thesis using that by blast
  next
    case False
    obtain pfn where pfn: "mem = frame_addr (pmm_arch s) pfn" and al: "allocated s pfn (n + A - 1) s1"
      and pos: "0 < n + A - 1" using spec(3) [OF False] by blast
    have "pfn + (n + A - 1) \<le> 2 ^ 26"
      using al pmm_wfD(1) [OF wf] unfolding allocated_def zones_cover_def by linarith
    then have small: "pfn < 2 ^ 26" using pos by linarith
    show thesis
    proof (cases "A = 1")
      case True
      then have k12: "k = 12" using A_def k by simp
      have "pmm_alloc_aligned sz (2 ^ k) s = Inr (mem, s1)"
        using alloc pages ap True by (simp add: pmm_alloc_aligned_def Let_def word_le_nat_alt)
      moreover have "2 ^ k dvd unat mem"
        using unat_frame_addr [of pfn "pmm_arch s"] small
        by (cases "pmm_arch s") (simp_all add: pfn k12)
      ultimately show thesis
        using that [of mem s1] spec(1) al allocated_owned [OF al] pfn True
        by (auto simp: allocated_def n_def)
    next
      case False
      define aligned where "aligned = (mem + 2 ^ k - 1) AND NOT (2 ^ k - 1)"
      obtain sk where sk: "sk < A" "aligned = frame_addr (pmm_arch s) (pfn + sk)"
        "2 ^ k dvd unat aligned" "unat ((aligned - mem) div 4096) = sk"
        using aligned_frame [OF small k aligned_def [unfolded pfn]] A_def pfn by metis
      have big: "(?ap \<le> 1) = False" using ap A(1) False by (simp add: word_le_nat_alt)
      have fit: "sk + n \<le> n + A - 1" using sk(1) by simp
      have own1: "{pfn..<pfn + (n + A - 1)} \<subseteq> owned_frames s1" and arch1: "pmm_arch s1 = pmm_arch s"
        using al allocated_owned [OF al] by (auto simp: allocated_def)
      obtain s3 where s3: "kbind (if (aligned - mem) div 4096 > 0 then pmm_free_pages mem (unat ((aligned - mem) div 4096)) s1 else Inr s1)
        (\<lambda>s2. kbind (if ?pages + ?ap - 1 - (aligned - mem) div 4096 - ?pages > 0
           then pmm_free_pages (aligned + ?pages * 4096) (unat (?pages + ?ap - 1 - (aligned - mem) div 4096 - ?pages)) s2
           else Inr s2) (\<lambda>s3. Inr (aligned, s3))) = Inr (aligned, s3)" "pmm_wf s3"
        "free_frames s3 = free_frames s1 \<union> ({pfn..<pfn + (n + A - 1)} - {pfn + sk..<pfn + sk + n})"
        "owned_frames s3 = owned_frames s1 - ({pfn..<pfn + (n + A - 1)} - {pfn + sk..<pfn + sk + n})"
        by (rule trim_run [OF spec(1) own1 arch1 pages tot sk(4) fit sk(2), folded pfn])
      have "pmm_alloc_aligned sz (2 ^ k) s = Inr (aligned, s3)"
        using s3(1) by (simp only: pmm_alloc_aligned_def Let_def big tot alloc prod.case if_False
            \<open>mem \<noteq> NULL\<close> aligned_def [symmetric])
      moreover have "free_frames s3 = free_frames s - {pfn + sk..<pfn + sk + n}"
        using s3(3) al sk(1) A(1) by (auto simp: allocated_def subset_iff)
      moreover have "owned_frames s3 = owned_frames s \<union> {pfn + sk..<pfn + sk + n}"
        using s3(4) allocated_owned [OF al] al owned_not_free [OF wf] sk(1) by (fastforce simp: allocated_def)
      moreover have "{pfn + sk..<pfn + sk + n} \<subseteq> free_frames s"
        using al sk(1) by (auto simp: allocated_def subset_iff)
      ultimately show thesis
        using that [of aligned s3] s3(2) sk(2,3) n_def by blast
    qed
  qed
qed

section \<open>The fragmentation scan\<close>

lemma frag_extend_Suc: "0 < n \<Longrightarrow> frag_extend (Suc 0) (frag_extend n f) = frag_extend (Suc n) f"
  by (auto simp: frag_extend_def Let_def)

lemma frag_extend_fold: "fold (\<lambda>_. frag_extend 1) [0..<Suc n] f = frag_extend (Suc n) f"
  by (induction n) (simp_all add: frag_extend_Suc)

lemma frag_close_fold: "fold (\<lambda>_. frag_close) [0..<Suc n] f = frag_close f"
  by (induction n) (simp_all add: frag_close_def)

definition frag_scan :: "bitmap \<Rightarrow> nat \<Rightarrow> nat \<Rightarrow> frag \<Rightarrow> frag" where
  "frag_scan bm a b f = fold (\<lambda>i. frag_bit (bitmap_test bm i)) [a..<b] f"

lemma frag_scan_append: "a \<le> b \<Longrightarrow> b \<le> c \<Longrightarrow> frag_scan bm b c (frag_scan bm a b f) = frag_scan bm a c f"
  using upt_add_eq_append [of a b "c - b"] by (simp add: frag_scan_def)

lemma word_bits_scan:
  assumes "bits \<le> 64"
  shows "fold (\<lambda>b. frag_bit (bm ! wi AND push_bit b 1 \<noteq> 0)) [0..<bits] f = frag_scan bm (64 * wi) (64 * wi + bits) f"
proof -
  have "[64 * wi..<64 * wi + bits] = map (\<lambda>b. 64 * wi + b) [0..<bits]"
    by (simp add: map_add_upt add.commute)
  moreover have "fold (\<lambda>b. frag_bit (bm ! wi AND push_bit b 1 \<noteq> 0)) [0..<bits] f
      = fold (\<lambda>b. frag_bit (bitmap_test bm (64 * wi + b))) [0..<bits] f"
    using assms by (intro fold_cong) (auto simp: bitmap_test_def)
  ultimately show ?thesis by (simp add: frag_scan_def fold_map comp_def)
qed

lemma frag_word_scan:
  assumes "nwords = (npages + 63) div 64" and "wi < nwords"
  shows "frag_word bm npages nwords wi f = frag_scan bm (64 * wi) (min (64 * Suc wi) npages) f"
proof -
  define bits where "bits = (if wi = nwords - 1 \<and> npages mod 64 \<noteq> 0 then npages mod 64 else 64)"
  have bits: "0 < bits" "bits \<le> 64" by (auto simp: bits_def)
  have e: "64 * wi + bits = min (64 * Suc wi) npages"
  proof -
    obtain q r where n: "npages = 64 * q + r" and r: "r < 64"
      by (metis mult_div_mod_eq mod_less_divisor zero_less_numeral)
    have q: "nwords = (if r = 0 then q else Suc q)"
      using assms(1) r unfolding n by (cases "r = 0") auto
    have m: "npages mod 64 = r" using n r by simp
    show ?thesis
      using assms(2) q r unfolding bits_def m n by (cases "r = 0") (auto simp: min_def)
  qed
  have scan: "fold (\<lambda>b. frag_bit (bm ! wi AND push_bit b 1 \<noteq> 0)) [0..<bits] f
      = frag_scan bm (64 * wi) (min (64 * Suc wi) npages) f"
    using word_bits_scan [OF bits(2)] e by simp
  have fw: "frag_word bm npages nwords wi f =
     (if bm ! wi = 0 \<and> bits = 64 then frag_extend 64 f else if bm ! wi = - 1 then frag_close f
      else fold (\<lambda>b. frag_bit (bm ! wi AND push_bit b 1 \<noteq> 0)) [0..<bits] f)"
    by (simp only: frag_word_def Let_def bits_def)
  consider (zero) "bm ! wi = 0" "bits = 64" | (ones) "bm ! wi = - 1" "\<not> (bm ! wi = 0 \<and> bits = 64)"
    | (mixed) "bm ! wi \<noteq> - 1" "\<not> (bm ! wi = 0 \<and> bits = 64)" by blast
  then show ?thesis
  proof cases
    case zero
    have "frag_bit False = frag_extend (Suc 0)" by (simp add: frag_bit_def fun_eq_iff)
    with zero have "fold (\<lambda>b. frag_bit (bm ! wi AND push_bit b 1 \<noteq> 0)) [0..<bits] f = frag_extend 64 f"
      using frag_extend_fold [of 63 f] by simp
    with zero scan show ?thesis unfolding fw by metis
  next
    case ones
    have "fold (\<lambda>b. frag_bit (bm ! wi AND push_bit b 1 \<noteq> 0)) [0..<bits] f = fold (\<lambda>_. frag_close) [0..<bits] f"
      using bits(2) ones(1) by (intro fold_cong) (auto simp: frag_bit_def fun_eq_iff)
    also have "\<dots> = frag_close f" using frag_close_fold [of "bits - 1" f] bits(1) by simp
    finally show ?thesis using ones scan unfolding fw by metis
  next
    case mixed
    with scan show ?thesis unfolding fw by metis
  qed
qed

lemma frag_words_scan:
  assumes "nwords = (npages + 63) div 64" and "k \<le> nwords"
  shows "fold (frag_word bm npages nwords) [0..<k] f = frag_scan bm 0 (min (64 * k) npages) f"
  using assms(2)
proof (induction k)
  case 0
  then show ?case by (simp add: frag_scan_def)
next
  case (Suc k)
  have "64 * k \<le> npages" using Suc.prems assms(1) by auto
  with Suc show ?case
    by (simp add: frag_word_scan [OF assms(1)] frag_scan_append min_absorb1)
qed

lemma pmm_get_fragmentation_scan:
  "pmm_get_fragmentation s =
     (let f = frag_scan (z_bitmap (zones s ZONE_NORMAL)) 0 (zone_npages (zones s ZONE_NORMAL))
                \<lparr>fr_cur = 0, fr_max = 0, fr_runs = 0, fr_in_run = False\<rparr>
      in (fr_max f, fr_runs f))"
proof -
  have "min (64 * ((n + 63) div 64)) n = n" for n :: nat by simp
  then show ?thesis
    by (simp add: pmm_get_fragmentation_def Let_def frag_words_scan [OF refl order_refl] flip: zone_npages_def)
qed

text \<open>What the bit-by-bit scan has computed after the first \<open>n\<close> bits.\<close>

definition frag_ok :: "bitmap \<Rightarrow> nat \<Rightarrow> frag \<Rightarrow> bool" where
  "frag_ok bm n f \<longleftrightarrow>
     (fr_in_run f \<longleftrightarrow> 0 < fr_cur f) \<and> fr_cur f \<le> n
     \<and> (\<forall>k < fr_cur f. \<not> bitmap_test bm (n - Suc k))
     \<and> (fr_cur f < n \<longrightarrow> bitmap_test bm (n - Suc (fr_cur f)))
     \<and> (\<forall>len. len \<le> fr_max f \<longleftrightarrow> (\<exists>p. p + len \<le> n \<and> free_run bm len p))
     \<and> fr_runs f = card {i. i < n \<and> \<not> bitmap_test bm i \<and> (i = 0 \<or> bitmap_test bm (i - 1))}"

lemma frag_ok_used:
  assumes "frag_ok bm n f" and t: "bitmap_test bm n"
  shows "frag_ok bm (Suc n) (frag_close f)"
proof -
  have "(\<exists>p. p + len \<le> Suc n \<and> free_run bm len p) \<longleftrightarrow> (\<exists>p. p + len \<le> n \<and> free_run bm len p)" for len
  proof
    assume "\<exists>p. p + len \<le> Suc n \<and> free_run bm len p"
    then obtain p where p: "p + len \<le> Suc n" "free_run bm len p" by blast
    show "\<exists>p. p + len \<le> n \<and> free_run bm len p"
    proof (cases "p + len = Suc n \<and> 0 < len")
      case True
      then have "\<not> bitmap_test bm (p + (len - 1))"
        using p(2) [unfolded free_run_iff, rule_format, of "len - 1"] by linarith
      moreover have "p + (len - 1) = n" using True by linarith
      ultimately show ?thesis using t by metis
    next
      case False
      show ?thesis
      proof (cases "len = 0")
        case True then show ?thesis by (intro exI [of _ 0]) (simp add: free_run_iff)
      next
        case len: False
        with False p show ?thesis by (intro exI [of _ p]) auto
      qed
    qed
  qed (use le_SucI in blast)
  moreover have "{i. i < Suc n \<and> \<not> bitmap_test bm i \<and> (i = 0 \<or> bitmap_test bm (i - 1))}
      = {i. i < n \<and> \<not> bitmap_test bm i \<and> (i = 0 \<or> bitmap_test bm (i - 1))}"
    using t by (auto simp: less_Suc_eq)
  ultimately show ?thesis
    using assms by (simp add: frag_ok_def frag_close_def)
qed

lemma frag_ok_free:
  assumes ok: "frag_ok bm n f" and t: "\<not> bitmap_test bm n"
  shows "frag_ok bm (Suc n) (frag_extend 1 f)"
proof -
  let ?c = "fr_cur f"
  have cur: "fr_cur (frag_extend 1 f) = Suc ?c" and inr: "fr_in_run (frag_extend 1 f)"
    and mx: "fr_max (frag_extend 1 f) = max (fr_max f) (Suc ?c)"
    and runs: "fr_runs (frag_extend 1 f) = (if ?c = 0 then Suc (fr_runs f) else fr_runs f)"
    using ok by (auto simp: frag_ok_def frag_extend_def Let_def)
  have suffix: "\<not> bitmap_test bm (Suc n - Suc k)" if "k < Suc ?c" for k
  proof (cases k)
    case 0 then show ?thesis using t by simp
  next
    case (Suc j)
    then have "\<not> bitmap_test bm (n - Suc j)" using ok that by (auto simp: frag_ok_def)
    then show ?thesis using Suc by simp
  qed
  have run: "len \<le> max (fr_max f) (Suc ?c) \<longleftrightarrow> (\<exists>p. p + len \<le> Suc n \<and> free_run bm len p)" for len
  proof
    assume le: "len \<le> max (fr_max f) (Suc ?c)"
    show "\<exists>p. p + len \<le> Suc n \<and> free_run bm len p"
    proof (cases "len \<le> fr_max f")
      case True
      then obtain p where "p + len \<le> n" "free_run bm len p" using ok by (auto simp: frag_ok_def)
      then show ?thesis by (intro exI [of _ p]) simp
    next
      case False
      then have len: "len \<le> Suc ?c" "?c \<le> n" using le ok by (auto simp: frag_ok_def)
      have "\<not> bitmap_test bm (Suc n - len + k)" if "k < len" for k
        using suffix [of "len - Suc k"] that len by (simp add: Suc_diff_le)
      then show ?thesis using len by (intro exI [of _ "Suc n - len"]) (auto simp: free_run_iff)
    qed
  next
    assume "\<exists>p. p + len \<le> Suc n \<and> free_run bm len p"
    then obtain p where p: "p + len \<le> Suc n" "free_run bm len p" by blast
    show "len \<le> max (fr_max f) (Suc ?c)"
    proof (cases "p + len \<le> n")
      case True
      with p(2) ok have "len \<le> fr_max f" by (auto simp: frag_ok_def)
      then show ?thesis by simp
    next
      case False
      with p have e: "p + len = Suc n" by simp
      have "\<not> Suc ?c < len"
      proof
        assume "Suc ?c < len"
        with e have "bitmap_test bm (n - Suc ?c)" using ok by (auto simp: frag_ok_def)
        moreover have "n - Suc ?c = p + (len - Suc (Suc ?c))" using e \<open>Suc ?c < len\<close> by linarith
        moreover have "\<not> bitmap_test bm (p + (len - Suc (Suc ?c)))"
          using p(2) [unfolded free_run_iff, rule_format, of "len - Suc (Suc ?c)"] \<open>Suc ?c < len\<close> by linarith
        ultimately show False by metis
      qed
      then show ?thesis by simp
    qed
  qed
  let ?R = "\<lambda>m. {i. i < m \<and> \<not> bitmap_test bm i \<and> (i = 0 \<or> bitmap_test bm (i - 1))}"
  have "n = 0 \<or> bitmap_test bm (n - 1) \<longleftrightarrow> ?c = 0"
  proof (cases "?c = 0")
    case True then show ?thesis using ok by (cases n) (auto simp: frag_ok_def)
  next
    case False then show ?thesis using ok by (auto simp: frag_ok_def)
  qed
  then have "?R (Suc n) = (if ?c = 0 then insert n (?R n) else ?R n)"
    using t by (auto simp: less_Suc_eq)
  moreover have "finite (?R n)" "n \<notin> ?R n" by auto
  ultimately have cardR: "card (?R (Suc n)) = (if ?c = 0 then Suc (fr_runs f) else fr_runs f)"
    using ok by (auto simp: frag_ok_def)
  show ?thesis
    unfolding frag_ok_def cur mx runs cardR
    using suffix run inr ok by (auto simp: frag_ok_def)
qed

lemma frag_scan_ok:
  "frag_ok bm n (frag_scan bm 0 n \<lparr>fr_cur = 0, fr_max = 0, fr_runs = 0, fr_in_run = False\<rparr>)"
proof (induction n)
  case 0
  show ?case by (auto simp: frag_ok_def frag_scan_def free_run_iff)
next
  case (Suc n)
  then show ?case
    using frag_ok_used [of bm n] frag_ok_free [of bm n] by (simp add: frag_scan_def frag_bit_def)
qed


end
