(* ===== verification/Pmm_Init.thy ===== *)
theory Pmm_Init
  imports Pmm_Correct
begin

text \<open>
  The two boot phases of the physical memory manager: \<open>pmm_early_init\<close> measures RAM from the
  boot memory map and places the metadata, \<open>pmm_init\<close> builds the zones and reserves the kernel
  image, the metadata, the reserved regions and every hole of the memory map.  Addresses are
  64-bit words with the wrap-around of the source.  The linker symbols \<open>__kernel_start\<close> and
  \<open>__kernel_end\<close> are arguments.  A null or empty region table is the empty list.
\<close>

record mem_region =
  mr_base :: u64
  mr_size :: u64
  mr_type :: u32

definition MEM_REGION_USABLE :: u32 where "MEM_REGION_USABLE = 1"

abbreviation usable :: "mem_region \<Rightarrow> bool" where
  "usable r \<equiv> mr_type r = MEM_REGION_USABLE"

definition mr_end :: "mem_region \<Rightarrow> u64" where
  "mr_end r = mr_base r + mr_size r"

definition PAGE_ALIGN :: "u64 \<Rightarrow> u64" where
  "PAGE_ALIGN addr = (addr + 4096 - 1) AND NOT (4096 - 1)"

definition DMA_END_PFN :: nat where
  "DMA_END_PFN = phys_to_pfn 0x1000000"

section \<open>Phase one\<close>

text \<open>The scan of the region table: the highest usable end and the sum of usable bytes.\<close>

definition discover_region :: "arch \<Rightarrow> mem_region \<Rightarrow> u64 \<times> u64 \<Rightarrow> u64 \<times> u64" where
  "discover_region a r = (\<lambda>(max_detected, usable_bytes).
     if usable r
     then (if mr_end r > max_detected then mr_end r else max_detected,
           if mr_end r > MEMORY_BASE a
           then usable_bytes + (mr_end r - (if mr_base r > MEMORY_BASE a then mr_base r else MEMORY_BASE a))
           else usable_bytes)
     else (max_detected, usable_bytes))"

definition discover :: "arch \<Rightarrow> mem_region list \<Rightarrow> u64 \<times> u64" where
  "discover a regions =
     (if regions \<noteq> [] then fold (discover_region a) regions (0, 0)
      else (MEMORY_BASE a + push_bit 30 1, push_bit 30 1))"

definition clamp_detected :: "arch \<Rightarrow> u64 \<Rightarrow> u64" where
  "clamp_detected a m = (if m > MEMORY_BASE a + push_bit 30 256 then MEMORY_BASE a + push_bit 30 256 else m)"

definition sizeof_struct_page :: u64 where "sizeof_struct_page = 32"

definition normal_bitmap_size :: "u64 \<Rightarrow> u64" where
  "normal_bitmap_size tp = (tp - of_nat DMA_END_PFN + 63) div 64 * 8"

definition metadata_size :: "u64 \<Rightarrow> u64" where
  "metadata_size tp =
     (let page_array_size = tp * sizeof_struct_page;
          dma_bitmap_size = (of_nat DMA_END_PFN + 63) div 64 * 8
      in PAGE_ALIGN (page_array_size + dma_bitmap_size + normal_bitmap_size tp))"

text \<open>One pass over the table that moves the target past the reserved regions it overlaps, and
  the repetition of that pass until it changes nothing.\<close>

definition bump_region :: "u64 \<Rightarrow> mem_region \<Rightarrow> u64 \<times> bool \<Rightarrow> u64 \<times> bool" where
  "bump_region sz r = (\<lambda>(target, bumped).
     if usable r then (target, bumped)
     else let r_end = PAGE_ALIGN (mr_end r)
          in if target < r_end \<and> target + sz > mr_base r then (r_end, True) else (target, bumped))"

lemma bump_fold_grows:
  "fold (bump_region sz) rs (t, b) = (t', b') \<Longrightarrow> t \<le> t' \<and> (b' \<longrightarrow> b \<or> t < t') \<and> (b \<longrightarrow> b')
    \<and> (\<not> b' \<longrightarrow> t' = t \<and> (\<forall>r \<in> set rs. \<not> usable r \<longrightarrow> \<not> (t < PAGE_ALIGN (mr_end r) \<and> t + sz > mr_base r)))"
proof (induction rs arbitrary: t b)
  case (Cons r rs)
  obtain t1 b1 where r: "bump_region sz r (t, b) = (t1, b1)" by fastforce
  note IH = Cons.IH [of t1 b1]
  show ?case
    using IH Cons.prems r by (auto simp: bump_region_def Let_def split: if_splits)
qed auto

function bump_target :: "mem_region list \<Rightarrow> u64 \<Rightarrow> u64 \<Rightarrow> u64" where
  "bump_target regions sz target =
     (let (target', bumped) = fold (bump_region sz) regions (target, False)
      in if bumped then bump_target regions sz target' else target')"
  by pat_completeness auto
termination
proof (relation "measure (\<lambda>(regions, sz, target). 2 ^ 64 - unat target)", goal_cases)
  case (2 regions sz target x target' bumped)
  then have "target < target'" using bump_fold_grows [of sz regions target False target' bumped] by simp
  then show ?case using unat_less_64 [of target'] by (simp add: word_less_nat_alt)
qed simp

declare bump_target.simps [simp del]

fun place_metadata :: "mem_region list \<Rightarrow> u64 \<Rightarrow> u64 \<Rightarrow> mem_region list \<Rightarrow> u64" where
  "place_metadata regions sz kernel_limit [] = 0"
| "place_metadata regions sz kernel_limit (r # rs) =
     (if usable r \<and> mr_size r \<ge> sz
      then let target = bump_target regions sz (if mr_base r < kernel_limit then kernel_limit else mr_base r)
           in if target + sz \<le> mr_end r then target
              else place_metadata regions sz kernel_limit rs
      else place_metadata regions sz kernel_limit rs)"

definition pmm_early_init :: "mem_region list \<Rightarrow> ptr \<Rightarrow> pmm \<Rightarrow> pmm kres" where
  "pmm_early_init regions kernel_end s =
     (let a = pmm_arch s;
          (max_detected, usable_bytes) = discover a regions;
          mem_end = clamp_detected a max_detected;
          tp = (mem_end - MEMORY_BASE a) div 4096;
          usable0 = usable_bytes div 4096;
          usable_p = (if usable0 > tp then tp else usable0);
          sz = metadata_size tp;
          metadata_phys = place_metadata regions sz (PAGE_ALIGN (virt_to_phys a kernel_end)) regions
      in if metadata_phys = 0 then Inl (Panic ''PMM: Failed to allocate metadata area'')
         else Inr (s\<lparr>total_pages := unat tp, usable_pages := unat usable_p,
                pmm_metadata_end_phys := metadata_phys + sz,
                page_array_va := phys_to_virt a metadata_phys,
                page_array := replicate (unat tp) \<lparr>pg_flags = 0, pg_refcount = 0\<rparr>,
                ram := mem_fill (ram s) (phys_to_virt a metadata_phys) (unat sz) 0\<rparr>))"

section \<open>Phase two\<close>

text \<open>The lowest usable region that ends past the cursor.\<close>

definition pick_region :: "u64 \<Rightarrow> mem_region \<Rightarrow> u64 \<times> u64 \<Rightarrow> u64 \<times> u64" where
  "pick_region cursor r = (\<lambda>(next_base, next_end).
     if \<not> usable r then (next_base, next_end)
     else if mr_end r \<le> cursor then (next_base, next_end)
     else let base = (if mr_base r < cursor then cursor else mr_base r)
          in if base < next_base then (base, mr_end r) else (next_base, next_end))"

definition pick_next :: "mem_region list \<Rightarrow> u64 \<Rightarrow> u64 \<times> u64" where
  "pick_next regions cursor = fold (pick_region cursor) regions (- 1, 0)"

definition reserve_gap :: "u64 \<Rightarrow> u64 \<Rightarrow> pmm \<Rightarrow> pmm" where
  "reserve_gap cursor next_base s =
     (if next_base > cursor
      then pmm_reserve_range (phys_to_pfn (cursor - MEMORY_BASE (pmm_arch s)))
             (phys_to_pfn (PAGE_ALIGN next_base - MEMORY_BASE (pmm_arch s))) s
      else s)"

text \<open>What the search returns: nothing (\<open>-1\<close>), or the end of a usable region that covers the
  returned base and ends past the cursor.\<close>

definition pick_ok :: "mem_region list \<Rightarrow> u64 \<Rightarrow> u64 \<times> u64 \<Rightarrow> bool" where
  "pick_ok regions cursor = (\<lambda>(nb, ne). nb \<noteq> - 1 \<longrightarrow>
     cursor < ne \<and> cursor \<le> nb \<and> (\<exists>r \<in> set regions. usable r \<and> mr_base r \<le> nb \<and> (nb = mr_base r \<or> nb = cursor) \<and> mr_end r = ne))"

lemma pick_region_ok:
  "r \<in> set regions \<Longrightarrow> pick_ok regions cursor x \<Longrightarrow> pick_ok regions cursor (pick_region cursor r x)"
  by (cases x) (auto simp: pick_ok_def pick_region_def Let_def not_le not_less)

lemma pick_fold_ok:
  "set rs \<subseteq> set regions \<Longrightarrow> pick_ok regions cursor x \<Longrightarrow> pick_ok regions cursor (fold (pick_region cursor) rs x)"
  by (induction rs arbitrary: x) (auto simp: pick_region_ok)

lemma pick_next_ok: "pick_ok regions cursor (pick_next regions cursor)"
  unfolding pick_next_def by (rule pick_fold_ok) (auto simp: pick_ok_def)

function reserve_gaps :: "mem_region list \<Rightarrow> u64 \<Rightarrow> pmm \<Rightarrow> pmm" where
  "reserve_gaps regions cursor s =
     (let (next_base, next_end) = pick_next regions cursor
      in if next_base = - 1
         then reserve_gap cursor (MEMORY_BASE (pmm_arch s) + of_nat (total_pages s * PAGE_SIZE)) s
         else reserve_gaps regions next_end (reserve_gap cursor next_base s))"
  by pat_completeness auto
termination
proof (relation "measure (\<lambda>(regions, cursor, s). 2 ^ 64 - unat cursor)", goal_cases)
  case (2 regions cursor s x next_base next_end)
  then have "cursor < next_end" using pick_next_ok [of regions cursor] by (auto simp: pick_ok_def)
  then show ?case using unat_less_64 [of next_end] by (simp add: word_less_nat_alt)
qed simp

declare reserve_gaps.simps [simp del]

definition reserve_region :: "mem_region \<Rightarrow> pmm \<Rightarrow> pmm" where
  "reserve_region r s =
     (if \<not> usable r
      then pmm_reserve_range (phys_to_pfn (mr_base r - MEMORY_BASE (pmm_arch s)))
             (phys_to_pfn (PAGE_ALIGN (mr_end r) - MEMORY_BASE (pmm_arch s))) s
      else s)"

definition zones_built :: "pmm \<Rightarrow> pmm" where
  "zones_built s =
     (let dma = zone_init ''DMA'' 0 DMA_END_PFN;
          normal = zone_init ''Normal'' DMA_END_PFN (total_pages s)
      in s\<lparr>zones := (\<lambda>zi. case zi of ZONE_DMA \<Rightarrow> dma | ZONE_NORMAL \<Rightarrow> normal),
           free_pages := z_free_pages dma + z_free_pages normal\<rparr>)"

definition reserve_metadata :: "pmm \<Rightarrow> pmm" where
  "reserve_metadata s =
     (let a = pmm_arch s;
          tp = of_nat (total_pages s) :: u64;
          pa = virt_to_phys a (page_array_va s);
          page_array_size = tp * sizeof_struct_page;
          dma_bitmap_size = (of_nat DMA_END_PFN + 63) div 64 * 8
      in pmm_reserve_range (phys_to_pfn (pa - MEMORY_BASE a))
           (phys_to_pfn (PAGE_ALIGN (pa + page_array_size + dma_bitmap_size + normal_bitmap_size tp)
              - MEMORY_BASE a)) s)"

definition reserve_kernel :: "ptr \<Rightarrow> ptr \<Rightarrow> pmm \<Rightarrow> pmm" where
  "reserve_kernel kernel_start kernel_end s =
     (let a = pmm_arch s
      in pmm_reserve_range (phys_to_pfn (virt_to_phys a kernel_start - MEMORY_BASE a))
           (phys_to_pfn (PAGE_ALIGN (virt_to_phys a kernel_end) - MEMORY_BASE a)) s)"

definition pmm_init_zones :: "mem_region list \<Rightarrow> ptr \<Rightarrow> ptr \<Rightarrow> pmm \<Rightarrow> pmm" where
  "pmm_init_zones regions kernel_start kernel_end s =
     (let s1 = reserve_kernel kernel_start kernel_end (zones_built s);
          s2 = reserve_metadata s1;
          s3 = fold reserve_region regions s2
      in if regions \<noteq> [] then reserve_gaps regions (MEMORY_BASE (pmm_arch s)) s3 else s3)"

definition pmm_init :: "mem_region list \<Rightarrow> ptr \<Rightarrow> ptr \<Rightarrow> pmm \<Rightarrow> pmm kres" where
  "pmm_init regions kernel_start kernel_end s =
     kbind (if page_array_va s = NULL then pmm_early_init regions kernel_end s else Inr s)
       (\<lambda>s1. Inr (pmm_init_zones regions kernel_start kernel_end s1))"

end
