(* ===== verification/Pmm_Boot.thy ===== *)
theory Pmm_Boot
  imports Pmm_Init
begin

text \<open>
  What the two boot phases of the physical memory manager establish: the bookkeeping invariant
  holds, the used frames are exactly the reserved ones, and a frame that is free after boot lies
  wholly inside usable RAM and outside the kernel image, the metadata and every reserved region.
\<close>

section \<open>Reservation at boot\<close>

text \<open>At boot the used frames are exactly the reserved ones.\<close>

definition boot_ok :: "pmm \<Rightarrow> bool" where
  "boot_ok s \<longleftrightarrow> pmm_wf s \<and>
     (\<forall>q < total_pages s. frame_used s q \<longleftrightarrow> pg_flags (page_array s ! q) AND PG_RESERVED \<noteq> 0)"

lemma zone_ok_reserve:
  assumes ok: "zone_ok z" and i: "i < zone_npages z" and free: "\<not> bitmap_test (z_bitmap z) i"
  shows "zone_ok (z\<lparr>z_bitmap := bitmap_set (z_bitmap z) i, z_free_pages := z_free_pages z - 1\<rparr>)"
  using fb.count_bset [OF bitmap_cap_zone [OF ok] i free] ok
  by (simp add: zone_ok_def zone_npages_def bitmap_set_def)

lemma reserve_frame_ok:
  assumes boot: "boot_ok s" and pfn: "pfn < total_pages s"
  shows "boot_ok (reserve_frame pfn s)"
    and "q < total_pages s \<Longrightarrow> frame_used (reserve_frame pfn s) q \<longleftrightarrow> q = pfn \<or> frame_used s q"
    and "total_pages (reserve_frame pfn s) = total_pages s" and "pmm_arch (reserve_frame pfn s) = pmm_arch s"
proof -
  have wf: "pmm_wf s" using boot by (simp add: boot_ok_def)
  note cover = pmm_wfD(1) [OF wf]
  let ?pg = "page_array s ! pfn" and ?zi = "zone_of s pfn" and ?zp = "zone_rel s pfn"
  let ?z = "zones s ?zi"
  let ?s' = "s\<lparr>page_array := (page_array s)[pfn := ?pg\<lparr>pg_flags := PG_RESERVED OR PG_KERNEL, pg_refcount := 1\<rparr>],
      zones := (zones s)(?zi := ?z\<lparr>z_bitmap := bitmap_set (z_bitmap ?z) ?zp, z_free_pages := z_free_pages ?z - 1\<rparr>),
      free_pages := free_pages s - 1\<rparr>"
  have op: "reserve_frame pfn s = (if pg_flags ?pg AND PG_RESERVED \<noteq> 0 then s else ?s')"
    by (simp add: reserve_frame_def Let_def zone_of_def zone_rel_def)
  have len: "pfn < length (page_array s)" using pfn cover by (simp add: zones_cover_def)
  have *: "boot_ok ?s' \<and> (\<forall>q < total_pages s. frame_used ?s' q \<longleftrightarrow> q = pfn \<or> frame_used s q)"
    if nres: "pg_flags ?pg AND PG_RESERVED = 0"
  proof -
    have free: "\<not> frame_used s pfn" using boot pfn nres by (auto simp: boot_ok_def)
    have rel: "?zp < zone_npages ?z" using zone_rel_bound(1) [OF cover pfn] .
    then have cap: "?zp < bitmap_cap (z_bitmap ?z)"
      using bitmap_cap_zone [OF pmm_wfD(2) [OF wf]] by (rule order.strict_trans2)
    have used: "frame_used ?s' q \<longleftrightarrow> q = pfn \<or> frame_used s q" if "q < total_pages s" for q
      using frame_used_point [OF cover pfn that, of _ True ?s'] cap by (simp add: fb.btest_bset)
    have zok: "zone_ok (zones ?s' zj)" for zj
      using pmm_wfD(2) [OF wf] zone_ok_reserve [OF pmm_wfD(2) [OF wf] rel] free by (simp add: frame_used_def)
    have "zones_cover ?s'" using cover by (auto simp: zones_cover_def)
    moreover have "free_pages ?s' = z_free_pages (zones ?s' ZONE_DMA) + z_free_pages (zones ?s' ZONE_NORMAL)"
      using pmm_wfD(3) [OF wf] by (cases ?zi) auto
    moreover have "page_ok ?s' q" if "q < total_pages s" for q
      using pmm_wfD(4) [OF wf that] used [OF that] len by (auto simp: page_ok_def nth_list_update)
    ultimately have "pmm_wf ?s'" using zok by (simp add: pmm_wf_def)
    moreover have "frame_used ?s' q \<longleftrightarrow> pg_flags (page_array ?s' ! q) AND PG_RESERVED \<noteq> 0"
      if "q < total_pages s" for q
      using boot used [OF that] that len by (auto simp: boot_ok_def nth_list_update PG_RESERVED_def PG_KERNEL_def)
    ultimately show ?thesis using used by (simp add: boot_ok_def)
  qed
  show "boot_ok (reserve_frame pfn s)" using * boot op by simp
  show "q < total_pages s \<Longrightarrow> frame_used (reserve_frame pfn s) q \<longleftrightarrow> q = pfn \<or> frame_used s q"
    using * boot pfn op by (auto simp: boot_ok_def)
  show "total_pages (reserve_frame pfn s) = total_pages s" "pmm_arch (reserve_frame pfn s) = pmm_arch s"
    by (simp_all add: op)
qed

lemma pmm_reserve_range_ok:
  assumes "boot_ok s"
  shows "boot_ok (pmm_reserve_range a b s) \<and> total_pages (pmm_reserve_range a b s) = total_pages s
     \<and> pmm_arch (pmm_reserve_range a b s) = pmm_arch s
     \<and> (\<forall>q < total_pages s. frame_used (pmm_reserve_range a b s) q \<longleftrightarrow> (a \<le> q \<and> q < b) \<or> frame_used s q)"
  using assms
proof (induction a b s rule: pmm_reserve_range.induct)
  case (1 a b s)
  show ?case
  proof (cases "a < b \<and> a < total_pages s")
    case True
    note R = reserve_frame_ok [OF "1.prems", of a]
    have IH: "boot_ok (pmm_reserve_range (a + 1) b (reserve_frame a s))
      \<and> total_pages (pmm_reserve_range (a + 1) b (reserve_frame a s)) = total_pages s
      \<and> pmm_arch (pmm_reserve_range (a + 1) b (reserve_frame a s)) = pmm_arch s
      \<and> (\<forall>q < total_pages s. frame_used (pmm_reserve_range (a + 1) b (reserve_frame a s)) q \<longleftrightarrow>
           (a + 1 \<le> q \<and> q < b) \<or> frame_used (reserve_frame a s) q)"
      using "1.IH" True R by simp
    moreover have "pmm_reserve_range a b s = pmm_reserve_range (a + 1) b (reserve_frame a s)"
      using True by (simp add: pmm_reserve_range.simps [of a b s])
    moreover have "(a + 1 \<le> q \<and> q < b) \<or> q = a \<or> frame_used s q \<longleftrightarrow> (a \<le> q \<and> q < b) \<or> frame_used s q" for q
      using True by auto
    ultimately show ?thesis using R(2) True by simp
  next
    case False
    then show ?thesis using "1.prems" by (auto simp: pmm_reserve_range.simps [of a b s])
  qed
qed

lemma unat_PAGE_ALIGN:
  assumes "unat x \<le> 2 ^ 63"
  shows "unat (PAGE_ALIGN x) = (unat x + 4095) div 4096 * 4096"
  using align_up_unat [of 12 x] assms by (simp add: PAGE_ALIGN_def)

lemma phys_to_pfn_sub:
  "MEMORY_BASE a \<le> x \<Longrightarrow> phys_to_pfn (x - MEMORY_BASE a) = (unat x - unat (MEMORY_BASE a)) div 4096"
  by (simp add: phys_to_pfn_def unat_drop_bit_eq drop_bit_eq_div unat_sub unat_div)

lemma memory_base_aligned: "4096 dvd unat (MEMORY_BASE a)"
  by (cases a) simp_all

text \<open>Byte \<open>x\<close> of physical memory lies in frame \<open>q\<close>.\<close>

definition in_frame :: "arch \<Rightarrow> nat \<Rightarrow> nat \<Rightarrow> bool" where
  "in_frame a q x \<longleftrightarrow> unat (MEMORY_BASE a) + q * 4096 \<le> x \<and> x < unat (MEMORY_BASE a) + (q + 1) * 4096"

lemma in_frame_div: "in_frame a q x \<Longrightarrow> q = (x - unat (MEMORY_BASE a)) div 4096"
  by (auto simp: in_frame_def intro!: div_nat_eqI [symmetric])

lemma frame_in_range:
  assumes lo: "MEMORY_BASE a \<le> lo" and hi: "unat hi \<le> 2 ^ 63"
    and x: "in_frame a q x" "unat lo \<le> x" "x < unat hi"
  shows "q \<in> {phys_to_pfn (lo - MEMORY_BASE a)..<phys_to_pfn (PAGE_ALIGN hi - MEMORY_BASE a)}"
proof -
  let ?B = "unat (MEMORY_BASE a)"
  have up: "unat (PAGE_ALIGN hi) = (unat hi + 4095) div 4096 * 4096" by (rule unat_PAGE_ALIGN [OF hi])
  then have ge: "unat hi \<le> unat (PAGE_ALIGN hi)"
    using dividend_less_div_times [of 4096 "unat hi + 4095"] by linarith
  have B: "?B \<le> unat lo" "4096 dvd ?B" using lo memory_base_aligned by (simp_all add: word_le_nat_alt)
  have "MEMORY_BASE a \<le> PAGE_ALIGN hi" using ge B(1) x by (simp add: word_le_nat_alt)
  note e = phys_to_pfn_sub [OF this] and c = phys_to_pfn_sub [OF lo]
  have qe: "q = (x - ?B) div 4096" by (rule in_frame_div [OF x(1)])
  have "(unat lo - ?B) div 4096 \<le> q" unfolding qe using x(2) by (simp add: div_le_mono)
  moreover have "q < (unat (PAGE_ALIGN hi) - ?B) div 4096"
  proof -
    have "4096 dvd unat (PAGE_ALIGN hi) - ?B" using up B(2) by (simp add: dvd_diff_nat)
    then obtain m where m: "unat (PAGE_ALIGN hi) - ?B = 4096 * m" by (elim dvdE)
    have "x - ?B < 4096 * m" using m x(3) ge B(1) x(2) by linarith
    then show ?thesis unfolding qe m by (simp add: less_mult_imp_div_less mult.commute)
  qed
  ultimately show ?thesis by (simp add: c e)
qed

lemma reserve_gap_ok:
  assumes boot: "boot_ok s" and base: "MEMORY_BASE (pmm_arch s) \<le> cursor" and nb: "unat nb \<le> 2 ^ 63"
  shows "boot_ok (reserve_gap cursor nb s)"
    and "total_pages (reserve_gap cursor nb s) = total_pages s" and "pmm_arch (reserve_gap cursor nb s) = pmm_arch s"
    and "q < total_pages s \<Longrightarrow> frame_used s q \<Longrightarrow> frame_used (reserve_gap cursor nb s) q"
    and "q < total_pages s \<Longrightarrow> in_frame (pmm_arch s) q x \<Longrightarrow> unat cursor \<le> x \<Longrightarrow> x < unat nb \<Longrightarrow>
         frame_used (reserve_gap cursor nb s) q"
proof -
  note R = pmm_reserve_range_ok [OF boot]
  show "boot_ok (reserve_gap cursor nb s)" "total_pages (reserve_gap cursor nb s) = total_pages s"
    "pmm_arch (reserve_gap cursor nb s) = pmm_arch s" using boot R by (auto simp: reserve_gap_def)
  show "q < total_pages s \<Longrightarrow> frame_used s q \<Longrightarrow> frame_used (reserve_gap cursor nb s) q"
    using R by (auto simp: reserve_gap_def)
  assume q: "q < total_pages s" and x: "in_frame (pmm_arch s) q x" "unat cursor \<le> x" "x < unat nb"
  have "cursor < nb" using x by (simp add: word_less_nat_alt)
  then show "frame_used (reserve_gap cursor nb s) q"
    using R q frame_in_range [OF base nb x] by (simp add: reserve_gap_def)
qed

text \<open>A byte of a usable region, and a memory map whose regions do not wrap around.\<close>

definition covered :: "mem_region list \<Rightarrow> nat \<Rightarrow> bool" where
  "covered regions x \<longleftrightarrow> (\<exists>r \<in> set regions. usable r \<and> unat (mr_base r) \<le> x \<and> x < unat (mr_base r) + unat (mr_size r))"

definition map_sane :: "mem_region list \<Rightarrow> bool" where
  "map_sane regions \<longleftrightarrow> (\<forall>r \<in> set regions. unat (mr_base r) + unat (mr_size r) \<le> 2 ^ 63)"

lemma map_sane_end: "map_sane regions \<Longrightarrow> r \<in> set regions \<Longrightarrow> unat (mr_end r) = unat (mr_base r) + unat (mr_size r)"
  by (auto simp: map_sane_def mr_end_def unat_word_ariths)

lemma pick_next_covers:
  assumes sane: "map_sane regions" and pick: "pick_next regions cursor = (nb, ne)" and nb: "nb \<noteq> - 1"
  shows "cursor < ne" and "unat nb \<le> 2 ^ 63" and "unat nb \<le> x \<Longrightarrow> x < unat ne \<Longrightarrow> covered regions x"
proof -
  obtain r where r: "r \<in> set regions" "usable r" "mr_base r \<le> nb" "nb = mr_base r \<or> nb = cursor" "mr_end r = ne"
    and lt: "cursor < ne"
    using pick_next_ok [of regions cursor] nb by (auto simp: pick_ok_def pick)
  have e: "unat ne = unat (mr_base r) + unat (mr_size r)" "unat ne \<le> 2 ^ 63"
    using map_sane_end [OF sane r(1)] sane r by (auto simp: map_sane_def)
  show "cursor < ne" by (rule lt)
  show "unat nb \<le> 2 ^ 63" using r(4) e lt by (auto simp: word_less_nat_alt)
  show "covered regions x" if "unat nb \<le> x" "x < unat ne"
    using that r e by (auto simp: covered_def word_le_nat_alt intro!: bexI [of _ r])
qed

lemma reserve_gaps_ok:
  assumes "boot_ok s" and "map_sane regions" and "MEMORY_BASE (pmm_arch s) \<le> cursor"
  shows "boot_ok (reserve_gaps regions cursor s) \<and> total_pages (reserve_gaps regions cursor s) = total_pages s
    \<and> pmm_arch (reserve_gaps regions cursor s) = pmm_arch s
    \<and> (\<forall>q < total_pages s. frame_used s q \<longrightarrow> frame_used (reserve_gaps regions cursor s) q)
    \<and> (\<forall>q < total_pages s. \<forall>x. in_frame (pmm_arch s) q x \<and> unat cursor \<le> x
         \<and> \<not> frame_used (reserve_gaps regions cursor s) q \<longrightarrow> covered regions x)"
  using assms
proof (induction regions cursor s rule: reserve_gaps.induct)
  case (1 regions cursor s)
  obtain nb ne where pick: "pick_next regions cursor = (nb, ne)" by fastforce
  note boot = "1.prems"(1) and sane = "1.prems"(2) and base = "1.prems"(3)
  show ?case
  proof (cases "nb = - 1")
    case True
    let ?top = "MEMORY_BASE (pmm_arch s) + of_nat (total_pages s * PAGE_SIZE) :: u64"
    have op: "reserve_gaps regions cursor s = reserve_gap cursor ?top s"
      using True pick by (simp add: reserve_gaps.simps [of regions cursor s])
    have "total_pages s \<le> 2 ^ 26" using boot by (simp add: boot_ok_def pmm_wf_def zones_cover_def)
    then have top: "unat ?top = unat (MEMORY_BASE (pmm_arch s)) + total_pages s * 4096"
      by (cases "pmm_arch s") (simp_all add: unat_word_ariths unat_of_nat)
    then have "unat ?top \<le> 2 ^ 63"
      using \<open>total_pages s \<le> 2 ^ 26\<close> by (cases "pmm_arch s") simp_all
    note G = reserve_gap_ok [OF boot base this]
    have "x < unat ?top" if "q < total_pages s" "in_frame (pmm_arch s) q x" for q x
      using that unfolding top in_frame_def by simp
    with G show ?thesis unfolding op by blast
  next
    case False
    note P = pick_next_covers [OF sane pick False]
    note G = reserve_gap_ok [OF boot base P(2)]
    let ?s1 = "reserve_gap cursor nb s"
    have op: "reserve_gaps regions cursor s = reserve_gaps regions ne ?s1"
      using False pick by (simp add: reserve_gaps.simps [of regions cursor s])
    have "MEMORY_BASE (pmm_arch ?s1) \<le> ne" using base P(1) G(3) by simp
    note IH = "1.IH" [OF refl pick [symmetric] False G(1) sane this, unfolded G(2,3)]
    have "covered regions x" if q: "q < total_pages s" and x: "in_frame (pmm_arch s) q x" "unat cursor \<le> x"
      and free: "\<not> frame_used (reserve_gaps regions ne ?s1) q" for q x
    proof -
      have nfree: "\<not> frame_used ?s1 q" using IH q free by blast
      then have "unat nb \<le> x" using G(5) [OF q x] by linarith
      show ?thesis
      proof (cases "x < unat ne")
        case True then show ?thesis using P(3) \<open>unat nb \<le> x\<close> by blast
      next
        case False then show ?thesis using IH q x(1) free by (meson not_less)
      qed
    qed
    then show ?thesis unfolding op using IH G(4) by blast
  qed
qed

section \<open>The state after boot\<close>

lemma zone_init_clear: "i < b - a \<Longrightarrow> \<not> bitmap_test (z_bitmap (zone_init nm a b)) i"
proof -
  assume "i < b - a"
  then have "i div 64 < (b - a + 63) div 64" by (simp add: div_less_iff_less_mult)
  then show ?thesis by (simp add: zone_init_def bitmap_test_bit)
qed

lemma zone_init_ok: "a \<le> b \<Longrightarrow> zone_ok (zone_init nm a b)"
  using clear_count_all_clear [of "b - a" "bitmap_test (z_bitmap (zone_init nm a b))"] zone_init_clear
  by (simp add: zone_ok_def zone_npages_def) (simp add: zone_init_def)

definition fresh_metadata :: "pmm \<Rightarrow> bool" where
  "fresh_metadata s \<longleftrightarrow> page_array s = replicate (total_pages s) \<lparr>pg_flags = 0, pg_refcount = 0\<rparr>
     \<and> DMA_END_PFN \<le> total_pages s \<and> total_pages s \<le> 2 ^ 26"

lemma zones_built_ok:
  assumes "fresh_metadata s"
  shows "boot_ok (zones_built s)" and "free_frames (zones_built s) = {..<total_pages s}"
    and "total_pages (zones_built s) = total_pages s" and "pmm_arch (zones_built s) = pmm_arch s"
    and "page_array_va (zones_built s) = page_array_va s"
proof -
  let ?s = "zones_built s"
  have z: "zones ?s ZONE_DMA = zone_init ''DMA'' 0 DMA_END_PFN"
    "zones ?s ZONE_NORMAL = zone_init ''Normal'' DMA_END_PFN (total_pages s)"
    "total_pages ?s = total_pages s" "page_array ?s = page_array s"
    "free_pages ?s = z_free_pages (zones ?s ZONE_DMA) + z_free_pages (zones ?s ZONE_NORMAL)"
    by (simp_all add: zones_built_def Let_def)
  have le: "DMA_END_PFN \<le> total_pages s" using assms by (simp add: fresh_metadata_def)
  have e: "z_end_pfn (zone_init nm a b) = b" "z_start_pfn (zone_init nm a b) = a" for nm a b
    by (simp_all add: zone_init_def)
  have clear: "\<not> frame_used ?s q" if "q < total_pages s" for q
    using that zone_init_clear [of q DMA_END_PFN 0 "''DMA''"]
      zone_init_clear [of "q - DMA_END_PFN" "total_pages s" DMA_END_PFN "''Normal''"]
    by (cases "q < DMA_END_PFN") (simp_all add: frame_used_def zone_of_def zone_rel_def z(1,2) e)
  have "zone_ok (zones ?s zi)" for zi
    using zone_init_ok le by (cases zi) (simp_all add: z)
  moreover have "zones_cover ?s"
    using assms by (simp add: zones_cover_def z e fresh_metadata_def)
  moreover have "page_ok ?s q" if "q < total_pages s" for q
    using clear [OF that] that assms by (simp add: page_ok_def z fresh_metadata_def)
  ultimately have "pmm_wf ?s" using z(3,5) by (simp add: pmm_wf_def)
  then show "boot_ok ?s"
    using clear assms by (simp add: boot_ok_def z fresh_metadata_def)
  show "free_frames ?s = {..<total_pages s}" using clear by (auto simp: free_frames_def z)
qed (simp_all add: zones_built_def Let_def)

text \<open>The frames that a chain of reservations has made unavailable.\<close>

lemma reserve_range_free:
  assumes "boot_ok s"
  shows "boot_ok (pmm_reserve_range a b s)" and "total_pages (pmm_reserve_range a b s) = total_pages s"
    and "pmm_arch (pmm_reserve_range a b s) = pmm_arch s"
    and "free_frames (pmm_reserve_range a b s) = free_frames s - {a..<b}"
  using pmm_reserve_range_ok [OF assms, of a b] by (auto simp: free_frames_def)

definition region_frames :: "arch \<Rightarrow> mem_region \<Rightarrow> nat set" where
  "region_frames a r = {phys_to_pfn (mr_base r - MEMORY_BASE a)..<phys_to_pfn (PAGE_ALIGN (mr_end r) - MEMORY_BASE a)}"

definition kernel_frames :: "arch \<Rightarrow> ptr \<Rightarrow> ptr \<Rightarrow> nat set" where
  "kernel_frames a ks ke = {phys_to_pfn (virt_to_phys a ks - MEMORY_BASE a)..<phys_to_pfn (PAGE_ALIGN (virt_to_phys a ke) - MEMORY_BASE a)}"

definition metadata_bytes :: "pmm \<Rightarrow> u64" where
  "metadata_bytes s = of_nat (total_pages s) * sizeof_struct_page + (of_nat DMA_END_PFN + 63) div 64 * 8
     + normal_bitmap_size (of_nat (total_pages s))"

definition metadata_frames :: "pmm \<Rightarrow> nat set" where
  "metadata_frames s = (let a = pmm_arch s; pa = virt_to_phys a (page_array_va s)
     in {phys_to_pfn (pa - MEMORY_BASE a)..<phys_to_pfn (PAGE_ALIGN (pa + metadata_bytes s) - MEMORY_BASE a)})"

lemma reserve_range_va: "page_array_va (pmm_reserve_range a b s) = page_array_va s"
proof (induction a b s rule: pmm_reserve_range.induct)
  case (1 a b s)
  then show ?case by (simp add: pmm_reserve_range.simps [of a b s] reserve_frame_def Let_def)
qed

lemma reserve_regions_free:
  assumes "boot_ok s"
  shows "boot_ok (fold reserve_region rs s) \<and> total_pages (fold reserve_region rs s) = total_pages s
    \<and> pmm_arch (fold reserve_region rs s) = pmm_arch s
    \<and> free_frames (fold reserve_region rs s) = free_frames s - (\<Union>r \<in> {r \<in> set rs. \<not> usable r}. region_frames (pmm_arch s) r)"
  using assms
proof (induction rs arbitrary: s)
  case (Cons r rs)
  have r: "boot_ok (reserve_region r s)" "total_pages (reserve_region r s) = total_pages s"
    "pmm_arch (reserve_region r s) = pmm_arch s"
    "free_frames (reserve_region r s) = free_frames s - (if usable r then {} else region_frames (pmm_arch s) r)"
    using Cons.prems reserve_range_free [OF Cons.prems] by (auto simp: reserve_region_def region_frames_def)
  show ?case using Cons.IH [OF r(1)] r by auto
qed simp

lemma reserve_gaps_free:
  assumes "boot_ok s" and "map_sane regions" and "a = pmm_arch s"
  shows "boot_ok (reserve_gaps regions (MEMORY_BASE a) s)"
    and "total_pages (reserve_gaps regions (MEMORY_BASE a) s) = total_pages s"
    and "pmm_arch (reserve_gaps regions (MEMORY_BASE a) s) = a"
    and "free_frames (reserve_gaps regions (MEMORY_BASE a) s) \<subseteq> free_frames s"
    and "q \<in> free_frames (reserve_gaps regions (MEMORY_BASE a) s) \<Longrightarrow> in_frame a q x \<Longrightarrow> covered regions x"
  using reserve_gaps_ok [OF assms(1,2), of "MEMORY_BASE a"] assms(3)
  by (auto simp: free_frames_def in_frame_def)

lemma pmm_init_zones_safe:
  assumes fresh: "fresh_metadata s" and sane: "map_sane regions" and ne: "regions \<noteq> []"
    and s'_def: "s' = pmm_init_zones regions ks ke s"
  shows "pmm_wf s'"
    and "q \<in> free_frames s' \<Longrightarrow> in_frame (pmm_arch s) q x \<Longrightarrow> covered regions x"
    and "q \<in> free_frames s' \<Longrightarrow> q \<notin> kernel_frames (pmm_arch s) ks ke"
    and "q \<in> free_frames s' \<Longrightarrow> q \<notin> metadata_frames s"
    and "q \<in> free_frames s' \<Longrightarrow> r \<in> set regions \<Longrightarrow> \<not> usable r \<Longrightarrow> q \<notin> region_frames (pmm_arch s) r"
    and "boot_ok s'" and "total_pages s' = total_pages s" and "pmm_arch s' = pmm_arch s"
proof -
  define s1 where "s1 = reserve_kernel ks ke (zones_built s)"
  define s2 where "s2 = reserve_metadata s1"
  define s3 where "s3 = fold reserve_region regions s2"
  note Z = zones_built_ok [OF fresh]
  have s1: "boot_ok s1" "pmm_arch s1 = pmm_arch s" "total_pages s1 = total_pages s" "page_array_va s1 = page_array_va s"
    "free_frames s1 \<inter> kernel_frames (pmm_arch s) ks ke = {}"
    using reserve_range_free [OF Z(1)] Z(3-5)
    by (auto simp: s1_def reserve_kernel_def Let_def kernel_frames_def reserve_range_va)
  have s2: "boot_ok s2" "pmm_arch s2 = pmm_arch s" "total_pages s2 = total_pages s" "free_frames s2 \<subseteq> free_frames s1 - metadata_frames s"
    using reserve_range_free [OF s1(1)] s1(2-4)
    by (auto simp: s2_def reserve_metadata_def metadata_frames_def metadata_bytes_def Let_def add.assoc)
  note s3 = reserve_regions_free [OF s2(1), of regions, folded s3_def, unfolded s2(2)]
  have s': "s' = reserve_gaps regions (MEMORY_BASE (pmm_arch s)) s3"
    using ne by (simp add: s'_def pmm_init_zones_def Let_def s1_def s2_def s3_def)
  have a3: "pmm_arch s = pmm_arch s3" and b3: "boot_ok s3" using s3 by auto
  note G = reserve_gaps_free [OF b3 sane a3, folded s']
  show "boot_ok s'" by (rule G(1))
  show "total_pages s' = total_pages s" "pmm_arch s' = pmm_arch s" using G(2,3) s3 s2(3) by simp_all
  show "pmm_wf s'" using G(1) by (simp add: boot_ok_def)
  show "q \<in> free_frames s' \<Longrightarrow> in_frame (pmm_arch s) q x \<Longrightarrow> covered regions x" by (rule G(5))
  show "q \<in> free_frames s' \<Longrightarrow> q \<notin> kernel_frames (pmm_arch s) ks ke"
    using G(4) s3 s2(4) s1(5) by blast
  show "q \<in> free_frames s' \<Longrightarrow> q \<notin> metadata_frames s"
    using G(4) s3 s2(4) by blast
  show "q \<in> free_frames s' \<Longrightarrow> r \<in> set regions \<Longrightarrow> \<not> usable r \<Longrightarrow> q \<notin> region_frames (pmm_arch s) r"
    using G(4) s3 by blast
qed

section \<open>What phase one establishes\<close>

lemma discover_fold_max:
  assumes "fold (discover_region a) rs (m, u) = (m', u')"
  shows "m \<le> m'" and "r \<in> set rs \<Longrightarrow> usable r \<Longrightarrow> mr_end r \<le> m'"
proof -
  have "m \<le> m' \<and> (\<forall>r \<in> set rs. usable r \<longrightarrow> mr_end r \<le> m')"
    using assms
  proof (induction rs arbitrary: m u)
    case (Cons r rs)
    obtain m1 u1 where r: "discover_region a r (m, u) = (m1, u1)" by fastforce
    have "m \<le> m1" "usable r \<longrightarrow> mr_end r \<le> m1"
      using r by (auto simp: discover_region_def split: if_splits)
    with Cons.IH [of m1 u1] Cons.prems r show ?case by fastforce
  qed simp
  then show "m \<le> m'" and "r \<in> set rs \<Longrightarrow> usable r \<Longrightarrow> mr_end r \<le> m'" by auto
qed

lemma clamp_pages:
  assumes "MEMORY_BASE a + 0x1000000 \<le> m"
  shows "DMA_END_PFN \<le> unat ((clamp_detected a m - MEMORY_BASE a) div 4096)"
    and "unat ((clamp_detected a m - MEMORY_BASE a) div 4096) \<le> 2 ^ 26"
proof -
  have b: "unat (MEMORY_BASE a) + 0x1000000 \<le> unat m"
    using assms by (cases a) (simp_all add: word_le_nat_alt)
  have c: "unat (clamp_detected a m) = min (unat m) (unat (MEMORY_BASE a) + 0x4000000000)"
    by (cases a) (auto simp: clamp_detected_def word_less_nat_alt min_def)
  then have le: "MEMORY_BASE a \<le> clamp_detected a m" using b by (simp add: word_le_nat_alt)
  have u: "unat ((clamp_detected a m - MEMORY_BASE a) div 4096) = (unat (clamp_detected a m) - unat (MEMORY_BASE a)) div 4096"
    using le by (simp add: unat_div unat_sub)
  have "0x1000000 \<le> unat (clamp_detected a m) - unat (MEMORY_BASE a)"
    "unat (clamp_detected a m) - unat (MEMORY_BASE a) \<le> 0x4000000000"
    using b c by auto
  then have "0x1000000 div 4096 \<le> (unat (clamp_detected a m) - unat (MEMORY_BASE a)) div 4096"
    "(unat (clamp_detected a m) - unat (MEMORY_BASE a)) div 4096 \<le> 0x4000000000 div 4096"
    by (auto intro: div_le_mono)
  then show "DMA_END_PFN \<le> unat ((clamp_detected a m - MEMORY_BASE a) div 4096)"
    and "unat ((clamp_detected a m - MEMORY_BASE a) div 4096) \<le> 2 ^ 26"
    unfolding u by (simp_all add: DMA_END_PFN_def phys_to_pfn_def unat_drop_bit_eq)
qed

lemma pmm_early_init_fresh:
  assumes "pmm_early_init regions ke s = Inr s'" and "r \<in> set regions" and "usable r"
    and "MEMORY_BASE (pmm_arch s) + 0x1000000 \<le> mr_end r"
  shows "fresh_metadata s'" and "pmm_arch s' = pmm_arch s"
proof -
  obtain m u where d: "discover (pmm_arch s) regions = (m, u)" by fastforce
  have "regions \<noteq> []" using assms(2) by auto
  then have "mr_end r \<le> m"
    using d discover_fold_max(2) [of "pmm_arch s" regions 0 0 m u r] assms(2,3) by (simp add: discover_def)
  then have "MEMORY_BASE (pmm_arch s) + 0x1000000 \<le> m" using assms(4) by simp
  from clamp_pages [OF this] show "fresh_metadata s'" "pmm_arch s' = pmm_arch s"
    using assms(1) d by (auto simp: pmm_early_init_def fresh_metadata_def Let_def split: if_splits)
qed

text \<open>Where the metadata goes.\<close>

lemma bump_target_ok:
  "target \<le> bump_target regions sz target \<and>
   (\<forall>r \<in> set regions. \<not> usable r \<longrightarrow>
      \<not> (bump_target regions sz target < PAGE_ALIGN (mr_end r) \<and> bump_target regions sz target + sz > mr_base r))"
proof (induction regions sz target rule: bump_target.induct)
  case (1 regions sz target)
  obtain t b where f: "fold (bump_region sz) regions (target, False) = (t, b)" by fastforce
  note grows = bump_fold_grows [OF f]
  show ?case
  proof (cases b)
    case True
    then have "bump_target regions sz target = bump_target regions sz t"
      using f by (simp add: bump_target.simps [of regions sz target])
    then show ?thesis using "1.IH" [OF refl f [symmetric] True] grows by auto
  next
    case False
    then have "bump_target regions sz target = target"
      using f grows by (simp add: bump_target.simps [of regions sz target])
    then show ?thesis using False grows by auto
  qed
qed

lemma place_metadata_ok:
  "place_metadata regions sz lim rs = t \<Longrightarrow> t \<noteq> 0 \<Longrightarrow>
   lim \<le> t \<and> (\<exists>r \<in> set rs. usable r \<and> sz \<le> mr_size r \<and> mr_base r \<le> t \<and> t + sz \<le> mr_end r)
   \<and> (\<forall>r \<in> set regions. \<not> usable r \<longrightarrow> \<not> (t < PAGE_ALIGN (mr_end r) \<and> t + sz > mr_base r))"
proof (induction rs)
  case (Cons r rs)
  let ?start = "if mr_base r < lim then lim else mr_base r"
  let ?t = "bump_target regions sz ?start"
  show ?case
  proof (cases "usable r \<and> mr_size r \<ge> sz \<and> ?t + sz \<le> mr_end r")
    case True
    then have "t = ?t" using Cons.prems by (simp add: Let_def)
    moreover have "lim \<le> ?t" "mr_base r \<le> ?t"
      using bump_target_ok [of ?start regions sz] by (auto intro: order_trans [of _ ?start])
    ultimately show ?thesis using bump_target_ok [of ?start regions sz] True by auto
  next
    case False
    then have "place_metadata regions sz lim rs = t" using Cons.prems by (auto simp: Let_def)
    with Cons show ?thesis by auto
  qed
qed simp

section \<open>Boot is safe\<close>

text \<open>The memory that a page handed out after boot must never touch: byte \<open>x\<close> belongs to the
  kernel image, to the metadata of the manager or to a reserved region that starts at or above the
  base of RAM.  For a region that starts below it the frame number of the start wraps and the code
  reserves nothing.\<close>

definition byte_reserved :: "mem_region list \<Rightarrow> ptr \<Rightarrow> ptr \<Rightarrow> pmm \<Rightarrow> nat \<Rightarrow> bool" where
  "byte_reserved regions ks ke s x \<longleftrightarrow>
     (unat (virt_to_phys (pmm_arch s) ks) \<le> x \<and> x < unat (virt_to_phys (pmm_arch s) ke))
     \<or> (let pa = virt_to_phys (pmm_arch s) (page_array_va s) in unat pa \<le> x \<and> x < unat (pa + metadata_bytes s))
     \<or> (\<exists>r \<in> set regions. \<not> usable r \<and> MEMORY_BASE (pmm_arch s) \<le> mr_base r
          \<and> unat (mr_base r) \<le> x \<and> x < unat (mr_base r) + unat (mr_size r))"

text \<open>The kernel image lies in RAM and is mapped by the linear map; RAM has at least the 16 MB of
  the DMA zone.\<close>

definition boot_params_ok :: "mem_region list \<Rightarrow> ptr \<Rightarrow> ptr \<Rightarrow> arch \<Rightarrow> bool" where
  "boot_params_ok regions ks ke a \<longleftrightarrow> map_sane regions
     \<and> (\<exists>r \<in> set regions. usable r \<and> MEMORY_BASE a + 0x1000000 \<le> mr_end r)
     \<and> MEMORY_BASE a \<le> virt_to_phys a ks \<and> virt_to_phys a ks \<le> virt_to_phys a ke \<and> unat (virt_to_phys a ke) \<le> 2 ^ 62"

lemma PAGE_ALIGN_ge: "unat x \<le> 2 ^ 62 \<Longrightarrow> x \<le> PAGE_ALIGN x"
proof -
  assume "unat x \<le> 2 ^ 62"
  then have "unat (PAGE_ALIGN x) = (unat x + 4095) div 4096 * 4096" by (intro unat_PAGE_ALIGN) simp
  then show ?thesis
    using dividend_less_div_times [of 4096 "unat x + 4095"] by (simp add: word_le_nat_alt)
qed

lemma PAGE_ALIGN_top: "unat x \<le> 2 ^ 63 \<Longrightarrow> unat (PAGE_ALIGN x) \<le> 2 ^ 63"
proof -
  assume x: "unat x \<le> 2 ^ 63"
  have "(unat x + 4095) div 4096 \<le> (2 ^ 63 + 4095) div 4096" using x by (intro div_le_mono) simp
  then have "(unat x + 4095) div 4096 * 4096 \<le> (2 ^ 63 + 4095) div 4096 * 4096" by simp
  then show ?thesis using unat_PAGE_ALIGN [OF x] by simp
qed

lemma metadata_size_bytes:
  "total_pages s \<le> 2 ^ 26 \<Longrightarrow> metadata_size (of_nat (total_pages s)) = PAGE_ALIGN (metadata_bytes s)"
  by (simp add: metadata_size_def metadata_bytes_def Let_def)

lemma unat_add_le: "unat (a + b :: 'a::len word) \<le> unat a + unat b"
  by (simp add: unat_word_ariths)

lemma unat_add_le3: "unat (a + b + c :: 'a::len word) \<le> unat a + unat b + unat c"
  using unat_add_le [of "a + b" c] unat_add_le [of a b] by linarith

lemma metadata_bytes_bound:
  assumes "total_pages s \<le> 2 ^ 26" and "DMA_END_PFN \<le> total_pages s"
  shows "unat (metadata_bytes s) \<le> 2 ^ 40"
proof -
  have d: "DMA_END_PFN = 4096" by (simp add: DMA_END_PFN_def phys_to_pfn_def)
  define t :: u64 where "t = of_nat (total_pages s)"
  have t: "unat t = total_pages s" using assms(1) by (simp add: t_def unat_of_nat)
  have C: "unat ((t - 4096 + 63) div 64 * 8) \<le> 2 ^ 39"
  proof -
    have "unat (t - 4096 + 63) \<le> 2 ^ 26 + 63"
      using unat_add_le [of "t - 4096" 63] assms d t by (simp add: unat_sub word_le_nat_alt)
    then have "unat ((t - 4096 + 63) div 64) \<le> 2 ^ 27" unfolding unat_div
      by (intro le_trans [OF div_le_dividend]) simp_all
    then show ?thesis by (simp add: unat_word_ariths del: diff_add_eq) 
  qed
  have A: "unat (t * 32) \<le> 2 ^ 31" using assms(1) t by (simp add: unat_word_ariths)
  have "metadata_bytes s = t * 32 + 512 + (t - 4096 + 63) div 64 * 8"
    by (simp add: metadata_bytes_def normal_bitmap_size_def sizeof_struct_page_def d flip: t_def)
  then have "unat (metadata_bytes s) \<le> unat (t * 32) + unat (512 :: u64) + unat ((t - 4096 + 63) div 64 * 8)"
    by (simp only: unat_add_le3)
  then show ?thesis using A C by simp
qed

lemma bump_target_bound:
  assumes "\<forall>r \<in> set regions. PAGE_ALIGN (mr_end r) \<le> B" and "start \<le> B"
  shows "bump_target regions sz start \<le> B"
  using assms
proof (induction regions sz start rule: bump_target.induct)
  case (1 regions sz start)
  obtain t b where f: "fold (bump_region sz) regions (start, False) = (t, b)" by fastforce
  have "fold (bump_region sz) rs (u, c) = (u', c') \<Longrightarrow> set rs \<subseteq> set regions \<Longrightarrow> u \<le> B \<Longrightarrow> u' \<le> B" for rs u c u' c'
    by (induction rs arbitrary: u c) (use "1.prems"(1) in \<open>auto simp: bump_region_def Let_def split: if_splits\<close>)
  from this [OF f] have t: "t \<le> B" using "1.prems"(2) by simp
  show ?case
    using f t "1.IH" [OF refl f [symmetric] _ "1.prems"(1) t] by (simp add: bump_target.simps [of regions sz start])
qed

lemma place_metadata_bound:
  "place_metadata regions sz lim rs = t \<Longrightarrow> set rs \<subseteq> set regions \<Longrightarrow> lim \<le> B \<Longrightarrow>
   \<forall>r \<in> set regions. PAGE_ALIGN (mr_end r) \<le> B \<and> mr_base r \<le> B \<Longrightarrow> t \<le> B"
proof (induction rs)
  case (Cons r rs)
  then show ?case
    using bump_target_bound [of regions B "if mr_base r < lim then lim else mr_base r" sz]
    by (auto simp: Let_def split: if_splits)
qed auto

lemma early_init_metadata:
  assumes ok: "boot_params_ok regions ks ke (pmm_arch s)"
    and init: "pmm_early_init regions ke s = Inr s'"
  shows "fresh_metadata s'" and "pmm_arch s' = pmm_arch s"
    and "MEMORY_BASE (pmm_arch s) \<le> virt_to_phys (pmm_arch s) (page_array_va s')"
    and "unat (virt_to_phys (pmm_arch s) (page_array_va s') + metadata_bytes s') \<le> 2 ^ 63"
proof -
  let ?a = "pmm_arch s"
  obtain r where r: "r \<in> set regions" "usable r" "MEMORY_BASE ?a + 0x1000000 \<le> mr_end r"
    using ok by (auto simp: boot_params_ok_def)
  note F = pmm_early_init_fresh [OF init r]
  show "fresh_metadata s'" "pmm_arch s' = ?a" by (rule F)+
  have tp: "total_pages s' \<le> 2 ^ 26" "DMA_END_PFN \<le> total_pages s'" using F(1) by (simp_all add: fresh_metadata_def)
  define lim where "lim = PAGE_ALIGN (virt_to_phys ?a ke)"
  define sz where "sz = metadata_size (of_nat (total_pages s'))"
  define t where "t = virt_to_phys ?a (page_array_va s')"
  have place: "place_metadata regions sz lim regions = t" "t \<noteq> 0"
    using init by (auto simp: pmm_early_init_def lim_def sz_def t_def Let_def virt_to_phys_def phys_to_virt_def
      split: if_splits prod.splits)
  note P = place_metadata_ok [OF place]
  have ke: "unat (virt_to_phys ?a ke) \<le> 2 ^ 62" and sane: "map_sane regions"
    using ok by (auto simp: boot_params_ok_def)
  have "MEMORY_BASE ?a \<le> lim"
    using ok PAGE_ALIGN_ge [OF ke] unfolding boot_params_ok_def lim_def by (meson order_trans)
  then show "MEMORY_BASE ?a \<le> t" using P by (meson order_trans)
  have top: "x \<le> 2 ^ 63 \<longleftrightarrow> unat x \<le> 2 ^ 63" for x :: u64 by (simp add: word_le_nat_alt)
  have "PAGE_ALIGN (mr_end r) \<le> 2 ^ 63 \<and> mr_base r \<le> 2 ^ 63" if "r \<in> set regions" for r
    using PAGE_ALIGN_top [of "mr_end r"] map_sane_end [OF sane that] sane that
    unfolding top map_sane_def by fastforce
  moreover have "lim \<le> 2 ^ 63" unfolding top lim_def using PAGE_ALIGN_top ke by simp
  ultimately have t: "unat t \<le> 2 ^ 63"
    using place_metadata_bound [OF place(1), of "2 ^ 63"] unfolding top by blast
  have b: "unat (metadata_bytes s') \<le> 2 ^ 40" by (rule metadata_bytes_bound [OF tp])
  have sz: "sz = PAGE_ALIGN (metadata_bytes s')" unfolding sz_def using metadata_size_bytes tp(1) .
  have "unat sz \<le> 2 ^ 41"
    unfolding sz using unat_PAGE_ALIGN [of "metadata_bytes s'"] b by simp
  then have sum: "unat (t + sz) = unat t + unat sz" using t by (simp add: unat_word_ariths)
  obtain r' where r': "r' \<in> set regions" "t + sz \<le> mr_end r'" using P by blast
  have "unat (mr_end r') \<le> 2 ^ 63" using map_sane_end [OF sane r'(1)] sane r'(1) by (simp add: map_sane_def)
  then have "unat t + unat sz \<le> 2 ^ 63" using r'(2) sum by (simp add: word_le_nat_alt)
  moreover have "unat (metadata_bytes s') \<le> unat sz"
    using PAGE_ALIGN_ge [of "metadata_bytes s'"] b by (simp add: sz word_le_nat_alt)
  ultimately show "unat (t + metadata_bytes s') \<le> 2 ^ 63"
    using unat_add_le [of t "metadata_bytes s'"] by linarith
qed

lemma pmm_init_decompose:
  assumes ok: "boot_params_ok regions ks ke (pmm_arch s)" and va: "page_array_va s = NULL"
    and init: "pmm_init regions ks ke s = Inr s'"
  obtains s1 where "pmm_early_init regions ke s = Inr s1" "s' = pmm_init_zones regions ks ke s1"
    "fresh_metadata s1" "pmm_arch s1 = pmm_arch s"
proof -
  obtain s1 where s1: "pmm_early_init regions ke s = Inr s1" "s' = pmm_init_zones regions ks ke s1"
    using init va by (auto simp: pmm_init_def kbind_Inr_iff)
  show thesis by (rule that [OF s1 early_init_metadata(1,2) [OF ok s1(1)]])
qed

lemma init_zones_va: "page_array_va (pmm_init_zones regions ks ke s) = page_array_va s"
proof -
  have r: "page_array_va (reserve_region r s) = page_array_va s" for r s
    by (simp add: reserve_region_def reserve_range_va)
  have "page_array_va (fold reserve_region rs s) = page_array_va s" for rs s
    by (induction rs arbitrary: s) (simp_all add: r)
  moreover have "page_array_va (reserve_gaps rs c s) = page_array_va s" for rs c s
  proof (induction rs c s rule: reserve_gaps.induct)
    case (1 rs c s)
    obtain nb ne where p: "pick_next rs c = (nb, ne)" by fastforce
    have g: "page_array_va (reserve_gap c nb s) = page_array_va s" for nb
      by (simp add: reserve_gap_def reserve_range_va)
    show ?case
      using "1.IH" [OF refl p [symmetric]] by (simp add: reserve_gaps.simps [of rs c s] p g)
  qed
  ultimately show ?thesis
    by (simp add: pmm_init_zones_def Let_def reserve_metadata_def reserve_kernel_def reserve_range_va zones_built_def)
qed

lemma init_zones_safe_bytes:
  assumes ok: "boot_params_ok regions ks ke (pmm_arch s)" and early: "pmm_early_init regions ke s = Inr s1"
    and q: "q \<in> free_frames (pmm_init_zones regions ks ke s1)" and x: "in_frame (pmm_arch s) q x"
  shows "covered regions x" and "\<not> byte_reserved regions ks ke s1 x"
proof -
  let ?a = "pmm_arch s"
  note M = early_init_metadata [OF ok early]
  have sane: "map_sane regions" and ne: "regions \<noteq> []" using ok by (auto simp: boot_params_ok_def)
  note S = pmm_init_zones_safe [OF M(1) sane ne refl, unfolded M(2)]
  show "covered regions x" by (rule S(2) [OF q x])
  have k: "MEMORY_BASE ?a \<le> virt_to_phys ?a ks" "unat (virt_to_phys ?a ke) \<le> 2 ^ 63"
    using ok by (auto simp: boot_params_ok_def)
  have "\<not> (unat (virt_to_phys ?a ks) \<le> x \<and> x < unat (virt_to_phys ?a ke))"
    using frame_in_range [OF k x] S(3) [OF q] by (auto simp: kernel_frames_def)
  moreover have "\<not> (unat (virt_to_phys ?a (page_array_va s1)) \<le> x
      \<and> x < unat (virt_to_phys ?a (page_array_va s1) + metadata_bytes s1))"
    using frame_in_range [OF M(3,4) x] S(4) [OF q] by (auto simp: metadata_frames_def M(2) Let_def)
  moreover have "\<not> (unat (mr_base r) \<le> x \<and> x < unat (mr_base r) + unat (mr_size r))"
    if r: "r \<in> set regions" "\<not> usable r" "MEMORY_BASE ?a \<le> mr_base r" for r
  proof -
    have e: "unat (mr_end r) = unat (mr_base r) + unat (mr_size r)" by (rule map_sane_end [OF sane r(1)])
    then have "unat (mr_end r) \<le> 2 ^ 63" using sane r(1) by (simp add: map_sane_def)
    from frame_in_range [OF r(3) this x] show ?thesis
      using S(5) [OF q r(1,2)] e by (auto simp: region_frames_def)
  qed
  ultimately show "\<not> byte_reserved regions ks ke s1 x"
    unfolding byte_reserved_def M(2) Let_def by blast
qed

text \<open>After a successful boot the allocator's invariant holds, and every byte of every frame it may
  hand out lies in usable RAM and in none of the kernel image, the metadata area and the reserved
  regions.\<close>

lemma boot_frames_safe:
  assumes "boot_params_ok regions ks ke (pmm_arch s)" and "page_array_va s = NULL"
    and "pmm_init regions ks ke s = Inr s'"
  shows "pmm_wf s' \<and> (\<forall>q x. q \<in> free_frames s' \<longrightarrow> in_frame (pmm_arch s) q x \<longrightarrow>
           covered regions x \<and> \<not> byte_reserved regions ks ke s' x)"
proof -
  obtain s1 where s1: "pmm_early_init regions ke s = Inr s1" "s' = pmm_init_zones regions ks ke s1"
    "fresh_metadata s1" "pmm_arch s1 = pmm_arch s"
    using pmm_init_decompose [OF assms] .
  have m: "map_sane regions" "regions \<noteq> []" using assms(1) by (auto simp: boot_params_ok_def)
  have "byte_reserved regions ks ke s' x = byte_reserved regions ks ke s1 x" for x
    by (simp add: byte_reserved_def s1(2) init_zones_va pmm_init_zones_safe(7,8) [OF s1(3) m refl] metadata_bytes_def)
  then show ?thesis
    using init_zones_safe_bytes [OF assms(1) s1(1)] pmm_init_zones_safe(1) [OF s1(3) m refl] by (simp add: s1(2))
qed

text \<open>A boot of the aarch64 board with 64 MB of RAM, a 2 MB kernel and a device-tree reservation.\<close>

definition virt_board :: "mem_region list" where
  "virt_board = [\<lparr>mr_base = 0x40000000, mr_size = 0x4000000, mr_type = 1\<rparr>,
                 \<lparr>mr_base = 0x41000000, mr_size = 0x10000, mr_type = 2\<rparr>]"

definition cold_pmm :: "arch \<Rightarrow> pmm" where
  "cold_pmm a = \<lparr>pmm_arch = a, page_array_va = NULL, page_array = [],
     zones = (\<lambda>_. zone_init '''' 0 0), total_pages = 0, free_pages = 0, usable_pages = 0, pmm_metadata_end_phys = 0,
     stat_alloc_calls = 0, stat_free_calls = 0, stat_alloc_search_ticks_total = 0,
     stat_alloc_search_ticks_max = 0, ram = (\<lambda>_. 0), dma_log = [], search_ticks = 0\<rparr>"

lemma virt_board_ok:
  "boot_params_ok virt_board (0xFFFF000040080000) (0xFFFF000040280000) AARCH64"
  by (simp add: boot_params_ok_def virt_board_def map_sane_def MEM_REGION_USABLE_def mr_end_def virt_to_phys_def word_le_nat_alt)

lemma virt_board_place: "place_metadata virt_board (metadata_size 0x4000) 0x40280000 virt_board = 0x40280000"
  by code_simp

lemma virt_board_boots: "\<exists>s'. pmm_init virt_board 0xFFFF000040080000 0xFFFF000040280000 (cold_pmm AARCH64) = Inr s'"
proof -
  have d: "discover AARCH64 virt_board = (0x44000000, 0x4000000)" by code_simp
  show ?thesis
    using virt_board_place
    by (simp add: pmm_init_def pmm_early_init_def cold_pmm_def d clamp_detected_def virt_to_phys_def PAGE_ALIGN_def Let_def)
qed

text \<open>Without a region table the placement loop has nothing to try: the 1 GB fallback of
  \<open>pmm_early_init\<close> always ends in its panic.\<close>

theorem pmm_early_init_no_map_panics:
  "pmm_early_init [] ke s = Inl (Panic ''PMM: Failed to allocate metadata area'')"
  by (simp add: pmm_early_init_def discover_def Let_def)

end
