(* ===== verification/Pmm_Run.thy ===== *)
theory Pmm_Run
  imports Pmm_Boot
begin

text \<open>
  Runs of the physical memory manager: a step relation with one rule per call of its interface,
  the invariant over all reachable states, and the contracts of allocation, release, aligned
  allocation and the fragmentation probe.
\<close>

section \<open>Runs of the manager\<close>

text \<open>One call of the interface.  A call that panics has no successor state.  \<open>ticks\<close> is the
  hardware timer.\<close>

inductive pmm_step :: "pmm \<Rightarrow> pmm \<Rightarrow> bool" where
  alloc_page: "pmm_alloc_page s = (p, s') \<Longrightarrow> pmm_step s s'"
| alloc_page_dma: "pmm_alloc_page_dma s = (p, s') \<Longrightarrow> pmm_step s s'"
| alloc_pages: "pmm_alloc_pages n s = (p, s') \<Longrightarrow> pmm_step s s'"
| alloc_pages_dma: "pmm_alloc_pages_dma n s = (p, s') \<Longrightarrow> pmm_step s s'"
| alloc_aligned: "pmm_alloc_aligned sz align s = Inr (p, s') \<Longrightarrow> pmm_step s s'"
| free_page: "pmm_free_page p s = Inr s' \<Longrightarrow> pmm_step s s'"
| free_pages: "pmm_free_pages p n s = Inr s' \<Longrightarrow> pmm_step s s'"
| ticks: "pmm_step s (s\<lparr>search_ticks := t\<rparr>)"

inductive pmm_run :: "pmm \<Rightarrow> pmm \<Rightarrow> bool" for s0 where
  start: "pmm_run s0 s0"
| step: "pmm_run s0 s \<Longrightarrow> pmm_step s s' \<Longrightarrow> pmm_run s0 s'"

definition reserved_frames :: "pmm \<Rightarrow> nat set" where
  "reserved_frames s = {q. q < total_pages s \<and> pg_flags (page_array s ! q) AND PG_RESERVED \<noteq> 0}"

text \<open>What every call keeps: the invariant, the size of memory and the set of reserved frames.\<close>

definition pmm_keeps :: "pmm \<Rightarrow> pmm \<Rightarrow> bool" where
  "pmm_keeps s s' \<longleftrightarrow> pmm_wf s' \<and> total_pages s' = total_pages s \<and> pmm_arch s' = pmm_arch s
     \<and> reserved_frames s' = reserved_frames s"

lemma pmm_keeps_refl: "pmm_wf s \<Longrightarrow> pmm_keeps s s"
  by (simp add: pmm_keeps_def)

lemma pmm_keeps_trans: "pmm_keeps s s1 \<Longrightarrow> pmm_keeps s1 s2 \<Longrightarrow> pmm_keeps s s2"
  by (simp add: pmm_keeps_def)

lemma reserved_not_free: "pmm_wf s \<Longrightarrow> reserved_frames s \<inter> free_frames s = {}"
  using pmm_wfD(4) by (fastforce simp: reserved_frames_def free_frames_def page_ok_def)

lemma allocated_keeps:
  assumes "pmm_wf s" and "pmm_wf s'" and "allocated s pfn c s'"
  shows "pmm_keeps s s'"
proof -
  have "{pfn..<pfn + c} \<inter> reserved_frames s = {}"
    using assms(3) reserved_not_free [OF assms(1)] by (auto simp: allocated_def)
  then have "q \<in> reserved_frames s' \<longleftrightarrow> q \<in> reserved_frames s" for q
    using assms(3) by (cases "q \<in> {pfn..<pfn + c}") (auto simp: reserved_frames_def allocated_def)
  then show ?thesis using assms(2,3) by (auto simp: pmm_keeps_def allocated_def)
qed

lemma alloc_pages_impl_keeps:
  assumes "pmm_wf s" and "alloc_pages_impl c dma s = (p, s')"
  shows "pmm_keeps s s'"
  using alloc_pages_impl_spec [OF assms] allocated_keeps [OF assms(1)] pmm_keeps_refl [OF assms(1)]
  by (cases "p = NULL") auto

lemma alloc_page_impl_keeps:
  assumes "pmm_wf s" and "alloc_page_impl dma s = (p, s')"
  shows "pmm_keeps s s'"
  using alloc_page_impl_spec [OF assms] allocated_keeps [OF assms(1)] pmm_keeps_refl [OF assms(1)]
  by (cases "p = NULL") auto

lemma pmm_free_page_keeps:
  assumes wf: "pmm_wf s" and free: "pmm_free_page p s = Inr s'"
  shows "pmm_keeps s s'"
proof -
  have upd: "pg_flags ((page_array s)[i := (page_array s ! i)\<lparr>pg_refcount := v\<rparr>] ! q) = pg_flags (page_array s ! q)"
    if "q < total_pages s" for i v q
    using that pmm_wfD(1) [OF wf] by (cases "i = q") (auto simp: zones_cover_def)
  have "total_pages s' = total_pages s \<and> pmm_arch s' = pmm_arch s
      \<and> (\<forall>q < total_pages s. pg_flags (page_array s' ! q) = pg_flags (page_array s ! q))"
    using free by (auto simp: pmm_free_page_def Let_def upd split: if_splits)
  then show ?thesis using pmm_free_page_wf [OF wf free] by (auto simp: pmm_keeps_def reserved_frames_def)
qed

lemma pmm_free_pages_keeps:
  "pmm_wf s \<Longrightarrow> pmm_free_pages p n s = Inr s' \<Longrightarrow> pmm_keeps s s'"
proof -
  have "pmm_wf s \<Longrightarrow> free_pages_loop p is s = Inr s' \<Longrightarrow> pmm_keeps s s'" for "is"
  proof (induction "is" arbitrary: s)
    case (Cons i is')
    then obtain s1 where s1: "pmm_free_page (p + of_nat (i * PAGE_SIZE)) s = Inr s1"
      "free_pages_loop p is' s1 = Inr s'"
      by (cases "pmm_free_page (p + of_nat (i * PAGE_SIZE)) s") auto
    note K = pmm_free_page_keeps [OF Cons.prems(1) s1(1)]
    then have "pmm_wf s1" by (simp add: pmm_keeps_def)
    then show ?case using Cons.IH [OF _ s1(2)] pmm_keeps_trans [OF K] by blast
  qed (simp add: pmm_keeps_refl)
  then show "pmm_wf s \<Longrightarrow> pmm_free_pages p n s = Inr s' \<Longrightarrow> pmm_keeps s s'"
    by (simp add: pmm_free_pages_def)
qed

lemma pmm_alloc_aligned_keeps:
  assumes wf: "pmm_wf s" and "pmm_alloc_aligned sz align s = Inr (p, s')"
  shows "pmm_keeps s s'"
proof -
  have dma: "pmm_keeps s s1" if "pmm_alloc_pages_dma n s = (q, s1)" for n q s1
    using alloc_pages_impl_keeps [OF wf] that by (simp add: pmm_alloc_pages_dma_def)
  have opt: "pmm_keeps s s2" if "pmm_keeps s s1" "(if b then pmm_free_pages q n s1 else Inr s1) = Inr s2" for b q n s1 s2
    using that pmm_free_pages_keeps [of s1 q n s2] pmm_keeps_trans by (cases b) (auto simp: pmm_keeps_def)
  obtain n q s1 where s1: "pmm_alloc_pages_dma n s = (q, s1)"
    and rest: "s' = s1 \<or> (\<exists>b c q1 q2 n1 n2 s2. (if b then pmm_free_pages q1 n1 s1 else Inr s1) = Inr s2
        \<and> (if c then pmm_free_pages q2 n2 s2 else Inr s2) = Inr s')"
  proof (cases "(align + 4095) div 4096 \<le> 1")
    case True
    then show thesis
      using assms(2) that [of "unat ((sz + 4095) div 4096)"]
      by (cases "pmm_alloc_pages_dma (unat ((sz + 4095) div 4096)) s") (auto simp: pmm_alloc_aligned_def)
  next
    case False
    let ?t = "(sz + 4095) div 4096 + (align + 4095) div 4096 - 1"
    obtain q s1 where q: "pmm_alloc_pages_dma (unat ?t) s = (q, s1)" by fastforce
    show thesis
    proof (rule that [OF q])
      show "s' = s1 \<or> (\<exists>b c q1 q2 n1 n2 s2. (if b then pmm_free_pages q1 n1 s1 else Inr s1) = Inr s2
        \<and> (if c then pmm_free_pages q2 n2 s2 else Inr s2) = Inr s')"
        using assms(2) False q unfolding pmm_alloc_aligned_def Let_def
        by (auto split: if_splits elim!: kbind_InrE) blast+
    qed
  qed
  show ?thesis using rest dma [OF s1] opt by blast
qed


lemma pmm_step_keeps: "pmm_step s s' \<Longrightarrow> pmm_wf s \<Longrightarrow> pmm_keeps s s'"
proof (induction rule: pmm_step.induct)
  case (ticks s t)
  then show ?case
    by (auto simp: pmm_keeps_def pmm_wf_def zones_cover_def page_ok_def frame_used_def zone_of_def zone_rel_def
      reserved_frames_def)
qed (auto simp: pmm_alloc_page_def pmm_alloc_page_dma_def pmm_alloc_pages_def pmm_alloc_pages_dma_def
    intro: alloc_page_impl_keeps alloc_pages_impl_keeps pmm_alloc_aligned_keeps pmm_free_page_keeps
      pmm_free_pages_keeps)

lemma pmm_run_keeps: "pmm_run s0 s \<Longrightarrow> pmm_wf s0 \<Longrightarrow> pmm_keeps s0 s"
proof (induction rule: pmm_run.induct)
  case (step s s')
  then show ?case using pmm_step_keeps pmm_keeps_trans by (metis pmm_keeps_def)
qed (simp add: pmm_keeps_refl)

text \<open>A small machine: four DMA frames and eight normal ones, with frames 0 and 5 reserved.\<close>

definition small_pmm :: pmm where
  "small_pmm = \<lparr>pmm_arch = AMD64, page_array_va = 0xFFFF800000001000,
     page_array = (let free = \<lparr>pg_flags = 0, pg_refcount = 0\<rparr>; res = \<lparr>pg_flags = 3, pg_refcount = 1\<rparr>
       in (replicate 12 free)[0 := res, 5 := res]),
     zones = (\<lambda>zi. case zi of
        ZONE_DMA \<Rightarrow> (zone_init ''DMA'' 0 4)\<lparr>z_bitmap := [1], z_free_pages := 3\<rparr>
      | ZONE_NORMAL \<Rightarrow> (zone_init ''Normal'' 4 12)\<lparr>z_bitmap := [2], z_free_pages := 7\<rparr>),
     total_pages = 12, free_pages = 10, usable_pages = 12, pmm_metadata_end_phys = 0x2000,
     stat_alloc_calls = 0, stat_free_calls = 0, stat_alloc_search_ticks_total = 0,
     stat_alloc_search_ticks_max = 0, ram = (\<lambda>_. 0), dma_log = [], search_ticks = 3\<rparr>"

lemma small_pmm_wf: "pmm_wf small_pmm"
proof -
  have "list_all (page_ok small_pmm) [0..<12]" by code_simp
  then have "\<forall>pfn < 12. page_ok small_pmm pfn" by (auto simp: list_all_iff)
  moreover have "zones_cover small_pmm" by (simp add: zones_cover_def small_pmm_def zone_init_def Let_def)
  moreover have "zone_ok (zones small_pmm ZONE_DMA)" "zone_ok (zones small_pmm ZONE_NORMAL)"
    by code_simp+
  ultimately show ?thesis by (simp add: pmm_wf_def zone_id_all) (simp add: small_pmm_def)
qed

lemma small_alloc_3: "fst (pmm_alloc_pages 3 small_pmm) = 0xFFFF800000006000"
  by code_simp

lemma pmm_init_boot_ok:
  assumes "boot_params_ok regions ks ke (pmm_arch s)" and "page_array_va s = NULL"
    and "pmm_init regions ks ke s = Inr s0"
  shows "boot_ok s0"
proof -
  obtain s1 where "s0 = pmm_init_zones regions ks ke s1" "fresh_metadata s1"
    using pmm_init_decompose [OF assms] by blast
  moreover have "map_sane regions" "regions \<noteq> []" using assms(1) by (auto simp: boot_params_ok_def)
  ultimately show ?thesis using pmm_init_zones_safe(6) by blast
qed

section \<open>The contract of the allocator\<close>

text \<open>C1. Whatever sequence of calls follows a boot, the invariant holds, no byte of the kernel image,
  the metadata or a reserved region ever becomes free, and every free byte is usable RAM.\<close>

theorem pmm_reachable_safe:
  assumes "boot_params_ok regions ks ke (pmm_arch s)" and "page_array_va s = NULL"
    and "pmm_init regions ks ke s = Inr s0" and "pmm_run s0 s'"
  shows "pmm_wf s' \<and> (\<forall>q x. q \<in> free_frames s' \<longrightarrow> in_frame (pmm_arch s) q x \<longrightarrow>
           covered regions x \<and> \<not> byte_reserved regions ks ke s0 x)"
proof -
  have b: "boot_ok s0" by (rule pmm_init_boot_ok [OF assms(1-3)])
  then have wf: "pmm_wf s0" by (simp add: boot_ok_def)
  have K: "pmm_keeps s0 s'" by (rule pmm_run_keeps [OF assms(4) wf])
  have "q \<in> free_frames s0" if "q \<in> free_frames s'" for q
  proof -
    have "q \<notin> reserved_frames s0" "q < total_pages s0"
      using reserved_not_free [of s'] K that by (auto simp: pmm_keeps_def free_frames_def)
    then show ?thesis using b by (auto simp: boot_ok_def free_frames_def reserved_frames_def)
  qed
  then show ?thesis using boot_frames_safe [OF assms(1-3)] K by (auto simp: pmm_keeps_def)
qed

theorem pmm_reachable_safe_witness:
  "\<exists>s0. pmm_init virt_board 0xFFFF000040080000 0xFFFF000040280000 (cold_pmm AARCH64) = Inr s0
     \<and> (\<forall>s'. pmm_run s0 s' \<longrightarrow> pmm_wf s' \<and> (\<forall>q x. q \<in> free_frames s' \<longrightarrow> in_frame AARCH64 q x \<longrightarrow>
        covered virt_board x \<and> \<not> byte_reserved virt_board 0xFFFF000040080000 0xFFFF000040280000 s0 x))"
proof -
  obtain s0 where s0: "pmm_init virt_board 0xFFFF000040080000 0xFFFF000040280000 (cold_pmm AARCH64) = Inr s0"
    using virt_board_boots by blast
  have c: "pmm_arch (cold_pmm AARCH64) = AARCH64" "page_array_va (cold_pmm AARCH64) = NULL"
    by (simp_all add: cold_pmm_def)
  show ?thesis
    using pmm_reachable_safe [of virt_board _ _ "cold_pmm AARCH64", unfolded c, OF virt_board_ok refl s0] s0 by blast
qed

text \<open>C2. \<open>pmm_alloc_pages\<close>: the result is null exactly when there is no run of free frames to serve the
  request (in the normal zone for more than one page, anywhere for one page), and then nothing has
  changed.  Otherwise it is the address of a run of frames that were free: they are now
  allocated with one reference each, no other frame has changed, and the run is zero-filled.\<close>

theorem pmm_alloc_pages_contract:
  assumes "pmm_wf s" and "pmm_alloc_pages n s = (p, s')" and "0 < n"
  shows "pmm_wf s'
    \<and> (p = NULL \<longleftrightarrow> (\<nexists>pfn. (1 < n \<longrightarrow> z_start_pfn (zones s ZONE_NORMAL) \<le> pfn) \<and> {pfn..<pfn + n} \<subseteq> free_frames s))
    \<and> (p = NULL \<longrightarrow> s' = s)
    \<and> (p \<noteq> NULL \<longrightarrow> (\<exists>pfn. p = frame_addr (pmm_arch s) pfn \<and> allocated s pfn n s'))"
proof -
  have impl: "alloc_pages_impl n False s = (p, s')" using assms(2) by (simp add: pmm_alloc_pages_def)
  note S = alloc_pages_impl_spec [OF assms(1) impl]
  have "p = NULL \<longleftrightarrow> (\<nexists>pfn. (1 < n \<longrightarrow> z_start_pfn (zones s ZONE_NORMAL) \<le> pfn) \<and> {pfn..<pfn + n} \<subseteq> free_frames s)"
  proof (cases "n = 1")
    case True
    then have "alloc_page_impl False s = (p, s')" using impl by (simp add: alloc_pages_impl_def pmm_alloc_page_def)
    from alloc_page_impl_spec(2) [OF assms(1) this] True show ?thesis by auto
  next
    case False
    have "{pfn..<pfn + n} \<subseteq> free_frames s \<Longrightarrow> pfn + n \<le> total_pages s" for pfn
    proof -
      assume "{pfn..<pfn + n} \<subseteq> free_frames s"
      then have "pfn + n - 1 \<in> free_frames s" using assms(3) by auto
      then show ?thesis using assms(3) unfolding free_frames_def mem_Collect_eq by linarith
    qed
    then show ?thesis using S(4) False assms(3) by auto
  qed
  then show ?thesis using S(1-3) by blast
qed

theorem pmm_alloc_pages_contract_witness:
  "\<exists>s'. pmm_alloc_pages 3 small_pmm = (frame_addr AMD64 6, s') \<and> pmm_wf s' \<and> allocated small_pmm 6 3 s'"
proof -
  obtain p s' where r: "pmm_alloc_pages 3 small_pmm = (p, s')" by fastforce
  have p: "p = frame_addr AMD64 6" "p \<noteq> NULL"
    using arg_cong [OF r, of fst] by (simp_all add: small_alloc_3 frame_addr_def phys_to_virt_def pfn_to_phys_def)
  note C = pmm_alloc_pages_contract [OF small_pmm_wf r]
  then obtain pfn where pfn: "p = frame_addr (pmm_arch small_pmm) pfn" "allocated small_pmm pfn 3 s'" using p(2) by auto
  have "pfn < 2 ^ 32" using pfn(2) by (simp add: allocated_def small_pmm_def)
  then have "pfn = 6" using pfn(1) p(1) frame_addr_inj [of pfn 6 AMD64] by (simp add: small_pmm_def)
  then show ?thesis using C r p pfn by auto
qed

text \<open>What a client relies on: two live allocations never overlap, and giving one back restores the
  sets of free and of allocated pages exactly.\<close>

theorem pmm_alloc_release_roundtrip:
  assumes "pmm_wf s" and "pmm_alloc_pages n s = (p, s1)" and "p \<noteq> NULL"
  shows "page_run p n \<inter> owned_addrs s = {}
    \<and> (\<exists>s'. pmm_free_pages p n s1 = Inr s' \<and> pmm_wf s' \<and> free_addrs s' = free_addrs s \<and> owned_addrs s' = owned_addrs s)"
  using pp.alloc_fresh [OF assms] pp.alloc_release [OF assms] by blast

theorem pmm_alloc_release_roundtrip_witness:
  "\<exists>p s1 s'. pmm_alloc_pages 3 small_pmm = (p, s1) \<and> pmm_free_pages p 3 s1 = Inr s' \<and> free_addrs s' = free_addrs small_pmm"
proof -
  obtain p s1 where r: "pmm_alloc_pages 3 small_pmm = (p, s1)" by fastforce
  then have "p \<noteq> NULL" using small_alloc_3 by auto
  from pmm_alloc_release_roundtrip [OF small_pmm_wf r this] r show ?thesis by blast
qed

text \<open>C3. \<open>pmm_free_page\<close> on every branch: a pointer outside the managed frames or to a reserved frame is
  ignored, a frame that is already free panics, a shared frame only loses a reference, and the last
  reference returns the frame, poisoned with \<open>0xCC\<close>.\<close>

theorem pmm_free_page_behaviour:
  assumes "pmm_wf s" and "p \<noteq> NULL"
  defines "pfn \<equiv> frame_of_ptr s p"
  shows "(pfn \<ge> total_pages s \<or> pfn \<in> reserved_frames s \<longrightarrow> pmm_free_page p s = Inr s)
    \<and> (pmm_free_page p s = Inl (Panic ''PMM: Double free detected'') \<longleftrightarrow> pfn \<in> free_frames s)
    \<and> (\<forall>s'. pfn < total_pages s \<longrightarrow> pfn \<notin> reserved_frames s \<longrightarrow> pmm_free_page p s = Inr s' \<longrightarrow>
        pmm_wf s' \<and> (if pg_refcount (page_array s ! pfn) > 1
           then free_frames s' = free_frames s \<and> ram s' = ram s
             \<and> pg_refcount (page_array s' ! pfn) = pg_refcount (page_array s ! pfn) - 1
           else released s pfn p s'))"
proof -
  have len: "length (page_array s) = total_pages s" using pmm_wfD(1) [OF assms(1)] by (simp add: zones_cover_def)
  have disj: "reserved_frames s \<inter> free_frames s = {}" by (rule reserved_not_free [OF assms(1)])
  show ?thesis
    using assms(1,2)
  proof (cases rule: pmm_free_page_cases)
    case (shared s')
    then have "pfn \<notin> free_frames s"
      using pmm_wfD(4) [OF assms(1), of pfn] by (force simp: free_frames_def page_ok_def pfn_def)
    moreover have "pfn \<notin> reserved_frames s"
      using shared(8) by (simp add: reserved_frames_def pfn_def)
    ultimately show ?thesis using shared len by (simp add: pfn_def)
  next
    case (double)
    then have "pfn \<in> free_frames s" "pfn \<notin> reserved_frames s" "pfn < total_pages s"
      using disj by (auto simp: pfn_def free_frames_def)
    then show ?thesis using double(2) by simp
  next
    case (freed s')
    then have "pfn \<notin> free_frames s" "pfn \<notin> reserved_frames s"
      by (auto simp: released_def free_frames_def reserved_frames_def pfn_def)
    then show ?thesis using freed(1,3-6) unfolding pfn_def by simp
  next
    case outside
    then show ?thesis by (auto simp: pfn_def free_frames_def reserved_frames_def)
  next
    case reserved
    then have "pfn \<in> reserved_frames s" by (simp add: pfn_def reserved_frames_def)
    then show ?thesis using disj reserved(3) by auto
  qed
qed


theorem pmm_free_page_behaviour_witness:
  "pmm_free_page (frame_addr AMD64 6) small_pmm = Inl (Panic ''PMM: Double free detected'')
   \<and> pmm_free_page (frame_addr AMD64 5) small_pmm = Inr small_pmm"
proof -
  have n: "frame_addr AMD64 6 \<noteq> NULL" "frame_addr AMD64 5 \<noteq> NULL"
    by (simp_all add: frame_addr_def phys_to_virt_def pfn_to_phys_def)
  have f: "frame_of_ptr small_pmm (frame_addr AMD64 6) = 6" "frame_of_ptr small_pmm (frame_addr AMD64 5) = 5"
    by (simp_all add: small_pmm_def)
  have "frame_used small_pmm 6 = False" "pg_flags (page_array small_pmm ! 5) AND PG_RESERVED = 1" by code_simp+
  then have "6 \<in> free_frames small_pmm" "5 \<in> reserved_frames small_pmm"
    by (simp_all add: free_frames_def reserved_frames_def) (simp_all add: small_pmm_def)
  then show ?thesis
    using pmm_free_page_behaviour [OF small_pmm_wf n(1)] pmm_free_page_behaviour [OF small_pmm_wf n(2)] f by simp
qed

text \<open>\<open>pmm_alloc_aligned\<close> with a power-of-two alignment of at least a page never panics; a non-null
  result is aligned, and after the surplus before and after it has been given back exactly the
  requested pages have left the free set.\<close>

theorem pmm_alloc_aligned_correct:
  assumes "pmm_wf s" and "12 \<le> k" and "k \<le> 40" and "unat sz \<le> 2 ^ 52"
  shows "\<exists>p s'. pmm_alloc_aligned sz (2 ^ k) s = Inr (p, s') \<and> pmm_wf s' \<and>
    (p \<noteq> NULL \<longrightarrow> 2 ^ k dvd unat p \<and> (\<exists>pfn. p = frame_addr (pmm_arch s) pfn
       \<and> {pfn..<pfn + (unat sz + 4095) div 4096} \<subseteq> free_frames s
       \<and> free_frames s' = free_frames s - {pfn..<pfn + (unat sz + 4095) div 4096}))"
  using pmm_alloc_aligned_spec [OF assms] by metis

theorem pmm_alloc_aligned_correct_witness:
  "\<exists>s'. pmm_alloc_aligned 8192 (2 ^ 13) small_pmm = Inr (frame_addr AMD64 6, s') \<and> pmm_wf s'"
proof -
  obtain p s' where r: "pmm_alloc_aligned 8192 (2 ^ 13) small_pmm = Inr (p, s')" "pmm_wf s'"
    using pmm_alloc_aligned_correct [OF small_pmm_wf, of 13 8192] by auto
  have "(case pmm_alloc_aligned 8192 8192 small_pmm of Inr (p, s') \<Rightarrow> p | Inl _ \<Rightarrow> 0) = 0xFFFF800000006000"
    by code_simp
  then have "p = frame_addr AMD64 6"
    using r by (simp add: frame_addr_def phys_to_virt_def pfn_to_phys_def)
  then show ?thesis using r by blast
qed

text \<open>The fragmentation probe, with its word-at-a-time fast path, reports the length of the longest
  run of free frames of the normal zone and the number of maximal free runs.\<close>

theorem pmm_get_fragmentation_correct:
  fixes s :: pmm
  defines "bm \<equiv> z_bitmap (zones s ZONE_NORMAL)" and "n \<equiv> zone_npages (zones s ZONE_NORMAL)"
  shows "(\<forall>len. len \<le> fst (pmm_get_fragmentation s) \<longleftrightarrow> (\<exists>p. p + len \<le> n \<and> free_run bm len p))
    \<and> snd (pmm_get_fragmentation s) = card {i. i < n \<and> \<not> bitmap_test bm i \<and> (i = 0 \<or> bitmap_test bm (i - 1))}"
  using frag_scan_ok [of bm n] by (auto simp: frag_ok_def pmm_get_fragmentation_scan Let_def bm_def n_def)

end
