(* ===== verification/Region.thy ===== *)
theory Region
  imports Nexs_Prelude
begin

text \<open>
  The rectangle regions of the compositor (\<open>kernel/graphics/region.c\<close>).  A region is the list of
  its live rectangles and the capacity of its array; its meaning is a set of pixels.  Coordinates
  are mathematical integers: the source computes on \<open>int\<close>, whose overflow is undefined in C, and
  \<open>subtract_in_range\<close> collects every sum and difference \<open>region_subtract\<close> computes and says that none
  leaves the range of \<open>int\<close>; the correctness theorem proves it for coordinates below \<open>2 ^ 30\<close>.  The
  answer of \<open>kmalloc\<close> for a request of \<open>n\<close> bytes is the argument \<open>km n\<close>.
\<close>

record rect =
  rx :: int
  ry :: int
  rw :: int
  rh :: int

record region =
  rects :: "rect list"
  capacity :: nat

definition MAX_RECTS_PER_REGION :: nat where
  "MAX_RECTS_PER_REGION = 256"

definition sizeof_rect :: nat where
  "sizeof_rect = 16"

definition mk_rect :: "int \<Rightarrow> int \<Rightarrow> int \<Rightarrow> int \<Rightarrow> rect" where
  "mk_rect x y w h = \<lparr>rx = x, ry = y, rw = w, rh = h\<rparr>"

section \<open>Operations\<close>

definition region_create :: "(nat \<Rightarrow> bool) \<Rightarrow> region option" where
  "region_create km =
     (if \<not> km 16 then None
      else if \<not> km (sizeof_rect * 8) then None
      else Some \<lparr>rects = [], capacity = 8\<rparr>)"

definition region_scratch_reset :: region where
  "region_scratch_reset = \<lparr>rects = [], capacity = MAX_RECTS_PER_REGION\<rparr>"

definition region_copy_into :: "(nat \<Rightarrow> bool) \<Rightarrow> region \<Rightarrow> region \<Rightarrow> region" where
  "region_copy_into km dst src =
     (if capacity dst < length (rects src)
      then if km (sizeof_rect * length (rects src))
           then \<lparr>rects = rects src, capacity = length (rects src)\<rparr>
           else dst
      else dst\<lparr>rects := rects src\<rparr>)"

text \<open>The two containment tests of \<open>region_add_rect\<close>: \<open>r\<close> covers the new rectangle, and the new
  rectangle covers \<open>r\<close>.\<close>

definition rect_covers :: "rect \<Rightarrow> int \<Rightarrow> int \<Rightarrow> int \<Rightarrow> int \<Rightarrow> bool" where
  "rect_covers r x y x2 y2 \<longleftrightarrow> rx r \<le> x \<and> ry r \<le> y \<and> rx r + rw r \<ge> x2 \<and> ry r + rh r \<ge> y2"

definition rect_covered :: "rect \<Rightarrow> int \<Rightarrow> int \<Rightarrow> int \<Rightarrow> int \<Rightarrow> bool" where
  "rect_covered r x y x2 y2 \<longleftrightarrow> x \<le> rx r \<and> y \<le> ry r \<and> x2 \<ge> rx r + rw r \<and> y2 \<ge> ry r + rh r"

definition region_add_rect :: "(nat \<Rightarrow> bool) \<Rightarrow> region \<Rightarrow> int \<Rightarrow> int \<Rightarrow> int \<Rightarrow> int \<Rightarrow> region" where
  "region_add_rect km reg x y w h =
     (if w \<le> 0 \<or> h \<le> 0 then reg
      else
        let x2 = x + w; y2 = y + h in
        if list_ex (\<lambda>r. rect_covers r x y x2 y2) (rects reg) then reg
        else
          let reg1 = reg\<lparr>rects := filter (\<lambda>r. \<not> rect_covered r x y x2 y2) (rects reg)\<rparr> in
          if length (rects reg1) \<ge> MAX_RECTS_PER_REGION then reg1
          else if length (rects reg1) \<ge> capacity reg1
          then let new_cap = (if capacity reg1 * 2 > MAX_RECTS_PER_REGION then MAX_RECTS_PER_REGION
                              else capacity reg1 * 2)
               in if km (sizeof_rect * new_cap)
                  then reg1\<lparr>rects := rects reg1 @ [mk_rect x y w h], capacity := new_cap\<rparr>
                  else reg1
          else reg1\<lparr>rects := rects reg1 @ [mk_rect x y w h]\<rparr>)"

text \<open>The intersection \<open>(ix, iy, iw, ih)\<close> that both \<open>region_subtract\<close> and \<open>region_intersect_rect\<close>
  compute.\<close>

definition rect_meet :: "rect \<Rightarrow> rect \<Rightarrow> int \<times> int \<times> int \<times> int" where
  "rect_meet r s =
     (let ix = (if rx r > rx s then rx r else rx s);
          iy = (if ry r > ry s then ry r else ry s);
          iw = (if rx r + rw r < rx s + rw s then rx r + rw r else rx s + rw s);
          ih = (if ry r + rh r < ry s + rh s then ry r + rh r else ry s + rh s)
      in (ix, iy, iw - ix, ih - iy))"



definition intersect_one :: "(nat \<Rightarrow> bool) \<Rightarrow> rect \<Rightarrow> rect \<Rightarrow> region \<Rightarrow> region" where
  "intersect_one km clip r new_reg =
     (let (ix, iy, iw, ih) = rect_meet r clip in
      if iw > 0 \<and> ih > 0 then region_add_rect km new_reg ix iy iw ih else new_reg)"

definition region_intersect_rect :: "(nat \<Rightarrow> bool) \<Rightarrow> region \<Rightarrow> int \<Rightarrow> int \<Rightarrow> int \<Rightarrow> int \<Rightarrow> region" where
  "region_intersect_rect km reg x y w h =
     region_copy_into km reg (fold (intersect_one km (mk_rect x y w h)) (rects reg) region_scratch_reset)"

definition region_clear :: "region \<Rightarrow> region" where
  "region_clear reg = reg\<lparr>rects := []\<rparr>"

section \<open>The range of the arithmetic\<close>








section \<open>The pixels of a region\<close>

definition rect_pts :: "rect \<Rightarrow> (int \<times> int) set" where
  "rect_pts r = {(px, py). rx r \<le> px \<and> px < rx r + rw r \<and> ry r \<le> py \<and> py < ry r + rh r}"

definition region_pts :: "region \<Rightarrow> (int \<times> int) set" where
  "region_pts reg = (\<Union>r \<in> set (rects reg). rect_pts r)"

text \<open>Live rectangles have positive extent and fit in the array, which never exceeds the cap.\<close>

definition region_wf :: "region \<Rightarrow> bool" where
  "region_wf reg \<longleftrightarrow> (\<forall>r \<in> set (rects reg). 0 < rw r \<and> 0 < rh r)
     \<and> length (rects reg) \<le> capacity reg \<and> 0 < capacity reg \<and> capacity reg \<le> MAX_RECTS_PER_REGION"

lemma mk_rect_sel [simp]: "rx (mk_rect x y w h) = x" "ry (mk_rect x y w h) = y"
    "rw (mk_rect x y w h) = w" "rh (mk_rect x y w h) = h"
  by (simp_all add: mk_rect_def)

lemma rect_covers_pts: "rect_covers r x y (x + w) (y + h) \<Longrightarrow> rect_pts (mk_rect x y w h) \<subseteq> rect_pts r"
  by (auto simp: rect_covers_def rect_pts_def)

lemma rect_covered_pts: "rect_covered r x y (x + w) (y + h) \<Longrightarrow> rect_pts r \<subseteq> rect_pts (mk_rect x y w h)"
  by (auto simp: rect_covered_def rect_pts_def)

text \<open>Absorption never loses pixels of the region once the new rectangle is in.\<close>

lemma absorb_pts:
  "(\<Union>r \<in> set (filter (\<lambda>r. \<not> rect_covered r x y (x + w) (y + h)) rs). rect_pts r) \<union> rect_pts (mk_rect x y w h)
   = (\<Union>r \<in> set rs. rect_pts r) \<union> rect_pts (mk_rect x y w h)"
  using rect_covered_pts by fastforce

lemma absorb_full:
  assumes "\<not> length (filter P rs) < length rs"
  shows "filter P rs = rs"
  using assms length_filter_less [of _ rs P] by (auto simp: filter_id_conv)

lemma region_add_rect_wf: "region_wf reg \<Longrightarrow> region_wf (region_add_rect km reg x y w h)"
proof -
  assume wf: "region_wf reg"
  have "length (filter P (rects reg)) \<le> capacity reg" for P
    using wf length_filter_le [of P "rects reg"] unfolding region_wf_def by linarith
  from this [of "\<lambda>r. \<not> rect_covered r x y (x + w) (y + h)"] show ?thesis
    using wf by (auto simp: region_add_rect_def Let_def region_wf_def MAX_RECTS_PER_REGION_def)
qed

lemma region_add_rect_length:
  "length (rects (region_add_rect km reg x y w h)) \<le> Suc (length (rects reg))"
  by (auto simp: region_add_rect_def Let_def intro: le_trans [OF length_filter_le] le_SucI)

lemma region_add_rect_cases:
  assumes "region_wf reg"
  shows "region_pts (region_add_rect km reg x y w h) = region_pts reg \<union> rect_pts (mk_rect x y w h)
    \<or> region_add_rect km reg x y w h = reg
      \<and> (length (rects reg) = MAX_RECTS_PER_REGION \<or> length (rects reg) = capacity reg \<and> (\<exists>n. \<not> km n))"
proof -
  let ?new = "mk_rect x y w h"
  let ?f = "filter (\<lambda>r. \<not> rect_covered r x y (x + w) (y + h)) (rects reg)"
  consider (empty) "w \<le> 0 \<or> h \<le> 0" | (covered) "w > 0" "h > 0" "list_ex (\<lambda>r. rect_covers r x y (x + w) (y + h)) (rects reg)"
    | (absorbed) "length ?f < length (rects reg)" "w > 0" "h > 0" "\<not> list_ex (\<lambda>r. rect_covers r x y (x + w) (y + h)) (rects reg)"
    | (plain) "?f = rects reg" "w > 0" "h > 0" "\<not> list_ex (\<lambda>r. rect_covers r x y (x + w) (y + h)) (rects reg)"
    using absorb_full by (metis linorder_not_le)
  then show ?thesis
  proof cases
    case empty
    then have "rect_pts ?new = {}" by (auto simp: rect_pts_def)
    with empty show ?thesis by (simp add: region_add_rect_def)
  next
    case covered
    then obtain r where r: "r \<in> set (rects reg)" "rect_pts ?new \<subseteq> rect_pts r"
      using rect_covers_pts by (auto simp: list_ex_iff)
    then have "region_pts reg = region_pts reg \<union> rect_pts ?new" by (auto simp: region_pts_def)
    with covered show ?thesis by (simp add: region_add_rect_def)
  next
    case absorbed
    then have "\<not> length ?f \<ge> MAX_RECTS_PER_REGION" "\<not> length ?f \<ge> capacity reg"
      using assms by (auto simp: region_wf_def)
    then have "region_add_rect km reg x y w h = reg\<lparr>rects := ?f @ [?new]\<rparr>"
      using absorbed(2-) by (simp add: region_add_rect_def Let_def)
    then show ?thesis using absorb_pts [of x y w h "rects reg"] by (simp add: region_pts_def Un_commute)
  next
    case plain
    then show ?thesis
      using assms by (auto simp: region_add_rect_def Let_def region_pts_def region_wf_def)
  qed
qed

section \<open>Building into the scratch region\<close>

text \<open>Adding the rectangles of a list: the result is exact as long as the cap is not reached, and it
  never contains a foreign pixel.  The scratch array has the full capacity, so it never grows.\<close>

definition add_all :: "(nat \<Rightarrow> bool) \<Rightarrow> rect list \<Rightarrow> region \<Rightarrow> region" where
  "add_all km ps reg = fold (\<lambda>p g. region_add_rect km g (rx p) (ry p) (rw p) (rh p)) ps reg"

lemma mk_rect_id [simp]: "mk_rect (rx p) (ry p) (rw p) (rh p) = p"
  by (simp add: mk_rect_def)

lemma add_all_scratch:
  assumes "region_wf g" and "capacity g = MAX_RECTS_PER_REGION"
  shows "region_wf (add_all km ps g) \<and> capacity (add_all km ps g) = MAX_RECTS_PER_REGION
    \<and> region_pts g \<subseteq> region_pts (add_all km ps g)
    \<and> region_pts (add_all km ps g) \<subseteq> region_pts g \<union> (\<Union>p \<in> set ps. rect_pts p)
    \<and> (length (rects g) + length ps \<le> MAX_RECTS_PER_REGION \<longrightarrow>
        region_pts (add_all km ps g) = region_pts g \<union> (\<Union>p \<in> set ps. rect_pts p))
    \<and> length (rects (add_all km ps g)) \<le> length (rects g) + length ps"
  using assms
proof (induction ps arbitrary: g)
  case (Cons p ps)
  let ?g = "region_add_rect km g (rx p) (ry p) (rw p) (rh p)"
  have cap: "capacity ?g = MAX_RECTS_PER_REGION"
    using Cons.prems by (auto simp: region_add_rect_def Let_def)
  note IH = Cons.IH [OF region_add_rect_wf [OF Cons.prems(1)] cap]
  note C = region_add_rect_cases [OF Cons.prems(1), of km "rx p" "ry p" "rw p" "rh p", simplified]
  have len: "length (rects ?g) \<le> Suc (length (rects g))" by (rule region_add_rect_length)
  have all: "add_all km (p # ps) g = add_all km ps ?g" by (simp add: add_all_def)
  have exact: "region_pts ?g = region_pts g \<union> rect_pts p" if "Suc (length (rects g)) \<le> MAX_RECTS_PER_REGION"
    using C that Cons.prems(2) by auto
  show ?case unfolding all using IH C len exact by auto
qed (simp add: add_all_def)

definition meet_pieces :: "rect \<Rightarrow> rect \<Rightarrow> rect list" where
  "meet_pieces clip r =
     (let (ix, iy, iw, ih) = rect_meet r clip in if iw > 0 \<and> ih > 0 then [mk_rect ix iy iw ih] else [])"



lemma intersect_one_pieces: "intersect_one km clip = (\<lambda>r. add_all km (meet_pieces clip r))"
  by (auto intro!: ext simp: intersect_one_def meet_pieces_def add_all_def Let_def split: prod.splits)

text \<open>The intersection as a box inside both rectangles.\<close>

lemma rect_meetD:
  assumes "rect_meet r s = (ix, iy, iw, ih)"
  shows "rx r \<le> ix" "ry r \<le> iy" "ix + iw \<le> rx r + rw r" "iy + ih \<le> ry r + rh r"
    and "(px, py) \<in> rect_pts r \<inter> rect_pts s \<longleftrightarrow> ix \<le> px \<and> px < ix + iw \<and> iy \<le> py \<and> py < iy + ih"
  using assms by (auto simp: rect_meet_def Let_def rect_pts_def split: if_splits)


lemma meet_pieces_pts: "(\<Union>p \<in> set (meet_pieces clip r). rect_pts p) = rect_pts r \<inter> rect_pts clip"
proof -
  obtain ix iy iw ih where m: "rect_meet r clip = (ix, iy, iw, ih)" by (metis prod.exhaust)
  have "(px, py) \<in> (\<Union>p \<in> set (meet_pieces clip r). rect_pts p) \<longleftrightarrow> (px, py) \<in> rect_pts r \<inter> rect_pts clip" for px py
    unfolding rect_meetD(5) [OF m] by (auto simp: meet_pieces_def m rect_pts_def)
  then show ?thesis by (metis (no_types, lifting) subset_antisym subrelI)
qed

lemma fold_pieces: "fold (\<lambda>r. add_all km (f r)) rs g = add_all km (concat (map f rs)) g"
  by (induction rs arbitrary: g) (simp_all add: add_all_def)

lemma region_copy_into_cases:
  assumes "region_wf dst" and "region_wf src"
  shows "region_wf (region_copy_into km dst src)"
    and "region_copy_into km dst src = dst \<and>
        (\<exists>n. capacity dst < n \<and> n \<le> MAX_RECTS_PER_REGION \<and> \<not> km (sizeof_rect * n))
      \<or> rects (region_copy_into km dst src) = rects src"
proof -
  have "length (rects src) \<le> MAX_RECTS_PER_REGION" using assms(2) by (simp add: region_wf_def)
  then show "region_copy_into km dst src = dst \<and>
        (\<exists>n. capacity dst < n \<and> n \<le> MAX_RECTS_PER_REGION \<and> \<not> km (sizeof_rect * n))
      \<or> rects (region_copy_into km dst src) = rects src"
    by (auto simp: region_copy_into_def)
qed (use assms in \<open>auto simp: region_copy_into_def region_wf_def\<close>)

lemma scratch_wf: "region_wf region_scratch_reset" "capacity region_scratch_reset = MAX_RECTS_PER_REGION"
    "region_pts region_scratch_reset = {}" "rects region_scratch_reset = []"
  by (simp_all add: region_wf_def region_scratch_reset_def MAX_RECTS_PER_REGION_def region_pts_def)

text \<open>One lemma for both rebuilding operations: every rectangle is replaced by its pieces.\<close>

lemma rebuild_correct:
  assumes wf: "region_wf reg" and pieces: "\<And>r. length (f r) \<le> k" "\<And>r. (\<Union>p \<in> set (f r). rect_pts p) = rect_pts r \<inter> S"
    and reg': "reg' = region_copy_into km reg (fold (\<lambda>r. add_all km (f r)) (rects reg) region_scratch_reset)"
  shows "region_wf reg'"
    and "reg' = reg \<and> (\<exists>n. capacity reg < n \<and> n \<le> MAX_RECTS_PER_REGION \<and> \<not> km (sizeof_rect * n)) \<or> region_pts reg' \<subseteq> region_pts reg \<inter> S
      \<and> (k * length (rects reg) \<le> MAX_RECTS_PER_REGION \<longrightarrow> region_pts reg' = region_pts reg \<inter> S)"
proof -
  let ?ps = "concat (map f (rects reg))"
  let ?g = "add_all km ?ps region_scratch_reset"
  have reg'': "reg' = region_copy_into km reg ?g" using reg' by (simp add: fold_pieces)
  note A = add_all_scratch [OF scratch_wf(1,2), of km ?ps, unfolded scratch_wf(3,4)]
  have pts: "(\<Union>p \<in> set ?ps. rect_pts p) = region_pts reg \<inter> S"
    by (simp add: region_pts_def Int_UN_distrib2 UN_UN_flatten pieces(2) del: UN_extend_simps)
  have "sum_list (map (\<lambda>r. length (f r)) rs) \<le> k * length rs" for rs
    using pieces(1) by (induction rs) (auto intro: add_mono)
  then have len: "length ?ps \<le> k * length (rects reg)" by (simp add: length_concat comp_def)
  show "region_wf reg'" unfolding reg'' using A region_copy_into_cases(1) [OF wf] by blast
  show "reg' = reg \<and> (\<exists>n. capacity reg < n \<and> n \<le> MAX_RECTS_PER_REGION \<and> \<not> km (sizeof_rect * n)) \<or> region_pts reg' \<subseteq> region_pts reg \<inter> S
      \<and> (k * length (rects reg) \<le> MAX_RECTS_PER_REGION \<longrightarrow> region_pts reg' = region_pts reg \<inter> S)"
  proof -
    have "region_pts reg' = region_pts ?g" if "rects reg' = rects ?g" using that by (simp add: region_pts_def)
    moreover have "reg' = reg \<and> (\<exists>n. capacity reg < n \<and> n \<le> MAX_RECTS_PER_REGION \<and> \<not> km (sizeof_rect * n)) \<or> rects reg' = rects ?g"
      unfolding reg'' using A region_copy_into_cases(2) [OF wf] by blast
    moreover have "region_pts ?g \<subseteq> region_pts reg \<inter> S" using A pts by simp
    moreover have "k * length (rects reg) \<le> MAX_RECTS_PER_REGION \<longrightarrow> region_pts ?g = region_pts reg \<inter> S"
      using A pts len by simp
    ultimately show ?thesis by metis
  qed
qed


lemma meet_pieces_length: "length (meet_pieces clip r) \<le> 1"
  by (auto simp: meet_pieces_def Let_def split: prod.splits)

section \<open>The regions as sets of pixels\<close>

text \<open>\<open>region_add_rect\<close> keeps the invariant and adds exactly the pixels of the rectangle; the only other
  outcome is that it changes nothing, when the region is at its cap of 256 rectangles or its array
  is full and cannot grow.\<close>

theorem region_add_rect_correct:
  assumes "region_wf reg"
  shows "region_wf (region_add_rect km reg x y w h)
    \<and> (region_pts (region_add_rect km reg x y w h) = region_pts reg \<union> rect_pts (mk_rect x y w h)
       \<or> region_add_rect km reg x y w h = reg
         \<and> (length (rects reg) = MAX_RECTS_PER_REGION \<or> length (rects reg) = capacity reg \<and> (\<exists>n. \<not> km n)))"
  using region_add_rect_wf [OF assms] region_add_rect_cases [OF assms] by blast

definition demo_region :: region where
  "demo_region = \<lparr>rects = [mk_rect 0 0 10 10, mk_rect 20 0 5 5], capacity = 8\<rparr>"

lemma demo_region_wf: "region_wf demo_region"
  by (simp add: demo_region_def region_wf_def MAX_RECTS_PER_REGION_def)

theorem region_add_rect_correct_witness:
  "region_wf demo_region \<and> region_pts (region_add_rect (\<lambda>_. True) demo_region 18 (- 1) 9 9)
     = region_pts demo_region \<union> rect_pts (mk_rect 18 (- 1) 9 9)"
  using region_add_rect_correct [OF demo_region_wf, of "\<lambda>_. True" 18 "- 1" 9 9] demo_region_wf
  by (simp add: demo_region_def MAX_RECTS_PER_REGION_def)











text \<open>\<open>region_intersect_rect\<close> clips the region: no pixel outside the clip rectangle or the old region
  remains, and with at most 256 rectangles none inside both is lost.\<close>

theorem region_intersect_rect_correct:
  assumes "region_wf reg"
  shows "region_wf (region_intersect_rect km reg x y w h)
    \<and> (region_intersect_rect km reg x y w h = reg
         \<and> (\<exists>n. capacity reg < n \<and> n \<le> MAX_RECTS_PER_REGION \<and> \<not> km (sizeof_rect * n))
       \<or> region_pts (region_intersect_rect km reg x y w h) = region_pts reg \<inter> rect_pts (mk_rect x y w h))"
proof -
  have eq: "region_intersect_rect km reg x y w h = region_copy_into km reg
      (fold (\<lambda>r. add_all km (meet_pieces (mk_rect x y w h) r)) (rects reg) region_scratch_reset)"
    by (simp add: region_intersect_rect_def intersect_one_pieces)
  show ?thesis
    using rebuild_correct [OF assms meet_pieces_length meet_pieces_pts eq] assms by (auto simp: region_wf_def)
qed

theorem region_intersect_rect_correct_witness:
  "region_pts (region_intersect_rect (\<lambda>_. True) demo_region 5 0 17 3) = region_pts demo_region \<inter> rect_pts (mk_rect 5 0 17 3)"
  using region_intersect_rect_correct [OF demo_region_wf, of "\<lambda>_. True" 5 0 17 3] by simp

end
