(* ===== verification/Kstring.thy ===== *)
theory Kstring
  imports Nexs_Prelude
begin

text \<open>
  The string and memory routines of the kernel (\<open>kernel/lib/string.c\<close>) on the byte memory.  A
  pointer may run past the end of the address space, where it wraps, so that overlap and aliasing
  are those of the machine.  Loops that stop at a terminator may run forever when there is none:
  they are partial functions whose value is then \<open>None\<close>.  A routine that writes returns the new
  memory next to its result; \<open>int\<close> arguments that hold a character are 32-bit words.
\<close>

section \<open>Lengths and comparison\<close>

partial_function (option) str_end :: "memory \<Rightarrow> ptr \<Rightarrow> ptr option" where
  [code]: "str_end m p = (if m p \<noteq> 0 then str_end m (p + 1) else Some p)"

definition strlen :: "memory \<Rightarrow> ptr \<Rightarrow> u64 option" where
  "strlen m s = (if s = NULL then Some 0 else map_option (\<lambda>p. p - s) (str_end m s))"

fun strnlen_loop :: "memory \<Rightarrow> nat \<Rightarrow> ptr \<Rightarrow> ptr" where
  "strnlen_loop m 0 p = p"
| "strnlen_loop m (Suc n) p = (if m p \<noteq> 0 then strnlen_loop m n (p + 1) else p)"

definition strnlen :: "memory \<Rightarrow> ptr \<Rightarrow> u64 \<Rightarrow> u64" where
  "strnlen m s maxlen = (if s = NULL then 0 else strnlen_loop m (unat maxlen) s - s)"

text \<open>The answer of the comparisons when a pointer is null.\<close>

definition null_cmp :: "ptr \<Rightarrow> ptr \<Rightarrow> int" where
  "null_cmp s1 s2 = (if s1 = s2 then 0 else if s1 \<noteq> NULL then 1 else - 1)"

partial_function (option) strcmp_loop :: "memory \<Rightarrow> ptr \<Rightarrow> ptr \<Rightarrow> int option" where
  [code]: "strcmp_loop m s1 s2 =
     (if m s1 \<noteq> 0 \<and> m s1 = m s2 then strcmp_loop m (s1 + 1) (s2 + 1)
      else Some (uint (m s1) - uint (m s2)))"

definition strcmp :: "memory \<Rightarrow> ptr \<Rightarrow> ptr \<Rightarrow> int option" where
  "strcmp m s1 s2 =
     (if s1 = NULL \<or> s2 = NULL then Some (null_cmp s1 s2) else strcmp_loop m s1 s2)"

fun strncmp_loop :: "memory \<Rightarrow> nat \<Rightarrow> ptr \<Rightarrow> ptr \<Rightarrow> int" where
  "strncmp_loop m n s1 s2 =
     (if n > 1 \<and> m s1 \<noteq> 0 \<and> m s1 = m s2 then strncmp_loop m (n - 1) (s1 + 1) (s2 + 1)
      else uint (m s1) - uint (m s2))"

declare strncmp_loop.simps [simp del]

definition strncmp :: "memory \<Rightarrow> ptr \<Rightarrow> ptr \<Rightarrow> u64 \<Rightarrow> int" where
  "strncmp m s1 s2 n =
     (if n = 0 then 0
      else if s1 = NULL \<or> s2 = NULL then null_cmp s1 s2
      else strncmp_loop m (unat n) s1 s2)"

fun memcmp_loop :: "memory \<Rightarrow> nat \<Rightarrow> ptr \<Rightarrow> ptr \<Rightarrow> int" where
  "memcmp_loop m 0 p1 p2 = 0"
| "memcmp_loop m (Suc n) p1 p2 =
     (if m p1 \<noteq> m p2 then uint (m p1) - uint (m p2) else memcmp_loop m n (p1 + 1) (p2 + 1))"

definition memcmp :: "memory \<Rightarrow> ptr \<Rightarrow> ptr \<Rightarrow> u64 \<Rightarrow> int" where
  "memcmp m s1 s2 n =
     (if n = 0 then 0
      else if s1 = NULL \<or> s2 = NULL then null_cmp s1 s2
      else memcmp_loop m (unat n) s1 s2)"

definition to_lower :: "int \<Rightarrow> int" where
  "to_lower c = (if c \<ge> 65 \<and> c \<le> 90 then c + (97 - 65) else c)"

partial_function (option) strcasecmp_loop :: "memory \<Rightarrow> ptr \<Rightarrow> ptr \<Rightarrow> int option" where
  [code]: "strcasecmp_loop m s1 s2 =
     (if m s1 \<noteq> 0 \<and> m s2 \<noteq> 0 \<and> to_lower (uint (m s1)) = to_lower (uint (m s2))
      then strcasecmp_loop m (s1 + 1) (s2 + 1)
      else Some (to_lower (uint (m s1)) - to_lower (uint (m s2))))"

definition strcasecmp :: "memory \<Rightarrow> ptr \<Rightarrow> ptr \<Rightarrow> int option" where
  "strcasecmp m s1 s2 =
     (if s1 = NULL \<or> s2 = NULL then Some (null_cmp s1 s2) else strcasecmp_loop m s1 s2)"

fun strncasecmp_loop :: "memory \<Rightarrow> nat \<Rightarrow> ptr \<Rightarrow> ptr \<Rightarrow> int" where
  "strncasecmp_loop m n s1 s2 =
     (if n > 1 \<and> m s1 \<noteq> 0 \<and> m s2 \<noteq> 0 \<and> to_lower (uint (m s1)) = to_lower (uint (m s2))
      then strncasecmp_loop m (n - 1) (s1 + 1) (s2 + 1)
      else to_lower (uint (m s1)) - to_lower (uint (m s2)))"

declare strncasecmp_loop.simps [simp del]

definition strncasecmp :: "memory \<Rightarrow> ptr \<Rightarrow> ptr \<Rightarrow> u64 \<Rightarrow> int" where
  "strncasecmp m s1 s2 n =
     (if n = 0 then 0
      else if s1 = NULL \<or> s2 = NULL then null_cmp s1 s2
      else strncasecmp_loop m (unat n) s1 s2)"

section \<open>Filling and copying\<close>

fun memset_loop :: "memory \<Rightarrow> ptr \<Rightarrow> u8 \<Rightarrow> nat \<Rightarrow> memory" where
  "memset_loop m p c 0 = m"
| "memset_loop m p c (Suc n) = memset_loop (m(p := c)) (p + 1) c n"

definition memset :: "memory \<Rightarrow> ptr \<Rightarrow> u32 \<Rightarrow> u64 \<Rightarrow> memory" where
  "memset m s c n = (if s = NULL then m else memset_loop m s (ucast c) (unat n))"

definition bzero :: "memory \<Rightarrow> ptr \<Rightarrow> u64 \<Rightarrow> memory" where
  "bzero m s n = (if s \<noteq> NULL then memset m s 0 n else m)"

fun copy_forward :: "memory \<Rightarrow> ptr \<Rightarrow> ptr \<Rightarrow> nat \<Rightarrow> memory" where
  "copy_forward m d s 0 = m"
| "copy_forward m d s (Suc n) = copy_forward (m(d := m s)) (d + 1) (s + 1) n"

fun copy_backward :: "memory \<Rightarrow> ptr \<Rightarrow> ptr \<Rightarrow> nat \<Rightarrow> memory" where
  "copy_backward m d s 0 = m"
| "copy_backward m d s (Suc n) = copy_backward (m(d - 1 := m (s - 1))) (d - 1) (s - 1) n"

definition memcpy :: "memory \<Rightarrow> ptr \<Rightarrow> ptr \<Rightarrow> u64 \<Rightarrow> memory" where
  "memcpy m dest src n = (if dest = NULL \<or> src = NULL then m else copy_forward m dest src (unat n))"

definition memmove :: "memory \<Rightarrow> ptr \<Rightarrow> ptr \<Rightarrow> u64 \<Rightarrow> memory" where
  "memmove m dest src n =
     (if dest = NULL \<or> src = NULL then m
      else if dest < src then copy_forward m dest src (unat n)
      else copy_backward m (dest + n) (src + n) (unat n))"

partial_function (option) strcpy_loop :: "memory \<Rightarrow> ptr \<Rightarrow> ptr \<Rightarrow> memory option" where
  [code]: "strcpy_loop m d s =
     (if m s \<noteq> 0 then strcpy_loop (m(d := m s)) (d + 1) (s + 1) else Some (m(d := m s)))"

definition strcpy :: "memory \<Rightarrow> ptr \<Rightarrow> ptr \<Rightarrow> memory option" where
  "strcpy m dest src = (if dest = NULL \<or> src = NULL then Some m else strcpy_loop m dest src)"

fun strncpy_loop :: "memory \<Rightarrow> ptr \<Rightarrow> ptr \<Rightarrow> nat \<Rightarrow> memory" where
  "strncpy_loop m d s 0 = m"
| "strncpy_loop m d s (Suc n) =
     (if m s = 0 then memset_loop (m(d := m s)) (d + 1) 0 n
      else strncpy_loop (m(d := m s)) (d + 1) (s + 1) n)"

definition strncpy :: "memory \<Rightarrow> ptr \<Rightarrow> ptr \<Rightarrow> u64 \<Rightarrow> memory" where
  "strncpy m dest src n =
     (if dest = NULL \<or> src = NULL \<or> n = 0 then m else strncpy_loop m dest src (unat n))"

definition strlcpy :: "memory \<Rightarrow> ptr \<Rightarrow> ptr \<Rightarrow> u64 \<Rightarrow> (u64 \<times> memory) option" where
  "strlcpy m dest src sz =
     map_option (\<lambda>len. (len,
        if sz > 0
        then let n = (if len \<ge> sz then sz - 1 else len)
             in (memcpy m dest src n)(dest + n := 0)
        else m)) (strlen m src)"

definition strcat :: "memory \<Rightarrow> ptr \<Rightarrow> ptr \<Rightarrow> memory option" where
  "strcat m dest src =
     (if dest = NULL \<or> src = NULL then Some m
      else Option.bind (str_end m dest) (\<lambda>d. strcpy_loop m d src))"

text \<open>The copy loop of \<open>strncat\<close>: it returns the pointer \<open>d\<close> and whether the count ran out (in the
  source \<open>n\<close> has wrapped to \<open>(size_t)-1\<close>).\<close>

fun strncat_loop :: "memory \<Rightarrow> ptr \<Rightarrow> ptr \<Rightarrow> nat \<Rightarrow> memory \<times> ptr \<times> bool" where
  "strncat_loop m d s 0 = (m, d, True)"
| "strncat_loop m d s (Suc n) =
     (if m s \<noteq> 0 then strncat_loop (m(d := m s)) (d + 1) (s + 1) n
      else (m(d := m s), d + 1, False))"

definition strncat :: "memory \<Rightarrow> ptr \<Rightarrow> ptr \<Rightarrow> u64 \<Rightarrow> memory option" where
  "strncat m dest src n =
     (if dest = NULL \<or> src = NULL then Some m
      else map_option (\<lambda>d. case strncat_loop m d src (unat n) of
             (m', d', exhausted) \<Rightarrow> if exhausted then m'(d' := 0) else m') (str_end m dest))"

definition strlcat :: "memory \<Rightarrow> ptr \<Rightarrow> ptr \<Rightarrow> u64 \<Rightarrow> (u64 \<times> memory) option" where
  "strlcat m dest src sz =
     (let dlen = strnlen m dest sz
      in Option.bind (strlen m src) (\<lambda>slen.
           if dlen < sz
           then map_option (\<lambda>(_, m'). (dlen + slen, m')) (strlcpy m (dest + dlen) src (sz - dlen))
           else Some (dlen + slen, m)))"

section \<open>Searching and conversion\<close>

partial_function (option) strchr_loop :: "memory \<Rightarrow> ptr \<Rightarrow> u32 \<Rightarrow> ptr option" where
  [code]: "strchr_loop m s c =
     (if m s \<noteq> 0 then (if m s = ucast c then Some s else strchr_loop m (s + 1) c)
      else Some (if c = 0 then s else NULL))"

definition strchr :: "memory \<Rightarrow> ptr \<Rightarrow> u32 \<Rightarrow> ptr option" where
  "strchr m s c = (if s = NULL then Some NULL else strchr_loop m s c)"

partial_function (option) strrchr_loop :: "memory \<Rightarrow> ptr \<Rightarrow> u32 \<Rightarrow> ptr \<Rightarrow> ptr option" where
  [code]: "strrchr_loop m s c lastp =
     (if m s \<noteq> 0 then strrchr_loop m (s + 1) c (if m s = ucast c then s else lastp)
      else Some (if c = 0 then s else lastp))"

definition strrchr :: "memory \<Rightarrow> ptr \<Rightarrow> u32 \<Rightarrow> ptr option" where
  "strrchr m s c = (if s = NULL then Some NULL else strrchr_loop m s c NULL)"

partial_function (option) strstr_loop :: "memory \<Rightarrow> ptr \<Rightarrow> ptr \<Rightarrow> u64 \<Rightarrow> ptr option" where
  [code]: "strstr_loop m haystack needle n =
     (if m haystack \<noteq> 0
      then (if memcmp m haystack needle n = 0 then Some haystack
            else strstr_loop m (haystack + 1) needle n)
      else Some NULL)"

definition strstr :: "memory \<Rightarrow> ptr \<Rightarrow> ptr \<Rightarrow> ptr option" where
  "strstr m haystack needle =
     (if haystack = NULL \<or> needle = NULL then Some NULL
      else Option.bind (strlen m needle) (\<lambda>n. if n = 0 then Some haystack else strstr_loop m haystack needle n))"

fun memchr_loop :: "memory \<Rightarrow> nat \<Rightarrow> ptr \<Rightarrow> u8 \<Rightarrow> ptr" where
  "memchr_loop m 0 p c = NULL"
| "memchr_loop m (Suc n) p c = (if m p = c then p else memchr_loop m n (p + 1) c)"

definition memchr :: "memory \<Rightarrow> ptr \<Rightarrow> u32 \<Rightarrow> u64 \<Rightarrow> ptr" where
  "memchr m s c n = (if s = NULL then NULL else memchr_loop m (unat n) s (ucast c))"

partial_function (option) skip_spaces :: "memory \<Rightarrow> ptr \<Rightarrow> ptr option" where
  [code]: "skip_spaces m s = (if m s = 32 then skip_spaces m (s + 1) else Some s)"

definition INT_MAX :: int where "INT_MAX = 2147483647"
definition INT_MIN :: int where "INT_MIN = - 2147483648"

partial_function (option) atoi_loop :: "memory \<Rightarrow> ptr \<Rightarrow> int \<Rightarrow> int \<Rightarrow> int option" where
  [code]: "atoi_loop m s sign res =
     (if 48 \<le> m s \<and> m s \<le> 57
      then let digit = uint (m s) - 48
           in if res > (INT_MAX - digit) div 10
              then Some (if sign > 0 then INT_MAX else INT_MIN)
              else atoi_loop m (s + 1) sign (res * 10 + digit)
      else Some (res * sign))"

definition atoi :: "memory \<Rightarrow> ptr \<Rightarrow> int option" where
  "atoi m s =
     (if s = NULL then Some 0
      else Option.bind (skip_spaces m s) (\<lambda>s.
             if m s = 45 then atoi_loop m (s + 1) (- 1) 0
             else if m s = 43 then atoi_loop m (s + 1) 1 0
             else atoi_loop m s 1 0))"

section \<open>Strings in memory\<close>

fun cstr :: "memory \<Rightarrow> ptr \<Rightarrow> u8 list \<Rightarrow> bool" where
  "cstr m s [] \<longleftrightarrow> m s = 0"
| "cstr m s (x # xs) \<longleftrightarrow> m s = x \<and> x \<noteq> 0 \<and> cstr m (s + 1) xs"

lemma cstr_unique: "cstr m s xs \<Longrightarrow> cstr m s ys \<Longrightarrow> xs = ys"
proof (induction xs arbitrary: s ys)
  case Nil
  then show ?case by (cases ys) auto
next
  case (Cons x xs)
  then show ?case by (cases ys) auto
qed

lemma str_end_cstr: "cstr m s xs \<Longrightarrow> str_end m s = Some (s + of_nat (length xs))"
  by (induction xs arbitrary: s) (simp_all add: str_end.simps [of m] algebra_simps)

lemma strlen_cstr: "s \<noteq> NULL \<Longrightarrow> cstr m s xs \<Longrightarrow> strlen m s = Some (of_nat (length xs))"
  by (simp add: strlen_def str_end_cstr)

lemma cstr_cong: "(\<And>i. i \<le> length xs \<Longrightarrow> m' (s + of_nat i) = m (s + of_nat i)) \<Longrightarrow> cstr m' s xs = cstr m s xs"
proof (induction xs arbitrary: s)
  case Nil
  then show ?case using Nil [of 0] by simp
next
  case (Cons x xs)
  have "cstr m' (s + 1) xs = cstr m (s + 1) xs"
    by (rule Cons.IH) (use Cons.prems in \<open>fastforce simp: algebra_simps dest: meta_spec [of _ "Suc _"]\<close>)
  then show ?case using Cons.prems [of 0] by simp
qed

lemma uint_pos: "0 < uint (x :: 'a::len word) \<longleftrightarrow> x \<noteq> 0"
  using word_gt_0 [of x] by (simp add: word_less_def)

lemma strcmp_loop_cstr:
  "cstr m s1 xs \<Longrightarrow> cstr m s2 ys \<Longrightarrow> \<exists>d. strcmp_loop m s1 s2 = Some d \<and> (d = 0 \<longleftrightarrow> xs = ys)
    \<and> (d < 0 \<longleftrightarrow> (xs, ys) \<in> lexord {(a, b). a < b})"
proof (induction xs arbitrary: s1 s2 ys)
  case Nil
  then show ?case
    by (cases ys) (auto simp: strcmp_loop.simps [of m s1 s2] word_less_def uint_pos uint_0_iff)
next
  case (Cons x xs)
  show ?case
  proof (cases ys)
    case Nil
    then show ?thesis using Cons.prems by (auto simp: strcmp_loop.simps [of m s1 s2] uint_0_iff)
  next
    case (Cons y zs)
    then show ?thesis
      using Cons.prems Cons.IH [of "s1 + 1" "s2 + 1" zs]
      by (auto simp: strcmp_loop.simps [of m s1 s2] word_less_def word_uint_eq_iff [symmetric])
  qed
qed


section \<open>Copies\<close>

lemma unat_diff_Suc: "x \<noteq> d \<Longrightarrow> unat (x - d) = Suc (unat (x - (d + 1)))" for x d :: ptr
proof -
  assume "x \<noteq> d"
  then have "x - d \<noteq> 0" by simp
  then have "unat (x - d - 1) = unat (x - d) - 1" "unat (x - d) \<noteq> 0"
    by (simp_all add: unat_sub word_le_nat_alt unat_gt_0 Suc_leI)
  then show ?thesis by (simp add: algebra_simps)
qed

lemma unat_of_nat_64: "n < 2 ^ 64 \<Longrightarrow> unat (of_nat n :: ptr) = n"
  by (simp add: unat_of_nat)

lemma ptr_offset_iff: "n < 2 ^ 64 \<Longrightarrow> unat (x - d) = n \<longleftrightarrow> x = d + of_nat n" for x d :: ptr
proof -
  assume "n < 2 ^ 64"
  moreover have "x = d + of_nat (unat (x - d))" by simp
  ultimately show ?thesis by (metis add_diff_cancel_left' unat_of_nat_64)
qed

text \<open>A forward copy is right when no source byte is overwritten before it has been read.\<close>

lemma copy_forward_spec:
  assumes "\<And>i j. i < n \<Longrightarrow> j < i \<Longrightarrow> d + of_nat j \<noteq> s + of_nat i" and "n \<le> 2 ^ 64"
  shows "copy_forward m d s n = (\<lambda>x. if in_range d n x then m (s + (x - d)) else m x)"
  using assms
proof (induction n arbitrary: m d s)
  case 0
  then show ?case by (simp add: in_range_def)
next
  case (Suc n)
  have IH: "copy_forward (m(d := m s)) (d + 1) (s + 1) n
      = (\<lambda>x. if in_range (d + 1) n x then (m(d := m s)) (s + 1 + (x - (d + 1))) else (m(d := m s)) x)"
    using Suc.prems(1) [of "Suc _" "Suc _"] Suc.prems(2) by (intro Suc.IH) (auto simp: algebra_simps)
  have hit: "s + (x - d) \<noteq> d" if "in_range (d + 1) n x" "x \<noteq> d" for x
  proof -
    have "unat (x - d) < Suc n" "0 < unat (x - d)" using that unat_diff_Suc by (auto simp: in_range_def)
    from Suc.prems(1) [OF this] show ?thesis by auto
  qed
  have far: "\<not> in_range (d + 1) n d"
    using Suc.prems(2) by (simp add: in_range_def unsigned_minus_1_eq_mask mask_eq_exp_minus_1)
  have "copy_forward m d s (Suc n) x = (if in_range d (Suc n) x then m (s + (x - d)) else m x)" for x
    using hit [of x] far unat_diff_Suc [of x d] by (cases "x = d") (auto simp: IH in_range_def)
  then show ?case by auto
qed

lemma copy_backward_spec:
  assumes "\<And>i j. i < n \<Longrightarrow> i < j \<Longrightarrow> j < n \<Longrightarrow> d + of_nat j \<noteq> s + of_nat i" and "n \<le> 2 ^ 64"
  shows "copy_backward m (d + of_nat n) (s + of_nat n) n = (\<lambda>x. if in_range d n x then m (s + (x - d)) else m x)"
  using assms
proof (induction n arbitrary: m)
  case 0
  then show ?case by (simp add: in_range_def)
next
  case (Suc n)
  let ?m = "m(d + of_nat n := m (s + of_nat n))"
  have IH: "copy_backward ?m (d + of_nat n) (s + of_nat n) n = (\<lambda>x. if in_range d n x then ?m (s + (x - d)) else ?m x)"
    using Suc.prems by (intro Suc.IH) auto
  have unat_n: "unat (of_nat n :: ptr) = n" using Suc.prems(2) by (simp add: unat_of_nat)
  have last: "in_range d (Suc n) x \<longleftrightarrow> in_range d n x \<or> x = d + of_nat n" for x
    using ptr_offset_iff [of n x d] Suc.prems(2) by (auto simp: in_range_def)
  have hit: "s + (x - d) \<noteq> d + of_nat n" if "in_range d n x" for x
    using Suc.prems(1) [of "unat (x - d)" n] that by (auto simp: in_range_def)
  have out: "\<not> in_range d n (d + of_nat n)" by (simp add: in_range_def unat_n)
  have step: "copy_backward m (d + of_nat (Suc n)) (s + of_nat (Suc n)) (Suc n) = copy_backward ?m (d + of_nat n) (s + of_nat n) n"
    by (simp add: algebra_simps)
  show ?case unfolding step IH using hit out by (auto simp: last)
qed

lemma ptr_add_inj: "i < 2 ^ 64 \<Longrightarrow> j < 2 ^ 64 \<Longrightarrow> (p :: ptr) + of_nat i = p + of_nat j \<longleftrightarrow> i = j"
  using ptr_offset_iff [of i "p + of_nat j" p] by (auto simp: unat_of_nat)

lemma unat_ptr_add: "unat (p :: ptr) + i < 2 ^ 64 \<Longrightarrow> unat (p + of_nat i) = unat p + i"
  by (simp add: unat_word_ariths unat_of_nat)

lemma memmove_spec:
  assumes "dest \<noteq> NULL" and "src \<noteq> NULL" and "unat dest + unat n \<le> 2 ^ 64" and "unat src + unat n \<le> 2 ^ 64"
  shows "memmove m dest src n = (\<lambda>x. if in_range dest (unat n) x then m (src + (x - dest)) else m x)"
proof (cases "dest < src")
  case True
  then have "dest + of_nat j \<noteq> src + of_nat i" if "i < unat n" "j < i" for i j
    using that assms(3,4) unat_ptr_add [of dest j] unat_ptr_add [of src i] by (auto simp: word_less_nat_alt)
  with True assms show ?thesis by (auto simp: memmove_def intro!: copy_forward_spec unat_less_64 [THEN less_imp_le])
next
  case False
  then have "dest + of_nat j \<noteq> src + of_nat i" if "i < unat n" "i < j" "j < unat n" for i j
    using that assms(3,4) unat_ptr_add [of dest j] unat_ptr_add [of src i] by (auto simp: word_less_nat_alt)
  from copy_backward_spec [of "unat n", OF this] False assms show ?thesis
    using unat_less_64 [of n] by (simp add: memmove_def)
qed


text \<open>Bytes at consecutive addresses.\<close>

definition bytes_at :: "memory \<Rightarrow> ptr \<Rightarrow> u8 list \<Rightarrow> bool" where
  "bytes_at m p xs \<longleftrightarrow> (\<forall>i < length xs. m (p + of_nat i) = xs ! i)"

lemma bytes_at_Cons: "bytes_at m p (x # xs) \<longleftrightarrow> m p = x \<and> bytes_at m (p + 1) xs"
  unfolding bytes_at_def length_Cons All_less_Suc2 by (simp add: algebra_simps)

lemma cstr_bytes: "cstr m s xs \<longleftrightarrow> bytes_at m s (xs @ [0]) \<and> 0 \<notin> set xs"
proof (induction xs arbitrary: s)
  case Nil
  then show ?case by (simp add: bytes_at_def)
next
  case (Cons x xs)
  then show ?case by (auto simp: bytes_at_Cons)
qed

text \<open>The memory routines keep to the range they are given.\<close>

definition writes_only :: "memory \<Rightarrow> memory \<Rightarrow> ptr \<Rightarrow> nat \<Rightarrow> bool" where
  "writes_only m m' p n \<longleftrightarrow> (\<forall>x. \<not> in_range p n x \<longrightarrow> m' x = m x)"

definition disjoint_from :: "ptr \<Rightarrow> nat \<Rightarrow> ptr \<Rightarrow> nat \<Rightarrow> bool" where
  "disjoint_from p n q k \<longleftrightarrow> (\<forall>i < k. \<not> in_range p n (q + of_nat i))"

lemma in_range_add: "i < 2 ^ 64 \<Longrightarrow> in_range p n (p + of_nat i) \<longleftrightarrow> i < n"
  by (simp add: in_range_def unat_of_nat)

lemma strlcpy_spec:
  assumes src: "src \<noteq> NULL" "cstr m src xs" and dest: "dest \<noteq> NULL" and sz: "0 < sz"
    and len: "length xs < 2 ^ 64"
    and disj: "disjoint_from dest (unat sz) src (Suc (length xs))"
  shows "\<exists>m'. strlcpy m dest src sz = Some (of_nat (length xs), m')
    \<and> cstr m' dest (take (unat sz - 1) xs) \<and> writes_only m m' dest (unat sz)"
proof -
  define k where "k = min (length xs) (unat sz - 1)"
  define n :: u64 where "n = (if of_nat (length xs) \<ge> sz then sz - 1 else of_nat (length xs))"
  have sz1: "unat (sz - 1) = unat sz - 1" "0 < unat sz" "unat sz < 2 ^ 64"
    using sz unat_less_64 [of sz] by (simp_all add: unat_sub word_le_nat_alt unat_gt_0 Suc_leI word_less_nat_alt)
  have n: "unat n = k" using sz1 len by (auto simp: n_def k_def word_le_nat_alt unat_of_nat)
  have k: "k < unat sz" "k \<le> length xs" "k < 2 ^ 64" using sz1 len by (auto simp: k_def)
  then have nk: "n = of_nat k" using n by (simp add: word_unat_eq_iff unat_of_nat)
  let ?m1 = "copy_forward m dest src k"
  have m1: "?m1 = (\<lambda>x. if in_range dest k x then m (src + (x - dest)) else m x)"
  proof (rule copy_forward_spec)
    show "dest + of_nat j \<noteq> src + of_nat i" if "i < k" "j < i" for i j
    proof
      assume "dest + of_nat j = src + of_nat i"
      moreover have "in_range dest (unat sz) (dest + of_nat j)" using that k by (subst in_range_add) auto
      ultimately show False using disj that k by (auto simp: disjoint_from_def)
    qed
  qed (use k in simp)
  let ?m' = "?m1(dest + of_nat k := 0)"
  have res: "strlcpy m dest src sz = Some (of_nat (length xs), ?m')"
    using strlen_cstr [OF src] sz dest src(1) n nk
    by (simp add: strlcpy_def memcpy_def Let_def flip: n_def)
  have at: "?m' (dest + of_nat i) = (if i < k then xs ! i else 0)" if "i \<le> k" for i
  proof (cases "i < k")
    case True
    then have "dest + of_nat i \<noteq> dest + of_nat k" using ptr_add_inj [of i k dest] k by simp
    moreover have "m (src + of_nat i) = xs ! i"
      using src(2) True k by (auto simp: cstr_bytes bytes_at_def nth_append)
    ultimately show ?thesis using True k by (simp add: m1 in_range_add)
  qed (use that in simp)
  have "cstr ?m' dest (take k xs)"
    using src(2) k at by (auto simp: cstr_bytes bytes_at_def nth_append less_Suc_eq dest: in_set_takeD)
  moreover have "take k xs = take (unat sz - 1) xs" by (simp add: k_def min_def)
  moreover have "writes_only m ?m' dest (unat sz)"
    using k in_range_add [of k dest "unat sz"] by (auto simp: writes_only_def m1 in_range_def)
  ultimately show ?thesis using res by auto
qed


lemma cstr_append: "cstr m s (ys @ xs) \<longleftrightarrow> bytes_at m s ys \<and> 0 \<notin> set ys \<and> cstr m (s + of_nat (length ys)) xs"
  by (induction ys arbitrary: s) (auto simp: bytes_at_Cons algebra_simps, simp add: bytes_at_def)

lemma strnlen_cstr:
  "bytes_at m s ys \<Longrightarrow> 0 \<notin> set ys \<Longrightarrow> m (s + of_nat (length ys)) = 0 \<Longrightarrow> length ys < n \<Longrightarrow>
   strnlen_loop m n s = s + of_nat (length ys)"
proof (induction ys arbitrary: s n)
  case Nil
  then show ?case by (cases n) auto
next
  case (Cons y ys)
  then obtain k where "n = Suc k" by (cases n) auto
  with Cons show ?case by (auto simp: bytes_at_Cons algebra_simps)
qed

lemma disjoint_from_tail:
  assumes "disjoint_from p n q k" and "i \<le> n" and "unat p + n \<le> 2 ^ 64"
  shows "disjoint_from (p + of_nat i) (n - i) q k"
proof -
  have "in_range p n x" if "in_range (p + of_nat i) (n - i) x" for x
  proof -
    have "x - p = (x - (p + of_nat i)) + of_nat i" by simp
    moreover have "i < 2 ^ 64" using that assms(2,3) unat_less_64 [of p] by (cases "i = n") (auto simp: in_range_def)
    ultimately have "unat (x - p) \<le> unat (x - (p + of_nat i)) + i"
      by (metis unat_of_nat_64 unat_word_ariths(1) mod_less_eq_dividend)
    then show ?thesis using that assms(2) by (simp add: in_range_def)
  qed
  then show ?thesis using assms(1) by (auto simp: disjoint_from_def)
qed


lemma strlcat_spec:
  assumes src: "src \<noteq> NULL" "cstr m src xs" and dest: "dest \<noteq> NULL" "cstr m dest ys" "length ys < unat sz"
    and len: "length xs < 2 ^ 64" and fit: "unat dest + unat sz \<le> 2 ^ 64"
    and disj: "disjoint_from dest (unat sz) src (Suc (length xs))"
  shows "\<exists>m'. strlcat m dest src sz = Some (of_nat (length ys) + of_nat (length xs), m')
    \<and> cstr m' dest (take (unat sz - 1) (ys @ xs)) \<and> writes_only m m' dest (unat sz)"
proof -
  let ?l = "of_nat (length ys) :: u64"
  have l: "unat ?l = length ys" using dest(3) unat_less_64 [of sz] by (simp add: unat_of_nat)
  have ys: "bytes_at m dest ys" "0 \<notin> set ys" "m (dest + ?l) = 0"
    using dest(2) cstr_append [of m dest ys "[]"] by auto
  have dlen: "strnlen m dest sz = ?l" using strnlen_cstr [OF ys dest(3)] dest(1) by (simp add: strnlen_def)
  have lt: "?l < sz" using l dest(3) by (simp add: word_less_nat_alt)
  have "unat (sz - ?l) = unat sz - unat ?l" by (rule unat_sub) (rule less_imp_le [OF lt])
  then have sub: "unat (sz - ?l) = unat sz - length ys" unfolding l .
  then have pos: "0 < sz - ?l" using dest(3) by (simp add: word_less_nat_alt)
  have "unat (dest + ?l) = unat dest + length ys" using fit dest(3) by (intro unat_ptr_add) simp
  then have nn: "dest + ?l \<noteq> NULL" using dest(1) by (metis add_is_0 unat_eq_zero)
  have dj: "disjoint_from (dest + ?l) (unat (sz - ?l)) src (Suc (length xs))"
    unfolding sub by (rule disjoint_from_tail [OF disj _ fit]) (use dest(3) in simp)
  obtain m' where m': "strlcpy m (dest + ?l) src (sz - ?l) = Some (of_nat (length xs), m')"
    "cstr m' (dest + ?l) (take (unat (sz - ?l) - 1) xs)" "writes_only m m' (dest + ?l) (unat (sz - ?l))"
    using strlcpy_spec [OF src nn pos len dj] by blast
  have inside: "in_range dest (unat sz) x" if "in_range (dest + ?l) (unat (sz - ?l)) x" for x
    using disjoint_from_tail [of dest "unat sz" x 1 "length ys"] fit dest(3) that sub
    by (auto simp: disjoint_from_def)
  then have w: "writes_only m m' dest (unat sz)" using m'(3) by (auto simp: writes_only_def)
  have keep: "m' (dest + of_nat i) = m (dest + of_nat i)" if "i < length ys" for i
  proof -
    have "\<not> in_range (dest + ?l) (unat (sz - ?l)) (dest + of_nat i)"
    proof
      assume "in_range (dest + ?l) (unat (sz - ?l)) (dest + of_nat i)"
      then obtain k where k: "k < unat sz - length ys" "dest + of_nat i = dest + ?l + of_nat k"
        using ptr_offset_iff [OF unat_less_64, of "dest + of_nat i - (dest + ?l)"] sub by (auto simp: in_range_def)
      then have "dest + of_nat i = dest + of_nat (length ys + k)" by (simp add: algebra_simps)
      then have "i = length ys + k"
        using k(1) that dest(3) unat_less_64 [of sz] by (subst (asm) ptr_add_inj) auto
      then show False using that by simp
    qed
    then show ?thesis using m'(3) by (auto simp: writes_only_def)
  qed
  have "bytes_at m' dest ys" using ys(1) keep by (auto simp: bytes_at_def)
  then have "cstr m' dest (ys @ take (unat (sz - ?l) - 1) xs)" using ys(2) m'(2) by (simp add: cstr_append)
  moreover have "take (unat sz - 1) (ys @ xs) = ys @ take (unat (sz - ?l) - 1) xs"
    using dest(3) sub by (simp add: take_append)
  moreover have "strlcat m dest src sz = Some (?l + of_nat (length xs), m')"
    using dlen lt strlen_cstr [OF src] m'(1) by (simp add: strlcat_def)
  ultimately show ?thesis using w by auto
qed

section \<open>Decimal conversion\<close>

definition digit_byte :: "nat \<Rightarrow> u8" where
  "digit_byte d = 48 + of_nat d"

definition is_digit :: "u8 \<Rightarrow> bool" where
  "is_digit c \<longleftrightarrow> 48 \<le> c \<and> c \<le> 57"

definition dec_value :: "int \<Rightarrow> nat list \<Rightarrow> int" where
  "dec_value a ds = foldl (\<lambda>v d. v * 10 + int d) a ds"

definition clamp_int :: "int \<Rightarrow> int" where
  "clamp_int v = max INT_MIN (min INT_MAX v)"

lemma digit_byte: "d < 10 \<Longrightarrow> is_digit (digit_byte d) \<and> uint (digit_byte d) - 48 = int d"
proof -
  assume "d < 10"
  then have "d = 0 \<or> d = 1 \<or> d = 2 \<or> d = 3 \<or> d = 4 \<or> d = 5 \<or> d = 6 \<or> d = 7 \<or> d = 8 \<or> d = 9" by presburger
  then show ?thesis by (elim disjE) (simp_all add: is_digit_def digit_byte_def)
qed

lemma dec_value_mono: "0 \<le> a \<Longrightarrow> a \<le> dec_value a ds"
proof (induction ds arbitrary: a)
  case (Cons d ds)
  then have "a * 10 + int d \<le> dec_value a (d # ds)" using Cons.IH [of "a * 10 + int d"] by (simp add: dec_value_def)
  then show ?case using Cons.prems by linarith
qed (simp add: dec_value_def)

lemma atoi_loop_spec:
  assumes "bytes_at m s (map digit_byte ds @ [z])" and "\<forall>d \<in> set ds. d < 10" and "\<not> is_digit z"
    and "0 \<le> res" and "res \<le> INT_MAX" and sign: "sign = 1 \<or> sign = - 1"
  shows "atoi_loop m s sign res = Some (clamp_int (sign * dec_value res ds))"
  using assms(1-5)
proof (induction ds arbitrary: s res)
  case Nil
  then show ?case
    using sign by (auto simp: bytes_at_Cons atoi_loop.simps [of m s] is_digit_def dec_value_def clamp_int_def INT_MAX_def INT_MIN_def)
next
  case (Cons d ds)
  have s: "m s = digit_byte d" "bytes_at m (s + 1) (map digit_byte ds @ [z])"
    using Cons.prems(1) by (auto simp: bytes_at_Cons)
  have d: "d < 10" "is_digit (digit_byte d)" "uint (digit_byte d) - 48 = int d"
    using Cons.prems(2) digit_byte by auto
  let ?v = "res * 10 + int d"
  have le: "?v \<le> dec_value res (d # ds)"
    using dec_value_mono [of ?v ds] Cons.prems(4) by (simp add: dec_value_def)
  have div: "res > (INT_MAX - int d) div 10 \<longleftrightarrow> ?v > INT_MAX" by (simp add: INT_MAX_def) linarith
  show ?case
  proof (cases "?v > INT_MAX")
    case True
    then have "atoi_loop m s sign res = Some (if sign > 0 then INT_MAX else INT_MIN)"
      using d div by (simp add: atoi_loop.simps [of m s] s is_digit_def Let_def)
    then show ?thesis using True le sign by (auto simp: clamp_int_def INT_MAX_def INT_MIN_def)
  next
    case False
    then have "atoi_loop m s sign res = atoi_loop m (s + 1) sign ?v"
      using d div by (simp add: atoi_loop.simps [of m s] s is_digit_def Let_def)
    also have "\<dots> = Some (clamp_int (sign * dec_value ?v ds))"
      using False Cons.prems by (intro Cons.IH s(2)) auto
    finally show ?thesis by (simp add: dec_value_def)
  qed
qed

lemma skip_spaces_spec: "bytes_at m s (replicate k 32 @ [z]) \<Longrightarrow> z \<noteq> 32 \<Longrightarrow> skip_spaces m s = Some (s + of_nat k)"
  by (induction k arbitrary: s) (auto simp: bytes_at_Cons skip_spaces.simps [of m] algebra_simps)

lemma bytes_at_append: "bytes_at m s (xs @ ys) \<longleftrightarrow> bytes_at m s xs \<and> bytes_at m (s + of_nat (length xs)) ys"
  by (induction xs arbitrary: s) (auto simp: bytes_at_Cons algebra_simps, simp add: bytes_at_def)


section \<open>Substring search\<close>

lemma memcmp_prefix:
  "cstr m p xs \<Longrightarrow> cstr m q ys \<Longrightarrow> memcmp_loop m (length ys) p q = 0 \<longleftrightarrow> take (length ys) xs = ys"
proof (induction ys arbitrary: p q xs)
  case (Cons y ys)
  then show ?case by (cases xs) (auto simp: word_uint_eq_iff [symmetric] uint_0_iff)
qed simp

lemma find_map: "find P (map f xs) = map_option f (find (P \<circ> f) xs)"
  by (induction xs) auto

lemma strstr_loop_spec:
  assumes "cstr m needle ys" and "needle \<noteq> NULL" and "0 < length ys" and "length ys < 2 ^ 64"
    and "cstr m h xs" and "h \<noteq> NULL" and "unat h + length xs < 2 ^ 64"
  shows "strstr_loop m h needle (of_nat (length ys)) =
    Some (case find (\<lambda>i. take (length ys) (drop i xs) = ys) [0..<length xs] of None \<Rightarrow> NULL | Some i \<Rightarrow> h + of_nat i)"
  using assms(5-7)
proof (induction xs arbitrary: h)
  case Nil
  then show ?case by (simp add: strstr_loop.simps [of m h])
next
  case (Cons x xs)
  have n: "unat (of_nat (length ys) :: u64) = length ys" "of_nat (length ys) \<noteq> (0 :: u64)"
    using assms(3,4) by (simp_all add: unat_of_nat word_unat_eq_iff)
  have cmp: "memcmp m h needle (of_nat (length ys)) = 0 \<longleftrightarrow> take (length ys) (x # xs) = ys"
    using memcmp_prefix [OF Cons.prems(1) assms(1)] n assms(2) Cons.prems(2) by (simp add: memcmp_def)
  have h1: "unat (h + 1) = unat h + 1" using unat_ptr_add [of h 1] Cons.prems(3) by simp
  then have "h + 1 \<noteq> NULL" by auto
  then have IH: "strstr_loop m (h + 1) needle (of_nat (length ys)) =
      Some (case find (\<lambda>i. take (length ys) (drop i xs) = ys) [0..<length xs] of None \<Rightarrow> NULL | Some i \<Rightarrow> h + 1 + of_nat i)"
    using Cons.prems h1 by (intro Cons.IH) auto
  have upt: "[0..<length (x # xs)] = 0 # map Suc [0..<length xs]" by (simp add: upt_conv_Cons map_Suc_upt del: upt_Suc)
  show ?case
    unfolding upt using cmp IH Cons.prems(1)
    by (simp add: strstr_loop.simps [of m h] find_map comp_def) (simp split: option.splits add: algebra_simps)
qed

section \<open>What the routines promise\<close>

fun poke :: "memory \<Rightarrow> ptr \<Rightarrow> u8 list \<Rightarrow> memory" where
  "poke m p [] = m"
| "poke m p (x # xs) = poke (m(p := x)) (p + 1) xs"

text \<open>C5. \<open>memmove\<close> is right for every overlap of its two ranges: each destination byte gets the source byte
  of the memory before the call, and no other byte changes.\<close>

theorem memmove_correct:
  assumes "dest \<noteq> NULL" and "src \<noteq> NULL" and "unat dest + unat n \<le> 2 ^ 64" and "unat src + unat n \<le> 2 ^ 64"
  shows "memmove m dest src n = (\<lambda>x. if in_range dest (unat n) x then m (src + (x - dest)) else m x)"
  by (rule memmove_spec [OF assms])

theorem memmove_correct_witness:
  "memmove (poke (\<lambda>_. 0) 100 [1, 2, 3, 4, 5]) 102 100 4 105 = 4"
  using memmove_correct [of 102 100 4 "poke (\<lambda>_. 0) 100 [1, 2, 3, 4, 5]"] by (simp add: in_range_def)

text \<open>\<open>strcmp\<close> on two terminated strings always returns; the sign of the result is the lexicographic
  order on unsigned bytes, and it is 0 exactly on equal strings.\<close>

theorem strcmp_correct:
  assumes "s1 \<noteq> NULL" and "s2 \<noteq> NULL" and "cstr m s1 xs" and "cstr m s2 ys"
  shows "\<exists>d. strcmp m s1 s2 = Some d \<and> (d = 0 \<longleftrightarrow> xs = ys) \<and> (d < 0 \<longleftrightarrow> (xs, ys) \<in> lexord {(a, b). a < b})"
  using strcmp_loop_cstr [OF assms(3,4)] assms(1,2) by (simp add: strcmp_def)

theorem strcmp_correct_witness:
  "\<exists>d. strcmp (poke (poke (\<lambda>_. 0) 10 [97, 98]) 20 [97, 200, 1]) 10 20 = Some d \<and> d < 0"
  using strcmp_correct [of 10 20 "poke (poke (\<lambda>_. 0) 10 [97, 98]) 20 [97, 200, 1]" "[97, 98]" "[97, 200, 1]"] by auto

text \<open>\<open>strlcpy\<close> into a disjoint buffer returns the length of the source, leaves in the buffer the longest
  prefix of the source that fits, always terminated, and writes nothing outside the buffer.\<close>

theorem strlcpy_correct:
  assumes "src \<noteq> NULL" and "cstr m src xs" and "dest \<noteq> NULL" and "0 < sz" and "length xs < 2 ^ 64"
    and "disjoint_from dest (unat sz) src (Suc (length xs))"
  shows "\<exists>m'. strlcpy m dest src sz = Some (of_nat (length xs), m')
    \<and> cstr m' dest (take (unat sz - 1) xs) \<and> writes_only m m' dest (unat sz)"
  by (rule strlcpy_spec [OF assms])

lemma disjoint_low: "unat p + n \<le> unat q \<Longrightarrow> unat q + k \<le> 2 ^ 64 \<Longrightarrow> disjoint_from p n q k"
proof -
  assume a: "unat p + n \<le> unat q" "unat q + k \<le> 2 ^ 64"
  have "n \<le> unat (q + of_nat i - p)" if "i < k" for i
  proof -
    have "unat (q + of_nat i) = unat q + i" using a that by (intro unat_ptr_add) simp
    moreover from this have "p \<le> q + of_nat i" using a by (simp add: word_le_nat_alt)
    ultimately show ?thesis using a by (simp add: unat_sub)
  qed
  then show ?thesis by (auto simp: disjoint_from_def in_range_def not_less)
qed

theorem strlcpy_correct_witness:
  "\<exists>m'. strlcpy (poke (\<lambda>_. 0) 50 [104, 101, 108, 108, 111]) 10 50 4 = Some (5, m') \<and> cstr m' 10 [104, 101, 108]"
  using strlcpy_correct [of 50 "poke (\<lambda>_. 0) 50 [104, 101, 108, 108, 111]" "[104, 101, 108, 108, 111]" 10 4]
    disjoint_low [of 10 4 50 "Suc (length [1, 2, 3, 4, 5 :: nat])"] by auto

text \<open>\<open>strlcat\<close> appends: the buffer then holds the longest prefix of the concatenation that fits, always
  terminated, nothing outside the buffer is written, and the result is the length the
  concatenation would have had.\<close>

theorem strlcat_correct:
  assumes "src \<noteq> NULL" and "cstr m src xs" and "dest \<noteq> NULL" and "cstr m dest ys" and "length ys < unat sz"
    and "length xs < 2 ^ 64" and "unat dest + unat sz \<le> 2 ^ 64"
    and "disjoint_from dest (unat sz) src (Suc (length xs))"
  shows "\<exists>m'. strlcat m dest src sz = Some (of_nat (length ys) + of_nat (length xs), m')
    \<and> cstr m' dest (take (unat sz - 1) (ys @ xs)) \<and> writes_only m m' dest (unat sz)"
  by (rule strlcat_spec [OF assms])

theorem strlcat_correct_witness:
  "\<exists>m'. strlcat (poke (poke (\<lambda>_. 0) 50 [99, 100, 101]) 10 [97, 98]) 10 50 5 = Some (5, m') \<and> cstr m' 10 [97, 98, 99, 100]"
  using strlcat_correct [of 50 "poke (poke (\<lambda>_. 0) 50 [99, 100, 101]) 10 [97, 98]" "[99, 100, 101]" 10 "[97, 98]" 5]
    disjoint_low [of 10 5 50 "Suc (length [1, 2, 3 :: nat])"] by auto

text \<open>\<open>strstr\<close> returns the first position at which the needle occurs in the haystack, the haystack itself
  for an empty needle, and null when there is no occurrence.\<close>

theorem strstr_correct:
  assumes "cstr m h xs" and "h \<noteq> NULL" and "cstr m needle ys" and "needle \<noteq> NULL"
    and "length ys < 2 ^ 64" and "unat h + length xs < 2 ^ 64"
  shows "strstr m h needle = Some (if ys = [] then h else
    case find (\<lambda>i. take (length ys) (drop i xs) = ys) [0..<length xs] of None \<Rightarrow> NULL | Some i \<Rightarrow> h + of_nat i)"
proof (cases "ys = []")
  case True
  then show ?thesis using assms strlen_cstr [OF assms(4,3)] by (simp add: strstr_def)
next
  case False
  have "(of_nat (length ys) :: u64) \<noteq> 0" using False assms(5) by (simp add: word_unat_eq_iff unat_of_nat)
  then show ?thesis
    using strstr_loop_spec [OF assms(3,4) _ assms(5,1,2,6)] strlen_cstr [OF assms(4,3)] False assms(2,4)
    by (simp add: strstr_def)
qed

theorem strstr_correct_witness:
  "strstr (poke (poke (\<lambda>_. 0) 10 [97, 97, 98]) 20 [97, 98]) 10 20 = Some 11"
  using strstr_correct [of "poke (poke (\<lambda>_. 0) 10 [97, 97, 98]) 20 [97, 98]" 10 "[97, 97, 98]" 20 "[97, 98]"]
  by (simp add: upt_rec)

text \<open>\<open>atoi\<close> skips spaces, accepts a sign and reads the decimal digits up to the first other byte; the
  value saturates at the bounds of \<open>int\<close> instead of overflowing.\<close>

theorem atoi_correct:
  assumes "s \<noteq> NULL" and "bytes_at m s (replicate k 32 @ sg @ map digit_byte ds @ [z])"
    and "sg = [] \<or> sg = [45] \<or> sg = [43]" and "\<forall>d \<in> set ds. d < 10" and "\<not> is_digit z"
    and "z \<notin> {32, 43, 45}"
  shows "atoi m s = Some (clamp_int ((if sg = [45] then - 1 else 1) * dec_value 0 ds))"
proof -
  let ?p = "s + of_nat k"
  have dig: "digit_byte d \<notin> {32, 43, 45}" if "d \<in> set ds" for d
    using digit_byte [of d] assms(4) that by (auto simp: is_digit_def)
  have at: "bytes_at m s (replicate k 32)" "bytes_at m ?p (sg @ map digit_byte ds @ [z])"
    using assms(2) by (simp_all add: bytes_at_append)
  obtain c cs where c: "sg @ map digit_byte ds @ [z] = c # cs" by (cases sg; cases ds) auto
  have "c \<noteq> 32" using c assms(3,6) dig by (cases sg; cases ds) auto
  moreover have "bytes_at m s (replicate k 32 @ [c])"
    using at c by (simp add: bytes_at_append bytes_at_Cons) (simp add: bytes_at_def)
  ultimately have sk: "skip_spaces m s = Some ?p" by (intro skip_spaces_spec)
  have loop: "atoi_loop m q sign 0 = Some (clamp_int (sign * dec_value 0 ds))"
    if "bytes_at m q (map digit_byte ds @ [z])" "sign = 1 \<or> sign = - 1" for q sign
    using that assms(4,5) by (intro atoi_loop_spec) (auto simp: INT_MAX_def)
  show ?thesis
  proof (cases "sg = []")
    case True
    then have "m ?p = c" "c \<notin> {43, 45}" using at(2) c dig assms(6) by (cases ds; auto simp: bytes_at_Cons)+
    then show ?thesis using True loop [of ?p 1] at(2) sk assms(1) by (simp add: atoi_def)
  next
    case False
    then have "bytes_at m (?p + 1) (map digit_byte ds @ [z])" "m ?p = hd sg"
      using at(2) assms(3) by (auto simp: bytes_at_Cons)
    then show ?thesis using loop [of "?p + 1"] sk assms(1,3) False by (auto simp: atoi_def)
  qed
qed

theorem atoi_correct_witness:
  "atoi (poke (\<lambda>_. 0) 10 [32, 45, 52, 50]) 10 = Some (- 42)"
  using atoi_correct [of 10 "poke (\<lambda>_. 0) 10 [32, 45, 52, 50]" 1 "[45]" "[4, 2]" 0]
  by (simp add: bytes_at_Cons digit_byte_def is_digit_def dec_value_def clamp_int_def INT_MAX_def INT_MIN_def)
    (simp add: bytes_at_def)

end
