(* ===== verification/Buffer_Cache.thy ===== *)
theory Buffer_Cache
  imports Nexs_Prelude "HOL-Library.Multiset"
begin

text \<open>
  The block buffer cache (\<open>kernel/mm/buffer.c\<close>).  The cache keeps its buffers in a hash table and
  in an LRU list; both hold pointers into one store of buffers.  \<open>buffer_lock\<close> protects these
  structures but is dropped around disk I/O, so each operation is split at the points where the
  lock is released: a function per critical section, the whole operation as their composition,
  and a step relation in which the sections of different callers interleave.  The page a buffer
  owns is represented by its contents; the block device is an array of blocks.
\<close>

type_synonym content = "u8 list"

record block_buffer =
  b_block :: u64
  b_data :: content
  b_flags :: u32
  b_ref :: u32

definition BUFFER_UPTODATE :: u32 where "BUFFER_UPTODATE = 1"
definition BUFFER_DIRTY :: u32 where "BUFFER_DIRTY = 2"
definition HASH_BUCKETS :: u64 where "HASH_BUCKETS = 64"
definition MAX_BUFFERS :: int where "MAX_BUFFERS = 1024"
definition MAX_DIRTY :: nat where "MAX_DIRTY = 64"

record bcache =
  bufs :: "ptr \<Rightarrow> block_buffer option"
  lru_list :: "ptr list"
  hash_table :: "nat \<Rightarrow> ptr list"
  total_buffers :: int
  disk :: "u64 \<Rightarrow> content"

definition hash_block :: "u64 \<Rightarrow> nat" where
  "hash_block block = unat (block mod HASH_BUCKETS)"

definition buffer_init :: "(u64 \<Rightarrow> content) \<Rightarrow> bcache" where
  "buffer_init d = \<lparr>bufs = (\<lambda>_. None), lru_list = [], hash_table = (\<lambda>_. []), total_buffers = 0, disk = d\<rparr>"

definition holds_block :: "bcache \<Rightarrow> u64 \<Rightarrow> ptr \<Rightarrow> bool" where
  "holds_block s block p \<longleftrightarrow> (case bufs s p of None \<Rightarrow> False | Some b \<Rightarrow> b_block b = block)"

definition lookup :: "u64 \<Rightarrow> bcache \<Rightarrow> ptr option" where
  "lookup block s = find (holds_block s block) (hash_table s (hash_block block))"

definition upd_buf :: "ptr \<Rightarrow> (block_buffer \<Rightarrow> block_buffer) \<Rightarrow> bcache \<Rightarrow> bcache" where
  "upd_buf p f s = s\<lparr>bufs := (bufs s)(p := map_option f (bufs s p))\<rparr>"

definition is_dirty :: "block_buffer \<Rightarrow> bool" where
  "is_dirty b \<longleftrightarrow> b_flags b AND BUFFER_DIRTY \<noteq> 0"

section \<open>Eviction\<close>

definition evictable :: "bcache \<Rightarrow> ptr \<Rightarrow> bool" where
  "evictable s p \<longleftrightarrow> (case bufs s p of None \<Rightarrow> False | Some b \<Rightarrow> b_ref b = 0 \<and> \<not> is_dirty b)"

definition drop_buffer :: "ptr \<Rightarrow> bcache \<Rightarrow> bcache" where
  "drop_buffer p s =
     (case bufs s p of None \<Rightarrow> s
      | Some b \<Rightarrow>
         s\<lparr>hash_table := (hash_table s)(hash_block (b_block b) := remove1 p (hash_table s (hash_block (b_block b)))),
           lru_list := remove1 p (lru_list s),
           bufs := (bufs s)(p := None),
           total_buffers := total_buffers s - 1\<rparr>)"

fun evict_loop :: "ptr list \<Rightarrow> bcache \<Rightarrow> bcache" where
  "evict_loop [] s = s"
| "evict_loop (p # ps) s =
     (if total_buffers s \<le> MAX_BUFFERS div 2 then s
      else evict_loop ps (if evictable s p then drop_buffer p s else s))"

definition evict_buffers :: "bcache \<Rightarrow> bcache" where
  "evict_buffers s = evict_loop (rev (lru_list s)) s"

section \<open>Reference counts and writeback\<close>

definition ref_get :: "block_buffer \<Rightarrow> block_buffer" where
  "ref_get b = b\<lparr>b_ref := b_ref b + 1\<rparr>"

definition ref_drop :: "block_buffer \<Rightarrow> block_buffer" where
  "ref_drop b = (if b_ref b > 0 then b\<lparr>b_ref := b_ref b - 1\<rparr> else b)"

definition buffer_put :: "ptr \<Rightarrow> bcache \<Rightarrow> bcache" where
  "buffer_put p s = (if p = NULL then s else upd_buf p ref_drop s)"

definition collect_one :: "ptr \<Rightarrow> bcache \<times> ptr list \<Rightarrow> bcache \<times> ptr list" where
  "collect_one p = (\<lambda>(s, ds).
     case bufs s p of None \<Rightarrow> (s, ds)
     | Some b \<Rightarrow> if is_dirty b \<and> length ds < MAX_DIRTY then (upd_buf p ref_get s, ds @ [p]) else (s, ds))"

definition sync_collect :: "bcache \<Rightarrow> bcache \<times> ptr list" where
  "sync_collect s = fold collect_one (lru_list s) (s, [])"

text \<open>The write of one dirty buffer; \<open>ok\<close> says whether \<open>block_write\<close> succeeded.\<close>

definition sync_write :: "bool \<Rightarrow> ptr \<Rightarrow> bcache \<Rightarrow> bcache" where
  "sync_write ok p s =
     (case bufs s p of None \<Rightarrow> s
      | Some b \<Rightarrow> if ok then s\<lparr>disk := (disk s)(b_block b := b_data b)\<rparr> else s)"

definition sync_done :: "bool \<Rightarrow> ptr \<Rightarrow> bcache \<Rightarrow> bcache" where
  "sync_done ok p s =
     upd_buf p (\<lambda>b. ref_drop (if ok then b\<lparr>b_flags := b_flags b AND NOT BUFFER_DIRTY\<rparr> else b)) s"

definition buffer_sync :: "(ptr \<Rightarrow> bool) \<Rightarrow> bcache \<Rightarrow> bcache" where
  "buffer_sync wok s =
     (let (s1, ds) = sync_collect s
      in fold (\<lambda>p s. sync_done (wok p) p (sync_write (wok p) p s)) ds s1)"

section \<open>Lookup and loading\<close>

datatype get_result = Hit ptr | Reserved | MustSync | Refused

definition get_hit :: "ptr \<Rightarrow> bcache \<Rightarrow> bcache" where
  "get_hit p s =
     upd_buf p ref_get (if p \<in> set (lru_list s) then s\<lparr>lru_list := p # remove1 p (lru_list s)\<rparr> else s)"

definition reserve_slot :: "bcache \<Rightarrow> bcache" where
  "reserve_slot s = s\<lparr>total_buffers := total_buffers s + 1\<rparr>"

definition release_slot :: "bcache \<Rightarrow> bcache" where
  "release_slot s = s\<lparr>total_buffers := total_buffers s - 1\<rparr>"

text \<open>The first critical section of \<open>buffer_get\<close>, up to the reservation, the hit, or the point where
  the lock is dropped to flush dirty buffers; and the section after that flush.\<close>

definition get_enter :: "u64 \<Rightarrow> bcache \<Rightarrow> get_result \<times> bcache" where
  "get_enter block s =
     (case lookup block s of
        Some p \<Rightarrow> (Hit p, get_hit p s)
      | None \<Rightarrow>
          if total_buffers s \<ge> MAX_BUFFERS
          then let s1 = evict_buffers s
               in if total_buffers s1 \<ge> MAX_BUFFERS then (MustSync, s1) else (Reserved, reserve_slot s1)
          else (Reserved, reserve_slot s))"

definition get_retry :: "bcache \<Rightarrow> get_result \<times> bcache" where
  "get_retry s =
     (let s1 = evict_buffers s
      in if total_buffers s1 \<ge> MAX_BUFFERS then (Refused, s1) else (Reserved, reserve_slot s1))"

text \<open>The last critical section: the block has been read into a new buffer \<open>p\<close>.\<close>

definition get_insert :: "u64 \<Rightarrow> ptr \<Rightarrow> content \<Rightarrow> bcache \<Rightarrow> ptr \<times> bcache" where
  "get_insert block p data s =
     (case lookup block s of
        Some q \<Rightarrow> (q, upd_buf q ref_get (release_slot s))
      | None \<Rightarrow>
          (p, s\<lparr>bufs := (bufs s)(p \<mapsto> \<lparr>b_block = block, b_data = data, b_flags = BUFFER_UPTODATE, b_ref = 1\<rparr>),
                hash_table := (hash_table s)(hash_block block := p # hash_table s (hash_block block)),
                lru_list := p # lru_list s\<rparr>))"

text \<open>The whole operation without interference.  \<open>alloc\<close> is the buffer that \<open>kmalloc\<close> and
  \<open>pmm_alloc_page\<close> provide (\<open>None\<close> when either fails), \<open>rok\<close> says whether \<open>block_read\<close>
  succeeded.\<close>

definition get_load :: "ptr option \<Rightarrow> bool \<Rightarrow> u64 \<Rightarrow> bcache \<Rightarrow> ptr \<times> bcache" where
  "get_load alloc rok block s =
     (case alloc of
        None \<Rightarrow> (NULL, release_slot s)
      | Some p \<Rightarrow> if rok then get_insert block p (disk s block) s else (NULL, release_slot s))"

definition buffer_get :: "ptr option \<Rightarrow> bool \<Rightarrow> (ptr \<Rightarrow> bool) \<Rightarrow> u64 \<Rightarrow> bcache \<Rightarrow> ptr \<times> bcache" where
  "buffer_get alloc rok wok block s =
     (case get_enter block s of
        (Hit p, s1) \<Rightarrow> (p, s1)
      | (Reserved, s1) \<Rightarrow> get_load alloc rok block s1
      | (_, s1) \<Rightarrow>
          (case get_retry (buffer_sync wok s1) of
             (Reserved, s2) \<Rightarrow> get_load alloc rok block s2
           | (_, s2) \<Rightarrow> (NULL, s2)))"

section \<open>The structure of the cache\<close>

definition blk_of :: "bcache \<Rightarrow> ptr \<Rightarrow> u64 option" where
  "blk_of s p = map_option b_block (bufs s p)"

text \<open>\<open>n\<close> is the number of slots reserved for loads that have not finished.\<close>

definition cache_wf :: "nat \<Rightarrow> bcache \<Rightarrow> bool" where
  "cache_wf n s \<longleftrightarrow> distinct (lru_list s) \<and> set (lru_list s) = dom (blk_of s)
     \<and> (\<forall>k. distinct (hash_table s k))
     \<and> (\<forall>k p. p \<in> set (hash_table s k) \<longleftrightarrow> (\<exists>b. blk_of s p = Some b \<and> hash_block b = k))
     \<and> (\<forall>p q b. blk_of s p = Some b \<longrightarrow> blk_of s q = Some b \<longrightarrow> p = q)
     \<and> total_buffers s = int (length (lru_list s)) + int n \<and> total_buffers s \<le> MAX_BUFFERS"

lemma blk_of_total [simp]: "blk_of (s\<lparr>total_buffers := n\<rparr>) = blk_of s" "blk_of (s\<lparr>disk := d\<rparr>) = blk_of s"
  by (simp_all add: blk_of_def fun_eq_iff)

lemma dom_blk_of: "dom (blk_of s) = dom (bufs s)"
  by (auto simp: blk_of_def dom_def)

lemma find_unique:
  assumes "\<And>x y. x \<in> set xs \<Longrightarrow> y \<in> set xs \<Longrightarrow> P x \<Longrightarrow> P y \<Longrightarrow> x = y"
  shows "find P xs = Some p \<longleftrightarrow> p \<in> set xs \<and> P p"
  using assms by (induction xs) auto

lemma lookup_iff:
  assumes "cache_wf n s"
  shows "lookup block s = Some p \<longleftrightarrow> blk_of s p = Some block"
proof -
  have h: "holds_block s block p \<longleftrightarrow> blk_of s p = Some block" for p
    by (auto simp: holds_block_def blk_of_def split: option.splits)
  have "lookup block s = Some p \<longleftrightarrow> p \<in> set (hash_table s (hash_block block)) \<and> holds_block s block p"
    unfolding lookup_def using assms by (intro find_unique) (auto simp: h cache_wf_def)
  then show ?thesis using assms by (auto simp: h cache_wf_def)
qed

lemma lookup_None: "cache_wf n s \<Longrightarrow> lookup block s = None \<longleftrightarrow> (\<forall>p. blk_of s p \<noteq> Some block)"
  using lookup_iff by (metis not_None_eq)

lemma cache_wf_cong:
  "blk_of s' = blk_of s \<Longrightarrow> lru_list s' = lru_list s \<Longrightarrow> hash_table s' = hash_table s \<Longrightarrow>
   total_buffers s' = total_buffers s \<Longrightarrow> cache_wf n s' = cache_wf n s"
  by (simp add: cache_wf_def)

lemma upd_buf_same [simp]: "lru_list (upd_buf p f s) = lru_list s" "hash_table (upd_buf p f s) = hash_table s"
    "total_buffers (upd_buf p f s) = total_buffers s" "disk (upd_buf p f s) = disk s"
  by (simp_all add: upd_buf_def)

lemma blk_of_upd: "(\<And>b. b_block (f b) = b_block b) \<Longrightarrow> blk_of (upd_buf p f s) = blk_of s"
  by (auto simp: blk_of_def upd_buf_def option.map_comp comp_def intro!: ext)

lemma upd_buf_wf: "cache_wf n s \<Longrightarrow> (\<And>b. b_block (f b) = b_block b) \<Longrightarrow> cache_wf n (upd_buf p f s)"
  using cache_wf_cong [of "upd_buf p f s" s n] blk_of_upd by simp

lemma ref_block [simp]: "b_block (ref_get b) = b_block b" "b_block (ref_drop b) = b_block b"
  by (simp_all add: ref_get_def ref_drop_def)

lemma drop_buffer_wf:
  assumes wf: "cache_wf n s"
  shows "cache_wf n (drop_buffer p s)"
proof (cases "bufs s p")
  case (Some b)
  let ?s = "drop_buffer p s"
  have lru: "p \<in> set (lru_list s)" using wf Some by (auto simp: cache_wf_def blk_of_def)
  then have len: "length (lru_list s) = Suc (length (remove1 p (lru_list s)))"
    by (metis length_remove1 length_pos_if_in_set Suc_pred')
  have blk: "blk_of ?s = (blk_of s)(p := None)" using Some by (auto simp: blk_of_def drop_buffer_def)
  have lru': "lru_list ?s = remove1 p (lru_list s)" "total_buffers ?s = total_buffers s - 1"
    using Some by (simp_all add: drop_buffer_def)
  have hash: "distinct (hash_table ?s k)" "q \<in> set (hash_table ?s k) \<longleftrightarrow> q \<in> set (hash_table s k) \<and> q \<noteq> p" for q k
    using Some wf by (auto simp: drop_buffer_def cache_wf_def blk_of_def)
  note W = wf [unfolded cache_wf_def]
  show ?thesis
    unfolding cache_wf_def lru' blk
  proof (intro conjI allI impI)
    show "distinct (remove1 p (lru_list s))" "set (remove1 p (lru_list s)) = dom ((blk_of s)(p := None))"
      using W by auto
    show "distinct (hash_table ?s k)" for k by (rule hash)
    show "q \<in> set (hash_table ?s k) \<longleftrightarrow> (\<exists>b. ((blk_of s)(p := None)) q = Some b \<and> hash_block b = k)" for q k
      using hash(2) [of q k] W by auto
    show "q = r" if "((blk_of s)(p := None)) q = Some b" "((blk_of s)(p := None)) r = Some b" for q r b
      using that W by (auto split: if_splits)
    show "total_buffers s - 1 = int (length (remove1 p (lru_list s))) + int n" "total_buffers s - 1 \<le> MAX_BUFFERS"
      using W len by simp_all
  qed
qed (use assms in \<open>simp add: drop_buffer_def\<close>)

text \<open>What eviction may change: it only drops unreferenced clean buffers.\<close>

definition only_drops :: "bcache \<Rightarrow> bcache \<Rightarrow> bool" where
  "only_drops s s' \<longleftrightarrow> disk s' = disk s \<and> total_buffers s' \<le> total_buffers s
     \<and> (\<forall>p. bufs s' p = bufs s p \<or> bufs s' p = None \<and> evictable s p)"

lemma drop_buffer_only: "evictable s p \<Longrightarrow> only_drops s (drop_buffer p s)"
  by (auto simp: only_drops_def drop_buffer_def evictable_def split: option.splits)

lemma only_drops_trans: "only_drops s s1 \<Longrightarrow> only_drops s1 s2 \<Longrightarrow> only_drops s s2"
proof -
  assume a: "only_drops s s1" and b: "only_drops s1 s2"
  have "bufs s2 p = bufs s p \<or> bufs s2 p = None \<and> evictable s p" for p
  proof (cases "bufs s1 p = bufs s p")
    case True
    then have "evictable s1 p = evictable s p" by (simp add: evictable_def)
    with True b show ?thesis unfolding only_drops_def by metis
  next
    case False
    then have "bufs s1 p = None" "evictable s p" using a unfolding only_drops_def by blast+
    with b show ?thesis unfolding only_drops_def by metis
  qed
  with a b show ?thesis by (simp add: only_drops_def)
qed

lemma evict_loop_ok: "cache_wf n s \<Longrightarrow> cache_wf n (evict_loop ps s) \<and> only_drops s (evict_loop ps s)"
proof (induction ps arbitrary: s)
  case Nil
  then show ?case by (simp add: only_drops_def)
next
  case (Cons p ps)
  have refl: "only_drops s s" by (simp add: only_drops_def)
  let ?s = "if evictable s p then drop_buffer p s else s"
  have "cache_wf n ?s" "only_drops s ?s" using Cons.prems drop_buffer_wf drop_buffer_only refl by auto
  then have "cache_wf n (evict_loop ps ?s) \<and> only_drops s (evict_loop ps ?s)"
    using Cons.IH [of ?s] only_drops_trans by blast
  then show ?case using Cons.prems refl by simp
qed

lemma evict_buffers_ok: "cache_wf n s \<Longrightarrow> cache_wf n (evict_buffers s) \<and> only_drops s (evict_buffers s)"
  unfolding evict_buffers_def by (rule evict_loop_ok)


lemma unat_of_nat_32: "n < 2 ^ 32 \<Longrightarrow> unat (of_nat n :: u32) = n"
  by (simp add: unat_of_nat)

section \<open>Interleavings\<close>

text \<open>The system: the cache, the number of loads in flight, and, for the accounting of references, the
  buffers that callers hold and those that running writebacks have pinned.\<close>

record bsys =
  cache :: bcache
  inflight :: nat
  held :: "ptr multiset"
  syncing :: "ptr multiset"

definition refs_out :: "bsys \<Rightarrow> nat" where
  "refs_out S = size (held S) + size (syncing S)"

inductive bstep :: "bsys \<Rightarrow> bsys \<Rightarrow> bool" where
  hit: "get_enter b (cache S) = (Hit p, c) \<Longrightarrow> refs_out S < 2 ^ 31 \<Longrightarrow>
    bstep S (S\<lparr>cache := c, held := add_mset p (held S)\<rparr>)"
| must_sync: "get_enter b (cache S) = (MustSync, c) \<Longrightarrow> bstep S (S\<lparr>cache := c\<rparr>)"
| reserved: "get_enter b (cache S) = (Reserved, c) \<Longrightarrow> bstep S (S\<lparr>cache := c, inflight := Suc (inflight S)\<rparr>)"
| retry: "get_retry (cache S) = (Reserved, c) \<Longrightarrow> bstep S (S\<lparr>cache := c, inflight := Suc (inflight S)\<rparr>)"
| refused: "get_retry (cache S) = (Refused, c) \<Longrightarrow> bstep S (S\<lparr>cache := c\<rparr>)"
| insert: "0 < inflight S \<Longrightarrow> bufs (cache S) p = None \<Longrightarrow> get_insert b p d (cache S) = (q, c) \<Longrightarrow> refs_out S < 2 ^ 31 \<Longrightarrow>
    bstep S (S\<lparr>cache := c, inflight := inflight S - 1, held := add_mset q (held S)\<rparr>)"
| failed: "0 < inflight S \<Longrightarrow> bstep S (S\<lparr>cache := release_slot (cache S), inflight := inflight S - 1\<rparr>)"
| put: "p \<in># held S \<Longrightarrow> p \<noteq> NULL \<Longrightarrow> bstep S (S\<lparr>cache := buffer_put p (cache S), held := held S - {#p#}\<rparr>)"
| modify: "p \<in># held S \<Longrightarrow>
    bstep S (S\<lparr>cache := upd_buf p (\<lambda>x. x\<lparr>b_data := d, b_flags := b_flags x OR BUFFER_DIRTY\<rparr>) (cache S)\<rparr>)"
| collect: "sync_collect (cache S) = (c, ds) \<Longrightarrow> refs_out S < 2 ^ 31 \<Longrightarrow>
    bstep S (S\<lparr>cache := c, syncing := syncing S + mset ds\<rparr>)"
| wback: "p \<in># syncing S \<Longrightarrow> bstep S (S\<lparr>cache := sync_write ok p (cache S)\<rparr>)"
| finish: "p \<in># syncing S \<Longrightarrow> bstep S (S\<lparr>cache := sync_done ok p (cache S), syncing := syncing S - {#p#}\<rparr>)"

inductive breach :: "bsys \<Rightarrow> bool" where
  init: "breach \<lparr>cache = buffer_init d, inflight = 0, held = {#}, syncing = {#}\<rparr>"
| step: "breach S \<Longrightarrow> bstep S S' \<Longrightarrow> breach S'"

text \<open>Every reference that is out is counted, and nothing else is.\<close>

definition refs_ok :: "ptr multiset \<Rightarrow> bcache \<Rightarrow> bool" where
  "refs_ok R s \<longleftrightarrow> set_mset R \<subseteq> dom (bufs s) \<and> size R < 2 ^ 32
     \<and> (\<forall>p b. bufs s p = Some b \<longrightarrow> b_ref b = of_nat (count R p))"

definition sys_wf :: "bsys \<Rightarrow> bool" where
  "sys_wf S \<longleftrightarrow> cache_wf (inflight S) (cache S) \<and> refs_ok (held S + syncing S) (cache S) \<and> refs_out S \<le> 2 ^ 31 + 64"

lemma refs_ok_unref:
  assumes "refs_ok R s" and "evictable s p"
  shows "p \<notin># R"
proof -
  obtain b where b: "bufs s p = Some b" "b_ref b = 0" using assms(2) by (auto simp: evictable_def split: option.splits)
  then have "(of_nat (count R p) :: u32) = 0" using assms(1) by (auto simp: refs_ok_def)
  moreover have "count R p < 2 ^ 32"
    using assms(1) count_le_size [of R p] by (auto simp: refs_ok_def)
  ultimately have "count R p = 0" by (metis unat_0 unat_of_nat_32)
  then show ?thesis by (simp add: not_in_iff)
qed

lemma refs_ok_drops:
  assumes "refs_ok R s" and "only_drops s s'"
  shows "refs_ok R s'"
proof -
  have "p \<in> dom (bufs s')" if "p \<in># R" for p
    using assms refs_ok_unref [OF assms(1), of p] that unfolding only_drops_def refs_ok_def
    by (metis (no_types, lifting) domIff subsetD)
  moreover have "bufs s p = Some b" if "bufs s' p = Some b" for p b
    using assms(2) that unfolding only_drops_def by (metis option.distinct(1))
  ultimately show ?thesis using assms(1) by (auto simp: refs_ok_def)
qed

lemma refs_ok_get:
  assumes "refs_ok R s" and "p \<in> dom (bufs s)" and "size R < 2 ^ 32 - 1"
  shows "refs_ok (add_mset p R) (upd_buf p ref_get s)"
  using assms by (auto simp: refs_ok_def upd_buf_def ref_get_def dom_def)

lemma refs_ok_put:
  assumes "refs_ok R s" and "p \<in># R" and "\<And>b. b_ref (f b) = b_ref b"
  shows "refs_ok (R - {#p#}) (upd_buf p (\<lambda>b. ref_drop (f b)) s)"
proof -
  obtain b where b: "bufs s p = Some b" "b_ref b = of_nat (count R p)" using assms by (auto simp: refs_ok_def)
  have c: "0 < count R p" "count R p < 2 ^ 32" using assms count_le_size [of R p] by (auto simp: refs_ok_def)
  then have "unat (b_ref b) = count R p" using b unat_of_nat_32 by metis
  then have "b_ref b > 0" using c by (simp add: word_less_nat_alt)
  then have "b_ref (ref_drop (f b)) = of_nat (count (R - {#p#}) p)"
    using c b assms(3) by (simp add: ref_drop_def of_nat_diff)
  then show ?thesis
    using assms(1) b by (auto simp: refs_ok_def upd_buf_def dom_def size_Diff_singleton_if dest: in_diffD)
qed


lemma refs_ok_cong:
  assumes "refs_ok R s" and "\<And>p. map_option b_ref (bufs s' p) = map_option b_ref (bufs s p)"
  shows "refs_ok R s'"
proof -
  have d: "dom (bufs s') = dom (bufs s)" using assms(2) by (auto simp: dom_def) (metis map_option_is_None option.distinct(1) not_None_eq)+
  have "b_ref b = of_nat (count R p)" if sp: "bufs s' p = Some b" for p b
  proof -
    obtain c where "bufs s p = Some c" "b_ref c = b_ref b" using assms(2) [of p] sp by (cases "bufs s p") auto
    then show ?thesis using assms(1) by (auto simp: refs_ok_def)
  qed
  then show ?thesis using assms(1) d by (auto simp: refs_ok_def)
qed

lemma collect_fold_ok:
  assumes "cache_wf n s" and "refs_ok (R + mset ds) s" and "size R + 64 < 2 ^ 32" and "length ds \<le> MAX_DIRTY"
    and "fold collect_one ps (s, ds) = (s', ds')"
  shows "cache_wf n s' \<and> refs_ok (R + mset ds') s' \<and> length ds' \<le> MAX_DIRTY"
  using assms
proof (induction ps arbitrary: s ds)
  case (Cons p ps)
  show ?case
  proof (cases "\<exists>b. bufs s p = Some b \<and> is_dirty b \<and> length ds < MAX_DIRTY")
    case True
    then have c: "collect_one p (s, ds) = (upd_buf p ref_get s, ds @ [p])" by (auto simp: collect_one_def)
    have "refs_ok (add_mset p (R + mset ds)) (upd_buf p ref_get s)"
      using True Cons.prems by (intro refs_ok_get) (auto simp: MAX_DIRTY_def)
    then show ?thesis
      using Cons.IH [of "upd_buf p ref_get s" "ds @ [p]"] upd_buf_wf [OF Cons.prems(1), of ref_get p] Cons.prems True c by auto
  next
    case False
    then have "collect_one p (s, ds) = (s, ds)" by (auto simp: collect_one_def split: option.splits)
    then show ?thesis using Cons.IH [OF Cons.prems(1-4)] Cons.prems(5) by simp
  qed
qed simp

lemma get_hit_wf:
  assumes "cache_wf n s" and "p \<in> dom (bufs s)"
  shows "cache_wf n (get_hit p s)" and "get_hit p s = upd_buf p ref_get (s\<lparr>lru_list := p # remove1 p (lru_list s)\<rparr>)"
proof -
  let ?s = "s\<lparr>lru_list := p # remove1 p (lru_list s)\<rparr>"
  have p: "p \<in> set (lru_list s)" using assms by (simp add: cache_wf_def dom_blk_of)
  have eq: "get_hit p s = upd_buf p ref_get ?s" using p by (simp add: get_hit_def)
  have b: "blk_of ?s = blk_of s" by (simp add: blk_of_def fun_eq_iff)
  have "length (lru_list s) = Suc (length (remove1 p (lru_list s)))"
    using p by (metis length_remove1 length_pos_if_in_set Suc_pred')
  moreover have "distinct (p # remove1 p (lru_list s))" "set (p # remove1 p (lru_list s)) = set (lru_list s)"
    using assms(1) p by (auto simp: cache_wf_def)
  ultimately have "cache_wf n ?s" using assms(1) unfolding cache_wf_def b by simp
  then show "cache_wf n (get_hit p s)" unfolding eq by (intro upd_buf_wf) auto
  show "get_hit p s = upd_buf p ref_get ?s" by (rule eq)
qed

lemma get_hit_ok:
  assumes "cache_wf n s" and "refs_ok R s" and "p \<in> dom (bufs s)" and "size R < 2 ^ 32 - 1"
  shows "cache_wf n (get_hit p s)" and "refs_ok (add_mset p R) (get_hit p s)"
proof -
  show "cache_wf n (get_hit p s)" by (rule get_hit_wf [OF assms(1,3)])
  have "refs_ok R (s\<lparr>lru_list := p # remove1 p (lru_list s)\<rparr>)" using assms(2) by (simp add: refs_ok_def)
  then show "refs_ok (add_mset p R) (get_hit p s)"
    unfolding get_hit_wf(2) [OF assms(1,3)] using assms by (intro refs_ok_get) auto
qed

lemma release_wf: "cache_wf (Suc n) s \<Longrightarrow> cache_wf n (release_slot s)"
  by (simp add: release_slot_def cache_wf_def)

lemma get_insert_new:
  assumes wf: "cache_wf (Suc n) s" and fresh: "bufs s p = None" and None: "lookup block s = None"
    and ins: "get_insert block p d s = (q, s')"
  shows "cache_wf n s'" and "q = p"
    and "bufs s' = (bufs s)(p \<mapsto> \<lparr>b_block = block, b_data = d, b_flags = BUFFER_UPTODATE, b_ref = 1\<rparr>)"
    and "disk s' = disk s"
proof -
  let ?b = "\<lparr>b_block = block, b_data = d, b_flags = BUFFER_UPTODATE, b_ref = 1\<rparr>"
  have q: "q = p" and s': "s' = s\<lparr>bufs := (bufs s)(p \<mapsto> ?b),
      hash_table := (hash_table s)(hash_block block := p # hash_table s (hash_block block)), lru_list := p # lru_list s\<rparr>"
    using ins None by (auto simp: get_insert_def)
  then show "q = p" "bufs s' = (bufs s)(p \<mapsto> ?b)" "disk s' = disk s" by simp_all
  have blk: "blk_of s' = (blk_of s)(p \<mapsto> block)" by (auto simp: s' blk_of_def)
  have np: "blk_of s p = None" using fresh by (simp add: blk_of_def)
  have nb: "blk_of s r \<noteq> Some block" for r using None lookup_None [OF wf] by blast
  note W = wf [unfolded cache_wf_def]
  show "cache_wf n s'"
    unfolding cache_wf_def blk
  proof (intro conjI allI impI)
    show "distinct (lru_list s')" "set (lru_list s') = dom ((blk_of s)(p \<mapsto> block))" using W np by (auto simp: s')
    show "distinct (hash_table s' k)" for k using W np by (auto simp: s')
    show "r \<in> set (hash_table s' k) \<longleftrightarrow> (\<exists>b. ((blk_of s)(p \<mapsto> block)) r = Some b \<and> hash_block b = k)" for r k
      using W np by (auto simp: s')
    show "a = r" if "((blk_of s)(p \<mapsto> block)) a = Some b" "((blk_of s)(p \<mapsto> block)) r = Some b" for a r b
      using that W nb by (auto split: if_splits)
    show "total_buffers s' = int (length (lru_list s')) + int n" "total_buffers s' \<le> MAX_BUFFERS"
      using W by (simp_all add: s')
  qed
qed

lemma get_insert_ok:
  assumes wf: "cache_wf (Suc n) s" and refs: "refs_ok R s" and fresh: "bufs s p = None" and sz: "size R < 2 ^ 32 - 1"
    and ins: "get_insert block p d s = (q, s')"
  shows "cache_wf n s'" and "refs_ok (add_mset q R) s'"
proof -
  have rel: "cache_wf n (release_slot s)" "refs_ok R (release_slot s)"
    using release_wf [OF wf] refs by (simp_all add: release_slot_def refs_ok_def)
  have "cache_wf n s' \<and> refs_ok (add_mset q R) s'"
  proof (cases "lookup block s")
    case (Some r)
    then have "blk_of s r = Some block" using lookup_iff [OF wf] by simp
    then have "r \<in> dom (bufs (release_slot s))" by (auto simp: blk_of_def release_slot_def)
    then show ?thesis
      using Some ins upd_buf_wf [OF rel(1), of ref_get r] refs_ok_get [OF rel(2) _ sz] by (auto simp: get_insert_def)
  next
    case None
    note N = get_insert_new [OF wf fresh None ins]
    have "count R p = 0" using refs fresh by (auto simp: refs_ok_def not_in_iff [symmetric])
    then show ?thesis using refs sz N by (auto simp: refs_ok_def dom_def)
  qed
  then show "cache_wf n s'" "refs_ok (add_mset q R) s'" by auto
qed

lemma sys_wf_drops:
  assumes "sys_wf S" and "cache_wf n (cache S)" and "only_drops (cache S) c"
  shows "refs_ok (held S + syncing S) c"
  using assms refs_ok_drops by (auto simp: sys_wf_def)

lemma reserve_wf: "cache_wf n s \<Longrightarrow> total_buffers s < MAX_BUFFERS \<Longrightarrow> cache_wf (Suc n) (reserve_slot s)"
  by (simp add: cache_wf_def reserve_slot_def)

lemma get_enter_ok:
  assumes wf: "cache_wf n s" and refs: "refs_ok R s" and sz: "size R < 2 ^ 32 - 1" and enter: "get_enter block s = (r, s')"
  shows "case r of Hit p \<Rightarrow> blk_of s p = Some block \<and> cache_wf n s' \<and> refs_ok (add_mset p R) s'
    | Reserved \<Rightarrow> cache_wf (Suc n) s' \<and> refs_ok R s' | _ \<Rightarrow> r = MustSync \<and> cache_wf n s' \<and> refs_ok R s'"
proof (cases "lookup block s")
  case (Some p)
  then have b: "blk_of s p = Some block" using lookup_iff [OF wf] by simp
  then have "p \<in> dom (bufs s)" by (auto simp: blk_of_def)
  from get_hit_ok [OF wf refs this sz] show ?thesis using Some enter b by (auto simp: get_enter_def)
next
  case None
  note E = evict_buffers_ok [OF wf]
  have "refs_ok R (evict_buffers s)" using E refs_ok_drops [OF refs] by blast
  moreover have "refs_ok R (reserve_slot x)" if "refs_ok R x" for x using that by (simp add: refs_ok_def reserve_slot_def)
  ultimately show ?thesis
    using None enter E refs reserve_wf [OF wf] reserve_wf [of n "evict_buffers s"] wf
    by (auto simp: get_enter_def Let_def not_le split: if_splits)
qed

lemma get_retry_ok:
  assumes wf: "cache_wf n s" and refs: "refs_ok R s" and "get_retry s = (r, s')"
  shows "r = Reserved \<and> cache_wf (Suc n) s' \<and> refs_ok R s' \<or> r = Refused \<and> cache_wf n s' \<and> refs_ok R s'"
proof -
  note E = evict_buffers_ok [OF wf]
  have "refs_ok R (evict_buffers s)" using E refs_ok_drops [OF refs] by blast
  moreover have "refs_ok R (reserve_slot x)" if "refs_ok R x" for x using that by (simp add: refs_ok_def reserve_slot_def)
  ultimately show ?thesis
    using assms(3) E reserve_wf [of n "evict_buffers s"] by (auto simp: get_retry_def Let_def not_le split: if_splits)
qed

lemma sync_write_same: "cache_wf n (sync_write ok p s) = cache_wf n s" "refs_ok R (sync_write ok p s) = refs_ok R s"
  by (simp_all add: sync_write_def cache_wf_def refs_ok_def split: option.split)

lemma sys_wf_init: "sys_wf \<lparr>cache = buffer_init d, inflight = 0, held = {#}, syncing = {#}\<rparr>"
  by (auto simp: sys_wf_def cache_wf_def refs_ok_def refs_out_def buffer_init_def blk_of_def MAX_BUFFERS_def)

lemma refs_bound: "sys_wf S \<Longrightarrow> size (held S + syncing S) < 2 ^ 32 - 1"
  by (simp add: sys_wf_def refs_out_def)

lemma sys_wf_step: "bstep S S' \<Longrightarrow> sys_wf S \<Longrightarrow> sys_wf S'"
proof (induction rule: bstep.induct)
  case (hit b S p c)
  then show ?case using get_enter_ok [of "inflight S" "cache S" "held S + syncing S" b "Hit p" c] refs_bound [OF hit(3)]
    by (auto simp: sys_wf_def refs_out_def)
next
  case (must_sync b S c)
  then show ?case using get_enter_ok [of "inflight S" "cache S" "held S + syncing S" b MustSync c] refs_bound [of S]
    by (auto simp: sys_wf_def refs_out_def)
next
  case (reserved b S c)
  then show ?case using get_enter_ok [of "inflight S" "cache S" "held S + syncing S" b Reserved c] refs_bound [of S]
    by (auto simp: sys_wf_def refs_out_def)
next
  case (retry S c)
  then show ?case using get_retry_ok [of "inflight S" "cache S" "held S + syncing S" Reserved c]
    by (auto simp: sys_wf_def refs_out_def)
next
  case (refused S c)
  then show ?case using get_retry_ok [of "inflight S" "cache S" "held S + syncing S" Refused c]
    by (auto simp: sys_wf_def refs_out_def)
next
  case (insert S p b d q c)
  then have "cache_wf (Suc (inflight S - 1)) (cache S)" by (simp add: sys_wf_def)
  then show ?case using get_insert_ok [of "inflight S - 1" "cache S" "held S + syncing S" p b d q c] refs_bound [of S] insert
    by (auto simp: sys_wf_def refs_out_def)
next
  case (failed S)
  then have "cache_wf (inflight S - 1) (release_slot (cache S))"
    by (simp add: sys_wf_def cache_wf_def release_slot_def of_nat_diff)
  then show ?case using failed by (simp add: sys_wf_def refs_ok_def refs_out_def release_slot_def)
next
  case (put p S)
  have "refs_ok (held S + syncing S - {#p#}) (upd_buf p ref_drop (cache S))"
    using refs_ok_put [of "held S + syncing S" "cache S" p "\<lambda>b. b"] put by (simp add: sys_wf_def)
  then show ?case
    using put upd_buf_wf [of "inflight S" "cache S" ref_drop p]
    by (auto simp: sys_wf_def refs_out_def buffer_put_def size_Diff_singleton)
next
  case (modify p S d)
  let ?f = "\<lambda>x. x\<lparr>b_data := d, b_flags := b_flags x OR BUFFER_DIRTY\<rparr>"
  have "refs_ok (held S + syncing S) (upd_buf p ?f (cache S))"
    by (rule refs_ok_cong [of _ "cache S"]) (use modify in \<open>auto simp: sys_wf_def upd_buf_def option.map_comp comp_def\<close>)
  then show ?case using modify upd_buf_wf [of "inflight S" "cache S" ?f p] by (simp add: sys_wf_def refs_out_def)
next
  case (collect S c ds)
  then show ?case
    using collect_fold_ok [of "inflight S" "cache S" "held S + syncing S" "[]" "lru_list (cache S)" c ds]
    by (auto simp: sys_wf_def refs_out_def sync_collect_def MAX_DIRTY_def add.assoc)
next
  case (wback p S ok)
  then show ?case by (simp add: sys_wf_def refs_out_def sync_write_same)
next
  case (finish p S ok)
  let ?f = "\<lambda>b. if ok then b\<lparr>b_flags := b_flags b AND NOT BUFFER_DIRTY\<rparr> else b"
  have "refs_ok (held S + syncing S - {#p#}) (sync_done ok p (cache S))"
    unfolding sync_done_def by (rule refs_ok_put) (use finish in \<open>auto simp: sys_wf_def\<close>)
  moreover have "cache_wf (inflight S) (sync_done ok p (cache S))"
    unfolding sync_done_def by (rule upd_buf_wf) (use finish in \<open>auto simp: sys_wf_def\<close>)
  ultimately show ?case using finish by (auto simp: sys_wf_def refs_out_def size_Diff_singleton)
qed


lemma breach_wf: "breach S \<Longrightarrow> sys_wf S"
  by (induction rule: breach.induct) (auto intro: sys_wf_init sys_wf_step)

text \<open>C6. Under every interleaving of lookups, loads, releases, modifications and writebacks the cache never
  exceeds its hard cap (reserved slots included), the hash table, the LRU list and the buffers agree,
  no block has two buffers, and a buffer that a caller holds or a writeback has pinned is never
  evicted.\<close>

theorem buffer_cache_safe:
  assumes "breach S"
  shows "cache_wf (inflight S) (cache S)
    \<and> int (length (lru_list (cache S))) + int (inflight S) \<le> MAX_BUFFERS
    \<and> (\<forall>p. p \<in># held S + syncing S \<longrightarrow> p \<in> set (lru_list (cache S)) \<and> \<not> evictable (cache S) p)"
proof -
  have S: "sys_wf S" by (rule breach_wf [OF assms])
  then have "set_mset (held S + syncing S) \<subseteq> set (lru_list (cache S))"
    by (auto simp: sys_wf_def refs_ok_def cache_wf_def dom_blk_of)
  moreover have "\<not> evictable (cache S) p" if "p \<in># held S + syncing S" for p
    using S refs_ok_unref [of "held S + syncing S" "cache S" p] that by (auto simp: sys_wf_def)
  ultimately show ?thesis using S by (auto simp: sys_wf_def cache_wf_def)
qed

definition demo_sys :: bsys where
  "demo_sys = \<lparr>cache = snd (get_insert 7 0x1000 [1, 2] (reserve_slot (buffer_init (\<lambda>_. [0])))),
     inflight = 0, held = {#0x1000#}, syncing = {#}\<rparr>"

lemma demo_sys_reach: "breach demo_sys"
proof -
  let ?S0 = "\<lparr>cache = buffer_init (\<lambda>_. [0]), inflight = 0, held = {#}, syncing = {#}\<rparr> :: bsys"
  let ?S1 = "?S0\<lparr>cache := reserve_slot (buffer_init (\<lambda>_. [0])), inflight := Suc (inflight ?S0)\<rparr>"
  have "bstep ?S0 ?S1"
    by (rule bstep.reserved [of 7]) (simp add: get_enter_def lookup_def buffer_init_def MAX_BUFFERS_def)
  then have "breach ?S1" by (rule breach.step [OF breach.init])
  moreover have "bstep ?S1 (?S1\<lparr>cache := cache demo_sys, inflight := inflight ?S1 - 1, held := add_mset 0x1000 (held ?S1)\<rparr>)"
    by (rule bstep.insert [of _ "0x1000" 7 "[1, 2]"])
      (simp_all add: demo_sys_def get_insert_def lookup_def reserve_slot_def buffer_init_def refs_out_def)
  ultimately have "breach (?S1\<lparr>cache := cache demo_sys, inflight := inflight ?S1 - 1, held := add_mset 0x1000 (held ?S1)\<rparr>)"
    by (rule breach.step)
  moreover have "?S1\<lparr>cache := cache demo_sys, inflight := inflight ?S1 - 1, held := add_mset 0x1000 (held ?S1)\<rparr> = demo_sys"
    by (simp add: demo_sys_def)
  ultimately show ?thesis by (simp only:)
qed

theorem buffer_cache_safe_witness:
  "breach demo_sys \<and> 0x1000 \<in> set (lru_list (cache demo_sys)) \<and> \<not> evictable (cache demo_sys) 0x1000"
proof -
  have "0x1000 \<in># held demo_sys + syncing demo_sys" by (simp add: demo_sys_def)
  then show ?thesis using buffer_cache_safe [OF demo_sys_reach] demo_sys_reach by blast
qed

section \<open>The cache in front of the disk\<close>

text \<open>A clean buffer agrees with the disk.  The contents that the cache stands for: the buffer when the
  block is cached, the disk otherwise.\<close>

definition coherent :: "bcache \<Rightarrow> bool" where
  "coherent s \<longleftrightarrow> (\<forall>p b. bufs s p = Some b \<longrightarrow> \<not> is_dirty b \<longrightarrow> b_data b = disk s (b_block b))"

definition data_of :: "bcache \<Rightarrow> ptr \<Rightarrow> content option" where
  "data_of s p = map_option b_data (bufs s p)"

definition block_view :: "bcache \<Rightarrow> u64 \<Rightarrow> content" where
  "block_view s block = (case lookup block s of None \<Rightarrow> disk s block | Some p \<Rightarrow> the (data_of s p))"

definition keeps_view :: "bcache \<Rightarrow> bcache \<Rightarrow> bool" where
  "keeps_view s s' \<longleftrightarrow> (coherent s \<longrightarrow> coherent s' \<and> block_view s' = block_view s)"

lemma keeps_view_trans: "keeps_view s s1 \<Longrightarrow> keeps_view s1 s2 \<Longrightarrow> keeps_view s s2"
  by (auto simp: keeps_view_def)

lemma lookup_cong: "blk_of s' = blk_of s \<Longrightarrow> hash_table s' = hash_table s \<Longrightarrow> lookup block s' = lookup block s"
proof -
  have h: "holds_block s b p \<longleftrightarrow> blk_of s p = Some b" for s b p
    by (auto simp: holds_block_def blk_of_def split: option.splits)
  show "blk_of s' = blk_of s \<Longrightarrow> hash_table s' = hash_table s \<Longrightarrow> lookup block s' = lookup block s"
    unfolding lookup_def by (simp add: h fun_eq_iff cong: find_cong)
qed

lemma upd_buf_keeps:
  assumes "\<And>b. b_block (f b) = b_block b" "\<And>b. b_data (f b) = b_data b" "\<And>b. b_flags (f b) = b_flags b"
  shows "keeps_view s (upd_buf p f s)"
proof -
  have "data_of (upd_buf p f s) = data_of s"
    using assms(2) by (auto simp: data_of_def upd_buf_def option.map_comp comp_def intro!: ext)
  then have "block_view (upd_buf p f s) = block_view s"
    using lookup_cong [of "upd_buf p f s" s] blk_of_upd [of f, OF assms(1)]
    by (auto simp: block_view_def intro!: ext split: option.split)
  moreover have "coherent s \<Longrightarrow> coherent (upd_buf p f s)"
    using assms by (auto simp: coherent_def upd_buf_def is_dirty_def split: if_splits)
  ultimately show ?thesis by (simp add: keeps_view_def)
qed

lemma view_cached: "cache_wf n s \<Longrightarrow> bufs s p = Some b \<Longrightarrow> block_view s (b_block b) = b_data b"
  using lookup_iff [of n s "b_block b" p] by (simp add: block_view_def blk_of_def data_of_def)

lemma view_uncached: "cache_wf n s \<Longrightarrow> \<forall>p. blk_of s p \<noteq> Some block \<Longrightarrow> block_view s block = disk s block"
  using lookup_None [of n s block] by (simp add: block_view_def)

lemma only_drops_keeps:
  assumes wf: "cache_wf n s" "cache_wf n' s'" and drops: "only_drops s s'"
  shows "keeps_view s s'"
proof -
  have d: "bufs s' p = bufs s p \<or> bufs s' p = None \<and> evictable s p" "disk s' = disk s" for p
    using drops by (auto simp: only_drops_def)
  have sub: "bufs s p = Some b" if "bufs s' p = Some b" for p b using d(1) [of p] that by auto
  have "block_view s' blk = block_view s blk" if coh: "coherent s" for blk
  proof (cases "\<exists>p. blk_of s p = Some blk")
    case True
    then obtain p b where p: "bufs s p = Some b" "b_block b = blk" by (auto simp: blk_of_def)
    then have v: "block_view s blk = b_data b" using view_cached [OF wf(1)] by blast
    show ?thesis
    proof (cases "bufs s' p")
      case (Some c)
      then show ?thesis using view_cached [OF wf(2) Some] sub p v by auto
    next
      case None
      have "\<forall>q. blk_of s' q \<noteq> Some blk"
      proof (intro allI notI)
        fix q assume "blk_of s' q = Some blk"
        then obtain c where c: "bufs s' q = Some c" "b_block c = blk" by (auto simp: blk_of_def)
        then have "blk_of s q = Some blk" "blk_of s p = Some blk" using sub p by (auto simp: blk_of_def)
        then have "q = p" using wf(1) by (auto simp: cache_wf_def)
        then show False using c None by simp
      qed
      then have "block_view s' blk = disk s blk" using view_uncached [OF wf(2)] d(2) by simp
      moreover have "b_data b = disk s blk"
        using coh p d(1) [of p] None by (auto simp: coherent_def evictable_def)
      ultimately show ?thesis using v by simp
    qed
  next
    case False
    then have "\<forall>q. blk_of s' q \<noteq> Some blk" using sub by (fastforce simp: blk_of_def)
    then show ?thesis using view_uncached wf False d(2) by metis
  qed
  moreover have "coherent s'" if "coherent s" using that sub d(2) by (auto simp: coherent_def)
  ultimately show ?thesis by (auto simp: keeps_view_def)
qed

lemma bufs_sync_write [simp]: "bufs (sync_write ok p s) = bufs s"
  by (simp add: sync_write_def split: option.split)

lemma sync_one_keeps:
  assumes wf: "cache_wf n s"
  shows "keeps_view s (sync_done ok p (sync_write ok p s))" and "cache_wf n (sync_done ok p (sync_write ok p s))"
proof -
  let ?s = "sync_done ok p (sync_write ok p s)"
  let ?g = "\<lambda>b. ref_drop (if ok then b\<lparr>b_flags := b_flags b AND NOT BUFFER_DIRTY\<rparr> else b)"
  have g: "b_block (?g b) = b_block b" "b_data (?g b) = b_data b" for b by (auto simp: ref_drop_def)
  show wf': "cache_wf n ?s"
    unfolding sync_done_def by (rule upd_buf_wf) (use wf g in \<open>auto simp: sync_write_same\<close>)
  have "block_view ?s blk = block_view s blk" for blk
  proof (cases "\<exists>q. blk_of s q = Some blk")
    case True
    then obtain q b where q: "bufs s q = Some b" "b_block b = blk" by (auto simp: blk_of_def)
    then obtain c where "bufs ?s q = Some c" "b_block c = blk" "b_data c = b_data b"
      using g by (cases "q = p") (auto simp: sync_done_def upd_buf_def)
    then show ?thesis using view_cached [OF wf'] view_cached [OF wf q(1)] q by auto
  next
    case False
    have "blk_of ?s = blk_of s"
      unfolding sync_done_def by (subst blk_of_upd) (auto simp: g sync_write_def split: option.splits)
    moreover have "disk ?s blk = disk s blk"
      using False by (auto simp: sync_done_def sync_write_def blk_of_def split: option.splits)
    ultimately show ?thesis using view_uncached [OF wf] view_uncached [OF wf'] False by metis
  qed
  moreover have "coherent ?s" if "coherent s"
  proof -
    have "b_data c = disk ?s (b_block c)" if c: "bufs ?s q = Some c" "\<not> is_dirty c" for q c
    proof (cases "q = p")
      case True
      then obtain b where b: "bufs s p = Some b" "c = ?g b"
        using c by (auto simp: sync_done_def upd_buf_def)
      then show ?thesis
        using \<open>coherent s\<close> c True by (auto simp: sync_done_def sync_write_def coherent_def is_dirty_def ref_drop_def split: if_splits)
    next
      case False
      then have "bufs s q = Some c" using c by (auto simp: sync_done_def upd_buf_def)
      moreover from this have "bufs s p = Some b \<Longrightarrow> b_block b \<noteq> b_block c" for b
        using wf False by (auto simp: cache_wf_def blk_of_def)
      ultimately show ?thesis
        using \<open>coherent s\<close> c by (auto simp: sync_done_def sync_write_def coherent_def split: option.splits)
    qed
    then show ?thesis by (simp add: coherent_def)
  qed
  ultimately show "keeps_view s ?s" by (auto simp: keeps_view_def)
qed


lemma collect_keeps:
  assumes "cache_wf n s" and "fold collect_one ps (s, ds) = (s', ds')"
  shows "cache_wf n s' \<and> keeps_view s s' \<and> dom (bufs s') = dom (bufs s)"
  using assms
proof (induction ps arbitrary: s ds)
  case (Cons p ps)
  have c: "collect_one p (s, ds) \<in> {(s, ds), (upd_buf p ref_get s, ds @ [p])}"
    by (auto simp: collect_one_def split: option.splits)
  have "cache_wf n (upd_buf p ref_get s)" "keeps_view s (upd_buf p ref_get s)" "dom (bufs (upd_buf p ref_get s)) = dom (bufs s)"
    using upd_buf_wf [OF Cons.prems(1)] upd_buf_keeps by (auto simp: ref_get_def upd_buf_def dom_def)
  note U = this
  have "fold collect_one ps (collect_one p (s, ds)) = (s', ds')" using Cons.prems(2) by simp
  then consider "fold collect_one ps (s, ds) = (s', ds')" | "fold collect_one ps (upd_buf p ref_get s, ds @ [p]) = (s', ds')"
    using c by auto
  then show ?case
  proof cases
    case 1
    then show ?thesis by (rule Cons.IH [OF Cons.prems(1)])
  next
    case 2
    show ?thesis using Cons.IH [OF U(1) 2] U(2,3) keeps_view_trans by metis
  qed
qed (simp add: keeps_view_def)

lemma buffer_sync_keeps:
  assumes "cache_wf n s"
  shows "cache_wf n (buffer_sync wok s) \<and> keeps_view s (buffer_sync wok s) \<and> dom (bufs (buffer_sync wok s)) = dom (bufs s)"
proof -
  obtain s1 ds where c: "sync_collect s = (s1, ds)" by fastforce
  note C = collect_keeps [OF assms c [unfolded sync_collect_def]]
  have "cache_wf n x \<Longrightarrow> cache_wf n (fold (\<lambda>p s. sync_done (wok p) p (sync_write (wok p) p s)) ps x)
      \<and> keeps_view x (fold (\<lambda>p s. sync_done (wok p) p (sync_write (wok p) p s)) ps x)
      \<and> dom (bufs (fold (\<lambda>p s. sync_done (wok p) p (sync_write (wok p) p s)) ps x)) = dom (bufs x)" for ps x
  proof (induction ps arbitrary: x)
    case (Cons p ps)
    have "dom (bufs (sync_done (wok p) p (sync_write (wok p) p x))) = dom (bufs x)"
      by (auto simp: sync_done_def upd_buf_def dom_def)
    then show ?case
      using Cons.IH [of "sync_done (wok p) p (sync_write (wok p) p x)"] sync_one_keeps [OF Cons.prems]
        keeps_view_trans by simp blast
  qed (simp add: keeps_view_def)
  from this [of s1 ds] show ?thesis using C c keeps_view_trans by (simp add: buffer_sync_def) blast
qed

lemma evict_keeps:
  "cache_wf n s \<Longrightarrow> cache_wf n (evict_buffers s) \<and> keeps_view s (evict_buffers s) \<and> dom (bufs (evict_buffers s)) \<subseteq> dom (bufs s)"
proof -
  assume wf: "cache_wf n s"
  note E = evict_buffers_ok [OF wf]
  have "bufs (evict_buffers s) p = bufs s p \<or> bufs (evict_buffers s) p = None" for p using E by (auto simp: only_drops_def)
  then have "dom (bufs (evict_buffers s)) \<subseteq> dom (bufs s)" by (auto simp: dom_def) (metis option.distinct(1))
  then show ?thesis using E only_drops_keeps [OF wf] by blast
qed

lemma slot_keeps: "keeps_view s (s\<lparr>total_buffers := n\<rparr>)"
proof -
  have "lookup b (s\<lparr>total_buffers := n\<rparr>) = lookup b s" for b by (rule lookup_cong) auto
  then show ?thesis by (auto simp: keeps_view_def coherent_def block_view_def data_of_def split: option.split)
qed

definition loads :: "bcache \<Rightarrow> u64 \<Rightarrow> ptr \<times> bcache \<Rightarrow> bool" where
  "loads s block = (\<lambda>(q, s'). cache_wf 0 s' \<and> keeps_view s s'
     \<and> (coherent s \<longrightarrow> q \<noteq> NULL \<longrightarrow> (\<exists>b. bufs s' q = Some b \<and> b_block b = block \<and> b_data b = block_view s block)))"

lemma loads_keeps: "keeps_view s s1 \<Longrightarrow> loads s1 block r \<Longrightarrow> loads s block r"
  by (cases r) (auto simp: loads_def keeps_view_def)

lemma cached_hit:
  assumes "cache_wf n s" and "lookup block s = Some r"
  obtains b where "bufs s r = Some b" "b_block b = block" "block_view s block = b_data b"
proof -
  obtain b where b: "bufs s r = Some b" "b_block b = block"
    using assms lookup_iff [OF assms(1)] by (auto simp: blk_of_def)
  then show thesis using view_cached [OF assms(1) b(1)] that by blast
qed

lemma get_insert_loads:
  assumes wf: "cache_wf (Suc 0) s" and fresh: "bufs s p = None"
  shows "loads s block (get_insert block p (disk s block) s)"
proof -
  obtain q s' where ins: "get_insert block p (disk s block) s = (q, s')" by fastforce
  show ?thesis
  proof (cases "lookup block s")
    case (Some r)
    obtain b where b: "bufs s r = Some b" "b_block b = block" "block_view s block = b_data b"
      using cached_hit [OF wf Some] .
    have "keeps_view s (release_slot s)" unfolding release_slot_def by (rule slot_keeps)
    moreover have "keeps_view (release_slot s) (upd_buf r ref_get (release_slot s))"
      by (rule upd_buf_keeps) (simp_all add: ref_get_def)
    moreover have "cache_wf 0 (upd_buf r ref_get (release_slot s))" using release_wf [OF wf] by (intro upd_buf_wf) auto
    ultimately show ?thesis
      using Some b keeps_view_trans by (auto simp: loads_def get_insert_def upd_buf_def release_slot_def ref_get_def)
  next
    case None
    note N = get_insert_new [OF wf fresh None ins]
    let ?b = "\<lparr>b_block = block, b_data = disk s block, b_flags = BUFFER_UPTODATE, b_ref = 1\<rparr>"
    have v: "block_view s block = disk s block" using None by (simp add: block_view_def)
    have "block_view s' blk = block_view s blk" for blk
    proof (cases "\<exists>r. blk_of s r = Some blk")
      case True
      then obtain r b where r: "bufs s r = Some b" "b_block b = blk" by (auto simp: blk_of_def)
      then have "bufs s' r = Some b" using N(3) fresh by auto
      then show ?thesis using view_cached [OF N(1)] view_cached [OF wf] r by metis
    next
      case False
      then have "block_view s blk = disk s blk" using view_uncached [OF wf] by blast
      moreover have "block_view s' blk = disk s blk"
      proof (cases "blk = block")
        case True
        have "bufs s' p = Some ?b" using N(3) by simp
        from view_cached [OF N(1) this] show ?thesis using True by simp
      next
        case F: False
        then have "\<forall>r. blk_of s' r \<noteq> Some blk" using False N(3) by (auto simp: blk_of_def)
        then show ?thesis using view_uncached [OF N(1)] N(4) by simp
      qed
      ultimately show ?thesis by simp
    qed
    moreover have "coherent s \<Longrightarrow> coherent s'" using N(3,4) by (auto simp: coherent_def)
    ultimately show ?thesis using N v by (auto simp: loads_def ins keeps_view_def)
  qed
qed

lemma get_load_loads:
  assumes "cache_wf (Suc 0) s" and "\<And>p. alloc = Some p \<Longrightarrow> bufs s p = None"
  shows "loads s block (get_load alloc rok block s)"
proof -
  have "loads s block (NULL, release_slot s)"
    using release_wf [OF assms(1)] slot_keeps by (simp add: loads_def release_slot_def)
  then show ?thesis
    using get_insert_loads [OF assms(1)] assms(2) by (auto simp: get_load_def split: option.split)
qed

lemma reserve_loads:
  assumes "cache_wf 0 s" and "total_buffers s < MAX_BUFFERS" and "\<And>p. alloc = Some p \<Longrightarrow> bufs s p = None"
  shows "loads s block (get_load alloc rok block (reserve_slot s))"
proof (rule loads_keeps)
  show "keeps_view s (reserve_slot s)" unfolding reserve_slot_def by (rule slot_keeps)
  show "loads (reserve_slot s) block (get_load alloc rok block (reserve_slot s))"
    by (rule get_load_loads) (use assms reserve_wf in \<open>auto simp: reserve_slot_def\<close>)
qed

lemma dropped_fresh: "dom (bufs s') \<subseteq> dom (bufs s) \<Longrightarrow> bufs s p = None \<Longrightarrow> bufs s' p = None"
  by (auto simp: dom_def)

lemma get_hit_loads:
  assumes "cache_wf 0 s" and "lookup block s = Some p"
  shows "loads s block (p, get_hit p s)"
proof -
  obtain b where b: "bufs s p = Some b" "b_block b = block" "block_view s block = b_data b"
    using cached_hit [OF assms] .
  then have p: "p \<in> set (lru_list s)" using assms(1) by (auto simp: cache_wf_def dom_blk_of)
  let ?s = "s\<lparr>lru_list := p # remove1 p (lru_list s)\<rparr>"
  have eq: "get_hit p s = upd_buf p ref_get ?s" using p by (simp add: get_hit_def)
  have l: "lookup b ?s = lookup b s" for b by (rule lookup_cong) (auto simp: blk_of_def)
  then have "keeps_view s ?s" by (auto simp: keeps_view_def coherent_def block_view_def data_of_def split: option.split)
  moreover have "keeps_view ?s (upd_buf p ref_get ?s)" by (rule upd_buf_keeps) (simp_all add: ref_get_def)
  ultimately have "keeps_view s (get_hit p s)" unfolding eq by (rule keeps_view_trans)
  moreover have "cache_wf 0 (get_hit p s)" by (rule get_hit_wf [OF assms(1)]) (use b in auto)
  moreover have "bufs (get_hit p s) p = Some (ref_get b)" using b by (simp add: eq upd_buf_def)
  ultimately show ?thesis using b by (auto simp: loads_def ref_get_def)
qed

lemma buffer_get_loads:
  assumes wf: "cache_wf 0 s" and fresh: "\<And>p. alloc = Some p \<Longrightarrow> bufs s p = None"
  shows "loads s block (buffer_get alloc rok wok block s)"
proof (cases "lookup block s")
  case (Some p)
  then show ?thesis using get_hit_loads [OF wf Some] by (simp add: buffer_get_def get_enter_def)
next
  case None
  show ?thesis
  proof (cases "total_buffers s \<ge> MAX_BUFFERS")
    case False
    then show ?thesis
      using reserve_loads [OF wf _ fresh] None by (simp add: buffer_get_def get_enter_def)
  next
    case full: True
    let ?e = "evict_buffers s"
    note E = evict_keeps [OF wf]
    show ?thesis
    proof (cases "total_buffers ?e \<ge> MAX_BUFFERS")
      case False
      have "loads ?e block (get_load alloc rok block (reserve_slot ?e))"
        by (rule reserve_loads) (use E False fresh dropped_fresh in auto)
      then have "loads s block (get_load alloc rok block (reserve_slot ?e))" using loads_keeps E by blast
      then show ?thesis using None full False by (simp add: buffer_get_def get_enter_def)
    next
      case True
      let ?s = "buffer_sync wok ?e"
      let ?r = "evict_buffers ?s"
      have S: "cache_wf 0 ?s" "keeps_view ?e ?s" "dom (bufs ?s) = dom (bufs ?e)" using buffer_sync_keeps E by blast+
      note R = evict_keeps [OF S(1)]
      have kv: "keeps_view s ?r" using E S R keeps_view_trans by metis
      have dom: "dom (bufs ?r) \<subseteq> dom (bufs s)" using E S R by blast
      have get: "buffer_get alloc rok wok block s =
          (if total_buffers ?r \<ge> MAX_BUFFERS then (NULL, ?r) else get_load alloc rok block (reserve_slot ?r))"
        using None full True by (simp add: buffer_get_def get_enter_def get_retry_def Let_def)
      have "loads ?r block (get_load alloc rok block (reserve_slot ?r))" if "\<not> total_buffers ?r \<ge> MAX_BUFFERS"
        by (rule reserve_loads) (use R that fresh dropped_fresh [OF dom] in auto)
      moreover have "loads ?r block (NULL, ?r)" using R by (simp add: loads_def keeps_view_def)
      ultimately show ?thesis using loads_keeps [OF kv] by (simp add: get)
    qed
  qed
qed


text \<open>C7. \<open>buffer_get\<close>, with all its eviction, flushing, allocation-failure and read-error paths, is invisible
  in the contents the cache stands for: on a coherent cache it keeps the structure and coherence, no
  block changes its value, and a returned buffer belongs to the requested block and holds its
  value.\<close>

theorem buffer_get_transparent:
  assumes "cache_wf 0 s" and "coherent s" and "\<forall>p. alloc = Some p \<longrightarrow> bufs s p = None"
    and "buffer_get alloc rok wok block s = (q, s')"
  shows "cache_wf 0 s' \<and> coherent s' \<and> block_view s' = block_view s
    \<and> (q \<noteq> NULL \<longrightarrow> (\<exists>b. bufs s' q = Some b \<and> b_block b = block \<and> b_data b = block_view s block))"
  using buffer_get_loads [of s alloc block rok wok] assms by (auto simp: loads_def keeps_view_def)

lemma empty_cache_ok: "cache_wf 0 (buffer_init d)" "coherent (buffer_init d)"
  by (auto simp: cache_wf_def coherent_def buffer_init_def blk_of_def MAX_BUFFERS_def)

theorem buffer_get_transparent_witness:
  "\<exists>s'. buffer_get (Some 0x1000) True (\<lambda>_. True) 7 (buffer_init (\<lambda>b. [ucast b])) = (0x1000, s')
    \<and> (\<exists>b. bufs s' 0x1000 = Some b \<and> b_data b = [7])"
proof -
  obtain q s' where r: "buffer_get (Some 0x1000) True (\<lambda>_. True) 7 (buffer_init (\<lambda>b. [ucast b])) = (q, s')" by fastforce
  have "q = 0x1000"
    using r by (simp add: buffer_get_def get_enter_def get_load_def get_insert_def lookup_def reserve_slot_def
      buffer_init_def MAX_BUFFERS_def)
  moreover have "block_view (buffer_init (\<lambda>b. [ucast b])) 7 = [7]"
    by (simp add: block_view_def lookup_def buffer_init_def)
  ultimately show ?thesis
    using buffer_get_transparent [OF empty_cache_ok _ r] r by (auto simp: buffer_init_def)
qed

text \<open>\<open>buffer_sync\<close> keeps the structure, coherence and every block's value, whichever of its writes
  fail.\<close>

theorem buffer_sync_transparent:
  assumes "cache_wf n s" and "coherent s"
  shows "cache_wf n (buffer_sync wok s) \<and> coherent (buffer_sync wok s) \<and> block_view (buffer_sync wok s) = block_view s"
  using buffer_sync_keeps [OF assms(1), of wok] assms(2) by (simp add: keeps_view_def)

theorem buffer_sync_transparent_witness:
  "coherent (buffer_sync (\<lambda>_. False) (buffer_init (\<lambda>_. [0])))"
  using buffer_sync_transparent [OF empty_cache_ok] by blast

text \<open>A client that changes a buffer it holds and marks it dirty.\<close>

definition modify :: "content \<Rightarrow> ptr \<Rightarrow> bcache \<Rightarrow> bcache" where
  "modify d p s = upd_buf p (\<lambda>x. x\<lparr>b_data := d, b_flags := b_flags x OR BUFFER_DIRTY\<rparr>) s"

text \<open>A modification between the write of a buffer and the end of its writeback is lost: completion
  clears the dirty flag, so the buffer is clean with the new contents while the disk holds the
  old ones, and no later writeback will touch it.\<close>

theorem buffer_sync_loses_update:
  assumes "bufs s p = Some b"
  shows "\<exists>b'. bufs (sync_done True p (modify d2 p (sync_write True p (modify d1 p s)))) p = Some b'
    \<and> \<not> is_dirty b' \<and> b_data b' = d2
    \<and> disk (sync_done True p (modify d2 p (sync_write True p (modify d1 p s)))) (b_block b') = d1"
  using assms by (simp add: modify_def sync_done_def sync_write_def upd_buf_def is_dirty_def ref_drop_def and.assoc)

theorem buffer_sync_loses_update_witness:
  "\<exists>b'. bufs (sync_done True 0x1000 (modify [2] 0x1000 (sync_write True 0x1000 (modify [1] 0x1000 (cache demo_sys))))) 0x1000 = Some b'
    \<and> \<not> is_dirty b' \<and> b_data b' = [2]"
proof -
  have "bufs (cache demo_sys) 0x1000 = Some \<lparr>b_block = 7, b_data = [1, 2], b_flags = 1, b_ref = 1\<rparr>"
    by (simp add: demo_sys_def get_insert_def lookup_def reserve_slot_def buffer_init_def BUFFER_UPTODATE_def)
  from buffer_sync_loses_update [OF this] show ?thesis by blast
qed

end
