(* ===== verification/Process.thy ===== *)
theory Process
  imports Nexs_Prelude
begin

text \<open>
  The process table of \<open>kernel/sched/process.c\<close>: descriptors, the pool, lookups, the authority
  checks on kill and IPC, the per-process environment, creation with its quotas and privilege
  clamp, exit status retention and the re-homing of orphans.  A \<open>struct process *\<close> is a
  reference into the map \<open>procs\<close>; a C string is the list of its characters before the
  terminator.  Every function that the code runs under \<open>sched_lock\<close> is one atomic step here.
  The scheduler proper is the subject of the theory \<open>Sched\<close>.
\<close>

section \<open>Constants and descriptors\<close>

definition MAX_PROCESSES :: nat where "MAX_PROCESSES = 128"
definition MAX_PRIO :: nat where "MAX_PRIO = 32"
definition MAX_CPUS :: nat where "MAX_CPUS = 64"
definition PROCESS_NAME_MAX :: nat where "PROCESS_NAME_MAX = 32"
definition DEFAULT_QUANTUM :: int where "DEFAULT_QUANTUM = 3"
definition PROC_PRIO_SYSTEM :: int where "PROC_PRIO_SYSTEM = 0"
definition PROC_PRIO_IDLE :: int where "PROC_PRIO_IDLE = 31"
definition STACK_SIZE :: nat where "STACK_SIZE = 131072"
definition MAX_PROCS_PER_PARENT :: int where "MAX_PROCS_PER_PARENT = 32"
definition RESERVED_PROC_SLOTS :: int where "RESERVED_PROC_SLOTS = 8"
definition PROC_MEM_BUDGET_PAGES :: nat where "PROC_MEM_BUDGET_PAGES = 256"
definition REAPED_MAX :: nat where "REAPED_MAX = 32"
definition ENV_KEY_MAX :: nat where "ENV_KEY_MAX = 32"
definition ENV_VAL_MAX :: nat where "ENV_VAL_MAX = 128"
definition ENV_MAX :: nat where "ENV_MAX = 24"

definition PLVL_MACHINE :: nat where "PLVL_MACHINE = 0"
definition PLVL_ROOT :: nat where "PLVL_ROOT = 1"
definition PLVL_USER :: nat where "PLVL_USER = 2"
definition PLVL_GUEST :: nat where "PLVL_GUEST = 3"
definition PLVL_COUNT :: nat where "PLVL_COUNT = 4"

definition CAP_SPAWN :: u32 where "CAP_SPAWN = 1"
definition CAP_FS_WRITE :: u32 where "CAP_FS_WRITE = 2"
definition CAP_IPC_ANY :: u32 where "CAP_IPC_ANY = 4"
definition CAP_WINDOW :: u32 where "CAP_WINDOW = 8"
definition CAP_REG_WRITE :: u32 where "CAP_REG_WRITE = 16"
definition CAP_ALL :: u32 where
  "CAP_ALL = CAP_SPAWN OR CAP_FS_WRITE OR CAP_IPC_ANY OR CAP_WINDOW OR CAP_REG_WRITE"

definition EPERM :: int where "EPERM = 1"
definition ENOENT :: int where "ENOENT = 2"
definition ESRCH :: int where "ESRCH = 3"
definition ENOMEM :: int where "ENOMEM = 12"
definition EFAULT :: int where "EFAULT = 14"
definition EINVAL :: int where "EINVAL = 22"
definition ENOBUFS :: int where "ENOBUFS = 105"

definition caps_for_level :: "nat \<Rightarrow> u32" where
  "caps_for_level l =
     (if l = PLVL_MACHINE \<or> l = PLVL_ROOT \<or> l = PLVL_USER then CAP_ALL
      else if l = PLVL_GUEST then CAP_WINDOW
      else 0)"

datatype proc_state =
    PROC_UNUSED | PROC_CREATED | PROC_RUNNING | PROC_SLEEPING
  | PROC_ZOMBIE | PROC_DEAD | PROC_READY | PROC_STOPPED

record env_entry =
  env_k :: string
  env_v :: string

text \<open>\<open>struct ipc_message\<close>: the sender, a type word, two data words and 64 payload bytes.\<close>

record ipc_message =
  msg_from :: int
  msg_type :: int
  msg_data1 :: u64
  msg_data2 :: u64
  msg_payload :: "u8 list"

text \<open>
  \<open>run_list\<close> links a descriptor into at most one list: a runqueue of a CPU or the task list of a
  wait queue.  The field holds that list; \<open>None\<close> is the self-linked node that
  \<open>INIT_LIST_HEAD\<close> leaves.
\<close>

datatype list_id = Runqueue nat nat | Waitqueue nat

type_synonym pref = nat

record process =
  pid :: int
  pname :: string
  page_table :: "u64 option"
  asid :: nat
  kernel_stack :: u64
  context_pc :: "u64 option"
  pstate :: proc_state
  first_run :: bool
  kill_pending :: bool
  reaping :: bool
  dying :: bool
  exit_code :: int
  exited :: bool
  priority :: int
  time_slice :: int
  quantum_reset :: int
  plevel :: nat
  pcaps :: u32
  ctty_win :: int
  parent_pid :: int
  owner_pid :: int
  child_count :: int
  run_list :: "list_id option"
  wait_queue_ptr :: "nat option"
  cpu_time_counts :: u64
  sleep_timer_armed :: bool
  ipc_target_pid :: int
  msg_queue :: "ipc_message list"
  msg_count :: int
  on_cpu :: int
  cwd :: string
  penv :: "env_entry list option"

text \<open>A slot of the compositor's window table, reduced to the fields process management reads.\<close>

record window =
  win_id :: int
  win_pid :: int
  win_visible :: bool
  win_z_order :: int

record cpu_info =
  online :: bool
  current_task :: "pref option"
  sched_run_count :: u64
  prio_bitmap :: u32
  idle_task :: "pref option"
  deferred_free_proc :: "pref list"
  pending_reenqueue :: "pref option"
  focus_streak :: nat

text \<open>
  The globals of process management.  \<open>lists\<close> holds the members of every intrusive list in order,
  \<open>held_pages\<close> counts the pages that \<open>process.c\<close> has taken from the physical memory manager and
  not given back, and \<open>released\<close> records the descriptors whose page went back to it.
\<close>

record sched =
  procs :: "pref \<Rightarrow> process"
  process_pool :: "pref option list"
  cpus :: "nat \<Rightarrow> cpu_info"
  lists :: "list_id \<Rightarrow> pref list"
  active_count :: int
  next_pid :: int
  next_idle_pid :: int
  proc_limit :: int
  rr_cpu :: nat
  keyboard_focus_pid :: int
  stat_ctx_switches :: u64
  reaped_ring :: "(int \<times> int) list"
  reaped_next :: nat
  windows :: "window list"
  held_pages :: int
  released :: "pref list"

definition upd_proc :: "pref \<Rightarrow> (process \<Rightarrow> process) \<Rightarrow> sched \<Rightarrow> sched" where
  "upd_proc p f s = s\<lparr>procs := (procs s)(p := f (procs s p))\<rparr>"

definition upd_cpu :: "nat \<Rightarrow> (cpu_info \<Rightarrow> cpu_info) \<Rightarrow> sched \<Rightarrow> sched" where
  "upd_cpu c f s = s\<lparr>cpus := (cpus s)(c := f (cpus s c))\<rparr>"

definition current_process :: "sched \<Rightarrow> nat \<Rightarrow> pref option" where
  "current_process s c = current_task (cpus s c)"

text \<open>A NULL process is the kernel itself and fully privileged.\<close>

definition proc_is_machine :: "process option \<Rightarrow> bool" where
  "proc_is_machine p = (case p of None \<Rightarrow> True | Some q \<Rightarrow> plevel q = PLVL_MACHINE)"

definition proc_is_privileged :: "process option \<Rightarrow> bool" where
  "proc_is_privileged p = (case p of None \<Rightarrow> True | Some q \<Rightarrow> plevel q \<le> PLVL_ROOT)"

definition proc_has_cap :: "process option \<Rightarrow> u32 \<Rightarrow> bool" where
  "proc_has_cap p cap =
     (case p of None \<Rightarrow> True | Some q \<Rightarrow> plevel q = PLVL_MACHINE \<or> pcaps q AND cap = cap)"

abbreviation the_proc :: "sched \<Rightarrow> pref option \<Rightarrow> process option" where
  "the_proc s p \<equiv> map_option (procs s) p"

section \<open>The pool\<close>

fun find_slot :: "nat \<Rightarrow> pref option list \<Rightarrow> nat option" where
  "find_slot i [] = None"
| "find_slot i (x # xs) = (if x = None then Some i else find_slot (Suc i) xs)"

definition find_free_slot :: "sched \<Rightarrow> nat option" where
  "find_free_slot s = find_slot 0 (process_pool s)"

fun find_pid :: "(pref \<Rightarrow> process) \<Rightarrow> int \<Rightarrow> pref option list \<Rightarrow> pref option" where
  "find_pid h n [] = None"
| "find_pid h n (None # xs) = find_pid h n xs"
| "find_pid h n (Some p # xs) = (if pid (h p) = n then Some p else find_pid h n xs)"

definition process_find_by_pid :: "sched \<Rightarrow> int \<Rightarrow> pref option" where
  "process_find_by_pid s n = find_pid (procs s) n (process_pool s)"

definition proc_pid_is_privileged :: "sched \<Rightarrow> int \<Rightarrow> bool" where
  "proc_pid_is_privileged s n =
     (case process_find_by_pid s n of None \<Rightarrow> False
      | Some p \<Rightarrow> proc_is_privileged (Some (procs s p)))"

definition process_set_owner :: "sched \<Rightarrow> int \<Rightarrow> int \<Rightarrow> int \<times> sched" where
  "process_set_owner s n owner =
     (case process_find_by_pid s n of None \<Rightarrow> (- ESRCH, s)
      | Some p \<Rightarrow>
          if process_find_by_pid s owner = None then (- ESRCH, s)
          else (0, upd_proc p (\<lambda>q. q\<lparr>owner_pid := owner\<rparr>) s))"

definition up_link :: "process \<Rightarrow> int" where
  "up_link q = (if owner_pid q > 0 then owner_pid q else parent_pid q)"

definition proc_get_lineage :: "sched \<Rightarrow> int \<Rightarrow> (int \<times> int) option" where
  "proc_get_lineage s n =
     map_option (\<lambda>p. (parent_pid (procs s p), up_link (procs s p))) (process_find_by_pid s n)"

section \<open>Authority\<close>

fun kill_walk :: "sched \<Rightarrow> int \<Rightarrow> nat \<Rightarrow> pref option \<Rightarrow> bool" where
  "kill_walk s c 0 t = False"
| "kill_walk s c (Suc n) None = False"
| "kill_walk s c (Suc n) (Some t) =
     (let up = up_link (procs s t) in
      if up = c then True
      else if up \<le> 0 then False
      else kill_walk s c n (process_find_by_pid s up))"

definition process_kill_allowed :: "sched \<Rightarrow> pref option \<Rightarrow> int \<Rightarrow> bool" where
  "process_kill_allowed s caller n =
     (case caller of
        None \<Rightarrow> True
      | Some c \<Rightarrow>
          if proc_is_privileged (Some (procs s c)) then True
          else if pid (procs s c) = n then True
          else let t = process_find_by_pid s n in
               t = None \<or> kill_walk s (pid (procs s c)) MAX_PROCESSES t)"

fun ipc_walk :: "sched \<Rightarrow> int \<Rightarrow> nat \<Rightarrow> pref option \<Rightarrow> bool" where
  "ipc_walk s c 0 t = False"
| "ipc_walk s c (Suc n) None = False"
| "ipc_walk s c (Suc n) (Some t) =
     (if parent_pid (procs s t) = c then True
      else if parent_pid (procs s t) \<le> 0 then False
      else ipc_walk s c n (process_find_by_pid s (parent_pid (procs s t))))"

definition process_ipc_allowed :: "sched \<Rightarrow> pref option \<Rightarrow> int \<Rightarrow> bool" where
  "process_ipc_allowed s caller n =
     (if proc_has_cap (the_proc s caller) CAP_IPC_ANY then True
      else case caller of
        None \<Rightarrow> True
      | Some c \<Rightarrow>
          if pid (procs s c) = n then True
          else if parent_pid (procs s c) = n then True
          else ipc_walk s (pid (procs s c)) MAX_PROCESSES (process_find_by_pid s n))"

section \<open>The environment\<close>

fun env_index :: "nat \<Rightarrow> string \<Rightarrow> env_entry list \<Rightarrow> nat option" where
  "env_index i key [] = None"
| "env_index i key (e # es) =
     (if env_k e \<noteq> [] \<and> env_k e = key then Some i else env_index (Suc i) key es)"

definition env_find :: "process option \<Rightarrow> string \<Rightarrow> nat option" where
  "env_find p key =
     (case p of None \<Rightarrow> None
      | Some q \<Rightarrow> case penv q of None \<Rightarrow> None
                | Some es \<Rightarrow> if key = [] then None else env_index 0 key es)"

text \<open>The buffer of a reader is given by its size, \<open>None\<close> for a null pointer; the second component
  of the result is the string left in it.\<close>

definition proc_env_get ::
    "sched \<Rightarrow> int \<Rightarrow> string option \<Rightarrow> nat option \<Rightarrow> int \<times> string option" where
  "proc_env_get s n key buf =
     (case (key, buf) of
        (Some k, Some (Suc sz)) \<Rightarrow>
          let p = process_find_by_pid s n in
          (case env_find (the_proc s p) k of
             None \<Rightarrow> (- ENOENT, None)
           | Some i \<Rightarrow> (0, Some (take sz (env_v (the (penv (procs s (the p))) ! i)))))
      | _ \<Rightarrow> (- EINVAL, None))"

fun env_free_slot :: "nat \<Rightarrow> env_entry list \<Rightarrow> nat option" where
  "env_free_slot i [] = None"
| "env_free_slot i (e # es) = (if env_k e = [] then Some i else env_free_slot (Suc i) es)"

definition env_store :: "env_entry list \<Rightarrow> string \<Rightarrow> string \<Rightarrow> int \<times> env_entry list" where
  "env_store es key v =
     (case env_index 0 key es of
        Some i \<Rightarrow> (0, es[i := (es ! i)\<lparr>env_v := take (ENV_VAL_MAX - 1) v\<rparr>])
      | None \<Rightarrow>
          (case env_free_slot 0 es of
             None \<Rightarrow> (- ENOMEM, es)
           | Some i \<Rightarrow> (0, es[i := (es ! i)\<lparr>env_k := take (ENV_KEY_MAX - 1) key,
                                              env_v := take (ENV_VAL_MAX - 1) v\<rparr>])))"

definition env_unset :: "env_entry list \<Rightarrow> string \<Rightarrow> env_entry list" where
  "env_unset es key =
     (case env_index 0 key es of None \<Rightarrow> es | Some i \<Rightarrow> es[i := (es ! i)\<lparr>env_k := []\<rparr>])"

definition proc_env_set ::
    "sched \<Rightarrow> pref option \<Rightarrow> int \<Rightarrow> string option \<Rightarrow> string option \<Rightarrow> int \<times> sched" where
  "proc_env_set s caller n key val =
     (case key of
        None \<Rightarrow> (- EINVAL, s)
      | Some k \<Rightarrow>
          if k = [] then (- EINVAL, s)
          else if length k \<ge> ENV_KEY_MAX \<or> (val \<noteq> None \<and> length (the val) \<ge> ENV_VAL_MAX)
          then (- EINVAL, s)
          else if caller \<noteq> None \<and> pid (procs s (the caller)) \<noteq> n
                  \<and> \<not> proc_is_privileged (the_proc s caller)
          then (- EPERM, s)
          else
            (case process_find_by_pid s n of
               None \<Rightarrow> (- ESRCH, s)
             | Some p \<Rightarrow>
                 (case penv (procs s p) of
                    None \<Rightarrow> (- ENOMEM, s)
                  | Some es \<Rightarrow>
                      if val = None \<or> val = Some []
                      then (0, upd_proc p (\<lambda>q. q\<lparr>penv := Some (env_unset es k)\<rparr>) s)
                      else let (r, es') = env_store es k (the val) in
                           (r, upd_proc p (\<lambda>q. q\<lparr>penv := Some es'\<rparr>) s))))"

text \<open>The listing loop: \<open>used\<close> is the number of characters written so far.\<close>

fun env_names :: "nat \<Rightarrow> string \<Rightarrow> env_entry list \<Rightarrow> string" where
  "env_names sz acc [] = acc"
| "env_names sz acc (e # es) =
     (if env_k e = [] then env_names sz acc es
      else if length acc + length (env_k e) + 2 > sz then acc
      else env_names sz ((if acc = [] then [] else acc @ [CHR 0x0A]) @ env_k e) es)"

definition proc_env_enum :: "sched \<Rightarrow> int \<Rightarrow> nat option \<Rightarrow> int \<times> string option" where
  "proc_env_enum s n buf =
     (case buf of
        Some (Suc sz) \<Rightarrow>
          let out = (case process_find_by_pid s n of
                       None \<Rightarrow> []
                     | Some p \<Rightarrow> (case penv (procs s p) of None \<Rightarrow> []
                                  | Some es \<Rightarrow> env_names (Suc sz) [] es))
          in (int (length out), Some out)
      | _ \<Rightarrow> (- 1, None))"

definition proc_env_free :: "pref \<Rightarrow> sched \<Rightarrow> sched" where
  "proc_env_free p s =
     (if penv (procs s p) = None then s
      else (upd_proc p (\<lambda>q. q\<lparr>penv := None\<rparr>) s)\<lparr>held_pages := held_pages s - 1\<rparr>)"

section \<open>Exit status retention and re-homing\<close>

definition child_count_dec :: "pref \<Rightarrow> sched \<Rightarrow> sched" where
  "child_count_dec dead s =
     (if parent_pid (procs s dead) \<le> 0 then s
      else case process_find_by_pid s (parent_pid (procs s dead)) of
             None \<Rightarrow> s
           | Some q \<Rightarrow>
               if child_count (procs s q) > 0
               then upd_proc q (\<lambda>r. r\<lparr>child_count := child_count r - 1\<rparr>) s else s)"

definition reparent_heir :: "pref \<Rightarrow> sched \<Rightarrow> pref option" where
  "reparent_heir dead s =
     (let h = (if parent_pid (procs s dead) > 0
               then process_find_by_pid s (parent_pid (procs s dead)) else None) in
      if h = None \<and> pid (procs s dead) \<noteq> 1 then process_find_by_pid s 1 else h)"

definition reparent_one :: "pref \<Rightarrow> pref option \<Rightarrow> int \<Rightarrow> pref \<Rightarrow> sched \<Rightarrow> sched" where
  "reparent_one dead heir heir_pid p s =
     (if p = dead then s
      else
        let s1 = (if owner_pid (procs s p) = pid (procs s dead)
                  then upd_proc p (\<lambda>q. q\<lparr>owner_pid := 0\<rparr>) s else s) in
        if parent_pid (procs s1 p) \<noteq> pid (procs s1 dead) then s1
        else
          let s2 = upd_proc p (\<lambda>q. q\<lparr>parent_pid := heir_pid\<rparr>) s1 in
          (case heir of None \<Rightarrow> s2
           | Some h \<Rightarrow> upd_proc h (\<lambda>q. q\<lparr>child_count := child_count q + 1\<rparr>) s2))"

fun reparent_loop :: "pref \<Rightarrow> pref option \<Rightarrow> int \<Rightarrow> pref option list \<Rightarrow> sched \<Rightarrow> sched" where
  "reparent_loop dead heir heir_pid [] s = s"
| "reparent_loop dead heir heir_pid (None # xs) s = reparent_loop dead heir heir_pid xs s"
| "reparent_loop dead heir heir_pid (Some p # xs) s =
     reparent_loop dead heir heir_pid xs (reparent_one dead heir heir_pid p s)"

definition reparent_children :: "pref \<Rightarrow> sched \<Rightarrow> sched" where
  "reparent_children dead s =
     (let heir = reparent_heir dead s;
          heir_pid = (case heir of None \<Rightarrow> 0 | Some h \<Rightarrow> pid (procs s h))
      in reparent_loop dead heir heir_pid (process_pool s) s)"

text \<open>The status a waiter sees: the low byte of a voluntary exit, \<open>-9\<close> for a kill.\<close>

definition wait_status :: "process \<Rightarrow> int" where
  "wait_status q = (if exited q then exit_code q mod 256 else - 9)"

definition record_reaped :: "pref \<Rightarrow> sched \<Rightarrow> sched" where
  "record_reaped p s =
     (if pid (procs s p) \<le> 0 then s
      else s\<lparr>reaped_ring := (reaped_ring s)[reaped_next s := (pid (procs s p), wait_status (procs s p))],
             reaped_next := (reaped_next s + 1) mod REAPED_MAX\<rparr>)"

fun claim_loop :: "int \<Rightarrow> (int \<times> int) list \<Rightarrow> (int \<times> (int \<times> int) list) option" where
  "claim_loop n [] = None"
| "claim_loop n ((q, code) # r) =
     (if q = n then Some (code, (0, code) # r)
      else map_option (\<lambda>(c, r'). (c, (q, code) # r')) (claim_loop n r))"

definition claim_reaped :: "int \<Rightarrow> sched \<Rightarrow> int option \<times> sched" where
  "claim_reaped n s =
     (case claim_loop n (reaped_ring s) of
        None \<Rightarrow> (None, s)
      | Some (code, r) \<Rightarrow> (Some code, s\<lparr>reaped_ring := r\<rparr>))"

text \<open>\<open>process_wait\<close> returns its code and the value it stores in \<open>*out_code\<close>, if it stores one.\<close>

definition process_wait :: "int \<Rightarrow> sched \<Rightarrow> int \<times> int option \<times> sched" where
  "process_wait n s =
     (case process_find_by_pid s n of
        Some p \<Rightarrow>
          if pstate (procs s p) = PROC_DEAD \<or> pstate (procs s p) = PROC_ZOMBIE
          then (n, Some (wait_status (procs s p)), s)
          else (- 1, None, s)
      | None \<Rightarrow>
          (case claim_reaped n s of
             (Some code, s') \<Rightarrow> (n, Some code, s')
           | (None, s') \<Rightarrow> (- 2, None, s')))"

fun pool_index :: "nat \<Rightarrow> pref \<Rightarrow> pref option list \<Rightarrow> nat option" where
  "pool_index i p [] = None"
| "pool_index i p (x # xs) = (if x = Some p then Some i else pool_index (Suc i) p xs)"

definition pool_remove :: "pref \<Rightarrow> sched \<Rightarrow> nat option \<times> sched" where
  "pool_remove p s =
     (case pool_index 0 p (process_pool s) of
        None \<Rightarrow> (None, s)
      | Some slot \<Rightarrow>
          let s1 = record_reaped p s;
              s2 = s1\<lparr>process_pool := (process_pool s1)[slot := None],
                      active_count := active_count s1 - 1\<rparr>
          in (Some slot, reparent_children p (child_count_dec p s2)))"

section \<open>Creation\<close>

definition check_quota :: "sched \<Rightarrow> pref option \<Rightarrow> bool" where
  "check_quota s creator =
     (if active_count s \<ge> proc_limit s then False
      else if \<not> proc_is_privileged (the_proc s creator)
      then (if child_count (procs s (the creator)) \<ge> MAX_PROCS_PER_PARENT then False
            else \<not> (active_count s \<ge> proc_limit s - RESERVED_PROC_SLOTS))
      else True)"

definition create_level :: "process option \<Rightarrow> nat \<Rightarrow> nat" where
  "create_level creator l =
     (let lvl = (if l < PLVL_COUNT then l else PLVL_GUEST) in
      case creator of None \<Rightarrow> lvl
      | Some c \<Rightarrow> if plevel c > lvl then plevel c else lvl)"

definition create_caps :: "process option \<Rightarrow> nat \<Rightarrow> u32 \<Rightarrow> u32" where
  "create_caps creator lvl req =
     (let cs = req AND caps_for_level lvl in
      case creator of None \<Rightarrow> cs
      | Some c \<Rightarrow> if proc_is_machine (Some c) then cs else cs AND pcaps c)"

definition empty_env :: "env_entry list" where
  "empty_env = replicate ENV_MAX \<lparr>env_k = [], env_v = []\<rparr>"

text \<open>The identity written into the zeroed page of a new descriptor.\<close>

definition create_identity ::
    "process option \<Rightarrow> nat \<Rightarrow> string \<Rightarrow> int \<Rightarrow> nat \<Rightarrow> u32 \<Rightarrow> bool \<Rightarrow> int \<Rightarrow> process" where
  "create_identity creator slot nm prio l req envblk new_pid =
     (let lvl = create_level creator l in
      \<lparr>pid = new_pid, pname = take (PROCESS_NAME_MAX - 1) nm, page_table = None,
       asid = slot + 1, kernel_stack = 0, context_pc = None, pstate = PROC_CREATED,
       first_run = True, kill_pending = False, reaping = False, dying = False,
       exit_code = 0, exited = False,
       priority = (if prio \<ge> int MAX_PRIO then int MAX_PRIO - 1 else prio),
       time_slice = DEFAULT_QUANTUM, quantum_reset = DEFAULT_QUANTUM,
       plevel = lvl, pcaps = create_caps creator lvl req, ctty_win = 0,
       parent_pid = (case creator of None \<Rightarrow> 0 | Some c \<Rightarrow> pid c), owner_pid = 0,
       child_count = 0, run_list = None, wait_queue_ptr = None, cpu_time_counts = 0,
       sleep_timer_armed = False, ipc_target_pid = - 1, msg_queue = [], msg_count = 0,
       on_cpu = - 1,
       cwd = (case creator of None \<Rightarrow> ''/''
              | Some c \<Rightarrow> if cwd c \<noteq> [] then take 127 (cwd c) else ''/''),
       penv = (if envblk
               then Some (case creator of None \<Rightarrow> empty_env
                          | Some c \<Rightarrow> case penv c of None \<Rightarrow> empty_env | Some es \<Rightarrow> es)
               else None)\<rparr>)"

fun compositor_get_window_by_pid :: "window list \<Rightarrow> int \<Rightarrow> int" where
  "compositor_get_window_by_pid [] n = - 1"
| "compositor_get_window_by_pid (w # ws) n =
     (if win_id w \<noteq> 0 \<and> win_pid w = n then win_id w else compositor_get_window_by_pid ws n)"

text \<open>
  What the allocators outside this file answer during one creation: whether the environment page
  was available, the descriptor page, whether the stdio handles could be installed, the page
  table, and the base of the kernel stack.
\<close>

record create_env =
  got_env_page :: bool
  got_proc_page :: "pref option"
  stdio_ok :: bool
  got_pgd :: "u64 option"
  got_kstack :: "u64 option"

definition create_stdio_and_pgd ::
    "create_env \<Rightarrow> pref option \<Rightarrow> int \<Rightarrow> pref \<Rightarrow> sched \<Rightarrow> bool \<times> sched" where
  "create_stdio_and_pgd a creator prio p s =
     (let s1 = upd_proc p (\<lambda>q. q\<lparr>ctty_win := - 1\<rparr>) s in
      if prio = PROC_PRIO_IDLE \<or> prio = PROC_PRIO_SYSTEM
      then (True, upd_proc p (\<lambda>q. q\<lparr>page_table := None\<rparr>) s1)
      else
        let s2 = (case creator of None \<Rightarrow> s1
                  | Some c \<Rightarrow>
                      let term_win = compositor_get_window_by_pid (windows s1) (pid (procs s1 c)) in
                      upd_proc p (\<lambda>q. q\<lparr>ctty_win :=
                        (if term_win > 0 then term_win else ctty_win (procs s1 c))\<rparr>) s1) in
        if \<not> stdio_ok a then (False, s2)
        else (True, upd_proc p (\<lambda>q. q\<lparr>page_table := got_pgd a\<rparr>) s2))"

definition create_rollback :: "pref \<Rightarrow> nat \<Rightarrow> bool \<Rightarrow> sched \<Rightarrow> sched" where
  "create_rollback p slot envblk s =
     (let s1 = child_count_dec p (s\<lparr>process_pool := (process_pool s)[slot := None],
                                    active_count := active_count s - 1\<rparr>);
          s2 = (if envblk then s1\<lparr>held_pages := held_pages s1 - 1\<rparr> else s1)
      in s2\<lparr>held_pages := held_pages s2 - 1, released := p # released s2\<rparr>)"

text \<open>The part of a creation under \<open>sched_lock\<close> after the quota check: claim a slot and a pid and
  publish the descriptor.\<close>

definition create_publish ::
    "pref \<Rightarrow> nat \<Rightarrow> pref option \<Rightarrow> string \<Rightarrow> int \<Rightarrow> nat \<Rightarrow> u32 \<Rightarrow> bool \<Rightarrow> sched \<Rightarrow> sched" where
  "create_publish p slot creator nm prio l req envblk s =
     (let idle = (prio = PROC_PRIO_IDLE);
          new_pid = (if idle then next_idle_pid s else next_pid s);
          s1 = (if idle then s\<lparr>next_idle_pid := next_idle_pid s + 1\<rparr>
                else s\<lparr>next_pid := next_pid s + 1\<rparr>);
          q = create_identity (the_proc s creator) slot nm prio l req envblk new_pid;
          s2 = s1\<lparr>procs := (procs s1)(p := q),
                  process_pool := (process_pool s1)[slot := Some p],
                  active_count := active_count s1 + 1,
                  held_pages := held_pages s1 + 1\<rparr>
      in case creator of None \<Rightarrow> s2
         | Some c \<Rightarrow> upd_proc c (\<lambda>r. r\<lparr>child_count := child_count r + 1\<rparr>) s2)"

definition process_create_caps ::
    "create_env \<Rightarrow> nat \<Rightarrow> string \<Rightarrow> int \<Rightarrow> nat \<Rightarrow> u32 \<Rightarrow> sched \<Rightarrow> pref option \<times> sched" where
  "process_create_caps a c nm prio l req s0 =
     (let envblk = (prio \<noteq> PROC_PRIO_IDLE \<and> got_env_page a);
          s = (if envblk then s0\<lparr>held_pages := held_pages s0 + 1\<rparr> else s0);
          undo = (if envblk then s\<lparr>held_pages := held_pages s - 1\<rparr> else s);
          creator = current_process s c
      in if \<not> check_quota s creator then (None, undo)
         else case find_free_slot s of
           None \<Rightarrow> (None, undo)
         | Some slot \<Rightarrow>
             (case got_proc_page a of
                None \<Rightarrow> (None, undo)
              | Some p \<Rightarrow>
                  let s1 = create_publish p slot creator nm prio l req envblk s;
                      (ok, s2) = create_stdio_and_pgd a creator prio p s1
                  in if \<not> ok then (None, create_rollback p slot False s2)
                     else case got_kstack a of
                       None \<Rightarrow> (None, create_rollback p slot False s2)
                     | Some base \<Rightarrow>
                         (Some p, (upd_proc p (\<lambda>q. q\<lparr>kernel_stack := base + of_nat STACK_SIZE,
                                                       context_pc := Some 0, on_cpu := - 1\<rparr>) s2)
                                  \<lparr>held_pages := held_pages s2 + int (STACK_SIZE div 4096)\<rparr>)))"

definition process_create ::
    "create_env \<Rightarrow> nat \<Rightarrow> string \<Rightarrow> int \<Rightarrow> nat \<Rightarrow> sched \<Rightarrow> pref option \<times> sched" where
  "process_create a c nm prio l s =
     (let lvl = (if l < PLVL_COUNT then l else PLVL_GUEST)
      in process_create_caps a c nm prio lvl (caps_for_level lvl) s)"

section \<open>Introspection\<close>

fun proc_state_name :: "proc_state \<Rightarrow> string" where
  "proc_state_name PROC_CREATED = ''created''"
| "proc_state_name PROC_RUNNING = ''running''"
| "proc_state_name PROC_SLEEPING = ''sleeping''"
| "proc_state_name PROC_ZOMBIE = ''zombie''"
| "proc_state_name PROC_DEAD = ''dead''"
| "proc_state_name PROC_READY = ''ready''"
| "proc_state_name PROC_STOPPED = ''stopped''"
| "proc_state_name PROC_UNUSED = ''unused''"

record ps_info =
  ps_pid :: int
  ps_name :: string
  ps_state :: proc_state
  ps_priority :: int
  ps_cpu_time :: u64
  ps_on_cpu :: int

text \<open>\<open>to_ns\<close> is the conversion \<open>timer_counts_to_ns\<close> of the platform timer.\<close>

definition ps_entry :: "(u64 \<Rightarrow> u64) \<Rightarrow> process \<Rightarrow> ps_info" where
  "ps_entry to_ns q = \<lparr>ps_pid = pid q, ps_name = take 31 (pname q), ps_state = pstate q,
     ps_priority = priority q, ps_cpu_time = to_ns (cpu_time_counts q) div 1000000,
     ps_on_cpu = on_cpu q\<rparr>"

definition proc_get_info :: "(u64 \<Rightarrow> u64) \<Rightarrow> sched \<Rightarrow> int \<Rightarrow> ps_info option" where
  "proc_get_info to_ns s n =
     map_option (\<lambda>p. ps_entry to_ns (procs s p)) (process_find_by_pid s n)"

text \<open>\<open>sys_getprocs\<close> fills a kernel buffer of at most \<open>MAX_PROCESSES\<close> entries and copies it out; the
  flags say whether the user pointer was given, the buffer could be allocated and the copy
  succeeded.\<close>

fun ps_loop :: "(u64 \<Rightarrow> u64) \<Rightarrow> (pref \<Rightarrow> process) \<Rightarrow> nat \<Rightarrow> pref option list \<Rightarrow> ps_info list" where
  "ps_loop to_ns h m [] = []"
| "ps_loop to_ns h m (None # xs) = (if m = 0 then [] else ps_loop to_ns h m xs)"
| "ps_loop to_ns h m (Some p # xs) =
     (if m = 0 then [] else ps_entry to_ns (h p) # ps_loop to_ns h (m - 1) xs)"

definition sys_getprocs ::
    "(u64 \<Rightarrow> u64) \<Rightarrow> bool \<Rightarrow> bool \<Rightarrow> bool \<Rightarrow> u64 \<Rightarrow> sched \<Rightarrow> int \<times> ps_info list" where
  "sys_getprocs to_ns has_buf alloc_ok copy_ok max_count s =
     (if \<not> has_buf then (- 1, [])
      else let m = (if unat max_count > MAX_PROCESSES then MAX_PROCESSES else unat max_count) in
           if \<not> alloc_ok then (- 1, [])
           else let out = ps_loop to_ns (procs s) m (process_pool s) in
                if copy_ok then (int (length out), out) else (- EFAULT, []))"

fun enum_loop :: "(pref \<Rightarrow> process) \<Rightarrow> nat \<Rightarrow> pref option list \<Rightarrow> int list" where
  "enum_loop h m [] = []"
| "enum_loop h m (None # xs) = (if m = 0 then [] else enum_loop h m xs)"
| "enum_loop h m (Some p # xs) = (if m = 0 then [] else pid (h p) # enum_loop h (m - 1) xs)"

definition proc_enum_pids :: "sched \<Rightarrow> int \<Rightarrow> int list" where
  "proc_enum_pids s mx =
     (if mx \<le> 0 then [] else enum_loop (procs s) (nat mx) (process_pool s))"

definition process_init :: "u64 \<Rightarrow> sched \<Rightarrow> sched" where
  "process_init free_pages s =
     (let budget = unat free_pages div PROC_MEM_BUDGET_PAGES;
          lim = (if budget < MAX_PROCESSES then int budget else int MAX_PROCESSES);
          lim' = (if lim < 8 then 8 else lim)
      in s\<lparr>process_pool := replicate MAX_PROCESSES None,
           proc_limit := lim',
           lists := (\<lambda>l. case l of Runqueue c i \<Rightarrow> (if c < MAX_CPUS \<and> i < MAX_PRIO then [] else lists s l)
                     | Waitqueue w \<Rightarrow> lists s l),
           cpus := (\<lambda>c. if c < MAX_CPUS then (cpus s c)\<lparr>prio_bitmap := 0\<rparr> else cpus s c)\<rparr>)"

text \<open>The zeroed descriptor and CPU records, and the globals as the loader leaves them.\<close>

definition zero_process :: process where
  "zero_process = \<lparr>pid = 0, pname = [], page_table = None, asid = 0, kernel_stack = 0,
     context_pc = None, pstate = PROC_UNUSED, first_run = False, kill_pending = False,
     reaping = False, dying = False, exit_code = 0, exited = False, priority = 0, time_slice = 0,
     quantum_reset = 0, plevel = 0, pcaps = 0, ctty_win = 0, parent_pid = 0, owner_pid = 0,
     child_count = 0, run_list = None, wait_queue_ptr = None, cpu_time_counts = 0,
     sleep_timer_armed = False, ipc_target_pid = 0, msg_queue = [], msg_count = 0, on_cpu = 0,
     cwd = [], penv = None\<rparr>"

definition zero_cpu :: cpu_info where
  "zero_cpu = \<lparr>online = False, current_task = None, sched_run_count = 0, prio_bitmap = 0,
     idle_task = None, deferred_free_proc = [], pending_reenqueue = None, focus_streak = 0\<rparr>"

definition boot_sched :: sched where
  "boot_sched = \<lparr>procs = (\<lambda>_. zero_process), process_pool = replicate MAX_PROCESSES None,
     cpus = (\<lambda>_. zero_cpu), lists = (\<lambda>_. []), active_count = 0, next_pid = 1,
     next_idle_pid = 32000, proc_limit = int MAX_PROCESSES, rr_cpu = 0, keyboard_focus_pid = 7,
     stat_ctx_switches = 0, reaped_ring = replicate REAPED_MAX (0, 0), reaped_next = 0,
     windows = [], held_pages = 0, released = []\<rparr>"

end
