(* ===== verification/Process_Correct.thy ===== *)
theory Process_Correct
  imports Process
begin

text \<open>
  Correctness of the process table: the bounded walks decide the authority relations exactly, the
  table invariant (unique identifiers, live links, exact child counts) survives creation, removal
  and re-homing, exit statuses are collected once, environments behave as finite maps, and a child
  never exceeds the privilege of its creator.
\<close>

section \<open>Looking up processes\<close>

definition live :: "sched \<Rightarrow> pref set" where
  "live s = {p. Some p \<in> set (process_pool s)}"

lemma find_pid_Some: "find_pid h n xs = Some p \<Longrightarrow> Some p \<in> set xs \<and> pid (h p) = n"
  by (induction h n xs rule: find_pid.induct) (auto split: if_splits)

lemma find_pid_None_iff: "find_pid h n xs = None \<longleftrightarrow> (\<forall>p. Some p \<in> set xs \<longrightarrow> pid (h p) \<noteq> n)"
  by (induction h n xs rule: find_pid.induct) auto

lemma finite_live [simp]: "finite (live s)"
proof -
  have "live s = the ` (set (process_pool s) - {None})" by (force simp: live_def)
  then show ?thesis by simp
qed

lemma card_live: "card (live s) \<le> length (process_pool s)"
proof -
  have "live s \<subseteq> the ` set (process_pool s)" by (force simp: live_def)
  then have "card (live s) \<le> card (the ` set (process_pool s))" by (intro card_mono) auto
  also have "\<dots> \<le> length (process_pool s)"
    using card_image_le card_length le_trans by blast
  finally show ?thesis .
qed

lemma process_find_Some:
  "process_find_by_pid s n = Some p \<Longrightarrow> p \<in> live s \<and> pid (procs s p) = n"
  by (auto simp: process_find_by_pid_def live_def dest: find_pid_Some)

lemma process_find_None:
  "process_find_by_pid s n = None \<longleftrightarrow> (\<forall>p \<in> live s. pid (procs s p) \<noteq> n)"
  by (auto simp: process_find_by_pid_def live_def find_pid_None_iff)

lemma process_find_eq:
  assumes "inj_on (\<lambda>p. pid (procs s p)) (live s)" "p \<in> live s"
  shows "process_find_by_pid s (pid (procs s p)) = Some p"
proof (cases "process_find_by_pid s (pid (procs s p))")
  case None
  then show ?thesis using assms by (auto simp: process_find_None)
next
  case (Some q)
  then show ?thesis using process_find_Some [OF Some] assms by (auto simp: inj_on_def)
qed

section \<open>Walking up the ownership chain\<close>

text \<open>\<open>descends lnk s c p\<close>: following the link field \<open>lnk\<close> from \<open>p\<close> through live processes meets
  the process identifier \<open>c\<close>.\<close>

inductive descends :: "(process \<Rightarrow> int) \<Rightarrow> sched \<Rightarrow> int \<Rightarrow> pref \<Rightarrow> bool" for lnk s c where
  here: "lnk (procs s p) = c \<Longrightarrow> descends lnk s c p"
| up: "lnk (procs s p) > 0 \<Longrightarrow> process_find_by_pid s (lnk (procs s p)) = Some q
       \<Longrightarrow> descends lnk s c q \<Longrightarrow> descends lnk s c p"

fun link_walk :: "(process \<Rightarrow> int) \<Rightarrow> sched \<Rightarrow> int \<Rightarrow> nat \<Rightarrow> pref option \<Rightarrow> bool" where
  "link_walk lnk s c 0 t = False"
| "link_walk lnk s c (Suc n) None = False"
| "link_walk lnk s c (Suc n) (Some t) =
     (lnk (procs s t) = c \<or>
      lnk (procs s t) > 0 \<and> link_walk lnk s c n (process_find_by_pid s (lnk (procs s t))))"

lemma kill_walk_link: "kill_walk s c n t = link_walk up_link s c n t"
  by (induction s c n t rule: kill_walk.induct) (auto simp: Let_def)

lemma ipc_walk_link: "ipc_walk s c n t = link_walk parent_pid s c n t"
  by (induction s c n t rule: ipc_walk.induct) auto

lemma link_walk_sound: "link_walk lnk s c n (Some t) \<Longrightarrow> descends lnk s c t"
proof (induction n arbitrary: t)
  case (Suc n)
  show ?case
  proof (cases "lnk (procs s t) = c")
    case True
    then show ?thesis by (rule descends.here)
  next
    case False
    with Suc.prems have w: "lnk (procs s t) > 0"
        "link_walk lnk s c n (process_find_by_pid s (lnk (procs s t)))" by simp_all
    then obtain q where q: "process_find_by_pid s (lnk (procs s t)) = Some q"
      by (cases n; cases "process_find_by_pid s (lnk (procs s t))") simp_all
    show ?thesis
      using w q Suc.IH [of q] descends.up [where lnk = lnk and s = s and c = c and p = t and q = q] by simp
  qed
qed simp

lemma descends_walk: "descends lnk s c t \<Longrightarrow> \<exists>n. link_walk lnk s c n (Some t)"
proof (induction rule: descends.induct)
  case (here p)
  then have "link_walk lnk s c (Suc 0) (Some p)" by simp
  then show ?case by blast
next
  case (up p q)
  then obtain n where "link_walk lnk s c n (Some q)" by blast
  with up have "link_walk lnk s c (Suc n) (Some p)" by simp
  then show ?case by blast
qed

lemma link_walk_grow: "link_walk lnk s c n t \<Longrightarrow> link_walk lnk s c (Suc n) t"
proof (induction n arbitrary: t)
  case (Suc n)
  then show ?case by (cases t) auto
qed simp

text \<open>The loop bound of the walks loses nothing: a chain through live processes has at most as many
  members as the pool has slots.\<close>

lemma link_walk_complete:
  assumes "descends lnk s c t" "t \<in> live s" "length (process_pool s) \<le> n"
  shows "link_walk lnk s c n (Some t)"
proof -
  define W where "W k = {p \<in> live s. link_walk lnk s c k (Some p)}" for k
  have Suc: "W (Suc k) = {p \<in> live s. lnk (procs s p) = c \<or>
      (lnk (procs s p) > 0 \<and> (\<exists>q \<in> W k. process_find_by_pid s (lnk (procs s p)) = Some q))}" for k
  proof -
    have "link_walk lnk s c k (process_find_by_pid s i)
       \<longleftrightarrow> (\<exists>q \<in> W k. process_find_by_pid s i = Some q)" for i
      using process_find_Some [of s i]
      by (cases "process_find_by_pid s i"; cases k) (auto simp: W_def)
    then show ?thesis by (auto simp: W_def)
  qed
  obtain m where m: "link_walk lnk s c m (Some t)" using descends_walk assms(1) by blast
  have "W m \<subseteq> W (card (live s))"
  proof (rule chain_stable [where U = "live s"])
    fix k show "W k \<subseteq> W (Suc k)" using link_walk_grow [of lnk s c k] by (auto simp: W_def simp del: link_walk.simps)
    assume "W k = W (Suc k)"
    then show "W (Suc k) = W (Suc (Suc k))" by (subst Suc, subst Suc [of "Suc k"]) simp
  qed (auto simp: W_def)
  then have "link_walk lnk s c (card (live s)) (Some t)" using m assms(2) by (auto simp: W_def)
  moreover have "card (live s) \<le> n" using card_live [of s] assms(3) by simp
  ultimately show ?thesis
    using lift_Suc_mono_le [of "\<lambda>k. link_walk lnk s c k (Some t)" "card (live s)" n]
      link_walk_grow [of lnk s c] by (simp add: le_bool_def del: link_walk.simps)
qed

lemma link_walk_iff:
  assumes "length (process_pool s) = MAX_PROCESSES"
  shows "link_walk lnk s c MAX_PROCESSES (process_find_by_pid s n)
     \<longleftrightarrow> (\<exists>t. process_find_by_pid s n = Some t \<and> descends lnk s c t)"
proof (cases "process_find_by_pid s n")
  case None
  then show ?thesis by (simp add: MAX_PROCESSES_def numeral_eq_Suc)
next
  case (Some t)
  then show ?thesis
    using link_walk_sound link_walk_complete process_find_Some assms by (metis option.inject order_refl)
qed

text \<open>C8. \<open>process_kill_allowed\<close> decides the ownership relation: a caller may kill a process exactly
  when it is privileged, is that process, no such process exists, or the chain of owner and parent
  links that starts at the process meets the caller.  The loop bound loses no chain.\<close>

theorem process_kill_allowed_iff:
  assumes "length (process_pool s) = MAX_PROCESSES"
  shows "process_kill_allowed s (Some c) n \<longleftrightarrow>
     plevel (procs s c) \<le> PLVL_ROOT \<or> pid (procs s c) = n \<or>
     (\<forall>p \<in> live s. pid (procs s p) \<noteq> n) \<or>
     (\<exists>t \<in> live s. process_find_by_pid s n = Some t \<and> descends up_link s (pid (procs s c)) t)"
  using process_find_Some
  by (auto simp: process_kill_allowed_def Let_def kill_walk_link link_walk_iff [OF assms]
      proc_is_privileged_def simp flip: process_find_None)

text \<open>\<open>process_ipc_allowed\<close> decides who may be sent a message: everybody with the capability,
  otherwise the caller itself, its parent and its descendants along the parent links.\<close>

theorem process_ipc_allowed_iff:
  assumes "length (process_pool s) = MAX_PROCESSES"
  shows "process_ipc_allowed s (Some c) n \<longleftrightarrow>
     plevel (procs s c) = PLVL_MACHINE \<or> pcaps (procs s c) AND CAP_IPC_ANY = CAP_IPC_ANY \<or>
     pid (procs s c) = n \<or> parent_pid (procs s c) = n \<or>
     (\<exists>t \<in> live s. process_find_by_pid s n = Some t \<and> descends parent_pid s (pid (procs s c)) t)"
  using process_find_Some
  by (auto simp: process_ipc_allowed_def ipc_walk_link link_walk_iff [OF assms] proc_has_cap_def)

section \<open>The table invariant\<close>

definition pool_distinct :: "pref option list \<Rightarrow> bool" where
  "pool_distinct xs = distinct (filter (\<lambda>x. x \<noteq> None) xs)"

definition children :: "sched \<Rightarrow> int \<Rightarrow> pref set" where
  "children s n = {p \<in> live s. parent_pid (procs s p) = n}"

definition live_pid :: "sched \<Rightarrow> int \<Rightarrow> bool" where
  "live_pid s n \<longleftrightarrow> (\<exists>q \<in> live s. pid (procs s q) = n)"

text \<open>Identifiers are unique and drawn from the two bands of the allocator, every parent and owner
  link names a live process, and \<open>child_count\<close> is the number of live children.\<close>

definition table_wf :: "sched \<Rightarrow> bool" where
  "table_wf s \<longleftrightarrow>
     length (process_pool s) = MAX_PROCESSES \<and> pool_distinct (process_pool s) \<and>
     inj_on (\<lambda>p. pid (procs s p)) (live s) \<and>
     (\<forall>p \<in> live s. 0 < pid (procs s p) \<and>
        (pid (procs s p) < next_pid s \<or> 32000 \<le> pid (procs s p) \<and> pid (procs s p) < next_idle_pid s)) \<and>
     0 < next_pid s \<and> next_pid s \<le> 32000 \<and> 32000 \<le> next_idle_pid s \<and>
     active_count s = int (card (live s)) \<and>
     (\<forall>p \<in> live s. parent_pid (procs s p) = 0 \<or> live_pid s (parent_pid (procs s p))) \<and>
     (\<forall>p \<in> live s. owner_pid (procs s p) = 0 \<or> live_pid s (owner_pid (procs s p))) \<and>
     (\<forall>p \<in> live s. child_count (procs s p) = int (card (children s (pid (procs s p)))))"

lemma Some_in_update_None:
  assumes "pool_distinct xs" "i < length xs" "xs ! i = Some p"
  shows "Some q \<in> set (xs[i := None]) \<longleftrightarrow> Some q \<in> set xs \<and> q \<noteq> p"
  using assms
proof (induction xs arbitrary: i)
  case (Cons x xs)
  show ?case
  proof (cases i)
    case 0
    with Cons.prems show ?thesis by (auto simp: pool_distinct_def)
  next
    case (Suc k)
    then have "Some p \<in> set xs" using Cons.prems nth_mem by fastforce
    moreover have "pool_distinct xs" using Cons.prems by (auto simp: pool_distinct_def split: if_splits)
    ultimately show ?thesis
      using Cons.IH [of k] Cons.prems Suc by (auto simp: pool_distinct_def split: if_splits)
  qed
qed simp

lemma pool_distinct_update_None:
  "pool_distinct xs \<Longrightarrow> pool_distinct (xs[i := None])"
proof (induction xs arbitrary: i)
  case (Cons x xs)
  have "Some q \<in> set (xs[k := None]) \<Longrightarrow> Some q \<in> set xs" for q k
    using set_update_subset_insert [of xs k None] by auto
  with Cons show ?case by (cases i) (auto simp: pool_distinct_def split: if_splits)
qed simp

lemma Some_in_update_Some:
  assumes "i < length xs" "xs ! i = None"
  shows "Some q \<in> set (xs[i := Some p]) \<longleftrightarrow> Some q \<in> set xs \<or> q = p"
  using assms
proof (induction xs arbitrary: i)
  case (Cons x xs)
  then show ?case by (cases i) auto
qed simp

lemma pool_distinct_update_Some:
  "pool_distinct xs \<Longrightarrow> i < length xs \<Longrightarrow> xs ! i = None \<Longrightarrow> Some p \<notin> set xs
     \<Longrightarrow> pool_distinct (xs[i := Some p])"
proof (induction xs arbitrary: i)
  case (Cons x xs)
  then show ?case
    using Some_in_update_Some [of _ xs]
    by (cases i; cases x) (auto simp: pool_distinct_def)
qed simp

lemma pool_index_Some: "pool_index i p xs = Some k \<Longrightarrow> i \<le> k \<and> k < i + length xs \<and> xs ! (k - i) = Some p"
proof (induction i p xs rule: pool_index.induct)
  case (2 i p x xs)
  then show ?case by (auto split: if_splits simp: nth_Cons')
qed simp

lemma pool_index_None: "pool_index i p xs = None \<longleftrightarrow> Some p \<notin> set xs"
  by (induction i p xs rule: pool_index.induct) auto

lemma find_slot_Some: "find_slot i xs = Some k \<Longrightarrow> i \<le> k \<and> k < i + length xs \<and> xs ! (k - i) = None"
proof (induction i xs rule: find_slot.induct)
  case (2 i x xs)
  then show ?case by (auto split: if_splits simp: nth_Cons')
qed simp

lemma find_slot_None: "find_slot i xs = None \<longleftrightarrow> None \<notin> set xs"
  by (induction i xs rule: find_slot.induct) auto

subsection \<open>Re-homing\<close>

definition adopt :: "int \<Rightarrow> int \<Rightarrow> process \<Rightarrow> process" where
  "adopt d hp r = r\<lparr>owner_pid := (if owner_pid r = d then 0 else owner_pid r),
                    parent_pid := (if parent_pid r = d then hp else parent_pid r)\<rparr>"

definition bump :: "int \<Rightarrow> process \<Rightarrow> process" where
  "bump k r = r\<lparr>child_count := child_count r + k\<rparr>"

lemma bump_simps [simp]:
  "bump 0 r = r" "bump a (bump b r) = bump (b + a) r" "adopt d hp (bump a r) = bump a (adopt d hp r)"
  "child_count (bump a r) = child_count r + a" "child_count (adopt d hp r) = child_count r"
  "pid (bump a r) = pid r" "pid (adopt d hp r) = pid r"
  "parent_pid (bump a r) = parent_pid r" "owner_pid (bump a r) = owner_pid r"
  "parent_pid (adopt d hp r) = (if parent_pid r = d then hp else parent_pid r)"
  "owner_pid (adopt d hp r) = (if owner_pid r = d then 0 else owner_pid r)"
  by (simp_all add: bump_def adopt_def)

lemma reparent_one_procs:
  assumes "p \<noteq> dead" "heir \<noteq> Some dead"
  shows "procs (reparent_one dead heir hp p s) q =
     (let d = pid (procs s dead);
          r = (if q = p then adopt d hp (procs s q) else procs s q)
      in if heir = Some q \<and> parent_pid (procs s p) = d
         then bump 1 r else r)"
  using assms by (auto simp: bump_def reparent_one_def upd_proc_def adopt_def Let_def split: option.splits)

lemma reparent_loop_procs:
  assumes "pool_distinct xs" "heir \<noteq> Some dead"
  shows "procs (reparent_loop dead heir hp xs s) q =
     (let d = pid (procs s dead);
          r = (if q \<noteq> dead \<and> Some q \<in> set xs then adopt d hp (procs s q) else procs s q)
      in if heir = Some q
         then bump (int (card {x. Some x \<in> set xs \<and> x \<noteq> dead \<and> parent_pid (procs s x) = d})) r
         else r)"
  using assms
proof (induction xs arbitrary: s)
  case Nil
  then show ?case by (simp add: Let_def)
next
  case (Cons x xs)
  have pd: "pool_distinct xs" using Cons.prems by (auto simp: pool_distinct_def split: if_splits)
  show ?case
  proof (cases "x = None \<or> x = Some dead")
    case True
    then have loop: "reparent_loop dead heir hp (x # xs) s = reparent_loop dead heir hp xs s"
      by (auto simp: reparent_one_def)
    have mem: "Some y \<in> set (x # xs) \<and> y \<noteq> dead \<longleftrightarrow> Some y \<in> set xs \<and> y \<noteq> dead" for y
      using True by auto
    have sets: "{y. Some y \<in> set (x # xs) \<and> y \<noteq> dead \<and> parent_pid (procs s y) = d}
        = {y. Some y \<in> set xs \<and> y \<noteq> dead \<and> parent_pid (procs s y) = d}" for d
      using mem by blast
    have mem': "q \<noteq> dead \<and> Some q \<in> set (x # xs) \<longleftrightarrow> q \<noteq> dead \<and> Some q \<in> set xs"
      using mem by blast
    show ?thesis unfolding loop sets mem' by (rule Cons.IH [OF pd Cons.prems(2)])
  next
    case False
    then obtain p where p: "x = Some p" "p \<noteq> dead" by auto
    have nin: "Some p \<notin> set xs" using Cons.prems p by (auto simp: pool_distinct_def)
    let ?s = "reparent_one dead heir hp p s"
    let ?d = "pid (procs s dead)"
    let ?C = "{y. Some y \<in> set xs \<and> y \<noteq> dead \<and> parent_pid (procs s y) = ?d}"
    have step: "procs ?s y = (let r = (if y = p then adopt ?d hp (procs s y) else procs s y)
        in if heir = Some y \<and> parent_pid (procs s p) = ?d then bump 1 r else r)" for y
      using reparent_one_procs [OF p(2) Cons.prems(2)] by (simp add: Let_def)
    have dead: "procs ?s dead = procs s dead"
      using step [of dead] p Cons.prems(2) by (auto simp: Let_def)
    have par: "Some y \<in> set xs \<Longrightarrow> parent_pid (procs ?s y) = parent_pid (procs s y)" for y
      using step [of y] nin by (auto simp: Let_def)
    have C: "{y. Some y \<in> set xs \<and> y \<noteq> dead \<and> parent_pid (procs ?s y) = ?d} = ?C"
      using par by auto
    have C': "{y. Some y \<in> set (x # xs) \<and> y \<noteq> dead \<and> parent_pid (procs s y) = ?d}
        = (if parent_pid (procs s p) = ?d then insert p ?C else ?C)"
      using p by auto
    have "finite ?C" by (rule finite_subset [of _ "the ` set xs"]) force+
    then have card: "card (insert p ?C) = Suc (card ?C)" using nin by simp
    have "reparent_loop dead heir hp (x # xs) s = reparent_loop dead heir hp xs ?s" using p by simp
    then have eq: "procs (reparent_loop dead heir hp (x # xs) s) q =
      (let r = (if q \<noteq> dead \<and> Some q \<in> set xs then adopt ?d hp (procs ?s q) else procs ?s q)
       in if heir = Some q then bump (int (card ?C)) r else r)"
      using Cons.IH [OF pd Cons.prems(2), of ?s] by (simp only: dead C Let_def)
    have mem: "q \<noteq> dead \<and> Some q \<in> set (x # xs) \<longleftrightarrow> q = p \<or> q \<noteq> dead \<and> Some q \<in> set xs"
      using p by auto
    define k where "k = int (card ?C)"
    have k': "int (card (if parent_pid (procs s p) = ?d then insert p ?C else ?C))
        = (if parent_pid (procs s p) = ?d then k + 1 else k)"
      by (simp add: card k_def del: card_insert_disjoint)
    show ?thesis
      unfolding eq Let_def unfolding mem C' k' step Let_def unfolding k_def [symmetric]
      using nin Cons.prems(2) by (cases "q = p"; cases "heir = Some q"; cases "parent_pid (procs s p) = ?d") (auto simp: add.commute)
  qed
qed

text \<open>Everything but the descriptors is left alone.\<close>

definition same_globals :: "sched \<Rightarrow> sched \<Rightarrow> bool" where
  "same_globals s s' \<longleftrightarrow> s' = s\<lparr>procs := procs s'\<rparr>"

lemma same_globals_refl [simp]: "same_globals s s"
  by (simp add: same_globals_def)

lemma same_globals_upd [simp]: "same_globals s (upd_proc p f t) \<longleftrightarrow> same_globals s t"
  unfolding same_globals_def upd_proc_def by (cases s; cases t) auto

lemma same_globals_trans: "same_globals s t \<Longrightarrow> same_globals t u \<Longrightarrow> same_globals s u"
  unfolding same_globals_def by (cases s; cases t; cases u) auto

lemma same_globalsD:
  assumes "same_globals s s'"
  shows "process_pool s' = process_pool s" "live s' = live s" "active_count s' = active_count s"
    "next_pid s' = next_pid s" "next_idle_pid s' = next_idle_pid s"
    "reaped_ring s' = reaped_ring s" "reaped_next s' = reaped_next s"
  using assms unfolding same_globals_def live_def by (cases s; cases s'; simp)+

lemma same_globals_reparent_one: "same_globals s (reparent_one dead heir hp p s)"
  by (simp add: reparent_one_def Let_def split: option.split)

lemma same_globals_reparent_loop: "same_globals s (reparent_loop dead heir hp xs s)"
  by (induction dead heir hp xs s rule: reparent_loop.induct)
     (auto intro: same_globals_reparent_one same_globals_trans)

lemma same_globals_reparent: "same_globals s (reparent_children dead s)"
  by (simp add: reparent_children_def Let_def same_globals_reparent_loop)

lemma same_globals_dec: "same_globals s (child_count_dec p s)"
  by (auto simp: child_count_dec_def split: option.splits)

lemma reparent_heir_live: "reparent_heir dead s = Some h \<Longrightarrow> h \<in> live s"
  by (auto simp: reparent_heir_def Let_def split: if_splits dest: process_find_Some)

lemma reparent_children_procs:
  assumes "pool_distinct (process_pool s)" "dead \<notin> live s"
  defines "h \<equiv> reparent_heir dead s"
  defines "hp \<equiv> (case h of None \<Rightarrow> 0 | Some x \<Rightarrow> pid (procs s x))"
  shows "procs (reparent_children dead s) q =
     (let d = pid (procs s dead);
          r = (if q \<in> live s then adopt d hp (procs s q) else procs s q)
      in if h = Some q then bump (int (card (children s d))) r else r)"
proof -
  have hd: "h \<noteq> Some dead" using reparent_heir_live assms by (metis h_def)
  have "{x. Some x \<in> set (process_pool s) \<and> x \<noteq> dead \<and> parent_pid (procs s x) = d} = children s d" for d
    using assms(2) by (auto simp: children_def live_def)
  moreover have "q \<noteq> dead \<and> Some q \<in> set (process_pool s) \<longleftrightarrow> q \<in> live s"
    using assms(2) by (auto simp: live_def)
  ultimately show ?thesis
    using reparent_loop_procs [OF assms(1) hd, of hp s q]
    by (simp add: reparent_children_def Let_def flip: h_def hp_def)
qed

lemma child_count_dec_procs:
  "procs (child_count_dec p s) q =
     (if parent_pid (procs s p) > 0 \<and> process_find_by_pid s (parent_pid (procs s p)) = Some q
         \<and> child_count (procs s q) > 0
      then bump (- 1) (procs s q) else procs s q)"
  by (auto simp: child_count_dec_def upd_proc_def bump_def split: option.splits)

subsection \<open>Removal\<close>

lemma record_reaped_simps [simp]:
  "procs (record_reaped p s) = procs s" "process_pool (record_reaped p s) = process_pool s"
  "active_count (record_reaped p s) = active_count s" "next_pid (record_reaped p s) = next_pid s"
  "next_idle_pid (record_reaped p s) = next_idle_pid s"
  by (simp_all add: record_reaped_def)

definition removed :: "pref \<Rightarrow> sched \<Rightarrow> sched \<Rightarrow> bool" where
  "removed p s s' \<longleftrightarrow> live s' = live s - {p} \<and> pool_distinct (process_pool s') \<and>
     length (process_pool s') = length (process_pool s) \<and> procs s' = procs s \<and>
     active_count s' = active_count s - 1 \<and> next_pid s' = next_pid s \<and>
     next_idle_pid s' = next_idle_pid s"

text \<open>The bookkeeping half of a removal, common to termination and to the roll-back of a failed
  creation: the process is out of the pool and its parent no longer counts it.\<close>

lemma child_count_after_dec:
  assumes wf: "table_wf s" and p: "p \<in> live s" and rem: "removed p s t"
    and q: "q \<in> live t"
  shows "child_count (procs (child_count_dec p t) q) = int (card (children s (pid (procs s q)) - {p}))"
proof -
  let ?C = "children s (pid (procs s q))"
  have qs: "q \<in> live s" "q \<noteq> p" using q rem by (auto simp: removed_def)
  have cc: "child_count (procs s q) = int (card ?C)" and pos: "0 < pid (procs s q)"
    using wf qs by (auto simp: table_wf_def)
  have inj: "inj_on (\<lambda>p. pid (procs t p)) (live t)"
    using wf rem by (auto simp: table_wf_def removed_def intro: inj_on_subset)
  have fin: "finite ?C" by (simp add: children_def)
  have pr: "procs t = procs s" using rem by (simp add: removed_def)
  show ?thesis
  proof (cases "parent_pid (procs s p) = pid (procs s q)")
    case True
    then have mem: "p \<in> ?C" using p by (simp add: children_def)
    then have "0 < card ?C" using fin by (auto simp: card_gt_0_iff)
    moreover have "process_find_by_pid t (parent_pid (procs s p)) = Some q"
      using process_find_eq [OF inj q] True pr by simp
    ultimately show ?thesis
      using True pos cc mem fin pr by (simp add: child_count_dec_procs of_nat_diff)
  next
    case False
    then have nmem: "p \<notin> ?C" by (auto simp: children_def)
    have "process_find_by_pid t (parent_pid (procs s p)) \<noteq> Some q"
      using False process_find_Some [of t _ q] pr by auto
    then show ?thesis using cc nmem pr by (simp add: child_count_dec_procs)
  qed
qed

lemma dec_fields [simp]:
  "pid (procs (child_count_dec p s) q) = pid (procs s q)"
  "parent_pid (procs (child_count_dec p s) q) = parent_pid (procs s q)"
  "owner_pid (procs (child_count_dec p s) q) = owner_pid (procs s q)"
  by (simp_all add: child_count_dec_procs)

text \<open>What re-homing leaves of a process: its links to the dead process lead to the heir, and the heir
  counts what it inherited.\<close>

definition heir_pid :: "sched \<Rightarrow> pref option \<Rightarrow> int" where
  "heir_pid s h = (case h of None \<Rightarrow> 0 | Some x \<Rightarrow> pid (procs s x))"

lemma removed_fields:
  assumes wf: "table_wf s" and p: "p \<in> live s" and rem: "removed p s t"
  defines "v \<equiv> child_count_dec p t"
  defines "u \<equiv> reparent_children p v"
  defines "d \<equiv> pid (procs s p)"
  defines "h \<equiv> reparent_heir p v"
  shows "live u = live s - {p}" "process_pool u = process_pool t" "active_count u = active_count t"
    "next_pid u = next_pid t" "next_idle_pid u = next_idle_pid t"
    "q \<in> live u \<Longrightarrow> pid (procs u q) = pid (procs s q)"
    "q \<in> live u \<Longrightarrow> parent_pid (procs u q) = (if parent_pid (procs s q) = d then heir_pid s h else parent_pid (procs s q))"
    "q \<in> live u \<Longrightarrow> owner_pid (procs u q) = (if owner_pid (procs s q) = d then 0 else owner_pid (procs s q))"
    "q \<in> live u \<Longrightarrow> child_count (procs u q) = int (card (children s (pid (procs s q)) - {p}))
        + (if h = Some q then int (card (children s d - {p})) else 0)"
    "h = Some x \<Longrightarrow> x \<in> live u"
proof -
  have gl: "same_globals t v" "same_globals v u" by (simp_all add: u_def v_def same_globals_dec same_globals_reparent)
  have live_v: "live v = live s - {p}" using same_globalsD(2) [OF gl(1)] rem by (simp add: removed_def)
  then show live_u: "live u = live s - {p}" using same_globalsD(2) [OF gl(2)] by simp
  show "process_pool u = process_pool t" "active_count u = active_count t" "next_pid u = next_pid t"
    "next_idle_pid u = next_idle_pid t" using same_globalsD [OF gl(1)] same_globalsD [OF gl(2)] by simp_all
  show "h = Some x \<Longrightarrow> x \<in> live u" using reparent_heir_live live_v live_u by (metis h_def)
  have pd: "pool_distinct (process_pool v)" and pr: "procs t = procs s"
    using same_globalsD(1) [OF gl(1)] rem by (simp_all add: removed_def)
  have pv: "pid (procs v x) = pid (procs s x)" for x by (simp add: v_def pr)
  have hp: "heir_pid s h = (case h of None \<Rightarrow> 0 | Some x \<Rightarrow> pid (procs v x))" by (cases h) (simp_all add: heir_pid_def pv)
  assume q: "q \<in> live u"
  have procs_u: "procs u q = (let r = adopt d (heir_pid s h) (procs v q)
      in if h = Some q then bump (int (card (children v d))) r else r)"
    using reparent_children_procs [OF pd, of p q] q live_v live_u pv
    unfolding h_def [symmetric] hp [symmetric] by (simp add: u_def d_def Let_def)
  show "pid (procs u q) = pid (procs s q)"
    "parent_pid (procs u q) = (if parent_pid (procs s q) = d then heir_pid s h else parent_pid (procs s q))"
    "owner_pid (procs u q) = (if owner_pid (procs s q) = d then 0 else owner_pid (procs s q))"
    using procs_u pr by (simp_all add: Let_def v_def)
  have "q \<in> live t" "children v d = children s d - {p}"
    using q live_u live_v rem pr by (auto simp: removed_def children_def v_def)
  then show "child_count (procs u q) = int (card (children s (pid (procs s q)) - {p}))
        + (if h = Some q then int (card (children s d - {p})) else 0)"
    using child_count_after_dec [OF wf p rem, of q] procs_u by (cases "h = Some q") (simp_all add: Let_def v_def)
qed

lemma removed_step:
  assumes wf: "table_wf s" and p: "p \<in> live s" and rem: "removed p s t"
  defines "u \<equiv> reparent_children p (child_count_dec p t)"
  defines "d \<equiv> pid (procs s p)"
  shows "table_wf u" "live u = live s - {p}"
    "\<forall>q \<in> live u. parent_pid (procs u q) \<noteq> d \<and> owner_pid (procs u q) \<noteq> d"
proof -
  define h where "h = reparent_heir p (child_count_dec p t)"
  note f = removed_fields [OF wf p rem, folded u_def d_def h_def]
  show live_u: "live u = live s - {p}" by (rule f)
  have par: "parent_pid (procs u q) = (if parent_pid (procs s q) = d then heir_pid s h else parent_pid (procs s q))"
    if "q \<in> live s" "q \<noteq> p" for q using f(7) live_u that by simp
  have inj: "inj_on (\<lambda>p. pid (procs s p)) (live s)" and pos: "\<And>q. q \<in> live s \<Longrightarrow> 0 < pid (procs s q)"
    using wf by (auto simp: table_wf_def)
  have d_new: "pid (procs s q) \<noteq> d" if "q \<in> live u" for q using that inj p live_u by (auto simp: inj_on_def d_def)
  have hp: "heir_pid s h = 0 \<or> (\<exists>x \<in> live u. heir_pid s h = pid (procs s x))"
    using f(10) by (cases h) (auto simp: heir_pid_def)
  have hp_d: "heir_pid s h \<noteq> d" using hp d_new pos [OF p] unfolding d_def by (metis order_less_irrefl)
  show "\<forall>q \<in> live u. parent_pid (procs u q) \<noteq> d \<and> owner_pid (procs u q) \<noteq> d"
    using hp_d pos [OF p] by (auto simp: f d_def)
  have lp: "live_pid u n" if "live_pid s n" "n \<noteq> d" for n using that live_u f(6) unfolding live_pid_def by (auto simp: d_def)
  have hp_lp: "heir_pid s h = 0 \<or> live_pid u (heir_pid s h)" using hp f(6) by (auto simp: live_pid_def)
  have counts: "child_count (procs u q) = int (card (children u (pid (procs u q))))" if q: "q \<in> live u" for q
  proof -
    let ?n = "pid (procs s q)"
    have ch: "children u ?n = (children s ?n - {p}) \<union> (if ?n = heir_pid s h then children s d - {p} else {})"
      using d_new [OF q] by (auto simp: children_def live_u par split: if_splits)
    have disj: "(children s ?n - {p}) \<inter> (children s d - {p}) = {}" using d_new [OF q] by (auto simp: children_def)
    have fin: "finite (children s k - {p})" for k by (simp add: children_def)
    have "h = Some q \<longleftrightarrow> ?n = heir_pid s h"
      using pos [of q] q f(10) live_u inj by (cases h) (auto simp: heir_pid_def inj_on_def)
    then have "child_count (procs u q) = int (card (children u ?n))"
      unfolding ch using card_Un_disjoint [OF fin fin disj] f(9) [OF q] by (cases "?n = heir_pid s h") simp_all
    then show ?thesis by (simp add: f(6) [OF q])
  qed
  show "table_wf u"
    unfolding table_wf_def
  proof (intro conjI ballI)
    show "length (process_pool u) = MAX_PROCESSES" "pool_distinct (process_pool u)"
      "0 < next_pid u" "next_pid u \<le> 32000" "32000 \<le> next_idle_pid u"
      using wf rem f(2,4,5) by (simp_all add: table_wf_def removed_def)
    show "inj_on (\<lambda>p. pid (procs u p)) (live u)" using inj live_u f(6) by (auto simp: inj_on_def)
    show "active_count u = int (card (live u))"
      using wf rem f(3) card.remove [OF finite_live p] unfolding live_u by (simp add: table_wf_def removed_def)
    fix q assume q: "q \<in> live u"
    then have qs: "q \<in> live s" using live_u by simp
    show "0 < pid (procs u q)" using pos qs f(6) q by simp
    show "pid (procs u q) < next_pid u \<or> 32000 \<le> pid (procs u q) \<and> pid (procs u q) < next_idle_pid u"
      using wf qs f(4-6) q rem by (auto simp: table_wf_def removed_def)
    show "parent_pid (procs u q) = 0 \<or> live_pid u (parent_pid (procs u q))"
      using wf qs hp_lp lp f(7) [OF q] by (auto simp: table_wf_def)
    show "owner_pid (procs u q) = 0 \<or> live_pid u (owner_pid (procs u q))"
      using wf qs lp f(8) [OF q] by (auto simp: table_wf_def)
    show "child_count (procs u q) = int (card (children u (pid (procs u q))))" by (rule counts [OF q])
  qed
qed

lemma removed_pool_update:
  assumes "table_wf s" "slot < length (process_pool s)" "process_pool s ! slot = Some p"
    "process_pool t = (process_pool s)[slot := None]" "procs t = procs s"
    "active_count t = active_count s - 1" "next_pid t = next_pid s" "next_idle_pid t = next_idle_pid s"
  shows "removed p s t"
  using assms Some_in_update_None [of "process_pool s" slot p] pool_distinct_update_None
  by (auto simp: removed_def live_def table_wf_def)

lemma pool_remove_None: "pool_remove p s = (None, s') \<longleftrightarrow> p \<notin> live s \<and> s' = s"
  using pool_index_None [of 0 p "process_pool s"]
  by (cases "pool_index 0 p (process_pool s)") (auto simp: pool_remove_def live_def Let_def)

text \<open>Who must inherit the children of \<open>p\<close>, said of the table alone: the parent of \<open>p\<close> when that is
  another live process, otherwise init (process identifier 1) when it is alive and is not \<open>p\<close> itself,
  and nobody (0) only when neither exists.\<close>

definition other_live :: "sched \<Rightarrow> pref \<Rightarrow> int \<Rightarrow> bool" where
  "other_live s p n \<longleftrightarrow> (\<exists>q \<in> live s. q \<noteq> p \<and> pid (procs s q) = n)"

definition adopter :: "sched \<Rightarrow> pref \<Rightarrow> int" where
  "adopter s p =
     (if other_live s p (parent_pid (procs s p)) then parent_pid (procs s p)
      else if other_live s p 1 then 1 else 0)"

lemma heir_pid_adopter:
  assumes wf: "table_wf s" and p: "p \<in> live s" and rem: "removed p s t"
  shows "heir_pid s (reparent_heir p (child_count_dec p t)) = adopter s p"
proof -
  let ?v = "child_count_dec p t"
  have pr: "procs t = procs s" and lt: "live t = live s - {p}" using rem by (simp_all add: removed_def)
  have lv: "live ?v = live s - {p}" using same_globalsD(2) [OF same_globals_dec, of p t] lt by simp
  have fnd: "heir_pid s (process_find_by_pid ?v n) = (if other_live s p n then n else 0)" for n
  proof (cases "process_find_by_pid ?v n")
    case None
    then show ?thesis
      using process_find_None [of ?v n] lv by (auto simp: heir_pid_def other_live_def pr)
  next
    case (Some q)
    then show ?thesis
      using process_find_Some [OF Some] lv by (auto simp: heir_pid_def other_live_def pr)
  qed
  have none: "process_find_by_pid ?v n = None \<longleftrightarrow> \<not> other_live s p n" for n
    using process_find_None [of ?v n] lv by (auto simp: other_live_def pr)
  have pos: "n > 0" if "other_live s p n" for n
    using that wf by (auto simp: other_live_def table_wf_def)
  have "inj_on (\<lambda>p. pid (procs s p)) (live s)" using wf by (simp add: table_wf_def)
  then have one: "\<not> other_live s p 1" if "pid (procs s p) = 1"
    using that p unfolding other_live_def by (metis inj_onD)
  have zero: "heir_pid s None = 0" by (simp add: heir_pid_def)
  let ?par = "parent_pid (procs s p)"
  have eq: "reparent_heir p ?v = (if other_live s p ?par then process_find_by_pid ?v ?par
      else if pid (procs s p) \<noteq> 1 then process_find_by_pid ?v 1 else None)"
    using pos [of ?par] none [of ?par] by (simp add: reparent_heir_def Let_def pr)
  show ?thesis unfolding eq adopter_def using one fnd [of ?par] fnd [of 1] zero by simp
qed

text \<open>C9. Taking a process out of the pool keeps the table invariant and re-homes what the process
  leaves behind: each of its children gets as parent the adopter, that is the parent of the removed
  process when it is another live process, otherwise init when init is alive, and 0 only when there
  is neither; a process it owned gets no owner; every other parent and owner link and every process
  identifier is as before; and every child count, the adopter's included, is again the number of
  live children. So no link names the dead process any more, and no child is orphaned while its
  grandparent or init lives.\<close>

theorem pool_remove_keeps_table:
  assumes "table_wf s" "p \<in> live s" "pool_remove p s = (r, s')"
  shows "table_wf s' \<and> live s' = live s - {p} \<and> active_count s' = active_count s - 1 \<and>
     (\<forall>q \<in> live s'. parent_pid (procs s' q) \<noteq> pid (procs s p) \<and> owner_pid (procs s' q) \<noteq> pid (procs s p)
        \<and> pid (procs s' q) = pid (procs s q)
        \<and> parent_pid (procs s' q) = (if parent_pid (procs s q) = pid (procs s p) then adopter s p
                                     else parent_pid (procs s q))
        \<and> owner_pid (procs s' q) = (if owner_pid (procs s q) = pid (procs s p) then 0
                                    else owner_pid (procs s q))
        \<and> child_count (procs s' q) = int (card (children s' (pid (procs s' q)))))"
proof -
  obtain slot where slot: "pool_index 0 p (process_pool s) = Some slot"
    using assms(2) pool_index_None [of 0 p "process_pool s"] by (auto simp: live_def)
  define t where "t = (record_reaped p s)\<lparr>process_pool := (process_pool s)[slot := None],
      active_count := active_count s - 1\<rparr>"
  have s': "s' = reparent_children p (child_count_dec p t)"
    using assms(3) slot by (simp add: pool_remove_def Let_def t_def)
  have rem: "removed p s t"
    using pool_index_Some [OF slot] by (intro removed_pool_update [OF assms(1)]) (auto simp: t_def)
  note st = removed_step [OF assms(1,2) rem, folded s']
  note fs = removed_fields(6-8) [OF assms(1,2) rem, folded s']
  have "active_count s' = int (card (live s'))" using st(1) by (simp add: table_wf_def)
  moreover have "active_count s = int (card (live s))" using assms(1) by (simp add: table_wf_def)
  moreover have "card (live s) = Suc (card (live s - {p}))"
    by (rule card.remove [OF finite_live assms(2)])
  ultimately have act: "active_count s' = active_count s - 1" using st(2) by simp
  have "\<forall>q \<in> live s'. child_count (procs s' q) = int (card (children s' (pid (procs s' q))))"
    using st(1) by (simp add: table_wf_def)
  with st(1-3) act fs show ?thesis
    by (simp add: heir_pid_adopter [OF assms(1,2) rem])
qed

subsection \<open>Creation\<close>

definition table_fields :: "process \<Rightarrow> int \<times> int \<times> int \<times> int" where
  "table_fields r = (pid r, parent_pid r, owner_pid r, child_count r)"

lemma table_wf_cong:
  assumes "process_pool s' = process_pool s" "next_pid s' = next_pid s"
    "next_idle_pid s' = next_idle_pid s" "active_count s' = active_count s"
    "\<And>q. table_fields (procs s' q) = table_fields (procs s q)"
  shows "table_wf s' \<longleftrightarrow> table_wf s" "live s' = live s" "children s' n = children s n"
proof -
  have f: "pid (procs s' q) = pid (procs s q)" "parent_pid (procs s' q) = parent_pid (procs s q)"
      "owner_pid (procs s' q) = owner_pid (procs s q)" "child_count (procs s' q) = child_count (procs s q)" for q
    using assms(5) [of q] by (simp_all add: table_fields_def)
  show l: "live s' = live s" by (simp add: live_def assms(1))
  show c: "children s' n = children s n" for n by (simp add: children_def l f)
  show "table_wf s' \<longleftrightarrow> table_wf s"
    unfolding table_wf_def live_pid_def l c f assms(1-4) ..
qed

lemma new_pid_fresh:
  assumes "table_wf s" "prio \<noteq> PROC_PRIO_IDLE \<Longrightarrow> next_pid s < 32000" "q \<in> live s"
  shows "pid (procs s q) \<noteq> (if prio = PROC_PRIO_IDLE then next_idle_pid s else next_pid s)"
proof -
  have "0 < pid (procs s q) \<and>
      (pid (procs s q) < next_pid s \<or> 32000 \<le> pid (procs s q) \<and> pid (procs s q) < next_idle_pid s)"
      "next_pid s \<le> 32000" "32000 \<le> next_idle_pid s"
    using assms(1,3) unfolding table_wf_def by blast+
  then show ?thesis using assms(2) by (cases "prio = PROC_PRIO_IDLE") auto
qed

text \<open>What publishing a new process leaves of the table.\<close>

lemma create_publish_fields:
  assumes wf: "table_wf s" and room: "prio \<noteq> PROC_PRIO_IDLE \<longrightarrow> next_pid s < 32000"
    and cr: "\<forall>x. creator = Some x \<longrightarrow> x \<in> live s" and p: "p \<notin> live s"
    and slot: "find_free_slot s = Some slot"
    and u_def: "u = create_publish p slot creator nm prio l req e s"
    and n_def: "n = (if prio = PROC_PRIO_IDLE then next_idle_pid s else next_pid s)"
  shows "slot < length (process_pool s)" "process_pool s ! slot = None"
    "process_pool u = (process_pool s)[slot := Some p]" "live u = insert p (live s)" "active_count u = active_count s + 1"
    "0 < n" "n < next_pid u \<or> 32000 \<le> n \<and> n < next_idle_pid u"
    "next_pid s \<le> next_pid u" "next_idle_pid s \<le> next_idle_pid u" "next_pid u \<le> 32000"
    "q \<in> live s \<Longrightarrow> pid (procs u q) = pid (procs s q)" "q \<in> live s \<Longrightarrow> parent_pid (procs u q) = parent_pid (procs s q)"
    "q \<in> live s \<Longrightarrow> owner_pid (procs u q) = owner_pid (procs s q)"
    "q \<in> live s \<Longrightarrow> child_count (procs u q) = child_count (procs s q) + (if creator = Some q then 1 else 0)"
    "pid (procs u p) = n" "parent_pid (procs u p) = heir_pid s creator" "owner_pid (procs u p) = 0" "child_count (procs u p) = 0"
proof -
  show sl: "slot < length (process_pool s)" "process_pool s ! slot = None"
    using find_slot_Some [of 0 "process_pool s"] slot by (auto simp: find_free_slot_def)
  show pool: "process_pool u = (process_pool s)[slot := Some p]" and "active_count u = active_count s + 1"
    by (simp_all add: u_def create_publish_def Let_def upd_proc_def split: option.split)
  show "live u = insert p (live s)" using Some_in_update_Some [OF sl] by (auto simp: live_def pool)
  show "0 < n" "n < next_pid u \<or> 32000 \<le> n \<and> n < next_idle_pid u"
    "next_pid s \<le> next_pid u" "next_idle_pid s \<le> next_idle_pid u" "next_pid u \<le> 32000"
    using wf room by (auto simp: table_wf_def n_def u_def create_publish_def Let_def upd_proc_def split: option.split)
  define q0 where "q0 = create_identity (the_proc s creator) slot nm prio l req e n"
  have procs_u: "procs u q = (let r = (if q = p then q0 else procs s q)
      in if creator = Some q then bump 1 r else r)" for q
    unfolding u_def create_publish_def q0_def n_def by (auto simp: Let_def upd_proc_def bump_def split: option.split)
  have "pid q0 = n" "parent_pid q0 = heir_pid s creator" "owner_pid q0 = 0" "child_count q0 = 0"
    by (auto simp: q0_def heir_pid_def create_identity_def Let_def split: option.split)
  moreover have "creator \<noteq> Some p" using cr p by auto
  ultimately show "pid (procs u p) = n" "parent_pid (procs u p) = heir_pid s creator" "owner_pid (procs u p) = 0" "child_count (procs u p) = 0"
    using procs_u [of p] by (auto simp: Let_def)
  assume "q \<in> live s"
  then show "pid (procs u q) = pid (procs s q)" "parent_pid (procs u q) = parent_pid (procs s q)"
    "owner_pid (procs u q) = owner_pid (procs s q)"
    "child_count (procs u q) = child_count (procs s q) + (if creator = Some q then 1 else 0)"
    using p procs_u [of q] by (auto simp: Let_def)
qed

lemma create_publish_wf:
  fixes nm :: string and l :: nat and req :: u32 and e :: bool
  assumes wf: "table_wf s" and room: "prio \<noteq> PROC_PRIO_IDLE \<Longrightarrow> next_pid s < 32000"
    and cr: "\<And>x. creator = Some x \<Longrightarrow> x \<in> live s" and p: "p \<notin> live s"
    and slot: "find_free_slot s = Some slot"
  defines "u \<equiv> create_publish p slot creator nm prio l req e s"
  defines "n \<equiv> (if prio = PROC_PRIO_IDLE then next_idle_pid s else next_pid s)"
  shows "table_wf u" "live u = insert p (live s)" "children u n = {}"
    "\<forall>q \<in> live u. owner_pid (procs u q) \<noteq> n" "pid (procs u p) = n"
proof -
  have all: "prio \<noteq> PROC_PRIO_IDLE \<longrightarrow> next_pid s < 32000" "\<forall>x. creator = Some x \<longrightarrow> x \<in> live s" using room cr by auto
  note f = create_publish_fields [OF wf all p slot u_def [THEN meta_eq_to_obj_eq] n_def [THEN meta_eq_to_obj_eq]]
  note old = f(11-14) note new = f(15-18)
  show live_u: "live u = insert p (live s)" by (rule f)
  show "pid (procs u p) = n" by (rule new)
  have inj: "inj_on (\<lambda>p. pid (procs s p)) (live s)" using wf by (simp add: table_wf_def)
  have fresh: "pid (procs s q) \<noteq> n" if "q \<in> live s" for q using new_pid_fresh [OF wf room that] by (simp add: n_def)
  have lp: "live_pid s m \<Longrightarrow> live_pid u m" for m using live_u old by (auto simp: live_pid_def)
  have links: "parent_pid (procs s q) \<noteq> n" "owner_pid (procs s q) \<noteq> n" if "q \<in> live s" for q
    using wf that fresh f(6) unfolding table_wf_def live_pid_def by (metis less_irrefl)+
  have par_n: "heir_pid s creator \<noteq> n" and par_lp: "heir_pid s creator = 0 \<or> live_pid u (heir_pid s creator)"
    using cr fresh f(6) lp by (cases creator; auto simp: heir_pid_def live_pid_def)+
  show ch_n: "children u n = {}" using live_u old new links par_n by (auto simp: children_def)
  show "\<forall>q \<in> live u. owner_pid (procs u q) \<noteq> n" using live_u old new links f(6) by auto
  have ch: "children u m = children s m \<union> (if heir_pid s creator = m then {p} else {})" for m
    using live_u old new p by (auto simp: children_def)
  have counts: "child_count (procs u q) = int (card (children u (pid (procs u q))))" if qs: "q \<in> live s" for q
  proof -
    have "p \<notin> children s m" "finite (children s m)" for m using p by (simp_all add: children_def)
    moreover have "heir_pid s creator = pid (procs s q) \<longleftrightarrow> creator = Some q"
      using inj cr qs wf by (cases creator) (auto simp: heir_pid_def inj_on_def table_wf_def)
    ultimately show ?thesis using old [OF qs] wf qs by (simp add: ch table_wf_def)
  qed
  show "table_wf u"
    unfolding table_wf_def
  proof (intro conjI ballI)
    show "length (process_pool u) = MAX_PROCESSES" "pool_distinct (process_pool u)"
      using wf f(1-3) p pool_distinct_update_Some by (simp_all add: table_wf_def live_def)
    show "inj_on (\<lambda>p. pid (procs u p)) (live u)"
      unfolding live_u using inj_onD [OF inj] fresh old(1) new(1) by (intro inj_onI) (metis insertE)
    show "0 < next_pid u" "32000 \<le> next_idle_pid u" "next_pid u \<le> 32000" using wf f(8-10) by (auto simp: table_wf_def)
    show "active_count u = int (card (live u))" using wf f(5) live_u p by (simp add: table_wf_def)
    fix q assume "q \<in> live u"
    then have q: "q = p \<or> q \<in> live s" using live_u by auto
    show "0 < pid (procs u q)" using q wf f(6) old new by (auto simp: table_wf_def)
    have "q \<in> live s \<Longrightarrow> pid (procs s q) < next_pid s \<or> 32000 \<le> pid (procs s q) \<and> pid (procs s q) < next_idle_pid s"
      using wf by (auto simp: table_wf_def)
    then show "pid (procs u q) < next_pid u \<or> 32000 \<le> pid (procs u q) \<and> pid (procs u q) < next_idle_pid u"
      using q f(7-9) old(1) new(1) by (metis order_less_le_trans)
    show "parent_pid (procs u q) = 0 \<or> live_pid u (parent_pid (procs u q))"
      "owner_pid (procs u q) = 0 \<or> live_pid u (owner_pid (procs u q))"
      using q old new lp par_lp wf by (auto simp: table_wf_def)
    show "child_count (procs u q) = int (card (children u (pid (procs u q))))" using q counts new ch_n by auto
  qed
qed

lemma adopt_id: "parent_pid r \<noteq> d \<Longrightarrow> owner_pid r \<noteq> d \<Longrightarrow> adopt d hp r = r"
  by (simp add: adopt_def)

lemma reparent_noop:
  assumes "pool_distinct (process_pool s)" "dead \<notin> live s" "children s (pid (procs s dead)) = {}"
    "\<forall>q \<in> live s. owner_pid (procs s q) \<noteq> pid (procs s dead)"
  shows "reparent_children dead s = s"
proof -
  have "q \<in> live s \<Longrightarrow> parent_pid (procs s q) \<noteq> pid (procs s dead)" for q
    using assms(3) by (auto simp: children_def)
  then have "procs (reparent_children dead s) q = procs s q" for q
    using reparent_children_procs [OF assms(1,2), of q] assms(4) by (simp add: Let_def assms(3) adopt_id)
  then have "procs (reparent_children dead s) = procs s" by blast
  then show ?thesis using same_globals_reparent [of s dead] by (simp add: same_globals_def)
qed

lemma table_wf_pages [simp]:
  "table_wf (s\<lparr>held_pages := a\<rparr>) \<longleftrightarrow> table_wf s" "table_wf (s\<lparr>released := r\<rparr>) \<longleftrightarrow> table_wf s"
  "live (s\<lparr>held_pages := a\<rparr>) = live s" "live (s\<lparr>released := r\<rparr>) = live s"
  by (rule table_wf_cong(1), simp_all)+ (simp_all add: live_def)

lemma create_rollback_wf:
  assumes wf: "table_wf s" and slot: "slot < length (process_pool s)" "process_pool s ! slot = Some p"
    and none: "children s (pid (procs s p)) = {}" "\<forall>q \<in> live s. owner_pid (procs s q) \<noteq> pid (procs s p)"
  shows "table_wf (create_rollback p slot e s)" "live (create_rollback p slot e s) = live s - {p}"
proof -
  define t where "t = s\<lparr>process_pool := (process_pool s)[slot := None], active_count := active_count s - 1\<rparr>"
  let ?v = "child_count_dec p t"
  have p: "p \<in> live s" using slot nth_mem by (fastforce simp: live_def)
  have rem: "removed p s t" by (rule removed_pool_update [OF wf slot]) (simp_all add: t_def)
  have lv: "live ?v = live s - {p}" "process_pool ?v = process_pool t"
    using same_globalsD(1,2) [OF same_globals_dec [of t p]] rem by (simp_all add: removed_def)
  have "reparent_children p ?v = ?v"
    using rem lv none by (intro reparent_noop) (auto simp: removed_def children_def)
  then have v: "table_wf ?v" using removed_step(1) [OF wf p rem] by simp
  have eq: "create_rollback p slot e s
      = ?v\<lparr>held_pages := held_pages ?v - (if e then 2 else 1), released := p # released ?v\<rparr>"
    by (simp add: create_rollback_def Let_def t_def)
  show "table_wf (create_rollback p slot e s)"
    unfolding eq using v by simp
  show "live (create_rollback p slot e s) = live s - {p}"
    unfolding eq using lv by simp
qed

lemma stdio_and_pgd_fields:
  assumes "create_stdio_and_pgd a creator prio p s = (ok, s')"
  shows "process_pool s' = process_pool s" "next_pid s' = next_pid s"
    "next_idle_pid s' = next_idle_pid s" "active_count s' = active_count s"
    "held_pages s' = held_pages s" "released s' = released s" "proc_limit s' = proc_limit s"
    "procs s' q = (procs s q)\<lparr>ctty_win := ctty_win (procs s' q), page_table := page_table (procs s' q)\<rparr>"
  using assms
  by (auto simp: create_stdio_and_pgd_def Let_def upd_proc_def split: if_splits option.splits)

lemma stdio_and_pgd_wf:
  assumes "create_stdio_and_pgd a creator prio p s = (ok, s')"
  shows "table_wf s' \<longleftrightarrow> table_wf s" "live s' = live s" "children s' n = children s n"
    "table_fields (procs s' q) = table_fields (procs s q)"
proof -
  have f: "table_fields (procs s' q) = table_fields (procs s q)" for q
  proof -
    obtain x y where "procs s' q = (procs s q)\<lparr>ctty_win := x, page_table := y\<rparr>"
      using stdio_and_pgd_fields(8) [OF assms, of q] by blast
    then show ?thesis by (simp add: table_fields_def)
  qed
  note c = table_wf_cong [OF stdio_and_pgd_fields(1-4) [OF assms] f]
  show "table_wf s' \<longleftrightarrow> table_wf s" "live s' = live s" "children s' n = children s n"
    "table_fields (procs s' q) = table_fields (procs s q)"
    by (rule c(1) c(2) c(3) f)+
qed

text \<open>The ways through a creation, up to the accounting of pages: refused before anything is published, or
  published and then completed or rolled back.\<close>

lemma process_create_cases:
  assumes run: "process_create_caps a c nm prio l req s = (r, s')"
  obtains (refused) h where "r = None" "s' = s\<lparr>held_pages := h\<rparr>"
  | (built) h e slot p ok u where "find_free_slot s = Some slot" "got_proc_page a = Some p"
      "create_stdio_and_pgd a (current_process s c) prio p
         (create_publish p slot (current_process s c) nm prio l req e (s\<lparr>held_pages := h\<rparr>)) = (ok, u)"
      "r = None \<and> s' = create_rollback p slot False u \<or> r = Some p \<and> (\<exists>k x.
         s' = (upd_proc p (\<lambda>q. q\<lparr>kernel_stack := x, context_pc := Some 0, on_cpu := - 1\<rparr>) u)\<lparr>held_pages := k\<rparr>)"
proof -
  define e where "e = (prio \<noteq> PROC_PRIO_IDLE \<and> got_env_page a)"
  define s1 where "s1 = (if e then s\<lparr>held_pages := held_pages s + 1\<rparr> else s)"
  define undo where "undo = (if e then s1\<lparr>held_pages := held_pages s1 - 1\<rparr> else s1)"
  define h where "h = (if e then held_pages s + 1 else held_pages s)"
  have s1: "s1 = s\<lparr>held_pages := h\<rparr>" by (simp add: s1_def h_def)
  have undo: "\<exists>h. undo = s\<lparr>held_pages := h\<rparr>" by (cases e) (auto simp: undo_def s1)
  have same: "find_free_slot s1 = find_free_slot s" "current_process s1 c = current_process s c"
    by (simp_all add: s1 find_free_slot_def current_process_def)
  note def = run [unfolded process_create_caps_def e_def [symmetric], unfolded Let_def, folded s1_def, folded undo_def, unfolded same]
  show thesis
  proof (cases "check_quota s1 (current_process s c) \<and> find_free_slot s \<noteq> None \<and> got_proc_page a \<noteq> None")
    case False
    then have "r = None \<and> s' = undo" using def by (auto split: if_splits option.splits)
    then show thesis using refused undo by blast
  next
    case True
    then obtain slot p where go: "check_quota s1 (current_process s c)" "find_free_slot s = Some slot" "got_proc_page a = Some p" by blast
    obtain ok u where u: "create_stdio_and_pgd a (current_process s c) prio p
       (create_publish p slot (current_process s c) nm prio l req e s1) = (ok, u)" by fastforce
    have "r = None \<and> s' = create_rollback p slot False u \<or> r = Some p \<and> (\<exists>k x.
         s' = (upd_proc p (\<lambda>q. q\<lparr>kernel_stack := x, context_pc := Some 0, on_cpu := - 1\<rparr>) u)\<lparr>held_pages := k\<rparr>)"
      using def go u by (auto split: if_splits option.splits)
    then show thesis using built [OF go(2,3)] u s1 by blast
  qed
qed

text \<open>C10. Process creation keeps the table invariant on every path, roll-backs included: on failure the
  set of live processes is unchanged, on success it gains the new one.  Identifiers stay unique
  while the counter is below the band of the idle tasks.\<close>

theorem process_create_keeps_table:
  assumes wf: "table_wf s" and room: "next_pid s < 32000"
    and cur: "\<forall>x. current_process s c = Some x \<longrightarrow> x \<in> live s"
    and fresh: "\<forall>p. got_proc_page a = Some p \<longrightarrow> p \<notin> live s"
    and run: "process_create_caps a c nm prio l req s = (r, s')"
  shows "table_wf s' \<and> live s' = live s \<union> set_option r"
  using run
proof (cases rule: process_create_cases)
  case (refused h)
  then show ?thesis using wf by simp
next
  case (built h e slot p ok u)
  let ?s = "s\<lparr>held_pages := h\<rparr>"
  define t where "t = create_publish p slot (current_process s c) nm prio l req e ?s"
  have s1: "table_wf ?s" "live ?s = live s" "next_pid ?s = next_pid s" using wf by simp_all
  have "p \<notin> live ?s" "\<And>x. current_process s c = Some x \<Longrightarrow> x \<in> live ?s" "find_free_slot ?s = Some slot"
    using fresh cur built(1,2) by (simp_all add: find_free_slot_def)
  note pub = create_publish_wf [where creator = "current_process s c" and prio = prio and nm = nm and l = l and req = req and e = e,
      OF s1(1) _ this(2,1,3), folded t_def]
  have t: "table_wf t" "live t = insert p (live s)" "children t (pid (procs t p)) = {}"
      "\<forall>q \<in> live t. owner_pid (procs t q) \<noteq> pid (procs t p)" using pub room by simp_all
  note u = built(3) [folded t_def]
  note uf = stdio_and_pgd_wf [OF u]
  have fu: "pid (procs u q) = pid (procs t q)" "owner_pid (procs u q) = owner_pid (procs t q)" for q
    using uf(4) [of q] by (auto simp: table_fields_def)
  have "process_pool t = (process_pool s)[slot := Some p]"
    by (simp add: t_def create_publish_def Let_def upd_proc_def split: option.split)
  then have slot: "slot < length (process_pool u)" "process_pool u ! slot = Some p"
    using find_slot_Some [of 0 "process_pool s"] built(1) stdio_and_pgd_fields(1) [OF u] by (auto simp: find_free_slot_def)
  have "table_wf (create_rollback p slot False u)" "live (create_rollback p slot False u) = live s"
    using create_rollback_wf [OF _ slot, of False] t uf fu fresh built(2) by auto
  moreover have "table_wf ((upd_proc p f u)\<lparr>held_pages := k\<rparr>)" "live ((upd_proc p f u)\<lparr>held_pages := k\<rparr>) = insert p (live s)"
    if "f = (\<lambda>q. q\<lparr>kernel_stack := x, context_pc := y, on_cpu := z\<rparr>)" for f k x y z
    using table_wf_cong(1,2) [of "upd_proc p f u" u] t uf that by (simp_all add: upd_proc_def table_fields_def)
  ultimately show ?thesis using built(4) by auto
qed

section \<open>A small table\<close>

text \<open>A user shell with one child, for the instances below.\<close>

definition demo_shell :: process where
  "demo_shell = zero_process\<lparr>pid := 5, pstate := PROC_READY, plevel := PLVL_USER, pcaps := 3,
     child_count := 1, penv := Some empty_env\<rparr>"

definition demo_job :: process where
  "demo_job = zero_process\<lparr>pid := 9, pstate := PROC_READY, plevel := PLVL_USER, pcaps := 3,
     parent_pid := 5, penv := Some empty_env\<rparr>"

definition demo_sched :: sched where
  "demo_sched = boot_sched\<lparr>procs := (\<lambda>p. if p = 1 then demo_shell else if p = 2 then demo_job else zero_process),
     process_pool := [Some 1, Some 2] @ replicate 126 None,
     cpus := (\<lambda>c. if c = 0 then zero_cpu\<lparr>online := True, current_task := Some 1\<rparr> else zero_cpu),
     active_count := 2, next_pid := 10\<rparr>"

lemma demo_live: "live demo_sched = {1, 2}"
  by (auto simp: live_def demo_sched_def)

lemma demo_find:
  "process_find_by_pid demo_sched 5 = Some 1" "process_find_by_pid demo_sched 9 = Some 2"
  by (simp_all add: process_find_by_pid_def demo_sched_def demo_shell_def demo_job_def)

lemma demo_table_wf: "table_wf demo_sched"
proof -
  have c: "children demo_sched 5 = {2}" "children demo_sched 9 = {}"
    by (auto simp: children_def demo_live) (auto simp: demo_sched_def demo_shell_def demo_job_def zero_process_def)
  have rep: "filter (\<lambda>x. \<exists>y::nat. x = Some y) (replicate 126 None) = []" by simp
  show ?thesis
    unfolding table_wf_def live_pid_def demo_live
    using c
    by (simp add: pool_distinct_def rep demo_sched_def boot_sched_def demo_shell_def demo_job_def zero_process_def
        MAX_PROCESSES_def inj_on_def)
qed

theorem process_kill_allowed_iff_witness:
  "length (process_pool demo_sched) = MAX_PROCESSES \<and> process_kill_allowed demo_sched (Some 1) 9 \<and>
   (\<exists>t \<in> live demo_sched. process_find_by_pid demo_sched 9 = Some t \<and> descends up_link demo_sched 5 t)"
proof -
  have len: "length (process_pool demo_sched) = MAX_PROCESSES" by (simp add: demo_sched_def MAX_PROCESSES_def)
  have "descends up_link demo_sched 5 2"
    by (rule descends.here) (simp add: demo_sched_def demo_job_def up_link_def zero_process_def)
  then show ?thesis
    using process_kill_allowed_iff [OF len, of 1 9] demo_live demo_find len
    by (simp add: demo_sched_def demo_shell_def)
qed

theorem process_ipc_allowed_iff_witness:
  "length (process_pool demo_sched) = MAX_PROCESSES \<and> process_ipc_allowed demo_sched (Some 1) 9 \<and>
   \<not> process_ipc_allowed demo_sched (Some 2) 77"
proof -
  have len: "length (process_pool demo_sched) = MAX_PROCESSES" by (simp add: demo_sched_def MAX_PROCESSES_def)
  have "descends parent_pid demo_sched 5 2"
    by (rule descends.here) (simp add: demo_sched_def demo_job_def zero_process_def)
  moreover have "process_find_by_pid demo_sched 77 = None"
    by (simp add: process_find_None demo_live) (simp add: demo_sched_def demo_shell_def demo_job_def)
  ultimately show ?thesis
    using process_ipc_allowed_iff [OF len, of 1 9] process_ipc_allowed_iff [OF len, of 2 77] demo_live demo_find len
    by (simp add: demo_sched_def demo_shell_def demo_job_def zero_process_def PLVL_USER_def PLVL_MACHINE_def CAP_IPC_ANY_def)
qed

theorem pool_remove_keeps_table_witness:
  "table_wf (snd (pool_remove 1 demo_sched)) \<and> live (snd (pool_remove 1 demo_sched)) = {2}"
  using pool_remove_keeps_table [OF demo_table_wf, of 1 "fst (pool_remove 1 demo_sched)" "snd (pool_remove 1 demo_sched)"]
  by (simp add: demo_live)

definition demo_alloc :: create_env where
  "demo_alloc = \<lparr>got_env_page = True, got_proc_page = Some 3, stdio_ok = True, got_pgd = Some 4096,
     got_kstack = Some 65536\<rparr>"

theorem process_create_keeps_table_witness:
  "table_wf (snd (process_create_caps demo_alloc 0 ''job'' 2 2 1 demo_sched)) \<and>
   live (snd (process_create_caps demo_alloc 0 ''job'' 2 2 1 demo_sched))
     = {1, 2} \<union> set_option (fst (process_create_caps demo_alloc 0 ''job'' 2 2 1 demo_sched))"
proof -
  have "next_pid demo_sched < 32000" by (simp add: demo_sched_def)
  moreover have "\<forall>x. current_process demo_sched 0 = Some x \<longrightarrow> x \<in> live demo_sched"
    by (simp add: demo_live) (simp add: demo_sched_def current_process_def)
  moreover have "\<forall>p. got_proc_page demo_alloc = Some p \<longrightarrow> p \<notin> live demo_sched"
    by (simp add: demo_live) (simp add: demo_alloc_def)
  ultimately show ?thesis
    using process_create_keeps_table [OF demo_table_wf, of 0 demo_alloc "''job''" 2 2 1] demo_live
    by (metis prod.collapse)
qed

end
