(* ===== verification/Process_Props.thy ===== *)
theory Process_Props
  imports Process_Correct
begin

text \<open>
  The properties of the process table that a client sees: exit statuses are collected once,
  environments are finite maps with an authority rule, and a child never exceeds its creator.
\<close>

section \<open>Exit statuses\<close>

definition ring_wf :: "sched \<Rightarrow> bool" where
  "ring_wf s \<longleftrightarrow> length (reaped_ring s) = REAPED_MAX \<and> reaped_next s < REAPED_MAX"

lemma ring_wf_record: "ring_wf s \<Longrightarrow> ring_wf (record_reaped p s)"
  by (auto simp: ring_wf_def record_reaped_def REAPED_MAX_def)

text \<open>An entry of the ring survives until the ring has gone round.\<close>

lemma fold_record_reaped:
  assumes "ring_wf s" "\<forall>q \<in> set ps. 0 < pid (procs s q)" "length ps \<le> REAPED_MAX"
  shows "reaped_next (fold record_reaped ps s) = (reaped_next s + length ps) mod REAPED_MAX \<and>
     procs (fold record_reaped ps s) = procs s \<and>
     ring_wf (fold record_reaped ps s) \<and>
     (\<forall>i < REAPED_MAX. (\<forall>j < length ps. i \<noteq> (reaped_next s + j) mod REAPED_MAX) \<longrightarrow>
        reaped_ring (fold record_reaped ps s) ! i = reaped_ring s ! i) \<and>
     (\<forall>i < REAPED_MAX. fst (reaped_ring (fold record_reaped ps s) ! i)
        \<in> insert (fst (reaped_ring s ! i)) ((\<lambda>q. pid (procs s q)) ` set ps))"
  using assms
proof (induction ps arbitrary: s)
  case Nil
  then show ?case by (simp add: ring_wf_def)
next
  case (Cons p ps)
  let ?t = "record_reaped p s"
  have t: "ring_wf ?t" "reaped_next ?t = (reaped_next s + 1) mod REAPED_MAX"
      "reaped_ring ?t = (reaped_ring s)[reaped_next s := (pid (procs s p), wait_status (procs s p))]"
    using Cons.prems by (auto simp: ring_wf_record) (simp_all add: record_reaped_def)
  have IH: "reaped_next (fold record_reaped ps ?t) = (reaped_next ?t + length ps) mod REAPED_MAX \<and>
     procs (fold record_reaped ps ?t) = procs ?t \<and> ring_wf (fold record_reaped ps ?t) \<and>
     (\<forall>i < REAPED_MAX. (\<forall>j < length ps. i \<noteq> (reaped_next ?t + j) mod REAPED_MAX) \<longrightarrow>
        reaped_ring (fold record_reaped ps ?t) ! i = reaped_ring ?t ! i) \<and>
     (\<forall>i < REAPED_MAX. fst (reaped_ring (fold record_reaped ps ?t) ! i)
        \<in> insert (fst (reaped_ring ?t ! i)) ((\<lambda>q. pid (procs ?t q)) ` set ps))"
    using Cons.IH [OF t(1)] Cons.prems by simp
  have mod: "(reaped_next ?t + j) mod REAPED_MAX = (reaped_next s + Suc j) mod REAPED_MAX" for j
    unfolding t(2) by (simp add: mod_simps)
  have nth: "i < REAPED_MAX \<Longrightarrow> reaped_ring ?t ! i =
      (if i = reaped_next s then (pid (procs s p), wait_status (procs s p)) else reaped_ring s ! i)" for i
    using Cons.prems(1) unfolding t(3) by (auto simp: ring_wf_def nth_list_update)
  have n0: "reaped_next s mod REAPED_MAX = reaped_next s" using Cons.prems(1) by (simp add: ring_wf_def)
  show ?case
  proof (intro conjI allI impI)
    fix i assume i: "i < REAPED_MAX" "\<forall>j < length (p # ps). i \<noteq> (reaped_next s + j) mod REAPED_MAX"
    then have "i \<noteq> reaped_next s" "\<forall>j < length ps. i \<noteq> (reaped_next ?t + j) mod REAPED_MAX"
      using n0 mod by (force, auto)
    then show "reaped_ring (fold record_reaped (p # ps) s) ! i = reaped_ring s ! i"
      using IH i(1) nth by simp
  qed (use IH mod nth in \<open>auto split: if_splits\<close>)
qed

lemma claim_loop_Some:
  assumes "i < length r" "fst (r ! i) = n" "\<forall>j < length r. fst (r ! j) = n \<longrightarrow> j = i"
  shows "claim_loop n r = Some (snd (r ! i), r[i := (0, snd (r ! i))])"
  using assms
proof (induction r arbitrary: i)
  case (Cons x r)
  obtain q code where x: "x = (q, code)" by fastforce
  show ?case
  proof (cases i)
    case 0
    then show ?thesis using Cons.prems x by simp
  next
    case (Suc k)
    have only: "\<forall>j < length r. fst (r ! j) = n \<longrightarrow> j = k"
    proof (intro allI impI)
      fix j assume "j < length r" "fst (r ! j) = n"
      then show "j = k" using Cons.prems(3) [rule_format, of "Suc j"] Suc by simp
    qed
    have "k < length r" "fst (r ! k) = n" using Cons.prems(1,2) Suc by simp_all
    then have "claim_loop n r = Some (snd (r ! k), r[k := (0, snd (r ! k))])"
      using only by (rule Cons.IH)
    moreover have "q \<noteq> n" using Cons.prems(3) [rule_format, of 0] Suc x by auto
    ultimately show ?thesis by (simp add: x Suc)
  qed
qed simp

lemma claim_loop_None: "claim_loop n r = None \<longleftrightarrow> (\<forall>x \<in> set r. fst x \<noteq> n)"
  by (induction n r rule: claim_loop.induct) (auto split: option.splits)

text \<open>The status of a dead process can be collected exactly once, and it survives the deaths of up
  to 31 other processes: a wait after the record reports it, the next wait reports an unknown
  process.\<close>

theorem exit_status_collected_once:
  assumes ring: "ring_wf s" and pos: "0 < pid (procs s p)" "\<forall>q \<in> set ps. 0 < pid (procs s q)"
    and few: "length ps < REAPED_MAX"
    and new: "\<forall>x \<in> set (reaped_ring s). fst x \<noteq> pid (procs s p)"
      "\<forall>q \<in> set ps. pid (procs s q) \<noteq> pid (procs s p)"
    and gone: "process_find_by_pid s (pid (procs s p)) = None"
  defines "n \<equiv> pid (procs s p)" and "t \<equiv> fold record_reaped ps (record_reaped p s)"
  shows "\<exists>t'. process_wait n t = (n, Some (wait_status (procs s p)), t') \<and>
     process_wait n t' = (- 2, None, t')"
proof -
  let ?u = "record_reaped p s" and ?i = "reaped_next s"
  have u: "ring_wf ?u" "reaped_ring ?u = (reaped_ring s)[?i := (n, wait_status (procs s p))]"
      "reaped_next ?u = (?i + 1) mod REAPED_MAX"
    using ring pos by (auto simp: ring_wf_record n_def) (simp_all add: record_reaped_def)
  have i: "?i < REAPED_MAX" "length (reaped_ring s) = REAPED_MAX" using ring by (auto simp: ring_wf_def)
  note f = fold_record_reaped [OF u(1), of ps, folded t_def]
  have t: "ring_wf t" "procs t = procs s" using f pos few by simp_all
  have apart: "?i \<noteq> (reaped_next ?u + j) mod REAPED_MAX" if "j < length ps" for j
  proof
    assume "?i = (reaped_next ?u + j) mod REAPED_MAX"
    then have eq: "?i = (?i + Suc j) mod 32" using u(3) by (simp add: REAPED_MAX_def mod_simps)
    have lt: "?i < 32" "Suc j < 32" using i that few by (simp_all add: REAPED_MAX_def)
    show False
    proof (cases "?i + Suc j < 32")
      case True
      then show False using eq by simp
    next
      case False
      then have "(?i + Suc j) mod 32 = ?i + Suc j - 32" using lt by (simp add: le_mod_geq)
      then show False using eq lt False by linarith
    qed
  qed
  have at_i: "reaped_ring t ! ?i = (n, wait_status (procs s p))"
    using f pos few apart i u(2) by simp
  have others: "j = ?i" if "j < REAPED_MAX" "fst (reaped_ring t ! j) = n" for j
  proof (rule ccontr)
    assume "j \<noteq> ?i"
    then have "reaped_ring ?u ! j = reaped_ring s ! j" unfolding u(2) by simp
    moreover have "reaped_ring s ! j \<in> set (reaped_ring s)" using that(1) i(2) by simp
    ultimately have "fst (reaped_ring ?u ! j) \<noteq> n" using new(1) unfolding n_def by metis
    moreover have "fst (reaped_ring t ! j) \<in> insert (fst (reaped_ring ?u ! j)) ((\<lambda>q. pid (procs s q)) ` set ps)"
      using f pos few that(1) by simp
    ultimately show False using that(2) new(2) by (auto simp: n_def)
  qed
  have "process_pool (fold record_reaped qs v) = process_pool v" for qs v
    by (induction qs arbitrary: v) simp_all
  then have find: "process_find_by_pid t n = None"
    using gone t(2) by (simp add: t_def process_find_by_pid_def n_def)
  have lt: "length (reaped_ring t) = REAPED_MAX" using t(1) by (simp add: ring_wf_def)
  define r where "r = (reaped_ring t)[?i := (0, wait_status (procs s p))]"
  have cl: "claim_loop n (reaped_ring t) = Some (wait_status (procs s p), r)"
  proof -
    have "\<forall>j < length (reaped_ring t). fst (reaped_ring t ! j) = n \<longrightarrow> j = ?i"
      using others unfolding lt by blast
    moreover have "?i < length (reaped_ring t)" "fst (reaped_ring t ! ?i) = n" using at_i i lt by simp_all
    ultimately have "claim_loop n (reaped_ring t)
        = Some (snd (reaped_ring t ! ?i), (reaped_ring t)[?i := (0, snd (reaped_ring t ! ?i))])"
      by (intro claim_loop_Some)
    then show ?thesis by (simp add: at_i r_def)
  qed
  define t' where "t' = t\<lparr>reaped_ring := r\<rparr>"
  have w1: "process_wait n t = (n, Some (wait_status (procs s p)), t')"
    using find cl by (simp add: process_wait_def claim_reaped_def t'_def)
  have "\<forall>x \<in> set r. fst x \<noteq> n"
  proof
    fix x assume "x \<in> set r"
    then obtain j where j: "j < REAPED_MAX" "x = r ! j" using lt by (auto simp: r_def in_set_conv_nth)
    then show "fst x \<noteq> n" using others [OF j(1)] pos lt i by (cases "j = ?i") (auto simp: r_def n_def)
  qed
  then have w2: "process_wait n t' = (- 2, None, t')"
    using find claim_loop_None [of n r] by (simp add: process_wait_def claim_reaped_def t'_def process_find_by_pid_def)
  show ?thesis using w1 w2 by blast
qed

theorem exit_status_collected_once_witness:
  "\<exists>t'. process_wait 9 (record_reaped 2 (demo_sched\<lparr>process_pool := []\<rparr>)) = (9, Some (- 9), t') \<and>
     process_wait 9 t' = (- 2, None, t')"
  using exit_status_collected_once [of "demo_sched\<lparr>process_pool := []\<rparr>" 2 "[]"]
  by (simp add: ring_wf_def demo_sched_def boot_sched_def demo_job_def zero_process_def REAPED_MAX_def
      process_find_by_pid_def wait_status_def)

text \<open>A wait for process 0 finds the mark of an empty slot of the ring and reports a status nobody
  left.\<close>

lemma process_wait_zero:
  assumes "process_find_by_pid s 0 = None" "reaped_ring s = (0, code) # r"
  shows "process_wait 0 s = (0, Some code, s\<lparr>reaped_ring := (0, code) # r\<rparr>)"
  using assms by (simp add: process_wait_def claim_reaped_def)

section \<open>Environments as finite maps\<close>

fun env_val :: "env_entry list \<Rightarrow> string \<Rightarrow> string option" where
  "env_val [] k = None"
| "env_val (e # es) k = (if env_k e = k then Some (env_v e) else env_val es k)"

lemma env_index_Suc: "env_index (Suc i) k es = map_option Suc (env_index i k es)"
  by (induction i k es rule: env_index.induct) auto

lemma env_free_slot_Suc: "env_free_slot (Suc i) es = map_option Suc (env_free_slot i es)"
  by (induction i es rule: env_free_slot.induct) auto

lemma env_val_index:
  "k \<noteq> [] \<Longrightarrow> env_val es k = map_option (\<lambda>i. env_v (es ! i)) (env_index 0 k es)"
  by (induction es) (auto simp: env_index_Suc option.map_comp comp_def)

lemma env_val_update:
  assumes "env_index 0 k es = Some i" "k' \<noteq> []"
  shows "env_val (es[i := (es ! i)\<lparr>env_v := v\<rparr>]) k' = (if k' = k then Some v else env_val es k')"
  using assms by (induction es arbitrary: i) (auto simp: env_index_Suc split: if_splits)

lemma env_val_insert:
  assumes "env_index 0 k es = None" "env_free_slot 0 es = Some i" "k \<noteq> []" "k' \<noteq> []"
  shows "env_val (es[i := (es ! i)\<lparr>env_k := k, env_v := v\<rparr>]) k' = (if k' = k then Some v else env_val es k')"
  using assms
  by (induction es arbitrary: i) (auto simp: env_index_Suc env_free_slot_Suc split: if_splits)

definition env_distinct :: "env_entry list \<Rightarrow> bool" where
  "env_distinct es \<longleftrightarrow> distinct (filter (\<lambda>k. k \<noteq> []) (map env_k es))"

lemma env_val_absent: "k \<notin> set (map env_k es) \<Longrightarrow> env_val es k = None"
  by (induction es) auto

lemma env_index_None: "k \<noteq> [] \<Longrightarrow> env_index i k es = None \<longleftrightarrow> k \<notin> set (map env_k es)"
  by (induction es arbitrary: i) auto

lemma env_val_unset:
  assumes "env_distinct es" "k \<noteq> []" "k' \<noteq> []"
  shows "env_val (env_unset es k) k' = (if k' = k then None else env_val es k')"
proof (cases "env_index 0 k es")
  case None
  moreover have "env_val es k = None" using None assms(2) by (simp add: env_val_index)
  ultimately show ?thesis by (simp add: env_unset_def)
next
  case (Some i)
  have "env_val (es[i := (es ! i)\<lparr>env_k := []\<rparr>]) k' = (if k' = k then None else env_val es k')"
    using assms Some
  proof (induction es arbitrary: i)
    case (Cons e es)
    have d: "env_distinct es" using Cons.prems by (simp add: env_distinct_def split: if_splits)
    show ?case
    proof (cases "env_k e = k")
      case True
      then have "k \<notin> set (map env_k es)" "i = 0" using Cons.prems by (auto simp: env_distinct_def)
      then show ?thesis using True Cons.prems env_val_absent by auto
    next
      case False
      then obtain j where "env_index 0 k es = Some j" "i = Suc j"
        using Cons.prems by (auto simp: env_index_Suc)
      then show ?thesis using Cons.IH [OF d] Cons.prems False by (cases "k' = k") simp_all
    qed
  qed simp
  then show ?thesis using Some by (simp add: env_unset_def)
qed

lemma proc_env_get_val:
  assumes "process_find_by_pid s n = Some p" "penv (procs s p) = Some es" "k \<noteq> []"
  shows "proc_env_get s n (Some k) (Some (Suc sz)) =
     (case env_val es k of None \<Rightarrow> (- ENOENT, None) | Some v \<Rightarrow> (0, Some (take sz v)))"
  using assms by (cases "env_index 0 k es")
    (auto simp: proc_env_get_def env_find_def env_val_index Let_def)

lemma process_find_upd_env:
  "process_find_by_pid (upd_proc p (\<lambda>q. q\<lparr>penv := e\<rparr>) s) m = process_find_by_pid s m"
proof -
  have "find_pid ((procs s)(p := (procs s p)\<lparr>penv := e\<rparr>)) m xs = find_pid (procs s) m xs" for xs
    by (induction "procs s" m xs rule: find_pid.induct) auto
  then show ?thesis by (simp add: process_find_by_pid_def upd_proc_def)
qed

lemma proc_env_get_other:
  assumes "process_find_by_pid s n = Some p" "m \<noteq> n"
  shows "proc_env_get (upd_proc p (\<lambda>q. q\<lparr>penv := e\<rparr>) s) m k b = proc_env_get s m k b"
proof -
  let ?t = "upd_proc p (\<lambda>q. q\<lparr>penv := e\<rparr>) s"
  have same: "procs ?t q = procs s q" if "process_find_by_pid s m = Some q" for q
    using that assms process_find_Some [of s n p] process_find_Some [of s m q]
    by (auto simp: upd_proc_def)
  then have "the_proc ?t (process_find_by_pid s m) = the_proc s (process_find_by_pid s m)"
    by (cases "process_find_by_pid s m") auto
  with same show ?thesis
    by (cases "process_find_by_pid s m")
       (auto simp: proc_env_get_def process_find_upd_env Let_def env_find_def split: option.splits nat.splits)
qed

text \<open>After a successful \<open>proc_env_set\<close> a reader with a buffer of any size gets the value (cut to
  the buffer), no other variable and no other process is affected, and the caller was the process
  itself, a privileged process or the kernel.\<close>

lemma proc_env_set_then_get:
  assumes "proc_env_set s caller n (Some k) (Some v) = (0, s')" "v \<noteq> []"
  shows "proc_env_get s' n (Some k) (Some (Suc sz)) = (0, Some (take sz v)) \<and>
     (\<forall>k'. k' \<noteq> k \<longrightarrow> proc_env_get s' n (Some k') (Some (Suc sz)) = proc_env_get s n (Some k') (Some (Suc sz))) \<and>
     (\<forall>m. m \<noteq> n \<longrightarrow> proc_env_get s' m (Some k) (Some (Suc sz)) = proc_env_get s m (Some k) (Some (Suc sz))) \<and>
     (\<forall>c. caller = Some c \<longrightarrow> pid (procs s c) = n \<or> plevel (procs s c) \<le> PLVL_ROOT)"
proof -
  have k: "k \<noteq> []" "length k < ENV_KEY_MAX" "length v < ENV_VAL_MAX"
    using assms(1) by (auto simp: proc_env_set_def EINVAL_def split: if_splits)
  have cal: "\<forall>c. caller = Some c \<longrightarrow> pid (procs s c) = n \<or> plevel (procs s c) \<le> PLVL_ROOT"
    using assms(1) by (auto simp: proc_env_set_def EPERM_def EINVAL_def proc_is_privileged_def split: if_splits)
  obtain p where p: "process_find_by_pid s n = Some p"
    using assms(1) by (auto simp: proc_env_set_def ESRCH_def EPERM_def EINVAL_def split: if_splits option.splits)
  obtain es where es: "penv (procs s p) = Some es"
    using assms(1) p by (auto simp: proc_env_set_def ENOMEM_def EPERM_def EINVAL_def split: if_splits option.splits)
  obtain es' where st: "env_store es k v = (0, es')" "s' = upd_proc p (\<lambda>q. q\<lparr>penv := Some es'\<rparr>) s"
    using assms p es k
    by (auto simp: proc_env_set_def EPERM_def Let_def split: if_splits prod.splits)
  have val: "env_val es' k' = (if k' = k then Some v else env_val es k')" if "k' \<noteq> []" for k'
  proof (cases "env_index 0 k es")
    case None
    then obtain i where "env_free_slot 0 es = Some i"
      using st(1) by (auto simp: env_store_def ENOMEM_def split: option.splits)
    then show ?thesis
      using st(1) None k that env_val_insert [OF None] by (auto simp: env_store_def ENV_KEY_MAX_def ENV_VAL_MAX_def)
  next
    case (Some i)
    then show ?thesis
      using st(1) k env_val_update [OF Some that] by (auto simp: env_store_def ENV_VAL_MAX_def)
  qed
  have p': "process_find_by_pid s' n = Some p" "penv (procs s' p) = Some es'"
    using p by (simp_all add: st(2) process_find_upd_env) (simp add: upd_proc_def)
  have get: "proc_env_get s' n (Some k') (Some (Suc sz)) =
      (if k' = k then (0, Some (take sz v)) else proc_env_get s n (Some k') (Some (Suc sz)))" for k'
  proof (cases "k' = []")
    case True
    then show ?thesis using k p p' es by (simp add: proc_env_get_def env_find_def Let_def)
  next
    case False
    then show ?thesis
      using proc_env_get_val [OF p' False] proc_env_get_val [OF p es False] val [OF False] by simp
  qed
  show ?thesis using get cal proc_env_get_other [OF p] by (simp add: st(2))
qed

text \<open>The same for removal, which an empty value also is.\<close>

lemma proc_env_unset_then_get:
  assumes "proc_env_set s caller n (Some k) val = (0, s')" "val = None \<or> val = Some []"
    "process_find_by_pid s n = Some p" "penv (procs s p) = Some es" "env_distinct es"
  shows "proc_env_get s' n (Some k) (Some (Suc sz)) = (- ENOENT, None)"
proof -
  have k: "k \<noteq> []" using assms(1) by (auto simp: proc_env_set_def EINVAL_def)
  have s': "s' = upd_proc p (\<lambda>q. q\<lparr>penv := Some (env_unset es k)\<rparr>) s"
    using assms k by (auto simp: proc_env_set_def EPERM_def EINVAL_def split: if_splits)
  have p': "process_find_by_pid s' n = Some p" "penv (procs s' p) = Some (env_unset es k)"
    using assms(3) by (simp_all add: s' process_find_upd_env) (simp add: upd_proc_def)
  show ?thesis using proc_env_get_val [OF p' k] env_val_unset [OF assms(5) k k] by simp
qed

section \<open>The privilege of a child\<close>

lemma create_publish_new:
  assumes "creator \<noteq> Some p"
  shows "procs (create_publish p slot creator nm prio l req e s) p =
     create_identity (the_proc s creator) slot nm prio l req e
       (if prio = PROC_PRIO_IDLE then next_idle_pid s else next_pid s)"
  using assms by (auto simp: create_publish_def Let_def upd_proc_def split: option.split)

lemma process_create_SomeD:
  assumes "process_create_caps a c nm prio l req s = (Some p, s')" "current_process s c \<noteq> Some p"
  shows "\<exists>slot n e. check_quota s (current_process s c) \<and> e = (prio \<noteq> PROC_PRIO_IDLE \<and> got_env_page a) \<and>
     (\<exists>x y z w. procs s' p = (create_identity (the_proc s (current_process s c)) slot nm prio l req e n)
        \<lparr>ctty_win := x, page_table := y, kernel_stack := z, context_pc := w\<rparr>)"
proof -
  define e where "e = (prio \<noteq> PROC_PRIO_IDLE \<and> got_env_page a)"
  define s1 where "s1 = (if e then s\<lparr>held_pages := held_pages s + 1\<rparr> else s)"
  have s1: "current_process s1 c = current_process s c" "procs s1 = procs s"
      "check_quota s1 = check_quota s"
    by (auto simp: s1_def current_process_def check_quota_def fun_eq_iff)
  let ?cr = "current_process s c"
  obtain slot where slot: "find_free_slot s1 = Some slot" "got_proc_page a = Some p" "check_quota s ?cr"
    using assms(1) unfolding process_create_caps_def e_def [symmetric] s1_def [symmetric] Let_def s1
    by (auto split: if_splits option.splits prod.splits)
  define t where "t = create_publish p slot ?cr nm prio l req e s1"
  obtain ok u where u: "create_stdio_and_pgd a ?cr prio p t = (ok, u)" by fastforce
  obtain base where s': "s' = (upd_proc p (\<lambda>q. q\<lparr>kernel_stack := base + of_nat STACK_SIZE,
        context_pc := Some 0, on_cpu := - 1\<rparr>) u)\<lparr>held_pages := held_pages u + int (STACK_SIZE div 4096)\<rparr>"
    using assms(1) slot u unfolding process_create_caps_def e_def [symmetric] s1_def [symmetric] Let_def s1
    by (auto simp: t_def split: if_splits option.splits)
  obtain x y where "procs u p = (procs t p)\<lparr>ctty_win := x, page_table := y\<rparr>"
    using stdio_and_pgd_fields(8) [OF u, of p] by blast
  moreover have "\<exists>n. procs t p = create_identity (the_proc s ?cr) slot nm prio l req e n"
    using create_publish_new [OF assms(2)] s1(2) by (auto simp: t_def)
  ultimately have "\<exists>n. procs s' p = (create_identity (the_proc s ?cr) slot nm prio l req e n)
      \<lparr>ctty_win := x, page_table := y, kernel_stack := base + of_nat STACK_SIZE, context_pc := Some 0\<rparr>"
    by (auto simp: s' upd_proc_def create_identity_def Let_def)
  then show ?thesis using slot(3) e_def by blast
qed

lemma and_not_and_self: "(x AND y) AND NOT y = (0 :: 'a::len word)"
  by (simp add: bit_eq_iff bit_simps)

text \<open>C11. A child is never more privileged than its creator: its level number is at least the
  creator's, it holds no capability outside the request, the ceiling of its level and (unless the
  creator is a machine process) the creator's own mask; and the quotas held when it was admitted.\<close>

theorem process_create_never_escalates:
  assumes "process_create_caps a c nm prio l req s = (Some p, s')"
    "current_process s c = Some x" "x \<noteq> p"
  shows "plevel (procs s x) \<le> plevel (procs s' p) \<and>
     pcaps (procs s' p) AND NOT (req AND caps_for_level (plevel (procs s' p))) = 0 \<and>
     (plevel (procs s x) \<noteq> PLVL_MACHINE \<longrightarrow> pcaps (procs s' p) AND NOT (pcaps (procs s x)) = 0) \<and>
     parent_pid (procs s' p) = pid (procs s x) \<and>
     active_count s < proc_limit s \<and>
     (plevel (procs s x) > PLVL_ROOT \<longrightarrow>
        child_count (procs s x) < MAX_PROCS_PER_PARENT \<and>
        active_count s < proc_limit s - RESERVED_PROC_SLOTS)"
proof -
  obtain slot n e where q: "check_quota s (Some x)"
    and p: "\<exists>k y z w. procs s' p = (create_identity (the_proc s (Some x)) slot nm prio l req e n)
        \<lparr>ctty_win := k, page_table := y, kernel_stack := z, context_pc := w\<rparr>"
    using process_create_SomeD [OF assms(1), unfolded assms(2)] assms(3) by blast
  have lv: "plevel (procs s' p) = create_level (Some (procs s x)) l"
    "pcaps (procs s' p) = create_caps (Some (procs s x)) (create_level (Some (procs s x)) l) req"
    "parent_pid (procs s' p) = pid (procs s x)"
    using p by (auto simp: create_identity_def Let_def)
  have "plevel (procs s x) \<le> plevel (procs s' p)"
    unfolding lv by (simp add: create_level_def Let_def)
  moreover have "pcaps (procs s' p) AND NOT (req AND caps_for_level (plevel (procs s' p))) = 0"
    unfolding lv(2) lv(1) [symmetric]
    by (auto simp: create_caps_def Let_def bit_eq_iff bit_simps)
  moreover have "plevel (procs s x) \<noteq> PLVL_MACHINE \<longrightarrow> pcaps (procs s' p) AND NOT (pcaps (procs s x)) = 0"
    unfolding lv(2) by (simp add: create_caps_def Let_def proc_is_machine_def and_not_and_self)
  moreover have "active_count s < proc_limit s"
    using q by (simp add: check_quota_def split: if_splits)
  moreover have "plevel (procs s x) > PLVL_ROOT \<longrightarrow>
        child_count (procs s x) < MAX_PROCS_PER_PARENT \<and> active_count s < proc_limit s - RESERVED_PROC_SLOTS"
    using q by (auto simp: check_quota_def proc_is_privileged_def split: if_splits)
  ultimately show ?thesis using lv(3) by blast
qed

text \<open>With the quotas met and the allocators willing, creation succeeds.\<close>

lemma process_create_succeeds:
  assumes "check_quota s (current_process s c)" "find_free_slot s \<noteq> None"
    "got_proc_page a = Some p" "stdio_ok a" "got_kstack a \<noteq> None"
  shows "fst (process_create_caps a c nm prio l req s) = Some p"
proof -
  define e where "e = (prio \<noteq> PROC_PRIO_IDLE \<and> got_env_page a)"
  define s1 where "s1 = (if e then s\<lparr>held_pages := held_pages s + 1\<rparr> else s)"
  obtain slot where slot: "find_free_slot s = Some slot" using assms(2) by blast
  obtain base where base: "got_kstack a = Some base" using assms(5) by blast
  have "check_quota s1 = check_quota s" by (simp add: s1_def check_quota_def fun_eq_iff)
  then have s1: "check_quota s1 (current_process s1 c)" "find_free_slot s1 = Some slot"
    using assms(1) slot by (simp_all add: s1_def current_process_def find_free_slot_def)
  have "fst (create_stdio_and_pgd a cr prio p t)" for cr t
    using assms(4) by (simp add: create_stdio_and_pgd_def Let_def split: option.split)
  then show ?thesis
    using s1 assms(3) base unfolding process_create_caps_def e_def [symmetric] s1_def [symmetric] Let_def
    by (simp split: prod.split) (metis fst_conv)
qed

lemma demo_quota:
  "check_quota demo_sched (current_process demo_sched 0)" "find_free_slot demo_sched \<noteq> None"
  by (simp_all add: check_quota_def current_process_def demo_sched_def boot_sched_def demo_shell_def
      find_free_slot_def numeral_eq_Suc MAX_PROCESSES_def MAX_PROCS_PER_PARENT_def RESERVED_PROC_SLOTS_def)

theorem process_create_never_escalates_witness:
  "plevel (procs (snd (process_create_caps demo_alloc 0 ''job'' 2 0 CAP_ALL demo_sched)) 3) \<ge> PLVL_USER"
proof -
  have "fst (process_create_caps demo_alloc 0 ''job'' 2 0 CAP_ALL demo_sched) = Some 3"
    by (rule process_create_succeeds [OF demo_quota]) (simp_all add: demo_alloc_def)
  then have run: "process_create_caps demo_alloc 0 ''job'' 2 0 CAP_ALL demo_sched
      = (Some 3, snd (process_create_caps demo_alloc 0 ''job'' 2 0 CAP_ALL demo_sched))"
    by (metis prod.collapse)
  have cur: "current_process demo_sched 0 = Some 1" by (simp add: demo_sched_def current_process_def)
  have "plevel (procs demo_sched 1) = PLVL_USER" by (simp add: demo_sched_def demo_shell_def)
  then show ?thesis using process_create_never_escalates [OF run cur] by simp
qed

text \<open>When the stdio handles or the kernel stack cannot be had, creation fails and one page stays
  allocated: the roll-back is told that the environment page belongs to the descriptor, and then
  frees the descriptor without it.\<close>

theorem process_create_leaks_env_page:
  assumes "check_quota s (current_process s c)" "find_free_slot s \<noteq> None"
    "got_proc_page a = Some p" "prio \<noteq> PROC_PRIO_IDLE" "got_env_page a"
    "got_kstack a = None \<or> \<not> stdio_ok a \<and> prio \<noteq> PROC_PRIO_SYSTEM"
  shows "fst (process_create_caps a c nm prio l req s) = None \<and>
     held_pages (snd (process_create_caps a c nm prio l req s)) = held_pages s + 1"
proof -
  define s1 where "s1 = s\<lparr>held_pages := held_pages s + 1\<rparr>"
  obtain slot where slot: "find_free_slot s = Some slot" using assms(2) by blast
  have "check_quota s1 = check_quota s" by (simp add: s1_def check_quota_def fun_eq_iff)
  then have s1: "check_quota s1 (current_process s1 c)" "find_free_slot s1 = Some slot"
    using assms(1) slot by (simp_all add: s1_def current_process_def find_free_slot_def)
  define t where "t = create_publish p slot (current_process s1 c) nm prio l req True s1"
  have ht: "held_pages t = held_pages s + 2"
    by (simp add: t_def create_publish_def Let_def upd_proc_def s1_def split: option.split)
  obtain ok u where u: "create_stdio_and_pgd a (current_process s1 c) prio p t = (ok, u)" by fastforce
  have bad: "\<not> ok \<or> got_kstack a = None"
    using assms(4,6) u by (auto simp: create_stdio_and_pgd_def Let_def split: if_splits)
  have "held_pages (child_count_dec p v) = held_pages v" for v
    by (simp add: child_count_dec_def upd_proc_def split: option.split)
  then have rb: "held_pages (create_rollback p slot False u) = held_pages s + 1"
    using stdio_and_pgd_fields(5) [OF u] ht by (simp add: create_rollback_def Let_def)
  have "process_create_caps a c nm prio l req s = (None, create_rollback p slot False u)"
    using s1 u bad assms(3-5) unfolding process_create_caps_def
    by (auto simp: Let_def s1_def [symmetric] t_def [symmetric] split: option.splits)
  then show ?thesis using rb by simp
qed

theorem process_create_leaks_env_page_witness:
  "held_pages (snd (process_create_caps (demo_alloc\<lparr>got_kstack := None\<rparr>) 0 ''job'' 2 2 1 demo_sched)) = 1"
  using process_create_leaks_env_page [OF demo_quota, of "demo_alloc\<lparr>got_kstack := None\<rparr>" 3 2 "''job''" 2 1]
  by (simp add: demo_alloc_def PROC_PRIO_IDLE_def) (simp add: demo_sched_def boot_sched_def)

end
