(* ===== verification/Sched.thy ===== *)
theory Sched
  imports Process
begin

text \<open>
  The scheduler, process teardown, job control and message passing of \<open>kernel/sched/process.c\<close>.
  A critical section under \<open>sched_lock\<close> or a per-CPU lock is one atomic function; the outcome of a
  \<open>spin_trylock\<close> is an argument.  An intrusive list is the list of its members; \<open>run_list\<close> says on
  which list a descriptor is linked.  A trap frame is represented by its program counter, the only
  field the scheduler inspects.
\<close>

section \<open>Runqueues and wait queues\<close>

definition list_add_tail :: "pref \<Rightarrow> list_id \<Rightarrow> sched \<Rightarrow> sched" where
  "list_add_tail p l s =
     (upd_proc p (\<lambda>q. q\<lparr>run_list := Some l\<rparr>) s)\<lparr>lists := (lists s)(l := lists s l @ [p])\<rparr>"

definition list_del_init :: "pref \<Rightarrow> sched \<Rightarrow> sched" where
  "list_del_init p s =
     (case run_list (procs s p) of
        None \<Rightarrow> s
      | Some l \<Rightarrow>
          (upd_proc p (\<lambda>q. q\<lparr>run_list := None\<rparr>) s)\<lparr>lists := (lists s)(l := remove1 p (lists s l))\<rparr>)"

definition cpu_of :: "process \<Rightarrow> nat" where
  "cpu_of q = (if on_cpu q \<ge> 0 then nat (on_cpu q) else 0)"

definition queue_prio :: "process \<Rightarrow> nat" where
  "queue_prio q = (if priority q \<ge> int MAX_PRIO then MAX_PRIO - 1 else nat (priority q))"

definition enqueue_task :: "pref \<Rightarrow> sched \<Rightarrow> sched" where
  "enqueue_task p s =
     (let q = procs s p in
      if pstate q = PROC_DEAD \<or> pstate q = PROC_ZOMBIE then s
      else if pstate q = PROC_STOPPED then s
      else if pstate q = PROC_READY \<and> run_list q \<noteq> None then s
      else
        let c = cpu_of q;
            s1 = upd_proc p (\<lambda>q. q\<lparr>pstate := PROC_READY, on_cpu := int c\<rparr>) s;
            prio = queue_prio q;
            s2 = list_add_tail p (Runqueue c prio) s1
        in upd_cpu c (\<lambda>i. i\<lparr>prio_bitmap := prio_bitmap i OR push_bit prio 1\<rparr>) s2)"

definition dequeue_task :: "pref \<Rightarrow> sched \<Rightarrow> sched" where
  "dequeue_task p s =
     (let c = cpu_of (procs s p);
          s1 = list_del_init p s
      in if priority (procs s p) < int MAX_PRIO \<and> lists s1 (Runqueue c (nat (priority (procs s p)))) = []
         then upd_cpu c (\<lambda>i. i\<lparr>prio_bitmap :=
                prio_bitmap i AND NOT (push_bit (nat (priority (procs s p))) 1)\<rparr>) s1
         else s1)"

definition sleep_on :: "nat \<Rightarrow> nat \<Rightarrow> sched \<Rightarrow> sched" where
  "sleep_on c wq s =
     (case current_process s c of
        None \<Rightarrow> s
      | Some p \<Rightarrow>
          list_add_tail p (Waitqueue wq)
            (upd_proc p (\<lambda>q. q\<lparr>pstate := PROC_SLEEPING, wait_queue_ptr := Some wq\<rparr>) s))"

definition wake_up :: "nat \<Rightarrow> sched \<Rightarrow> sched" where
  "wake_up wq s =
     (case lists s (Waitqueue wq) of
        [] \<Rightarrow> s
      | p # _ \<Rightarrow>
          let s1 = upd_proc p (\<lambda>q. q\<lparr>wait_queue_ptr := None\<rparr>) (list_del_init p s);
              s2 = (if on_cpu (procs s1 p) < 0
                    then (upd_proc p (\<lambda>q. q\<lparr>on_cpu := int (rr_cpu s1)\<rparr>) s1)
                           \<lparr>rr_cpu := (rr_cpu s1 + 1) mod MAX_CPUS\<rparr>
                    else s1)
          in enqueue_task p s2)"

text \<open>\<open>kthread_block\<close> before it yields; \<open>still\<close> is the answer of the condition, \<open>None\<close> for a null
  callback.\<close>

definition kthread_block :: "nat \<Rightarrow> nat \<Rightarrow> bool option \<Rightarrow> sched \<Rightarrow> sched" where
  "kthread_block c wq still s =
     (case current_process s c of
        None \<Rightarrow> s
      | Some p \<Rightarrow>
          if still = Some False then s
          else list_add_tail p (Waitqueue wq)
                 (upd_proc p (\<lambda>q. q\<lparr>pstate := PROC_SLEEPING, wait_queue_ptr := Some wq\<rparr>) s))"

section \<open>Picking the next task\<close>

definition FOCUS_BOOST_MAX :: nat where "FOCUS_BOOST_MAX = 4"

definition reap_push :: "nat \<Rightarrow> pref \<Rightarrow> sched \<Rightarrow> sched" where
  "reap_push c p s =
     (if reaping (procs s p) then s
      else upd_cpu c (\<lambda>i. i\<lparr>deferred_free_proc := p # deferred_free_proc i\<rparr>)
             (upd_proc p (\<lambda>q. q\<lparr>reaping := True\<rparr>) s))"

fun find_focus :: "(pref \<Rightarrow> process) \<Rightarrow> int \<Rightarrow> pref list \<Rightarrow> pref option" where
  "find_focus h n [] = None"
| "find_focus h n (p # ps) = (if pid (h p) = n then Some p else find_focus h n ps)"

fun focus_scan :: "sched \<Rightarrow> nat \<Rightarrow> int \<Rightarrow> nat list \<Rightarrow> pref option" where
  "focus_scan s c n [] = None"
| "focus_scan s c n (k # ks) =
     (case find_focus (procs s) n (lists s (Runqueue c k)) of
        Some p \<Rightarrow> Some p
      | None \<Rightarrow> focus_scan s c n ks)"

definition sched_pick_focus :: "nat \<Rightarrow> int \<Rightarrow> sched \<Rightarrow> pref option \<times> sched" where
  "sched_pick_focus c focus s =
     (if focus \<le> 0 \<or> focus_streak (cpus s c) \<ge> FOCUS_BOOST_MAX then (None, s)
      else case focus_scan s c focus [0..<MAX_PRIO] of
        None \<Rightarrow> (None, s)
      | Some p \<Rightarrow> (Some p, upd_cpu c (\<lambda>i. i\<lparr>focus_streak := focus_streak i + 1\<rparr>) (dequeue_task p s)))"

definition sched_pick_fair :: "nat \<Rightarrow> sched \<Rightarrow> pref option \<times> sched" where
  "sched_pick_fair c s =
     (if prio_bitmap (cpus s c) = 0 then (None, s)
      else let best = ctz (prio_bitmap (cpus s c)) in
        if best \<ge> MAX_PRIO \<or> lists s (Runqueue c best) = [] then (None, s)
        else let next = hd (lists s (Runqueue c best))
             in (Some next, upd_cpu c (\<lambda>i. i\<lparr>focus_streak := 0\<rparr>) (dequeue_task next s)))"

definition pick_once :: "nat \<Rightarrow> int \<Rightarrow> sched \<Rightarrow> pref option \<times> sched" where
  "pick_once c focus s =
     (case sched_pick_focus c focus s of
        (Some p, s') \<Rightarrow> (Some p, s')
      | (None, s') \<Rightarrow> sched_pick_fair c s')"

fun pick_loop :: "nat \<Rightarrow> nat \<Rightarrow> int \<Rightarrow> sched \<Rightarrow> (pref option \<times> sched) kres" where
  "pick_loop 0 c focus s = Inl (Panic ''pick_local exceeded MAX_PROCESSES retries'')"
| "pick_loop (Suc n) c focus s =
     (case pick_once c focus s of
        (None, s') \<Rightarrow> Inr (None, s')
      | (Some p, s') \<Rightarrow>
          if pstate (procs s' p) = PROC_DEAD then pick_loop n c focus (reap_push c p s')
          else if pstate (procs s' p) = PROC_STOPPED then pick_loop n c focus s'
          else Inr (Some p, s'))"

definition sched_pick_local :: "nat \<Rightarrow> int \<Rightarrow> sched \<Rightarrow> (pref option \<times> sched) kres" where
  "sched_pick_local c focus s = pick_loop MAX_PROCESSES c focus s"

definition steal_from :: "nat \<Rightarrow> sched \<Rightarrow> pref option \<times> sched" where
  "steal_from i s =
     (if prio_bitmap (cpus s i) = 0 then (None, s)
      else let k = ctz (prio_bitmap (cpus s i)) in
        if lists s (Runqueue i k) = [] then (None, s)
        else let next = hd (lists s (Runqueue i k)) in
          if priority (procs s next) = PROC_PRIO_IDLE \<or> pstate (procs s next) = PROC_DEAD then (None, s)
          else let s1 = list_del_init next s
               in (Some next,
                   if lists s1 (Runqueue i k) = []
                   then upd_cpu i (\<lambda>r. r\<lparr>prio_bitmap := prio_bitmap r AND NOT (push_bit k 1)\<rparr>) s1
                   else s1))"

fun steal_loop :: "(nat \<Rightarrow> bool) \<Rightarrow> nat \<Rightarrow> nat list \<Rightarrow> sched \<Rightarrow> pref option \<times> sched" where
  "steal_loop trylock c [] s = (None, s)"
| "steal_loop trylock c (i # is) s =
     (if i = c then steal_loop trylock c is s
      else if \<not> online (cpus s i) then steal_loop trylock c is s
      else if \<not> trylock i then steal_loop trylock c is s
      else case steal_from i s of
        (Some p, s') \<Rightarrow> (Some p, s')
      | (None, s') \<Rightarrow> steal_loop trylock c is s')"

definition sched_steal_work :: "(nat \<Rightarrow> bool) \<Rightarrow> nat \<Rightarrow> sched \<Rightarrow> pref option \<times> sched" where
  "sched_steal_work trylock c s = steal_loop trylock c [0..<MAX_CPUS] s"

section \<open>Teardown\<close>

definition drain_ipc :: "pref \<Rightarrow> sched \<Rightarrow> sched" where
  "drain_ipc p s = upd_proc p (\<lambda>q. q\<lparr>msg_queue := [], msg_count := 0\<rparr>) s"

text \<open>Handles and the page table belong to other components; what \<open>process.c\<close> gives back is the
  environment page, the kernel stack and the descriptor.\<close>

definition free_resources :: "pref \<Rightarrow> sched \<Rightarrow> sched" where
  "free_resources p s =
     (let s1 = proc_env_free p s;
          s2 = (if kernel_stack (procs s1 p) \<noteq> 0
                then s1\<lparr>held_pages := held_pages s1 - int (STACK_SIZE div 4096)\<rparr> else s1)
      in s2\<lparr>held_pages := held_pages s2 - 1, released := p # released s2\<rparr>)"

definition release_created :: "pref \<Rightarrow> sched \<Rightarrow> sched" where
  "release_created p s =
     free_resources p
       (case pool_index 0 p (process_pool s) of
          None \<Rightarrow> s
        | Some slot \<Rightarrow>
            reparent_children p (child_count_dec p
              (s\<lparr>process_pool := (process_pool s)[slot := None], active_count := active_count s - 1\<rparr>)))"

definition process_finalize_spawn :: "pref option \<Rightarrow> sched \<Rightarrow> sched" where
  "process_finalize_spawn po s =
     (case po of None \<Rightarrow> s
      | Some p \<Rightarrow> if kill_pending (procs s p) then release_created p s else enqueue_task p s)"

definition process_abort_spawn :: "pref option \<Rightarrow> sched \<Rightarrow> sched" where
  "process_abort_spawn po s = (case po of None \<Rightarrow> s | Some p \<Rightarrow> release_created p s)"

definition detach_from_wait_queue :: "pref \<Rightarrow> sched \<Rightarrow> sched" where
  "detach_from_wait_queue p s =
     (if wait_queue_ptr (procs s p) = None then s
      else upd_proc p (\<lambda>q. q\<lparr>wait_queue_ptr := None\<rparr>) (list_del_init p s))"

text \<open>The retry loop re-reads \<open>on_cpu\<close> under the lock of the CPU it read before; in one atomic step
  the two readings agree and the first attempt marks the process.\<close>

definition mark_dead_on_runqueue :: "pref \<Rightarrow> sched \<Rightarrow> sched" where
  "mark_dead_on_runqueue p s = upd_proc p (\<lambda>q. q\<lparr>pstate := PROC_DEAD\<rparr>) s"

definition still_current_anywhere :: "pref \<Rightarrow> sched \<Rightarrow> bool" where
  "still_current_anywhere p s = list_ex (\<lambda>c. current_task (cpus s c) = Some p) [0..<MAX_CPUS]"

definition zero_window :: window where
  "zero_window = \<lparr>win_id = 0, win_pid = 0, win_visible = False, win_z_order = 0\<rparr>"

fun focus_topmost :: "int \<Rightarrow> int \<Rightarrow> window list \<Rightarrow> int" where
  "focus_topmost max_z n [] = n"
| "focus_topmost max_z n (w # ws) =
     (if win_id w \<noteq> 0 \<and> win_visible w \<and> win_z_order w > max_z
      then focus_topmost (win_z_order w) (win_pid w) ws
      else focus_topmost max_z n ws)"

definition compositor_destroy_windows_by_pid :: "int \<Rightarrow> sched \<Rightarrow> sched" where
  "compositor_destroy_windows_by_pid n s =
     (let hit = (\<lambda>w. win_id w \<noteq> 0 \<and> win_pid w = n);
          refocus = (list_ex hit (windows s) \<and> n = keyboard_focus_pid s);
          ws = map (\<lambda>w. if hit w then zero_window else w) (windows s);
          s1 = s\<lparr>windows := ws\<rparr>
      in if refocus then s1\<lparr>keyboard_focus_pid := focus_topmost (- 1) 7 ws\<rparr> else s1)"

definition process_terminate :: "nat \<Rightarrow> int \<Rightarrow> sched \<Rightarrow> int \<times> sched" where
  "process_terminate c n s =
     (case process_find_by_pid s n of
        None \<Rightarrow> (- 1, s)
      | Some p \<Rightarrow>
          if proc_is_machine (Some (procs s p)) then (- 1, s)
          else if pstate (procs s p) = PROC_DEAD \<or> pstate (procs s p) = PROC_ZOMBIE then (0, s)
          else
            let s1 = compositor_destroy_windows_by_pid n (upd_proc p (\<lambda>q. q\<lparr>dying := True\<rparr>) s) in
            if current_process s1 c = Some p
            then (0, upd_proc p (\<lambda>q. q\<lparr>pstate := PROC_ZOMBIE\<rparr>) s1)
            else if pstate (procs s1 p) = PROC_CREATED
            then (0, upd_proc p (\<lambda>q. q\<lparr>kill_pending := True\<rparr>) s1)
            else
              let s2 = upd_proc p (\<lambda>q. q\<lparr>sleep_timer_armed := False\<rparr>) s1;
                  s3 = detach_from_wait_queue p (drain_ipc p s2) in
              if pstate (procs s3 p) = PROC_READY \<or> pstate (procs s3 p) = PROC_RUNNING
              then (0, mark_dead_on_runqueue p s3)
              else
                let s4 = upd_proc p (\<lambda>q. q\<lparr>pstate := PROC_DEAD\<rparr>) s3 in
                if still_current_anywhere p s4 then (0, s4)
                else let (slot, s5) = pool_remove p s4 in
                     (0, if slot \<noteq> None then free_resources p s5 else s5))"

subsection \<open>Killing a subtree\<close>

record kill_snap =
  ks_pid :: int
  ks_parent :: int
  ks_windowless :: bool
  ks_kill :: bool
  ks_machine :: bool

fun kill_snap_capture :: "(pref \<Rightarrow> process) \<Rightarrow> pref option list \<Rightarrow> kill_snap list" where
  "kill_snap_capture h [] = []"
| "kill_snap_capture h (None # xs) = kill_snap_capture h xs"
| "kill_snap_capture h (Some p # xs) =
     \<lparr>ks_pid = pid (h p), ks_parent = parent_pid (h p), ks_windowless = True, ks_kill = False,
      ks_machine = proc_is_machine (Some (h p))\<rparr> # kill_snap_capture h xs"

text \<open>The index of the root is the last entry with its pid.\<close>

fun root_index :: "nat \<Rightarrow> int \<Rightarrow> kill_snap list \<Rightarrow> nat option \<Rightarrow> nat option" where
  "root_index i n [] r = r"
| "root_index i n (k # ks) r = root_index (Suc i) n ks (if ks_pid k = n then Some i else r)"

definition kill_snap_probe_windows :: "window list \<Rightarrow> kill_snap list \<Rightarrow> kill_snap list" where
  "kill_snap_probe_windows ws snap =
     map (\<lambda>k. k\<lparr>ks_windowless := \<not> compositor_get_window_by_pid ws (ks_pid k) > 0\<rparr>) snap"

text \<open>One pass of the propagation: the entries are visited in order and a mark set in this pass is
  seen by later entries.\<close>

definition killed_parent :: "kill_snap list \<Rightarrow> int \<Rightarrow> bool" where
  "killed_parent snap n = list_ex (\<lambda>k. ks_kill k \<and> ks_pid k = n) snap"

definition mark_one :: "nat \<Rightarrow> kill_snap list \<Rightarrow> kill_snap list" where
  "mark_one i snap =
     (if ks_kill (snap ! i) \<or> \<not> ks_windowless (snap ! i) \<or> ks_machine (snap ! i) then snap
      else if killed_parent snap (ks_parent (snap ! i)) then snap[i := (snap ! i)\<lparr>ks_kill := True\<rparr>]
      else snap)"

definition mark_pass :: "kill_snap list \<Rightarrow> kill_snap list" where
  "mark_pass snap = fold mark_one [0..<length snap] snap"

fun propagate_loop :: "nat \<Rightarrow> kill_snap list \<Rightarrow> kill_snap list" where
  "propagate_loop 0 snap = snap"
| "propagate_loop (Suc n) snap =
     (let snap' = mark_pass snap in if snap' = snap then snap else propagate_loop n snap')"

definition kill_snap_propagate :: "kill_snap list \<Rightarrow> kill_snap list" where
  "kill_snap_propagate snap = propagate_loop (length snap) snap"

fun kill_execute_loop :: "nat \<Rightarrow> int \<Rightarrow> kill_snap list \<Rightarrow> sched \<Rightarrow> sched" where
  "kill_execute_loop c root [] s = s"
| "kill_execute_loop c root (k # ks) s =
     kill_execute_loop c root ks
       (if ks_kill k \<and> ks_pid k \<noteq> root then snd (process_terminate c (ks_pid k) s) else s)"

definition kill_snap_execute :: "nat \<Rightarrow> int \<Rightarrow> kill_snap list \<Rightarrow> sched \<Rightarrow> sched" where
  "kill_snap_execute c root snap s =
     snd (process_terminate c root (kill_execute_loop c root snap s))"

text \<open>The snapshot with its marks, \<open>None\<close> when the root is gone or protected.\<close>

definition kill_plan :: "int \<Rightarrow> sched \<Rightarrow> kill_snap list option" where
  "kill_plan root s =
     (let snap = kill_snap_capture (procs s) (process_pool s) in
      case root_index 0 root snap None of
        None \<Rightarrow> None
      | Some r \<Rightarrow>
          if ks_machine (snap ! r) then None
          else let snap1 = kill_snap_probe_windows (windows s) snap
               in Some (kill_snap_propagate (snap1[r := (snap1 ! r)\<lparr>ks_kill := True\<rparr>])))"

definition process_kill_subtree :: "nat \<Rightarrow> int \<Rightarrow> sched \<Rightarrow> sched" where
  "process_kill_subtree c root s =
     (case kill_plan root s of None \<Rightarrow> s | Some snap \<Rightarrow> kill_snap_execute c root snap s)"

definition window_request_close :: "nat \<Rightarrow> int \<Rightarrow> sched \<Rightarrow> sched" where
  "window_request_close c n s = process_kill_subtree c n s"

section \<open>The scheduler\<close>

fun reap_deferred_loop :: "nat \<Rightarrow> pref list \<Rightarrow> sched \<Rightarrow> sched" where
  "reap_deferred_loop c [] s = s"
| "reap_deferred_loop c (p # ps) s =
     reap_deferred_loop c ps
       (free_resources p
         (upd_proc p (\<lambda>q. q\<lparr>sleep_timer_armed := False\<rparr>)
           (drain_ipc p
             (snd (pool_remove p (upd_cpu c (\<lambda>i. i\<lparr>deferred_free_proc := ps\<rparr>) s))))))"

definition sched_reap_deferred :: "nat \<Rightarrow> sched \<Rightarrow> sched" where
  "sched_reap_deferred c s = reap_deferred_loop c (deferred_free_proc (cpus s c)) s"

definition sched_account_time :: "u64 \<Rightarrow> nat \<Rightarrow> pref option \<Rightarrow> sched \<Rightarrow> sched" where
  "sched_account_time now c prev s =
     (let start = sched_run_count (cpus s c);
          s1 = (case prev of None \<Rightarrow> s
                | Some p \<Rightarrow> if start \<noteq> 0
                            then upd_proc p (\<lambda>q. q\<lparr>cpu_time_counts := cpu_time_counts q + (now - start)\<rparr>) s
                            else s)
      in upd_cpu c (\<lambda>i. i\<lparr>sched_run_count := now\<rparr>) s1)"

definition sched_requeue_pending :: "nat \<Rightarrow> sched \<Rightarrow> sched" where
  "sched_requeue_pending c s =
     (case pending_reenqueue (cpus s c) of
        None \<Rightarrow> s
      | Some p \<Rightarrow>
          let s1 = upd_cpu c (\<lambda>i. i\<lparr>pending_reenqueue := None\<rparr>) s in
          if pstate (procs s1 p) = PROC_DEAD \<or> pstate (procs s1 p) = PROC_ZOMBIE
          then reap_push c p (upd_proc p (\<lambda>q. q\<lparr>on_cpu := - 1\<rparr>) s1)
          else enqueue_task p s1)"

text \<open>The first component says whether the outgoing task was a corpse.\<close>

definition sched_retire_prev :: "nat \<Rightarrow> pref option \<Rightarrow> u64 option \<Rightarrow> sched \<Rightarrow> bool \<times> sched" where
  "sched_retire_prev c prev regs s =
     (case prev of
        None \<Rightarrow> (False, s)
      | Some p \<Rightarrow>
          if pstate (procs s p) = PROC_DEAD \<or> pstate (procs s p) = PROC_ZOMBIE
          then (True, upd_cpu c (\<lambda>i. i\<lparr>current_task := None\<rparr>)
                        (reap_push c p (upd_proc p (\<lambda>q. q\<lparr>on_cpu := - 1\<rparr>) s)))
          else
            let s1 = (if regs \<noteq> None then upd_proc p (\<lambda>q. q\<lparr>context_pc := regs\<rparr>) s else s);
                s2 = upd_proc p (\<lambda>q. q\<lparr>first_run := False\<rparr>) s1;
                s3 = (if pstate (procs s2 p) = PROC_RUNNING
                      then upd_proc p (\<lambda>q.
                             if time_slice q - 1 \<le> 0
                             then q\<lparr>time_slice := quantum_reset q, pstate := PROC_READY\<rparr>
                             else q\<lparr>time_slice := time_slice q - 1, pstate := PROC_READY\<rparr>) s2
                      else s2);
                s4 = (if pstate (procs s3 p) = PROC_READY \<and> priority (procs s3 p) \<noteq> PROC_PRIO_IDLE
                      then enqueue_task p s3 else s3)
            in (False, s4))"

definition stack_alias :: "nat \<Rightarrow> pref \<Rightarrow> sched \<Rightarrow> bool" where
  "stack_alias c next s =
     list_ex (\<lambda>oc. oc \<noteq> c \<and>
        (case current_task (cpus s oc) of None \<Rightarrow> False
         | Some ot \<Rightarrow> ot \<noteq> next \<and> kernel_stack (procs s ot) = kernel_stack (procs s next)))
       [0..<MAX_CPUS]"

definition check_pc :: "u64 option \<Rightarrow> 'a \<Rightarrow> 'a kres" where
  "check_pc regs x =
     (case regs of
        None \<Rightarrow> Inl (Panic ''NULL trap frame'')
      | Some pc \<Rightarrow> if pc = 0 then Inl (Panic ''pc==0 on return'') else Inr x)"

definition switch_to :: "nat \<Rightarrow> pref option \<Rightarrow> pref \<Rightarrow> sched \<Rightarrow> (u64 option \<times> sched) kres" where
  "switch_to c prev next s =
     (let s1 = (case prev of None \<Rightarrow> s
                | Some p \<Rightarrow>
                    if pstate (procs s p) = PROC_READY \<and> priority (procs s p) \<noteq> PROC_PRIO_IDLE
                    then upd_cpu c (\<lambda>i. i\<lparr>pending_reenqueue := Some p\<rparr>) (dequeue_task p s) else s);
          s2 = upd_cpu c (\<lambda>i. i\<lparr>current_task := Some next\<rparr>) s1;
          s3 = upd_proc next (\<lambda>q. q\<lparr>pstate := PROC_RUNNING, on_cpu := int c\<rparr>) s2
      in if stack_alias c next s3 then Inl (Panic ''STACK-ALIAS'')
         else case context_pc (procs s3 next) of
           None \<Rightarrow> Inl (Panic ''schedule: invalid context'')
         | Some pc \<Rightarrow>
             if pc = 0 then Inl (Panic ''SCHED: PC is 0'')
             else Inr (Some pc, s3\<lparr>stat_ctx_switches := stat_ctx_switches s3 + 1\<rparr>))"

definition schedule ::
    "(nat \<Rightarrow> bool) \<Rightarrow> u64 \<Rightarrow> nat option \<Rightarrow> u64 option \<Rightarrow> sched \<Rightarrow> (u64 option \<times> sched) kres" where
  "schedule trylock now cpu regs s0 =
     (case cpu of
        None \<Rightarrow> if regs = Some 0 then Inl (Panic ''SCHED: [EARLY] pc==0 on return'') else Inr (regs, s0)
      | Some c \<Rightarrow>
          let s1 = sched_reap_deferred c s0;
              prev0 = current_task (cpus s1 c);
              s2 = sched_requeue_pending c (sched_account_time now c prev0 s1);
              focus = keyboard_focus_pid s2;
              (reaped, s3) = sched_retire_prev c prev0 regs s2;
              prev = (if reaped then None else prev0)
          in kbind (sched_pick_local c focus s3) (\<lambda>(picked, s4).
               let (next, s5) = (case picked of Some p \<Rightarrow> (Some p, s4) | None \<Rightarrow> sched_steal_work trylock c s4)
               in if next = None \<and> prev \<noteq> None \<and> pstate (procs s5 (the prev)) = PROC_RUNNING
                  then check_pc regs (regs, s5)
                  else case (case next of Some p \<Rightarrow> Some p | None \<Rightarrow> idle_task (cpus s5 c)) of
                    None \<Rightarrow>
                      if reaped then Inl (Panic ''reaped current task with no idle task'')
                      else if regs = Some 0 then Inl (Panic ''pc==0 on idle-fallback return'')
                      else Inr (regs, s5)
                  | Some nx \<Rightarrow>
                      if prev = Some nx
                      then check_pc regs
                             (regs, upd_proc nx (\<lambda>q. q\<lparr>pstate := PROC_RUNNING, on_cpu := int c\<rparr>) s5)
                      else switch_to c prev nx s5))"

text \<open>\<open>smp_create_idle_task\<close>, \<open>kthread_create\<close> and the first entry into user mode.  \<open>entry\<close> is the program
  counter the new kernel task starts at.\<close>

definition smp_create_idle_task ::
    "create_env \<Rightarrow> nat \<Rightarrow> u64 \<Rightarrow> nat \<Rightarrow> sched \<Rightarrow> sched" where
  "smp_create_idle_task a c entry cpu_id s =
     (if cpu_id \<ge> MAX_CPUS then s
      else case process_create a c ''idle'' PROC_PRIO_IDLE PLVL_MACHINE s of
        (None, s') \<Rightarrow> s'
      | (Some p, s') \<Rightarrow>
          upd_cpu cpu_id (\<lambda>i. i\<lparr>idle_task := Some p\<rparr>)
            (upd_proc p (\<lambda>q. q\<lparr>on_cpu := int cpu_id, context_pc := Some entry\<rparr>) s'))"

definition kthread_create ::
    "create_env \<Rightarrow> nat \<Rightarrow> string \<Rightarrow> u64 \<Rightarrow> sched \<Rightarrow> pref option \<times> sched" where
  "kthread_create a c nm entry s =
     (case process_create a c nm PROC_PRIO_SYSTEM PLVL_MACHINE s of
        (None, s') \<Rightarrow> (None, s')
      | (Some p, s') \<Rightarrow> (Some p, enqueue_task p (upd_proc p (\<lambda>q. q\<lparr>context_pc := Some entry\<rparr>) s')))"

definition start_user_process :: "nat \<Rightarrow> pref \<Rightarrow> sched \<Rightarrow> sched kres" where
  "start_user_process c p s =
     (if page_table (procs s p) = None then Inl (Panic ''start_user_process: no page table'')
      else Inr (upd_proc p (\<lambda>q. q\<lparr>pstate := PROC_RUNNING, on_cpu := int c\<rparr>)
                 (upd_cpu c (\<lambda>i. i\<lparr>current_task := Some p\<rparr>) s)))"

section \<open>Job control\<close>

definition process_stop :: "int \<Rightarrow> sched \<Rightarrow> int \<times> sched" where
  "process_stop n s =
     (case process_find_by_pid s n of
        None \<Rightarrow> (- ESRCH, s)
      | Some p \<Rightarrow>
          if proc_is_machine (Some (procs s p)) then (- EPERM, s)
          else if pstate (procs s p) = PROC_RUNNING \<or> pstate (procs s p) = PROC_READY
                  \<or> pstate (procs s p) = PROC_SLEEPING
          then (0, upd_proc p (\<lambda>q. q\<lparr>pstate := PROC_STOPPED\<rparr>) s)
          else (- EINVAL, s))"

definition process_cont :: "int \<Rightarrow> sched \<Rightarrow> int \<times> sched" where
  "process_cont n s =
     (case process_find_by_pid s n of
        None \<Rightarrow> (- ESRCH, s)
      | Some p \<Rightarrow>
          if pstate (procs s p) = PROC_STOPPED
          then (0, enqueue_task p (upd_proc p (\<lambda>q. q\<lparr>pstate := PROC_READY\<rparr>) s))
          else (- EINVAL, s))"

section \<open>Messages\<close>

definition MSG_QUEUE_MAX :: int where "MSG_QUEUE_MAX = 256"
definition IPC_RECV_RETRY :: int where "IPC_RECV_RETRY = 1"

definition msg_matches :: "int \<Rightarrow> ipc_message \<Rightarrow> bool" where
  "msg_matches src m \<longleftrightarrow> src = - 1 \<or> msg_from m = src"

fun pop_queue :: "int \<Rightarrow> ipc_message list \<Rightarrow> (ipc_message \<times> ipc_message list) option" where
  "pop_queue src [] = None"
| "pop_queue src (m # ms) =
     (if msg_matches src m then Some (m, ms)
      else map_option (\<lambda>(x, r). (x, m # r)) (pop_queue src ms))"

definition pop_message :: "pref option \<Rightarrow> int \<Rightarrow> sched \<Rightarrow> ipc_message option \<times> sched" where
  "pop_message po src s =
     (case po of
        None \<Rightarrow> (None, s)
      | Some p \<Rightarrow>
          (case pop_queue src (msg_queue (procs s p)) of
             None \<Rightarrow> (None, s)
           | Some (m, r) \<Rightarrow>
               (Some m, upd_proc p (\<lambda>q. q\<lparr>msg_queue := r,
                   msg_count := (if msg_count q > 0 then msg_count q - 1 else msg_count q)\<rparr>) s)))"

text \<open>\<open>node\<close> says whether the node for the message could be allocated.\<close>

definition kernel_ipc_send :: "bool \<Rightarrow> int \<Rightarrow> ipc_message \<Rightarrow> sched \<Rightarrow> int \<times> sched" where
  "kernel_ipc_send node n msg s =
     (if \<not> node then (- 1, s)
      else case process_find_by_pid s n of
        None \<Rightarrow> (- 1, s)
      | Some t \<Rightarrow>
          if pstate (procs s t) = PROC_DEAD \<or> pstate (procs s t) = PROC_ZOMBIE then (- 1, s)
          else if msg_count (procs s t) \<ge> MSG_QUEUE_MAX then (- ENOBUFS, s)
          else
            let s1 = upd_proc t (\<lambda>q. q\<lparr>msg_queue := msg_queue q @ [msg], msg_count := msg_count q + 1\<rparr>) s in
            if pstate (procs s1 t) = PROC_SLEEPING
               \<and> (ipc_target_pid (procs s1 t) = - 1 \<or> ipc_target_pid (procs s1 t) = msg_from msg)
            then (0, enqueue_task t (upd_proc t (\<lambda>q. q\<lparr>pstate := PROC_READY\<rparr>) s1))
            else (0, s1))"

text \<open>The message is what \<open>vmm_copy_from_user\<close> delivered, \<open>None\<close> when it failed; the caller is the
  current process of the CPU.\<close>

definition sys_ipc_send :: "bool \<Rightarrow> pref \<Rightarrow> int \<Rightarrow> ipc_message option \<Rightarrow> sched \<Rightarrow> int \<times> sched" where
  "sys_ipc_send node cur n kmsg s =
     (case kmsg of
        None \<Rightarrow> (- EINVAL, s)
      | Some m \<Rightarrow>
          if \<not> process_ipc_allowed s (Some cur) n then (- EPERM, s)
          else kernel_ipc_send node n (m\<lparr>msg_from := pid (procs s cur)\<rparr>) s)"

text \<open>Receiving takes \<open>msg_lock\<close> twice, once in \<open>pop_message\<close> and once to commit to sleep.  The two
  sections are separate functions, and \<open>between\<close> is whatever the other processors do to the state
  after the first section released the lock and before the second took it.\<close>

definition ipc_recv_commit :: "pref \<Rightarrow> int \<Rightarrow> sched \<Rightarrow> sched" where
  "ipc_recv_commit cur src s =
     (if list_ex (msg_matches src) (msg_queue (procs s cur)) then s
      else upd_proc cur (\<lambda>q. q\<lparr>ipc_target_pid := src, pstate := PROC_SLEEPING\<rparr>) s)"

text \<open>The second component is the message handed to user space, if the copy succeeded.\<close>

definition sys_ipc_recv ::
    "(sched \<Rightarrow> sched) \<Rightarrow> bool \<Rightarrow> pref \<Rightarrow> int \<Rightarrow> sched \<Rightarrow> int \<times> ipc_message option \<times> sched" where
  "sys_ipc_recv between copy_ok cur src s =
     (case pop_message (Some cur) src s of
        (Some m, s') \<Rightarrow> if copy_ok then (0, Some m, s') else (- EFAULT, None, s')
      | (None, s') \<Rightarrow> (IPC_RECV_RETRY, None, ipc_recv_commit cur src (between s')))"

definition sys_ipc_try_recv :: "bool \<Rightarrow> pref \<Rightarrow> int \<Rightarrow> sched \<Rightarrow> int \<times> ipc_message option \<times> sched" where
  "sys_ipc_try_recv copy_ok cur src s =
     (case pop_message (Some cur) src s of
        (None, s') \<Rightarrow> (- 1, None, s')
      | (Some m, s') \<Rightarrow> if copy_ok then (0, Some m, s') else (- 1, None, s'))"

end
