(* ===== verification/Sched_Correct.thy ===== *)
theory Sched_Correct
  imports Sched Process_Correct
begin

text \<open>
  Correctness of the scheduler: the queue invariant and its preservation by every operation, the
  choice of the next task, what teardown does with links and pages, the set of processes a subtree
  kill marks, and the message queues.
\<close>

section \<open>The queue invariant\<close>

text \<open>Membership of a list and the \<open>run_list\<close> node agree, a queued task is on the queue of its CPU and
  priority, a process parked on a wait queue is linked there, and a bit of the priority bitmap is set
  exactly when its queue is not empty.\<close>

definition queues_wf :: "sched \<Rightarrow> bool" where
  "queues_wf s \<longleftrightarrow>
     (\<forall>l p. p \<in> set (lists s l) \<longleftrightarrow> run_list (procs s p) = Some l) \<and>
     (\<forall>l. distinct (lists s l)) \<and>
     (\<forall>c k p. run_list (procs s p) = Some (Runqueue c k) \<longrightarrow>
        on_cpu (procs s p) = int c \<and> priority (procs s p) = int k) \<and>
     (\<forall>p w. wait_queue_ptr (procs s p) = Some w \<longrightarrow> run_list (procs s p) = Some (Waitqueue w)) \<and>
     (\<forall>p. 0 \<le> priority (procs s p) \<and> priority (procs s p) < 32) \<and>
     (\<forall>c k. k < 32 \<longrightarrow> bit (prio_bitmap (cpus s c)) k = (lists s (Runqueue c k) \<noteq> []))"

definition qfields :: "process \<Rightarrow> list_id option \<times> int \<times> int \<times> nat option" where
  "qfields r = (run_list r, on_cpu r, priority r, wait_queue_ptr r)"

lemma queues_wf_cong:
  assumes "lists s' = lists s" "\<And>c. prio_bitmap (cpus s' c) = prio_bitmap (cpus s c)"
    "\<And>p. qfields (procs s' p) = qfields (procs s p)"
  shows "queues_wf s' \<longleftrightarrow> queues_wf s"
proof -
  have "run_list (procs s' p) = run_list (procs s p)" "on_cpu (procs s' p) = on_cpu (procs s p)"
      "priority (procs s' p) = priority (procs s p)"
      "wait_queue_ptr (procs s' p) = wait_queue_ptr (procs s p)" for p
    using assms(3) [of p] by (simp_all add: qfields_def)
  then show ?thesis unfolding queues_wf_def assms(1,2) by simp
qed

lemma queues_wf_upd_proc [simp]:
  assumes "\<And>q. qfields (f q) = qfields q"
  shows "queues_wf (upd_proc p f s) \<longleftrightarrow> queues_wf s"
  by (rule queues_wf_cong) (simp_all add: upd_proc_def assms)

lemma queues_wf_upd_cpu [simp]:
  assumes "\<And>i. prio_bitmap (f i) = prio_bitmap i"
  shows "queues_wf (upd_cpu c f s) \<longleftrightarrow> queues_wf s"
  by (rule queues_wf_cong) (simp_all add: upd_cpu_def assms)

lemma queues_wfD:
  assumes "queues_wf s"
  shows "p \<in> set (lists s l) \<longleftrightarrow> run_list (procs s p) = Some l" "distinct (lists s l)"
    "run_list (procs s p) = Some (Runqueue c k) \<Longrightarrow> on_cpu (procs s p) = int c \<and> priority (procs s p) = int k"
    "wait_queue_ptr (procs s p) = Some w \<Longrightarrow> run_list (procs s p) = Some (Waitqueue w)"
    "0 \<le> priority (procs s p)" "priority (procs s p) < 32"
    "k < 32 \<Longrightarrow> bit (prio_bitmap (cpus s c)) k = (lists s (Runqueue c k) \<noteq> [])"
  using assms unfolding queues_wf_def by blast+

lemma bit_push_1: "k < 32 \<Longrightarrow> j < 32 \<Longrightarrow> bit (push_bit k (1 :: u32)) j = (j = k)"
  by (auto simp: bit_simps)

lemma list_del_init_simps:
  assumes "run_list (procs s p) = Some l"
  shows "procs (list_del_init p s) = (procs s)(p := (procs s p)\<lparr>run_list := None\<rparr>)"
    "lists (list_del_init p s) = (lists s)(l := remove1 p (lists s l))"
    "cpus (list_del_init p s) = cpus s"
  using assms by (simp_all add: list_del_init_def upd_proc_def)

lemma enqueue_task_wf:
  assumes wf: "queues_wf s"
    and free: "run_list (procs s p) = None \<or> pstate (procs s p) \<in> {PROC_READY, PROC_STOPPED, PROC_DEAD, PROC_ZOMBIE}"
  shows "queues_wf (enqueue_task p s)"
proof (cases "run_list (procs s p) = None \<and> pstate (procs s p) \<notin> {PROC_STOPPED, PROC_DEAD, PROC_ZOMBIE}")
  case False
  then have "enqueue_task p s = s" using free by (auto simp: enqueue_task_def Let_def)
  then show ?thesis using wf by simp
next
  case True
  let ?q = "procs s p"
  let ?c = "cpu_of ?q" and ?k = "queue_prio ?q"
  have k: "?k = nat (priority ?q)" "?k < 32" "int ?k = priority ?q"
    using queues_wfD(5,6) [OF wf, of p] by (simp_all add: queue_prio_def MAX_PRIO_def)
  have wq: "wait_queue_ptr ?q = None"
    using queues_wfD(4) [OF wf, of p] True by (cases "wait_queue_ptr ?q") auto
  have nin: "p \<notin> set (lists s l)" for l using queues_wfD(1) [OF wf] True by simp
  define t where "t = enqueue_task p s"
  have t: "procs t = (procs s)(p := ?q\<lparr>pstate := PROC_READY, on_cpu := int ?c, run_list := Some (Runqueue ?c ?k)\<rparr>)"
      "lists t = (lists s)(Runqueue ?c ?k := lists s (Runqueue ?c ?k) @ [p])"
      "cpus t = (cpus s)(?c := (cpus s ?c)\<lparr>prio_bitmap := prio_bitmap (cpus s ?c) OR push_bit ?k 1\<rparr>)"
    using True by (simp_all add: t_def enqueue_task_def Let_def list_add_tail_def upd_proc_def upd_cpu_def)
  have "queues_wf t"
    unfolding queues_wf_def
  proof (intro conjI allI impI)
    fix l q show "q \<in> set (lists t l) \<longleftrightarrow> run_list (procs t q) = Some l"
      using queues_wfD(1) [OF wf, of q l] True nin by (auto simp: t)
    show "distinct (lists t l)" using queues_wfD(2) [OF wf] nin by (simp add: t)
  next
    fix c k q assume "run_list (procs t q) = Some (Runqueue c k)"
    then show "on_cpu (procs t q) = int c" "priority (procs t q) = int k"
      using queues_wfD(3) [OF wf, of q] k by (auto simp: t split: if_splits)
  next
    fix q w assume "wait_queue_ptr (procs t q) = Some w"
    then show "run_list (procs t q) = Some (Waitqueue w)"
      using queues_wfD(4) [OF wf, of q] wq by (auto simp: t split: if_splits)
  next
    fix q show "0 \<le> priority (procs t q)" "priority (procs t q) < 32"
      using queues_wfD(5,6) [OF wf] by (simp_all add: t)
  next
    fix c k :: nat assume "k < 32"
    then show "bit (prio_bitmap (cpus t c)) k = (lists t (Runqueue c k) \<noteq> [])"
      using queues_wfD(7) [OF wf, of k c] \<open>?k < 32\<close> by (auto simp: t bit_simps)
  qed
  then show ?thesis by (simp add: t_def)
qed

text \<open>Unlinking a task and clearing the bit of a queue that became empty.\<close>

definition unlinked :: "pref \<Rightarrow> nat \<Rightarrow> nat \<Rightarrow> sched \<Rightarrow> sched" where
  "unlinked p c k s =
     (let s1 = list_del_init p s in
      if lists s1 (Runqueue c k) = []
      then upd_cpu c (\<lambda>i. i\<lparr>prio_bitmap := prio_bitmap i AND NOT (push_bit k 1)\<rparr>) s1 else s1)"

lemma unlinked_procs:
  "run_list (procs s p) = Some (Runqueue c k) \<Longrightarrow>
   procs (unlinked p c k s) = (procs s)(p := (procs s p)\<lparr>run_list := None\<rparr>)"
  "run_list (procs s p) = Some (Runqueue c k) \<Longrightarrow>
   lists (unlinked p c k s) = (lists s)(Runqueue c k := remove1 p (lists s (Runqueue c k)))"
  "run_list (procs s p) = Some (Runqueue c k) \<Longrightarrow>
   focus_streak (cpus (unlinked p c k s) i) = focus_streak (cpus s i)"
  "run_list (procs s p) = Some (Runqueue c k) \<Longrightarrow>
   keyboard_focus_pid (unlinked p c k s) = keyboard_focus_pid s"
  by (auto simp: unlinked_def Let_def list_del_init_def upd_proc_def upd_cpu_def)

lemma unlinked_wf:
  assumes wf: "queues_wf s" and p: "run_list (procs s p) = Some (Runqueue c k)"
  shows "queues_wf (unlinked p c k s)"
proof -
  have k: "k < 32" using queues_wfD(3,6) [OF wf, of p] p by fastforce
  have wq: "wait_queue_ptr (procs s p) = None"
    using queues_wfD(4) [OF wf, of p] p by (cases "wait_queue_ptr (procs s p)") auto
  define t where "t = unlinked p c k s"
  note t = unlinked_procs(1,2) [OF p, folded t_def]
  have bm: "prio_bitmap (cpus t i) = (if i = c \<and> remove1 p (lists s (Runqueue c k)) = []
      then prio_bitmap (cpus s i) AND NOT (push_bit k 1) else prio_bitmap (cpus s i))" for i
    using p by (simp add: t_def unlinked_def Let_def list_del_init_def upd_proc_def upd_cpu_def)
  have "queues_wf t"
    unfolding queues_wf_def
  proof (intro conjI allI impI)
    fix l q show "q \<in> set (lists t l) \<longleftrightarrow> run_list (procs t q) = Some l"
      using queues_wfD(1) [OF wf, of q l] queues_wfD(2) [OF wf, of l] p by (auto simp: t)
    show "distinct (lists t l)" using queues_wfD(2) [OF wf] by (simp add: t)
  next
    fix c' k' q assume "run_list (procs t q) = Some (Runqueue c' k')"
    then show "on_cpu (procs t q) = int c'" "priority (procs t q) = int k'"
      using queues_wfD(3) [OF wf, of q] by (auto simp: t split: if_splits)
  next
    fix q w assume "wait_queue_ptr (procs t q) = Some w"
    then show "run_list (procs t q) = Some (Waitqueue w)"
      using queues_wfD(4) [OF wf, of q] wq by (auto simp: t split: if_splits)
  next
    fix q show "0 \<le> priority (procs t q)" "priority (procs t q) < 32"
      using queues_wfD(5,6) [OF wf] by (simp_all add: t)
  next
    fix c' k' :: nat assume k': "k' < 32"
    have old: "bit (prio_bitmap (cpus s c')) k' = (lists s (Runqueue c' k') \<noteq> [])"
      by (rule queues_wfD(7) [OF wf k'])
    have pin: "p \<in> set (lists s (Runqueue c k))" using queues_wfD(1) [OF wf] p by simp
    show "bit (prio_bitmap (cpus t c')) k' = (lists t (Runqueue c' k') \<noteq> [])"
    proof (cases "c' = c \<and> remove1 p (lists s (Runqueue c k)) = []")
      case True
      then have "bit (prio_bitmap (cpus t c')) k' = (bit (prio_bitmap (cpus s c')) k' \<and> k' \<noteq> k)"
        using k k' by (simp add: bm bit_simps)
      then show ?thesis using True old by (auto simp: t)
    next
      case False
      then show ?thesis using old pin by (auto simp: bm t)
    qed
  qed
  then show ?thesis by (simp add: t_def)
qed

lemma dequeue_task_unlinked:
  assumes "queues_wf s" "run_list (procs s p) = Some (Runqueue c k)"
  shows "dequeue_task p s = unlinked p c k s"
proof -
  have "cpu_of (procs s p) = c" "nat (priority (procs s p)) = k" "priority (procs s p) < 32"
    using queues_wfD(3,6) [OF assms(1), of p] assms(2) by (auto simp: cpu_of_def)
  then show ?thesis by (simp add: dequeue_task_def unlinked_def Let_def MAX_PRIO_def)
qed

lemma list_del_init_wait_wf:
  assumes wf: "queues_wf s" and p: "run_list (procs s p) = Some (Waitqueue w)"
  shows "queues_wf (upd_proc p (\<lambda>q. q\<lparr>wait_queue_ptr := None\<rparr>) (list_del_init p s))"
proof -
  define t where "t = upd_proc p (\<lambda>q. q\<lparr>wait_queue_ptr := None\<rparr>) (list_del_init p s)"
  have t: "procs t = (procs s)(p := (procs s p)\<lparr>run_list := None, wait_queue_ptr := None\<rparr>)"
      "lists t = (lists s)(Waitqueue w := remove1 p (lists s (Waitqueue w)))" "cpus t = cpus s"
    using p by (simp_all add: t_def list_del_init_def upd_proc_def)
  have "queues_wf t"
    unfolding queues_wf_def
  proof (intro conjI allI impI)
    fix l q show "q \<in> set (lists t l) \<longleftrightarrow> run_list (procs t q) = Some l"
      using queues_wfD(1) [OF wf, of q l] queues_wfD(2) [OF wf, of l] p by (auto simp: t)
    show "distinct (lists t l)" using queues_wfD(2) [OF wf] by (simp add: t)
  next
    fix c' k' q assume "run_list (procs t q) = Some (Runqueue c' k')"
    then show "on_cpu (procs t q) = int c'" "priority (procs t q) = int k'"
      using queues_wfD(3) [OF wf, of q] by (auto simp: t split: if_splits)
  next
    fix q w' assume "wait_queue_ptr (procs t q) = Some w'"
    then show "run_list (procs t q) = Some (Waitqueue w')"
      using queues_wfD(4) [OF wf, of q] by (auto simp: t split: if_splits)
  next
    fix q show "0 \<le> priority (procs t q)" "priority (procs t q) < 32"
      using queues_wfD(5,6) [OF wf] by (simp_all add: t)
  next
    fix c' k' :: nat assume "k' < 32"
    then show "bit (prio_bitmap (cpus t c')) k' = (lists t (Runqueue c' k') \<noteq> [])"
      using queues_wfD(7) [OF wf] by (simp add: t)
  qed
  then show ?thesis by (simp add: t_def)
qed


section \<open>Every operation keeps the queues\<close>

lemma park_wf:
  assumes wf: "queues_wf s" and p: "run_list (procs s p) = None"
  shows "queues_wf (list_add_tail p (Waitqueue w)
           (upd_proc p (\<lambda>q. q\<lparr>pstate := PROC_SLEEPING, wait_queue_ptr := Some w\<rparr>) s))"
proof -
  define t where "t = list_add_tail p (Waitqueue w)
    (upd_proc p (\<lambda>q. q\<lparr>pstate := PROC_SLEEPING, wait_queue_ptr := Some w\<rparr>) s)"
  have t: "procs t = (procs s)(p := (procs s p)\<lparr>pstate := PROC_SLEEPING, wait_queue_ptr := Some w,
        run_list := Some (Waitqueue w)\<rparr>)"
      "lists t = (lists s)(Waitqueue w := lists s (Waitqueue w) @ [p])" "cpus t = cpus s"
    by (simp_all add: t_def list_add_tail_def upd_proc_def)
  have nin: "p \<notin> set (lists s l)" for l using queues_wfD(1) [OF wf] p by simp
  have "queues_wf t"
    unfolding queues_wf_def
  proof (intro conjI allI impI)
    fix l q show "q \<in> set (lists t l) \<longleftrightarrow> run_list (procs t q) = Some l"
      using queues_wfD(1) [OF wf, of q l] p nin by (auto simp: t)
    show "distinct (lists t l)" using queues_wfD(2) [OF wf] nin by (simp add: t)
  next
    fix c' k' q assume "run_list (procs t q) = Some (Runqueue c' k')"
    then show "on_cpu (procs t q) = int c'" "priority (procs t q) = int k'"
      using queues_wfD(3) [OF wf, of q] by (auto simp: t split: if_splits)
  next
    fix q w' assume "wait_queue_ptr (procs t q) = Some w'"
    then show "run_list (procs t q) = Some (Waitqueue w')"
      using queues_wfD(4) [OF wf, of q] by (auto simp: t split: if_splits)
  next
    fix q show "0 \<le> priority (procs t q)" "priority (procs t q) < 32"
      using queues_wfD(5,6) [OF wf] by (simp_all add: t)
  next
    fix c' k' :: nat assume "k' < 32"
    then show "bit (prio_bitmap (cpus t c')) k' = (lists t (Runqueue c' k') \<noteq> [])"
      using queues_wfD(7) [OF wf] by (simp add: t)
  qed
  then show ?thesis by (simp add: t_def)
qed

lemma sleep_on_wf:
  assumes "queues_wf s" "\<And>p. current_process s c = Some p \<Longrightarrow> run_list (procs s p) = None"
  shows "queues_wf (sleep_on c w s)"
  using park_wf assms by (auto simp: sleep_on_def split: option.split)

lemma queues_wf_on_cpu:
  assumes wf: "queues_wf s" and p: "run_list (procs s p) = None"
  shows "queues_wf (upd_proc p (\<lambda>q. q\<lparr>on_cpu := k\<rparr>) s)"
proof -
  let ?t = "upd_proc p (\<lambda>q. q\<lparr>on_cpu := k\<rparr>) s"
  have f: "run_list (procs ?t q) = run_list (procs s q)" "priority (procs ?t q) = priority (procs s q)"
      "wait_queue_ptr (procs ?t q) = wait_queue_ptr (procs s q)" "lists ?t = lists s" "cpus ?t = cpus s"
      "q \<noteq> p \<Longrightarrow> on_cpu (procs ?t q) = on_cpu (procs s q)" for q
    by (simp_all add: upd_proc_def)
  have "on_cpu (procs ?t q) = int c" if "run_list (procs s q) = Some (Runqueue c k')" for q c k'
    using that p f(6) queues_wfD(3) [OF wf that] by (cases "q = p") auto
  note oc = this
  show ?thesis
    unfolding queues_wf_def f(1-5)
  proof (intro conjI allI impI)
    fix l q show "q \<in> set (lists s l) \<longleftrightarrow> run_list (procs s q) = Some l" "distinct (lists s l)"
      by (rule queues_wfD(1,2) [OF wf])+
  next
    fix c k' q assume r: "run_list (procs s q) = Some (Runqueue c k')"
    show "on_cpu (procs ?t q) = int c" by (rule oc [OF r])
    show "priority (procs s q) = int k'" using queues_wfD(3) [OF wf r] by simp
  next
    fix q w assume "wait_queue_ptr (procs s q) = Some w"
    then show "run_list (procs s q) = Some (Waitqueue w)" by (rule queues_wfD(4) [OF wf])
  next
    fix q show "0 \<le> priority (procs s q)" "priority (procs s q) < 32" by (rule queues_wfD(5,6) [OF wf])+
  next
    fix c k :: nat assume "k < 32"
    then show "bit (prio_bitmap (cpus s c)) k = (lists s (Runqueue c k) \<noteq> [])" by (rule queues_wfD(7) [OF wf])
  qed
qed

lemma queues_wf_rr: "queues_wf (s\<lparr>rr_cpu := k\<rparr>) \<longleftrightarrow> queues_wf s"
  by (rule queues_wf_cong) simp_all

lemma wake_up_wf:
  assumes wf: "queues_wf s"
  shows "queues_wf (wake_up w s)"
proof (cases "lists s (Waitqueue w)")
  case (Cons p ps)
  then have "run_list (procs s p) = Some (Waitqueue w)" using queues_wfD(1) [OF wf, of p "Waitqueue w"] by simp
  note s1 = list_del_init_wait_wf [OF wf this] and del = list_del_init_simps [OF this]
  define s1 where "s1 = upd_proc p (\<lambda>q. q\<lparr>wait_queue_ptr := None\<rparr>) (list_del_init p s)"
  have w1: "queues_wf s1" and free: "run_list (procs s1 p) = None"
    using s1 by (simp_all add: s1_def) (simp add: upd_proc_def del)
  define s2 where "s2 = (upd_proc p (\<lambda>q. q\<lparr>on_cpu := int (rr_cpu s1)\<rparr>) s1)\<lparr>rr_cpu := (rr_cpu s1 + 1) mod MAX_CPUS\<rparr>"
  have w2: "queues_wf s2"
    unfolding s2_def queues_wf_rr by (rule queues_wf_on_cpu [OF w1 free])
  have free2: "run_list (procs s2 p) = None" using free by (simp add: s2_def upd_proc_def)
  have "wake_up w s = enqueue_task p (if on_cpu (procs s1 p) < 0 then s2 else s1)"
    using Cons by (simp add: wake_up_def Let_def s2_def flip: s1_def)
  then show ?thesis
    using enqueue_task_wf [OF w1] enqueue_task_wf [OF w2] free free2 by simp
qed (simp add: wake_up_def wf)

lemma qfields_pstate [simp]: "qfields (q\<lparr>pstate := x\<rparr>) = qfields q"
  by (simp add: qfields_def)

lemma process_stop_wf: "queues_wf s \<Longrightarrow> queues_wf (snd (process_stop n s))"
  by (auto simp: process_stop_def split: option.split)

lemma resume_wf:
  "queues_wf s \<Longrightarrow> queues_wf (enqueue_task p (upd_proc p (\<lambda>q. q\<lparr>pstate := PROC_READY\<rparr>) s))"
  by (rule enqueue_task_wf) (simp, simp add: upd_proc_def)

lemma process_cont_wf: "queues_wf s \<Longrightarrow> queues_wf (snd (process_cont n s))"
  by (simp add: process_cont_def resume_wf split: option.split)

lemma qfields_msg [simp]: "qfields (q\<lparr>msg_queue := x, msg_count := y\<rparr>) = qfields q"
  by (simp add: qfields_def)

lemma kernel_ipc_send_wf:
  assumes "queues_wf s"
  shows "queues_wf (snd (kernel_ipc_send node n m s))"
  using assms by (auto simp: kernel_ipc_send_def Let_def resume_wf split: option.split)

lemma pop_message_wf: "queues_wf s \<Longrightarrow> queues_wf (snd (pop_message po src s))"
  by (auto simp: pop_message_def split: option.split)

lemma ipc_recv_commit_wf: "queues_wf s \<Longrightarrow> queues_wf (ipc_recv_commit cur src s)"
  by (simp add: ipc_recv_commit_def qfields_def)

subsection \<open>Picking and stealing\<close>

lemma ctz_bit:
  fixes w :: u32
  assumes "w \<noteq> 0"
  shows "ctz w < 32" "bit w (ctz w)" "j < ctz w \<Longrightarrow> \<not> bit w j"
proof -
  have "find (bit w) [0..<32] = Some (ctz w)" using find_ctz [OF assms] by simp
  then obtain i where "i < 32" "bit w ([0..<32] ! i)" "ctz w = [0..<32] ! i" "\<forall>j<i. \<not> bit w ([0..<32] ! j)"
    unfolding find_Some_iff by auto
  then show "ctz w < 32" "bit w (ctz w)" "j < ctz w \<Longrightarrow> \<not> bit w j" by auto
qed

definition queued :: "sched \<Rightarrow> nat \<Rightarrow> pref set" where
  "queued s c = {p. \<exists>k. run_list (procs s p) = Some (Runqueue c k)}"

lemma find_focus_mem: "find_focus h n ps = Some p \<Longrightarrow> p \<in> set ps \<and> pid (h p) = n"
  by (induction h n ps rule: find_focus.induct) (auto split: if_splits)

lemma focus_scan_mem:
  "focus_scan s c n ks = Some p \<Longrightarrow> pid (procs s p) = n \<and> (\<exists>k \<in> set ks. p \<in> set (lists s (Runqueue c k)))"
  by (induction s c n ks rule: focus_scan.induct) (auto split: option.splits dest: find_focus_mem)

lemma queued_prio:
  assumes "queues_wf s" "p \<in> queued s c"
  obtains k where "run_list (procs s p) = Some (Runqueue c k)" "k < 32" "p \<in> set (lists s (Runqueue c k))"
    "priority (procs s p) = int k"
  using assms queues_wfD(1,3,6) [OF assms(1), of p] by (fastforce simp: queued_def)

lemma empty_bitmap:
  assumes "queues_wf s"
  shows "prio_bitmap (cpus s c) = 0 \<longleftrightarrow> queued s c = {}"
proof
  assume "prio_bitmap (cpus s c) = 0"
  then have "k < 32 \<Longrightarrow> lists s (Runqueue c k) = []" for k using queues_wfD(7) [OF assms, of k c] by simp
  then show "queued s c = {}" using queued_prio [OF assms] by (metis emptyE equals0I empty_set)
next
  assume "queued s c = {}"
  show "prio_bitmap (cpus s c) = 0"
  proof (rule ccontr)
    assume "prio_bitmap (cpus s c) \<noteq> 0"
    note z = ctz_bit [OF this]
    then have "lists s (Runqueue c (ctz (prio_bitmap (cpus s c)))) \<noteq> []"
      using queues_wfD(7) [OF assms z(1), of c] by blast
    then show False using queues_wfD(1) [OF assms] \<open>queued s c = {}\<close>
      by (metis (mono_tags, lifting) empty_iff hd_in_set mem_Collect_eq queued_def)
  qed
qed

text \<open>The head of the queue that the bitmap points at has the best priority of the CPU.\<close>

lemma best_head:
  assumes wf: "queues_wf s" and ne: "prio_bitmap (cpus s c) \<noteq> 0"
  defines "k \<equiv> ctz (prio_bitmap (cpus s c))"
  defines "p \<equiv> hd (lists s (Runqueue c k))"
  shows "k < 32" "lists s (Runqueue c k) \<noteq> []" "run_list (procs s p) = Some (Runqueue c k)"
    "q \<in> queued s c \<Longrightarrow> priority (procs s p) \<le> priority (procs s q)"
proof -
  note z = ctz_bit [OF ne, folded k_def]
  show "k < 32" by (rule z(1))
  show l: "lists s (Runqueue c k) \<noteq> []" using queues_wfD(7) [OF wf z(1)] z(2) by blast
  then show r: "run_list (procs s p) = Some (Runqueue c k)" using queues_wfD(1) [OF wf, of p] hd_in_set [OF l] by (simp add: p_def)
  assume "q \<in> queued s c"
  then obtain j where j: "j < 32" "q \<in> set (lists s (Runqueue c j))" "priority (procs s q) = int j"
    using queued_prio [OF wf] by metis
  then have "bit (prio_bitmap (cpus s c)) j" using queues_wfD(7) [OF wf j(1)] by force
  then have "k \<le> j" using z(3) by (metis linorder_not_le)
  moreover have "priority (procs s p) = int k" using queues_wfD(3) [OF wf r] by simp
  ultimately show "priority (procs s p) \<le> priority (procs s q)" using j(3) by simp
qed

abbreviation streak :: "sched \<Rightarrow> nat \<Rightarrow> nat" where
  "streak s c \<equiv> focus_streak (cpus s c)"

text \<open>One attempt that took \<open>p\<close> off the queue of a CPU: it took the focused process, within the budget of
  boosts, or the first of the best queue, because there was nobody to boost or the budget was used up.\<close>

definition took_boost :: "nat \<Rightarrow> int \<Rightarrow> sched \<Rightarrow> pref \<Rightarrow> sched \<Rightarrow> bool" where
  "took_boost c focus s p s' \<longleftrightarrow> 0 < focus \<and> pid (procs s p) = focus \<and>
     streak s c < FOCUS_BOOST_MAX \<and> streak s' c = streak s c + 1"

definition took_fair :: "nat \<Rightarrow> int \<Rightarrow> sched \<Rightarrow> pref \<Rightarrow> sched \<Rightarrow> bool" where
  "took_fair c focus s p s' \<longleftrightarrow> streak s' c = 0 \<and>
     (\<forall>q \<in> queued s c. priority (procs s p) \<le> priority (procs s q)) \<and>
     (\<exists>ys. lists s (Runqueue c (nat (priority (procs s p)))) = p # ys) \<and>
     (focus \<le> 0 \<or> FOCUS_BOOST_MAX \<le> streak s c \<or> (\<forall>q \<in> queued s c. pid (procs s q) \<noteq> focus))"

definition took :: "nat \<Rightarrow> int \<Rightarrow> sched \<Rightarrow> pref \<Rightarrow> sched \<Rightarrow> bool" where
  "took c focus s p s' \<longleftrightarrow> queues_wf s' \<and> p \<in> queued s c \<and> queued s' c = queued s c - {p} \<and>
     procs s' = (procs s)(p := (procs s p)\<lparr>run_list := None\<rparr>) \<and>
     (\<exists>l. lists s' = (lists s)(l := remove1 p (lists s l))) \<and>
     (took_boost c focus s p s' \<or> took_fair c focus s p s')"

lemma find_focus_None: "find_focus h n ps = None \<Longrightarrow> q \<in> set ps \<Longrightarrow> pid (h q) \<noteq> n"
  by (induction h n ps rule: find_focus.induct) (auto split: if_splits)

lemma focus_scan_None:
  "focus_scan s c n ks = None \<Longrightarrow> k \<in> set ks \<Longrightarrow> q \<in> set (lists s (Runqueue c k)) \<Longrightarrow> pid (procs s q) \<noteq> n"
  by (induction s c n ks rule: focus_scan.induct) (auto split: option.splits dest: find_focus_None)

lemma dequeue_took:
  assumes wf: "queues_wf s" and l: "run_list (procs s p) = Some (Runqueue c k)"
    and f: "\<And>i. prio_bitmap (f i) = prio_bitmap i" "\<And>i. focus_streak (f i) = g (focus_streak i)"
    and how: "\<And>s'. streak s' c = g (streak s c) \<Longrightarrow> took_boost c focus s p s' \<or> took_fair c focus s p s'"
  shows "took c focus s p (upd_cpu c f (dequeue_task p s))"
proof -
  let ?t = "upd_cpu c f (unlinked p c k s)"
  have pr: "procs ?t = (procs s)(p := (procs s p)\<lparr>run_list := None\<rparr>)"
    using unlinked_procs(1) [OF l] by (simp add: upd_cpu_def)
  have li: "lists ?t = (lists s)(Runqueue c k := remove1 p (lists s (Runqueue c k)))"
    using unlinked_procs(2) [OF l] by (simp add: upd_cpu_def)
  have "streak ?t c = g (streak s c)" using unlinked_procs(3) [OF l] f(2) by (simp add: upd_cpu_def)
  note h = how [OF this]
  have wf': "queues_wf ?t" using unlinked_wf [OF wf l] f(1) by simp
  have q: "p \<in> queued s c" "queued ?t c = queued s c - {p}" using pr l by (auto simp: queued_def)
  show ?thesis
    unfolding dequeue_task_unlinked [OF wf l] took_def using pr li h wf' q by blast
qed

text \<open>One attempt either finds the CPU without queued tasks or takes exactly one off its queue.\<close>

lemma pick_fair_cases:
  assumes wf: "queues_wf s"
    and nf: "focus \<le> 0 \<or> FOCUS_BOOST_MAX \<le> streak s c \<or> (\<forall>q \<in> queued s c. pid (procs s q) \<noteq> focus)"
  shows "sched_pick_fair c s = (None, s) \<and> queued s c = {} \<or>
    (\<exists>p s'. sched_pick_fair c s = (Some p, s') \<and> took c focus s p s')"
proof (cases "prio_bitmap (cpus s c) = 0")
  case True
  then show ?thesis using empty_bitmap [OF wf] by (simp add: sched_pick_fair_def)
next
  case False
  define k where "k = ctz (prio_bitmap (cpus s c))"
  define p where "p = hd (lists s (Runqueue c k))"
  note b = best_head [OF wf False, folded k_def, folded p_def]
  have eq: "sched_pick_fair c s = (Some p, upd_cpu c (\<lambda>i. i\<lparr>focus_streak := 0\<rparr>) (dequeue_task p s))"
    using False b(1,2) by (simp add: sched_pick_fair_def Let_def MAX_PRIO_def flip: k_def p_def)
  have "priority (procs s p) = int k" using queues_wfD(3) [OF wf b(3)] by simp
  then have "\<exists>ys. lists s (Runqueue c (nat (priority (procs s p)))) = p # ys"
    using b(2) by (cases "lists s (Runqueue c k)") (simp_all add: p_def)
  then have "took_fair c focus s p s'" if "streak s' c = 0" for s'
    using that nf b(4) by (simp add: took_fair_def)
  then have "took c focus s p (upd_cpu c (\<lambda>i. i\<lparr>focus_streak := 0\<rparr>) (dequeue_task p s))"
    by (intro dequeue_took [OF wf b(3), where g = "\<lambda>_. 0"]) auto
  with eq show ?thesis by blast
qed

lemma pick_once_cases:
  assumes wf: "queues_wf s" and pick: "pick_once c focus s = (r, s')"
  shows "case r of None \<Rightarrow> s' = s \<and> queued s c = {} | Some p \<Rightarrow> took c focus s p s'"
proof (cases "focus \<le> 0 \<or> FOCUS_BOOST_MAX \<le> streak s c")
  case True
  then have "sched_pick_focus c focus s = (None, s)" by (simp add: sched_pick_focus_def)
  then have "sched_pick_fair c s = (r, s')" using pick by (simp add: pick_once_def)
  then show ?thesis using pick_fair_cases [OF wf, of focus c] True by auto
next
  case False
  show ?thesis
  proof (cases "focus_scan s c focus [0..<MAX_PRIO]")
    case None
    have "pid (procs s q) \<noteq> focus" if q: "q \<in> queued s c" for q
    proof -
      obtain k where "k < 32" "q \<in> set (lists s (Runqueue c k))" by (rule queued_prio [OF wf q])
      then show ?thesis using focus_scan_None [OF None, of k q] by (simp add: MAX_PRIO_def)
    qed
    moreover have "sched_pick_focus c focus s = (None, s)" using None by (simp add: sched_pick_focus_def)
    then have "sched_pick_fair c s = (r, s')" using pick by (simp add: pick_once_def)
    ultimately show ?thesis using pick_fair_cases [OF wf, of focus c] by auto
  next
    case (Some x)
    obtain k where k: "run_list (procs s x) = Some (Runqueue c k)"
      using focus_scan_mem [OF Some] queues_wfD(1) [OF wf, of x] by blast
    have "r = Some x" "s' = upd_cpu c (\<lambda>i. i\<lparr>focus_streak := focus_streak i + 1\<rparr>) (dequeue_task x s)"
      using pick Some False by (auto simp: pick_once_def sched_pick_focus_def)
    moreover have "took_boost c focus s x t" if "streak t c = streak s c + 1" for t
      using that False focus_scan_mem [OF Some] by (simp add: took_boost_def)
    then have "took c focus s x (upd_cpu c (\<lambda>i. i\<lparr>focus_streak := focus_streak i + 1\<rparr>) (dequeue_task x s))"
      by (intro dequeue_took [OF wf k, where g = "\<lambda>n. n + 1"]) auto
    ultimately show ?thesis by simp
  qed
qed

lemma finite_queued: "queues_wf s \<Longrightarrow> finite (queued s c)"
proof -
  assume wf: "queues_wf s"
  have "queued s c \<subseteq> (\<Union>k \<in> {..<32}. set (lists s (Runqueue c k)))"
  proof
    fix p assume "p \<in> queued s c"
    then obtain k where "k < 32" "p \<in> set (lists s (Runqueue c k))" by (rule queued_prio [OF wf])
    then show "p \<in> (\<Union>k \<in> {..<32}. set (lists s (Runqueue c k)))" by blast
  qed
  then show ?thesis by (rule finite_subset) simp
qed

definition same_tasks :: "sched \<Rightarrow> sched \<Rightarrow> bool" where
  "same_tasks s s' \<longleftrightarrow> (\<forall>q. pstate (procs s' q) = pstate (procs s q) \<and> pid (procs s' q) = pid (procs s q) \<and>
     priority (procs s' q) = priority (procs s q))"

definition parked :: "sched \<Rightarrow> pref \<Rightarrow> bool" where
  "parked s q \<longleftrightarrow> pstate (procs s q) = PROC_DEAD \<or> pstate (procs s q) = PROC_STOPPED"

text \<open>The outcome of the whole pick.  A boosted task is the focused process and leaves the count of
  boosts in a row at most \<open>FOCUS_BOOST_MAX\<close>; a fair task resets the count, no queued task has a better
  priority, and every task that was ahead of it in its queue was dead or stopped.  Nobody can be
  boosted when no process has the focus, when the focused one is not queued here, or when the budget
  is used up (and no corpse or stopped task is queued: taking one off also resets the count).\<close>

definition boosted :: "nat \<Rightarrow> int \<Rightarrow> sched \<Rightarrow> pref \<Rightarrow> sched \<Rightarrow> bool" where
  "boosted c focus s p s' \<longleftrightarrow> 0 < focus \<and> pid (procs s p) = focus \<and>
     0 < streak s' c \<and> streak s' c \<le> FOCUS_BOOST_MAX"

definition fair :: "nat \<Rightarrow> sched \<Rightarrow> pref \<Rightarrow> sched \<Rightarrow> bool" where
  "fair c s p s' \<longleftrightarrow> streak s' c = 0 \<and>
     (\<forall>q \<in> queued s' c. priority (procs s p) \<le> priority (procs s q)) \<and>
     (\<exists>xs ys. lists s (Runqueue c (nat (priority (procs s p)))) = xs @ p # ys \<and> (\<forall>q \<in> set xs. parked s q))"

definition no_boost :: "sched \<Rightarrow> nat \<Rightarrow> int \<Rightarrow> bool" where
  "no_boost s c focus \<longleftrightarrow> focus \<le> 0 \<or> (\<forall>q \<in> queued s c. pid (procs s q) \<noteq> focus) \<or>
     FOCUS_BOOST_MAX \<le> streak s c \<and> (\<forall>q \<in> queued s c. \<not> parked s q)"

definition can_boost :: "sched \<Rightarrow> nat \<Rightarrow> int \<Rightarrow> pref \<Rightarrow> bool" where
  "can_boost s c focus q \<longleftrightarrow> 0 < focus \<and> streak s c < FOCUS_BOOST_MAX \<and> q \<in> queued s c \<and>
     \<not> parked s q \<and> (\<forall>x \<in> queued s c. pid (procs s x) = focus \<longleftrightarrow> x = q)"

definition pick_ok :: "nat \<Rightarrow> int \<Rightarrow> sched \<Rightarrow> pref option \<Rightarrow> sched \<Rightarrow> bool" where
  "pick_ok c focus s r s' \<longleftrightarrow> queues_wf s' \<and> queued s' c \<subseteq> queued s c \<and>
     (\<forall>q \<in> queued s c - queued s' c. r = Some q \<or> parked s q) \<and>
     (r = None \<longrightarrow> queued s' c = {}) \<and>
     (\<forall>p. r = Some p \<longrightarrow> p \<in> queued s c \<and> \<not> parked s p \<and> run_list (procs s' p) = None \<and>
        (boosted c focus s p s' \<or> fair c s p s') \<and> (no_boost s c focus \<longrightarrow> fair c s p s')) \<and>
     (\<forall>q. can_boost s c focus q \<longrightarrow> r = Some q \<and> streak s' c = streak s c + 1)"

lemma pick_okI:
  assumes "queues_wf s'" "queued s' c \<subseteq> queued s c"
    "\<And>q. q \<in> queued s c \<Longrightarrow> q \<notin> queued s' c \<Longrightarrow> r = Some q \<or> parked s q"
    "r = None \<Longrightarrow> queued s' c = {}"
    "\<And>p. r = Some p \<Longrightarrow> p \<in> queued s c \<and> \<not> parked s p \<and> run_list (procs s' p) = None"
    "\<And>p. r = Some p \<Longrightarrow> boosted c focus s p s' \<or> fair c s p s'"
    "\<And>p. r = Some p \<Longrightarrow> no_boost s c focus \<Longrightarrow> fair c s p s'"
    "\<And>q. can_boost s c focus q \<Longrightarrow> r = Some q \<and> streak s' c = streak s c + 1"
  shows "pick_ok c focus s r s'"
  unfolding pick_ok_def
proof (intro conjI allI impI ballI)
  show "\<And>p. r = Some p \<Longrightarrow> p \<in> queued s c" "\<And>p. r = Some p \<Longrightarrow> \<not> parked s p"
    "\<And>p. r = Some p \<Longrightarrow> run_list (procs s' p) = None"
    "\<And>q. can_boost s c focus q \<Longrightarrow> r = Some q" "\<And>q. can_boost s c focus q \<Longrightarrow> streak s' c = streak s c + 1"
    using assms(5,8) by blast+
  show "\<And>q. q \<in> queued s c - queued s' c \<Longrightarrow> r = Some q \<or> parked s q" using assms(3) by simp
qed (fact assms)+

text \<open>The attempt that hands out its task.\<close>

lemma took_pick_ok:
  assumes t: "took c focus s p s'" and np: "\<not> parked s p"
  shows "pick_ok c focus s (Some p) s'"
proof -
  have q: "queues_wf s'" "p \<in> queued s c" "queued s' c = queued s c - {p}"
      "procs s' = (procs s)(p := (procs s p)\<lparr>run_list := None\<rparr>)"
      "took_boost c focus s p s' \<or> took_fair c focus s p s'"
    using t unfolding took_def by blast+
  have fair: "fair c s p s'" if f: "took_fair c focus s p s'"
  proof -
    obtain ys where ys: "lists s (Runqueue c (nat (priority (procs s p)))) = [] @ p # ys"
      using f by (auto simp: took_fair_def)
    have "streak s' c = 0" "\<forall>x \<in> queued s' c. priority (procs s p) \<le> priority (procs s x)"
      using f q(3) by (auto simp: took_fair_def)
    moreover have "\<forall>x \<in> set []. parked s x" by simp
    ultimately show ?thesis using ys unfolding fair_def by blast
  qed
  have boost: "boosted c focus s p s'" if "took_boost c focus s p s'"
    using that by (auto simp: took_boost_def boosted_def)
  show ?thesis
  proof (rule pick_okI)
    fix x assume nb: "Some p = Some x" "no_boost s c focus"
    then have "\<not> took_boost c focus s p s'" using q(2) by (auto simp: no_boost_def took_boost_def)
    then show "fair c s x s'" using fair q(5) nb by blast
  next
    fix x assume x: "can_boost s c focus x"
    then have "\<not> took_fair c focus s p s'" by (auto simp: can_boost_def took_fair_def)
    then have b: "took_boost c focus s p s'" using q(5) by blast
    then have "p = x" using x q(2) by (auto simp: can_boost_def took_boost_def)
    then show "Some p = Some x \<and> streak s' c = streak s c + 1" using b by (simp add: took_boost_def)
  qed (use q fair boost np in auto)
qed

lemma reap_push_frame:
  "queues_wf (reap_push c p s) \<longleftrightarrow> queues_wf s" "queued (reap_push c p s) i = queued s i"
  "same_tasks s (reap_push c p s)"
proof -
  show "queues_wf (reap_push c p s) \<longleftrightarrow> queues_wf s"
    by (rule queues_wf_cong) (simp_all add: reap_push_def upd_cpu_def upd_proc_def qfields_def)
qed (auto simp: reap_push_def queued_def same_tasks_def upd_cpu_def upd_proc_def)

lemma remove1_split:
  "remove1 p l = xs @ x # ys \<Longrightarrow> \<exists>xs' ys'. l = xs' @ x # ys' \<and> set xs' \<subseteq> insert p (set xs)"
proof (induction l arbitrary: xs)
  case (Cons a l)
  show ?case
  proof (cases "a = p")
    case True
    then have "a # l = (a # xs) @ x # ys" using Cons.prems by simp
    then show ?thesis using True by (metis list.simps(15) order_refl)
  next
    case False
    show ?thesis
    proof (cases xs)
      case Nil
      then have "a # l = [] @ x # l" using Cons.prems False by simp
      then show ?thesis by (metis empty_subsetI list.set(1))
    next
      case (Cons b zs)
      then have "b = a" "remove1 p l = zs @ x # ys" using Cons.prems False by simp_all
      then obtain xs' ys' where "l = xs' @ x # ys'" "set xs' \<subseteq> insert p (set zs)" using Cons.IH by blast
      then have "a # l = (a # xs') @ x # ys'" "set (a # xs') \<subseteq> insert p (set xs)" using \<open>b = a\<close> Cons by auto
      then show ?thesis by blast
    qed
  qed
qed simp

text \<open>The attempts after one that took a corpse or a stopped task.\<close>

lemma pick_ok_later:
  assumes ok: "pick_ok c focus u r s'" and p: "took c focus s p t" "parked s p"
    and u: "queued u c = queued t c" "lists u = lists t" "same_tasks s u"
  shows "pick_ok c focus s r s'"
proof -
  have q: "p \<in> queued s c" "queued u c = queued s c - {p}" "took_boost c focus s p t \<or> took_fair c focus s p t"
    using p(1) u(1) unfolding took_def by auto
  obtain l where l: "lists u = (lists s)(l := remove1 p (lists s l))" using p(1) u(2) unfolding took_def by auto
  have pk: "parked u x = parked s x" and pr: "priority (procs u x) = priority (procs s x)"
    and pd: "pid (procs u x) = pid (procs s x)" for x
    using u(3) by (simp_all add: parked_def same_tasks_def)
  have nb: "no_boost u c focus" if "no_boost s c focus"
    using that q(1,2) p(2) by (auto simp: no_boost_def pd)
  have bo: "boosted c focus s x s'" if "boosted c focus u x s'" for x using that by (simp add: boosted_def pd)
  have fa: "fair c s x s'" if f: "fair c u x s'" for x
  proof -
    obtain xs ys where xy: "lists u (Runqueue c (nat (priority (procs s x)))) = xs @ x # ys" "\<forall>q \<in> set xs. parked s q"
      using f by (auto simp: fair_def pr pk)
    then obtain xs' ys' where "lists s (Runqueue c (nat (priority (procs s x)))) = xs' @ x # ys'"
        "set xs' \<subseteq> insert p (set xs)"
      using remove1_split [of p "lists s l" xs x ys]
      by (cases "l = Runqueue c (nat (priority (procs s x)))") (auto simp: l)
    then show ?thesis using f xy(2) p(2) unfolding fair_def pr by blast
  qed
  have nc: "\<not> can_boost s c focus x" for x
    using q(1,3) p(2) by (auto simp: can_boost_def took_boost_def took_fair_def)
  have o: "queues_wf s'" "queued s' c \<subseteq> queued u c" "\<forall>q \<in> queued u c - queued s' c. r = Some q \<or> parked s q"
      "r = None \<longrightarrow> queued s' c = {}"
    using ok unfolding pick_ok_def pk by blast+
  have o5: "x \<in> queued u c \<and> \<not> parked s x \<and> run_list (procs s' x) = None \<and>
      (boosted c focus u x s' \<or> fair c u x s') \<and> (no_boost u c focus \<longrightarrow> fair c u x s')" if "r = Some x" for x
    using ok that unfolding pick_ok_def pk by blast
  show ?thesis
  proof (rule pick_okI)
    fix x assume x: "r = Some x"
    note ox = o5 [OF x]
    show "x \<in> queued s c \<and> \<not> parked s x \<and> run_list (procs s' x) = None" using ox q(2) by blast
    show "boosted c focus s x s' \<or> fair c s x s'" using ox bo fa by blast
    show "fair c s x s'" if "no_boost s c focus" using ox fa nb [OF that] by blast
  qed (use o q p(2) nc in auto)
qed

lemma pick_loop_ok:
  "queues_wf s \<Longrightarrow> card (queued s c) < n \<Longrightarrow>
   \<exists>r s'. pick_loop n c focus s = Inr (r, s') \<and> pick_ok c focus s r s'"
proof (induction n arbitrary: s)
  case (Suc n)
  obtain r t where pick: "pick_once c focus s = (r, t)" by fastforce
  note one = pick_once_cases [OF Suc.prems(1) pick]
  show ?case
  proof (cases r)
    case None
    then have "t = s" "queued s c = {}" using one by simp_all
    then show ?thesis using pick None Suc.prems(1) by (simp add: pick_ok_def can_boost_def)
  next
    case (Some p)
    then have tk: "took c focus s p t" using one by simp
    then have q: "p \<in> queued s c" "queued t c = queued s c - {p}" "queues_wf t"
        "procs t = (procs s)(p := (procs s p)\<lparr>run_list := None\<rparr>)" unfolding took_def by blast+
    have same: "same_tasks s t" using q(4) by (auto simp: same_tasks_def)
    have pt: "pstate (procs t p) = pstate (procs s p)" using same by (simp add: same_tasks_def)
    have less: "card (queued t c) < n"
      using card_Diff1_less [OF finite_queued [OF Suc.prems(1), where c = c] q(1)] Suc.prems(2) q(2) by simp
    show ?thesis
    proof (cases "parked s p")
      case False
      then have "pick_loop (Suc n) c focus s = Inr (Some p, t)"
        using pick Some pt by (simp add: parked_def)
      then show ?thesis using took_pick_ok [OF tk False] by blast
    next
      case True
      define u where "u = (if pstate (procs s p) = PROC_DEAD then reap_push c p t else t)"
      have loop: "pick_loop (Suc n) c focus s = pick_loop n c focus u"
        using pick Some True pt by (auto simp: parked_def u_def)
      have u: "queued u c = queued t c" "lists u = lists t" "same_tasks s u" "queues_wf u"
        using q(3) same reap_push_frame [where c = c and p = p and s = t]
        by (auto simp: u_def same_tasks_def reap_push_def upd_cpu_def upd_proc_def)
      then obtain r' s' where "pick_loop n c focus u = Inr (r', s')" "pick_ok c focus u r' s'"
        using Suc.IH [of u] less by auto
      then show ?thesis using loop pick_ok_later [OF _ tk True u(1-3)] by fastforce
    qed
  qed
qed simp

text \<open>C13. On a CPU with fewer than \<open>MAX_PROCESSES\<close> queued tasks \<open>__sched_pick_local\<close> never panics.  It
  keeps the queue invariant, takes off the queue only the task it returns and tasks that are dead or
  stopped, returns a task that is neither, and answers nothing only when no runnable task was queued.
  The task it returns is either the focused process, with the count of boosts in a row afterwards
  between 1 and \<open>FOCUS_BOOST_MAX\<close>, or a fair one: the count is 0, no task left in the queues of the
  CPU has a better priority, and every task ahead of it in its own queue was dead or stopped.  The
  focused process is returned whenever it is queued and runnable and the budget is not used up, and
  the fair one whenever nobody has the focus, the focused process is not queued here, or the budget
  is used up and no dead or stopped task is queued.\<close>

theorem sched_pick_local_correct:
  assumes "queues_wf s" "card (queued s c) < MAX_PROCESSES"
  shows "\<exists>r s'. sched_pick_local c focus s = Inr (r, s') \<and> pick_ok c focus s r s'"
  unfolding sched_pick_local_def by (rule pick_loop_ok [OF assms])

subsection \<open>Work stealing\<close>

lemma steal_from_wf:
  assumes wf: "queues_wf s" and st: "steal_from i s = (r, s')"
  shows "queues_wf s' \<and> (case r of None \<Rightarrow> s' = s
     | Some p \<Rightarrow> p \<in> queued s i \<and> run_list (procs s' p) = None \<and> pstate (procs s p) \<noteq> PROC_DEAD)"
proof (cases "prio_bitmap (cpus s i) = 0")
  case True
  then show ?thesis using st wf by (simp add: steal_from_def)
next
  case False
  note b = best_head [OF wf False]
  show ?thesis
    using st wf unlinked_wf [OF wf b(3)] unlinked_procs(1) [OF b(3)] b(3) False b(2)
    by (auto simp: steal_from_def Let_def unlinked_def queued_def split: if_splits)
qed

lemma steal_loop_wf:
  "queues_wf s \<Longrightarrow> queues_wf (snd (steal_loop trylock c ids s))"
proof (induction trylock c ids s rule: steal_loop.induct)
  case (2 trylock c i ids s)
  obtain r t where st: "steal_from i s = (r, t)" by fastforce
  show ?case using 2 st steal_from_wf [OF "2.prems" st] by (cases r) auto
qed simp

lemma steal_skips:
  "\<forall>j \<in> set ids. j = c \<or> \<not> online (cpus s j) \<Longrightarrow> steal_loop trylock c (ids @ js) s = steal_loop trylock c js s"
  by (induction ids) auto

text \<open>Work stealing resumes a stopped task: when the best queued task of the first other CPU is
  stopped, it is handed to the thief, which will run it, although the local pick of its own CPU
  skips stopped tasks.\<close>

theorem steal_takes_stopped_task:
  assumes wf: "queues_wf s" and i: "i < MAX_CPUS" "i \<noteq> c" "online (cpus s i)" "trylock i"
    and first: "\<forall>j < i. j = c \<or> \<not> online (cpus s j)"
    and bm: "prio_bitmap (cpus s i) \<noteq> 0"
    and p: "p = hd (lists s (Runqueue i (ctz (prio_bitmap (cpus s i)))))"
    and stopped: "pstate (procs s p) = PROC_STOPPED" and prio: "priority (procs s p) \<noteq> PROC_PRIO_IDLE"
  shows "fst (sched_steal_work trylock c s) = Some p \<and>
     pstate (procs (snd (sched_steal_work trylock c s)) p) = PROC_STOPPED"
proof -
  note b = best_head [OF wf bm]
  have "[0..<MAX_CPUS] = [0..<i] @ i # [Suc i..<MAX_CPUS]"
    using i(1) upt_add_eq_append [of 0 i "MAX_CPUS - i"] by (simp add: upt_conv_Cons)
  then have w: "sched_steal_work trylock c s = steal_loop trylock c (i # [Suc i..<MAX_CPUS]) s"
    unfolding sched_steal_work_def using steal_skips [where c = c and s = s and ids = "[0..<i]"] first by simp
  obtain t where t: "steal_from i s = (Some p, t)"
    using bm b(2) stopped prio by (simp add: steal_from_def Let_def flip: p)
  have "pstate (procs t p) = PROC_STOPPED"
    using t stopped by (auto simp: steal_from_def Let_def list_del_init_def upd_proc_def upd_cpu_def
        split: if_splits option.splits)
  then show ?thesis using w t i by simp
qed

subsection \<open>Teardown\<close>

text \<open>What re-homing and the bookkeeping of a removal leave alone.\<close>

definition task_frame :: "sched \<Rightarrow> sched \<Rightarrow> bool" where
  "task_frame s s' \<longleftrightarrow> lists s' = lists s \<and> cpus s' = cpus s \<and>
     (\<forall>q. qfields (procs s' q) = qfields (procs s q) \<and> pstate (procs s' q) = pstate (procs s q))"

lemma task_frame_refl [simp]: "task_frame s s"
  by (simp add: task_frame_def)

lemma task_frame_trans: "task_frame s t \<Longrightarrow> task_frame t u \<Longrightarrow> task_frame s u"
  by (simp add: task_frame_def)

lemma task_frame_wf: "task_frame s s' \<Longrightarrow> queues_wf s' \<longleftrightarrow> queues_wf s"
  unfolding task_frame_def by (intro queues_wf_cong) auto

lemma task_frame_upd [simp]:
  assumes "\<And>q. qfields (f q) = qfields q \<and> pstate (f q) = pstate q"
  shows "task_frame s (upd_proc p f t) \<longleftrightarrow> task_frame s t"
proof -
  have "qfields (procs (upd_proc p f t) q) = qfields (procs t q) \<and> pstate (procs (upd_proc p f t) q) = pstate (procs t q)" for q
    using assms by (simp add: upd_proc_def)
  then show ?thesis unfolding task_frame_def by (simp add: upd_proc_def)
qed

lemma task_frame_reparent_one: "task_frame s (reparent_one dead heir hp p s)"
  by (simp add: reparent_one_def Let_def qfields_def split: option.split)

lemma task_frame_reparent_loop: "task_frame s (reparent_loop dead heir hp xs s)"
  by (induction dead heir hp xs s rule: reparent_loop.induct)
     (auto intro: task_frame_trans task_frame_reparent_one)

lemma task_frame_child_dec: "task_frame s (child_count_dec p s)"
  by (simp add: child_count_dec_def qfields_def split: option.split)

lemma task_frame_pool_remove: "task_frame s (snd (pool_remove p s))"
proof (cases "pool_index 0 p (process_pool s)")
  case (Some slot)
  define t where "t = (record_reaped p s)\<lparr>process_pool := (process_pool (record_reaped p s))[slot := None],
      active_count := active_count (record_reaped p s) - 1\<rparr>"
  have "task_frame s t" by (simp add: t_def task_frame_def record_reaped_def)
  moreover have "task_frame t (reparent_children p (child_count_dec p t))"
    unfolding reparent_children_def Let_def
    by (rule task_frame_trans [OF task_frame_child_dec task_frame_reparent_loop])
  moreover have "snd (pool_remove p s) = reparent_children p (child_count_dec p t)"
    using Some by (simp add: pool_remove_def t_def Let_def)
  ultimately show ?thesis using task_frame_trans by simp
qed (simp add: pool_remove_def)

lemma task_frame_free: "task_frame s (free_resources p s)"
  by (auto simp: free_resources_def proc_env_free_def Let_def task_frame_def upd_proc_def qfields_def)

lemma released_pool_remove [simp]: "released (snd (pool_remove p s)) = released s"
proof -
  have one: "released (reparent_one d h hp q u) = released u" for d h hp q u
    by (simp add: reparent_one_def Let_def upd_proc_def split: option.split)
  have loop: "released (reparent_loop d h hp xs u) = released u" for d h hp xs u
    by (induction d h hp xs u rule: reparent_loop.induct) (simp_all add: one)
  have dec: "released (child_count_dec q u) = released u" for q u
    by (simp add: child_count_dec_def upd_proc_def split: option.split)
  show ?thesis
    by (simp add: pool_remove_def Let_def reparent_children_def loop dec record_reaped_def split: option.split)
qed

lemma released_free [simp]: "released (free_resources p s) = p # released s"
  by (simp add: free_resources_def proc_env_free_def Let_def upd_proc_def)

lemma destroy_windows_frame: "task_frame u (compositor_destroy_windows_by_pid n s) \<longleftrightarrow> task_frame u s"
  "released (compositor_destroy_windows_by_pid n s) = released s"
  "procs (compositor_destroy_windows_by_pid n s) = procs s"
  "cpus (compositor_destroy_windows_by_pid n s) = cpus s"
  by (simp_all add: compositor_destroy_windows_by_pid_def Let_def task_frame_def)

text \<open>The state in which \<open>process_terminate\<close> decides who frees the victim.\<close>

definition terminate_core :: "int \<Rightarrow> pref \<Rightarrow> sched \<Rightarrow> sched" where
  "terminate_core n p s =
     detach_from_wait_queue p (drain_ipc p (upd_proc p (\<lambda>q. q\<lparr>sleep_timer_armed := False\<rparr>)
       (compositor_destroy_windows_by_pid n (upd_proc p (\<lambda>q. q\<lparr>dying := True\<rparr>) s))))"

lemma detach_wf:
  assumes "queues_wf s"
  shows "queues_wf (detach_from_wait_queue p s)"
    "run_list (procs (detach_from_wait_queue p s) p) =
       (if wait_queue_ptr (procs s p) = None then run_list (procs s p) else None)"
    "pstate (procs (detach_from_wait_queue p s) p) = pstate (procs s p)"
    "released (detach_from_wait_queue p s) = released s"
    "q \<noteq> p \<Longrightarrow> procs (detach_from_wait_queue p s) q = procs s q"
    "cpus (detach_from_wait_queue p s) = cpus s"
proof -
  show "queues_wf (detach_from_wait_queue p s)"
    using assms list_del_init_wait_wf [OF assms] queues_wfD(4) [OF assms, of p]
    by (cases "wait_queue_ptr (procs s p)") (simp_all add: detach_from_wait_queue_def)
qed (auto simp: detach_from_wait_queue_def list_del_init_def upd_proc_def split: option.split)

lemma terminate_core_wf:
  assumes wf: "queues_wf s"
  shows "queues_wf (terminate_core n p s)"
    "run_list (procs (terminate_core n p s) p) =
       (if wait_queue_ptr (procs s p) = None then run_list (procs s p) else None)"
    "pstate (procs (terminate_core n p s) p) = pstate (procs s p)"
    "released (terminate_core n p s) = released s"
    "q \<noteq> p \<Longrightarrow> run_list (procs (terminate_core n p s) q) = run_list (procs s q)"
    "cpus (terminate_core n p s) = cpus s"
proof -
  define t where "t = drain_ipc p (upd_proc p (\<lambda>q. q\<lparr>sleep_timer_armed := False\<rparr>)
       (compositor_destroy_windows_by_pid n (upd_proc p (\<lambda>q. q\<lparr>dying := True\<rparr>) s)))"
  have f: "task_frame s t"
    by (simp add: t_def drain_ipc_def qfields_def destroy_windows_frame)
  have tp: "released t = released s" "cpus t = cpus s"
      "q \<noteq> p \<Longrightarrow> procs t q = procs s q"
    by (simp_all add: t_def drain_ipc_def upd_proc_def destroy_windows_frame)
  have core: "terminate_core n p s = detach_from_wait_queue p t" by (simp add: terminate_core_def t_def)
  have wft: "queues_wf t" using task_frame_wf [OF f] wf by simp
  note d = detach_wf [OF wft, where p = p]
  have fp: "wait_queue_ptr (procs t p) = wait_queue_ptr (procs s p)" "run_list (procs t p) = run_list (procs s p)"
      "pstate (procs t p) = pstate (procs s p)"
    using f by (simp_all add: task_frame_def qfields_def)
  show "queues_wf (terminate_core n p s)" using d(1) by (simp add: core)
  show "run_list (procs (terminate_core n p s) p) =
       (if wait_queue_ptr (procs s p) = None then run_list (procs s p) else None)"
    using d(2) fp by (simp add: core)
  show "pstate (procs (terminate_core n p s) p) = pstate (procs s p)" using d(3) fp by (simp add: core)
  show "released (terminate_core n p s) = released s" using d(4) tp by (simp add: core)
  show "q \<noteq> p \<Longrightarrow> run_list (procs (terminate_core n p s) q) = run_list (procs s q)"
    using d(5) [of q] tp(3) by (simp add: core)
  show "cpus (terminate_core n p s) = cpus s" using d(6) tp by (simp add: core)
qed

text \<open>The cases of \<open>process_terminate\<close> as one equation.\<close>

lemma process_terminate_cases:
  assumes "process_find_by_pid s n = Some p"
  shows "process_terminate c n s =
     (if plevel (procs s p) = PLVL_MACHINE then (- 1, s)
      else if pstate (procs s p) = PROC_DEAD \<or> pstate (procs s p) = PROC_ZOMBIE then (0, s)
      else let s1 = compositor_destroy_windows_by_pid n (upd_proc p (\<lambda>q. q\<lparr>dying := True\<rparr>) s);
               s3 = terminate_core n p s;
               s4 = upd_proc p (\<lambda>q. q\<lparr>pstate := PROC_DEAD\<rparr>) s3 in
        if current_process s c = Some p then (0, upd_proc p (\<lambda>q. q\<lparr>pstate := PROC_ZOMBIE\<rparr>) s1)
        else if pstate (procs s p) = PROC_CREATED then (0, upd_proc p (\<lambda>q. q\<lparr>kill_pending := True\<rparr>) s1)
        else if pstate (procs s3 p) = PROC_READY \<or> pstate (procs s3 p) = PROC_RUNNING then (0, s4)
        else if still_current_anywhere p s4 then (0, s4)
        else (0, if fst (pool_remove p s4) \<noteq> None then free_resources p (snd (pool_remove p s4))
                 else snd (pool_remove p s4)))"
proof -
  have "pstate (procs (compositor_destroy_windows_by_pid n (upd_proc p (\<lambda>q. q\<lparr>dying := True\<rparr>) s)) p) = pstate (procs s p)"
    "current_process (compositor_destroy_windows_by_pid n (upd_proc p (\<lambda>q. q\<lparr>dying := True\<rparr>) s)) c = current_process s c"
    by (simp_all add: destroy_windows_frame current_process_def upd_proc_def)
  then show ?thesis
    using assms
    by (simp add: process_terminate_def proc_is_machine_def terminate_core_def mark_dead_on_runqueue_def
        Let_def case_prod_unfold)
qed

definition no_dangling :: "sched \<Rightarrow> bool" where
  "no_dangling s \<longleftrightarrow> (\<forall>p \<in> set (released s). run_list (procs s p) = None)"

lemma terminate_final:
  assumes wf: "queues_wf s" and find: "process_find_by_pid s n = Some p"
  shows "queues_wf (snd (process_terminate c n s))"
    "\<forall>q. q \<noteq> p \<longrightarrow> run_list (procs (snd (process_terminate c n s)) q) = run_list (procs s q)"
    "p \<in> set (released (snd (process_terminate c n s))) - set (released s) \<Longrightarrow>
       pstate (procs s p) \<notin> {PROC_READY, PROC_RUNNING, PROC_DEAD, PROC_ZOMBIE, PROC_CREATED} \<and>
       run_list (procs (snd (process_terminate c n s)) p) =
         (if wait_queue_ptr (procs s p) = None then run_list (procs s p) else None)"
    "set (released (snd (process_terminate c n s))) \<subseteq> insert p (set (released s))"
    "wait_queue_ptr (procs s p) \<noteq> None \<and> run_list (procs (snd (process_terminate c n s)) p) = None
      \<or> run_list (procs (snd (process_terminate c n s)) p) = run_list (procs s p)"
proof -
  define s1 where "s1 = compositor_destroy_windows_by_pid n (upd_proc p (\<lambda>q. q\<lparr>dying := True\<rparr>) s)"
  define s4 where "s4 = upd_proc p (\<lambda>q. q\<lparr>pstate := PROC_DEAD\<rparr>) (terminate_core n p s)"
  define s5 where "s5 = snd (pool_remove p s4)"
  note core = terminate_core_wf [OF wf, where n = n and p = p]
  have f1: "task_frame s s1"
    by (simp add: s1_def qfields_def destroy_windows_frame)
  have w1: "queues_wf (upd_proc p (\<lambda>q. q\<lparr>pstate := x\<rparr>) s1)" "queues_wf (upd_proc p (\<lambda>q. q\<lparr>kill_pending := y\<rparr>) s1)" for x y
    using task_frame_wf [OF f1] wf by (simp_all add: qfields_def)
  have r1: "released s1 = released s" "run_list (procs s1 q) = run_list (procs s q)" for q
    using f1 by (simp_all add: s1_def destroy_windows_frame upd_proc_def)
  have w4: "queues_wf s4" using core(1) by (simp add: s4_def)
  have r4: "released s4 = released s" "run_list (procs s4 q) = run_list (procs (terminate_core n p s) q)" for q
    using core(4) by (simp_all add: s4_def upd_proc_def)
  have w5: "queues_wf s5" "queues_wf (free_resources p s5)"
    using task_frame_wf [OF task_frame_pool_remove [of s4 p]] task_frame_wf [OF task_frame_free [of s5 p]] w4
    by (simp_all add: s5_def)
  have r5: "released s5 = released s" "run_list (procs s5 q) = run_list (procs (terminate_core n p s) q)"
      "run_list (procs (free_resources p s5) q) = run_list (procs (terminate_core n p s) q)" for q
    using r4 task_frame_pool_remove [of s4 p] task_frame_free [of s5 p]
    by (simp_all add: s5_def task_frame_def qfields_def)
  note eq = process_terminate_cases [OF find, of c, unfolded Let_def, folded s1_def s4_def, folded s5_def]
  show "queues_wf (snd (process_terminate c n s))" unfolding eq using wf w1 w4 w5 by simp
  show "\<forall>q. q \<noteq> p \<longrightarrow> run_list (procs (snd (process_terminate c n s)) q) = run_list (procs s q)"
    unfolding eq using r1 r4 r5 core(5) by (simp add: upd_proc_def)
  show "p \<in> set (released (snd (process_terminate c n s))) - set (released s) \<Longrightarrow>
       pstate (procs s p) \<notin> {PROC_READY, PROC_RUNNING, PROC_DEAD, PROC_ZOMBIE, PROC_CREATED} \<and>
       run_list (procs (snd (process_terminate c n s)) p) =
         (if wait_queue_ptr (procs s p) = None then run_list (procs s p) else None)"
    unfolding eq using r1 r4 r5 core(2,3) by (auto simp: upd_proc_def split: if_splits)
  show "set (released (snd (process_terminate c n s))) \<subseteq> insert p (set (released s))"
    unfolding eq using r1 r4 r5 by (auto simp: upd_proc_def split: if_splits)
  show "wait_queue_ptr (procs s p) \<noteq> None \<and> run_list (procs (snd (process_terminate c n s)) p) = None
      \<or> run_list (procs (snd (process_terminate c n s)) p) = run_list (procs s p)"
    unfolding eq using r1 r4 r5 core(2) by (auto simp: upd_proc_def split: if_splits)
qed

section \<open>A small instance\<close>

text \<open>The shell and its job of the process table, both queued on CPU 0.\<close>

lemma demo_queues_wf: "queues_wf demo_sched"
  unfolding queues_wf_def demo_sched_def boot_sched_def demo_shell_def demo_job_def zero_process_def zero_cpu_def
  by simp

definition demo_rq :: sched where
  "demo_rq = enqueue_task 2 (enqueue_task 1 demo_sched)"

lemma demo_rq_wf: "queues_wf demo_rq"
  unfolding demo_rq_def
  by (intro enqueue_task_wf demo_queues_wf)
     (simp_all add: enqueue_task_def demo_sched_def demo_shell_def demo_job_def zero_process_def Let_def
       list_add_tail_def upd_proc_def upd_cpu_def)

lemma demo_rq_simps:
  "procs demo_rq 1 = demo_shell\<lparr>run_list := Some (Runqueue 0 0)\<rparr>"
  "procs demo_rq 2 = demo_job\<lparr>run_list := Some (Runqueue 0 0)\<rparr>"
  "lists demo_rq (Runqueue 0 0) = [1, 2]" "process_pool demo_rq = process_pool demo_sched"
  "cpus demo_rq 0 = (cpus demo_sched 0)\<lparr>prio_bitmap := 1\<rparr>" "c \<noteq> 0 \<Longrightarrow> cpus demo_rq c = zero_cpu"
  "released demo_rq = []" "p \<noteq> 1 \<Longrightarrow> p \<noteq> 2 \<Longrightarrow> procs demo_rq p = zero_process"
  by (simp_all add: demo_rq_def enqueue_task_def demo_sched_def boot_sched_def demo_shell_def demo_job_def
      zero_process_def zero_cpu_def Let_def list_add_tail_def upd_proc_def upd_cpu_def cpu_of_def queue_prio_def MAX_PRIO_def)

lemma demo_rq_queued: "queued demo_rq 0 = {1, 2}"
proof -
  have "p \<in> queued demo_rq 0 \<longleftrightarrow> p = 1 \<or> p = 2" for p
    using demo_rq_simps(1,2,8)
    by (cases "p = 1"; cases "p = 2") (auto simp: queued_def zero_process_def)
  then show ?thesis by blast
qed

lemma demo_rq_find: "process_find_by_pid demo_rq 9 = Some 2"
  by (simp add: process_find_by_pid_def demo_rq_simps(4) demo_sched_def del: One_nat_def)
     (simp add: demo_rq_simps demo_shell_def demo_job_def del: One_nat_def)

theorem sched_pick_local_correct_witness:
  "\<exists>r s'. sched_pick_local 0 9 demo_rq = Inr (r, s') \<and> pick_ok 0 9 demo_rq r s'"
  by (rule sched_pick_local_correct [OF demo_rq_wf]) (simp add: demo_rq_queued MAX_PROCESSES_def)

theorem steal_takes_stopped_task_witness:
  "fst (sched_steal_work (\<lambda>_. True) 1 (upd_proc 1 (\<lambda>q. q\<lparr>pstate := PROC_STOPPED\<rparr>) demo_rq)) = Some 1"
proof -
  let ?s = "upd_proc 1 (\<lambda>q. q\<lparr>pstate := PROC_STOPPED\<rparr>) demo_rq"
  have "queues_wf ?s" using demo_rq_wf by simp
  moreover have z: "ctz (1 :: u32) = 0" using ctz_bit(2) [of 1] by (simp add: bit_simps)
  ultimately show ?thesis
    using steal_takes_stopped_task [of ?s 0 1 "\<lambda>_. True" 1]
    by (simp add: upd_proc_def MAX_CPUS_def demo_rq_simps PROC_PRIO_IDLE_def del: One_nat_def)
       (simp add: demo_sched_def demo_shell_def zero_process_def z)
qed

end
