(* ===== verification/Sched_Switch.thy ===== *)
theory Sched_Switch
  imports Sched_Correct
begin

text \<open>
  The queue invariant across \<open>schedule()\<close>: the reaper, the accounting, the parked task, the outgoing
  task, the pick, the steal and the switch, in the order of the code.  The code does not check where
  the tasks it gives up are linked; what it relies on is collected in \<open>hand_over_ok\<close>.
\<close>

section \<open>What schedule() relies on\<close>

definition on_waitqueue :: "process \<Rightarrow> bool" where
  "on_waitqueue q = (case run_list q of Some (Waitqueue _) \<Rightarrow> True | _ \<Rightarrow> False)"

definition corpse :: "process \<Rightarrow> bool" where
  "corpse q \<longleftrightarrow> pstate q = PROC_DEAD \<or> pstate q = PROC_ZOMBIE"

text \<open>A dead outgoing task is on no list, and a runnable one on no wait queue.\<close>

definition outgoing_ok :: "process \<Rightarrow> bool" where
  "outgoing_ok q \<longleftrightarrow> (corpse q \<longrightarrow> run_list q = None) \<and>
     (pstate q = PROC_RUNNING \<or> pstate q = PROC_READY \<longrightarrow> \<not> on_waitqueue q)"

text \<open>A task parked by the last switch is linked only if it was continued meanwhile or stopped.\<close>

definition pending_ok :: "process \<Rightarrow> bool" where
  "pending_ok q \<longleftrightarrow> priority q \<noteq> PROC_PRIO_IDLE \<and>
     (run_list q = None \<or> pstate q = PROC_READY \<or> pstate q = PROC_STOPPED)"

definition idles_ok :: "sched \<Rightarrow> bool" where
  "idles_ok s \<longleftrightarrow> (\<forall>i p. idle_task (cpus s i) = Some p \<longrightarrow>
     run_list (procs s p) = None \<and> priority (procs s p) = PROC_PRIO_IDLE)"

definition hand_over_ok :: "nat \<Rightarrow> sched \<Rightarrow> bool" where
  "hand_over_ok c s \<longleftrightarrow> idles_ok s \<and>
     (\<forall>p. current_task (cpus s c) = Some p \<longrightarrow> outgoing_ok (procs s p)) \<and>
     (\<forall>p. pending_reenqueue (cpus s c) = Some p \<longrightarrow> pending_ok (procs s p))"

section \<open>Frames\<close>

text \<open>What the reaper and the accounting leave of the queues.\<close>

definition same_view :: "sched \<Rightarrow> sched \<Rightarrow> bool" where
  "same_view s t \<longleftrightarrow> lists t = lists s \<and>
     (\<forall>q. qfields (procs t q) = qfields (procs s q) \<and> pstate (procs t q) = pstate (procs s q)) \<and>
     (\<forall>i. current_task (cpus t i) = current_task (cpus s i) \<and> idle_task (cpus t i) = idle_task (cpus s i) \<and>
        pending_reenqueue (cpus t i) = pending_reenqueue (cpus s i) \<and> prio_bitmap (cpus t i) = prio_bitmap (cpus s i))"

lemma same_view_trans: "same_view s t \<Longrightarrow> same_view t u \<Longrightarrow> same_view s u"
  by (simp add: same_view_def)

lemma same_view_wf: "same_view s t \<Longrightarrow> queues_wf t \<longleftrightarrow> queues_wf s"
  unfolding same_view_def by (intro queues_wf_cong) auto

lemma same_view_hand_over:
  assumes "same_view s t"
  shows "hand_over_ok c t \<longleftrightarrow> hand_over_ok c s"
proof -
  have f: "run_list (procs t q) = run_list (procs s q)" "priority (procs t q) = priority (procs s q)"
      "pstate (procs t q) = pstate (procs s q)" for q
    using assms by (auto simp: same_view_def qfields_def)
  have c: "current_task (cpus t i) = current_task (cpus s i)" "idle_task (cpus t i) = idle_task (cpus s i)"
      "pending_reenqueue (cpus t i) = pending_reenqueue (cpus s i)" for i
    using assms by (simp_all add: same_view_def)
  show ?thesis
    unfolding hand_over_ok_def idles_ok_def outgoing_ok_def pending_ok_def corpse_def on_waitqueue_def f c ..
qed

lemma task_frame_view: "task_frame s t \<Longrightarrow> same_view s t"
  by (simp add: task_frame_def same_view_def)

lemma reap_one_view:
  "same_view s (free_resources p (upd_proc p (\<lambda>q. q\<lparr>sleep_timer_armed := False\<rparr>)
     (drain_ipc p (snd (pool_remove p (upd_cpu c (\<lambda>i. i\<lparr>deferred_free_proc := ps\<rparr>) s))))))"
proof -
  let ?u = "upd_cpu c (\<lambda>i. i\<lparr>deferred_free_proc := ps\<rparr>) s"
  have "same_view s ?u" by (simp add: same_view_def upd_cpu_def)
  moreover have "task_frame ?u (drain_ipc p (snd (pool_remove p ?u)))"
    using task_frame_pool_remove [of ?u p] by (simp add: drain_ipc_def)
  then have "task_frame ?u (upd_proc p (\<lambda>q. q\<lparr>sleep_timer_armed := False\<rparr>) (drain_ipc p (snd (pool_remove p ?u))))"
    by (simp add: qfields_def)
  then have "same_view ?u (free_resources p (upd_proc p (\<lambda>q. q\<lparr>sleep_timer_armed := False\<rparr>)
      (drain_ipc p (snd (pool_remove p ?u)))))"
    by (rule task_frame_view [OF task_frame_trans [OF _ task_frame_free]])
  ultimately show ?thesis by (rule same_view_trans)
qed

lemma reap_loop_view: "same_view s (reap_deferred_loop c ps s)"
proof (induction ps arbitrary: s)
  case (Cons p ps)
  show ?case unfolding reap_deferred_loop.simps by (rule same_view_trans [OF reap_one_view Cons.IH])
qed (simp add: same_view_def)

lemma account_view: "same_view s (sched_account_time now c prev s)"
  by (cases prev) (auto simp: same_view_def sched_account_time_def Let_def upd_proc_def upd_cpu_def qfields_def)

text \<open>What picking and stealing leave: tasks only come off lists.\<close>

definition loosened :: "sched \<Rightarrow> sched \<Rightarrow> bool" where
  "loosened s t \<longleftrightarrow> (\<forall>i. idle_task (cpus t i) = idle_task (cpus s i)) \<and>
     (\<forall>q. pstate (procs t q) = pstate (procs s q) \<and> priority (procs t q) = priority (procs s q) \<and>
        (run_list (procs t q) = run_list (procs s q) \<or> run_list (procs t q) = None))"

lemma loosened_refl [simp]: "loosened s s"
  by (simp add: loosened_def)

lemma loosened_trans: "loosened s t \<Longrightarrow> loosened t u \<Longrightarrow> loosened s u"
  unfolding loosened_def by metis

lemma loosened_outgoing:
  assumes "loosened s t" "outgoing_ok (procs s p)"
  shows "outgoing_ok (procs t p)"
proof -
  have "pstate (procs t p) = pstate (procs s p)"
      "run_list (procs t p) = run_list (procs s p) \<or> run_list (procs t p) = None"
    using assms(1) by (simp_all add: loosened_def)
  then show ?thesis using assms(2) by (auto simp: outgoing_ok_def corpse_def on_waitqueue_def)
qed

lemma loosened_idles: "loosened s t \<Longrightarrow> idles_ok s \<Longrightarrow> idles_ok t"
  unfolding loosened_def idles_ok_def by metis

lemma loosened_del: "loosened s (list_del_init p s)"
  by (auto simp: loosened_def list_del_init_def upd_proc_def split: option.split)

lemma loosened_upd_cpu: "(\<And>i. idle_task (f i) = idle_task i) \<Longrightarrow> loosened s (upd_cpu c f t) \<longleftrightarrow> loosened s t"
  by (auto simp: loosened_def upd_cpu_def)

lemma loosened_dequeue: "loosened s (dequeue_task p s)"
  by (simp add: dequeue_task_def Let_def loosened_upd_cpu loosened_del)

lemma loosened_pick_once: "loosened s (snd (pick_once c focus s))"
proof -
  have f: "loosened s (snd (sched_pick_focus c focus s))"
    by (simp add: sched_pick_focus_def loosened_upd_cpu loosened_dequeue split: option.split)
  have g: "loosened t (snd (sched_pick_fair c t))" for t
    by (simp add: sched_pick_fair_def Let_def loosened_upd_cpu loosened_dequeue)
  show ?thesis
    using f g [of "snd (sched_pick_focus c focus s)"] loosened_trans
    by (cases "sched_pick_focus c focus s"; cases "fst (sched_pick_focus c focus s)")
       (auto simp: pick_once_def)
qed

lemma loosened_reap_push: "loosened s (reap_push c p s)"
  by (simp add: reap_push_def loosened_upd_cpu) (simp add: loosened_def upd_proc_def)

lemma loosened_pick_loop: "pick_loop n c focus s = Inr (r, s') \<Longrightarrow> loosened s s'"
proof (induction n arbitrary: s)
  case (Suc n)
  obtain q t where pick: "pick_once c focus s = (q, t)" by fastforce
  have st: "loosened s t" using loosened_pick_once [of s c focus] pick by simp
  show ?case
  proof (cases q)
    case None
    then show ?thesis using Suc.prems pick st by simp
  next
    case (Some p)
    then consider "s' = t" | "pick_loop n c focus (reap_push c p t) = Inr (r, s')" | "pick_loop n c focus t = Inr (r, s')"
      using Suc.prems pick by (auto split: if_splits)
    then show ?thesis
      by cases (use Suc.IH st loosened_trans loosened_reap_push in blast)+
  qed
qed simp

lemma loosened_steal_from: "loosened s (snd (steal_from i s))"
  by (simp add: steal_from_def Let_def loosened_upd_cpu loosened_del)

lemma loosened_steal_loop: "loosened s (snd (steal_loop trylock c ids s))"
proof (induction trylock c ids s rule: steal_loop.induct)
  case (2 trylock c i ids s)
  obtain r t where st: "steal_from i s = (r, t)" by fastforce
  then have "loosened s t" using loosened_steal_from [of s i] by simp
  then show ?case using 2 st loosened_trans by (cases r) auto
qed simp

lemma steal_loop_unlinked:
  "queues_wf s \<Longrightarrow> fst (steal_loop trylock c ids s) = Some p \<Longrightarrow>
   run_list (procs (snd (steal_loop trylock c ids s)) p) = None"
proof (induction trylock c ids s rule: steal_loop.induct)
  case (2 trylock c i ids s)
  obtain r t where st: "steal_from i s = (r, t)" by fastforce
  show ?case using 2 st steal_from_wf [OF "2.prems"(1) st] by (cases r) (auto split: if_splits)
qed simp

section \<open>The stages\<close>

lemma enqueue_outgoing: "outgoing_ok (procs s q) \<Longrightarrow> outgoing_ok (procs (enqueue_task p s) q)"
  by (auto simp: enqueue_task_def Let_def list_add_tail_def upd_proc_def upd_cpu_def outgoing_ok_def corpse_def
      on_waitqueue_def)

lemma enqueue_idles:
  assumes "idles_ok s" "priority (procs s p) \<noteq> PROC_PRIO_IDLE"
  shows "idles_ok (enqueue_task p s)"
  using assms unfolding idles_ok_def
  by (auto simp: enqueue_task_def Let_def list_add_tail_def upd_proc_def upd_cpu_def split: if_splits)

lemma requeue_stage:
  assumes wf: "queues_wf s" and ok: "hand_over_ok c s"
    and prev: "\<And>p. prev = Some p \<Longrightarrow> outgoing_ok (procs s p)"
  defines "t \<equiv> sched_requeue_pending c s"
  shows "queues_wf t" "idles_ok t" "\<And>p. prev = Some p \<Longrightarrow> outgoing_ok (procs t p)"
proof -
  have ids: "idles_ok s" using ok by (simp add: hand_over_ok_def)
  have "queues_wf t \<and> idles_ok t \<and> (\<forall>p. prev = Some p \<longrightarrow> outgoing_ok (procs t p))"
  proof (cases "pending_reenqueue (cpus s c)")
    case None
    then show ?thesis using wf ids prev by (simp add: t_def sched_requeue_pending_def)
  next
    case (Some p)
    define u where "u = upd_cpu c (\<lambda>i. i\<lparr>pending_reenqueue := None\<rparr>) s"
    have u: "queues_wf u" "procs u = procs s" "idles_ok u"
      using wf ids by (simp add: u_def) (use ids in \<open>auto simp: u_def upd_cpu_def idles_ok_def\<close>)
    have pend: "priority (procs s p) \<noteq> PROC_PRIO_IDLE"
        "run_list (procs s p) = None \<or> pstate (procs s p) = PROC_READY \<or> pstate (procs s p) = PROC_STOPPED"
      using ok Some by (simp_all add: hand_over_ok_def pending_ok_def)
    show ?thesis
    proof (cases "corpse (procs s p)")
      case False
      then have t: "t = enqueue_task p u"
        using Some u(2) by (simp add: t_def sched_requeue_pending_def u_def corpse_def)
      then show ?thesis
        using enqueue_task_wf [OF u(1), of p] enqueue_idles [OF u(3), of p] enqueue_outgoing [of u _ p] pend u(2) prev
        by auto
    next
      case True
      then have free: "run_list (procs u p) = None" using pend u(2) by (auto simp: corpse_def)
      have t: "t = reap_push c p (upd_proc p (\<lambda>q. q\<lparr>on_cpu := - 1\<rparr>) u)"
        using Some True u(2) by (simp add: t_def sched_requeue_pending_def u_def corpse_def)
      have "queues_wf t" using queues_wf_on_cpu [OF u(1) free] by (simp add: t reap_push_frame)
      moreover have "idles_ok t" "\<forall>x. prev = Some x \<longrightarrow> outgoing_ok (procs t x)"
        using u(2,3) prev
        by (auto simp: t reap_push_def upd_proc_def upd_cpu_def idles_ok_def outgoing_ok_def corpse_def on_waitqueue_def)
      ultimately show ?thesis by blast
    qed
  qed
  then show "queues_wf t" "idles_ok t" "\<And>p. prev = Some p \<Longrightarrow> outgoing_ok (procs t p)" by blast+
qed

lemma idles_upd:
  assumes "\<And>q. run_list (f q) = run_list q \<and> priority (f q) = priority q"
  shows "idles_ok (upd_proc p f s) \<longleftrightarrow> idles_ok s"
  using assms by (auto simp: idles_ok_def upd_proc_def)

lemma retire_stage:
  assumes wf: "queues_wf s" and ids: "idles_ok s"
    and prev: "\<And>p. prev = Some p \<Longrightarrow> outgoing_ok (procs s p)"
    and run: "sched_retire_prev c prev regs s = (reaped, t)"
  shows "queues_wf t" "idles_ok t" "\<And>p. \<not> reaped \<Longrightarrow> prev = Some p \<Longrightarrow> outgoing_ok (procs t p)"
proof -
  have "queues_wf t \<and> idles_ok t \<and> (\<forall>p. \<not> reaped \<longrightarrow> prev = Some p \<longrightarrow> outgoing_ok (procs t p))"
  proof (cases prev)
    case None
    then show ?thesis using run wf ids by (simp add: sched_retire_prev_def)
  next
    case (Some p)
    show ?thesis
    proof (cases "corpse (procs s p)")
      case True
      then have t: "reaped" "t = upd_cpu c (\<lambda>i. i\<lparr>current_task := None\<rparr>) (reap_push c p (upd_proc p (\<lambda>q. q\<lparr>on_cpu := - 1\<rparr>) s))"
        using run Some by (simp_all add: sched_retire_prev_def corpse_def)
      have "run_list (procs s p) = None" using prev [OF Some] True by (simp add: outgoing_ok_def)
      then have "queues_wf t" using queues_wf_on_cpu [OF wf] by (simp add: t(2) reap_push_frame)
      moreover have "idles_ok t"
        using ids by (auto simp: t(2) reap_push_def upd_proc_def upd_cpu_def idles_ok_def)
      ultimately show ?thesis using t(1) by simp
    next
      case False
      define s1 where "s1 = (if regs \<noteq> None then upd_proc p (\<lambda>q. q\<lparr>context_pc := regs\<rparr>) s else s)"
      define s2 where "s2 = upd_proc p (\<lambda>q. q\<lparr>first_run := False\<rparr>) s1"
      define s3 where "s3 = (if pstate (procs s2 p) = PROC_RUNNING
          then upd_proc p (\<lambda>q. if time_slice q - 1 \<le> 0 then q\<lparr>time_slice := quantum_reset q, pstate := PROC_READY\<rparr>
                               else q\<lparr>time_slice := time_slice q - 1, pstate := PROC_READY\<rparr>) s2 else s2)"
      have nc: "\<not> (pstate (procs s p) = PROC_DEAD \<or> pstate (procs s p) = PROC_ZOMBIE)" using False by (simp add: corpse_def)
      have "sched_retire_prev c prev regs s = (False, if pstate (procs s3 p) = PROC_READY \<and>
          priority (procs s3 p) \<noteq> PROC_PRIO_IDLE then enqueue_task p s3 else s3)"
        unfolding sched_retire_prev_def Some Let_def s3_def s2_def s1_def by (simp only: option.case if_not_P [OF nc])
      then have t: "\<not> reaped" "t = (if pstate (procs s3 p) = PROC_READY \<and> priority (procs s3 p) \<noteq> PROC_PRIO_IDLE
          then enqueue_task p s3 else s3)"
        using run by simp_all
      have w2: "queues_wf s2" "idles_ok s2" "outgoing_ok (procs s2 p)"
        using wf ids prev [OF Some]
        by (simp_all add: s2_def s1_def qfields_def idles_upd)
           (simp_all add: upd_proc_def outgoing_ok_def corpse_def on_waitqueue_def)
      have w3: "queues_wf s3" "idles_ok s3" "outgoing_ok (procs s3 p)"
        using w2 by (simp_all add: s3_def qfields_def idles_upd)
          (simp_all add: upd_proc_def outgoing_ok_def corpse_def on_waitqueue_def)
      show ?thesis
        using w3 enqueue_task_wf [OF w3(1), of p] enqueue_idles [OF w3(2), of p] enqueue_outgoing [OF w3(3), of p] Some
        by (auto simp: t)
    qed
  qed
  then show "queues_wf t" "idles_ok t" "\<And>p. \<not> reaped \<Longrightarrow> prev = Some p \<Longrightarrow> outgoing_ok (procs t p)" by blast+
qed

lemma dequeue_task_wf:
  assumes wf: "queues_wf s" and nw: "\<not> on_waitqueue (procs s p)"
  shows "queues_wf (dequeue_task p s)"
proof (cases "run_list (procs s p)")
  case None
  let ?c = "cpu_of (procs s p)" and ?k = "nat (priority (procs s p))"
  have k: "?k < 32" using queues_wfD(5,6) [OF wf, of p] by simp
  have d: "list_del_init p s = s" using None by (simp add: list_del_init_def)
  have clear: "w AND NOT (push_bit j 1) = w" if "\<not> bit w j" "j < 32" for w :: u32 and j
  proof (rule bit_word_eqI)
    fix i assume "i < LENGTH(32)"
    then show "bit (w AND NOT (push_bit j 1)) i = bit w i"
      using that bit_push_1 [of j i] by (auto simp: bit_and_iff bit_not_iff)
  qed
  have "prio_bitmap (cpus s ?c) AND NOT (push_bit ?k 1) = prio_bitmap (cpus s ?c)"
    if "lists s (Runqueue ?c ?k) = []"
    using queues_wfD(7) [OF wf k, of ?c] that k by (intro clear) simp_all
  then have "queues_wf (upd_cpu ?c (\<lambda>i. i\<lparr>prio_bitmap := prio_bitmap i AND NOT (push_bit ?k 1)\<rparr>) s)"
    if "lists s (Runqueue ?c ?k) = []"
    using that wf queues_wf_cong [of "upd_cpu ?c (\<lambda>i. i\<lparr>prio_bitmap := prio_bitmap i AND NOT (push_bit ?k 1)\<rparr>) s" s]
    by (auto simp: upd_cpu_def)
  then show ?thesis using wf by (simp add: dequeue_task_def Let_def d)
next
  case (Some l)
  then obtain c k where "run_list (procs s p) = Some (Runqueue c k)"
    using nw by (cases l) (simp_all add: on_waitqueue_def)
  then show ?thesis using dequeue_task_unlinked [OF wf] unlinked_wf [OF wf] by simp
qed

lemma install_wf:
  assumes "queues_wf s" "run_list (procs s p) = None"
  shows "queues_wf (upd_proc p (\<lambda>q. q\<lparr>pstate := x, on_cpu := k\<rparr>) s)"
proof -
  have "upd_proc p (\<lambda>q. q\<lparr>pstate := x, on_cpu := k\<rparr>) s
      = upd_proc p (\<lambda>q. q\<lparr>on_cpu := k\<rparr>) (upd_proc p (\<lambda>q. q\<lparr>pstate := x\<rparr>) s)"
    by (simp add: upd_proc_def)
  moreover have "queues_wf (upd_proc p (\<lambda>q. q\<lparr>pstate := x\<rparr>) s)" using assms(1) by simp
  moreover have "run_list (procs (upd_proc p (\<lambda>q. q\<lparr>pstate := x\<rparr>) s) p) = None" using assms(2) by (simp add: upd_proc_def)
  ultimately show ?thesis using queues_wf_on_cpu by simp
qed

lemma switch_stage:
  assumes wf: "queues_wf s" and nx: "run_list (procs s nx) = None"
    and prev: "\<And>p. prev = Some p \<Longrightarrow> outgoing_ok (procs s p)"
    and run: "switch_to c prev nx s = Inr (r, t)"
  shows "queues_wf t"
proof -
  define s1 where "s1 = (case prev of None \<Rightarrow> s
      | Some p \<Rightarrow> if pstate (procs s p) = PROC_READY \<and> priority (procs s p) \<noteq> PROC_PRIO_IDLE
                  then upd_cpu c (\<lambda>i. i\<lparr>pending_reenqueue := Some p\<rparr>) (dequeue_task p s) else s)"
  define s3 where "s3 = upd_proc nx (\<lambda>q. q\<lparr>pstate := PROC_RUNNING, on_cpu := int c\<rparr>)
      (upd_cpu c (\<lambda>i. i\<lparr>current_task := Some nx\<rparr>) s1)"
  have t: "t = s3\<lparr>stat_ctx_switches := stat_ctx_switches s3 + 1\<rparr>"
    using run by (auto simp: switch_to_def Let_def split: if_splits option.splits simp flip: s1_def s3_def)
  have w1: "queues_wf s1"
    using wf dequeue_task_wf [OF wf] prev by (auto simp: s1_def outgoing_ok_def split: option.split)
  have "loosened s s1" by (auto simp: s1_def loosened_upd_cpu loosened_dequeue split: option.split)
  then have n1: "run_list (procs s1 nx) = None" using nx by (metis loosened_def)
  have "queues_wf s3"
    unfolding s3_def
  proof (rule install_wf)
    show "queues_wf (upd_cpu c (\<lambda>i. i\<lparr>current_task := Some nx\<rparr>) s1)" using w1 by simp
    show "run_list (procs (upd_cpu c (\<lambda>i. i\<lparr>current_task := Some nx\<rparr>) s1) nx) = None" using n1 by (simp add: upd_cpu_def)
  qed
  then show ?thesis using queues_wf_cong [of t s3] by (simp add: t)
qed

section \<open>The whole of schedule()\<close>

text \<open>The pick keeps the queues whatever the number of queued tasks, when it returns at all.\<close>

lemma pick_loop_wf:
  "queues_wf s \<Longrightarrow> pick_loop n c focus s = Inr (r, s') \<Longrightarrow>
   queues_wf s' \<and> (\<forall>p. r = Some p \<longrightarrow> run_list (procs s' p) = None)"
proof (induction n arbitrary: s)
  case (Suc n)
  obtain q t where pick: "pick_once c focus s = (q, t)" by fastforce
  note one = pick_once_cases [OF Suc.prems(1) pick]
  show ?case
  proof (cases q)
    case None
    then show ?thesis using Suc.prems pick one by auto
  next
    case (Some p)
    then have t: "queues_wf t" "run_list (procs t p) = None" using one by (auto simp: took_def)
    have rp: "queues_wf (reap_push c p t)" using t by (simp add: reap_push_frame)
    have eq: "pick_loop (Suc n) c focus s =
        (if pstate (procs t p) = PROC_DEAD then pick_loop n c focus (reap_push c p t)
         else if pstate (procs t p) = PROC_STOPPED then pick_loop n c focus t else Inr (Some p, t))"
      using pick Some by simp
    show ?thesis
    proof (cases "pstate (procs t p) = PROC_DEAD")
      case True
      then show ?thesis using Suc.IH [OF rp] Suc.prems(2) unfolding eq by simp
    next
      case False
      then show ?thesis using Suc.IH [OF t(1)] Suc.prems(2) t unfolding eq
        by (cases "pstate (procs t p) = PROC_STOPPED") auto
    qed
  qed
qed simp

lemma next_stage:
  assumes wf: "queues_wf s" and run: "sched_pick_local c focus s = Inr (picked, u)"
    and nxt: "(case picked of Some p \<Rightarrow> (Some p, u) | None \<Rightarrow> sched_steal_work trylock c u) = (next, t)"
  shows "queues_wf t" "loosened s t" "next = Some p \<Longrightarrow> run_list (procs t p) = None"
proof -
  have u: "queues_wf u" "\<And>p. picked = Some p \<Longrightarrow> run_list (procs u p) = None" "loosened s u"
    using pick_loop_wf [OF wf run [unfolded sched_pick_local_def]] loosened_pick_loop [OF run [unfolded sched_pick_local_def]]
    by blast+
  have "queues_wf t \<and> loosened s t \<and> (\<forall>p. next = Some p \<longrightarrow> run_list (procs t p) = None)"
  proof (cases picked)
    case None
    then have st: "steal_loop trylock c [0..<MAX_CPUS] u = (next, t)" using nxt by (simp add: sched_steal_work_def)
    then show ?thesis
      using steal_loop_wf [OF u(1), of trylock c "[0..<MAX_CPUS]"] loosened_trans [OF u(3)]
        loosened_steal_loop [of u trylock c "[0..<MAX_CPUS]"] steal_loop_unlinked [OF u(1), of trylock c "[0..<MAX_CPUS]"]
      by simp
  qed (use nxt u in auto)
  then show "queues_wf t" "loosened s t" "next = Some p \<Longrightarrow> run_list (procs t p) = None" by blast+
qed

lemma check_pc_Inr: "check_pc regs x = Inr y \<Longrightarrow> y = x"
  by (auto simp: check_pc_def split: option.splits if_splits)

lemma schedule_wf:
  assumes wf: "queues_wf s" and ok: "hand_over_ok c s"
    and run: "schedule trylock now (Some c) regs s = Inr (r, s')"
  shows "queues_wf s'"
proof -
  define s1 where "s1 = sched_reap_deferred c s"
  define prev0 where "prev0 = current_task (cpus s1 c)"
  define a where "a = sched_account_time now c prev0 s1"
  define s2 where "s2 = sched_requeue_pending c a"
  obtain reaped s3 where ret: "sched_retire_prev c prev0 regs s2 = (reaped, s3)" by fastforce
  define prev where "prev = (if reaped then None else prev0)"
  obtain picked s4 where pick: "sched_pick_local c (keyboard_focus_pid s2) s3 = Inr (picked, s4)"
    using run ret unfolding schedule_def
    by (auto simp: Let_def kbind_Inr_iff simp flip: s1_def prev0_def a_def s2_def)
  obtain nx s5 where nx: "(case picked of Some p \<Rightarrow> (Some p, s4) | None \<Rightarrow> sched_steal_work trylock c s4) = (nx, s5)"
    by fastforce
  have fin: "(if nx = None \<and> prev \<noteq> None \<and> pstate (procs s5 (the prev)) = PROC_RUNNING
       then check_pc regs (regs, s5)
       else case (case nx of Some p \<Rightarrow> Some p | None \<Rightarrow> idle_task (cpus s5 c)) of
         None \<Rightarrow> if reaped then Inl (Panic ''reaped current task with no idle task'')
           else if regs = Some 0 then Inl (Panic ''pc==0 on idle-fallback return'') else Inr (regs, s5)
       | Some y \<Rightarrow> if prev = Some y
           then check_pc regs (regs, upd_proc y (\<lambda>q. q\<lparr>pstate := PROC_RUNNING, on_cpu := int c\<rparr>) s5)
           else switch_to c prev y s5) = Inr (r, s')"
    using run ret pick nx
    unfolding schedule_def prev_def prev0_def s2_def a_def s1_def
    by (simp only: Let_def option.case prod.case kbind.simps)
  have "same_view s a"
    unfolding a_def s1_def sched_reap_deferred_def by (rule same_view_trans [OF reap_loop_view account_view])
  then have wa: "queues_wf a" "hand_over_ok c a" using same_view_wf same_view_hand_over wf ok by blast+
  have "prev0 = current_task (cpus a c)"
    using account_view [of s1 now c prev0] by (simp add: a_def prev0_def same_view_def)
  then have prev_a: "outgoing_ok (procs a p)" if "prev0 = Some p" for p using wa(2) that by (simp add: hand_over_ok_def)
  have st2: "queues_wf s2" "idles_ok s2" "\<And>p. prev0 = Some p \<Longrightarrow> outgoing_ok (procs s2 p)"
    unfolding s2_def using requeue_stage [OF wa, of prev0] prev_a by blast+
  have st3: "queues_wf s3" "idles_ok s3" "\<And>p. \<not> reaped \<Longrightarrow> prev0 = Some p \<Longrightarrow> outgoing_ok (procs s3 p)"
    using retire_stage [OF st2(1,2) _ ret] st2(3) by blast+
  note st5 = next_stage [OF st3(1) pick nx]
  have prev5: "outgoing_ok (procs s5 p)" if "prev = Some p" for p
    using that loosened_outgoing [OF st5(2) st3(3)] by (auto simp: prev_def split: if_splits)
  have idle5: "idles_ok s5" using loosened_idles [OF st5(2) st3(2)] .
  show ?thesis
  proof (cases "case nx of Some p \<Rightarrow> Some p | None \<Rightarrow> idle_task (cpus s5 c)")
    case None
    then show ?thesis using fin st5(1) by (auto split: if_splits dest!: check_pc_Inr)
  next
    case (Some y)
    have free: "run_list (procs s5 y) = None"
      using Some st5(3) idle5 by (cases nx) (auto simp: idles_ok_def)
    have same: "queues_wf (upd_proc y (\<lambda>q. q\<lparr>pstate := PROC_RUNNING, on_cpu := int c\<rparr>) s5)"
      by (rule install_wf [OF st5(1) free])
    consider "s' = s5" | "s' = upd_proc y (\<lambda>q. q\<lparr>pstate := PROC_RUNNING, on_cpu := int c\<rparr>) s5"
        | "switch_to c prev y s5 = Inr (r, s')"
      using fin unfolding Some by (auto split: if_splits dest!: check_pc_Inr)
    then show ?thesis using st5(1) same switch_stage [OF st5(1) free prev5] by cases auto
  qed
qed

end
