(* ===== verification/Sched_Props.thy ===== *)
theory Sched_Props
  imports Sched_Switch
begin

text \<open>
  Properties of the scheduler as a whole: what termination frees, the queue invariant along every
  sequence of operations, the reach of a subtree kill, and message passing.
\<close>

section \<open>Termination\<close>

text \<open>C14. \<open>process_terminate\<close> frees no descriptor that is still on a list, and keeps the queue
  invariant, for a victim that is ready, running, created, sleeping on a wait queue or on none, and
  also for a second kill of a victim that is already dead or a zombie and still linked while it waits
  for the reaper.  Excepted is only a victim that is stopped, sleeping or unused while its node is on a
  runqueue; killing a task that was stopped there does free it while it is linked.\<close>

theorem process_terminate_no_dangling:
  assumes wf: "queues_wf s" and nd: "no_dangling s"
    and rq: "\<forall>p c' k. process_find_by_pid s n = Some p \<and> run_list (procs s p) = Some (Runqueue c' k) \<longrightarrow>
        pstate (procs s p) \<notin> {PROC_STOPPED, PROC_SLEEPING, PROC_UNUSED}"
    and wq: "\<forall>p w. run_list (procs s p) = Some (Waitqueue w) \<longrightarrow> wait_queue_ptr (procs s p) = Some w"
    and fresh: "\<forall>p. process_find_by_pid s n = Some p \<longrightarrow> p \<notin> set (released s)"
  shows "queues_wf (snd (process_terminate c n s)) \<and> no_dangling (snd (process_terminate c n s))"
proof (cases "process_find_by_pid s n")
  case None
  then show ?thesis using wf nd by (simp add: process_terminate_def)
next
  case (Some p)
  let ?s' = "snd (process_terminate c n s)"
  note tf = terminate_final [OF wf Some, of c]
  have own: "run_list (procs ?s' p) = None" if "p \<in> set (released ?s')"
  proof -
    have st: "pstate (procs s p) \<notin> {PROC_READY, PROC_RUNNING, PROC_DEAD, PROC_ZOMBIE, PROC_CREATED}"
      and r: "run_list (procs ?s' p) = (if wait_queue_ptr (procs s p) = None then run_list (procs s p) else None)"
      using tf(3) that fresh Some by blast+
    have "pstate (procs s p) \<in> {PROC_STOPPED, PROC_SLEEPING, PROC_UNUSED}"
      using st by (cases "pstate (procs s p)") simp_all
    then have "run_list (procs s p) \<noteq> Some (Runqueue c' k)" for c' k using rq Some by blast
    then have "wait_queue_ptr (procs s p) \<noteq> None \<or> run_list (procs s p) = None"
      using wq by (metis list_id.exhaust not_None_eq)
    then show ?thesis using r by auto
  qed
  have "run_list (procs ?s' q) = None" if "q \<in> set (released ?s')" for q
  proof (cases "q = p")
    case False
    then have "q \<in> set (released s)" using tf(4) that by blast
    then show ?thesis using nd tf(2) False by (simp add: no_dangling_def)
  qed (use own that in simp)
  then show ?thesis using tf(1) by (simp add: no_dangling_def)
qed

text \<open>A task that is stopped while it waits on a runqueue and is then killed is freed while the
  queue still holds it: \<open>process_stop\<close> leaves it linked, and \<open>process_terminate\<close> treats a stopped task
  like a parked one.\<close>

theorem stop_then_terminate_frees_queued_task:
  assumes wf: "queues_wf s" and find: "process_find_by_pid s n = Some p"
    and lvl: "plevel (procs s p) \<noteq> PLVL_MACHINE" and ready: "pstate (procs s p) = PROC_READY"
    and link: "run_list (procs s p) = Some (Runqueue i k)"
    and idle: "\<forall>j < MAX_CPUS. current_process s j \<noteq> Some p" and c: "c < MAX_CPUS"
  defines "s' \<equiv> snd (process_terminate c n (snd (process_stop n s)))"
  shows "p \<in> set (released s') \<and> p \<in> set (lists s' (Runqueue i k))"
proof -
  define t where "t = upd_proc p (\<lambda>q. q\<lparr>pstate := PROC_STOPPED\<rparr>) s"
  have stop: "snd (process_stop n s) = t"
    using find lvl ready by (simp add: process_stop_def proc_is_machine_def t_def)
  have wft: "queues_wf t" using wf by (simp add: t_def)
  have same: "process_pool t = process_pool s" "\<And>q. pid (procs t q) = pid (procs s q)"
    by (simp_all add: t_def upd_proc_def)
  have "find_pid (procs t) n xs = find_pid (procs s) n xs" for xs
    by (induction "procs s" n xs rule: find_pid.induct) (simp_all add: same(2))
  then have ft: "process_find_by_pid t n = Some p" using find by (simp add: process_find_by_pid_def same(1))
  have tp: "plevel (procs t p) \<noteq> PLVL_MACHINE" "pstate (procs t p) = PROC_STOPPED"
      "run_list (procs t p) = Some (Runqueue i k)" "current_process t c \<noteq> Some p"
    using lvl link idle c by (simp_all add: t_def upd_proc_def current_process_def)
  define s4 where "s4 = upd_proc p (\<lambda>q. q\<lparr>pstate := PROC_DEAD\<rparr>) (terminate_core n p t)"
  note core = terminate_core_wf [OF wft, where n = n and p = p]
  have pool: "process_pool s4 = process_pool t"
    by (simp add: s4_def terminate_core_def detach_from_wait_queue_def list_del_init_def drain_ipc_def upd_proc_def
        compositor_destroy_windows_by_pid_def Let_def split: option.split)
  have "p \<in> live t" using process_find_Some [OF ft] by simp
  then have sl: "fst (pool_remove p s4) \<noteq> None"
    using pool_remove_None [of p s4] by (cases "pool_remove p s4") (auto simp: live_def pool)
  have "cpus s4 = cpus s" using core(6) by (simp add: s4_def upd_proc_def t_def)
  then have nc: "\<not> still_current_anywhere p s4"
    using idle by (auto simp: still_current_anywhere_def current_process_def list_ex_iff)
  have eq: "s' = free_resources p (snd (pool_remove p s4))"
    unfolding s'_def stop process_terminate_cases [OF ft] using tp core(3) sl nc
    by (simp add: Let_def flip: s4_def)
  have wq: "wait_queue_ptr (procs t p) = None"
    using queues_wfD(4) [OF wft, of p] tp(3) by (cases "wait_queue_ptr (procs t p)") auto
  have "task_frame s4 s'"
    unfolding eq by (rule task_frame_trans [OF task_frame_pool_remove task_frame_free])
  moreover have "run_list (procs s4 p) = Some (Runqueue i k)" using core(2) wq tp(3) by (simp add: s4_def upd_proc_def)
  ultimately have "run_list (procs s' p) = Some (Runqueue i k)" "queues_wf s'"
    using core(1) task_frame_wf [of s4 s'] by (simp_all add: task_frame_def qfields_def s4_def)
  then show ?thesis using queues_wfD(1) [of s' p "Runqueue i k"] eq by simp
qed

section \<open>The queue invariant along every run\<close>

text \<open>The steps of the processors, in any order.  Four of them rely on a condition that the code does not
  test: a task that is queued afresh (the end of a spawn, a new kernel thread, a timer's wake-up) or
  that parks itself is on no list, and what a processor gives up in \<open>schedule()\<close> is where
  \<open>hand_over_ok\<close> says.  Every other operation is unconditional.  The two lock sections of receiving are
  separate steps.\<close>

definition parkable :: "nat \<Rightarrow> sched \<Rightarrow> bool" where
  "parkable c s \<longleftrightarrow> (\<forall>p. current_process s c = Some p \<longrightarrow> run_list (procs s p) = None)"

inductive sched_step :: "sched \<Rightarrow> sched \<Rightarrow> bool" where
  enqueue: "run_list (procs s p) = None \<Longrightarrow> sched_step s (enqueue_task p s)"
| spawned: "run_list (procs s p) = None \<Longrightarrow> sched_step s (process_finalize_spawn (Some p) s)"
| aborted: "sched_step s (process_abort_spawn po s)"
| sleep: "parkable c s \<Longrightarrow> sched_step s (sleep_on c w s)"
| block: "parkable c s \<Longrightarrow> sched_step s (kthread_block c w still s)"
| wake: "sched_step s (wake_up w s)"
| stop: "sched_step s (snd (process_stop n s))"
| cont: "sched_step s (snd (process_cont n s))"
| send: "sched_step s (snd (kernel_ipc_send node n m s))"
| recv_pop: "sched_step s (snd (pop_message (Some cur) src s))"
| recv_commit: "sched_step s (ipc_recv_commit cur src s)"
| terminate: "sched_step s (snd (process_terminate c n s))"
| schedule: "hand_over_ok c s \<Longrightarrow> schedule trylock now (Some c) regs s = Inr (r, s') \<Longrightarrow> sched_step s s'"

inductive_cases sched_stepE: "sched_step s s'"

lemma terminate_wf: "queues_wf s \<Longrightarrow> queues_wf (snd (process_terminate c n s))"
  using terminate_final(1) by (cases "process_find_by_pid s n") (simp add: process_terminate_def, blast)

lemma release_created_wf: "queues_wf s \<Longrightarrow> queues_wf (release_created p s)"
proof -
  assume wf: "queues_wf s"
  have pool: "queues_wf (s\<lparr>process_pool := xs, active_count := k\<rparr>) \<longleftrightarrow> queues_wf s" for xs k
    by (rule queues_wf_cong) simp_all
  have "queues_wf (reparent_children p (child_count_dec p t)) \<longleftrightarrow> queues_wf t" for t
    unfolding reparent_children_def Let_def
    by (rule task_frame_wf [OF task_frame_trans [OF task_frame_child_dec task_frame_reparent_loop]])
  then show ?thesis
    using wf pool by (simp add: release_created_def task_frame_wf [OF task_frame_free] split: option.split)
qed

lemma kthread_block_wf:
  assumes "queues_wf s" "parkable c s"
  shows "queues_wf (kthread_block c w still s)"
  using assms park_wf by (auto simp: kthread_block_def parkable_def split: option.split)

lemma sched_step_wf: "sched_step s s' \<Longrightarrow> queues_wf s \<Longrightarrow> queues_wf s'"
proof (induction rule: sched_step.induct)
  case (sleep c s w)
  then show ?case by (intro sleep_on_wf) (auto simp: parkable_def)
next
  case (schedule c s trylock now regs r s')
  then show ?case using schedule_wf by blast
next
  case (aborted s po)
  then show ?case by (cases po) (simp_all add: process_abort_spawn_def release_created_wf)
qed (simp_all add: enqueue_task_wf process_finalize_spawn_def release_created_wf kthread_block_wf wake_up_wf
    process_stop_wf process_cont_wf kernel_ipc_send_wf pop_message_wf ipc_recv_commit_wf terminate_wf)

text \<open>C12. Take any sequence of queueing a task, finishing or abandoning a spawn, parking the current
  task, waking, stopping, continuing, sending, the two sections of receiving, killing and whole runs
  of \<open>schedule()\<close>, on any processors, in which a task that is queued afresh or parks itself is on no
  list and every run of \<open>schedule()\<close> starts with a dead outgoing task on no list, a runnable outgoing
  task on no wait queue, the task parked by the last switch on no list unless it is ready or stopped,
  and the idle tasks on no list.  Then the lists, the list nodes of the tasks and the priority bitmaps
  agree at the end: no task is on two lists, and no queue is hidden by its bit or announced while
  empty.  The code does not test these conditions, and runs that violate them exist.\<close>

theorem queues_wf_reachable:
  assumes "queues_wf s" "sched_step\<^sup>*\<^sup>* s s'"
  shows "queues_wf s'"
  using assms(2,1) by (induction rule: rtranclp_induct) (auto intro: sched_step_wf)

section \<open>Subtree kill\<close>

text \<open>The processes a subtree kill is meant to reach: the marked root, and every windowless process
  that is not a machine process and whose parent is reached.\<close>

inductive doomed :: "kill_snap list \<Rightarrow> nat \<Rightarrow> bool" for snap where
  root: "i < length snap \<Longrightarrow> ks_kill (snap ! i) \<Longrightarrow> doomed snap i"
| child: "i < length snap \<Longrightarrow> ks_windowless (snap ! i) \<Longrightarrow> \<not> ks_machine (snap ! i) \<Longrightarrow>
    doomed snap j \<Longrightarrow> ks_pid (snap ! j) = ks_parent (snap ! i) \<Longrightarrow> doomed snap i"

lemma doomed_less: "doomed snap i \<Longrightarrow> i < length snap"
  by (induction rule: doomed.induct)

text \<open>Marks only grow, and nothing else of the snapshot changes.\<close>

definition marks_le :: "kill_snap list \<Rightarrow> kill_snap list \<Rightarrow> bool" where
  "marks_le a b \<longleftrightarrow> length b = length a \<and> (\<forall>i < length a. ks_pid (b ! i) = ks_pid (a ! i) \<and>
     ks_parent (b ! i) = ks_parent (a ! i) \<and> ks_windowless (b ! i) = ks_windowless (a ! i) \<and>
     ks_machine (b ! i) = ks_machine (a ! i) \<and> (ks_kill (a ! i) \<longrightarrow> ks_kill (b ! i)))"

lemma marks_le_refl [simp]: "marks_le a a"
  by (simp add: marks_le_def)

lemma marks_le_trans: "marks_le a b \<Longrightarrow> marks_le b c \<Longrightarrow> marks_le a c"
  by (simp add: marks_le_def)

lemma marks_le_antisym: "marks_le a b \<Longrightarrow> marks_le b a \<Longrightarrow> a = b"
  unfolding marks_le_def by (intro nth_equalityI kill_snap.equality) auto

lemma mark_one_le: "marks_le snap (mark_one i snap)"
  by (cases "i < length snap") (auto simp: mark_one_def marks_le_def nth_list_update)

lemma fold_mark_le: "marks_le snap (fold mark_one is snap)"
  by (induction "is" arbitrary: snap) (auto intro: marks_le_trans mark_one_le)

lemma killed_parent_iff:
  "killed_parent snap n \<longleftrightarrow> (\<exists>j < length snap. ks_kill (snap ! j) \<and> ks_pid (snap ! j) = n)"
  by (simp add: killed_parent_def list_ex_length)

text \<open>No mark is set that the definition does not demand.\<close>

lemma mark_one_sound:
  assumes "marks_le a b" "\<forall>j < length b. ks_kill (b ! j) \<longrightarrow> doomed a j" "j < length b"
    "ks_kill (mark_one i b ! j)"
  shows "doomed a j"
proof (cases "ks_kill (b ! j)")
  case False
  then have "mark_one i b \<noteq> b" using assms(4) by auto
  then have i: "j = i" "ks_windowless (b ! i)" "\<not> ks_machine (b ! i)" "killed_parent b (ks_parent (b ! i))"
    using assms(3,4) False by (cases "j = i"; auto simp: mark_one_def split: if_splits)+
  then obtain m where m: "m < length b" "ks_kill (b ! m)" "ks_pid (b ! m) = ks_parent (b ! i)"
    by (auto simp: killed_parent_iff)
  have "doomed a m" using assms(2) m by blast
  then show ?thesis
    using assms(1,3) i m by (intro doomed.child [of j a m]) (auto simp: marks_le_def)
qed (use assms in blast)

lemma fold_mark_sound:
  assumes "marks_le a b" "\<forall>j < length b. ks_kill (b ! j) \<longrightarrow> doomed a j"
  shows "\<forall>j < length b. ks_kill (fold mark_one is b ! j) \<longrightarrow> doomed a j"
  using assms
proof (induction "is" arbitrary: b)
  case (Cons i js)
  have "marks_le a (mark_one i b)" using Cons.prems(1) mark_one_le marks_le_trans by blast
  moreover have "length (mark_one i b) = length b" using mark_one_le by (simp add: marks_le_def)
  moreover have "\<forall>j < length (mark_one i b). ks_kill (mark_one i b ! j) \<longrightarrow> doomed a j"
    using mark_one_sound [OF Cons.prems] mark_one_le by (auto simp: marks_le_def)
  ultimately show ?case using Cons.IH [of "mark_one i b"] by simp
qed simp

text \<open>A pass that changes nothing has reached every demanded process.\<close>

lemma fold_mark_fixed:
  assumes "fold mark_one is b = b" "i \<in> set is"
  shows "mark_one i b = b"
  using assms
proof (induction "is")
  case (Cons j js)
  have "marks_le (mark_one j b) b" using fold_mark_le [of "mark_one j b" js] Cons.prems(1) by simp
  then have "mark_one j b = b" using mark_one_le marks_le_antisym by blast
  then show ?case using Cons by auto
qed simp

lemma mark_pass_closed:
  assumes "mark_pass b = b" "marks_le a b" "doomed a i"
  shows "ks_kill (b ! i)"
  using assms(3)
proof (induction rule: doomed.induct)
  case (root i)
  then show ?case using assms(2) by (simp add: marks_le_def)
next
  case (child i j)
  have i: "i < length b" "j < length b" using child doomed_less [OF child(4)] assms(2) by (auto simp: marks_le_def)
  have "mark_one i b = b" using fold_mark_fixed assms(1) i by (simp add: mark_pass_def)
  moreover have "killed_parent b (ks_parent (b ! i))"
    using child i assms(2) by (auto simp: killed_parent_iff marks_le_def)
  moreover have "ks_windowless (b ! i)" "\<not> ks_machine (b ! i)" using child assms(2) by (auto simp: marks_le_def)
  ultimately show ?case
    using i by (auto simp: mark_one_def dest: arg_cong [where f = "\<lambda>x. ks_kill (x ! i)"] split: if_splits)
qed

definition unmarked :: "kill_snap list \<Rightarrow> nat" where
  "unmarked b = card {i. i < length b \<and> \<not> ks_kill (b ! i)}"

lemma unmarked_less:
  assumes "marks_le a b" "a \<noteq> b"
  shows "unmarked b < unmarked a"
proof -
  have "\<exists>i < length a. \<not> ks_kill (a ! i) \<and> ks_kill (b ! i)"
  proof (rule ccontr)
    assume "\<not> ?thesis"
    then have "marks_le b a" using assms(1) by (auto simp: marks_le_def)
    then show False using assms marks_le_antisym by blast
  qed
  then have "{i. i < length b \<and> \<not> ks_kill (b ! i)} \<subset> {i. i < length a \<and> \<not> ks_kill (a ! i)}"
    using assms(1) by (auto simp: marks_le_def)
  then show ?thesis unfolding unmarked_def by (intro psubset_card_mono) auto
qed

lemma propagate_loop_correct:
  assumes "unmarked b \<le> n" "marks_le a b" "\<forall>j < length b. ks_kill (b ! j) \<longrightarrow> doomed a j" "i < length a"
  shows "marks_le a (propagate_loop n b) \<and> (ks_kill (propagate_loop n b ! i) \<longleftrightarrow> doomed a i)"
  using assms
proof (induction n arbitrary: b)
  case 0
  then have "{i. i < length b \<and> \<not> ks_kill (b ! i)} = {}" by (simp add: unmarked_def)
  then have "ks_kill (b ! i)" using 0 by (auto simp: marks_le_def)
  then show ?case using 0 by (auto simp: marks_le_def)
next
  case (Suc n)
  have le: "marks_le b (mark_pass b)" by (simp add: mark_pass_def fold_mark_le)
  show ?case
  proof (cases "mark_pass b = b")
    case True
    then show ?thesis
      using Suc.prems mark_pass_closed [OF True Suc.prems(2)] by (auto simp: Let_def marks_le_def)
  next
    case False
    have "unmarked (mark_pass b) \<le> n" using unmarked_less [OF le] False Suc.prems(1) by simp
    moreover have "marks_le a (mark_pass b)" using Suc.prems(2) le marks_le_trans by blast
    moreover have "\<forall>j < length (mark_pass b). ks_kill (mark_pass b ! j) \<longrightarrow> doomed a j"
      using fold_mark_sound [OF Suc.prems(2,3)] le by (simp add: mark_pass_def marks_le_def)
    ultimately show ?thesis using Suc.IH [of "mark_pass b"] Suc.prems(4) False by (simp add: Let_def)
  qed
qed

text \<open>C15. The propagation of a subtree kill marks exactly the processes it is meant to reach, whatever
  the order of the pool: the bounded number of passes is enough to close the set under windowless,
  unprotected children, and no other entry is marked.\<close>

theorem kill_snap_propagate_correct:
  assumes "i < length snap"
  shows "ks_kill (kill_snap_propagate snap ! i) \<longleftrightarrow> doomed snap i"
proof -
  have "unmarked snap \<le> card {..<length snap}" unfolding unmarked_def by (intro card_mono) auto
  then have "unmarked snap \<le> length snap" by simp
  then show ?thesis
    using propagate_loop_correct [of snap "length snap" snap i] assms
    by (auto simp: kill_snap_propagate_def intro: doomed.root)
qed

definition demo_snap :: "kill_snap list" where
  "demo_snap = [\<lparr>ks_pid = 9, ks_parent = 8, ks_windowless = True, ks_kill = False, ks_machine = False\<rparr>,
     \<lparr>ks_pid = 8, ks_parent = 7, ks_windowless = True, ks_kill = False, ks_machine = False\<rparr>,
     \<lparr>ks_pid = 7, ks_parent = 1, ks_windowless = False, ks_kill = True, ks_machine = False\<rparr>]"

theorem kill_snap_propagate_correct_witness:
  "doomed demo_snap 0"
proof -
  have "ks_kill (kill_snap_propagate demo_snap ! 0)" by code_simp
  then show ?thesis using kill_snap_propagate_correct [of 0 demo_snap] by (simp add: demo_snap_def)
qed

section \<open>Messages\<close>

definition mailbox_wf :: "process \<Rightarrow> bool" where
  "mailbox_wf q \<longleftrightarrow> msg_count q = int (length (msg_queue q)) \<and> length (msg_queue q) \<le> 256"

lemma pop_queue_Some:
  "pop_queue src q = Some (m, r) \<longleftrightarrow>
     (\<exists>a b. q = a @ m # b \<and> r = a @ b \<and> msg_matches src m \<and> (\<forall>x \<in> set a. \<not> msg_matches src x))"
proof (induction q arbitrary: r)
  case (Cons y ys)
  show ?case
  proof (cases "msg_matches src y")
    case True
    then have "pop_queue src (y # ys) = Some (m, r) \<longleftrightarrow> y = m \<and> ys = r" by auto
    also have "\<dots> \<longleftrightarrow> (\<exists>a b. y # ys = a @ m # b \<and> r = a @ b \<and> msg_matches src m \<and> (\<forall>x \<in> set a. \<not> msg_matches src x))"
    proof
      assume "y = m \<and> ys = r"
      then have "y # ys = [] @ m # r \<and> r = [] @ r \<and> msg_matches src m \<and> (\<forall>x \<in> set []. \<not> msg_matches src x)"
        using True by simp
      then show "\<exists>a b. y # ys = a @ m # b \<and> r = a @ b \<and> msg_matches src m \<and> (\<forall>x \<in> set a. \<not> msg_matches src x)"
        by blast
    qed (use True in \<open>auto simp: Cons_eq_append_conv\<close>)
    finally show ?thesis .
  next
    case False
    then have "pop_queue src (y # ys) = Some (m, r) \<longleftrightarrow> (\<exists>r'. pop_queue src ys = Some (m, r') \<and> r = y # r')"
      by auto
    also have "\<dots> \<longleftrightarrow> (\<exists>a b. y # ys = a @ m # b \<and> r = a @ b \<and> msg_matches src m \<and> (\<forall>x \<in> set a. \<not> msg_matches src x))"
      using False by (auto simp: Cons.IH Cons_eq_append_conv) (metis append_Cons list.set_intros set_ConsD)+
    finally show ?thesis .
  qed
qed simp

lemma pop_queue_None: "pop_queue src q = None \<longleftrightarrow> (\<forall>x \<in> set q. \<not> msg_matches src x)"
  by (induction src q rule: pop_queue.induct) auto

lemma enqueue_mailbox: "msg_queue (procs (enqueue_task p s) q) = msg_queue (procs s q)"
  "msg_count (procs (enqueue_task p s) q) = msg_count (procs s q)"
  by (auto simp: enqueue_task_def Let_def list_add_tail_def upd_proc_def upd_cpu_def)

text \<open>Sending appends exactly the message to the mailbox of a live target, keeps its counter exact
  and the mailbox at no more than 256 messages, and answers \<open>-ENOBUFS\<close> exactly when it is full;
  whenever sending fails nothing changes.\<close>

theorem kernel_ipc_send_correct:
  assumes find: "process_find_by_pid s n = Some t" and box: "mailbox_wf (procs s t)"
    and alive: "pstate (procs s t) \<noteq> PROC_DEAD" "pstate (procs s t) \<noteq> PROC_ZOMBIE"
    and run: "kernel_ipc_send True n m s = (rc, s')"
  shows "mailbox_wf (procs s' t) \<and> (rc = 0 \<or> rc = - ENOBUFS) \<and>
     (rc = - ENOBUFS \<longleftrightarrow> length (msg_queue (procs s t)) = 256) \<and>
     (rc = 0 \<longrightarrow> msg_queue (procs s' t) = msg_queue (procs s t) @ [m]) \<and>
     (rc \<noteq> 0 \<longrightarrow> s' = s) \<and>
     (\<forall>q. q \<noteq> t \<longrightarrow> msg_queue (procs s' q) = msg_queue (procs s q))"
proof (cases "msg_count (procs s t) \<ge> MSG_QUEUE_MAX")
  case True
  then have "rc = - ENOBUFS" "s' = s" using assms by (auto simp: kernel_ipc_send_def)
  moreover have "length (msg_queue (procs s t)) = 256" using True box by (simp add: mailbox_wf_def MSG_QUEUE_MAX_def)
  ultimately show ?thesis using box by (simp add: ENOBUFS_def)
next
  case False
  define u where "u = upd_proc t (\<lambda>q. q\<lparr>msg_queue := msg_queue q @ [m], msg_count := msg_count q + 1\<rparr>) s"
  have lt: "length (msg_queue (procs s t)) < 256" using False box by (simp add: mailbox_wf_def MSG_QUEUE_MAX_def)
  have "rc = 0" and "s' = u \<or> s' = enqueue_task t (upd_proc t (\<lambda>q. q\<lparr>pstate := PROC_READY\<rparr>) u)"
    using assms False by (auto simp: kernel_ipc_send_def Let_def u_def split: if_splits)
  then have q: "msg_queue (procs s' q) = msg_queue (procs u q)" "msg_count (procs s' q) = msg_count (procs u q)" for q
    by (auto simp: enqueue_mailbox upd_proc_def)
  show ?thesis
    using \<open>rc = 0\<close> lt box by (auto simp: q u_def upd_proc_def mailbox_wf_def ENOBUFS_def)
qed

text \<open>C16. Receiving from a source hands out the oldest message that matches it and removes exactly that
  message.  When none matches, the receiver releases the mailbox lock and takes it again to go to
  sleep; \<open>t\<close> is the state after whatever the other processors did in between.  If a matching message
  arrived in between, the receiver does not go to sleep, nothing changes, and the retry hands out a
  matching message.  If none did, it sleeps waiting for that source, and the next message from it
  makes the receiver ready and queues it.  So no wake-up is lost.\<close>

theorem ipc_recv_no_lost_wakeup:
  assumes run: "sys_ipc_recv between True cur src s = (rc, got, s')" and mid: "t = between s"
    and box: "mailbox_wf (procs s cur)"
    and find: "process_find_by_pid t n = Some cur" and boxt: "mailbox_wf (procs t cur)"
    and free: "run_list (procs t cur) = None" and room: "length (msg_queue (procs t cur)) < 256"
    and match: "msg_matches src m"
  shows "case got of
       Some x \<Rightarrow> rc = 0 \<and> (\<exists>a b. msg_queue (procs s cur) = a @ x # b \<and> msg_queue (procs s' cur) = a @ b \<and>
           msg_matches src x \<and> (\<forall>y \<in> set a. \<not> msg_matches src y)) \<and> mailbox_wf (procs s' cur)
     | None \<Rightarrow> rc = IPC_RECV_RETRY \<and>
         (if \<exists>y \<in> set (msg_queue (procs t cur)). msg_matches src y
          then s' = t \<and> (\<exists>x u. sys_ipc_recv between' True cur src s' = (0, Some x, u) \<and> msg_matches src x)
          else pstate (procs s' cur) = PROC_SLEEPING \<and> ipc_target_pid (procs s' cur) = src \<and>
            (let s'' = snd (kernel_ipc_send True n m s') in
             pstate (procs s'' cur) = PROC_READY \<and>
             cur \<in> set (lists s'' (Runqueue (cpu_of (procs t cur)) (queue_prio (procs t cur))))))"
proof (cases "pop_queue src (msg_queue (procs s cur))")
  case None
  then have g: "got = None" "rc = IPC_RECV_RETRY" "s' = ipc_recv_commit cur src t"
    using run by (simp_all add: sys_ipc_recv_def pop_message_def mid)
  show ?thesis
  proof (cases "\<exists>y \<in> set (msg_queue (procs t cur)). msg_matches src y")
    case True
    then have s': "s' = t" by (auto simp: g(3) ipc_recv_commit_def list_ex_iff)
    obtain x r where xr: "pop_queue src (msg_queue (procs t cur)) = Some (x, r)"
      using True pop_queue_None [of src "msg_queue (procs t cur)"] by fastforce
    then have "msg_matches src x" using pop_queue_Some by blast
    moreover have "\<exists>u. sys_ipc_recv between' True cur src t = (0, Some x, u)"
      using xr by (simp add: sys_ipc_recv_def pop_message_def)
    ultimately show ?thesis using g(1,2) s' True by auto
  next
    case False
    then have s': "s' = upd_proc cur (\<lambda>q. q\<lparr>ipc_target_pid := src, pstate := PROC_SLEEPING\<rparr>) t"
      by (auto simp: g(3) ipc_recv_commit_def list_ex_iff)
    have "find_pid (procs s') n xs = find_pid (procs t) n xs" for xs
      by (induction "procs t" n xs rule: find_pid.induct) (simp_all add: s' upd_proc_def)
    then have f': "process_find_by_pid s' n = Some cur"
      using find by (simp add: process_find_by_pid_def s') (simp add: upd_proc_def)
    define u where "u = upd_proc cur (\<lambda>q. q\<lparr>msg_queue := msg_queue q @ [m], msg_count := msg_count q + 1,
        pstate := PROC_READY\<rparr>) s'"
    have "snd (kernel_ipc_send True n m s') = enqueue_task cur u"
      using f' match room boxt
      by (auto simp: kernel_ipc_send_def Let_def s' u_def upd_proc_def msg_matches_def mailbox_wf_def MSG_QUEUE_MAX_def)
    moreover have "pstate (procs u cur) = PROC_READY" "run_list (procs u cur) = None"
        "cpu_of (procs u cur) = cpu_of (procs t cur)" "queue_prio (procs u cur) = queue_prio (procs t cur)"
      using free by (simp_all add: u_def s' upd_proc_def cpu_of_def queue_prio_def)
    ultimately have "pstate (procs (snd (kernel_ipc_send True n m s')) cur) = PROC_READY"
        "cur \<in> set (lists (snd (kernel_ipc_send True n m s')) (Runqueue (cpu_of (procs t cur)) (queue_prio (procs t cur))))"
      by (simp_all add: enqueue_task_def Let_def list_add_tail_def upd_proc_def upd_cpu_def)
    moreover have "pstate (procs s' cur) = PROC_SLEEPING" "ipc_target_pid (procs s' cur) = src"
      by (simp_all add: s' upd_proc_def)
    ultimately show ?thesis using g(1,2) False by (simp add: Let_def)
  qed
next
  case (Some xr)
  obtain x r where xr: "xr = (x, r)" by fastforce
  have ab: "\<exists>a b. msg_queue (procs s cur) = a @ x # b \<and> r = a @ b \<and> msg_matches src x \<and> (\<forall>y \<in> set a. \<not> msg_matches src y)"
    using Some xr pop_queue_Some by blast
  have s': "got = Some x" "rc = 0" "msg_queue (procs s' cur) = r"
      "msg_count (procs s' cur) = (if msg_count (procs s cur) > 0 then msg_count (procs s cur) - 1 else msg_count (procs s cur))"
    using run Some xr by (auto simp: sys_ipc_recv_def pop_message_def upd_proc_def)
  have "mailbox_wf (procs s' cur)" using ab box by (auto simp: mailbox_wf_def s')
  then show ?thesis using s' ab by auto
qed

text \<open>The job of the small instance, already killed and still linked on the runqueue.\<close>

definition demo_dead :: sched where
  "demo_dead = upd_proc 2 (\<lambda>q. q\<lparr>pstate := PROC_DEAD\<rparr>) demo_rq"

theorem process_terminate_no_dangling_witness:
  "queues_wf (snd (process_terminate 1 9 demo_dead)) \<and> no_dangling (snd (process_terminate 1 9 demo_dead))"
proof -
  have p: "procs demo_dead 2 = (procs demo_rq 2)\<lparr>pstate := PROC_DEAD\<rparr>" "q \<noteq> 2 \<Longrightarrow> procs demo_dead q = procs demo_rq q" for q
    by (simp_all add: demo_dead_def upd_proc_def)
  have wf: "queues_wf demo_dead" using demo_rq_wf by (simp add: demo_dead_def)
  have "no_dangling demo_dead" by (simp add: no_dangling_def demo_dead_def upd_proc_def demo_rq_simps)
  moreover have "find_pid (procs demo_dead) 9 xs = find_pid (procs demo_rq) 9 xs" for xs
    by (induction "procs demo_rq" "9 :: int" xs rule: find_pid.induct) (simp_all add: demo_dead_def upd_proc_def)
  then have find: "process_find_by_pid demo_dead 9 = Some 2"
    using demo_rq_find by (simp add: process_find_by_pid_def demo_dead_def upd_proc_def)
  moreover have "run_list (procs demo_dead x) \<noteq> Some (Waitqueue w)" for x w
  proof -
    have "run_list (procs demo_rq x) \<noteq> Some (Waitqueue w)"
      using demo_rq_simps(1,2,8) by (cases "x = 1"; cases "x = 2") (auto simp: zero_process_def)
    then show ?thesis by (cases "x = 2") (simp_all add: p)
  qed
  moreover have "released demo_dead = []" by (simp add: demo_dead_def upd_proc_def demo_rq_simps(7))
  moreover have "pstate (procs demo_dead 2) = PROC_DEAD" by (simp add: p(1))
  ultimately show ?thesis by (intro process_terminate_no_dangling [OF wf]) simp_all
qed

theorem stop_then_terminate_frees_queued_task_witness:
  "2 \<in> set (released (snd (process_terminate 1 9 (snd (process_stop 9 demo_rq))))) \<and>
   2 \<in> set (lists (snd (process_terminate 1 9 (snd (process_stop 9 demo_rq)))) (Runqueue 0 0))"
proof (rule stop_then_terminate_frees_queued_task [OF demo_rq_wf demo_rq_find])
  show "\<forall>j < MAX_CPUS. current_process demo_rq j \<noteq> Some 2"
  proof (intro allI impI)
    fix j show "current_process demo_rq j \<noteq> Some 2"
      using demo_rq_simps(5,6) by (cases "j = 0") (auto simp: current_process_def demo_sched_def zero_cpu_def)
  qed
qed (simp_all add: demo_rq_simps demo_job_def PLVL_USER_def PLVL_MACHINE_def MAX_CPUS_def)

lemma demo_schedule:
  "schedule (\<lambda>_. False) 7 (Some 1) None demo_rq = Inr (None, upd_cpu 1 (\<lambda>i. i\<lparr>sched_run_count := 7\<rparr>) demo_rq)"
  "hand_over_ok 1 demo_rq"
proof -
  have c: "cpus demo_rq 1 = zero_cpu" by (rule demo_rq_simps(6)) simp
  have i: "idle_task (cpus demo_rq i) = None" for i
    using demo_rq_simps(5,6) by (cases "i = 0") (auto simp: demo_sched_def zero_cpu_def)
  show "hand_over_ok 1 demo_rq"
    using i c by (simp add: hand_over_ok_def idles_ok_def) (simp add: zero_cpu_def)
  define t where "t = upd_cpu 1 (\<lambda>i. i\<lparr>sched_run_count := 7\<rparr>) demo_rq"
  have t: "cpus t 1 = zero_cpu\<lparr>sched_run_count := 7\<rparr>" using c by (simp add: t_def upd_cpu_def)
  have "steal_loop (\<lambda>_. False) 1 ids t = (None, t)" for ids by (induction ids) simp_all
  moreover have "sched_pick_local 1 k t = Inr (None, t)" for k
  proof -
    have wf: "queues_wf t" using demo_rq_wf by (simp add: t_def)
    then have e: "queued t 1 = {}" using empty_bitmap [OF wf, of 1] t by (simp add: zero_cpu_def)
    obtain r u where pick: "pick_once 1 k t = (r, u)" by fastforce
    then have "r = None" "u = t" using pick_once_cases [OF wf pick] e by (auto simp: took_def split: option.splits)
    then have "pick_loop (Suc n) 1 k t = Inr (None, t)" for n using pick by simp
    from this [of 127] show ?thesis by (simp add: sched_pick_local_def MAX_PROCESSES_def)
  qed
  ultimately show "schedule (\<lambda>_. False) 7 (Some 1) None demo_rq = Inr (None, upd_cpu 1 (\<lambda>i. i\<lparr>sched_run_count := 7\<rparr>) demo_rq)"
  proof -
    assume st: "\<And>ids. steal_loop (\<lambda>_. False) 1 ids t = (None, t)" and pk: "\<And>k. sched_pick_local 1 k t = Inr (None, t)"
    have z: "deferred_free_proc (cpus demo_rq 1) = []" "current_task (cpus demo_rq 1) = None"
        "pending_reenqueue (cpus t 1) = None" "idle_task (cpus t 1) = None"
      using c t by (simp_all add: zero_cpu_def)
    have "sched_reap_deferred 1 demo_rq = demo_rq" by (simp add: sched_reap_deferred_def z del: One_nat_def)
    moreover have "sched_account_time 7 1 None demo_rq = t" by (simp add: sched_account_time_def t_def)
    moreover have "sched_requeue_pending 1 t = t" by (simp add: sched_requeue_pending_def z del: One_nat_def)
    moreover have "sched_retire_prev 1 None None t = (False, t)" by (simp add: sched_retire_prev_def)
    ultimately show ?thesis
      using st pk by (simp add: schedule_def sched_steal_work_def z t_def [symmetric] del: One_nat_def)
  qed
qed

theorem queues_wf_reachable_witness:
  "queues_wf (snd (process_stop 9 (upd_cpu 1 (\<lambda>i. i\<lparr>sched_run_count := 7\<rparr>) demo_rq)))"
proof (rule queues_wf_reachable [OF demo_rq_wf])
  let ?t = "upd_cpu 1 (\<lambda>i. i\<lparr>sched_run_count := 7\<rparr>) demo_rq"
  have "sched_step demo_rq ?t" by (rule sched_step.schedule [OF demo_schedule(2,1)])
  moreover have "sched_step ?t (snd (process_stop 9 ?t))" by (rule sched_step.stop)
  ultimately show "sched_step\<^sup>*\<^sup>* demo_rq (snd (process_stop 9 ?t))"
    by (meson r_into_rtranclp rtranclp.rtrancl_into_rtrancl)
qed

definition demo_msg :: ipc_message where
  "demo_msg = \<lparr>msg_from = 5, msg_type = 1, msg_data1 = 0, msg_data2 = 0, msg_payload = replicate 64 0\<rparr>"

theorem kernel_ipc_send_correct_witness:
  "msg_queue (procs (snd (kernel_ipc_send True 9 demo_msg demo_rq)) 2) = [demo_msg]"
proof -
  have box: "mailbox_wf (procs demo_rq 2)"
    by (simp add: demo_rq_simps mailbox_wf_def demo_job_def zero_process_def)
  have st: "pstate (procs demo_rq 2) \<noteq> PROC_DEAD" "pstate (procs demo_rq 2) \<noteq> PROC_ZOMBIE"
    by (simp_all add: demo_rq_simps demo_job_def)
  have q: "msg_queue (procs demo_rq 2) = []" by (simp add: demo_rq_simps demo_job_def zero_process_def)
  show ?thesis
    using kernel_ipc_send_correct [OF demo_rq_find box st, of demo_msg "fst (kernel_ipc_send True 9 demo_msg demo_rq)"
        "snd (kernel_ipc_send True 9 demo_msg demo_rq)"] q by auto
qed

text \<open>A message that arrives between the two sections: the receiver stays awake and its retry gets it.\<close>

theorem ipc_recv_no_lost_wakeup_witness:
  "let send = (\<lambda>s. snd (kernel_ipc_send True 9 demo_msg s)); t = send demo_sched in
   snd (snd (sys_ipc_recv send True 2 5 demo_sched)) = t \<and>
   (\<exists>x u. sys_ipc_recv id True 2 5 t = (0, Some x, u) \<and> msg_matches 5 x)"
proof -
  define send where "send = (\<lambda>s. snd (kernel_ipc_send True 9 demo_msg s))"
  define t where "t = send demo_sched"
  have d: "procs demo_sched 2 = demo_job" by (simp add: demo_sched_def)
  have job: "mailbox_wf demo_job" "run_list demo_job = None" "msg_queue demo_job = []" "msg_count demo_job = 0"
      "pstate demo_job = PROC_READY"
    by (simp_all add: mailbox_wf_def demo_job_def zero_process_def)
  have t: "t = upd_proc 2 (\<lambda>q. q\<lparr>msg_queue := msg_queue q @ [demo_msg], msg_count := msg_count q + 1\<rparr>) demo_sched"
    using demo_find(2) d job
    by (simp add: t_def send_def kernel_ipc_send_def Let_def MSG_QUEUE_MAX_def upd_proc_def)
  have p: "procs t 2 = demo_job\<lparr>msg_queue := [demo_msg], msg_count := 1\<rparr>" using d job by (simp add: t upd_proc_def)
  have "find_pid (procs t) 9 xs = find_pid (procs demo_sched) 9 xs" for xs
    by (induction "procs demo_sched" "9 :: int" xs rule: find_pid.induct) (simp_all add: t upd_proc_def)
  then have find: "process_find_by_pid t 9 = Some 2"
    using demo_find(2) by (simp add: process_find_by_pid_def t) (simp add: upd_proc_def)
  have run: "sys_ipc_recv send True 2 5 demo_sched = (IPC_RECV_RETRY, None, snd (snd (sys_ipc_recv send True 2 5 demo_sched)))"
    by (simp add: sys_ipc_recv_def pop_message_def d job)
  have m: "msg_matches 5 demo_msg" by (simp add: msg_matches_def demo_msg_def)
  show ?thesis
    unfolding Let_def send_def [symmetric] t_def [symmetric]
    using ipc_recv_no_lost_wakeup [OF run t_def _ find _ _ _ m, of id] d job p m by (auto simp: mailbox_wf_def)
qed

end
