(* ===== verification/Registry.thy ===== *)
theory Registry
  imports Process "HOL-Library.Char_ord" "HOL-Library.List_Lexorder"
begin

text \<open>
  The system registry (\<open>kernel/lib/registry.c\<close>): the namespace tree of dotted keys, the virtual
  per-process keys answered from the process table, the \<open>/reg\<close> file view and the system call.

  A node is a value of the datatype \<open>reg_node\<close>; the parent pointer of the source is the nesting.
  A pointer to a node held under the registry lock is the path of child positions that leads to
  it; a pointer that outlives the lock (the identifier of an opened file) is the address
  \<open>rn_addr\<close> of the node.  C strings are character lists without their terminator.  \<open>km i\<close>
  says whether the \<open>i\<close>-th \<open>kmalloc\<close> call succeeds.
\<close>

section \<open>Constants and small library calls\<close>

definition MAX_KEY_LEN :: nat where "MAX_KEY_LEN = 64"
definition MAX_VAL_LEN :: nat where "MAX_VAL_LEN = 128"

definition E2BIG :: int where "E2BIG = 7"
definition EACCES :: int where "EACCES = 13"
definition EISDIR :: int where "EISDIR = 21"

text \<open>\<open>strcmp\<close> on terminated strings: the difference of the first bytes that differ.\<close>

fun str_cmp :: "string \<Rightarrow> string \<Rightarrow> int" where
  "str_cmp [] [] = 0"
| "str_cmp [] (b # bs) = - of_char b"
| "str_cmp (a # as) [] = of_char a"
| "str_cmp (a # as) (b # bs) = (if a = b then str_cmp as bs else of_char a - of_char b)"

text \<open>\<open>strncpy(dst, src, n - 1)\<close> followed by writing the terminator at \<open>n - 1\<close>.\<close>

definition str_trunc :: "nat \<Rightarrow> string \<Rightarrow> string" where
  "str_trunc n xs = take (n - 1) xs"

text \<open>What \<open>%d\<close> prints.\<close>

fun dec_digits :: "nat \<Rightarrow> string" where
  "dec_digits n = (if n < 10 then [char_of (48 + n)] else dec_digits (n div 10) @ [char_of (48 + n mod 10)])"

definition dec_string :: "int \<Rightarrow> string" where
  "dec_string i = (if i < 0 then CHR ''-'' # dec_digits (nat (- i)) else dec_digits (nat i))"

text \<open>A C \<open>int\<close> after an overflow, as the targets compute it.\<close>

definition wrap_int :: "int \<Rightarrow> int" where
  "wrap_int i = sint (word_of_int i :: u32)"

section \<open>Nodes\<close>

datatype reg_node =
  Reg_Node (rn_addr: nat) (rn_name: string) (rn_value: string) (rn_owner: int) (is_leaf: bool)
           (cap_children: nat) (rn_children: "reg_node list")

fun set_children :: "reg_node \<Rightarrow> reg_node list \<Rightarrow> reg_node" where
  "set_children (Reg_Node a n v ow l c cs) cs' = Reg_Node a n v ow l c cs'"

fun set_cap :: "reg_node \<Rightarrow> nat \<Rightarrow> reg_node" where
  "set_cap (Reg_Node a n v ow l c cs) c' = Reg_Node a n v ow l c' cs"

record registry =
  reg_root :: reg_node
  registry_count :: int
  reg_allocs :: nat
  registry_defaults_failed :: int

definition node_alloc :: "(nat \<Rightarrow> bool) \<Rightarrow> nat \<Rightarrow> string \<Rightarrow> reg_node option" where
  "node_alloc km i seg =
     (if km i then Some (Reg_Node (Suc i) (str_trunc MAX_KEY_LEN seg) [] 0 False 0 []) else None)"

text \<open>The binary search of the sorted children: \<open>Inl mid\<close> is a match, \<open>Inr lo\<close> the insertion
  point.\<close>

function search_children :: "reg_node list \<Rightarrow> string \<Rightarrow> int \<Rightarrow> int \<Rightarrow> nat + int" where
  "search_children cs seg lo hi =
     (if lo \<le> hi then
        let mid = lo + (hi - lo) div 2;
            cmp = str_cmp (rn_name (cs ! nat mid)) seg
        in if cmp = 0 then Inl (nat mid)
           else if cmp < 0 then search_children cs seg (mid + 1) hi
           else search_children cs seg lo (mid - 1)
      else Inr lo)"
  by pat_completeness auto
termination by (relation "measure (\<lambda>(cs, seg, lo, hi). nat (hi - lo + 1))") auto

declare search_children.simps [simp del]

abbreviation n_children :: "reg_node \<Rightarrow> int" where
  "n_children p \<equiv> int (length (rn_children p))"

definition node_find_child :: "reg_node \<Rightarrow> string \<Rightarrow> nat option" where
  "node_find_child p seg =
     (case search_children (rn_children p) seg 0 (n_children p - 1) of
        Inl mid \<Rightarrow> Some mid | Inr lo \<Rightarrow> None)"

text \<open>The children array is doubled when it is full.\<close>

definition grow_children :: "(nat \<Rightarrow> bool) \<Rightarrow> nat \<Rightarrow> reg_node \<Rightarrow> bool \<times> reg_node \<times> nat" where
  "grow_children km i p =
     (if length (rn_children p) = cap_children p
      then let newcap = (if cap_children p \<noteq> 0 then cap_children p * 2 else 4) in
           if km i then (True, set_cap p newcap, Suc i) else (False, p, Suc i)
      else (True, p, i))"

definition insert_child :: "reg_node \<Rightarrow> nat \<Rightarrow> reg_node \<Rightarrow> reg_node" where
  "insert_child p lo n =
     set_children p (take lo (rn_children p) @ n # drop lo (rn_children p))"

definition node_get_or_add ::
    "(nat \<Rightarrow> bool) \<Rightarrow> nat \<Rightarrow> reg_node \<Rightarrow> string \<Rightarrow> nat option \<times> reg_node \<times> nat" where
  "node_get_or_add km i p seg =
     (case search_children (rn_children p) seg 0 (n_children p - 1) of
        Inl mid \<Rightarrow> (Some mid, p, i)
      | Inr lo \<Rightarrow>
          (case grow_children km i p of
             (False, p1, i1) \<Rightarrow> (None, p1, i1)
           | (True, p1, i1) \<Rightarrow>
               (case node_alloc km i1 seg of
                  None \<Rightarrow> (None, p1, Suc i1)
                | Some n \<Rightarrow> (Some (nat lo), insert_child p1 (nat lo) n, Suc i1))))"

section \<open>Paths\<close>

lemma tl_dropWhile_less: "p \<noteq> [] \<Longrightarrow> length (dropWhile P p) - Suc 0 < length p"
  using length_dropWhile_le [of P p] by (cases p) auto

text \<open>The segments \<open>walk_path\<close> takes from a key: each is cut to \<open>MAX_KEY_LEN - 1\<close> characters and
  empty ones are skipped.\<close>

function key_segments :: "string \<Rightarrow> string list" where
  "key_segments p =
     (if p = [] then []
      else let seg = take (MAX_KEY_LEN - 1) (takeWhile (\<lambda>c. c \<noteq> CHR ''.'') p);
               p' = tl (dropWhile (\<lambda>c. c \<noteq> CHR ''.'') p)
           in if seg = [] then key_segments p' else seg # key_segments p')"
  by pat_completeness auto
termination by (relation "measure length") (auto simp: tl_dropWhile_less)

declare key_segments.simps [simp del]

fun node_at :: "reg_node \<Rightarrow> nat list \<Rightarrow> reg_node" where
  "node_at n [] = n"
| "node_at n (k # ks) = node_at (rn_children n ! k) ks"

fun update_at :: "reg_node \<Rightarrow> nat list \<Rightarrow> (reg_node \<Rightarrow> reg_node) \<Rightarrow> reg_node" where
  "update_at n [] f = f n"
| "update_at n (k # ks) f =
     set_children n ((rn_children n)[k := update_at (rn_children n ! k) ks f])"

fun walk_loop ::
    "(nat \<Rightarrow> bool) \<Rightarrow> bool \<Rightarrow> nat \<Rightarrow> reg_node \<Rightarrow> string list \<Rightarrow> nat list option \<times> reg_node \<times> nat" where
  "walk_loop km create i n [] = (Some [], n, i)"
| "walk_loop km create i n (seg # segs) =
     (case (if create then node_get_or_add km i n seg else (node_find_child n seg, n, i)) of
        (None, n1, i1) \<Rightarrow> (None, n1, i1)
      | (Some k, n1, i1) \<Rightarrow>
          (case walk_loop km create i1 (rn_children n1 ! k) segs of
             (r, c, i2) \<Rightarrow>
               (map_option (Cons k) r, set_children n1 ((rn_children n1)[k := c]), i2)))"

definition walk_path ::
    "(nat \<Rightarrow> bool) \<Rightarrow> bool \<Rightarrow> string \<Rightarrow> registry \<Rightarrow> nat list option \<times> registry" where
  "walk_path km create key r =
     (case key_segments key of
        [] \<Rightarrow> (None, r)
      | segs \<Rightarrow>
          (case walk_loop km create (reg_allocs r) (reg_root r) segs of
             (res, root, i) \<Rightarrow> (res, r\<lparr>reg_root := root, reg_allocs := i\<rparr>)))"

fun key_has_segment :: "string \<Rightarrow> bool" where
  "key_has_segment [] = False"
| "key_has_segment (c # cs) = (if c \<noteq> CHR ''.'' then True else key_has_segment cs)"

section \<open>Virtual per-process keys\<close>

fun scan_pid :: "int \<Rightarrow> string \<Rightarrow> int \<times> string" where
  "scan_pid n [] = (n, [])"
| "scan_pid n (c # cs) =
     (if CHR ''0'' \<le> c \<and> c \<le> CHR ''9'' then scan_pid (wrap_int (n * 10 + (of_char c - 48))) cs
      else (n, c # cs))"

definition reg_proc_split :: "string \<Rightarrow> (int \<times> string) option" where
  "reg_proc_split key =
     (if take 9 key \<noteq> ''sys.proc.'' then None
      else case drop 9 key of
        [] \<Rightarrow> None
      | c # cs \<Rightarrow>
          if \<not> (CHR ''0'' \<le> c \<and> c \<le> CHR ''9'') then None
          else (case scan_pid 0 (c # cs) of
                  (n, rest) \<Rightarrow>
                    (case rest of [] \<Rightarrow> None
                     | d # field \<Rightarrow> if d \<noteq> CHR ''.'' then None else Some (n, field))))"

text \<open>The answer for a virtual key: 1 with the string left in a buffer of \<open>sz\<close> bytes, -1 for an
  environment variable that is not set, 0 for a key that is not virtual.\<close>

definition reg_virtual_proc ::
    "(u64 \<Rightarrow> u64) \<Rightarrow> sched \<Rightarrow> string \<Rightarrow> nat \<Rightarrow> int \<times> string" where
  "reg_virtual_proc to_ns s key sz =
     (case reg_proc_split key of
        None \<Rightarrow> (0, [])
      | Some (n, p) \<Rightarrow>
          (case proc_get_info to_ns s n of
             None \<Rightarrow> (1, [])
           | Some pi \<Rightarrow>
               if p = ''name'' then (1, str_trunc sz (ps_name pi))
               else if p = ''state'' then (1, str_trunc sz (proc_state_name (ps_state pi)))
               else if p = ''parent'' \<or> p = ''owner'' then
                 (let (par, own) = (case proc_get_lineage s n of None \<Rightarrow> (0, 0) | Some lo \<Rightarrow> lo)
                  in (1, str_trunc sz (dec_string (if p = ''owner'' then own else par))))
               else if take 4 p = ''env.'' then
                 (if drop 4 p = [] then (- 1, [])
                  else case proc_env_get s n (Some (drop 4 p)) (Some sz) of
                         (rc, out) \<Rightarrow> if rc = 0 then (1, the out) else (- 1, []))
               else (0, [])))"

definition registry_key_is_virtual :: "string option \<Rightarrow> bool" where
  "registry_key_is_virtual key = (case key of None \<Rightarrow> False | Some k \<Rightarrow> reg_proc_split k \<noteq> None)"

text \<open>\<open>None\<close>: the key is not virtual.\<close>

definition reg_virtual_proc_write ::
    "pref option \<Rightarrow> string \<Rightarrow> string option \<Rightarrow> sched \<Rightarrow> (int \<times> sched) option" where
  "reg_virtual_proc_write cur key val s =
     (case reg_proc_split key of
        None \<Rightarrow> None
      | Some (n, p) \<Rightarrow>
          if take 4 p = ''env.'' \<and> drop 4 p \<noteq> []
          then Some (proc_env_set s cur n (Some (drop 4 p)) val)
          else Some (- EACCES, s))"

section \<open>Setting, reading and deleting keys\<close>

fun store_value :: "string \<Rightarrow> reg_node \<Rightarrow> reg_node" where
  "store_value val (Reg_Node a n v ow l c cs) = Reg_Node a n (str_trunc MAX_VAL_LEN val) ow l c cs"

fun make_leaf :: "int \<Rightarrow> reg_node \<Rightarrow> reg_node" where
  "make_leaf owner (Reg_Node a n v ow l c cs) = Reg_Node a n v owner True c cs"

fun clear_leaf :: "reg_node \<Rightarrow> reg_node" where
  "clear_leaf (Reg_Node a n v ow l c cs) = Reg_Node a n [] 0 False c cs"

text \<open>The critical section of \<open>registry_set\<close> on a stored key.\<close>

definition set_stored ::
    "(nat \<Rightarrow> bool) \<Rightarrow> string \<Rightarrow> string \<Rightarrow> int \<Rightarrow> registry \<Rightarrow> int \<times> registry" where
  "set_stored km key val owner r =
     (case walk_path km True key r of
        (None, r1) \<Rightarrow> (if key_has_segment key then - ENOMEM else - EINVAL, r1)
      | (Some path, r1) \<Rightarrow>
          let n = node_at (reg_root r1) path in
          if is_leaf n \<and> owner \<noteq> 0 \<and> rn_owner n \<noteq> owner then (- EACCES, r1)
          else
            let r2 = r1\<lparr>reg_root := update_at (reg_root r1) path (store_value val)\<rparr> in
            if \<not> is_leaf n
            then (0, r2\<lparr>reg_root := update_at (reg_root r2) path (make_leaf owner),
                        registry_count := registry_count r2 + 1\<rparr>)
            else (0, r2))"

definition registry_set ::
    "(nat \<Rightarrow> bool) \<Rightarrow> pref option \<Rightarrow> string option \<Rightarrow> string option \<Rightarrow> int
     \<Rightarrow> sched \<times> registry \<Rightarrow> int \<times> sched \<times> registry" where
  "registry_set km cur key val owner sr =
     (case (key, val, sr) of
        (Some k, Some v, s, r) \<Rightarrow>
          (case reg_virtual_proc_write cur k (Some v) s of
             Some (ret, s') \<Rightarrow> (ret, s', r)
           | None \<Rightarrow> (case set_stored km k v owner r of (ret, r') \<Rightarrow> (ret, s, r')))
      | _ \<Rightarrow> (- EINVAL, sr))"

definition get_stored :: "string \<Rightarrow> nat \<Rightarrow> registry \<Rightarrow> int \<times> string option" where
  "get_stored key sz r =
     (case fst (walk_path (\<lambda>_. False) False key r) of
        None \<Rightarrow> (- ENOENT, None)
      | Some path \<Rightarrow>
          let n = node_at (reg_root r) path in
          if \<not> is_leaf n then (- ENOENT, None) else (0, Some (str_trunc sz (rn_value n))))"

text \<open>The buffer is given by its size, \<open>None\<close> for a null pointer.\<close>

definition registry_get ::
    "(u64 \<Rightarrow> u64) \<Rightarrow> string option \<Rightarrow> nat option \<Rightarrow> sched \<times> registry \<Rightarrow> int \<times> string option" where
  "registry_get to_ns key buf sr =
     (case (key, buf, sr) of
        (Some k, Some (Suc m), s, r) \<Rightarrow>
          (case reg_virtual_proc to_ns s k (Suc m) of
             (v, out) \<Rightarrow>
               if v \<noteq> 0 then (if v > 0 then (0, Some out) else (- ENOENT, None))
               else get_stored k (Suc m) r)
      | _ \<Rightarrow> (- EINVAL, None))"

definition node_remove_child :: "string \<Rightarrow> reg_node \<Rightarrow> reg_node" where
  "node_remove_child nm p =
     (case search_children (rn_children p) nm 0 (n_children p - 1) of
        Inr lo \<Rightarrow> p
      | Inl idx \<Rightarrow> set_children p (take idx (rn_children p) @ drop (Suc idx) (rn_children p)))"

function prune :: "reg_node \<Rightarrow> nat list \<Rightarrow> reg_node" where
  "prune root path =
     (if path = [] then root
      else let n = node_at root path in
           if rn_children n = [] \<and> \<not> is_leaf n
           then prune (update_at root (butlast path) (node_remove_child (rn_name n))) (butlast path)
           else root)"
  by pat_completeness auto
termination by (relation "measure (\<lambda>(root, path). length path)") auto

declare prune.simps [simp del]

definition del_stored :: "string \<Rightarrow> int \<Rightarrow> registry \<Rightarrow> int \<times> registry" where
  "del_stored key owner r =
     (case fst (walk_path (\<lambda>_. False) False key r) of
        None \<Rightarrow> (- ENOENT, r)
      | Some path \<Rightarrow>
          let n = node_at (reg_root r) path in
          if path = [] \<or> \<not> is_leaf n then (- ENOENT, r)
          else if owner \<noteq> 0 \<and> rn_owner n \<noteq> owner then (- EACCES, r)
          else (0, r\<lparr>reg_root := prune (update_at (reg_root r) path clear_leaf) path,
                      registry_count := registry_count r - 1\<rparr>))"

definition registry_del ::
    "pref option \<Rightarrow> string option \<Rightarrow> int \<Rightarrow> sched \<times> registry \<Rightarrow> int \<times> sched \<times> registry" where
  "registry_del cur key owner sr =
     (case (key, sr) of
        (Some k, s, r) \<Rightarrow>
          (case reg_virtual_proc_write cur k None s of
             Some (ret, s') \<Rightarrow> (ret, s', r)
           | None \<Rightarrow> (case del_stored k owner r of (ret, r') \<Rightarrow> (ret, s, r')))
      | _ \<Rightarrow> (- EINVAL, sr))"

section \<open>Boot defaults\<close>

definition set_default ::
    "(nat \<Rightarrow> bool) \<Rightarrow> string \<Rightarrow> string \<Rightarrow> sched \<times> registry \<Rightarrow> sched \<times> registry" where
  "set_default km key val sr =
     (case registry_set km None (Some key) (Some val) 0 sr of
        (ret, s, r) \<Rightarrow>
          (s, if ret \<noteq> 0 then r\<lparr>registry_defaults_failed := registry_defaults_failed r + 1\<rparr> else r))"

definition registry_init :: "(nat \<Rightarrow> bool) \<Rightarrow> sched \<times> registry \<Rightarrow> sched \<times> registry" where
  "registry_init km sr =
     fold (\<lambda>(k, v). set_default km k v)
       [(''theme.color'', ''dark''), (''style.name'', ''nexs''), (''background.name'', ''blue''),
        (''system.hostname'', ''NeXs''), (''system.arch'', ''unknown''), (''system.version'', ''0.0.0''),
        (''system.os'', ''NEXS''), (''system.boot_time'', ''0''), (''sys.ntfy.panel_open'', ''0''),
        (''mouse.sensitivity'', ''1.0'')]
       (fst sr, (snd sr)\<lparr>registry_count := 0\<rparr>)"

definition boot_registry :: registry where
  "boot_registry = \<lparr>reg_root = Reg_Node 0 [] [] 0 False 0 [], registry_count = 0, reg_allocs = 0,
     registry_defaults_failed = 0\<rparr>"

section \<open>Enumeration\<close>

text \<open>The path buffer of 256 bytes: a separator and the name are appended as far as they fit.\<close>

definition PATH_CAP :: nat where "PATH_CAP = 256"

definition path_append :: "string \<Rightarrow> string \<Rightarrow> string" where
  "path_append path nm =
     (let p1 = (if path \<noteq> [] \<and> length path + 1 < PATH_CAP then path @ ''.'' else path)
      in p1 @ take (PATH_CAP - 1 - length p1) nm)"

definition enum_emit :: "string \<Rightarrow> nat \<Rightarrow> reg_node \<Rightarrow> string \<Rightarrow> string \<Rightarrow> string" where
  "enum_emit prefix sz c path buf =
     (if is_leaf c \<and> (prefix = [] \<or> (length path \<ge> length prefix \<and> take (length prefix) path = prefix))
         \<and> length buf + length path + 2 \<le> sz
      then buf @ path @ [CHR 0x0A] else buf)"

fun enum_dfs :: "string \<Rightarrow> nat \<Rightarrow> reg_node \<Rightarrow> string \<Rightarrow> string \<Rightarrow> string" where
  "enum_dfs prefix sz (Reg_Node a n v ow l c cs) path buf =
     fold (\<lambda>ch b. let path' = path_append path (rn_name ch)
                   in enum_dfs prefix sz ch path' (enum_emit prefix sz ch path' b)) cs buf"

function env_keys_loop :: "nat \<Rightarrow> string \<Rightarrow> string \<Rightarrow> string \<Rightarrow> string" where
  "env_keys_loop sz prefix k out =
     (if k = [] then out
      else let nm = takeWhile (\<lambda>c. c \<noteq> CHR 0x0A) k;
               rest = dropWhile (\<lambda>c. c \<noteq> CHR 0x0A) k
           in if length out + (length prefix + length nm + 2) > sz then out
              else let out' = (if out \<noteq> [] then out @ [CHR 0x0A] else out) @ prefix @ nm
                   in if rest = [] then out' else env_keys_loop sz prefix (tl rest) out')"
  by pat_completeness auto
termination by (relation "measure (\<lambda>(sz, prefix, k, out). length k)") (auto simp: tl_dropWhile_less)

declare env_keys_loop.simps [simp del]

definition registry_enum ::
    "string option \<Rightarrow> nat option \<Rightarrow> sched \<times> registry \<Rightarrow> int \<times> string option" where
  "registry_enum prefix buf sr =
     (case (buf, sr) of
        (Some (Suc m), s, r) \<Rightarrow>
          (let stored = enum_dfs (case prefix of None \<Rightarrow> [] | Some p \<Rightarrow> p) (Suc m) (reg_root r) [] [];
               out = (case prefix of
                        None \<Rightarrow> stored
                      | Some p \<Rightarrow>
                          (case reg_proc_split p of
                             None \<Rightarrow> stored
                           | Some (n, f) \<Rightarrow>
                               if f \<noteq> ''env.'' then stored
                               else (case proc_env_enum s n (Some 512) of
                                       (cnt, names) \<Rightarrow>
                                         if cnt > 0 then env_keys_loop (Suc m) p (the names) [] else [])))
           in (int (length out), Some out))
      | _ \<Rightarrow> (- EINVAL, None))"

section \<open>The authority seam\<close>

definition registry_write_allowed :: "sched \<Rightarrow> pref option \<Rightarrow> bool" where
  "registry_write_allowed s cur = proc_has_cap (the_proc s cur) CAP_REG_WRITE"

definition registry_caller_owner :: "sched \<Rightarrow> pref option \<Rightarrow> int" where
  "registry_caller_owner s cur =
     (if proc_is_privileged (the_proc s cur) then 0 else pid (procs s (the cur)))"

section \<open>The file view\<close>

function path_to_key_loop :: "nat \<Rightarrow> string \<Rightarrow> string \<Rightarrow> string" where
  "path_to_key_loop n p key =
     (if p = [] \<or> \<not> length key + 1 < n then key
      else if hd p = CHR ''/'' then
        let p' = dropWhile (\<lambda>c. c = CHR ''/'') p
        in path_to_key_loop n p' (if p' \<noteq> [] \<and> length key + 1 < n then key @ ''.'' else key)
      else path_to_key_loop n (tl p) (key @ [hd p]))"
  by pat_completeness auto
termination
proof (relation "measure (\<lambda>(n, p, key). length p)", goal_cases)
  case (2 n p key x)
  then show ?case
    by (cases p) (auto simp: less_Suc_eq_le length_dropWhile_le)
qed auto

declare path_to_key_loop.simps [simp del]

definition regfs_path_to_key :: "string \<Rightarrow> nat \<Rightarrow> string" where
  "regfs_path_to_key relpath n = path_to_key_loop n (dropWhile (\<lambda>c. c = CHR ''/'') relpath) []"

datatype vfs_type = VFS_TYPE_FILE | VFS_TYPE_DIR

record vfs_node =
  vn_id :: nat
  vn_type :: vfs_type
  vn_size :: nat

definition regfs_find :: "string \<Rightarrow> registry \<Rightarrow> reg_node option" where
  "regfs_find key r =
     (if key \<noteq> [] then map_option (node_at (reg_root r)) (fst (walk_path (\<lambda>_. False) False key r))
      else Some (reg_root r))"

definition regfs_open :: "string \<Rightarrow> registry \<Rightarrow> int \<times> vfs_node option" where
  "regfs_open path r =
     (case regfs_find (regfs_path_to_key path MAX_KEY_LEN) r of
        None \<Rightarrow> (- ENOENT, None)
      | Some n \<Rightarrow> (0, Some \<lparr>vn_id = rn_addr n,
                             vn_type = (if is_leaf n then VFS_TYPE_FILE else VFS_TYPE_DIR),
                             vn_size = (if is_leaf n then length (rn_value n) else 0)\<rparr>))"

text \<open>The identifier of an opened node is dereferenced; a node that is no longer in the tree has been
  freed, and reading it is an access to freed memory.\<close>

fun subnodes :: "reg_node \<Rightarrow> reg_node list" where
  "subnodes (Reg_Node a n v ow l c cs) = Reg_Node a n v ow l c cs # concat (map subnodes cs)"

definition node_by_addr :: "nat \<Rightarrow> registry \<Rightarrow> reg_node option" where
  "node_by_addr a r = find (\<lambda>n. rn_addr n = a) (subnodes (reg_root r))"

datatype reg_fault = Use_After_Free

definition regfs_read ::
    "vfs_node \<Rightarrow> u64 \<Rightarrow> u32 \<Rightarrow> registry \<Rightarrow> reg_fault + (int \<times> string)" where
  "regfs_read node offset sz r =
     (case node_by_addr (vn_id node) r of
        None \<Rightarrow> Inl Use_After_Free
      | Some n \<Rightarrow>
          if \<not> is_leaf n then Inr (- EISDIR, [])
          else let vlen = length (rn_value n) in
               if unat offset \<ge> vlen then Inr (0, [])
               else let avail = vlen - unat offset;
                        cnt = (if unat sz < avail then unat sz else avail)
                    in Inr (int cnt, take cnt (drop (unat offset) (rn_value n))))"

text \<open>The value a write at an offset leaves: the old value, padded with blanks up to the offset and
  overlaid with the data; it ends at the first terminator in the data.\<close>

definition overlay :: "string \<Rightarrow> nat \<Rightarrow> string \<Rightarrow> nat \<Rightarrow> string" where
  "overlay val off data cnt =
     (let curlen = length val;
          padded = val @ replicate (off - curlen) (CHR '' '')
      in takeWhile (\<lambda>c. c \<noteq> CHR 0x00)
           (take off padded @ take cnt data @ (if off + cnt \<ge> curlen then [] else drop (off + cnt) val)))"

definition regfs_write ::
    "(nat \<Rightarrow> bool) \<Rightarrow> (u64 \<Rightarrow> u64) \<Rightarrow> pref option \<Rightarrow> string \<Rightarrow> u64 \<Rightarrow> string
     \<Rightarrow> sched \<times> registry \<Rightarrow> int \<times> sched \<times> registry" where
  "regfs_write km to_ns cur path offset data sr =
     (let key = regfs_path_to_key path MAX_KEY_LEN in
      if key = [] \<or> unat offset \<ge> MAX_VAL_LEN - 1 then (- EINVAL, sr)
      else if \<not> registry_key_is_virtual (Some key) \<and> \<not> registry_write_allowed (fst sr) cur
      then (- EPERM, sr)
      else
        let off = unat offset;
            cnt = (if off + length data > MAX_VAL_LEN - 1 then MAX_VAL_LEN - 1 - off else length data);
            val = (case registry_get to_ns (Some key) (Some MAX_VAL_LEN) sr of
                     (rc, out) \<Rightarrow> if rc \<noteq> 0 then [] else the out);
            (rc, sr') = registry_set km cur (Some key) (Some (overlay val off data cnt))
                          (registry_caller_owner (fst sr) cur) sr
        in (if rc = 0 then int cnt else rc, sr'))"

fun list_names :: "nat \<Rightarrow> string list \<Rightarrow> string \<Rightarrow> string" where
  "list_names sz [] buf = buf"
| "list_names sz (nm # nms) buf =
     (if length buf + length nm + 2 > sz then buf
      else list_names sz nms ((if buf \<noteq> [] then buf @ '' '' else buf) @ nm))"

definition regfs_list :: "string \<Rightarrow> u32 \<Rightarrow> registry \<Rightarrow> int \<times> string option" where
  "regfs_list path sz r =
     (case regfs_find (regfs_path_to_key path MAX_KEY_LEN) r of
        None \<Rightarrow> (- ENOENT, None)
      | Some n \<Rightarrow> let out = list_names (unat sz) (map rn_name (rn_children n)) []
                  in (int (length out), Some out))"

definition regfs_create ::
    "(nat \<Rightarrow> bool) \<Rightarrow> pref option \<Rightarrow> string \<Rightarrow> vfs_type \<Rightarrow> sched \<times> registry \<Rightarrow> int \<times> sched \<times> registry" where
  "regfs_create km cur path ty sr =
     (if ty \<noteq> VFS_TYPE_FILE then (- EINVAL, sr)
      else if \<not> registry_write_allowed (fst sr) cur then (- EPERM, sr)
      else let key = regfs_path_to_key path MAX_KEY_LEN in
           if key = [] then (- EINVAL, sr)
           else registry_set km cur (Some key) (Some []) (registry_caller_owner (fst sr) cur) sr)"

definition regfs_unlink ::
    "pref option \<Rightarrow> string \<Rightarrow> sched \<times> registry \<Rightarrow> int \<times> sched \<times> registry" where
  "regfs_unlink cur path sr =
     (if \<not> registry_write_allowed (fst sr) cur then (- EPERM, sr)
      else let key = regfs_path_to_key path MAX_KEY_LEN in
           if key = [] then (- EINVAL, sr)
           else registry_del cur (Some key) (registry_caller_owner (fst sr) cur) sr)"

section \<open>The system call\<close>

text \<open>A string argument of user space: a null pointer, an address that cannot be read, or a string.\<close>

datatype user_str = UNull | UBad | UStr string

definition hal_copy_string_from_user :: "nat \<Rightarrow> user_str \<Rightarrow> int + string" where
  "hal_copy_string_from_user max_len u =
     (case u of UStr xs \<Rightarrow> Inr (take (max_len - 1) xs) | _ \<Rightarrow> Inl (- 1))"

definition hal_copy_string_from_user_strict :: "nat \<Rightarrow> user_str \<Rightarrow> int + string" where
  "hal_copy_string_from_user_strict max_len u =
     (case u of UStr xs \<Rightarrow> if length xs > max_len - 1 then Inl (- E2BIG) else Inr xs | _ \<Rightarrow> Inl (- 1))"

text \<open>\<open>value\<close> is the string at the user's value pointer for a write; for the operations that write to
  the user, \<open>copy_ok\<close> says whether the copy succeeds, and the second component of the result holds
  the bytes that were written.\<close>

definition sys_registry_enum ::
    "(nat \<Rightarrow> bool) \<Rightarrow> bool \<Rightarrow> user_str \<Rightarrow> user_str \<Rightarrow> u64 \<Rightarrow> sched \<times> registry
     \<Rightarrow> int \<times> string option \<times> sched \<times> registry" where
  "sys_registry_enum km copy_ok key val sz sr =
     (if val = UNull \<or> sz = 0 then (- EINVAL, None, sr)
      else
        case (if key = UNull then Inr None
              else case hal_copy_string_from_user MAX_KEY_LEN key of
                     Inl e \<Rightarrow> Inl e | Inr p \<Rightarrow> Inr (Some p)) of
          Inl e \<Rightarrow> (- EFAULT, None, sr)
        | Inr prefix \<Rightarrow>
            let cap = (if unat sz > 4096 then 4096 else unat sz);
                i = reg_allocs (snd sr);
                sr1 = (fst sr, (snd sr)\<lparr>reg_allocs := Suc i\<rparr>)
            in if \<not> km i then (- ENOMEM, None, sr1)
               else case registry_enum prefix (Some cap) sr1 of
                 (n, out) \<Rightarrow>
                   if n < 0 then (- EINVAL, None, sr1)
                   else let clen = (if nat n + 1 > cap then cap else nat n + 1)
                        in if copy_ok then (n, Some (take clen (the out @ [CHR 0x00])), sr1)
                           else (- EFAULT, None, sr1))"

definition sys_registry ::
    "(nat \<Rightarrow> bool) \<Rightarrow> (u64 \<Rightarrow> u64) \<Rightarrow> bool \<Rightarrow> pref option \<Rightarrow> int \<Rightarrow> user_str \<Rightarrow> user_str \<Rightarrow> u64
     \<Rightarrow> sched \<times> registry \<Rightarrow> int \<times> string option \<times> sched \<times> registry" where
  "sys_registry km to_ns copy_ok cur op key val sz sr =
     (if op = 2 then sys_registry_enum km copy_ok key val sz sr
      else case hal_copy_string_from_user_strict MAX_KEY_LEN key of
        Inl e \<Rightarrow> (if e = - E2BIG then - E2BIG else - EFAULT, None, sr)
      | Inr k_key \<Rightarrow>
          if op = 1 then
            (case hal_copy_string_from_user_strict MAX_VAL_LEN val of
               Inl e \<Rightarrow> (if e = - E2BIG then - E2BIG else - EFAULT, None, sr)
             | Inr k_val \<Rightarrow>
                 if \<not> registry_key_is_virtual (Some k_key) \<and> \<not> registry_write_allowed (fst sr) cur
                 then (- EPERM, None, sr)
                 else case registry_set km cur (Some k_key) (Some k_val)
                             (registry_caller_owner (fst sr) cur) sr of
                   (ret, sr') \<Rightarrow> (ret, None, sr'))
          else if op = 0 then
            (case registry_get to_ns (Some k_key) (Some MAX_VAL_LEN) sr of
               (rc, out) \<Rightarrow>
                 if rc = 0 then
                   if copy_ok then (0, Some (take (unat sz) (the out @ [CHR 0x00])), sr)
                   else (- EFAULT, None, sr)
                 else (- ENOENT, None, sr))
          else if op = 3 then
            (if \<not> registry_key_is_virtual (Some k_key) \<and> \<not> registry_write_allowed (fst sr) cur
             then (- EPERM, None, sr)
             else case registry_del cur (Some k_key) (registry_caller_owner (fst sr) cur) sr of
               (ret, sr') \<Rightarrow> (ret, None, sr'))
          else (- EINVAL, None, sr))"

section \<open>The other writers\<close>

text \<open>The registry half of a write through an object handle to a key (\<open>sys_object_write\<close> on
  \<open>OBJ_TYPE_REGKEY\<close>); \<open>bytes\<close> is what the copy from user space delivered, \<open>None\<close> when it failed.\<close>

definition regkey_set ::
    "(nat \<Rightarrow> bool) \<Rightarrow> pref option \<Rightarrow> string \<Rightarrow> nat \<Rightarrow> string option
     \<Rightarrow> sched \<times> registry \<Rightarrow> int \<times> sched \<times> registry" where
  "regkey_set km cur path n bytes sr =
     (if n = 0 \<or> n > MAX_VAL_LEN then (- EINVAL, sr)
      else case bytes of
        None \<Rightarrow> (- EFAULT, sr)
      | Some d \<Rightarrow>
          let cn = (if n < MAX_VAL_LEN then n else MAX_VAL_LEN - 1);
              val = takeWhile (\<lambda>c. c \<noteq> CHR 0x00) (take cn d);
              (rc, sr') = registry_set km cur (Some path) (Some val) (registry_caller_owner (fst sr) cur) sr
          in (if rc = 0 then int n else rc, sr'))"

text \<open>The look of the desktop (\<open>compositor_style.c\<close>) and the system call that switches it, which has the
  kernel publish the names under the three keys below with owner 0.\<close>

record look =
  active_style :: int
  active_theme :: int
  active_background :: int

definition STYLE_COUNT :: int where "STYLE_COUNT = 6"
definition THEME_COUNT :: int where "THEME_COUNT = 2"
definition BG_COUNT :: int where "BG_COUNT = 16"
definition EIO :: int where "EIO = 5"

definition os1_style_names :: "string list" where
  "os1_style_names = [''nexs'', ''classic'', ''material'', ''glass'', ''minimal'', ''retro'']"

definition os1_theme_names :: "string list" where
  "os1_theme_names = [''light'', ''dark'']"

definition os1_bg_names :: "string list" where
  "os1_bg_names = [''black'', ''red'', ''green'', ''yellow'', ''blue'', ''magenta'', ''cyan'', ''white'', ''gray'',
     ''bred'', ''bgreen'', ''byellow'', ''bblue'', ''bmagenta'', ''bcyan'', ''bwhite'']"

definition compositor_set_style :: "int \<Rightarrow> look \<Rightarrow> int \<times> look" where
  "compositor_set_style i k = (if i < 0 \<or> i \<ge> STYLE_COUNT then (- 1, k) else (0, k\<lparr>active_style := i\<rparr>))"

definition compositor_set_theme :: "int \<Rightarrow> look \<Rightarrow> int \<times> look" where
  "compositor_set_theme i k = (if i < 0 \<or> i \<ge> THEME_COUNT then (- 1, k) else (0, k\<lparr>active_theme := i\<rparr>))"

definition compositor_set_background :: "int \<Rightarrow> look \<Rightarrow> int \<times> look" where
  "compositor_set_background i k =
     (if i < 0 \<or> i \<ge> BG_COUNT then (- 1, k) else (0, k\<lparr>active_background := i\<rparr>))"

text \<open>One of the three blocks of \<open>SYS_SET_STYLE\<close>: a negative identifier keeps the setting.\<close>

definition set_style_part ::
    "(nat \<Rightarrow> bool) \<Rightarrow> pref option \<Rightarrow> string \<Rightarrow> string list \<Rightarrow> (int \<Rightarrow> look \<Rightarrow> int \<times> look) \<Rightarrow> int
     \<Rightarrow> int \<times> look \<times> sched \<times> registry \<Rightarrow> int \<times> look \<times> sched \<times> registry" where
  "set_style_part km cur key names setter arg st =
     (case st of (rc, k, sr) \<Rightarrow>
        if arg < 0 then st
        else
          let (r, k') = setter arg k; rc1 = rc OR r in
          if r = 0 \<and> arg < int (length names)
          then case registry_set km cur (Some key) (Some (names ! nat arg)) 0 sr of
                 (ret, sr') \<Rightarrow> (if ret \<noteq> 0 then rc1 OR (- EIO) else rc1, k', sr')
          else (rc1, k', sr))"

definition sys_set_style ::
    "(nat \<Rightarrow> bool) \<Rightarrow> pref option \<Rightarrow> int \<Rightarrow> int \<Rightarrow> int \<Rightarrow> look \<times> sched \<times> registry
     \<Rightarrow> int \<times> look \<times> sched \<times> registry" where
  "sys_set_style km cur arg0 arg1 arg2 st =
     (case st of (k, sr) \<Rightarrow>
        if \<not> proc_has_cap (the_proc (fst sr) cur) CAP_WINDOW then (- EPERM, k, sr)
        else set_style_part km cur ''background.name'' os1_bg_names compositor_set_background arg2
              (set_style_part km cur ''theme.color'' os1_theme_names compositor_set_theme arg1
                (set_style_part km cur ''style.name'' os1_style_names compositor_set_style arg0 (0, k, sr))))"

end
