(* ===== verification/Registry_Tree.thy ===== *)
theory Registry_Tree
  imports Registry
begin

text \<open>
  The tree of the registry as a map from paths to values: the binary search on sorted names, what
  looking up, creating, updating and pruning a path does to the map, and that pruning leaves no
  directory without content.
\<close>

section \<open>The order of names and the binary search\<close>

definition is_cstr :: "string \<Rightarrow> bool" where
  "is_cstr xs \<longleftrightarrow> CHR 0x00 \<notin> set xs"

lemma is_cstr_simps [simp]: "is_cstr []" "is_cstr (c # cs) \<longleftrightarrow> c \<noteq> CHR 0x00 \<and> is_cstr cs"
  by (auto simp: is_cstr_def)

lemma int_of_char: "(of_char c :: int) = int (of_char c)"
  by (rule of_nat_of_char [symmetric])

lemma of_char_int_less: "(of_char a :: int) < of_char b \<longleftrightarrow> a < b"
  unfolding int_of_char less_char_def by simp

lemma of_char_nonneg: "0 \<le> (of_char c :: int)"
  unfolding int_of_char by simp

lemma of_char_pos: "c \<noteq> CHR 0x00 \<Longrightarrow> 0 < (of_char c :: int)"
proof -
  assume "c \<noteq> CHR 0x00"
  then have "(of_char c :: nat) \<noteq> of_char (CHR 0x00)" by (simp only: of_char_eq_iff not_False_eq_True)
  then show ?thesis unfolding int_of_char by simp
qed

lemma str_cmp_sign:
  "is_cstr xs \<Longrightarrow> is_cstr ys \<Longrightarrow>
   (str_cmp xs ys = 0 \<longleftrightarrow> xs = ys) \<and> (str_cmp xs ys < 0 \<longleftrightarrow> xs < ys)"
proof (induction xs ys rule: str_cmp.induct)
  case (2 b bs)
  then show ?case using of_char_pos [of b] by auto
next
  case (3 a as)
  then show ?case using of_char_pos [of a] by auto
next
  case (4 a as b bs)
  then show ?case using of_char_int_less [of a b] of_char_int_less [of b a]
    by (auto simp: algebra_simps)
qed simp

lemma search_children_correct:
  assumes "sorted_wrt (<) (map rn_name cs)" and "\<forall>c \<in> set cs. is_cstr (rn_name c)" and "is_cstr seg"
    and "0 \<le> lo" and "hi < int (length cs)"
    and "\<forall>j < length cs. int j < lo \<longrightarrow> rn_name (cs ! j) < seg"
    and "\<forall>j < length cs. int j > hi \<longrightarrow> seg < rn_name (cs ! j)"
    and "lo \<le> hi + 1"
  shows "case search_children cs seg lo hi of
           Inl k \<Rightarrow> k < length cs \<and> rn_name (cs ! k) = seg
         | Inr l \<Rightarrow> 0 \<le> l \<and> l \<le> int (length cs) \<and> (\<forall>j < length cs. int j < l \<longrightarrow> rn_name (cs ! j) < seg)
                    \<and> (\<forall>j < length cs. int j \<ge> l \<longrightarrow> seg < rn_name (cs ! j))"
  using assms
proof (induction cs seg lo hi rule: search_children.induct)
  case (1 cs seg lo hi)
  show ?case
  proof (cases "lo \<le> hi")
    case False
    then show ?thesis using 1(3-) by (subst search_children.simps) auto
  next
    case True
    define mid where "mid = lo + (hi - lo) div 2"
    have mid: "lo \<le> mid" "mid \<le> hi" "nat mid < length cs" "0 \<le> mid"
      using True "1.prems"(4,5) by (auto simp: mid_def)
    have cmp: "(str_cmp (rn_name (cs ! nat mid)) seg = 0 \<longleftrightarrow> rn_name (cs ! nat mid) = seg)"
      "(str_cmp (rn_name (cs ! nat mid)) seg < 0 \<longleftrightarrow> rn_name (cs ! nat mid) < seg)"
      using str_cmp_sign "1.prems"(2,3) mid(3) by auto
    have srt: "j < nat mid \<Longrightarrow> rn_name (cs ! j) < rn_name (cs ! nat mid)"
      "nat mid < j \<Longrightarrow> j < length cs \<Longrightarrow> rn_name (cs ! nat mid) < rn_name (cs ! j)" for j
      using "1.prems"(1) mid(3) by (auto simp: sorted_wrt_iff_nth_less)
    consider (eq) "str_cmp (rn_name (cs ! nat mid)) seg = 0"
      | (lt) "str_cmp (rn_name (cs ! nat mid)) seg < 0"
      | (gt) "str_cmp (rn_name (cs ! nat mid)) seg > 0" by linarith
    then show ?thesis
    proof cases
      case eq
      then show ?thesis using True mid cmp by (subst search_children.simps) (simp add: mid_def)
    next
      case lt
      then have "search_children cs seg lo hi = search_children cs seg (mid + 1) hi"
        using True by (subst search_children.simps) (simp add: mid_def)
      moreover have "\<forall>j < length cs. int j < mid + 1 \<longrightarrow> rn_name (cs ! j) < seg"
      proof (intro allI impI)
        fix j assume j: "j < length cs" "int j < mid + 1"
        then consider "j = nat mid" | "j < nat mid" using mid(4) by linarith
        then show "rn_name (cs ! j) < seg" using srt(1) [of j] cmp(2) lt by cases auto
      qed
      ultimately show ?thesis
        using 1(1)[OF True mid_def refl] lt "1.prems" mid by simp
    next
      case gt
      then have "search_children cs seg lo hi = search_children cs seg lo (mid - 1)"
        using True by (subst search_children.simps) (simp add: mid_def)
      moreover have "seg < rn_name (cs ! nat mid)" using gt cmp by (cases seg "rn_name (cs ! nat mid)" rule: linorder_cases) auto
      moreover have "\<forall>j < length cs. int j > mid - 1 \<longrightarrow> seg < rn_name (cs ! j)"
        if "seg < rn_name (cs ! nat mid)"
      proof (intro allI impI)
        fix j assume j: "j < length cs" "int j > mid - 1"
        then consider "j = nat mid" | "nat mid < j" using mid(4) by linarith
        then show "seg < rn_name (cs ! j)" using srt(2) [of j] that j by cases auto
      qed
      ultimately show ?thesis
        using 1(2)[OF True mid_def refl] gt "1.prems" mid by simp
    qed
  qed
qed


section \<open>Well-formed trees and the map they stand for\<close>

definition seg_ok :: "string \<Rightarrow> bool" where
  "seg_ok nm \<longleftrightarrow> nm \<noteq> [] \<and> is_cstr nm \<and> CHR ''.'' \<notin> set nm \<and> length nm < MAX_KEY_LEN"

definition kids_wf :: "reg_node \<Rightarrow> bool" where
  "kids_wf n \<longleftrightarrow> sorted_wrt (<) (map rn_name (rn_children n)) \<and> (\<forall>c \<in> set (rn_children n). seg_ok (rn_name c))
     \<and> length (rn_children n) \<le> cap_children n"

fun node_wf :: "reg_node \<Rightarrow> bool" where
  "node_wf (Reg_Node a nm v ow l c cs) \<longleftrightarrow>
     kids_wf (Reg_Node a nm v ow l c cs) \<and> (\<forall>ch \<in> set cs. node_wf ch)"

lemma node_wf_iff: "node_wf n \<longleftrightarrow> kids_wf n \<and> (\<forall>ch \<in> set (rn_children n). node_wf ch)"
  by (cases n) simp

definition child :: "reg_node \<Rightarrow> string \<Rightarrow> reg_node option" where
  "child n seg = find (\<lambda>c. rn_name c = seg) (rn_children n)"

fun reg_find :: "reg_node \<Rightarrow> string list \<Rightarrow> reg_node option" where
  "reg_find n [] = Some n"
| "reg_find n (seg # segs) = (case child n seg of None \<Rightarrow> None | Some c \<Rightarrow> reg_find c segs)"

text \<open>The abstract registry: the keys that carry a value, with the value and its owner.\<close>

definition leaf_of :: "reg_node \<Rightarrow> (string \<times> int) option" where
  "leaf_of n = (if is_leaf n then Some (rn_value n, rn_owner n) else None)"

definition reg_map :: "reg_node \<Rightarrow> string list \<Rightarrow> (string \<times> int) option" where
  "reg_map n segs = Option.bind (reg_find n segs) leaf_of"

lemma reg_map_Nil [simp]: "reg_map n [] = leaf_of n"
  by (simp add: reg_map_def)

lemma reg_map_Cons [simp]:
  "reg_map n (seg # segs) = (case child n seg of None \<Rightarrow> None | Some c \<Rightarrow> reg_map c segs)"
  by (simp add: reg_map_def split: option.split)

lemma set_children_sel [simp]:
  "rn_addr (set_children n cs) = rn_addr n" "rn_name (set_children n cs) = rn_name n"
  "rn_value (set_children n cs) = rn_value n" "rn_owner (set_children n cs) = rn_owner n"
  "is_leaf (set_children n cs) = is_leaf n" "cap_children (set_children n cs) = cap_children n"
  "rn_children (set_children n cs) = cs"
  by (cases n; simp)+

lemma set_cap_sel [simp]:
  "rn_addr (set_cap n c) = rn_addr n" "rn_name (set_cap n c) = rn_name n"
  "rn_value (set_cap n c) = rn_value n" "rn_owner (set_cap n c) = rn_owner n"
  "is_leaf (set_cap n c) = is_leaf n" "cap_children (set_cap n c) = c"
  "rn_children (set_cap n c) = rn_children n"
  by (cases n; simp)+

lemma leaf_of_cong:
  "is_leaf m = is_leaf n \<Longrightarrow> rn_value m = rn_value n \<Longrightarrow> rn_owner m = rn_owner n \<Longrightarrow> leaf_of m = leaf_of n"
  by (simp add: leaf_of_def)

lemma find_nth_distinct:
  assumes "distinct (map f xs)" and "k < length xs"
  shows "find (\<lambda>x. f x = f (xs ! k)) xs = Some (xs ! k)"
  using assms
proof (induction xs arbitrary: k)
  case (Cons x xs)
  then show ?case by (cases k) auto
qed simp

lemma kids_distinct: "kids_wf n \<Longrightarrow> distinct (map rn_name (rn_children n))"
  by (simp add: kids_wf_def strict_sorted_iff)

lemma child_nth:
  "kids_wf n \<Longrightarrow> k < length (rn_children n) \<Longrightarrow> child n (rn_name (rn_children n ! k)) = Some (rn_children n ! k)"
  unfolding child_def by (intro find_nth_distinct kids_distinct)

lemma child_SomeE:
  assumes "child n seg = Some c"
  obtains k where "k < length (rn_children n)" "rn_children n ! k = c" "rn_name c = seg"
  using assms unfolding child_def by (auto simp: find_Some_iff)

lemma child_None_iff: "child n seg = None \<longleftrightarrow> seg \<notin> set (map rn_name (rn_children n))"
  by (auto simp: child_def find_None_iff)

lemma child_mem: "child n seg = Some c \<Longrightarrow> c \<in> set (rn_children n) \<and> rn_name c = seg"
  by (auto elim!: child_SomeE)

lemma child_wf: "node_wf n \<Longrightarrow> child n seg = Some c \<Longrightarrow> node_wf c"
  using child_mem [of n seg c] node_wf_iff by blast

lemma child_replace:
  assumes "kids_wf n" and "k < length (rn_children n)" and "rn_name c = rn_name (rn_children n ! k)"
  shows "child (set_children n ((rn_children n)[k := c])) seg
           = (if seg = rn_name c then Some c else child n seg)"
proof -
  have "find (\<lambda>x. rn_name x = seg) (xs[k := c]) = (if seg = rn_name c then Some c else find (\<lambda>x. rn_name x = seg) xs)"
    if "distinct (map rn_name xs)" "k < length xs" "rn_name c = rn_name (xs ! k)" for xs
    using that
  proof (induction xs arbitrary: k)
    case (Cons x xs)
    have "j < length xs \<Longrightarrow> rn_name (xs ! j) \<in> rn_name ` set xs" for j by simp
    with Cons show ?case by (cases k) fastforce+
  qed simp
  then show ?thesis using assms kids_distinct unfolding child_def by simp
qed

lemma names_replace:
  "k < length cs \<Longrightarrow> rn_name c = rn_name (cs ! k) \<Longrightarrow> map rn_name (cs[k := c]) = map rn_name cs"
  by (simp add: map_update list_update_same_conv)

lemma kids_wf_replace:
  "kids_wf n \<Longrightarrow> k < length (rn_children n) \<Longrightarrow> rn_name c = rn_name (rn_children n ! k) \<Longrightarrow>
   kids_wf (set_children n ((rn_children n)[k := c]))"
  by (auto simp: kids_wf_def names_replace dest!: set_update_subset_insert [THEN subsetD])

lemma node_wf_replace:
  "node_wf n \<Longrightarrow> k < length (rn_children n) \<Longrightarrow> rn_name c = rn_name (rn_children n ! k) \<Longrightarrow> node_wf c \<Longrightarrow>
   node_wf (set_children n ((rn_children n)[k := c]))"
  using kids_wf_replace [of n k c] unfolding node_wf_iff [of n] node_wf_iff [of "set_children _ _"]
  by (auto dest!: set_update_subset_insert [THEN subsetD])

lemma search_result:
  assumes "kids_wf n" and "is_cstr seg"
  shows "case search_children (rn_children n) seg 0 (n_children n - 1) of
           Inl k \<Rightarrow> k < length (rn_children n) \<and> rn_name (rn_children n ! k) = seg
         | Inr l \<Rightarrow> 0 \<le> l \<and> l \<le> n_children n \<and> (\<forall>j < length (rn_children n). int j < l \<longrightarrow> rn_name (rn_children n ! j) < seg)
                    \<and> (\<forall>j < length (rn_children n). int j \<ge> l \<longrightarrow> seg < rn_name (rn_children n ! j))"
  using assms by (intro search_children_correct) (auto simp: kids_wf_def seg_ok_def)

lemma node_find_child_correct:
  assumes "kids_wf n" and "is_cstr seg"
  shows "case node_find_child n seg of
           Some k \<Rightarrow> k < length (rn_children n) \<and> rn_name (rn_children n ! k) = seg
         | None \<Rightarrow> child n seg = None"
proof (cases "search_children (rn_children n) seg 0 (n_children n - 1)")
  case (Inl k)
  then show ?thesis using search_result [OF assms] by (simp add: node_find_child_def)
next
  case (Inr l)
  then have side: "\<forall>j < length (rn_children n). int j < l \<longrightarrow> rn_name (rn_children n ! j) < seg"
    "\<forall>j < length (rn_children n). int j \<ge> l \<longrightarrow> seg < rn_name (rn_children n ! j)"
    using search_result [OF assms] by simp_all
  have "rn_name (rn_children n ! j) \<noteq> seg" if "j < length (rn_children n)" for j
    using side [rule_format, OF that] by (cases "int j < l") force+
  then have "child n seg = None" unfolding child_None_iff in_set_conv_nth by (metis length_map nth_map)
  then show ?thesis using Inr by (simp add: node_find_child_def)
qed


lemma kids_wf_insert:
  assumes "kids_wf n" and "seg_ok (rn_name c)" and "l \<le> length (rn_children n)"
    and "\<forall>j < l. rn_name (rn_children n ! j) < rn_name c"
    and "\<forall>j < length (rn_children n). l \<le> j \<longrightarrow> rn_name c < rn_name (rn_children n ! j)"
    and "length (rn_children n) < cap_children n"
  shows "kids_wf (insert_child n l c)"
proof -
  have low: "\<forall>x \<in> set (take l (rn_children n)). rn_name x < rn_name c"
    using assms(3,4) by (auto simp: in_set_conv_nth)
  have high: "\<forall>x \<in> set (drop l (rn_children n)). rn_name c < rn_name x"
    using assms(3,5) by (auto simp: in_set_conv_nth)
  have "sorted_wrt (<) (map rn_name (take l (rn_children n) @ drop l (rn_children n)))"
    using assms(1) by (simp only: append_take_drop_id kids_wf_def)
  then have "sorted_wrt (<) (map rn_name (take l (rn_children n) @ c # drop l (rn_children n)))"
    using low high by (simp only: map_append list.map sorted_wrt_append) (auto intro: less_trans)
  then show ?thesis
    using assms(1,2,6) unfolding insert_child_def kids_wf_def
    by (auto dest: in_set_takeD in_set_dropD)
qed

lemma find_insert_distinct:
  assumes "f c \<notin> f ` set xs"
  shows "find (\<lambda>x. f x = s) (take l xs @ c # drop l xs) = (if s = f c then Some c else find (\<lambda>x. f x = s) xs)"
proof -
  have "find (\<lambda>x. f x = f c) (take l xs) = None"
    using assms unfolding find_None_iff by (metis image_eqI in_set_takeD)
  moreover have "find (\<lambda>x. f x = s) (take l xs @ drop l xs) = find (\<lambda>x. f x = s) xs" by simp
  ultimately show ?thesis by (auto simp: find_append simp del: append_take_drop_id split: option.splits)
qed

lemma child_insert:
  "rn_name c \<notin> set (map rn_name (rn_children n)) \<Longrightarrow>
   child (insert_child n l c) seg = (if seg = rn_name c then Some c else child n seg)"
  unfolding child_def insert_child_def by (simp add: find_insert_distinct)

text \<open>A node that changes only in its children.\<close>

definition same_head :: "reg_node \<Rightarrow> reg_node \<Rightarrow> bool" where
  "same_head m n \<longleftrightarrow> rn_addr m = rn_addr n \<and> rn_name m = rn_name n \<and> rn_value m = rn_value n
     \<and> rn_owner m = rn_owner n \<and> is_leaf m = is_leaf n"

lemma same_head_refl [simp]: "same_head n n"
  by (simp add: same_head_def)

lemma same_head_trans: "same_head a b \<Longrightarrow> same_head b c \<Longrightarrow> same_head a c"
  by (simp add: same_head_def)

lemma same_head_set [simp]: "same_head (set_children n cs) n" "same_head (set_cap n c) n"
  "same_head (insert_child n l c') n"
  by (simp_all add: same_head_def insert_child_def)

lemma same_head_leaf: "same_head m n \<Longrightarrow> leaf_of m = leaf_of n"
  by (simp add: same_head_def leaf_of_def)

lemma grow_children_props:
  assumes "grow_children km i p = (ok, p', i')"
  shows "same_head p' p" "rn_children p' = rn_children p"
    "kids_wf p \<Longrightarrow> kids_wf p'" "kids_wf p \<Longrightarrow> ok \<Longrightarrow> length (rn_children p') < cap_children p'"
  using assms by (auto simp: grow_children_def Let_def kids_wf_def split: if_splits)

definition fresh_node :: "nat \<Rightarrow> string \<Rightarrow> reg_node" where
  "fresh_node i seg = Reg_Node (Suc i) (str_trunc MAX_KEY_LEN seg) [] 0 False 0 []"

lemma seg_ok_trunc: "seg_ok seg \<Longrightarrow> str_trunc MAX_KEY_LEN seg = seg"
  by (simp add: seg_ok_def str_trunc_def MAX_KEY_LEN_def)

lemma fresh_node_props:
  "seg_ok seg \<Longrightarrow> rn_name (fresh_node i seg) = seg" "node_wf (fresh_node i seg)" "\<not> is_leaf (fresh_node i seg)"
  "rn_children (fresh_node i seg) = []" "reg_map (fresh_node i seg) q = None"
  by (auto simp: fresh_node_def kids_wf_def seg_ok_trunc leaf_of_def child_def reg_map_def split: option.splits;
      cases q; auto simp: leaf_of_def child_def)+

lemma node_get_or_add_correct:
  assumes "node_wf n" and "seg_ok seg" and "node_get_or_add km i n seg = (res, n', i')"
  shows "same_head n' n \<and> node_wf n' \<and>
     (case res of
        None \<Rightarrow> rn_children n' = rn_children n
      | Some k \<Rightarrow> k < length (rn_children n') \<and> rn_name (rn_children n' ! k) = seg \<and>
          (n' = n \<or> (\<exists>j. child n seg = None \<and> rn_children n' ! k = fresh_node j seg
                      \<and> (\<forall>s. s \<noteq> seg \<longrightarrow> child n' s = child n s))))"
proof (cases "search_children (rn_children n) seg 0 (n_children n - 1)")
  case (Inl k)
  show ?thesis
  proof -
    have "res = Some k" "n' = n" using assms(3) Inl by (simp_all add: node_get_or_add_def)
    moreover have "kids_wf n" "is_cstr seg" using assms(1,2) by (simp_all add: node_wf_iff [of n] seg_ok_def)
    then have "k < length (rn_children n) \<and> rn_name (rn_children n ! k) = seg"
      using search_result [of n seg] Inl by simp
    ultimately show ?thesis using assms(1) by simp
  qed
next
  case (Inr l)
  have kw: "kids_wf n" "is_cstr seg" using assms(1,2) by (simp_all add: node_wf_iff [of n] seg_ok_def)
  have side: "0 \<le> l" "l \<le> n_children n" "\<forall>j < length (rn_children n). int j < l \<longrightarrow> rn_name (rn_children n ! j) < seg"
    "\<forall>j < length (rn_children n). int j \<ge> l \<longrightarrow> seg < rn_name (rn_children n ! j)"
    using search_result [OF kw] Inr by simp_all
  have none: "child n seg = None"
    using node_find_child_correct [OF kw] Inr by (simp add: node_find_child_def)
  obtain ok p1 i1 where g: "grow_children km i n = (ok, p1, i1)" by (metis prod_cases3)
  note gp = grow_children_props [OF g]
  have wf1: "node_wf p1" using gp(2,3) assms(1) unfolding node_wf_iff [of n] node_wf_iff [of p1] by simp
  show ?thesis
  proof (cases "ok \<and> km i1")
    case False
    then have "res = None" "n' = p1"
      using assms(3) Inr g by (auto simp: node_get_or_add_def node_alloc_def split: bool.splits)
    then show ?thesis using gp wf1 by simp
  next
    case True
    define c where "c = fresh_node i1 seg"
    have res: "res = Some (nat l)" "n' = insert_child p1 (nat l) c"
      using assms(3) Inr g True by (auto simp: node_get_or_add_def node_alloc_def c_def fresh_node_def)
    have nm: "rn_name c = seg" "node_wf c" using assms(2) by (simp_all add: c_def fresh_node_props)
    have kl: "nat l \<le> length (rn_children p1)" using side(1,2) gp(2) by simp
    have "kids_wf (insert_child p1 (nat l) c)"
    proof (rule kids_wf_insert)
      show "\<forall>j<nat l. rn_name (rn_children p1 ! j) < rn_name c"
        using side(1-3) by (auto simp: nm gp(2))
      show "\<forall>j<length (rn_children p1). nat l \<le> j \<longrightarrow> rn_name c < rn_name (rn_children p1 ! j)"
        using side(1,4) by (auto simp: nm gp(2))
    qed (use gp True assms kl kw nm in auto)
    moreover have "\<forall>ch \<in> set (rn_children (insert_child p1 (nat l) c)). node_wf ch"
      using wf1 nm(2) by (auto simp: insert_child_def node_wf_iff [of p1] dest: in_set_takeD in_set_dropD)
    ultimately have "node_wf n'" unfolding res node_wf_iff [of "insert_child _ _ _"] by blast
    moreover have "same_head n' n" using same_head_trans [OF same_head_set(3) gp(1)] res by simp
    moreover have "child n' s = child n s" if "s \<noteq> seg" for s
      using child_insert [of c p1 "nat l" s] none that gp(2) by (simp add: res nm child_None_iff) (simp add: child_def gp(2))
    ultimately show ?thesis
      using res kl nm none by (auto simp: insert_child_def nth_append c_def)
  qed
qed

section \<open>Segments of a key\<close>

lemma dropWhile_cstr: "is_cstr xs \<Longrightarrow> is_cstr (tl (dropWhile P xs))"
  unfolding is_cstr_def by (metis list.sel(2) list.set_sel(2) set_dropWhileD)

lemma key_segments_ok: "is_cstr key \<Longrightarrow> \<forall>seg \<in> set (key_segments key). seg_ok seg"
proof (induction key rule: key_segments.induct)
  case (1 p)
  let ?seg = "take (MAX_KEY_LEN - 1) (takeWhile (\<lambda>c. c \<noteq> CHR ''.'') p)"
  let ?p = "tl (dropWhile (\<lambda>c. c \<noteq> CHR ''.'') p)"
  show ?case
  proof (cases "p = []")
    case False
    have "is_cstr ?seg" "CHR ''.'' \<notin> set ?seg"
      using 1(3) by (auto simp: is_cstr_def dest: in_set_takeD set_takeWhileD)
    then have "?seg \<noteq> [] \<Longrightarrow> seg_ok ?seg" by (simp add: seg_ok_def MAX_KEY_LEN_def)
    moreover have "\<forall>seg \<in> set (key_segments ?p). seg_ok seg"
      using 1(1,2) [OF False refl refl] dropWhile_cstr [OF 1(3)] by (cases "?seg = []") auto
    ultimately show ?thesis using False by (subst key_segments.simps) (auto simp: Let_def)
  qed (simp add: key_segments.simps)
qed

lemma key_segments_Nil_iff: "key_segments key = [] \<longleftrightarrow> \<not> key_has_segment key"
proof (induction key rule: key_has_segment.induct)
  case (2 c cs)
  then show ?case
    by (subst key_segments.simps) (auto simp: Let_def MAX_KEY_LEN_def)
qed (simp add: key_segments.simps)

section \<open>Positions and paths\<close>

fun addresses :: "reg_node \<Rightarrow> nat list \<Rightarrow> string list \<Rightarrow> bool" where
  "addresses n [] segs \<longleftrightarrow> segs = []"
| "addresses n (k # ks) [] \<longleftrightarrow> False"
| "addresses n (k # ks) (seg # segs) \<longleftrightarrow> k < length (rn_children n) \<and> rn_name (rn_children n ! k) = seg
     \<and> addresses (rn_children n ! k) ks segs"

lemma nth_child_wf: "node_wf n \<Longrightarrow> k < length (rn_children n) \<Longrightarrow> node_wf (rn_children n ! k)"
  using node_wf_iff [of n] nth_mem [of k "rn_children n"] by blast

lemma child_at:
  "node_wf n \<Longrightarrow> k < length (rn_children n) \<Longrightarrow> rn_name (rn_children n ! k) = seg \<Longrightarrow>
   child n seg = Some (rn_children n ! k)"
  using child_nth [of n k] node_wf_iff [of n] by simp

lemma addresses_find:
  "node_wf n \<Longrightarrow> addresses n path segs \<Longrightarrow> reg_find n segs = Some (node_at n path)"
proof (induction n path segs rule: addresses.induct)
  case (3 n k ks seg segs)
  then show ?case using child_at [of n k seg] nth_child_wf [of n k] by simp
qed auto

lemma walk_find:
  assumes "node_wf n" and "\<forall>seg \<in> set segs. seg_ok seg" and "walk_loop km False i n segs = (res, n', i')"
  shows "n' = n \<and> (case res of None \<Rightarrow> reg_find n segs = None | Some path \<Rightarrow> addresses n path segs)"
  using assms
proof (induction segs arbitrary: n res n' i')
  case (Cons seg segs)
  have f: "case node_find_child n seg of
      Some k \<Rightarrow> k < length (rn_children n) \<and> rn_name (rn_children n ! k) = seg | None \<Rightarrow> child n seg = None"
    using Cons.prems(1,2) by (intro node_find_child_correct) (simp_all add: node_wf_iff [of n] seg_ok_def)
  show ?case
  proof (cases "node_find_child n seg")
    case None
    then show ?thesis using Cons.prems(3) f by auto
  next
    case (Some k)
    obtain r c i2 where w: "walk_loop km False i (rn_children n ! k) segs = (r, c, i2)" by (metis prod_cases3)
    have k: "k < length (rn_children n)" "rn_name (rn_children n ! k) = seg" using f Some by auto
    have "c = rn_children n ! k \<and>
      (case r of None \<Rightarrow> reg_find (rn_children n ! k) segs = None | Some path \<Rightarrow> addresses (rn_children n ! k) path segs)"
      using Cons.IH [OF nth_child_wf [OF Cons.prems(1) k(1)] _ w] Cons.prems(2) by simp
    moreover have "set_children n (rn_children n) = n" by (cases n) simp
    ultimately show ?thesis
      using Cons.prems(1,3) Some w k child_at [OF Cons.prems(1) k] by (auto split: option.splits)
  qed
qed auto

lemma reg_map_head: "same_head m n \<Longrightarrow> child m = child n \<Longrightarrow> reg_map m = reg_map n"
  using same_head_leaf [of m n] by (intro ext, case_tac x) simp_all

lemma walk_create:
  assumes "node_wf n" and "\<forall>seg \<in> set segs. seg_ok seg" and "walk_loop km True i n segs = (res, n', i')"
  shows "same_head n' n \<and> node_wf n' \<and> reg_map n' = reg_map n
    \<and> (case res of None \<Rightarrow> True | Some path \<Rightarrow> addresses n' path segs)"
  using assms
proof (induction segs arbitrary: n i res n' i')
  case (Cons seg segs)
  obtain r1 n1 i1 where g: "node_get_or_add km i n seg = (r1, n1, i1)" by (metis prod_cases3)
  have seg: "seg_ok seg" using Cons.prems(2) by simp
  note ga = node_get_or_add_correct [OF Cons.prems(1) seg g]
  show ?case
  proof (cases r1)
    case None
    then have "child n1 = child n" using ga by (auto simp: child_def)
    then show ?thesis using None g Cons.prems(3) ga reg_map_head [of n1 n] by simp
  next
    case (Some k)
    obtain r c i2 where w: "walk_loop km True i1 (rn_children n1 ! k) segs = (r, c, i2)" by (metis prod_cases3)
    have k: "k < length (rn_children n1)" "rn_name (rn_children n1 ! k) = seg" "node_wf n1" "same_head n1 n"
      using ga Some by auto
    have c: "same_head c (rn_children n1 ! k)" "node_wf c" "reg_map c = reg_map (rn_children n1 ! k)"
      "case r of None \<Rightarrow> True | Some path \<Rightarrow> addresses c path segs"
      using Cons.IH [OF nth_child_wf [OF k(3,1)] _ w] Cons.prems(2) by simp_all
    have out: "n' = set_children n1 ((rn_children n1)[k := c])" "res = map_option (Cons k) r"
      using Cons.prems(3) g w Some by simp_all
    have nm: "rn_name c = rn_name (rn_children n1 ! k)" using c(1) by (simp add: same_head_def)
    have "node_wf n'" unfolding out using k(1,3) nm c(2) by (intro node_wf_replace)
    moreover have "same_head n' n" unfolding out by (rule same_head_trans [OF same_head_set(1) k(4)])
    moreover have ch: "child n' s = (if s = seg then Some c else child n1 s)" for s
      unfolding out using child_replace [of n1 k c s] k nm node_wf_iff [of n1] by simp
    have "reg_map n' q = reg_map n q" for q
    proof (cases q)
      case Nil
      then show ?thesis using same_head_leaf [of n' n] same_head_trans [OF same_head_set(1) k(4)] out by simp
    next
      case (Cons s ss)
      show ?thesis
      proof (cases "n1 = n")
        case True
        then show ?thesis using Cons ch c(3) child_at [OF k(3,1,2)] by simp
      next
        case False
        then obtain j where j: "child n seg = None" "rn_children n1 ! k = fresh_node j seg"
          "\<forall>s. s \<noteq> seg \<longrightarrow> child n1 s = child n s" using ga Some by auto
        then show ?thesis using Cons ch c(3) by (simp add: fresh_node_props)
      qed
    qed
    ultimately show ?thesis using out k(1) nm k(2) c(4) by (auto split: option.splits)
  qed
qed auto

lemma update_at_general:
  assumes "node_wf n" and "addresses n path segs"
    and "rn_name (f (node_at n path)) = rn_name (node_at n path)" and "node_wf (f (node_at n path))"
  shows "node_wf (update_at n path f) \<and> rn_name (update_at n path f) = rn_name n
    \<and> addresses (update_at n path f) path segs \<and> node_at (update_at n path f) path = f (node_at n path)
    \<and> (\<forall>r. reg_map (update_at n path f) (segs @ r) = reg_map (f (node_at n path)) r)
    \<and> (\<forall>q. (\<forall>r. q \<noteq> segs @ r) \<longrightarrow> reg_map (update_at n path f) q = reg_map n q)"
  using assms
proof (induction n path segs rule: addresses.induct)
  case (3 n k ks seg segs)
  have k: "k < length (rn_children n)" "rn_name (rn_children n ! k) = seg" "addresses (rn_children n ! k) ks segs"
    using 3(3) by simp_all
  define c where "c = update_at (rn_children n ! k) ks f"
  have IH: "node_wf c" "rn_name c = rn_name (rn_children n ! k)" "addresses c ks segs"
    "node_at c ks = f (node_at (rn_children n ! k) ks)"
    "\<And>r. reg_map c (segs @ r) = reg_map (f (node_at (rn_children n ! k) ks)) r"
    "\<And>q. \<forall>r. q \<noteq> segs @ r \<Longrightarrow> reg_map c q = reg_map (rn_children n ! k) q"
    using 3(1) [OF nth_child_wf [OF 3(2) k(1)] k(3)] 3(4,5) by (simp_all add: c_def)
  have u: "update_at n (k # ks) f = set_children n ((rn_children n)[k := c])" by (simp add: c_def)
  have ch: "child (update_at n (k # ks) f) s = (if s = seg then Some c else child n s)" for s
    unfolding u using child_replace [of n k c s] k IH(2) 3(2) node_wf_iff [of n] by simp
  have "reg_map (update_at n (k # ks) f) q = reg_map n q" if q: "\<forall>r. q \<noteq> (seg # segs) @ r" for q
  proof (cases q)
    case Nil
    then show ?thesis by (simp add: leaf_of_def)
  next
    case (Cons s ss)
    then show ?thesis using ch IH(6) [of ss] q child_at [OF 3(2) k(1,2)] by (simp del: update_at.simps)
  qed
  moreover have "node_wf (update_at n (k # ks) f)" unfolding u using 3(2) k(1) IH(1,2) by (intro node_wf_replace)
  moreover have "reg_map (update_at n (k # ks) f) ((seg # segs) @ r) = reg_map (f (node_at n (k # ks))) r" for r
    using ch IH(5) by (simp del: update_at.simps)
  ultimately show ?case using IH(3,4) k(1,2) IH(2) by (simp del: update_at.simps) (simp add: c_def [symmetric])
qed auto

lemma below_path:
  "node_wf n \<Longrightarrow> addresses n path segs \<Longrightarrow> reg_map n (segs @ r) = reg_map (node_at n path) r"
  by (induction n path segs rule: addresses.induct) (auto simp: child_at nth_child_wf)

lemma update_at_cong: "f (node_at n path) = g (node_at n path) \<Longrightarrow> update_at n path f = update_at n path g"
  by (induction n path rule: node_at.induct) auto

text \<open>Changing the value, owner or leaf mark of one node changes one key.\<close>

lemma update_at_correct:
  assumes "node_wf n" and "addresses n path segs"
    and "\<And>m. rn_name (f m) = rn_name m" and "\<And>m. rn_children (f m) = rn_children m"
    and "\<And>m. cap_children (f m) = cap_children m"
  shows "node_wf (update_at n path f)" "addresses (update_at n path f) path segs"
    "node_at (update_at n path f) path = f (node_at n path)"
    "reg_map (update_at n path f) = (reg_map n)(segs := leaf_of (f (node_at n path)))"
proof -
  have ch: "child (f m) = child m" for m by (rule ext) (simp add: child_def assms(4))
  have "kids_wf (f m) = kids_wf m" for m by (simp add: kids_wf_def assms(4,5))
  moreover have "node_wf (node_at n path)" using assms(1,2)
    by (induction n path segs rule: addresses.induct) (auto dest: nth_child_wf)
  ultimately have wf: "node_wf (f (node_at n path))"
    unfolding node_wf_iff [of "f _"] node_wf_iff [of "node_at n path"] by (simp add: assms(4))
  note g = update_at_general [where f = f, OF assms(1,2) assms(3) wf]
  then show "node_wf (update_at n path f)" "addresses (update_at n path f) path segs"
    "node_at (update_at n path f) path = f (node_at n path)" by simp_all
  note below = below_path [OF assms(1,2)]
  show "reg_map (update_at n path f) = (reg_map n)(segs := leaf_of (f (node_at n path)))"
  proof
    fix q
    show "reg_map (update_at n path f) q = ((reg_map n)(segs := leaf_of (f (node_at n path)))) q"
    proof (cases "\<exists>r. q = segs @ r")
      case True
      then obtain r where r: "q = segs @ r" by blast
      have "reg_map (f (node_at n path)) r = (if r = [] then leaf_of (f (node_at n path)) else reg_map (node_at n path) r)"
        by (cases r) (simp_all add: ch)
      then show ?thesis using g below r by simp
    next
      case False
      then have "q \<noteq> segs" by (metis append_Nil2)
      then show ?thesis using g False by simp
    qed
  qed
qed

section \<open>Directories without content\<close>

text \<open>A tree is tidy when every node below the root carries a value or has children.\<close>

definition alive :: "reg_node \<Rightarrow> bool" where
  "alive n \<longleftrightarrow> is_leaf n \<or> rn_children n \<noteq> []"

fun tidy :: "reg_node \<Rightarrow> bool" where
  "tidy (Reg_Node a nm v ow l c cs) \<longleftrightarrow> (\<forall>ch \<in> set cs. alive ch \<and> tidy ch)"

lemma tidy_iff: "tidy n \<longleftrightarrow> (\<forall>ch \<in> set (rn_children n). alive ch \<and> tidy ch)"
  by (cases n) simp

text \<open>Tidy except for the nodes on one path.\<close>

fun tidy_but :: "reg_node \<Rightarrow> nat list \<Rightarrow> bool" where
  "tidy_but n [] \<longleftrightarrow> tidy n"
| "tidy_but n (k # ks) \<longleftrightarrow> k < length (rn_children n)
     \<and> (\<forall>j < length (rn_children n). j \<noteq> k \<longrightarrow> alive (rn_children n ! j) \<and> tidy (rn_children n ! j))
     \<and> tidy_but (rn_children n ! k) ks"

lemma tidy_nth: "tidy n \<longleftrightarrow> (\<forall>j < length (rn_children n). alive (rn_children n ! j) \<and> tidy (rn_children n ! j))"
  unfolding tidy_iff [of n] all_set_conv_all_nth by blast

lemma tidy_but_alive: "tidy_but n path \<Longrightarrow> alive (node_at n path) \<Longrightarrow> tidy n \<and> (path \<noteq> [] \<longrightarrow> alive n)"
proof (induction n path rule: tidy_but.induct)
  case (2 n k ks)
  then have "alive (rn_children n ! k)" by (cases ks) auto
  moreover have "tidy (rn_children n ! k)" using 2 by simp
  ultimately show ?case using "2.prems" by (auto simp: tidy_nth [of n] alive_def)
qed simp

lemma tidy_but_update:
  "tidy_but n path \<Longrightarrow> rn_children (f (node_at n path)) = rn_children (node_at n path) \<Longrightarrow>
   tidy_but (update_at n path f) path"
proof (induction n path rule: tidy_but.induct)
  case (1 n)
  then show ?case by (simp add: tidy_iff [of "f n"] tidy_iff [of n])
qed auto

lemma tidy_addresses: "tidy n \<Longrightarrow> addresses n path segs \<Longrightarrow> tidy_but n path"
proof (induction n path segs rule: addresses.induct)
  case (3 n k ks seg segs)
  then show ?case by (auto simp: tidy_nth [of n])
qed auto

lemma walk_create_tidy:
  assumes "node_wf n" and "\<forall>seg \<in> set segs. seg_ok seg" and "walk_loop km True i n segs = (Some path, n', i')"
    and "tidy n"
  shows "tidy_but n' path"
  using assms
proof (induction segs arbitrary: n i path n' i')
  case (Cons seg segs)
  obtain r1 n1 i1 where g: "node_get_or_add km i n seg = (r1, n1, i1)" by (metis prod_cases3)
  have seg: "seg_ok seg" using Cons.prems(2) by simp
  note ga = node_get_or_add_correct [OF Cons.prems(1) seg g]
  obtain k where k: "r1 = Some k" using Cons.prems(3) g by (cases r1) auto
  obtain r c i2 where w: "walk_loop km True i1 (rn_children n1 ! k) segs = (r, c, i2)" by (metis prod_cases3)
  obtain ks where ks: "r = Some ks" "path = k # ks" "n' = set_children n1 ((rn_children n1)[k := c])"
    using Cons.prems(3) g k w by auto
  have kl: "k < length (rn_children n1)" "node_wf n1" "rn_name (rn_children n1 ! k) = seg" using ga k by auto
  have one: "tidy (rn_children n1 ! k) \<and> (\<forall>j < length (rn_children n1). j \<noteq> k \<longrightarrow> alive (rn_children n1 ! j) \<and> tidy (rn_children n1 ! j))"
  proof (cases "n1 = n")
    case True
    then show ?thesis using Cons.prems(4) kl by (auto simp: tidy_nth [of n])
  next
    case False
    then obtain j where j: "child n seg = None" "rn_children n1 ! k = fresh_node j seg"
      "\<forall>s. s \<noteq> seg \<longrightarrow> child n1 s = child n s" using ga k by auto
    have "alive (rn_children n1 ! m) \<and> tidy (rn_children n1 ! m)" if m: "m < length (rn_children n1)" "m \<noteq> k" for m
    proof -
      let ?c = "rn_children n1 ! m"
      have "rn_name ?c \<noteq> seg"
        using kids_distinct [of n1] kl m node_wf_iff [of n1] nth_eq_iff_index_eq [of "map rn_name (rn_children n1)" m k] by auto
      then have "child n (rn_name ?c) = Some ?c" using j(3) child_at [OF kl(2) m(1)] by simp
      then show ?thesis using child_mem [of n] Cons.prems(4) tidy_iff [of n] by blast
    qed
    then show ?thesis using j(2) by (simp add: tidy_iff [of "fresh_node _ _"] fresh_node_props)
  qed
  have "tidy_but c ks" using Cons.IH [OF nth_child_wf [OF kl(2,1)] _ _ , of i1 ks c i2] w ks(1) one Cons.prems(2) by simp
  then show ?case using ks kl one by simp
qed simp


section \<open>Pruning\<close>

lemma node_at_snoc: "node_at n (p @ [k]) = rn_children (node_at n p) ! k"
  by (induction n p rule: node_at.induct) auto

lemma addresses_snocD:
  "addresses n (p @ [k]) segs \<Longrightarrow> addresses n p (butlast segs) \<and> k < length (rn_children (node_at n p))"
proof (induction n p arbitrary: segs rule: node_at.induct)
  case (1 n)
  then show ?case by (cases segs) auto
next
  case (2 n j ks)
  then obtain s rest where s: "segs = s # rest" by (cases segs) auto
  moreover have "rest \<noteq> []" using 2(2) s by (cases ks) auto
  ultimately show ?case using 2 by auto
qed

lemma wf_node_at: "node_wf n \<Longrightarrow> addresses n path segs \<Longrightarrow> node_wf (node_at n path)"
  by (induction n path segs rule: addresses.induct) (auto dest: nth_child_wf)

lemma node_remove_child_correct:
  assumes "node_wf p" and "k < length (rn_children p)"
  shows "node_remove_child (rn_name (rn_children p ! k)) p
           = set_children p (take k (rn_children p) @ drop (Suc k) (rn_children p))"
proof -
  have kw: "kids_wf p" "is_cstr (rn_name (rn_children p ! k))"
    using assms node_wf_iff [of p] by (auto simp: kids_wf_def seg_ok_def)
  have "node_find_child p (rn_name (rn_children p ! k)) = Some k"
  proof (cases "node_find_child p (rn_name (rn_children p ! k))")
    case None
    then show ?thesis using node_find_child_correct [OF kw] child_at [OF assms] by simp
  next
    case (Some j)
    then have "j < length (rn_children p)" "rn_name (rn_children p ! j) = rn_name (rn_children p ! k)"
      using node_find_child_correct [OF kw] by auto
    then show ?thesis
      using Some kids_distinct [OF kw(1)] assms(2) nth_eq_iff_index_eq [of "map rn_name (rn_children p)" j k] by simp
  qed
  then show ?thesis by (auto simp: node_find_child_def node_remove_child_def split: sum.splits)
qed

lemma remove_kid_props:
  assumes "node_wf p" and "k < length (rn_children p)" and "\<not> alive (rn_children p ! k)"
  defines "p' \<equiv> set_children p (take k (rn_children p) @ drop (Suc k) (rn_children p))"
  shows "node_wf p'" "rn_name p' = rn_name p" "reg_map p' = reg_map p"
proof -
  let ?cs = "rn_children p"
  have split: "?cs = take k ?cs @ ?cs ! k # drop (Suc k) ?cs" using assms(2) by (simp add: id_take_nth_drop)
  have sub: "set (take k ?cs @ drop (Suc k) ?cs) \<subseteq> set ?cs" by (auto dest: in_set_takeD in_set_dropD)
  have "sorted_wrt (<) (map rn_name (take k ?cs @ ?cs ! k # drop (Suc k) ?cs))"
    using assms(1) split node_wf_iff [of p] by (simp add: kids_wf_def)
  then have "sorted_wrt (<) (map rn_name (take k ?cs @ drop (Suc k) ?cs))"
    by (simp only: map_append list.map sorted_wrt_append sorted_wrt.simps) auto
  then have "kids_wf p'" using assms(1,2) sub node_wf_iff [of p] by (auto simp: kids_wf_def p'_def)
  then show "node_wf p'" using sub assms(1) unfolding node_wf_iff [of p] node_wf_iff [of p'] by (auto simp: p'_def)
  show "rn_name p' = rn_name p" by (simp add: p'_def)
  have dead: "reg_map (?cs ! k) q = None" for q
    using assms(3) by (cases q) (simp_all add: alive_def leaf_of_def child_def)
  have dist: "distinct (map rn_name (take k ?cs @ ?cs ! k # drop (Suc k) ?cs))"
    using kids_distinct [of p] assms(1) split node_wf_iff [of p] by simp
  have ch: "child p' s = (if s = rn_name (?cs ! k) then None else child p s)" for s
  proof -
    have "child p s = find (\<lambda>c. rn_name c = s) (take k ?cs @ ?cs ! k # drop (Suc k) ?cs)"
      unfolding child_def using split by simp
    moreover have "child p' s = find (\<lambda>c. rn_name c = s) (take k ?cs @ drop (Suc k) ?cs)"
      by (simp add: child_def p'_def)
    moreover have "find (\<lambda>c. rn_name c = rn_name (?cs ! k)) (take k ?cs @ drop (Suc k) ?cs) = None"
      using dist unfolding find_None_iff by (simp, metis image_eqI)
    ultimately show ?thesis by (auto simp: find_append split: option.splits)
  qed
  show "reg_map p' = reg_map p"
  proof
    fix q
    show "reg_map p' q = reg_map p q"
    proof (cases q)
      case Nil
      then show ?thesis by (simp add: p'_def leaf_of_def)
    next
      case (Cons s ss)
      then show ?thesis using ch dead child_at [OF assms(1,2) refl] by simp
    qed
  qed
qed

lemma tidy_but_remove:
  "tidy_but n (p @ [k]) \<Longrightarrow>
   tidy_but (update_at n p (\<lambda>m. set_children m (take k (rn_children m) @ drop (Suc k) (rn_children m)))) p"
proof (induction n p rule: tidy_but.induct)
  case (1 n)
  let ?cs = "rn_children n"
  have t: "k < length ?cs" "\<forall>j < length ?cs. j \<noteq> k \<longrightarrow> alive (?cs ! j) \<and> tidy (?cs ! j)" using 1 by simp_all
  have "alive c \<and> tidy c" if c: "c \<in> set (take k ?cs @ drop (Suc k) ?cs)" for c
  proof -
    have "\<exists>j < length ?cs. j \<noteq> k \<and> ?cs ! j = c"
      using c t(1) by (auto simp: in_set_conv_nth) (metis less_irrefl less_trans, metis add.commute add_Suc_right less_diff_conv not_add_less1 not_less_eq lessI)
    then show ?thesis using t(2) by blast
  qed
  then show ?case by (simp add: tidy_iff [of "set_children _ _"])
qed auto

end
