(* ===== verification/Registry_Store.thy ===== *)
theory Registry_Store
  imports Registry_Tree
begin

text \<open>
  The stored keys of the registry as a map with owners: setting, reading and deleting a key
  refine the abstract operations \<open>abs_set\<close> and \<open>abs_del\<close>, keep the leaf counter equal to the number of
  keys and leave no dead directory behind.
\<close>

section \<open>Pruning keeps the map\<close>

lemma prune_correct:
  assumes "node_wf root" and "addresses root path segs"
  shows "node_wf (prune root path) \<and> reg_map (prune root path) = reg_map root
    \<and> (tidy_but root path \<longrightarrow> tidy (prune root path))"
  using assms
proof (induction root path arbitrary: segs rule: prune.induct)
  case (1 root path)
  show ?case
  proof (cases path rule: rev_cases)
    case Nil
    then show ?thesis using 1(2) by (simp add: prune.simps)
  next
    case (snoc p k)
    let ?n = "node_at root path"
    show ?thesis
    proof (cases "alive ?n")
      case True
      then have "prune root path = root" by (subst prune.simps) (auto simp: alive_def)
      then show ?thesis using 1(2) tidy_but_alive [OF _ True] by simp
    next
      case False
      define f where "f = (\<lambda>m. set_children m (take k (rn_children m) @ drop (Suc k) (rn_children m)))"
      let ?m = "node_at root p"
      have ad: "addresses root p (butlast segs)" "k < length (rn_children ?m)"
        using 1(3) snoc addresses_snocD by blast+
      have wfm: "node_wf ?m" using wf_node_at [OF 1(2) ad(1)] .
      have n: "?n = rn_children ?m ! k" using snoc node_at_snoc by simp
      have fm: "node_remove_child (rn_name ?n) ?m = f ?m"
        unfolding n f_def by (rule node_remove_child_correct [OF wfm ad(2)])
      have upd: "update_at root p (node_remove_child (rn_name ?n)) = update_at root p f"
        using fm by (rule update_at_cong)
      have eq: "prune root path = prune (update_at root p f) p"
        using snoc False upd by (subst prune.simps) (simp add: Let_def alive_def)
      note rk = remove_kid_props [OF wfm ad(2) False [unfolded n], folded f_def]
      have "rn_name (f ?m) = rn_name ?m" "node_wf (f ?m)" using rk by (simp_all add: f_def)
      note g = update_at_general [where f = f, OF 1(2) ad(1) this]
      have map: "reg_map (update_at root p f) = reg_map root"
        using g rk(3) below_path [OF 1(2) ad(1)] by (intro ext) (metis f_def)
      have "node_wf (prune (update_at root p f) p) \<and> reg_map (prune (update_at root p f) p) = reg_map (update_at root p f)
        \<and> (tidy_but (update_at root p f) p \<longrightarrow> tidy (prune (update_at root p f) p))"
        using 1(1) [OF _ refl, of "butlast segs"] snoc False upd g by (simp add: alive_def)
      moreover have "tidy_but root path \<Longrightarrow> tidy_but (update_at root p f) p"
        using tidy_but_remove snoc unfolding f_def by blast
      ultimately show ?thesis unfolding eq map by blast
    qed
  qed
qed


section \<open>The stored operations as operations on a map\<close>

type_synonym reg_view = "string list \<Rightarrow> (string \<times> int) option"

abbreviation view :: "registry \<Rightarrow> reg_view" where
  "view r \<equiv> reg_map (reg_root r)"

definition reg_inv :: "registry \<Rightarrow> bool" where
  "reg_inv r \<longleftrightarrow> node_wf (reg_root r) \<and> \<not> is_leaf (reg_root r) \<and> finite (dom (view r))
     \<and> registry_count r = int (card (dom (view r)))"

text \<open>The abstract operations: first-writer-wins ownership, identity 0 overriding.\<close>

definition abs_set :: "reg_view \<Rightarrow> string list \<Rightarrow> string \<Rightarrow> int \<Rightarrow> int \<times> reg_view" where
  "abs_set m k v owner =
     (if k = [] then (- EINVAL, m)
      else case m k of
        None \<Rightarrow> (0, m(k \<mapsto> (str_trunc MAX_VAL_LEN v, owner)))
      | Some (v0, o0) \<Rightarrow>
          if owner \<noteq> 0 \<and> o0 \<noteq> owner then (- EACCES, m)
          else (0, m(k \<mapsto> (str_trunc MAX_VAL_LEN v, o0))))"

definition abs_del :: "reg_view \<Rightarrow> string list \<Rightarrow> int \<Rightarrow> int \<times> reg_view" where
  "abs_del m k owner =
     (if k = [] then (- ENOENT, m)
      else case m k of
        None \<Rightarrow> (- ENOENT, m)
      | Some (v0, o0) \<Rightarrow> if owner \<noteq> 0 \<and> o0 \<noteq> owner then (- EACCES, m) else (0, m(k := None)))"

lemma node_fun_sel [simp]:
  "rn_name (store_value v n) = rn_name n" "rn_children (store_value v n) = rn_children n"
  "cap_children (store_value v n) = cap_children n" "rn_value (store_value v n) = str_trunc MAX_VAL_LEN v"
  "rn_owner (store_value v n) = rn_owner n" "is_leaf (store_value v n) = is_leaf n"
  "rn_name (make_leaf w n) = rn_name n" "rn_children (make_leaf w n) = rn_children n"
  "cap_children (make_leaf w n) = cap_children n" "rn_value (make_leaf w n) = rn_value n"
  "rn_owner (make_leaf w n) = w" "is_leaf (make_leaf w n)"
  "rn_name (clear_leaf n) = rn_name n" "rn_children (clear_leaf n) = rn_children n"
  "cap_children (clear_leaf n) = cap_children n" "\<not> is_leaf (clear_leaf n)"
  by (cases n; simp)+

lemma walk_never_fails:
  "(\<forall>j. km j) \<Longrightarrow> fst (walk_loop km True i n segs) \<noteq> None"
proof (induction segs arbitrary: i n)
  case (Cons seg segs)
  obtain r1 n1 i1 where g: "node_get_or_add km i n seg = (r1, n1, i1)" by (metis prod_cases3)
  have "r1 \<noteq> None"
    using g Cons.prems by (auto simp: node_get_or_add_def grow_children_def node_alloc_def Let_def split: sum.splits if_splits)
  then obtain k where "r1 = Some k" by blast
  then show ?case using g Cons.IH [OF Cons.prems, of i1 "rn_children n1 ! k"]
    by (auto split: prod.splits)
qed simp

lemma view_at: "node_wf n \<Longrightarrow> addresses n path segs \<Longrightarrow> reg_map n segs = leaf_of (node_at n path)"
  using below_path [of n path segs "[]"] by simp

lemma count_set:
  assumes "finite (dom m)" and "m k = None"
  shows "finite (dom (m(k \<mapsto> x))) \<and> card (dom (m(k \<mapsto> x))) = Suc (card (dom m))"
  using assms by (auto simp: dom_def [symmetric] card_insert_if)

lemma walk_path_create:
  assumes "reg_inv r" and "is_cstr key" and "key_segments key \<noteq> []"
  obtains (fail) r1 where "walk_path km True key r = (None, r1)" "reg_inv r1" "view r1 = view r" "\<not> (\<forall>j. km j)"
  | (found) path r1 where "walk_path km True key r = (Some path, r1)" "reg_inv r1" "view r1 = view r"
      "addresses (reg_root r1) path (key_segments key)" "tidy (reg_root r) \<longrightarrow> tidy_but (reg_root r1) path"
proof -
  define segs where "segs = key_segments key"
  obtain res root i where w: "walk_loop km True (reg_allocs r) (reg_root r) segs = (res, root, i)" by (metis prod_cases3)
  define r1 where "r1 = r\<lparr>reg_root := root, reg_allocs := i\<rparr>"
  have wp: "walk_path km True key r = (res, r1)"
    using assms(3) w by (auto simp: walk_path_def segs_def r1_def split: list.splits)
  have wf: "node_wf (reg_root r)" using assms(1) by (simp add: reg_inv_def)
  have ok: "\<forall>seg \<in> set segs. seg_ok seg" using key_segments_ok [OF assms(2)] by (simp add: segs_def)
  have root: "same_head root (reg_root r)" "node_wf root" "reg_map root = view r"
    "case res of None \<Rightarrow> True | Some path \<Rightarrow> addresses root path segs"
    using walk_create [OF wf ok w] by simp_all
  have inv1: "reg_inv r1" "view r1 = view r" using assms(1) root by (simp_all add: reg_inv_def r1_def same_head_def)
  show ?thesis
  proof (cases res)
    case None
    have "\<not> (\<forall>j. km j)" using walk_never_fails [of km "reg_allocs r" "reg_root r" segs] w None by auto
    then show ?thesis using fail wp None inv1 by simp
  next
    case (Some path)
    then show ?thesis
      using found [of path r1] wp inv1 root(4) walk_create_tidy [OF wf ok w [unfolded Some]]
      by (simp add: r1_def segs_def)
  qed
qed

lemma root_not_leaf: "reg_inv r \<Longrightarrow> view r' = (view r)(k := x) \<Longrightarrow> k \<noteq> [] \<Longrightarrow> \<not> is_leaf (reg_root r')"
  using reg_map_Nil [of "reg_root r'"] reg_map_Nil [of "reg_root r"]
  by (auto simp: reg_inv_def leaf_of_def split: if_splits)

lemma overwrite_leaf:
  fixes v :: string
  assumes "reg_inv r" and "addresses (reg_root r) path segs" and "segs \<noteq> []" and "is_leaf (node_at (reg_root r) path)"
  defines "r' \<equiv> r\<lparr>reg_root := update_at (reg_root r) path (store_value v)\<rparr>"
  shows "reg_inv r'" "view r' = (view r)(segs \<mapsto> (str_trunc MAX_VAL_LEN v, rn_owner (node_at (reg_root r) path)))"
    "tidy_but (reg_root r) path \<Longrightarrow> tidy (reg_root r')"
proof -
  have wf: "node_wf (reg_root r)" using assms(1) by (simp add: reg_inv_def)
  note u = update_at_correct [where f = "store_value v", OF wf assms(2), simplified]
  show v: "view r' = (view r)(segs \<mapsto> (str_trunc MAX_VAL_LEN v, rn_owner (node_at (reg_root r) path)))"
    using u(4) assms(4) by (simp add: leaf_of_def r'_def)
  have "segs \<in> dom (view r)" using view_at [OF wf assms(2)] assms(4) by (auto simp: leaf_of_def)
  then have "dom (view r') = dom (view r)" unfolding v by auto
  then show "reg_inv r'" using assms(1) u(1) root_not_leaf [OF assms(1) v assms(3)] by (simp add: reg_inv_def r'_def)
  show "tidy (reg_root r')" if "tidy_but (reg_root r) path"
    using tidy_but_alive [OF tidy_but_update [OF that, of "store_value v"]] u(3) assms(4) by (simp add: alive_def r'_def)
qed

lemma create_leaf:
  fixes v :: string and owner :: int
  assumes "reg_inv r" and "addresses (reg_root r) path segs" and "segs \<noteq> []" and "\<not> is_leaf (node_at (reg_root r) path)"
  defines "r2 \<equiv> r\<lparr>reg_root := update_at (reg_root r) path (store_value v)\<rparr>"
  defines "r' \<equiv> r2\<lparr>reg_root := update_at (reg_root r2) path (make_leaf owner), registry_count := registry_count r2 + 1\<rparr>"
  shows "reg_inv r'" "view r' = (view r)(segs \<mapsto> (str_trunc MAX_VAL_LEN v, owner))" "view r segs = None"
    "tidy_but (reg_root r) path \<Longrightarrow> tidy (reg_root r')"
proof -
  have wf: "node_wf (reg_root r)" using assms(1) by (simp add: reg_inv_def)
  define root2 where "root2 = update_at (reg_root r) path (store_value v)"
  note u = update_at_correct [where f = "store_value v", OF wf assms(2), folded root2_def, simplified]
  note u3 = update_at_correct [where f = "make_leaf owner", OF u(1,2), simplified]
  have r': "r' = r\<lparr>reg_root := update_at root2 path (make_leaf owner), registry_count := registry_count r + 1\<rparr>"
    by (simp add: r'_def r2_def root2_def)
  show v: "view r' = (view r)(segs \<mapsto> (str_trunc MAX_VAL_LEN v, owner))"
    using u(3,4) u3(4) r' by (simp add: leaf_of_def)
  show none: "view r segs = None" using view_at [OF wf assms(2)] assms(4) by (simp add: leaf_of_def)
  show "reg_inv r'"
    using assms(1) u3(1) r' root_not_leaf [OF assms(1) v assms(3)] v count_set [of "view r" segs "(str_trunc MAX_VAL_LEN v, owner)"] none
    by (simp add: reg_inv_def)
  show "tidy (reg_root r')" if "tidy_but (reg_root r) path"
  proof -
    have "tidy_but root2 path" unfolding root2_def using that by (intro tidy_but_update) auto
    then have "tidy_but (reg_root r') path" unfolding r' by (simp add: tidy_but_update)
    then show ?thesis using tidy_but_alive u3(3) r' by (auto simp: alive_def)
  qed
qed

lemma set_stored_refines:
  assumes "reg_inv r" and "is_cstr key" and "set_stored km key v owner r = (rc, r')"
  shows "reg_inv r' \<and>
    ((rc, view r') = abs_set (view r) (key_segments key) v owner
     \<or> rc = - ENOMEM \<and> view r' = view r \<and> key_segments key \<noteq> [] \<and> \<not> (\<forall>j. km j))
    \<and> (rc = 0 \<and> tidy (reg_root r) \<longrightarrow> tidy (reg_root r'))"
proof (cases "key_segments key = []")
  case True
  then show ?thesis
    using assms key_segments_Nil_iff [of key] by (auto simp: set_stored_def walk_path_def abs_set_def EINVAL_def)
next
  case ne: False
  from assms(1,2) ne show ?thesis
  proof (cases rule: walk_path_create [where km = km])
    case (fail r1)
    then show ?thesis
      using assms(3) ne key_segments_Nil_iff [of key] by (auto simp: set_stored_def ENOMEM_def)
  next
    case (found path r1)
    let ?n = "node_at (reg_root r1) path"
    have leaf: "view r (key_segments key) = leaf_of ?n"
      using view_at [OF _ found(4)] found(2,3) by (simp add: reg_inv_def)
    consider (deny) "is_leaf ?n" "owner \<noteq> 0" "rn_owner ?n \<noteq> owner"
      | (over) "is_leaf ?n" "owner = 0 \<or> rn_owner ?n = owner" | (new) "\<not> is_leaf ?n" by blast
    then show ?thesis
    proof cases
      case deny
      then show ?thesis using found assms(3) leaf ne
        by (simp add: set_stored_def abs_set_def leaf_of_def EACCES_def Let_def)
    next
      case over
      have "rc = 0" "r' = r1\<lparr>reg_root := update_at (reg_root r1) path (store_value v)\<rparr>"
        using found(1) assms(3) over by (auto simp: set_stored_def Let_def)
      then show ?thesis using overwrite_leaf [OF found(2,4) ne over(1), where v = v] over leaf found(3,5) ne
        by (auto simp: abs_set_def leaf_of_def)
    next
      case new
      note cl = create_leaf(1,2,4) [OF found(2,4) ne new, where v = v and owner = owner]
        create_leaf(3) [OF found(2,4) ne new]
      have "rc = 0" "r' = r1\<lparr>reg_root := update_at (reg_root r1) path (store_value v)\<rparr>
        \<lparr>reg_root := update_at (reg_root (r1\<lparr>reg_root := update_at (reg_root r1) path (store_value v)\<rparr>)) path (make_leaf owner),
         registry_count := registry_count (r1\<lparr>reg_root := update_at (reg_root r1) path (store_value v)\<rparr>) + 1\<rparr>"
        using found(1) assms(3) new by (auto simp: set_stored_def Let_def)
      then show ?thesis using cl found(3,5) ne by (simp add: abs_set_def)
    qed
  qed
qed

lemma walk_path_find:
  assumes "reg_inv r" and "is_cstr key"
  shows "case fst (walk_path km False key r) of
      None \<Rightarrow> key_segments key = [] \<or> reg_find (reg_root r) (key_segments key) = None
    | Some path \<Rightarrow> key_segments key \<noteq> [] \<and> path \<noteq> [] \<and> addresses (reg_root r) path (key_segments key)"
proof (cases "key_segments key = []")
  case True
  then show ?thesis by (simp add: walk_path_def)
next
  case False
  obtain res root i where w: "walk_loop km False (reg_allocs r) (reg_root r) (key_segments key) = (res, root, i)"
    by (metis prod_cases3)
  have "fst (walk_path km False key r) = res"
    using False w by (auto simp: walk_path_def split: list.splits)
  moreover have "case res of None \<Rightarrow> reg_find (reg_root r) (key_segments key) = None
      | Some path \<Rightarrow> addresses (reg_root r) path (key_segments key)"
    using walk_find [OF _ key_segments_ok [OF assms(2)] w] assms(1) by (simp add: reg_inv_def)
  moreover have "addresses (reg_root r) path (key_segments key) \<Longrightarrow> path \<noteq> []" for path using False by (cases path) auto
  ultimately show ?thesis using False by (auto split: option.splits)
qed

lemma get_stored_refines:
  assumes "reg_inv r" and "is_cstr key"
  shows "get_stored key sz r =
    (case view r (key_segments key) of None \<Rightarrow> (- ENOENT, None) | Some (v, ow) \<Rightarrow> (0, Some (str_trunc sz v)))"
proof (cases "fst (walk_path (\<lambda>_. False) False key r)")
  case None
  have "view r [] = None" using assms(1) by (simp add: reg_inv_def leaf_of_def)
  then have "view r (key_segments key) = None"
    using walk_path_find [OF assms, of "\<lambda>_. False"] None by (auto simp: reg_map_def)
  then show ?thesis using None by (simp add: get_stored_def)
next
  case (Some path)
  then have "addresses (reg_root r) path (key_segments key)"
    using walk_path_find [OF assms, of "\<lambda>_. False"] by simp
  then have "view r (key_segments key) = leaf_of (node_at (reg_root r) path)"
    using view_at assms(1) by (simp add: reg_inv_def)
  then show ?thesis using Some by (auto simp: get_stored_def leaf_of_def Let_def)
qed

lemma del_stored_refines:
  assumes "reg_inv r" and "is_cstr key" and "del_stored key owner r = (rc, r')"
  shows "reg_inv r' \<and> (rc, view r') = abs_del (view r) (key_segments key) owner
    \<and> (tidy (reg_root r) \<longrightarrow> tidy (reg_root r'))"
proof (cases "fst (walk_path (\<lambda>_. False) False key r)")
  case None
  then have "key_segments key = [] \<or> view r (key_segments key) = None"
    using walk_path_find [OF assms(1,2), of "\<lambda>_. False"] by (auto simp: reg_map_def)
  then show ?thesis using None assms(1,3) by (auto simp: del_stored_def abs_del_def)
next
  case (Some path)
  let ?segs = "key_segments key"
  have ad: "addresses (reg_root r) path ?segs" "?segs \<noteq> []" "path \<noteq> []"
    using Some walk_path_find [OF assms(1,2), of "\<lambda>_. False"] by auto
  have wf: "node_wf (reg_root r)" using assms(1) by (simp add: reg_inv_def)
  let ?n = "node_at (reg_root r) path"
  have leaf: "view r ?segs = leaf_of ?n" by (rule view_at [OF wf ad(1)])
  show ?thesis
  proof (cases "is_leaf ?n \<and> (owner = 0 \<or> rn_owner ?n = owner)")
    case False
    then show ?thesis
      using Some assms(1,3) ad(2,3) leaf by (auto simp: del_stored_def abs_del_def leaf_of_def Let_def)
  next
    case True
    define root1 where "root1 = update_at (reg_root r) path clear_leaf"
    note u = update_at_correct [where f = clear_leaf, OF wf ad(1), folded root1_def, simplified]
    note pr = prune_correct [OF u(1,2)]
    have out: "rc = 0" "r' = r\<lparr>reg_root := prune root1 path, registry_count := registry_count r - 1\<rparr>"
      using assms(3) Some True ad(3) by (auto simp: del_stored_def root1_def Let_def)
    have v: "view r' = (view r)(?segs := None)" using pr u(4) out by (simp add: leaf_of_def)
    have mem: "?segs \<in> dom (view r)" using leaf True by (auto simp: leaf_of_def)
    moreover have "dom (view r') = dom (view r) - {?segs}" unfolding v by auto
    moreover have "finite (dom (view r))" using assms(1) by (simp add: reg_inv_def)
    moreover have "card (dom (view r)) > 0" using mem calculation(3) by (auto simp: card_gt_0_iff)
    ultimately have "finite (dom (view r'))" "int (card (dom (view r'))) = int (card (dom (view r))) - 1"
      by (simp_all add: card_Diff_singleton of_nat_diff)
    then have "reg_inv r'" using assms(1) out pr root_not_leaf [OF assms(1) v ad(2)] by (simp add: reg_inv_def)
    moreover have "tidy (reg_root r) \<Longrightarrow> tidy_but root1 path"
      unfolding root1_def by (intro tidy_but_update tidy_addresses [OF _ ad(1)]) auto
    ultimately show ?thesis using out pr v leaf True ad(2) by (auto simp: abs_del_def leaf_of_def)
  qed
qed

end
