(* ===== verification/Registry_Props.thy ===== *)
theory Registry_Props
  imports Registry_Store Process_Props
begin

text \<open>
  Properties of the registry: refinement of a map with owners, protection of a key from other
  callers through the doors to the registry (as an interpretation of the locale \<open>owned_store\<close>), listings,
  the environment behind the virtual keys, and the life time of \<open>/reg\<close> file identifiers.
\<close>

section \<open>Ownership across the doors to the registry\<close>

text \<open>
  The interface of a store whose cells have owners: an operation may change a cell of somebody else
  only when it acts with identity 0 and the cell is within its reach, and operations do not change who
  acts.
\<close>

locale owned_store =
  fixes exec :: "'op \<Rightarrow> 's \<Rightarrow> 's"
    and cell :: "'s \<Rightarrow> 'k \<Rightarrow> ('v \<times> int) option"
    and actor :: "'s \<Rightarrow> 'op \<Rightarrow> int"
    and reach :: "'op \<Rightarrow> 'k \<Rightarrow> bool"
    and legal :: "'op \<Rightarrow> bool"
    and inv :: "'s \<Rightarrow> bool"
  assumes exec_inv: "inv s \<Longrightarrow> legal p \<Longrightarrow> inv (exec p s)"
    and exec_foreign: "inv s \<Longrightarrow> legal p \<Longrightarrow> cell s k = Some (v, ow) \<Longrightarrow>
          actor s p \<noteq> 0 \<and> actor s p \<noteq> ow \<or> \<not> reach p k \<Longrightarrow> cell (exec p s) k = Some (v, ow)"
    and exec_actor: "legal p \<Longrightarrow> actor (exec p s) q = actor s q"
begin

lemma run_inv: "inv s \<Longrightarrow> \<forall>p \<in> set ps. legal p \<Longrightarrow> inv (fold exec ps s)"
  by (induction ps arbitrary: s) (auto intro: exec_inv)

lemma run_actor: "\<forall>p \<in> set ps. legal p \<Longrightarrow> actor (fold exec ps s) q = actor s q"
  by (induction ps arbitrary: s) (auto simp: exec_actor)

lemma run_foreign:
  "inv s \<Longrightarrow> \<forall>p \<in> set ps. legal p \<and> (actor s p \<noteq> 0 \<and> actor s p \<noteq> ow \<or> \<not> reach p k) \<Longrightarrow> cell s k = Some (v, ow) \<Longrightarrow>
   cell (fold exec ps s) k = Some (v, ow)"
proof (induction ps arbitrary: s)
  case (Cons p ps)
  have "cell (exec p s) k = Some (v, ow)" using Cons.prems by (intro exec_foreign) auto
  moreover have "inv (exec p s)" using Cons.prems by (intro exec_inv) auto
  ultimately show ?case using Cons by (simp add: exec_actor)
qed simp

end

text \<open>The doors to the registry: the system call, the \<open>/reg\<close> files, their creation and removal, a write
  through an object handle, and the switch of the desktop style.\<close>

datatype reg_call =
    Sys_Registry "nat \<Rightarrow> bool" "u64 \<Rightarrow> u64" bool "pref option" int user_str user_str u64
  | Regfs_Write "nat \<Rightarrow> bool" "u64 \<Rightarrow> u64" "pref option" string u64 string
  | Regfs_Create "nat \<Rightarrow> bool" "pref option" string vfs_type
  | Regfs_Unlink "pref option" string
  | Regkey_Write "nat \<Rightarrow> bool" "pref option" string nat "string option"
  | Set_Style "nat \<Rightarrow> bool" "pref option" int int int look

fun reg_exec :: "reg_call \<Rightarrow> sched \<times> registry \<Rightarrow> sched \<times> registry" where
  "reg_exec (Sys_Registry km to_ns ok cur opn key val sz) sr = snd (snd (sys_registry km to_ns ok cur opn key val sz sr))"
| "reg_exec (Regfs_Write km to_ns cur path off d) sr = snd (regfs_write km to_ns cur path off d sr)"
| "reg_exec (Regfs_Create km cur path ty) sr = snd (regfs_create km cur path ty sr)"
| "reg_exec (Regfs_Unlink cur path) sr = snd (regfs_unlink cur path sr)"
| "reg_exec (Regkey_Write km cur path n d) sr = snd (regkey_set km cur path n d sr)"
| "reg_exec (Set_Style km cur st th bg k) sr = snd (snd (sys_set_style km cur st th bg (k, sr)))"

fun reg_caller :: "reg_call \<Rightarrow> pref option" where
  "reg_caller (Sys_Registry km to_ns ok cur opn key val sz) = cur"
| "reg_caller (Regfs_Write km to_ns cur path off d) = cur"
| "reg_caller (Regfs_Create km cur path ty) = cur"
| "reg_caller (Regfs_Unlink cur path) = cur"
| "reg_caller (Regkey_Write km cur path n d) = cur"
| "reg_caller (Set_Style km cur st th bg k) = cur"

fun user_cstr :: "user_str \<Rightarrow> bool" where
  "user_cstr (UStr xs) = is_cstr xs"
| "user_cstr _ = True"

text \<open>The strings of a call are C strings.\<close>

fun call_ok :: "reg_call \<Rightarrow> bool" where
  "call_ok (Sys_Registry km to_ns ok cur opn key val sz) = (user_cstr key \<and> user_cstr val)"
| "call_ok (Regfs_Write km to_ns cur path off d) = is_cstr path"
| "call_ok (Regfs_Create km cur path ty) = is_cstr path"
| "call_ok (Regfs_Unlink cur path) = is_cstr path"
| "call_ok (Regkey_Write km cur path n d) = is_cstr path"
| "call_ok (Set_Style km cur st th bg k) = True"

text \<open>The kernel writes the three keys of the desktop style in its own name, whoever asks; every other
  door writes in the name of the caller.\<close>

fun is_set_style :: "reg_call \<Rightarrow> bool" where
  "is_set_style (Set_Style km cur st th bg k) = True"
| "is_set_style _ = False"

definition reg_actor :: "sched \<times> registry \<Rightarrow> reg_call \<Rightarrow> int" where
  "reg_actor sr p = (if is_set_style p then 0 else registry_caller_owner (fst sr) (reg_caller p))"

definition style_keys :: "string list set" where
  "style_keys = {[''style'', ''name''], [''theme'', ''color''], [''background'', ''name'']}"

definition reg_reach :: "reg_call \<Rightarrow> string list \<Rightarrow> bool" where
  "reg_reach p k \<longleftrightarrow> (is_set_style p \<longrightarrow> k \<in> style_keys)"

definition reg_cell :: "sched \<times> registry \<Rightarrow> string list \<Rightarrow> (string \<times> int) option" where
  "reg_cell sr = view (snd sr)"

text \<open>What one mutation with identity \<open>me\<close> of the keys \<open>K\<close> may do: keep the invariant, leave the identities
  of the processes alone and change only keys of \<open>K\<close> that are free, its own, or anybody's when it is 0.\<close>

definition mutation :: "int \<Rightarrow> string list set \<Rightarrow> sched \<times> registry \<Rightarrow> sched \<times> registry \<Rightarrow> bool" where
  "mutation me K sr sr' \<longleftrightarrow>
     (reg_inv (snd sr) \<longrightarrow> reg_inv (snd sr') \<and>
        (\<forall>k v ow. reg_cell sr k = Some (v, ow) \<longrightarrow> me \<noteq> 0 \<and> me \<noteq> ow \<or> k \<notin> K \<longrightarrow> reg_cell sr' k = Some (v, ow)))
     \<and> (\<forall>cur. registry_caller_owner (fst sr') cur = registry_caller_owner (fst sr) cur)"

lemma mutation_refl [simp]: "mutation me K sr sr"
  by (simp add: mutation_def)

lemma mutation_trans: "mutation me K s t \<Longrightarrow> mutation me K t u \<Longrightarrow> mutation me K s u"
  unfolding mutation_def by metis

lemma mutation_mono: "mutation me K s t \<Longrightarrow> K \<subseteq> L \<Longrightarrow> mutation me L s t"
  unfolding mutation_def by blast

lemma abs_set_foreign:
  "m k = Some (v, ow) \<Longrightarrow> me \<noteq> 0 \<and> me \<noteq> ow \<or> k \<noteq> q \<Longrightarrow> snd (abs_set m q w me) k = Some (v, ow)"
  by (auto simp: abs_set_def split: option.splits)

lemma abs_del_foreign:
  "m k = Some (v, ow) \<Longrightarrow> me \<noteq> 0 \<and> me \<noteq> ow \<or> k \<noteq> q \<Longrightarrow> snd (abs_del m q me) k = Some (v, ow)"
  by (auto simp: abs_del_def split: option.splits)

lemma caller_owner_upd_env:
  "registry_caller_owner (upd_proc p (penv_update f) s) cur = registry_caller_owner s cur"
  by (cases cur) (auto simp: registry_caller_owner_def upd_proc_def proc_is_privileged_def)

lemma proc_env_set_owner:
  "registry_caller_owner (snd (proc_env_set s c n k v)) cur = registry_caller_owner s cur"
  unfolding proc_env_set_def Let_def
  by (auto simp: caller_owner_upd_env split: option.splits if_splits prod.splits)

lemma virtual_write_mutation:
  "reg_virtual_proc_write c key v s = Some (rc, s') \<Longrightarrow> mutation me K (s, r) (s', r)"
  using proc_env_set_owner [of s c "fst (the (reg_proc_split key))" "Some (drop 4 (snd (the (reg_proc_split key))))" v]
  by (auto simp: reg_virtual_proc_write_def mutation_def reg_cell_def split: option.splits if_splits)

lemma registry_set_mutation:
  assumes "is_cstr key"
  shows "mutation me {key_segments key} sr (snd (registry_set km cur (Some key) (Some v) me sr))"
proof -
  obtain s r where sr: "sr = (s, r)" by (cases sr)
  obtain rc r' where st: "set_stored km key v me r = (rc, r')" by (cases "set_stored km key v me r")
  have "mutation me {key_segments key} (s, r) (s, r')"
  proof (cases "reg_inv r")
    case True
    have "reg_inv r' \<and> ((rc, view r') = abs_set (view r) (key_segments key) v me \<or> view r' = view r)"
      using set_stored_refines [OF True assms st] by blast
    then show ?thesis
      using abs_set_foreign [of "view r" _ _ _ me "key_segments key" v]
      by (auto simp: mutation_def reg_cell_def) (metis snd_conv)+
  qed (simp add: mutation_def)
  then show ?thesis
    using sr st virtual_write_mutation [of cur key "Some v" s _ _ me "{key_segments key}" r]
    by (auto simp: registry_set_def split: option.splits)
qed

lemma registry_del_mutation:
  assumes "is_cstr key"
  shows "mutation me {key_segments key} sr (snd (registry_del cur (Some key) me sr))"
proof -
  obtain s r where sr: "sr = (s, r)" by (cases sr)
  obtain rc r' where st: "del_stored key me r = (rc, r')" by (cases "del_stored key me r")
  have "mutation me {key_segments key} (s, r) (s, r')"
  proof (cases "reg_inv r")
    case True
    have "reg_inv r' \<and> (rc, view r') = abs_del (view r) (key_segments key) me"
      using del_stored_refines [OF True assms st] by blast
    then show ?thesis
      using abs_del_foreign [of "view r" _ _ _ me "key_segments key"]
      by (auto simp: mutation_def reg_cell_def) (metis snd_conv)+
  qed (simp add: mutation_def)
  then show ?thesis
    using sr st virtual_write_mutation [of cur key None s _ _ me "{key_segments key}" r]
    by (auto simp: registry_del_def split: option.splits)
qed


lemma path_to_key_loop_cstr: "is_cstr p \<Longrightarrow> is_cstr key \<Longrightarrow> is_cstr (path_to_key_loop n p key)"
proof (induction n p key rule: path_to_key_loop.induct)
  case (1 n p key)
  show ?case
  proof (cases "p = [] \<or> \<not> length key + 1 < n")
    case True
    then show ?thesis using 1(4) by (subst path_to_key_loop.simps) auto
  next
    case False
    have "is_cstr (dropWhile (\<lambda>c. c = CHR ''/'') p)" "is_cstr (tl p)" "is_cstr (key @ [hd p])" "is_cstr (key @ ''.'')"
      using 1(3,4) False by (auto simp: is_cstr_def dest: set_dropWhileD list.set_sel(2))
    then show ?thesis using 1 False by (subst path_to_key_loop.simps) (auto simp: Let_def)
  qed
qed

lemma path_to_key_cstr: "is_cstr path \<Longrightarrow> is_cstr (regfs_path_to_key path n)"
  unfolding regfs_path_to_key_def
  by (intro path_to_key_loop_cstr) (auto simp: is_cstr_def dest: set_dropWhileD)

lemma set_any: "is_cstr key \<Longrightarrow> mutation me UNIV sr (snd (registry_set km cur (Some key) (Some v) me sr))"
  by (rule mutation_mono [OF registry_set_mutation subset_UNIV])

lemma del_any: "is_cstr key \<Longrightarrow> mutation me UNIV sr (snd (registry_del cur (Some key) me sr))"
  by (rule mutation_mono [OF registry_del_mutation subset_UNIV])

lemma sys_registry_mutation:
  assumes "user_cstr key"
  shows "mutation (registry_caller_owner (fst sr) cur) UNIV sr (snd (snd (sys_registry km to_ns ok cur opn key val sz sr)))"
proof (cases "opn = 2")
  case True
  have m: "mutation me K sr (fst sr, (snd sr)\<lparr>reg_allocs := i\<rparr>)" for me K i
    by (simp add: mutation_def reg_cell_def reg_inv_def)
  show ?thesis using True m [of _ UNIV "Suc (reg_allocs (snd sr))"]
    by (auto simp: sys_registry_def sys_registry_enum_def Let_def split: if_splits sum.splits prod.splits)
next
  case False
  have key: "hal_copy_string_from_user_strict MAX_KEY_LEN key = Inr k \<Longrightarrow> is_cstr k" for k
    using assms by (cases key) (auto simp: hal_copy_string_from_user_strict_def split: if_splits)
  note sd = set_any [where sr = sr and cur = cur and km = km and me = "registry_caller_owner (fst sr) cur"]
    del_any [where sr = sr and cur = cur and me = "registry_caller_owner (fst sr) cur"]
  show ?thesis
  proof (cases "hal_copy_string_from_user_strict MAX_KEY_LEN key")
    case (Inl e)
    then show ?thesis using False by (simp add: sys_registry_def)
  next
    case (Inr k)
    then show ?thesis using False sd [OF key [OF Inr]]
      by (simp add: sys_registry_def case_prod_beta split: sum.splits)
  qed
qed

lemma regfs_write_sets:
  "snd (regfs_write km to_ns cur path off d sr) = sr \<or>
   (\<exists>v. snd (regfs_write km to_ns cur path off d sr)
      = snd (registry_set km cur (Some (regfs_path_to_key path MAX_KEY_LEN)) (Some v) (registry_caller_owner (fst sr) cur) sr))"
  unfolding regfs_write_def Let_def by (simp add: case_prod_beta) blast

lemma regkey_set_sets:
  "snd (regkey_set km cur path n d sr) = sr \<or>
   (\<exists>v. snd (regkey_set km cur path n d sr)
      = snd (registry_set km cur (Some path) (Some v) (registry_caller_owner (fst sr) cur) sr))"
  unfolding regkey_set_def Let_def by (auto simp: case_prod_beta split: option.split)

lemma style_segments: "key_segments ''style.name'' = [''style'', ''name'']"
  "key_segments ''theme.color'' = [''theme'', ''color'']" "key_segments ''background.name'' = [''background'', ''name'']"
  by code_simp+

lemma set_style_part_mutation:
  assumes "is_cstr key" "key_segments key \<in> style_keys"
  shows "mutation 0 style_keys (snd (snd st)) (snd (snd (set_style_part km cur key names setter arg st)))"
proof -
  obtain rc k sr where st: "st = (rc, k, sr)" by (cases st)
  have "mutation 0 style_keys sr (snd (registry_set km cur (Some key) (Some v) 0 sr))" for v
    using registry_set_mutation [OF assms(1)] by (rule mutation_mono) (use assms(2) in simp)
  then show ?thesis
    by (auto simp: st set_style_part_def Let_def case_prod_beta)
qed

lemma set_style_mutation: "mutation 0 style_keys sr (snd (snd (sys_set_style km cur st th bg (k, sr))))"
proof -
  have c: "is_cstr ''style.name''" "is_cstr ''theme.color''" "is_cstr ''background.name''" by (simp_all add: is_cstr_def)
  have k: "key_segments ''style.name'' \<in> style_keys" "key_segments ''theme.color'' \<in> style_keys"
      "key_segments ''background.name'' \<in> style_keys"
    by (simp_all add: style_segments style_keys_def)
  define s1 where "s1 = set_style_part km cur ''style.name'' os1_style_names compositor_set_style st (0, k, sr)"
  define s2 where "s2 = set_style_part km cur ''theme.color'' os1_theme_names compositor_set_theme th s1"
  have "mutation 0 style_keys sr (snd (snd s1))" "mutation 0 style_keys (snd (snd s1)) (snd (snd s2))"
    using set_style_part_mutation [OF c(1) k(1), of "(0, k, sr)"] set_style_part_mutation [OF c(2) k(2)]
    by (simp_all add: s1_def s2_def)
  from mutation_trans [OF mutation_trans [OF this] set_style_part_mutation [OF c(3) k(3)]]
  have "mutation 0 style_keys sr (snd (snd (set_style_part km cur ''background.name'' os1_bg_names compositor_set_background bg s2)))" .
  then show ?thesis by (simp add: sys_set_style_def s1_def s2_def)
qed

text \<open>Through every door but the switch of the style the caller acts in its own name.\<close>

lemma reg_exec_mutation:
  assumes ok: "call_ok p"
  shows "mutation (reg_actor sr p) {k. reg_reach p k} sr (reg_exec p sr)"
proof -
  have door: "mutation (reg_actor sr p) {k. reg_reach p k} sr t"
    if "\<not> is_set_style p" "mutation (registry_caller_owner (fst sr) (reg_caller p)) UNIV sr t" for t
    using that by (simp add: reg_actor_def reg_reach_def)
  show ?thesis
  proof (cases p)
    case (Sys_Registry km to_ns ok cur opn key val sz)
    then show ?thesis using ok sys_registry_mutation by (intro door) simp_all
  next
    case (Regfs_Write km to_ns cur path off d)
    then show ?thesis
      using ok set_any [OF path_to_key_cstr [of path MAX_KEY_LEN], where sr = sr]
        regfs_write_sets [of km to_ns cur path off d sr]
      by (intro door) (simp, simp, metis mutation_refl)
  next
    case (Regfs_Create km cur path ty)
    then show ?thesis
      using ok set_any [OF path_to_key_cstr [of path MAX_KEY_LEN]]
      by (intro door) (simp_all add: regfs_create_def Let_def)
  next
    case (Regfs_Unlink cur path)
    then show ?thesis
      using ok del_any [OF path_to_key_cstr [of path MAX_KEY_LEN]]
      by (intro door) (simp_all add: regfs_unlink_def Let_def)
  next
    case (Regkey_Write km cur path n d)
    then show ?thesis
      using ok set_any [where key = path and sr = sr] regkey_set_sets [of km cur path n d sr]
      by (intro door) (simp, simp, metis mutation_refl)
  next
    case (Set_Style km cur st th bg k)
    then show ?thesis using set_style_mutation by (simp add: reg_actor_def reg_reach_def)
  qed
qed

interpretation rs: owned_store reg_exec reg_cell reg_actor reg_reach call_ok "\<lambda>sr. reg_inv (snd sr)"
proof
  fix sr :: "sched \<times> registry" and p q :: reg_call and k v ow
  show "reg_inv (snd sr) \<Longrightarrow> call_ok p \<Longrightarrow> reg_inv (snd (reg_exec p sr))"
    using reg_exec_mutation [of p sr] by (simp add: mutation_def)
  show "reg_inv (snd sr) \<Longrightarrow> call_ok p \<Longrightarrow> reg_cell sr k = Some (v, ow) \<Longrightarrow>
      reg_actor sr p \<noteq> 0 \<and> reg_actor sr p \<noteq> ow \<or> \<not> reg_reach p k \<Longrightarrow> reg_cell (reg_exec p sr) k = Some (v, ow)"
    using reg_exec_mutation [of p sr] unfolding mutation_def by blast
  show "call_ok p \<Longrightarrow> reg_actor (reg_exec p sr) q = reg_actor sr q"
    using reg_exec_mutation [of p sr] by (simp add: mutation_def reg_actor_def)
qed

section \<open>A small registry\<close>

definition all_ok :: "nat \<Rightarrow> bool" where "all_ok i = True"

definition demo_reg :: registry where
  "demo_reg = \<lparr>reg_root = Reg_Node 0 [] [] 0 False 4
      [Reg_Node 2 ''srv'' [] 0 False 4 [Reg_Node 4 ''notify'' ''7'' 0 True 0 []]],
     registry_count = 1, reg_allocs = 4, registry_defaults_failed = 0\<rparr>"

lemma boot_registry_inv: "reg_inv boot_registry" "tidy (reg_root boot_registry)"
proof -
  have "view boot_registry q = None" for q by (cases q) (simp_all add: boot_registry_def leaf_of_def child_def)
  then have "dom (view boot_registry) = {}" by (auto simp: dom_def)
  then show "reg_inv boot_registry" by (simp add: reg_inv_def) (simp add: boot_registry_def kids_wf_def)
  show "tidy (reg_root boot_registry)" by (simp add: boot_registry_def)
qed

lemma demo_reg_set: "set_stored all_ok ''srv.notify'' ''7'' 0 boot_registry = (0, demo_reg)"
  by code_simp

lemma demo_reg_inv: "reg_inv demo_reg" "tidy (reg_root demo_reg)" "view demo_reg [''srv'', ''notify''] = Some (''7'', 0)"
proof -
  have c: "is_cstr ''srv.notify''" by (simp add: is_cstr_def)
  show "reg_inv demo_reg" "tidy (reg_root demo_reg)"
    using set_stored_refines [OF boot_registry_inv(1) c demo_reg_set] boot_registry_inv(2) by simp_all
  show "view demo_reg [''srv'', ''notify''] = Some (''7'', 0)" by code_simp
qed

section \<open>Properties\<close>

text \<open>C17. \<open>registry_set\<close> on a stored key refines the abstract operation on a map from paths to values with
  owners: a new key is created with the caller as owner, a key of another owner is refused with
  \<open>-EACCES\<close> unless the caller is the system, an empty key is \<open>-EINVAL\<close>; the only other outcome is
  \<open>-ENOMEM\<close> with every key unchanged, and only when an allocation failed.  The tree stays well formed,
  the leaf counter exact, the process table untouched, and success leaves no directory without content.\<close>

theorem registry_set_refines:
  assumes "reg_inv r" and "is_cstr key" and "reg_proc_split key = None"
    and "registry_set km cur (Some key) (Some v) owner (s, r) = (rc, s', r')"
  shows "s' = s \<and> reg_inv r' \<and>
    ((rc, view r') = abs_set (view r) (key_segments key) v owner
     \<or> rc = - ENOMEM \<and> view r' = view r \<and> \<not> (\<forall>j. km j))
    \<and> (rc = 0 \<and> tidy (reg_root r) \<longrightarrow> tidy (reg_root r'))"
proof -
  have "set_stored km key v owner r = (rc, r')" "s' = s"
    using assms(3,4) by (auto simp: registry_set_def reg_virtual_proc_write_def split: prod.splits)
  then show ?thesis using set_stored_refines [OF assms(1,2)] by blast
qed

text \<open>C18. \<open>registry_del\<close> on a stored key removes exactly that key when the caller may, refuses with
  \<open>-ENOENT\<close> or \<open>-EACCES\<close> otherwise and then changes nothing; the counter stays exact, and every directory
  that lost its last content is freed.\<close>

theorem registry_del_refines:
  assumes "reg_inv r" and "is_cstr key" and "reg_proc_split key = None"
    and "registry_del cur (Some key) owner (s, r) = (rc, s', r')"
  shows "s' = s \<and> reg_inv r' \<and> (rc, view r') = abs_del (view r) (key_segments key) owner
    \<and> (tidy (reg_root r) \<longrightarrow> tidy (reg_root r'))"
proof -
  have "del_stored key owner r = (rc, r')" "s' = s"
    using assms(3,4) by (auto simp: registry_del_def reg_virtual_proc_write_def split: prod.splits)
  then show ?thesis using del_stored_refines [OF assms(1,2)] by blast
qed

lemma abs_set_same: "abs_set m k v owner = (0, m') \<Longrightarrow> \<exists>ow. m' k = Some (str_trunc MAX_VAL_LEN v, ow)"
  by (auto simp: abs_set_def EINVAL_def EACCES_def split: if_splits option.splits)

lemma str_trunc_trunc: "m \<le> n \<Longrightarrow> str_trunc m (str_trunc n v) = str_trunc m v"
  by (simp add: str_trunc_def min_def)

text \<open>A value stored with \<open>registry_set\<close> is what \<open>registry_get\<close> returns, cut to the reader's buffer, under
  every spelling of the key that names the same path, and after \<open>registry_del\<close> of the key the read says
  \<open>-ENOENT\<close>.\<close>

theorem registry_set_get_del:
  assumes "reg_inv r" and "is_cstr key" and "reg_proc_split key = None"
    and "is_cstr key'" and "reg_proc_split key' = None" and "key_segments key' = key_segments key"
    and "0 < sz" and "sz \<le> MAX_VAL_LEN"
    and "registry_set km cur (Some key) (Some v) owner (s, r) = (0, s1, r1)"
  shows "registry_get to_ns (Some key') (Some sz) (s1, r1) = (0, Some (str_trunc sz v))
    \<and> (case registry_del cur (Some key) owner (s1, r1) of (rc, s2, r2) \<Rightarrow>
         rc = 0 \<longrightarrow> registry_get to_ns (Some key') (Some sz) (s2, r2) = (- ENOENT, None))"
proof -
  have st: "set_stored km key v owner r = (0, r1)"
    using assms(3,9) by (auto simp: registry_set_def reg_virtual_proc_write_def split: prod.splits)
  have inv1: "reg_inv r1" and "(0, view r1) = abs_set (view r) (key_segments key) v owner"
    using set_stored_refines [OF assms(1,2) st] by (auto simp: ENOMEM_def)
  then obtain ow where "view r1 (key_segments key) = Some (str_trunc MAX_VAL_LEN v, ow)"
    using abs_set_same [of "view r" "key_segments key" v owner "view r1"] by auto
  moreover have get: "registry_get to_ns (Some key') (Some sz) (s', r') = get_stored key' sz r'" for s' r'
    using assms(5,7) by (cases sz) (simp_all add: registry_get_def reg_virtual_proc_def)
  ultimately have "registry_get to_ns (Some key') (Some sz) (s1, r1) = (0, Some (str_trunc sz v))"
    using get_stored_refines [OF inv1 assms(4)] assms(6,8) by (simp add: str_trunc_trunc)
  moreover have "registry_get to_ns (Some key') (Some sz) (s2, r2) = (- ENOENT, None)"
    if del: "registry_del cur (Some key) owner (s1, r1) = (0, s2, r2)" for s2 r2
  proof -
    have "del_stored key owner r1 = (0, r2)"
      using assms(3) del by (auto simp: registry_del_def reg_virtual_proc_write_def split: prod.splits)
    then have "reg_inv r2" "(0, view r2) = abs_del (view r1) (key_segments key) owner"
      using del_stored_refines [OF inv1 assms(2)] by blast+
    then show ?thesis
      using get get_stored_refines [of r2 key' sz] assms(4,6)
      by (auto simp: abs_del_def ENOENT_def EACCES_def split: if_splits option.splits)
  qed
  ultimately show ?thesis by (auto split: prod.split)
qed

text \<open>C19. Ownership: through the system call, the \<open>/reg\<close> files, their creation and removal, and writes to
  object handles, whatever the arguments, allocation results and order of calls, callers that are
  neither privileged nor the owner of a key leave its value and its owner as they are.  The switch of
  the desktop style is the one exception: the kernel writes the keys \<open>style.name\<close>, \<open>theme.color\<close> and
  \<open>background.name\<close> in its own name for any caller that may use windows, and it, too, leaves every other
  key as it is.\<close>

theorem registry_ownership:
  assumes "reg_inv (snd sr)" and "view (snd sr) k = Some (v, ow)"
    and "\<forall>p \<in> set calls. call_ok p \<and>
           (if is_set_style p then k \<notin> style_keys
            else registry_caller_owner (fst sr) (reg_caller p) \<noteq> 0
               \<and> registry_caller_owner (fst sr) (reg_caller p) \<noteq> ow)"
  shows "view (snd (fold reg_exec calls sr)) k = Some (v, ow) \<and> reg_inv (snd (fold reg_exec calls sr))"
proof -
  have "\<forall>p \<in> set calls. call_ok p \<and> (reg_actor sr p \<noteq> 0 \<and> reg_actor sr p \<noteq> ow \<or> \<not> reg_reach p k)"
    using assms(3) unfolding reg_actor_def reg_reach_def by (metis (full_types))
  then show ?thesis
    using rs.run_foreign [of sr calls ow k v] rs.run_inv [of sr calls] assms(1,2) by (simp add: reg_cell_def)
qed

section \<open>Enumeration\<close>

text \<open>The keys below a node in the order of the walk.\<close>

fun leaf_paths :: "reg_node \<Rightarrow> string list list" where
  "leaf_paths (Reg_Node a n v ow l c cs) =
     concat (map (\<lambda>ch. (if is_leaf ch then [[rn_name ch]] else []) @ map (Cons (rn_name ch)) (leaf_paths ch)) cs)"

definition kid_paths :: "reg_node \<Rightarrow> string list list" where
  "kid_paths ch = (if is_leaf ch then [[rn_name ch]] else []) @ map (Cons (rn_name ch)) (leaf_paths ch)"

lemma leaf_paths_kids: "leaf_paths n = concat (map kid_paths (rn_children n))"
  by (cases n) (simp add: kid_paths_def [abs_def])

lemma set_leaf_paths: "node_wf n \<Longrightarrow> set (leaf_paths n) = {q. q \<noteq> [] \<and> reg_map n q \<noteq> None}"
proof (induction n)
  case (Reg_Node a nm v ow l cp cs)
  let ?n = "Reg_Node a nm v ow l cp cs"
  have kid: "set (kid_paths ch) = {q. \<exists>r. q = rn_name ch # r \<and> reg_map ch r \<noteq> None}" if "ch \<in> set cs" for ch
  proof -
    have "set (leaf_paths ch) = {q. q \<noteq> [] \<and> reg_map ch q \<noteq> None}" using Reg_Node that by simp
    moreover have "reg_map ch [] = None \<longleftrightarrow> \<not> is_leaf ch" by (simp add: leaf_of_def)
    ultimately show ?thesis unfolding kid_paths_def by auto
  qed
  have all: "q \<in> set (leaf_paths ?n) \<longleftrightarrow> (\<exists>ch \<in> set cs. q \<in> set (kid_paths ch))" for q
    unfolding leaf_paths_kids by auto
  have "q \<in> set (leaf_paths ?n) \<longleftrightarrow> q \<noteq> [] \<and> reg_map ?n q \<noteq> None" for q
  proof (cases q)
    case Nil
    then show ?thesis unfolding all using kid by auto
  next
    case (Cons s r)
    have "q \<in> set (leaf_paths ?n) \<longleftrightarrow> (\<exists>ch \<in> set cs. rn_name ch = s \<and> reg_map ch r \<noteq> None)"
      unfolding all using kid Cons by auto
    also have "\<dots> \<longleftrightarrow> (\<exists>ch. child ?n s = Some ch \<and> reg_map ch r \<noteq> None)"
      using child_mem [of ?n s] child_at [OF Reg_Node.prems] by (auto simp: in_set_conv_nth)
    finally show ?thesis using Cons by (auto split: option.splits)
  qed
  then show ?case by blast
qed

lemma sorted_leaf_paths: "node_wf n \<Longrightarrow> sorted_wrt (<) (leaf_paths n)"
proof (induction n)
  case (Reg_Node a nm v ow l cp cs)
  have kid: "sorted_wrt (<) (kid_paths ch)" if "ch \<in> set cs" for ch
  proof -
    have "sorted_wrt (<) (leaf_paths ch)" using Reg_Node that by simp
    then show ?thesis
      using set_leaf_paths [of ch] Reg_Node.prems that
      by (auto simp: kid_paths_def sorted_wrt_append sorted_wrt_map neq_Nil_conv)
  qed
  have hd: "q \<in> set (kid_paths ch) \<Longrightarrow> \<exists>r. q = rn_name ch # r" for q ch
    by (auto simp: kid_paths_def split: if_splits)
  have "sorted_wrt (<) (map rn_name cs)" using Reg_Node.prems by (simp add: kids_wf_def)
  then have "sorted_wrt (<) (concat (map kid_paths cs))" using kid
  proof (induction cs)
    case (Cons ch cs)
    have "x < y" if x: "x \<in> set (kid_paths ch)" and y: "y \<in> set (concat (map kid_paths cs))" for x y
    proof -
      obtain d where d: "d \<in> set cs" "y \<in> set (kid_paths d)" using y by auto
      then have "rn_name ch < rn_name d" using Cons.prems(1) by simp
      moreover obtain rx ry where "x = rn_name ch # rx" "y = rn_name d # ry" using hd x d by blast
      ultimately show ?thesis by simp
    qed
    then show ?case using Cons by (simp add: sorted_wrt_append)
  qed simp
  then show ?case by (simp add: leaf_paths_kids)
qed

text \<open>The walk emits the text of each key in turn.\<close>

definition emit_key :: "string \<Rightarrow> nat \<Rightarrow> string \<Rightarrow> string \<Rightarrow> string" where
  "emit_key prefix sz text buf =
     (if (prefix = [] \<or> (length text \<ge> length prefix \<and> take (length prefix) text = prefix))
         \<and> length buf + length text + 2 \<le> sz
      then buf @ text @ [CHR 0x0A] else buf)"

lemma enum_emit_key: "enum_emit prefix sz ch t b = (if is_leaf ch then emit_key prefix sz t b else b)"
  by (simp add: enum_emit_def emit_key_def)

lemma enum_dfs_fold:
  "enum_dfs prefix sz n path buf = fold (\<lambda>q b. emit_key prefix sz (foldl path_append path q) b) (leaf_paths n) buf"
proof (induction n arbitrary: path buf)
  case (Reg_Node a nm v ow l cp cs)
  have kid: "enum_dfs prefix sz ch (path_append path (rn_name ch)) (enum_emit prefix sz ch (path_append path (rn_name ch)) b)
      = fold (\<lambda>q b. emit_key prefix sz (foldl path_append path q) b) (kid_paths ch) b" if "ch \<in> set cs" for ch b
    using Reg_Node [OF that, of "path_append path (rn_name ch)"]
    by (simp add: kid_paths_def enum_emit_key fold_map comp_def)
  have "fold (\<lambda>ch b. let path' = path_append path (rn_name ch)
           in enum_dfs prefix sz ch path' (enum_emit prefix sz ch path' b)) cs buf
      = fold (\<lambda>q b. emit_key prefix sz (foldl path_append path q) b) (concat (map kid_paths cs)) buf"
    using kid by (induction cs arbitrary: buf) (simp_all add: Let_def)
  then show ?case by (simp add: leaf_paths_kids)
qed

lemma emit_bound: "0 < sz \<Longrightarrow> length buf < sz \<Longrightarrow> length (fold (\<lambda>q b. emit_key prefix sz (f q) b) qs buf) < sz"
  by (induction qs arbitrary: buf) (auto simp: emit_key_def)

fun dotted :: "string list \<Rightarrow> string" where
  "dotted [] = []"
| "dotted [s] = s"
| "dotted (s # ss) = s @ ''.'' @ dotted ss"

lemma path_append_dotted:
  assumes "length path + 1 + length (dotted (s # ss)) < PATH_CAP" and "path \<noteq> []"
  shows "foldl path_append path (s # ss) = path @ ''.'' @ dotted (s # ss)"
  using assms
proof (induction ss arbitrary: path s)
  case Nil
  then show ?case by (simp add: path_append_def Let_def)
next
  case (Cons s' ss)
  have l: "length path + 2 + length s + length (dotted (s' # ss)) < PATH_CAP" using Cons.prems(1) by simp
  have p: "path_append path s = path @ ''.'' @ s" using l Cons.prems(2) by (simp add: path_append_def Let_def)
  have "foldl path_append (path @ ''.'' @ s) (s' # ss) = (path @ ''.'' @ s) @ ''.'' @ dotted (s' # ss)"
    using l Cons.prems(2) by (intro Cons.IH) simp_all
  then show ?case using p by simp
qed

lemma key_text:
  assumes "q \<noteq> []" and "hd q \<noteq> []" and "length (dotted q) < PATH_CAP"
  shows "foldl path_append [] q = dotted q"
proof (cases q)
  case (Cons s ss)
  have s: "path_append [] s = s" "s \<noteq> []"
    using assms Cons by (cases ss; simp add: path_append_def)+
  show ?thesis
  proof (cases ss)
    case Nil
    then show ?thesis using Cons s by simp
  next
    case (Cons s' ss')
    then show ?thesis
      using path_append_dotted [of s s' ss'] assms(3) s \<open>q = s # ss\<close> by simp
  qed
qed (use assms in simp)

lemma emit_all:
  assumes "length buf + length (concat (map (\<lambda>q. f q @ [CHR 0x0A]) (filter (\<lambda>q. take (length prefix) (f q) = prefix) qs))) < sz"
  shows "fold (\<lambda>q b. emit_key prefix sz (f q) b) qs buf
    = buf @ concat (map (\<lambda>q. f q @ [CHR 0x0A]) (filter (\<lambda>q. take (length prefix) (f q) = prefix) qs))"
  using assms
proof (induction qs arbitrary: buf)
  case (Cons q qs)
  have "take (length prefix) (f q) = prefix \<Longrightarrow> length prefix \<le> length (f q)" by (metis length_take min.cobounded1)
  then show ?case using Cons by (auto simp: emit_key_def)
qed simp


lemma child_None_of_empty: "\<forall>ch \<in> set (rn_children n). rn_name ch \<noteq> [] \<Longrightarrow> child n [] = None"
  by (auto simp: child_None_iff)

lemma leaf_path_hd: "node_wf n \<Longrightarrow> q \<in> set (leaf_paths n) \<Longrightarrow> q \<noteq> [] \<and> hd q \<noteq> []"
proof -
  assume wf: "node_wf n" and q: "q \<in> set (leaf_paths n)"
  have "kids_wf n" using wf node_wf_iff [of n] by blast
  then have none: "child n [] = None" by (intro child_None_of_empty) (simp add: kids_wf_def seg_ok_def)
  have "q \<noteq> [] \<and> reg_map n q \<noteq> None" using q unfolding set_leaf_paths [OF wf] by simp
  then show ?thesis using none by (cases q) auto
qed

text \<open>Listing keys: for a prefix outside the per-process environments, \<open>registry_enum\<close> returns, in path
  order and each exactly once, the dotted names of the stored keys that begin with the prefix, one per
  line, provided they fit the reader's buffer and the path buffer; whether they fit or not, the listing
  never exceeds the buffer.\<close>

theorem registry_enum_correct:
  fixes prefix :: string and sz :: nat
  assumes "reg_inv r" and "0 < sz" and "case reg_proc_split prefix of None \<Rightarrow> True | Some (n, f) \<Rightarrow> f \<noteq> ''env.''"
  shows "\<exists>out. registry_enum (Some prefix) (Some sz) (s, r) = (int (length out), Some out) \<and> length out < sz \<and>
    (\<exists>ks. sorted_wrt (<) ks \<and> set ks = {k. view r k \<noteq> None \<and> take (length prefix) (dotted k) = prefix} \<and>
       ((\<forall>k. view r k \<noteq> None \<longrightarrow> length (dotted k) < PATH_CAP) \<longrightarrow>
        length (concat (map (\<lambda>k. dotted k @ [CHR 0x0A]) ks)) < sz \<longrightarrow>
        out = concat (map (\<lambda>k. dotted k @ [CHR 0x0A]) ks)))"
proof -
  let ?out = "enum_dfs prefix sz (reg_root r) [] []"
  let ?qs = "leaf_paths (reg_root r)"
  let ?ks = "filter (\<lambda>k. take (length prefix) (dotted k) = prefix) ?qs"
  have wf: "node_wf (reg_root r)" and root: "view r [] = None"
    using assms(1) by (simp_all add: reg_inv_def leaf_of_def)
  have dom: "set ?qs = {k. view r k \<noteq> None}"
    unfolding set_leaf_paths [OF wf] using root by (intro Collect_cong) metis
  obtain m where m: "sz = Suc m" using assms(2) by (cases sz) auto
  have "registry_enum (Some prefix) (Some sz) (s, r) = (int (length ?out), Some ?out)"
    using assms(3) m by (auto simp: registry_enum_def Let_def split: option.splits)
  moreover have "length ?out < sz" unfolding enum_dfs_fold using assms(2) by (intro emit_bound) auto
  moreover have "sorted_wrt (<) ?ks" using sorted_leaf_paths [OF wf] by (rule sorted_wrt_filter)
  moreover have "set ?ks = {k. view r k \<noteq> None \<and> take (length prefix) (dotted k) = prefix}" using dom by auto
  moreover have "?out = concat (map (\<lambda>k. dotted k @ [CHR 0x0A]) ?ks)"
    if short: "\<forall>k. view r k \<noteq> None \<longrightarrow> length (dotted k) < PATH_CAP"
      and fits: "length (concat (map (\<lambda>k. dotted k @ [CHR 0x0A]) ?ks)) < sz"
  proof -
    have "foldl path_append [] k = dotted k" if "k \<in> set ?qs" for k
      using leaf_path_hd [OF wf that] short dom that by (intro key_text) auto
    then have "?out = fold (\<lambda>q b. emit_key prefix sz (dotted q) b) ?qs []"
      unfolding enum_dfs_fold by (intro fold_cong) auto
    then show ?thesis using emit_all [of "[]" dotted prefix ?qs sz] fits by simp
  qed
  ultimately show ?thesis by blast
qed

section \<open>Identifiers and the environment\<close>

text \<open>An identifier that \<open>regfs_open\<close> handed out outlives its node: after the key is deleted, reading
  through it reaches freed memory, although the read succeeded before.\<close>

theorem regfs_handle_dangles:
  "\<exists>node. regfs_open ''/srv/notify'' demo_reg = (0, Some node)
     \<and> regfs_read node 0 8 demo_reg = Inr (1, ''7'')
     \<and> fst (registry_del None (Some ''srv.notify'') 0 (boot_sched, demo_reg)) = 0
     \<and> regfs_read node 0 8 (snd (snd (registry_del None (Some ''srv.notify'') 0 (boot_sched, demo_reg)))) = Inl Use_After_Free"
proof -
  have "regfs_open ''/srv/notify'' demo_reg = (0, Some \<lparr>vn_id = 4, vn_type = VFS_TYPE_FILE, vn_size = 1\<rparr>)" by code_simp
  moreover have "regfs_read \<lparr>vn_id = 4, vn_type = VFS_TYPE_FILE, vn_size = 1\<rparr> 0 8 demo_reg = Inr (1, ''7'')" by code_simp
  moreover have "fst (registry_del None (Some ''srv.notify'') 0 (boot_sched, demo_reg)) = 0" by code_simp
  moreover have "regfs_read \<lparr>vn_id = 4, vn_type = VFS_TYPE_FILE, vn_size = 1\<rparr> 0 8
      (snd (snd (registry_del None (Some ''srv.notify'') 0 (boot_sched, demo_reg)))) = Inl Use_After_Free" by code_simp
  ultimately show ?thesis by blast
qed

text \<open>The environment behind the virtual keys: a successful \<open>registry_set\<close> of
  \<open>sys.proc.<pid>.env.<NAME>\<close> leaves the stored tree alone and stores the variable, so that a read of the
  same key through the registry returns the value; the caller was the process itself or privileged,
  and needs no registry capability.\<close>

theorem registry_env_roundtrip:
  assumes "reg_proc_split key = Some (n, ''env.'' @ nm)" and "v \<noteq> []"
    and "registry_set km cur (Some key) (Some v) owner (s, r) = (0, s', r')"
  shows "r' = r \<and> registry_get to_ns (Some key) (Some (Suc m)) (s', r') = (0, Some (take m v))
    \<and> (\<forall>c. cur = Some c \<longrightarrow> pid (procs s c) = n \<or> plevel (procs s c) \<le> PLVL_ROOT)"
proof -
  have set: "nm \<noteq> []" "proc_env_set s cur n (Some nm) (Some v) = (0, s')" "r' = r"
    using assms by (auto simp: registry_set_def reg_virtual_proc_write_def EACCES_def split: if_splits prod.splits)
  have get: "proc_env_get s' n (Some nm) (Some (Suc m)) = (0, Some (take m v))"
    and auth: "\<forall>c. cur = Some c \<longrightarrow> pid (procs s c) = n \<or> plevel (procs s c) \<le> PLVL_ROOT"
    using proc_env_set_then_get [OF set(2) assms(2)] by blast+
  have "process_find_by_pid s' n \<noteq> None"
    using get by (cases "process_find_by_pid s' n") (auto simp: proc_env_get_def env_find_def ENOENT_def Let_def)
  then obtain p where "proc_get_info to_ns s' n = Some p" by (auto simp: proc_get_info_def)
  then have "reg_virtual_proc to_ns s' key (Suc m) = (1, take m v)"
    using assms(1) set(1) get by (simp add: reg_virtual_proc_def)
  then show ?thesis using set(3) auth by (simp add: registry_get_def)
qed

text \<open>The process number of a virtual key is computed in a C \<open>int\<close>: a number beyond its range names another
  process.\<close>

lemma virtual_pid_wraps: "reg_proc_split ''sys.proc.4294967297.name'' = Some (1, ''name'')"
  by code_simp

theorem registry_env_roundtrip_witness:
  "registry_get id (Some ''sys.proc.9.env.HOME'') (Some 4)
     (snd (registry_set all_ok (Some 2) (Some ''sys.proc.9.env.HOME'') (Some ''/root'') 9 (demo_sched, demo_reg)))
   = (0, Some ''/ro'')"
proof -
  let ?x = "registry_set all_ok (Some 2) (Some ''sys.proc.9.env.HOME'') (Some ''/root'') 9 (demo_sched, demo_reg)"
  have sp: "reg_proc_split ''sys.proc.9.env.HOME'' = Some (9, ''env.'' @ ''HOME'')" by code_simp
  have "fst ?x = 0" by code_simp
  then have "?x = (0, fst (snd ?x), snd (snd ?x))" by (metis prod.collapse)
  from registry_env_roundtrip [OF sp _ this, of id 3] show ?thesis by (simp add: numeral_eq_Suc)
qed

section \<open>Instances of the properties\<close>

lemma demo_cstr: "is_cstr ''srv.notify''" "is_cstr ''srv..notify''" "is_cstr ''srv.clock''"
  by (simp_all add: is_cstr_def)

lemma demo_split: "reg_proc_split ''srv.notify'' = None" "reg_proc_split ''srv..notify'' = None"
  "reg_proc_split ''srv.clock'' = None" "reg_proc_split ''srv'' = None"
  by code_simp+

lemma demo_segments: "key_segments ''srv.clock'' = [''srv'', ''clock'']" "key_segments ''srv.notify'' = [''srv'', ''notify'']"
  "key_segments ''srv..notify'' = [''srv'', ''notify'']"
  by code_simp+

theorem registry_set_refines_witness:
  "view (snd (snd (registry_set all_ok (Some 2) (Some ''srv.clock'') (Some ''on'') 9 (demo_sched, demo_reg))))
     [''srv'', ''clock''] = Some (''on'', 9)"
proof -
  let ?x = "registry_set all_ok (Some 2) (Some ''srv.clock'') (Some ''on'') 9 (demo_sched, demo_reg)"
  have "?x = (fst ?x, fst (snd ?x), snd (snd ?x))" by simp
  from registry_set_refines [OF demo_reg_inv(1) demo_cstr(3) demo_split(3) this]
  have "(fst ?x, view (snd (snd ?x))) = abs_set (view demo_reg) [''srv'', ''clock''] ''on'' 9"
    unfolding demo_segments all_ok_def by blast
  moreover have "view demo_reg [''srv'', ''clock''] = None" by code_simp
  ultimately show ?thesis by (simp add: abs_set_def str_trunc_def MAX_VAL_LEN_def)
qed

theorem registry_del_refines_witness:
  "view (snd (snd (registry_del None (Some ''srv.notify'') 0 (demo_sched, demo_reg)))) [''srv'', ''notify''] = None"
proof -
  let ?x = "registry_del None (Some ''srv.notify'') 0 (demo_sched, demo_reg)"
  have "?x = (fst ?x, fst (snd ?x), snd (snd ?x))" by simp
  from registry_del_refines [OF demo_reg_inv(1) demo_cstr(1) demo_split(1) this]
  have "(fst ?x, view (snd (snd ?x))) = abs_del (view demo_reg) [''srv'', ''notify''] 0"
    unfolding demo_segments by blast
  then show ?thesis using demo_reg_inv(3) by (simp add: abs_del_def)
qed

theorem registry_set_get_del_witness:
  "registry_get id (Some ''srv..notify'') (Some 4)
     (snd (registry_set all_ok None (Some ''srv.notify'') (Some ''12345'') 0 (demo_sched, demo_reg))) = (0, Some ''123'')"
proof -
  let ?x = "registry_set all_ok None (Some ''srv.notify'') (Some ''12345'') 0 (demo_sched, demo_reg)"
  have "fst ?x = 0" by code_simp
  then have x: "?x = (0, fst (snd ?x), snd (snd ?x))" by (metis prod.collapse)
  have "key_segments ''srv..notify'' = key_segments ''srv.notify''" by (simp add: demo_segments)
  from registry_set_get_del [OF demo_reg_inv(1) demo_cstr(1) demo_split(1) demo_cstr(2) demo_split(2) this _ _ x, of 4 id]
  show ?thesis by (simp add: MAX_VAL_LEN_def str_trunc_def numeral_eq_Suc)
qed

definition demo_calls :: "reg_call list" where
  "demo_calls = [Sys_Registry all_ok id True (Some 2) 1 (UStr ''srv.notify'') (UStr ''evil'') 0,
     Sys_Registry all_ok id True (Some 2) 3 (UStr ''srv.notify'') UNull 0, Regfs_Unlink (Some 2) ''/srv/notify'',
     Regkey_Write all_ok (Some 2) ''srv.notify'' 4 (Some ''evil''),
     Set_Style all_ok (Some 2) 1 1 1 \<lparr>active_style = 4, active_theme = 1, active_background = 4\<rparr>]"

theorem registry_ownership_witness:
  "view (snd (fold reg_exec demo_calls (demo_sched, demo_reg))) [''srv'', ''notify''] = Some (''7'', 0)"
proof -
  have "registry_caller_owner demo_sched (Some 2) = 9" by code_simp
  then have "\<forall>p \<in> set demo_calls. call_ok p \<and>
      (if is_set_style p then [''srv'', ''notify''] \<notin> style_keys
       else registry_caller_owner (fst (demo_sched, demo_reg)) (reg_caller p) \<noteq> 0
         \<and> registry_caller_owner (fst (demo_sched, demo_reg)) (reg_caller p) \<noteq> 0)"
    by (simp add: demo_calls_def is_cstr_def style_keys_def)
  from registry_ownership [OF _ _ this, of "''7''"] demo_reg_inv
  show ?thesis by simp
qed

theorem registry_enum_correct_witness:
  "\<exists>out. registry_enum (Some ''srv'') (Some 64) (demo_sched, demo_reg) = (int (length out), Some out) \<and> length out < 64"
  using registry_enum_correct [OF demo_reg_inv(1), of 64 "''srv''" demo_sched] demo_split(4) by auto

end
