(* ===== verification/Registry_Lock.thy ===== *)
theory Registry_Lock
  imports Main
begin

text \<open>
  The reader/writer lock of the registry (\<open>reg_read_lock\<close>, \<open>reg_read_unlock\<close>, \<open>reg_write_lock\<close>,
  \<open>reg_write_unlock\<close> of \<open>kernel/lib/registry.c\<close>): two spin locks and a reader count.  Each thread
  is in one phase; a step is one atomic action of one thread, and acquiring a spin lock is possible
  only when it is free.
\<close>

datatype lock_phase =
    Outside
  | Entering \<comment> \<open>holds \<open>reg_cnt_lock\<close>, has counted itself\<close>
  | Reading
  | Leaving \<comment> \<open>holds \<open>reg_cnt_lock\<close>, has uncounted itself\<close>
  | Writing

record reg_lock =
  res_held :: bool
  cnt_held :: bool
  reg_readers :: nat
  phases :: "lock_phase list"

definition goto :: "nat \<Rightarrow> lock_phase \<Rightarrow> reg_lock \<Rightarrow> reg_lock" where
  "goto t ph l = l\<lparr>phases := (phases l)[t := ph]\<rparr>"

text \<open>\<open>reg_read_lock\<close>: taking \<open>reg_cnt_lock\<close> and counting, then, for the first reader, taking
  \<open>reg_res_lock\<close>, and releasing \<open>reg_cnt_lock\<close>.\<close>

definition read_lock_count :: "nat \<Rightarrow> reg_lock \<Rightarrow> reg_lock option" where
  "read_lock_count t l =
     (if cnt_held l then None else Some (goto t Entering (l\<lparr>cnt_held := True, reg_readers := reg_readers l + 1\<rparr>)))"

definition read_lock_admit :: "nat \<Rightarrow> reg_lock \<Rightarrow> reg_lock option" where
  "read_lock_admit t l =
     (if reg_readers l = 1
      then if res_held l then None else Some (goto t Reading (l\<lparr>res_held := True, cnt_held := False\<rparr>))
      else Some (goto t Reading (l\<lparr>cnt_held := False\<rparr>)))"

definition read_unlock_count :: "nat \<Rightarrow> reg_lock \<Rightarrow> reg_lock option" where
  "read_unlock_count t l =
     (if cnt_held l then None else Some (goto t Leaving (l\<lparr>cnt_held := True, reg_readers := reg_readers l - 1\<rparr>)))"

definition read_unlock_release :: "nat \<Rightarrow> reg_lock \<Rightarrow> reg_lock option" where
  "read_unlock_release t l =
     Some (goto t Outside (if reg_readers l = 0 then l\<lparr>res_held := False, cnt_held := False\<rparr>
                           else l\<lparr>cnt_held := False\<rparr>))"

definition reg_write_lock :: "nat \<Rightarrow> reg_lock \<Rightarrow> reg_lock option" where
  "reg_write_lock t l = (if res_held l then None else Some (goto t Writing (l\<lparr>res_held := True\<rparr>)))"

definition reg_write_unlock :: "nat \<Rightarrow> reg_lock \<Rightarrow> reg_lock option" where
  "reg_write_unlock t l = Some (goto t Outside (l\<lparr>res_held := False\<rparr>))"

inductive lock_step :: "nat \<Rightarrow> reg_lock \<Rightarrow> reg_lock \<Rightarrow> bool" for t l l' where
  enter: "t < length (phases l) \<Longrightarrow> phases l ! t = Outside \<Longrightarrow> read_lock_count t l = Some l' \<Longrightarrow> lock_step t l l'"
| admit: "t < length (phases l) \<Longrightarrow> phases l ! t = Entering \<Longrightarrow> read_lock_admit t l = Some l' \<Longrightarrow> lock_step t l l'"
| leave: "t < length (phases l) \<Longrightarrow> phases l ! t = Reading \<Longrightarrow> read_unlock_count t l = Some l' \<Longrightarrow> lock_step t l l'"
| release: "t < length (phases l) \<Longrightarrow> phases l ! t = Leaving \<Longrightarrow> read_unlock_release t l = Some l' \<Longrightarrow> lock_step t l l'"
| wlock: "t < length (phases l) \<Longrightarrow> phases l ! t = Outside \<Longrightarrow> reg_write_lock t l = Some l' \<Longrightarrow> lock_step t l l'"
| wunlock: "t < length (phases l) \<Longrightarrow> phases l ! t = Writing \<Longrightarrow> reg_write_unlock t l = Some l' \<Longrightarrow> lock_step t l l'"

inductive lock_reachable :: "nat \<Rightarrow> reg_lock \<Rightarrow> bool" for n where
  start: "lock_reachable n \<lparr>res_held = False, cnt_held = False, reg_readers = 0, phases = replicate n Outside\<rparr>"
| step: "lock_reachable n l \<Longrightarrow> lock_step t l l' \<Longrightarrow> lock_reachable n l'"

section \<open>The invariant\<close>

lemma count_list_update:
  "t < length ps \<Longrightarrow> ps ! t \<noteq> ph \<Longrightarrow> count_list (ps[t := ph]) q =
     (if q = ph then Suc (count_list ps q) else if q = ps ! t then count_list ps q - 1 else count_list ps q)"
proof (induction ps arbitrary: t)
  case (Cons p ps)
  have "t < length xs \<Longrightarrow> 0 < count_list xs (xs ! t)" for xs :: "'a list" and t
    by (metis count_list_0_iff gr0I nth_mem)
  then show ?case using Cons by (cases t) (auto simp: Suc_diff_1)
qed simp

abbreviation cnt :: "reg_lock \<Rightarrow> lock_phase \<Rightarrow> nat" where
  "cnt l ph \<equiv> count_list (phases l) ph"

definition lock_inv :: "reg_lock \<Rightarrow> bool" where
  "lock_inv l \<longleftrightarrow> reg_readers l = cnt l Entering + cnt l Reading
     \<and> cnt l Entering + cnt l Leaving = (if cnt_held l then 1 else 0)
     \<and> cnt l Writing \<le> 1
     \<and> (cnt l Writing = 1 \<longrightarrow> res_held l \<and> cnt l Reading = 0 \<and> cnt l Leaving = 0)
     \<and> (cnt l Reading + cnt l Leaving > 0 \<longrightarrow> res_held l)
     \<and> (res_held l \<longrightarrow> cnt l Writing + cnt l Reading + cnt l Leaving > 0)"

lemma count_pos: "t < length ps \<Longrightarrow> ps ! t = ph \<Longrightarrow> 0 < count_list ps ph"
  by (metis count_list_0_iff gr0I nth_mem)

lemma lock_inv_goto:
  assumes "t < length (phases l)" and "phases l ! t \<noteq> ph" and "phases m = phases l"
  shows "cnt (goto t ph m) q =
     (if q = ph then Suc (cnt l q) else if q = phases l ! t then cnt l q - 1 else cnt l q)"
    "0 < cnt l (phases l ! t)"
    "res_held (goto t ph m) = res_held m" "cnt_held (goto t ph m) = cnt_held m" "reg_readers (goto t ph m) = reg_readers m"
  using assms count_list_update [OF assms(1,2), of q] count_pos [OF assms(1) refl] by (simp_all add: goto_def)

lemma lock_step_inv: "lock_step t l l' \<Longrightarrow> lock_inv l \<Longrightarrow> lock_inv l'"
proof (induction rule: lock_step.induct)
  case enter
  then have l': "l' = goto t Entering (l\<lparr>cnt_held := True, reg_readers := reg_readers l + 1\<rparr>)" "\<not> cnt_held l"
    by (auto simp: read_lock_count_def split: if_splits)
  show ?case using enter(4) l'(2) lock_inv_goto(2) [of t l Entering l] enter(1,2)
    unfolding lock_inv_def l'(1) by (simp add: lock_inv_goto [OF enter(1)]) auto
next
  case admit
  have pos: "0 < cnt l Entering" using admit(1,2) by (rule count_pos)
  show ?case
  proof (cases "reg_readers l = 1")
    case True
    then have l': "l' = goto t Reading (l\<lparr>res_held := True, cnt_held := False\<rparr>)" "\<not> res_held l"
      using admit(3) by (auto simp: read_lock_admit_def split: if_splits)
    show ?thesis using admit(4) l'(2) pos True
      unfolding lock_inv_def l'(1) by (simp add: lock_inv_goto [OF admit(1)] admit(2) split: if_splits)
  next
    case False
    then have l': "l' = goto t Reading (l\<lparr>cnt_held := False\<rparr>)"
      using admit(3) by (auto simp: read_lock_admit_def split: if_splits)
    show ?thesis using admit(4) pos False
      unfolding lock_inv_def l' by (simp add: lock_inv_goto [OF admit(1)] admit(2) split: if_splits; auto)
  qed
next
  case leave
  have pos: "0 < cnt l Reading" using leave(1,2) by (rule count_pos)
  have l': "l' = goto t Leaving (l\<lparr>cnt_held := True, reg_readers := reg_readers l - 1\<rparr>)" "\<not> cnt_held l"
    using leave(3) by (auto simp: read_unlock_count_def split: if_splits)
  show ?case using leave(4) l'(2) pos
    unfolding lock_inv_def l'(1) by (simp add: lock_inv_goto [OF leave(1)] leave(2); auto)
next
  case release
  have pos: "0 < cnt l Leaving" using release(1,2) by (rule count_pos)
  have l': "l' = goto t Outside (if reg_readers l = 0 then l\<lparr>res_held := False, cnt_held := False\<rparr> else l\<lparr>cnt_held := False\<rparr>)"
    using release(3) by (auto simp: read_unlock_release_def)
  show ?case using release(4) pos
    unfolding lock_inv_def l' by (simp add: lock_inv_goto [OF release(1)] release(2) split: if_splits; auto)
next
  case wlock
  have l': "l' = goto t Writing (l\<lparr>res_held := True\<rparr>)" "\<not> res_held l"
    using wlock(3) by (auto simp: reg_write_lock_def split: if_splits)
  show ?case using wlock(4) l'(2)
    unfolding lock_inv_def l'(1) by (simp add: lock_inv_goto [OF wlock(1)] wlock(2))
next
  case wunlock
  have pos: "0 < cnt l Writing" using wunlock(1,2) by (rule count_pos)
  have l': "l' = goto t Outside (l\<lparr>res_held := False\<rparr>)" using wunlock(3) by (auto simp: reg_write_unlock_def)
  show ?case using wunlock(4) pos
    unfolding lock_inv_def l' by (simp add: lock_inv_goto [OF wunlock(1)] wunlock(2); auto)
qed

lemma count_list_replicate_other: "a \<noteq> b \<Longrightarrow> count_list (replicate n a) b = 0"
  by (induction n) auto

lemma lock_reachable_inv: "lock_reachable n l \<Longrightarrow> lock_inv l \<and> length (phases l) = n"
proof (induction rule: lock_reachable.induct)
  case start
  show ?case by (simp add: lock_inv_def count_list_replicate_other)
next
  case (step l t l')
  have "length (phases l') = length (phases l)"
    using step.hyps(2)
    by cases (auto simp: goto_def read_lock_count_def read_lock_admit_def read_unlock_count_def read_unlock_release_def
        reg_write_lock_def reg_write_unlock_def split: if_splits)
  then show ?case using step lock_step_inv by simp
qed

lemma two_positions: "i < length ps \<Longrightarrow> j < length ps \<Longrightarrow> i \<noteq> j \<Longrightarrow> ps ! i = ph \<Longrightarrow> ps ! j = ph \<Longrightarrow> 2 \<le> count_list ps ph"
proof -
  assume a: "i < length ps" "j < length ps" "i \<noteq> j" "ps ! i = ph" "ps ! j = ph"
  have "card {i, j} \<le> card {k. k < length ps \<and> ps ! k = ph}" using a by (intro card_mono) auto
  moreover have "card {k. k < length ps \<and> ps ! k = ph} = count_list ps ph"
    by (simp add: count_list_eq_length_filter length_filter_conv_card) (metis (mono_tags, lifting))
  ultimately show ?thesis using a(3) by simp
qed

text \<open>C20. Mutual exclusion of the registry lock: with any number of threads and any interleaving of their
  steps, while one thread is inside as a writer no other thread is inside, as a writer or as a reader.\<close>

theorem reg_lock_exclusion:
  assumes "lock_reachable n l" and "t < n" and "phases l ! t = Writing"
  shows "\<forall>u < n. u \<noteq> t \<longrightarrow> phases l ! u \<noteq> Writing \<and> phases l ! u \<noteq> Reading"
proof (intro allI impI)
  fix u assume u: "u < n" "u \<noteq> t"
  have inv: "lock_inv l" "length (phases l) = n" using lock_reachable_inv [OF assms(1)] by simp_all
  have "cnt l Writing = 1" using inv count_pos [of t "phases l" Writing] assms(2,3) by (simp add: lock_inv_def)
  then have "cnt l Reading = 0" "cnt l Writing < 2" using inv(1) by (simp_all add: lock_inv_def)
  then show "phases l ! u \<noteq> Writing \<and> phases l ! u \<noteq> Reading"
    using two_positions [of u "phases l" t Writing] count_pos [of u "phases l" Reading] u inv(2) assms(2,3) by auto
qed

text \<open>The registry lock never deadlocks: whenever some thread is not outside, some thread that
  is not outside can take its next step.\<close>

theorem reg_lock_progress:
  assumes "lock_reachable n l" and "t < n" and "phases l ! t \<noteq> Outside"
  shows "\<exists>u l'. u < n \<and> phases l ! u \<noteq> Outside \<and> lock_step u l l'"
proof -
  have inv: "lock_inv l" "length (phases l) = n" using lock_reachable_inv [OF assms(1)] by simp_all
  have ex: "0 < cnt l ph \<Longrightarrow> \<exists>u < n. phases l ! u = ph" for ph
    using inv(2) by (metis count_list_0_iff in_set_conv_nth less_not_refl)
  consider (w) "0 < cnt l Writing" | (lv) "0 < cnt l Leaving" | (en) "cnt l Writing = 0" "0 < cnt l Entering"
    | (rd) "cnt l Entering = 0" "cnt l Leaving = 0" "0 < cnt l Reading"
    using assms(2,3) inv(2) count_pos [of t "phases l" "phases l ! t"] by (cases "phases l ! t") auto
  then show ?thesis
  proof cases
    case w
    then obtain u where "u < n" "phases l ! u = Writing" using ex by blast
    then show ?thesis using inv(2) lock_step.wunlock [of u l] by (auto simp: reg_write_unlock_def)
  next
    case lv
    then obtain u where "u < n" "phases l ! u = Leaving" using ex by blast
    then show ?thesis using inv(2) lock_step.release [of u l] by (auto simp: read_unlock_release_def)
  next
    case en
    then obtain u where u: "u < n" "phases l ! u = Entering" using ex by blast
    have "reg_readers l = 1 \<Longrightarrow> \<not> res_held l"
      using inv(1) en unfolding lock_inv_def by (auto split: if_splits)
    then have "\<exists>l'. read_lock_admit u l = Some l'" by (auto simp: read_lock_admit_def)
    then obtain l' where "lock_step u l l'" using u inv(2) lock_step.admit [of u l] by auto
    then show ?thesis using u by (intro exI [of _ u] exI [of _ l']) simp
  next
    case rd
    then obtain u where u: "u < n" "phases l ! u = Reading" using ex by blast
    have "\<not> cnt_held l" using inv(1) rd by (auto simp: lock_inv_def split: if_splits)
    then show ?thesis using u inv(2) lock_step.leave [of u l] by (auto simp: read_unlock_count_def)
  qed
qed


text \<open>Two readers inside at once, reached step by step.\<close>

definition two_readers :: reg_lock where
  "two_readers = \<lparr>res_held = True, cnt_held = False, reg_readers = 2, phases = [Reading, Reading]\<rparr>"

definition one_writer :: reg_lock where
  "one_writer = \<lparr>res_held = True, cnt_held = False, reg_readers = 0, phases = [Writing, Outside]\<rparr>"

lemma one_writer_reachable: "lock_reachable 2 one_writer"
proof -
  let ?s = "\<lparr>res_held = False, cnt_held = False, reg_readers = 0, phases = replicate 2 Outside\<rparr>"
  have "lock_step 0 ?s one_writer"
    by (rule lock_step.wlock) (simp_all add: reg_write_lock_def goto_def one_writer_def numeral_2_eq_2)
  then show ?thesis by (rule lock_reachable.step [OF lock_reachable.start])
qed

lemma two_readers_reachable: "lock_reachable 2 two_readers"
proof -
  let ?s0 = "\<lparr>res_held = False, cnt_held = False, reg_readers = 0, phases = replicate 2 Outside\<rparr>"
  let ?s1 = "\<lparr>res_held = False, cnt_held = True, reg_readers = 1, phases = [Entering, Outside]\<rparr>"
  let ?s2 = "\<lparr>res_held = True, cnt_held = False, reg_readers = 1, phases = [Reading, Outside]\<rparr>"
  let ?s3 = "\<lparr>res_held = True, cnt_held = True, reg_readers = 2, phases = [Reading, Entering]\<rparr>"
  have "lock_step 0 ?s0 ?s1" by (rule lock_step.enter) (simp_all add: read_lock_count_def goto_def numeral_2_eq_2)
  moreover have "lock_step 0 ?s1 ?s2" by (rule lock_step.admit) (simp_all add: read_lock_admit_def goto_def)
  moreover have "lock_step 1 ?s2 ?s3" by (rule lock_step.enter) (simp_all add: read_lock_count_def goto_def)
  moreover have "lock_step 1 ?s3 two_readers"
    by (rule lock_step.admit) (simp_all add: read_lock_admit_def goto_def two_readers_def)
  ultimately show ?thesis by (meson lock_reachable.start lock_reachable.step)
qed

theorem reg_lock_exclusion_witness:
  "phases one_writer ! 1 \<noteq> Writing \<and> phases one_writer ! 1 \<noteq> Reading"
  using reg_lock_exclusion [OF one_writer_reachable, of 0] by (simp add: one_writer_def)

theorem reg_lock_progress_witness:
  "\<exists>u l'. u < 2 \<and> phases two_readers ! u \<noteq> Outside \<and> lock_step u two_readers l'"
  using reg_lock_progress [OF two_readers_reachable, of 0] by (simp add: two_readers_def)

end
