(* ===== verification/Heap.thy ===== *)
theory Heap
  imports Pmm_Correct Kstring
begin

text \<open>
  The kernel heap (\<open>kernel/lib/kmalloc.c\<close>): nine power-of-two buckets over chunks of the page
  allocator, large blocks straight from it, and the statistics.

  \<open>hdrs h a\<close> is what a read of \<open>struct block_header\<close> at address \<open>a\<close> yields: fresh pages read as zero
  headers, released pages as the poison of the page allocator, and the allocator's own writes go
  through it.  Only the headers of slots and large blocks are constrained by the invariant; what the
  payload of a block reads as is arbitrary, so it may imitate a header.  The bytes themselves are the
  memory of the page allocator.  Three lists record what the heap has taken so far
  (chunks, slots carved from them, large blocks) and a fourth the chunks a caller has fetched but
  not yet installed while it does not hold the lock; the code does not have these lists and no
  function reads them.
\<close>

unbundle bit_operations_syntax

section \<open>State\<close>

definition KMALLOC_CHUNK_SIZE :: nat where "KMALLOC_CHUNK_SIZE = 4194304"
definition NUM_BUCKETS :: nat where "NUM_BUCKETS = 9"
definition BLOCK_MAGIC :: u32 where "BLOCK_MAGIC = 0xDEADBEEF"
definition BLOCK_FREE :: u32 where "BLOCK_FREE = 0xDEADDEAD"
definition LARGE_IDX :: u32 where "LARGE_IDX = 0xFFFFFFFF"

record block_header =
  bh_magic :: u32
  bh_size :: u32
  bh_next :: ptr
  bh_bucket :: u32

text \<open>\<open>sizeof(struct block_header)\<close> with its alignment of 16.\<close>

definition HEADER_SIZE :: u64 where "HEADER_SIZE = 32"

record heap =
  heap_ptr :: ptr
  heap_end :: ptr
  heap_total :: u64
  buckets :: "nat \<Rightarrow> ptr"
  heap_initialized :: bool
  km_lock :: bool
  stat_bytes_in_use :: u64
  stat_high_water :: u64
  stat_live_allocs :: u64
  hdrs :: "ptr \<Rightarrow> block_header"
  hpmm :: pmm
  km_chunks :: "ptr list"
  km_slots :: "(ptr \<times> nat) list"
  km_large :: "(ptr \<times> nat) list"
  km_flight :: "ptr list"

definition zero_header :: block_header where
  "zero_header = \<lparr>bh_magic = 0, bh_size = 0, bh_next = 0, bh_bucket = 0\<rparr>"

definition poison_header :: block_header where
  "poison_header = \<lparr>bh_magic = 0xCCCCCCCC, bh_size = 0xCCCCCCCC, bh_next = 0xCCCCCCCCCCCCCCCC,
     bh_bucket = 0xCCCCCCCC\<rparr>"

definition fill_headers :: "ptr \<Rightarrow> nat \<Rightarrow> block_header \<Rightarrow> heap \<Rightarrow> heap" where
  "fill_headers p n b h = h\<lparr>hdrs := (\<lambda>a. if in_range p (n * PAGE_SIZE) a then b else hdrs h a)\<rparr>"

text \<open>Calls of the page allocator.\<close>

definition heap_alloc_pages :: "nat \<Rightarrow> heap \<Rightarrow> ptr \<times> heap" where
  "heap_alloc_pages n h =
     (case pmm_alloc_pages n (hpmm h) of
        (p, pm) \<Rightarrow> (p, if p = NULL then h\<lparr>hpmm := pm\<rparr> else fill_headers p n zero_header (h\<lparr>hpmm := pm\<rparr>)))"

definition heap_free_pages :: "ptr \<Rightarrow> nat \<Rightarrow> heap \<Rightarrow> heap kres" where
  "heap_free_pages p n h =
     kbind (pmm_free_pages p n (hpmm h)) (\<lambda>pm. Inr (fill_headers p n poison_header (h\<lparr>hpmm := pm\<rparr>)))"

section \<open>Statistics and buckets\<close>

definition km_stat_alloc :: "u64 \<Rightarrow> heap \<Rightarrow> heap" where
  "km_stat_alloc sz h =
     (let n = stat_bytes_in_use h + sz;
          h1 = h\<lparr>stat_bytes_in_use := n, stat_live_allocs := stat_live_allocs h + 1\<rparr>
      in if n > stat_high_water h1 then h1\<lparr>stat_high_water := n\<rparr> else h1)"

definition km_stat_free :: "u64 \<Rightarrow> heap \<Rightarrow> heap" where
  "km_stat_free sz h = h\<lparr>stat_bytes_in_use := stat_bytes_in_use h - sz,
                         stat_live_allocs := stat_live_allocs h - 1\<rparr>"

definition get_bucket_index :: "u64 \<Rightarrow> int" where
  "get_bucket_index sz =
     (if sz \<le> 16 then 0 else if sz \<le> 32 then 1 else if sz \<le> 64 then 2 else if sz \<le> 128 then 3
      else if sz \<le> 256 then 4 else if sz \<le> 512 then 5 else if sz \<le> 1024 then 6 else if sz \<le> 2048 then 7
      else if sz \<le> 4096 then 8 else - 1)"

definition get_bucket_size :: "nat \<Rightarrow> u64" where
  "get_bucket_size idx = push_bit idx 16"

definition kmalloc_init :: "heap \<Rightarrow> heap" where
  "kmalloc_init h =
     (if heap_initialized h then h
      else case heap_alloc_pages ((KMALLOC_CHUNK_SIZE + 4095) div 4096) h of
        (chunk, h1) \<Rightarrow>
          if chunk = NULL then h1
          else h1\<lparr>heap_ptr := chunk, heap_end := chunk + of_nat KMALLOC_CHUNK_SIZE,
                  heap_total := of_nat KMALLOC_CHUNK_SIZE, buckets := (\<lambda>i. if i < NUM_BUCKETS then NULL else buckets h1 i),
                  heap_initialized := True, km_chunks := chunk # km_chunks h1\<rparr>)"

section \<open>Allocation\<close>

definition put_header :: "ptr \<Rightarrow> u64 \<Rightarrow> u32 \<Rightarrow> heap \<Rightarrow> heap" where
  "put_header blk sz idx h =
     h\<lparr>hdrs := (hdrs h)(blk := \<lparr>bh_magic = BLOCK_MAGIC, bh_size = ucast sz, bh_next = NULL, bh_bucket = idx\<rparr>)\<rparr>"

text \<open>Is there room for one more slot in the active chunk?\<close>

definition has_room :: "nat \<Rightarrow> heap \<Rightarrow> bool" where
  "has_room idx h \<longleftrightarrow> heap_ptr h + get_bucket_size idx \<le> heap_end h"

text \<open>One pass of the loop under the lock: pop the free list or carve a slot.\<close>

definition km_take :: "nat \<Rightarrow> u64 \<Rightarrow> heap \<Rightarrow> (ptr \<times> heap) option" where
  "km_take idx sz h =
     (if buckets h idx \<noteq> NULL then
        let blk = buckets h idx;
            h1 = h\<lparr>buckets := (buckets h)(idx := bh_next (hdrs h blk))\<rparr>
        in Some (blk + HEADER_SIZE, put_header blk sz (of_nat idx) h1)
      else if has_room idx h then
        let blk = heap_ptr h;
            h1 = h\<lparr>heap_ptr := heap_ptr h + get_bucket_size idx, km_slots := (blk, idx) # km_slots h\<rparr>
        in Some (blk + HEADER_SIZE, put_header blk sz (of_nat idx) h1)
      else None)"

text \<open>The page call without the lock.\<close>

definition km_fetch :: "heap \<Rightarrow> ptr \<times> heap" where
  "km_fetch h =
     (case heap_alloc_pages (KMALLOC_CHUNK_SIZE div 4096) h of
        (chunk, h1) \<Rightarrow> (chunk, if chunk = NULL then h1 else h1\<lparr>km_flight := chunk # km_flight h1\<rparr>))"

text \<open>The re-check after the page call, under the lock again.\<close>

datatype grow_result = Retry | Exhausted | Donate

definition km_grow :: "nat \<Rightarrow> ptr \<Rightarrow> heap \<Rightarrow> grow_result \<times> heap" where
  "km_grow idx chunk h =
     (if chunk = NULL then
        (if buckets h idx \<noteq> NULL \<or> has_room idx h then (Retry, h) else (Exhausted, h))
      else if has_room idx h then (Donate, h)
      else (Retry, h\<lparr>heap_ptr := chunk, heap_end := chunk + of_nat KMALLOC_CHUNK_SIZE,
                      heap_total := heap_total h + of_nat KMALLOC_CHUNK_SIZE,
                      km_chunks := chunk # km_chunks h, km_flight := removeAll chunk (km_flight h)\<rparr>))"

definition km_donate :: "ptr \<Rightarrow> heap \<Rightarrow> heap kres" where
  "km_donate chunk h =
     heap_free_pages chunk (KMALLOC_CHUNK_SIZE div 4096) (h\<lparr>km_flight := removeAll chunk (km_flight h)\<rparr>)"

text \<open>The loop without other processors in between; \<open>None\<close>: out of fuel.\<close>

fun km_loop :: "nat \<Rightarrow> nat \<Rightarrow> u64 \<Rightarrow> heap \<Rightarrow> (ptr \<times> heap) kres option" where
  "km_loop 0 idx sz h = None"
| "km_loop (Suc n) idx sz h =
     (case km_take idx sz h of
        Some res \<Rightarrow> Some (Inr res)
      | None \<Rightarrow>
          (case km_fetch h of
             (chunk, h1) \<Rightarrow>
               (case km_grow idx chunk h1 of
                  (Retry, h2) \<Rightarrow> km_loop n idx sz h2
                | (Exhausted, h2) \<Rightarrow> Some (Inr (NULL, h2))
                | (Donate, h2) \<Rightarrow>
                    (case km_donate chunk h2 of
                       Inl p \<Rightarrow> Some (Inl p)
                     | Inr h3 \<Rightarrow> km_loop n idx sz h3))))"

definition km_large_alloc :: "u64 \<Rightarrow> heap \<Rightarrow> ptr \<times> heap" where
  "km_large_alloc sz h =
     (let pages = unat ((sz + HEADER_SIZE + 4095) div 4096) in
      case heap_alloc_pages pages h of
        (p, h1) \<Rightarrow>
          if p = NULL then (NULL, h1)
          else (p + HEADER_SIZE,
                km_stat_alloc sz (put_header p sz LARGE_IDX (h1\<lparr>km_large := (p, pages) # km_large h1\<rparr>))))"

text \<open>
  \<open>kmalloc\<close>.  \<open>flags\<close> is the interrupt word that \<open>spin_lock_irqsave\<close> saves; the small path releases the
  lock at its end only when that word is not zero.  \<open>None\<close>: the caller spins on a lock that nobody
  releases, or the loop ran out of fuel.
\<close>

definition kmalloc :: "nat \<Rightarrow> u64 \<Rightarrow> u64 \<Rightarrow> heap \<Rightarrow> (ptr \<times> heap) kres option" where
  "kmalloc fuel flags sz h =
     (if \<not> heap_initialized h \<and> km_lock h then None
      else
        let h0 = (if heap_initialized h then h else kmalloc_init h) in
        if sz = 0 then Some (Inr (NULL, h0))
        else if sz > - 1 - HEADER_SIZE then Some (Inr (NULL, h0))
        else if km_lock h0 then None
        else
          let idx = get_bucket_index (sz + HEADER_SIZE) in
          if idx \<ge> 0 then
            (case km_loop fuel (nat idx) sz h0 of
               None \<Rightarrow> None
             | Some (Inl p) \<Rightarrow> Some (Inl p)
             | Some (Inr (res, h1)) \<Rightarrow>
                 let h2 = h1\<lparr>km_lock := (flags = 0)\<rparr>
                 in Some (Inr (res, if res \<noteq> NULL then km_stat_alloc sz h2 else h2)))
          else Some (Inr (km_large_alloc sz h0)))"

definition kcalloc :: "nat \<Rightarrow> u64 \<Rightarrow> u64 \<Rightarrow> u64 \<Rightarrow> heap \<Rightarrow> (ptr \<times> heap) kres option" where
  "kcalloc fuel flags nmemb sz h =
     (if nmemb \<noteq> 0 \<and> sz > - 1 div nmemb then Some (Inr (NULL, h))
      else case kmalloc fuel flags (nmemb * sz) h of
        Some (Inr (p, h1)) \<Rightarrow>
          if p \<noteq> NULL
          then Some (Inr (p, h1\<lparr>hpmm := (hpmm h1)\<lparr>ram := memset (ram (hpmm h1)) p 0 (nmemb * sz)\<rparr>\<rparr>))
          else Some (Inr (p, h1))
      | r \<Rightarrow> r)"

section \<open>Release\<close>

definition kfree :: "ptr \<Rightarrow> heap \<Rightarrow> heap kres option" where
  "kfree p h =
     (if p = NULL then Some (Inr h)
      else if km_lock h then None
      else
        let blk = p - HEADER_SIZE; b = hdrs h blk in
        if bh_magic b \<noteq> BLOCK_MAGIC then Some (Inr h)
        else if bh_bucket b = LARGE_IDX then
          let pages = unat ((ucast (bh_size b) + HEADER_SIZE + 4095) div 4096);
              h1 = km_stat_free (ucast (bh_size b)) h;
              h2 = h1\<lparr>hdrs := (hdrs h1)(blk := b\<lparr>bh_magic := 0\<rparr>),
                      km_large := filter (\<lambda>x. fst x \<noteq> blk) (km_large h1)\<rparr>
          in Some (heap_free_pages blk pages h2)
        else if unat (bh_bucket b) \<ge> NUM_BUCKETS then Some (Inr h)
        else
          let i = unat (bh_bucket b);
              h1 = km_stat_free (ucast (bh_size b)) h
          in Some (Inr (h1\<lparr>hdrs := (hdrs h1)(blk := b\<lparr>bh_magic := BLOCK_FREE, bh_next := buckets h1 i\<rparr>),
                           buckets := (buckets h1)(i := blk)\<rparr>)))"

definition krealloc :: "nat \<Rightarrow> u64 \<Rightarrow> ptr \<Rightarrow> u64 \<Rightarrow> heap \<Rightarrow> (ptr \<times> heap) kres option" where
  "krealloc fuel flags p new_size h =
     (if p = NULL then kmalloc fuel flags new_size h
      else if new_size = 0 then map_option (\<lambda>r. kbind r (\<lambda>h1. Inr (NULL, h1))) (kfree p h)
      else if km_lock h then None
      else
        let b = hdrs h (p - HEADER_SIZE) in
        if bh_magic b \<noteq> BLOCK_MAGIC then Some (Inr (NULL, h))
        else case kmalloc fuel flags new_size h of
          Some (Inr (np, h1)) \<Rightarrow>
            if np = NULL then Some (Inr (NULL, h1))
            else
              let old_size = ucast (bh_size b) :: u64;
                  copy_size = (if old_size < new_size then old_size else new_size);
                  h2 = h1\<lparr>hpmm := (hpmm h1)\<lparr>ram := memcpy (ram (hpmm h1)) np p copy_size\<rparr>\<rparr>
              in map_option (\<lambda>r. kbind r (\<lambda>h3. Inr (np, h3))) (kfree p h2)
        | r \<Rightarrow> r)"

definition kmalloc_get_stats :: "heap \<Rightarrow> u64 \<times> u64 \<times> u64 \<times> u64" where
  "kmalloc_get_stats h = (heap_total h, stat_bytes_in_use h, stat_high_water h, stat_live_allocs h)"

end
