(* ===== verification/Heap_Inv.thy ===== *)
theory Heap_Inv
  imports Heap
begin

text \<open>
  The invariant of the kernel heap: the page runs it holds, the slots carved from its chunks, the free
  lists, and the headers.  Its first consequence: live blocks do not overlap.
\<close>

unbundle bit_operations_syntax

section \<open>Page runs as byte intervals\<close>

definition run_bytes :: "ptr \<times> nat \<Rightarrow> nat set" where
  "run_bytes r = {unat (fst r)..<unat (fst r) + PAGE_SIZE * snd r}"

definition span_ok :: "ptr \<Rightarrow> nat \<Rightarrow> bool" where
  "span_ok p n \<longleftrightarrow> 0 < n \<and> unat p mod PAGE_SIZE = 0 \<and> 0 < unat p \<and> unat p + PAGE_SIZE * n + PAGE_SIZE < 2 ^ 64"

lemma unat_run_page:
  assumes "span_ok p n" and "i < n"
  shows "unat (p + of_nat (i * PAGE_SIZE)) = unat p + i * PAGE_SIZE"
proof -
  have "i * 4096 \<le> 4096 * n" using assms(2) by simp
  then have l: "unat p + i * 4096 < 2 ^ 64" using assms(1) by (simp add: span_ok_def)
  then have "unat (of_nat (i * 4096) :: u64) = i * 4096" by (intro unat_of_nat_64) simp
  then show ?thesis using l by (simp add: unat_word_ariths)
qed

lemma run_bytes_disjoint:
  assumes "span_ok p n" and "span_ok q m" and "page_run p n \<inter> page_run q m = {}"
  shows "run_bytes (p, n) \<inter> run_bytes (q, m) = {}"
proof -
  have "x \<notin> run_bytes (q, m)" if "x \<in> run_bytes (p, n)" for x
  proof
    assume q: "x \<in> run_bytes (q, m)"
    obtain a b where ab: "unat p = 4096 * a" "unat q = 4096 * b"
      using assms(1,2) unfolding span_ok_def by (metis mod_0_imp_dvd dvdE)
    have k: "a \<le> x div 4096" "x div 4096 < a + n" "b \<le> x div 4096" "x div 4096 < b + m"
      using that q ab by (auto simp: run_bytes_def less_eq_div_iff_mult_less_eq div_less_iff_less_mult)
    define u where "u = p + of_nat ((x div 4096 - a) * PAGE_SIZE)"
    define v where "v = q + of_nat ((x div 4096 - b) * PAGE_SIZE)"
    have "unat u = 4096 * (x div 4096)" unfolding u_def
      using unat_run_page [OF assms(1), of "x div 4096 - a"] k ab by (simp add: diff_mult_distrib)
    moreover have "unat v = 4096 * (x div 4096)" unfolding v_def
      using unat_run_page [OF assms(2), of "x div 4096 - b"] k ab by (simp add: diff_mult_distrib)
    ultimately have "u = v" by (metis word_unat_eq_iff)
    moreover have "u \<in> page_run p n" unfolding page_run_def u_def using k by (intro imageI) simp
    moreover have "v \<in> page_run q m" unfolding page_run_def v_def using k by (intro imageI) simp
    ultimately show False using assms(3) by (metis IntI empty_iff)
  qed
  then show ?thesis by blast
qed

lemma in_range_run:
  assumes "span_ok p n"
  shows "in_range p (n * PAGE_SIZE) a \<longleftrightarrow> unat a \<in> run_bytes (p, n)"
proof (cases "unat p \<le> unat a")
  case True
  then have "unat (a - p) = unat a - unat p" by (simp add: unat_sub word_le_nat_alt)
  then show ?thesis using True by (auto simp: in_range_def run_bytes_def)
next
  case False
  then have "unat (a - p) = 2 ^ 64 - unat p + unat a"
    using unat_less_64 [of p] by (simp add: unat_sub_if' word_less_nat_alt)
  then show ?thesis using False assms by (simp add: in_range_def run_bytes_def span_ok_def) linarith
qed

text \<open>A page provider whose runs are aligned and do not wrap around.\<close>

locale page_spans = page_provider +
  assumes alloc_span: "pinv s \<Longrightarrow> palloc n s = (p, s') \<Longrightarrow> p \<noteq> NULL \<Longrightarrow> span_ok p n"
begin

lemma alloc_bytes_fresh:
  assumes "pinv s" and "palloc n s = (p, s')" and "p \<noteq> NULL"
    and "span_ok q m" and "page_run q m \<subseteq> powned s"
  shows "run_bytes (p, n) \<inter> run_bytes (q, m) = {}"
  using alloc_span [OF assms(1-3)] assms(4) alloc_fresh [OF assms(1-3)] assms(5)
  by (intro run_bytes_disjoint) auto

end

interpretation hp: page_spans pmm_wf free_addrs owned_addrs pmm_alloc_pages pmm_free_pages
proof
  fix s s' :: pmm and n and p :: ptr
  assume wf: "pmm_wf s" and al: "pmm_alloc_pages n s = (p, s')" and nn: "p \<noteq> NULL"
  obtain pfn where p: "0 < n" "p = frame_addr (pmm_arch s) pfn" "pfn + n \<le> total_pages s"
    using alloc_pages_impl_spec(3) [OF wf al [unfolded pmm_alloc_pages_def] nn] by (auto simp: allocated_def)
  have "total_pages s \<le> 2 ^ 26" using pmm_wfD(1) [OF wf] by (simp add: zones_cover_def)
  then have b: "pfn < 2 ^ 32" "pfn + n \<le> 2 ^ 26" using p by simp_all
  show "span_ok p n"
    unfolding span_ok_def p(2) unat_frame_addr [OF b(1)]
    using p(1) b(2) by (cases "pmm_arch s") (auto simp: mod_add_eq)
qed


section \<open>The invariant\<close>

definition CHUNK_PAGES :: nat where "CHUNK_PAGES = 1024"

lemma chunk_pages [simp]: "KMALLOC_CHUNK_SIZE div 4096 = CHUNK_PAGES" "(KMALLOC_CHUNK_SIZE + 4095) div 4096 = CHUNK_PAGES"
  "4096 * CHUNK_PAGES = KMALLOC_CHUNK_SIZE"
  by (simp_all add: KMALLOC_CHUNK_SIZE_def CHUNK_PAGES_def)

definition slot_size :: "nat \<Rightarrow> nat" where
  "slot_size i = 16 * 2 ^ i"

definition slot_bytes :: "ptr \<times> nat \<Rightarrow> nat set" where
  "slot_bytes x = {unat (fst x)..<unat (fst x) + slot_size (snd x)}"

text \<open>Everything the heap holds from the page allocator.\<close>

definition runs :: "heap \<Rightarrow> (ptr \<times> nat) list" where
  "runs h = map (\<lambda>c. (c, CHUNK_PAGES)) (km_chunks h) @ map (\<lambda>c. (c, CHUNK_PAGES)) (km_flight h) @ km_large h"

definition disjoint_on :: "('a \<Rightarrow> 'b set) \<Rightarrow> 'a list \<Rightarrow> bool" where
  "disjoint_on f xs \<longleftrightarrow> distinct xs \<and> (\<forall>x \<in> set xs. \<forall>y \<in> set xs. x \<noteq> y \<longrightarrow> f x \<inter> f y = {})"

definition pages_wf :: "heap \<Rightarrow> bool" where
  "pages_wf h \<longleftrightarrow> pmm_wf (hpmm h)
     \<and> (\<forall>r \<in> set (runs h). span_ok (fst r) (snd r) \<and> page_run (fst r) (snd r) \<subseteq> owned_addrs (hpmm h))
     \<and> disjoint_on (\<lambda>r. page_run (fst r) (snd r)) (runs h)"

definition avail :: "heap \<Rightarrow> nat set" where
  "avail h = {unat (heap_ptr h)..<unat (heap_end h)}"

definition slots_wf :: "heap \<Rightarrow> bool" where
  "slots_wf h \<longleftrightarrow> disjoint_on slot_bytes (km_slots h)
     \<and> (\<forall>x \<in> set (km_slots h). snd x < NUM_BUCKETS \<and> (\<exists>c \<in> set (km_chunks h). slot_bytes x \<subseteq> run_bytes (c, CHUNK_PAGES)))
     \<and> heap_ptr h \<le> heap_end h \<and> unat (heap_end h) + 4096 < 2 ^ 64
     \<and> (avail h = {} \<or> (\<exists>c \<in> set (km_chunks h). avail h \<subseteq> run_bytes (c, CHUNK_PAGES)))
     \<and> (\<forall>x \<in> set (km_slots h). slot_bytes x \<inter> avail h = {})"

fun chain :: "(ptr \<Rightarrow> ptr) \<Rightarrow> ptr \<Rightarrow> ptr list \<Rightarrow> bool" where
  "chain nx p [] \<longleftrightarrow> p = NULL"
| "chain nx p (x # xs) \<longleftrightarrow> p = x \<and> x \<noteq> NULL \<and> chain nx (nx x) xs"

definition free_wf :: "heap \<Rightarrow> bool" where
  "free_wf h \<longleftrightarrow> (\<forall>i < NUM_BUCKETS. \<exists>xs. chain (\<lambda>a. bh_next (hdrs h a)) (buckets h i) xs \<and> distinct xs
     \<and> (\<forall>a \<in> set xs. (a, i) \<in> set (km_slots h) \<and> bh_magic (hdrs h a) = BLOCK_FREE))"

definition live :: "heap \<Rightarrow> ptr set" where
  "live h = {a. bh_magic (hdrs h a) = BLOCK_MAGIC \<and> a \<in> fst ` set (km_slots h)} \<union> fst ` set (km_large h)"

definition hdr_wf :: "heap \<Rightarrow> bool" where
  "hdr_wf h \<longleftrightarrow>
     (\<forall>x \<in> set (km_slots h). bh_magic (hdrs h (fst x)) = BLOCK_FREE \<or>
        bh_magic (hdrs h (fst x)) = BLOCK_MAGIC \<and> bh_bucket (hdrs h (fst x)) = of_nat (snd x)
        \<and> unat (bh_size (hdrs h (fst x))) + 32 \<le> slot_size (snd x))
     \<and> (\<forall>x \<in> set (km_large h). bh_magic (hdrs h (fst x)) = BLOCK_MAGIC \<and> bh_bucket (hdrs h (fst x)) = LARGE_IDX
        \<and> (unat (bh_size (hdrs h (fst x))) + 32 + 4095) div 4096 = snd x)"

text \<open>Nothing is said of the words at other addresses: a payload may read as a header.\<close>

definition heap_wf :: "heap \<Rightarrow> bool" where
  "heap_wf h \<longleftrightarrow> pages_wf h \<and> slots_wf h \<and> free_wf h \<and> hdr_wf h"

lemma magic_distinct [simp]: "BLOCK_MAGIC \<noteq> BLOCK_FREE" "BLOCK_FREE \<noteq> BLOCK_MAGIC"
  "bh_magic zero_header \<noteq> BLOCK_MAGIC" "bh_magic poison_header \<noteq> BLOCK_MAGIC"
  by (simp_all add: BLOCK_MAGIC_def BLOCK_FREE_def zero_header_def poison_header_def)

text \<open>Live blocks do not overlap.\<close>

definition block_bytes :: "heap \<Rightarrow> ptr \<Rightarrow> nat set" where
  "block_bytes h a = {unat a..<unat a + 32 + unat (bh_size (hdrs h a))}"

lemma run_disjoint:
  assumes "pages_wf h" and "r \<in> set (runs h)" and "q \<in> set (runs h)" and "r \<noteq> q"
  shows "run_bytes r \<inter> run_bytes q = {}"
  using assms run_bytes_disjoint [of "fst r" "snd r" "fst q" "snd q"]
  by (simp add: pages_wf_def disjoint_on_def)

lemma slot_in_chunk: "slots_wf h \<Longrightarrow> x \<in> set (km_slots h) \<Longrightarrow> \<exists>c \<in> set (km_chunks h). slot_bytes x \<subseteq> run_bytes (c, CHUNK_PAGES)"
  by (simp add: slots_wf_def)

lemma slot_nonempty: "unat a \<in> slot_bytes (a, i)"
  by (simp add: slot_bytes_def slot_size_def)

lemma chunk_in_runs: "c \<in> set (km_chunks h) \<Longrightarrow> (c, CHUNK_PAGES) \<in> set (runs h)"
  by (auto simp: runs_def)

lemma large_in_runs: "x \<in> set (km_large h) \<Longrightarrow> x \<in> set (runs h)"
  by (auto simp: runs_def)

lemma chunk_not_large:
  assumes "pages_wf h" and "c \<in> set (km_chunks h)" and "x \<in> set (km_large h)"
  shows "run_bytes (c, CHUNK_PAGES) \<inter> run_bytes x = {}"
proof (rule run_disjoint [OF assms(1) chunk_in_runs [OF assms(2)] large_in_runs [OF assms(3)]])
  have "distinct (runs h)" using assms(1) by (simp add: pages_wf_def disjoint_on_def)
  then show "(c, CHUNK_PAGES) \<noteq> x" using assms(2,3) by (auto simp: runs_def)
qed

lemma live_blocks:
  assumes "heap_wf h" and "a \<in> live h"
  shows "(\<exists>i. (a, i) \<in> set (km_slots h) \<and> block_bytes h a \<subseteq> slot_bytes (a, i))
    \<or> (\<exists>n. (a, n) \<in> set (km_large h) \<and> block_bytes h a \<subseteq> run_bytes (a, n))"
proof (cases "a \<in> fst ` set (km_large h)")
  case True
  then obtain n where n: "(a, n) \<in> set (km_large h)" by auto
  have "(unat (bh_size (hdrs h a)) + 32 + 4095) div 4096 = n" using assms(1) n unfolding heap_wf_def hdr_wf_def by force
  then have "unat (bh_size (hdrs h a)) + 32 \<le> 4096 * n" by linarith
  then show ?thesis using n by (auto simp: block_bytes_def run_bytes_def)
next
  case False
  then obtain i where i: "(a, i) \<in> set (km_slots h)" "bh_magic (hdrs h a) = BLOCK_MAGIC"
    using assms(2) by (auto simp: live_def)
  then have "unat (bh_size (hdrs h a)) + 32 \<le> slot_size i" using assms(1) unfolding heap_wf_def hdr_wf_def by force
  then show ?thesis using i by (auto simp: block_bytes_def slot_bytes_def)
qed

lemma slots_same_addr:
  assumes "slots_wf h" and "(a, i) \<in> set (km_slots h)" and "(a, j) \<in> set (km_slots h)"
  shows "i = j"
proof (rule ccontr)
  assume "i \<noteq> j"
  then have "slot_bytes (a, i) \<inter> slot_bytes (a, j) = {}" using assms by (auto simp: slots_wf_def disjoint_on_def)
  then show False using slot_nonempty [of a i] slot_nonempty [of a j] by blast
qed

lemma slot_not_large:
  assumes "heap_wf h" and "(a, i) \<in> set (km_slots h)" and "x \<in> set (km_large h)"
  shows "slot_bytes (a, i) \<inter> run_bytes x = {}"
  using slot_in_chunk [of h "(a, i)"] chunk_not_large [of h _ x] assms unfolding heap_wf_def by blast

lemma live_disjoint:
  assumes "heap_wf h" and "a \<in> live h" and "b \<in> live h" and "a \<noteq> b"
  shows "block_bytes h a \<inter> block_bytes h b = {}"
proof -
  have ss: "(a, i) \<in> set (km_slots h) \<Longrightarrow> (b, j) \<in> set (km_slots h) \<Longrightarrow> slot_bytes (a, i) \<inter> slot_bytes (b, j) = {}" for i j
    using assms(1,4) by (auto simp: heap_wf_def slots_wf_def disjoint_on_def)
  have ll: "(a, i) \<in> set (km_large h) \<Longrightarrow> (b, j) \<in> set (km_large h) \<Longrightarrow> run_bytes (a, i) \<inter> run_bytes (b, j) = {}" for i j
    using assms(1,4) run_disjoint [of h "(a, i)" "(b, j)"] large_in_runs by (auto simp: heap_wf_def)
  show ?thesis
    using live_blocks [OF assms(1,2)] live_blocks [OF assms(1,3)] ss ll
      slot_not_large [OF assms(1), of a] slot_not_large [OF assms(1), of b] by blast
qed

end
