(* ===== verification/Heap_Ops.thy ===== *)
theory Heap_Ops
  imports Heap_Inv
begin

text \<open>
  The steps of an allocation keep the invariant: obtaining a page run, installing it as the active
  chunk, popping a free list, carving a slot.
\<close>

unbundle bit_operations_syntax

section \<open>What each predicate depends on\<close>

lemma pages_wf_cong: "runs h' = runs h \<Longrightarrow> hpmm h' = hpmm h \<Longrightarrow> pages_wf h' = pages_wf h"
  by (simp add: pages_wf_def)

lemma slots_wf_cong:
  "km_slots h' = km_slots h \<Longrightarrow> set (km_chunks h') = set (km_chunks h) \<Longrightarrow> heap_ptr h' = heap_ptr h \<Longrightarrow>
   heap_end h' = heap_end h \<Longrightarrow> slots_wf h' = slots_wf h"
  by (simp add: slots_wf_def avail_def)

lemma chain_cong: "\<forall>a \<in> set xs. nx' a = nx a \<Longrightarrow> chain nx' p xs = chain nx p xs"
  by (induction nx p xs rule: chain.induct) auto

lemma free_wf_frame:
  assumes "free_wf h" and "buckets h' = buckets h" and "set (km_slots h) \<subseteq> set (km_slots h')"
    and "\<And>x. x \<in> set (km_slots h) \<Longrightarrow> hdrs h' (fst x) = hdrs h (fst x)"
  shows "free_wf h'"
  unfolding free_wf_def
proof (intro allI impI)
  fix i assume "i < NUM_BUCKETS"
  then obtain xs where xs: "chain (\<lambda>a. bh_next (hdrs h a)) (buckets h i) xs" "distinct xs"
    "\<forall>a \<in> set xs. (a, i) \<in> set (km_slots h) \<and> bh_magic (hdrs h a) = BLOCK_FREE"
    using assms(1) by (auto simp: free_wf_def)
  have same: "\<forall>a \<in> set xs. hdrs h' a = hdrs h a" using xs(3) assms(4) by force
  have "chain (\<lambda>a. bh_next (hdrs h' a)) (buckets h' i) xs"
    using xs(1) chain_cong [of xs "\<lambda>a. bh_next (hdrs h' a)" "\<lambda>a. bh_next (hdrs h a)"] same assms(2) by simp
  then show "\<exists>xs. chain (\<lambda>a. bh_next (hdrs h' a)) (buckets h' i) xs \<and> distinct xs
     \<and> (\<forall>a \<in> set xs. (a, i) \<in> set (km_slots h') \<and> bh_magic (hdrs h' a) = BLOCK_FREE)"
    using xs(2,3) same assms(3) by (intro exI [of _ xs]) auto
qed

lemma slot_addr_run: "heap_wf h \<Longrightarrow> x \<in> set (km_slots h) \<Longrightarrow> \<exists>r \<in> set (runs h). unat (fst x) \<in> run_bytes r"
  using slot_in_chunk [of h x] chunk_in_runs [of _ h] slot_nonempty [of "fst x" "snd x"] unfolding heap_wf_def by force

lemma large_addr_run: "heap_wf h \<Longrightarrow> x \<in> set (km_large h) \<Longrightarrow> unat (fst x) \<in> run_bytes x"
  using large_in_runs [of x h] by (auto simp: heap_wf_def pages_wf_def span_ok_def run_bytes_def)

section \<open>Taking and returning page runs\<close>

text \<open>The part of the state the page calls leave alone.\<close>

definition same_heap :: "heap \<Rightarrow> heap \<Rightarrow> bool" where
  "same_heap h h' \<longleftrightarrow> heap_ptr h' = heap_ptr h \<and> heap_end h' = heap_end h \<and> heap_total h' = heap_total h
     \<and> buckets h' = buckets h \<and> heap_initialized h' = heap_initialized h \<and> km_lock h' = km_lock h
     \<and> stat_bytes_in_use h' = stat_bytes_in_use h \<and> stat_high_water h' = stat_high_water h
     \<and> stat_live_allocs h' = stat_live_allocs h \<and> km_chunks h' = km_chunks h \<and> km_slots h' = km_slots h
     \<and> km_large h' = km_large h \<and> km_flight h' = km_flight h"

lemma fill_headers_sel [simp]:
  "same_heap h (fill_headers p n b (h\<lparr>hpmm := pm\<rparr>))" "hpmm (fill_headers p n b h) = hpmm h"
  by (simp_all add: fill_headers_def same_heap_def)

text \<open>A run just obtained: outside everything the heap holds, with clean headers.\<close>

definition fresh_run :: "heap \<Rightarrow> ptr \<Rightarrow> nat \<Rightarrow> heap \<Rightarrow> bool" where
  "fresh_run h p n h' \<longleftrightarrow> p \<noteq> NULL \<and> span_ok p n \<and> pmm_wf (hpmm h')
     \<and> (\<forall>r \<in> set (runs h). page_run p n \<inter> page_run (fst r) (snd r) = {})
     \<and> owned_addrs (hpmm h') = owned_addrs (hpmm h) \<union> page_run p n
     \<and> hdrs h' = (\<lambda>a. if unat a \<in> run_bytes (p, n) then zero_header else hdrs h a) \<and> same_heap h h'"

lemma heap_alloc_pages_cases:
  assumes "pages_wf h" and "heap_alloc_pages n h = (p, h')"
  shows "(p = NULL \<and> h' = h) \<or> fresh_run h p n h'"
proof -
  obtain pm where al: "pmm_alloc_pages n (hpmm h) = (p, pm)" using assms(2) by (auto simp: heap_alloc_pages_def split: prod.splits)
  have wf: "pmm_wf (hpmm h)" using assms(1) by (simp add: pages_wf_def)
  show ?thesis
  proof (cases "p = NULL")
    case True
    then have "pm = hpmm h" using pp.alloc_none wf al by blast
    then show ?thesis using True assms(2) al by (simp add: heap_alloc_pages_def)
  next
    case False
    have h': "h' = fill_headers p n zero_header (h\<lparr>hpmm := pm\<rparr>)" using assms(2) al False by (simp add: heap_alloc_pages_def)
    have sp: "span_ok p n" by (rule hp.alloc_span [OF wf al False])
    have "\<forall>r \<in> set (runs h). page_run p n \<inter> page_run (fst r) (snd r) = {}"
      using pp.alloc_fresh [OF wf al False] assms(1) unfolding pages_wf_def by blast
    then show ?thesis
      unfolding fresh_run_def h'
      using False sp pp.alloc_inv [OF wf al] pp.alloc_some [OF wf al False] fill_headers_sel(1) [of h p n zero_header pm]
      by (auto simp: fill_headers_def in_range_run)
  qed
qed

lemma fresh_run_bytes:
  assumes "pages_wf h" and "fresh_run h p n h'" and "r \<in> set (runs h)"
  shows "run_bytes (p, n) \<inter> run_bytes r = {}" and "(p, n) \<noteq> r"
proof -
  have "span_ok (fst r) (snd r)" using assms by (simp add: pages_wf_def)
  then show d: "run_bytes (p, n) \<inter> run_bytes r = {}"
    using run_bytes_disjoint [of p n "fst r" "snd r"] assms by (simp add: fresh_run_def)
  have "unat p \<in> run_bytes (p, n)" using assms(2) by (simp add: fresh_run_def span_ok_def run_bytes_def)
  then show "(p, n) \<noteq> r" using d by auto
qed

lemma fresh_header_same:
  assumes "heap_wf h" and "fresh_run h p n h'" and "x \<in> set (km_slots h) \<union> set (km_large h)"
  shows "hdrs h' (fst x) = hdrs h (fst x)"
proof -
  obtain r where "r \<in> set (runs h)" "unat (fst x) \<in> run_bytes r"
    using slot_addr_run [OF assms(1)] large_addr_run [OF assms(1)] large_in_runs assms(3) by blast
  then have "unat (fst x) \<notin> run_bytes (p, n)"
    using fresh_run_bytes(1) [of h p n h' r] assms(1,2) unfolding heap_wf_def by blast
  then show ?thesis using assms(2) by (simp add: fresh_run_def)
qed

lemma owned_mono:
  assumes "pages_wf h" and "fresh_run h p n h'" and "set (runs k) = insert (p, n) (set (runs h))"
    and "distinct (runs k)" and "hpmm k = hpmm h'"
  shows "pages_wf k"
proof -
  have own: "owned_addrs (hpmm k) = owned_addrs (hpmm h) \<union> page_run p n" "pmm_wf (hpmm k)" "span_ok p n"
    using assms(2,5) by (simp_all add: fresh_run_def)
  have dis: "\<forall>r \<in> set (runs h). page_run p n \<inter> page_run (fst r) (snd r) = {}" using assms(2) by (simp add: fresh_run_def)
  have old: "\<forall>r \<in> set (runs h). span_ok (fst r) (snd r) \<and> page_run (fst r) (snd r) \<subseteq> owned_addrs (hpmm h)"
    "\<forall>r \<in> set (runs h). \<forall>q \<in> set (runs h). r \<noteq> q \<longrightarrow> page_run (fst r) (snd r) \<inter> page_run (fst q) (snd q) = {}"
    using assms(1) by (auto simp: pages_wf_def disjoint_on_def)
  show ?thesis
    unfolding pages_wf_def disjoint_on_def assms(3)
    using own old dis assms(4) by (auto simp: Int_commute)
qed


lemma live_cong:
  assumes "km_slots h' = km_slots h" and "km_large h' = km_large h"
    and "\<And>x. x \<in> set (km_slots h) \<Longrightarrow> bh_magic (hdrs h' (fst x)) = bh_magic (hdrs h (fst x))"
  shows "live h' = live h"
  using assms by (force simp: live_def)

lemma live_in_run: "heap_wf h \<Longrightarrow> a \<in> live h \<Longrightarrow> \<exists>r \<in> set (runs h). unat a \<in> run_bytes r"
  using slot_addr_run [of h] large_addr_run [of h] large_in_runs [of _ h] by (force simp: live_def)

text \<open>Adding a fresh run without using it yet.\<close>

lemma fresh_run_added:
  assumes wf: "heap_wf h" and fresh: "fresh_run h p n h'" and k: "set (runs k) = insert (p, n) (set (runs h))"
    "distinct (runs k)" "hpmm k = hpmm h'" "hdrs k = hdrs h'" "km_slots k = km_slots h" "km_large k = km_large h"
    and "slots_wf k" and "buckets k = buckets h \<or> (\<forall>i < NUM_BUCKETS. buckets k i = NULL)"
  shows "heap_wf k \<and> live k = live h"
proof -
  have same: "hdrs k (fst x) = hdrs h (fst x)" if "x \<in> set (km_slots h) \<union> set (km_large h)" for x
    using fresh_header_same [OF wf fresh that] k(4) by simp
  have live: "live k = live h" using k(5,6) same by (intro live_cong) auto
  have "pages_wf k" using wf owned_mono [OF _ fresh k(1-3)] by (simp add: heap_wf_def)
  moreover have "free_wf k"
  proof (cases "buckets k = buckets h")
    case True
    show ?thesis by (rule free_wf_frame [of h]) (use True wf same k(5) in \<open>auto simp: heap_wf_def\<close>)
  next
    case False
    then have "\<forall>i < NUM_BUCKETS. buckets k i = NULL" using assms(10) by blast
    then show ?thesis unfolding free_wf_def by (auto intro!: exI [of _ "[]"])
  qed
  moreover have "hdr_wf k"
  proof -
    have "x \<in> set (km_slots h) \<Longrightarrow> hdrs k (fst x) = hdrs h (fst x)"
      "x \<in> set (km_large h) \<Longrightarrow> hdrs k (fst x) = hdrs h (fst x)" for x using same by auto
    then show ?thesis using wf unfolding heap_wf_def hdr_wf_def k(5,6) by simp
  qed
  ultimately show ?thesis using assms(9) live by (simp add: heap_wf_def)
qed

lemma km_fetch_wf:
  assumes "heap_wf h" and "km_fetch h = (p, h')"
  shows "heap_wf h' \<and> live h' = live h \<and> km_lock h' = km_lock h \<and> (p \<noteq> NULL \<longrightarrow> p \<in> set (km_flight h')) \<and>
    (\<forall>a \<in> live h. hdrs h' a = hdrs h a)"
proof -
  obtain h1 where al: "heap_alloc_pages CHUNK_PAGES h = (p, h1)"
    and h': "h' = (if p = NULL then h1 else h1\<lparr>km_flight := p # km_flight h1\<rparr>)"
    using assms(2) by (auto simp: km_fetch_def split: prod.splits)
  have pw: "pages_wf h" using assms(1) by (simp add: heap_wf_def)
  show ?thesis
  proof (cases "p = NULL")
    case True
    then show ?thesis using heap_alloc_pages_cases [OF pw al] h' assms(1) by (auto simp: fresh_run_def)
  next
    case False
    then have fr: "fresh_run h p CHUNK_PAGES h1" using heap_alloc_pages_cases [OF pw al] by blast
    have sh: "same_heap h h1" using fr by (simp add: fresh_run_def)
    have nin: "(p, CHUNK_PAGES) \<notin> set (runs h)" using fresh_run_bytes(2) [OF pw fr] by blast
    have "distinct (runs h)" using pw by (simp add: pages_wf_def disjoint_on_def)
    moreover have "slots_wf h'"
      using assms(1) sh h' False slots_wf_cong [of h' h] by (simp add: heap_wf_def same_heap_def)
    ultimately have "heap_wf h' \<and> live h' = live h"
      using sh h' False nin
      by (intro fresh_run_added [OF assms(1) fr]) (auto simp: same_heap_def runs_def)
    moreover have "hdrs h' a = hdrs h a" if a: "a \<in> live h" for a
    proof -
      obtain r where "r \<in> set (runs h)" "unat a \<in> run_bytes r" using live_in_run [OF assms(1) a] by blast
      then have "unat a \<notin> run_bytes (p, CHUNK_PAGES)" using fresh_run_bytes(1) [OF pw fr] by blast
      then show ?thesis using fr h' False by (simp add: fresh_run_def)
    qed
    ultimately show ?thesis using h' False sh by (simp add: same_heap_def)
  qed
qed

lemma chunk_end:
  assumes "span_ok c CHUNK_PAGES"
  shows "unat (c + of_nat KMALLOC_CHUNK_SIZE) = unat c + KMALLOC_CHUNK_SIZE"
proof -
  have "unat c + KMALLOC_CHUNK_SIZE < 2 ^ 64" using assms by (simp add: span_ok_def KMALLOC_CHUNK_SIZE_def CHUNK_PAGES_def)
  moreover have "unat (of_nat KMALLOC_CHUNK_SIZE :: u64) = KMALLOC_CHUNK_SIZE"
    by (rule unat_of_nat_64) (simp add: KMALLOC_CHUNK_SIZE_def)
  ultimately show ?thesis by (simp add: unat_word_ariths)
qed

text \<open>A chunk that holds no slot yet becomes the active one.\<close>

lemma activate_slots_wf:
  assumes "pages_wf k" and "disjoint_on slot_bytes (km_slots k)"
    and "\<forall>x \<in> set (km_slots k). snd x < NUM_BUCKETS \<and> (\<exists>c \<in> set cs. slot_bytes x \<subseteq> run_bytes (c, CHUNK_PAGES))"
    and "set (km_chunks k) = insert p (set cs)" and "p \<notin> set cs"
    and "heap_ptr k = p" and "heap_end k = p + of_nat KMALLOC_CHUNK_SIZE"
  shows "slots_wf k"
proof -
  have pin: "(p, CHUNK_PAGES) \<in> set (runs k)" using assms(4) by (auto simp: runs_def)
  then have sp: "span_ok p CHUNK_PAGES" using assms(1) by (auto simp: pages_wf_def)
  have av: "avail k = run_bytes (p, CHUNK_PAGES)"
    by (simp add: avail_def run_bytes_def assms(6,7) chunk_end [OF sp])
  have "slot_bytes x \<inter> avail k = {}" if x: "x \<in> set (km_slots k)" for x
  proof -
    obtain c where c: "c \<in> set cs" "slot_bytes x \<subseteq> run_bytes (c, CHUNK_PAGES)" using assms(3) x by blast
    then have "(c, CHUNK_PAGES) \<in> set (runs k)" "c \<noteq> p" using assms(4,5) by (auto simp: runs_def)
    then show ?thesis using run_disjoint [OF assms(1) _ pin, of "(c, CHUNK_PAGES)"] c(2) av by auto
  qed
  moreover have "heap_ptr k \<le> heap_end k" "unat (heap_end k) + 4096 < 2 ^ 64"
    using sp chunk_end [OF sp] assms(6,7) by (simp_all add: word_le_nat_alt span_ok_def KMALLOC_CHUNK_SIZE_def CHUNK_PAGES_def)
  ultimately show ?thesis
    unfolding slots_wf_def using assms(2,3,4) av by auto
qed

lemma km_grow_wf:
  assumes "heap_wf h" and "km_grow idx c h = (res, h')" and "c \<noteq> NULL \<Longrightarrow> c \<in> set (km_flight h)"
  shows "heap_wf h' \<and> live h' = live h \<and> hdrs h' = hdrs h \<and> km_lock h' = km_lock h \<and> hpmm h' = hpmm h
    \<and> (res = Donate \<longrightarrow> h' = h \<and> c \<noteq> NULL) \<and> (res = Exhausted \<longrightarrow> h' = h)"
proof (cases "c = NULL \<or> has_room idx h")
  case True
  then show ?thesis using assms(1,2) by (auto simp: km_grow_def split: if_splits)
next
  case False
  then have h': "res = Retry" "h' = h\<lparr>heap_ptr := c, heap_end := c + of_nat KMALLOC_CHUNK_SIZE,
      heap_total := heap_total h + of_nat KMALLOC_CHUNK_SIZE,
      km_chunks := c # km_chunks h, km_flight := removeAll c (km_flight h)\<rparr>"
    using assms(2) by (auto simp: km_grow_def)
  have cf: "c \<in> set (km_flight h)" using assms(3) False by blast
  have pw: "pages_wf h" using assms(1) by (simp add: heap_wf_def)
  then have dr: "distinct (runs h)" by (simp add: pages_wf_def disjoint_on_def)
  have cn: "c \<notin> set (km_chunks h)" using dr cf by (auto simp: runs_def)
  have set: "set (runs h') = set (runs h)" using cf by (auto simp: runs_def h'(2))
  have "distinct (km_flight h)" using dr by (simp add: runs_def distinct_map)
  then have "distinct (runs h')"
    using dr cn cf by (auto simp: runs_def h'(2) distinct_map distinct_removeAll inj_on_def)
  then have pw': "pages_wf h'" using pw set by (simp add: pages_wf_def disjoint_on_def h'(2))
  have sw: "slots_wf h" using assms(1) by (simp add: heap_wf_def)
  have "slots_wf h'"
    using sw by (intro activate_slots_wf [OF pw', of "km_chunks h" c]) (auto simp: h'(2) slots_wf_def cn)
  moreover have "free_wf h'"
    by (rule free_wf_frame [of h]) (use assms(1) in \<open>auto simp: h'(2) heap_wf_def\<close>)
  moreover have live: "live h' = live h" by (simp add: live_def h'(2))
  moreover have "hdr_wf h'" using assms(1) live set by (simp add: heap_wf_def hdr_wf_def) (simp add: h'(2))
  ultimately show ?thesis using pw' h' by (simp add: heap_wf_def)
qed


lemma unat_bucket_size: "i < NUM_BUCKETS \<Longrightarrow> unat (get_bucket_size i) = slot_size i"
proof -
  assume "i < NUM_BUCKETS"
  then have "i \<in> {0, 1, 2, 3, 4, 5, 6, 7, 8}" by (auto simp: NUM_BUCKETS_def)
  then show ?thesis by (auto simp: get_bucket_size_def slot_size_def push_bit_eq_mult)
qed

lemma slot_size_le: "i < NUM_BUCKETS \<Longrightarrow> slot_size i \<le> 4096"
proof -
  assume "i < NUM_BUCKETS"
  then have "(2::nat) ^ i \<le> 2 ^ 8" by (intro power_increasing) (auto simp: NUM_BUCKETS_def)
  then show ?thesis by (simp add: slot_size_def)
qed

definition take_ok :: "nat \<Rightarrow> u64 \<Rightarrow> bool" where
  "take_ok idx sz \<longleftrightarrow> idx < NUM_BUCKETS \<and> unat sz + 32 \<le> slot_size idx"

lemma put_header_sel [simp]:
  "hdrs (put_header b sz i h) = (hdrs h)(b := \<lparr>bh_magic = BLOCK_MAGIC, bh_size = ucast sz, bh_next = NULL, bh_bucket = i\<rparr>)"
  "heap_ptr (put_header b sz i h) = heap_ptr h" "heap_end (put_header b sz i h) = heap_end h"
  "buckets (put_header b sz i h) = buckets h" "km_lock (put_header b sz i h) = km_lock h"
  "hpmm (put_header b sz i h) = hpmm h" "km_chunks (put_header b sz i h) = km_chunks h"
  "km_slots (put_header b sz i h) = km_slots h" "km_large (put_header b sz i h) = km_large h"
  "km_flight (put_header b sz i h) = km_flight h" "runs (put_header b sz i h) = runs h"
  "stat_bytes_in_use (put_header b sz i h) = stat_bytes_in_use h" "stat_live_allocs (put_header b sz i h) = stat_live_allocs h"
  "heap_initialized (put_header b sz i h) = heap_initialized h"
  by (simp_all add: put_header_def runs_def)

lemma take_size: "take_ok idx sz \<Longrightarrow> unat (ucast sz :: u32) = unat sz"
  using slot_size_le [of idx] by (simp add: take_ok_def unsigned_ucast_eq take_bit_eq_mod)

text \<open>One slot becomes live; nothing else changes.\<close>

lemma slot_live_hdr:
  assumes wf: "hdr_wf h" "slots_wf h'" and x: "(b, i) \<in> set (km_slots h')" and ok: "take_ok i sz"
    and sl: "set (km_slots h') = insert (b, i) (set (km_slots h))" and lg: "km_large h' = km_large h"
    and rn: "runs h' = runs h" and out: "b \<notin> fst ` set (km_large h)"
    and hd: "hdrs h' = (hdrs h)(b := \<lparr>bh_magic = BLOCK_MAGIC, bh_size = ucast sz, bh_next = nx, bh_bucket = of_nat i\<rparr>)"
  shows "hdr_wf h' \<and> live h' = insert b (live h)"
proof -
  have live: "live h' = insert b (live h)"
    unfolding live_def sl lg hd by (auto simp: image_iff)
  have "unat (bh_size (hdrs h' b)) + 32 \<le> slot_size i" using take_size [OF ok] ok by (simp add: hd take_ok_def)
  moreover have "j = i" if "(b, j) \<in> set (km_slots h')" for j using slots_same_addr [OF wf(2) that x] .
  moreover have "x \<in> set (km_slots h)" if "x \<in> set (km_slots h')" "fst x \<noteq> b" for x using that sl by auto
  ultimately have slots: "\<forall>x \<in> set (km_slots h'). bh_magic (hdrs h' (fst x)) = BLOCK_FREE \<or>
        bh_magic (hdrs h' (fst x)) = BLOCK_MAGIC \<and> bh_bucket (hdrs h' (fst x)) = of_nat (snd x)
        \<and> unat (bh_size (hdrs h' (fst x))) + 32 \<le> slot_size (snd x)"
  proof (intro ballI)
    fix x assume x: "x \<in> set (km_slots h')"
    show "bh_magic (hdrs h' (fst x)) = BLOCK_FREE \<or>
        bh_magic (hdrs h' (fst x)) = BLOCK_MAGIC \<and> bh_bucket (hdrs h' (fst x)) = of_nat (snd x)
        \<and> unat (bh_size (hdrs h' (fst x))) + 32 \<le> slot_size (snd x)"
    proof (cases "fst x = b")
      case True
      then have "x = (b, i)" using x \<open>\<And>j. (b, j) \<in> set (km_slots h') \<Longrightarrow> j = i\<close> by (cases x) auto
      then show ?thesis using \<open>unat (bh_size (hdrs h' b)) + 32 \<le> slot_size i\<close> by (simp add: hd)
    next
      case False
      then show ?thesis using wf(1) x sl by (auto simp: hdr_wf_def hd)
    qed
  qed
  moreover have "\<forall>x \<in> set (km_large h'). bh_magic (hdrs h' (fst x)) = BLOCK_MAGIC \<and> bh_bucket (hdrs h' (fst x)) = LARGE_IDX
        \<and> (unat (bh_size (hdrs h' (fst x))) + 32 + 4095) div 4096 = snd x"
    using wf(1) out unfolding lg hdr_wf_def hd by (auto simp: image_iff)
  ultimately show ?thesis using live by (simp add: hdr_wf_def)
qed

lemma slot_not_in_large: "heap_wf h \<Longrightarrow> (b, i) \<in> set (km_slots h) \<Longrightarrow> b \<notin> fst ` set (km_large h)"
  using slot_not_large [of h b i] large_addr_run [of h] slot_nonempty [of b i] by force

lemma km_take_pop:
  assumes "heap_wf h" and "take_ok idx sz" and "buckets h idx \<noteq> NULL" and "km_take idx sz h = Some (p, h')"
  shows "heap_wf h' \<and> live h' = insert (p - HEADER_SIZE) (live h) \<and> p - HEADER_SIZE \<notin> live h"
proof -
  define b where "b = buckets h idx"
  have idx: "idx < NUM_BUCKETS" using assms(2) by (simp add: take_ok_def)
  obtain ys where ys: "chain (\<lambda>a. bh_next (hdrs h a)) (bh_next (hdrs h b)) ys" "distinct (b # ys)"
    "\<forall>a \<in> set (b # ys). (a, idx) \<in> set (km_slots h) \<and> bh_magic (hdrs h a) = BLOCK_FREE"
  proof -
    obtain xs where xs: "chain (\<lambda>a. bh_next (hdrs h a)) b xs" "distinct xs"
      "\<forall>a \<in> set xs. (a, idx) \<in> set (km_slots h) \<and> bh_magic (hdrs h a) = BLOCK_FREE"
      using assms(1) idx by (auto simp: heap_wf_def free_wf_def b_def)
    then show thesis using that assms(3) by (cases xs) (auto simp: b_def)
  qed
  have p: "p = b + HEADER_SIZE"
    and h': "h' = put_header b sz (of_nat idx) (h\<lparr>buckets := (buckets h)(idx := bh_next (hdrs h b))\<rparr>)"
    using assms(3,4) by (simp_all add: km_take_def b_def Let_def)
  have bs: "(b, idx) \<in> set (km_slots h)" using ys(3) by simp
  have sw: "slots_wf h'" using assms(1) slots_wf_cong [of h' h] by (simp add: h' heap_wf_def)
  have hw: "hdr_wf h' \<and> live h' = insert b (live h)"
    by (rule slot_live_hdr [where i = idx and sz = sz and h = h])
       (use assms(1,2) sw bs slot_not_in_large [OF assms(1) bs] in \<open>auto simp: h' heap_wf_def runs_def\<close>)
  have "free_wf h'" unfolding free_wf_def
  proof (intro allI impI)
    fix i assume i: "i < NUM_BUCKETS"
    show "\<exists>xs. chain (\<lambda>a. bh_next (hdrs h' a)) (buckets h' i) xs \<and> distinct xs
       \<and> (\<forall>a \<in> set xs. (a, i) \<in> set (km_slots h') \<and> bh_magic (hdrs h' a) = BLOCK_FREE)"
    proof (cases "i = idx")
      case True
      have "\<forall>a \<in> set ys. bh_next (hdrs h' a) = bh_next (hdrs h a)" using ys(2) by (auto simp: h')
      then have "chain (\<lambda>a. bh_next (hdrs h' a)) (buckets h' i) ys"
        using ys(1) True chain_cong [of ys "\<lambda>a. bh_next (hdrs h' a)" "\<lambda>a. bh_next (hdrs h a)"] by (simp add: h')
      then show ?thesis using ys(2,3) True by (intro exI [of _ ys]) (auto simp: h')
    next
      case False
      obtain xs where xs: "chain (\<lambda>a. bh_next (hdrs h a)) (buckets h i) xs" "distinct xs"
        "\<forall>a \<in> set xs. (a, i) \<in> set (km_slots h) \<and> bh_magic (hdrs h a) = BLOCK_FREE"
        using assms(1) i by (auto simp: heap_wf_def free_wf_def)
      have nb: "b \<notin> set xs"
        using xs(3) bs slots_same_addr [of h b i idx] assms(1) False by (auto simp: heap_wf_def)
      then have "\<forall>a \<in> set xs. bh_next (hdrs h' a) = bh_next (hdrs h a)" by (auto simp: h')
      then have "chain (\<lambda>a. bh_next (hdrs h' a)) (buckets h' i) xs"
        using xs(1) False chain_cong [of xs "\<lambda>a. bh_next (hdrs h' a)" "\<lambda>a. bh_next (hdrs h a)"] by (simp add: h')
      then show ?thesis using xs(2,3) nb by (intro exI [of _ xs]) (auto simp: h')
    qed
  qed
  moreover have "pages_wf h'" using assms(1) pages_wf_cong [of h' h] by (simp add: h' heap_wf_def) (simp add: runs_def)
  moreover have "b \<notin> live h" using ys(3) slot_not_in_large [OF assms(1) bs] by (simp add: live_def)
  ultimately show ?thesis using hw sw p by (simp add: heap_wf_def)
qed

lemma has_room_unat:
  assumes "slots_wf h" and "idx < NUM_BUCKETS" and "has_room idx h"
  shows "unat (heap_ptr h + get_bucket_size idx) = unat (heap_ptr h) + slot_size idx"
    and "unat (heap_ptr h) + slot_size idx \<le> unat (heap_end h)"
proof -
  have "unat (heap_ptr h) + slot_size idx < 2 ^ 64"
    using assms(1) slot_size_le [OF assms(2)] by (simp add: slots_wf_def word_le_nat_alt)
  then show u: "unat (heap_ptr h + get_bucket_size idx) = unat (heap_ptr h) + slot_size idx"
    using unat_bucket_size [OF assms(2)] by (simp add: unat_word_ariths)
  show "unat (heap_ptr h) + slot_size idx \<le> unat (heap_end h)"
    using assms(3) u by (simp add: has_room_def word_le_nat_alt)
qed

lemma km_take_carve:
  assumes "heap_wf h" and "take_ok idx sz" and "buckets h idx = NULL" and "km_take idx sz h = Some (p, h')"
  shows "heap_wf h' \<and> live h' = insert (p - HEADER_SIZE) (live h) \<and> p - HEADER_SIZE \<notin> live h"
proof -
  define b where "b = heap_ptr h"
  have idx: "idx < NUM_BUCKETS" using assms(2) by (simp add: take_ok_def)
  have sw: "slots_wf h" using assms(1) by (simp add: heap_wf_def)
  have room: "has_room idx h" using assms(3,4) by (auto simp: km_take_def split: if_splits)
  note u = has_room_unat [OF sw idx room]
  have p: "p = b + HEADER_SIZE" and h': "h' = put_header b sz (of_nat idx)
      (h\<lparr>heap_ptr := heap_ptr h + get_bucket_size idx, km_slots := (b, idx) # km_slots h\<rparr>)"
    using assms(3,4) room by (simp_all add: km_take_def b_def Let_def)
  have sub: "slot_bytes (b, idx) \<subseteq> avail h" using u by (auto simp: slot_bytes_def avail_def b_def)
  have new: "slot_bytes x \<inter> slot_bytes (b, idx) = {}" if "x \<in> set (km_slots h)" for x
    using sw that sub unfolding slots_wf_def by blast
  have nin: "b \<notin> fst ` set (km_slots h)" using new slot_nonempty [of b idx] slot_nonempty [of b] by fastforce
  have av: "avail h' \<subseteq> avail h" "avail h' \<inter> slot_bytes (b, idx) = {}"
    using u by (auto simp: h' avail_def slot_bytes_def b_def)
  have ch: "\<exists>c \<in> set (km_chunks h). slot_bytes (b, idx) \<subseteq> run_bytes (c, CHUNK_PAGES)"
    using sw sub slot_nonempty [of b idx] unfolding slots_wf_def by blast
  have old: "disjoint_on slot_bytes (km_slots h)" using sw by (simp add: slots_wf_def)
  then have "disjoint_on slot_bytes ((b, idx) # km_slots h)"
    using new nin by (auto simp: disjoint_on_def image_iff)
  moreover have "heap_ptr h' \<le> heap_end h'" using u by (simp add: h' word_le_nat_alt)
  moreover have "\<forall>x \<in> set (km_slots h). slot_bytes x \<inter> avail h' = {}" using sw av(1) unfolding slots_wf_def by blast
  moreover have "avail h' = {} \<or> (\<exists>c \<in> set (km_chunks h). avail h' \<subseteq> run_bytes (c, CHUNK_PAGES))"
    using sw av(1) unfolding slots_wf_def by blast
  ultimately have sw': "slots_wf h'" using sw ch idx av(2) unfolding slots_wf_def by (simp add: h' Int_commute)
  have "unat b \<notin> run_bytes x" if "x \<in> set (km_large h)" for x
    using ch chunk_not_large [of h _ x] slot_nonempty [of b idx] assms(1) that unfolding heap_wf_def by blast
  then have nl: "b \<notin> fst ` set (km_large h)" using large_addr_run [OF assms(1)] by force
  have hw: "hdr_wf h' \<and> live h' = insert b (live h)"
    by (rule slot_live_hdr [where i = idx and sz = sz and h = h])
       (use assms(1,2) sw' nl in \<open>auto simp: h' heap_wf_def runs_def\<close>)
  moreover have "pages_wf h'" using assms(1) pages_wf_cong [of h' h] by (simp add: h' heap_wf_def) (simp add: runs_def)
  moreover have "free_wf h'"
    by (rule free_wf_frame [of h]) (use assms(1) nin in \<open>auto simp: h' heap_wf_def image_iff\<close>)
  moreover have "b \<notin> live h" using nin nl by (auto simp: live_def)
  ultimately show ?thesis using sw' p by (simp add: heap_wf_def)
qed

end
