(* ===== verification/Heap_Blocks.thy ===== *)
theory Heap_Blocks
  imports Heap_Ops
begin

text \<open>
  Giving page runs back, the first chunk, and the view of the heap its clients have: a map from block
  headers to sizes.  The statistics are the size of that map and the sum of its values.
\<close>

unbundle bit_operations_syntax

section \<open>Giving runs back\<close>

lemma run_owned:
  assumes "pages_wf h" and "(p, n) \<in> set (runs h)"
  shows "span_ok p n" "page_run p n \<subseteq> owned_addrs (hpmm h)" "pmm_wf (hpmm h)" "unat p \<in> run_bytes (p, n)"
proof -
  have "span_ok (fst (p, n)) (snd (p, n)) \<and> page_run (fst (p, n)) (snd (p, n)) \<subseteq> owned_addrs (hpmm h)"
    using assms unfolding pages_wf_def by blast
  then show s: "span_ok p n" and "page_run p n \<subseteq> owned_addrs (hpmm h)" by simp_all
  show "pmm_wf (hpmm h)" using assms(1) by (simp add: pages_wf_def)
  show "unat p \<in> run_bytes (p, n)" using s by (simp add: span_ok_def run_bytes_def)
qed

lemma heap_free_pages_ok:
  assumes "pmm_wf (hpmm h)" and "page_run p n \<subseteq> owned_addrs (hpmm h)" and "span_ok p n"
  obtains h' where "heap_free_pages p n h = Inr h'" "same_heap h h'" "pmm_wf (hpmm h')"
    "owned_addrs (hpmm h') = owned_addrs (hpmm h) - page_run p n"
    "hdrs h' = (\<lambda>a. if unat a \<in> run_bytes (p, n) then poison_header else hdrs h a)"
proof -
  obtain pm where pm: "pmm_free_pages p n (hpmm h) = Inr pm" "pmm_wf pm" "owned_addrs pm = owned_addrs (hpmm h) - page_run p n"
    using pp.release_run [OF assms(1,2)] by blast
  show thesis
    by (rule that [of "fill_headers p n poison_header (h\<lparr>hpmm := pm\<rparr>)"])
       (use pm in_range_run [OF assms(3)] in \<open>auto simp: heap_free_pages_def fill_headers_def same_heap_def\<close>)
qed

lemma run_removed:
  assumes wf: "heap_wf h" and r: "(p, n) \<in> set (runs h)" and nc: "\<forall>c \<in> set (km_chunks h). (c, CHUNK_PAGES) \<noteq> (p, n)"
    and k: "set (runs k) = set (runs h) - {(p, n)}" "distinct (runs k)" "km_slots k = km_slots h"
      "set (km_large k) = set (km_large h) - {(p, n)}" "buckets k = buckets h" "slots_wf k"
    and pm: "pmm_wf (hpmm k)" "owned_addrs (hpmm k) = owned_addrs (hpmm h) - page_run p n"
    and hd: "hdrs k = (\<lambda>a. if unat a \<in> run_bytes (p, n) then poison_header else hdrs h a)"
  shows "heap_wf k \<and> live k = live h - {p} \<and> (\<forall>a \<in> live h - {p}. hdrs k a = hdrs h a)"
proof -
  have pw: "pages_wf h" using wf by (simp add: heap_wf_def)
  have apart: "run_bytes q \<inter> run_bytes (p, n) = {}" "page_run (fst q) (snd q) \<inter> page_run p n = {}"
    if "q \<in> set (runs k)" for q
  proof -
    have q: "q \<in> set (runs h)" "q \<noteq> (p, n)" using that k(1) by simp_all
    show "run_bytes q \<inter> run_bytes (p, n) = {}" by (rule run_disjoint [OF pw q(1) r q(2)])
    show "page_run (fst q) (snd q) \<inter> page_run p n = {}" using pw r q by (force simp: pages_wf_def disjoint_on_def)
  qed
  have keep: "hdrs k a = hdrs h a" if "unat a \<in> run_bytes q" "q \<in> set (runs k)" for a q
    using apart(1) [OF that(2)] that(1) hd by auto
  have slot: "\<exists>q \<in> set (runs k). unat (fst x) \<in> run_bytes q" if x: "x \<in> set (km_slots h)" for x
  proof -
    obtain c where "c \<in> set (km_chunks h)" "slot_bytes x \<subseteq> run_bytes (c, CHUNK_PAGES)"
      using slot_in_chunk [of h x] wf x by (auto simp: heap_wf_def)
    then show ?thesis using nc k(1) chunk_in_runs [of c h] slot_nonempty [of "fst x" "snd x"] by force
  qed
  have sh: "hdrs k (fst x) = hdrs h (fst x)" if "x \<in> set (km_slots h)" for x
    using slot [OF that] keep by blast
  have lh: "hdrs k (fst x) = hdrs h (fst x)" "fst x \<noteq> p" if x: "x \<in> set (km_large k)" for x
  proof -
    have q: "x \<in> set (runs k)" "x \<in> set (km_large h)" using x k(1,4) large_in_runs by auto
    show "hdrs k (fst x) = hdrs h (fst x)" by (rule keep [OF large_addr_run [OF wf q(2)] q(1)])
    have "unat p \<in> run_bytes (p, n)" by (rule run_owned [OF pw r])
    then show "fst x \<noteq> p" using apart(1) [OF q(1)] large_addr_run [OF wf q(2)] by auto
  qed
  have pr: "unat p \<in> run_bytes (p, n)" by (rule run_owned [OF pw r])
  have sp: "fst x \<noteq> p" if "x \<in> set (km_slots h)" for x
    using slot [OF that] apart(1) pr by blast
  have live: "live k = live h - {p}"
  proof -
    have "fst ` set (km_large k) = fst ` set (km_large h) - {p}" using k(4) lh(2) by force
    moreover have "\<forall>a \<in> fst ` set (km_slots h). hdrs k a = hdrs h a \<and> a \<noteq> p" using sh sp by blast
    then have "a \<in> {a. bh_magic (hdrs k a) = BLOCK_MAGIC \<and> a \<in> fst ` set (km_slots h)} \<longleftrightarrow>
        a \<in> {a. bh_magic (hdrs h a) = BLOCK_MAGIC \<and> a \<in> fst ` set (km_slots h)} - {p}" for a
      by (cases "a \<in> fst ` set (km_slots h)") auto
    then have "{a. bh_magic (hdrs k a) = BLOCK_MAGIC \<and> a \<in> fst ` set (km_slots h)} =
        {a. bh_magic (hdrs h a) = BLOCK_MAGIC \<and> a \<in> fst ` set (km_slots h)} - {p}"
      by (rule set_eqI)
    ultimately show ?thesis unfolding live_def k(3) Un_Diff by simp
  qed
  have "page_run (fst q) (snd q) \<subseteq> owned_addrs (hpmm k)" "span_ok (fst q) (snd q)" if "q \<in> set (runs k)" for q
    using run_owned [OF pw, of "fst q" "snd q"] that apart(2) [OF that] pm(2) k(1) by auto
  moreover have "\<forall>x \<in> set (runs k). \<forall>y \<in> set (runs k). x \<noteq> y \<longrightarrow> page_run (fst x) (snd x) \<inter> page_run (fst y) (snd y) = {}"
    using pw k(1) by (simp add: pages_wf_def disjoint_on_def)
  ultimately have "pages_wf k" using pm(1) k(2) by (simp add: pages_wf_def disjoint_on_def)
  moreover have "free_wf k"
    by (rule free_wf_frame [of h]) (use wf k(3,5) sh in \<open>auto simp: heap_wf_def\<close>)
  moreover have "hdr_wf k"
  proof -
    have "\<forall>x \<in> set (km_slots k). bh_magic (hdrs k (fst x)) = BLOCK_FREE \<or>
        bh_magic (hdrs k (fst x)) = BLOCK_MAGIC \<and> bh_bucket (hdrs k (fst x)) = of_nat (snd x)
        \<and> unat (bh_size (hdrs k (fst x))) + 32 \<le> slot_size (snd x)"
      using wf sh k(3) by (simp add: heap_wf_def hdr_wf_def)
    moreover have "\<forall>x \<in> set (km_large k). bh_magic (hdrs k (fst x)) = BLOCK_MAGIC \<and> bh_bucket (hdrs k (fst x)) = LARGE_IDX
        \<and> (unat (bh_size (hdrs k (fst x))) + 32 + 4095) div 4096 = snd x"
      using wf lh k(4) by (auto simp: heap_wf_def hdr_wf_def)
    ultimately show ?thesis by (auto simp: hdr_wf_def)
  qed
  moreover have "\<forall>a \<in> live h - {p}. hdrs k a = hdrs h a"
    using sh lh(1) k(4) by (auto simp: live_def)
  ultimately show ?thesis using live k(6) by (simp add: heap_wf_def)
qed

lemma km_donate_ok:
  assumes "heap_wf h" and "c \<in> set (km_flight h)"
  shows "\<exists>h'. km_donate c h = Inr h' \<and> heap_wf h' \<and> live h' = live h \<and> (\<forall>a \<in> live h. hdrs h' a = hdrs h a)
    \<and> same_heap (h\<lparr>km_flight := removeAll c (km_flight h)\<rparr>) h'"
proof -
  let ?h = "h\<lparr>km_flight := removeAll c (km_flight h)\<rparr>"
  have pw: "pages_wf h" using assms(1) by (simp add: heap_wf_def)
  have r: "(c, CHUNK_PAGES) \<in> set (runs h)" using assms(2) by (auto simp: runs_def)
  have own: "span_ok c CHUNK_PAGES" "page_run c CHUNK_PAGES \<subseteq> owned_addrs (hpmm h)" "pmm_wf (hpmm h)"
    using run_owned [OF pw r] by simp_all
  have dr: "distinct (runs h)" using pw by (simp add: pages_wf_def disjoint_on_def)
  obtain h' where h': "heap_free_pages c CHUNK_PAGES ?h = Inr h'" "same_heap ?h h'" "pmm_wf (hpmm h')"
    "owned_addrs (hpmm h') = owned_addrs (hpmm ?h) - page_run c CHUNK_PAGES"
    "hdrs h' = (\<lambda>a. if unat a \<in> run_bytes (c, CHUNK_PAGES) then poison_header else hdrs ?h a)"
    by (rule heap_free_pages_ok [of ?h c CHUNK_PAGES]) (use own in simp_all)
  have runs: "runs h' = map (\<lambda>c. (c, CHUNK_PAGES)) (km_chunks h) @ map (\<lambda>c. (c, CHUNK_PAGES)) (removeAll c (km_flight h)) @ km_large h"
    using h'(2) by (simp add: same_heap_def runs_def)
  have cn: "c \<notin> set (km_chunks h)" "(c, CHUNK_PAGES) \<notin> set (km_large h)" "distinct (km_flight h)"
    using dr assms(2) by (auto simp: runs_def distinct_map)
  have "set (runs h') = set (runs h) - {(c, CHUNK_PAGES)}" unfolding runs using cn by (auto simp: runs_def)
  moreover have "distinct (runs h')"
    unfolding runs using dr by (auto simp: runs_def distinct_map distinct_removeAll inj_on_def)
  moreover have "slots_wf h'" using assms(1) h'(2) slots_wf_cong [of h' h] by (simp add: same_heap_def heap_wf_def)
  moreover have "km_slots h' = km_slots h" "km_large h' = km_large h" "buckets h' = buckets h" "km_lock h' = km_lock h"
    using h'(2) by (simp_all add: same_heap_def)
  ultimately have "heap_wf h' \<and> live h' = live h - {c} \<and> (\<forall>a \<in> live h - {c}. hdrs h' a = hdrs h a)"
    using cn h'(3-5) by (intro run_removed [OF assms(1) r]) auto
  moreover have "c \<notin> live h"
  proof
    assume "c \<in> live h"
    then have "c \<in> fst ` set (km_slots h) \<or> c \<in> fst ` set (km_large h)" by (auto simp: live_def)
    moreover have "unat c \<in> run_bytes (c, CHUNK_PAGES)" by (rule run_owned [OF pw r])
    moreover have "unat (fst x) \<notin> run_bytes (c, CHUNK_PAGES)" if "x \<in> set (km_large h)" for x
      using run_disjoint [OF pw r large_in_runs [OF that]] large_addr_run [OF assms(1) that] that cn(2) by blast
    moreover have "unat (fst x) \<notin> run_bytes (c, CHUNK_PAGES)" if x: "x \<in> set (km_slots h)" for x
    proof -
      obtain d where d: "d \<in> set (km_chunks h)" "slot_bytes x \<subseteq> run_bytes (d, CHUNK_PAGES)"
        using slot_in_chunk [of h x] assms(1) x by (auto simp: heap_wf_def)
      then have "run_bytes (c, CHUNK_PAGES) \<inter> run_bytes (d, CHUNK_PAGES) = {}"
        using run_disjoint [OF pw r chunk_in_runs [OF d(1)]] cn(1) by auto
      then show ?thesis using d(2) slot_nonempty [of "fst x" "snd x"] by auto
    qed
    ultimately show False by auto
  qed
  ultimately show ?thesis using h'(1,2) by (simp add: km_donate_def)
qed

lemma kmalloc_init_wf:
  assumes "heap_wf h"
  shows "heap_wf (kmalloc_init h) \<and> live (kmalloc_init h) = live h \<and> km_lock (kmalloc_init h) = km_lock h
    \<and> (\<forall>a \<in> live h. hdrs (kmalloc_init h) a = hdrs h a)"
proof (cases "heap_initialized h")
  case True
  then show ?thesis using assms by (simp add: kmalloc_init_def)
next
  case False
  obtain p h1 where al: "heap_alloc_pages CHUNK_PAGES h = (p, h1)" by (cases "heap_alloc_pages CHUNK_PAGES h")
  have pw: "pages_wf h" using assms by (simp add: heap_wf_def)
  show ?thesis
  proof (cases "p = NULL")
    case True
    then have "h1 = h" using heap_alloc_pages_cases [OF pw al] by (auto simp: fresh_run_def)
    then show ?thesis using True False al assms by (simp add: kmalloc_init_def)
  next
    case nn: False
    then have fr: "fresh_run h p CHUNK_PAGES h1" using heap_alloc_pages_cases [OF pw al] by blast
    have sh: "same_heap h h1" using fr by (simp add: fresh_run_def)
    define k where "k = kmalloc_init h"
    have k: "k = h1\<lparr>heap_ptr := p, heap_end := p + of_nat KMALLOC_CHUNK_SIZE,
        heap_total := of_nat KMALLOC_CHUNK_SIZE, buckets := (\<lambda>i. if i < NUM_BUCKETS then NULL else buckets h1 i),
        heap_initialized := True, km_chunks := p # km_chunks h1\<rparr>"
      using False al nn by (simp add: kmalloc_init_def k_def)
    have nin: "(p, CHUNK_PAGES) \<notin> set (runs h)" using fresh_run_bytes(2) [OF pw fr] by blast
    have dr: "distinct (runs h)" using pw by (simp add: pages_wf_def disjoint_on_def)
    have runs: "set (runs k) = insert (p, CHUNK_PAGES) (set (runs h))" "distinct (runs k)"
      using sh nin dr by (auto simp: k same_heap_def runs_def)
    have pk: "pages_wf k" using owned_mono [OF pw fr runs] by (simp add: k)
    have "p \<notin> set (km_chunks h)" using nin by (auto simp: runs_def)
    then have "slots_wf k"
      using sh assms by (intro activate_slots_wf [OF pk, of "km_chunks h" p]) (auto simp: k same_heap_def heap_wf_def slots_wf_def)
    then have "heap_wf k \<and> live k = live h"
      using sh by (intro fresh_run_added [OF assms fr runs]) (auto simp: k same_heap_def)
    moreover have "\<forall>a \<in> live h. hdrs k a = hdrs h a"
      using fresh_header_same [OF assms fr] by (auto simp: k live_def)
    ultimately show ?thesis using sh by (simp add: k_def [symmetric]) (simp add: k same_heap_def)
  qed
qed

section \<open>The blocks a client holds\<close>

definition blocks :: "heap \<Rightarrow> ptr \<Rightarrow> u32 option" where
  "blocks h a = (if a \<in> live h then Some (bh_size (hdrs h a)) else None)"

lemma dom_blocks [simp]: "dom (blocks h) = live h"
  by (auto simp: blocks_def dom_def)

lemma blocks_same: "live h' = live h \<Longrightarrow> \<forall>a \<in> live h. bh_size (hdrs h' a) = bh_size (hdrs h a) \<Longrightarrow> blocks h' = blocks h"
  by (auto simp: blocks_def fun_eq_iff)

lemma blocks_add:
  "live h' = insert b (live h) \<Longrightarrow> \<forall>a \<in> live h - {b}. bh_size (hdrs h' a) = bh_size (hdrs h a) \<Longrightarrow>
   blocks h' = (blocks h)(b \<mapsto> bh_size (hdrs h' b))"
  by (auto simp: blocks_def fun_eq_iff)

lemma blocks_del:
  "live h' = live h - {b} \<Longrightarrow> \<forall>a \<in> live h - {b}. bh_size (hdrs h' a) = bh_size (hdrs h a) \<Longrightarrow>
   blocks h' = (blocks h)(b := None)"
  by (auto simp: blocks_def fun_eq_iff)

text \<open>The statistics against the blocks.\<close>

definition stats_ok :: "heap \<Rightarrow> bool" where
  "stats_ok h \<longleftrightarrow> stat_live_allocs h = of_nat (card (live h))
     \<and> stat_bytes_in_use h = (\<Sum>a \<in> live h. ucast (the (blocks h a))) \<and> stat_bytes_in_use h \<le> stat_high_water h"

lemma finite_live_blocks: "finite (live h)"
proof -
  have "live h \<subseteq> fst ` set (km_slots h) \<union> fst ` set (km_large h)" by (auto simp: live_def)
  then show ?thesis by (rule finite_subset) simp
qed

text \<open>The statistics fields only.\<close>

definition same_stats :: "heap \<Rightarrow> heap \<Rightarrow> bool" where
  "same_stats h h' \<longleftrightarrow> stat_bytes_in_use h' = stat_bytes_in_use h \<and> stat_live_allocs h' = stat_live_allocs h
     \<and> stat_high_water h' = stat_high_water h"

lemma same_heap_stats: "same_heap h h' \<Longrightarrow> same_stats h h'"
  by (simp add: same_heap_def same_stats_def)

lemma stats_ok_same: "stats_ok h \<Longrightarrow> same_stats h h' \<Longrightarrow> blocks h' = blocks h \<Longrightarrow> stats_ok h'"
proof -
  assume a: "stats_ok h" "same_stats h h'" "blocks h' = blocks h"
  then have "live h' = live h" by (metis dom_blocks)
  then show "stats_ok h'" using a unfolding stats_ok_def same_stats_def by metis
qed

lemma stats_ok_add:
  assumes "stats_ok h" and "b \<notin> live h" and "blocks h' = (blocks h)(b \<mapsto> ucast sz)" and "unat sz < 2 ^ 32"
    and "same_stats h k" and "h' = km_stat_alloc sz k"
  shows "stats_ok h'"
proof -
  have l: "live h' = insert b (live h)" using assms(3) by (metis dom_blocks dom_fun_upd option.distinct(1))
  have "(ucast (ucast sz :: u32) :: u64) = sz"
    using assms(4) by (intro word_unat_eq_iff [THEN iffD2]) (simp add: unsigned_ucast_eq take_bit_eq_mod unat_mod)
  moreover have "(\<Sum>a \<in> live h. ucast (the (blocks h' a)) :: u64) = (\<Sum>a \<in> live h. ucast (the (blocks h a)))"
    using assms(2,3) by (intro sum.cong) auto
  ultimately have sm: "(\<Sum>a \<in> live h'. ucast (the (blocks h' a)) :: u64) = sz + (\<Sum>a \<in> live h. ucast (the (blocks h a)))"
    using assms(2,3) l finite_live_blocks [of h] by simp
  have "stat_bytes_in_use h' = stat_bytes_in_use h + sz" "stat_live_allocs h' = stat_live_allocs h + 1"
    "stat_bytes_in_use h' \<le> stat_high_water h'"
    using assms(5,6) by (auto simp: km_stat_alloc_def same_stats_def Let_def)
  then show ?thesis using assms(1,2) sm l finite_live_blocks [of h] by (simp add: stats_ok_def)
qed

lemma stats_ok_del:
  assumes "stats_ok h" and "b \<in> live h" and "blocks h' = (blocks h)(b := None)"
    and "same_stats (km_stat_free (ucast (the (blocks h b))) h) h'"
    and "(ucast (the (blocks h b)) :: u64) \<le> stat_bytes_in_use h"
  shows "stats_ok h'"
proof -
  have l: "live h' = live h - {b}" using assms(3) by (metis dom_blocks dom_fun_upd)
  have "(\<Sum>a \<in> live h'. ucast (the (blocks h' a)) :: u64) = (\<Sum>a \<in> live h - {b}. ucast (the (blocks h a)))"
    unfolding l using assms(3) by (intro sum.cong) auto
  moreover have "(\<Sum>a \<in> live h. ucast (the (blocks h a)) :: u64) = ucast (the (blocks h b)) + (\<Sum>a \<in> live h - {b}. ucast (the (blocks h a)))"
    by (rule sum.remove [OF finite_live_blocks assms(2)])
  moreover have "(of_nat (card (live h)) :: u64) = of_nat (card (live h')) + 1"
  proof -
    have "card (live h) = Suc (card (live h'))" unfolding l by (rule card.remove [OF finite_live_blocks assms(2)])
    then show ?thesis by (simp add: add.commute)
  qed
  moreover have "stat_bytes_in_use h - ucast (the (blocks h b)) \<le> stat_high_water h"
  proof -
    have "stat_bytes_in_use h \<le> stat_high_water h" using assms(1) unfolding stats_ok_def by blast
    then show ?thesis using assms(5) by (simp add: word_le_nat_alt unat_sub)
  qed
  ultimately show ?thesis
    using assms(1,4) by (simp add: stats_ok_def same_stats_def km_stat_free_def)
qed

lemma km_take_header:
  assumes "km_take idx sz h = Some (p, h')"
  shows "hdrs h' = (hdrs h)(p - HEADER_SIZE := \<lparr>bh_magic = BLOCK_MAGIC, bh_size = ucast sz, bh_next = NULL, bh_bucket = of_nat idx\<rparr>)"
    "same_stats h h'" "km_lock h' = km_lock h" "heap_initialized h' = heap_initialized h"
  using assms by (auto simp: km_take_def same_stats_def Let_def put_header_def split: if_splits)

lemma live_payload:
  assumes "heap_wf h" and "a \<in> live h"
  shows "unat a + 32 < 2 ^ 64" "a + HEADER_SIZE \<noteq> NULL" "block_bytes h a \<subseteq> {..<2 ^ 64}"
proof -
  have "\<exists>r \<in> set (runs h). block_bytes h a \<subseteq> run_bytes r"
    using live_blocks [OF assms] slot_in_chunk [of h] chunk_in_runs [of _ h] large_in_runs [of _ h] assms(1)
    unfolding heap_wf_def by (meson subset_trans)
  then obtain p n where r: "(p, n) \<in> set (runs h)" "block_bytes h a \<subseteq> run_bytes (p, n)" by (metis surj_pair)
  have "span_ok p n" using run_owned [OF _ r(1)] assms(1) by (simp add: heap_wf_def)
  then have b: "block_bytes h a \<subseteq> {..<2 ^ 64 - 4096}" using r(2) by (auto simp: span_ok_def run_bytes_def)
  moreover have "unat a + 31 \<in> block_bytes h a" by (simp add: block_bytes_def)
  ultimately show l: "unat a + 32 < 2 ^ 64" by auto
  show "block_bytes h a \<subseteq> {..<2 ^ 64}" using b by auto
  have "unat (a + HEADER_SIZE) = unat a + 32" using l by (simp add: HEADER_SIZE_def unat_word_ariths)
  then show "a + HEADER_SIZE \<noteq> NULL" by auto
qed

lemma km_take_ok:
  assumes "heap_wf h" and "take_ok idx sz" and "km_take idx sz h = Some (p, h')"
  shows "heap_wf h'" "p - HEADER_SIZE \<notin> live h" "blocks h' = (blocks h)(p - HEADER_SIZE \<mapsto> ucast sz)" "p \<noteq> NULL"
proof -
  have t: "heap_wf h' \<and> live h' = insert (p - HEADER_SIZE) (live h) \<and> p - HEADER_SIZE \<notin> live h"
    using km_take_pop [OF assms(1,2) _ assms(3)] km_take_carve [OF assms(1,2) _ assms(3)] by blast
  then show "heap_wf h'" "p - HEADER_SIZE \<notin> live h" by simp_all
  show "blocks h' = (blocks h)(p - HEADER_SIZE \<mapsto> ucast sz)"
    using blocks_add [of h' "p - HEADER_SIZE" h] t km_take_header(1) [OF assms(3)] by simp
  show "p \<noteq> NULL" using live_payload(2) [of h' "p - HEADER_SIZE"] t by simp
qed

text \<open>All live bytes together fit the address space, so the sum of sizes does not wrap.\<close>

lemma live_bytes_bound:
  assumes "heap_wf h"
  shows "(\<Sum>a \<in> live h. 32 + unat (the (blocks h a))) \<le> 2 ^ 64"
proof -
  have "(\<Sum>a \<in> live h. 32 + unat (the (blocks h a))) = (\<Sum>a \<in> live h. card (block_bytes h a))"
    by (intro sum.cong) (simp_all add: block_bytes_def blocks_def)
  also have "\<dots> = card (\<Union>a \<in> live h. block_bytes h a)"
  proof (rule card_UN_disjoint [symmetric])
    show "\<forall>a \<in> live h. finite (block_bytes h a)" by (simp add: block_bytes_def)
    show "\<forall>a \<in> live h. \<forall>b \<in> live h. a \<noteq> b \<longrightarrow> block_bytes h a \<inter> block_bytes h b = {}" using live_disjoint [OF assms] by blast
  qed (rule finite_live_blocks)
  also have "\<dots> \<le> card {..<2 ^ 64 :: nat}"
    using live_payload(3) [OF assms] by (intro card_mono) auto
  finally show ?thesis by simp
qed

lemma stats_exact:
  assumes "heap_wf h" and "stats_ok h"
  shows "unat (stat_live_allocs h) = card (live h)"
    and "unat (stat_bytes_in_use h) = (\<Sum>a \<in> live h. unat (the (blocks h a)))"
proof -
  have s: "(\<Sum>a \<in> live h. unat (the (blocks h a))) + 32 * card (live h) \<le> 2 ^ 64"
    using live_bytes_bound [OF assms(1)] by (simp add: sum.distrib)
  have c: "card (live h) < 2 ^ 64" "(\<Sum>a \<in> live h. unat (the (blocks h a))) < 2 ^ 64"
  proof -
    show "card (live h) < 2 ^ 64" using s by simp
    show "(\<Sum>a \<in> live h. unat (the (blocks h a))) < 2 ^ 64"
    proof (cases "live h = {}")
      case False
      then have "0 < card (live h)" using finite_live_blocks [of h] by (simp add: card_gt_0_iff)
      then show ?thesis using s by simp
    qed simp
  qed
  show "unat (stat_live_allocs h) = card (live h)" using assms(2) c(1) by (simp add: stats_ok_def unat_of_nat_64)
  have "stat_bytes_in_use h = of_nat (\<Sum>a \<in> live h. unat (the (blocks h a)))"
    using assms(2) by (simp add: stats_ok_def)
  then show "unat (stat_bytes_in_use h) = (\<Sum>a \<in> live h. unat (the (blocks h a)))"
    using unat_of_nat_64 [OF c(2)] by (simp only:)
qed

end
