(* ===== verification/Heap_Correct.thy ===== *)
theory Heap_Correct
  imports Heap_Blocks
begin

text \<open>
  \<open>kmalloc\<close> and \<open>kfree\<close> against the map of blocks: the loop ends in its second pass when no other
  processor interferes, an allocation adds one fresh block, a release removes exactly one, and a
  pointer that is not a live block is refused.
\<close>

unbundle bit_operations_syntax

section \<open>Allocation\<close>

text \<open>What an allocation of \<open>sz\<close> bytes does to the blocks.\<close>

definition allocated_block :: "heap \<Rightarrow> u64 \<Rightarrow> ptr \<Rightarrow> heap \<Rightarrow> bool" where
  "allocated_block h sz p h' \<longleftrightarrow>
     (if p = NULL then blocks h' = blocks h
      else p - HEADER_SIZE \<notin> live h \<and> blocks h' = (blocks h)(p - HEADER_SIZE \<mapsto> ucast sz))"

lemma km_fetch_frame:
  assumes "heap_wf h" and "km_fetch h = (c, h')"
  shows "heap_wf h'" "blocks h' = blocks h" "same_stats h h'" "km_lock h' = km_lock h" "buckets h' = buckets h"
    "has_room idx h' = has_room idx h" "c \<noteq> NULL \<Longrightarrow> c \<in> set (km_flight h')" "c = NULL \<Longrightarrow> h' = h"
proof -
  have f: "heap_wf h' \<and> live h' = live h \<and> km_lock h' = km_lock h \<and> (c \<noteq> NULL \<longrightarrow> c \<in> set (km_flight h')) \<and>
    (\<forall>a \<in> live h. hdrs h' a = hdrs h a)" by (rule km_fetch_wf [OF assms])
  then show "heap_wf h'" "blocks h' = blocks h" "km_lock h' = km_lock h" "c \<noteq> NULL \<Longrightarrow> c \<in> set (km_flight h')"
    using blocks_same [of h' h] by simp_all
  obtain h1 where al: "heap_alloc_pages CHUNK_PAGES h = (c, h1)" and h': "h' = (if c = NULL then h1 else h1\<lparr>km_flight := c # km_flight h1\<rparr>)"
    using assms(2) by (auto simp: km_fetch_def split: prod.splits)
  have "(c = NULL \<and> h1 = h) \<or> fresh_run h c CHUNK_PAGES h1"
    using heap_alloc_pages_cases [OF _ al] assms(1) by (simp add: heap_wf_def)
  then have sh: "same_heap h h1" and nl: "c = NULL \<Longrightarrow> h1 = h" by (auto simp: fresh_run_def same_heap_def)
  then show "c = NULL \<Longrightarrow> h' = h" using h' by simp
  show "same_stats h h'" "buckets h' = buckets h" "has_room idx h' = has_room idx h"
    using sh h' by (auto simp: same_stats_def same_heap_def has_room_def)
qed

text \<open>A fresh chunk has room for a slot of every bucket.\<close>

lemma fresh_chunk_room:
  assumes "span_ok c CHUNK_PAGES" and "idx < NUM_BUCKETS" and "heap_ptr h = c" and "heap_end h = c + of_nat KMALLOC_CHUNK_SIZE"
  shows "has_room idx h"
proof -
  have "unat c + 4096 < 2 ^ 64" using assms(1) by (simp add: span_ok_def)
  then have "unat (c + get_bucket_size idx) = unat c + slot_size idx"
    using unat_bucket_size [OF assms(2)] slot_size_le [OF assms(2)] by (simp add: unat_word_ariths)
  then show ?thesis
    using chunk_end [OF assms(1)] slot_size_le [OF assms(2)] assms(3,4)
    by (simp add: has_room_def word_le_nat_alt KMALLOC_CHUNK_SIZE_def)
qed

lemma km_take_some: "buckets h idx \<noteq> NULL \<or> has_room idx h \<Longrightarrow> \<exists>p h'. km_take idx sz h = Some (p, h')"
  by (auto simp: km_take_def Let_def)

lemma km_take_none: "km_take idx sz h = None \<longleftrightarrow> buckets h idx = NULL \<and> \<not> has_room idx h"
  by (auto simp: km_take_def Let_def)

text \<open>Without interference the loop ends in its second pass.\<close>

lemma km_loop_two_passes:
  assumes "heap_wf h" and "take_ok idx sz" and "2 \<le> fuel"
  shows "\<exists>p h'. km_loop fuel idx sz h = Some (Inr (p, h')) \<and> heap_wf h' \<and> same_stats h h'
    \<and> km_lock h' = km_lock h \<and> allocated_block h sz p h'"
proof -
  obtain n where fuel: "fuel = Suc (Suc n)" using assms(3) by (metis Suc_le_D numeral_2_eq_2 Suc_le_mono)
  have took: "\<exists>p h'. km_loop (Suc m) idx sz k = Some (Inr (p, h')) \<and> heap_wf h' \<and> same_stats k h'
    \<and> km_lock h' = km_lock k \<and> allocated_block k sz p h'"
    if "heap_wf k" "km_take idx sz k = Some (q, k')" for k m q k'
    using km_take_ok [OF that(1) assms(2) that(2)] km_take_header [OF that(2)] that(2) by (simp add: allocated_block_def)
  show ?thesis
  proof (cases "km_take idx sz h")
    case (Some r)
    then show ?thesis using took [OF assms(1)] fuel by (cases r) simp
  next
    case None
    obtain c h1 where f: "km_fetch h = (c, h1)" by (cases "km_fetch h")
    note fr = km_fetch_frame [OF assms(1) f]
    have nr: "buckets h1 idx = NULL" "\<not> has_room idx h1" using None fr(5,6) by (simp_all add: km_take_none)
    show ?thesis
    proof (cases "c = NULL")
      case True
      then have "km_grow idx c h1 = (Exhausted, h1)" using nr by (simp add: km_grow_def)
      then show ?thesis using None f fr(8) [OF True] assms(1) True
        by (simp add: fuel allocated_block_def same_stats_def)
    next
      case False
      obtain h2 where g: "km_grow idx c h1 = (Retry, h2)"
        "heap_ptr h2 = c" "heap_end h2 = c + of_nat KMALLOC_CHUNK_SIZE" "same_stats h1 h2"
        using False nr by (simp add: km_grow_def same_stats_def)
      have w: "heap_wf h2 \<and> live h2 = live h1 \<and> hdrs h2 = hdrs h1 \<and> km_lock h2 = km_lock h1"
        using km_grow_wf [OF fr(1) g(1)] fr(7) by blast
      have "(c, CHUNK_PAGES) \<in> set (runs h1)" using fr(7) [OF False] by (auto simp: runs_def)
      then have "span_ok c CHUNK_PAGES" using run_owned [of h1] fr(1) by (simp add: heap_wf_def)
      then have "has_room idx h2" using fresh_chunk_room [OF _ _ g(2,3)] assms(2) by (simp add: take_ok_def)
      then obtain q k where "km_take idx sz h2 = Some (q, k)" using km_take_some by blast
      then obtain p h' where r: "km_loop (Suc n) idx sz h2 = Some (Inr (p, h'))" "heap_wf h'" "same_stats h2 h'"
        "km_lock h' = km_lock h2" "allocated_block h2 sz p h'" using took w by blast
      have "blocks h2 = blocks h" using w blocks_same [of h2 h1] fr(2) by simp
      moreover have "live h2 = live h" using w fr(2) by (metis dom_blocks)
      ultimately have "allocated_block h sz p h'" using r(5) by (simp add: allocated_block_def split: if_splits)
      then show ?thesis using None f g(1) r w fr(3,4) g(4)
        by (simp add: fuel same_stats_def)
    qed
  qed
qed

lemma bucket_fits:
  assumes "get_bucket_index (sz + HEADER_SIZE) \<ge> 0" and "sz \<le> - 1 - HEADER_SIZE"
  shows "take_ok (nat (get_bucket_index (sz + HEADER_SIZE))) sz"
proof -
  have "unat sz \<le> 2 ^ 64 - 1 - 32" using assms(2) by (simp add: word_le_nat_alt HEADER_SIZE_def)
  then have "unat (sz + HEADER_SIZE) = unat sz + 32" by (simp add: HEADER_SIZE_def unat_word_ariths)
  then show ?thesis
    using assms(1) unfolding get_bucket_index_def
    by (auto simp: take_ok_def slot_size_def NUM_BUCKETS_def word_le_nat_alt split: if_splits)
qed

definition core :: "heap \<Rightarrow> _" where
  "core h = (hdrs h, hpmm h, km_chunks h, km_slots h, km_large h, km_flight h, heap_ptr h, heap_end h, buckets h)"

lemma core_cong:
  assumes "core h' = core h"
  shows "heap_wf h' = heap_wf h" "live h' = live h" "blocks h' = blocks h"
proof -
  have r: "runs h' = runs h" "hpmm h' = hpmm h" "km_slots h' = km_slots h" "km_large h' = km_large h"
    "hdrs h' = hdrs h" "buckets h' = buckets h" "km_chunks h' = km_chunks h" "heap_ptr h' = heap_ptr h" "heap_end h' = heap_end h"
    using assms by (simp_all add: core_def runs_def)
  show l: "live h' = live h" by (simp add: live_def r)
  show "blocks h' = blocks h" by (simp add: blocks_def l r fun_eq_iff)
  show "heap_wf h' = heap_wf h" unfolding heap_wf_def pages_wf_def slots_wf_def free_wf_def hdr_wf_def avail_def l r ..
qed

lemma core_stats [simp]: "core (km_stat_alloc sz h) = core h" "core (km_stat_free sz h) = core h"
  "core (h\<lparr>km_lock := b\<rparr>) = core h"
  "km_lock (km_stat_alloc sz h) = km_lock h" "km_lock (km_stat_free sz h) = km_lock h"
  by (simp_all add: core_def km_stat_alloc_def km_stat_free_def Let_def)

lemma core_runs: "core h' = core h \<Longrightarrow> runs h' = runs h"
  by (simp add: core_def runs_def)

lemma kmalloc_init_stats: "same_stats h (kmalloc_init h)"
  by (auto simp: kmalloc_init_def same_stats_def heap_alloc_pages_def fill_headers_def split: prod.splits)

lemma large_pages:
  assumes "sz \<le> - 1 - HEADER_SIZE" and "unat sz < 2 ^ 32"
  shows "unat ((sz + HEADER_SIZE + 4095) div 4096) = (unat (ucast sz :: u32) + 32 + 4095) div 4096"
proof -
  have "unat (sz + HEADER_SIZE + 4095) = unat sz + 32 + 4095" using assms(2) by (simp add: HEADER_SIZE_def unat_word_ariths)
  moreover have "unat (ucast sz :: u32) = unat sz" using assms(2) by (simp add: unsigned_ucast_eq take_bit_eq_mod)
  ultimately show ?thesis by (simp add: unat_div)
qed

lemma large_added:
  assumes wf: "heap_wf h" and fr: "fresh_run h q n h1" and n: "n = (unat (ucast sz :: u32) + 32 + 4095) div 4096"
    and k: "k = put_header q sz LARGE_IDX (h1\<lparr>km_large := (q, n) # km_large h1\<rparr>)"
  shows "heap_wf k \<and> live k = insert q (live h) \<and> q \<notin> live h \<and> (\<forall>a \<in> live h. hdrs k a = hdrs h a)"
proof -
  have pw: "pages_wf h" and sw: "slots_wf h" and fw: "free_wf h" and hw: "hdr_wf h" using wf by (simp_all add: heap_wf_def)
  have sh: "same_heap h h1" using fr by (simp add: fresh_run_def)
  have sp: "span_ok q n" using fr by (simp add: fresh_run_def)
  have qin: "unat q \<in> run_bytes (q, n)" using sp by (simp add: span_ok_def run_bytes_def)
  have out: "fst x \<noteq> q" if x: "x \<in> set (km_slots h) \<union> set (km_large h)" for x
  proof -
    obtain r where "r \<in> set (runs h)" "unat (fst x) \<in> run_bytes r"
      using slot_addr_run [OF wf] large_addr_run [OF wf] large_in_runs x by blast
    then show ?thesis using fresh_run_bytes(1) [OF pw fr] qin by blast
  qed
  have same: "hdrs k (fst x) = hdrs h (fst x)" if x: "x \<in> set (km_slots h) \<union> set (km_large h)" for x
    using fresh_header_same [OF wf fr x] out [OF x] by (simp add: k)
  have nin: "(q, n) \<notin> set (runs h)" using fresh_run_bytes(2) [OF pw fr] by blast
  have dr: "distinct (runs h)" using pw by (simp add: pages_wf_def disjoint_on_def)
  have runs: "set (runs k) = insert (q, n) (set (runs h))" "distinct (runs k)"
    using sh nin dr by (auto simp: k same_heap_def runs_def put_header_def)
  have ks: "km_slots k = km_slots h" "km_large k = (q, n) # km_large h" "buckets k = buckets h" "hpmm k = hpmm h1"
    "hdrs k q = \<lparr>bh_magic = BLOCK_MAGIC, bh_size = ucast sz, bh_next = NULL, bh_bucket = LARGE_IDX\<rparr>"
    using sh by (simp_all add: k same_heap_def)
  have pk: "pages_wf k" by (rule owned_mono [OF pw fr runs ks(4)])
  have "slots_wf k" using sw sh slots_wf_cong [of k h] by (simp add: k same_heap_def)
  moreover have "free_wf k" by (rule free_wf_frame [OF fw]) (use ks same in auto)
  moreover have live: "live k = insert q (live h)"
  proof -
    have "(a, i) \<in> set (km_slots h) \<Longrightarrow> hdrs k a = hdrs h a" for a i using same [of "(a, i)"] by simp
    then show ?thesis unfolding live_def ks by auto
  qed
  moreover have "hdr_wf k"
  proof -
    have "\<forall>x \<in> set (km_slots k). bh_magic (hdrs k (fst x)) = BLOCK_FREE \<or>
        bh_magic (hdrs k (fst x)) = BLOCK_MAGIC \<and> bh_bucket (hdrs k (fst x)) = of_nat (snd x)
        \<and> unat (bh_size (hdrs k (fst x))) + 32 \<le> slot_size (snd x)"
      using hw same ks(1) by (simp add: hdr_wf_def)
    moreover have "\<forall>x \<in> set (km_large h). bh_magic (hdrs k (fst x)) = BLOCK_MAGIC \<and> bh_bucket (hdrs k (fst x)) = LARGE_IDX
        \<and> (unat (bh_size (hdrs k (fst x))) + 32 + 4095) div 4096 = snd x"
      using hw same by (simp add: hdr_wf_def)
    ultimately show ?thesis using n ks(5) unfolding hdr_wf_def ks(2) by auto
  qed
  moreover have "q \<notin> live h" using out by (auto simp: live_def)
  moreover have "\<forall>a \<in> live h. hdrs k a = hdrs h a" using same by (auto simp: live_def)
  ultimately show ?thesis using pk by (simp add: heap_wf_def)
qed

lemma km_large_alloc_ok:
  assumes "heap_wf h" and "sz \<le> - 1 - HEADER_SIZE" and "unat sz < 2 ^ 32" and "km_large_alloc sz h = (p, h')"
  shows "heap_wf h'" "allocated_block h sz p h'" "km_lock h' = km_lock h"
    "if p = NULL then h' = h else \<exists>k. same_stats h k \<and> h' = km_stat_alloc sz k"
proof -
  define n where "n = unat ((sz + HEADER_SIZE + 4095) div 4096)"
  obtain q h1 where al: "heap_alloc_pages n h = (q, h1)" by (cases "heap_alloc_pages n h")
  have cs: "(q = NULL \<and> h1 = h) \<or> fresh_run h q n h1" using heap_alloc_pages_cases [OF _ al] assms(1) by (simp add: heap_wf_def)
  define k where "k = put_header q sz LARGE_IDX (h1\<lparr>km_large := (q, n) # km_large h1\<rparr>)"
  have ph: "(p, h') = (if q = NULL then (NULL, h1) else (q + HEADER_SIZE, km_stat_alloc sz k))"
    using assms(4) al by (auto simp: km_large_alloc_def n_def [symmetric] k_def split: if_splits)
  have "heap_wf h' \<and> allocated_block h sz p h' \<and> km_lock h' = km_lock h \<and> (if p = NULL then h' = h else \<exists>k. same_stats h k \<and> h' = km_stat_alloc sz k)"
  proof (cases "q = NULL")
    case True
    then show ?thesis using cs ph assms(1) by (auto simp: fresh_run_def allocated_block_def)
  next
    case False
    then have fr: "fresh_run h q n h1" using cs by blast
    have l: "heap_wf k \<and> live k = insert q (live h) \<and> q \<notin> live h \<and> (\<forall>a \<in> live h. hdrs k a = hdrs h a)"
      by (rule large_added [OF assms(1) fr _ k_def]) (simp add: n_def large_pages [OF assms(2,3)])
    have h': "p = q + HEADER_SIZE" "h' = km_stat_alloc sz k" using ph False by simp_all
    have pn: "p \<noteq> NULL" using live_payload(2) [of k q] l h'(1) by simp
    have "same_heap h h1" using fr by (simp add: fresh_run_def)
    then have st: "same_stats h k" "km_lock k = km_lock h" by (simp_all add: k_def same_stats_def same_heap_def put_header_def)
    have "bh_size (hdrs k q) = ucast sz" by (simp add: k_def)
    then have "blocks k = (blocks h)(q \<mapsto> ucast sz)" using blocks_add [of k q h] l by simp
    then show ?thesis using l h' pn st core_cong [of h' k] by (auto simp: allocated_block_def)
  qed
  then show "heap_wf h'" "allocated_block h sz p h'" "km_lock h' = km_lock h"
    "if p = NULL then h' = h else \<exists>k. same_stats h k \<and> h' = km_stat_alloc sz k" by simp_all
qed

text \<open>The contract of \<open>kmalloc\<close> when the lock is free and the saved interrupt word is not zero.\<close>

lemma kmalloc_ok:
  assumes "heap_wf h" and "stats_ok h" and "\<not> km_lock h" and "flags \<noteq> 0" and "unat sz < 2 ^ 32" and "2 \<le> fuel"
  shows "\<exists>p h'. kmalloc fuel flags sz h = Some (Inr (p, h')) \<and> heap_wf h' \<and> stats_ok h' \<and> \<not> km_lock h' \<and> allocated_block h sz p h'"
proof -
  define k where "k = (if heap_initialized h then h else kmalloc_init h)"
  have i: "heap_wf k \<and> live k = live h \<and> km_lock k = km_lock h \<and> (\<forall>a \<in> live h. hdrs k a = hdrs h a)"
    using kmalloc_init_wf [OF assms(1)] assms(1) by (simp add: k_def)
  have kb: "blocks k = blocks h" using i by (intro blocks_same) auto
  have "same_stats h k" using kmalloc_init_stats by (simp add: k_def same_stats_def)
  then have ks: "stats_ok k" by (rule stats_ok_same [OF assms(2) _ kb])
  have none: ?thesis if "kmalloc fuel flags sz h = Some (Inr (NULL, k))"
    using that i kb ks assms(3) by (simp add: allocated_block_def)
  have ab: "allocated_block h sz p h' = allocated_block k sz p h'" for p h'
    using i kb by (simp add: allocated_block_def)
  have sadd: "stats_ok (km_stat_alloc sz x)" if "same_stats k x" "allocated_block k sz p (km_stat_alloc sz x)" "p \<noteq> NULL" for p x
    using stats_ok_add [OF ks _ _ assms(5) that(1)] that(2,3) by (auto simp: allocated_block_def)
  consider "sz = 0 \<or> sz > - 1 - HEADER_SIZE" | "sz \<noteq> 0" "sz \<le> - 1 - HEADER_SIZE" by fastforce
  then show ?thesis
  proof cases
    case 1
    then show ?thesis using assms(3) by (intro none) (auto simp: kmalloc_def k_def [symmetric] Let_def)
  next
    case 2
    have go: "kmalloc fuel flags sz h =
      (if get_bucket_index (sz + HEADER_SIZE) \<ge> 0 then
            (case km_loop fuel (nat (get_bucket_index (sz + HEADER_SIZE))) sz k of
               None \<Rightarrow> None
             | Some (Inl p) \<Rightarrow> Some (Inl p)
             | Some (Inr (res, h1)) \<Rightarrow>
                 let h2 = h1\<lparr>km_lock := (flags = 0)\<rparr>
                 in Some (Inr (res, if res \<noteq> NULL then km_stat_alloc sz h2 else h2)))
          else Some (Inr (km_large_alloc sz k)))"
      using 2(1) leD [OF 2(2)] assms(3) i by (simp add: kmalloc_def k_def [symmetric] Let_def)
    show ?thesis
    proof (cases "get_bucket_index (sz + HEADER_SIZE) \<ge> 0")
      case True
      obtain p h1 where l: "km_loop fuel (nat (get_bucket_index (sz + HEADER_SIZE))) sz k = Some (Inr (p, h1))" "heap_wf h1"
        "same_stats k h1" "allocated_block k sz p h1"
        using km_loop_two_passes [OF _ bucket_fits [OF True 2(2)] assms(6), of k] i by blast
      define h2 where "h2 = (if p \<noteq> NULL then km_stat_alloc sz (h1\<lparr>km_lock := False\<rparr>) else h1\<lparr>km_lock := False\<rparr>)"
      have r: "kmalloc fuel flags sz h = Some (Inr (p, h2))" using go True l(1) assms(4) by (simp add: Let_def h2_def)
      have c: "core h2 = core h1" by (simp add: h2_def)
      have a2: "allocated_block k sz p h2" using l(4) core_cong [OF c] by (simp add: allocated_block_def)
      have "stats_ok h2"
      proof (cases "p = NULL")
        case True
        then show ?thesis using stats_ok_same [OF ks, of h2] l(3) a2 by (simp add: h2_def allocated_block_def same_stats_def)
      next
        case False
        then show ?thesis using sadd [of "h1\<lparr>km_lock := False\<rparr>" p] l(3) a2 by (simp add: h2_def same_stats_def)
      qed
      moreover have "\<not> km_lock h2" by (simp add: h2_def)
      ultimately show ?thesis using r a2 ab l(2) core_cong [OF c] by blast
    next
      case False
      obtain p h' where m: "km_large_alloc sz k = (p, h')" by (cases "km_large_alloc sz k")
      note la = km_large_alloc_ok [OF _ 2(2) assms(5) m]
      have "stats_ok h'"
      proof (cases "p = NULL")
        case True
        then show ?thesis using la(4) i ks by simp
      next
        case nn: False
        then obtain x where "same_stats k x" "h' = km_stat_alloc sz x" using la(4) i by auto
        then show ?thesis using sadd [of x p] la(2) nn i by simp
      qed
      then show ?thesis using go False m la i ab assms(3) by simp
    qed
  qed
qed

section \<open>Release\<close>

lemma unat_u32: "unat (w :: u32) < 2 ^ 32" "unat (ucast w :: u64) = unat w"
proof -
  show l: "unat w < 2 ^ 32" using unsigned_less [of w] by simp
  show "unat (ucast w :: u64) = unat w" using l by (simp add: unsigned_ucast_eq take_bit_eq_mod)
qed

lemma live_cases:
  assumes "heap_wf h" and "b \<in> live h"
  obtains (slot) i where "(b, i) \<in> set (km_slots h)" "i < NUM_BUCKETS" "bh_magic (hdrs h b) = BLOCK_MAGIC"
      "bh_bucket (hdrs h b) = of_nat i" "b \<notin> fst ` set (km_large h)"
  | (large) n where "(b, n) \<in> set (km_large h)" "bh_magic (hdrs h b) = BLOCK_MAGIC" "bh_bucket (hdrs h b) = LARGE_IDX"
      "(unat (bh_size (hdrs h b)) + 32 + 4095) div 4096 = n"
proof (cases "b \<in> fst ` set (km_large h)")
  case True
  then obtain n where n: "(b, n) \<in> set (km_large h)" by auto
  have "\<forall>x \<in> set (km_large h). bh_magic (hdrs h (fst x)) = BLOCK_MAGIC \<and> bh_bucket (hdrs h (fst x)) = LARGE_IDX
        \<and> (unat (bh_size (hdrs h (fst x))) + 32 + 4095) div 4096 = snd x"
    using assms(1) by (simp add: heap_wf_def hdr_wf_def)
  then show thesis using large [OF n] n by force
next
  case False
  then obtain i where i: "(b, i) \<in> set (km_slots h)" "bh_magic (hdrs h b) = BLOCK_MAGIC"
    using assms(2) by (auto simp: live_def)
  have "\<forall>x \<in> set (km_slots h). bh_magic (hdrs h (fst x)) = BLOCK_FREE \<or>
        bh_magic (hdrs h (fst x)) = BLOCK_MAGIC \<and> bh_bucket (hdrs h (fst x)) = of_nat (snd x)
        \<and> unat (bh_size (hdrs h (fst x))) + 32 \<le> slot_size (snd x)" "\<forall>x \<in> set (km_slots h). snd x < NUM_BUCKETS"
    using assms(1) by (simp_all add: heap_wf_def hdr_wf_def slots_wf_def)
  then show thesis using slot [OF i(1) _ i(2) _ False] i by force
qed

lemma bucket_of_nat: "i < NUM_BUCKETS \<Longrightarrow> unat (of_nat i :: u32) = i \<and> (of_nat i :: u32) \<noteq> LARGE_IDX"
proof -
  assume "i < NUM_BUCKETS"
  then have "i \<in> {0, 1, 2, 3, 4, 5, 6, 7, 8}" by (auto simp: NUM_BUCKETS_def)
  then show ?thesis by (auto simp: LARGE_IDX_def)
qed

text \<open>A live slot goes to the head of the free list of its bucket.\<close>

lemma slot_freed:
  assumes wf: "heap_wf h" and b: "(b, i) \<in> set (km_slots h)" "i < NUM_BUCKETS" "bh_magic (hdrs h b) = BLOCK_MAGIC"
      "b \<notin> fst ` set (km_large h)"
    and k: "k = h\<lparr>hdrs := (hdrs h)(b := (hdrs h b)\<lparr>bh_magic := BLOCK_FREE, bh_next := buckets h i\<rparr>), buckets := (buckets h)(i := b)\<rparr>"
  shows "heap_wf k \<and> live k = live h - {b}"
proof -
  have pw: "pages_wf h" and sw: "slots_wf h" and fw: "free_wf h" and hw: "hdr_wf h" using wf by (simp_all add: heap_wf_def)
  have ks: "km_slots k = km_slots h" "km_large k = km_large h" "runs k = runs h"
    "hdrs k = (hdrs h)(b := (hdrs h b)\<lparr>bh_magic := BLOCK_FREE, bh_next := buckets h i\<rparr>)" "buckets k = (buckets h)(i := b)"
    by (simp_all add: k runs_def)
  have live: "live k = live h - {b}" unfolding live_def ks using b(4) by (auto simp: image_iff)
  have bnz: "b \<noteq> NULL"
  proof -
    obtain r where r: "r \<in> set (runs h)" "unat b \<in> run_bytes r" using slot_addr_run [OF wf b(1)] by auto
    then show ?thesis using run_owned(1) [OF pw, of "fst r" "snd r"] by (auto simp: run_bytes_def span_ok_def)
  qed
  have "\<exists>xs. chain (\<lambda>a. bh_next (hdrs k a)) (buckets k j) xs \<and> distinct xs
     \<and> (\<forall>a \<in> set xs. (a, j) \<in> set (km_slots k) \<and> bh_magic (hdrs k a) = BLOCK_FREE)" if j: "j < NUM_BUCKETS" for j
  proof -
    obtain xs where xs: "chain (\<lambda>a. bh_next (hdrs h a)) (buckets h j) xs" "distinct xs"
      "\<forall>a \<in> set xs. (a, j) \<in> set (km_slots h) \<and> bh_magic (hdrs h a) = BLOCK_FREE"
      using fw j by (auto simp: free_wf_def)
    have nb: "b \<notin> set xs" using xs(3) b(3) by auto
    then have c: "chain (\<lambda>a. bh_next (hdrs k a)) (buckets h j) xs"
      using xs(1) chain_cong [of xs "\<lambda>a. bh_next (hdrs k a)" "\<lambda>a. bh_next (hdrs h a)"] by (auto simp: ks)
    show ?thesis
    proof (cases "j = i")
      case True
      then show ?thesis using c nb xs b(1) bnz by (intro exI [of _ "b # xs"]) (auto simp: ks)
    next
      case False
      then show ?thesis using c nb xs by (intro exI [of _ xs]) (auto simp: ks)
    qed
  qed
  then have "free_wf k" by (simp add: free_wf_def)
  moreover have "hdr_wf k"
  proof -
    have "\<forall>x \<in> set (km_slots h). bh_magic (hdrs k (fst x)) = BLOCK_FREE \<or>
        bh_magic (hdrs k (fst x)) = BLOCK_MAGIC \<and> bh_bucket (hdrs k (fst x)) = of_nat (snd x)
        \<and> unat (bh_size (hdrs k (fst x))) + 32 \<le> slot_size (snd x)"
      using hw by (simp add: hdr_wf_def ks)
    moreover have "\<forall>x \<in> set (km_large h). hdrs k (fst x) = hdrs h (fst x)" using b(4) by (auto simp: ks)
    ultimately show ?thesis using hw unfolding hdr_wf_def ks(1-3) by simp
  qed
  moreover have "slots_wf k" using sw slots_wf_cong [of k h] by (simp add: k)
  moreover have "pages_wf k" using pw pages_wf_cong [of k h] ks(3) by (simp add: k)
  ultimately show ?thesis using live by (simp add: heap_wf_def)
qed

text \<open>A large block returns its pages.\<close>

lemma large_freed:
  assumes wf: "heap_wf h" and b: "(b, n) \<in> set (km_large h)"
    and h2: "h2 = h\<lparr>hdrs := (hdrs h)(b := x), km_large := filter (\<lambda>x. fst x \<noteq> b) (km_large h)\<rparr>"
  shows "\<exists>k. heap_free_pages b n h2 = Inr k \<and> heap_wf k \<and> live k = live h - {b} \<and> (\<forall>a \<in> live h - {b}. hdrs k a = hdrs h a)
     \<and> same_heap h2 k \<and> bh_magic (hdrs k b) \<noteq> BLOCK_MAGIC"
proof -
  have pw: "pages_wf h" using wf by (simp add: heap_wf_def)
  have r: "(b, n) \<in> set (runs h)" by (rule large_in_runs [OF b])
  note own = run_owned [OF pw r]
  obtain k where k: "heap_free_pages b n h2 = Inr k" "same_heap h2 k" "pmm_wf (hpmm k)"
    "owned_addrs (hpmm k) = owned_addrs (hpmm h2) - page_run b n"
    "hdrs k = (\<lambda>a. if unat a \<in> run_bytes (b, n) then poison_header else hdrs h2 a)"
    by (rule heap_free_pages_ok [of h2 b n]) (use own in \<open>simp_all add: h2\<close>)
  have dr: "distinct (runs h)" using pw by (simp add: pages_wf_def disjoint_on_def)
  have only: "y = (b, n)" if "y \<in> set (runs h)" "fst y = b" for y
  proof (rule ccontr)
    assume "y \<noteq> (b, n)"
    then have "run_bytes y \<inter> run_bytes (b, n) = {}" by (rule run_disjoint [OF pw that(1) r])
    moreover have "unat (fst y) \<in> run_bytes (fst y, snd y)" by (rule run_owned(4) [OF pw]) (simp add: that(1))
    ultimately show False using own(4) that(2) by auto
  qed
  have fl: "set (filter (\<lambda>x. fst x \<noteq> b) (km_large h)) = set (km_large h) - {(b, n)}"
    using only large_in_runs [of _ h] by fastforce
  have lk: "km_large k = filter (\<lambda>x. fst x \<noteq> b) (km_large h)" "km_slots k = km_slots h" "buckets k = buckets h"
    using k(2) by (simp_all add: same_heap_def h2)
  have runs: "runs k = map (\<lambda>c. (c, CHUNK_PAGES)) (km_chunks h) @ map (\<lambda>c. (c, CHUNK_PAGES)) (km_flight h) @ filter (\<lambda>x. fst x \<noteq> b) (km_large h)"
    using k(2) by (simp add: same_heap_def h2 runs_def)
  have nc: "(b, n) \<notin> set (map (\<lambda>c. (c, CHUNK_PAGES)) (km_chunks h) @ map (\<lambda>c. (c, CHUNK_PAGES)) (km_flight h))"
    using dr b by (auto simp: runs_def)
  have "set (runs k) = set (runs h) - {(b, n)}"
    unfolding runs set_append fl using nc by (auto simp: runs_def)
  moreover have "distinct (runs k)" unfolding runs using dr by (auto simp: runs_def)
  moreover have "slots_wf k" using wf k(2) slots_wf_cong [of k h] by (simp add: same_heap_def heap_wf_def h2)
  moreover have "hdrs k = (\<lambda>a. if unat a \<in> run_bytes (b, n) then poison_header else hdrs h a)"
    using k(5) own(4) by (auto simp: h2 fun_eq_iff)
  ultimately have "heap_wf k \<and> live k = live h - {b} \<and> (\<forall>a \<in> live h - {b}. hdrs k a = hdrs h a)"
    using nc lk fl k(3,4) by (intro run_removed [OF wf r]) (auto simp: h2)
  moreover have "bh_magic (hdrs k b) \<noteq> BLOCK_MAGIC" using k(5) own(4) by simp
  ultimately show ?thesis using k(1,2) by blast
qed

lemma live_size_le:
  assumes "heap_wf h" and "stats_ok h" and "b \<in> live h"
  shows "(ucast (the (blocks h b)) :: u64) \<le> stat_bytes_in_use h"
proof -
  have "unat (the (blocks h b)) \<le> (\<Sum>a \<in> live h. unat (the (blocks h a)))"
    by (rule member_le_sum [OF assms(3)]) (simp_all add: finite_live_blocks)
  then show ?thesis using stats_exact(2) [OF assms(1,2)] by (simp add: word_le_nat_alt unat_u32)
qed

lemma kfree_live:
  assumes "heap_wf h" and "\<not> km_lock h" and "p - HEADER_SIZE \<in> live h"
  shows "\<exists>h'. kfree p h = Some (Inr h') \<and> heap_wf h' \<and> \<not> km_lock h' \<and> blocks h' = (blocks h)(p - HEADER_SIZE := None)
    \<and> same_stats (km_stat_free (ucast (the (blocks h (p - HEADER_SIZE)))) h) h'
    \<and> bh_magic (hdrs h' (p - HEADER_SIZE)) \<noteq> BLOCK_MAGIC"
proof -
  define b where "b = p - HEADER_SIZE"
  have bl: "b \<in> live h" using assms(3) by (simp add: b_def)
  have pn: "p \<noteq> NULL" using live_payload(2) [OF assms(1) bl] by (simp add: b_def)
  define s where "s = km_stat_free (ucast (the (blocks h b))) h"
  have sz: "the (blocks h b) = bh_size (hdrs h b)" using bl by (simp add: blocks_def)
  have c: "core s = core h" "km_lock s = km_lock h" by (simp_all add: s_def)
  note cc = core_cong [OF c(1)]
  have sf: "hdrs s = hdrs h" "buckets s = buckets h" "km_slots s = km_slots h" "km_large s = km_large h" using c(1) by (simp_all add: core_def)
  have fin: ?thesis if "kfree p h = Some (Inr k)" "heap_wf k" "live k = live h - {b}" "\<forall>a \<in> live h - {b}. bh_size (hdrs k a) = bh_size (hdrs h a)"
    "same_stats s k" "km_lock k = km_lock h" "bh_magic (hdrs k b) \<noteq> BLOCK_MAGIC" for k
    using that blocks_del [OF that(3,4)] assms(2) by (simp add: b_def s_def)
  from assms(1) bl show ?thesis
  proof (cases rule: live_cases)
    case (slot i)
    define k where "k = s\<lparr>hdrs := (hdrs s)(b := (hdrs s b)\<lparr>bh_magic := BLOCK_FREE, bh_next := buckets s i\<rparr>), buckets := (buckets s)(i := b)\<rparr>"
    have "kfree p h = Some (Inr k)"
      using pn assms(2) slot bucket_of_nat [OF slot(2)] sf
      by (simp add: kfree_def b_def [symmetric] Let_def k_def sz [symmetric] s_def)
    moreover have "heap_wf k \<and> live k = live s - {b}"
      using slot cc assms(1) sf by (intro slot_freed [of s b i]) (auto simp: k_def)
    moreover have "same_stats s k" "km_lock k = km_lock h" "\<forall>a \<in> live h - {b}. bh_size (hdrs k a) = bh_size (hdrs h a)"
      "bh_magic (hdrs k b) \<noteq> BLOCK_MAGIC"
      using c(2) sf by (simp_all add: k_def same_stats_def)
    ultimately show ?thesis using fin cc by simp
  next
    case (large n)
    define s2 where "s2 = s\<lparr>hdrs := (hdrs s)(b := (hdrs h b)\<lparr>bh_magic := 0\<rparr>), km_large := filter (\<lambda>x. fst x \<noteq> b) (km_large s)\<rparr>"
    have "unat ((ucast (bh_size (hdrs h b)) + HEADER_SIZE + 4095 :: u64) div 4096) = n"
    proof -
      have "unat (bh_size (hdrs h b)) < 2 ^ 32" by (rule unat_u32)
      then have "unat (ucast (bh_size (hdrs h b)) + HEADER_SIZE + 4095 :: u64) = unat (bh_size (hdrs h b)) + 32 + 4095"
        by (simp add: HEADER_SIZE_def unat_word_ariths unat_u32)
      then show ?thesis using large(4) by (simp add: unat_div)
    qed
    then have "kfree p h = Some (heap_free_pages b n s2)"
      using pn assms(2) large sf by (simp add: kfree_def b_def [symmetric] Let_def s2_def sz [symmetric] s_def)
    moreover obtain k where k: "heap_free_pages b n s2 = Inr k" "heap_wf k" "live k = live s - {b}"
      "\<forall>a \<in> live s - {b}. hdrs k a = hdrs s a" "same_heap s2 k" "bh_magic (hdrs k b) \<noteq> BLOCK_MAGIC"
    proof -
      have ws: "heap_wf s" "(b, n) \<in> set (km_large s)" using cc(1) assms(1) large(1) sf by simp_all
      show thesis using large_freed [OF ws s2_def] that by blast
    qed
    moreover have "same_stats s k" "km_lock k = km_lock h" using k(5) c(2) by (simp_all add: same_heap_def same_stats_def s2_def)
    ultimately show ?thesis using fin cc sf by simp
  qed
qed

lemma kfree_ok:
  assumes "heap_wf h" and "stats_ok h" and "\<not> km_lock h" and "p - HEADER_SIZE \<in> live h"
  shows "\<exists>h'. kfree p h = Some (Inr h') \<and> heap_wf h' \<and> stats_ok h' \<and> \<not> km_lock h' \<and> blocks h' = (blocks h)(p - HEADER_SIZE := None)"
proof -
  obtain h' where k: "kfree p h = Some (Inr h')" "heap_wf h'" "\<not> km_lock h'" "blocks h' = (blocks h)(p - HEADER_SIZE := None)"
    "same_stats (km_stat_free (ucast (the (blocks h (p - HEADER_SIZE)))) h) h'"
    using kfree_live [OF assms(1,3,4)] by blast
  have "stats_ok h'" by (rule stats_ok_del [OF assms(2,4) k(4,5) live_size_le [OF assms(1,2,4)]])
  then show ?thesis using k by blast
qed

text \<open>Freeing the same pointer again is refused: the header no longer carries the magic.\<close>

lemma kfree_again:
  assumes "heap_wf h" and "\<not> km_lock h" and "p - HEADER_SIZE \<in> live h" and "kfree p h = Some (Inr h')"
  shows "kfree p h' = Some (Inr h')"
  using kfree_live [OF assms(1-3)] assms(4) by (auto simp: kfree_def Let_def)

text \<open>A slot that is not live carries the free mark.\<close>

lemma slot_free_mark:
  assumes "heap_wf h" and "a \<in> fst ` set (km_slots h)" and "a \<notin> live h"
  shows "bh_magic (hdrs h a) = BLOCK_FREE"
  using assms by (auto simp: heap_wf_def hdr_wf_def live_def)

text \<open>What a client writes into its blocks touches no header of a slot or a large block.\<close>

definition payload_write :: "(ptr \<Rightarrow> block_header) \<Rightarrow> memory \<Rightarrow> heap \<Rightarrow> heap" where
  "payload_write hs m h = h\<lparr>hdrs := hs, hpmm := (hpmm h)\<lparr>ram := m\<rparr>\<rparr>"

definition block_starts :: "heap \<Rightarrow> ptr set" where
  "block_starts h = fst ` set (km_slots h) \<union> fst ` set (km_large h)"

lemma pmm_ram_cong [simp]:
  "pmm_wf (s\<lparr>ram := m\<rparr>) = pmm_wf s" "owned_addrs (s\<lparr>ram := m\<rparr>) = owned_addrs s"
  by (simp_all add: pmm_wf_def zones_cover_def page_ok_def frame_used_def zone_of_def zone_rel_def owned_addrs_def owned_frames_def)

lemma payload_write_wf:
  assumes "heap_wf h" and "\<forall>a \<in> block_starts h. hs a = hdrs h a"
  shows "heap_wf (payload_write hs m h)" "live (payload_write hs m h) = live h"
proof -
  let ?k = "payload_write hs m h"
  have same: "hdrs ?k (fst x) = hdrs h (fst x)" if "x \<in> set (km_slots h) \<union> set (km_large h)" for x
    using assms(2) that by (auto simp: payload_write_def block_starts_def)
  show "live ?k = live h" by (rule live_cong) (use same in \<open>auto simp: payload_write_def\<close>)
  have "pages_wf ?k" using assms(1) by (simp add: heap_wf_def pages_wf_def payload_write_def runs_def)
  moreover have "slots_wf ?k" using assms(1) slots_wf_cong [of ?k h] by (simp add: heap_wf_def payload_write_def)
  moreover have "free_wf ?k"
    by (rule free_wf_frame [of h]) (use assms(1) same in \<open>auto simp: heap_wf_def payload_write_def\<close>)
  moreover have "hdr_wf ?k"
  proof -
    have "x \<in> set (km_slots h) \<Longrightarrow> hdrs ?k (fst x) = hdrs h (fst x)"
      "x \<in> set (km_large h) \<Longrightarrow> hdrs ?k (fst x) = hdrs h (fst x)" for x using same by auto
    then show ?thesis using assms(1) unfolding heap_wf_def hdr_wf_def by (simp add: payload_write_def)
  qed
  ultimately show "heap_wf ?k" by (simp add: heap_wf_def)
qed

end
