(* ===== verification/Heap_Props.thy ===== *)
theory Heap_Props
  imports Heap_Correct Pmm_Run
begin

text \<open>
  The properties of the kernel heap: the contract of a block allocator as a locale interpreted on
  \<open>kmalloc\<close> and \<open>kfree\<close>, termination of the allocation loop, the zero interrupt word, and any number of
  processors interleaved at the points where the code does not hold the lock.
\<close>

unbundle bit_operations_syntax

section \<open>The contract a client relies on\<close>

locale block_allocator =
  fixes hinv :: "'s \<Rightarrow> bool" and hblocks :: "'s \<Rightarrow> ptr \<Rightarrow> u32 option"
    and halloc :: "u64 \<Rightarrow> 's \<Rightarrow> (ptr \<times> 's) option" and hfree :: "ptr \<Rightarrow> 's \<Rightarrow> 's option"
  assumes alloc_total: "hinv s \<Longrightarrow> unat n < 2 ^ 32 \<Longrightarrow> \<exists>p s'. halloc n s = Some (p, s')"
    and alloc_inv: "hinv s \<Longrightarrow> unat n < 2 ^ 32 \<Longrightarrow> halloc n s = Some (p, s') \<Longrightarrow> hinv s'"
    and alloc_none: "hinv s \<Longrightarrow> unat n < 2 ^ 32 \<Longrightarrow> halloc n s = Some (NULL, s') \<Longrightarrow> hblocks s' = hblocks s"
    and alloc_block: "hinv s \<Longrightarrow> unat n < 2 ^ 32 \<Longrightarrow> halloc n s = Some (p, s') \<Longrightarrow> p \<noteq> NULL \<Longrightarrow>
      hblocks s (p - HEADER_SIZE) = None \<and> hblocks s' = (hblocks s)(p - HEADER_SIZE \<mapsto> ucast n)"
    and free_block: "hinv s \<Longrightarrow> hblocks s (p - HEADER_SIZE) \<noteq> None \<Longrightarrow>
      \<exists>s'. hfree p s = Some s' \<and> hinv s' \<and> hblocks s' = (hblocks s)(p - HEADER_SIZE := None)"
begin

lemma alloc_free:
  assumes "hinv s" and "unat n < 2 ^ 32" and "halloc n s = Some (p, s1)" and "p \<noteq> NULL"
  shows "\<exists>s2. hfree p s1 = Some s2 \<and> hinv s2 \<and> hblocks s2 = hblocks s"
proof -
  have b: "hblocks s (p - HEADER_SIZE) = None" "hblocks s1 = (hblocks s)(p - HEADER_SIZE \<mapsto> ucast n)"
    using alloc_block [OF assms] by simp_all
  then obtain s2 where "hfree p s1 = Some s2" "hinv s2" "hblocks s2 = (hblocks s1)(p - HEADER_SIZE := None)"
    using free_block [OF alloc_inv [OF assms(1-3)], of p] by auto
  then show ?thesis using b by (simp add: fun_upd_idem)
qed

lemma alloc_keeps:
  assumes "hinv s" and "unat n < 2 ^ 32" and "halloc n s = Some (p, s1)" and "hblocks s a = Some z"
  shows "hblocks s1 a = Some z"
proof (cases "p = NULL")
  case True
  then show ?thesis using alloc_none [OF assms(1,2)] assms(3,4) by simp
next
  case False
  then show ?thesis using alloc_block [OF assms(1-3)] assms(4) by auto
qed

lemma alloc_twice:
  assumes "hinv s" and "unat n < 2 ^ 32" and "halloc n s = Some (p, s1)" and "p \<noteq> NULL"
    and "unat m < 2 ^ 32" and "halloc m s1 = Some (q, s2)"
  shows "q \<noteq> p" and "hblocks s2 (p - HEADER_SIZE) = Some (ucast n)"
proof -
  have i: "hinv s1" by (rule alloc_inv [OF assms(1-3)])
  have p: "hblocks s1 (p - HEADER_SIZE) = Some (ucast n)" using alloc_block [OF assms(1-4)] by simp
  then show "hblocks s2 (p - HEADER_SIZE) = Some (ucast n)" by (rule alloc_keeps [OF i assms(5,6)])
  show "q \<noteq> p" using alloc_block [OF i assms(5,6)] p assms(4) by auto
qed

end

definition heap_ok :: "heap \<Rightarrow> bool" where
  "heap_ok h \<longleftrightarrow> heap_wf h \<and> stats_ok h \<and> \<not> km_lock h"

text \<open>One caller with interrupts masked.\<close>

definition heap_get :: "u64 \<Rightarrow> heap \<Rightarrow> (ptr \<times> heap) option" where
  "heap_get n h = (case kmalloc 2 0x80 n h of Some (Inr r) \<Rightarrow> Some r | _ \<Rightarrow> None)"

definition heap_put :: "ptr \<Rightarrow> heap \<Rightarrow> heap option" where
  "heap_put p h = (case kfree p h of Some (Inr h') \<Rightarrow> Some h' | _ \<Rightarrow> None)"

lemma heap_get_ok:
  assumes "heap_ok s" and "unat n < 2 ^ 32"
  shows "\<exists>p s'. heap_get n s = Some (p, s') \<and> heap_ok s' \<and> allocated_block s n p s'"
  using kmalloc_ok [of s "0x80" n 2] assms by (auto simp: heap_ok_def heap_get_def)

interpretation ha: block_allocator heap_ok blocks heap_get heap_put
proof
  fix s s' :: heap and n :: u64 and p :: ptr
  assume s: "heap_ok s"
  { assume n: "unat n < 2 ^ 32"
    show "\<exists>p s'. heap_get n s = Some (p, s')" using heap_get_ok [OF s n] by blast
    { assume "heap_get n s = Some (p, s')"
      then show "heap_ok s'" using heap_get_ok [OF s n] by auto }
    { assume "heap_get n s = Some (NULL, s')"
      then show "blocks s' = blocks s" using heap_get_ok [OF s n] by (auto simp: allocated_block_def) }
    { assume "heap_get n s = Some (p, s')" "p \<noteq> NULL"
      then show "blocks s (p - HEADER_SIZE) = None \<and> blocks s' = (blocks s)(p - HEADER_SIZE \<mapsto> ucast n)"
        using heap_get_ok [OF s n] by (auto simp: allocated_block_def blocks_def) } }
  { assume "blocks s (p - HEADER_SIZE) \<noteq> None"
    then have "p - HEADER_SIZE \<in> live s" by (auto simp: blocks_def split: if_splits)
    then show "\<exists>s'. heap_put p s = Some s' \<and> heap_ok s' \<and> blocks s' = (blocks s)(p - HEADER_SIZE := None)"
      using kfree_ok [of s p] s by (auto simp: heap_ok_def heap_put_def) }
qed

section \<open>Termination\<close>

lemma km_loop_more_fuel: "km_loop n idx sz h = Some r \<Longrightarrow> n \<le> m \<Longrightarrow> km_loop m idx sz h = Some r"
proof (induction n arbitrary: m h)
  case (Suc n)
  then obtain k where k: "m = Suc k" "n \<le> k" by (metis Suc_le_D Suc_le_mono)
  note ih = Suc.IH [OF _ k(2)]
  show ?case using Suc.prems(1) unfolding k(1)
    by (auto simp: ih split: option.splits prod.splits grow_result.splits sum.splits)
qed simp

section \<open>Interleaved callers\<close>

text \<open>
  Where a processor is in \<open>kmalloc\<close> when it does not hold the lock: it has read an uninitialised heap,
  is past the initialisation, about to take the lock for a pass, about to call the page allocator, back
  with what it returned, about to donate a chunk, or at the end with its block still to be counted.
\<close>

datatype km_pc = KIdle | KInit u64 | KReady u64 | KLoop nat u64 | KFetch nat u64 | KGot nat u64 ptr
  | KDonate nat u64 ptr | KTook ptr u64

text \<open>
  \<open>W\<close> is the set of interrupt words \<open>spin_lock_irqsave\<close> can save on the machine.  Every section that takes
  the lock waits for it, and the end of the small path releases it only when the saved word is not zero.
  A client writes its payloads at any moment (\<open>km_write\<close>).  A large request and a release are one step
  each: the pages between the heap and the page allocator belong to nobody else.
\<close>

inductive km_step :: "u64 set \<Rightarrow> heap \<times> (nat \<Rightarrow> km_pc) \<Rightarrow> heap \<times> (nat \<Rightarrow> km_pc) \<Rightarrow> bool" for W where
  km_enter: "pc i = KIdle \<Longrightarrow> unat sz < 2 ^ 32 \<Longrightarrow>
     km_step W (h, pc) (h, pc(i := if heap_initialized h then KReady sz else KInit sz))"
| km_seed: "pc i = KInit sz \<Longrightarrow> \<not> km_lock h \<Longrightarrow> km_step W (h, pc) (kmalloc_init h, pc(i := KReady sz))"
| km_reject: "pc i = KReady sz \<Longrightarrow> sz = 0 \<or> sz > - 1 - HEADER_SIZE \<Longrightarrow> km_step W (h, pc) (h, pc(i := KIdle))"
| km_call: "pc i = KReady sz \<Longrightarrow> sz \<noteq> 0 \<Longrightarrow> sz \<le> - 1 - HEADER_SIZE \<Longrightarrow> get_bucket_index (sz + HEADER_SIZE) \<ge> 0 \<Longrightarrow>
     km_step W (h, pc) (h, pc(i := KLoop (nat (get_bucket_index (sz + HEADER_SIZE))) sz))"
| km_big: "pc i = KReady sz \<Longrightarrow> sz \<noteq> 0 \<Longrightarrow> sz \<le> - 1 - HEADER_SIZE \<Longrightarrow> get_bucket_index (sz + HEADER_SIZE) < 0 \<Longrightarrow>
     \<not> km_lock h \<Longrightarrow> km_large_alloc sz h = (p, h') \<Longrightarrow> km_step W (h, pc) (h', pc(i := KIdle))"
| km_hit: "pc i = KLoop idx sz \<Longrightarrow> \<not> km_lock h \<Longrightarrow> km_take idx sz h = Some (p, h') \<Longrightarrow> flags \<in> W \<Longrightarrow>
     km_step W (h, pc) (h'\<lparr>km_lock := (flags = 0)\<rparr>, pc(i := KTook p sz))"
| km_miss: "pc i = KLoop idx sz \<Longrightarrow> \<not> km_lock h \<Longrightarrow> km_take idx sz h = None \<Longrightarrow>
     km_step W (h, pc) (h, pc(i := KFetch idx sz))"
| km_pages: "pc i = KFetch idx sz \<Longrightarrow> km_fetch h = (c, h') \<Longrightarrow> km_step W (h, pc) (h', pc(i := KGot idx sz c))"
| km_retry: "pc i = KGot idx sz c \<Longrightarrow> \<not> km_lock h \<Longrightarrow> km_grow idx c h = (Retry, h') \<Longrightarrow>
     km_step W (h, pc) (h', pc(i := KLoop idx sz))"
| km_fail: "pc i = KGot idx sz c \<Longrightarrow> \<not> km_lock h \<Longrightarrow> km_grow idx c h = (Exhausted, h') \<Longrightarrow> flags \<in> W \<Longrightarrow>
     km_step W (h, pc) (h'\<lparr>km_lock := (flags = 0)\<rparr>, pc(i := KIdle))"
| km_lost: "pc i = KGot idx sz c \<Longrightarrow> \<not> km_lock h \<Longrightarrow> km_grow idx c h = (Donate, h') \<Longrightarrow>
     km_step W (h, pc) (h', pc(i := KDonate idx sz c))"
| km_give: "pc i = KDonate idx sz c \<Longrightarrow> km_donate c h = Inr h' \<Longrightarrow> km_step W (h, pc) (h', pc(i := KLoop idx sz))"
| km_count: "pc i = KTook p sz \<Longrightarrow> km_step W (h, pc) (km_stat_alloc sz h, pc(i := KIdle))"
| km_free: "pc i = KIdle \<Longrightarrow> \<not> km_lock h \<Longrightarrow> p - HEADER_SIZE \<in> live h \<Longrightarrow> kfree p h = Some (Inr h') \<Longrightarrow>
     km_step W (h, pc) (h', pc)"
| km_write: "\<forall>a \<in> block_starts h. hs a = hdrs h a \<Longrightarrow> km_step W (h, pc) (payload_write hs m h, pc)"

inductive km_reach :: "u64 set \<Rightarrow> heap \<Rightarrow> heap \<times> (nat \<Rightarrow> km_pc) \<Rightarrow> bool" for W h0 where
  km_start: "km_reach W h0 (h0, \<lambda>_. KIdle)"
| km_next: "km_reach W h0 s \<Longrightarrow> km_step W s s' \<Longrightarrow> km_reach W h0 s'"

inductive_cases km_stepE: "km_step W s s'"

text \<open>The chunk a processor carries, and that no two carry the same.\<close>

fun carried :: "km_pc \<Rightarrow> ptr" where
  "carried (KGot _ _ c) = c"
| "carried (KDonate _ _ c) = c"
| "carried _ = NULL"

fun pc_ok :: "km_pc \<Rightarrow> bool" where
  "pc_ok (KInit sz) \<longleftrightarrow> unat sz < 2 ^ 32"
| "pc_ok (KReady sz) \<longleftrightarrow> unat sz < 2 ^ 32"
| "pc_ok (KLoop idx sz) \<longleftrightarrow> take_ok idx sz"
| "pc_ok (KFetch idx sz) \<longleftrightarrow> take_ok idx sz"
| "pc_ok (KGot idx sz _) \<longleftrightarrow> take_ok idx sz"
| "pc_ok (KDonate idx sz c) \<longleftrightarrow> take_ok idx sz \<and> c \<noteq> NULL"
| "pc_ok _ \<longleftrightarrow> True"

definition pcs_ok :: "heap \<Rightarrow> (nat \<Rightarrow> km_pc) \<Rightarrow> bool" where
  "pcs_ok h pc \<longleftrightarrow> (\<forall>i. pc_ok (pc i) \<and> (carried (pc i) \<noteq> NULL \<longrightarrow> carried (pc i) \<in> set (km_flight h)))
     \<and> (\<forall>i j. i \<noteq> j \<longrightarrow> carried (pc i) \<noteq> NULL \<longrightarrow> carried (pc i) \<noteq> carried (pc j))"

text \<open>The lock is kept between sections only where the machine can save a zero word.\<close>

definition smp_ok :: "u64 set \<Rightarrow> heap \<times> (nat \<Rightarrow> km_pc) \<Rightarrow> bool" where
  "smp_ok W s \<longleftrightarrow> heap_wf (fst s) \<and> (km_lock (fst s) \<longrightarrow> 0 \<in> W) \<and> pcs_ok (fst s) (snd s)"

text \<open>A processor moves: what it carries is dropped, kept, or new.\<close>

lemma pcs_ok_move:
  assumes "pcs_ok h pc" and "pc_ok w"
    and "carried w = NULL \<or> carried w = carried (pc i) \<or> carried w \<notin> set (km_flight h)"
    and "carried w \<noteq> NULL \<Longrightarrow> carried w \<in> set (km_flight h')"
    and "\<And>c. c \<in> set (km_flight h) \<Longrightarrow> c \<noteq> NULL \<Longrightarrow> c \<noteq> carried (pc i) \<Longrightarrow> c \<in> set (km_flight h')"
  shows "pcs_ok h' (pc(i := w))"
proof -
  have a: "pc_ok (pc j)" "carried (pc j) \<noteq> NULL \<Longrightarrow> carried (pc j) \<in> set (km_flight h)" for j
    using assms(1) by (simp_all add: pcs_ok_def)
  have d: "carried (pc j) \<noteq> NULL \<Longrightarrow> j \<noteq> k \<Longrightarrow> carried (pc j) \<noteq> carried (pc k)" for j k
    using assms(1) unfolding pcs_ok_def by blast
  have o: "carried (pc j) \<in> set (km_flight h')" if "carried (pc j) \<noteq> NULL" "j \<noteq> i" for j
    using assms(5) [OF a(2) [OF that(1)] that(1)] d [OF that] by blast
  have n: "carried w \<noteq> carried (pc j)" if "carried w \<noteq> NULL" "j \<noteq> i" for j
    using assms(3) d [of i j] a(2) [of j] that by (metis (no_types))
  show ?thesis unfolding pcs_ok_def using assms(2,4) a(1) o d n by (simp add: fun_upd_def) metis
qed

lemma pcs_ok_flight: "pcs_ok h pc \<Longrightarrow> set (km_flight h) \<subseteq> set (km_flight h') \<Longrightarrow> pcs_ok h' pc"
  unfolding pcs_ok_def by blast


lemma heap_alloc_flight: "heap_alloc_pages n h = (p, h') \<Longrightarrow> km_flight h' = km_flight h"
  by (auto simp: heap_alloc_pages_def fill_headers_def split: prod.splits if_splits)

lemma flight_same:
  "km_take idx sz h = Some (p, h') \<Longrightarrow> km_flight h' = km_flight h"
  "km_flight (km_stat_alloc sz h) = km_flight h" "km_flight (km_stat_free sz h) = km_flight h"
  "km_large_alloc sz h = (p, h') \<Longrightarrow> km_flight h' = km_flight h"
  "kfree p h = Some (Inr h') \<Longrightarrow> km_flight h' = km_flight h"
proof -
  show s: "km_flight (km_stat_alloc sz h) = km_flight h" "km_flight (km_stat_free sz h) = km_flight h" for sz h
    by (simp_all add: km_stat_alloc_def km_stat_free_def Let_def)
  show "km_take idx sz h = Some (p, h') \<Longrightarrow> km_flight h' = km_flight h"
    by (auto simp: km_take_def Let_def split: if_splits)
  show "km_large_alloc sz h = (p, h') \<Longrightarrow> km_flight h' = km_flight h"
    by (auto simp: km_large_alloc_def Let_def s dest: heap_alloc_flight split: prod.splits if_splits)
  have f: "heap_free_pages b n k = Inr h' \<Longrightarrow> km_flight h' = km_flight k" for b n k h'
    by (cases "pmm_free_pages b n (hpmm k)") (auto simp: heap_free_pages_def fill_headers_def)
  show "kfree p h = Some (Inr h') \<Longrightarrow> km_flight h' = km_flight h"
    by (auto simp: kfree_def Let_def s dest!: f split: if_splits)
qed

lemma km_fetch_flight:
  assumes "heap_wf h" and "km_fetch h = (c, h')"
  shows "km_flight h' = (if c = NULL then km_flight h else c # km_flight h)" "c \<noteq> NULL \<Longrightarrow> c \<notin> set (km_flight h)"
proof -
  obtain h1 where al: "heap_alloc_pages CHUNK_PAGES h = (c, h1)" and h': "h' = (if c = NULL then h1 else h1\<lparr>km_flight := c # km_flight h1\<rparr>)"
    using assms(2) by (auto simp: km_fetch_def split: prod.splits)
  show "km_flight h' = (if c = NULL then km_flight h else c # km_flight h)" using heap_alloc_flight [OF al] h' by simp
  assume "c \<noteq> NULL"
  have pw: "pages_wf h" using assms(1) by (simp add: heap_wf_def)
  then have "(c, CHUNK_PAGES) \<notin> set (runs h)"
    using heap_alloc_pages_cases [OF pw al] fresh_run_bytes(2) [OF pw] \<open>c \<noteq> NULL\<close> by blast
  then show "c \<notin> set (km_flight h)" by (auto simp: runs_def)
qed

lemma km_grow_flight:
  "km_grow idx c h = (r, h') \<Longrightarrow> km_flight h' = km_flight h \<or> r = Retry \<and> c \<noteq> NULL \<and> km_flight h' = removeAll c (km_flight h)"
  by (auto simp: km_grow_def split: if_splits)

lemma smp_okD:
  assumes "smp_ok W (h, pc)" and "pc i = w"
  shows "heap_wf h" "km_lock h \<Longrightarrow> 0 \<in> W" "pc_ok w" "carried w \<noteq> NULL \<Longrightarrow> carried w \<in> set (km_flight h)"
  using assms by (auto simp: smp_ok_def pcs_ok_def)

lemma smp_ok_move:
  assumes "smp_ok W (h, pc)" and "heap_wf h'" and "km_lock h' \<Longrightarrow> 0 \<in> W" and "pc_ok w"
    and "carried w = NULL \<or> carried w = carried (pc i) \<or> carried w \<notin> set (km_flight h)"
    and "carried w \<noteq> NULL \<Longrightarrow> carried w \<in> set (km_flight h')"
    and "\<And>c. c \<in> set (km_flight h) \<Longrightarrow> c \<noteq> NULL \<Longrightarrow> c \<noteq> carried (pc i) \<Longrightarrow> c \<in> set (km_flight h')"
  shows "smp_ok W (h', pc(i := w))"
  using assms pcs_ok_move [of h pc w i h'] by (simp add: smp_ok_def)

text \<open>A step that carries nothing and leaves the fetched chunks alone.\<close>

lemma smp_ok_plain:
  assumes "smp_ok W (h, pc)" and "heap_wf h'" and "km_lock h' \<Longrightarrow> 0 \<in> W" and "km_flight h' = km_flight h"
    and "pc_ok w" and "carried w = NULL"
  shows "smp_ok W (h', pc(i := w))"
  by (rule smp_ok_move [OF assms(1)]) (use assms in auto)

lemma heap_wf_lock [simp]: "heap_wf (h\<lparr>km_lock := b\<rparr>) = heap_wf h"
  by (rule core_cong(1)) simp

lemma smp_ok_take:
  assumes "smp_ok W (h, pc)" and "pc i = KLoop idx sz"
  shows "km_take idx sz h = Some (p, h') \<Longrightarrow> flags \<in> W \<Longrightarrow> smp_ok W (h'\<lparr>km_lock := (flags = 0)\<rparr>, pc(i := KTook p sz))"
    and "smp_ok W (h, pc(i := KFetch idx sz))"
proof -
  note d = smp_okD [OF assms]
  show "smp_ok W (h, pc(i := KFetch idx sz))" by (rule smp_ok_plain [OF assms(1)]) (use d in auto)
  assume t: "km_take idx sz h = Some (p, h')" and f: "flags \<in> W"
  show "smp_ok W (h'\<lparr>km_lock := (flags = 0)\<rparr>, pc(i := KTook p sz))"
    by (rule smp_ok_plain [OF assms(1)]) (use d km_take_ok(1) [OF d(1) _ t] flight_same(1) [OF t] f in auto)
qed

lemma smp_ok_fetch:
  assumes "smp_ok W (h, pc)" and "pc i = KFetch idx sz" and "km_fetch h = (c, h')"
  shows "smp_ok W (h', pc(i := KGot idx sz c))"
proof -
  note d = smp_okD [OF assms(1,2)]
  show ?thesis
    by (rule smp_ok_move [OF assms(1)])
       (use d km_fetch_frame(1,4) [OF d(1) assms(3)] km_fetch_flight [OF d(1) assms(3)] in auto)
qed

lemma smp_ok_grow:
  assumes "smp_ok W (h, pc)" and "pc i = KGot idx sz c" and "km_grow idx c h = (r, h')"
  shows "r = Retry \<Longrightarrow> smp_ok W (h', pc(i := KLoop idx sz))"
    and "r = Exhausted \<Longrightarrow> flags \<in> W \<Longrightarrow> smp_ok W (h'\<lparr>km_lock := (flags = 0)\<rparr>, pc(i := KIdle))"
    and "r = Donate \<Longrightarrow> smp_ok W (h', pc(i := KDonate idx sz c))"
proof -
  note d = smp_okD [OF assms(1,2)]
  have g: "heap_wf h' \<and> km_lock h' = km_lock h \<and> (r = Donate \<longrightarrow> h' = h \<and> c \<noteq> NULL) \<and> (r = Exhausted \<longrightarrow> h' = h)"
    using km_grow_wf [OF d(1) assms(3)] d(4) by auto
  note f = km_grow_flight [OF assms(3)]
  show "r = Retry \<Longrightarrow> smp_ok W (h', pc(i := KLoop idx sz))" by (rule smp_ok_move [OF assms(1)]) (use d g f assms(2) in auto)
  show "r = Exhausted \<Longrightarrow> flags \<in> W \<Longrightarrow> smp_ok W (h'\<lparr>km_lock := (flags = 0)\<rparr>, pc(i := KIdle))"
    by (rule smp_ok_plain [OF assms(1)]) (use d g in auto)
  show "r = Donate \<Longrightarrow> smp_ok W (h', pc(i := KDonate idx sz c))" by (rule smp_ok_move [OF assms(1)]) (use d g assms(2) in auto)
qed

lemma smp_donate:
  assumes "smp_ok W (h, pc)" and "pc i = KDonate idx sz c"
  shows "\<exists>h'. km_donate c h = Inr h' \<and> smp_ok W (h', pc(i := KLoop idx sz))"
proof -
  note d = smp_okD [OF assms]
  obtain h' where h': "km_donate c h = Inr h'" "heap_wf h'" "same_heap (h\<lparr>km_flight := removeAll c (km_flight h)\<rparr>) h'"
    using km_donate_ok [OF d(1), of c] d(3,4) by auto
  have "smp_ok W (h', pc(i := KLoop idx sz))"
    by (rule smp_ok_move [OF assms(1)]) (use d h' assms(2) in \<open>auto simp: same_heap_def\<close>)
  then show ?thesis using h'(1) by blast
qed

lemma smp_ok_same_pc:
  "smp_ok W (h, pc) \<Longrightarrow> heap_wf h' \<Longrightarrow> (km_lock h' \<Longrightarrow> 0 \<in> W) \<Longrightarrow> km_flight h' = km_flight h \<Longrightarrow> smp_ok W (h', pc)"
  using pcs_ok_flight [of h pc h'] by (simp add: smp_ok_def)

lemma kmalloc_init_flight: "km_flight (kmalloc_init h) = km_flight h"
  using heap_alloc_flight by (auto simp: kmalloc_init_def split: prod.splits)

lemma smp_ok_step: "km_step W s s' \<Longrightarrow> smp_ok W s \<Longrightarrow> smp_ok W s'"
proof (induction rule: km_step.induct)
  case (km_enter pc i sz h)
  note d = smp_okD [OF km_enter(3,1)]
  show ?case by (rule smp_ok_plain [OF km_enter(3)]) (use d km_enter(2) in auto)
next
  case (km_seed pc i sz h)
  note d = smp_okD [OF km_seed(3,1)]
  show ?case by (rule smp_ok_plain [OF km_seed(3)]) (use d kmalloc_init_wf [OF d(1)] in \<open>auto simp: kmalloc_init_flight\<close>)
next
  case (km_reject pc i sz h)
  note d = smp_okD [OF km_reject(3,1)]
  show ?case by (rule smp_ok_plain [OF km_reject(3)]) (use d in auto)
next
  case (km_call pc i sz h)
  note d = smp_okD [OF km_call(5,1)]
  show ?case by (rule smp_ok_plain [OF km_call(5)]) (use d bucket_fits [OF km_call(4,3)] in auto)
next
  case (km_big pc i sz h p h')
  note d = smp_okD [OF km_big(7,1)]
  have "unat sz < 2 ^ 32" using d(3) by simp
  then show ?case using km_large_alloc_ok [OF d(1) km_big(3) _ km_big(6)] km_big(5)
    by (intro smp_ok_plain [OF km_big(7)]) (simp_all add: flight_same(4) [OF km_big(6)])
next
  case (km_give pc i idx sz c h h')
  then show ?case using smp_donate [of W h pc i idx sz c] by auto
next
  case (km_count pc i p sz h)
  note d = smp_okD [OF km_count(2,1)]
  show ?case by (rule smp_ok_plain [OF km_count(2)])
      (use d core_cong(1) [of "km_stat_alloc sz h" h] in \<open>auto simp: flight_same\<close>)
next
  case (km_free pc i h p h')
  note d = smp_okD [OF km_free(5,1)]
  show ?case using kfree_live [OF d(1) km_free(2,3)] km_free(4)
    by (intro smp_ok_same_pc [OF km_free(5)]) (auto simp: flight_same(5) [OF km_free(4)])
next
  case (km_write h hs pc m)
  have d: "heap_wf h" "km_lock h \<Longrightarrow> 0 \<in> W" using km_write(2) by (simp_all add: smp_ok_def)
  show ?case by (rule smp_ok_same_pc [OF km_write(2) payload_write_wf(1) [OF d(1) km_write(1)]])
      (use d(2) in \<open>auto simp: payload_write_def\<close>)
qed (simp_all add: smp_ok_take smp_ok_fetch smp_ok_grow)

lemma smp_ok_reach: "km_reach W h0 s \<Longrightarrow> heap_wf h0 \<Longrightarrow> \<not> km_lock h0 \<Longrightarrow> smp_ok W s"
proof (induction rule: km_reach.induct)
  case km_start
  then show ?case by (simp add: smp_ok_def pcs_ok_def)
next
  case (km_next s s')
  then show ?case using smp_ok_step by blast
qed

text \<open>While the lock is free no caller is stuck.\<close>

definition can_move :: "u64 set \<Rightarrow> heap \<times> (nat \<Rightarrow> km_pc) \<Rightarrow> nat \<Rightarrow> bool" where
  "can_move W s i \<longleftrightarrow> (\<exists>h' w. km_step W s (h', (snd s)(i := w)) \<and> w \<noteq> snd s i)"

lemma can_moveI: "km_step W (h, pc) (h', pc(i := w)) \<Longrightarrow> w \<noteq> pc i \<Longrightarrow> can_move W (h, pc) i"
  unfolding can_move_def by auto

lemma smp_ready_moves:
  assumes "\<not> km_lock h" and "pc i = KReady sz"
  shows "can_move W (h, pc) i"
proof (cases "sz = 0 \<or> sz > - 1 - HEADER_SIZE")
  case True
  show ?thesis by (rule can_moveI [OF km_reject [where pc = pc and i = i and h = h, OF assms(2) True]]) (simp add: assms)
next
  case False
  then have s: "sz \<noteq> 0" "sz \<le> - 1 - HEADER_SIZE" by auto
  show ?thesis
  proof (cases "get_bucket_index (sz + HEADER_SIZE) \<ge> 0")
    case True
    show ?thesis by (rule can_moveI [OF km_call [where pc = pc and i = i and h = h, OF assms(2) s True]]) (simp add: assms)
  next
    case False
    obtain p h' where "km_large_alloc sz h = (p, h')" by fastforce
    then have "km_step W (h, pc) (h', pc(i := KIdle))" using km_big [where pc = pc and i = i, OF assms(2) s _ assms(1)] False by simp
    then show ?thesis by (rule can_moveI) (simp add: assms)
  qed
qed

lemma smp_not_stuck:
  assumes "smp_ok W (h, pc)" and "\<not> km_lock h" and "W \<noteq> {}" and "pc i \<noteq> KIdle"
  shows "can_move W (h, pc) i"
proof (cases "pc i")
  case (KInit sz)
  show ?thesis by (rule can_moveI [OF km_seed [where pc = pc and i = i, OF KInit assms(2)]]) (simp add: KInit)
next
  case (KReady sz)
  then show ?thesis by (rule smp_ready_moves [OF assms(2)])
next
  case (KLoop idx sz)
  obtain flags where f: "flags \<in> W" using assms(3) by blast
  show ?thesis
  proof (cases "km_take idx sz h")
    case None
    show ?thesis by (rule can_moveI [OF km_miss [where pc = pc and i = i, OF KLoop assms(2) None]]) (simp add: KLoop)
  next
    case (Some r)
    then have "km_take idx sz h = Some (fst r, snd r)" by simp
    from km_hit [where pc = pc and i = i, OF KLoop assms(2) this f] show ?thesis by (rule can_moveI) (simp add: KLoop)
  qed
next
  case (KFetch idx sz)
  have "km_fetch h = (fst (km_fetch h), snd (km_fetch h))" by simp
  from km_pages [where pc = pc and i = i, OF KFetch this] show ?thesis by (rule can_moveI) (simp add: KFetch)
next
  case (KGot idx sz c)
  obtain flags where f: "flags \<in> W" using assms(3) by blast
  obtain r h' where g: "km_grow idx c h = (r, h')" by fastforce
  show ?thesis
  proof (cases r)
    case Retry
    show ?thesis by (rule can_moveI [OF km_retry [where pc = pc and i = i, OF KGot assms(2) g [unfolded Retry]]]) (simp add: KGot)
  next
    case Exhausted
    show ?thesis by (rule can_moveI [OF km_fail [where pc = pc and i = i, OF KGot assms(2) g [unfolded Exhausted] f]]) (simp add: KGot)
  next
    case Donate
    show ?thesis by (rule can_moveI [OF km_lost [where pc = pc and i = i, OF KGot assms(2) g [unfolded Donate]]]) (simp add: KGot)
  qed
next
  case (KDonate idx sz c)
  then obtain h' where "km_donate c h = Inr h'" using smp_donate [OF assms(1) KDonate] by blast
  from km_give [where pc = pc and i = i, OF KDonate this] show ?thesis by (rule can_moveI) (simp add: KDonate)
next
  case (KTook p sz)
  show ?thesis by (rule can_moveI [OF km_count [where pc = pc and i = i, OF KTook]]) (simp add: KTook)
qed (use assms in simp)

text \<open>A processor about to take the lock for a pass waits while it is kept.\<close>

lemma km_lock_blocks:
  assumes "km_lock h" and "pc i = KLoop idx sz"
  shows "\<not> can_move W (h, pc) i"
proof
  assume "can_move W (h, pc) i"
  then obtain h' w where s: "km_step W (h, pc) (h', pc(i := w))" and w: "w \<noteq> pc i" by (auto simp: can_move_def)
  have other: False if "pc(i := w) = pc(j := v)" "pc j \<noteq> KLoop idx sz" for j v
    using that assms(2) w by (metis fun_upd_apply)
  have same: False if "pc(i := w) = pc" using that w by (metis fun_upd_same)
  from s show False by cases (use assms in \<open>auto dest: other same\<close>)
qed


section \<open>A small heap\<close>

text \<open>The boot state of the heap over the small machine of the page allocator.\<close>

definition small_heap :: heap where
  "small_heap = \<lparr>heap_ptr = 0, heap_end = 0, heap_total = 0, buckets = (\<lambda>_. 0), heap_initialized = False, km_lock = False,
     stat_bytes_in_use = 0, stat_high_water = 0, stat_live_allocs = 0, hdrs = (\<lambda>_. zero_header), hpmm = small_pmm,
     km_chunks = [], km_slots = [], km_large = [], km_flight = []\<rparr>"

lemma boot_heap_wf:
  assumes "pmm_wf (hpmm h)" and "heap_ptr h = 0" and "heap_end h = 0" and "buckets h = (\<lambda>_. 0)"
    and "km_chunks h = []" and "km_slots h = []" and "km_large h = []" and "km_flight h = []"
  shows "heap_wf h" "live h = {}"
proof -
  show l: "live h = {}" by (simp add: live_def assms)
  have r: "runs h = []" by (simp add: runs_def assms)
  have "free_wf h" unfolding free_wf_def assms by (auto intro!: exI [of _ "[]"])
  then show "heap_wf h" using assms r
    by (simp add: heap_wf_def pages_wf_def slots_wf_def hdr_wf_def disjoint_on_def avail_def)
qed

lemma small_heap_ok: "heap_ok small_heap" "live small_heap = {}"
proof -
  note b = boot_heap_wf [of small_heap]
  have p: "pmm_wf (hpmm small_heap)" using small_pmm_wf by (simp add: small_heap_def)
  show l: "live small_heap = {}" using b(2) p by (simp add: small_heap_def)
  have "heap_wf small_heap" using b(1) p by (simp add: small_heap_def)
  then show "heap_ok small_heap" using l by (simp add: heap_ok_def stats_ok_def) (simp add: small_heap_def)
qed

lemma small_heap_init: "kmalloc_init small_heap = small_heap"
proof -
  have "fst (pmm_alloc_pages 1024 small_pmm) = NULL" by code_simp
  then obtain pm where pm: "pmm_alloc_pages 1024 small_pmm = (NULL, pm)" by (metis prod.collapse)
  then have "pm = small_pmm" by (rule pp.alloc_none [OF small_pmm_wf])
  then show ?thesis using pm
    by (simp add: kmalloc_init_def heap_alloc_pages_def CHUNK_PAGES_def) (simp add: small_heap_def)
qed

lemma small_heap_get: "map_option fst (heap_get 5000 small_heap) = Some 0xFFFF800000006020"
proof -
  have "fst (pmm_alloc_pages 2 small_pmm) = 0xFFFF800000006000" by code_simp
  then obtain pm where pm: "pmm_alloc_pages 2 small_pmm = (0xFFFF800000006000, pm)" by (metis prod.collapse)
  have n: "unat ((5000 + HEADER_SIZE + 4095 :: u64) div 4096) = 2" by (simp add: HEADER_SIZE_def)
  have l: "\<not> km_lock small_heap" "hpmm small_heap = small_pmm" by (simp_all add: small_heap_def)
  have "fst (km_large_alloc 5000 small_heap) = 0xFFFF800000006020"
    using pm by (simp add: km_large_alloc_def n Let_def heap_alloc_pages_def l) (simp add: HEADER_SIZE_def)
  moreover have "\<not> (5000 :: u64) > - 1 - HEADER_SIZE" "get_bucket_index (5000 + HEADER_SIZE) = - 1"
    by (simp_all add: HEADER_SIZE_def get_bucket_index_def)
  ultimately show ?thesis using l
    by (cases "km_large_alloc 5000 small_heap") (simp add: heap_get_def kmalloc_def small_heap_init Let_def)
qed

section \<open>Properties\<close>

text \<open>C21. \<open>kmalloc\<close> refines the map of blocks: with the lock free and a non-zero interrupt word, a request
  below 4 GB returns; a null result changes no block, any other adds exactly one block of the requested
  size whose header was not live, and the invariant, the statistics and the free lock are kept.\<close>

theorem kmalloc_refines:
  assumes "heap_wf h" and "stats_ok h" and "\<not> km_lock h" and "flags \<noteq> 0" and "unat sz < 2 ^ 32" and "2 \<le> fuel"
  shows "\<exists>p h'. kmalloc fuel flags sz h = Some (Inr (p, h')) \<and> heap_wf h' \<and> stats_ok h' \<and> \<not> km_lock h'
    \<and> (if p = NULL then blocks h' = blocks h
       else blocks h (p - HEADER_SIZE) = None \<and> blocks h' = (blocks h)(p - HEADER_SIZE \<mapsto> ucast sz))
    \<and> unat (stat_live_allocs h') = card (dom (blocks h'))
    \<and> unat (stat_bytes_in_use h') = (\<Sum>a \<in> dom (blocks h'). unat (the (blocks h' a)))"
proof -
  obtain p h' where k: "kmalloc fuel flags sz h = Some (Inr (p, h'))" "heap_wf h'" "stats_ok h'" "\<not> km_lock h'"
    "allocated_block h sz p h'" using kmalloc_ok [OF assms] by blast
  then show ?thesis using stats_exact [OF k(2,3)] by (auto simp: allocated_block_def blocks_def)
qed

theorem kmalloc_refines_witness:
  "\<exists>h'. kmalloc 2 0x80 5000 small_heap = Some (Inr (0xFFFF800000006020, h')) \<and> heap_wf h'
     \<and> blocks h' = [0xFFFF800000006000 \<mapsto> 5000]"
proof -
  obtain p h' where k: "kmalloc 2 0x80 5000 small_heap = Some (Inr (p, h'))" "heap_wf h'"
    "if p = NULL then blocks h' = blocks small_heap
     else blocks small_heap (p - HEADER_SIZE) = None \<and> blocks h' = (blocks small_heap)(p - HEADER_SIZE \<mapsto> ucast (5000 :: u64))"
    using kmalloc_refines [of small_heap "0x80" 5000 2] small_heap_ok by (auto simp: heap_ok_def)
  have "p = 0xFFFF800000006020" using small_heap_get k(1) by (simp add: heap_get_def)
  moreover have "blocks small_heap = Map.empty" using small_heap_ok(2) by (simp add: blocks_def fun_eq_iff)
  ultimately show ?thesis using k by (auto simp: HEADER_SIZE_def)
qed

text \<open>C22. \<open>kfree\<close> with the lock free, by what the header at \<open>p - 32\<close> reads as.  A live block leaves the map
  and nothing else does, its pages or its slot go back, the statistics stay exact, and freeing the
  same pointer again changes nothing.  A slot that is not live, however long ago it was released, is
  refused with the state unchanged, and so is any pointer whose header does not read the magic or
  reads a bucket number that is neither a bucket nor the large mark.  The magic is all the code looks
  at: a pointer into a payload whose bytes imitate a header of bucket \<open>i\<close> is accepted and becomes the head
  of that free list.\<close>

theorem kfree_refines:
  assumes "heap_wf h" and "stats_ok h" and "\<not> km_lock h" and "p \<noteq> NULL"
  shows "(blocks h (p - HEADER_SIZE) \<noteq> None \<longrightarrow>
      (\<exists>h'. kfree p h = Some (Inr h') \<and> heap_wf h' \<and> stats_ok h' \<and> \<not> km_lock h'
         \<and> blocks h' = (blocks h)(p - HEADER_SIZE := None) \<and> kfree p h' = Some (Inr h')))
    \<and> (p - HEADER_SIZE \<in> fst ` set (km_slots h) \<and> blocks h (p - HEADER_SIZE) = None \<longrightarrow> kfree p h = Some (Inr h))
    \<and> (bh_magic (hdrs h (p - HEADER_SIZE)) \<noteq> BLOCK_MAGIC \<longrightarrow> kfree p h = Some (Inr h))
    \<and> (bh_bucket (hdrs h (p - HEADER_SIZE)) \<noteq> LARGE_IDX \<and> NUM_BUCKETS \<le> unat (bh_bucket (hdrs h (p - HEADER_SIZE)))
        \<longrightarrow> kfree p h = Some (Inr h))
    \<and> (bh_magic (hdrs h (p - HEADER_SIZE)) = BLOCK_MAGIC \<and> unat (bh_bucket (hdrs h (p - HEADER_SIZE))) < NUM_BUCKETS
        \<longrightarrow> (\<exists>h'. kfree p h = Some (Inr h') \<and> buckets h' (unat (bh_bucket (hdrs h (p - HEADER_SIZE)))) = p - HEADER_SIZE))"
proof -
  have "blocks h (p - HEADER_SIZE) \<noteq> None \<longrightarrow>
      (\<exists>h'. kfree p h = Some (Inr h') \<and> heap_wf h' \<and> stats_ok h' \<and> \<not> km_lock h'
         \<and> blocks h' = (blocks h)(p - HEADER_SIZE := None) \<and> kfree p h' = Some (Inr h'))"
  proof
    assume "blocks h (p - HEADER_SIZE) \<noteq> None"
    then have l: "p - HEADER_SIZE \<in> live h" by (auto simp: blocks_def split: if_splits)
    show "\<exists>h'. kfree p h = Some (Inr h') \<and> heap_wf h' \<and> stats_ok h' \<and> \<not> km_lock h'
         \<and> blocks h' = (blocks h)(p - HEADER_SIZE := None) \<and> kfree p h' = Some (Inr h')"
      using kfree_ok [OF assms(1-3) l] kfree_again [OF assms(1,3) l] by blast
  qed
  moreover have "bh_magic (hdrs h (p - HEADER_SIZE)) \<noteq> BLOCK_MAGIC \<longrightarrow> kfree p h = Some (Inr h)"
    using assms(3) by (simp add: kfree_def Let_def)
  moreover have "p - HEADER_SIZE \<in> fst ` set (km_slots h) \<and> blocks h (p - HEADER_SIZE) = None \<longrightarrow>
      bh_magic (hdrs h (p - HEADER_SIZE)) \<noteq> BLOCK_MAGIC"
    using slot_free_mark [OF assms(1)] by (auto simp: blocks_def split: if_splits)
  moreover have "bh_bucket (hdrs h (p - HEADER_SIZE)) \<noteq> LARGE_IDX
      \<and> NUM_BUCKETS \<le> unat (bh_bucket (hdrs h (p - HEADER_SIZE))) \<longrightarrow> kfree p h = Some (Inr h)"
    using assms(3) by (simp add: kfree_def Let_def)
  moreover have "bh_bucket (hdrs h (p - HEADER_SIZE)) \<noteq> LARGE_IDX" if "unat (bh_bucket (hdrs h (p - HEADER_SIZE))) < NUM_BUCKETS"
    using that by (auto simp: LARGE_IDX_def NUM_BUCKETS_def)
  then have "bh_magic (hdrs h (p - HEADER_SIZE)) = BLOCK_MAGIC \<and> unat (bh_bucket (hdrs h (p - HEADER_SIZE))) < NUM_BUCKETS
        \<longrightarrow> (\<exists>h'. kfree p h = Some (Inr h') \<and> buckets h' (unat (bh_bucket (hdrs h (p - HEADER_SIZE)))) = p - HEADER_SIZE)"
    using assms(3,4) by (auto simp: kfree_def Let_def)
  ultimately show ?thesis by blast
qed

theorem kfree_refines_witness:
  "\<exists>h h'. heap_get 5000 small_heap = Some (0xFFFF800000006020, h) \<and> kfree 0xFFFF800000006020 h = Some (Inr h')
     \<and> blocks h' = Map.empty \<and> kfree 0xFFFF800000006020 h' = Some (Inr h')"
proof -
  obtain h where g: "heap_get 5000 small_heap = Some (0xFFFF800000006020, h)" using small_heap_get by auto
  have k: "heap_ok h" by (rule ha.alloc_inv [OF small_heap_ok(1) _ g]) simp
  have "blocks h = (blocks small_heap)(0xFFFF800000006020 - HEADER_SIZE \<mapsto> ucast (5000 :: u64))"
    using ha.alloc_block [OF small_heap_ok(1) _ g] by simp
  moreover have "blocks small_heap = Map.empty" using small_heap_ok(2) by (simp add: blocks_def fun_eq_iff)
  ultimately show ?thesis
    using kfree_refines [of h "0xFFFF800000006020"] k g by (auto simp: heap_ok_def)
qed

text \<open>C24. \<open>kmalloc\<close> returns when nobody interferes, whatever the size and the interrupt word: two passes of
  the loop are enough, and more allow nothing else.\<close>

theorem kmalloc_terminates:
  assumes "heap_wf h" and "\<not> km_lock h" and "2 \<le> fuel"
  shows "\<exists>p h'. kmalloc fuel flags sz h = Some (Inr (p, h')) \<and> kmalloc 2 flags sz h = Some (Inr (p, h'))"
proof -
  define k where "k = (if heap_initialized h then h else kmalloc_init h)"
  have k: "heap_wf k" "\<not> km_lock k" using kmalloc_init_wf [OF assms(1)] assms(1,2) by (simp_all add: k_def)
  let ?i = "get_bucket_index (sz + HEADER_SIZE)"
  show ?thesis
  proof (cases "sz = 0 \<or> sz > - 1 - HEADER_SIZE \<or> ?i < 0")
    case True
    then show ?thesis using assms(2) k(2) by (cases "km_large_alloc sz k") (auto simp: kmalloc_def k_def [symmetric] Let_def)
  next
    case False
    then have ok: "take_ok (nat ?i) sz" by (intro bucket_fits) auto
    obtain p h' where l: "km_loop 2 (nat ?i) sz k = Some (Inr (p, h'))"
      using km_loop_two_passes [OF k(1) ok, of 2] by auto
    then have "km_loop fuel (nat ?i) sz k = Some (Inr (p, h'))" by (rule km_loop_more_fuel [OF _ assms(3)])
    then show ?thesis using l False assms(2) k(2) by (simp add: kmalloc_def k_def [symmetric] Let_def)
  qed
qed

theorem kmalloc_terminates_witness:
  "\<exists>p h'. kmalloc 7 0 40 small_heap = Some (Inr (p, h')) \<and> kmalloc 2 0 40 small_heap = Some (Inr (p, h'))"
  using kmalloc_terminates [of small_heap 7 0 40] small_heap_ok(1) by (auto simp: heap_ok_def)

text \<open>When the saved interrupt word is zero, the small path returns without releasing the lock, and
  every later \<open>kmalloc\<close> of a valid size and every later \<open>kfree\<close> waits for ever.\<close>

theorem kmalloc_zero_flags_keeps_lock:
  assumes "heap_wf h" and "\<not> km_lock h" and "2 \<le> fuel" and "0 < sz" and "sz \<le> 4064"
  shows "\<exists>p h'. kmalloc fuel 0 sz h = Some (Inr (p, h')) \<and> km_lock h'
    \<and> (\<forall>q fuel' flags'. q \<noteq> NULL \<longrightarrow> kfree q h' = None \<and> kmalloc fuel' flags' sz h' = None)"
proof -
  define k where "k = (if heap_initialized h then h else kmalloc_init h)"
  have k: "heap_wf k" "\<not> km_lock k" using kmalloc_init_wf [OF assms(1)] assms(1,2) by (simp_all add: k_def)
  let ?i = "get_bucket_index (sz + HEADER_SIZE)"
  have u: "unat sz \<le> 4064" using assms(5) by (simp add: word_le_nat_alt)
  then have s: "\<not> sz > - 1 - HEADER_SIZE" by (simp add: HEADER_SIZE_def word_less_nat_alt)
  have "sz + HEADER_SIZE \<le> 4096" using u by (simp add: HEADER_SIZE_def word_le_nat_alt unat_word_ariths)
  then have i: "?i \<ge> 0" by (simp add: get_bucket_index_def)
  have nz: "sz \<noteq> 0" using assms(4) by auto
  have ok: "take_ok (nat ?i) sz" using i s by (intro bucket_fits) auto
  obtain p h1 where l: "km_loop fuel (nat ?i) sz k = Some (Inr (p, h1))" using km_loop_two_passes [OF k(1) ok assms(3)] by auto
  define h' where "h' = (if p \<noteq> NULL then km_stat_alloc sz (h1\<lparr>km_lock := True\<rparr>) else h1\<lparr>km_lock := True\<rparr>)"
  have "kmalloc fuel 0 sz h = Some (Inr (p, h'))"
    using l i s nz assms(2) k(2) by (simp add: kmalloc_def k_def [symmetric] Let_def h'_def)
  moreover have lk: "km_lock h'" by (simp add: h'_def)
  moreover have "kmalloc fuel' flags' sz h' = None" for fuel' flags'
    using lk s nz by (simp add: kmalloc_def Let_def kmalloc_init_def)
  ultimately show ?thesis by (auto simp: kfree_def)
qed

theorem kmalloc_zero_flags_keeps_lock_witness:
  "\<exists>p h'. kmalloc 2 0 24 small_heap = Some (Inr (p, h')) \<and> km_lock h' \<and> kfree 0x1000 h' = None"
proof -
  have "0 < (24 :: u64)" "(24 :: u64) \<le> 4064" by simp_all
  then show ?thesis
    using kmalloc_zero_flags_keeps_lock [of small_heap 2 24] small_heap_ok(1) unfolding heap_ok_def by force
qed

text \<open>C23. Any number of processors allocating below 4 GB, freeing live blocks and writing payloads, in any
  order of their critical sections, from any heap that satisfies the invariant, an uninitialised one
  included, with the page allocator called without the lock.  The invariant holds in every state, live
  blocks never overlap, and no chunk is carried by two processors, whatever interrupt words are saved.
  On a machine that never saves a zero word the lock is free between sections; while it is free every
  caller can go on; and once a zero word has left it locked, a caller about to take it for a pass
  cannot.\<close>

theorem kmalloc_interleaved_safe:
  assumes "heap_wf h0" and "\<not> km_lock h0" and "W \<noteq> {}" and "km_reach W h0 (h, pc)"
  shows "heap_wf h \<and> (\<forall>a b. blocks h a \<noteq> None \<and> blocks h b \<noteq> None \<and> a \<noteq> b \<longrightarrow> block_bytes h a \<inter> block_bytes h b = {})
    \<and> (\<forall>i j. i \<noteq> j \<and> carried (pc i) \<noteq> NULL \<longrightarrow> carried (pc i) \<noteq> carried (pc j))
    \<and> (0 \<notin> W \<longrightarrow> \<not> km_lock h)
    \<and> (\<not> km_lock h \<longrightarrow> (\<forall>i. pc i \<noteq> KIdle \<longrightarrow> can_move W (h, pc) i))
    \<and> (km_lock h \<longrightarrow> (\<forall>i idx sz. pc i = KLoop idx sz \<longrightarrow> \<not> can_move W (h, pc) i))"
proof -
  have ok: "smp_ok W (h, pc)" by (rule smp_ok_reach [OF assms(4,1,2)])
  then have wf: "heap_wf h" "pcs_ok h pc" "0 \<notin> W \<longrightarrow> \<not> km_lock h" by (auto simp: smp_ok_def)
  have "\<forall>a b. blocks h a \<noteq> None \<and> blocks h b \<noteq> None \<and> a \<noteq> b \<longrightarrow> block_bytes h a \<inter> block_bytes h b = {}"
    using live_disjoint [OF wf(1)] by (auto simp: blocks_def split: if_splits)
  moreover have "\<forall>i j. i \<noteq> j \<and> carried (pc i) \<noteq> NULL \<longrightarrow> carried (pc i) \<noteq> carried (pc j)"
    using wf(2) unfolding pcs_ok_def by blast
  moreover have "\<not> km_lock h \<longrightarrow> (\<forall>i. pc i \<noteq> KIdle \<longrightarrow> can_move W (h, pc) i)"
    using smp_not_stuck [OF ok _ assms(3)] by blast
  moreover have "km_lock h \<longrightarrow> (\<forall>i idx sz. pc i = KLoop idx sz \<longrightarrow> \<not> can_move W (h, pc) i)"
    using km_lock_blocks by blast
  ultimately show ?thesis using wf(1,3) by (intro conjI)
qed

theorem kmalloc_interleaved_safe_witness:
  "can_move {0x80} (small_heap, (\<lambda>_. KIdle)(3 := KInit 24)) 3
   \<and> km_reach {0x80} small_heap (small_heap, (\<lambda>_. KIdle)(3 := KInit 24))"
proof -
  have "\<not> heap_initialized small_heap" by (simp add: small_heap_def)
  then have "km_step {0x80} (small_heap, \<lambda>_. KIdle) (small_heap, (\<lambda>_. KIdle)(3 := KInit 24))"
    using km_enter [of "\<lambda>_. KIdle" 3 24 "{0x80}" small_heap] by simp
  then have r: "km_reach {0x80} small_heap (small_heap, (\<lambda>_. KIdle)(3 := KInit 24))" using km_reach.intros by blast
  have s: "heap_wf small_heap" "\<not> km_lock small_heap" using small_heap_ok(1) by (simp_all add: heap_ok_def)
  have "\<forall>i. ((\<lambda>_. KIdle)(3 := KInit 24)) i \<noteq> KIdle \<longrightarrow> can_move {0x80} (small_heap, (\<lambda>_. KIdle)(3 := KInit 24)) i"
    using kmalloc_interleaved_safe [OF s _ r] s(2) by simp
  from this [THEN spec, of 3] show ?thesis using r by simp
qed

end
