(* ===== verification/Vfs.thy ===== *)
theory Vfs
  imports Registry Kstring
begin

text \<open>
  The virtual file system switch (\<open>kernel/fs/vfs.c\<close>) and the process name space (\<open>kernel/fs/procfs.c\<close>):
  provider registration, the mount table with its pins, dispatch by longest mount point, the write
  authority of a path, listings, and the canonical form of a path.

  A provider is a record of optional functions over a state \<open>'w\<close> of its own, the way \<open>struct fs_ops\<close> is a
  table of function pointers.  The registry and the process name space are such records here; the disk
  file system is an arbitrary one.  A path is the string up to its terminator.
\<close>

unbundle bit_operations_syntax

section \<open>Providers and mounts\<close>

definition EBUSY :: int where "EBUSY = 16"
definition ENOSYS :: int where "ENOSYS = 38"
definition VFS_MAX_FS :: nat where "VFS_MAX_FS = 4"
definition VFS_MAX_MOUNTS :: nat where "VFS_MAX_MOUNTS = 4"

datatype obj_type = OBJ_TYPE_NONE | OBJ_TYPE_FILE | OBJ_TYPE_PROCESS | OBJ_TYPE_REGKEY | OBJ_TYPE_WINDOW
  | OBJ_TYPE_CONSOLE | OBJ_TYPE_PIPE | OBJ_TYPE_PORT

text \<open>An open node with its mount slot, and the typed object a path names.\<close>

record mnode =
  mn_mnt :: "nat option"
  mn_node :: vfs_node

record vfs_objref =
  or_type :: obj_type
  or_pid :: int
  or_window :: int
  or_node :: mnode

definition zero_mnode :: mnode where
  "zero_mnode = \<lparr>mn_mnt = None, mn_node = \<lparr>vn_id = 0, vn_type = VFS_TYPE_FILE, vn_size = 0\<rparr>\<rparr>"

definition zero_objref :: vfs_objref where
  "zero_objref = \<lparr>or_type = OBJ_TYPE_NONE, or_pid = 0, or_window = 0, or_node = zero_mnode\<rparr>"

record 'w fs_ops =
  fo_name :: string
  fo_mount :: "(nat \<Rightarrow> 'w \<Rightarrow> (int \<times> nat) \<times> 'w) option"
  fo_open :: "(nat \<Rightarrow> string \<Rightarrow> 'w \<Rightarrow> (int \<times> vfs_node option) \<times> 'w) option"
  fo_read :: "(nat \<Rightarrow> vfs_node \<Rightarrow> u64 \<Rightarrow> u32 \<Rightarrow> 'w \<Rightarrow> (reg_fault + int \<times> string) \<times> 'w) option"
  fo_write :: "(nat \<Rightarrow> string \<Rightarrow> u64 \<Rightarrow> string \<Rightarrow> 'w \<Rightarrow> int \<times> 'w) option"
  fo_list :: "(nat \<Rightarrow> string \<Rightarrow> u32 \<Rightarrow> 'w \<Rightarrow> (int \<times> string) \<times> 'w) option"
  fo_unlink :: "(nat \<Rightarrow> string \<Rightarrow> 'w \<Rightarrow> int \<times> 'w) option"
  fo_create :: "(nat \<Rightarrow> string \<Rightarrow> vfs_type \<Rightarrow> 'w \<Rightarrow> int \<times> 'w) option"
  fo_object_at :: "(nat \<Rightarrow> string \<Rightarrow> 'w \<Rightarrow> (int \<times> (obj_type \<times> int) option) \<times> 'w) option"
  fo_umount :: "(nat \<Rightarrow> 'w \<Rightarrow> 'w) option"

record 'w vfs_mount =
  m_ops :: "'w fs_ops option"
  m_private :: nat
  m_point :: "string option"
  m_part :: nat
  m_in_use :: bool
  m_active :: int

record 'w vfs =
  fs_drivers :: "'w fs_ops list"
  mounts :: "'w vfs_mount list"
  world :: 'w

definition empty_mount :: "'w vfs_mount" where
  "empty_mount = \<lparr>m_ops = None, m_private = 0, m_point = None, m_part = 0, m_in_use = False, m_active = 0\<rparr>"

definition boot_vfs :: "'w \<Rightarrow> 'w vfs" where
  "boot_vfs w = \<lparr>fs_drivers = [], mounts = replicate VFS_MAX_MOUNTS empty_mount, world = w\<rparr>"

definition vfs_register_fs :: "'w fs_ops option \<Rightarrow> 'w vfs \<Rightarrow> int \<times> 'w vfs" where
  "vfs_register_fs ops v =
     (case ops of
        None \<Rightarrow> (- 1, v)
      | Some f \<Rightarrow>
          if fo_mount f = None \<or> fo_open f = None \<or> fo_read f = None then (- 1, v)
          else if length (fs_drivers v) \<ge> VFS_MAX_FS then (- 1, v)
          else (0, v\<lparr>fs_drivers := fs_drivers v @ [f]\<rparr>))"

text \<open>A registered driver always has a mount function.\<close>

fun try_drivers :: "'w fs_ops list \<Rightarrow> nat \<Rightarrow> 'w vfs \<Rightarrow> bool \<times> 'w vfs" where
  "try_drivers [] idx v = (False, v)"
| "try_drivers (f # fs) idx v =
     (let m0 = (mounts v ! 0)\<lparr>m_ops := Some f, m_part := idx, m_private := 0, m_point := Some ''/''\<rparr> in
      case fo_mount f of
        None \<Rightarrow> (False, v)
      | Some mnt \<Rightarrow>
          (case mnt idx (world v) of
             ((rc, priv), w) \<Rightarrow>
               if rc = 0
               then (True, v\<lparr>mounts := (mounts v)[0 := m0\<lparr>m_private := priv, m_in_use := True\<rparr>], world := w\<rparr>)
               else try_drivers fs idx (v\<lparr>mounts := (mounts v)[0 := m0\<lparr>m_ops := None\<rparr>], world := w\<rparr>)))"

definition vfs_try_mount_root :: "nat option \<Rightarrow> 'w vfs \<Rightarrow> bool \<times> 'w vfs" where
  "vfs_try_mount_root p v = (case p of None \<Rightarrow> (False, v) | Some idx \<Rightarrow> try_drivers (fs_drivers v) idx v)"

fun scan_partitions :: "nat list \<Rightarrow> 'w vfs \<Rightarrow> bool \<times> 'w vfs" where
  "scan_partitions [] v = (False, v)"
| "scan_partitions (i # is) v =
     (case vfs_try_mount_root (Some i) v of
        (True, v1) \<Rightarrow> (True, v1)
      | (False, v1) \<Rightarrow> scan_partitions is v1)"

text \<open>\<open>role\<close> is the index of the partition that declares itself the root, if there is one.\<close>

definition vfs_init :: "nat option \<Rightarrow> nat \<Rightarrow> 'w vfs \<Rightarrow> 'w vfs" where
  "vfs_init role nparts v =
     (if fs_drivers v = [] then v
      else case role of
        Some r \<Rightarrow> snd (vfs_try_mount_root (Some r) v)
      | None \<Rightarrow> snd (scan_partitions [0..<nparts] v))"

fun free_slot :: "'w vfs_mount list \<Rightarrow> nat \<Rightarrow> nat option" where
  "free_slot [] i = None"
| "free_slot (m # ms) i = (if m_in_use m then free_slot ms (Suc i) else Some i)"

definition vfs_mount_at :: "string option \<Rightarrow> 'w fs_ops option \<Rightarrow> nat \<Rightarrow> 'w vfs \<Rightarrow> int \<times> 'w vfs" where
  "vfs_mount_at mp ops priv v =
     (case (mp, ops) of
        (Some point, Some f) \<Rightarrow>
          if fo_open f = None then (- 1, v)
          else (case free_slot (tl (mounts v)) 1 of
                  None \<Rightarrow> (- 1, v)
                | Some i \<Rightarrow>
                    (0, v\<lparr>mounts := (mounts v)[i := \<lparr>m_ops = Some f, m_private = priv, m_point = Some point,
                                                    m_part = 0, m_in_use = True, m_active = 0\<rparr>]\<rparr>))
      | _ \<Rightarrow> (- 1, v))"

fun find_mount :: "'w vfs_mount list \<Rightarrow> nat \<Rightarrow> string \<Rightarrow> nat option" where
  "find_mount [] i mp = None"
| "find_mount (m # ms) i mp = (if m_in_use m \<and> m_point m = Some mp then Some i else find_mount ms (Suc i) mp)"

text \<open>The first slot with the mount point decides: a busy one is refused.\<close>

definition vfs_umount :: "string option \<Rightarrow> 'w vfs \<Rightarrow> int \<times> 'w vfs" where
  "vfs_umount mp v =
     (case mp of
        None \<Rightarrow> (- 1, v)
      | Some point \<Rightarrow>
          if point = ''/'' then (- 1, v)
          else (case find_mount (tl (mounts v)) 1 point of
                  None \<Rightarrow> (- 1, v)
                | Some i \<Rightarrow>
                    let m = mounts v ! i in
                    if m_active m \<noteq> 0 then (- EBUSY, v)
                    else
                      let v1 = v\<lparr>mounts := (mounts v)[i := m\<lparr>m_in_use := False, m_ops := None, m_private := 0,
                                                             m_point := None\<rparr>]\<rparr>
                      in (0, case Option.bind (m_ops m) fo_umount of
                               None \<Rightarrow> v1
                             | Some f \<Rightarrow> v1\<lparr>world := f (m_private m) (world v1)\<rparr>)))"

section \<open>Resolution\<close>

definition mount_matches :: "string \<Rightarrow> string \<Rightarrow> bool" where
  "mount_matches mp path \<longleftrightarrow>
     (if length mp = 1 \<and> hd mp = CHR ''/'' then True
      else take (length mp) path = mp \<and> (length path = length mp \<or> path ! length mp = CHR ''/''))"

fun best_mount :: "'w vfs_mount list \<Rightarrow> nat \<Rightarrow> string \<Rightarrow> (nat \<times> nat) option \<Rightarrow> (nat \<times> nat) option" where
  "best_mount [] i path best = best"
| "best_mount (m # ms) i path best =
     best_mount ms (Suc i) path
       (case m_point m of
          Some mp \<Rightarrow>
            if m_in_use m \<and> mount_matches mp path \<and> (case best of None \<Rightarrow> True | Some (_, l) \<Rightarrow> length mp \<ge> l)
            then Some (i, length mp) else best
        | None \<Rightarrow> best)"

definition vfs_resolve :: "'w vfs \<Rightarrow> string \<Rightarrow> nat option \<times> string" where
  "vfs_resolve v path =
     (case best_mount (mounts v) 0 path None of
        None \<Rightarrow> (None, path)
      | Some (i, l) \<Rightarrow>
          if l \<le> 1 then (Some i, path)
          else (Some i, if drop l path = [] then ''/'' else drop l path))"

definition vfs_acquire :: "string \<Rightarrow> 'w vfs \<Rightarrow> (nat option \<times> string) \<times> 'w vfs" where
  "vfs_acquire path v =
     (case vfs_resolve v path of
        (None, rel) \<Rightarrow> ((None, rel), v)
      | (Some i, rel) \<Rightarrow>
          ((Some i, rel), v\<lparr>mounts := (mounts v)[i := (mounts v ! i)\<lparr>m_active := m_active (mounts v ! i) + 1\<rparr>]\<rparr>))"

definition vfs_release :: "nat option \<Rightarrow> 'w vfs \<Rightarrow> 'w vfs" where
  "vfs_release mnt v =
     (case mnt of
        None \<Rightarrow> v
      | Some i \<Rightarrow> v\<lparr>mounts := (mounts v)[i := (mounts v ! i)\<lparr>m_active := m_active (mounts v ! i) - 1\<rparr>]\<rparr>)"

text \<open>One path operation: pin the mount, run the provider's function on its state, unpin.\<close>

definition dispatch :: "'a \<Rightarrow> 'a \<Rightarrow> ('w fs_ops \<Rightarrow> (nat \<Rightarrow> string \<Rightarrow> 'w \<Rightarrow> 'a \<times> 'w) option) \<Rightarrow> string \<Rightarrow> 'w vfs
    \<Rightarrow> (nat option \<times> 'a) \<times> 'w vfs" where
  "dispatch no_mount no_op sel path v =
     (case vfs_acquire path v of
        ((None, rel), v1) \<Rightarrow> ((None, no_mount), v1)
      | ((Some i, rel), v1) \<Rightarrow>
          (case Option.bind (m_ops (mounts v1 ! i)) sel of
             None \<Rightarrow> ((Some i, no_op), vfs_release (Some i) v1)
           | Some f \<Rightarrow>
               (case f (m_private (mounts v1 ! i)) rel (world v1) of
                  (r, w) \<Rightarrow> ((Some i, r), vfs_release (Some i) (v1\<lparr>world := w\<rparr>)))))"

definition vfs_open :: "string \<Rightarrow> 'w vfs \<Rightarrow> (int \<times> mnode option) \<times> 'w vfs" where
  "vfs_open path v =
     (case dispatch (- 1, None) (- 1, None) fo_open path v of
        ((i, (rc, node)), v1) \<Rightarrow> ((rc, map_option (\<lambda>n. \<lparr>mn_mnt = i, mn_node = n\<rparr>) node), v1))"

text \<open>
  The typed object of a path.  A provider that maps paths to objects reports only what it filled in:
  the caller's \<open>out\<close> keeps its value otherwise.
\<close>

definition vfs_resolve_object :: "string \<Rightarrow> vfs_objref \<Rightarrow> 'w vfs \<Rightarrow> (int \<times> vfs_objref) \<times> 'w vfs" where
  "vfs_resolve_object path out v =
     (case vfs_acquire path v of
        ((None, rel), v1) \<Rightarrow> ((- 1, out), v1)
      | ((Some i, rel), v1) \<Rightarrow>
          let priv = m_private (mounts v1 ! i); done = vfs_release (Some i) in
          case m_ops (mounts v1 ! i) of
            None \<Rightarrow> ((- 1, out), done v1)
          | Some ops \<Rightarrow>
              (case fo_object_at ops of
                 Some f \<Rightarrow>
                   (case f priv rel (world v1) of
                      ((rc, filled), w) \<Rightarrow>
                        ((rc, case filled of None \<Rightarrow> out | Some (t, p) \<Rightarrow> out\<lparr>or_type := t, or_pid := p\<rparr>),
                         done (v1\<lparr>world := w\<rparr>)))
               | None \<Rightarrow>
                   (case fo_open ops of
                      None \<Rightarrow> ((- 1, out), done v1)
                    | Some f \<Rightarrow>
                        (case f priv rel (world v1) of
                           ((rc, node), w) \<Rightarrow>
                             if rc \<noteq> 0 \<or> node = None then ((- 1, out), done (v1\<lparr>world := w\<rparr>))
                             else let n = the node in
                               ((if vn_type n = VFS_TYPE_DIR then - 2 else 0,
                                 out\<lparr>or_type := OBJ_TYPE_FILE, or_node := \<lparr>mn_mnt = Some i, mn_node = n\<rparr>\<rparr>),
                                done (v1\<lparr>world := w\<rparr>))))))"

datatype vfs_fault = Null_Ops | Provider_Fault reg_fault

text \<open>Reading a node goes to its mount without a pin; a retired slot has no operations to call.\<close>

definition vfs_read :: "mnode \<Rightarrow> u64 \<Rightarrow> u32 \<Rightarrow> 'w vfs \<Rightarrow> (vfs_fault + int \<times> string) \<times> 'w vfs" where
  "vfs_read node offset sz v =
     (case mn_mnt node of
        None \<Rightarrow> (Inr (- 1, []), v)
      | Some i \<Rightarrow>
          (case m_ops (mounts v ! i) of
             None \<Rightarrow> (Inl Null_Ops, v)
           | Some ops \<Rightarrow>
               (case fo_read ops of
                  None \<Rightarrow> (Inr (- 1, []), v)
                | Some f \<Rightarrow>
                    (case f (m_private (mounts v ! i)) (mn_node node) offset sz (world v) of
                       (Inl e, w) \<Rightarrow> (Inl (Provider_Fault e), v\<lparr>world := w\<rparr>)
                     | (Inr r, w) \<Rightarrow> (Inr r, v\<lparr>world := w\<rparr>)))))"

definition vfs_read_file :: "string \<Rightarrow> bool \<Rightarrow> u32 \<Rightarrow> u64 \<Rightarrow> 'w vfs \<Rightarrow> (vfs_fault + int \<times> string) \<times> 'w vfs" where
  "vfs_read_file path has_buf sz offset v =
     (case vfs_open path v of
        ((rc, node), v1) \<Rightarrow>
          if rc \<noteq> 0 \<or> node = None then (Inr (- 1, []), v1)
          else if \<not> has_buf \<or> sz = 0 then (Inr (int (vn_size (mn_node (the node))), []), v1)
          else vfs_read (the node) offset sz v1)"

definition vfs_write_file :: "string \<Rightarrow> string \<Rightarrow> u64 \<Rightarrow> 'w vfs \<Rightarrow> int \<times> 'w vfs" where
  "vfs_write_file path data offset v =
     (case dispatch (- 1) (- 1) (\<lambda>ops. map_option (\<lambda>f priv rel. f priv rel offset data) (fo_write ops)) path v of
        ((i, rc), v1) \<Rightarrow> (rc, v1))"

definition vfs_unlink :: "string \<Rightarrow> 'w vfs \<Rightarrow> int \<times> 'w vfs" where
  "vfs_unlink path v =
     (case dispatch (- ENOENT) (- ENOSYS) fo_unlink path v of ((i, rc), v1) \<Rightarrow> (rc, v1))"

definition vfs_create :: "string \<Rightarrow> vfs_type \<Rightarrow> 'w vfs \<Rightarrow> int \<times> 'w vfs" where
  "vfs_create path ty v =
     (case dispatch (- ENOENT) (- ENOSYS) (\<lambda>ops. map_option (\<lambda>f priv rel. f priv rel ty) (fo_create ops)) path v of
        ((i, rc), v1) \<Rightarrow> (rc, v1))"

definition vfs_stat :: "string \<Rightarrow> 'w vfs \<Rightarrow> (int \<times> (nat \<times> vfs_type) option) \<times> 'w vfs" where
  "vfs_stat path v =
     (case vfs_open path v of
        ((rc, node), v1) \<Rightarrow>
          if rc \<noteq> 0 \<or> node = None then ((- 1, None), v1)
          else ((0, Some (vn_size (mn_node (the node)), vn_type (mn_node (the node)))), v1))"

section \<open>Listings\<close>

text \<open>The last slash splits a mount point into its parent and its name.\<close>

definition last_slash :: "string \<Rightarrow> nat" where
  "last_slash mp = foldl (\<lambda>l i. if mp ! i = CHR ''/'' then i else l) 0 [0..<length mp]"

definition mount_child_of :: "string \<Rightarrow> string \<Rightarrow> nat \<Rightarrow> string option" where
  "mount_child_of mp dir leafsize =
     (let l = last_slash mp;
          parent = (if l = 0 then ''/'' else take (min l 127) mp);
          name = drop (Suc l) mp
      in if parent \<noteq> dir then None
         else if name = [] then None
         else Some (take (leafsize - 1) name))"

fun append_mounts :: "'w vfs_mount list \<Rightarrow> nat \<Rightarrow> nat option \<Rightarrow> string \<Rightarrow> nat \<Rightarrow> string \<Rightarrow> string" where
  "append_mounts [] i mnt path sz out = out"
| "append_mounts (m # ms) i mnt path sz out =
     (case m_point m of
        Some mp \<Rightarrow>
          if \<not> m_in_use m \<or> mnt = Some i then append_mounts ms (Suc i) mnt path sz out
          else (case mount_child_of mp path 64 of
                  None \<Rightarrow> append_mounts ms (Suc i) mnt path sz out
                | Some leaf \<Rightarrow>
                    if length out + length leaf + 2 \<ge> sz then out
                    else append_mounts ms (Suc i) mnt path sz
                           ((if out \<noteq> [] \<and> last out \<noteq> CHR '' '' then out @ '' '' else out) @ leaf @ '' ''))
      | None \<Rightarrow> append_mounts ms (Suc i) mnt path sz out)"

definition vfs_list_dir :: "string \<Rightarrow> u32 \<Rightarrow> 'w vfs \<Rightarrow> (int \<times> string) \<times> 'w vfs" where
  "vfs_list_dir path sz v =
     (case dispatch (- 1, []) (- 1, []) (\<lambda>ops. map_option (\<lambda>f priv rel. f priv rel sz) (fo_list ops)) path v of
        ((i, (res, buf)), v1) \<Rightarrow>
          if res < 0 then ((res, buf), v1)
          else let out = append_mounts (mounts v1) 0 i path (unat sz) (take (nat res) buf)
               in ((int (length out), out), v1))"

section \<open>Write authority\<close>

definition under :: "string \<Rightarrow> string \<Rightarrow> bool" where
  "under tree path \<longleftrightarrow> take (length tree + 1) path = tree @ ''/'' \<or> path = tree"

definition vfs_write_allowed :: "sched \<Rightarrow> pref option \<Rightarrow> string \<Rightarrow> int" where
  "vfs_write_allowed s cur path =
     (let p = map_option (procs s) cur in
      if \<not> proc_has_cap p CAP_FS_WRITE then - EPERM
      else if proc_is_machine p then 0
      else if under ''/tmp'' path \<or> under ''/var/tmp'' path then 0
      else if under ''/home'' path then
        (if (case p of None \<Rightarrow> False | Some q \<Rightarrow> plevel q \<ge> PLVL_GUEST) \<and> \<not> under ''/home/shared'' path then - EACCES else 0)
      else if under ''/sys/bin'' path \<or> under ''/sbin'' path \<or> under ''/system'' path then - EACCES
      else if under ''/sys'' path \<or> under ''/bin'' path then (if \<not> proc_is_privileged p then - EACCES else 0)
      else if \<not> proc_is_privileged p then - EACCES
      else 0)"

section \<open>Canonical paths\<close>

definition TEMP_SIZE :: nat where "TEMP_SIZE = 256"
definition MAX_PARTS :: nat where "MAX_PARTS = 32"

text \<open>\<open>strncat\<close> into the working buffer.\<close>

definition cat_temp :: "string \<Rightarrow> string \<Rightarrow> string" where
  "cat_temp t s = t @ take (TEMP_SIZE - length t - 1) s"

definition path_temp :: "string option \<Rightarrow> string \<Rightarrow> string" where
  "path_temp wd inp =
     (if inp \<noteq> [] \<and> hd inp = CHR ''/'' then take (TEMP_SIZE - 1) inp
      else
        let t = (case wd of Some c \<Rightarrow> c | None \<Rightarrow> ''/'');
            t1 = (if t \<noteq> [] \<and> last t \<noteq> CHR ''/'' then cat_temp t ''/'' else t)
        in take (TEMP_SIZE - 1) (cat_temp t1 inp))"

definition push_part :: "string \<Rightarrow> string list \<Rightarrow> string list" where
  "push_part tok parts =
     (if tok = ''..'' then (if parts \<noteq> [] then butlast parts else parts)
      else if tok \<noteq> ''.'' \<and> tok \<noteq> [] then (if length parts < MAX_PARTS then parts @ [tok] else parts)
      else parts)"

function split_loop :: "string \<Rightarrow> string list \<Rightarrow> string list" where
  "split_loop token parts =
     (if token = [] then parts
      else
        let tok = takeWhile (\<lambda>c. c \<noteq> CHR ''/'') token;
            rest = dropWhile (\<lambda>c. c \<noteq> CHR ''/'') token;
            parts1 = push_part tok parts
        in if rest = [] then parts1 else split_loop (tl rest) parts1)"
  by auto
termination
proof (relation "measure (length \<circ> fst)", goal_cases)
  case (2 token parts tok rest parts1)
  have "length rest \<le> length token" unfolding 2 by (rule length_dropWhile_le)
  then have "length (tl rest) < length token" using 2(1) by (cases token) auto
  then show ?case by simp
qed simp

fun emit_parts :: "nat \<Rightarrow> bool \<Rightarrow> string list \<Rightarrow> string \<Rightarrow> string" where
  "emit_parts sz first [] out = out"
| "emit_parts sz first (p # ps) out =
     (let out1 = (if \<not> first \<and> length out < sz - 1 then out @ ''/'' else out)
      in emit_parts sz False ps (out1 @ take (sz - 1 - length out1) p))"

text \<open>\<open>None\<close>: a buffer of size 0 is not written.\<close>

definition vfs_resolve_path :: "string option \<Rightarrow> string \<Rightarrow> nat \<Rightarrow> string option" where
  "vfs_resolve_path wd inp sz =
     (let t = path_temp wd inp;
          parts = split_loop (if t \<noteq> [] \<and> hd t = CHR ''/'' then tl t else t) []
      in if sz = 0 then None
         else Some (emit_parts sz True parts (if 0 < sz - 1 then ''/'' else [])))"

section \<open>The process name space\<close>

text \<open>\<open>atoi\<close> on a string without its terminator.\<close>

fun atoi_digits :: "string \<Rightarrow> int \<Rightarrow> int \<Rightarrow> int" where
  "atoi_digits [] sign res = res * sign"
| "atoi_digits (c # cs) sign res =
     (if 48 \<le> (of_char c :: nat) \<and> (of_char c :: nat) \<le> 57
      then let digit = int (of_char c) - 48
           in if res > (INT_MAX - digit) div 10 then (if sign > 0 then INT_MAX else INT_MIN)
              else atoi_digits cs sign (res * 10 + digit)
      else res * sign)"

definition atoi_str :: "string \<Rightarrow> int" where
  "atoi_str s =
     (case dropWhile (\<lambda>c. c = CHR '' '') s of
        [] \<Rightarrow> 0
      | c # cs \<Rightarrow> if c = CHR ''-'' then atoi_digits cs (- 1) 0
                  else if c = CHR ''+'' then atoi_digits cs 1 0
                  else atoi_digits (c # cs) 1 0)"

definition skip_slashes :: "string \<Rightarrow> string" where
  "skip_slashes p = dropWhile (\<lambda>c. c = CHR ''/'') p"

definition procfs_object_at :: "(u64 \<Rightarrow> u64) \<Rightarrow> string \<Rightarrow> sched \<Rightarrow> int \<times> (obj_type \<times> int) option" where
  "procfs_object_at to_ns path s =
     (let p = skip_slashes path in
      if p = [] then (- 2, None)
      else if CHR ''/'' \<in> set p then (- 1, None)
      else let n = atoi_str p in
           if n \<le> 0 \<or> proc_get_info to_ns s n = None then (- 1, None)
           else (0, Some (OBJ_TYPE_PROCESS, n)))"

definition procfs_open :: "(u64 \<Rightarrow> u64) \<Rightarrow> string \<Rightarrow> sched \<Rightarrow> int \<times> vfs_node option" where
  "procfs_open to_ns path s =
     (let p = skip_slashes path in
      if p = [] then (0, Some \<lparr>vn_id = 0, vn_type = VFS_TYPE_DIR, vn_size = 0\<rparr>)
      else let n = atoi_str p in
           if n \<le> 0 \<or> proc_get_info to_ns s n = None then (- 1, None)
           else (0, Some \<lparr>vn_id = nat n, vn_type = VFS_TYPE_FILE, vn_size = 0\<rparr>))"

fun list_pids :: "nat \<Rightarrow> int list \<Rightarrow> string \<Rightarrow> string" where
  "list_pids sz [] out = out"
| "list_pids sz (n # ns) out =
     (let num = dec_string n in
      if length out + length num + 2 > sz then out
      else list_pids sz ns ((if out \<noteq> [] then out @ '' '' else out) @ num))"

definition procfs_list :: "string \<Rightarrow> u32 \<Rightarrow> sched \<Rightarrow> int \<times> string" where
  "procfs_list path sz s =
     (if skip_slashes path \<noteq> [] then (- 2, [])
      else let out = list_pids (unat sz) (proc_enum_pids s (int MAX_PROCESSES)) []
           in (int (length out), out))"

text \<open>
  The two synthetic providers as operation tables.  Their state is the process table, the registry and
  the process that is running; \<open>km\<close> says which allocations succeed.
\<close>

record kworld =
  kw_sched :: sched
  kw_reg :: registry
  kw_cur :: "pref option"

definition on_sr :: "(sched \<times> registry \<Rightarrow> 'a \<times> sched \<times> registry) \<Rightarrow> kworld \<Rightarrow> 'a \<times> kworld" where
  "on_sr f w = (case f (kw_sched w, kw_reg w) of (r, s, g) \<Rightarrow> (r, w\<lparr>kw_sched := s, kw_reg := g\<rparr>))"

definition procfs_ops :: "(u64 \<Rightarrow> u64) \<Rightarrow> kworld fs_ops" where
  "procfs_ops to_ns =
     \<lparr>fo_name = ''procfs'', fo_mount = None,
      fo_open = Some (\<lambda>_ path w. (procfs_open to_ns path (kw_sched w), w)),
      fo_read = None, fo_write = None,
      fo_list = Some (\<lambda>_ path sz w. (procfs_list path sz (kw_sched w), w)),
      fo_unlink = None, fo_create = None,
      fo_object_at = Some (\<lambda>_ path w. (procfs_object_at to_ns path (kw_sched w), w)), fo_umount = None\<rparr>"

definition regfs_ops :: "(nat \<Rightarrow> bool) \<Rightarrow> (u64 \<Rightarrow> u64) \<Rightarrow> kworld fs_ops" where
  "regfs_ops km to_ns =
     \<lparr>fo_name = ''regfs'', fo_mount = Some (\<lambda>_ w. ((0, 0), w)),
      fo_open = Some (\<lambda>_ path w. (regfs_open path (kw_reg w), w)),
      fo_read = Some (\<lambda>_ node off sz w. (regfs_read node off sz (kw_reg w), w)),
      fo_write = Some (\<lambda>_ path off data w. on_sr (regfs_write km to_ns (kw_cur w) path off data) w),
      fo_list = Some (\<lambda>_ path sz w. (case regfs_list path sz (kw_reg w) of (rc, out) \<Rightarrow> (rc, case out of None \<Rightarrow> [] | Some b \<Rightarrow> b), w)),
      fo_unlink = Some (\<lambda>_ path w. on_sr (regfs_unlink (kw_cur w) path) w),
      fo_create = Some (\<lambda>_ path ty w. on_sr (regfs_create km (kw_cur w) path ty) w),
      fo_object_at = None, fo_umount = None\<rparr>"

definition procfs_init :: "(u64 \<Rightarrow> u64) \<Rightarrow> kworld vfs \<Rightarrow> kworld vfs" where
  "procfs_init to_ns v = snd (vfs_mount_at (Some ''/proc'') (Some (procfs_ops to_ns)) 0 v)"

definition registry_mount_vfs :: "(nat \<Rightarrow> bool) \<Rightarrow> (u64 \<Rightarrow> u64) \<Rightarrow> kworld vfs \<Rightarrow> kworld vfs" where
  "registry_mount_vfs km to_ns v = snd (vfs_mount_at (Some ''/reg'') (Some (regfs_ops km to_ns)) 0 v)"

end
