(* ===== verification/Vfs_Props.thy ===== *)
theory Vfs_Props
  imports Vfs "HOL-Library.Sublist"
begin

text \<open>
  Properties of the virtual file system switch: the canonical form of a path against a reference, routing
  to the longest mount point, pins against unmounting under every interleaving, and the write policy over
  the components of a path.
\<close>

unbundle bit_operations_syntax

section \<open>Canonical paths\<close>

text \<open>The reference: cut at the slashes, then fold the components from the left.\<close>

fun split_slash :: "string \<Rightarrow> string list" where
  "split_slash [] = [[]]"
| "split_slash (c # cs) = (if c = CHR ''/'' then [] # split_slash cs
     else (case split_slash cs of [] \<Rightarrow> [[c]] | p # ps \<Rightarrow> (c # p) # ps))"

definition push_norm :: "string list \<Rightarrow> string \<Rightarrow> string list" where
  "push_norm st p = (if p = ''..'' then butlast st else if p = ''.'' \<or> p = [] then st else st @ [p])"

definition normal_form :: "string list \<Rightarrow> string list" where
  "normal_form ps = foldl push_norm [] ps"

definition proper :: "string \<Rightarrow> bool" where
  "proper p \<longleftrightarrow> p \<noteq> [] \<and> p \<noteq> ''.'' \<and> p \<noteq> ''..'' \<and> CHR ''/'' \<notin> set p"

definition slashed :: "string list \<Rightarrow> string" where
  "slashed ps = concat (map (\<lambda>p. CHR ''/'' # p) ps)"

definition path_of :: "string list \<Rightarrow> string" where
  "path_of ps = (if ps = [] then ''/'' else slashed ps)"

lemma split_slash_nonempty [simp]: "split_slash s \<noteq> []"
  by (induction s) (auto split: list.splits)

lemma split_slash_take_drop:
  "split_slash s = (let r = dropWhile (\<lambda>c. c \<noteq> CHR ''/'') s in
     takeWhile (\<lambda>c. c \<noteq> CHR ''/'') s # (if r = [] then [] else split_slash (tl r)))"
  by (induction s) (auto simp: Let_def split: list.splits)

lemma split_slash_no_slash: "p \<in> set (split_slash s) \<Longrightarrow> CHR ''/'' \<notin> set p"
  by (induction s arbitrary: p) (auto split: list.splits if_splits)

lemma push_part_empty [simp]: "push_part [] ps = ps"
  by (simp add: push_part_def)

declare split_loop.simps [simp del]

lemma split_loop_fold: "split_loop token parts = foldl (\<lambda>ps t. push_part t ps) parts (split_slash token)"
proof (induction token parts rule: split_loop.induct)
  case (1 token parts)
  show ?case
  proof (cases "token = []")
    case True
    then show ?thesis by (simp add: split_loop.simps)
  next
    case False
    let ?rest = "dropWhile (\<lambda>c. c \<noteq> CHR ''/'') token"
    have "split_loop token parts =
      (let parts1 = push_part (takeWhile (\<lambda>c. c \<noteq> CHR ''/'') token) parts
       in if ?rest = [] then parts1 else split_loop (tl ?rest) parts1)"
      using False by (subst split_loop.simps) (simp add: Let_def)
    then show ?thesis
      using "1.IH" [OF False refl refl refl] by (subst split_slash_take_drop) (auto simp: Let_def)
  qed
qed

lemma push_part_length: "length parts \<le> MAX_PARTS \<Longrightarrow> length (push_part t parts) \<le> MAX_PARTS"
  by (auto simp: push_part_def)

lemma fold_push_length: "length parts \<le> MAX_PARTS \<Longrightarrow> length (foldl (\<lambda>ps t. push_part t ps) parts ts) \<le> MAX_PARTS"
  by (induction ts arbitrary: parts) (auto simp: push_part_length)

lemma fold_push_proper:
  "\<forall>p \<in> set parts. proper p \<Longrightarrow> \<forall>t \<in> set ts. CHR ''/'' \<notin> set t \<Longrightarrow>
   \<forall>p \<in> set (foldl (\<lambda>ps t. push_part t ps) parts ts). proper p"
proof (induction ts arbitrary: parts)
  case (Cons t ts)
  have "\<forall>p \<in> set (push_part t parts). proper p"
    using Cons.prems by (auto simp: push_part_def proper_def dest: in_set_butlastD)
  then show ?case using Cons.IH Cons.prems(2) by simp
qed simp

lemma push_norm_length: "length (push_norm st p) \<le> length st + (if proper p then 1 else 0)"
  if "CHR ''/'' \<notin> set p"
  using that by (auto simp: push_norm_def proper_def)

lemma fold_push_norm:
  "\<forall>t \<in> set ts. CHR ''/'' \<notin> set t \<Longrightarrow> length st + length (filter proper ts) \<le> MAX_PARTS \<Longrightarrow>
   foldl (\<lambda>ps t. push_part t ps) st ts = foldl push_norm st ts"
proof (induction ts arbitrary: st)
  case (Cons t ts)
  have "push_part t st = push_norm st t"
    using Cons.prems by (auto simp: push_part_def push_norm_def proper_def split: if_splits)
  moreover have "length (push_norm st t) + length (filter proper ts) \<le> MAX_PARTS"
    using push_norm_length [of t st] Cons.prems by (auto split: if_splits)
  ultimately show ?case using Cons by simp
qed simp

lemma take_fill: "length xs \<le> n \<Longrightarrow> take n ((xs @ take (n - length xs) p) @ r) = take n (xs @ p @ r)"
  by (cases "length p \<le> n - length xs") (simp_all add: min_def)

lemma emit_slashed:
  "length out \<le> sz - 1 \<Longrightarrow> emit_parts sz False ps out = take (sz - 1) (out @ slashed ps)"
proof (induction ps arbitrary: out)
  case (Cons p ps)
  let ?o = "if length out < sz - 1 then out @ ''/'' else out"
  have "emit_parts sz False (p # ps) out = emit_parts sz False ps (?o @ take (sz - 1 - length ?o) p)" by (simp add: Let_def)
  also have "\<dots> = take (sz - 1) ((?o @ take (sz - 1 - length ?o) p) @ slashed ps)"
    using Cons.prems by (intro Cons.IH) auto
  also have "\<dots> = take (sz - 1) (?o @ p @ slashed ps)" using Cons.prems by (intro take_fill) auto
  also have "\<dots> = take (sz - 1) (out @ slashed (p # ps))"
    using Cons.prems by (cases "length out < sz - 1") (auto simp: slashed_def)
  finally show ?case .
qed (simp add: slashed_def)

lemma emit_parts_path:
  assumes "0 < sz"
  shows "emit_parts sz True ps (if 0 < sz - 1 then ''/'' else []) = take (sz - 1) (path_of ps)"
proof (cases ps)
  case Nil
  then show ?thesis by (auto simp: path_of_def take_Cons')
next
  case (Cons p ps')
  let ?o = "if 0 < sz - 1 then ''/'' else []"
  have "emit_parts sz True (p # ps') ?o = emit_parts sz False ps' (?o @ take (sz - 1 - length ?o) p)" by simp
  also have "\<dots> = take (sz - 1) ((?o @ take (sz - 1 - length ?o) p) @ slashed ps')" by (intro emit_slashed) auto
  also have "\<dots> = take (sz - 1) (?o @ p @ slashed ps')" by (intro take_fill) auto
  also have "\<dots> = take (sz - 1) (path_of (p # ps'))" by (cases "0 < sz - 1") (simp_all add: path_of_def slashed_def)
  finally show ?thesis using Cons by simp
qed

definition resolved_parts :: "string option \<Rightarrow> string \<Rightarrow> string list" where
  "resolved_parts wd inp = foldl (\<lambda>ps t. push_part t ps) [] (split_slash (path_temp wd inp))"

lemma resolve_path_parts:
  assumes "0 < sz"
  shows "vfs_resolve_path wd inp sz = Some (take (sz - 1) (path_of (resolved_parts wd inp)))"
proof -
  let ?t = "path_temp wd inp"
  have "split_loop (if ?t \<noteq> [] \<and> hd ?t = CHR ''/'' then tl ?t else ?t) [] = resolved_parts wd inp"
    unfolding split_loop_fold resolved_parts_def by (cases ?t) auto
  then show ?thesis using assms emit_parts_path [OF assms] by (simp add: vfs_resolve_path_def Let_def)
qed

lemma resolved_parts_ok: "length (resolved_parts wd inp) \<le> MAX_PARTS" "\<forall>p \<in> set (resolved_parts wd inp). proper p"
  unfolding resolved_parts_def
  using fold_push_length [of "[]"] fold_push_proper [of "[]" "split_slash (path_temp wd inp)"] split_slash_no_slash
  by simp_all

text \<open>Cutting a canonical path gives its components back.\<close>

lemma split_slash_append: "CHR ''/'' \<notin> set p \<Longrightarrow> split_slash (p @ CHR ''/'' # s) = p # split_slash s"
  by (induction p) auto

lemma split_slash_plain: "CHR ''/'' \<notin> set p \<Longrightarrow> split_slash p = [p]"
  by (induction p) auto

lemma split_slashed: "\<forall>p \<in> set ps. proper p \<Longrightarrow> ps \<noteq> [] \<Longrightarrow> split_slash (slashed ps) = [] # ps"
proof (induction ps)
  case (Cons p ps)
  then have p: "CHR ''/'' \<notin> set p" by (simp add: proper_def)
  show ?case
  proof (cases ps)
    case Nil
    then show ?thesis using split_slash_plain [OF p] by (simp add: slashed_def)
  next
    case (Cons q qs)
    then have "split_slash (slashed ps) = [] # ps" using Cons.IH Cons.prems by simp
    moreover have "slashed ps = CHR ''/'' # q @ slashed qs" using Cons by (simp add: slashed_def)
    ultimately have "split_slash (q @ slashed qs) = ps" by simp
    then show ?thesis using split_slash_append [OF p] \<open>slashed ps = _\<close> by (simp add: slashed_def)
  qed
qed simp

lemma fold_push_id:
  "\<forall>p \<in> set ps. proper p \<Longrightarrow> length st + length ps \<le> MAX_PARTS \<Longrightarrow> foldl (\<lambda>ps t. push_part t ps) st ps = st @ ps"
  by (induction ps arbitrary: st) (auto simp: push_part_def proper_def)

lemma resolve_canonical:
  assumes "\<forall>p \<in> set ps. proper p" and "length ps \<le> MAX_PARTS" and "length (path_of ps) < TEMP_SIZE" and "length (path_of ps) < sz"
  shows "vfs_resolve_path wd (path_of ps) sz = Some (path_of ps)"
proof -
  have h: "path_of ps \<noteq> [] \<and> hd (path_of ps) = CHR ''/''" by (cases ps) (simp_all add: path_of_def slashed_def)
  have "path_temp wd (path_of ps) = path_of ps" using h assms(3) by (simp add: path_temp_def)
  moreover have "foldl (\<lambda>ps t. push_part t ps) [] (split_slash (path_of ps)) = ps"
    using split_slashed [OF assms(1)] fold_push_id [of ps "[]"] assms(1,2) by (cases "ps = []") (auto simp: path_of_def)
  ultimately have "resolved_parts wd (path_of ps) = ps" by (simp add: resolved_parts_def)
  then show ?thesis using resolve_path_parts [of sz wd "path_of ps"] assms(4) by simp
qed


section \<open>Trees and write authority\<close>

lemma prefix_slashed:
  assumes "\<forall>p \<in> set ts. proper p" and "\<forall>p \<in> set ps. proper p"
  shows "(\<exists>r. slashed ps = slashed ts @ r \<and> (r = [] \<or> hd r = CHR ''/'')) \<longleftrightarrow> prefix ts ps"
  using assms
proof (induction ts arbitrary: ps)
  case Nil
  then show ?case by (cases ps) (auto simp: slashed_def)
next
  case (Cons t ts)
  show ?case
  proof (cases ps)
    case Nil
    then show ?thesis by (auto simp: slashed_def)
  next
    case (Cons p ps')
    have tp: "CHR ''/'' \<notin> set t" "CHR ''/'' \<notin> set p" using Cons.prems Cons by (auto simp: proper_def)
    have hd1: "slashed xs = [] \<or> hd (slashed xs) = CHR ''/''" for xs by (cases xs) (auto simp: slashed_def)
    have cut: "takeWhile (\<lambda>c. c \<noteq> CHR ''/'') (x @ y) = x" if "CHR ''/'' \<notin> set x" "y = [] \<or> hd y = CHR ''/''" for x y
      using that by (cases y) (auto simp: takeWhile_append)
    have eq: "p @ slashed ps' = t @ slashed ts @ r \<longleftrightarrow> p = t \<and> slashed ps' = slashed ts @ r"
      if r: "r = [] \<or> hd r = CHR ''/''" for r
    proof
      assume a: "p @ slashed ps' = t @ slashed ts @ r"
      have "slashed ts @ r = [] \<or> hd (slashed ts @ r) = CHR ''/''" using hd1 [of ts] r by (cases "slashed ts") auto
      then have "p = t" using arg_cong [OF a, of "takeWhile (\<lambda>c. c \<noteq> CHR ''/'')"] cut [OF tp(2) hd1] cut [OF tp(1)] by metis
      then show "p = t \<and> slashed ps' = slashed ts @ r" using a by simp
    qed simp
    have "(\<exists>r. slashed ps = slashed (t # ts) @ r \<and> (r = [] \<or> hd r = CHR ''/'')) \<longleftrightarrow>
        p = t \<and> (\<exists>r. slashed ps' = slashed ts @ r \<and> (r = [] \<or> hd r = CHR ''/''))"
      using eq Cons by (auto simp: slashed_def)
    then show ?thesis using Cons.IH [of ps'] Cons.prems Cons by auto
  qed
qed

lemma under_prefix:
  assumes "\<forall>p \<in> set ts. proper p" and "ts \<noteq> []" and "\<forall>p \<in> set ps. proper p"
  shows "under (path_of ts) (path_of ps) \<longleftrightarrow> prefix ts ps"
proof (cases "ps = []")
  case True
  obtain t ts' where t: "ts = t # ts'" using assms(2) by (cases ts) auto
  have "t \<noteq> []" using assms(1) t by (simp add: proper_def)
  then have "\<not> under (path_of ts) ''/''" by (cases t) (auto simp: under_def path_of_def slashed_def t)
  then show ?thesis using True assms(2) by (simp add: path_of_def)
next
  case False
  have "under (path_of ts) (path_of ps) \<longleftrightarrow> (\<exists>r. slashed ps = slashed ts @ r \<and> (r = [] \<or> hd r = CHR ''/''))"
  proof
    assume u: "under (path_of ts) (path_of ps)"
    show "\<exists>r. slashed ps = slashed ts @ r \<and> (r = [] \<or> hd r = CHR ''/'')"
    proof (cases "path_of ps = path_of ts")
      case True
      then show ?thesis using False assms(2) by (simp add: path_of_def)
    next
      case ne: False
      then have "take (length (slashed ts) + 1) (slashed ps) = slashed ts @ ''/''"
        using u False assms(2) by (simp add: under_def path_of_def)
      then have "slashed ps = slashed ts @ CHR ''/'' # drop (length (slashed ts) + 1) (slashed ps)"
        by (metis append_assoc append_Cons append_Nil append_take_drop_id)
      then show ?thesis by (metis list.sel(1))
    qed
  next
    assume "\<exists>r. slashed ps = slashed ts @ r \<and> (r = [] \<or> hd r = CHR ''/'')"
    then obtain r where "slashed ps = slashed ts @ r" "r = [] \<or> hd r = CHR ''/''" by blast
    then show "under (path_of ts) (path_of ps)" using False assms(2) by (cases r) (auto simp: under_def path_of_def)
  qed
  then show ?thesis using prefix_slashed [OF assms(1,3)] by simp
qed

text \<open>The trees the policy names, as component lists.\<close>

lemma tree_under1:
  assumes "\<forall>p \<in> set ps. proper p" and "path_of ts = t" and "\<forall>p \<in> set ts. proper p" and "ts \<noteq> []"
  shows "under t (path_of ps) \<longleftrightarrow> prefix ts ps"
  using under_prefix [OF assms(3,4,1)] assms(2) by simp

lemma tree_under:
  assumes "\<forall>p \<in> set ps. proper p"
  shows "under ''/tmp'' (path_of ps) \<longleftrightarrow> prefix [''tmp''] ps" "under ''/var/tmp'' (path_of ps) \<longleftrightarrow> prefix [''var'', ''tmp''] ps"
    "under ''/home'' (path_of ps) \<longleftrightarrow> prefix [''home''] ps" "under ''/home/shared'' (path_of ps) \<longleftrightarrow> prefix [''home'', ''shared''] ps"
    "under ''/sys/bin'' (path_of ps) \<longleftrightarrow> prefix [''sys'', ''bin''] ps" "under ''/sbin'' (path_of ps) \<longleftrightarrow> prefix [''sbin''] ps"
    "under ''/system'' (path_of ps) \<longleftrightarrow> prefix [''system''] ps" "under ''/sys'' (path_of ps) \<longleftrightarrow> prefix [''sys''] ps"
    "under ''/bin'' (path_of ps) \<longleftrightarrow> prefix [''bin''] ps"
  by (rule tree_under1 [OF assms]; simp add: proper_def path_of_def slashed_def)+

section \<open>Mount resolution\<close>

definition mounted :: "'w vfs_mount list \<Rightarrow> nat \<Rightarrow> string \<Rightarrow> string \<Rightarrow> bool" where
  "mounted ms i mp path \<longleftrightarrow> i < length ms \<and> m_in_use (ms ! i) \<and> m_point (ms ! i) = Some mp \<and> mount_matches mp path"

fun cands :: "'w vfs_mount list \<Rightarrow> nat \<Rightarrow> string \<Rightarrow> (nat \<times> nat) list" where
  "cands [] k path = []"
| "cands (m # ms) k path =
     (case m_point m of
        Some mp \<Rightarrow> if m_in_use m \<and> mount_matches mp path then (k, length mp) # cands ms (Suc k) path else cands ms (Suc k) path
      | None \<Rightarrow> cands ms (Suc k) path)"

definition pick :: "(nat \<times> nat) option \<Rightarrow> nat \<times> nat \<Rightarrow> (nat \<times> nat) option" where
  "pick b c = (case b of None \<Rightarrow> Some c | Some (_, l) \<Rightarrow> if snd c \<ge> l then Some c else b)"

lemma best_mount_pick: "best_mount ms k path best = foldl pick best (cands ms k path)"
  by (induction ms k path best rule: best_mount.induct) (auto simp: pick_def split: option.splits)

lemma cands_iff: "(j, l) \<in> set (cands ms k path) \<longleftrightarrow> (\<exists>i mp. j = k + i \<and> l = length mp \<and> mounted ms i mp path)"
proof (induction ms k path rule: cands.induct)
  case (2 m ms k path)
  have "(\<exists>i mp. j = k + i \<and> l = length mp \<and> mounted (m # ms) i mp path) \<longleftrightarrow>
     (\<exists>mp. j = k \<and> l = length mp \<and> m_in_use m \<and> m_point m = Some mp \<and> mount_matches mp path)
     \<or> (\<exists>i mp. j = Suc k + i \<and> l = length mp \<and> mounted ms i mp path)"
    (is "?L \<longleftrightarrow> ?R")
  proof
    assume ?L
    then obtain i mp where "j = k + i" "l = length mp" "mounted (m # ms) i mp path" by blast
    then show ?R by (cases i) (auto simp: mounted_def)
  next
    assume ?R
    then show ?L
    proof
      assume "\<exists>mp. j = k \<and> l = length mp \<and> m_in_use m \<and> m_point m = Some mp \<and> mount_matches mp path"
      then show ?L by (intro exI [of _ 0]) (auto simp: mounted_def)
    next
      assume "\<exists>i mp. j = Suc k + i \<and> l = length mp \<and> mounted ms i mp path"
      then obtain i mp where "j = k + Suc i" "l = length mp" "mounted (m # ms) (Suc i) mp path" by (auto simp: mounted_def)
      then show ?L by blast
    qed
  qed
  then show ?case using 2 by (auto split: option.splits)
qed (simp add: mounted_def)

lemma cands_sorted: "sorted_wrt (<) (map fst (cands ms k path))"
proof (induction ms k path rule: cands.induct)
  case (2 m ms k path)
  have "\<forall>x \<in> set (cands ms (Suc k) path). k < fst x" using cands_iff [of _ _ ms "Suc k" path] by auto
  then show ?case using 2 by (auto split: option.splits)
qed simp

lemma foldl_pick:
  "sorted_wrt (<) (map fst cs) \<Longrightarrow>
   (case foldl pick None cs of None \<Rightarrow> cs = []
    | Some (j, l) \<Rightarrow> (j, l) \<in> set cs \<and> (\<forall>x \<in> set cs. snd x < l \<or> snd x = l \<and> fst x \<le> j))"
proof (induction cs rule: rev_induct)
  case (snoc c cs)
  have "sorted_wrt (<) (map fst cs)" "\<forall>x \<in> set cs. fst x < fst c" using snoc.prems by (auto simp: sorted_wrt_append)
  moreover have "pick None c = Some c" "pick (Some (j, l)) c = (if snd c \<ge> l then Some c else Some (j, l))" for j l
    by (simp_all add: pick_def)
  ultimately show ?case using snoc.IH
    by (cases "foldl pick None cs") (force split: if_splits prod.splits)+
qed simp

lemma vfs_resolve_some:
  assumes "vfs_resolve v path = (Some i, rel)"
  obtains mp where "mounted (mounts v) i mp path"
    "\<And>j mp'. mounted (mounts v) j mp' path \<Longrightarrow> length mp' < length mp \<or> length mp' = length mp \<and> j \<le> i"
    "rel = (if length mp \<le> 1 then path else if path = mp then ''/'' else drop (length mp) path)"
proof -
  obtain l where b: "best_mount (mounts v) 0 path None = Some (i, l)"
    and rel: "rel = (if l \<le> 1 then path else if drop l path = [] then ''/'' else drop l path)"
    using assms by (auto simp: vfs_resolve_def split: option.splits if_splits)
  have f: "(i, l) \<in> set (cands (mounts v) 0 path)" "\<forall>x \<in> set (cands (mounts v) 0 path). snd x < l \<or> snd x = l \<and> fst x \<le> i"
    using foldl_pick [OF cands_sorted, of "mounts v" 0 path] b by (simp_all add: best_mount_pick)
  obtain mp where mp: "l = length mp" "mounted (mounts v) i mp path" using f(1) by (auto simp: cands_iff)
  have mx: "length mp' < length mp \<or> length mp' = length mp \<and> j \<le> i" if "mounted (mounts v) j mp' path" for j mp'
    using f(2) that cands_iff [of j "length mp'" "mounts v" 0 path] mp(1) by force
  have "drop l path = [] \<longleftrightarrow> path = mp" if "\<not> l \<le> 1"
  proof -
    have m: "take (length mp) path = mp" using mp that by (auto simp: mounted_def mount_matches_def split: if_splits)
    show ?thesis
    proof
      assume "drop l path = []"
      then show "path = mp" using m mp(1) by (metis append_Nil2 append_take_drop_id)
    qed (simp add: mp(1))
  qed
  then show thesis using that [OF mp(2) mx] rel mp(1) by (auto split: if_splits)
qed

lemma vfs_resolve_none: "vfs_resolve v path = (None, rel) \<Longrightarrow> \<not> mounted (mounts v) j mp path"
  using foldl_pick [OF cands_sorted, of "mounts v" 0 path] cands_iff [of j "length mp" "mounts v" 0 path]
  by (auto simp: vfs_resolve_def best_mount_pick split: option.splits if_splits)


section \<open>Pins and unmounting\<close>

text \<open>
  Threads between \<open>vfs_acquire\<close> and \<open>vfs_release\<close>: each holds the slot it resolved.  The provider
  call happens in between; \<open>vfs_mount_at\<close> and \<open>vfs_umount\<close> run at any time.
\<close>

inductive vfs_step :: "'w vfs \<times> (nat \<Rightarrow> nat option) \<Rightarrow> 'w vfs \<times> (nat \<Rightarrow> nat option) \<Rightarrow> bool" where
  vs_acquire: "pin t = None \<Longrightarrow> vfs_acquire path v = ((mnt, rel), v') \<Longrightarrow> vfs_step (v, pin) (v', pin(t := mnt))"
| vs_provider: "pin t = Some i \<Longrightarrow> vfs_step (v, pin) (v\<lparr>world := w\<rparr>, pin)"
| vs_release: "pin t = Some i \<Longrightarrow> vfs_step (v, pin) (vfs_release (Some i) v, pin(t := None))"
| vs_mount: "vfs_mount_at mp ops priv v = (rc, v') \<Longrightarrow> vfs_step (v, pin) (v', pin)"
| vs_umount: "vfs_umount mp v = (rc, v') \<Longrightarrow> vfs_step (v, pin) (v', pin)"

inductive vfs_reach :: "'w vfs \<Rightarrow> 'w vfs \<times> (nat \<Rightarrow> nat option) \<Rightarrow> bool" for v0 where
  vr_start: "vfs_reach v0 (v0, \<lambda>_. None)"
| vr_next: "vfs_reach v0 s \<Longrightarrow> vfs_step s s' \<Longrightarrow> vfs_reach v0 s'"

definition pinners :: "(nat \<Rightarrow> nat option) \<Rightarrow> nat \<Rightarrow> nat set" where
  "pinners pin i = {t. pin t = Some i}"

text \<open>Between operations, a mount in use has operations, and nobody holds a pin.\<close>

definition mounts_idle :: "'w vfs \<Rightarrow> bool" where
  "mounts_idle v \<longleftrightarrow> length (mounts v) = VFS_MAX_MOUNTS
     \<and> (\<forall>m \<in> set (mounts v). m_active m = 0 \<and> (m_in_use m \<longrightarrow> m_ops m \<noteq> None))"

definition pins_ok :: "'w vfs \<Rightarrow> (nat \<Rightarrow> nat option) \<Rightarrow> bool" where
  "pins_ok v pin \<longleftrightarrow> length (mounts v) = VFS_MAX_MOUNTS \<and> (\<forall>i. finite (pinners pin i))
     \<and> (\<forall>i < VFS_MAX_MOUNTS. m_active (mounts v ! i) = int (card (pinners pin i))
          \<and> (m_in_use (mounts v ! i) \<longrightarrow> m_ops (mounts v ! i) \<noteq> None))
     \<and> (\<forall>t i. pin t = Some i \<longrightarrow> i < VFS_MAX_MOUNTS \<and> m_in_use (mounts v ! i))"

lemma pinners_upd:
  "pinners (pin(t := Some j)) i = (if i = j then insert t (pinners pin i) else pinners pin i - {t})"
  "pinners (pin(t := None)) i = pinners pin i - {t}"
  by (auto simp: pinners_def)

lemma free_slot_some: "free_slot ms k = Some i \<Longrightarrow> k \<le> i \<and> i < k + length ms \<and> \<not> m_in_use (ms ! (i - k))"
  by (induction ms k rule: free_slot.induct) (auto simp: nth_Cons' split: if_splits)

lemma find_mount_some: "find_mount ms k mp = Some i \<Longrightarrow> k \<le> i \<and> i < k + length ms \<and> m_point (ms ! (i - k)) = Some mp"
  by (induction ms k mp rule: find_mount.induct) (auto simp: nth_Cons' split: if_splits)

lemma pins_ok_acquire:
  assumes "pins_ok v pin" and "pin t = None" and "vfs_acquire path v = ((mnt, rel), v')"
  shows "pins_ok v' (pin(t := mnt))"
proof (cases mnt)
  case None
  then have "v' = v" using assms(3) by (auto simp: vfs_acquire_def split: prod.splits option.splits)
  moreover have "pin(t := mnt) = pin" using None assms(2) by (auto simp: fun_eq_iff)
  ultimately show ?thesis using assms(1) by simp
next
  case (Some i)
  then have r: "vfs_resolve v path = (Some i, rel)"
    and v': "v' = v\<lparr>mounts := (mounts v)[i := (mounts v ! i)\<lparr>m_active := m_active (mounts v ! i) + 1\<rparr>]\<rparr>"
    using assms(3) by (auto simp: vfs_acquire_def split: prod.splits option.splits)
  obtain mp where "mounted (mounts v) i mp path" by (rule vfs_resolve_some [OF r])
  then have i: "i < VFS_MAX_MOUNTS" "m_in_use (mounts v ! i)" using assms(1) by (auto simp: mounted_def pins_ok_def)
  have t: "t \<notin> pinners pin j" for j using assms(2) by (simp add: pinners_def)
  have c: "card (insert t (pinners pin i)) = Suc (card (pinners pin i))" using t assms(1) by (simp add: pins_ok_def)
  show ?thesis using assms(1) i Some c t unfolding pins_ok_def v'
    by (auto simp: pinners_upd nth_list_update)
qed

lemma pins_ok_release:
  assumes "pins_ok v pin" and "pin t = Some i"
  shows "pins_ok (vfs_release (Some i) v) (pin(t := None))"
proof -
  have i: "i < VFS_MAX_MOUNTS" "finite (pinners pin i)" using assms by (auto simp: pins_ok_def)
  have t: "t \<in> pinners pin i" "\<And>j. j \<noteq> i \<Longrightarrow> t \<notin> pinners pin j" using assms(2) by (auto simp: pinners_def)
  have c: "int (card (pinners pin i - {t})) = int (card (pinners pin i)) - 1"
    using card.remove [OF i(2) t(1)] by simp
  show ?thesis using assms i c t unfolding pins_ok_def vfs_release_def
    by (auto simp: pinners_upd nth_list_update)
qed

lemma pins_ok_mount:
  assumes "pins_ok v pin" and "vfs_mount_at mp ops priv v = (rc, v')"
  shows "pins_ok v' pin"
proof (cases "v' = v")
  case False
  then obtain f point i where i: "free_slot (tl (mounts v)) 1 = Some i"
    and v': "v' = v\<lparr>mounts := (mounts v)[i := \<lparr>m_ops = Some f, m_private = priv, m_point = Some point,
                                                    m_part = 0, m_in_use = True, m_active = 0\<rparr>]\<rparr>"
    using assms(2) by (auto simp: vfs_mount_at_def split: option.splits if_splits)
  have len: "length (mounts v) = VFS_MAX_MOUNTS" using assms(1) by (simp add: pins_ok_def)
  have f: "1 \<le> i" "i < VFS_MAX_MOUNTS" "\<not> m_in_use (mounts v ! i)"
    using free_slot_some [OF i] len by (auto simp: VFS_MAX_MOUNTS_def nth_tl)
  then have "pinners pin i = {}" using assms(1) by (auto simp: pins_ok_def pinners_def)
  then show ?thesis using assms(1) f unfolding pins_ok_def v' by (auto simp: nth_list_update)
qed (use assms in simp)

lemma pins_ok_umount:
  assumes "pins_ok v pin" and "vfs_umount mp v = (rc, v')"
  shows "pins_ok v' pin"
proof (cases "mounts v' = mounts v")
  case True
  then show ?thesis using assms(1) by (simp add: pins_ok_def)
next
  case False
  then obtain point i where i: "find_mount (tl (mounts v)) 1 point = Some i" and z: "m_active (mounts v ! i) = 0"
    and v': "mounts v' = (mounts v)[i := (mounts v ! i)\<lparr>m_in_use := False, m_ops := None, m_private := 0, m_point := None\<rparr>]"
  proof -
    obtain point where p: "mp = Some point" "point \<noteq> ''/''" using False assms(2) by (cases mp) (auto simp: vfs_umount_def split: if_splits)
    obtain i where i: "find_mount (tl (mounts v)) 1 point = Some i"
      using False assms(2) p by (cases "find_mount (tl (mounts v)) 1 point") (auto simp: vfs_umount_def)
    have z: "m_active (mounts v ! i) = 0" using False assms(2) p i by (cases "m_active (mounts v ! i) = 0") (auto simp: vfs_umount_def Let_def)
    have "mounts v' = (mounts v)[i := (mounts v ! i)\<lparr>m_in_use := False, m_ops := None, m_private := 0, m_point := None\<rparr>]"
      using assms(2) p i z by (cases "Option.bind (m_ops (mounts v ! i)) fo_umount") (auto simp: vfs_umount_def Let_def)
    then show thesis using that i z by blast
  qed
  have len: "length (mounts v) = VFS_MAX_MOUNTS" using assms(1) by (simp add: pins_ok_def)
  have f: "i < VFS_MAX_MOUNTS" using find_mount_some [OF i] len by (auto simp: VFS_MAX_MOUNTS_def)
  then have "card (pinners pin i) = 0" "finite (pinners pin i)" using assms(1) z by (auto simp: pins_ok_def)
  then have "pinners pin i = {}" by simp
  then have "pin t \<noteq> Some i" for t by (auto simp: pinners_def)
  then show ?thesis using assms(1) f unfolding pins_ok_def v' by (auto simp: nth_list_update)
qed

lemma pins_ok_step: "vfs_step s s' \<Longrightarrow> pins_ok (fst s) (snd s) \<Longrightarrow> pins_ok (fst s') (snd s')"
proof (induction rule: vfs_step.induct)
  case (vs_provider pin t i v w)
  then show ?case by (simp add: pins_ok_def)
qed (auto intro: pins_ok_acquire pins_ok_release pins_ok_mount pins_ok_umount)

lemma pins_ok_reach: "vfs_reach v0 s \<Longrightarrow> mounts_idle v0 \<Longrightarrow> pins_ok (fst s) (snd s)"
proof (induction rule: vfs_reach.induct)
  case vr_start
  then show ?case by (auto simp: pins_ok_def mounts_idle_def pinners_def)
next
  case (vr_next s s')
  then show ?case using pins_ok_step by blast
qed


section \<open>Listings\<close>

lemma append_mounts_bound: "length out < sz \<Longrightarrow> length (append_mounts ms i mnt path sz out) < sz"
  by (induction ms i mnt path sz out rule: append_mounts.induct) (auto simp: Let_def split: option.splits)

section \<open>A small name space\<close>

definition dir_ops :: "unit fs_ops" where
  "dir_ops = \<lparr>fo_name = ''dir'', fo_mount = Some (\<lambda>_ w. ((0, 0), w)),
     fo_open = Some (\<lambda>_ _ w. ((0, Some \<lparr>vn_id = 1, vn_type = VFS_TYPE_DIR, vn_size = 0\<rparr>), w)), fo_read = None, fo_write = None,
     fo_list = Some (\<lambda>_ _ _ w. ((3, ''etc''), w)), fo_unlink = None, fo_create = None, fo_object_at = None, fo_umount = None\<rparr>"

definition small_vfs :: "unit vfs" where
  "small_vfs = snd (vfs_mount_at (Some ''/reg'') (Some dir_ops) 0
     (snd (vfs_try_mount_root (Some 0) ((boot_vfs ())\<lparr>fs_drivers := [dir_ops]\<rparr>))))"

lemma small_vfs_mounts:
  "mounts small_vfs = [\<lparr>m_ops = Some dir_ops, m_private = 0, m_point = Some ''/'', m_part = 0, m_in_use = True, m_active = 0\<rparr>,
     \<lparr>m_ops = Some dir_ops, m_private = 0, m_point = Some ''/reg'', m_part = 0, m_in_use = True, m_active = 0\<rparr>,
     empty_mount, empty_mount]"
  by (simp add: small_vfs_def vfs_try_mount_root_def boot_vfs_def VFS_MAX_MOUNTS_def numeral_eq_Suc empty_mount_def Let_def
      vfs_mount_at_def dir_ops_def)

text \<open>An ordinary user with all capabilities.\<close>

definition user_sched :: sched where
  "user_sched = upd_proc 0 (\<lambda>q. q\<lparr>plevel := PLVL_USER, pcaps := CAP_ALL\<rparr>) boot_sched"

section \<open>Properties\<close>

text \<open>C25. What \<open>vfs_resolve_path\<close> computes: the absolute path of at most 32 components none of which is empty,
  a dot, two dots or contains a slash, cut to the buffer; when the joined path has at most 32 ordinary
  components these are exactly the ones that removing dots and applying the parent steps from the left
  leaves.\<close>

theorem vfs_resolve_path_canonical:
  assumes "0 < sz"
  shows "\<exists>parts. vfs_resolve_path wd inp sz = Some (take (sz - 1) (path_of parts)) \<and> length parts \<le> MAX_PARTS
    \<and> (\<forall>p \<in> set parts. proper p)
    \<and> (length (filter proper (split_slash (path_temp wd inp))) \<le> MAX_PARTS \<longrightarrow> parts = normal_form (split_slash (path_temp wd inp)))"
proof -
  have "resolved_parts wd inp = normal_form (split_slash (path_temp wd inp))"
    if "length (filter proper (split_slash (path_temp wd inp))) \<le> MAX_PARTS"
    unfolding resolved_parts_def normal_form_def
    by (rule fold_push_norm) (use that split_slash_no_slash in auto)
  then show ?thesis using resolve_path_parts [OF assms, of wd inp] resolved_parts_ok [of wd inp] by blast
qed

theorem vfs_resolve_path_canonical_witness:
  "vfs_resolve_path (Some ''/home/ann'') ''../bob/./x//..'' 128 = Some ''/home/bob''"
proof -
  let ?t = "path_temp (Some ''/home/ann'') ''../bob/./x//..''"
  have s: "split_slash ?t = [[], ''home'', ''ann'', ''..'', ''bob'', ''.'', ''x'', [], ''..'']" by code_simp
  have n: "normal_form (split_slash ?t) = [''home'', ''bob'']" unfolding s by code_simp
  have "length (filter proper (split_slash ?t)) \<le> MAX_PARTS" unfolding s by code_simp
  then have "vfs_resolve_path (Some ''/home/ann'') ''../bob/./x//..'' 128 = Some (take 127 (path_of [''home'', ''bob'']))"
    using vfs_resolve_path_canonical [of 128 "Some ''/home/ann''" "''../bob/./x//..''"] n by auto
  then show ?thesis by (simp add: path_of_def slashed_def)
qed

text \<open>A canonical path that fits is its own canonical form, whatever the working directory: resolving
  twice is resolving once.\<close>

theorem vfs_resolve_path_idempotent:
  assumes "vfs_resolve_path wd inp sz = Some out" and "sz \<le> TEMP_SIZE" and "length (path_of (resolved_parts wd inp)) < sz"
  shows "vfs_resolve_path wd' out sz = Some out"
proof -
  have "0 < sz" using assms(3) by simp
  then have "out = path_of (resolved_parts wd inp)" using assms(1,3) by (simp add: resolve_path_parts)
  then show ?thesis
    using resolve_canonical [OF resolved_parts_ok(2) resolved_parts_ok(1), of wd inp sz wd'] assms(2,3) by simp
qed

theorem vfs_resolve_path_idempotent_witness:
  "vfs_resolve_path None ''/home/bob'' 128 = Some ''/home/bob''"
proof (rule vfs_resolve_path_idempotent [of "Some ''/home/ann''" "''../bob''"])
  show "vfs_resolve_path (Some ''/home/ann'') ''../bob'' 128 = Some ''/home/bob''" by code_simp
  show "length (path_of (resolved_parts (Some ''/home/ann'') ''../bob'')) < 128" by code_simp
qed (simp add: TEMP_SIZE_def)

text \<open>\<open>vfs_resolve\<close> routes a path to the mount with the longest mount point that matches it by whole
  components, the later slot among equals, and the relative path it hands over names the same place;
  it fails only when no mount matches.\<close>

theorem vfs_resolve_longest:
  "case vfs_resolve v path of
     (None, rel) \<Rightarrow> rel = path \<and> (\<nexists>j mp. mounted (mounts v) j mp path)
   | (Some i, rel) \<Rightarrow> \<exists>mp. mounted (mounts v) i mp path
       \<and> (\<nexists>j mp'. mounted (mounts v) j mp' path \<and> (length mp < length mp' \<or> length mp = length mp' \<and> i < j))
       \<and> (if length mp \<le> 1 then rel = path else mp @ rel = path \<or> path = mp \<and> rel = ''/'')"
proof (cases "vfs_resolve v path")
  case (Pair r rel)
  show ?thesis
  proof (cases r)
    case None
    then have "rel = path" using Pair by (auto simp: vfs_resolve_def split: option.splits if_splits)
    then show ?thesis using None Pair vfs_resolve_none [of v path rel] by auto
  next
    case (Some i)
    obtain mp where mp: "mounted (mounts v) i mp path"
      "\<And>j mp'. mounted (mounts v) j mp' path \<Longrightarrow> length mp' < length mp \<or> length mp' = length mp \<and> j \<le> i"
      "rel = (if length mp \<le> 1 then path else if path = mp then ''/'' else drop (length mp) path)"
      using vfs_resolve_some [of v path i rel] Pair Some by blast
    have "\<nexists>j mp'. mounted (mounts v) j mp' path \<and> (length mp < length mp' \<or> length mp = length mp' \<and> i < j)"
      using mp(2) by fastforce
    moreover have "mp @ drop (length mp) path = path" if "\<not> length mp \<le> 1"
      using mp(1) that by (auto simp: mounted_def mount_matches_def split: if_splits) (metis append_take_drop_id)
    ultimately show ?thesis using Pair Some mp(1,3) by auto
  qed
qed

text \<open>C27. With any number of path operations in flight and mounts coming and going, the slot an operation has
  pinned stays in use with its operations until it is released; unmounting a slot somebody uses is
  refused.\<close>

theorem vfs_umount_safe:
  assumes "mounts_idle v0" and "vfs_reach v0 (v, pin)" and "pin t = Some i"
  shows "i < length (mounts v) \<and> m_in_use (mounts v ! i) \<and> m_ops (mounts v ! i) \<noteq> None \<and> 0 < m_active (mounts v ! i)
    \<and> (\<forall>mp. mp \<noteq> ''/'' \<and> find_mount (tl (mounts v)) 1 mp = Some i \<longrightarrow> vfs_umount (Some mp) v = (- EBUSY, v))"
proof -
  have ok: "pins_ok v pin" using pins_ok_reach [OF assms(2,1)] by simp
  have i: "i < VFS_MAX_MOUNTS" "m_in_use (mounts v ! i)" using ok assms(3) by (auto simp: pins_ok_def)
  have "t \<in> pinners pin i" "finite (pinners pin i)" using ok assms(3) by (auto simp: pins_ok_def pinners_def)
  then have "0 < card (pinners pin i)" by (auto simp: card_gt_0_iff)
  then have a: "0 < m_active (mounts v ! i)" using ok i(1) by (simp add: pins_ok_def)
  have "m_ops (mounts v ! i) \<noteq> None" "length (mounts v) = VFS_MAX_MOUNTS" using ok i unfolding pins_ok_def by blast+
  then show ?thesis using a i by (simp add: vfs_umount_def Let_def)
qed

theorem vfs_umount_safe_witness:
  "fst (vfs_umount (Some ''/reg'') (snd (vfs_acquire ''/reg/a'' small_vfs))) = - EBUSY"
proof -
  have idle: "mounts_idle small_vfs" by (simp add: mounts_idle_def small_vfs_mounts empty_mount_def VFS_MAX_MOUNTS_def)
  obtain mnt rel v where a: "vfs_acquire ''/reg/a'' small_vfs = ((mnt, rel), v)" by (metis surj_pair)
  have m: "mnt = Some 1" using a
    by (simp add: vfs_acquire_def vfs_resolve_def small_vfs_mounts empty_mount_def mount_matches_def split: if_splits)
  have "vfs_reach small_vfs (v, (\<lambda>_. None)(0 := Some 1))"
    using vr_next [OF vr_start, OF vs_acquire [of "\<lambda>_. None" 0, OF refl a]] m by simp
  from vfs_umount_safe [OF idle this, of 0 1]
  have "\<forall>mp. mp \<noteq> ''/'' \<and> find_mount (tl (mounts v)) 1 mp = Some 1 \<longrightarrow> vfs_umount (Some mp) v = (- EBUSY, v)" by simp
  moreover have "find_mount (tl (mounts v)) 1 ''/reg'' = Some 1"
    using a m by (auto simp: vfs_acquire_def vfs_resolve_def small_vfs_mounts empty_mount_def mount_matches_def split: if_splits)
  ultimately show ?thesis using a by simp
qed

text \<open>C26. Who may write where, over the components of a resolved path: without \<open>CAP_FS_WRITE\<close> nobody below the
  machine level; with it everybody in \<open>/tmp\<close> and \<open>/var/tmp\<close>, users in \<open>/home\<close> and guests in \<open>/home/shared\<close>, and
  root everywhere except \<open>/sys/bin\<close>, \<open>/sbin\<close> and \<open>/system\<close>.\<close>

theorem vfs_write_authority:
  fixes s :: sched and p :: pref
  assumes "vfs_resolve_path wd inp sz = Some path" and "length (path_of (resolved_parts wd inp)) < sz"
  defines "ps \<equiv> resolved_parts wd inp" and "l \<equiv> plevel (procs s p)"
  shows "vfs_write_allowed s (Some p) path = 0 \<longleftrightarrow>
    l = PLVL_MACHINE \<or>
    (pcaps (procs s p) AND CAP_FS_WRITE = CAP_FS_WRITE \<and>
      (prefix [''tmp''] ps \<or> prefix [''var'', ''tmp''] ps
       \<or> prefix [''home''] ps \<and> (l < PLVL_GUEST \<or> prefix [''home'', ''shared''] ps)
       \<or> l \<le> PLVL_ROOT \<and> \<not> prefix [''sys'', ''bin''] ps \<and> \<not> prefix [''sbin''] ps \<and> \<not> prefix [''system''] ps))"
proof -
  have "0 < sz" using assms(2) by simp
  then have path: "path = path_of ps" using assms(1,2) by (simp add: resolve_path_parts ps_def)
  have pr: "\<forall>p \<in> set ps. proper p" unfolding ps_def by (rule resolved_parts_ok)
  have e: "(- EPERM :: int) \<noteq> 0" "(- EACCES :: int) \<noteq> 0" by (simp_all add: EPERM_def EACCES_def)
  have lv: "PLVL_ROOT < PLVL_GUEST" by (simp add: PLVL_ROOT_def PLVL_GUEST_def)
  show ?thesis
    unfolding vfs_write_allowed_def path Let_def tree_under [OF pr]
    using e lv by (auto simp: proc_has_cap_def proc_is_machine_def proc_is_privileged_def l_def)
qed

theorem vfs_write_authority_witness:
  "vfs_write_allowed user_sched (Some 0) ''/home/ann/x'' = 0 \<and> vfs_write_allowed user_sched (Some 0) ''/etc'' \<noteq> 0"
proof -
  have l: "plevel (procs user_sched 0) = PLVL_USER" "pcaps (procs user_sched 0) = CAP_ALL" by (simp_all add: user_sched_def upd_proc_def)
  have cap: "(CAP_ALL AND CAP_FS_WRITE :: u32) = CAP_FS_WRITE" by code_simp
  have lv: "PLVL_USER < PLVL_GUEST" "PLVL_USER \<noteq> PLVL_MACHINE" "\<not> PLVL_USER \<le> PLVL_ROOT"
    by (simp_all add: PLVL_USER_def PLVL_GUEST_def PLVL_MACHINE_def PLVL_ROOT_def)
  have r: "resolved_parts None ''/home/ann/x'' = [''home'', ''ann'', ''x'']" "resolved_parts None ''/etc'' = [''etc'']" by code_simp+
  have p: "vfs_resolve_path None ''/home/ann/x'' 128 = Some ''/home/ann/x''" "vfs_resolve_path None ''/etc'' 128 = Some ''/etc''" by code_simp+
  have "length (path_of (resolved_parts None ''/home/ann/x'')) < 128" "length (path_of (resolved_parts None ''/etc'')) < 128"
    unfolding r by code_simp+
  note a = vfs_write_authority [OF p(1) this(1), of user_sched 0] vfs_write_authority [OF p(2) this(2), of user_sched 0]
  show ?thesis using a l cap lv by (simp add: r)
qed

end
