(* ===== verification/Object.thy ===== *)
theory Object
  imports Vfs Sched
begin

text \<open>
  Kernel objects and capability handles (\<open>kernel/core/object.c\<close>): reference-counted objects, the private
  handle table of each process, acquisition by name, attenuating duplication and delegation, pipes and
  ports, object input and output, and the teardown of a process's handles.

  Objects are a store indexed by address, a handle table is a list of 32 entries or absent.  What the heap
  answers to the allocations of a call is an argument of it.  A system call that sleeps is cut at the point where it sleeps:
  it answers \<open>ISleep\<close> with its pin still held and is resumed by another pass.  The field \<open>opins\<close> records the
  pins that calls in progress hold; the code keeps them only on the kernel stack of the caller.
\<close>

unbundle bit_operations_syntax

section \<open>Constants\<close>

definition EBADF :: int where "EBADF = 9"
definition EAGAIN :: int where "EAGAIN = 11"
definition EEXIST :: int where "EEXIST = 17"
definition ENOTDIR :: int where "ENOTDIR = 20"
definition EMFILE :: int where "EMFILE = 24"
definition ENOSPC :: int where "ENOSPC = 28"
definition ESPIPE :: int where "ESPIPE = 29"
definition EPIPE :: int where "EPIPE = 32"

definition OS1_RIGHT_READ :: u32 where "OS1_RIGHT_READ = 1"
definition OS1_RIGHT_WRITE :: u32 where "OS1_RIGHT_WRITE = 2"
definition OS1_RIGHT_WAIT :: u32 where "OS1_RIGHT_WAIT = 4"
definition OS1_RIGHT_DUPLICATE :: u32 where "OS1_RIGHT_DUPLICATE = 8"
definition OS1_RIGHT_TRANSFER :: u32 where "OS1_RIGHT_TRANSFER = 16"
definition OS1_RIGHT_DESTROY :: u32 where "OS1_RIGHT_DESTROY = 32"
definition OS1_RIGHT_CREATE :: u32 where "OS1_RIGHT_CREATE = 64"
definition OS1_RIGHT_MUTATE :: u32 where "OS1_RIGHT_MUTATE = 128"

definition OS1_RIGHT_ALL :: u32 where
  "OS1_RIGHT_ALL = OS1_RIGHT_READ OR OS1_RIGHT_WRITE OR OS1_RIGHT_WAIT OR OS1_RIGHT_DUPLICATE OR
     OS1_RIGHT_TRANSFER OR OS1_RIGHT_DESTROY OR OS1_RIGHT_MUTATE"

definition NPROC_HANDLES :: nat where "NPROC_HANDLES = 32"
definition OBJ_FILE_PATH_MAX :: nat where "OBJ_FILE_PATH_MAX = 128"
definition OBJ_MAX_IO_BYTES :: nat where "OBJ_MAX_IO_BYTES = 16777216"
definition PIPE_BUF_SIZE :: nat where "PIPE_BUF_SIZE = 4096"
definition PORT_QUEUE_MAX :: nat where "PORT_QUEUE_MAX = 32"
definition PORT_NAME_MAX :: nat where "PORT_NAME_MAX = 32"
definition PORT_TABLE_MAX :: nat where "PORT_TABLE_MAX = 16"
definition IPC_MSG_SIZE :: nat where "IPC_MSG_SIZE = 88"
definition IPC_TYPE_INPUT :: int where "IPC_TYPE_INPUT = 1"

definition has_right :: "u32 \<Rightarrow> u32 \<Rightarrow> bool" where
  "has_right rights r \<longleftrightarrow> rights AND r \<noteq> 0"

section \<open>Ring buffers\<close>

record 'a ring =
  rg_buf :: "'a list"
  rg_head :: nat
  rg_tail :: nat
  rg_count :: nat

fun ring_take :: "nat \<Rightarrow> nat \<Rightarrow> 'a ring \<Rightarrow> 'a list \<times> 'a ring" where
  "ring_take cap 0 r = ([], r)"
| "ring_take cap (Suc n) r =
     (case ring_take cap n (r\<lparr>rg_head := (rg_head r + 1) mod cap\<rparr>) of
        (xs, r1) \<Rightarrow> (rg_buf r ! rg_head r # xs, r1))"

fun ring_put :: "nat \<Rightarrow> 'a list \<Rightarrow> 'a ring \<Rightarrow> 'a ring" where
  "ring_put cap [] r = r"
| "ring_put cap (x # xs) r =
     ring_put cap xs (r\<lparr>rg_buf := (rg_buf r)[rg_tail r := x], rg_tail := (rg_tail r + 1) mod cap\<rparr>)"

definition ring_get :: "nat \<Rightarrow> nat \<Rightarrow> 'a ring \<Rightarrow> 'a list \<times> 'a ring" where
  "ring_get cap n r = (case ring_take cap n r of (xs, r1) \<Rightarrow> (xs, r1\<lparr>rg_count := rg_count r1 - n\<rparr>))"

definition ring_add :: "nat \<Rightarrow> 'a list \<Rightarrow> 'a ring \<Rightarrow> 'a ring" where
  "ring_add cap xs r = (ring_put cap xs r)\<lparr>rg_count := rg_count r + length xs\<rparr>"

section \<open>Objects and handles\<close>

record kpipe =
  kp_ring :: "char ring"
  kp_readers :: int
  kp_writers :: int

record kport =
  kq_ring :: "ipc_message ring"
  kq_senders :: int
  kq_receivers :: int
  kq_owner :: int
  kq_name :: string

type_synonym oref = nat

record kobject =
  ko_type :: obj_type
  ko_ref :: int
  ko_node :: mnode
  ko_offset :: u64
  ko_path :: string
  ko_pid :: int
  ko_window :: int
  ko_pipe :: "kpipe option"
  ko_port :: "kport option"

record handle_entry =
  he_obj :: "oref option"
  he_rights :: u32

record objsys =
  objs :: "oref \<Rightarrow> kobject option"
  handles :: "pref \<Rightarrow> handle_entry list option"
  port_table :: "oref option list"
  obj_live_count :: "obj_type \<Rightarrow> u64"
  ovfs :: "kworld vfs"
  opins :: "oref list"

definition empty_entry :: handle_entry where
  "empty_entry = \<lparr>he_obj = None, he_rights = 0\<rparr>"

definition zero_kobject :: kobject where
  "zero_kobject = \<lparr>ko_type = OBJ_TYPE_NONE, ko_ref = 0, ko_node = zero_mnode, ko_offset = 0, ko_path = [], ko_pid = 0,
     ko_window = 0, ko_pipe = None, ko_port = None\<rparr>"

text \<open>The kernel state beside the objects.\<close>

definition ocur :: "objsys \<Rightarrow> pref option" where
  "ocur s = kw_cur (world (ovfs s))"

definition osched :: "objsys \<Rightarrow> sched" where
  "osched s = kw_sched (world (ovfs s))"

definition set_sched :: "sched \<Rightarrow> objsys \<Rightarrow> objsys" where
  "set_sched k s = s\<lparr>ovfs := (ovfs s)\<lparr>world := (world (ovfs s))\<lparr>kw_sched := k\<rparr>\<rparr>\<rparr>"

text \<open>The two wait queues of a pipe or port.\<close>

definition rq_of :: "oref \<Rightarrow> nat" where "rq_of ob = 2 * ob"
definition wq_of :: "oref \<Rightarrow> nat" where "wq_of ob = 2 * ob + 1"

definition owake :: "nat \<Rightarrow> objsys \<Rightarrow> objsys" where
  "owake q s = set_sched (wake_up q (osched s)) s"

definition upd_obj :: "oref \<Rightarrow> (kobject \<Rightarrow> kobject) \<Rightarrow> objsys \<Rightarrow> objsys" where
  "upd_obj ob f s = s\<lparr>objs := (objs s)(ob := map_option f (objs s ob))\<rparr>"

definition upd_pipe :: "(kpipe \<Rightarrow> kpipe) \<Rightarrow> kobject \<Rightarrow> kobject" where
  "upd_pipe f k = k\<lparr>ko_pipe := map_option f (ko_pipe k)\<rparr>"

definition upd_port :: "(kport \<Rightarrow> kport) \<Rightarrow> kobject \<Rightarrow> kobject" where
  "upd_port f k = k\<lparr>ko_port := map_option f (ko_port k)\<rparr>"

definition set_slot :: "pref \<Rightarrow> nat \<Rightarrow> handle_entry \<Rightarrow> objsys \<Rightarrow> objsys" where
  "set_slot p i e s = s\<lparr>handles := (handles s)(p := map_option (\<lambda>t. t[i := e]) (handles s p))\<rparr>"

section \<open>Ports by name, endpoint counts\<close>

definition port_named :: "objsys \<Rightarrow> string \<Rightarrow> oref option \<Rightarrow> bool" where
  "port_named s name e =
     (case Option.bind e (objs s) of
        None \<Rightarrow> False
      | Some k \<Rightarrow> (case ko_port k of None \<Rightarrow> False | Some kp \<Rightarrow> kq_name kp = name))"

definition port_find_locked :: "string \<Rightarrow> objsys \<Rightarrow> oref option" where
  "port_find_locked name s = (case find (port_named s name) (port_table s) of None \<Rightarrow> None | Some e \<Rightarrow> e)"

definition unpublish :: "oref \<Rightarrow> objsys \<Rightarrow> objsys" where
  "unpublish ob s = s\<lparr>port_table := map (\<lambda>e. if e = Some ob then None else e) (port_table s)\<rparr>"

definition port_count_read :: "oref \<Rightarrow> int \<Rightarrow> objsys \<Rightarrow> objsys" where
  "port_count_read ob delta s =
     (let s1 = upd_obj ob (upd_port (\<lambda>q. q\<lparr>kq_receivers := kq_receivers q + delta\<rparr>)) s in
      case Option.bind (objs s1 ob) ko_port of
        None \<Rightarrow> s1
      | Some q \<Rightarrow> if delta < 0 \<and> kq_receivers q = 0 then owake (wq_of ob) (unpublish ob s1) else s1)"

definition port_count_write :: "oref \<Rightarrow> int \<Rightarrow> objsys \<Rightarrow> objsys" where
  "port_count_write ob delta s =
     (let s1 = upd_obj ob (upd_port (\<lambda>q. q\<lparr>kq_senders := kq_senders q + delta\<rparr>)) s in
      case Option.bind (objs s1 ob) ko_port of
        None \<Rightarrow> s1
      | Some q \<Rightarrow> if delta < 0 \<and> kq_senders q = 0 then owake (rq_of ob) s1 else s1)"

definition pipe_count_read :: "oref \<Rightarrow> int \<Rightarrow> objsys \<Rightarrow> objsys" where
  "pipe_count_read ob delta s =
     (let s1 = upd_obj ob (upd_pipe (\<lambda>q. q\<lparr>kp_readers := kp_readers q + delta\<rparr>)) s in
      case Option.bind (objs s1 ob) ko_pipe of
        None \<Rightarrow> s1
      | Some q \<Rightarrow> if delta < 0 \<and> kp_readers q = 0 then owake (wq_of ob) s1 else s1)"

definition pipe_count_write :: "oref \<Rightarrow> int \<Rightarrow> objsys \<Rightarrow> objsys" where
  "pipe_count_write ob delta s =
     (let s1 = upd_obj ob (upd_pipe (\<lambda>q. q\<lparr>kp_writers := kp_writers q + delta\<rparr>)) s in
      case Option.bind (objs s1 ob) ko_pipe of
        None \<Rightarrow> s1
      | Some q \<Rightarrow> if delta < 0 \<and> kp_writers q = 0 then owake (rq_of ob) s1 else s1)"

definition pipe_handle_count :: "oref \<Rightarrow> u32 \<Rightarrow> int \<Rightarrow> objsys \<Rightarrow> objsys" where
  "pipe_handle_count ob rights delta s =
     (case objs s ob of
        None \<Rightarrow> s
      | Some k \<Rightarrow>
          if ko_type k = OBJ_TYPE_PORT \<and> ko_port k \<noteq> None then
            (let s1 = (if has_right rights OS1_RIGHT_READ then port_count_read ob delta s else s)
             in if has_right rights OS1_RIGHT_WRITE then port_count_write ob delta s1 else s1)
          else if ko_type k \<noteq> OBJ_TYPE_PIPE \<or> ko_pipe k = None then s
          else
            (let s1 = (if has_right rights OS1_RIGHT_READ then pipe_count_read ob delta s else s)
             in if has_right rights OS1_RIGHT_WRITE then pipe_count_write ob delta s1 else s1))"

definition pipe_readable_block :: "kpipe \<Rightarrow> bool" where
  "pipe_readable_block q \<longleftrightarrow> rg_count (kp_ring q) = 0 \<and> kp_writers q > 0"

definition pipe_writable_block :: "kpipe \<Rightarrow> bool" where
  "pipe_writable_block q \<longleftrightarrow> rg_count (kp_ring q) = PIPE_BUF_SIZE \<and> kp_readers q > 0"

definition port_readable_block :: "kport \<Rightarrow> bool" where
  "port_readable_block q \<longleftrightarrow> rg_count (kq_ring q) = 0 \<and> kq_senders q > 0"

definition port_writable_block :: "kport \<Rightarrow> bool" where
  "port_writable_block q \<longleftrightarrow> rg_count (kq_ring q) = PORT_QUEUE_MAX \<and> kq_receivers q > 0"

section \<open>Birth, death, installation\<close>

definition kobj_alloc :: "oref option \<Rightarrow> obj_type \<Rightarrow> objsys \<Rightarrow> oref option \<times> objsys" where
  "kobj_alloc a ty s =
     (case a of
        None \<Rightarrow> (None, s)
      | Some ob \<Rightarrow> (Some ob, s\<lparr>objs := (objs s)(ob \<mapsto> zero_kobject\<lparr>ko_type := ty\<rparr>),
                               obj_live_count := (obj_live_count s)(ty := obj_live_count s ty + 1)\<rparr>))"

definition kobj_free :: "oref \<Rightarrow> objsys \<Rightarrow> objsys" where
  "kobj_free ob s =
     (case objs s ob of
        None \<Rightarrow> s
      | Some k \<Rightarrow> s\<lparr>objs := (objs s)(ob := None),
                    obj_live_count := (obj_live_count s)(ko_type k := obj_live_count s (ko_type k) - 1)\<rparr>)"

definition obj_types :: "obj_type list" where
  "obj_types = [OBJ_TYPE_NONE, OBJ_TYPE_FILE, OBJ_TYPE_PROCESS, OBJ_TYPE_REGKEY, OBJ_TYPE_WINDOW, OBJ_TYPE_CONSOLE,
     OBJ_TYPE_PIPE, OBJ_TYPE_PORT]"

definition object_get_live_counts :: "nat \<Rightarrow> objsys \<Rightarrow> u64 list" where
  "object_get_live_counts mx s = map (obj_live_count s) (take mx obj_types)"

definition handles_ensure :: "bool \<Rightarrow> pref \<Rightarrow> objsys \<Rightarrow> int \<times> objsys" where
  "handles_ensure ok p s =
     (if handles s p \<noteq> None then (0, s)
      else if \<not> ok then (- ENOMEM, s)
      else (0, s\<lparr>handles := (handles s)(p \<mapsto> replicate NPROC_HANDLES empty_entry)\<rparr>))"

fun free_entry :: "handle_entry list \<Rightarrow> nat \<Rightarrow> nat option" where
  "free_entry [] i = None"
| "free_entry (e # es) i = (if he_obj e = None then Some i else free_entry es (Suc i))"

definition handle_install_locked :: "pref \<Rightarrow> oref \<Rightarrow> u32 \<Rightarrow> objsys \<Rightarrow> int \<times> objsys" where
  "handle_install_locked p ob rights s =
     (case handles s p of
        None \<Rightarrow> (- EBADF, s)
      | Some tbl \<Rightarrow>
          (case free_entry tbl 0 of
             None \<Rightarrow> (- EMFILE, s)
           | Some i \<Rightarrow>
               (int i, pipe_handle_count ob rights 1
                         (upd_obj ob (\<lambda>k. k\<lparr>ko_ref := ko_ref k + 1\<rparr>)
                           (set_slot p i \<lparr>he_obj = Some ob, he_rights = rights\<rparr> s)))))"

text \<open>Drop one reference; the last one frees the object.\<close>

definition drop_ref :: "oref \<Rightarrow> objsys \<Rightarrow> objsys" where
  "drop_ref ob s =
     (let s1 = upd_obj ob (\<lambda>k. k\<lparr>ko_ref := ko_ref k - 1\<rparr>) s in
      case objs s1 ob of
        None \<Rightarrow> s1
      | Some k \<Rightarrow> if ko_ref k \<le> 0 then kobj_free ob s1 else s1)"

definition obj_unref :: "oref \<Rightarrow> objsys \<Rightarrow> objsys" where
  "obj_unref ob s = drop_ref ob (s\<lparr>opins := remove1 ob (opins s)\<rparr>)"

text \<open>The entry of a handle of the running process, and its slot.\<close>

definition handle_slot :: "int \<Rightarrow> objsys \<Rightarrow> (pref \<times> nat \<times> oref \<times> u32) option" where
  "handle_slot h s =
     (case ocur s of
        None \<Rightarrow> None
      | Some p \<Rightarrow>
          (case handles s p of
             None \<Rightarrow> None
           | Some tbl \<Rightarrow>
               if h < 0 \<or> h \<ge> int NPROC_HANDLES then None
               else map_option (\<lambda>ob. (p, nat h, ob, he_rights (tbl ! nat h))) (he_obj (tbl ! nat h))))"

text \<open>The common end of an acquisition: install the fresh object or free it.\<close>

definition install_new :: "pref \<Rightarrow> oref \<Rightarrow> u32 \<Rightarrow> objsys \<Rightarrow> int \<times> objsys" where
  "install_new p ob rights s =
     (case handle_install_locked p ob rights s of
        (h, s1) \<Rightarrow> if h < 0 then (h, kobj_free ob s1) else (h, s1))"

definition new_object :: "oref option \<Rightarrow> obj_type \<Rightarrow> (kobject \<Rightarrow> kobject) \<Rightarrow> pref \<Rightarrow> u32 \<Rightarrow> objsys \<Rightarrow> int \<times> objsys" where
  "new_object a ty init p rights s =
     (case kobj_alloc a ty s of
        (None, s1) \<Rightarrow> (- ENOMEM, s1)
      | (Some ob, s1) \<Rightarrow> install_new p ob rights (upd_obj ob init s1))"

section \<open>Acquisition by name\<close>

text \<open>What the heap answers during an acquisition: the handle table, the object, its payload, the pipe
  buffer and the bytes that happen to be in it.\<close>

record acq_env =
  ae_tbl :: bool
  ae_obj :: "oref option"
  ae_pay :: bool
  ae_buf :: bool
  ae_junk :: "nat \<Rightarrow> char"

definition OS1_NS_FS :: int where "OS1_NS_FS = 1"
definition OS1_NS_PROC :: int where "OS1_NS_PROC = 2"
definition OS1_NS_REG :: int where "OS1_NS_REG = 3"
definition OS1_NS_WIN :: int where "OS1_NS_WIN = 4"
definition OS1_NS_PORT :: int where "OS1_NS_PORT = 5"

fun obj_type_code :: "obj_type \<Rightarrow> int" where
  "obj_type_code OBJ_TYPE_NONE = 0"
| "obj_type_code OBJ_TYPE_FILE = 1"
| "obj_type_code OBJ_TYPE_PROCESS = 2"
| "obj_type_code OBJ_TYPE_REGKEY = 3"
| "obj_type_code OBJ_TYPE_WINDOW = 4"
| "obj_type_code OBJ_TYPE_CONSOLE = 5"
| "obj_type_code OBJ_TYPE_PIPE = 6"
| "obj_type_code OBJ_TYPE_PORT = 7"

definition set_vfs :: "kworld vfs \<Rightarrow> objsys \<Rightarrow> objsys" where
  "set_vfs v s = s\<lparr>ovfs := v\<rparr>"

text \<open>Resolve a path to its typed object, or create the file first when that was asked for.\<close>

definition fs_resolve :: "pref \<Rightarrow> string \<Rightarrow> u32 \<Rightarrow> bool \<Rightarrow> objsys \<Rightarrow> (int + vfs_objref) \<times> objsys" where
  "fs_resolve p resolved rights want_create s =
     (case vfs_resolve_object resolved zero_objref (ovfs s) of
        ((rr, ref), v1) \<Rightarrow>
          let s1 = set_vfs v1 s in
          if rr = - 2 \<and> has_right rights (OS1_RIGHT_WRITE OR OS1_RIGHT_CREATE) then (Inl (- EISDIR), s1)
          else if rr = 0 \<or> rr = - 2 then (Inr ref, s1)
          else if \<not> want_create \<or> \<not> has_right rights OS1_RIGHT_WRITE then (Inl (- ENOENT), s1)
          else
            let cperm = vfs_write_allowed (osched s1) (Some p) resolved in
            if cperm \<noteq> 0 then (Inl cperm, s1)
            else
              (case vfs_create resolved VFS_TYPE_FILE (ovfs s1) of
                 (rc, v2) \<Rightarrow>
                   if rc \<noteq> 0 then (Inl (- EIO), set_vfs v2 s1)
                   else
                     (case vfs_resolve_object resolved ref v2 of
                        ((rr2, ref2), v3) \<Rightarrow>
                          (if rr2 \<noteq> 0 then Inl (- ENOENT) else Inr ref2, set_vfs v3 s1))))"

definition fs_file_gate :: "pref \<Rightarrow> string \<Rightarrow> u32 \<Rightarrow> vfs_objref \<Rightarrow> objsys \<Rightarrow> int" where
  "fs_file_gate p resolved rights ref s =
     (let wperm = (if has_right rights OS1_RIGHT_WRITE then vfs_write_allowed (osched s) (Some p) resolved else 0) in
      if wperm \<noteq> 0 then wperm
      else if has_right rights OS1_RIGHT_MUTATE then
        (if vn_type (mn_node (or_node ref)) \<noteq> VFS_TYPE_DIR then - ENOTDIR
         else vfs_write_allowed (osched s) (Some p) resolved)
      else 0)"

definition create_fs :: "acq_env \<Rightarrow> pref \<Rightarrow> string \<Rightarrow> u32 \<Rightarrow> bool \<Rightarrow> objsys \<Rightarrow> int \<times> objsys" where
  "create_fs ae p kpath rights want_create s =
     (let resolved = the (vfs_resolve_path (Some (cwd (procs (osched s) p))) kpath OBJ_FILE_PATH_MAX) in
      case fs_resolve p resolved rights want_create s of
        (Inl e, s1) \<Rightarrow> (e, s1)
      | (Inr ref, s1) \<Rightarrow>
          if or_type ref = OBJ_TYPE_FILE then
            (let perm = fs_file_gate p resolved rights ref s1 in
             if perm \<noteq> 0 then (perm, s1)
             else new_object (ae_obj ae) OBJ_TYPE_FILE
                    (\<lambda>k. k\<lparr>ko_node := or_node ref, ko_offset := 0, ko_path := take (OBJ_FILE_PATH_MAX - 1) resolved\<rparr>)
                    p rights s1)
          else if or_type ref = OBJ_TYPE_PROCESS then
            (if has_right rights (OS1_RIGHT_DESTROY OR OS1_RIGHT_WRITE)
                \<and> \<not> process_kill_allowed (osched s1) (Some p) (or_pid ref)
             then (- EPERM, s1)
             else new_object (ae_obj ae) OBJ_TYPE_PROCESS (\<lambda>k. k\<lparr>ko_pid := or_pid ref\<rparr>) p rights s1)
          else (- EINVAL, s1))"

fun free_port :: "oref option list \<Rightarrow> nat \<Rightarrow> nat option" where
  "free_port [] i = None"
| "free_port (e # es) i = (if e = None then Some i else free_port es (Suc i))"

text \<open>
  A port is acquired in two critical sections.  The first looks the name up, installs a sending handle, or
  chooses the slot to publish in; the second publishes, after an allocation without the lock.
\<close>

definition port_lookup :: "pref \<Rightarrow> string \<Rightarrow> u32 \<Rightarrow> objsys \<Rightarrow> (int \<times> objsys) + nat" where
  "port_lookup p kpath rights s =
     (let existing = port_find_locked kpath s in
      if \<not> has_right rights OS1_RIGHT_READ then
        (case existing of
           None \<Rightarrow> Inl (- ENOENT, s)
         | Some ob \<Rightarrow> Inl (handle_install_locked p ob (rights AND NOT OS1_RIGHT_READ) s))
      else if existing \<noteq> None then Inl (- EEXIST, s)
      else case free_port (port_table s) 0 of
             None \<Rightarrow> Inl (- ENOSPC, s)
           | Some slot \<Rightarrow> Inr slot)"

definition zero_ipc :: ipc_message where
  "zero_ipc = \<lparr>msg_from = 0, msg_type = 0, msg_data1 = 0, msg_data2 = 0, msg_payload = replicate 64 0\<rparr>"

definition new_kport :: "int \<Rightarrow> string \<Rightarrow> kport" where
  "new_kport owner name = \<lparr>kq_ring = \<lparr>rg_buf = replicate PORT_QUEUE_MAX zero_ipc, rg_head = 0, rg_tail = 0, rg_count = 0\<rparr>,
     kq_senders = 0, kq_receivers = 0, kq_owner = owner, kq_name = take (PORT_NAME_MAX - 1) name\<rparr>"

definition port_publish :: "acq_env \<Rightarrow> pref \<Rightarrow> nat \<Rightarrow> string \<Rightarrow> u32 \<Rightarrow> objsys \<Rightarrow> int \<times> objsys" where
  "port_publish ae p slot kpath rights s =
     (let me = pid (procs (osched s) p) in
      if \<not> ae_pay ae then (- ENOMEM, s)
      else
        (case kobj_alloc (ae_obj ae) OBJ_TYPE_PORT s of
           (None, s1) \<Rightarrow> (- ENOMEM, s1)
         | (Some ob, s1) \<Rightarrow>
             let s2 = upd_obj ob (\<lambda>k. k\<lparr>ko_port := Some (new_kport me kpath), ko_pid := me\<rparr>) s1 in
             if port_find_locked kpath s2 \<noteq> None then (- EEXIST, kobj_free ob s2)
             else
               (case handle_install_locked p ob rights s2 of
                  (h, s3) \<Rightarrow>
                    if h < 0 then (h, kobj_free ob s3)
                    else (h, s3\<lparr>port_table := (port_table s3)[slot := Some ob]\<rparr>))))"

definition create_port :: "acq_env \<Rightarrow> pref \<Rightarrow> string \<Rightarrow> u32 \<Rightarrow> objsys \<Rightarrow> int \<times> objsys" where
  "create_port ae p kpath rights s =
     (case port_lookup p kpath rights s of
        Inl r \<Rightarrow> r
      | Inr slot \<Rightarrow> port_publish ae p slot kpath rights s)"

definition create_proc :: "acq_env \<Rightarrow> pref \<Rightarrow> string \<Rightarrow> u32 \<Rightarrow> objsys \<Rightarrow> int \<times> objsys" where
  "create_proc ae p kpath rights s =
     (let n = atoi_str kpath in
      if n \<le> 0 then (- EINVAL, s)
      else if has_right rights (OS1_RIGHT_DESTROY OR OS1_RIGHT_WRITE)
              \<and> \<not> process_kill_allowed (osched s) (Some p) n then (- EPERM, s)
      else if process_find_by_pid (osched s) n = None then (- ESRCH, s)
      else new_object (ae_obj ae) OBJ_TYPE_PROCESS (\<lambda>k. k\<lparr>ko_pid := n\<rparr>) p rights s)"

definition create_reg :: "acq_env \<Rightarrow> pref \<Rightarrow> string \<Rightarrow> u32 \<Rightarrow> objsys \<Rightarrow> int \<times> objsys" where
  "create_reg ae p kpath rights s =
     (if has_right rights OS1_RIGHT_WRITE \<and> \<not> registry_key_is_virtual (Some kpath)
         \<and> \<not> registry_write_allowed (osched s) (Some p) then (- EPERM, s)
      else if kpath = [] then (- EINVAL, s)
      else new_object (ae_obj ae) OBJ_TYPE_REGKEY (\<lambda>k. k\<lparr>ko_path := take (MAX_KEY_LEN - 1) kpath\<rparr>) p rights s)"

fun compositor_window_owner :: "window list \<Rightarrow> int \<Rightarrow> int" where
  "compositor_window_owner [] wid = - 1"
| "compositor_window_owner (w # ws) wid = (if win_id w = wid then win_pid w else compositor_window_owner ws wid)"

definition create_win :: "acq_env \<Rightarrow> pref \<Rightarrow> string \<Rightarrow> u32 \<Rightarrow> objsys \<Rightarrow> int \<times> objsys" where
  "create_win ae p kpath rights s =
     (let wid = atoi_str kpath; q = procs (osched s) p; owner = compositor_window_owner (windows (osched s)) wid in
      if wid \<le> 0 then (- EINVAL, s)
      else if owner < 0 then (- ESRCH, s)
      else if owner \<noteq> pid q \<and> has_right rights (OS1_RIGHT_WRITE OR OS1_RIGHT_DESTROY)
              \<and> \<not> proc_is_machine (Some q) \<and> plevel q > PLVL_ROOT then (- EPERM, s)
      else new_object (ae_obj ae) OBJ_TYPE_WINDOW (\<lambda>k. k\<lparr>ko_window := wid, ko_pid := owner\<rparr>) p rights s)"

definition sys_handle_create :: "acq_env \<Rightarrow> int \<Rightarrow> user_str \<Rightarrow> u32 \<Rightarrow> int \<Rightarrow> objsys \<Rightarrow> int \<times> objsys" where
  "sys_handle_create ae ns upath rights0 ty s =
     (case ocur s of
        None \<Rightarrow> (- EPERM, s)
      | Some p \<Rightarrow>
          let want_create = has_right rights0 OS1_RIGHT_CREATE; rights = rights0 AND OS1_RIGHT_ALL in
          case hal_copy_string_from_user OBJ_FILE_PATH_MAX upath of
            Inl _ \<Rightarrow> (- EFAULT, s)
          | Inr kpath \<Rightarrow>
              (case handles_ensure (ae_tbl ae) p s of
                 (e, s1) \<Rightarrow>
                   if e \<noteq> 0 then (- ENOMEM, s1)
                   else if ns = OS1_NS_FS then create_fs ae p kpath rights want_create s1
                   else if ns = OS1_NS_PORT then create_port ae p kpath rights s1
                   else if ns = OS1_NS_PROC \<and> ty = obj_type_code OBJ_TYPE_PROCESS then create_proc ae p kpath rights s1
                   else if ns = OS1_NS_REG \<and> ty = obj_type_code OBJ_TYPE_REGKEY then create_reg ae p kpath rights s1
                   else if ns = OS1_NS_WIN \<and> ty = obj_type_code OBJ_TYPE_WINDOW then create_win ae p kpath rights s1
                   else (- EINVAL, s1)))"

section \<open>Duplication, closing, delegation\<close>

definition sys_handle_dup :: "int \<Rightarrow> u32 \<Rightarrow> objsys \<Rightarrow> int \<times> objsys" where
  "sys_handle_dup h new_rights s =
     (case handle_slot h s of
        None \<Rightarrow> (- EBADF, s)
      | Some (p, i, ob, r) \<Rightarrow>
          if \<not> has_right r OS1_RIGHT_DUPLICATE then (- EPERM, s)
          else handle_install_locked p ob ((new_rights AND OS1_RIGHT_ALL) AND r) s)"

definition close_slot :: "pref \<Rightarrow> nat \<Rightarrow> oref \<Rightarrow> u32 \<Rightarrow> objsys \<Rightarrow> objsys" where
  "close_slot p i ob r s = drop_ref ob (set_slot p i empty_entry (pipe_handle_count ob r (- 1) s))"

definition sys_handle_close :: "int \<Rightarrow> objsys \<Rightarrow> int \<times> objsys" where
  "sys_handle_close h s =
     (case handle_slot h s of
        None \<Rightarrow> (- EBADF, s)
      | Some (p, i, ob, r) \<Rightarrow> (0, close_slot p i ob r s))"

definition sys_cap_query :: "int \<Rightarrow> objsys \<Rightarrow> int" where
  "sys_cap_query h s =
     (case handle_slot h s of
        None \<Rightarrow> - EBADF
      | Some (p, i, ob, r) \<Rightarrow>
          (obj_type_code (ko_type (the (objs s ob))) mod 256) * 2 ^ 24 + uint (r AND 0x00FFFFFF))"

definition sys_cap_grant :: "int \<Rightarrow> int \<Rightarrow> u32 \<Rightarrow> objsys \<Rightarrow> int \<times> objsys" where
  "sys_cap_grant target_pid h rights s =
     (case ocur s of
        None \<Rightarrow> (- EBADF, s)
      | Some p \<Rightarrow>
          if handles s p = None \<or> h < 0 \<or> h \<ge> int NPROC_HANDLES then (- EBADF, s)
          else if \<not> process_ipc_allowed (osched s) (Some p) target_pid then (- EPERM, s)
          else
            (case process_find_by_pid (osched s) target_pid of
               None \<Rightarrow> (- ESRCH, s)
             | Some tgt \<Rightarrow>
                 if handles s tgt = None then (- ENOMEM, s)
                 else
                   (case handle_slot h s of
                      None \<Rightarrow> (- EBADF, s)
                    | Some (_, i, ob, r) \<Rightarrow>
                        if \<not> has_right r OS1_RIGHT_TRANSFER then (- EPERM, s)
                        else handle_install_locked tgt ob ((rights AND OS1_RIGHT_ALL) AND r) s)))"

section \<open>Pipes and pins\<close>

definition new_kpipe :: "(nat \<Rightarrow> char) \<Rightarrow> kpipe" where
  "new_kpipe junk = \<lparr>kp_ring = \<lparr>rg_buf = map junk [0..<PIPE_BUF_SIZE], rg_head = 0, rg_tail = 0, rg_count = 0\<rparr>,
     kp_readers = 0, kp_writers = 0\<rparr>"

text \<open>\<open>copy_ok\<close>: the two indices could be written to the caller.\<close>

definition sys_pipe :: "acq_env \<Rightarrow> bool \<Rightarrow> objsys \<Rightarrow> (int \<times> (int \<times> int) option) \<times> objsys" where
  "sys_pipe ae copy_ok s =
     (case ocur s of
        None \<Rightarrow> ((- EPERM, None), s)
      | Some p \<Rightarrow>
          (case handles_ensure (ae_tbl ae) p s of
             (e, s1) \<Rightarrow>
               if e \<noteq> 0 \<or> \<not> ae_pay ae \<or> \<not> ae_buf ae then ((- ENOMEM, None), s1)
               else
                 (case kobj_alloc (ae_obj ae) OBJ_TYPE_PIPE s1 of
                    (None, s2) \<Rightarrow> ((- ENOMEM, None), s2)
                  | (Some ob, s2) \<Rightarrow>
                      let s3 = upd_obj ob (\<lambda>k. k\<lparr>ko_pipe := Some (new_kpipe (ae_junk ae))\<rparr>) s2 in
                      case handle_install_locked p ob (OS1_RIGHT_READ OR OS1_RIGHT_TRANSFER OR OS1_RIGHT_DUPLICATE) s3 of
                        (rfd, s4) \<Rightarrow>
                          if rfd < 0 then ((rfd, None), kobj_free ob s4)
                          else
                            (case handle_install_locked p ob (OS1_RIGHT_WRITE OR OS1_RIGHT_TRANSFER OR OS1_RIGHT_DUPLICATE) s4 of
                               (wfd, s5) \<Rightarrow>
                                 if wfd < 0 then ((wfd, None), snd (sys_handle_close rfd s5))
                                 else if \<not> copy_ok
                                 then ((- EFAULT, None), snd (sys_handle_close wfd (snd (sys_handle_close rfd s5))))
                                 else ((0, Some (rfd, wfd)), s5)))))"

definition pin_handle :: "int \<Rightarrow> u32 \<Rightarrow> objsys \<Rightarrow> (int + oref) \<times> objsys" where
  "pin_handle h need s =
     (case handle_slot h s of
        None \<Rightarrow> (Inl (- EBADF), s)
      | Some (p, i, ob, r) \<Rightarrow>
          if r AND need \<noteq> need then (Inl (- EPERM), s)
          else (Inr ob, (upd_obj ob (\<lambda>k. k\<lparr>ko_ref := ko_ref k + 1\<rparr>) s)\<lparr>opins := ob # opins s\<rparr>))"

text \<open>A system call that pins a handle, acts on the object and drops the pin.\<close>

definition with_pin :: "int \<Rightarrow> u32 \<Rightarrow> (oref \<Rightarrow> kobject \<Rightarrow> objsys \<Rightarrow> int \<times> objsys) \<Rightarrow> objsys \<Rightarrow> int \<times> objsys" where
  "with_pin h need f s =
     (case pin_handle h need s of
        (Inl e, s1) \<Rightarrow> (e, s1)
      | (Inr ob, s1) \<Rightarrow> (case f ob (the (objs s1 ob)) s1 of (r, s2) \<Rightarrow> (r, obj_unref ob s2)))"

section \<open>Sending a message with capabilities\<close>

fun send_install :: "pref \<Rightarrow> int list \<Rightarrow> nat list \<Rightarrow> objsys \<Rightarrow> int \<times> nat list \<times> objsys" where
  "send_install rcv [] inst s = (0, inst, s)"
| "send_install rcv (f # fs) inst s =
     (case handle_slot f s of
        None \<Rightarrow> (- EBADF, inst, s)
      | Some (p, i, ob, r) \<Rightarrow>
          (case handle_install_locked rcv ob r s of
             (h, s1) \<Rightarrow> if h < 0 then (h, inst, s1) else send_install rcv fs (inst @ [nat h]) s1))"

definition entry_at :: "pref \<Rightarrow> nat \<Rightarrow> objsys \<Rightarrow> handle_entry" where
  "entry_at p i s = (case handles s p of None \<Rightarrow> empty_entry | Some t \<Rightarrow> t ! i)"

fun send_unwind :: "pref \<Rightarrow> nat list \<Rightarrow> oref option \<Rightarrow> objsys \<Rightarrow> oref option \<times> objsys" where
  "send_unwind rcv [] to_free s = (to_free, s)"
| "send_unwind rcv (i # is) to_free s =
     (let e = entry_at rcv i s; ob = the (he_obj e);
          s1 = upd_obj ob (\<lambda>k. k\<lparr>ko_ref := ko_ref k - 1\<rparr>) (pipe_handle_count ob (he_rights e) (- 1) s);
          tf = (case objs s1 ob of None \<Rightarrow> to_free | Some k \<Rightarrow> if ko_ref k \<le> 0 then Some ob else to_free)
      in send_unwind rcv is tf (set_slot rcv i empty_entry s1))"

definition int_bytes :: "nat \<Rightarrow> u8 list" where
  "int_bytes h = map (\<lambda>k. of_nat (h div 256 ^ k)) [0..<4]"

definition stamp_caps :: "int \<Rightarrow> nat list \<Rightarrow> ipc_message \<Rightarrow> ipc_message" where
  "stamp_caps from inst m =
     m\<lparr>msg_payload := concat (map int_bytes inst) @ drop (4 * length inst) (msg_payload m), msg_from := from\<rparr>"

definition cur_pid :: "objsys \<Rightarrow> int" where
  "cur_pid s = (case ocur s of None \<Rightarrow> 0 | Some p \<Rightarrow> pid (procs (osched s) p))"

definition port_enqueue :: "oref \<Rightarrow> ipc_message \<Rightarrow> objsys \<Rightarrow> objsys" where
  "port_enqueue ob m s = upd_obj ob (upd_port (\<lambda>q. q\<lparr>kq_ring := ring_add PORT_QUEUE_MAX [m] (kq_ring q)\<rparr>)) s"

text \<open>The section under both locks: install, enqueue, unwind.\<close>

definition send_locked :: "oref \<Rightarrow> pref \<Rightarrow> ipc_message \<Rightarrow> int list \<Rightarrow> objsys \<Rightarrow> int \<times> oref option \<times> objsys" where
  "send_locked ob rcv m fds s =
     (case send_install rcv fds [] s of
        (ret0, inst, s1) \<Rightarrow>
          let q = the (ko_port (the (objs s1 ob)));
              ret = (if ret0 \<noteq> 0 then ret0
                     else if kq_receivers q = 0 then - EPIPE
                     else if rg_count (kq_ring q) \<ge> PORT_QUEUE_MAX then - EAGAIN
                     else int IPC_MSG_SIZE)
          in if ret < 0
             then (case send_unwind rcv inst None s1 of (tf, s2) \<Rightarrow> (ret, tf, s2))
             else (ret, None, port_enqueue ob (stamp_caps (cur_pid s1) inst m) s1))"

definition send_caps_body :: "ipc_message option \<Rightarrow> int list option \<Rightarrow> oref \<Rightarrow> kobject \<Rightarrow> objsys \<Rightarrow> int \<times> objsys" where
  "send_caps_body um ufds ob k s =
     (case ko_port k of
        None \<Rightarrow> (- EINVAL, s)
      | Some kp \<Rightarrow>
          if ko_type k \<noteq> OBJ_TYPE_PORT then (- EINVAL, s)
          else
            (case (um, ufds) of
               (Some m, Some fds) \<Rightarrow>
                 (case process_find_by_pid (osched s) (kq_owner kp) of
                    None \<Rightarrow> (- ESRCH, s)
                  | Some rcv \<Rightarrow>
                      if handles s rcv = None then (- ENOMEM, s)
                      else
                        (case send_locked ob rcv m fds s of
                           (ret, tf, s1) \<Rightarrow>
                             let s2 = (case tf of None \<Rightarrow> s1 | Some x \<Rightarrow> kobj_free x s1) in
                             (ret, if ret > 0 then owake (rq_of ob) s2 else s2)))
             | _ \<Rightarrow> (- EFAULT, s)))"

text \<open>The message and the \<open>nfds\<close> handle indices are what the copies from user space delivered.\<close>

definition sys_port_send_caps :: "int \<Rightarrow> ipc_message option \<Rightarrow> int list option \<Rightarrow> int \<Rightarrow> objsys \<Rightarrow> int \<times> objsys" where
  "sys_port_send_caps h um ufds nfds s =
     (if nfds < 0 \<or> nfds > 4 then (- EINVAL, s)
      else with_pin h OS1_RIGHT_WRITE
             (send_caps_body um (if nfds = 0 then Some [] else map_option (take (nat nfds)) ufds)) s)"

section \<open>Reading\<close>

text \<open>
  What one pass of a read or write depends on outside this file: whether the copy to or from user space
  works, whether the bounce buffers could be allocated, the user's bytes, the same bytes as a message, the
  allocations of the registry, the clock, the window records, whether the caller draws its own window.
\<close>

record io_env =
  io_copy :: bool
  io_kb :: bool
  io_full :: bool
  io_bytes :: string
  io_msg :: ipc_message
  io_km :: "nat \<Rightarrow> bool"
  io_ns :: "u64 \<Rightarrow> u64"
  io_winfo :: "int \<Rightarrow> string"
  io_self :: bool

datatype io_out = ONone | OBytes string | OMsg ipc_message

datatype io_res = IRet int io_out | ISleep nat nat | IAgain nat | IFault vfs_fault

definition iret :: "int \<Rightarrow> objsys \<Rightarrow> io_res \<times> objsys" where
  "iret r s = (IRet r ONone, s)"

text \<open>Hand bytes to the caller.\<close>

definition deliver :: "io_env \<Rightarrow> string \<Rightarrow> io_res" where
  "deliver ie bs = (if bs \<noteq> [] \<and> \<not> io_copy ie then IRet (- EFAULT) ONone else IRet (int (length bs)) (OBytes bs))"

definition refresh_node :: "oref \<Rightarrow> string \<Rightarrow> objsys \<Rightarrow> objsys" where
  "refresh_node ob path s =
     (case vfs_open path (ovfs s) of
        ((rc, node), v1) \<Rightarrow>
          (case node of None \<Rightarrow> set_vfs v1 s | Some n \<Rightarrow> upd_obj ob (\<lambda>k. k\<lparr>ko_node := n\<rparr>) (set_vfs v1 s)))"

text \<open>A directory is listed whole; the offset is a cursor into the listing.\<close>

definition dir_read :: "io_env \<Rightarrow> string \<Rightarrow> u64 \<Rightarrow> nat \<Rightarrow> kworld vfs \<Rightarrow> (int \<times> string) \<times> kworld vfs" where
  "dir_read ie path off n v =
     (let want0 = off + of_nat n; want = (if want0 > of_nat OBJ_MAX_IO_BYTES then of_nat OBJ_MAX_IO_BYTES else want0) in
      if \<not> io_full ie then ((- 1, []), v)
      else
        (case vfs_list_dir path (ucast want) v of
           ((tot, out), v1) \<Rightarrow>
             if tot < 0 then ((- 1, []), v1)
             else if off \<ge> of_int tot then ((0, []), v1)
             else let got = min (nat tot - unat off) n in ((int got, take got (drop (unat off) out)), v1)))"

definition file_read :: "io_env \<Rightarrow> oref \<Rightarrow> nat \<Rightarrow> objsys \<Rightarrow> io_res \<times> objsys" where
  "file_read ie ob n s =
     (if n = 0 then iret 0 s
      else if \<not> io_kb ie then iret (- ENOMEM) s
      else
        let path = ko_path (the (objs s ob)); s1 = refresh_node ob path s; k1 = the (objs s1 ob);
            (res, v2) = (if vn_type (mn_node (ko_node k1)) = VFS_TYPE_DIR
                         then (case dir_read ie path (ko_offset k1) n (ovfs s1) of (r, v) \<Rightarrow> (Inr r, v))
                         else vfs_read (ko_node k1) (ko_offset k1) (of_nat n) (ovfs s1));
            s2 = set_vfs v2 s1
        in case res of
             Inl f \<Rightarrow> (IFault f, s2)
           | Inr (got, bs) \<Rightarrow>
               if got < 0 then iret (- EIO) s2
               else if got > 0 \<and> \<not> io_copy ie then iret (- EFAULT) s2
               else (IRet got (OBytes bs), upd_obj ob (\<lambda>k. k\<lparr>ko_offset := ko_offset k + of_int got\<rparr>) s2))"

definition regkey_read :: "io_env \<Rightarrow> kobject \<Rightarrow> nat \<Rightarrow> objsys \<Rightarrow> io_res" where
  "regkey_read ie k n s =
     (case registry_get (io_ns ie) (Some (ko_path k)) (Some MAX_VAL_LEN) (osched s, kw_reg (world (ovfs s))) of
        (rc, val) \<Rightarrow>
          if rc \<noteq> 0 then IRet (- ENOENT) ONone
          else deliver ie (take n ((case val of None \<Rightarrow> [] | Some x \<Rightarrow> x) @ [CHR 0x00])))"

definition window_read :: "io_env \<Rightarrow> kobject \<Rightarrow> nat \<Rightarrow> objsys \<Rightarrow> io_res" where
  "window_read ie k n s =
     (if \<not> list_ex (\<lambda>w. win_id w = ko_window k) (windows (osched s)) then IRet (- ESRCH) ONone
      else deliver ie (take n (io_winfo ie (ko_window k))))"

text \<open>Standard input: drain the mailbox until a key press.\<close>

lemma pop_message_shorter:
  "pop_message (Some p) n k = (Some m, k1) \<Longrightarrow> length (msg_queue (procs k1 p)) < length (msg_queue (procs k p))"
proof -
  have q: "pop_queue n ms = Some (m', r) \<Longrightarrow> length r < length ms" for ms m' r
    by (induction ms arbitrary: r) (auto split: if_splits)
  show "pop_message (Some p) n k = (Some m, k1) \<Longrightarrow> length (msg_queue (procs k1 p)) < length (msg_queue (procs k p))"
    by (auto simp: pop_message_def upd_proc_def split: option.splits dest: q)
qed

function console_drain :: "pref option \<Rightarrow> sched \<Rightarrow> ipc_message option \<times> sched" where
  "console_drain cur k =
     (case pop_message cur (- 1) k of
        (None, k1) \<Rightarrow> (None, k1)
      | (Some m, k1) \<Rightarrow> if msg_type m = IPC_TYPE_INPUT \<and> msg_data2 m \<noteq> 0 then (Some m, k1) else console_drain cur k1)"
  by pat_completeness auto
termination
proof (relation "measure (\<lambda>(cur, k). case cur of None \<Rightarrow> 0 | Some p \<Rightarrow> length (msg_queue (procs k p)))", goal_cases)
  case (2 cur k x k1 m)
  show ?case
  proof (cases cur)
    case None
    then show ?thesis using 2 by (simp add: pop_message_def)
  next
    case (Some p)
    then have "pop_message (Some p) (- 1) k = (Some m, k1)" using 2 by simp
    from pop_message_shorter [OF this] show ?thesis using Some by simp
  qed
qed simp
declare console_drain.simps [simp del]

definition console_read :: "io_env \<Rightarrow> nat \<Rightarrow> objsys \<Rightarrow> io_res \<times> objsys" where
  "console_read ie n s =
     (if n = 0 then iret 0 s
      else
        (case console_drain (ocur s) (osched s) of
           (None, k) \<Rightarrow> iret (- EAGAIN) (set_sched k s)
         | (Some m, k) \<Rightarrow> (deliver ie [char_of (unat (msg_data1 m))], set_sched k s)))"

definition process_read :: "io_env \<Rightarrow> kobject \<Rightarrow> nat \<Rightarrow> objsys \<Rightarrow> io_res" where
  "process_read ie k n s =
     (let lin = (case proc_get_lineage (osched s) (ko_pid k) of None \<Rightarrow> (0, 0) | Some l \<Rightarrow> l) in
      case proc_get_info (io_ns ie) (osched s) (ko_pid k) of
        None \<Rightarrow> IRet (- ESRCH) ONone
      | Some pi \<Rightarrow>
          let nl = [CHR 0x0A] in
          deliver ie (take n
            (''pid='' @ dec_string (ps_pid pi) @ nl @ ''name='' @ ps_name pi @ nl @
             ''state='' @ proc_state_name (ps_state pi) @ nl @ ''prio='' @ dec_string (ps_priority pi) @ nl @
             ''cpu_ms='' @ dec_string (uint (ps_cpu_time pi)) @ nl @ ''oncpu='' @ dec_string (ps_on_cpu pi) @ nl @
             ''parent='' @ dec_string (fst lin) @ nl @ ''owner='' @ dec_string (snd lin) @ nl)))"

definition port_read :: "io_env \<Rightarrow> oref \<Rightarrow> nat \<Rightarrow> objsys \<Rightarrow> io_res \<times> objsys" where
  "port_read ie ob n s =
     (case ko_port (the (objs s ob)) of
        None \<Rightarrow> iret (- EIO) s
      | Some q \<Rightarrow>
          if n < IPC_MSG_SIZE then iret (- EINVAL) s
          else if rg_count (kq_ring q) > 0 then
            (case ring_get PORT_QUEUE_MAX 1 (kq_ring q) of
               (ms, r1) \<Rightarrow>
                 (if io_copy ie then IRet (int IPC_MSG_SIZE) (OMsg (hd ms)) else IRet (- EFAULT) ONone,
                  owake (wq_of ob) (upd_obj ob (upd_port (\<lambda>x. x\<lparr>kq_ring := r1\<rparr>)) s)))
          else if kq_senders q = 0 then iret 0 s
          else (ISleep (rq_of ob) 0, s))"

definition pipe_read :: "io_env \<Rightarrow> oref \<Rightarrow> nat \<Rightarrow> objsys \<Rightarrow> io_res \<times> objsys" where
  "pipe_read ie ob n s =
     (case ko_pipe (the (objs s ob)) of
        None \<Rightarrow> iret (if n = 0 then 0 else - EIO) s
      | Some q \<Rightarrow>
          if n = 0 then iret 0 s
          else if \<not> io_kb ie then iret (- ENOMEM) s
          else if rg_count (kp_ring q) > 0 then
            (case ring_get PIPE_BUF_SIZE (min (rg_count (kp_ring q)) n) (kp_ring q) of
               (bs, r1) \<Rightarrow> (deliver ie bs, owake (wq_of ob) (upd_obj ob (upd_pipe (\<lambda>x. x\<lparr>kp_ring := r1\<rparr>)) s)))
          else if kp_writers q = 0 then iret 0 s
          else (ISleep (rq_of ob) 0, s))"

definition object_read_pass :: "io_env \<Rightarrow> oref \<Rightarrow> nat \<Rightarrow> objsys \<Rightarrow> io_res \<times> objsys" where
  "object_read_pass ie ob n s =
     (let k = the (objs s ob) in
      case ko_type k of
        OBJ_TYPE_FILE \<Rightarrow> file_read ie ob n s
      | OBJ_TYPE_REGKEY \<Rightarrow> (regkey_read ie k n s, s)
      | OBJ_TYPE_WINDOW \<Rightarrow> (window_read ie k n s, s)
      | OBJ_TYPE_CONSOLE \<Rightarrow> console_read ie n s
      | OBJ_TYPE_PROCESS \<Rightarrow> (process_read ie k n s, s)
      | OBJ_TYPE_PORT \<Rightarrow> port_read ie ob n s
      | OBJ_TYPE_PIPE \<Rightarrow> pipe_read ie ob n s
      | OBJ_TYPE_NONE \<Rightarrow> iret (- EINVAL) s)"

text \<open>The end of a pass: a call that returns drops its pin, one that sleeps or loops keeps it.\<close>

definition finish_pass :: "oref \<Rightarrow> io_res \<times> objsys \<Rightarrow> io_res \<times> objsys" where
  "finish_pass ob rs = (case rs of (IRet r out, s) \<Rightarrow> (IRet r out, obj_unref ob s) | _ \<Rightarrow> rs)"

definition sys_object_read :: "io_env \<Rightarrow> int \<Rightarrow> nat \<Rightarrow> objsys \<Rightarrow> io_res \<times> objsys" where
  "sys_object_read ie h n s =
     (if n > OBJ_MAX_IO_BYTES then iret (- EINVAL) s
      else
        (case pin_handle h OS1_RIGHT_READ s of
           (Inl e, s1) \<Rightarrow> iret e s1
         | (Inr ob, s1) \<Rightarrow> finish_pass ob (object_read_pass ie ob n s1)))"

text \<open>Falling asleep: the condition is checked again under the lock of the wait queue.\<close>

definition still_block :: "oref \<Rightarrow> nat \<Rightarrow> objsys \<Rightarrow> bool" where
  "still_block ob q s =
     (case objs s ob of
        None \<Rightarrow> False
      | Some k \<Rightarrow>
          (case (ko_type k, ko_pipe k, ko_port k) of
             (OBJ_TYPE_PIPE, Some kp, _) \<Rightarrow> if q = rq_of ob then pipe_readable_block kp else pipe_writable_block kp
           | (OBJ_TYPE_PORT, _, Some kp) \<Rightarrow> if q = rq_of ob then port_readable_block kp else port_writable_block kp
           | _ \<Rightarrow> False))"

definition object_block :: "nat \<Rightarrow> oref \<Rightarrow> nat \<Rightarrow> objsys \<Rightarrow> objsys" where
  "object_block c ob q s = set_sched (kthread_block c q (Some (still_block ob q s)) (osched s)) s"

section \<open>Writing\<close>

definition file_write :: "io_env \<Rightarrow> oref \<Rightarrow> nat \<Rightarrow> objsys \<Rightarrow> io_res \<times> objsys" where
  "file_write ie ob n s =
     (if n = 0 then iret 0 s
      else if \<not> io_kb ie then iret (- ENOMEM) s
      else if \<not> io_copy ie then iret (- EFAULT) s
      else
        let k = the (objs s ob); path = ko_path k in
        case vfs_write_file path (take n (io_bytes ie)) (ucast (ucast (ko_offset k) :: u32)) (ovfs s) of
          (wr, v1) \<Rightarrow>
            let s1 = set_vfs v1 s in
            if wr < 0 then iret (- EIO) s1
            else iret wr (refresh_node ob path (upd_obj ob (\<lambda>x. x\<lparr>ko_offset := ko_offset x + of_int wr\<rparr>) s1)))"

definition process_write :: "io_env \<Rightarrow> kobject \<Rightarrow> nat \<Rightarrow> objsys \<Rightarrow> io_res \<times> objsys" where
  "process_write ie k n s =
     (if n \<noteq> IPC_MSG_SIZE then iret (- EINVAL) s
      else if \<not> io_copy ie then iret (- EFAULT) s
      else
        (case kernel_ipc_send (io_kb ie) (ko_pid k) ((io_msg ie)\<lparr>msg_from := cur_pid s\<rparr>) (osched s) of
           (rc, t) \<Rightarrow> iret (if rc = 0 then 0 else - ESRCH) (set_sched t s)))"

definition regkey_write :: "io_env \<Rightarrow> kobject \<Rightarrow> nat \<Rightarrow> objsys \<Rightarrow> io_res \<times> objsys" where
  "regkey_write ie k n s =
     (if n = 0 \<or> n > MAX_VAL_LEN then iret (- EINVAL) s
      else if \<not> io_copy ie then iret (- EFAULT) s
      else
        let cn = (if n < MAX_VAL_LEN then n else MAX_VAL_LEN - 1);
            val = takeWhile (\<lambda>c. c \<noteq> CHR 0x00) (take cn (io_bytes ie));
            w = world (ovfs s) in
        case on_sr (registry_set (io_km ie) (ocur s) (Some (ko_path k)) (Some val) (registry_caller_owner (osched s) (ocur s))) w of
          (rc, w1) \<Rightarrow> iret (if rc = 0 then int n else rc) (s\<lparr>ovfs := (ovfs s)\<lparr>world := w1\<rparr>\<rparr>))"

text \<open>Text for a window: the caller's own, its controlling terminal, or a window that does not exist.\<close>

definition window_write_allowed :: "sched \<Rightarrow> pref option \<Rightarrow> int \<Rightarrow> bool" where
  "window_write_allowed k cur win =
     (case cur of
        None \<Rightarrow> True
      | Some p \<Rightarrow>
          let q = procs k p; owner = compositor_window_owner (windows k) win in
          proc_is_machine (Some q) \<or> win = ctty_win q \<or> owner < 0 \<or> owner = pid q)"

definition window_text_write :: "io_env \<Rightarrow> int \<Rightarrow> nat \<Rightarrow> objsys \<Rightarrow> int" where
  "window_text_write ie win n s =
     (if n = 0 then 0
      else if n > OBJ_MAX_IO_BYTES then - EINVAL
      else if win > 0 \<and> \<not> window_write_allowed (osched s) (ocur s) win then - EPERM
      else if \<not> io_kb ie then - ENOMEM
      else if \<not> io_copy ie then - EFAULT
      else int n)"

definition console_window :: "io_env \<Rightarrow> objsys \<Rightarrow> int" where
  "console_window ie s =
     (let k = osched s;
          w1 = (case ocur s of
                  None \<Rightarrow> - 1
                | Some p \<Rightarrow> if io_self ie then - 1 else compositor_get_window_by_pid (windows k) (pid (procs k p)));
          w2 = (case ocur s of None \<Rightarrow> w1 | Some p \<Rightarrow> if w1 \<le> 0 then ctty_win (procs k p) else w1)
      in if w2 \<le> 0 \<and> keyboard_focus_pid k > 0 then compositor_get_window_by_pid (windows k) (keyboard_focus_pid k) else w2)"

definition port_write :: "io_env \<Rightarrow> oref \<Rightarrow> nat \<Rightarrow> objsys \<Rightarrow> io_res \<times> objsys" where
  "port_write ie ob n s =
     (case ko_port (the (objs s ob)) of
        None \<Rightarrow> iret (- EIO) s
      | Some q \<Rightarrow>
          if n \<noteq> IPC_MSG_SIZE then iret (- EINVAL) s
          else if \<not> io_copy ie then iret (- EFAULT) s
          else if kq_receivers q = 0 then iret (- EPIPE) s
          else if rg_count (kq_ring q) < PORT_QUEUE_MAX then
            iret (int IPC_MSG_SIZE)
              (owake (rq_of ob) (port_enqueue ob ((io_msg ie)\<lparr>msg_from := cur_pid s\<rparr>) s))
          else (ISleep (wq_of ob) 0, s))"

text \<open>One turn of the loop that writes to a pipe, with \<open>don\<close> bytes already written.\<close>

definition pipe_write :: "io_env \<Rightarrow> oref \<Rightarrow> nat \<Rightarrow> nat \<Rightarrow> objsys \<Rightarrow> io_res \<times> objsys" where
  "pipe_write ie ob n don s =
     (case ko_pipe (the (objs s ob)) of
        None \<Rightarrow> iret (if n = 0 then 0 else - EIO) s
      | Some q \<Rightarrow>
          if n = 0 then iret 0 s
          else if \<not> io_kb ie then iret (- ENOMEM) s
          else if \<not> io_copy ie then iret (- EFAULT) s
          else if don \<ge> n then iret (int don) s
          else if kp_readers q = 0 then iret (if don > 0 then int don else - EPIPE) s
          else
            let space = PIPE_BUF_SIZE - rg_count (kp_ring q) in
            if space = 0 then (ISleep (wq_of ob) don, s)
            else
              let chunk = min (n - don) space; bs = take chunk (drop don (io_bytes ie)) in
              (IAgain (don + chunk),
               owake (rq_of ob) (upd_obj ob (upd_pipe (\<lambda>x. x\<lparr>kp_ring := ring_add PIPE_BUF_SIZE bs (kp_ring x)\<rparr>)) s)))"

definition object_write_pass :: "io_env \<Rightarrow> oref \<Rightarrow> nat \<Rightarrow> nat \<Rightarrow> objsys \<Rightarrow> io_res \<times> objsys" where
  "object_write_pass ie ob n don s =
     (let k = the (objs s ob) in
      case ko_type k of
        OBJ_TYPE_FILE \<Rightarrow> file_write ie ob n s
      | OBJ_TYPE_PROCESS \<Rightarrow> process_write ie k n s
      | OBJ_TYPE_REGKEY \<Rightarrow> regkey_write ie k n s
      | OBJ_TYPE_CONSOLE \<Rightarrow> iret (window_text_write ie (console_window ie s) n s) s
      | OBJ_TYPE_PORT \<Rightarrow> port_write ie ob n s
      | OBJ_TYPE_PIPE \<Rightarrow> pipe_write ie ob n don s
      | OBJ_TYPE_WINDOW \<Rightarrow> iret (- EINVAL) s
      | OBJ_TYPE_NONE \<Rightarrow> iret (- EINVAL) s)"

definition sys_object_write :: "io_env \<Rightarrow> int \<Rightarrow> nat \<Rightarrow> objsys \<Rightarrow> io_res \<times> objsys" where
  "sys_object_write ie h n s =
     (if n > OBJ_MAX_IO_BYTES then iret (- EINVAL) s
      else
        (case pin_handle h OS1_RIGHT_WRITE s of
           (Inl e, s1) \<Rightarrow> iret e s1
         | (Inr ob, s1) \<Rightarrow> finish_pass ob (object_write_pass ie ob n 0 s1)))"

section \<open>Waiting, control, seeking\<close>

text \<open>\<open>want\<close>: a pointer for the status was given.\<close>

definition sys_object_wait :: "int \<Rightarrow> bool \<Rightarrow> bool \<Rightarrow> objsys \<Rightarrow> int \<times> objsys" where
  "sys_object_wait h want copy_ok s =
     with_pin h OS1_RIGHT_WAIT
       (\<lambda>ob k t.
          if ko_type k \<noteq> OBJ_TYPE_PROCESS then (- EINVAL, t)
          else (case process_wait (ko_pid k) (osched t) of
                  (ret, code, sc) \<Rightarrow> (if want \<and> \<not> copy_ok then - EFAULT else ret, set_sched sc t))) s"

definition OBJ_CTL_KILL :: int where "OBJ_CTL_KILL = 1"
definition OBJ_CTL_MINIMIZE :: int where "OBJ_CTL_MINIMIZE = 2"
definition OBJ_CTL_RESTORE :: int where "OBJ_CTL_RESTORE = 3"
definition OBJ_CTL_FOCUS :: int where "OBJ_CTL_FOCUS = 4"
definition OBJ_CTL_CLOSE :: int where "OBJ_CTL_CLOSE = 5"
definition OBJ_CTL_SEEK :: int where "OBJ_CTL_SEEK = 6"
definition OBJ_CTL_STAT :: int where "OBJ_CTL_STAT = 7"
definition OBJ_CTL_STOP :: int where "OBJ_CTL_STOP = 8"
definition OBJ_CTL_CONT :: int where "OBJ_CTL_CONT = 9"
definition OBJ_CTL_TRUNCATE :: int where "OBJ_CTL_TRUNCATE = 10"
definition OBJ_CTL_SETOWNER :: int where "OBJ_CTL_SETOWNER = 11"
definition OBJ_CTL_MKDIR :: int where "OBJ_CTL_MKDIR = 12"
definition OBJ_CTL_UNLINK :: int where "OBJ_CTL_UNLINK = 13"

fun win_index :: "window list \<Rightarrow> int \<Rightarrow> nat \<Rightarrow> nat option" where
  "win_index [] wid i = None"
| "win_index (w # ws) wid i = (if win_id w = wid then Some i else win_index ws wid (Suc i))"

definition raise_to_front :: "window list \<Rightarrow> window \<Rightarrow> window" where
  "raise_to_front ws w =
     w\<lparr>win_z_order := foldl (\<lambda>z x. if win_id x \<noteq> 0 \<and> win_z_order x > z then win_z_order x else z) 0 ws + 1\<rparr>"

definition compositor_minimize_window :: "int \<Rightarrow> sched \<Rightarrow> int \<times> sched" where
  "compositor_minimize_window wid k =
     (case win_index (windows k) wid 0 of
        None \<Rightarrow> (- ESRCH, k)
      | Some i \<Rightarrow>
          let w = windows k ! i; ws = (windows k)[i := w\<lparr>win_visible := False\<rparr>]; k1 = k\<lparr>windows := ws\<rparr> in
          (0, if keyboard_focus_pid k = win_pid w then k1\<lparr>keyboard_focus_pid := focus_topmost (- 1) 7 ws\<rparr> else k1))"

definition compositor_restore_window :: "int \<Rightarrow> sched \<Rightarrow> int \<times> sched" where
  "compositor_restore_window wid k =
     (case win_index (windows k) wid 0 of
        None \<Rightarrow> (- ESRCH, k)
      | Some i \<Rightarrow>
          let w = (windows k ! i)\<lparr>win_visible := True\<rparr>; ws = (windows k)[i := w];
              k1 = k\<lparr>windows := ws[i := raise_to_front ws w]\<rparr> in
          if win_pid w < 0 then (- ESRCH, k1) else (0, k1\<lparr>keyboard_focus_pid := win_pid w\<rparr>))"

text \<open>Raising reads the table as the visibility update left it, so focusing a window acts as restoring it.\<close>

definition compositor_focus_window :: "int \<Rightarrow> sched \<Rightarrow> int \<times> sched" where
  "compositor_focus_window wid k =
     (case win_index (windows k) wid 0 of
        None \<Rightarrow> (- ESRCH, k)
      | Some i \<Rightarrow>
          let w0 = windows k ! i; w = (if win_visible w0 then w0 else w0\<lparr>win_visible := True\<rparr>);
              ws = (windows k)[i := w]; k1 = k\<lparr>windows := ws[i := raise_to_front ws w]\<rparr> in
          if win_pid w < 0 then (- ESRCH, k1) else (0, k1\<lparr>keyboard_focus_pid := win_pid w\<rparr>))"

definition on_sched :: "(sched \<Rightarrow> int \<times> sched) \<Rightarrow> objsys \<Rightarrow> int \<times> objsys" where
  "on_sched f t = (case f (osched t) of (r, k) \<Rightarrow> (r, set_sched k t))"

definition ctl_window :: "nat \<Rightarrow> int \<Rightarrow> oref \<Rightarrow> kobject \<Rightarrow> objsys \<Rightarrow> int \<times> objsys" where
  "ctl_window c cmd ob k t =
     (if ko_type k \<noteq> OBJ_TYPE_WINDOW then (- EINVAL, t)
      else if cmd = OBJ_CTL_MINIMIZE then on_sched (compositor_minimize_window (ko_window k)) t
      else if cmd = OBJ_CTL_RESTORE then on_sched (compositor_restore_window (ko_window k)) t
      else if cmd = OBJ_CTL_FOCUS then on_sched (compositor_focus_window (ko_window k)) t
      else (0, set_sched (process_kill_subtree c (ko_pid k) (osched t)) t))"

definition ctl_seek :: "int \<Rightarrow> oref \<Rightarrow> kobject \<Rightarrow> objsys \<Rightarrow> int \<times> objsys" where
  "ctl_seek arg ob k t =
     (if ko_type k \<noteq> OBJ_TYPE_FILE \<or> arg < 0 then (- EINVAL, t)
      else (arg, upd_obj ob (\<lambda>x. x\<lparr>ko_offset := of_int arg\<rparr>) t))"

definition ctl_setowner :: "int \<Rightarrow> oref \<Rightarrow> kobject \<Rightarrow> objsys \<Rightarrow> int \<times> objsys" where
  "ctl_setowner arg ob k t =
     (if ko_type k \<noteq> OBJ_TYPE_PROCESS \<or> arg \<le> 0 then (- EINVAL, t)
      else if ocur t = None \<or> \<not> proc_is_privileged (map_option (procs (osched t)) (ocur t)) then (- EPERM, t)
      else on_sched (\<lambda>sc. process_set_owner sc (ko_pid k) (wrap_int arg)) t)"

definition ctl_truncate :: "int \<Rightarrow> oref \<Rightarrow> kobject \<Rightarrow> objsys \<Rightarrow> int \<times> objsys" where
  "ctl_truncate arg ob k t =
     (if ko_type k \<noteq> OBJ_TYPE_FILE \<or> arg \<noteq> 0 then (- EINVAL, t)
      else
        (case vfs_write_file (ko_path k) [] 0 (ovfs t) of
           (wr, v1) \<Rightarrow>
             if wr < 0 then (- EIO, set_vfs v1 t)
             else (0, refresh_node ob (ko_path k) (upd_obj ob (\<lambda>x. x\<lparr>ko_offset := 0\<rparr>) (set_vfs v1 t)))))"

definition child_name_ok :: "string \<Rightarrow> bool" where
  "child_name_ok name \<longleftrightarrow> name \<noteq> [] \<and> name \<noteq> ''.'' \<and> name \<noteq> ''..'' \<and> CHR ''/'' \<notin> set name"

definition child_path :: "string \<Rightarrow> string \<Rightarrow> string option" where
  "child_path path name =
     (let sep = (if path = ''/'' then [] else ''/'') in
      if length path + length sep + length name \<ge> OBJ_FILE_PATH_MAX then None else Some (path @ sep @ name))"

definition ctl_namespace :: "int \<Rightarrow> int \<Rightarrow> user_str \<Rightarrow> oref \<Rightarrow> kobject \<Rightarrow> objsys \<Rightarrow> int \<times> objsys" where
  "ctl_namespace cmd arg uname ob k t =
     (if ko_type k \<noteq> OBJ_TYPE_FILE \<or> vn_type (mn_node (ko_node k)) \<noteq> VFS_TYPE_DIR then (- ENOTDIR, t)
      else if arg = 0 then (- EFAULT, t)
      else
        (case hal_copy_string_from_user OBJ_FILE_PATH_MAX uname of
           Inl _ \<Rightarrow> (- EFAULT, t)
         | Inr name \<Rightarrow>
             if \<not> child_name_ok name then (- EINVAL, t)
             else
               (case child_path (ko_path k) name of
                  None \<Rightarrow> (- EINVAL, t)
                | Some child \<Rightarrow>
                    (case (if cmd = OBJ_CTL_MKDIR then vfs_create child VFS_TYPE_DIR (ovfs t) else vfs_unlink child (ovfs t)) of
                       (r, v1) \<Rightarrow> (r, set_vfs v1 t)))))"

definition ctl_stat :: "oref \<Rightarrow> kobject \<Rightarrow> objsys \<Rightarrow> int \<times> objsys" where
  "ctl_stat ob k t =
     (if ko_type k \<noteq> OBJ_TYPE_FILE then (- EINVAL, t)
      else let t1 = refresh_node ob (ko_path k) t in
           (sint (of_nat (vn_size (mn_node (ko_node (the (objs t1 ob))))) :: u64), t1))"

text \<open>\<open>arg\<close> is a number; for the two name space verbs it is the address of \<open>uname\<close>.\<close>

definition sys_object_ctl :: "nat \<Rightarrow> int \<Rightarrow> int \<Rightarrow> int \<Rightarrow> user_str \<Rightarrow> objsys \<Rightarrow> int \<times> objsys" where
  "sys_object_ctl c h cmd arg uname s =
     (if cmd = OBJ_CTL_KILL then
        with_pin h OS1_RIGHT_DESTROY
          (\<lambda>ob k t. if ko_type k = OBJ_TYPE_PROCESS then (0, set_sched (process_kill_subtree c (ko_pid k) (osched t)) t)
                    else (- EINVAL, t)) s
      else if cmd = OBJ_CTL_STOP \<or> cmd = OBJ_CTL_CONT then
        with_pin h OS1_RIGHT_DESTROY
          (\<lambda>ob k t. if ko_type k = OBJ_TYPE_PROCESS
                    then on_sched (if cmd = OBJ_CTL_STOP then process_stop (ko_pid k) else process_cont (ko_pid k)) t
                    else (- EINVAL, t)) s
      else if cmd = OBJ_CTL_MINIMIZE \<or> cmd = OBJ_CTL_RESTORE \<or> cmd = OBJ_CTL_FOCUS \<or> cmd = OBJ_CTL_CLOSE then
        with_pin h (if cmd = OBJ_CTL_CLOSE then OS1_RIGHT_DESTROY else if cmd = OBJ_CTL_FOCUS then OS1_RIGHT_READ
                    else OS1_RIGHT_WRITE) (ctl_window c cmd) s
      else if cmd = OBJ_CTL_SEEK then with_pin h 0 (ctl_seek arg) s
      else if cmd = OBJ_CTL_SETOWNER then with_pin h OS1_RIGHT_DESTROY (ctl_setowner arg) s
      else if cmd = OBJ_CTL_TRUNCATE then with_pin h OS1_RIGHT_WRITE (ctl_truncate arg) s
      else if cmd = OBJ_CTL_MKDIR \<or> cmd = OBJ_CTL_UNLINK then with_pin h OS1_RIGHT_MUTATE (ctl_namespace cmd arg uname) s
      else if cmd = OBJ_CTL_STAT then with_pin h 0 ctl_stat s
      else (- EINVAL, s))"

definition seek_base :: "int \<Rightarrow> kobject \<Rightarrow> objsys \<Rightarrow> int \<times> objsys" where
  "seek_base whence k t =
     (if whence = 0 then (0, t)
      else if whence = 1 then (sint (ko_offset k), t)
      else if whence = 2 then
        (case vfs_stat (ko_path k) (ovfs t) of
           ((rc, st), v1) \<Rightarrow>
             (case (rc = 0, st) of
                (True, Some (sz, ty)) \<Rightarrow> (sint (of_nat sz :: u64), set_vfs v1 t)
              | _ \<Rightarrow> (sint (of_nat (vn_size (mn_node (ko_node k))) :: u64), set_vfs v1 t)))
      else (- 1, t))"

definition sys_object_lseek :: "int \<Rightarrow> int \<Rightarrow> int \<Rightarrow> objsys \<Rightarrow> int \<times> objsys" where
  "sys_object_lseek h off whence s =
     with_pin h 0
       (\<lambda>ob k t.
          if ko_type k \<noteq> OBJ_TYPE_FILE then (- ESPIPE, t)
          else (case seek_base whence k t of
                  (base, t1) \<Rightarrow>
                    let npos = sint (of_int (base + off) :: u64) in
                    if base < 0 \<or> npos < 0 then (- EINVAL, t1)
                    else (npos, upd_obj ob (\<lambda>x. x\<lparr>ko_offset := of_int npos\<rparr>) t1))) s"

section \<open>Process birth, redirection, death\<close>

definition process_install_stdio :: "acq_env \<Rightarrow> pref \<Rightarrow> objsys \<Rightarrow> int \<times> objsys" where
  "process_install_stdio ae p s =
     (case handles_ensure (ae_tbl ae) p s of
        (e, s1) \<Rightarrow>
          if e \<noteq> 0 then (- ENOMEM, s1)
          else
            (case kobj_alloc (ae_obj ae) OBJ_TYPE_CONSOLE s1 of
               (None, s2) \<Rightarrow> (- ENOMEM, s2)
             | (Some con, s2) \<Rightarrow>
                 let s3 = set_slot p 0 \<lparr>he_obj = Some con, he_rights = OS1_RIGHT_READ\<rparr> s2;
                     s4 = set_slot p 1 \<lparr>he_obj = Some con, he_rights = OS1_RIGHT_WRITE\<rparr> s3;
                     s5 = set_slot p 2 \<lparr>he_obj = Some con, he_rights = OS1_RIGHT_WRITE\<rparr> s4
                 in (0, upd_obj con (\<lambda>k. k\<lparr>ko_ref := 3\<rparr>) s5)))"

definition process_redirect_child_fd_from :: "acq_env \<Rightarrow> pref option \<Rightarrow> pref \<Rightarrow> int \<Rightarrow> int \<Rightarrow> objsys \<Rightarrow> int \<times> objsys" where
  "process_redirect_child_fd_from ae owner child child_slot parent_fd s =
     (case owner of
        None \<Rightarrow> (- EINVAL, s)
      | Some parent \<Rightarrow>
          if child_slot < 0 \<or> child_slot \<ge> int NPROC_HANDLES \<or> parent_fd < 0 \<or> parent_fd \<ge> int NPROC_HANDLES
             \<or> handles s parent = None then (- EBADF, s)
          else
            (case handles_ensure (ae_tbl ae) child s of
               (e, s1) \<Rightarrow>
                 if e \<noteq> 0 then (- ENOMEM, s1)
                 else
                   let src = entry_at parent (nat parent_fd) s1; dst = entry_at child (nat child_slot) s1 in
                   case he_obj src of
                     None \<Rightarrow> (- EBADF, s1)
                   | Some ob \<Rightarrow>
                       let s2 = pipe_handle_count ob (he_rights src) 1
                                  (upd_obj ob (\<lambda>k. k\<lparr>ko_ref := ko_ref k + 1\<rparr>)
                                    (set_slot child (nat child_slot) src s1))
                       in case he_obj dst of
                            None \<Rightarrow> (0, s2)
                          | Some old \<Rightarrow> (0, drop_ref old (pipe_handle_count old (he_rights dst) (- 1) s2))))"

definition process_redirect_child_fd :: "acq_env \<Rightarrow> pref \<Rightarrow> int \<Rightarrow> int \<Rightarrow> objsys \<Rightarrow> int \<times> objsys" where
  "process_redirect_child_fd ae child child_slot parent_fd s =
     process_redirect_child_fd_from ae (ocur s) child child_slot parent_fd s"

text \<open>The redirection list of a spawn.\<close>

record spawn_redir =
  sr_child_fd :: int
  sr_parent_fd :: int
  sr_source_pid :: int

fun spawn_redirects :: "acq_env \<Rightarrow> pref \<Rightarrow> spawn_redir list \<Rightarrow> objsys \<Rightarrow> int \<times> objsys" where
  "spawn_redirects ae child [] s = (0, s)"
| "spawn_redirects ae child (r # rs) s =
     (case (if sr_source_pid r = 0 then process_redirect_child_fd ae child (sr_child_fd r) (sr_parent_fd r) s
            else if \<not> proc_is_privileged (map_option (procs (osched s)) (ocur s)) then (- EPERM, s)
            else case process_find_by_pid (osched s) (sr_source_pid r) of
                   None \<Rightarrow> (- ESRCH, s)
                 | Some src \<Rightarrow> process_redirect_child_fd_from ae (Some src) child (sr_child_fd r) (sr_parent_fd r) s) of
        (rerr, s1) \<Rightarrow> if rerr \<noteq> 0 then (rerr, s1) else spawn_redirects ae child rs s1)"

fun destroy_loop :: "handle_entry list \<Rightarrow> objsys \<Rightarrow> objsys" where
  "destroy_loop [] s = s"
| "destroy_loop (e # es) s =
     (case he_obj e of
        None \<Rightarrow> destroy_loop es s
      | Some ob \<Rightarrow> destroy_loop es (drop_ref ob (pipe_handle_count ob (he_rights e) (- 1) s)))"

definition process_handles_destroy :: "pref \<Rightarrow> objsys \<Rightarrow> objsys" where
  "process_handles_destroy p s =
     (case handles s p of
        None \<Rightarrow> s
      | Some tbl \<Rightarrow> destroy_loop tbl (s\<lparr>handles := (handles s)(p := None)\<rparr>))"

text \<open>A write to a key object is the registry's \<open>regkey_set\<close> on the state the objects share with it.\<close>

lemma regkey_write_set:
  "regkey_write ie k n s =
     (case on_sr (regkey_set (io_km ie) (ocur s) (ko_path k) n (if io_copy ie then Some (io_bytes ie) else None)) (world (ovfs s)) of
        (rc, w1) \<Rightarrow> iret rc (s\<lparr>ovfs := (ovfs s)\<lparr>world := w1\<rparr>\<rparr>))"
  by (simp add: regkey_write_def regkey_set_def on_sr_def Let_def osched_def split: prod.split)

end
