(* ===== verification/Object_Inv.thy ===== *)
theory Object_Inv
  imports Object
begin

text \<open>
  The invariant of the capability layer: where capabilities are held, how often each object is
  referenced, and that the reference counts, the end point counts of pipes and ports, the port names and the
  counters of live objects agree with the tables.  The lemmas on acquiring, releasing and installing one
  handle and on pinning an object carry the proofs about the system calls.
\<close>

unbundle bit_operations_syntax

section \<open>The capabilities of the system\<close>

definition cap_at :: "objsys \<Rightarrow> pref \<times> nat \<Rightarrow> (oref \<times> u32) option" where
  "cap_at s k =
     (case handles s (fst k) of
        None \<Rightarrow> None
      | Some t \<Rightarrow> if snd k < length t then map_option (\<lambda>ob. (ob, he_rights (t ! snd k))) (he_obj (t ! snd k)) else None)"

definition held :: "('k \<Rightarrow> 'v option) \<Rightarrow> 'v list \<Rightarrow> ('v \<Rightarrow> bool) \<Rightarrow> int" where
  "held m X P = int (card {k. \<exists>v. m k = Some v \<and> P v}) + int (length (filter P X))"

abbreviation refs_to :: "oref \<Rightarrow> oref \<times> u32 \<Rightarrow> bool" where
  "refs_to ob \<equiv> \<lambda>v. fst v = ob"

definition with_right :: "oref \<Rightarrow> u32 \<Rightarrow> oref \<times> u32 \<Rightarrow> bool" where
  "with_right ob r v \<longleftrightarrow> fst v = ob \<and> has_right (snd v) r"

lemma held_Cons [simp]: "held m (v # X) P = held m X P + of_bool (P v)"
  by (simp add: held_def)

lemma held_nonneg: "0 \<le> held m X P"
  by (simp add: held_def)

lemma finite_where: "finite (dom m) \<Longrightarrow> finite {k. \<exists>v. m k = Some v \<and> P v}"
  by (rule finite_subset [of _ "dom m"]) auto

lemma held_put:
  assumes "finite (dom m)" "m k = None"
  shows "held (m(k \<mapsto> v)) X P = held m X P + of_bool (P v)"
proof -
  let ?A = "{k. \<exists>v. m k = Some v \<and> P v}"
  have "{j. \<exists>u. (m(k \<mapsto> v)) j = Some u \<and> P u} = (if P v then insert k ?A else ?A)"
    using assms(2) by auto
  moreover have "k \<notin> ?A" using assms(2) by simp
  ultimately show ?thesis using finite_where [OF assms(1), of P] by (simp add: held_def)
qed

lemma held_take:
  assumes "finite (dom m)" "m k = Some v"
  shows "held (m(k := None)) X P = held m X P - of_bool (P v)"
proof -
  have "m = (m(k := None))(k \<mapsto> v)" using assms(2) by auto
  moreover have "held ((m(k := None))(k \<mapsto> v)) X P = held (m(k := None)) X P + of_bool (P v)"
    by (rule held_put) (use assms in auto)
  ultimately show ?thesis by simp
qed

lemma held_mono: "finite (dom m) \<Longrightarrow> (\<And>v. P v \<Longrightarrow> Q v) \<Longrightarrow> held m X P \<le> held m X Q"
  unfolding held_def
proof (rule add_mono)
  assume "finite (dom m)" and PQ: "\<And>v. P v \<Longrightarrow> Q v"
  then show "int (card {k. \<exists>v. m k = Some v \<and> P v}) \<le> int (card {k. \<exists>v. m k = Some v \<and> Q v})"
    using finite_where [of m Q] by (auto intro!: card_mono)
  show "int (length (filter P X)) \<le> int (length (filter Q X))"
    using PQ by (induction X) auto
qed

lemma held_pos_mem:
  assumes "m k = Some v" "P v" "finite (dom m)"
  shows "0 < held m X P"
proof -
  have "k \<in> {k. \<exists>v. m k = Some v \<and> P v}" using assms by auto
  then have "0 < card {k. \<exists>v. m k = Some v \<and> P v}"
    using finite_where [OF assms(3), of P] by (auto simp: card_gt_0_iff)
  then show ?thesis by (simp add: held_def)
qed

lemma held_pos_extra: "v \<in> set X \<Longrightarrow> P v \<Longrightarrow> 0 < held m X P"
proof -
  assume "v \<in> set X" "P v"
  then have "v \<in> set (filter P X)" by simp
  then have "0 < length (filter P X)" by (rule length_pos_if_in_set)
  then show "0 < held m X P" unfolding held_def by linarith
qed

lemma held_zero:
  "held m X P = 0 \<Longrightarrow> finite (dom m) \<Longrightarrow> m k = Some v \<Longrightarrow> \<not> P v"
  using held_pos_mem [of m k v P X] by auto

section \<open>The invariant\<close>

definition pins :: "objsys \<Rightarrow> (oref \<times> u32) list" where
  "pins s = map (\<lambda>ob. (ob, 0)) (opins s)"

definition counts :: "objsys \<Rightarrow> (oref \<times> u32) list \<Rightarrow> (oref \<times> u32 \<Rightarrow> bool) \<Rightarrow> int" where
  "counts s X P = held (cap_at s) (X @ pins s) P"

definition ring_ok :: "nat \<Rightarrow> 'a ring \<Rightarrow> bool" where
  "ring_ok cap r \<longleftrightarrow> length (rg_buf r) = cap \<and> rg_head r < cap \<and> rg_count r \<le> cap
     \<and> rg_tail r = (rg_head r + rg_count r) mod cap"

definition payload_ok :: "(u32 \<Rightarrow> int) \<Rightarrow> kobject \<Rightarrow> bool" where
  "payload_ok cnt k \<longleftrightarrow>
     (ko_type k = OBJ_TYPE_PIPE \<longrightarrow>
        (\<exists>q. ko_pipe k = Some q \<and> kp_readers q = cnt OS1_RIGHT_READ \<and> kp_writers q = cnt OS1_RIGHT_WRITE
             \<and> ring_ok PIPE_BUF_SIZE (kp_ring q))) \<and>
     (ko_type k = OBJ_TYPE_PORT \<longrightarrow>
        (\<exists>q. ko_port k = Some q \<and> kq_receivers q = cnt OS1_RIGHT_READ \<and> kq_senders q = cnt OS1_RIGHT_WRITE
             \<and> ring_ok PORT_QUEUE_MAX (kq_ring q)))"

definition tables_ok :: "objsys \<Rightarrow> bool" where
  "tables_ok s \<longleftrightarrow> (\<forall>p t. handles s p = Some t \<longrightarrow> length t = NPROC_HANDLES) \<and> finite (dom (cap_at s))
     \<and> (\<forall>k v. cap_at s k = Some v \<longrightarrow> snd v AND NOT OS1_RIGHT_ALL = 0)"

definition objs_ok :: "(oref \<times> u32) list \<Rightarrow> oref set \<Rightarrow> objsys \<Rightarrow> bool" where
  "objs_ok X F s \<longleftrightarrow>
     (\<forall>ob. objs s ob = None \<longrightarrow> counts s X (refs_to ob) = 0) \<and>
     (\<forall>ob k. objs s ob = Some k \<longrightarrow>
        ko_ref k = counts s X (refs_to ob) \<and> (0 < ko_ref k \<or> ob \<in> F)
        \<and> payload_ok (\<lambda>r. counts s X (with_right ob r)) k)"

definition ports_ok :: "objsys \<Rightarrow> bool" where
  "ports_ok s \<longleftrightarrow> length (port_table s) = PORT_TABLE_MAX \<and>
     (\<forall>ob. Some ob \<in> set (port_table s) \<longrightarrow>
        (\<exists>k q. objs s ob = Some k \<and> ko_type k = OBJ_TYPE_PORT \<and> ko_port k = Some q \<and> 0 < kq_receivers q))"

definition live_ok :: "objsys \<Rightarrow> bool" where
  "live_ok s \<longleftrightarrow> finite (dom (objs s)) \<and>
     (\<forall>ty. obj_live_count s ty = of_nat (card {ob. \<exists>k. objs s ob = Some k \<and> ko_type k = ty}))"

definition caps_inv :: "(oref \<times> u32) list \<Rightarrow> oref set \<Rightarrow> objsys \<Rightarrow> bool" where
  "caps_inv X F s \<longleftrightarrow> tables_ok s \<and> objs_ok X F s \<and> ports_ok s \<and> live_ok s"

lemmas caps_inv_defs = caps_inv_def tables_ok_def objs_ok_def ports_ok_def live_ok_def

section \<open>What the primitives change\<close>

definition adj_pipe :: "u32 \<Rightarrow> int \<Rightarrow> kpipe \<Rightarrow> kpipe" where
  "adj_pipe r d q = q\<lparr>kp_readers := kp_readers q + (if has_right r OS1_RIGHT_READ then d else 0),
     kp_writers := kp_writers q + (if has_right r OS1_RIGHT_WRITE then d else 0)\<rparr>"

definition adj_port :: "u32 \<Rightarrow> int \<Rightarrow> kport \<Rightarrow> kport" where
  "adj_port r d q = q\<lparr>kq_receivers := kq_receivers q + (if has_right r OS1_RIGHT_READ then d else 0),
     kq_senders := kq_senders q + (if has_right r OS1_RIGHT_WRITE then d else 0)\<rparr>"

definition adj :: "u32 \<Rightarrow> int \<Rightarrow> kobject \<Rightarrow> kobject" where
  "adj r d k =
     (if ko_type k = OBJ_TYPE_PORT then upd_port (adj_port r d) k
      else if ko_type k = OBJ_TYPE_PIPE then upd_pipe (adj_pipe r d) k else k)"

definition last_receiver :: "u32 \<Rightarrow> int \<Rightarrow> kobject option \<Rightarrow> bool" where
  "last_receiver r d ko \<longleftrightarrow> d < 0 \<and> has_right r OS1_RIGHT_READ \<and>
     (\<exists>k q. ko = Some k \<and> ko_type k = OBJ_TYPE_PORT \<and> ko_port k = Some q \<and> kq_receivers q + d = 0)"

lemma sched_frame [simp]:
  "objs (set_sched k s) = objs s" "handles (set_sched k s) = handles s" "port_table (set_sched k s) = port_table s"
  "obj_live_count (set_sched k s) = obj_live_count s" "opins (set_sched k s) = opins s"
  by (simp_all add: set_sched_def)

lemma vfs_frame [simp]:
  "objs (set_vfs v s) = objs s" "handles (set_vfs v s) = handles s" "port_table (set_vfs v s) = port_table s"
  "obj_live_count (set_vfs v s) = obj_live_count s" "opins (set_vfs v s) = opins s"
  by (simp_all add: set_vfs_def)

lemma wake_frame [simp]:
  "objs (owake q s) = objs s" "handles (owake q s) = handles s" "port_table (owake q s) = port_table s"
  "obj_live_count (owake q s) = obj_live_count s" "opins (owake q s) = opins s"
  by (simp_all add: owake_def)

lemma upd_obj_frame [simp]:
  "handles (upd_obj ob f s) = handles s" "port_table (upd_obj ob f s) = port_table s"
  "obj_live_count (upd_obj ob f s) = obj_live_count s" "opins (upd_obj ob f s) = opins s" "ovfs (upd_obj ob f s) = ovfs s"
  "objs (upd_obj ob f s) = (objs s)(ob := map_option f (objs s ob))"
  by (simp_all add: upd_obj_def)

lemma unpublish_frame [simp]:
  "objs (unpublish ob s) = objs s" "handles (unpublish ob s) = handles s"
  "obj_live_count (unpublish ob s) = obj_live_count s" "opins (unpublish ob s) = opins s"
  by (simp_all add: unpublish_def)

lemma slot_frame [simp]:
  "objs (set_slot p i e s) = objs s" "port_table (set_slot p i e s) = port_table s"
  "obj_live_count (set_slot p i e s) = obj_live_count s" "opins (set_slot p i e s) = opins s"
  by (simp_all add: set_slot_def)

lemma count_frame [simp]:
  "handles (port_count_read ob d s) = handles s" "obj_live_count (port_count_read ob d s) = obj_live_count s"
  "opins (port_count_read ob d s) = opins s"
  "handles (port_count_write ob d s) = handles s" "obj_live_count (port_count_write ob d s) = obj_live_count s"
  "opins (port_count_write ob d s) = opins s" "port_table (port_count_write ob d s) = port_table s"
  "handles (pipe_count_read ob d s) = handles s" "obj_live_count (pipe_count_read ob d s) = obj_live_count s"
  "opins (pipe_count_read ob d s) = opins s" "port_table (pipe_count_read ob d s) = port_table s"
  "handles (pipe_count_write ob d s) = handles s" "obj_live_count (pipe_count_write ob d s) = obj_live_count s"
  "opins (pipe_count_write ob d s) = opins s" "port_table (pipe_count_write ob d s) = port_table s"
  by (simp_all add: port_count_read_def port_count_write_def pipe_count_read_def pipe_count_write_def Let_def
      split: option.split)

lemma count_objs [simp]:
  "objs (port_count_read ob d s) = (objs s)(ob := map_option (upd_port (\<lambda>q. q\<lparr>kq_receivers := kq_receivers q + d\<rparr>)) (objs s ob))"
  "objs (port_count_write ob d s) = (objs s)(ob := map_option (upd_port (\<lambda>q. q\<lparr>kq_senders := kq_senders q + d\<rparr>)) (objs s ob))"
  "objs (pipe_count_read ob d s) = (objs s)(ob := map_option (upd_pipe (\<lambda>q. q\<lparr>kp_readers := kp_readers q + d\<rparr>)) (objs s ob))"
  "objs (pipe_count_write ob d s) = (objs s)(ob := map_option (upd_pipe (\<lambda>q. q\<lparr>kp_writers := kp_writers q + d\<rparr>)) (objs s ob))"
  by (simp_all add: port_count_read_def port_count_write_def pipe_count_read_def pipe_count_write_def Let_def
      split: option.split)

lemma phc_frame [simp]:
  "handles (pipe_handle_count ob r d s) = handles s" "obj_live_count (pipe_handle_count ob r d s) = obj_live_count s"
  "opins (pipe_handle_count ob r d s) = opins s"
  by (simp_all add: pipe_handle_count_def Let_def split: option.split)

lemma phc_objs [simp]:
  "objs (pipe_handle_count ob r d s) = (objs s)(ob := map_option (adj r d) (objs s ob))"
proof (cases "objs s ob")
  case None
  then show ?thesis by (auto simp: pipe_handle_count_def)
next
  case (Some k)
  show ?thesis
    by (rule ext)
      (auto simp: pipe_handle_count_def Some Let_def adj_def upd_port_def upd_pipe_def adj_port_def adj_pipe_def
        option.map_comp comp_def split: if_splits intro!: option.map_cong kobject.equality)
qed

lemma phc_ports:
  "port_table (pipe_handle_count ob r d s) =
     (if last_receiver r d (objs s ob) then map (\<lambda>e. if e = Some ob then None else e) (port_table s) else port_table s)"
  by (auto simp: pipe_handle_count_def last_receiver_def port_count_read_def Let_def upd_port_def unpublish_def
      split: option.splits)

lemma adj_simps [simp]:
  "ko_ref (adj r d k) = ko_ref k" "ko_type (adj r d k) = ko_type k"
  by (simp_all add: adj_def upd_port_def upd_pipe_def)

lemma cap_at_cong: "handles s' = handles s \<Longrightarrow> cap_at s' = cap_at s"
  by (rule ext) (simp add: cap_at_def)

lemma counts_cong: "handles s' = handles s \<Longrightarrow> opins s' = opins s \<Longrightarrow> counts s' X P = counts s X P"
  using cap_at_cong [of s' s] by (simp add: counts_def pins_def)

lemma counts_Cons [simp]: "counts s (v # X) P = counts s X P + of_bool (P v)"
  by (simp add: counts_def)

lemma counts_nonneg: "0 \<le> counts s X P"
  by (simp add: counts_def held_nonneg)

lemma tables_cong: "handles s' = handles s \<Longrightarrow> tables_ok s' = tables_ok s"
  using cap_at_cong [of s' s] by (simp add: tables_ok_def)

lemma counts_right_le: "tables_ok s \<Longrightarrow> counts s X (with_right ob r) \<le> counts s X (refs_to ob)"
  unfolding counts_def by (rule held_mono) (simp_all add: tables_ok_def with_right_def)

lemma with_right_pair [simp]: "with_right ob R (ob', r) \<longleftrightarrow> ob' = ob \<and> has_right r R"
  by (auto simp: with_right_def)

lemma has_right_0 [simp]: "\<not> has_right 0 r"
  by (simp add: has_right_def)

lemma payload_ref [simp]: "payload_ok c (k\<lparr>ko_ref := x\<rparr>) = payload_ok c k"
  by (simp add: payload_ok_def)

lemma payload_cong: "(\<And>R. c' R = c R) \<Longrightarrow> payload_ok c' k = payload_ok c k"
  by (simp add: payload_ok_def)

lemma payload_adj:
  assumes "payload_ok c k" "\<And>R. c' R = c R + (if has_right r R then d else 0)"
  shows "payload_ok c' (adj r d k)"
  using assms by (auto simp: payload_ok_def adj_def upd_port_def upd_pipe_def adj_port_def adj_pipe_def)

lemma inv_none: "caps_inv X F s \<Longrightarrow> objs s ob = None \<Longrightarrow> counts s X (refs_to ob) = 0"
  by (simp add: caps_inv_def objs_ok_def)

lemma inv_some:
  "caps_inv X F s \<Longrightarrow> objs s ob = Some k \<Longrightarrow>
     ko_ref k = counts s X (refs_to ob) \<and> (0 < ko_ref k \<or> ob \<in> F) \<and> payload_ok (\<lambda>r. counts s X (with_right ob r)) k"
  unfolding caps_inv_def objs_ok_def by blast

lemma objs_okI:
  assumes "\<And>x. objs s x = None \<Longrightarrow> counts s X (refs_to x) = 0"
    and "\<And>x k. objs s x = Some k \<Longrightarrow>
      ko_ref k = counts s X (refs_to x) \<and> (0 < ko_ref k \<or> x \<in> F) \<and> payload_ok (\<lambda>r. counts s X (with_right x r)) k"
  shows "objs_ok X F s"
  unfolding objs_ok_def using assms by blast

lemma port_receivers_le:
  assumes "caps_inv X F s" "objs s ob = Some k" "ko_type k = OBJ_TYPE_PORT" "ko_port k = Some q"
  shows "kq_receivers q \<le> ko_ref k"
proof -
  have "kq_receivers q = counts s X (with_right ob OS1_RIGHT_READ)" "ko_ref k = counts s X (refs_to ob)"
    using inv_some [OF assms(1,2)] assms(3,4) by (auto simp: payload_ok_def)
  then show ?thesis using counts_right_le [of s X ob OS1_RIGHT_READ] assms(1) by (simp add: caps_inv_def)
qed

definition acquire :: "oref \<Rightarrow> u32 \<Rightarrow> objsys \<Rightarrow> objsys" where
  "acquire ob r s = pipe_handle_count ob r 1 (upd_obj ob (\<lambda>k. k\<lparr>ko_ref := ko_ref k + 1\<rparr>) s)"

definition unlink_ref :: "oref \<Rightarrow> u32 \<Rightarrow> objsys \<Rightarrow> objsys" where
  "unlink_ref ob r s = upd_obj ob (\<lambda>k. k\<lparr>ko_ref := ko_ref k - 1\<rparr>) (pipe_handle_count ob r (- 1) s)"

definition release :: "oref \<Rightarrow> u32 \<Rightarrow> objsys \<Rightarrow> objsys" where
  "release ob r s = drop_ref ob (pipe_handle_count ob r (- 1) s)"

lemma acquire_frame [simp]:
  "handles (acquire ob r s) = handles s" "opins (acquire ob r s) = opins s"
  "obj_live_count (acquire ob r s) = obj_live_count s"
  "objs (acquire ob r s) = (objs s)(ob := map_option (\<lambda>k. adj r 1 (k\<lparr>ko_ref := ko_ref k + 1\<rparr>)) (objs s ob))"
  by (simp_all add: acquire_def option.map_comp comp_def)

lemma acquire_ports [simp]: "port_table (acquire ob r s) = port_table s"
  by (simp add: acquire_def phc_ports last_receiver_def)

lemma unlink_frame [simp]:
  "handles (unlink_ref ob r s) = handles s" "opins (unlink_ref ob r s) = opins s"
  "obj_live_count (unlink_ref ob r s) = obj_live_count s"
  "objs (unlink_ref ob r s) = (objs s)(ob := map_option (\<lambda>k. (adj r (- 1) k)\<lparr>ko_ref := ko_ref k - 1\<rparr>) (objs s ob))"
  by (simp_all add: unlink_ref_def option.map_comp comp_def)

lemma unlink_ports:
  "port_table (unlink_ref ob r s) =
     (if last_receiver r (- 1) (objs s ob) then map (\<lambda>e. if e = Some ob then None else e) (port_table s) else port_table s)"
  by (simp add: unlink_ref_def phc_ports)

lemma live_types:
  assumes "live_ok s" "\<And>ob. map_option ko_type (objs s' ob) = map_option ko_type (objs s ob)" "obj_live_count s' = obj_live_count s"
  shows "live_ok s'"
proof -
  have "(\<exists>k. objs s' ob = Some k \<and> ko_type k = ty) \<longleftrightarrow> (\<exists>k. objs s ob = Some k \<and> ko_type k = ty)" for ob ty
    using assms(2) [of ob] by (cases "objs s' ob"; cases "objs s ob") auto
  moreover have "dom (objs s') = dom (objs s)"
    using assms(2) by (auto simp: dom_def) (metis option.map_disc_iff option.exhaust)+
  ultimately show ?thesis using assms(1,3) by (simp add: live_ok_def)
qed

lemma adj_port_of: "ko_type k = OBJ_TYPE_PORT \<Longrightarrow> ko_port k = Some q \<Longrightarrow> ko_port (adj r d k) = Some (adj_port r d q)"
  by (simp add: adj_def upd_port_def)

lemma adj_port_receivers [simp]:
  "kq_receivers (adj_port r d q) = kq_receivers q + (if has_right r OS1_RIGHT_READ then d else 0)"
  by (simp add: adj_port_def)

lemma acquire_inv:
  assumes inv: "caps_inv X F s" and ob: "objs s ob \<noteq> None"
  shows "caps_inv ((ob, r) # X) (F - {ob}) (acquire ob r s)"
  unfolding caps_inv_def
proof (intro conjI)
  let ?s = "acquire ob r s"
  have cnt: "counts ?s Y P = counts s Y P" for Y P by (rule counts_cong) simp_all
  show "tables_ok ?s" using inv by (simp add: caps_inv_def tables_cong [of ?s s])
  show "live_ok ?s" by (rule live_types [of s]) (use inv in \<open>auto simp: caps_inv_def option.map_comp comp_def\<close>)
  show "objs_ok ((ob, r) # X) (F - {ob}) ?s"
  proof (rule objs_okI)
    fix x assume "objs ?s x = None"
    then show "counts ?s ((ob, r) # X) (refs_to x) = 0"
      using inv_none [OF inv, of x] ob by (auto simp: cnt split: if_splits)
  next
    fix x k assume k: "objs ?s x = Some k"
    show "ko_ref k = counts ?s ((ob, r) # X) (refs_to x) \<and> (0 < ko_ref k \<or> x \<in> F - {ob})
        \<and> payload_ok (\<lambda>R. counts ?s ((ob, r) # X) (with_right x R)) k"
    proof (cases "x = ob")
      case False
      then show ?thesis using k inv_some [OF inv, of x k] by (auto simp: cnt)
    next
      case True
      obtain k0 where k0: "objs s ob = Some k0" using ob by auto
      have "payload_ok (\<lambda>R. counts ?s ((ob, r) # X) (with_right ob R)) (adj r 1 (k0\<lparr>ko_ref := ko_ref k0 + 1\<rparr>))"
        by (rule payload_adj [of "\<lambda>R. counts s X (with_right ob R)"])
          (use inv_some [OF inv k0] in \<open>auto simp: cnt\<close>)
      moreover have "ko_ref k0 = counts s X (refs_to ob)" using inv_some [OF inv k0] by simp
      ultimately show ?thesis using k k0 True counts_nonneg [of s X "refs_to ob"] by (auto simp: cnt)
    qed
  qed
  show "ports_ok ?s"
    unfolding ports_ok_def
  proof (intro conjI allI impI)
    show "length (port_table ?s) = PORT_TABLE_MAX" using inv by (simp add: caps_inv_def ports_ok_def)
    fix x assume "Some x \<in> set (port_table ?s)"
    then obtain k q where "objs s x = Some k" "ko_type k = OBJ_TYPE_PORT" "ko_port k = Some q" "0 < kq_receivers q"
      using inv by (auto simp: caps_inv_def ports_ok_def)
    then show "\<exists>k q. objs ?s x = Some k \<and> ko_type k = OBJ_TYPE_PORT \<and> ko_port k = Some q \<and> 0 < kq_receivers q"
      by (cases "x = ob") (simp_all add: adj_port_of)
  qed
qed

lemma free_inv:
  assumes inv: "caps_inv X F s" and ob: "objs s ob = Some k" and z: "ko_ref k \<le> 0"
  shows "caps_inv X (F - {ob}) (kobj_free ob s)"
  unfolding caps_inv_def
proof (intro conjI)
  let ?s = "kobj_free ob s"
  have f: "handles ?s = handles s" "opins ?s = opins s" "port_table ?s = port_table s" "objs ?s = (objs s)(ob := None)"
    "obj_live_count ?s = (obj_live_count s)(ko_type k := obj_live_count s (ko_type k) - 1)"
    by (simp_all add: kobj_free_def ob)
  have cnt: "counts ?s Y P = counts s Y P" for Y P by (rule counts_cong) (simp_all add: f)
  have zero: "counts s X (refs_to ob) = 0"
    using inv_some [OF inv ob] z counts_nonneg [of s X "refs_to ob"] by simp
  show "tables_ok ?s" using inv by (simp add: caps_inv_def tables_cong [of ?s s] f)
  show "objs_ok X (F - {ob}) ?s"
  proof (rule objs_okI)
    show "objs ?s x = None \<Longrightarrow> counts ?s X (refs_to x) = 0" for x
      using inv_none [OF inv, of x] zero by (auto simp: cnt f split: if_splits)
    show "ko_ref kx = counts ?s X (refs_to x) \<and> (0 < ko_ref kx \<or> x \<in> F - {ob}) \<and> payload_ok (\<lambda>r. counts ?s X (with_right x r)) kx"
      if "objs ?s x = Some kx" for x kx
      using that inv_some [OF inv, of x kx] by (auto simp: cnt f split: if_splits)
  qed
  show "ports_ok ?s"
    unfolding ports_ok_def
  proof (intro conjI allI impI)
    show "length (port_table ?s) = PORT_TABLE_MAX" using inv by (simp add: caps_inv_def ports_ok_def f)
    fix x assume "Some x \<in> set (port_table ?s)"
    then obtain kx q where x: "objs s x = Some kx" "ko_type kx = OBJ_TYPE_PORT" "ko_port kx = Some q" "0 < kq_receivers q"
      using inv by (auto simp: caps_inv_def ports_ok_def f)
    then have "x \<noteq> ob" using port_receivers_le [OF inv x(1-3)] ob z by auto
    then show "\<exists>k q. objs ?s x = Some k \<and> ko_type k = OBJ_TYPE_PORT \<and> ko_port k = Some q \<and> 0 < kq_receivers q"
      using x by (simp add: f)
  qed
  show "live_ok ?s"
    unfolding live_ok_def
  proof (intro conjI allI)
    have fin: "finite (dom (objs s))" using inv by (simp add: caps_inv_def live_ok_def)
    then show "finite (dom (objs ?s))" by (simp add: f)
    fix ty
    let ?A = "\<lambda>s. {ob. \<exists>k. objs s ob = Some k \<and> ko_type k = ty}"
    have old: "obj_live_count s ty = of_nat (card (?A s))" using inv by (simp add: caps_inv_def live_ok_def)
    have fA: "finite (?A s)" by (rule finite_subset [OF _ fin]) auto
    show "obj_live_count ?s ty = of_nat (card (?A ?s))"
    proof (cases "ty = ko_type k")
      case True
      then have "ob \<in> ?A s" and new: "?A ?s = ?A s - {ob}" using ob by (auto simp: f)
      then have "card (?A s) = Suc (card (?A ?s))" using fA card.remove [of "?A s" ob] by simp
      then show ?thesis using True old by (simp add: f)
    next
      case False
      then have "?A ?s = ?A s" using ob by (auto simp: f)
      then show ?thesis using False old by (simp add: f)
    qed
  qed
qed

lemma inv_mono:
  assumes "caps_inv X F s" "F \<subseteq> F'"
  shows "caps_inv X F' s"
  using assms unfolding caps_inv_def objs_ok_def by blast

lemma inv_shrink:
  assumes "caps_inv X F s" "objs s ob = Some k" "0 < ko_ref k"
  shows "caps_inv X (F - {ob}) s"
proof -
  have "objs_ok X (F - {ob}) s"
  proof (rule objs_okI)
    show "objs s x = None \<Longrightarrow> counts s X (refs_to x) = 0" for x using assms(1) by (rule inv_none)
    show "ko_ref kx = counts s X (refs_to x) \<and> (0 < ko_ref kx \<or> x \<in> F - {ob}) \<and> payload_ok (\<lambda>r. counts s X (with_right x r)) kx"
      if "objs s x = Some kx" for x kx
      using that inv_some [OF assms(1) that] assms(2,3) by (cases "x = ob") auto
  qed
  then show ?thesis using assms(1) by (simp add: caps_inv_def)
qed

lemma unlink_inv:
  assumes inv: "caps_inv ((ob, r) # X) F s"
  shows "caps_inv X (insert ob F) (unlink_ref ob r s)"
  unfolding caps_inv_def
proof (intro conjI)
  let ?s = "unlink_ref ob r s"
  have cnt: "counts ?s Y P = counts s Y P" for Y P by (rule counts_cong) simp_all
  obtain k0 where k0: "objs s ob = Some k0"
    using inv_none [OF inv, of ob] counts_nonneg [of s X "refs_to ob"] by (cases "objs s ob") auto
  show "tables_ok ?s" using inv by (simp add: caps_inv_def tables_cong [of ?s s])
  show "live_ok ?s" by (rule live_types [of s]) (use inv in \<open>auto simp: caps_inv_def option.map_comp comp_def\<close>)
  show "objs_ok X (insert ob F) ?s"
  proof (rule objs_okI)
    fix x assume "objs ?s x = None"
    then show "counts ?s X (refs_to x) = 0"
      using inv_none [OF inv, of x] k0 by (auto simp: cnt split: if_splits)
  next
    fix x k assume k: "objs ?s x = Some k"
    show "ko_ref k = counts ?s X (refs_to x) \<and> (0 < ko_ref k \<or> x \<in> insert ob F)
        \<and> payload_ok (\<lambda>R. counts ?s X (with_right x R)) k"
    proof (cases "x = ob")
      case False
      then show ?thesis using k inv_some [OF inv, of x k] by (auto simp: cnt)
    next
      case True
      have "payload_ok (\<lambda>R. counts ?s X (with_right ob R)) (adj r (- 1) k0)"
        by (rule payload_adj [of "\<lambda>R. counts s ((ob, r) # X) (with_right ob R)"])
          (use inv_some [OF inv k0] in \<open>auto simp: cnt\<close>)
      moreover have "ko_ref k0 = counts s X (refs_to ob) + 1" using inv_some [OF inv k0] by simp
      ultimately show ?thesis using k k0 True by (auto simp: cnt)
    qed
  qed
  show "ports_ok ?s"
    unfolding ports_ok_def
  proof (intro conjI allI impI)
    show "length (port_table ?s) = PORT_TABLE_MAX" using inv by (simp add: caps_inv_def ports_ok_def unlink_ports)
    fix x assume mem: "Some x \<in> set (port_table ?s)"
    then have "Some x \<in> set (port_table s)" by (auto simp: unlink_ports split: if_splits)
    then obtain k q where x: "objs s x = Some k" "ko_type k = OBJ_TYPE_PORT" "ko_port k = Some q" "0 < kq_receivers q"
      using inv by (auto simp: caps_inv_def ports_ok_def)
    have "x = ob \<Longrightarrow> \<not> last_receiver r (- 1) (objs s ob)" using mem by (auto simp: unlink_ports split: if_splits)
    then have "x = ob \<Longrightarrow> has_right r OS1_RIGHT_READ \<Longrightarrow> kq_receivers q \<noteq> 1" using x by (auto simp: last_receiver_def)
    then show "\<exists>k q. objs ?s x = Some k \<and> ko_type k = OBJ_TYPE_PORT \<and> ko_port k = Some q \<and> 0 < kq_receivers q"
      using x by (cases "x = ob") (auto simp: adj_port_of)
  qed
qed

lemma release_unlink:
  "release ob r s = (case objs (unlink_ref ob r s) ob of
     None \<Rightarrow> unlink_ref ob r s | Some k \<Rightarrow> if ko_ref k \<le> 0 then kobj_free ob (unlink_ref ob r s) else unlink_ref ob r s)"
  by (simp only: release_def drop_ref_def unlink_ref_def Let_def)

lemma release_inv:
  assumes inv: "caps_inv ((ob, r) # X) F s"
  shows "caps_inv X (F - {ob}) (release ob r s)"
proof -
  have u: "caps_inv X (insert ob F) (unlink_ref ob r s)" using inv by (rule unlink_inv)
  obtain k where k: "objs (unlink_ref ob r s) ob = Some k"
    using inv_none [OF inv, of ob] counts_nonneg [of s X "refs_to ob"] by (cases "objs s ob") auto
  show ?thesis
  proof (cases "ko_ref k \<le> 0")
    case True
    then show ?thesis using free_inv [OF u k True] k by (simp add: release_unlink del: unlink_frame)
  next
    case False
    then show ?thesis using inv_shrink [OF u k] k by (simp add: release_unlink del: unlink_frame)
  qed
qed

section \<open>Slots\<close>

definition rights_ok :: "u32 \<Rightarrow> bool" where
  "rights_ok r \<longleftrightarrow> r AND NOT OS1_RIGHT_ALL = 0"

lemma rights_ok_and [simp, intro]: "rights_ok r \<Longrightarrow> rights_ok (r AND x)" "rights_ok (x AND OS1_RIGHT_ALL)"
  by (auto simp: rights_ok_def bit_eq_iff bit_simps)

lemma rights_ok_cap: "tables_ok s \<Longrightarrow> cap_at s k = Some (ob, r) \<Longrightarrow> rights_ok r"
  unfolding tables_ok_def rights_ok_def by (metis snd_conv)

lemma phc_handles_update:
  "pipe_handle_count ob r d (s\<lparr>handles := h\<rparr>) = (pipe_handle_count ob r d s)\<lparr>handles := h\<rparr>"
proof -
  note defs = upd_obj_def unpublish_def owake_def set_sched_def osched_def
  have "port_count_read ob d (s\<lparr>handles := h\<rparr>) = (port_count_read ob d s)\<lparr>handles := h\<rparr>"
    "port_count_write ob d (s\<lparr>handles := h\<rparr>) = (port_count_write ob d s)\<lparr>handles := h\<rparr>"
    "pipe_count_read ob d (s\<lparr>handles := h\<rparr>) = (pipe_count_read ob d s)\<lparr>handles := h\<rparr>"
    "pipe_count_write ob d (s\<lparr>handles := h\<rparr>) = (pipe_count_write ob d s)\<lparr>handles := h\<rparr>" for s
    by (simp_all add: port_count_read_def port_count_write_def pipe_count_read_def pipe_count_write_def Let_def defs
        split: option.split)
  note step = this
  show ?thesis by (cases "objs s ob") (auto simp: pipe_handle_count_def Let_def step)
qed

lemma acquire_slot: "acquire ob r (set_slot p i e s) = set_slot p i e (acquire ob r s)"
proof -
  have u: "upd_obj ob f (s\<lparr>handles := h\<rparr>) = (upd_obj ob f s)\<lparr>handles := h\<rparr>" for f h by (simp add: upd_obj_def)
  show ?thesis by (simp add: acquire_def set_slot_def u phc_handles_update)
qed

lemma close_slot_release:
  "close_slot p i ob r s = release ob r (set_slot p i empty_entry s)"
  by (simp add: close_slot_def release_def set_slot_def phc_handles_update)

lemma cap_at_slot:
  "handles s p = Some t \<Longrightarrow> i < length t \<Longrightarrow>
   cap_at (set_slot p i e s) = (cap_at s)((p, i) := map_option (\<lambda>ob. (ob, he_rights e)) (he_obj e))"
  by (rule ext) (auto simp: cap_at_def set_slot_def nth_list_update)

lemma cap_at_SomeD:
  assumes "cap_at s (p, i) = Some (ob, r)"
  obtains t where "handles s p = Some t" "i < length t" "he_obj (t ! i) = Some ob" "he_rights (t ! i) = r"
  using assms by (auto simp: cap_at_def split: option.splits if_splits)

lemma counts_slot_put:
  assumes "tables_ok s" "handles s p = Some t" "i < length t" "cap_at s (p, i) = None"
  shows "counts (set_slot p i \<lparr>he_obj = Some ob, he_rights = r\<rparr> s) X P = counts s ((ob, r) # X) P"
proof -
  have "held ((cap_at s)((p, i) \<mapsto> (ob, r))) Y P = held (cap_at s) Y P + of_bool (P (ob, r))" for Y
    by (rule held_put) (use assms in \<open>auto simp: tables_ok_def\<close>)
  then show ?thesis using assms by (simp add: counts_def pins_def cap_at_slot)
qed

lemma counts_slot_take:
  assumes "tables_ok s" "cap_at s (p, i) = Some (ob, r)"
  shows "counts (set_slot p i empty_entry s) ((ob, r) # X) P = counts s X P"
proof -
  obtain t where t: "handles s p = Some t" "i < length t" using assms(2) by (rule cap_at_SomeD)
  have "held ((cap_at s)((p, i) := None)) Y P = held (cap_at s) Y P - of_bool (P (ob, r))" for Y
    by (rule held_take) (use assms in \<open>auto simp: tables_ok_def\<close>)
  then show ?thesis using t by (simp add: counts_def pins_def cap_at_slot empty_entry_def)
qed

lemma tables_slot:
  assumes "tables_ok s" "handles s p = Some t" "i < length t" "\<And>ob. he_obj e = Some ob \<Longrightarrow> rights_ok (he_rights e)"
  shows "tables_ok (set_slot p i e s)"
  unfolding tables_ok_def
proof (intro conjI allI impI)
  show "length t' = NPROC_HANDLES" if "handles (set_slot p i e s) q = Some t'" for q t'
    using that assms(1,2) by (auto simp: set_slot_def tables_ok_def split: if_splits)
  show "finite (dom (cap_at (set_slot p i e s)))"
    using assms(1) by (simp add: cap_at_slot [OF assms(2,3)] tables_ok_def)
  show "snd v AND NOT OS1_RIGHT_ALL = 0" if "cap_at (set_slot p i e s) k = Some v" for k v
  proof (cases "k = (p, i)")
    case True
    then show ?thesis using that assms(4) by (auto simp: cap_at_slot [OF assms(2,3)] rights_ok_def)
  next
    case False
    then have "cap_at s k = Some v" using that by (simp add: cap_at_slot [OF assms(2,3)])
    then show ?thesis using assms(1) unfolding tables_ok_def by blast
  qed
qed

lemma caps_move:
  assumes "caps_inv X F s" "objs s' = objs s" "port_table s' = port_table s" "obj_live_count s' = obj_live_count s"
    and "tables_ok s'" "\<And>P. counts s' X' P = counts s X P"
  shows "caps_inv X' F s'"
proof -
  have "objs_ok X' F s'"
  proof (rule objs_okI)
    show "objs s' x = None \<Longrightarrow> counts s' X' (refs_to x) = 0" for x
      using inv_none [OF assms(1), of x] assms(2,6) by simp
    show "ko_ref k = counts s' X' (refs_to x) \<and> (0 < ko_ref k \<or> x \<in> F) \<and> payload_ok (\<lambda>r. counts s' X' (with_right x r)) k"
      if "objs s' x = Some k" for x k
      using that inv_some [OF assms(1), of x k] unfolding assms(2,6) by blast
  qed
  moreover have "ports_ok s'" "live_ok s'" using assms(1-4) by (simp_all add: caps_inv_def ports_ok_def live_ok_def)
  ultimately show ?thesis using assms(5) by (simp add: caps_inv_def)
qed

lemma put_inv:
  assumes "caps_inv ((ob, r) # X) F s" "handles s p = Some t" "i < length t" "cap_at s (p, i) = None" "rights_ok r"
  shows "caps_inv X F (set_slot p i \<lparr>he_obj = Some ob, he_rights = r\<rparr> s)"
proof (rule caps_move [OF assms(1)])
  have t: "tables_ok s" using assms(1) by (simp add: caps_inv_def)
  show "tables_ok (set_slot p i \<lparr>he_obj = Some ob, he_rights = r\<rparr> s)" by (rule tables_slot [OF t assms(2,3)]) (simp add: assms(5))
  show "counts (set_slot p i \<lparr>he_obj = Some ob, he_rights = r\<rparr> s) X P = counts s ((ob, r) # X) P" for P
    by (rule counts_slot_put [OF t assms(2-4)])
qed simp_all

lemma take_inv:
  assumes "caps_inv X F s" "cap_at s (p, i) = Some (ob, r)"
  shows "caps_inv ((ob, r) # X) F (set_slot p i empty_entry s)"
proof (rule caps_move [OF assms(1)])
  have t: "tables_ok s" using assms(1) by (simp add: caps_inv_def)
  obtain tb where tb: "handles s p = Some tb" "i < length tb" using assms(2) by (rule cap_at_SomeD)
  show "tables_ok (set_slot p i empty_entry s)" by (rule tables_slot [OF t tb]) (simp add: empty_entry_def)
  show "counts (set_slot p i empty_entry s) ((ob, r) # X) P = counts s X P" for P
    by (rule counts_slot_take [OF t assms(2)])
qed simp_all

lemma close_inv:
  assumes "caps_inv X F s" "cap_at s (p, i) = Some (ob, r)"
  shows "caps_inv X (F - {ob}) (close_slot p i ob r s)"
  unfolding close_slot_release by (rule release_inv) (rule take_inv [OF assms])

lemma held_obj: "caps_inv X F s \<Longrightarrow> cap_at s k = Some (ob, r) \<Longrightarrow> objs s ob \<noteq> None"
  using inv_none [of X F s ob] held_pos_mem [of "cap_at s" k "(ob, r)" "refs_to ob" "X @ pins s"]
  by (auto simp: counts_def caps_inv_def tables_ok_def)

section \<open>Installing\<close>

lemma free_entry_SomeD:
  "free_entry es n = Some j \<Longrightarrow> n \<le> j \<and> j < n + length es \<and> he_obj (es ! (j - n)) = None"
  by (induction es n rule: free_entry.induct) (auto split: if_splits simp: nth_Cons' less_Suc_eq_le Suc_le_eq)

lemma install_cases:
  assumes "handle_install_locked p ob r s = (h, s')"
  obtains "h < 0" "s' = s"
  | i t where "h = int i" "handles s p = Some t" "i < length t" "cap_at s (p, i) = None"
      "s' = set_slot p i \<lparr>he_obj = Some ob, he_rights = r\<rparr> (acquire ob r s)"
proof (cases "handles s p")
  case None
  then show thesis using assms that(1) by (auto simp: handle_install_locked_def EBADF_def)
next
  case (Some t)
  show thesis
  proof (cases "free_entry t 0")
    case None
    then show thesis using assms that(1) Some by (auto simp: handle_install_locked_def EMFILE_def)
  next
    case (Some i)
    from free_entry_SomeD [OF Some] have "i < length t" "he_obj (t ! i) = None" by auto
    then show thesis using assms that(2) [of i t] Some \<open>handles s p = Some t\<close> acquire_slot
      by (auto simp: handle_install_locked_def cap_at_def acquire_def)
  qed
qed

lemma install_inv:
  assumes "caps_inv X F s" "objs s ob \<noteq> None" "rights_ok r" "handle_install_locked p ob r s = (h, s')" "0 \<le> h"
  shows "caps_inv X (F - {ob}) s'"
  using assms(4)
proof (cases rule: install_cases)
  case 1
  then show ?thesis using assms(5) by simp
next
  case (2 i t)
  have "caps_inv ((ob, r) # X) (F - {ob}) (acquire ob r s)" by (rule acquire_inv [OF assms(1,2)])
  then show ?thesis unfolding 2(5)
    by (rule put_inv) (use 2 assms(3) cap_at_cong [of "acquire ob r s" s] in auto)
qed

lemma install_neg: "handle_install_locked p ob r s = (h, s') \<Longrightarrow> h < 0 \<Longrightarrow> s' = s"
  by (erule install_cases) auto

lemma install_inv0:
  assumes "caps_inv X {} s" "objs s ob \<noteq> None" "rights_ok r"
  shows "caps_inv X {} (snd (handle_install_locked p ob r s))"
proof (cases "handle_install_locked p ob r s")
  case (Pair h s')
  then show ?thesis using install_inv [OF assms Pair] install_neg [OF Pair] assms(1) by (cases "h < 0") auto
qed

lemma alloc_inv:
  assumes inv: "caps_inv X F s" and fresh: "objs s a = None"
    and k: "ko_type k = ty" "ko_ref k = 0" "payload_ok (\<lambda>_. 0) k"
  shows "caps_inv X (insert a F)
    (s\<lparr>objs := (objs s)(a \<mapsto> k), obj_live_count := (obj_live_count s)(ty := obj_live_count s ty + 1)\<rparr>)"
  (is "caps_inv X _ ?s")
  unfolding caps_inv_def
proof (intro conjI)
  have cnt: "counts ?s Y P = counts s Y P" for Y P by (rule counts_cong) simp_all
  have zero: "counts s X (refs_to a) = 0" using inv fresh by (rule inv_none)
  have zr: "counts s X (with_right a r) = 0" for r
    using counts_right_le [of s X a r] zero counts_nonneg [of s X "with_right a r"] inv by (simp add: caps_inv_def)
  show "tables_ok ?s" using inv by (simp add: caps_inv_def tables_cong [of ?s s])
  show "objs_ok X (insert a F) ?s"
  proof (rule objs_okI)
    show "objs ?s x = None \<Longrightarrow> counts ?s X (refs_to x) = 0" for x
      using inv_none [OF inv, of x] by (auto simp: cnt split: if_splits)
    show "ko_ref kx = counts ?s X (refs_to x) \<and> (0 < ko_ref kx \<or> x \<in> insert a F) \<and> payload_ok (\<lambda>r. counts ?s X (with_right x r)) kx"
      if "objs ?s x = Some kx" for x kx
      unfolding cnt using that inv_some [OF inv, of x kx] k zero zr by (cases "x = a") auto
  qed
  show "ports_ok ?s" using inv fresh unfolding caps_inv_def ports_ok_def by fastforce
  show "live_ok ?s"
    unfolding live_ok_def
  proof (intro conjI allI)
    have fin: "finite (dom (objs s))" using inv by (simp add: caps_inv_def live_ok_def)
    then show "finite (dom (objs ?s))" by simp
    fix u
    let ?A = "\<lambda>s. {ob. \<exists>k. objs s ob = Some k \<and> ko_type k = u}"
    have old: "obj_live_count s u = of_nat (card (?A s))" using inv by (simp add: caps_inv_def live_ok_def)
    have fA: "finite (?A s)" by (rule finite_subset [OF _ fin]) auto
    have "?A ?s = (if u = ty then insert a (?A s) else ?A s)" using k(1) fresh by auto
    moreover have "a \<notin> ?A s" using fresh by simp
    ultimately have "card (?A ?s) = card (?A s) + of_bool (u = ty)" using card_insert_disjoint [OF fA, of a] by (cases "u = ty") (simp_all only: if_True if_False of_bool_eq add_0_right Suc_eq_plus1 simp_thms)
    then show "obj_live_count ?s u = of_nat (card (?A ?s))" using old by (simp only: of_nat_add) (cases "u = ty"; simp)
  qed
qed

lemma new_object_inv:
  assumes inv: "caps_inv X {} s" and fresh: "\<And>ob. a = Some ob \<Longrightarrow> objs s ob = None" and r: "rights_ok r"
    and init: "\<And>k. ko_type (init k) = ko_type k \<and> ko_ref (init k) = ko_ref k"
    and plain: "ty \<noteq> OBJ_TYPE_PIPE" "ty \<noteq> OBJ_TYPE_PORT"
  shows "caps_inv X {} (snd (new_object a ty init p r s))"
proof (cases a)
  case None
  then show ?thesis using inv by (simp add: new_object_def kobj_alloc_def)
next
  case (Some ob)
  let ?k = "init (zero_kobject\<lparr>ko_type := ty\<rparr>)"
  let ?s1 = "s\<lparr>objs := (objs s)(ob \<mapsto> ?k), obj_live_count := (obj_live_count s)(ty := obj_live_count s ty + 1)\<rparr>"
  have k: "ko_type ?k = ty" "ko_ref ?k = 0" using init by (simp_all add: zero_kobject_def)
  have i1: "caps_inv X (insert ob {}) ?s1"
    by (rule alloc_inv [OF inv]) (use fresh Some k plain in \<open>auto simp: payload_ok_def\<close>)
  have eq: "upd_obj ob init (snd (kobj_alloc a ty s)) = ?s1" by (simp add: Some kobj_alloc_def upd_obj_def)
  show ?thesis
  proof (cases "handle_install_locked p ob r ?s1")
    case (Pair h s2)
    have "caps_inv X {} (if h < 0 then kobj_free ob s2 else s2)"
    proof (cases "h < 0")
      case True
      then show ?thesis using free_inv [OF i1, of ob ?k] k install_neg [OF Pair True] by simp
    next
      case False
      then show ?thesis using install_inv [OF i1 _ r Pair] by simp
    qed
    moreover have "new_object a ty init p r s = install_new p ob r ?s1"
      unfolding eq [symmetric] by (simp add: new_object_def Some kobj_alloc_def)
    ultimately show ?thesis using Pair by (cases "h < 0") (simp_all add: install_new_def)
  qed
qed

section \<open>Pins\<close>

lemma phc_no_rights [simp]: "pipe_handle_count ob 0 d s = s"
  by (simp add: pipe_handle_count_def split: option.split)

lemma held_append: "held m (X @ Y) P = held m X P + int (length (filter P Y))"
  by (simp add: held_def)

lemma counts_pin: "counts (s\<lparr>opins := ob # opins s\<rparr>) X P = counts s ((ob, 0) # X) P"
  using cap_at_cong [of "s\<lparr>opins := ob # opins s\<rparr>" s] by (simp add: counts_def pins_def held_append)

lemma counts_unpin:
  assumes "ob \<in> set (opins s)"
  shows "counts (s\<lparr>opins := remove1 ob (opins s)\<rparr>) ((ob, 0) # X) P = counts s X P"
proof -
  have "length (filter P (map (\<lambda>ob. (ob, 0)) xs)) =
      length (filter P (map (\<lambda>ob. (ob, 0)) (remove1 ob xs))) + of_bool (P (ob, 0))" if "ob \<in> set xs" for xs :: "oref list"
    using that by (induction xs) auto
  from this [OF assms] show ?thesis
    using cap_at_cong [of "s\<lparr>opins := remove1 ob (opins s)\<rparr>" s] by (simp add: counts_def pins_def held_append)
qed

lemma pin_inv:
  assumes inv: "caps_inv X F s" and ob: "objs s ob \<noteq> None"
  shows "caps_inv X (F - {ob}) ((upd_obj ob (\<lambda>k. k\<lparr>ko_ref := ko_ref k + 1\<rparr>) s)\<lparr>opins := ob # opins s\<rparr>)"
proof -
  have "caps_inv ((ob, 0) # X) (F - {ob}) (upd_obj ob (\<lambda>k. k\<lparr>ko_ref := ko_ref k + 1\<rparr>) s)"
    using acquire_inv [OF inv ob, of 0] by (simp add: acquire_def)
  then show ?thesis
  proof (rule caps_move)
    show "tables_ok ((upd_obj ob (\<lambda>k. k\<lparr>ko_ref := ko_ref k + 1\<rparr>) s)\<lparr>opins := ob # opins s\<rparr>)"
      using inv tables_cong [of "(upd_obj ob (\<lambda>k. k\<lparr>ko_ref := ko_ref k + 1\<rparr>) s)\<lparr>opins := ob # opins s\<rparr>" s]
      by (simp add: caps_inv_def)
    show "counts ((upd_obj ob (\<lambda>k. k\<lparr>ko_ref := ko_ref k + 1\<rparr>) s)\<lparr>opins := ob # opins s\<rparr>) X P =
        counts (upd_obj ob (\<lambda>k. k\<lparr>ko_ref := ko_ref k + 1\<rparr>) s) ((ob, 0) # X) P" for P
      using counts_pin [where s = "upd_obj ob (\<lambda>k. k\<lparr>ko_ref := ko_ref k + 1\<rparr>) s"] by simp
  qed simp_all
qed

lemma unpin_inv:
  assumes inv: "caps_inv X F s" and ob: "ob \<in> set (opins s)"
  shows "caps_inv X (F - {ob}) (obj_unref ob s)"
proof -
  let ?s = "s\<lparr>opins := remove1 ob (opins s)\<rparr>"
  have "caps_inv ((ob, 0) # X) F ?s"
    using inv
  proof (rule caps_move)
    show "tables_ok ?s" using inv tables_cong [of ?s s] by (simp add: caps_inv_def)
    show "counts ?s ((ob, 0) # X) P = counts s X P" for P using ob by (rule counts_unpin)
  qed simp_all
  from release_inv [OF this] show ?thesis by (simp add: release_def obj_unref_def)
qed

end
