(* ===== verification/Object_Ops.thy ===== *)
theory Object_Ops
  imports Object_Inv
begin

text \<open>
  The calls that make, copy and drop handles keep the invariant: creation by name, publication of a
  port, duplication, delegation, closing, pipes, the teardown of a table, the redirections of a child, and
  the two halves of sending capabilities with a message, installing and unwinding.
\<close>

unbundle bit_operations_syntax

section \<open>Creation, duplication, delegation, pipes, teardown\<close>

lemma inv_ovfs [simp]: "caps_inv X F (s\<lparr>ovfs := v\<rparr>) = caps_inv X F s"
proof -
  have t: "tables_ok (s\<lparr>ovfs := v\<rparr>) = tables_ok s" by (rule tables_cong) simp
  have c: "counts (s\<lparr>ovfs := v\<rparr>) Y P = counts s Y P" for Y P by (rule counts_cong) simp_all
  show ?thesis unfolding caps_inv_def objs_ok_def ports_ok_def live_ok_def t c by simp
qed

lemma objs_ok_cong: "objs s' = objs s \<Longrightarrow> (\<And>P. counts s' X P = counts s X P) \<Longrightarrow> objs_ok X F s' = objs_ok X F s"
  by (simp only: objs_ok_def)

lemma inv_set_vfs [simp]: "caps_inv X F (set_vfs v s) = caps_inv X F s"
  by (simp add: set_vfs_def)

lemma inv_set_sched [simp]: "caps_inv X F (set_sched k s) = caps_inv X F s"
  by (simp add: set_sched_def)

lemma inv_owake [simp]: "caps_inv X F (owake q s) = caps_inv X F s"
  by (simp add: owake_def)

lemma cap_at_ensure: "cap_at (snd (handles_ensure ok p s)) = cap_at s"
  by (rule ext) (auto simp: handles_ensure_def cap_at_def empty_entry_def)

lemma ensure_frame [simp]:
  "objs (snd (handles_ensure ok p s)) = objs s" "port_table (snd (handles_ensure ok p s)) = port_table s"
  "obj_live_count (snd (handles_ensure ok p s)) = obj_live_count s" "opins (snd (handles_ensure ok p s)) = opins s"
  "ovfs (snd (handles_ensure ok p s)) = ovfs s"
  by (simp_all add: handles_ensure_def)

lemma ensure_inv:
  assumes inv: "caps_inv X F s"
  shows "caps_inv X F (snd (handles_ensure ok p s))"
proof (rule caps_move [OF inv])
  show "tables_ok (snd (handles_ensure ok p s))"
    using tables_ok_def [of s] inv unfolding caps_inv_def tables_ok_def cap_at_ensure
    by (auto simp: handles_ensure_def)
  show "counts (snd (handles_ensure ok p s)) X P = counts s X P" for P
    by (simp add: counts_def pins_def cap_at_ensure)
qed simp_all

lemma fs_resolve_frame: "\<exists>v. snd (fs_resolve p path r c s) = set_vfs v s"
  by (auto simp: fs_resolve_def Let_def set_vfs_def split: prod.splits) 

lemma create_fs_inv:
  assumes inv: "caps_inv X {} s" and fresh: "\<And>ob. ae_obj ae = Some ob \<Longrightarrow> objs s ob = None" and r: "rights_ok r"
  shows "caps_inv X {} (snd (create_fs ae p kpath r c s))"
proof -
  define path where "path = the (vfs_resolve_path (Some (cwd (procs (osched s) p))) kpath OBJ_FILE_PATH_MAX)"
  obtain res s1 where rs: "fs_resolve p path r c s = (res, s1)" by fastforce
  then obtain v where v: "s1 = set_vfs v s" using fs_resolve_frame [of p path r c s] by auto
  have n: "caps_inv X {} (snd (new_object (ae_obj ae) ty init p r s1))"
    if "\<And>k. ko_type (init k) = ko_type k \<and> ko_ref (init k) = ko_ref k" "ty \<noteq> OBJ_TYPE_PIPE" "ty \<noteq> OBJ_TYPE_PORT" for ty init
    by (rule new_object_inv) (use inv fresh r v that in auto)
  have i1: "caps_inv X {} s1" using inv v by simp
  show ?thesis
  proof (cases res)
    case (Inl e)
    then show ?thesis using rs i1 by (simp add: create_fs_def path_def [symmetric])
  next
    case (Inr ref)
    then show ?thesis using rs i1 n by (simp add: create_fs_def path_def [symmetric] Let_def)
  qed
qed

lemma mask_rights_ok [simp]: "rights_ok ((r AND OS1_RIGHT_ALL) AND x)"
  using rights_ok_and by blast

lemma port_find_mem: "port_find_locked name s = Some ob \<Longrightarrow> Some ob \<in> set (port_table s)"
  by (auto simp: port_find_locked_def find_Some_iff split: option.splits)

lemma published_obj: "caps_inv X F s \<Longrightarrow> Some ob \<in> set (port_table s) \<Longrightarrow> objs s ob \<noteq> None"
  by (auto simp: caps_inv_def ports_ok_def)

lemma ring_ok_empty: "length b = cap \<Longrightarrow> 0 < cap \<Longrightarrow> ring_ok cap \<lparr>rg_buf = b, rg_head = 0, rg_tail = 0, rg_count = 0\<rparr>"
  by (simp add: ring_ok_def)

lemma publish_inv:
  assumes inv: "caps_inv X {} s" and fresh: "\<And>ob. ae_obj ae = Some ob \<Longrightarrow> objs s ob = None"
    and r: "rights_ok r" "has_right r OS1_RIGHT_READ"
  shows "caps_inv X {} (snd (port_publish ae p slot kpath r s))"
proof (cases "ae_pay ae \<and> ae_obj ae \<noteq> None")
  case False
  then show ?thesis using inv by (auto simp: port_publish_def kobj_alloc_def Let_def)
next
  case True
  then obtain ob where ob: "ae_obj ae = Some ob" by auto
  define me where "me = pid (procs (osched s) p)"
  let ?k = "(zero_kobject\<lparr>ko_type := OBJ_TYPE_PORT\<rparr>)\<lparr>ko_port := Some (new_kport me kpath), ko_pid := me\<rparr>"
  let ?s = "s\<lparr>objs := (objs s)(ob \<mapsto> ?k),
    obj_live_count := (obj_live_count s)(OBJ_TYPE_PORT := obj_live_count s OBJ_TYPE_PORT + 1)\<rparr>"
  have alloc: "upd_obj ob (\<lambda>k. k\<lparr>ko_port := Some (new_kport me kpath), ko_pid := me\<rparr>)
      (s\<lparr>objs := (objs s)(ob \<mapsto> zero_kobject\<lparr>ko_type := OBJ_TYPE_PORT\<rparr>),
         obj_live_count := (obj_live_count s)(OBJ_TYPE_PORT := obj_live_count s OBJ_TYPE_PORT + 1)\<rparr>) = ?s"
    by (simp add: upd_obj_def)
  have i1: "caps_inv X (insert ob {}) ?s"
    by (rule alloc_inv [OF inv])
      (use fresh ob in \<open>auto simp: zero_kobject_def payload_ok_def new_kport_def PORT_QUEUE_MAX_def intro!: ring_ok_empty\<close>)
  have free: "caps_inv X {} (kobj_free ob ?s)" using free_inv [OF i1, of ob ?k] by (simp add: zero_kobject_def)
  obtain h s3 where ins: "handle_install_locked p ob r ?s = (h, s3)" by fastforce
  have "caps_inv X {} (s3\<lparr>port_table := (port_table s3)[slot := Some ob]\<rparr>)" if h: "\<not> h < 0"
  proof -
    have i3: "caps_inv X {} s3" using install_inv [OF i1 _ r(1) ins] h by simp
    obtain i t where st: "s3 = set_slot p i \<lparr>he_obj = Some ob, he_rights = r\<rparr> (acquire ob r ?s)"
      using ins h by (elim install_cases) auto
    have "objs s3 ob = Some (adj r 1 (?k\<lparr>ko_ref := 1\<rparr>))" by (simp add: st zero_kobject_def)
    moreover have "ko_port (adj r 1 (?k\<lparr>ko_ref := 1\<rparr>)) = Some (adj_port r 1 (new_kport me kpath))" "ko_type (?k\<lparr>ko_ref := 1\<rparr>) = OBJ_TYPE_PORT"
      by (simp_all add: adj_port_of zero_kobject_def)
    ultimately have pub: "\<exists>k q. objs s3 ob = Some k \<and> ko_type k = OBJ_TYPE_PORT \<and> ko_port k = Some q \<and> 0 < kq_receivers q"
      using r(2) by (auto simp: new_kport_def)
    let ?s4 = "s3\<lparr>port_table := (port_table s3)[slot := Some ob]\<rparr>"
    have c: "counts ?s4 Y P = counts s3 Y P" for Y P by (rule counts_cong) simp_all
    have "ports_ok ?s4"
      using i3 pub by (auto simp: caps_inv_def ports_ok_def dest!: set_update_subset_insert [THEN subsetD])
    moreover have "objs_ok X {} ?s4 = objs_ok X {} s3" by (rule objs_ok_cong) (simp_all add: c)
    ultimately show ?thesis using i3 tables_cong [of ?s4 s3] by (simp add: caps_inv_def live_ok_def)
  qed
  then show ?thesis
    using True ob inv free install_neg [OF ins] ins
    by (cases "h < 0") (auto simp: port_publish_def kobj_alloc_def Let_def me_def [symmetric] alloc)
qed

lemma lookup_inv:
  assumes inv: "caps_inv X {} s" and r: "rights_ok r" and look: "port_lookup p kpath r s = Inl (h, s')"
  shows "caps_inv X {} s'"
proof (cases "port_find_locked kpath s")
  case None
  then show ?thesis using inv look by (auto simp: port_lookup_def Let_def split: if_splits option.splits)
next
  case (Some ob)
  have "caps_inv X {} (snd (handle_install_locked p ob (r AND NOT OS1_RIGHT_READ) s))"
    by (rule install_inv0 [OF inv published_obj [OF inv port_find_mem [OF Some]]]) (use r in simp)
  then show ?thesis using look Some inv by (auto simp: port_lookup_def Let_def split: if_splits)
qed

lemma create_inv:
  assumes inv: "caps_inv X {} s" and fresh: "\<And>ob. ae_obj ae = Some ob \<Longrightarrow> objs s ob = None"
  shows "caps_inv X {} (snd (sys_handle_create ae ns upath r ty s))"
proof (cases "ocur s")
  case None
  then show ?thesis using inv by (simp add: sys_handle_create_def)
next
  case (Some p)
  let ?r = "r AND OS1_RIGHT_ALL"
  obtain e s1 where s1: "handles_ensure (ae_tbl ae) p s = (e, s1)" by fastforce
  have i1: "caps_inv X {} s1" using ensure_inv [OF inv, of "ae_tbl ae" p] s1 by simp
  have f1: "\<And>ob. ae_obj ae = Some ob \<Longrightarrow> objs s1 ob = None"
    using fresh ensure_frame(1) [of "ae_tbl ae" p s] s1 by simp
  have r: "rights_ok ?r" by simp
  have n: "caps_inv X {} (snd (new_object (ae_obj ae) ty init p ?r s1))"
    if "\<And>k. ko_type (init k) = ko_type k \<and> ko_ref (init k) = ko_ref k" "ty \<noteq> OBJ_TYPE_PIPE" "ty \<noteq> OBJ_TYPE_PORT" for ty init
    by (rule new_object_inv [OF i1 f1 r that])
  have "caps_inv X {} (snd (create_port ae p kpath ?r s1))" for kpath
  proof (cases "port_lookup p kpath ?r s1")
    case (Inl a)
    then show ?thesis using lookup_inv [OF i1 r, of p kpath "fst a" "snd a"] by (simp add: create_port_def)
  next
    case (Inr slot)
    then have "has_right ?r OS1_RIGHT_READ" by (auto simp: port_lookup_def Let_def split: if_splits option.splits)
    then show ?thesis using Inr publish_inv [OF i1 f1 r] by (simp add: create_port_def)
  qed
  moreover have "caps_inv X {} (snd (create_proc ae p kpath ?r s1))" "caps_inv X {} (snd (create_reg ae p kpath ?r s1))"
    "caps_inv X {} (snd (create_win ae p kpath ?r s1))" for kpath
    using i1 n by (simp_all add: create_proc_def create_reg_def create_win_def Let_def)
  moreover have "caps_inv X {} (snd (create_fs ae p kpath ?r c s1))" for kpath c
    by (rule create_fs_inv [OF i1 f1 r])
  ultimately show ?thesis
    using Some s1 i1 inv by (auto simp: sys_handle_create_def Let_def split: sum.splits)
qed

lemma handle_slotD:
  assumes "handle_slot h s = Some (p, i, ob, r)" "tables_ok s"
  shows "ocur s = Some p" "i = nat h" "cap_at s (p, i) = Some (ob, r)"
  using assms by (auto simp: handle_slot_def cap_at_def tables_ok_def split: option.splits if_splits)

lemma tables: "caps_inv X F s \<Longrightarrow> tables_ok s"
  by (simp add: caps_inv_def)

lemma dup_inv:
  assumes inv: "caps_inv X {} s"
  shows "caps_inv X {} (snd (sys_handle_dup h r s))"
proof (cases "handle_slot h s")
  case None
  then show ?thesis using inv by (simp add: sys_handle_dup_def)
next
  case (Some v)
  obtain p i ob r0 where v: "v = (p, i, ob, r0)" by (cases v)
  have "cap_at s (p, i) = Some (ob, r0)" using handle_slotD [of h s p i ob r0] Some v tables [OF inv] by simp
  then have "objs s ob \<noteq> None" by (rule held_obj [OF inv])
  then show ?thesis using install_inv0 [OF inv] Some v inv by (simp add: sys_handle_dup_def)
qed

lemma grant_inv:
  assumes inv: "caps_inv X {} s"
  shows "caps_inv X {} (snd (sys_cap_grant n h r s))"
proof -
  have "caps_inv X {} (snd (handle_install_locked tgt ob ((r AND OS1_RIGHT_ALL) AND r0) s))"
    if "handle_slot h s = Some (p, i, ob, r0)" for p i ob r0 tgt
    by (rule install_inv0 [OF inv held_obj [OF inv handle_slotD(3) [OF that tables [OF inv]]]]) simp
  then show ?thesis using inv
    by (auto simp: sys_cap_grant_def split: option.splits)
qed

lemma sys_close_inv:
  assumes inv: "caps_inv X {} s"
  shows "caps_inv X {} (snd (sys_handle_close h s))"
proof -
  have "caps_inv X {} (close_slot p i ob r s)" if "handle_slot h s = Some (p, i, ob, r)" for p i ob r
    using close_inv [OF inv handle_slotD(3) [OF that tables [OF inv]]] by simp
  then show ?thesis using inv by (auto simp: sys_handle_close_def split: option.splits)
qed

lemma pipe_inv:
  assumes inv: "caps_inv X {} s" and fresh: "\<And>ob. ae_obj ae = Some ob \<Longrightarrow> objs s ob = None"
  shows "caps_inv X {} (snd (sys_pipe ae copy_ok s))"
proof (cases "ocur s")
  case None
  then show ?thesis using inv by (simp add: sys_pipe_def)
next
  case (Some p)
  obtain e s1 where s1: "handles_ensure (ae_tbl ae) p s = (e, s1)" by fastforce
  have i1: "caps_inv X {} s1" using ensure_inv [OF inv, of "ae_tbl ae" p] s1 by simp
  show ?thesis
  proof (cases "e \<noteq> 0 \<or> \<not> ae_pay ae \<or> \<not> ae_buf ae \<or> ae_obj ae = None")
    case True
    then show ?thesis using Some s1 i1 by (auto simp: sys_pipe_def kobj_alloc_def)
  next
    case False
    then obtain ob where ob: "ae_obj ae = Some ob" by auto
    have f1: "objs s1 ob = None" using fresh ob ensure_frame(1) [of "ae_tbl ae" p s] s1 by simp
    let ?k = "(zero_kobject\<lparr>ko_type := OBJ_TYPE_PIPE\<rparr>)\<lparr>ko_pipe := Some (new_kpipe (ae_junk ae))\<rparr>"
    let ?s = "s1\<lparr>objs := (objs s1)(ob \<mapsto> ?k),
      obj_live_count := (obj_live_count s1)(OBJ_TYPE_PIPE := obj_live_count s1 OBJ_TYPE_PIPE + 1)\<rparr>"
    have alloc: "upd_obj ob (\<lambda>k. k\<lparr>ko_pipe := Some (new_kpipe (ae_junk ae))\<rparr>)
        (s1\<lparr>objs := (objs s1)(ob \<mapsto> zero_kobject\<lparr>ko_type := OBJ_TYPE_PIPE\<rparr>),
           obj_live_count := (obj_live_count s1)(OBJ_TYPE_PIPE := obj_live_count s1 OBJ_TYPE_PIPE + 1)\<rparr>) = ?s"
      by (simp add: upd_obj_def)
    have i2: "caps_inv X (insert ob {}) ?s"
      by (rule alloc_inv [OF i1 f1])
        (auto simp: zero_kobject_def payload_ok_def new_kpipe_def PIPE_BUF_SIZE_def intro!: ring_ok_empty)
    let ?rr = "OS1_RIGHT_READ OR OS1_RIGHT_TRANSFER OR OS1_RIGHT_DUPLICATE"
    let ?wr = "OS1_RIGHT_WRITE OR OS1_RIGHT_TRANSFER OR OS1_RIGHT_DUPLICATE"
    have ok: "rights_ok ?rr" "rights_ok ?wr"
      by (simp_all add: rights_ok_def OS1_RIGHT_READ_def OS1_RIGHT_TRANSFER_def OS1_RIGHT_DUPLICATE_def OS1_RIGHT_WRITE_def
          OS1_RIGHT_ALL_def OS1_RIGHT_WAIT_def OS1_RIGHT_DESTROY_def OS1_RIGHT_MUTATE_def)
    obtain rfd s4 where r: "handle_install_locked p ob ?rr ?s = (rfd, s4)" by fastforce
    obtain wfd s5 where w: "handle_install_locked p ob ?wr s4 = (wfd, s5)" by fastforce
    show ?thesis
    proof (cases "rfd < 0")
      case True
      then have "s4 = ?s" using install_neg [OF r] by simp
      then have "caps_inv X {} (kobj_free ob s4)" using free_inv [OF i2, of ob ?k] by (simp add: zero_kobject_def)
      then show ?thesis using Some s1 False ob True r by (simp add: sys_pipe_def kobj_alloc_def alloc)
    next
      case nr: False
      have i4: "caps_inv X {} s4" using install_inv [OF i2 _ ok(1) r] nr by simp
      have "objs s4 ob \<noteq> None" using r nr by (elim install_cases) auto
      then have i5: "caps_inv X {} s5" using install_inv0 [OF i4 _ ok(2), of ob p] w by simp
      show ?thesis
        using Some s1 False ob nr r w i5 sys_close_inv [OF i5] sys_close_inv [OF sys_close_inv [OF i5]]
        by (simp add: sys_pipe_def kobj_alloc_def alloc)
    qed
  qed
qed

section \<open>Teardown of a table\<close>

definition entries :: "handle_entry list \<Rightarrow> (oref \<times> u32) list" where
  "entries t = map (\<lambda>e. (the (he_obj e), he_rights e)) (filter (\<lambda>e. he_obj e \<noteq> None) t)"

lemma counts_detach:
  assumes t: "tables_ok s" "handles s p = Some t"
  shows "counts (s\<lparr>handles := (handles s)(p := None)\<rparr>) (entries t @ X) P = counts s X P"
proof -
  let ?s = "s\<lparr>handles := (handles s)(p := None)\<rparr>"
  let ?A = "{k. \<exists>v. cap_at s k = Some v \<and> P v}"
  let ?B = "{k. \<exists>v. cap_at ?s k = Some v \<and> P v}"
  let ?Q = "\<lambda>e. he_obj e \<noteq> None \<and> P (the (he_obj e), he_rights e)"
  let ?C = "{i. i < length t \<and> ?Q (t ! i)}"
  have un: "?A = ?B \<union> Pair p ` ?C"
  proof (rule set_eqI)
    fix k show "k \<in> ?A \<longleftrightarrow> k \<in> ?B \<union> Pair p ` ?C"
      by (cases k; cases "fst k = p") (auto simp: cap_at_def t(2) split: option.splits if_splits)
  qed
  have disj: "?B \<inter> Pair p ` ?C = {}" by (auto simp: cap_at_def)
  have "finite ?A" by (rule finite_where) (use t in \<open>simp add: tables_ok_def\<close>)
  then have "finite ?B" "finite (Pair p ` ?C)" unfolding un by simp_all
  then have "card ?A = card ?B + card (Pair p ` ?C)" unfolding un using disj by (rule card_Un_disjoint)
  moreover have "card (Pair p ` ?C) = length (filter P (entries t))"
  proof -
    have "card (Pair p ` ?C) = card ?C" by (rule card_image) (simp add: inj_on_def)
    also have "\<dots> = length (filter ?Q t)" by (rule length_filter_conv_card [symmetric])
    also have "\<dots> = length (filter P (entries t))" unfolding entries_def by (induction t) auto
    finally show ?thesis .
  qed
  ultimately show ?thesis by (simp add: counts_def held_def pins_def)
qed

lemma destroy_loop_inv:
  "caps_inv (entries t @ X) {} s \<Longrightarrow> caps_inv X {} (destroy_loop t s)"
proof (induction t arbitrary: s)
  case (Cons e t)
  show ?case
  proof (cases "he_obj e")
    case (Some ob)
    then have "caps_inv ((ob, he_rights e) # entries t @ X) {} s" using Cons.prems by (simp add: entries_def)
    from release_inv [OF this] show ?thesis using Cons.IH Some by (simp add: release_def)
  qed (use Cons in \<open>simp add: entries_def\<close>)
qed (simp add: entries_def)

lemma destroy_inv:
  assumes inv: "caps_inv X {} s"
  shows "caps_inv X {} (process_handles_destroy p s)"
proof (cases "handles s p")
  case None
  then show ?thesis using inv by (simp add: process_handles_destroy_def)
next
  case (Some t)
  let ?s = "s\<lparr>handles := (handles s)(p := None)\<rparr>"
  have sub: "cap_at ?s k = Some v \<Longrightarrow> cap_at s k = Some v" for k v by (auto simp: cap_at_def split: if_splits)
  have "caps_inv (entries t @ X) {} ?s"
  proof (rule caps_move [OF inv])
    show "counts ?s (entries t @ X) P = counts s X P" for P by (rule counts_detach [OF tables [OF inv] Some])
    have "finite (dom (cap_at ?s))"
      by (rule finite_subset [of _ "dom (cap_at s)"]) (use tables [OF inv] sub in \<open>auto simp: tables_ok_def\<close>)
    moreover have "\<forall>q u. handles ?s q = Some u \<longrightarrow> length u = NPROC_HANDLES"
      using tables [OF inv] by (simp add: tables_ok_def)
    moreover have "\<forall>k v. cap_at ?s k = Some v \<longrightarrow> snd v AND NOT OS1_RIGHT_ALL = 0"
      using tables [OF inv] sub unfolding tables_ok_def by blast
    ultimately show "tables_ok ?s" by (simp only: tables_ok_def)
  qed simp_all
  then show ?thesis using Some by (simp add: process_handles_destroy_def destroy_loop_inv)
qed

section \<open>Redirection and standard handles\<close>

lemma redirect_inv:
  assumes inv: "caps_inv X {} s"
  shows "caps_inv X {} (snd (process_redirect_child_fd_from ae owner child cs pf s))"
proof (cases owner)
  case None
  then show ?thesis using inv by (simp add: process_redirect_child_fd_from_def)
next
  case (Some parent)
  obtain e s1 where s1: "handles_ensure (ae_tbl ae) child s = (e, s1)" by fastforce
  have i1: "caps_inv X {} s1" using ensure_inv [OF inv, of "ae_tbl ae" child] s1 by simp
  let ?bad = "cs < 0 \<or> cs \<ge> int NPROC_HANDLES \<or> pf < 0 \<or> pf \<ge> int NPROC_HANDLES \<or> handles s parent = None"
  let ?src = "entry_at parent (nat pf) s1" let ?dst = "entry_at child (nat cs) s1"
  show ?thesis
  proof (cases "?bad \<or> e \<noteq> 0 \<or> he_obj ?src = None")
    case True
    then show ?thesis using inv i1 s1 Some by (auto simp: process_redirect_child_fd_from_def Let_def)
  next
    case False
    then obtain ob where ob: "he_obj ?src = Some ob" by auto
    define r where "r = he_rights ?src"
    have src_eq: "?src = \<lparr>he_obj = Some ob, he_rights = r\<rparr>" using ob by (simp add: r_def)
    obtain tp where tp: "handles s1 parent = Some tp"
      using False s1 by (cases "parent = child") (auto simp: handles_ensure_def split: if_splits)
    obtain tc where tc: "handles s1 child = Some tc"
      using False s1 by (auto simp: handles_ensure_def ENOMEM_def split: if_splits)
    have len: "length tp = NPROC_HANDLES" "length tc = NPROC_HANDLES"
      using tables [OF i1] tp tc by (auto simp: tables_ok_def)
    have cs: "nat cs < length tc" and pf: "nat pf < length tp" using False len by auto
    have cap: "cap_at s1 (parent, nat pf) = Some (ob, r)"
      using ob pf by (simp add: cap_at_def tp entry_at_def r_def)
    let ?a = "acquire ob r s1"
    have ia: "caps_inv ((ob, r) # X) {} ?a" using acquire_inv [OF i1 held_obj [OF i1 cap], of r] by simp
    have caps_a: "cap_at ?a = cap_at s1" by (rule cap_at_cong) simp
    have rok: "rights_ok r" using rights_ok_cap [OF tables [OF i1] cap] .
    have swap: "pipe_handle_count ob r 1 (upd_obj ob (\<lambda>k. k\<lparr>ko_ref := ko_ref k + 1\<rparr>) (set_slot child (nat cs) ?src s1)) =
        set_slot child (nat cs) ?src ?a"
      using acquire_slot by (simp add: acquire_def)
    show ?thesis
    proof (cases "he_obj ?dst")
      case None
      then have "cap_at ?a (child, nat cs) = None" using cs by (simp add: caps_a cap_at_def tc entry_at_def)
      from put_inv [OF ia _ cs this rok] have "caps_inv X {} (set_slot child (nat cs) ?src ?a)" using tc src_eq by simp
      then show ?thesis using inv False s1 Some ob None swap
        by (simp add: process_redirect_child_fd_from_def Let_def r_def)
    next
      case dst: (Some old)
      define r0 where "r0 = he_rights ?dst"
      have c0: "cap_at ?a (child, nat cs) = Some (old, r0)"
        using cs dst by (simp add: caps_a cap_at_def tc entry_at_def r0_def)
      let ?b = "set_slot child (nat cs) empty_entry ?a"
      have ib0: "caps_inv ((old, r0) # (ob, r) # X) {} ?b" by (rule take_inv [OF ia c0])
      have ib: "caps_inv ((ob, r) # (old, r0) # X) {} ?b"
        by (rule caps_move [OF ib0]) (use tables [OF ib0] in auto)
      have hb: "handles ?b child = Some (tc[nat cs := empty_entry])" using tc by (simp add: set_slot_def)
      have "caps_inv ((old, r0) # X) {} (set_slot child (nat cs) \<lparr>he_obj = Some ob, he_rights = r\<rparr> ?b)"
        by (rule put_inv [OF ib hb]) (use cs rok tc cap_at_slot [of ?a child tc] in \<open>auto simp: empty_entry_def\<close>)
      moreover have "set_slot child (nat cs) \<lparr>he_obj = Some ob, he_rights = r\<rparr> ?b = set_slot child (nat cs) ?src ?a"
        using tc src_eq by (simp add: set_slot_def)
      ultimately have "caps_inv X {} (release old r0 (set_slot child (nat cs) ?src ?a))"
        using release_inv [of old r0 X "{}"] by simp
      then show ?thesis using inv False s1 Some ob dst swap
        by (simp add: process_redirect_child_fd_from_def Let_def r_def r0_def release_def)
    qed
  qed
qed

lemma spawn_redirects_inv: "caps_inv X {} s \<Longrightarrow> caps_inv X {} (snd (spawn_redirects ae child rs s))"
proof (induction rs arbitrary: s)
  case (Cons r rs)
  define rm where "rm = (if sr_source_pid r = 0 then process_redirect_child_fd ae child (sr_child_fd r) (sr_parent_fd r) s
            else if \<not> proc_is_privileged (map_option (procs (osched s)) (ocur s)) then (- EPERM, s)
            else case process_find_by_pid (osched s) (sr_source_pid r) of
                   None \<Rightarrow> (- ESRCH, s)
                 | Some src \<Rightarrow> process_redirect_child_fd_from ae (Some src) child (sr_child_fd r) (sr_parent_fd r) s)"
  obtain e s1 where p: "rm = (e, s1)" by fastforce
  have "caps_inv X {} (snd rm)"
    using Cons.prems redirect_inv [OF Cons.prems]
    by (simp add: rm_def process_redirect_child_fd_def split: option.split)
  then have "caps_inv X {} s1" by (simp add: p)
  moreover have "spawn_redirects ae child (r # rs) s = (if e \<noteq> 0 then (e, s1) else spawn_redirects ae child rs s1)"
    using p unfolding rm_def by simp
  ultimately show ?case using Cons.IH by simp
qed simp

lemma stdio_inv:
  assumes inv: "caps_inv X {} s" and fresh: "\<And>ob. ae_obj ae = Some ob \<Longrightarrow> objs s ob = None" and new: "handles s p = None"
  shows "caps_inv X {} (snd (process_install_stdio ae p s))"
proof -
  obtain e s1 where s1: "handles_ensure (ae_tbl ae) p s = (e, s1)" by fastforce
  have i1: "caps_inv X {} s1" using ensure_inv [OF inv, of "ae_tbl ae" p] s1 by simp
  show ?thesis
  proof (cases "e \<noteq> 0 \<or> ae_obj ae = None")
    case True
    then show ?thesis using i1 s1 by (auto simp: process_install_stdio_def kobj_alloc_def)
  next
    case False
    then obtain con where con: "ae_obj ae = Some con" by auto
    have t1: "handles s1 p = Some (replicate NPROC_HANDLES empty_entry)"
      using s1 new False by (auto simp: handles_ensure_def ENOMEM_def split: if_splits)
    have f1: "objs s1 con = None" using fresh con ensure_frame(1) [of "ae_tbl ae" p s] s1 by simp
    define k0 where "k0 = zero_kobject\<lparr>ko_type := OBJ_TYPE_CONSOLE\<rparr>"
    define s2 where "s2 = s1\<lparr>objs := (objs s1)(con \<mapsto> k0),
      obj_live_count := (obj_live_count s1)(OBJ_TYPE_CONSOLE := obj_live_count s1 OBJ_TYPE_CONSOLE + 1)\<rparr>"
    have k0: "ko_type k0 = OBJ_TYPE_CONSOLE" "ko_ref k0 = 0" by (simp_all add: k0_def zero_kobject_def)
    have i2: "caps_inv X (insert con {}) s2"
      unfolding s2_def by (rule alloc_inv [OF i1 f1 k0]) (simp add: payload_ok_def k0)
    define up where "up = upd_obj con (\<lambda>k. k\<lparr>ko_ref := ko_ref k + 1\<rparr>)"
    have acq: "acquire con r s = up s" if "objs s con = Some k" "ko_type k = OBJ_TYPE_CONSOLE" for r s k
      using that by (simp add: acquire_def up_def pipe_handle_count_def)
    have step: "caps_inv X {} (up (set_slot p i \<lparr>he_obj = Some con, he_rights = r\<rparr> s)) \<and>
        handles (up (set_slot p i \<lparr>he_obj = Some con, he_rights = r\<rparr> s)) p = Some (t[i := \<lparr>he_obj = Some con, he_rights = r\<rparr>])"
      if "caps_inv X F s" "F \<subseteq> {con}" "handles s p = Some t" "i < length t" "he_obj (t ! i) = None" "rights_ok r"
        "objs s con = Some k" "ko_type k = OBJ_TYPE_CONSOLE" for i r s t k F
    proof -
      have "caps_inv ((con, r) # X) (F - {con}) (acquire con r s)" by (rule acquire_inv) (use that in auto)
      from put_inv [OF this, of p t i]
      have "caps_inv X {} (set_slot p i \<lparr>he_obj = Some con, he_rights = r\<rparr> (acquire con r s))"
        using that cap_at_cong [of "acquire con r s" s] by (auto simp: cap_at_def Diff_eq_empty_iff [THEN iffD2])
      moreover have "set_slot p i e (up s) = up (set_slot p i e s)" for e by (simp add: up_def set_slot_def upd_obj_def)
      moreover have "handles (up (set_slot p i e s)) p = Some (t[i := e])" for e using that(3) by (simp add: up_def set_slot_def)
      ultimately show ?thesis using acq [OF that(7,8), of r] by simp
    qed
    let ?e0 = "\<lparr>he_obj = Some con, he_rights = OS1_RIGHT_READ\<rparr>" let ?e1 = "\<lparr>he_obj = Some con, he_rights = OS1_RIGHT_WRITE\<rparr>"
    have ok: "rights_ok OS1_RIGHT_READ" "rights_ok OS1_RIGHT_WRITE"
      by (simp_all add: rights_ok_def OS1_RIGHT_READ_def OS1_RIGHT_WRITE_def OS1_RIGHT_ALL_def OS1_RIGHT_WAIT_def
          OS1_RIGHT_DUPLICATE_def OS1_RIGHT_TRANSFER_def OS1_RIGHT_DESTROY_def OS1_RIGHT_MUTATE_def)
    define a0 where "a0 = up (set_slot p 0 ?e0 s2)"
    define a1 where "a1 = up (set_slot p 1 ?e1 a0)"
    define a2 where "a2 = up (set_slot p 2 ?e1 a1)"
    let ?t = "replicate NPROC_HANDLES empty_entry"
    have 0: "caps_inv X {} a0 \<and> handles a0 p = Some (?t[0 := ?e0])"
      unfolding a0_def by (rule step [OF i2]) (use t1 ok k0 in \<open>auto simp: s2_def NPROC_HANDLES_def empty_entry_def\<close>)
    have o0: "objs a0 con = Some (k0\<lparr>ko_ref := 1\<rparr>)" by (simp add: a0_def up_def s2_def k0)
    have 1: "caps_inv X {} a1 \<and> handles a1 p = Some ((?t[0 := ?e0])[1 := ?e1])"
      unfolding a1_def by (rule step [where F = "{}" and k = "k0\<lparr>ko_ref := 1\<rparr>"]) (use 0 o0 ok k0 in \<open>auto simp: NPROC_HANDLES_def empty_entry_def\<close>)
    have o1: "objs a1 con = Some (k0\<lparr>ko_ref := 2\<rparr>)" by (simp add: a1_def up_def o0)
    have 2: "caps_inv X {} a2"
      unfolding a2_def
      by (rule step [where F = "{}" and k = "k0\<lparr>ko_ref := 2\<rparr>", THEN conjunct1]) (use 1 o1 ok k0 in \<open>auto simp: NPROC_HANDLES_def empty_entry_def nth_list_update\<close>)
    have "a2 = upd_obj con (\<lambda>k. k\<lparr>ko_ref := 3\<rparr>) (set_slot p 2 ?e1 (set_slot p 1 ?e1 (set_slot p 0 ?e0 s2)))"
      using k0 by (simp add: a2_def a1_def a0_def up_def set_slot_def upd_obj_def s2_def)
    then show ?thesis using 2 False con s1
      by (simp add: process_install_stdio_def kobj_alloc_def Let_def s2_def k0_def)
  qed
qed

section \<open>Sending capabilities\<close>

text \<open>The handles installed by a send: distinct slots, each with a copy of a capability that is held elsewhere too.\<close>

definition backed :: "pref \<Rightarrow> nat list \<Rightarrow> objsys \<Rightarrow> bool" where
  "backed rcv inst s \<longleftrightarrow> distinct inst \<and>
     (\<forall>i\<in>set inst. \<exists>v k. cap_at s (rcv, i) = Some v \<and> k \<notin> Pair rcv ` set inst \<and> cap_at s k = Some v)"

lemma backedD:
  assumes "backed rcv inst s" "i \<in> set inst"
  obtains ob r k where "cap_at s (rcv, i) = Some (ob, r)" "k \<notin> Pair rcv ` set inst" "cap_at s k = Some (ob, r)"
  using assms unfolding backed_def by (metis surj_pair)

lemma backed_snoc:
  assumes b: "backed rcv inst s" and src: "cap_at s k0 = Some v" and free: "cap_at s (rcv, i) = None"
    and c': "cap_at s' = (cap_at s)((rcv, i) \<mapsto> v)"
  shows "backed rcv (inst @ [i]) s'"
proof -
  have new: "i \<notin> set inst" using b free by (auto elim: backedD)
  have keep: "\<exists>k. k \<notin> Pair rcv ` set (inst @ [i]) \<and> cap_at s' k = Some u"
    if "k \<notin> Pair rcv ` set inst" "cap_at s k = Some u" for k u
    using that free c' by (intro exI [of _ k]) auto
  have bk: "\<exists>k. k \<notin> Pair rcv ` set (inst @ [i]) \<and> cap_at s' k = Some u" if "j \<in> set inst" "cap_at s (rcv, j) = Some u" for j u
    using b that(1) by (rule backedD) (use that(2) keep in auto)
  have "\<exists>k. k \<notin> Pair rcv ` set (inst @ [i]) \<and> cap_at s' k = Some v"
  proof (cases "k0 \<in> Pair rcv ` set inst")
    case True
    then obtain j where "k0 = (rcv, j)" "j \<in> set inst" by auto
    then show ?thesis using bk [of j v] src by blast
  next
    case False
    then show ?thesis using keep src by blast
  qed
  moreover have "\<exists>u k. cap_at s' (rcv, j) = Some u \<and> k \<notin> Pair rcv ` set (inst @ [i]) \<and> cap_at s' k = Some u" if "j \<in> set inst" for j
  proof -
    obtain ob r where j: "cap_at s (rcv, j) = Some (ob, r)" by (rule backedD [OF b \<open>j \<in> set inst\<close>])
    then have "cap_at s' (rcv, j) = Some (ob, r)" using free c' by auto
    then show ?thesis using bk [OF that j] by blast
  qed
  moreover have "cap_at s' (rcv, i) = Some v" "distinct (inst @ [i])" using new b c' by (auto simp: backed_def)
  ultimately show ?thesis unfolding backed_def by fastforce
qed

lemma install_caps:
  assumes "handle_install_locked p ob r s = (h, s')" "0 \<le> h"
  shows "cap_at s' = (cap_at s)((p, nat h) \<mapsto> (ob, r))" "cap_at s (p, nat h) = None"
  using assms by (auto elim!: install_cases simp: cap_at_slot cap_at_cong [of "acquire ob r s" s])

lemma ocur_frame [simp]: "ocur (set_slot p i e s) = ocur s" "ocur (upd_obj ob f s) = ocur s" "ocur (owake q s) = ocur s"
  "ocur (unpublish ob s) = ocur s"
  by (simp_all add: ocur_def set_slot_def upd_obj_def owake_def set_sched_def unpublish_def)

lemma ocur_phc [simp]: "ocur (pipe_handle_count ob r d s) = ocur s"
  by (simp add: pipe_handle_count_def port_count_read_def port_count_write_def pipe_count_read_def pipe_count_write_def
      Let_def split: option.split)

lemma ocur_install [simp]: "ocur (snd (handle_install_locked p ob r s)) = ocur s"
  by (cases "handle_install_locked p ob r s") (auto elim!: install_cases simp: acquire_def)

lemma send_install_inv:
  assumes "caps_inv X {} s" "backed rcv inst s" "send_install rcv fds inst s = (e, inst', s')"
  shows "caps_inv X {} s' \<and> backed rcv inst' s' \<and> port_table s' = port_table s \<and> opins s' = opins s
    \<and> (\<exists>new. inst' = inst @ new \<and> (\<forall>i\<in>set new. cap_at s (rcv, i) = None)
         \<and> (\<forall>k. k \<notin> Pair rcv ` set new \<longrightarrow> cap_at s' k = cap_at s k))"
  using assms
proof (induction fds arbitrary: inst s)
  case Nil
  then show ?case by (auto intro!: exI [of _ "[]"])
next
  case (Cons f fds)
  show ?case
  proof (cases "handle_slot f s")
    case None
    then show ?thesis using Cons.prems by (auto intro!: exI [of _ "[]"])
  next
    case (Some v)
    obtain p i ob r where v: "v = (p, i, ob, r)" by (cases v)
    obtain h s1 where ins: "handle_install_locked rcv ob r s = (h, s1)" by fastforce
    have src: "cap_at s (p, i) = Some (ob, r)"
      using handle_slotD(3) [of f s p i ob r] Some v tables [OF Cons.prems(1)] by simp
    show ?thesis
    proof (cases "h < 0")
      case True
      then show ?thesis using Cons.prems Some v ins install_neg [OF ins] by (auto intro!: exI [of _ "[]"])
    next
      case False
      have rok: "rights_ok r" using rights_ok_cap [OF tables [OF Cons.prems(1)] src] .
      have i1: "caps_inv X {} s1" using install_inv0 [OF Cons.prems(1) held_obj [OF Cons.prems(1) src] rok, of rcv] ins by simp
      have c1: "cap_at s1 = (cap_at s)((rcv, nat h) \<mapsto> (ob, r))" "cap_at s (rcv, nat h) = None"
        using install_caps [OF ins] False by auto
      have fr: "port_table s1 = port_table s" "opins s1 = opins s" using ins False by (auto elim!: install_cases)
      have b1: "backed rcv (inst @ [nat h]) s1" by (rule backed_snoc [OF Cons.prems(2) src c1(2,1)])
      have "send_install rcv fds (inst @ [nat h]) s1 = (e, inst', s')" using Cons.prems(3) Some v ins False by simp
      from Cons.IH [OF i1 b1 this] obtain new where
        "caps_inv X {} s' \<and> backed rcv inst' s' \<and> port_table s' = port_table s1 \<and> opins s' = opins s1" and
        new: "inst' = (inst @ [nat h]) @ new" "\<forall>i\<in>set new. cap_at s1 (rcv, i) = None"
          "\<forall>k. k \<notin> Pair rcv ` set new \<longrightarrow> cap_at s' k = cap_at s1 k" by blast
      moreover have "\<exists>new. inst' = inst @ new \<and> (\<forall>i\<in>set new. cap_at s (rcv, i) = None)
         \<and> (\<forall>k. k \<notin> Pair rcv ` set new \<longrightarrow> cap_at s' k = cap_at s k)"
      proof (intro exI conjI ballI allI impI)
        show "inst' = inst @ (nat h # new)" using new(1) by simp
        fix i assume "i \<in> set (nat h # new)"
        then show "cap_at s (rcv, i) = None" using c1 new(2) by (cases "i = nat h") auto
      next
        fix k assume "k \<notin> Pair rcv ` set (nat h # new)"
        then have "k \<noteq> (rcv, nat h)" "k \<notin> Pair rcv ` set new" by auto
        moreover from this(2) have "cap_at s' k = cap_at s1 k" using new(3) by blast
        ultimately show "cap_at s' k = cap_at s k" by (simp add: c1(1))
      qed
      ultimately show ?thesis using fr by simp
    qed
  qed
qed

lemma unlink_slot:
  "set_slot p i e (unlink_ref ob r s) = unlink_ref ob r (set_slot p i e s)"
proof -
  have u: "upd_obj ob f (s\<lparr>handles := h\<rparr>) = (upd_obj ob f s)\<lparr>handles := h\<rparr>" for f h s by (simp add: upd_obj_def)
  show ?thesis by (simp add: unlink_ref_def set_slot_def phc_handles_update u)
qed

lemma send_unwind_inv:
  assumes "caps_inv X {} s" "backed rcv inst s"
  shows "\<exists>s'. send_unwind rcv inst tf s = (tf, s') \<and> caps_inv X {} s' \<and> port_table s' = port_table s \<and> opins s' = opins s
    \<and> cap_at s' = (\<lambda>k. if k \<in> Pair rcv ` set inst then None else cap_at s k)"
  using assms
proof (induction inst arbitrary: s)
  case Nil
  then show ?case by auto
next
  case (Cons i inst)
  obtain ob r k where c: "cap_at s (rcv, i) = Some (ob, r)" "k \<notin> Pair rcv ` set (i # inst)" "cap_at s k = Some (ob, r)"
    using Cons.prems(2) by (rule backedD [where i = i]) simp
  obtain t where t: "handles s rcv = Some t" "i < length t" "he_obj (t ! i) = Some ob" "he_rights (t ! i) = r"
    using c(1) by (rule cap_at_SomeD)
  let ?e = "set_slot rcv i empty_entry s" let ?s1 = "unlink_ref ob r ?e"
  have ce: "cap_at ?e = (cap_at s)((rcv, i) := None)" using cap_at_slot [OF t(1,2)] by (simp add: empty_entry_def)
  have cu: "cap_at ?s1 = (cap_at s)((rcv, i) := None)" using cap_at_cong [of ?s1 ?e] ce by simp
  have u: "caps_inv X (insert ob {}) ?s1" by (rule unlink_inv) (rule take_inv [OF Cons.prems(1) c(1)])
  have kne: "k \<noteq> (rcv, i)" using c(2) by auto
  obtain k1 where k1: "objs ?s1 ob = Some k1"
    using held_obj [OF Cons.prems(1) c(1)] by auto
  have pos: "0 < ko_ref k1"
  proof -
    have "0 < counts ?s1 X (refs_to ob)"
      unfolding counts_def by (rule held_pos_mem [of _ k "(ob, r)"]) (use cu c(3) kne tables [OF u] in \<open>auto simp: tables_ok_def\<close>)
    then show ?thesis using inv_some [OF u k1] by simp
  qed
  have i1: "caps_inv X {} ?s1" using inv_shrink [OF u k1 pos] by simp
  have b1: "backed rcv inst ?s1"
    unfolding backed_def
  proof (intro conjI ballI)
    show "distinct inst" using Cons.prems(2) by (simp add: backed_def)
    fix j assume j: "j \<in> set inst"
    obtain ob1 r1 k' where k': "cap_at s (rcv, j) = Some (ob1, r1)" "k' \<notin> Pair rcv ` set (i # inst)" "cap_at s k' = Some (ob1, r1)"
      using Cons.prems(2) by (rule backedD [where i = j]) (use j in simp_all)
    moreover have "j \<noteq> i" using j Cons.prems(2) by (auto simp: backed_def)
    ultimately show "\<exists>v k. cap_at ?s1 (rcv, j) = Some v \<and> k \<notin> Pair rcv ` set inst \<and> cap_at ?s1 k = Some v"
      unfolding cu by (intro exI [of _ "(ob1, r1)"] exI [of _ k']) auto
  qed
  have nlast: "port_table ?s1 = port_table s"
  proof -
    have "\<not> last_receiver r (- 1) (objs ?e ob)"
    proof
      assume "last_receiver r (- 1) (objs ?e ob)"
      then obtain k0 q where q: "has_right r OS1_RIGHT_READ" "objs s ob = Some k0" "ko_type k0 = OBJ_TYPE_PORT"
        "ko_port k0 = Some q" "kq_receivers q = 1" by (auto simp: last_receiver_def)
      then have "ko_port k1 = Some (adj_port r (- 1) q)" "ko_type k1 = OBJ_TYPE_PORT" using k1 by (auto simp: adj_port_of)
      then have "counts ?s1 X (with_right ob OS1_RIGHT_READ) = 0"
        using inv_some [OF u k1] q(1,5) by (auto simp: payload_ok_def)
      moreover have "0 < counts ?s1 X (with_right ob OS1_RIGHT_READ)"
        unfolding counts_def
        by (rule held_pos_mem [of _ k "(ob, r)"]) (use cu c(3) kne q(1) tables [OF u] in \<open>auto simp: tables_ok_def\<close>)
      ultimately show False by simp
    qed
    then show ?thesis by (simp add: unlink_ports)
  qed
  have e: "entry_at rcv i s = \<lparr>he_obj = Some ob, he_rights = r\<rparr>" using t by (simp add: entry_at_def)
  have "send_unwind rcv (i # inst) tf s =
      (let s1 = unlink_ref ob r s
       in send_unwind rcv inst (case objs s1 ob of None \<Rightarrow> tf | Some k \<Rightarrow> if ko_ref k \<le> 0 then Some ob else tf)
            (set_slot rcv i empty_entry s1))"
    unfolding send_unwind.simps e unlink_ref_def Let_def handle_entry.simps option.sel ..
  moreover have "objs (unlink_ref ob r s) ob = Some k1" using k1 by simp
  ultimately have "send_unwind rcv (i # inst) tf s = send_unwind rcv inst tf ?s1"
    using pos by (simp add: Let_def unlink_slot del: unlink_frame send_unwind.simps)
  then show ?case using Cons.IH [OF i1 b1] nlast cu by (auto simp: fun_eq_iff)
qed

end
