(* ===== verification/Object_Run.thy ===== *)
theory Object_Run
  imports Object_Ops
begin

text \<open>
  Object input and output, and the capability layer as a state machine.  The reads, writes, seeks and
  controls change no capability (\<open>benign\<close>), so they keep the invariant; every state reachable by any
  sequence of system calls and passes has it.
\<close>

unbundle bit_operations_syntax

section \<open>Ring buffers keep their shape\<close>

lemma ring_take_frame:
  "0 < cap \<Longrightarrow> rg_head r < cap \<Longrightarrow> ring_take cap n r = (xs, r1) \<Longrightarrow>
     r1 = r\<lparr>rg_head := (rg_head r + n) mod cap\<rparr> \<and> length xs = n"
proof (induction n arbitrary: r xs r1)
  case (Suc n)
  obtain ys r2 where y: "ring_take cap n (r\<lparr>rg_head := (rg_head r + 1) mod cap\<rparr>) = (ys, r2)" by fastforce
  from Suc.IH [OF Suc.prems(1) _ y] Suc.prems show ?case using y by (auto simp: mod_simps)
qed simp

lemma ring_put_frame:
  "0 < cap \<Longrightarrow> rg_tail r < cap \<Longrightarrow> \<exists>b. length b = length (rg_buf r) \<and>
     ring_put cap xs r = r\<lparr>rg_buf := b, rg_tail := (rg_tail r + length xs) mod cap\<rparr>"
proof (induction xs arbitrary: r)
  case (Cons x xs)
  from Cons.IH [of "r\<lparr>rg_buf := (rg_buf r)[rg_tail r := x], rg_tail := (rg_tail r + 1) mod cap\<rparr>"] Cons.prems
  show ?case by (auto simp: mod_simps)
next
  case Nil
  then show ?case by (intro exI [of _ "rg_buf r"]) simp
qed

lemma ring_ok_count: "ring_ok cap r \<Longrightarrow> rg_count r \<le> cap"
  by (simp add: ring_ok_def)

lemma ring_get_ok:
  assumes "ring_ok cap r" "n \<le> rg_count r" "ring_get cap n r = (xs, r1)"
  shows "ring_ok cap r1" "length xs = n" "rg_count r1 = rg_count r - n"
proof -
  obtain r2 where t: "ring_take cap n r = (xs, r2)" "r1 = r2\<lparr>rg_count := rg_count r2 - n\<rparr>"
    using assms(3) by (auto simp: ring_get_def split: prod.splits)
  have cap: "0 < cap" "rg_head r < cap" using assms(1) by (auto simp: ring_ok_def)
  from ring_take_frame [OF cap t(1)] have r2: "r2 = r\<lparr>rg_head := (rg_head r + n) mod cap\<rparr>" "length xs = n" by auto
  have "((rg_head r + n) mod cap + (rg_count r - n)) mod cap = (rg_head r + rg_count r) mod cap"
    using assms(2) by (subst mod_add_left_eq) (simp add: algebra_simps)
  then show "ring_ok cap r1" "length xs = n" "rg_count r1 = rg_count r - n"
    using assms(1) cap r2 t(2) by (auto simp: ring_ok_def)
qed

lemma ring_add_ok:
  assumes "ring_ok cap r" "rg_count r + length xs \<le> cap"
  shows "ring_ok cap (ring_add cap xs r)" "rg_count (ring_add cap xs r) = rg_count r + length xs"
proof -
  have cap: "0 < cap" "rg_tail r < cap" using assms(1) by (auto simp: ring_ok_def)
  obtain b where "length b = length (rg_buf r)"
    "ring_put cap xs r = r\<lparr>rg_buf := b, rg_tail := (rg_tail r + length xs) mod cap\<rparr>"
    using ring_put_frame [OF cap] by blast
  then show "ring_ok cap (ring_add cap xs r)" "rg_count (ring_add cap xs r) = rg_count r + length xs"
    using assms by (auto simp: ring_ok_def ring_add_def mod_simps add.assoc)
qed

section \<open>Operations that leave the capabilities alone\<close>

definition core_eq :: "kobject \<Rightarrow> kobject \<Rightarrow> bool" where
  "core_eq k k' \<longleftrightarrow> ko_type k' = ko_type k \<and> ko_ref k' = ko_ref k \<and> (\<forall>c. payload_ok c k \<longrightarrow> payload_ok c k')
     \<and> map_option kq_receivers (ko_port k') = map_option kq_receivers (ko_port k)"

definition benign :: "objsys \<Rightarrow> objsys \<Rightarrow> bool" where
  "benign s s' \<longleftrightarrow> handles s' = handles s \<and> opins s' = opins s \<and> port_table s' = port_table s
     \<and> obj_live_count s' = obj_live_count s 
     \<and> (\<forall>x. objs s' x = None \<longleftrightarrow> objs s x = None) \<and> (\<forall>x k k'. objs s x = Some k \<longrightarrow> objs s' x = Some k' \<longrightarrow> core_eq k k')"

lemma core_eq_refl [simp]: "core_eq k k"
  by (simp add: core_eq_def)

lemma core_eq_trans: "core_eq a b \<Longrightarrow> core_eq b c \<Longrightarrow> core_eq a c"
  by (simp add: core_eq_def)

lemma benign_refl [simp]: "benign s s"
  by (simp add: benign_def)

lemma benign_trans: "benign a b \<Longrightarrow> benign b c \<Longrightarrow> benign a c"
proof -
  assume a: "benign a b" and b: "benign b c"
  have "core_eq k k'" if k: "objs a x = Some k" "objs c x = Some k'" for x k k'
  proof -
    obtain k1 where "objs b x = Some k1" using a k(1) unfolding benign_def by (metis option.exhaust option.distinct(1))
    then show ?thesis using a b k unfolding benign_def by (blast intro: core_eq_trans)
  qed
  then show ?thesis using a b by (simp add: benign_def)
qed

lemma benign_set_vfs [simp]: "benign s (set_vfs v t) = benign s t"
  by (simp add: benign_def)

lemma benign_set_sched [simp]: "benign s (set_sched v t) = benign s t"
  by (simp add: benign_def)

lemma benign_owake [simp]: "benign s (owake q t) = benign s t"
  by (simp add: benign_def)

lemma benign_ovfs [simp]: "benign s (t\<lparr>ovfs := v\<rparr>) = benign s t"
  by (simp add: benign_def)

lemma benign_upd:
  assumes "\<And>k. objs s ob = Some k \<Longrightarrow> core_eq k (f k)"
  shows "benign s (upd_obj ob f s)"
  using assms by (auto simp: benign_def)

lemma benign_upd_trans:
  assumes "benign s t" "\<And>k. objs t ob = Some k \<Longrightarrow> core_eq k (f k)"
  shows "benign s (upd_obj ob f t)"
  using assms(1) benign_upd [of t ob f] assms(2) by (blast intro: benign_trans)

lemma benign_inv:
  assumes inv: "caps_inv X F s" and b: "benign s s'"
  shows "caps_inv X F s'"
proof -
  have f: "handles s' = handles s" "opins s' = opins s" "port_table s' = port_table s" "obj_live_count s' = obj_live_count s"
    and none: "\<And>x. objs s' x = None \<longleftrightarrow> objs s x = None"
    and rel: "\<And>x k k'. objs s x = Some k \<Longrightarrow> objs s' x = Some k' \<Longrightarrow> core_eq k k'" using b by (auto simp: benign_def)
  have c: "counts s' Y P = counts s Y P" for Y P by (rule counts_cong) (simp_all add: f)
  have "objs_ok X F s'"
  proof (rule objs_okI)
    show "counts s' X (refs_to x) = 0" if "objs s' x = None" for x
      using that none [of x] inv_none [OF inv, of x] by (simp add: c)
    show "ko_ref k = counts s' X (refs_to x) \<and> (0 < ko_ref k \<or> x \<in> F) \<and> payload_ok (\<lambda>r. counts s' X (with_right x r)) k"
      if k': "objs s' x = Some k" for x k
    proof -
      obtain k0 where k0: "objs s x = Some k0" "core_eq k0 k" using rel [of x] none [of x] k' by (cases "objs s x") auto
      then show ?thesis using inv_some [OF inv k0(1)] unfolding c core_eq_def by auto
    qed
  qed
  moreover have "ports_ok s'"
    unfolding ports_ok_def
  proof (intro conjI allI impI)
    show "length (port_table s') = PORT_TABLE_MAX" using inv by (simp add: f caps_inv_def ports_ok_def)
    fix x assume "Some x \<in> set (port_table s')"
    then obtain k q where k: "objs s x = Some k" "ko_type k = OBJ_TYPE_PORT" "ko_port k = Some q" "0 < kq_receivers q"
      using inv by (auto simp: f caps_inv_def ports_ok_def)
    then obtain k' where "objs s' x = Some k'" "core_eq k k'" using rel [of x] none [of x] by (cases "objs s' x") auto
    then show "\<exists>k q. objs s' x = Some k \<and> ko_type k = OBJ_TYPE_PORT \<and> ko_port k = Some q \<and> 0 < kq_receivers q"
      using k by (cases "ko_port k'") (auto simp: core_eq_def)
  qed
  moreover have "live_ok s'"
  proof (rule live_types [of s])
    show "map_option ko_type (objs s' x) = map_option ko_type (objs s x)" for x
    proof (cases "objs s x")
      case (Some k)
      then obtain k' where "objs s' x = Some k'" using none [of x] by (cases "objs s' x") auto
      then show ?thesis using rel [OF Some] Some by (simp add: core_eq_def)
    qed (use none [of x] in simp)
    show "live_ok s" using inv by (simp add: caps_inv_def)
    show "obj_live_count s' = obj_live_count s" by (rule f)
  qed
  ultimately show ?thesis using tables [OF inv] tables_cong [of s' s] f(1) by (simp add: caps_inv_def)
qed

lemma core_plain [simp]:
  "core_eq k (k\<lparr>ko_node := n\<rparr>)" "core_eq k (k\<lparr>ko_offset := x\<rparr>)"
  by (auto simp: core_eq_def payload_ok_def)

lemma core_pipe_ring:
  "ko_pipe k = Some q \<Longrightarrow> (ko_type k = OBJ_TYPE_PIPE \<Longrightarrow> ring_ok PIPE_BUF_SIZE (kp_ring q) \<Longrightarrow> ring_ok PIPE_BUF_SIZE (f (kp_ring q))) \<Longrightarrow>
   core_eq k (upd_pipe (\<lambda>x. x\<lparr>kp_ring := f (kp_ring x)\<rparr>) k)"
  by (auto simp: core_eq_def payload_ok_def upd_pipe_def)

lemma core_port_ring:
  "ko_port k = Some q \<Longrightarrow> (ko_type k = OBJ_TYPE_PORT \<Longrightarrow> ring_ok PORT_QUEUE_MAX (kq_ring q) \<Longrightarrow> ring_ok PORT_QUEUE_MAX (f (kq_ring q))) \<Longrightarrow>
   core_eq k (upd_port (\<lambda>x. x\<lparr>kq_ring := f (kq_ring x)\<rparr>) k)"
  by (auto simp: core_eq_def payload_ok_def upd_port_def)

lemma refresh_benign: "benign s (refresh_node ob path s)"
  by (auto simp: refresh_node_def intro!: benign_upd_trans split: prod.split option.split)

lemma enqueue_benign:
  assumes "objs s ob = Some k" "ko_port k = Some q" "rg_count (kq_ring q) < PORT_QUEUE_MAX"
  shows "benign s (port_enqueue ob m s)"
  unfolding port_enqueue_def
  by (rule benign_upd) (use assms in \<open>auto intro!: core_port_ring [where f = "ring_add PORT_QUEUE_MAX [m]"] ring_add_ok(1)\<close>)

lemma file_read_benign: "benign s (snd (file_read ie ob n s))"
proof -
  have 1: "benign s (refresh_node ob path s)" for path by (rule refresh_benign)
  show ?thesis
    by (auto simp: file_read_def Let_def iret_def refresh_benign intro!: benign_upd_trans split: prod.split sum.split)
qed

lemma port_read_benign:
  assumes "objs s ob = Some k"
  shows "benign s (snd (port_read ie ob n s))"
proof (cases "ko_port k")
  case None
  then show ?thesis using assms by (simp add: port_read_def iret_def)
next
  case (Some q)
  show ?thesis
  proof (cases "n < IPC_MSG_SIZE \<or> rg_count (kq_ring q) = 0")
    case True
    then show ?thesis using assms Some by (auto simp: port_read_def iret_def)
  next
    case False
    obtain ms r1 where g: "ring_get PORT_QUEUE_MAX 1 (kq_ring q) = (ms, r1)" by fastforce
    have "benign s (upd_obj ob (upd_port (\<lambda>x. x\<lparr>kq_ring := r1\<rparr>)) s)"
      by (rule benign_upd)
        (use assms Some False g in \<open>auto intro!: core_port_ring [where f = "\<lambda>_. r1"] ring_get_ok(1) [OF _ _ g]\<close>)
    then show ?thesis using assms Some False g by (simp add: port_read_def)
  qed
qed

lemma pipe_read_benign:
  assumes "objs s ob = Some k"
  shows "benign s (snd (pipe_read ie ob n s))"
proof (cases "ko_pipe k")
  case None
  then show ?thesis using assms by (simp add: pipe_read_def iret_def)
next
  case (Some q)
  show ?thesis
  proof (cases "n = 0 \<or> \<not> io_kb ie \<or> rg_count (kp_ring q) = 0")
    case True
    then show ?thesis using assms Some by (auto simp: pipe_read_def iret_def)
  next
    case False
    obtain ms r1 where g: "ring_get PIPE_BUF_SIZE (min (rg_count (kp_ring q)) n) (kp_ring q) = (ms, r1)" by fastforce
    have "benign s (upd_obj ob (upd_pipe (\<lambda>x. x\<lparr>kp_ring := r1\<rparr>)) s)"
      by (rule benign_upd)
        (use assms Some False g in \<open>auto intro!: core_pipe_ring [where f = "\<lambda>_. r1"] ring_get_ok(1) [OF _ _ g]\<close>)
    then show ?thesis using assms Some False g by (simp add: pipe_read_def)
  qed
qed

lemma read_pass_benign:
  assumes "objs s ob = Some k"
  shows "benign s (snd (object_read_pass ie ob n s))"
  using file_read_benign [of s ie ob n] port_read_benign [OF assms, of ie n] pipe_read_benign [OF assms, of ie n] assms
  by (auto simp: object_read_pass_def Let_def console_read_def iret_def split: obj_type.split prod.split option.split)

lemma pipe_write_benign:
  assumes "objs s ob = Some k"
  shows "benign s (snd (pipe_write ie ob n don s))"
proof (cases "ko_pipe k")
  case None
  then show ?thesis using assms by (simp add: pipe_write_def iret_def)
next
  case (Some q)
  define chunk where "chunk = min (n - don) (PIPE_BUF_SIZE - rg_count (kp_ring q))"
  have "benign s (upd_obj ob (upd_pipe (\<lambda>x. x\<lparr>kp_ring := ring_add PIPE_BUF_SIZE (take chunk (drop don (io_bytes ie))) (kp_ring x)\<rparr>)) s)"
  proof (rule benign_upd)
    fix k1 assume k1: "objs s ob = Some k1"
    show "core_eq k1 (upd_pipe (\<lambda>x. x\<lparr>kp_ring := ring_add PIPE_BUF_SIZE (take chunk (drop don (io_bytes ie))) (kp_ring x)\<rparr>) k1)"
      by (rule core_pipe_ring [where f = "ring_add PIPE_BUF_SIZE (take chunk (drop don (io_bytes ie)))" and q = q])
        (use k1 assms Some in \<open>auto simp: chunk_def dest: ring_ok_count intro!: ring_add_ok(1)\<close>)
  qed
  then show ?thesis using assms Some by (simp add: pipe_write_def Let_def iret_def chunk_def)
qed

lemma write_pass_benign:
  assumes "objs s ob = Some k"
  shows "benign s (snd (object_write_pass ie ob n don s))"
proof -
  have "benign s (snd (file_write ie ob n s))"
    by (auto simp: file_write_def Let_def iret_def intro!: benign_trans [OF _ refresh_benign] benign_upd_trans split: prod.split)
  moreover have "benign s (snd (port_write ie ob n s))"
    using enqueue_benign [OF assms] assms by (auto simp: port_write_def iret_def split: option.split)
  ultimately show ?thesis
    using pipe_write_benign [OF assms] assms
    by (auto simp: object_write_pass_def Let_def process_write_def regkey_write_def iret_def split: obj_type.split prod.split)
qed

section \<open>Pinned calls\<close>

lemma benign_opins: "benign s s' \<Longrightarrow> opins s' = opins s"
  by (simp add: benign_def)

lemma pin_handleD:
  assumes "pin_handle h need s = (Inr ob, s1)" "caps_inv X {} s"
  shows "caps_inv X {} s1" "ob \<in> set (opins s1)" "objs s1 ob \<noteq> None" "cap_at s1 = cap_at s"
    "\<exists>p i r. ocur s = Some p \<and> i = nat h \<and> cap_at s (p, i) = Some (ob, r) \<and> r AND need = need"
proof -
  obtain p i r where sl: "handle_slot h s = Some (p, i, ob, r)" "r AND need = need"
    and s1: "s1 = (upd_obj ob (\<lambda>k. k\<lparr>ko_ref := ko_ref k + 1\<rparr>) s)\<lparr>opins := ob # opins s\<rparr>"
    using assms(1) by (auto simp: pin_handle_def split: option.splits if_splits)
  have c: "ocur s = Some p" "i = nat h" "cap_at s (p, i) = Some (ob, r)" using handle_slotD [OF sl(1) tables [OF assms(2)]] by auto
  have ob: "objs s ob \<noteq> None" by (rule held_obj [OF assms(2) c(3)])
  show "caps_inv X {} s1" using pin_inv [OF assms(2) ob] s1 by simp
  show "ob \<in> set (opins s1)" "objs s1 ob \<noteq> None" using ob s1 by auto
  show "cap_at s1 = cap_at s" by (rule cap_at_cong) (simp add: s1)
  show "\<exists>p i r. ocur s = Some p \<and> i = nat h \<and> cap_at s (p, i) = Some (ob, r) \<and> r AND need = need" using c sl(2) by blast
qed

lemma pin_handle_err: "pin_handle h need s = (Inl e, s1) \<Longrightarrow> s1 = s"
  by (auto simp: pin_handle_def split: option.splits if_splits)

lemma with_pin_inv:
  assumes inv: "caps_inv X {} s"
    and f: "\<And>ob k t r t'. f ob k t = (r, t') \<Longrightarrow> caps_inv X {} t \<Longrightarrow> objs t ob = Some k \<Longrightarrow> caps_inv X {} t' \<and> opins t' = opins t"
  shows "caps_inv X {} (snd (with_pin h need f s))"
proof (cases "pin_handle h need s")
  case (Pair res s1)
  show ?thesis
  proof (cases res)
    case (Inl e)
    then show ?thesis using Pair pin_handle_err [of h need s e s1] inv by (simp add: with_pin_def)
  next
    case (Inr ob)
    note p = pin_handleD [OF Pair [unfolded Inr] inv]
    obtain r s2 where s2: "f ob (the (objs s1 ob)) s1 = (r, s2)" by fastforce
    have "caps_inv X {} s2" "opins s2 = opins s1" using f [OF s2 p(1)] p(3) by auto
    then show ?thesis using unpin_inv [of X "{}" s2 ob] p(2) Pair Inr s2 by (simp add: with_pin_def)
  qed
qed

lemma with_pin_benign:
  assumes "caps_inv X {} s" "\<And>ob k t. objs t ob = Some k \<Longrightarrow> benign t (snd (f ob k t))"
  shows "caps_inv X {} (snd (with_pin h need f s))"
proof (rule with_pin_inv [OF assms(1)])
  fix ob k t r t' assume a: "f ob k t = (r, t')" "caps_inv X {} t" "objs t ob = Some k"
  have "benign t t'" using assms(2) [OF a(3)] a(1) by simp
  then show "caps_inv X {} t' \<and> opins t' = opins t" using benign_inv [OF a(2)] by (simp add: benign_opins)
qed

lemma send_install_err: "send_install rcv fds inst s = (e, inst', s') \<Longrightarrow> e \<le> 0"
proof (induction fds arbitrary: inst s)
  case (Cons f fds)
  show ?case
  proof (cases "handle_slot f s")
    case None
    then show ?thesis using Cons.prems by (simp add: EBADF_def)
  next
    case (Some v)
    then show ?thesis using Cons by (auto split: prod.splits if_splits)
  qed
qed simp

lemma install_types: "map_option ko_type (objs (snd (handle_install_locked p ob r s)) x) = map_option ko_type (objs s x)"
  by (cases "handle_install_locked p ob r s") (auto elim!: install_cases simp: option.map_comp comp_def)

lemma send_install_types:
  "send_install rcv fds inst s = (e, inst', s') \<Longrightarrow> map_option ko_type (objs s' x) = map_option ko_type (objs s x)"
proof (induction fds arbitrary: inst s)
  case (Cons f fds)
  show ?case
  proof (cases "handle_slot f s")
    case None
    then show ?thesis using Cons.prems by simp
  next
    case (Some v)
    obtain p i ob r where v: "v = (p, i, ob, r)" by (cases v)
    obtain h s1 where ins: "handle_install_locked rcv ob r s = (h, s1)" by fastforce
    have "map_option ko_type (objs s1 x) = map_option ko_type (objs s x)" using install_types [of rcv ob r s x] ins by simp
    then show ?thesis using Cons.prems Cons.IH [of "inst @ [nat h]" s1] Some v ins by (auto split: if_splits)
  qed
qed simp

lemma send_locked_inv:
  assumes inv: "caps_inv X {} s" and k: "objs s ob = Some k" "ko_type k = OBJ_TYPE_PORT"
    and res: "send_locked ob rcv m fds s = (ret, tf, s')"
  shows "caps_inv X {} s'" "opins s' = opins s" "tf = None" "ret < 0 \<longrightarrow> cap_at s' = cap_at s \<and> port_table s' = port_table s"
proof -
  obtain e inst s1 where i: "send_install rcv fds [] s = (e, inst, s1)" by (cases "send_install rcv fds [] s") auto
  have "backed rcv [] s" by (simp add: backed_def)
  from send_install_inv [OF inv this i] have
    i1: "caps_inv X {} s1" "backed rcv inst s1" "port_table s1 = port_table s" "opins s1 = opins s"
    and new: "\<forall>i\<in>set inst. cap_at s (rcv, i) = None" "\<forall>k. k \<notin> Pair rcv ` set inst \<longrightarrow> cap_at s1 k = cap_at s k" by auto
  define q where "q = the (ko_port (the (objs s1 ob)))"
  define ret0 where "ret0 = (if e \<noteq> 0 then e
                     else if kq_receivers q = 0 then - EPIPE
                     else if rg_count (kq_ring q) \<ge> PORT_QUEUE_MAX then - EAGAIN
                     else int IPC_MSG_SIZE)"
  have eq: "send_locked ob rcv m fds s =
      (if ret0 < 0 then (case send_unwind rcv inst None s1 of (tf, s2) \<Rightarrow> (ret0, tf, s2))
       else (ret0, None, port_enqueue ob (stamp_caps (cur_pid s1) inst m) s1))"
    by (simp add: send_locked_def i Let_def q_def [symmetric] ret0_def)
  have all: "caps_inv X {} s' \<and> opins s' = opins s \<and> tf = None \<and> (ret < 0 \<longrightarrow> cap_at s' = cap_at s \<and> port_table s' = port_table s)"
  proof (cases "ret0 < 0")
    case True
    obtain s2 where u: "send_unwind rcv inst None s1 = (None, s2)" "caps_inv X {} s2" "port_table s2 = port_table s1"
      "opins s2 = opins s1" "cap_at s2 = (\<lambda>k. if k \<in> Pair rcv ` set inst then None else cap_at s1 k)"
      using send_unwind_inv [OF i1(1,2), of None] by auto
    have "cap_at s2 k = cap_at s k" for k
    proof (cases "k \<in> Pair rcv ` set inst")
      case True
      then show ?thesis using new(1) u(5) by auto
    next
      case False
      then have "cap_at s1 k = cap_at s k" using new(2) by blast
      then show ?thesis using False u(5) by simp
    qed
    then show ?thesis using u True res eq i1 by auto
  next
    case False
    then have "e = 0" "kq_receivers q \<noteq> 0" "rg_count (kq_ring q) < PORT_QUEUE_MAX"
      using send_install_err [OF i] by (auto simp: ret0_def EPIPE_def EAGAIN_def split: if_splits)
    moreover obtain k1 where k1: "objs s1 ob = Some k1" "ko_type k1 = OBJ_TYPE_PORT"
      using send_install_types [OF i, of ob] k by (cases "objs s1 ob") auto
    moreover obtain q1 where q1: "ko_port k1 = Some q1" using inv_some [OF i1(1) k1(1)] k1(2) by (auto simp: payload_ok_def)
    ultimately have "benign s1 s'" using False res eq enqueue_benign [OF k1(1) q1] by (auto simp: q_def)
    then show ?thesis using False res eq i1 benign_inv [OF i1(1)] by (auto simp: benign_opins)
  qed
  then show "caps_inv X {} s'" "opins s' = opins s" "tf = None" "ret < 0 \<longrightarrow> cap_at s' = cap_at s \<and> port_table s' = port_table s"
    by auto
qed

lemma send_locked_ok:
  assumes "send_locked ob rcv m fds s = (ret, tf, s')" "0 \<le> ret" "send_install rcv fds [] s = (e, inst, s1)"
  shows "s' = port_enqueue ob (stamp_caps (cur_pid s1) inst m) s1" "e = 0" "ret = int IPC_MSG_SIZE"
proof -
  define q where "q = the (ko_port (the (objs s1 ob)))"
  define ret0 where "ret0 = (if e \<noteq> 0 then e
                     else if kq_receivers q = 0 then - EPIPE
                     else if rg_count (kq_ring q) \<ge> PORT_QUEUE_MAX then - EAGAIN
                     else int IPC_MSG_SIZE)"
  obtain tf2 s2 where u: "send_unwind rcv inst None s1 = (tf2, s2)" by fastforce
  have "send_locked ob rcv m fds s =
      (if ret0 < 0 then (ret0, tf2, s2) else (ret0, None, port_enqueue ob (stamp_caps (cur_pid s1) inst m) s1))"
    by (simp add: send_locked_def assms(3) Let_def q_def [symmetric] ret0_def u)
  then have r: "ret = ret0" "s' = port_enqueue ob (stamp_caps (cur_pid s1) inst m) s1" using assms(1,2) by (auto split: if_splits)
  then show "s' = port_enqueue ob (stamp_caps (cur_pid s1) inst m) s1" by simp
  show "e = 0" "ret = int IPC_MSG_SIZE"
    using r(1) assms(2) send_install_err [OF assms(3)] by (auto simp: ret0_def EPIPE_def EAGAIN_def split: if_splits)
qed

lemma send_caps_body_cases:
  assumes a: "send_caps_body um fds ob k t = (r, t')" "caps_inv X {} t" "objs t ob = Some k"
  obtains "t' = t" "r < 0"
  | rcv m fs kp s1 where "ko_type k = OBJ_TYPE_PORT" "ko_port k = Some kp" "um = Some m" "fds = Some fs"
      "process_find_by_pid (osched t) (kq_owner kp) = Some rcv" "send_locked ob rcv m fs t = (r, None, s1)"
      "t' = (if r > 0 then owake (rq_of ob) s1 else s1)"
proof (cases "ko_port k = None \<or> ko_type k \<noteq> OBJ_TYPE_PORT \<or> um = None \<or> fds = None")
  case True
  then have "t' = t \<and> r < 0" using a(1) by (auto simp: send_caps_body_def EINVAL_def EFAULT_def split: option.splits if_splits)
  then show thesis using that(1) by blast
next
  case False
  then obtain kp m fs where f: "ko_port k = Some kp" "ko_type k = OBJ_TYPE_PORT" "um = Some m" "fds = Some fs" by auto
  show thesis
  proof (cases "process_find_by_pid (osched t) (kq_owner kp)")
    case None
    then show thesis using a(1) f that(1) by (simp add: send_caps_body_def ESRCH_def)
  next
    case (Some rcv)
    obtain ret tf s1 where l: "send_locked ob rcv m fs t = (ret, tf, s1)" by (cases "send_locked ob rcv m fs t") auto
    have tf: "tf = None" by (rule send_locked_inv(3) [OF a(2,3) f(2) l])
    show thesis
    proof (cases "handles t rcv = None")
      case True
      then show thesis using a(1) f Some that(1) by (simp add: send_caps_body_def ENOMEM_def)
    next
      case False
      then obtain tb where "handles t rcv = Some tb" by auto
      then have "(r, t') = (ret, if ret > 0 then owake (rq_of ob) s1 else s1)"
        using a(1) f Some l tf by (auto simp: send_caps_body_def Let_def)
      then show thesis using that(2) [OF f(2,1,3,4) Some, of s1] l tf by simp
    qed
  qed
qed

lemma send_caps_inv:
  assumes inv: "caps_inv X {} s"
  shows "caps_inv X {} (snd (sys_port_send_caps h um ufds nfds s))"
proof -
  have "caps_inv X {} (snd (with_pin h OS1_RIGHT_WRITE (send_caps_body um fds) s))" for fds
  proof (rule with_pin_inv [OF inv])
    fix ob k t r t' assume a: "send_caps_body um fds ob k t = (r, t')" "caps_inv X {} t" "objs t ob = Some k"
    from a show "caps_inv X {} t' \<and> opins t' = opins t"
    proof (cases rule: send_caps_body_cases)
      case 1
      then show ?thesis using a(2) by simp
    next
      case (2 rcv m fs kp s1)
      then show ?thesis using send_locked_inv(1,2) [OF a(2,3) 2(1) 2(6)] by simp
    qed
  qed
  then show ?thesis using inv by (simp add: sys_port_send_caps_def)
qed

lemma finish_inv:
  assumes "caps_inv X {} s" "ob \<in> set (opins s)" "benign s (snd rs)"
  shows "caps_inv X {} (snd (finish_pass ob rs))"
proof (cases rs)
  case (Pair res s')
  have i: "caps_inv X {} s'" "opins s' = opins s" using benign_inv [OF assms(1,3)] benign_opins [OF assms(3)] Pair by auto
  then show ?thesis using unpin_inv [of X "{}" s' ob] assms(2) Pair by (cases res) (auto simp: finish_pass_def)
qed

lemma read_inv:
  assumes inv: "caps_inv X {} s"
  shows "caps_inv X {} (snd (sys_object_read ie h n s))"
proof (cases "pin_handle h OS1_RIGHT_READ s")
  case (Pair res s1)
  show ?thesis
  proof (cases res)
    case (Inl e)
    then show ?thesis using Pair pin_handle_err [of h OS1_RIGHT_READ s e s1] inv by (simp add: sys_object_read_def iret_def)
  next
    case (Inr ob)
    note p = pin_handleD [OF Pair [unfolded Inr] inv]
    then obtain k where "objs s1 ob = Some k" by auto
    then show ?thesis using finish_inv [OF p(1,2) read_pass_benign] Pair Inr inv by (simp add: sys_object_read_def iret_def)
  qed
qed

lemma write_inv:
  assumes inv: "caps_inv X {} s"
  shows "caps_inv X {} (snd (sys_object_write ie h n s))"
proof (cases "pin_handle h OS1_RIGHT_WRITE s")
  case (Pair res s1)
  show ?thesis
  proof (cases res)
    case (Inl e)
    then show ?thesis using Pair pin_handle_err [of h OS1_RIGHT_WRITE s e s1] inv by (simp add: sys_object_write_def iret_def)
  next
    case (Inr ob)
    note p = pin_handleD [OF Pair [unfolded Inr] inv]
    then obtain k where "objs s1 ob = Some k" by auto
    then show ?thesis using finish_inv [OF p(1,2) write_pass_benign] Pair Inr inv by (simp add: sys_object_write_def iret_def)
  qed
qed

lemma pinned_obj: "caps_inv X F s \<Longrightarrow> ob \<in> set (opins s) \<Longrightarrow> objs s ob \<noteq> None"
  using inv_none [of X F s ob] held_pos_extra [of "(ob, 0)" "X @ pins s" "refs_to ob" "cap_at s"]
  by (auto simp: counts_def pins_def)

lemma wait_inv: "caps_inv X {} s \<Longrightarrow> caps_inv X {} (snd (sys_object_wait h w c s))"
  unfolding sys_object_wait_def by (rule with_pin_benign) (auto split: prod.split)

lemma lseek_benign:
  "benign t (snd (if ko_type k \<noteq> OBJ_TYPE_FILE then (- ESPIPE, t)
     else (case seek_base wh k t of
             (base, t1) \<Rightarrow>
               let npos = sint (of_int (base + off) :: u64) in
               if base < 0 \<or> npos < 0 then (- EINVAL, t1)
               else (npos, upd_obj ob (\<lambda>x. x\<lparr>ko_offset := of_int npos\<rparr>) t1))))"
proof -
  have "benign t (snd (seek_base wh k t))" by (auto simp: seek_base_def split: prod.split option.split bool.split)
  then have b: "seek_base wh k t = (x, t') \<Longrightarrow> benign t t'" for x t' by (metis snd_conv)
  then show ?thesis by (auto simp: Let_def split: prod.split intro!: benign_upd_trans dest: b)
qed

lemma lseek_inv: "caps_inv X {} s \<Longrightarrow> caps_inv X {} (snd (sys_object_lseek h off wh s))"
  unfolding sys_object_lseek_def by (rule with_pin_benign) (assumption, rule lseek_benign)

lemma on_sched_benign [simp]: "benign t (snd (on_sched f t))"
  by (simp add: on_sched_def split: prod.split)

lemma ctl_benign:
  "benign t (snd (ctl_window c cmd ob k t))" "benign t (snd (ctl_seek arg ob k t))" "benign t (snd (ctl_setowner arg ob k t))"
  "benign t (snd (ctl_stat ob k t))" "benign t (snd (ctl_namespace cmd arg uname ob k t))"
  by (simp_all add: ctl_window_def ctl_seek_def ctl_setowner_def ctl_stat_def Let_def refresh_benign benign_upd)
    (simp add: ctl_namespace_def split: prod.split sum.split option.split)

lemma ctl_truncate_benign: "benign t (snd (ctl_truncate arg ob k t))"
proof -
  have "benign t (refresh_node ob p (upd_obj ob (\<lambda>x. x\<lparr>ko_offset := 0\<rparr>) (set_vfs v t)))" for p v
    by (rule benign_trans [OF _ refresh_benign]) (rule benign_upd_trans, simp_all)
  then show ?thesis by (simp add: ctl_truncate_def split: prod.split)
qed

lemma ctl_inv:
  assumes inv: "caps_inv X {} s"
  shows "caps_inv X {} (snd (sys_object_ctl c h cmd arg uname s))"
proof -
  have "caps_inv X {} (snd (with_pin h need f s))" if "\<And>ob k t. benign t (snd (f ob k t))" for need f
    by (rule with_pin_benign [OF inv]) (rule that)
  then show ?thesis
    using inv ctl_benign ctl_truncate_benign by (simp add: sys_object_ctl_def)
qed

section \<open>The capability system as a state machine\<close>

datatype obj_op =
    Create acq_env int user_str u32 int
  | Publish acq_env nat string u32
  | Dup int u32
  | Close int
  | Grant int int u32
  | Pipe acq_env bool
  | SendCaps int "ipc_message option" "int list option" int
  | Read io_env int nat
  | ReadAgain io_env oref nat
  | Write io_env int nat
  | WriteAgain io_env oref nat nat
  | Sleep nat oref nat
  | Wait int bool bool
  | Ctl nat int int int user_str
  | Lseek int int int
  | Stdio acq_env pref
  | Redirects acq_env pref "spawn_redir list"
  | Destroy pref

text \<open>
  A publication continues a lookup by the running process, whose table exists, with the slot that was free
  then; a pass continues a call that sleeps or loops and holds its pin.
\<close>

fun exec :: "obj_op \<Rightarrow> objsys \<Rightarrow> objsys" where
  "exec (Create ae ns path r ty) s = snd (sys_handle_create ae ns path r ty s)"
| "exec (Publish ae slot name r) s = (case ocur s of None \<Rightarrow> s | Some p \<Rightarrow> snd (port_publish ae p slot name (r AND OS1_RIGHT_ALL) s))"
| "exec (Dup h r) s = snd (sys_handle_dup h r s)"
| "exec (Close h) s = snd (sys_handle_close h s)"
| "exec (Grant n h r) s = snd (sys_cap_grant n h r s)"
| "exec (Pipe ae c) s = snd (sys_pipe ae c s)"
| "exec (SendCaps h m fds n) s = snd (sys_port_send_caps h m fds n s)"
| "exec (Read ie h n) s = snd (sys_object_read ie h n s)"
| "exec (ReadAgain ie ob n) s = snd (finish_pass ob (object_read_pass ie ob n s))"
| "exec (Write ie h n) s = snd (sys_object_write ie h n s)"
| "exec (WriteAgain ie ob n don) s = snd (finish_pass ob (object_write_pass ie ob n don s))"
| "exec (Sleep c ob q) s = object_block c ob q s"
| "exec (Wait h w c) s = snd (sys_object_wait h w c s)"
| "exec (Ctl c h cmd arg u) s = snd (sys_object_ctl c h cmd arg u s)"
| "exec (Lseek h off w) s = snd (sys_object_lseek h off w s)"
| "exec (Stdio ae p) s = snd (process_install_stdio ae p s)"
| "exec (Redirects ae p rs) s = snd (spawn_redirects ae p rs s)"
| "exec (Destroy p) s = process_handles_destroy p s"

definition fresh_obj :: "acq_env \<Rightarrow> objsys \<Rightarrow> bool" where
  "fresh_obj ae s \<longleftrightarrow> (case ae_obj ae of None \<Rightarrow> True | Some ob \<Rightarrow> objs s ob = None)"

fun op_ok :: "obj_op \<Rightarrow> objsys \<Rightarrow> bool" where
  "op_ok (Create ae ns path r ty) s = fresh_obj ae s"
| "op_ok (Publish ae slot name r) s = (fresh_obj ae s \<and> slot < PORT_TABLE_MAX \<and> has_right r OS1_RIGHT_READ)"
| "op_ok (Pipe ae c) s = fresh_obj ae s"
| "op_ok (Stdio ae p) s = (fresh_obj ae s \<and> handles s p = None)"
| "op_ok (ReadAgain ie ob n) s = (ob \<in> set (opins s))"
| "op_ok (WriteAgain ie ob n don) s = (ob \<in> set (opins s))"
| "op_ok _ s = True"

definition boot_objs :: "kworld vfs \<Rightarrow> objsys" where
  "boot_objs v = \<lparr>objs = (\<lambda>_. None), handles = (\<lambda>_. None), port_table = replicate PORT_TABLE_MAX None,
     obj_live_count = (\<lambda>_. 0), ovfs = v, opins = []\<rparr>"

inductive obj_reach :: "objsys \<Rightarrow> bool" where
  boot: "obj_reach (boot_objs v)"
| op: "obj_reach s \<Longrightarrow> op_ok op s \<Longrightarrow> obj_reach (exec op s)"
| kernel: "obj_reach s \<Longrightarrow> obj_reach (s\<lparr>ovfs := v\<rparr>)"

lemma boot_inv: "caps_inv [] {} (boot_objs v)"
proof -
  have "cap_at (boot_objs v) = (\<lambda>_. None)" by (rule ext) (simp add: cap_at_def boot_objs_def)
  then show ?thesis
    by (simp add: caps_inv_def tables_ok_def objs_ok_def ports_ok_def live_ok_def counts_def held_def pins_def boot_objs_def)
qed

lemma has_right_mask: "has_right (r AND OS1_RIGHT_ALL) OS1_RIGHT_READ = has_right r OS1_RIGHT_READ"
proof -
  have "OS1_RIGHT_ALL AND OS1_RIGHT_READ = OS1_RIGHT_READ"
    by (simp add: OS1_RIGHT_READ_def OS1_RIGHT_WRITE_def OS1_RIGHT_ALL_def OS1_RIGHT_WAIT_def
        OS1_RIGHT_DUPLICATE_def OS1_RIGHT_TRANSFER_def OS1_RIGHT_DESTROY_def OS1_RIGHT_MUTATE_def)
  then show ?thesis by (simp add: has_right_def and.assoc)
qed

lemma fresh_objD: "fresh_obj ae s \<Longrightarrow> ae_obj ae = Some ob \<Longrightarrow> objs s ob = None"
  by (simp add: fresh_obj_def)

lemma exec_inv:
  assumes inv: "caps_inv [] {} s" and ok: "op_ok op s"
  shows "caps_inv [] {} (exec op s)"
proof (cases op)
  case (Publish ae slot name r)
  then show ?thesis using ok inv publish_inv [OF inv, of ae "r AND OS1_RIGHT_ALL"] fresh_objD [of ae s]
    by (auto simp: has_right_mask split: option.split)
next
  case (ReadAgain ie ob n)
  then obtain k where "objs s ob = Some k" using pinned_obj [OF inv, of ob] ok by auto
  then show ?thesis using finish_inv [OF inv _ read_pass_benign] ReadAgain ok by simp
next
  case (WriteAgain ie ob n don)
  then obtain k where "objs s ob = Some k" using pinned_obj [OF inv, of ob] ok by auto
  then show ?thesis using finish_inv [OF inv _ write_pass_benign] WriteAgain ok by simp
next
  case (Create ae ns path r ty)
  then show ?thesis using create_inv [OF inv] ok fresh_objD [of ae s] by simp
next
  case (Pipe ae c)
  then show ?thesis using pipe_inv [OF inv] ok fresh_objD [of ae s] by simp
next
  case (Stdio ae p)
  then show ?thesis using stdio_inv [OF inv] ok fresh_objD [of ae s] by simp
qed (use inv dup_inv grant_inv sys_close_inv send_caps_inv read_inv write_inv wait_inv ctl_inv lseek_inv spawn_redirects_inv
      destroy_inv in \<open>simp_all add: object_block_def\<close>)

lemma reach_inv: "obj_reach s \<Longrightarrow> caps_inv [] {} s"
  by (induction rule: obj_reach.induct) (simp_all add: boot_inv exec_inv)

section \<open>Where capabilities come from\<close>

definition gain :: "objsys \<Rightarrow> objsys \<Rightarrow> (oref \<times> u32 \<Rightarrow> bool) \<Rightarrow> bool" where
  "gain s s' A \<longleftrightarrow> (\<forall>k v. cap_at s' k = Some v \<longrightarrow> cap_at s k = Some v \<or> A v)"

lemma gain_same: "cap_at s' = cap_at s \<Longrightarrow> gain s s' A"
  by (simp add: gain_def)

lemma gain_mono: "gain s s' A \<Longrightarrow> (\<And>v. A v \<Longrightarrow> B v) \<Longrightarrow> gain s s' B"
  unfolding gain_def by blast

lemma gain_trans: "gain s s1 A \<Longrightarrow> gain s1 s2 A \<Longrightarrow> gain s s2 A"
  unfolding gain_def by blast

lemma gain_install: "gain s (snd (handle_install_locked p ob r s)) (\<lambda>v. v = (ob, r))"
proof (cases "handle_install_locked p ob r s")
  case (Pair h s')
  show ?thesis
  proof (cases "h < 0")
    case True
    then show ?thesis using install_neg [OF Pair] Pair by (simp add: gain_def)
  next
    case False
    then show ?thesis using install_caps(1) [OF Pair] Pair by (auto simp: gain_def)
  qed
qed

lemma free_frame [simp]: "handles (kobj_free ob s) = handles s" "handles (drop_ref ob s) = handles s" "handles (obj_unref ob s) = handles s"
  by (simp_all add: kobj_free_def drop_ref_def obj_unref_def Let_def split: option.split)

lemma gain_cong: "cap_at t' = cap_at t \<Longrightarrow> gain s t' A = gain s t A" "cap_at t' = cap_at t \<Longrightarrow> gain t' s A = gain t s A"
  by (simp_all add: gain_def)

lemma gain_clear: "gain s (set_slot p i empty_entry s) A"
proof (cases "\<exists>t. handles s p = Some t \<and> i < length t")
  case True
  then show ?thesis by (auto simp: gain_def cap_at_slot empty_entry_def split: if_splits)
next
  case False
  then have "handles (set_slot p i empty_entry s) = handles s"
    by (intro ext) (auto simp: set_slot_def map_option_case list_update_beyond split: option.split)
  then show ?thesis by (intro gain_same cap_at_cong)
qed

lemma gain_release: "gain s (release ob r t) A = gain s t A"
  by (rule gain_cong, rule cap_at_cong) (simp add: release_def)

lemma gain_sys_close: "gain s (snd (sys_handle_close h s)) A"
  by (auto simp: sys_handle_close_def gain_same close_slot_release gain_release gain_clear split: option.split)

lemma gain_benign: "benign s s' \<Longrightarrow> gain s s' A"
  by (rule gain_same, rule cap_at_cong) (simp add: benign_def)

lemma gain_vfs [simp]: "gain s (set_vfs v t) A = gain s t A" "gain (set_vfs v s) t A = gain s t A"
  "gain s (owake q t) A = gain s t A" "gain s (set_sched k t) A = gain s t A"
  unfolding gain_def
  by (simp_all add: cap_at_cong [of "set_vfs v t" t] cap_at_cong [of "set_vfs v s" s] cap_at_cong [of "owake q t" t]
      cap_at_cong [of "set_sched k t" t])

lemma gain_new: "gain s (snd (new_object a ty init p r s)) (\<lambda>v. a = Some (fst v))"
proof (cases a)
  case None
  then show ?thesis by (simp add: new_object_def kobj_alloc_def gain_same)
next
  case (Some ob)
  let ?s1 = "upd_obj ob init (snd (kobj_alloc a ty s))"
  have c: "cap_at ?s1 = cap_at s" by (rule cap_at_cong) (simp add: kobj_alloc_def Some)
  obtain h s2 where i: "handle_install_locked p ob r ?s1 = (h, s2)" by fastforce
  have "gain ?s1 s2 (\<lambda>v. v = (ob, r))" using gain_install [of ?s1 p ob r] i by simp
  then have "gain s s2 (\<lambda>v. a = Some (fst v))" using c Some by (auto simp: gain_def)
  moreover have "cap_at (kobj_free ob s2) = cap_at s2" by (rule cap_at_cong) simp
  ultimately show ?thesis using i Some by (simp add: new_object_def install_new_def kobj_alloc_def gain_def)
qed

definition derived :: "objsys \<Rightarrow> pref option \<Rightarrow> oref \<times> u32 \<Rightarrow> bool" where
  "derived s po v \<longleftrightarrow> (\<exists>p i r0. po = Some p \<and> cap_at s (p, i) = Some (fst v, r0) \<and> snd v AND NOT r0 = 0)"

definition may_gain :: "objsys \<Rightarrow> pref option \<Rightarrow> oref \<times> u32 \<Rightarrow> bool" where
  "may_gain s po v \<longleftrightarrow> objs s (fst v) = None
     \<or> Some (fst v) \<in> set (port_table s) \<and> \<not> has_right (snd v) OS1_RIGHT_READ
     \<or> derived s po v"

lemma mask_derived: "cap_at s (p, i) = Some (ob, r0) \<Longrightarrow> derived s (Some p) (ob, x AND r0)"
  by (auto simp: derived_def intro!: exI [of _ i] exI [of _ r0] bit_word_eqI simp: bit_simps)

end
