(* ===== verification/Object_Authority.thy ===== *)
theory Object_Authority
  imports Object_Run
begin

text \<open>
  Where capabilities come from: for every operation, the handles that are new after it and why its
  caller may have them.
\<close>

unbundle bit_operations_syntax

lemma gain_publish: "gain s (snd (port_publish ae p slot name r s)) (\<lambda>v. ae_obj ae = Some (fst v))"
proof (cases "ae_pay ae \<and> ae_obj ae \<noteq> None")
  case False
  then show ?thesis by (auto simp: port_publish_def kobj_alloc_def Let_def gain_same)
next
  case True
  then obtain ob where ob: "ae_obj ae = Some ob" by auto
  define me where "me = pid (procs (osched s) p)"
  define s2 where "s2 = upd_obj ob (\<lambda>k. k\<lparr>ko_port := Some (new_kport me name), ko_pid := me\<rparr>) (snd (kobj_alloc (Some ob) OBJ_TYPE_PORT s))"
  have c: "cap_at s2 = cap_at s" by (rule cap_at_cong) (simp add: s2_def kobj_alloc_def)
  obtain h s3 where i: "handle_install_locked p ob r s2 = (h, s3)" by fastforce
  have "gain s2 s3 (\<lambda>v. v = (ob, r))" using gain_install [of s2 p ob r] i by simp
  then have g: "gain s s3 (\<lambda>v. ae_obj ae = Some (fst v))" unfolding gain_cong(2) [OF c] by (rule gain_mono) (simp add: ob)
  have f: "gain s (kobj_free ob t) A = gain s t A" "gain s (t\<lparr>port_table := x\<rparr>) A = gain s t A" for t x A
    by (rule gain_cong(1), rule cap_at_cong, simp)+
  have "snd (port_publish ae p slot name r s) \<in> {kobj_free ob s2, kobj_free ob s3, s3\<lparr>port_table := (port_table s3)[slot := Some ob]\<rparr>}"
    using True ob i by (auto simp: port_publish_def kobj_alloc_def Let_def me_def [symmetric] s2_def)
  then show ?thesis using g gain_same [OF c] by (auto simp: f)
qed

lemma gain_lookup:
  assumes "port_lookup p name r s = Inl (h, s')"
  shows "gain s s' (\<lambda>v. Some (fst v) \<in> set (port_table s) \<and> \<not> has_right (snd v) OS1_RIGHT_READ)"
proof (cases "port_find_locked name s")
  case None
  then show ?thesis using assms by (auto simp: port_lookup_def Let_def gain_same split: if_splits option.splits)
next
  case (Some ob)
  have "\<not> has_right (r AND NOT OS1_RIGHT_READ) OS1_RIGHT_READ"
    by (simp add: has_right_def and.assoc)
  then have "gain s (snd (handle_install_locked p ob (r AND NOT OS1_RIGHT_READ) s))
      (\<lambda>v. Some (fst v) \<in> set (port_table s) \<and> \<not> has_right (snd v) OS1_RIGHT_READ)"
    using port_find_mem [OF Some] by (intro gain_mono [OF gain_install]) auto
  then show ?thesis using assms Some by (auto simp: port_lookup_def Let_def gain_same split: if_splits)
qed

lemma gain_create:
  assumes fresh: "fresh_obj ae s"
  shows "gain s (snd (sys_handle_create ae ns path r ty s)) (may_gain s (ocur s))"
proof (cases "ocur s")
  case None
  then show ?thesis by (simp add: sys_handle_create_def gain_same)
next
  case (Some p)
  let ?r = "r AND OS1_RIGHT_ALL"
  obtain e s1 where s1: "handles_ensure (ae_tbl ae) p s = (e, s1)" by fastforce
  have c1: "cap_at s1 = cap_at s" "port_table s1 = port_table s" "objs s1 = objs s"
    using cap_at_ensure [of "ae_tbl ae" p s] ensure_frame [of "ae_tbl ae" p s] s1 by auto
  have lift: "gain s s' (may_gain s (ocur s))" if "gain s1 s' (\<lambda>v. ae_obj ae = Some (fst v))" for s'
    using that unfolding gain_cong(2) [OF c1(1)] by (rule gain_mono) (simp add: may_gain_def fresh_objD [OF fresh])
  have n: "gain s (snd (new_object (ae_obj ae) ty i p ?r (set_vfs v s1))) (may_gain s (ocur s))" for ty i v
    using gain_new [of "set_vfs v s1"] by (intro lift) simp
  have n1: "gain s (snd (new_object (ae_obj ae) ty i p ?r s1)) (may_gain s (ocur s))" for ty i
    by (intro lift gain_new)
  have s: "gain s s1 A" for A using c1(1) by (rule gain_same)
  have "gain s (snd (create_fs ae p kpath ?r c s1)) (may_gain s (ocur s))" for kpath c
  proof -
    define rp where "rp = the (vfs_resolve_path (Some (cwd (procs (osched s1) p))) kpath OBJ_FILE_PATH_MAX)"
    obtain res s2 where rs: "fs_resolve p rp ?r c s1 = (res, s2)" by fastforce
    then obtain v where v: "s2 = set_vfs v s1" using fs_resolve_frame [of p rp ?r c s1] by auto
    show ?thesis using rs s n unfolding v by (cases res) (simp_all add: create_fs_def rp_def [symmetric] Let_def)
  qed
  moreover have "gain s (snd (create_port ae p kpath ?r s1)) (may_gain s (ocur s))" for kpath
  proof (cases "port_lookup p kpath ?r s1")
    case (Inl a)
    have "gain s1 (snd a) (\<lambda>v. Some (fst v) \<in> set (port_table s1) \<and> \<not> has_right (snd v) OS1_RIGHT_READ)"
      using Inl by (intro gain_lookup [of p kpath ?r s1 "fst a"]) simp
    then have "gain s (snd a) (may_gain s (ocur s))"
      unfolding gain_cong(2) [OF c1(1)] by (rule gain_mono) (simp add: may_gain_def c1)
    then show ?thesis using Inl by (simp add: create_port_def)
  next
    case (Inr slot)
    then show ?thesis using lift [OF gain_publish] by (simp add: create_port_def)
  qed
  moreover have "gain s (snd (create_proc ae p kpath ?r s1)) (may_gain s (ocur s))"
    "gain s (snd (create_reg ae p kpath ?r s1)) (may_gain s (ocur s))"
    "gain s (snd (create_win ae p kpath ?r s1)) (may_gain s (ocur s))" for kpath
    using s n1 by (simp_all add: create_proc_def create_reg_def create_win_def Let_def)
  ultimately show ?thesis
    using Some s1 s by (auto simp: sys_handle_create_def Let_def gain_same split: sum.splits)
qed

lemma gain_dup:
  assumes "caps_inv [] {} s"
  shows "gain s (snd (sys_handle_dup h r s)) (may_gain s (ocur s))"
proof (cases "handle_slot h s")
  case None
  then show ?thesis by (simp add: sys_handle_dup_def gain_same)
next
  case (Some v)
  obtain p i ob r0 where v: "v = (p, i, ob, r0)" by (cases v)
  note sl = handle_slotD [OF Some [unfolded v] tables [OF assms]]
  have "derived s (ocur s) (ob, (r AND OS1_RIGHT_ALL) AND r0)" using mask_derived [OF sl(3)] sl(1) by simp
  then have "gain s (snd (handle_install_locked p ob ((r AND OS1_RIGHT_ALL) AND r0) s)) (may_gain s (ocur s))"
    by (intro gain_mono [OF gain_install]) (auto simp: may_gain_def)
  then show ?thesis using Some v by (simp add: sys_handle_dup_def gain_same)
qed

lemma gain_grant:
  assumes "caps_inv [] {} s"
  shows "gain s (snd (sys_cap_grant n h r s)) (may_gain s (ocur s))"
proof -
  have "gain s (snd (handle_install_locked tgt ob ((r AND OS1_RIGHT_ALL) AND r0) s)) (may_gain s (ocur s))"
    if a: "handle_slot h s = Some (p, i, ob, r0)" for tgt p i ob r0
  proof -
    note sl = handle_slotD [OF a tables [OF assms]]
    have "derived s (ocur s) (ob, (r AND OS1_RIGHT_ALL) AND r0)" using mask_derived [OF sl(3)] sl(1) by simp
    then show ?thesis by (intro gain_mono [OF gain_install]) (auto simp: may_gain_def)
  qed
  then show ?thesis by (auto simp: sys_cap_grant_def gain_same split: option.splits)
qed

lemma gain_pipe:
  assumes inv: "caps_inv [] {} s" and fresh: "fresh_obj ae s"
  shows "gain s (snd (sys_pipe ae c s)) (may_gain s (ocur s))"
proof (cases "ocur s = None \<or> ae_obj ae = None")
  case True
  have "gain s (snd (handles_ensure ok p s)) A" for ok p A by (rule gain_same) (rule cap_at_ensure)
  then show ?thesis using True
    by (auto simp: sys_pipe_def kobj_alloc_def gain_same split: option.split prod.split) (metis snd_conv)+
next
  case False
  then obtain p ob where p: "ocur s = Some p" "ae_obj ae = Some ob" by auto
  define s1 where "s1 = snd (handles_ensure (ae_tbl ae) p s)"
  obtain e where e: "handles_ensure (ae_tbl ae) p s = (e, s1)" by (simp add: s1_def prod_eq_iff)
  define s3 where "s3 = upd_obj ob (\<lambda>k. k\<lparr>ko_pipe := Some (new_kpipe (ae_junk ae))\<rparr>) (snd (kobj_alloc (Some ob) OBJ_TYPE_PIPE s1))"
  have c3: "cap_at s3 = cap_at s" using cap_at_ensure [of "ae_tbl ae" p s]
    by (subst cap_at_cong [of s3 s1]) (simp_all add: s3_def kobj_alloc_def s1_def)
  let ?A = "\<lambda>v :: oref \<times> u32. fst v = ob"
  let ?rr = "OS1_RIGHT_READ OR OS1_RIGHT_TRANSFER OR OS1_RIGHT_DUPLICATE"
  let ?wr = "OS1_RIGHT_WRITE OR OS1_RIGHT_TRANSFER OR OS1_RIGHT_DUPLICATE"
  obtain rfd s4 where r: "handle_install_locked p ob ?rr s3 = (rfd, s4)" by fastforce
  obtain wfd s5 where w: "handle_install_locked p ob ?wr s4 = (wfd, s5)" by fastforce
  have g4: "gain s s4 ?A"
    using gain_mono [OF gain_install [of s3 p ob ?rr], of ?A] r unfolding gain_cong(2) [OF c3] by simp
  have g5: "gain s s5 ?A"
    by (rule gain_trans [OF g4]) (use gain_mono [OF gain_install [of s4 p ob ?wr], of ?A] w in simp)
  have cl: "gain s (snd (sys_handle_close h t)) ?A" if "gain s t ?A" for h t
    by (rule gain_trans [OF that gain_sys_close])
  have fr: "gain s (kobj_free ob t) ?A = gain s t ?A" for t by (rule gain_cong(1), rule cap_at_cong) simp
  have g1: "gain s s1 ?A" by (rule gain_same) (simp add: s1_def cap_at_ensure)
  have "gain s (snd (sys_pipe ae c s)) ?A"
  proof (cases "e \<noteq> 0 \<or> \<not> ae_pay ae \<or> \<not> ae_buf ae")
    case True
    then show ?thesis using p e g1 by (auto simp: sys_pipe_def)
  next
    case False
    then have "snd (sys_pipe ae c s) \<in> {kobj_free ob s4, snd (sys_handle_close rfd s5),
        snd (sys_handle_close wfd (snd (sys_handle_close rfd s5))), s5}"
      using p e r w by (simp add: sys_pipe_def kobj_alloc_def s3_def)
    then show ?thesis using g4 g5 cl [OF g5] cl [OF cl [OF g5]] by (auto simp: fr)
  qed
  then show ?thesis by (rule gain_mono) (simp add: may_gain_def fresh_objD [OF fresh p(2)])
qed

lemma with_pin_gain:
  assumes inv: "caps_inv X {} s"
    and f: "\<And>ob k t. cap_at t = cap_at s \<Longrightarrow> caps_inv X {} t \<Longrightarrow> ocur t = ocur s \<Longrightarrow> objs t ob = Some k \<Longrightarrow> gain t (snd (f ob k t)) A"
  shows "gain s (snd (with_pin h need f s)) A"
proof (cases "pin_handle h need s")
  case (Pair res s1)
  show ?thesis
  proof (cases res)
    case (Inl e)
    then show ?thesis using Pair pin_handle_err [of h need s e s1] by (simp add: with_pin_def gain_same)
  next
    case (Inr ob)
    note p = pin_handleD [OF Pair [unfolded Inr] inv]
    obtain k where k: "objs s1 ob = Some k" using p(3) by auto
    have oc: "ocur s1 = ocur s" using Pair Inr by (auto simp: pin_handle_def ocur_def split: option.splits if_splits)
    obtain r s2 where s2: "f ob k s1 = (r, s2)" by fastforce
    have "gain s1 s2 A" using f [OF p(4,1) oc k] s2 by simp
    then have "gain s s2 A" by (simp add: gain_cong(2) [OF p(4)])
    moreover have "gain s (obj_unref ob s2) A = gain s s2 A" by (rule gain_cong(1), rule cap_at_cong) simp
    ultimately show ?thesis using Pair Inr s2 k by (simp add: with_pin_def)
  qed
qed

lemma with_pin_benign_gain:
  assumes "caps_inv X {} s" "\<And>ob k t. objs t ob = Some k \<Longrightarrow> benign t (snd (f ob k t))"
  shows "gain s (snd (with_pin h need f s)) A"
  by (rule with_pin_gain [OF assms(1)]) (rule gain_benign [OF assms(2)])

definition copied :: "objsys \<Rightarrow> pref option \<Rightarrow> oref \<times> u32 \<Rightarrow> bool" where
  "copied s po v \<longleftrightarrow> (\<exists>p i. po = Some p \<and> cap_at s (p, i) = Some v)"

lemma copied_derived: "copied s po v \<Longrightarrow> derived s po v"
proof -
  assume "copied s po v"
  then obtain p i where "po = Some p" "cap_at s (p, i) = Some (fst v, snd v)" by (auto simp: copied_def)
  moreover have "snd v AND NOT (snd v) = 0" by (simp add: bit_eq_iff bit_simps)
  ultimately show ?thesis unfolding derived_def by blast
qed

lemma copied_cong: "cap_at t = cap_at s \<Longrightarrow> copied t po = copied s po"
  by (rule ext) (simp add: copied_def)

lemma send_install_gain:
  assumes "caps_inv X {} s" "send_install rcv fds inst s = (e, inst', s')"
  shows "gain s s' (copied s (ocur s))"
  using assms
proof (induction fds arbitrary: inst s)
  case Nil
  then show ?case by (simp add: gain_same)
next
  case (Cons f fds)
  show ?case
  proof (cases "handle_slot f s")
    case None
    then show ?thesis using Cons.prems by (simp add: gain_same)
  next
    case (Some v)
    obtain p i ob r where v: "v = (p, i, ob, r)" by (cases v)
    obtain h s1 where ins: "handle_install_locked rcv ob r s = (h, s1)" by fastforce
    note sl = handle_slotD [OF Some [unfolded v] tables [OF Cons.prems(1)]]
    have c: "copied s (ocur s) (ob, r)" using sl by (auto simp: copied_def)
    have g1: "gain s s1 (copied s (ocur s))"
      using gain_mono [OF gain_install [of s rcv ob r], of "copied s (ocur s)"] c ins by simp
    have oc: "ocur s1 = ocur s" using ocur_install [of rcv ob r s] ins by simp
    show ?thesis
    proof (cases "h < 0")
      case True
      then show ?thesis using Cons.prems(2) Some v ins g1 by simp
    next
      case False
      have i1: "caps_inv X {} s1"
        using install_inv0 [OF Cons.prems(1) held_obj [OF Cons.prems(1) sl(3)] rights_ok_cap [OF tables [OF Cons.prems(1)] sl(3)], of rcv] ins
        by simp
      have "send_install rcv fds (inst @ [nat h]) s1 = (e, inst', s')" using Cons.prems(2) Some v ins False by simp
      then have "gain s1 s' (copied s1 (ocur s1))" by (rule Cons.IH [OF i1])
      moreover have "copied s (ocur s) u" if "copied s1 (ocur s1) u" for u
        using that g1 unfolding copied_def oc gain_def by blast
      ultimately show ?thesis using gain_trans [OF g1] gain_mono by blast
    qed
  qed
qed

lemma gain_send:
  assumes inv: "caps_inv X {} s"
  shows "gain s (snd (sys_port_send_caps h um ufds nfds s)) (copied s (ocur s))"
proof -
  have "gain s (snd (with_pin h OS1_RIGHT_WRITE (send_caps_body um fds) s)) (copied s (ocur s))" for fds
  proof (rule with_pin_gain [OF inv])
    fix ob k t assume t: "cap_at t = cap_at s" "caps_inv X {} t" "ocur t = ocur s" "objs t ob = Some k"
    have l: "gain t s1 (copied s (ocur s))" if sl: "send_locked ob rcv m fs t = (ret, tf, s1)" "ko_type k = OBJ_TYPE_PORT" for rcv m fs ret tf s1
    proof -
      obtain e inst s0 where i: "send_install rcv fs [] t = (e, inst, s0)" by (cases "send_install rcv fs [] t") auto
      have g0: "gain t s0 (copied s (ocur s))"
        using send_install_gain [OF t(2) i] copied_cong [OF t(1)] t(3) by simp
      show ?thesis
      proof (cases "ret < 0")
        case True
        then show ?thesis using send_locked_inv(4) [OF t(2,4) sl(2,1)] by (simp add: gain_same)
      next
        case False
        then have "s1 = port_enqueue ob (stamp_caps (cur_pid s0) inst m) s0"
          using send_locked_ok(1) [OF sl(1) _ i] by simp
        then have "cap_at s1 = cap_at s0" by (intro cap_at_cong) (simp add: port_enqueue_def)
        then have "gain t s1 A = gain t s0 A" for A by (rule gain_cong(1))
        then show ?thesis using g0 by simp
      qed
    qed
    obtain r t' where b: "send_caps_body um fds ob k t = (r, t')" by fastforce
    from b t(2,4) have "gain t t' (copied s (ocur s))"
    proof (cases rule: send_caps_body_cases)
      case 1
      then show ?thesis by (simp add: gain_same)
    next
      case (2 rcv m fs kp s1)
      then show ?thesis using l [OF 2(6,1)] by simp
    qed
    then show "gain t (snd (send_caps_body um fds ob k t)) (copied s (ocur s))" using b by simp
  qed
  then show ?thesis by (simp add: sys_port_send_caps_def gain_same)
qed

lemma gain_slot: "gain s (set_slot p i e s) (\<lambda>v. he_obj e = Some (fst v) \<and> snd v = he_rights e)"
proof (cases "\<exists>t. handles s p = Some t \<and> i < length t")
  case True
  then show ?thesis by (auto simp: gain_def cap_at_slot split: if_splits)
next
  case False
  then have "handles (set_slot p i e s) = handles s"
    by (intro ext) (auto simp: set_slot_def map_option_case list_update_beyond split: option.split)
  then show ?thesis by (intro gain_same cap_at_cong)
qed

lemma gain_redirect:
  assumes inv: "caps_inv X {} s"
  shows "gain s (snd (process_redirect_child_fd_from ae owner child cs pf s)) (copied s owner)"
proof (cases owner)
  case None
  then show ?thesis by (simp add: process_redirect_child_fd_from_def gain_same)
next
  case (Some parent)
  obtain e s1 where s1: "handles_ensure (ae_tbl ae) child s = (e, s1)" by fastforce
  have c1: "cap_at s1 = cap_at s" using cap_at_ensure [of "ae_tbl ae" child s] s1 by simp
  have i1: "caps_inv X {} s1" using ensure_inv [OF inv, of "ae_tbl ae" child] s1 by simp
  let ?bad = "cs < 0 \<or> cs \<ge> int NPROC_HANDLES \<or> pf < 0 \<or> pf \<ge> int NPROC_HANDLES \<or> handles s parent = None"
  let ?src = "entry_at parent (nat pf) s1" let ?dst = "entry_at child (nat cs) s1"
  have e1: "gain s s1 A" for A using c1 by (rule gain_same)
  show ?thesis
  proof (cases "?bad \<or> e \<noteq> 0 \<or> he_obj ?src = None")
    case True
    then show ?thesis using s1 Some e1 by (auto simp: process_redirect_child_fd_from_def Let_def gain_same)
  next
    case False
    then obtain ob where ob: "he_obj ?src = Some ob" by auto
    obtain tp where tp: "handles s1 parent = Some tp"
      using False s1 by (cases "parent = child") (auto simp: handles_ensure_def split: if_splits)
    have "nat pf < length tp" using tables [OF i1] tp False by (auto simp: tables_ok_def)
    then have src: "cap_at s (parent, nat pf) = Some (ob, he_rights ?src)"
      using ob by (simp add: cap_at_def [of s1] c1 [symmetric] tp entry_at_def)
    let ?a = "acquire ob (he_rights ?src) s1"
    let ?s2 = "set_slot child (nat cs) ?src ?a"
    have ca: "cap_at ?a = cap_at s" using cap_at_cong [of ?a s1] c1 by simp
    have g: "gain s ?s2 (copied s owner)"
    proof -
      have "gain ?a ?s2 (copied s owner)"
        by (rule gain_mono [OF gain_slot]) (use src ob Some in \<open>auto simp: copied_def\<close>)
      then show ?thesis unfolding gain_cong(2) [OF ca] .
    qed
    have swap: "pipe_handle_count ob (he_rights ?src) 1 (upd_obj ob (\<lambda>k. k\<lparr>ko_ref := ko_ref k + 1\<rparr>) (set_slot child (nat cs) ?src s1)) = ?s2"
      using acquire_slot [of ob "he_rights ?src"] by (simp add: acquire_def)
    have rel: "gain s (drop_ref x (pipe_handle_count x r d t)) A = gain s t A" for x r d t A
      by (rule gain_cong(1), rule cap_at_cong) simp
    show ?thesis using False s1 Some ob swap g
      by (cases "he_obj ?dst") (auto simp: process_redirect_child_fd_from_def Let_def rel)
  qed
qed

lemma ocur_free [simp]: "ocur (kobj_free ob s) = ocur s" "ocur (drop_ref ob s) = ocur s"
  by (simp_all add: kobj_free_def drop_ref_def ocur_def Let_def split: option.split)

lemma redirect_world [simp]: "ocur (snd (process_redirect_child_fd_from ae owner child cs pf s)) = ocur s"
proof -
  have "ocur (snd (handles_ensure ok p s)) = ocur s" for ok p by (simp add: ocur_def)
  then have "handles_ensure ok p s = (e, t) \<Longrightarrow> ocur t = ocur s" for ok p e t by (metis snd_conv)
  then show ?thesis
    by (auto simp: process_redirect_child_fd_from_def Let_def split: option.split prod.split)
qed

definition held_anywhere :: "objsys \<Rightarrow> oref \<times> u32 \<Rightarrow> bool" where
  "held_anywhere s v \<longleftrightarrow> (\<exists>k. cap_at s k = Some v)"

lemma copied_held: "copied s po v \<Longrightarrow> held_anywhere s v"
  by (auto simp: copied_def held_anywhere_def)

definition redirect_source :: "objsys \<Rightarrow> bool \<Rightarrow> oref \<times> u32 \<Rightarrow> bool" where
  "redirect_source s priv v \<longleftrightarrow> copied s (ocur s) v \<or> priv \<and> held_anywhere s v"

definition spawner_privileged :: "objsys \<Rightarrow> bool" where
  "spawner_privileged s = proc_is_privileged (map_option (procs (osched s)) (ocur s))"


lemma wake_level: "plevel (procs (wake_up q k) p) = plevel (procs k p)"
  by (simp add: wake_up_def enqueue_task_def list_del_init_def list_add_tail_def upd_proc_def upd_cpu_def Let_def split: list.split option.split)

lemma priv_frame [simp]:
  "spawner_privileged (owake q s) = spawner_privileged s" "spawner_privileged (upd_obj ob f s) = spawner_privileged s"
  "spawner_privileged (unpublish ob s) = spawner_privileged s" "spawner_privileged (set_slot p i e s) = spawner_privileged s"
  "spawner_privileged (kobj_free ob s) = spawner_privileged s"
  by (auto simp: spawner_privileged_def proc_is_privileged_def owake_def set_sched_def osched_def ocur_def wake_level upd_obj_def
      unpublish_def set_slot_def kobj_free_def split: option.split)

lemma priv_phc [simp]: "spawner_privileged (pipe_handle_count ob r d s) = spawner_privileged s" "spawner_privileged (drop_ref ob s) = spawner_privileged s"
  by (simp_all add: pipe_handle_count_def port_count_read_def port_count_write_def pipe_count_read_def pipe_count_write_def
      drop_ref_def Let_def split: option.split)

lemma priv_redirect [simp]:
  "spawner_privileged (snd (process_redirect_child_fd_from ae owner child cs pf s)) = spawner_privileged s"
proof -
  have "spawner_privileged (snd (handles_ensure ok p s)) = spawner_privileged s" for ok p
    by (simp add: spawner_privileged_def ocur_def osched_def)
  then have "handles_ensure ok p s = (e, t) \<Longrightarrow> spawner_privileged t = spawner_privileged s" for ok p e t by (metis snd_conv)
  then show ?thesis
    by (auto simp: process_redirect_child_fd_from_def Let_def split: option.split prod.split)
qed

lemma gain_redirects:
  assumes "caps_inv X {} s"
  shows "gain s (snd (spawn_redirects ae child rs s)) (redirect_source s (spawner_privileged s))"
  using assms
proof (induction rs arbitrary: s)
  case Nil
  then show ?case by (simp add: gain_same)
next
  case (Cons r rs)
  define rm where "rm = (if sr_source_pid r = 0 then process_redirect_child_fd ae child (sr_child_fd r) (sr_parent_fd r) s
            else if \<not> proc_is_privileged (map_option (procs (osched s)) (ocur s)) then (- EPERM, s)
            else case process_find_by_pid (osched s) (sr_source_pid r) of
                   None \<Rightarrow> (- ESRCH, s)
                 | Some src \<Rightarrow> process_redirect_child_fd_from ae (Some src) child (sr_child_fd r) (sr_parent_fd r) s)"
  let ?A = "redirect_source s (spawner_privileged s)"
  obtain e s1 where p: "rm = (e, s1)" by fastforce
  have i1: "caps_inv X {} s1"
  proof -
    have "caps_inv X {} (snd rm)"
      using Cons.prems redirect_inv [OF Cons.prems] by (simp add: rm_def process_redirect_child_fd_def split: option.split)
    then show ?thesis by (simp add: p)
  qed
  have w: "ocur s1 = ocur s" "spawner_privileged s1 = spawner_privileged s"
  proof -
    have "ocur (snd rm) = ocur s" "spawner_privileged (snd rm) = spawner_privileged s"
      by (simp_all add: rm_def process_redirect_child_fd_def split: option.split)
    then show "ocur s1 = ocur s" "spawner_privileged s1 = spawner_privileged s" by (simp_all add: p)
  qed
  have g1: "gain s s1 ?A"
  proof -
    have "gain s (snd rm) ?A"
      using gain_mono [OF gain_redirect [OF Cons.prems], of _ ?A] copied_held [of s]
      by (auto simp: rm_def process_redirect_child_fd_def redirect_source_def spawner_privileged_def gain_same split: option.split)
    then show ?thesis by (simp add: p)
  qed
  have src: "redirect_source s (spawner_privileged s) v" if "redirect_source s1 (spawner_privileged s1) v" for v
    using that g1 copied_held [of s] unfolding redirect_source_def w copied_def held_anywhere_def gain_def by blast
  have "spawn_redirects ae child (r # rs) s = (if e \<noteq> 0 then (e, s1) else spawn_redirects ae child rs s1)"
    using p unfolding rm_def by simp
  then show ?case using g1 gain_trans [OF g1 gain_mono [OF Cons.IH [OF i1] src]] by simp
qed

lemma gain_detach: "gain s (process_handles_destroy p s) A"
proof -
  have d: "handles (destroy_loop t u) = handles u" for t u
    by (induction t arbitrary: u) (simp_all split: option.split)
  show ?thesis
  proof (cases "handles s p")
    case None
    then show ?thesis by (simp add: process_handles_destroy_def gain_same)
  next
    case (Some t)
    then have "handles (process_handles_destroy p s) = (handles s)(p := None)" by (simp add: process_handles_destroy_def d)
    then show ?thesis by (auto simp: gain_def cap_at_def split: if_splits)
  qed
qed

lemma gain_stdio:
  "gain s (snd (process_install_stdio ae p s)) (\<lambda>v. ae_obj ae = Some (fst v))"
proof -
  define s1 where "s1 = snd (handles_ensure (ae_tbl ae) p s)"
  obtain e where e: "handles_ensure (ae_tbl ae) p s = (e, s1)" by (simp add: s1_def prod_eq_iff)
  have c1: "cap_at s1 = cap_at s" by (simp add: s1_def cap_at_ensure)
  show ?thesis
  proof (cases "e \<noteq> 0 \<or> ae_obj ae = None")
    case True
    then show ?thesis using e gain_same [OF c1] by (auto simp: process_install_stdio_def kobj_alloc_def)
  next
    case False
    then obtain con where con: "ae_obj ae = Some con" by auto
    define s2 where "s2 = snd (kobj_alloc (Some con) OBJ_TYPE_CONSOLE s1)"
    have c2: "cap_at s2 = cap_at s" using c1 cap_at_cong [of s2 s1] by (simp add: s2_def kobj_alloc_def)
    let ?A = "\<lambda>v :: oref \<times> u32. ae_obj ae = Some (fst v)"
    have st: "gain t (set_slot p i \<lparr>he_obj = Some con, he_rights = r\<rparr> t) ?A" for t i r
      by (rule gain_mono [OF gain_slot]) (auto simp: con)
    let ?e0 = "\<lparr>he_obj = Some con, he_rights = OS1_RIGHT_READ\<rparr>" let ?e1 = "\<lparr>he_obj = Some con, he_rights = OS1_RIGHT_WRITE\<rparr>"
    let ?s5 = "set_slot p 2 ?e1 (set_slot p 1 ?e1 (set_slot p 0 ?e0 s2))"
    have "gain s2 ?s5 ?A" by (rule gain_trans [OF gain_trans [OF st st] st])
    then have "gain s ?s5 ?A" unfolding gain_cong(2) [OF c2] .
    moreover have "gain s (upd_obj con f ?s5) ?A = gain s ?s5 ?A" for f by (rule gain_cong(1), rule cap_at_cong) simp
    ultimately show ?thesis using e False con by (simp add: process_install_stdio_def kobj_alloc_def Let_def s2_def)
  qed
qed


lemma gain_finish: "benign s (snd rs) \<Longrightarrow> gain s (snd (finish_pass ob rs)) A"
proof (cases rs)
  case (Pair res t)
  assume b: "benign s (snd rs)"
  have "gain s (obj_unref ob t) A = gain s t A" by (rule gain_cong(1), rule cap_at_cong) simp
  then show ?thesis using gain_benign [OF b] Pair by (cases res) (simp_all add: finish_pass_def)
qed

lemma gain_pin: "pin_handle h need s = (res, s1) \<Longrightarrow> gain s1 t A = gain s t A"
  by (rule gain_cong(2), rule cap_at_cong) (auto simp: pin_handle_def split: option.splits if_splits)

lemma gain_read:
  assumes inv: "caps_inv X {} s"
  shows "gain s (snd (sys_object_read ie h n s)) A"
proof (cases "pin_handle h OS1_RIGHT_READ s")
  case (Pair res s1)
  show ?thesis
  proof (cases res)
    case (Inl e)
    then show ?thesis using Pair pin_handle_err [of h OS1_RIGHT_READ s e s1] by (simp add: sys_object_read_def iret_def gain_same)
  next
    case (Inr ob)
    then obtain k where "objs s1 ob = Some k" using pin_handleD(3) [OF Pair [unfolded Inr] inv] by auto
    then have "gain s1 (snd (finish_pass ob (object_read_pass ie ob n s1))) A" by (intro gain_finish read_pass_benign)
    then show ?thesis using Pair Inr gain_pin [OF Pair] by (simp add: sys_object_read_def iret_def gain_same)
  qed
qed

lemma gain_write:
  assumes inv: "caps_inv X {} s"
  shows "gain s (snd (sys_object_write ie h n s)) A"
proof (cases "pin_handle h OS1_RIGHT_WRITE s")
  case (Pair res s1)
  show ?thesis
  proof (cases res)
    case (Inl e)
    then show ?thesis using Pair pin_handle_err [of h OS1_RIGHT_WRITE s e s1] by (simp add: sys_object_write_def iret_def gain_same)
  next
    case (Inr ob)
    then obtain k where "objs s1 ob = Some k" using pin_handleD(3) [OF Pair [unfolded Inr] inv] by auto
    then have "gain s1 (snd (finish_pass ob (object_write_pass ie ob n 0 s1))) A" by (intro gain_finish write_pass_benign)
    then show ?thesis using Pair Inr gain_pin [OF Pair] by (simp add: sys_object_write_def iret_def gain_same)
  qed
qed

lemma gain_wait: "caps_inv X {} s \<Longrightarrow> gain s (snd (sys_object_wait h w c s)) A"
  unfolding sys_object_wait_def by (rule with_pin_benign_gain) (auto split: prod.split)

lemma gain_ctl:
  assumes inv: "caps_inv X {} s"
  shows "gain s (snd (sys_object_ctl c h cmd arg uname s)) A"
proof -
  have "gain s (snd (with_pin h need f s)) A" if "\<And>ob k t. benign t (snd (f ob k t))" for need f
    by (rule with_pin_benign_gain [OF inv]) (rule that)
  then have pin: "(\<And>ob k t. benign t (snd (f ob k t))) \<Longrightarrow> gain s (snd (with_pin h need f s)) A" for need f .
  have same: "gain s s A" by (simp add: gain_same)
  show ?thesis unfolding sys_object_ctl_def
    by (simp add: same pin ctl_benign ctl_truncate_benign)
qed

lemma gain_lseek: "caps_inv X {} s \<Longrightarrow> gain s (snd (sys_object_lseek h off wh s)) A"
  unfolding sys_object_lseek_def by (rule with_pin_benign_gain) (assumption, rule lseek_benign)

lemma exec_gain:
  assumes inv: "caps_inv [] {} s" and ok: "op_ok op s" and plain: "\<nexists>ae child rs. op = Redirects ae child rs"
  shows "gain s (exec op s) (may_gain s (ocur s))"
proof (cases op)
  case (Publish ae slot name r)
  have "gain s (snd (port_publish ae p slot name r' s)) (may_gain s (ocur s))" for p r'
    by (rule gain_mono [OF gain_publish]) (use ok Publish fresh_objD [of ae s] in \<open>auto simp: may_gain_def\<close>)
  then have pub: "gain s (snd (port_publish ae p slot name r' s)) (may_gain s (Some c))" if "ocur s = Some c" for c p r'
    using that by simp
  have same: "gain s s B" for B by (simp add: gain_same)
  show ?thesis using Publish by (cases "ocur s") (simp_all add: same pub)
next
  case (Stdio ae p)
  have "gain s (snd (process_install_stdio ae p s)) (may_gain s (ocur s))"
    by (rule gain_mono [OF gain_stdio]) (use ok Stdio fresh_objD [of ae s] in \<open>auto simp: may_gain_def\<close>)
  then show ?thesis using Stdio by simp
next
  case (SendCaps h m fds n)
  have "gain s (snd (sys_port_send_caps h m fds n s)) (may_gain s (ocur s))"
    by (rule gain_mono [OF gain_send [OF inv]]) (simp add: may_gain_def copied_derived)
  then show ?thesis using SendCaps by simp
next
  case (ReadAgain ie ob n)
  then obtain k where "objs s ob = Some k" using pinned_obj [OF inv, of ob] ok by auto
  then show ?thesis using gain_finish [OF read_pass_benign] ReadAgain by simp
next
  case (WriteAgain ie ob n don)
  then obtain k where "objs s ob = Some k" using pinned_obj [OF inv, of ob] ok by auto
  then show ?thesis using gain_finish [OF write_pass_benign] WriteAgain by simp
next
  case (Redirects ae child rs)
  then show ?thesis using plain by blast
qed (use ok gain_create gain_dup [OF inv] gain_sys_close gain_grant [OF inv] gain_pipe [OF inv] gain_read [OF inv] gain_write [OF inv]
      gain_wait [OF inv] gain_ctl [OF inv] gain_lseek [OF inv] gain_detach in \<open>simp_all add: object_block_def gain_same\<close>)

end
