(* ===== verification/Object_Pipe.thy ===== *)
theory Object_Pipe
  imports Object_Authority
begin

text \<open>
  The rings of pipes and ports as bounded queues, and the byte stream through a pipe.
\<close>

unbundle bit_operations_syntax

section \<open>Rings are bounded queues\<close>

text \<open>What a queue of bounded capacity promises to those who put into it and take from it.\<close>

locale bounded_fifo =
  fixes put :: "'x list \<Rightarrow> 's \<Rightarrow> 's"
    and get :: "nat \<Rightarrow> 's \<Rightarrow> 'x list \<times> 's"
    and content :: "'s \<Rightarrow> 'x list"
    and ok :: "'s \<Rightarrow> bool"
    and cap :: nat
  assumes put_law: "ok q \<Longrightarrow> length (content q) + length xs \<le> cap \<Longrightarrow> ok (put xs q) \<and> content (put xs q) = content q @ xs"
    and get_law: "ok q \<Longrightarrow> n \<le> length (content q) \<Longrightarrow>
      ok (snd (get n q)) \<and> fst (get n q) = take n (content q) \<and> content (snd (get n q)) = drop n (content q)"
    and bound: "ok q \<Longrightarrow> length (content q) \<le> cap"
begin

lemma put_get:
  assumes "ok q" "content q = []" "length xs \<le> cap"
  shows "fst (get (length xs) (put xs q)) = xs" "content (snd (get (length xs) (put xs q))) = []"
  using assms put_law [of q xs] get_law [of "put xs q" "length xs"] by auto

lemma get_put_order:
  assumes "ok q" "n \<le> length (content q)" "length (content q) + length xs \<le> cap"
  shows "fst (get n (put xs q)) = fst (get n q)"
  using assms put_law [of q xs] get_law [of "put xs q" n] get_law [of q n] by simp

end

definition ring_list :: "nat \<Rightarrow> 'a ring \<Rightarrow> 'a list" where
  "ring_list cap r = map (\<lambda>i. rg_buf r ! ((rg_head r + i) mod cap)) [0..<rg_count r]"

lemma length_ring_list [simp]: "length (ring_list cap r) = rg_count r"
  by (simp add: ring_list_def)

lemma ring_take_items:
  "rg_head r < cap \<Longrightarrow> fst (ring_take cap n r) = map (\<lambda>i. rg_buf r ! ((rg_head r + i) mod cap)) [0..<n]"
proof (induction n arbitrary: r)
  case (Suc n)
  let ?r = "r\<lparr>rg_head := (rg_head r + 1) mod cap\<rparr>"
  have "fst (ring_take cap (Suc n) r) = rg_buf r ! rg_head r # fst (ring_take cap n ?r)"
    by (simp split: prod.split)
  also have "fst (ring_take cap n ?r) = map (\<lambda>i. rg_buf r ! ((rg_head r + Suc i) mod cap)) [0..<n]"
    using Suc.IH [of ?r] Suc.prems by (simp add: mod_simps)
  finally show ?case using Suc.prems by (simp add: upt_conv_Cons map_Suc_upt [symmetric] del: upt_Suc)
qed simp

lemma ring_get_items:
  assumes "ring_ok cap r" "n \<le> rg_count r"
  shows "ring_ok cap (snd (ring_get cap n r))" "fst (ring_get cap n r) = take n (ring_list cap r)"
    "ring_list cap (snd (ring_get cap n r)) = drop n (ring_list cap r)"
proof -
  obtain xs r2 where t: "ring_take cap n r = (xs, r2)" by fastforce
  have cap: "0 < cap" "rg_head r < cap" using assms(1) by (auto simp: ring_ok_def)
  from ring_take_frame [OF cap t] have r2: "r2 = r\<lparr>rg_head := (rg_head r + n) mod cap\<rparr>" by simp
  have g: "ring_get cap n r = (xs, r\<lparr>rg_head := (rg_head r + n) mod cap, rg_count := rg_count r - n\<rparr>)"
    by (simp add: ring_get_def t r2)
  show "ring_ok cap (snd (ring_get cap n r))" using ring_get_ok(1) [OF assms g] g by simp
  have "xs = map (\<lambda>i. rg_buf r ! ((rg_head r + i) mod cap)) [0..<n]" using ring_take_items [OF cap(2), of n] t by simp
  then show "fst (ring_get cap n r) = take n (ring_list cap r)" using assms(2) by (simp add: g ring_list_def take_map)
  show "ring_list cap (snd (ring_get cap n r)) = drop n (ring_list cap r)"
  proof (rule nth_equalityI)
    show "length (ring_list cap (snd (ring_get cap n r))) = length (drop n (ring_list cap r))" by (simp add: g)
    fix i assume "i < length (ring_list cap (snd (ring_get cap n r)))"
    then have i: "n + i < rg_count r" by (simp add: g)
    have "((rg_head r + n) mod cap + i) mod cap = (rg_head r + (n + i)) mod cap" by (simp add: mod_simps add.assoc)
    then show "ring_list cap (snd (ring_get cap n r)) ! i = drop n (ring_list cap r) ! i"
      using i assms(2) by (simp add: g ring_list_def)
  qed
qed

lemma ring_add_one:
  assumes ok: "ring_ok cap r" and space: "rg_count r < cap"
  shows "ring_list cap (ring_add cap [x] r) = ring_list cap r @ [x]"
proof (rule nth_equalityI)
  show "length (ring_list cap (ring_add cap [x] r)) = length (ring_list cap r @ [x])" by (simp add: ring_add_def)
  fix i assume "i < length (ring_list cap (ring_add cap [x] r))"
  then have i: "i \<le> rg_count r" by (simp add: ring_add_def)
  have b: "length (rg_buf r) = cap" "rg_tail r = (rg_head r + rg_count r) mod cap" "rg_head r < cap"
    using ok by (auto simp: ring_ok_def)
  have ne: "(rg_head r + i) mod cap \<noteq> (rg_head r + rg_count r) mod cap" if "i < rg_count r"
  proof
    assume "(rg_head r + i) mod cap = (rg_head r + rg_count r) mod cap"
    then have "cap dvd (rg_head r + rg_count r) - (rg_head r + i)" using that by (intro mod_eq_dvd_iff_nat [THEN iffD1]) auto
    then show False using that space by (auto dest: dvd_imp_le)
  qed
  have "0 < cap" using b(3) by simp
  then have lt: "(rg_head r + j) mod cap < cap" for j by simp
  show "ring_list cap (ring_add cap [x] r) ! i = (ring_list cap r @ [x]) ! i"
    using i ne b lt by (cases "i < rg_count r") (auto simp: ring_list_def ring_add_def nth_append nth_upt less_Suc_eq simp del: upt_Suc)
qed

lemma ring_add_Cons: "ring_add cap (x # xs) r = ring_add cap xs (ring_add cap [x] r)"
proof -
  have "ring_put cap ys (q\<lparr>rg_count := c\<rparr>) = (ring_put cap ys q)\<lparr>rg_count := c\<rparr>" for ys q c
  proof (induction ys arbitrary: q)
    case (Cons y ys)
    from Cons.IH [of "q\<lparr>rg_buf := (rg_buf q)[rg_tail q := y], rg_tail := (rg_tail q + 1) mod cap\<rparr>"]
    show ?case by (cases q) simp
  qed simp
  note c = this
  show ?thesis
    using c [of xs "Suc (rg_count r)" "r\<lparr>rg_buf := (rg_buf r)[rg_tail r := x], rg_tail := (rg_tail r + 1) mod cap\<rparr>"]
    by (simp add: ring_add_def)
qed

lemma ring_add_items:
  "ring_ok cap r \<Longrightarrow> rg_count r + length xs \<le> cap \<Longrightarrow> ring_list cap (ring_add cap xs r) = ring_list cap r @ xs"
proof (induction xs arbitrary: r)
  case Nil
  then show ?case by (simp add: ring_add_def ring_list_def)
next
  case (Cons x xs)
  have "ring_ok cap (ring_add cap [x] r)" "rg_count (ring_add cap [x] r) = rg_count r + 1"
    using ring_add_ok [of cap r "[x]"] Cons.prems by auto
  then show ?case using Cons.IH [of "ring_add cap [x] r"] Cons.prems ring_add_one [OF Cons.prems(1), of x] ring_add_Cons [of cap x xs r]
    by simp
qed

lemma ring_fifo: "bounded_fifo (ring_add cap) (ring_get cap) (ring_list cap) (ring_ok cap) cap"
  by unfold_locales (use ring_add_ok(1) ring_add_items ring_get_items ring_ok_count in auto)

interpretation pipe_q: bounded_fifo "ring_add PIPE_BUF_SIZE" "ring_get PIPE_BUF_SIZE"
    "ring_list PIPE_BUF_SIZE :: char ring \<Rightarrow> string" "ring_ok PIPE_BUF_SIZE" PIPE_BUF_SIZE
  by (rule ring_fifo)

interpretation port_q: bounded_fifo "ring_add PORT_QUEUE_MAX" "ring_get PORT_QUEUE_MAX"
    "ring_list PORT_QUEUE_MAX :: ipc_message ring \<Rightarrow> ipc_message list" "ring_ok PORT_QUEUE_MAX" PORT_QUEUE_MAX
  by (rule ring_fifo)


section \<open>What the passes of a pipe move\<close>

text \<open>The passes that readers and writers make over a pipe, in the order in which they take the lock.\<close>

datatype pipe_turn = RTurn io_env nat | WTurn io_env nat nat

fun out_bytes :: "io_res \<Rightarrow> string" where
  "out_bytes (IRet r (OBytes bs)) = bs"
| "out_bytes _ = []"

fun in_bytes :: "io_env \<Rightarrow> nat \<Rightarrow> io_res \<Rightarrow> string" where
  "in_bytes ie don (IAgain don') = take (don' - don) (drop don (io_bytes ie))"
| "in_bytes ie don _ = []"

fun pipe_turns :: "oref \<Rightarrow> pipe_turn list \<Rightarrow> objsys \<Rightarrow> string \<times> string \<times> objsys" where
  "pipe_turns ob [] s = ([], [], s)"
| "pipe_turns ob (RTurn ie n # ts) s =
     (case pipe_read ie ob n s of
        (res, s1) \<Rightarrow> (case pipe_turns ob ts s1 of (i, out, s2) \<Rightarrow> (i, out_bytes res @ out, s2)))"
| "pipe_turns ob (WTurn ie n don # ts) s =
     (case pipe_write ie ob n don s of
        (res, s1) \<Rightarrow> (case pipe_turns ob ts s1 of (i, out, s2) \<Rightarrow> (in_bytes ie don res @ i, out, s2)))"

fun turn_ok :: "pipe_turn \<Rightarrow> bool" where
  "turn_ok (RTurn ie n) = io_copy ie"
| "turn_ok (WTurn ie n don) = (n \<le> length (io_bytes ie))"

definition pipe_of :: "oref \<Rightarrow> objsys \<Rightarrow> kpipe option" where
  "pipe_of ob s = Option.bind (objs s ob) ko_pipe"

definition buffered :: "oref \<Rightarrow> objsys \<Rightarrow> string" where
  "buffered ob s = (case pipe_of ob s of None \<Rightarrow> [] | Some q \<Rightarrow> ring_list PIPE_BUF_SIZE (kp_ring q))"

definition pipe_ok :: "oref \<Rightarrow> objsys \<Rightarrow> bool" where
  "pipe_ok ob s \<longleftrightarrow> (\<exists>q. pipe_of ob s = Some q \<and> ring_ok PIPE_BUF_SIZE (kp_ring q))"

lemma pipe_of_the: "pipe_of ob s = Some q \<Longrightarrow> ko_pipe (the (objs s ob)) = Some q"
  by (auto simp: pipe_of_def bind_eq_Some_conv)

lemma pipe_of_upd:
  "pipe_of ob s = Some q \<Longrightarrow> pipe_of ob (owake w (upd_obj ob (upd_pipe f) s)) = Some (f q)"
  by (auto simp: pipe_of_def bind_eq_Some_conv upd_pipe_def)

lemma read_turn:
  assumes ok: "pipe_ok ob s" and copy: "io_copy ie" and r: "pipe_read ie ob n s = (res, s1)"
  shows "pipe_ok ob s1 \<and> buffered ob s = out_bytes res @ buffered ob s1"
proof -
  obtain q where q: "pipe_of ob s = Some q" "ring_ok PIPE_BUF_SIZE (kp_ring q)" using ok by (auto simp: pipe_ok_def)
  show ?thesis
  proof (cases "n = 0 \<or> \<not> io_kb ie \<or> rg_count (kp_ring q) = 0")
    case True
    then show ?thesis using r ok by (auto simp: pipe_read_def pipe_of_the [OF q(1)] iret_def split: if_splits)
  next
    case False
    let ?m = "min (rg_count (kp_ring q)) n"
    obtain bs r1 where g: "ring_get PIPE_BUF_SIZE ?m (kp_ring q) = (bs, r1)" by fastforce
    have law: "ring_ok PIPE_BUF_SIZE r1" "bs = take ?m (ring_list PIPE_BUF_SIZE (kp_ring q))"
      "ring_list PIPE_BUF_SIZE r1 = drop ?m (ring_list PIPE_BUF_SIZE (kp_ring q))"
      using pipe_q.get_law [OF q(2), of ?m] g by auto
    have "res = deliver ie bs" and s1: "s1 = owake (wq_of ob) (upd_obj ob (upd_pipe (\<lambda>x. x\<lparr>kp_ring := r1\<rparr>)) s)"
      using r False g by (auto simp: pipe_read_def pipe_of_the [OF q(1)])
    then have "out_bytes res = bs" using copy by (simp add: deliver_def)
    moreover have "pipe_of ob s1 = Some (q\<lparr>kp_ring := r1\<rparr>)" unfolding s1 by (rule pipe_of_upd [OF q(1)])
    ultimately show ?thesis using law q by (simp add: pipe_ok_def buffered_def)
  qed
qed

lemma write_turn:
  assumes ok: "pipe_ok ob s" and len: "n \<le> length (io_bytes ie)" and w: "pipe_write ie ob n don s = (res, s1)"
  shows "pipe_ok ob s1 \<and> buffered ob s1 = buffered ob s @ in_bytes ie don res"
proof -
  obtain q where q: "pipe_of ob s = Some q" "ring_ok PIPE_BUF_SIZE (kp_ring q)" using ok by (auto simp: pipe_ok_def)
  define chunk where "chunk = min (n - don) (PIPE_BUF_SIZE - rg_count (kp_ring q))"
  define bs where "bs = take chunk (drop don (io_bytes ie))"
  have "(\<nexists>d. res = IAgain d) \<and> s1 = s \<or>
      res = IAgain (don + chunk) \<and> s1 = owake (rq_of ob) (upd_obj ob (upd_pipe (\<lambda>x. x\<lparr>kp_ring := ring_add PIPE_BUF_SIZE bs (kp_ring x)\<rparr>)) s)"
    using w by (auto simp: pipe_write_def pipe_of_the [OF q(1)] iret_def Let_def chunk_def bs_def split: if_splits)
  then show ?thesis
  proof (elim disjE conjE)
    assume "\<nexists>d. res = IAgain d" "s1 = s"
    then show ?thesis using ok by (cases res) auto
  next
    assume r: "res = IAgain (don + chunk)"
      and s1: "s1 = owake (rq_of ob) (upd_obj ob (upd_pipe (\<lambda>x. x\<lparr>kp_ring := ring_add PIPE_BUF_SIZE bs (kp_ring x)\<rparr>)) s)"
    have "rg_count (kp_ring q) + length bs \<le> PIPE_BUF_SIZE"
      using ring_ok_count [OF q(2)] by (auto simp: bs_def chunk_def)
    then have "ring_ok PIPE_BUF_SIZE (ring_add PIPE_BUF_SIZE bs (kp_ring q))"
      "ring_list PIPE_BUF_SIZE (ring_add PIPE_BUF_SIZE bs (kp_ring q)) = ring_list PIPE_BUF_SIZE (kp_ring q) @ bs"
      using pipe_q.put_law [OF q(2), of bs] by auto
    moreover have "pipe_of ob s1 = Some (q\<lparr>kp_ring := ring_add PIPE_BUF_SIZE bs (kp_ring q)\<rparr>)"
      unfolding s1 by (rule pipe_of_upd [OF q(1)])
    ultimately show ?thesis using q r by (simp add: pipe_ok_def buffered_def bs_def)
  qed
qed

lemma turns_stream:
  "pipe_ok ob s \<Longrightarrow> list_all turn_ok ts \<Longrightarrow> pipe_turns ob ts s = (i, out, s') \<Longrightarrow>
     pipe_ok ob s' \<and> buffered ob s @ i = out @ buffered ob s'"
proof (induction ob ts s arbitrary: i out s' rule: pipe_turns.induct)
  case (2 ob ie n ts s)
  obtain res s1 where r: "pipe_read ie ob n s = (res, s1)" by fastforce
  obtain i1 o1 s2 where t: "pipe_turns ob ts s1 = (i1, o1, s2)" by (cases "pipe_turns ob ts s1") auto
  have 1: "pipe_ok ob s1 \<and> buffered ob s = out_bytes res @ buffered ob s1"
    by (rule read_turn [OF "2.prems"(1) _ r]) (use "2.prems"(2) in simp)
  have "pipe_ok ob s2 \<and> buffered ob s1 @ i1 = o1 @ buffered ob s2"
    by (rule "2.IH" [OF r [symmetric]]) (use 1 t "2.prems"(2) in simp_all)
  then show ?case using "2.prems"(3) r t 1 by auto
next
  case (3 ob ie n don ts s)
  obtain res s1 where r: "pipe_write ie ob n don s = (res, s1)" by fastforce
  obtain i1 o1 s2 where t: "pipe_turns ob ts s1 = (i1, o1, s2)" by (cases "pipe_turns ob ts s1") auto
  have 1: "pipe_ok ob s1 \<and> buffered ob s1 = buffered ob s @ in_bytes ie don res"
    by (rule write_turn [OF "3.prems"(1) _ r]) (use "3.prems"(2) in simp)
  have "pipe_ok ob s2 \<and> buffered ob s1 @ i1 = o1 @ buffered ob s2"
    by (rule "3.IH" [OF r [symmetric]]) (use 1 t "3.prems"(2) in simp_all)
  then show ?case using "3.prems"(3) r t 1 by auto
qed auto

end
