(* ===== verification/Object_Deliver.thy ===== *)
theory Object_Deliver
  imports Object_Pipe
begin

text \<open>
  Calls on a pinned object that fail leave no trace, what a successful send of capabilities puts where,
  and what the publication of a port name does to the tables.
\<close>

unbundle bit_operations_syntax

text \<open>The messages a port holds, oldest first.\<close>

definition port_ring :: "oref \<Rightarrow> objsys \<Rightarrow> ipc_message ring option" where
  "port_ring ob s = map_option kq_ring (Option.bind (objs s ob) ko_port)"

definition port_queue :: "oref \<Rightarrow> objsys \<Rightarrow> ipc_message list" where
  "port_queue ob s = (case port_ring ob s of None \<Rightarrow> [] | Some r \<Rightarrow> ring_list PORT_QUEUE_MAX r)"

section \<open>Calls that fail\<close>

lemma unref_frame [simp]: "port_table (obj_unref ob s) = port_table s" "opins (obj_unref ob s) = remove1 ob (opins s)"
  by (simp_all add: obj_unref_def drop_ref_def kobj_free_def upd_obj_def Let_def split: option.split)

lemma with_pin_cases:
  assumes inv: "caps_inv X {} s" and res: "with_pin h need f s = (r, s')"
  obtains "s' = s" "r < 0"
  | ob t k t' where "caps_inv X {} t" "objs t ob = Some k" "cap_at t = cap_at s" "port_table t = port_table s"
      "ocur t = ocur s" "osched t = osched s" "opins t = ob # opins s" "f ob k t = (r, t')" "s' = obj_unref ob t'"
      "\<And>x. port_ring x t = port_ring x s"
      "\<exists>p rr. ocur s = Some p \<and> cap_at s (p, nat h) = Some (ob, rr) \<and> rr AND need = need"
      "Option.bind (objs s ob) ko_port = ko_port k"
proof (cases "pin_handle h need s")
  case (Pair res' s1)
  show thesis
  proof (cases res')
    case (Inl e)
    then have "s1 = s" "r = e" "s' = s1" using pin_handle_err Pair res by (auto simp: with_pin_def)
    moreover have "e < 0" using Pair Inl by (auto simp: pin_handle_def EBADF_def EPERM_def split: option.splits if_splits)
    ultimately show thesis using that(1) by simp
  next
    case (Inr ob)
    note p = pin_handleD [OF Pair [unfolded Inr] inv]
    obtain k where k: "objs s1 ob = Some k" using p(3) by auto
    obtain t' where f: "f ob k s1 = (r, t')" "s' = obj_unref ob t'"
      using res Pair Inr k by (auto simp: with_pin_def split: prod.splits)
    have s1: "s1 = (upd_obj ob (\<lambda>k. k\<lparr>ko_ref := ko_ref k + 1\<rparr>) s)\<lparr>opins := ob # opins s\<rparr>"
      using Pair Inr by (auto simp: pin_handle_def split: option.splits if_splits)
    have "port_table s1 = port_table s" "ocur s1 = ocur s" "osched s1 = osched s" "opins s1 = ob # opins s"
      by (simp_all add: s1 ocur_def osched_def)
    moreover have "port_ring x s1 = port_ring x s" for x
      by (cases "objs s ob") (simp_all add: port_ring_def s1 upd_obj_def)
    moreover have "Option.bind (objs s ob) ko_port = ko_port k" using k by (auto simp: s1 upd_obj_def)
    ultimately show thesis using that(2) [OF p(1) k p(4) _ _ _ _ f] p(5) by blast
  qed
qed

lemma same_refs:
  assumes "caps_inv X {} s" "caps_inv X {} s'" "cap_at s' = cap_at s" "opins s' = opins s"
  shows "map_option ko_ref (objs s' ob) = map_option ko_ref (objs s ob)"
proof -
  have c: "counts s' X P = counts s X P" for P using assms(3,4) by (simp add: counts_def pins_def)
  show ?thesis
    using inv_none [OF assms(1), of ob] inv_none [OF assms(2), of ob] inv_some [OF assms(1), of ob] inv_some [OF assms(2), of ob] c
    by (cases "objs s ob"; cases "objs s' ob") auto
qed


section \<open>What a send delivers\<close>

lemma install_slot:
  assumes "handle_install_locked p ob r s = (h, s')" "0 \<le> h"
  shows "cap_at s (p, nat h) = None" "cap_at s' = (cap_at s)((p, nat h) \<mapsto> (ob, r))"
    "\<And>x. map_option ko_type (objs s' x) = map_option ko_type (objs s x)" "ocur s' = ocur s"
proof -
  obtain i t where i: "h = int i" "handles s p = Some t" "i < length t" "cap_at s (p, i) = None"
      "s' = set_slot p i \<lparr>he_obj = Some ob, he_rights = r\<rparr> (acquire ob r s)"
    using assms by (elim install_cases) auto
  show "cap_at s (p, nat h) = None" using i by simp
  have "cap_at (acquire ob r s) = cap_at s" by (rule cap_at_cong) simp
  then show "cap_at s' = (cap_at s)((p, nat h) \<mapsto> (ob, r))"
    using i cap_at_slot [of "acquire ob r s" p t i] by (intro ext) (auto simp: fun_upd_def)
  show "map_option ko_type (objs s' x) = map_option ko_type (objs s x)" for x
    using install_types [of p ob r s x] assms(1) by simp
  show "ocur s' = ocur s" using ocur_install [of p ob r s] assms(1) by simp
qed

text \<open>When every listed handle is open, a send that gets through its install loop gives each its own slot.\<close>

lemma send_install_delivers:
  assumes "caps_inv X {} s" "ocur s = Some p" "send_install rcv fds inst s = (0, inst', s')"
    "\<forall>f\<in>set fds. cap_at s (p, nat f) \<noteq> None"
  shows "\<exists>new. inst' = inst @ new \<and> length new = length fds \<and> distinct new
    \<and> (\<forall>j<length fds. cap_at s (rcv, new ! j) = None \<and> cap_at s' (rcv, new ! j) = cap_at s (p, nat (fds ! j)))
    \<and> (\<forall>k. k \<notin> Pair rcv ` set new \<longrightarrow> cap_at s' k = cap_at s k)"
  using assms
proof (induction fds arbitrary: inst s)
  case Nil
  then show ?case by simp
next
  case (Cons f fds)
  obtain ob r where sl: "handle_slot f s = Some (p, nat f, ob, r)" "cap_at s (p, nat f) = Some (ob, r)"
  proof (cases "handle_slot f s")
    case None
    then show thesis using Cons.prems(3) by (simp add: EBADF_def)
  next
    case (Some v)
    obtain p' i ob r where v: "v = (p', i, ob, r)" by (cases v)
    from handle_slotD [OF Some [unfolded v] tables [OF Cons.prems(1)]] show thesis using that Some v Cons.prems(2) by auto
  qed
  obtain h s1 where ins: "handle_install_locked rcv ob r s = (h, s1)" by fastforce
  have h: "0 \<le> h" and rest: "send_install rcv fds (inst @ [nat h]) s1 = (0, inst', s')"
    using Cons.prems(3) sl ins by (auto split: if_splits)
  note i = install_slot [OF ins h]
  have i1: "caps_inv X {} s1"
    using install_inv0 [OF Cons.prems(1) held_obj [OF Cons.prems(1) sl(2)] rights_ok_cap [OF tables [OF Cons.prems(1)] sl(2)], of rcv] ins
    by simp
  have open1: "\<forall>g\<in>set fds. cap_at s1 (p, nat g) = cap_at s (p, nat g)" using Cons.prems(4) i(1,2) by fastforce
  then have "\<forall>g\<in>set fds. cap_at s1 (p, nat g) \<noteq> None" using Cons.prems(4) by simp
  from Cons.IH [OF i1 _ rest this] i(4) Cons.prems(2) obtain new where
    new: "inst' = (inst @ [nat h]) @ new" "length new = length fds" "distinct new"
      "\<forall>j<length fds. cap_at s1 (rcv, new ! j) = None \<and> cap_at s' (rcv, new ! j) = cap_at s1 (p, nat (fds ! j))"
      "\<forall>k. k \<notin> Pair rcv ` set new \<longrightarrow> cap_at s' k = cap_at s1 k" by auto
  have nh: "nat h \<notin> set new"
  proof
    assume "nat h \<in> set new"
    then obtain j where "j < length fds" "new ! j = nat h" using new(2) by (auto simp: in_set_conv_nth)
    then show False using new(4) i(2) by fastforce
  qed
  have each: "cap_at s (rcv, (nat h # new) ! j) = None \<and> cap_at s' (rcv, (nat h # new) ! j) = cap_at s (p, nat ((f # fds) ! j))"
    if "j < length (f # fds)" for j
  proof (cases j)
    case 0
    have "(rcv, nat h) \<notin> Pair rcv ` set new" using nh by auto
    then have "cap_at s' (rcv, nat h) = cap_at s1 (rcv, nat h)" using new(5) by blast
    then show ?thesis using 0 i(1,2) sl(2) by simp
  next
    case (Suc j')
    then have "cap_at s1 (rcv, new ! j') = None" "cap_at s' (rcv, new ! j') = cap_at s (p, nat (fds ! j'))"
      using that new(4) open1 by auto
    then show ?thesis using Suc i(2) by (auto split: if_splits)
  qed
  have "cap_at s' k = cap_at s k" if "k \<notin> Pair rcv ` set (nat h # new)" for k
  proof -
    have "k \<notin> Pair rcv ` set new" "k \<noteq> (rcv, nat h)" using that by auto
    then have "cap_at s' k = cap_at s1 k" "cap_at s1 k = cap_at s k" using new(5) i(2) by (blast, simp)
    then show ?thesis by simp
  qed
  then have "inst' = inst @ nat h # new \<and> length (nat h # new) = length (f # fds) \<and> distinct (nat h # new)
    \<and> (\<forall>j<length (f # fds). cap_at s (rcv, (nat h # new) ! j) = None \<and> cap_at s' (rcv, (nat h # new) ! j) = cap_at s (p, nat ((f # fds) ! j)))
    \<and> (\<forall>k. k \<notin> Pair rcv ` set (nat h # new) \<longrightarrow> cap_at s' k = cap_at s k)"
    using each new(1,2,3) nh by simp
  then show ?case by blast
qed

lemma adj_ring [simp]: "map_option kq_ring (ko_port (adj r d k)) = map_option kq_ring (ko_port k)"
  by (simp add: adj_def upd_port_def upd_pipe_def adj_port_def option.map_comp comp_def)

lemma install_ring: "port_ring x (snd (handle_install_locked p ob r s)) = port_ring x s"
proof (cases "handle_install_locked p ob r s")
  case (Pair h s')
  then show ?thesis
  proof (cases rule: install_cases)
    case (2 i t)
    then show ?thesis using Pair by (cases "objs s ob") (auto simp: port_ring_def)
  qed (simp add: Pair)
qed

lemma send_install_ring: "send_install rcv fds inst s = (e, inst', s') \<Longrightarrow> port_ring x s' = port_ring x s"
proof (induction fds arbitrary: inst s)
  case (Cons f fds)
  show ?case
  proof (cases "handle_slot f s")
    case None
    then show ?thesis using Cons.prems by simp
  next
    case (Some v)
    obtain p i ob r where v: "v = (p, i, ob, r)" by (cases v)
    obtain h s1 where ins: "handle_install_locked rcv ob r s = (h, s1)" by fastforce
    have "port_ring x s1 = port_ring x s" using install_ring [of x rcv ob r s] ins by simp
    then show ?thesis using Cons.prems Cons.IH [of "inst @ [nat h]" s1] Some v ins by (auto split: if_splits)
  qed
qed simp

lemma acquire_world: "ovfs (acquire ob r s) = ovfs s"
  by (simp add: acquire_def pipe_handle_count_def port_count_read_def port_count_write_def pipe_count_read_def pipe_count_write_def
      Let_def split: option.split)

lemma install_world: "ovfs (snd (handle_install_locked p ob r s)) = ovfs s"
  by (cases "handle_install_locked p ob r s") (auto elim!: install_cases simp: acquire_world set_slot_def)

lemma send_install_world: "send_install rcv fds inst s = (e, inst', s') \<Longrightarrow> ovfs s' = ovfs s"
proof (induction fds arbitrary: inst s)
  case (Cons f fds)
  show ?case
  proof (cases "handle_slot f s")
    case None
    then show ?thesis using Cons.prems by simp
  next
    case (Some v)
    obtain p i ob r where v: "v = (p, i, ob, r)" by (cases v)
    obtain h s1 where ins: "handle_install_locked rcv ob r s = (h, s1)" by fastforce
    have "ovfs s1 = ovfs s" using install_world [of rcv ob r s] ins by simp
    then show ?thesis using Cons.prems Cons.IH [of "inst @ [nat h]" s1] Some v ins by (auto split: if_splits)
  qed
qed simp

lemma send_unwind_ring: "send_unwind rcv is tf s = (tf', s') \<Longrightarrow> port_ring x s' = port_ring x s"
proof (induction "is" arbitrary: tf s)
  case (Cons i "is")
  define ob where "ob = the (he_obj (entry_at rcv i s))"
  define s1 where "s1 = upd_obj ob (\<lambda>k. k\<lparr>ko_ref := ko_ref k - 1\<rparr>) (pipe_handle_count ob (he_rights (entry_at rcv i s)) (- 1) s)"
  have "port_ring x (set_slot rcv i empty_entry s1) = port_ring x s"
    by (cases "objs s ob") (simp_all add: port_ring_def s1_def)
  then show ?case using Cons.prems Cons.IH [of _ "set_slot rcv i empty_entry s1"]
    by (simp add: Let_def flip: ob_def s1_def)
qed simp

lemma port_ring_upd: "port_ring ob (upd_obj ob (upd_port f) s) = map_option (\<lambda>q. kq_ring (f q)) (Option.bind (objs s ob) ko_port)"
  by (cases "objs s ob") (simp_all add: port_ring_def upd_obj_def upd_port_def option.map_comp comp_def)

lemma port_ring_cong: "objs t = objs s \<Longrightarrow> port_ring ob t = port_ring ob s"
  by (simp add: port_ring_def)

lemma port_ring_unref:
  assumes "objs (obj_unref ob s) x \<noteq> None"
  shows "port_ring x (obj_unref ob s) = port_ring x s"
proof (cases "x = ob")
  case True
  then show ?thesis using assms
    by (cases "objs s ob") (auto simp: port_ring_def obj_unref_def drop_ref_def kobj_free_def upd_obj_def Let_def split: option.splits if_splits)
next
  case False
  then show ?thesis
    by (simp add: port_ring_def obj_unref_def drop_ref_def kobj_free_def upd_obj_def Let_def split: option.split)
qed

lemma send_locked_delivers:
  assumes inv: "caps_inv X {} s" and cur: "ocur s = Some p" and k: "objs s ob = Some k" "ko_port k = Some q" "ko_type k = OBJ_TYPE_PORT"
    and res: "send_locked ob rcv m fds s = (ret, tf, s')" "0 \<le> ret"
    and op: "\<forall>f\<in>set fds. cap_at s (p, nat f) \<noteq> None"
  shows "\<exists>new. length new = length fds \<and> distinct new
    \<and> (\<forall>j<length fds. cap_at s (rcv, new ! j) = None \<and> cap_at s' (rcv, new ! j) = cap_at s (p, nat (fds ! j)))
    \<and> (\<forall>k. k \<notin> Pair rcv ` set new \<longrightarrow> cap_at s' k = cap_at s k)
    \<and> port_queue ob s' = port_queue ob s @ [stamp_caps (pid (procs (osched s) p)) new m]"
proof -
  obtain e inst s1 where i: "send_install rcv fds [] s = (e, inst, s1)" by (cases "send_install rcv fds [] s") auto
  note ok = send_locked_ok [OF res i]
  from send_install_delivers [OF inv cur i [unfolded ok(2)] op] obtain new where
    new: "inst = new" "length new = length fds" "distinct new"
      "\<forall>j<length fds. cap_at s (rcv, new ! j) = None \<and> cap_at s1 (rcv, new ! j) = cap_at s (p, nat (fds ! j))"
      "\<forall>k. k \<notin> Pair rcv ` set new \<longrightarrow> cap_at s1 k = cap_at s k" by auto
  have c: "cap_at s' = cap_at s1" unfolding ok(1) by (rule cap_at_cong) (simp add: port_enqueue_def)
  have pid: "cur_pid s1 = pid (procs (osched s) p)" using cur send_install_world [OF i] by (simp add: cur_pid_def ocur_def osched_def)
  have r1: "port_ring ob s1 = Some (kq_ring q)" using send_install_ring [OF i, of ob] k by (simp add: port_ring_def)
  obtain k1 q1 where k1: "objs s1 ob = Some k1" "ko_port k1 = Some q1" "kq_ring q1 = kq_ring q"
    using r1 by (auto simp: port_ring_def bind_eq_Some_conv)
  have "rg_count (kq_ring q) < PORT_QUEUE_MAX"
    using res k1 i send_install_err [OF i] by (auto simp: send_locked_def Let_def EPIPE_def EAGAIN_def split: if_splits prod.splits)
  moreover have "ring_ok PORT_QUEUE_MAX (kq_ring q)"
    using inv_some [OF inv k(1)] k(2,3) by (auto simp: payload_ok_def)
  ultimately have "ring_list PORT_QUEUE_MAX (ring_add PORT_QUEUE_MAX [stamp_caps (cur_pid s1) inst m] (kq_ring q))
      = ring_list PORT_QUEUE_MAX (kq_ring q) @ [stamp_caps (cur_pid s1) inst m]"
    using port_q.put_law [of "kq_ring q" "[stamp_caps (cur_pid s1) inst m]"] by simp
  then have "port_queue ob s' = port_queue ob s @ [stamp_caps (pid (procs (osched s) p)) new m]"
    using k k1 new(1) pid by (simp add: port_queue_def ok(1) port_enqueue_def port_ring_upd) (simp add: port_ring_def)
  then show ?thesis using new c by auto
qed

lemma send_locked_fails:
  assumes "send_locked ob rcv m fds s = (ret, tf, s')" "ret < 0"
  shows "port_ring x s' = port_ring x s"
proof -
  obtain e inst s1 where i: "send_install rcv fds [] s = (e, inst, s1)" by (cases "send_install rcv fds [] s") auto
  obtain tf2 s2 where u: "send_unwind rcv inst None s1 = (tf2, s2)" by fastforce
  have "s' = s2" using assms i u by (auto simp: send_locked_def Let_def split: if_splits)
  then show ?thesis using send_unwind_ring [OF u, of x] send_install_ring [OF i, of x] by simp
qed

section \<open>Publishing under a name\<close>

definition port_name :: "oref \<Rightarrow> objsys \<Rightarrow> string option" where
  "port_name ob s = map_option kq_name (Option.bind (objs s ob) ko_port)"

lemma port_named_iff: "port_named s n e \<longleftrightarrow> (\<exists>ob. e = Some ob \<and> port_name ob s = Some n)"
  by (auto simp: port_named_def port_name_def bind_eq_Some_conv split: option.splits)

lemma find_locked_None: "port_find_locked n s = None \<longleftrightarrow> (\<forall>ob. Some ob \<in> set (port_table s) \<longrightarrow> port_name ob s \<noteq> Some n)"
proof (cases "find (port_named s n) (port_table s)")
  case None
  then have "port_find_locked n s = None" by (simp add: port_find_locked_def)
  moreover have "\<forall>e\<in>set (port_table s). \<not> port_named s n e" using None by (auto simp: find_None_iff)
  ultimately show ?thesis by (auto simp: port_named_iff)
next
  case (Some e)
  then have "e \<in> set (port_table s)" "port_named s n e" by (auto simp: find_Some_iff)
  then show ?thesis using Some by (auto simp: port_find_locked_def port_named_iff)
qed

lemma adj_name [simp]: "map_option kq_name (ko_port (adj r d k)) = map_option kq_name (ko_port k)"
  by (simp add: adj_def upd_port_def upd_pipe_def adj_port_def option.map_comp comp_def)

lemma publish_ok:
  assumes pub: "port_publish ae p slot n r s = (h, s')" "0 \<le> h" and fresh: "fresh_obj ae s"
  obtains ob where "ae_obj ae = Some ob" "port_table s' = (port_table s)[slot := Some ob]"
    "port_name ob s' = Some (take (PORT_NAME_MAX - 1) n)" "\<And>x. x \<noteq> ob \<Longrightarrow> objs s' x = objs s x"
    "cap_at s' = (cap_at s)((p, nat h) \<mapsto> (ob, r))" "cap_at s (p, nat h) = None" "objs s ob = None"
    "\<And>x. Some x \<in> set (port_table s) \<Longrightarrow> x \<noteq> ob \<Longrightarrow> port_name x s \<noteq> Some n"
proof -
  have a: "ae_pay ae" "ae_obj ae \<noteq> None"
    using pub by (cases "ae_pay ae"; cases "ae_obj ae"; auto simp: port_publish_def kobj_alloc_def ENOMEM_def)+
  then obtain ob where ob: "ae_obj ae = Some ob" by auto
  define me where "me = pid (procs (osched s) p)"
  let ?k = "(zero_kobject\<lparr>ko_type := OBJ_TYPE_PORT\<rparr>)\<lparr>ko_port := Some (new_kport me n), ko_pid := me\<rparr>"
  define t where "t = s\<lparr>objs := (objs s)(ob \<mapsto> ?k),
    obj_live_count := (obj_live_count s)(OBJ_TYPE_PORT := obj_live_count s OBJ_TYPE_PORT + 1)\<rparr>"
  have alloc: "upd_obj ob (\<lambda>k. k\<lparr>ko_port := Some (new_kport me n), ko_pid := me\<rparr>)
      (s\<lparr>objs := (objs s)(ob \<mapsto> zero_kobject\<lparr>ko_type := OBJ_TYPE_PORT\<rparr>),
         obj_live_count := (obj_live_count s)(OBJ_TYPE_PORT := obj_live_count s OBJ_TYPE_PORT + 1)\<rparr>) = t"
    by (simp add: upd_obj_def t_def)
  obtain h3 s3 where ins: "handle_install_locked p ob r t = (h3, s3)" by fastforce
  have nf: "port_find_locked n t = None" and h: "h3 = h" and s': "s' = s3\<lparr>port_table := (port_table s3)[slot := Some ob]\<rparr>"
    using pub a ob ins by (auto simp: port_publish_def kobj_alloc_def Let_def me_def [symmetric] alloc EEXIST_def split: if_splits)
  have h0: "0 \<le> h3" using h pub by simp
  obtain i tb where st: "s3 = set_slot p i \<lparr>he_obj = Some ob, he_rights = r\<rparr> (acquire ob r t)" using ins h0 by (elim install_cases) auto
  have ct: "cap_at t = cap_at s" by (rule cap_at_cong) (simp add: t_def)
  have c: "cap_at s (p, nat h) = None" "cap_at s3 = (cap_at s)((p, nat h) \<mapsto> (ob, r))"
    using install_slot(1,2) [OF ins h0] ct h by simp_all
  show thesis
  proof (rule that [OF ob])
    show "port_table s' = (port_table s)[slot := Some ob]" by (simp add: s' st t_def)
    show "port_name ob s' = Some (take (PORT_NAME_MAX - 1) n)"
      by (simp add: s' st t_def port_name_def new_kport_def zero_kobject_def)
    show "x \<noteq> ob \<Longrightarrow> objs s' x = objs s x" for x by (simp add: s' st t_def)
    show "cap_at s' = (cap_at s)((p, nat h) \<mapsto> (ob, r))" using c(2) cap_at_cong [of s' s3] by (simp add: s')
    show "cap_at s (p, nat h) = None" by (rule c(1))
    show "objs s ob = None" using fresh ob by (simp add: fresh_obj_def)
    show "Some x \<in> set (port_table s) \<Longrightarrow> x \<noteq> ob \<Longrightarrow> port_name x s \<noteq> Some n" for x
      using nf unfolding find_locked_None by (auto simp: t_def port_name_def)
  qed
qed

lemma new_slot_other:
  assumes "\<forall>j<length new. cap_at t (rcv, new ! j) = None" "cap_at t k \<noteq> None"
  shows "k \<notin> Pair rcv ` set new"
proof
  assume "k \<in> Pair rcv ` set new"
  then obtain n where n: "n \<in> set new" "k = (rcv, n)" by (rule imageE)
  then obtain j where "j < length new" "new ! j = n" by (metis in_set_conv_nth)
  then have "cap_at t (rcv, n) = None" using assms(1) by metis
  then show False using assms(2) n(2) by metis
qed

text \<open>A call that succeeds passed the argument checks and ran on the pinned port.\<close>

lemma send_caps_pinned:
  assumes "sys_port_send_caps h um (Some fds) nfds s = (ret, s')" "0 \<le> ret"
  shows "with_pin h OS1_RIGHT_WRITE (send_caps_body um (Some (take (nat nfds) fds))) s = (ret, s')"
proof -
  have fds: "(if nfds = 0 then Some [] else map_option (take (nat nfds)) (Some fds)) = Some (take (nat nfds) fds)" by simp
  show ?thesis using assms by (auto simp: sys_port_send_caps_def EINVAL_def fds split: if_splits)
qed

end
