(* ===== verification/Object_Props.thy ===== *)
theory Object_Props
  imports Object_Deliver
begin

text \<open>
  Small systems that the properties are evaluated on, and the properties of kernel objects, handles,
  pipes and ports.
\<close>

unbundle bit_operations_syntax

section \<open>A small system\<close>

text \<open>One process; the states after it got its standard handles and after it published a port.\<close>

definition demo_vfs :: "kworld vfs" where
  "demo_vfs = boot_vfs \<lparr>kw_sched = boot_sched\<lparr>procs := (procs boot_sched)(5 := zero_process\<lparr>pid := 11, plevel := 2\<rparr>),
     process_pool := [Some 5]\<rparr>, kw_reg = boot_registry, kw_cur = Some 5\<rparr>"

definition demo_ae :: "oref \<Rightarrow> acq_env" where
  "demo_ae ob = \<lparr>ae_tbl = True, ae_obj = Some ob, ae_pay = True, ae_buf = True, ae_junk = (\<lambda>_. CHR ''x'')\<rparr>"

definition demo_born :: objsys where
  "demo_born = exec (Stdio (demo_ae 100) 5) (boot_objs demo_vfs)"

definition demo_served :: objsys where
  "demo_served = exec (Publish (demo_ae 101) 0 ''svc'' 3) demo_born"

definition demo_table :: "handle_entry list" where
  "demo_table = (replicate 32 empty_entry)[0 := \<lparr>he_obj = Some 100, he_rights = 1\<rparr>, 1 := \<lparr>he_obj = Some 100, he_rights = 2\<rparr>,
     2 := \<lparr>he_obj = Some 100, he_rights = 2\<rparr>]"

definition demo_port :: kport where
  "demo_port = (new_kport 11 ''svc'')\<lparr>kq_receivers := 1, kq_senders := 1\<rparr>"

lemma demo_reach: "obj_reach demo_born" "obj_reach demo_served"
proof -
  show b: "obj_reach demo_born"
    unfolding demo_born_def by (rule obj_reach.op [OF obj_reach.boot]) (simp add: fresh_obj_def boot_objs_def demo_ae_def)
  have "op_ok (Publish (demo_ae 101) 0 ''svc'' 3) demo_born"
    by (simp add: demo_born_def fresh_obj_def demo_ae_def boot_objs_def process_install_stdio_def handles_ensure_def kobj_alloc_def
        Let_def PORT_TABLE_MAX_def has_right_def OS1_RIGHT_READ_def)
  then show "obj_reach demo_served" unfolding demo_served_def by (rule obj_reach.op [OF b])
qed

lemma demo_born_eval:
  "handles demo_born = (\<lambda>_. None)(5 \<mapsto> demo_table)" "port_table demo_born = replicate 16 None"
  "objs demo_born = (\<lambda>_. None)(100 \<mapsto> zero_kobject\<lparr>ko_type := OBJ_TYPE_CONSOLE, ko_ref := 3\<rparr>)"
  "ovfs demo_born = demo_vfs" "opins demo_born = []"
  by (simp_all add: demo_born_def demo_table_def demo_ae_def boot_objs_def process_install_stdio_def handles_ensure_def kobj_alloc_def
      set_slot_def upd_obj_def Let_def NPROC_HANDLES_def PORT_TABLE_MAX_def OS1_RIGHT_READ_def OS1_RIGHT_WRITE_def fun_eq_iff)

lemma demo_free: "free_entry demo_table 0 = Some 3"
  by code_simp

lemma demo_rights: "3 AND OS1_RIGHT_ALL = (3 :: u32)" "has_right 3 OS1_RIGHT_READ" "has_right 3 OS1_RIGHT_WRITE"
  by (simp_all add: OS1_RIGHT_ALL_def OS1_RIGHT_READ_def OS1_RIGHT_WRITE_def OS1_RIGHT_WAIT_def OS1_RIGHT_DUPLICATE_def
      OS1_RIGHT_TRANSFER_def OS1_RIGHT_DESTROY_def OS1_RIGHT_MUTATE_def has_right_def)

lemma demo_world: "kw_cur (world demo_vfs) = Some 5" "pid (procs (kw_sched (world demo_vfs)) 5) = 11"
  "process_find_by_pid (kw_sched (world demo_vfs)) 11 = Some 5"
  by (simp_all add: demo_vfs_def boot_vfs_def process_find_by_pid_def)

lemma demo_served_eval:
  "handles demo_served = (\<lambda>_. None)(5 \<mapsto> demo_table[3 := \<lparr>he_obj = Some 101, he_rights = 3\<rparr>])"
  "port_table demo_served = (replicate 16 None)[0 := Some 101]"
  "objs demo_served = (\<lambda>_. None)(100 \<mapsto> zero_kobject\<lparr>ko_type := OBJ_TYPE_CONSOLE, ko_ref := 3\<rparr>,
     101 \<mapsto> zero_kobject\<lparr>ko_type := OBJ_TYPE_PORT, ko_port := Some demo_port, ko_pid := 11, ko_ref := 1\<rparr>)"
  "ovfs demo_served = demo_vfs" "opins demo_served = []"
proof -
  define k where "k = zero_kobject\<lparr>ko_type := OBJ_TYPE_PORT, ko_port := Some (new_kport 11 ''svc''), ko_pid := 11\<rparr>"
  define s2 where "s2 = demo_born\<lparr>objs := (objs demo_born)(101 \<mapsto> k),
    obj_live_count := (obj_live_count demo_born)(OBJ_TYPE_PORT := obj_live_count demo_born OBJ_TYPE_PORT + 1)\<rparr>"
  define s3 where "s3 = set_slot 5 3 \<lparr>he_obj = Some 101, he_rights = 3\<rparr> (acquire 101 3 s2)"
  have oc: "ocur demo_born = Some 5" "osched demo_born = kw_sched (world demo_vfs)"
    by (simp_all add: ocur_def osched_def demo_born_eval demo_world)
  have alloc: "kobj_alloc (Some 101) OBJ_TYPE_PORT demo_born = (Some 101, demo_born\<lparr>objs := (objs demo_born)(101 \<mapsto> zero_kobject\<lparr>ko_type := OBJ_TYPE_PORT\<rparr>),
      obj_live_count := obj_live_count s2\<rparr>)" (is "_ = (_, ?s1)")
    by (simp add: kobj_alloc_def s2_def)
  have put: "upd_obj 101 (\<lambda>k. k\<lparr>ko_port := Some (new_kport 11 ''svc''), ko_pid := 11\<rparr>) ?s1 = s2"
    by (simp add: upd_obj_def s2_def k_def)
  have "find (port_named s2 ''svc'') (port_table s2) = None"
    by (simp add: find_None_iff port_named_def s2_def demo_born_eval)
  then have "port_find_locked ''svc'' s2 = None" by (simp add: port_find_locked_def)
  moreover have "handle_install_locked 5 101 3 s2 = (3, s3)"
    using acquire_slot [of 101 3 5 3 "\<lparr>he_obj = Some 101, he_rights = 3\<rparr>" s2]
    by (simp add: handle_install_locked_def s2_def s3_def demo_born_eval demo_free acquire_def)
  moreover have "ae_pay (demo_ae 101)" "ae_obj (demo_ae 101) = Some 101" by (simp_all add: demo_ae_def)
  ultimately have eq: "demo_served = s3\<lparr>port_table := (port_table s3)[0 := Some 101]\<rparr>"
    by (simp add: demo_served_def oc demo_rights port_publish_def demo_world Let_def alloc put)
  show "handles demo_served = (\<lambda>_. None)(5 \<mapsto> demo_table[3 := \<lparr>he_obj = Some 101, he_rights = 3\<rparr>])"
    by (simp add: eq s3_def set_slot_def s2_def demo_born_eval)
  show "port_table demo_served = (replicate 16 None)[0 := Some 101]" "opins demo_served = []" "ovfs demo_served = demo_vfs"
    by (simp_all add: eq s3_def s2_def demo_born_eval acquire_world) (simp add: set_slot_def acquire_world s2_def demo_born_eval)
  show "objs demo_served = (\<lambda>_. None)(100 \<mapsto> zero_kobject\<lparr>ko_type := OBJ_TYPE_CONSOLE, ko_ref := 3\<rparr>,
     101 \<mapsto> zero_kobject\<lparr>ko_type := OBJ_TYPE_PORT, ko_port := Some demo_port, ko_pid := 11, ko_ref := 1\<rparr>)"
    by (simp add: eq s3_def s2_def demo_born_eval k_def adj_def upd_port_def adj_port_def demo_rights demo_port_def new_kport_def
        zero_kobject_def)
qed

abbreviation served_table :: "handle_entry list" where
  "served_table \<equiv> demo_table[3 := \<lparr>he_obj = Some 101, he_rights = 3\<rparr>]"

lemma served_entries: "free_entry served_table 0 = Some 4" "served_table ! 0 = \<lparr>he_obj = Some 100, he_rights = 1\<rparr>"
  "served_table ! 3 = \<lparr>he_obj = Some 101, he_rights = 3\<rparr>" "length served_table = 32"
  by code_simp+

lemma demo_cur: "ocur demo_served = Some 5" "osched demo_served = kw_sched (world demo_vfs)"
  by (simp_all add: ocur_def osched_def demo_served_eval demo_world)

text \<open>The same system inside a call on handle 3, and after that call copied handle 0 to slot 4.\<close>

definition demo_pinned :: objsys where
  "demo_pinned = (upd_obj 101 (\<lambda>k. k\<lparr>ko_ref := ko_ref k + 1\<rparr>) demo_served)\<lparr>opins := [101]\<rparr>"

definition demo_sent :: objsys where
  "demo_sent = set_slot 5 4 \<lparr>he_obj = Some 100, he_rights = 1\<rparr> (acquire 100 1 demo_pinned)"

lemma pinned_eval: "handles demo_pinned = handles demo_served" "ocur demo_pinned = Some 5" "osched demo_pinned = osched demo_served"
  "objs demo_pinned 101 = Some (zero_kobject\<lparr>ko_type := OBJ_TYPE_PORT, ko_port := Some demo_port, ko_pid := 11, ko_ref := 2\<rparr>)"
  by (simp_all add: demo_pinned_def ocur_def osched_def demo_served_eval demo_world)

lemma demo_pin: "pin_handle 3 OS1_RIGHT_WRITE demo_served = (Inr 101, demo_pinned)"
  by (simp add: pin_handle_def handle_slot_def demo_cur demo_served_eval served_entries NPROC_HANDLES_def OS1_RIGHT_WRITE_def demo_pinned_def)

lemma demo_copy: "handle_slot 0 demo_pinned = Some (5, 0, 100, 1)" "handle_install_locked 5 100 1 demo_pinned = (4, demo_sent)"
  "handle_slot 9 demo_sent = None"
  "ko_port (the (objs demo_sent 101)) = Some demo_port"
proof -
  have h: "handles demo_pinned 5 = Some served_table" by (simp add: pinned_eval demo_served_eval)
  show "handle_slot 0 demo_pinned = Some (5, 0, 100, 1)"
    by (simp add: handle_slot_def pinned_eval demo_served_eval served_entries NPROC_HANDLES_def)
  show "handle_install_locked 5 100 1 demo_pinned = (4, demo_sent)"
    using acquire_slot [of 100 1 5 4 "\<lparr>he_obj = Some 100, he_rights = 1\<rparr>" demo_pinned] h served_entries(1)
    by (simp add: handle_install_locked_def demo_sent_def acquire_def)
  have "(served_table[4 := \<lparr>he_obj = Some 100, he_rights = 1\<rparr>]) ! 9 = empty_entry" by code_simp
  moreover have "handles demo_sent 5 = Some (served_table[4 := \<lparr>he_obj = Some 100, he_rights = 1\<rparr>])"
    using h by (simp add: demo_sent_def set_slot_def)
  moreover have "ocur demo_sent = Some 5" using pinned_eval(2) by (simp add: demo_sent_def ocur_def acquire_world set_slot_def)
  ultimately show "handle_slot 9 demo_sent = None" by (simp add: handle_slot_def empty_entry_def)
  show "ko_port (the (objs demo_sent 101)) = Some demo_port" by (simp add: demo_sent_def pinned_eval)
qed

lemma demo_slot4: "cap_at demo_served (5, 4) = None" "cap_at demo_served (5, 0) = Some (100, 1)"
proof -
  have "served_table ! 4 = empty_entry" by code_simp
  then show "cap_at demo_served (5, 4) = None" by (simp add: cap_at_def demo_served_eval empty_entry_def)
  show "cap_at demo_served (5, 0) = Some (100, 1)"
    by (simp add: cap_at_def demo_served_eval served_entries served_entries(4) [simplified])
qed

abbreviation demo_after :: objsys where
  "demo_after \<equiv> obj_unref 101 (owake (rq_of 101) (port_enqueue 101 (stamp_caps 11 [4] zero_ipc) demo_sent))"

lemma demo_sent_cap: "cap_at demo_after (5, 4) = Some (100, 1)"
proof -
  have "cap_at demo_after = cap_at demo_sent" by (rule cap_at_cong) (simp add: port_enqueue_def)
  moreover have "handles demo_sent 5 = Some (served_table[4 := \<lparr>he_obj = Some 100, he_rights = 1\<rparr>])"
    by (simp add: demo_sent_def set_slot_def pinned_eval demo_served_eval)
  ultimately show ?thesis using served_entries(4) by (simp add: cap_at_def)
qed

lemma demo_send: "sys_port_send_caps 3 (Some zero_ipc) (Some [0]) 1 demo_served = (int IPC_MSG_SIZE, demo_after)"
proof -
  have pid: "cur_pid demo_sent = 11"
    using pinned_eval(2,3) demo_cur(2) demo_world(2) by (simp add: cur_pid_def demo_sent_def ocur_def osched_def acquire_world set_slot_def)
  have i: "send_install 5 [0] [] demo_pinned = (0, [4], demo_sent)" by (simp add: demo_copy)
  have "send_locked 101 5 zero_ipc [0] demo_pinned = (int IPC_MSG_SIZE, None, port_enqueue 101 (stamp_caps 11 [4] zero_ipc) demo_sent)"
    by (simp add: send_locked_def i Let_def demo_copy demo_port_def new_kport_def PORT_QUEUE_MAX_def pid)
  then have "send_caps_body (Some zero_ipc) (Some [0]) 101 (the (objs demo_pinned 101)) demo_pinned
      = (int IPC_MSG_SIZE, owake (rq_of 101) (port_enqueue 101 (stamp_caps 11 [4] zero_ipc) demo_sent))"
    by (simp add: send_caps_body_def pinned_eval demo_port_def new_kport_def demo_cur demo_world demo_served_eval Let_def IPC_MSG_SIZE_def)
  then show ?thesis by (simp add: sys_port_send_caps_def with_pin_def demo_pin)
qed

text \<open>The first system after the process made a pipe.\<close>

definition demo_io :: io_env where
  "demo_io = \<lparr>io_copy = True, io_kb = True, io_full = True, io_bytes = ''hi'', io_msg = zero_ipc, io_km = (\<lambda>_. True), io_ns = (\<lambda>x. x),
     io_winfo = (\<lambda>_. []), io_self = False\<rparr>"

definition demo_piped :: objsys where
  "demo_piped = exec (Pipe (demo_ae 102) True) demo_born"

lemma piped_entries: "free_entry demo_table 0 = Some 3"
  "free_entry (demo_table[3 := \<lparr>he_obj = Some 102, he_rights = 25\<rparr>]) 0 = Some 4"
  by code_simp+

lemma pipe_rights: "OS1_RIGHT_READ OR OS1_RIGHT_TRANSFER OR OS1_RIGHT_DUPLICATE = 25" "OS1_RIGHT_WRITE OR OS1_RIGHT_TRANSFER OR OS1_RIGHT_DUPLICATE = 26"
  "has_right 25 OS1_RIGHT_READ" "\<not> has_right 25 OS1_RIGHT_WRITE" "has_right 26 OS1_RIGHT_WRITE" "\<not> has_right 26 OS1_RIGHT_READ"
  by (simp_all add: OS1_RIGHT_READ_def OS1_RIGHT_WRITE_def OS1_RIGHT_DUPLICATE_def OS1_RIGHT_TRANSFER_def has_right_def)

lemma demo_piped_eval:
  "objs demo_piped 102 = Some (zero_kobject\<lparr>ko_type := OBJ_TYPE_PIPE, ko_ref := 2,
     ko_pipe := Some ((new_kpipe (\<lambda>_. CHR ''x''))\<lparr>kp_readers := 1, kp_writers := 1\<rparr>)\<rparr>)"
proof -
  let ?k = "(zero_kobject\<lparr>ko_type := OBJ_TYPE_PIPE\<rparr>)\<lparr>ko_pipe := Some (new_kpipe (\<lambda>_. CHR ''x''))\<rparr>"
  define t where "t = demo_born\<lparr>objs := (objs demo_born)(102 \<mapsto> ?k),
      obj_live_count := (obj_live_count demo_born)(OBJ_TYPE_PIPE := obj_live_count demo_born OBJ_TYPE_PIPE + 1)\<rparr>"
  have alloc: "kobj_alloc (Some 102) OBJ_TYPE_PIPE demo_born = (Some 102, demo_born\<lparr>objs := (objs demo_born)(102 \<mapsto> zero_kobject\<lparr>ko_type := OBJ_TYPE_PIPE\<rparr>),
      obj_live_count := obj_live_count t\<rparr>)" (is "_ = (_, ?s1)")
    by (simp add: kobj_alloc_def t_def)
  have put: "upd_obj 102 (\<lambda>k. k\<lparr>ko_pipe := Some (new_kpipe (\<lambda>_. CHR ''x''))\<rparr>) ?s1 = t" by (simp add: upd_obj_def t_def)
  define t4 where "t4 = set_slot 5 3 \<lparr>he_obj = Some 102, he_rights = 25\<rparr> (acquire 102 25 t)"
  define t5 where "t5 = set_slot 5 4 \<lparr>he_obj = Some 102, he_rights = 26\<rparr> (acquire 102 26 t4)"
  have h: "handles t 5 = Some demo_table" "handles t4 5 = Some (demo_table[3 := \<lparr>he_obj = Some 102, he_rights = 25\<rparr>])"
    by (simp_all add: t4_def t_def demo_born_eval set_slot_def)
  have i3: "handle_install_locked 5 102 25 t = (3, t4)"
    using acquire_slot [of 102 25 5 3 "\<lparr>he_obj = Some 102, he_rights = 25\<rparr>" t]
    by (simp add: handle_install_locked_def h piped_entries t4_def acquire_def)
  have i4: "handle_install_locked 5 102 26 t4 = (4, t5)"
    using acquire_slot [of 102 26 5 4 "\<lparr>he_obj = Some 102, he_rights = 26\<rparr>" t4]
    by (simp add: handle_install_locked_def h piped_entries t5_def acquire_def)
  have ae: "ae_tbl (demo_ae 102)" "ae_obj (demo_ae 102) = Some 102" "ae_pay (demo_ae 102)" "ae_buf (demo_ae 102)" "ae_junk (demo_ae 102) = (\<lambda>_. CHR ''x'')"
    by (simp_all add: demo_ae_def)
  have "ocur demo_born = Some 5" "handles_ensure True 5 demo_born = (0, demo_born)"
    by (simp_all add: ocur_def demo_born_eval demo_world handles_ensure_def)
  then have eq: "demo_piped = t5" by (simp add: demo_piped_def sys_pipe_def ae alloc put pipe_rights i3 i4 Let_def)
  show ?thesis
    by (simp add: eq t5_def t4_def t_def adj_def upd_pipe_def adj_pipe_def pipe_rights new_kpipe_def zero_kobject_def)
qed

lemma demo_piped_reach: "obj_reach demo_piped"
  unfolding demo_piped_def by (rule obj_reach.op [OF demo_reach(1)]) (simp add: fresh_obj_def demo_ae_def demo_born_eval)

text \<open>Two processes sleep on its read side.\<close>

definition demo_waiting :: objsys where
  "demo_waiting = set_sched (boot_sched\<lparr>lists := (lists boot_sched)(Waitqueue (rq_of 102) := [6, 7]),
     procs := (procs boot_sched)(6 := zero_process\<lparr>run_list := Some (Waitqueue (rq_of 102))\<rparr>)\<rparr>) demo_piped"

lemma publish_succeeds:
  assumes "ae_pay ae" "ae_obj ae = Some ob" "handles s p = Some tb" "free_entry tb 0 = Some i"
    and names: "\<And>x. Some x \<in> set (port_table s) \<Longrightarrow> x \<noteq> ob \<and> port_name x s \<noteq> Some n"
  shows "fst (port_publish ae p slot n r s) = int i"
proof -
  have "port_find_locked n (upd_obj ob f (s\<lparr>objs := (objs s)(ob \<mapsto> k), obj_live_count := c\<rparr>)) = None" for f k c
    unfolding find_locked_None using names by (auto simp: upd_obj_def port_name_def)
  then show ?thesis using assms by (simp add: port_publish_def kobj_alloc_def Let_def handle_install_locked_def)
qed

lemma free_port_SomeD: "free_port t j = Some i \<Longrightarrow> j \<le> i \<and> i - j < length t \<and> t ! (i - j) = None"
proof (induction t arbitrary: j)
  case (Cons e t)
  show ?case
  proof (cases "e = None")
    case False
    then have "free_port t (Suc j) = Some i" using Cons.prems by (auto split: if_splits)
    from Cons.IH [OF this] have "Suc j \<le> i \<and> i - Suc j < length t \<and> t ! (i - Suc j) = None" .
    moreover from this have "i - j = Suc (i - Suc j)" by linarith
    ultimately show ?thesis by simp
  qed (use Cons.prems in auto)
qed simp

lemma enqueue_other: "lists (enqueue_task p s) (Waitqueue w) = lists s (Waitqueue w)" "b \<noteq> p \<Longrightarrow> procs (enqueue_task p s) b = procs s b"
  by (simp_all add: enqueue_task_def Let_def upd_proc_def upd_cpu_def list_add_tail_def)

lemma wake_up_first:
  assumes "lists s (Waitqueue w) = a # b # ws" "run_list (procs s a) = Some (Waitqueue w)" "a \<noteq> b"
  shows "lists (wake_up w s) (Waitqueue w) = b # ws" "procs (wake_up w s) b = procs s b"
  using assms by (simp_all add: wake_up_def Let_def enqueue_other list_del_init_def upd_proc_def)

section \<open>Properties\<close>

text \<open>C28. The capability layer keeps its books.  In every state that any interleaving of its system calls can
  reach, with calls that sleep in the middle of a read or write and with any other change of the kernel in
  between, no handle is dangling, the reference count of every object is the number of handles to it plus
  the number of calls that hold it pinned and is positive, the end point counts of a pipe or port are the
  numbers of handles with the read and the write right, every published name leads to a live port with a
  receiver, and the counters of live objects are exact.
\<close>

theorem object_refcounts_exact:
  assumes "obj_reach s"
  shows "(\<forall>k ob r. cap_at s k = Some (ob, r) \<longrightarrow> objs s ob \<noteq> None)
    \<and> (\<forall>ob k. objs s ob = Some k \<longrightarrow> 0 < ko_ref k \<and> ko_ref k = held (cap_at s) (pins s) (refs_to ob)
         \<and> payload_ok (\<lambda>r. held (cap_at s) (pins s) (with_right ob r)) k)
    \<and> (\<forall>ob. Some ob \<in> set (port_table s) \<longrightarrow>
         (\<exists>k q. objs s ob = Some k \<and> ko_type k = OBJ_TYPE_PORT \<and> ko_port k = Some q \<and> 0 < kq_receivers q))
    \<and> (\<forall>ty. obj_live_count s ty = of_nat (card {ob. \<exists>k. objs s ob = Some k \<and> ko_type k = ty}))"
proof -
  have inv: "caps_inv [] {} s" using assms by (rule reach_inv)
  show ?thesis
  proof (intro conjI)
    show "\<forall>k ob r. cap_at s k = Some (ob, r) \<longrightarrow> objs s ob \<noteq> None" using held_obj [OF inv] by blast
    show "\<forall>ob k. objs s ob = Some k \<longrightarrow> 0 < ko_ref k \<and> ko_ref k = held (cap_at s) (pins s) (refs_to ob)
        \<and> payload_ok (\<lambda>r. held (cap_at s) (pins s) (with_right ob r)) k"
      using inv_some [OF inv] unfolding counts_def append_Nil by blast
  qed (use inv in \<open>simp_all add: caps_inv_def ports_ok_def live_ok_def\<close>)
qed

theorem object_refcounts_exact_witness:
  "obj_reach demo_served \<and> objs demo_served 101 \<noteq> None \<and> ko_ref (the (objs demo_served 101)) = 1
   \<and> held (cap_at demo_served) (pins demo_served) (refs_to 101) = 1"
proof -
  from object_refcounts_exact [OF demo_reach(2)] have
    "\<And>ob k. objs demo_served ob = Some k \<Longrightarrow> ko_ref k = held (cap_at demo_served) (pins demo_served) (refs_to ob)" by blast
  from this [of 101] show ?thesis using demo_reach(2) by (simp add: demo_served_eval)
qed

text \<open>C29. No capability comes from nothing.  A handle that appears anywhere when a system call runs names an
  object that was created by that call, or a published port without the right to receive, or an object the
  caller already held a handle to, with no right more than that handle had; only a privileged process can
  in addition place copies of other processes' handles, and only in a child it spawns.
\<close>

theorem no_capability_amplification:
  assumes reach: "obj_reach s" and ok: "op_ok op s" and new: "cap_at (exec op s) k = Some v" "cap_at s k \<noteq> Some v"
  shows "may_gain s (ocur s) v \<or> (\<exists>ae child rs. op = Redirects ae child rs \<and> spawner_privileged s \<and> held_anywhere s v)"
proof -
  have inv: "caps_inv [] {} s" using reach by (rule reach_inv)
  have "gain s (exec op s) (\<lambda>v. may_gain s (ocur s) v \<or> (\<exists>ae child rs. op = Redirects ae child rs \<and> spawner_privileged s \<and> held_anywhere s v))"
  proof (cases "\<exists>ae child rs. op = Redirects ae child rs")
    case True
    then obtain ae child rs where op: "op = Redirects ae child rs" by blast
    show ?thesis unfolding op exec.simps
      by (rule gain_mono [OF gain_redirects [OF inv]]) (auto simp: redirect_source_def may_gain_def copied_derived)
  next
    case False
    have "gain s (exec op s) (may_gain s (ocur s))" using exec_gain [OF inv ok] False by blast
    then show ?thesis by (rule gain_mono) blast
  qed
  then show ?thesis using new unfolding gain_def by blast
qed

theorem no_capability_amplification_witness:
  "obj_reach demo_served \<and> cap_at demo_served (5, 4) = None
   \<and> cap_at (exec (SendCaps 3 (Some zero_ipc) (Some [0]) 1) demo_served) (5, 4) = Some (100, 1) \<and> may_gain demo_served (Some 5) (100, 1)"
proof -
  have "cap_at (exec (SendCaps 3 (Some zero_ipc) (Some [0]) 1) demo_served) (5, 4) = Some (100, 1)"
    using demo_send demo_sent_cap by simp
  with no_capability_amplification [OF demo_reach(2), of "SendCaps 3 (Some zero_ipc) (Some [0]) 1" "(5, 4)" "(100, 1)"]
  show ?thesis using demo_reach(2) by (simp add: demo_slot4 demo_cur)
qed

text \<open>C30. Sending a message with capabilities either happens or does not.  If \<open>sys_port_send_caps\<close> returns an
  error, whatever the reason and however many handles it had already given to the receiver, every handle
  table, every reference count, every published name and every port queue is what it was before the call.
\<close>

theorem port_send_caps_fails_clean:
  assumes reach: "obj_reach s" and res: "sys_port_send_caps h um ufds nfds s = (ret, s')" "ret < 0"
  shows "cap_at s' = cap_at s \<and> port_table s' = port_table s
    \<and> (\<forall>ob. map_option ko_ref (objs s' ob) = map_option ko_ref (objs s ob)) \<and> (\<forall>ob. port_queue ob s' = port_queue ob s)"
proof (cases "nfds < 0 \<or> nfds > 4")
  case True
  then show ?thesis using res by (simp add: sys_port_send_caps_def)
next
  case False
  define fds where "fds = (if nfds = 0 then Some [] else map_option (take (nat nfds)) ufds)"
  have w: "with_pin h OS1_RIGHT_WRITE (send_caps_body um fds) s = (ret, s')"
    using res(1) False by (simp add: sys_port_send_caps_def fds_def)
  have inv: "caps_inv [] {} s" using reach by (rule reach_inv)
  have inv': "caps_inv [] {} s'" using send_caps_inv [OF inv, of h um ufds nfds] res(1) by simp
  have main: "cap_at s' = cap_at s \<and> port_table s' = port_table s \<and> opins s' = opins s
      \<and> (\<forall>ob. objs s' ob \<noteq> None \<longrightarrow> port_ring ob s' = port_ring ob s)"
    using inv w
  proof (cases rule: with_pin_cases)
    case 1
    then show ?thesis by simp
  next
    case (2 ob t k t')
    have "cap_at t' = cap_at t \<and> port_table t' = port_table t \<and> opins t' = opins t \<and> (\<forall>x. port_ring x t' = port_ring x t)"
      using 2(8,1,2)
    proof (cases rule: send_caps_body_cases)
      case (2 rcv m fs kp s1)
      then have "t' = s1" using res(2) by simp
      then show ?thesis
        using send_locked_inv(2,4) [OF \<open>caps_inv [] {} t\<close> \<open>objs t ob = Some k\<close> 2(1) 2(6)] send_locked_fails [OF 2(6) res(2)] res(2) by simp
    qed simp
    moreover have "cap_at s' = cap_at t'" by (rule cap_at_cong) (simp add: 2(9))
    moreover have "port_ring x s' = port_ring x t'" if "objs s' x \<noteq> None" for x
      using port_ring_unref [of ob t' x] that 2(9) by simp
    ultimately show ?thesis using 2(3,4,7,9,10) by simp
  qed
  have refs: "map_option ko_ref (objs s' ob) = map_option ko_ref (objs s ob)" for ob
    by (rule same_refs [OF inv inv']) (use main in simp_all)
  have "port_ring ob s' = port_ring ob s" for ob
    using main refs [of ob] by (cases "objs s' ob") (auto simp: port_ring_def)
  then show ?thesis using main refs by (simp add: port_queue_def)
qed

theorem port_send_caps_fails_clean_witness:
  "\<exists>s'. sys_port_send_caps 3 (Some zero_ipc) (Some [0, 9]) 2 demo_served = (- EBADF, s') \<and> cap_at s' = cap_at demo_served"
proof -
  have "send_install 5 [0, 9] [] demo_pinned = (- EBADF, [4], demo_sent)" by (simp add: demo_copy)
  then have "fst (send_locked 101 5 zero_ipc [0, 9] demo_pinned) = - EBADF"
    by (simp add: send_locked_def EBADF_def Let_def split: prod.split)
  then have "fst (send_caps_body (Some zero_ipc) (Some [0, 9]) 101 (the (objs demo_pinned 101)) demo_pinned) = - EBADF"
    by (auto simp: send_caps_body_def pinned_eval demo_port_def new_kport_def demo_cur demo_world demo_served_eval Let_def split: prod.split)
  then have "fst (sys_port_send_caps 3 (Some zero_ipc) (Some [0, 9]) 2 demo_served) = - EBADF"
    by (simp add: sys_port_send_caps_def with_pin_def demo_pin case_prod_beta)
  then obtain s' where "sys_port_send_caps 3 (Some zero_ipc) (Some [0, 9]) 2 demo_served = (- EBADF, s')" by (metis prod.collapse)
  with port_send_caps_fails_clean [OF demo_reach(2) this] show ?thesis by (simp add: EBADF_def)
qed

text \<open>C31. A send that succeeds delivers every listed handle.  If the listed handles are open, the process that
  owns the port gets, in distinct slots that were empty, the capability of each of them, with exactly the
  rights the sender has, whether or not they include the right to transfer it; no other slot of any table
  changes, and the message goes to the end of the port's queue carrying the sender's pid and the
  receiver's slots.
\<close>

theorem port_send_caps_delivers:
  assumes reach: "obj_reach s" and res: "sys_port_send_caps h (Some m) (Some fds) nfds s = (ret, s')" "0 \<le> ret"
    and cur: "ocur s = Some p" and op: "\<forall>f\<in>set (take (nat nfds) fds). cap_at s (p, nat f) \<noteq> None"
  shows "\<exists>ob rcv kp new. map_option fst (cap_at s (p, nat h)) = Some ob \<and> Option.bind (objs s ob) ko_port = Some kp
    \<and> process_find_by_pid (osched s) (kq_owner kp) = Some rcv
    \<and> length new = length (take (nat nfds) fds) \<and> distinct new
    \<and> (\<forall>j<length (take (nat nfds) fds). cap_at s (rcv, new ! j) = None \<and> cap_at s' (rcv, new ! j) = cap_at s (p, nat (fds ! j)))
    \<and> (\<forall>k. k \<notin> Pair rcv ` set new \<longrightarrow> cap_at s' k = cap_at s k)
    \<and> port_queue ob s' = port_queue ob s @ [stamp_caps (pid (procs (osched s) p)) new m]"
proof -
  note w = send_caps_pinned [OF res]
  have inv: "caps_inv [] {} s" using reach by (rule reach_inv)
  have inv': "caps_inv [] {} s'" using send_caps_inv [OF inv, of h "Some m" "Some fds" nfds] res(1) by simp
  from inv w show ?thesis
  proof (cases rule: with_pin_cases)
    case 1
    then show ?thesis using res(2) by simp
  next
    case a: (2 ob t k t')
    obtain rr where h: "cap_at s (p, nat h) = Some (ob, rr)" using a(11) cur by auto
    from a(8,1,2) show ?thesis
    proof (cases rule: send_caps_body_cases)
      case 1
      then show ?thesis using res(2) by simp
    next
      case (2 rcv m' fs kp s1)
      have eq: "m' = m" "fs = take (nat nfds) fds" using 2(3,4) by simp_all
      have op': "\<forall>f\<in>set fs. cap_at t (p, nat f) \<noteq> None" using op a(3) eq by simp
      have cur': "ocur t = Some p" using a(5) cur by simp
      from send_locked_delivers [OF a(1) cur' a(2) 2(2,1,6) res(2) op'] obtain new where
        new: "length new = length fs" "distinct new"
          "\<forall>j<length fs. cap_at t (rcv, new ! j) = None \<and> cap_at s1 (rcv, new ! j) = cap_at t (p, nat (fs ! j))"
          "\<forall>k. k \<notin> Pair rcv ` set new \<longrightarrow> cap_at s1 k = cap_at t k"
          "port_queue ob s1 = port_queue ob t @ [stamp_caps (pid (procs (osched t) p)) new m']" by blast
      have c: "cap_at s' = cap_at s1" by (rule cap_at_cong) (simp add: a(9) 2(7))
      have "(p, nat h) \<notin> Pair rcv ` set new" by (rule new_slot_other [of _ t]) (use new(1,3) h a(3) in auto)
      then have "cap_at s1 (p, nat h) = cap_at t (p, nat h)" using new(4) by blast
      then have "cap_at s' (p, nat h) = Some (ob, rr)" using c a(3) h by simp
      then have "objs s' ob \<noteq> None" by (rule held_obj [OF inv'])
      then have "port_queue ob s' = port_queue ob s1"
        using port_ring_unref [of ob t' ob] a(9) 2(7) by (simp add: port_queue_def port_ring_def)
      moreover have "port_queue ob t = port_queue ob s" using a(10) by (simp add: port_queue_def)
      ultimately have q: "port_queue ob s' = port_queue ob s @ [stamp_caps (pid (procs (osched s) p)) new m]"
        using new(5) eq a(6) by simp
      have "\<forall>j<length fs. cap_at s (rcv, new ! j) = None \<and> cap_at s' (rcv, new ! j) = cap_at s (p, nat (fds ! j))"
        using new(3) a(3) c eq by auto
      moreover have "\<forall>k. k \<notin> Pair rcv ` set new \<longrightarrow> cap_at s' k = cap_at s k" using new(4) a(3) c by simp
      ultimately show ?thesis unfolding eq(2) [symmetric]
        by (intro exI [of _ ob] exI [of _ rcv] exI [of _ kp] exI [of _ new]) (use new(1,2) q h a(6,12) 2(2,5) in auto)
    qed
  qed
qed

theorem port_send_caps_delivers_witness:
  "\<exists>s'. sys_port_send_caps 3 (Some zero_ipc) (Some [0]) 1 demo_served = (int IPC_MSG_SIZE, s')
     \<and> (\<exists>j. cap_at demo_served (5, j) = None \<and> cap_at s' (5, j) = Some (100, 1)) \<and> \<not> has_right 1 OS1_RIGHT_TRANSFER
     \<and> fst (sys_cap_grant 11 0 1 demo_served) = - EPERM"
proof -
  have op: "\<forall>f\<in>set (take (nat 1) [0]). cap_at demo_served (5, nat f) \<noteq> None" by (simp add: demo_slot4)
  from port_send_caps_delivers [OF demo_reach(2) demo_send _ demo_cur(1) op] obtain rcv new where
    "\<forall>j<1. cap_at demo_served (rcv, new ! j) = None \<and> cap_at demo_after (rcv, new ! j) = cap_at demo_served (5, 0)" by auto
  then have "\<exists>j. cap_at demo_served (5, j) = None \<and> cap_at demo_after (5, j) = Some (100, 1)"
    using demo_slot4 demo_sent_cap by blast
  moreover have "fst (sys_cap_grant 11 0 1 demo_served) = - EPERM"
    by (simp add: sys_cap_grant_def demo_cur demo_served_eval process_ipc_allowed_def demo_world handle_slot_def served_entries
        NPROC_HANDLES_def has_right_def OS1_RIGHT_TRANSFER_def)
  ultimately show ?thesis using demo_send by (simp add: has_right_def OS1_RIGHT_TRANSFER_def)
qed

text \<open>C32. A pipe is a bounded queue of bytes.  Whatever passes readers and writers make over it, in whatever
  order they get the lock and however the copies are cut into pieces, what was buffered followed by what
  the writers put in is what the readers got followed by what is still buffered: no byte is lost,
  duplicated or reordered, and never more than the size of the ring is held.
\<close>

theorem pipe_byte_stream:
  assumes reach: "obj_reach s" and pipe: "objs s ob = Some k" "ko_type k = OBJ_TYPE_PIPE"
    and turns: "list_all turn_ok ts" "pipe_turns ob ts s = (sent, got, s')"
  shows "buffered ob s @ sent = got @ buffered ob s' \<and> length (buffered ob s') \<le> PIPE_BUF_SIZE"
proof -
  have "payload_ok (\<lambda>r. counts s [] (with_right ob r)) k" using inv_some [OF reach_inv [OF reach] pipe(1)] by blast
  then have "pipe_ok ob s" using pipe by (auto simp: payload_ok_def pipe_ok_def pipe_of_def)
  from turns_stream [OF this turns] have ok: "pipe_ok ob s'" and eq: "buffered ob s @ sent = got @ buffered ob s'" by auto
  from ok have "length (buffered ob s') \<le> PIPE_BUF_SIZE"
    using pipe_q.bound by (auto simp: pipe_ok_def buffered_def)
  with eq show ?thesis by simp
qed

theorem pipe_byte_stream_witness:
  "\<exists>s' got. pipe_turns 102 [WTurn demo_io 2 0, RTurn demo_io 2] demo_piped = (''hi'', got, s') \<and> ''hi'' = got @ buffered 102 s'"
proof -
  obtain sent got s' where t: "pipe_turns 102 [WTurn demo_io 2 0, RTurn demo_io 2] demo_piped = (sent, got, s')"
    by (cases "pipe_turns 102 [WTurn demo_io 2 0, RTurn demo_io 2] demo_piped") auto
  then have "sent = ''hi''"
    by (simp add: pipe_write_def demo_piped_eval demo_io_def new_kpipe_def PIPE_BUF_SIZE_def Let_def split: prod.splits)
  moreover have "buffered 102 demo_piped = []"
    by (simp add: buffered_def pipe_of_def demo_piped_eval new_kpipe_def ring_list_def)
  ultimately show ?thesis
    using pipe_byte_stream [OF demo_piped_reach demo_piped_eval _ _ t] t by (simp add: demo_io_def)
qed

text \<open>Two services that publish at the same time lose one name.  The free slot of the port table is chosen
  under the lock, but the lock is dropped for the allocations before the slot is filled.  If two
  publishers look up a slot in the same state and both publications succeed, they were given the same
  slot: the name of the first leads nowhere afterwards, while its owner still holds the receive right and
  was told that its service is up.
\<close>

theorem port_publish_race_loses_name:
  assumes reach: "obj_reach s" and look: "port_lookup p1 n1 r1 s = Inr slot1" "port_lookup p2 n2 r2 s = Inr slot2"
    and pub1: "port_publish ae1 p1 slot1 n1 r1 s = (h1, s1)" "0 \<le> h1" "fresh_obj ae1 s"
    and pub2: "port_publish ae2 p2 slot2 n2 r2 s1 = (h2, s2)" "0 \<le> h2" "fresh_obj ae2 s1" "length n2 < PORT_NAME_MAX"
  shows "slot1 = slot2 \<and> port_find_locked n1 s2 = None
    \<and> (\<exists>ob. ae_obj ae1 = Some ob \<and> objs s2 ob \<noteq> None \<and> cap_at s2 (p1, nat h1) = Some (ob, r1) \<and> has_right r1 OS1_RIGHT_READ)"
proof -
  have slot: "slot1 = slot2" and none: "port_find_locked n1 s = None" and r1: "has_right r1 OS1_RIGHT_READ"
    and free: "free_port (port_table s) 0 = Some slot1"
    using look by (auto simp: port_lookup_def Let_def split: if_splits option.splits)
  note lt = free_port_SomeD [OF free, simplified]
  from pub1 obtain a where
    a: "ae_obj ae1 = Some a" "port_table s1 = (port_table s)[slot1 := Some a]" "port_name a s1 = Some (take (PORT_NAME_MAX - 1) n1)"
      "\<And>x. x \<noteq> a \<Longrightarrow> objs s1 x = objs s x" "cap_at s1 = (cap_at s)((p1, nat h1) \<mapsto> (a, r1))"
      "cap_at s (p1, nat h1) = None" "objs s a = None" "\<And>x. Some x \<in> set (port_table s) \<Longrightarrow> x \<noteq> a \<Longrightarrow> port_name x s \<noteq> Some n1"
    by (rule publish_ok) (rule that)
  from pub2(1-3) obtain b where
    b: "ae_obj ae2 = Some b" "port_table s2 = (port_table s1)[slot2 := Some b]" "port_name b s2 = Some (take (PORT_NAME_MAX - 1) n2)"
      "\<And>x. x \<noteq> b \<Longrightarrow> objs s2 x = objs s1 x" "cap_at s2 = (cap_at s1)((p2, nat h2) \<mapsto> (b, r2))"
      "cap_at s1 (p2, nat h2) = None" "objs s1 b = None" "\<And>x. Some x \<in> set (port_table s1) \<Longrightarrow> x \<noteq> b \<Longrightarrow> port_name x s1 \<noteq> Some n2"
    by (rule publish_ok) (rule that)
  have as: "objs s1 a \<noteq> None" using a(3) by (auto simp: port_name_def bind_eq_Some_conv)
  then have ab: "a \<noteq> b" using b(7) by auto
  have live: "objs s x \<noteq> None" if "Some x \<in> set (port_table s)" for x
    using reach_inv [OF reach] that by (auto simp: caps_inv_def ports_ok_def)
  have tab: "port_table s2 = (port_table s)[slot1 := Some b]" using a(2) b(2) slot by simp
  have "port_name x s2 \<noteq> Some n1" if x: "Some x \<in> set (port_table s2)" for x
  proof (cases "x = b")
    case True
    have "Some a \<in> set (port_table s1)" using a(2) lt by (simp add: set_update_memI)
    then have "take (PORT_NAME_MAX - 1) n1 \<noteq> n2" using b(8) [of a] a(3) ab by auto
    moreover have "take (PORT_NAME_MAX - 1) n2 = n2" using pub2(4) by simp
    ultimately show ?thesis using True b(3) by auto
  next
    case False
    then have t: "Some x \<in> set (port_table s)" using x tab set_update_subset_insert [of "port_table s" slot1 "Some b"] by auto
    then have "x \<noteq> a" using live [of x] a(7) by auto
    then have "objs s2 x = objs s x" using False a(4) b(4) by simp
    then show ?thesis using none t by (auto simp: find_locked_None port_name_def)
  qed
  then have "port_find_locked n1 s2 = None" by (simp add: find_locked_None)
  moreover have mine: "cap_at s1 (p1, nat h1) = Some (a, r1)" using a(5) by simp
  then have "(p1, nat h1) \<noteq> (p2, nat h2)" using b(6) by (cases "(p1, nat h1) = (p2, nat h2)") simp_all
  then have "cap_at s2 (p1, nat h1) = cap_at s1 (p1, nat h1)" using b(5) by (metis fun_upd_other)
  then have "cap_at s2 (p1, nat h1) = Some (a, r1)" using mine by simp
  moreover have "objs s2 a \<noteq> None" using as ab b(4) by simp
  ultimately show ?thesis using slot a(1) r1 by blast
qed

theorem port_publish_race_loses_name_witness:
  "port_lookup 5 ''svc'' 3 demo_born = Inr 0 \<and> port_lookup 5 ''svb'' 3 demo_born = Inr 0 \<and> port_find_locked ''svc'' demo_served = Some 101
   \<and> port_find_locked ''svc'' (snd (port_publish (demo_ae 102) 5 0 ''svb'' 3 demo_served)) = None"
proof -
  have nf: "port_find_locked n demo_born = None" for n by (simp add: find_locked_None demo_born_eval)
  have lk: "port_lookup 5 n 3 demo_born = Inr 0" for n
    by (simp add: port_lookup_def nf demo_rights demo_born_eval numeral_eq_Suc)
  have e1: "fst (port_publish (demo_ae 101) 5 0 ''svc'' 3 demo_born) = int 3"
    by (rule publish_succeeds [where ob = 101 and tb = demo_table])
      (simp_all add: demo_ae_def demo_born_eval demo_free)
  have e2: "fst (port_publish (demo_ae 102) 5 0 ''svb'' 3 demo_served) = int 4"
    by (rule publish_succeeds [where ob = 102 and tb = served_table])
      (auto simp: demo_ae_def demo_served_eval served_entries port_name_def demo_port_def new_kport_def PORT_NAME_MAX_def
        dest!: set_update_subset_insert [THEN subsetD])
  have s1: "snd (port_publish (demo_ae 101) 5 0 ''svc'' 3 demo_born) = demo_served"
    by (simp add: demo_served_def ocur_def demo_born_eval demo_world demo_rights)
  have found: "port_find_locked ''svc'' demo_served = Some 101"
    by (simp add: port_find_locked_def port_named_def demo_served_eval numeral_eq_Suc demo_port_def new_kport_def PORT_NAME_MAX_def)
  from e1 s1 have p1: "port_publish (demo_ae 101) 5 0 ''svc'' 3 demo_born = (int 3, demo_served)" by (metis prod.collapse)
  from e2 have p2: "port_publish (demo_ae 102) 5 0 ''svb'' 3 demo_served = (int 4, snd (port_publish (demo_ae 102) 5 0 ''svb'' 3 demo_served))"
    by (metis prod.collapse)
  have "port_find_locked ''svc'' (snd (port_publish (demo_ae 102) 5 0 ''svb'' 3 demo_served)) = None"
    using port_publish_race_loses_name [OF demo_reach(1) lk [of "''svc''"] lk [of "''svb''"] p1 _ _ p2]
    by (simp add: fresh_obj_def demo_ae_def demo_born_eval demo_served_eval PORT_NAME_MAX_def)
  with lk found show ?thesis by simp
qed

text \<open>Closing the last write end wakes one reader only.  When several processes sleep on an empty pipe and
  the last handle with the write right goes away, the first of them is made ready; the second stays asleep
  on the queue although no writer is left that could ever wake it.
\<close>

theorem pipe_eof_wakes_one_reader:
  assumes pipe: "objs s ob = Some k" "ko_type k = OBJ_TYPE_PIPE" "ko_pipe k = Some q" "kp_writers q = 1"
    and r: "has_right r OS1_RIGHT_WRITE" "\<not> has_right r OS1_RIGHT_READ"
    and wait: "lists (osched s) (Waitqueue (rq_of ob)) = a # b # ws" "run_list (procs (osched s) a) = Some (Waitqueue (rq_of ob))" "a \<noteq> b"
  shows "lists (osched (pipe_handle_count ob r (- 1) s)) (Waitqueue (rq_of ob)) = b # ws
    \<and> procs (osched (pipe_handle_count ob r (- 1) s)) b = procs (osched s) b
    \<and> map_option kp_writers (pipe_of ob (pipe_handle_count ob r (- 1) s)) = Some 0"
proof -
  let ?s = "upd_obj ob (upd_pipe (\<lambda>q. q\<lparr>kp_writers := kp_writers q - 1\<rparr>)) s"
  have eq: "pipe_handle_count ob r (- 1) s = owake (rq_of ob) ?s"
    using pipe r by (simp add: pipe_handle_count_def pipe_count_write_def Let_def upd_pipe_def)
  have os: "osched ?s = osched s" "osched (owake (rq_of ob) ?s) = wake_up (rq_of ob) (osched s)"
    by (simp_all add: osched_def owake_def set_sched_def upd_obj_def)
  have "pipe_of ob (owake (rq_of ob) ?s) = Some (q\<lparr>kp_writers := kp_writers q - 1\<rparr>)"
    using pipe_of_upd [of ob s q] pipe by (simp add: pipe_of_def)
  moreover note wake_up_first [OF wait]
  ultimately show ?thesis using eq os pipe by simp
qed

theorem pipe_eof_wakes_one_reader_witness:
  "lists (osched (pipe_handle_count 102 26 (- 1) demo_waiting)) (Waitqueue (rq_of 102)) = [7]
   \<and> map_option kp_writers (pipe_of 102 (pipe_handle_count 102 26 (- 1) demo_waiting)) = Some 0"
proof -
  have o: "objs demo_waiting 102 = objs demo_piped 102"
    "osched demo_waiting = boot_sched\<lparr>lists := (lists boot_sched)(Waitqueue (rq_of 102) := [6, 7]),
       procs := (procs boot_sched)(6 := zero_process\<lparr>run_list := Some (Waitqueue (rq_of 102))\<rparr>)\<rparr>"
    by (simp_all add: demo_waiting_def osched_def set_sched_def)
  from pipe_eof_wakes_one_reader [OF o(1) [unfolded demo_piped_eval] _ _ _ pipe_rights(5,6), of _ 6 7 "[]"]
  show ?thesis by (simp add: o(2))
qed

end
