(* ===== verification/Vsnprintf.thy ===== *)
theory Vsnprintf
  imports Registry
begin

text \<open>
  Formatted output (\<open>kernel/lib/vsnprintf.c\<close>, kernel build): \<open>print_num\<close>, the parser of flags, width,
  precision and length, the conversions, and the bounded writes to the caller's buffer.

  The format is the text before its terminator.  A variadic argument is a machine word or a pointer to
  the bytes of a string, with their terminator if they have one.  Reading outside the format, the
  arguments or a string, and using an argument of the wrong kind, are faults.  Counters are natural
  numbers; \<open>needed\<close> is wrapped to an \<open>int\<close> when it is returned.  The subtraction from a width of
  \<open>INT_MIN\<close>, undefined in C, is not wrapped: such a field is not padded.
\<close>

unbundle bit_operations_syntax

section \<open>Flags and numbers\<close>

definition FLAG_ZEROPAD :: u32 where "FLAG_ZEROPAD = 0x01"
definition FLAG_LEFT :: u32 where "FLAG_LEFT = 0x02"
definition FLAG_PLUS :: u32 where "FLAG_PLUS = 0x04"
definition FLAG_SPACE :: u32 where "FLAG_SPACE = 0x08"
definition FLAG_SPECIAL :: u32 where "FLAG_SPECIAL = 0x10"
definition FLAG_UPPERCASE :: u32 where "FLAG_UPPERCASE = 0x20"
definition FLAG_SIGN :: u32 where "FLAG_SIGN = 0x40"

definition has_flag :: "u32 \<Rightarrow> u32 \<Rightarrow> bool" where
  "has_flag flags b \<longleftrightarrow> flags AND b \<noteq> 0"

abbreviation NUL :: char where "NUL \<equiv> CHR 0x00"

section \<open>The output\<close>

text \<open>The buffer, \<open>written\<close> and \<open>needed\<close>.\<close>

record sink =
  sk_buf :: string
  sk_written :: nat
  sk_needed :: nat

definition room :: "nat \<Rightarrow> nat \<Rightarrow> bool" where
  "room sz w \<longleftrightarrow> int w < wrap_int (int sz) - 1"

definition emit :: "nat \<Rightarrow> char \<Rightarrow> sink \<Rightarrow> sink" where
  "emit sz c k =
     (let k1 = (if sz > 0 \<and> room sz (sk_written k)
                then k\<lparr>sk_buf := (sk_buf k)[sk_written k := c], sk_written := sk_written k + 1\<rparr> else k)
      in k1\<lparr>sk_needed := sk_needed k1 + 1\<rparr>)"

fun emit_all :: "nat \<Rightarrow> string \<Rightarrow> sink \<Rightarrow> sink" where
  "emit_all sz [] k = k"
| "emit_all sz (c # cs) k = emit_all sz cs (emit sz c k)"

fun emit_pad :: "nat \<Rightarrow> char \<Rightarrow> nat \<Rightarrow> sink \<Rightarrow> sink" where
  "emit_pad sz c 0 k = k"
| "emit_pad sz c (Suc n) k = emit_pad sz c n (emit sz c k)"

section \<open>\<open>print_num\<close>\<close>

definition digit_char :: "bool \<Rightarrow> nat \<Rightarrow> char" where
  "digit_char upper d = (if upper then ''0123456789ABCDEF'' else ''0123456789abcdef'') ! d"

text \<open>The digits, least significant first; the base is 10 or 16.\<close>

function digits_rev :: "bool \<Rightarrow> bool \<Rightarrow> u64 \<Rightarrow> string" where
  "digits_rev upper hex num =
     (let base = (if hex then 16 else 10) in
      if num = 0 then [] else digit_char upper (unat (num mod base)) # digits_rev upper hex (num div base))"
  by auto
termination
proof (relation "measure (\<lambda>(u, h, n). unat n)")
  fix hex and num base :: u64
  assume "base = (if hex then 16 else 10)" "num \<noteq> 0"
  then have "unat num div unat base < unat num" by (intro div_less_dividend) (auto simp: unat_gt_0)
  then show "((upper :: bool, hex, num div base), upper, hex, num) \<in> measure (\<lambda>(u, h, n). unat n)" for upper
    by (simp add: unat_div)
qed simp

declare digits_rev.simps [simp del]

definition num_tmp :: "u64 \<Rightarrow> bool \<Rightarrow> int \<Rightarrow> u32 \<Rightarrow> string" where
  "num_tmp num hex precision flags =
     (let ds = (if num = 0 then ''0'' else digits_rev (has_flag flags FLAG_UPPERCASE) hex num)
      in ds @ replicate (nat (min precision 64) - length ds) CHR ''0'')"

definition emit_sign :: "nat \<Rightarrow> u32 \<Rightarrow> sink \<Rightarrow> sink" where
  "emit_sign sz flags k =
     (if has_flag flags FLAG_SIGN then emit sz CHR ''-'' k
      else if has_flag flags FLAG_PLUS then emit sz CHR ''+'' k
      else if has_flag flags FLAG_SPACE then emit sz CHR '' '' k
      else k)"

definition print_num :: "string \<Rightarrow> nat \<Rightarrow> u64 \<Rightarrow> bool \<Rightarrow> int \<Rightarrow> int \<Rightarrow> u32 \<Rightarrow> nat \<times> string" where
  "print_num buf sz num hex width precision flags =
     (let tmp = num_tmp num hex precision flags;
          w1 = width - int (length tmp);
          w2 = (if has_flag flags (FLAG_SIGN OR FLAG_PLUS OR FLAG_SPACE) then w1 - 1 else w1);
          lead = \<not> has_flag flags (FLAG_ZEROPAD OR FLAG_LEFT);
          k1 = (if lead then emit_pad sz CHR '' '' (nat w2) \<lparr>sk_buf = buf, sk_written = 0, sk_needed = 0\<rparr>
                else \<lparr>sk_buf = buf, sk_written = 0, sk_needed = 0\<rparr>);
          w3 = (if lead then min w2 0 else w2);
          k2 = emit_sign sz flags k1;
          k3 = (if has_flag flags FLAG_ZEROPAD then emit_pad sz CHR ''0'' (nat w3) k2 else k2);
          w4 = (if has_flag flags FLAG_ZEROPAD then min w3 0 else w3);
          k4 = emit_all sz (rev tmp) k3;
          k5 = (if has_flag flags FLAG_LEFT then emit_pad sz CHR '' '' (nat w4) k4 else k4)
      in (sk_needed k5, sk_buf k5))"

section \<open>Arguments\<close>

datatype varg = VWord u64 | VStr "string option"

datatype pf_fault = FmtOverrun | ArgMissing | ArgKind | StrOverrun | NullBuffer

definition va_word :: "varg list \<Rightarrow> pf_fault + (u64 \<times> varg list)" where
  "va_word args = (case args of [] \<Rightarrow> Inl ArgMissing | VWord w # r \<Rightarrow> Inr (w, r) | VStr _ # r \<Rightarrow> Inl ArgKind)"

definition va_str :: "varg list \<Rightarrow> pf_fault + (string option \<times> varg list)" where
  "va_str args = (case args of [] \<Rightarrow> Inl ArgMissing | VStr s # r \<Rightarrow> Inr (s, r) | VWord _ # r \<Rightarrow> Inl ArgKind)"

definition as_int :: "u64 \<Rightarrow> int" where
  "as_int w = sint (ucast w :: 32 word)"

section \<open>The format\<close>

fun parse_flags :: "string \<Rightarrow> u32 \<Rightarrow> u32 \<times> string" where
  "parse_flags [] f = (f, [])"
| "parse_flags (c # cs) f =
     (if c = CHR ''-'' then parse_flags cs (f OR FLAG_LEFT)
      else if c = CHR ''+'' then parse_flags cs (f OR FLAG_PLUS)
      else if c = CHR '' '' then parse_flags cs (f OR FLAG_SPACE)
      else if c = CHR ''#'' then parse_flags cs (f OR FLAG_SPECIAL)
      else if c = CHR ''0'' then parse_flags cs (f OR FLAG_ZEROPAD)
      else (f, c # cs))"

definition is_dec :: "char \<Rightarrow> bool" where
  "is_dec c \<longleftrightarrow> CHR ''0'' \<le> c \<and> c \<le> CHR ''9''"

fun parse_dec :: "string \<Rightarrow> int \<Rightarrow> int \<times> string" where
  "parse_dec [] n = (n, [])"
| "parse_dec (c # cs) n =
     (if is_dec c then parse_dec cs (wrap_int (n * 10 + (of_char c - 48))) else (n, c # cs))"

definition parse_width :: "string \<Rightarrow> varg list \<Rightarrow> u32 \<Rightarrow> pf_fault + (int \<times> u32 \<times> string \<times> varg list)" where
  "parse_width fmt args flags =
     (if fmt \<noteq> [] \<and> hd fmt = CHR ''*'' then
        (case va_word args of
           Inl e \<Rightarrow> Inl e
         | Inr (w, r) \<Rightarrow>
             if as_int w < 0 then Inr (wrap_int (- as_int w), flags OR FLAG_LEFT, tl fmt, r)
             else Inr (as_int w, flags, tl fmt, r))
      else (case parse_dec fmt 0 of (n, fmt1) \<Rightarrow> Inr (n, flags, fmt1, args)))"

definition parse_prec :: "string \<Rightarrow> varg list \<Rightarrow> pf_fault + (int \<times> string \<times> varg list)" where
  "parse_prec fmt args =
     (if fmt \<noteq> [] \<and> hd fmt = CHR ''.'' then
        (if tl fmt \<noteq> [] \<and> hd (tl fmt) = CHR ''*'' then
           (case va_word args of
              Inl e \<Rightarrow> Inl e
            | Inr (w, r) \<Rightarrow> Inr (if as_int w < 0 then - 1 else as_int w, tl (tl fmt), r))
         else (case parse_dec (tl fmt) 0 of (n, fmt1) \<Rightarrow> Inr (n, fmt1, args)))
      else Inr (- 1, fmt, args))"

definition parse_len :: "string \<Rightarrow> nat \<times> string" where
  "parse_len fmt =
     (case fmt of
        [] \<Rightarrow> (0, fmt)
      | c # cs \<Rightarrow>
          if c = CHR ''l'' then (if cs \<noteq> [] \<and> hd cs = CHR ''l'' then (2, tl cs) else (1, cs))
          else if c = CHR ''z'' then (2, cs)
          else (0, fmt))"

section \<open>The conversions\<close>

text \<open>The length of a string argument; the byte is read before the precision is compared.\<close>

fun str_scan :: "string \<Rightarrow> int \<Rightarrow> nat \<Rightarrow> nat option" where
  "str_scan [] precision len = None"
| "str_scan (c # cs) precision len =
     (if c = NUL then Some len
      else if precision \<ge> 0 \<and> int len \<ge> precision then Some len
      else str_scan cs precision (Suc len))"

definition conv_s :: "nat \<Rightarrow> u32 \<Rightarrow> int \<Rightarrow> int \<Rightarrow> varg list \<Rightarrow> sink \<Rightarrow> pf_fault + (varg list \<times> sink)" where
  "conv_s sz flags width precision args k =
     (case va_str args of
        Inl e \<Rightarrow> Inl e
      | Inr (so, r) \<Rightarrow>
          let s = (case so of None \<Rightarrow> ''(null)'' @ [NUL] | Some b \<Rightarrow> b) in
          (case str_scan s precision 0 of
             None \<Rightarrow> Inl StrOverrun
           | Some len \<Rightarrow>
               let lead = \<not> has_flag flags FLAG_LEFT;
                   k1 = (if lead then emit_pad sz CHR '' '' (nat (width - int len)) k else k);
                   w1 = (if lead then min width (int len) else width);
                   k2 = emit_all sz (take len s) k1
               in Inr (r, emit_pad sz CHR '' '' (nat (w1 - int len)) k2)))"

text \<open>\<open>print_num\<close> into the rest of the buffer.\<close>

definition num_at :: "nat \<Rightarrow> u64 \<Rightarrow> bool \<Rightarrow> int \<Rightarrow> int \<Rightarrow> u32 \<Rightarrow> sink \<Rightarrow> nat \<times> sink" where
  "num_at sz num hex width precision flags k =
     (case print_num (drop (sk_written k) (sk_buf k)) (sz - sk_written k) num hex width precision flags of
        (n, b) \<Rightarrow> (n, k\<lparr>sk_buf := take (sk_written k) (sk_buf k) @ b\<rparr>))"

definition advance :: "nat \<Rightarrow> nat \<Rightarrow> sink \<Rightarrow> sink" where
  "advance sz n k = k\<lparr>sk_written := sk_written k + min n (sz - 1 - sk_written k)\<rparr>"

definition conv_d :: "nat \<Rightarrow> u32 \<Rightarrow> int \<Rightarrow> int \<Rightarrow> nat \<Rightarrow> varg list \<Rightarrow> sink \<Rightarrow> pf_fault + (varg list \<times> sink)" where
  "conv_d sz flags width precision is_long args k =
     (case va_word args of
        Inl e \<Rightarrow> Inl e
      | Inr (w, r) \<Rightarrow>
          let num0 = (if is_long = 0 then word_of_int (as_int w) else w);
              neg = sint num0 < 0;
              flags1 = (if neg then flags OR FLAG_SIGN else flags);
              num = (if neg then - num0 else num0)
          in case num_at sz num False width precision flags1 k of
               (n, k1) \<Rightarrow>
                 let k2 = k1\<lparr>sk_needed := sk_needed k1 + n\<rparr> in
                 if sz > 0 \<and> room sz (sk_written k2)
                 then (case num_at sz num False width precision flags1 k2 of (n2, k3) \<Rightarrow> Inr (r, advance sz n2 k3))
                 else Inr (r, k2))"

definition conv_u :: "nat \<Rightarrow> char \<Rightarrow> u32 \<Rightarrow> int \<Rightarrow> int \<Rightarrow> nat \<Rightarrow> varg list \<Rightarrow> sink \<Rightarrow> pf_fault + (varg list \<times> sink)" where
  "conv_u sz c flags width precision is_long args k =
     (case va_word args of
        Inl e \<Rightarrow> Inl e
      | Inr (w, r) \<Rightarrow>
          let num = (if is_long = 0 then ucast (ucast w :: 32 word) else w);
              flags1 = (if c = CHR ''X'' then flags OR FLAG_UPPERCASE else flags)
          in case num_at sz num (c \<noteq> CHR ''u'') width precision flags1 k of
               (n, k1) \<Rightarrow>
                 let k2 = k1\<lparr>sk_needed := sk_needed k1 + n\<rparr> in
                 Inr (r, if sz > 0 \<and> room sz (sk_written k2) then advance sz n k2 else k2))"

definition conv_p :: "nat \<Rightarrow> u32 \<Rightarrow> int \<Rightarrow> varg list \<Rightarrow> sink \<Rightarrow> pf_fault + (varg list \<times> sink)" where
  "conv_p sz flags width args k =
     (case va_word args of
        Inl e \<Rightarrow> Inl e
      | Inr (w, r) \<Rightarrow>
          (case print_num (replicate 30 NUL) 30 w True 16 (- 1) FLAG_ZEROPAD of
             (n, b) \<Rightarrow>
               let pl = 2 + n; pb = take pl (''0x'' @ b); pad = nat (width - int pl) in
               Inr (r, if \<not> has_flag flags FLAG_LEFT
                       then emit_all sz pb (emit_pad sz CHR '' '' pad k)
                       else emit_pad sz CHR '' '' pad (emit_all sz pb k))))"

text \<open>A character argument is fetched only when there is room for it.\<close>

definition conv_c :: "nat \<Rightarrow> varg list \<Rightarrow> sink \<Rightarrow> pf_fault + (varg list \<times> sink)" where
  "conv_c sz args k =
     (if sz > 0 \<and> room sz (sk_written k)
      then (case va_word args of Inl e \<Rightarrow> Inl e | Inr (w, r) \<Rightarrow> Inr (r, emit sz (char_of (unat w)) k))
      else Inr (args, emit sz NUL k))"

definition convert :: "nat \<Rightarrow> char \<Rightarrow> u32 \<Rightarrow> int \<Rightarrow> int \<Rightarrow> nat \<Rightarrow> varg list \<Rightarrow> sink \<Rightarrow> pf_fault + (varg list \<times> sink)" where
  "convert sz c flags width precision is_long args k =
     (if c = CHR ''c'' then conv_c sz args k
      else if c = CHR ''s'' then conv_s sz flags width precision args k
      else if c = CHR ''d'' \<or> c = CHR ''i'' then conv_d sz flags width precision is_long args k
      else if c = CHR ''u'' \<or> c = CHR ''x'' \<or> c = CHR ''X'' then conv_u sz c flags width precision is_long args k
      else if c = CHR ''p'' then conv_p sz flags width args k
      else if c = CHR ''%'' then Inr (args, emit sz CHR ''%'' k)
      else Inr (args, emit sz c (emit sz CHR ''%'' k)))"

section \<open>\<open>vsnprintf\<close>\<close>

datatype spec = Spec u32 int int nat string "varg list"

text \<open>Everything between the percent sign and the conversion character.\<close>

definition parse_spec :: "string \<Rightarrow> varg list \<Rightarrow> pf_fault + spec" where
  "parse_spec fmt args =
     (case parse_flags fmt 0 of
        (flags, fmt1) \<Rightarrow>
          (case parse_width fmt1 args flags of
             Inl e \<Rightarrow> Inl e
           | Inr (width, flags1, fmt2, args1) \<Rightarrow>
               (case parse_prec fmt2 args1 of
                  Inl e \<Rightarrow> Inl e
                | Inr (precision, fmt3, args2) \<Rightarrow>
                    (case parse_len fmt3 of (is_long, fmt4) \<Rightarrow> Inr (Spec flags1 width precision is_long fmt4 args2)))))"

lemma parse_flags_length: "parse_flags cs f = (f', cs') \<Longrightarrow> length cs' \<le> length cs"
  by (induction cs f rule: parse_flags.induct) (auto split: if_splits)

lemma parse_dec_length: "parse_dec cs n = (n', cs') \<Longrightarrow> length cs' \<le> length cs"
  by (induction cs n rule: parse_dec.induct) (auto split: if_splits)

lemma parse_width_length: "parse_width cs args f = Inr (w, f', cs', args') \<Longrightarrow> length cs' \<le> length cs"
  by (auto simp: parse_width_def split: if_splits sum.splits prod.splits dest: parse_dec_length)

lemma parse_prec_length: "parse_prec cs args = Inr (p, cs', args') \<Longrightarrow> length cs' \<le> length cs"
  by (auto simp: parse_prec_def split: if_splits sum.splits prod.splits dest!: parse_dec_length)

lemma parse_len_length: "parse_len cs = (l, cs') \<Longrightarrow> length cs' \<le> length cs"
  by (auto simp: parse_len_def split: list.splits if_splits)

lemma parse_spec_length:
  assumes "parse_spec cs args = Inr (Spec f w p l cs' args')"
  shows "length cs' \<le> length cs"
proof -
  obtain f1 c1 where 1: "parse_flags cs 0 = (f1, c1)" by fastforce
  obtain c2 a2 where 2: "parse_width c1 args f1 = Inr (w, f, c2, a2)" 
    and 3: "\<exists>c3 a3. parse_prec c2 a2 = Inr (p, c3, a3) \<and> parse_len c3 = (l, cs')"
    using assms 1 by (auto simp: parse_spec_def split: sum.splits prod.splits)
  from 3 obtain c3 a3 where 3: "parse_prec c2 a2 = Inr (p, c3, a3)" "parse_len c3 = (l, cs')" by blast
  show ?thesis
    using parse_flags_length [OF 1] parse_width_length [OF 2] parse_prec_length [OF 3(1)] parse_len_length [OF 3(2)] by simp
qed

text \<open>When the format ends after a percent sign, the terminator is printed and the loop reads past it.\<close>

function vs_loop :: "nat \<Rightarrow> string \<Rightarrow> varg list \<Rightarrow> sink \<Rightarrow> pf_fault + sink" where
  "vs_loop sz [] args k = Inr k"
| "vs_loop sz (c # cs) args k =
     (if c \<noteq> CHR ''%'' then vs_loop sz cs args (emit sz c k)
      else
        (case parse_spec cs args of
           Inl e \<Rightarrow> Inl e
         | Inr (Spec flags width precision is_long fmt1 args1) \<Rightarrow>
             (case fmt1 of
                [] \<Rightarrow> Inl FmtOverrun
              | d # rest \<Rightarrow>
                  (case convert sz d flags width precision is_long args1 k of
                     Inl e \<Rightarrow> Inl e
                   | Inr (args2, k1) \<Rightarrow> vs_loop sz rest args2 k1))))"
  by pat_completeness auto
termination
  by (relation "measure (\<lambda>(s, f, a, k). length f)") (auto dest!: parse_spec_length)

declare vs_loop.simps(2) [simp del]

text \<open>A null buffer is allowed only to measure, with size 0; the result is the \<open>int\<close> \<open>needed\<close>.\<close>

definition vsnprintf :: "string option \<Rightarrow> nat \<Rightarrow> string \<Rightarrow> varg list \<Rightarrow> pf_fault + (int \<times> string)" where
  "vsnprintf buf sz fmt args =
     (case buf of
        Some b \<Rightarrow>
          if sz = 0 then Inr (0, b)
          else
            (case vs_loop sz fmt args \<lparr>sk_buf = b, sk_written = 0, sk_needed = 0\<rparr> of
               Inl e \<Rightarrow> Inl e
             | Inr k \<Rightarrow> Inr (wrap_int (int (sk_needed k)), (sk_buf k)[sk_written k := NUL]))
      | None \<Rightarrow>
          if sz > 0 then Inl NullBuffer
          else (case vs_loop 0 fmt args \<lparr>sk_buf = [], sk_written = 0, sk_needed = 0\<rparr> of
                  Inl e \<Rightarrow> Inl e
                | Inr k \<Rightarrow> Inr (wrap_int (int (sk_needed k)), [])))"

end
