(* ===== verification/Vsnprintf_Props.thy ===== *)
theory Vsnprintf_Props
  imports Vsnprintf Vfs
begin

text \<open>
  What \<open>vsnprintf\<close> computes.  \<open>sink_of\<close> is the state of the writer after an output text; each piece of the
  code appends its own text to it (\<open>num_field\<close>, \<open>field\<close>), and \<open>vs_text\<close> is the text of a whole format.
\<close>

unbundle bit_operations_syntax

section \<open>The buffer holds a prefix of the output\<close>

definition sink_of :: "nat \<Rightarrow> string \<Rightarrow> string \<Rightarrow> sink" where
  "sink_of sz b out =
     (let w = min (length out) (sz - 1)
      in \<lparr>sk_buf = take w out @ drop w b, sk_written = w, sk_needed = length out\<rparr>)"

lemma sink_of_simps [simp]:
  "sk_written (sink_of sz b out) = min (length out) (sz - 1)" "sk_needed (sink_of sz b out) = length out"
  "sk_buf (sink_of sz b out) = take (min (length out) (sz - 1)) out @ drop (min (length out) (sz - 1)) b"
  by (simp_all add: sink_of_def Let_def)

lemma sink_of_Nil: "\<lparr>sk_buf = b, sk_written = 0, sk_needed = 0\<rparr> = sink_of sz b []"
  by (simp add: sink_of_def)

text \<open>Buffers the code is called with: not larger than the memory behind it, nor than an \<open>int\<close> can say.\<close>

definition buf_ok :: "nat \<Rightarrow> string \<Rightarrow> bool" where
  "buf_ok sz b \<longleftrightarrow> sz \<le> length b \<and> sz < 2 ^ 31"

lemma wrap_int_id: "- (2 ^ 31) \<le> x \<Longrightarrow> x < 2 ^ 31 \<Longrightarrow> wrap_int x = x"
  by (simp add: wrap_int_def sint_sbintrunc' signed_take_bit_int_eq_self)

lemma room_iff: "sz < 2 ^ 31 \<Longrightarrow> room sz w \<longleftrightarrow> w + 1 < sz"
  by (simp add: room_def wrap_int_id) linarith

lemma emit_sink:
  assumes "buf_ok sz b"
  shows "emit sz c (sink_of sz b out) = sink_of sz b (out @ [c])"
proof (cases "length out + 1 < sz")
  case True
  then have "(out @ drop (length out) b)[length out := c] = out @ c # drop (Suc (length out)) b"
    using assms by (auto simp: buf_ok_def list_update_append Cons_nth_drop_Suc [symmetric])
  then show ?thesis using True assms by (simp add: emit_def Let_def room_iff buf_ok_def sink_of_def min_def)
next
  case False
  then have "min (length out) (sz - 1) = sz - 1" "min (length (out @ [c])) (sz - 1) = sz - 1" "sz - 1 \<le> length out" by auto
  moreover have "\<not> (0 < sz \<and> sz - 1 + 1 < sz)" by linarith
  ultimately show ?thesis using assms by (simp add: emit_def Let_def room_iff buf_ok_def sink_of_def)
qed

lemma emit_all_sink: "buf_ok sz b \<Longrightarrow> emit_all sz cs (sink_of sz b out) = sink_of sz b (out @ cs)"
  by (induction cs arbitrary: out) (simp_all add: emit_sink)

lemma emit_pad_sink: "buf_ok sz b \<Longrightarrow> emit_pad sz c n (sink_of sz b out) = sink_of sz b (out @ replicate n c)"
  by (induction n arbitrary: out) (simp_all add: emit_sink)

lemmas sink_simps = emit_sink emit_all_sink emit_pad_sink


section \<open>Number fields\<close>

lemma has_flag_or: "has_flag f (a OR b) \<longleftrightarrow> has_flag f a \<or> has_flag f b"
proof -
  have "f AND (a OR b) = (f AND a) OR (f AND b)" by (simp add: bit.conj_disj_distrib)
  moreover have "x OR y = 0 \<longleftrightarrow> x = 0 \<and> y = 0" for x y :: u32 by (auto simp: or_eq_0_iff)
  ultimately show ?thesis by (simp add: has_flag_def)
qed

definition sign_text :: "u32 \<Rightarrow> string" where
  "sign_text flags =
     (if has_flag flags FLAG_SIGN then ''-'' else if has_flag flags FLAG_PLUS then ''+''
      else if has_flag flags FLAG_SPACE then '' '' else [])"

definition num_field :: "u64 \<Rightarrow> bool \<Rightarrow> int \<Rightarrow> int \<Rightarrow> u32 \<Rightarrow> string" where
  "num_field num hex width precision flags =
     (let core = rev (num_tmp num hex precision flags); sgn = sign_text flags;
          fill = nat (width - int (length sgn + length core))
      in if has_flag flags FLAG_ZEROPAD then sgn @ replicate fill CHR ''0'' @ core
         else if has_flag flags FLAG_LEFT then sgn @ core @ replicate fill CHR '' ''
         else replicate fill CHR '' '' @ sgn @ core)"

lemma emit_sign_sink: "buf_ok sz b \<Longrightarrow> emit_sign sz flags (sink_of sz b out) = sink_of sz b (out @ sign_text flags)"
  by (simp add: emit_sign_def sign_text_def emit_sink)

lemma print_num_field:
  assumes "buf_ok sz b"
  shows "print_num b sz num hex width precision flags =
    (length (num_field num hex width precision flags), sk_buf (sink_of sz b (num_field num hex width precision flags)))"
proof -
  have sgn: "length (sign_text flags) = (if has_flag flags (FLAG_SIGN OR FLAG_PLUS OR FLAG_SPACE) then 1 else 0)"
    by (simp add: sign_text_def has_flag_or)
  have n0: "nat (min x 0) = 0" for x by simp
  have cut: "nat (width - int (length (num_tmp num hex precision flags)) - 1) =
      nat (width - (1 + int (length (num_tmp num hex precision flags))))" by simp
  have eq: "print_num b sz num hex width precision flags =
      (sk_needed (sink_of sz b (num_field num hex width precision flags)),
       sk_buf (sink_of sz b (num_field num hex width precision flags)))"
    unfolding print_num_def Let_def sink_of_Nil [of b sz] num_field_def
    using assms sgn
    by (auto simp: emit_sign_sink emit_all_sink emit_pad_sink n0 cut has_flag_or simp del: sink_of_simps)
  then show ?thesis by simp
qed

lemma sink_rewrite: "buf_ok sz b \<Longrightarrow> sk_buf (sink_of sz (sk_buf (sink_of sz b out)) out) = sk_buf (sink_of sz b out)"
  by (auto simp: buf_ok_def min_def)

lemma num_at_sink:
  fixes out :: string
  assumes ok: "buf_ok sz b" and fld: "fld = num_field num hex width precision flags"
  defines "w \<equiv> min (length out) (sz - 1)"
  assumes that: "length b' = length b - w"
  shows "num_at sz num hex width precision flags ((sink_of sz b out)\<lparr>sk_buf := take w out @ b', sk_needed := n\<rparr>) =
    (length fld, (sink_of sz b out)\<lparr>sk_buf := take w out @ sk_buf (sink_of (sz - w) b' fld), sk_needed := n\<rparr>)"
proof -
  have "buf_ok (sz - w) b'" using ok that by (auto simp: buf_ok_def)
  then have p: "print_num b' (sz - w) num hex width precision flags = (length fld, sk_buf (sink_of (sz - w) b' fld))"
    using print_num_field fld by simp
  have w: "sk_written (sink_of sz b out) = w" by (simp add: w_def)
  have "length (take w out) = w" by (simp add: w_def)
  then have "drop w (take w out @ b') = b'" "take w (take w out @ b') = take w out" by simp_all
  then show ?thesis unfolding num_at_def by (simp add: w p del: sink_of_simps)
qed

text \<open>A number field is appended like any other text.\<close>

lemma num_advance:
  fixes out fld b :: string
  assumes ok: "buf_ok sz b"
  defines "w \<equiv> min (length out) (sz - 1)"
  defines "k \<equiv> (sink_of sz b out)\<lparr>sk_buf := take w out @ sk_buf (sink_of (sz - w) (drop w b) fld), sk_needed := length out + length fld\<rparr>"
  shows "(if sz > 0 \<and> room sz (sk_written k) then advance sz (length fld) k else k) = sink_of sz b (out @ fld)"
proof (cases "length out + 1 < sz")
  case True
  then have w: "w = length out" by (simp add: w_def)
  have sz: "sz < 2 ^ 31" "sz \<le> length b" using ok by (auto simp: buf_ok_def)
  define m where "m = min (length fld) (sz - 1 - w)"
  have m: "min (length (out @ fld)) (sz - 1) = w + m" "min (length fld) (sz - w - 1) = m" using True w by (auto simp: m_def)
  have "take (w + m) (out @ fld) = out @ take m fld" using w by simp
  moreover have "drop m (drop w b) = drop (w + m) b" by (simp add: add.commute)
  moreover have "sk_written k = w" by (simp add: k_def w_def)
  ultimately show ?thesis using True sz m w
    by (simp add: room_iff advance_def k_def sink_of_def Let_def m_def)
next
  case False
  then have w: "w = sz - 1" "sz - 1 \<le> length out" by (auto simp: w_def)
  moreover have "\<not> (sz > 0 \<and> room sz (sk_written k))" using False ok w by (auto simp: k_def w_def buf_ok_def room_iff)
  ultimately show ?thesis by (auto simp: k_def sink_of_def Let_def min_def)
qed

lemma num_at_first:
  assumes "buf_ok sz b" "fld = num_field num hex width precision flags"
  shows "num_at sz num hex width precision flags (sink_of sz b out) =
    (length fld, (sink_of sz b out)\<lparr>sk_buf := take (min (length out) (sz - 1)) out
       @ sk_buf (sink_of (sz - min (length out) (sz - 1)) (drop (min (length out) (sz - 1)) b) fld)\<rparr>)"
proof -
  let ?w = "min (length out) (sz - 1)"
  have "sink_of sz b out = (sink_of sz b out)\<lparr>sk_buf := take ?w out @ drop ?w b, sk_needed := length out\<rparr>"
    by (simp add: sink_of_def Let_def)
  moreover have "length (drop ?w b) = length b - ?w" by simp
  ultimately show ?thesis using num_at_sink [OF assms, of "drop ?w b" out "length out"] by (simp add: sink_of_def Let_def)
qed

lemma num_step:
  assumes ok: "buf_ok sz b" and fld: "fld = num_field num hex width precision flags"
  obtains k1 where "num_at sz num hex width precision flags (sink_of sz b out) = (length fld, k1)"
    "sk_written k1 = min (length out) (sz - 1)" "sk_needed k1 = length out"
    "(if sz > 0 \<and> room sz (sk_written k1) then advance sz (length fld) (k1\<lparr>sk_needed := length out + length fld\<rparr>)
      else k1\<lparr>sk_needed := length out + length fld\<rparr>) = sink_of sz b (out @ fld)"
    "num_at sz num hex width precision flags (k1\<lparr>sk_needed := length out + length fld\<rparr>) = (length fld, k1\<lparr>sk_needed := length out + length fld\<rparr>)"
proof -
  let ?w = "min (length out) (sz - 1)"
  let ?b = "sk_buf (sink_of (sz - ?w) (drop ?w b) fld)"
  define k1 where "k1 = (sink_of sz b out)\<lparr>sk_buf := take ?w out @ ?b\<rparr>"
  have k: "k1\<lparr>sk_needed := length out + length fld\<rparr> = (sink_of sz b out)\<lparr>sk_buf := take ?w out @ ?b, sk_needed := length out + length fld\<rparr>"
    by (simp add: k1_def)
  have w: "sk_written k1 = ?w" "sk_written (k1\<lparr>sk_needed := length out + length fld\<rparr>) = ?w" by (simp_all add: k1_def)
  have "buf_ok (sz - ?w) (drop ?w b)" using ok by (auto simp: buf_ok_def)
  then have again: "sk_buf (sink_of (sz - ?w) ?b fld) = ?b" by (rule sink_rewrite)
  have "length ?b = length b - ?w" using ok by (auto simp: buf_ok_def)
  from num_at_sink [OF ok fld this, of "length out + length fld"]
  have 4: "num_at sz num hex width precision flags (k1\<lparr>sk_needed := length out + length fld\<rparr>) = (length fld, k1\<lparr>sk_needed := length out + length fld\<rparr>)"
    unfolding k again .
  have 3: "(if sz > 0 \<and> room sz (sk_written k1) then advance sz (length fld) (k1\<lparr>sk_needed := length out + length fld\<rparr>)
      else k1\<lparr>sk_needed := length out + length fld\<rparr>) = sink_of sz b (out @ fld)"
    using num_advance [OF ok, of out fld] unfolding k [symmetric] w .
  show thesis
  proof (rule that [OF _ w(1) _ 3 4])
    show "num_at sz num hex width precision flags (sink_of sz b out) = (length fld, k1)"
      using num_at_first [OF ok fld, of out] by (simp add: k1_def)
  qed (simp add: k1_def)
qed

lemma conv_u_sink:
  assumes ok: "buf_ok sz b" and w: "va_word args = Inr (w, r)"
  shows "conv_u sz c flags width precision is_long args (sink_of sz b out) =
    Inr (r, sink_of sz b (out @ num_field (if is_long = 0 then ucast (ucast w :: 32 word) else w) (c \<noteq> CHR ''u'') width precision
      (if c = CHR ''X'' then flags OR FLAG_UPPERCASE else flags)))"
proof -
  define num where "num = (if is_long = 0 then ucast (ucast w :: 32 word) else w)"
  define fl where "fl = (if c = CHR ''X'' then flags OR FLAG_UPPERCASE else flags)"
  define hex where "hex = (c \<noteq> CHR ''u'')"
  define fld where "fld = num_field num hex width precision fl"
  obtain k1 where k1: "num_at sz num hex width precision fl (sink_of sz b out) = (length fld, k1)"
    "sk_needed k1 = length out"
    "(if sz > 0 \<and> room sz (sk_written k1) then advance sz (length fld) (k1\<lparr>sk_needed := length out + length fld\<rparr>)
      else k1\<lparr>sk_needed := length out + length fld\<rparr>) = sink_of sz b (out @ fld)"
    by (rule num_step [OF ok fld_def, where out = out])
  have "conv_u sz c flags width precision is_long args (sink_of sz b out) = Inr (r, sink_of sz b (out @ fld))"
    unfolding conv_u_def w Let_def sum.case prod.case num_def [symmetric] fl_def [symmetric] hex_def [symmetric] k1(1)
    using k1(2,3) by (auto split: if_splits)
  then show ?thesis unfolding fld_def num_def fl_def hex_def .
qed

lemma conv_d_sink:
  assumes ok: "buf_ok sz b" and w: "va_word args = Inr (w, r)" and num0: "num0 = (if is_long = 0 then word_of_int (as_int w) else w)"
  shows "conv_d sz flags width precision is_long args (sink_of sz b out) =
    Inr (r, sink_of sz b (out @ num_field (if sint num0 < 0 then - num0 else num0) False width precision
      (if sint num0 < 0 then flags OR FLAG_SIGN else flags)))"
proof -
  define num where "num = (if sint num0 < 0 then - num0 else num0)"
  define fl where "fl = (if sint num0 < 0 then flags OR FLAG_SIGN else flags)"
  define fld where "fld = num_field num False width precision fl"
  obtain k1 where k1: "num_at sz num False width precision fl (sink_of sz b out) = (length fld, k1)"
    "sk_needed k1 = length out"
    "(if sz > 0 \<and> room sz (sk_written k1) then advance sz (length fld) (k1\<lparr>sk_needed := length out + length fld\<rparr>)
      else k1\<lparr>sk_needed := length out + length fld\<rparr>) = sink_of sz b (out @ fld)"
    "num_at sz num False width precision fl (k1\<lparr>sk_needed := length out + length fld\<rparr>) = (length fld, k1\<lparr>sk_needed := length out + length fld\<rparr>)"
    by (rule num_step [OF ok fld_def, where out = out])
  have "conv_d sz flags width precision is_long args (sink_of sz b out) = Inr (r, sink_of sz b (out @ fld))"
    unfolding conv_d_def w Let_def sum.case prod.case num0 [symmetric] num_def [symmetric] fl_def [symmetric] k1(1)
    using k1(2-4) by (auto split: if_splits)
  then show ?thesis unfolding fld_def num_def fl_def .
qed

lemma digits_hex_length: "unat n < 16 ^ k \<Longrightarrow> length (digits_rev upper True n) \<le> k"
proof (induction k arbitrary: n)
  case 0
  then show ?case by (subst digits_rev.simps) (simp add: Let_def unat_eq_zero)
next
  case (Suc k)
  have "unat (n div 16) < 16 ^ k" using Suc.prems by (simp add: unat_div less_mult_imp_div_less mult.commute)
  from Suc.IH [OF this] show ?case by (subst digits_rev.simps) (simp add: Let_def)
qed

lemma pointer_field:
  "length (num_field w True 16 (- 1) FLAG_ZEROPAD) = 16"
proof -
  have "unat w < 16 ^ 16" using unat_less_64 [of w] by simp
  then have "length (digits_rev up True w) \<le> 16" for up by (rule digits_hex_length)
  then have "length (num_tmp w True (- 1) FLAG_ZEROPAD) \<le> 16" by (simp add: num_tmp_def Let_def)
  moreover have "sign_text FLAG_ZEROPAD = []" "has_flag FLAG_ZEROPAD FLAG_ZEROPAD"
    by (simp_all add: sign_text_def has_flag_def FLAG_ZEROPAD_def FLAG_SIGN_def FLAG_PLUS_def FLAG_SPACE_def)
  ultimately show ?thesis by (simp add: num_field_def Let_def)
qed

definition field :: "u32 \<Rightarrow> int \<Rightarrow> string \<Rightarrow> string" where
  "field flags width s =
     (let fill = replicate (nat (width - int (length s))) CHR '' ''
      in if has_flag flags FLAG_LEFT then s @ fill else fill @ s)"

lemma conv_p_sink:
  assumes ok: "buf_ok sz b" and w: "va_word args = Inr (w, r)"
  shows "conv_p sz flags width args (sink_of sz b out) =
    Inr (r, sink_of sz b (out @ field flags width (''0x'' @ num_field w True 16 (- 1) FLAG_ZEROPAD)))"
proof -
  let ?fld = "num_field w True 16 (- 1) FLAG_ZEROPAD"
  have "buf_ok 30 (replicate 30 NUL)" by (simp add: buf_ok_def)
  then have "print_num (replicate 30 NUL) 30 w True 16 (- 1) FLAG_ZEROPAD = (16, sk_buf (sink_of 30 (replicate 30 NUL) ?fld))"
    using print_num_field pointer_field by metis
  moreover have "take 18 (''0x'' @ sk_buf (sink_of 30 (replicate 30 NUL) ?fld)) = ''0x'' @ ?fld" using pointer_field [of w] by simp
  ultimately show ?thesis using ok pointer_field [of w]
    by (simp add: conv_p_def w Let_def sink_simps field_def del: append_Cons)
qed

lemma str_scan_len: "str_scan s p n = Some len \<Longrightarrow> len - n \<le> length s \<and> n \<le> len"
  by (induction s p n rule: str_scan.induct) (fastforce split: if_splits)+

lemma conv_s_sink:
  assumes ok: "buf_ok sz b" and w: "va_str args = Inr (so, r)"
    and s: "s = (case so of None \<Rightarrow> ''(null)'' @ [NUL] | Some t \<Rightarrow> t)" "str_scan s precision 0 = Some len"
  shows "conv_s sz flags width precision args (sink_of sz b out) = Inr (r, sink_of sz b (out @ field flags width (take len s)))"
proof -
  have l: "length (take len s) = len" using str_scan_len [OF s(2)] by simp
  have z: "nat (min width (int len) - int len) = 0" by simp
  show ?thesis
    unfolding conv_s_def w sum.case prod.case Let_def s(1) [symmetric] s(2) option.case using ok l z
    by (simp add: sink_simps field_def)
qed


section \<open>The text a format stands for\<close>

text \<open>
  The output without a buffer.  \<open>fits\<close> says that the buffer still has room: a character conversion has a
  meaning only then.
\<close>

definition conv_text :: "bool \<Rightarrow> char \<Rightarrow> u32 \<Rightarrow> int \<Rightarrow> int \<Rightarrow> nat \<Rightarrow> varg list \<Rightarrow> (varg list \<times> string) option" where
  "conv_text fits c flags width precision is_long args =
     (if c = CHR ''c'' then
        (case va_word args of Inr (w, r) \<Rightarrow> if fits then Some (r, [char_of (unat w)]) else None | _ \<Rightarrow> None)
      else if c = CHR ''s'' then
        (case va_str args of
           Inr (so, r) \<Rightarrow>
             let s = (case so of None \<Rightarrow> ''(null)'' @ [NUL] | Some t \<Rightarrow> t)
             in map_option (\<lambda>len. (r, field flags width (take len s))) (str_scan s precision 0)
         | _ \<Rightarrow> None)
      else if c = CHR ''d'' \<or> c = CHR ''i'' then
        (case va_word args of
           Inr (w, r) \<Rightarrow>
             let n = (if is_long = 0 then word_of_int (as_int w) else w)
             in Some (r, if sint n < 0 then num_field (- n) False width precision (flags OR FLAG_SIGN)
                         else num_field n False width precision flags)
         | _ \<Rightarrow> None)
      else if c = CHR ''u'' \<or> c = CHR ''x'' \<or> c = CHR ''X'' then
        (case va_word args of
           Inr (w, r) \<Rightarrow>
             Some (r, num_field (if is_long = 0 then ucast (ucast w :: 32 word) else w) (c \<noteq> CHR ''u'') width precision
                        (if c = CHR ''X'' then flags OR FLAG_UPPERCASE else flags))
         | _ \<Rightarrow> None)
      else if c = CHR ''p'' then
        (case va_word args of
           Inr (w, r) \<Rightarrow> Some (r, field flags width (''0x'' @ num_field w True 16 (- 1) FLAG_ZEROPAD))
         | _ \<Rightarrow> None)
      else if c = CHR ''%'' then Some (args, ''%'')
      else Some (args, [CHR ''%'', c]))"

function vs_text :: "nat \<Rightarrow> nat \<Rightarrow> string \<Rightarrow> varg list \<Rightarrow> string option" where
  "vs_text lim n [] args = Some []"
| "vs_text lim n (c # cs) args =
     (if c \<noteq> CHR ''%'' then map_option (\<lambda>t. c # t) (vs_text lim (n + 1) cs args)
      else
        (case parse_spec cs args of
           Inl e \<Rightarrow> None
         | Inr (Spec flags width precision is_long fmt1 args1) \<Rightarrow>
             (case fmt1 of
                [] \<Rightarrow> None
              | d # rest \<Rightarrow>
                  (case conv_text (n < lim) d flags width precision is_long args1 of
                     None \<Rightarrow> None
                   | Some (args2, t) \<Rightarrow> map_option (\<lambda>u. t @ u) (vs_text lim (n + length t) rest args2)))))"
  by pat_completeness auto
termination
  by (relation "measure (\<lambda>(l, n, f, a). length f)") (auto dest!: parse_spec_length)

declare vs_text.simps(2) [simp del]

lemma convert_text:
  assumes ok: "buf_ok sz b" and t: "conv_text (length out < sz - 1) c flags width precision is_long args = Some (args', tx)"
  shows "convert sz c flags width precision is_long args (sink_of sz b out) = Inr (args', sink_of sz b (out @ tx))"
proof -
  have r: "sz > 0 \<and> room sz (sk_written (sink_of sz b out)) \<longleftrightarrow> length out < sz - 1"
    using ok by (auto simp: buf_ok_def room_iff min_def)
  consider (c) "c = CHR ''c''" | (s) "c = CHR ''s''" | (d) "c = CHR ''d'' \<or> c = CHR ''i''"
    | (u) "c = CHR ''u'' \<or> c = CHR ''x'' \<or> c = CHR ''X''" | (p) "c = CHR ''p''"
    | (other) "c \<notin> set ''csdiuxXp''" by auto
  then show ?thesis
  proof cases
    case c
    then obtain w r where "va_word args = Inr (w, r)" "length out < sz - 1" "args' = r" "tx = [char_of (unat w)]"
      using t by (auto simp: conv_text_def split: sum.splits if_splits)
    then show ?thesis using c ok r by (simp add: convert_def conv_c_def emit_sink del: sink_of_simps)
  next
    case s
    then obtain so r str len where "va_str args = Inr (so, r)" and str: "str = (case so of None \<Rightarrow> ''(null)'' @ [NUL] | Some t \<Rightarrow> t)"
      and "str_scan str precision 0 = Some len" "args' = r" "tx = field flags width (take len str)"
      using t by (auto simp: conv_text_def Let_def split: sum.splits)
    then show ?thesis using s conv_s_sink [OF ok] by (simp add: convert_def)
  next
    case d
    then obtain w r where wr: "va_word args = Inr (w, r)" "args' = r" using t by (auto simp: conv_text_def Let_def split: sum.splits)
    define n where "n = (if is_long = 0 then word_of_int (as_int w) else w)"
    have "tx = (if sint n < 0 then num_field (- n) False width precision (flags OR FLAG_SIGN) else num_field n False width precision flags)"
      using t d wr by (auto simp: conv_text_def Let_def n_def)
    then have "tx = num_field (if sint n < 0 then - n else n) False width precision (if sint n < 0 then flags OR FLAG_SIGN else flags)"
      by simp
    then show ?thesis using d wr conv_d_sink [OF ok wr(1) n_def] by (auto simp: convert_def)
  next
    case u
    then obtain w r where wr: "va_word args = Inr (w, r)" "args' = r" using t by (auto simp: conv_text_def Let_def split: sum.splits)
    then have "tx = num_field (if is_long = 0 then ucast (ucast w :: 32 word) else w) (c \<noteq> CHR ''u'') width precision
        (if c = CHR ''X'' then flags OR FLAG_UPPERCASE else flags)"
      using t u by (elim disjE) (simp_all add: conv_text_def)
    moreover have "convert sz c flags width precision is_long args (sink_of sz b out) = conv_u sz c flags width precision is_long args (sink_of sz b out)"
      using u by (auto simp: convert_def)
    ultimately show ?thesis using conv_u_sink [OF ok wr(1)] wr(2) by simp
  next
    case p
    then obtain w r where wr: "va_word args = Inr (w, r)" "args' = r" "tx = field flags width (''0x'' @ num_field w True 16 (- 1) FLAG_ZEROPAD)"
      using t by (auto simp: conv_text_def split: sum.splits)
    then show ?thesis using p conv_p_sink [OF ok wr(1)] by (simp add: convert_def)
  next
    case other
    then show ?thesis using t ok by (auto simp: convert_def conv_text_def emit_sink split: if_splits)
  qed
qed

lemma vs_loop_text:
  assumes ok: "buf_ok sz b"
  shows "lim = sz - 1 \<Longrightarrow> n = length out \<Longrightarrow> vs_text lim n fmt args = Some tx \<Longrightarrow>
    vs_loop sz fmt args (sink_of sz b out) = Inr (sink_of sz b (out @ tx))"
proof (induction lim n fmt args arbitrary: out tx rule: vs_text.induct)
  case (1 lim n args)
  then show ?case by simp
next
  case (2 lim n c cs args)
  show ?case
  proof (cases "c = CHR ''%''")
    case False
    then obtain t where t: "vs_text lim (n + 1) cs args = Some t" "tx = c # t"
      using "2.prems"(3) by (auto simp: vs_text.simps(2))
    have "vs_loop sz cs args (sink_of sz b (out @ [c])) = Inr (sink_of sz b ((out @ [c]) @ t))"
      by (rule "2.IH"(1)) (use False t "2.prems" in simp_all)
    then show ?thesis using False ok t by (simp add: vs_loop.simps(2) emit_sink)
  next
    case True
    then obtain flags width precision is_long d rest args1 args2 t u where
      sp: "parse_spec cs args = Inr (Spec flags width precision is_long (d # rest) args1)"
      and ct: "conv_text (n < lim) d flags width precision is_long args1 = Some (args2, t)"
      and tl: "vs_text lim (n + length t) rest args2 = Some u" "tx = t @ u"
      using "2.prems"(3) by (auto simp: vs_text.simps(2) split: sum.splits spec.splits list.splits option.splits)
    have "vs_loop sz rest args2 (sink_of sz b (out @ t)) = Inr (sink_of sz b ((out @ t) @ u))"
      by (rule "2.IH"(2) [OF _ sp refl refl ct refl]) (use True tl "2.prems" in simp_all)
    then show ?thesis using True sp convert_text [OF ok ct [unfolded "2.prems"]] tl by (simp add: vs_loop.simps(2))
  qed
qed

lemma convert_sink:
  assumes ok: "buf_ok sz b" and c: "convert sz c flags width precision is_long args (sink_of sz b out) = Inr (args', k)"
  shows "\<exists>tx. k = sink_of sz b (out @ tx)"
proof (cases "c = CHR ''c'' \<and> \<not> length out < sz - 1")
  case True
  then have "\<not> (sz > 0 \<and> room sz (sk_written (sink_of sz b out)))" using ok by (auto simp: buf_ok_def room_iff min_def)
  then have "k = emit sz NUL (sink_of sz b out)" using c True
    by (auto simp add: convert_def conv_c_def simp del: sink_of_simps)
  then show ?thesis using ok by (auto simp: emit_sink)
next
  case False
  have "conv_text (length out < sz - 1) c flags width precision is_long args \<noteq> None"
    using False c ok by (auto simp: buf_ok_def room_iff convert_def conv_text_def conv_c_def conv_s_def conv_d_def conv_u_def conv_p_def Let_def
        split: sum.splits if_splits option.splits)
  then obtain args2 tx where "conv_text (length out < sz - 1) c flags width precision is_long args = Some (args2, tx)" by auto
  from convert_text [OF ok this] c show ?thesis by auto
qed

lemma vs_loop_sink:
  "buf_ok sz b \<Longrightarrow> vs_loop sz fmt args (sink_of sz b out) = Inr k \<Longrightarrow> \<exists>tx. k = sink_of sz b (out @ tx)"
proof (induction sz fmt args "sink_of sz b out" arbitrary: out rule: vs_loop.induct)
  case (1 sz args)
  then show ?case by (intro exI [of _ "[]"]) simp
next
  case (2 sz c cs args)
  show ?case
  proof (cases "c = CHR ''%''")
    case False
    from "2.prems" False have "vs_loop sz cs args (sink_of sz b (out @ [c])) = Inr k" by (simp add: vs_loop.simps(2) emit_sink)
    with "2.hyps"(1) [of "out @ [c]"] False "2.prems"(1) show ?thesis by (auto simp: emit_sink)
  next
    case True
    then obtain flags width precision is_long d rest args1 args2 k1 where
      sp: "parse_spec cs args = Inr (Spec flags width precision is_long (d # rest) args1)"
      and cv: "convert sz d flags width precision is_long args1 (sink_of sz b out) = Inr (args2, k1)"
      and tl: "vs_loop sz rest args2 k1 = Inr k"
      using "2.prems"(2) by (auto simp: vs_loop.simps(2) split: sum.splits spec.splits list.splits)
    obtain tx where k1: "k1 = sink_of sz b (out @ tx)" using convert_sink [OF "2.prems"(1) cv] by blast
    have "\<exists>t. k = sink_of sz b ((out @ tx) @ t)"
      by (rule "2.hyps"(2) [OF _ sp refl refl cv]) (use True tl k1 "2.prems"(1) in auto)
    then show ?thesis by auto
  qed
qed

section \<open>Decimal numbers\<close>

lemma digit_char_dec: "d < 10 \<Longrightarrow> digit_char u d = char_of (48 + d)"
proof -
  have "\<forall>u\<in>{True, False}. \<forall>d\<in>set [0..<10]. digit_char u d = char_of (48 + d)" by code_simp
  then show "d < 10 \<Longrightarrow> digit_char u d = char_of (48 + d)" by (cases u) auto
qed

lemma digits_dec: "num \<noteq> 0 \<Longrightarrow> rev (digits_rev upper False num) = dec_digits (unat num)"
proof (induction upper "False" num rule: digits_rev.induct)
  case (1 upper num)
  note dig = digit_char_dec
  have m: "unat (num mod 10) = unat num mod 10" "unat (num div 10) = unat num div 10" by (simp_all add: unat_mod unat_div)
  show ?case
  proof (cases "num div 10 = 0")
    case True
    then have "unat num div 10 = 0" using m(2) by simp
    then have lt: "unat num < 10" by (simp add: div_eq_0_iff)
    have "digits_rev upper False (num div 10) = []" by (simp add: True digits_rev.simps)
    then have "digits_rev upper False num = [digit_char upper (unat num)]"
      using 1(2) lt m(1) by (subst digits_rev.simps) (simp add: Let_def)
    then show ?thesis using lt dig by (subst dec_digits.simps) simp
  next
    case False
    then have "\<not> unat num < 10" using m(2) by (metis div_less unat_eq_zero)
    moreover have "rev (digits_rev upper False (num div 10)) = dec_digits (unat num div 10)" using 1 False m(2) by simp
    moreover have "digits_rev upper False num = digit_char upper (unat num mod 10) # digits_rev upper False (num div 10)"
      using 1(2) m(1) by (subst digits_rev.simps) (simp add: Let_def)
    ultimately show ?thesis using dig [of "unat num mod 10"] by (subst dec_digits.simps) simp
  qed
qed

lemma num_text_dec: "num_field num False 0 (- 1) 0 = dec_digits (unat num)" "num_field num False 0 (- 1) (0 OR FLAG_SIGN) = CHR ''-'' # dec_digits (unat num)"
proof -
  have "rev (num_tmp num False (- 1) f) = dec_digits (unat num)" for f
    using digit_char_dec [of 0 True] by (cases "num = 0") (simp_all add: num_tmp_def Let_def digits_dec digit_char_def)
  moreover have "sign_text 0 = []" "sign_text FLAG_SIGN = ''-''" "\<not> has_flag 0 FLAG_ZEROPAD" "\<not> has_flag 0 FLAG_LEFT"
    "\<not> has_flag FLAG_SIGN FLAG_ZEROPAD" "\<not> has_flag FLAG_SIGN FLAG_LEFT"
    by (simp_all add: sign_text_def has_flag_def FLAG_ZEROPAD_def FLAG_SIGN_def FLAG_PLUS_def FLAG_SPACE_def FLAG_LEFT_def)
  moreover have "0 OR FLAG_SIGN = FLAG_SIGN" by simp
  ultimately show "num_field num False 0 (- 1) 0 = dec_digits (unat num)" "num_field num False 0 (- 1) (0 OR FLAG_SIGN) = CHR ''-'' # dec_digits (unat num)"
    by (simp_all add: num_field_def Let_def)
qed

lemma parse_d: "parse_spec (CHR ''d'' # cs) args = Inr (Spec 0 0 (- 1) 0 (CHR ''d'' # cs) args)"
  by (simp add: parse_spec_def parse_width_def parse_prec_def parse_len_def is_dec_def)

lemma text_d: "vs_text lim n ''%d'' [VWord w] = Some (dec_string (as_int w))"
proof -
  have r: "- (2 ^ 31) \<le> as_int w" "as_int w < 2 ^ 31" unfolding as_int_def using sint_ge [of "ucast w :: 32 word"] sint_lt [of "ucast w :: 32 word"] by simp_all
  then have s: "sint (word_of_int (as_int w) :: u64) = as_int w" by (simp add: sint_sbintrunc' signed_take_bit_int_eq_self)
  have "uint (word_of_int x :: u64) = x" if "0 \<le> x" "x \<le> 2 ^ 31" for x using that by (simp add: uint_word_of_int)
  then have u: "unat (word_of_int x :: u64) = nat x" if "0 \<le> x" "x \<le> 2 ^ 31" for x using that by (simp add: unat_eq_nat_uint)
  have neg: "- word_of_int (as_int w) = (word_of_int (- as_int w) :: u64)" by simp
  define n where "n = (word_of_int (as_int w) :: u64)"
  have "vs_text lim n' ''%d'' [VWord w] = Some (if sint n < 0 then num_field (- n) False 0 (- 1) (0 OR FLAG_SIGN) else num_field n False 0 (- 1) 0)" for n'
    unfolding n_def by (simp add: vs_text.simps(2) parse_d conv_text_def va_word_def Let_def)
  moreover have "unat (- n) = nat (- as_int w)" if "as_int w < 0" unfolding n_def neg by (rule u) (use that r in simp_all)
  moreover have "unat n = nat (as_int w)" if "\<not> as_int w < 0" unfolding n_def by (rule u) (use that r in simp_all)
  ultimately show ?thesis unfolding num_text_dec by (simp add: n_def s dec_string_def del: dec_digits.simps)
qed

lemma atoi_dec: "int n \<le> INT_MAX \<Longrightarrow> atoi_digits (dec_digits n @ cs) sign 0 = atoi_digits cs sign (int n)"
proof (induction n arbitrary: cs rule: dec_digits.induct)
  case (1 n)
  have dig: "of_char (char_of (48 + d)) = 48 + d" if "d < 10" for d :: nat using that by simp
  show ?case
  proof (cases "n < 10")
    case True
    then have "\<not> 0 > (INT_MAX - int n) div 10" by (simp add: INT_MAX_def)
    then show ?thesis using True dig [OF True] by (subst dec_digits.simps) (simp add: Let_def)
  next
    case False
    have "int (n div 10) \<le> INT_MAX" using "1.prems" by (simp add: INT_MAX_def)
    then have "atoi_digits (dec_digits n @ cs) sign 0 = atoi_digits (char_of (48 + n mod 10) # cs) sign (int (n div 10))"
      using "1.IH" [OF False] by (subst dec_digits.simps) (simp add: False del: dec_digits.simps atoi_digits.simps)
    moreover have eq: "int (n div 10) * 10 + int (n mod 10) = int n" by (metis div_mult_mod_eq of_nat_add of_nat_mult of_nat_numeral)
    moreover have "int (n div 10) * 10 \<le> INT_MAX - int (n mod 10)" using eq "1.prems" by linarith
    then have "\<not> int (n div 10) > (INT_MAX - int (n mod 10)) div 10"
      using zdiv_mono1 [of "int (n div 10) * 10" "INT_MAX - int (n mod 10)" 10] by simp
    moreover have "n mod 10 \<le> 9" using mod_less_divisor [of 10 n] by linarith
    ultimately show ?thesis using dig [of "n mod 10"] by (simp add: Let_def del: dec_digits.simps)
  qed
qed

lemma dec_digits_chars: "c \<in> set (dec_digits n) \<Longrightarrow> 48 \<le> (of_char c :: nat) \<and> (of_char c :: nat) \<le> 57"
proof (induction n rule: dec_digits.induct)
  case (1 n)
  have dig: "of_char (char_of (48 + d) :: char) = 48 + d" if "d < 10" for d :: nat using that by simp
  show ?case
  proof (cases "n < 10")
    case True
    then have "dec_digits n = [char_of (48 + n)]" by (subst dec_digits.simps) simp
    then have "c = char_of (48 + n)" using "1.prems" by (simp del: dec_digits.simps)
    then show ?thesis using dig [OF True] True by simp
  next
    case False
    then have "dec_digits n = dec_digits (n div 10) @ [char_of (48 + n mod 10)]" by (subst dec_digits.simps) simp
    then have "c \<in> set (dec_digits (n div 10)) \<or> c = char_of (48 + n mod 10)" using "1.prems" by (auto simp del: dec_digits.simps)
    then show ?thesis
    proof
      assume "c \<in> set (dec_digits (n div 10))"
      then show ?thesis by (rule "1.IH" [OF False])
    next
      assume "c = char_of (48 + n mod 10)"
      then show ?thesis using dig [of "n mod 10"] by simp
    qed
  qed
qed

lemma dec_digits_nonempty: "dec_digits n \<noteq> []"
  by (subst dec_digits.simps) simp

lemma dec_string_chars: "NUL \<notin> set (dec_string x)"
  using dec_digits_chars [of NUL] by (auto simp: dec_string_def simp del: dec_digits.simps)

lemma atoi_dec_string:
  assumes "- (2 ^ 31) \<le> x" "x < 2 ^ 31"
  shows "atoi_str (dec_string x) = x"
proof (cases "x < 0")
  case True
  have d: "dec_string x = CHR ''-'' # dec_digits (nat (- x))" using True by (simp add: dec_string_def del: dec_digits.simps)
  show ?thesis
  proof (cases "x = - (2 ^ 31)")
    case min: True
    have "atoi_digits (dec_digits 214748364 @ ''8'') (- 1) 0 = INT_MIN"
      by (subst atoi_dec) (simp_all add: INT_MAX_def INT_MIN_def Let_def)
    moreover have "dec_digits 2147483648 = dec_digits 214748364 @ ''8''" using digit_char_dec [of 8 True]
      by (subst dec_digits.simps) (simp add: digit_char_def del: dec_digits.simps)
    ultimately show ?thesis using min d by (simp add: atoi_str_def INT_MIN_def del: dec_digits.simps atoi_digits.simps)
  next
    case False
    then have "int (nat (- x)) \<le> INT_MAX" using assms by (simp add: INT_MAX_def)
    from atoi_dec [OF this, of "[]" "- 1"] show ?thesis using True d by (simp add: atoi_str_def del: dec_digits.simps)
  qed
next
  case False
  then have d: "dec_string x = dec_digits (nat x)" by (simp add: dec_string_def del: dec_digits.simps)
  obtain c cs where c: "dec_digits (nat x) = c # cs" using dec_digits_nonempty [of "nat x"] by (cases "dec_digits (nat x)") auto
  then have "48 \<le> (of_char c :: nat)" using dec_digits_chars [of c "nat x"] by simp
  then have ne: "c \<noteq> CHR '' ''" "c \<noteq> CHR ''-''" "c \<noteq> CHR ''+''" by auto
  have "int (nat x) \<le> INT_MAX" using assms False by (simp add: INT_MAX_def)
  from atoi_dec [OF this, of "[]" 1] have "atoi_digits (c # cs) 1 0 = x" using False c by (simp del: dec_digits.simps)
  then show ?thesis using d c ne by (simp add: atoi_str_def del: atoi_digits.simps dec_digits.simps)
qed


section \<open>Properties\<close>

lemma dec_123456: "dec_string (as_int 123456) = ''123456''"
proof -
  have "as_int 123456 = 123456" by (simp add: as_int_def)
  then show ?thesis by (simp add: dec_string_def char_of_def bit_iff_odd)
qed

lemma dec_minus_42: "as_int 0xFFFFFFD6 = - 42" "dec_string (- 42) = ''-42''"
  by (simp_all add: as_int_def dec_string_def char_of_def bit_iff_odd)

lemma vsnprintf_eval:
  assumes "sz \<le> length b" "sz < 2 ^ 31" "0 < sz" "vs_text (sz - 1) 0 fmt args = Some out" "length out < 2 ^ 31"
  shows "vsnprintf (Some b) sz fmt args
    = Inr (int (length out), take (sz - 1) out @ NUL # drop (min (length out) (sz - 1) + 1) b)"
proof -
  have ok: "buf_ok sz b" using assms by (simp add: buf_ok_def)
  have loop: "vs_loop sz fmt args (sink_of sz b []) = Inr (sink_of sz b out)"
    using vs_loop_text [OF ok refl, of 0 "[]" fmt args out] assms(4) by simp
  define w where "w = min (length out) (sz - 1)"
  have w: "w < length b" "take w out = take (sz - 1) out" "length (take (sz - 1) out) = w" using assms(1,3) by (auto simp: w_def min_def)
  have "(take w out @ drop w b)[w := NUL] = take (sz - 1) out @ NUL # drop (w + 1) b"
    using w by (simp add: list_update_append Cons_nth_drop_Suc [symmetric])
  moreover have "wrap_int (int (length out)) = int (length out)" using assms(5) by (simp add: wrap_int_id)
  moreover have "sk_buf (sink_of sz b out) = take w out @ drop w b" "sk_written (sink_of sz b out) = w"
    "sk_needed (sink_of sz b out) = length out" by (simp_all add: w_def)
  ultimately show ?thesis using assms(3) loop unfolding w_def [symmetric]
    by (simp add: vsnprintf_def sink_of_Nil [of b sz] del: sink_of_simps)
qed

text \<open>C33. The buffer gets a prefix of the text.  If a format and its arguments stand for a text, \<open>vsnprintf\<close>
  writes as much of it as fits before the terminator, leaves the rest of the buffer alone, and returns the
  length of the whole text.\<close>

theorem vsnprintf_prefix:
  assumes "sz \<le> length b" "sz < 2 ^ 31" "0 < sz" "vs_text (sz - 1) 0 fmt args = Some out" "length out < 2 ^ 31"
  shows "vsnprintf (Some b) sz fmt args
    = Inr (int (length out), take (sz - 1) out @ NUL # drop (min (length out) (sz - 1) + 1) b)"
  using assms by (rule vsnprintf_eval)

theorem vsnprintf_prefix_witness:
  "vsnprintf (Some ''........'') 5 ''%d'' [VWord 123456] = Inr (6, ''1234'' @ NUL # ''...'')"
  using vsnprintf_prefix [of 5 "''........''" "''%d''" "[VWord 123456]", OF _ _ _ text_d] by (simp add: dec_123456 del: dec_digits.simps)

text \<open>C34. Nothing outside the buffer is written, whatever the format and the arguments: the bytes from \<open>sz\<close>
  on keep their values, and a terminator is among the first \<open>sz\<close>.\<close>

theorem vsnprintf_in_bounds:
  assumes sz: "sz \<le> length b" "sz < 2 ^ 31" and r: "vsnprintf (Some b) sz fmt args = Inr (n, b')"
  shows "length b' = length b \<and> drop sz b' = drop sz b \<and> (sz = 0 \<or> NUL \<in> set (take sz b'))"
proof (cases "sz = 0")
  case True
  then show ?thesis using r by (simp add: vsnprintf_def)
next
  case False
  have ok: "buf_ok sz b" using sz by (simp add: buf_ok_def)
  obtain k where k: "vs_loop sz fmt args (sink_of sz b []) = Inr k" "b' = (sk_buf k)[sk_written k := NUL]"
    using r False by (auto simp: vsnprintf_def sink_of_Nil [of b sz] split: sum.splits)
  obtain out where out: "k = sink_of sz b out" using vs_loop_sink [OF ok k(1)] by auto
  define w where "w = min (length out) (sz - 1)"
  have w: "w < sz" "w \<le> length out" using False by (auto simp: w_def)
  have b': "b' = (take w out @ drop w b)[w := NUL]" using k(2) out by (simp add: w_def)
  have len: "length b' = length b" using w sz by (simp add: b')
  have "b' ! w = NUL" using w sz by (simp add: b')
  then have "NUL \<in> set (take sz b')" using w sz len by (auto simp: in_set_conv_nth intro!: exI [of _ w])
  moreover have "drop sz b' = drop sz b" using w by (simp add: b' drop_append)
  ultimately show ?thesis using len by simp
qed

theorem vsnprintf_in_bounds_witness:
  "\<exists>b'. vsnprintf (Some ''........'') 4 ''%d'' [VWord 123456] = Inr (6, b') \<and> drop 4 b' = ''....''"
proof -
  have "vsnprintf (Some ''........'') 4 ''%d'' [VWord 123456] = Inr (6, ''123'' @ NUL # ''....'')"
    using vsnprintf_eval [of 4 "''........''" "''%d''" "[VWord 123456]", OF _ _ _ text_d] by (simp add: dec_123456)
  then show ?thesis using vsnprintf_in_bounds [of 4 "''........''" "''%d''" "[VWord 123456]"] by simp
qed

text \<open>C35. Printing and parsing a number are inverse.  What \<open>%d\<close> prints into a buffer that is large enough,
  read back by \<open>atoi\<close> up to the terminator, is the argument, for every \<open>int\<close>.\<close>

theorem print_atoi_roundtrip:
  assumes sz: "sz \<le> length b" "sz < 2 ^ 31" and room: "length (dec_string (as_int w)) < sz"
  shows "\<exists>b'. vsnprintf (Some b) sz ''%d'' [VWord w] = Inr (int (length (dec_string (as_int w))), b')
    \<and> atoi_str (takeWhile (\<lambda>c. c \<noteq> NUL) b') = as_int w"
proof -
  let ?d = "dec_string (as_int w)"
  define b' where "b' = ?d @ NUL # drop (length ?d + 1) b"
  have "vsnprintf (Some b) sz ''%d'' [VWord w] = Inr (int (length ?d), take (sz - 1) ?d @ NUL # drop (min (length ?d) (sz - 1) + 1) b)"
    by (rule vsnprintf_eval [OF sz _ text_d]) (use room sz in auto)
  then have "vsnprintf (Some b) sz ''%d'' [VWord w] = Inr (int (length ?d), b')" using room by (simp add: b'_def)
  moreover have "\<forall>c\<in>set ?d. c \<noteq> NUL" using dec_string_chars by auto
  then have "takeWhile (\<lambda>c. c \<noteq> NUL) b' = ?d" by (simp add: takeWhile_append2 b'_def)
  moreover have "- (2 ^ 31) \<le> as_int w" "as_int w < 2 ^ 31"
    unfolding as_int_def using sint_ge [of "ucast w :: 32 word"] sint_lt [of "ucast w :: 32 word"] by simp_all
  ultimately show ?thesis by (simp add: atoi_dec_string)
qed

theorem print_atoi_roundtrip_witness:
  "\<exists>b'. vsnprintf (Some ''........'') 8 ''%d'' [VWord 0xFFFFFFD6] = Inr (3, b')
    \<and> atoi_str (takeWhile (\<lambda>c. c \<noteq> NUL) b') = - 42"
  using print_atoi_roundtrip [of 8 "''........''" "0xFFFFFFD6"] by (simp add: dec_minus_42)

text \<open>Truncation shifts the arguments.  \<open>%c\<close> fetches its argument only when the buffer has room, so in a
  truncated or measuring call every later conversion gets the wrong argument: the length of ``A7'' is
  measured as 3, and a string conversion dereferences a character.  A format that ends in a percent sign is
  read beyond its terminator.\<close>

theorem vsnprintf_char_desync:
  "vsnprintf None 0 ''%c%d'' [VWord 65, VWord 7] = Inr (3, [])
   \<and> vsnprintf (Some ''....'') 4 ''%c%d'' [VWord 65, VWord 7] = Inr (2, ''A7'' @ NUL # ''.'')
   \<and> vsnprintf (Some ''....'') 1 ''%c%s'' [VWord 65, VStr (Some (''x'' @ [NUL]))] = Inl ArgKind
   \<and> vsnprintf (Some ''....'') 4 ''9%'' [] = Inl FmtOverrun"
  by code_simp

end
