(* ===== verification/Timer.thy ===== *)
theory Timer
  imports Sched
begin

text \<open>
  Time (\<open>kernel/core/timer.c\<close>) and the system calls that sleep on it (\<open>sys_nanosleep\<close>, \<open>sys_yield\<close> of
  \<open>kernel/core/syscall_dispatch.c\<close>): the monotonic clock, the tick schedule of a CPU, the software timers
  and the tick that fires them and calls the scheduler.

  Each process has one software timer, so a timer is named by its process.  A timer is a node of an
  intrusive list: linking a linked node or unlinking an unlinked one corrupts the list, which is the
  fault \<open>ListCorrupted\<close>.  What the hardware counter shows is an argument.
\<close>

unbundle bit_operations_syntax

definition HZ :: u64 where "HZ = 1000"
definition NSEC_PER_SEC :: u64 where "NSEC_PER_SEC = 1000000000"
definition NS_PER_TICK :: u64 where "NS_PER_TICK = NSEC_PER_SEC div HZ"
definition YIELD_SPIN_BUDGET :: u32 where "YIELD_SPIN_BUDGET = 64"

record ktimer =
  t_expires :: u64
  t_callback :: bool
  t_pending :: bool
  t_cpu :: int

definition zero_timer :: ktimer where
  "zero_timer = \<lparr>t_expires = 0, t_callback = False, t_pending = False, t_cpu = 0\<rparr>"

record tsys =
  tsched :: sched
  timers :: "pref \<Rightarrow> ktimer"
  timer_list :: "nat \<Rightarrow> pref list"
  jiffies :: u64
  clk_boot_count :: u64
  clk_ready :: bool
  wake_ns :: "pref \<Rightarrow> u64"
  yield_jiffy :: "pref \<Rightarrow> u64"
  yield_count :: "pref \<Rightarrow> u32"
  next_tick_target :: "nat \<Rightarrow> u64"
  tick_error_acc :: "nat \<Rightarrow> u64"
  tick_count :: "nat \<Rightarrow> u64"
  timer_compare :: "nat \<Rightarrow> u64"

datatype tfault = Halted | ListCorrupted | SchedPanic kpanic

section \<open>The clock\<close>

text \<open>What one call of \<open>mono_ns\<close> reads: the frequency and the counter, the latter twice on the first call.\<close>

record reading =
  rd_freq :: u64
  rd_first :: u64
  rd_count :: u64

definition timer_counts_to_ns :: "u64 \<Rightarrow> u64 \<Rightarrow> u64" where
  "timer_counts_to_ns freq counts =
     word_of_int (uint counts * uint NSEC_PER_SEC div uint (if freq = 0 then 1 else freq))"

definition mono_ns :: "reading \<Rightarrow> tsys \<Rightarrow> u64 \<times> tsys" where
  "mono_ns r s =
     (let s1 = (if clk_ready s then s else s\<lparr>clk_boot_count := rd_first r, clk_ready := True\<rparr>)
      in (timer_counts_to_ns (rd_freq r) (rd_count r - clk_boot_count s1), s1))"

definition sys_get_time :: "reading \<Rightarrow> tsys \<Rightarrow> u64 \<times> tsys" where
  "sys_get_time r s = (case mono_ns r s of (t, s1) \<Rightarrow> (t div 1000000, s1))"

definition sys_clock_gettime :: "reading \<Rightarrow> nat \<Rightarrow> int \<Rightarrow> tsys \<Rightarrow> u64 \<times> tsys" where
  "sys_clock_gettime r c clk s =
     (if clk = 1 then
        (case current_process (tsched s) c of
           Some p \<Rightarrow> (timer_counts_to_ns (rd_freq r) (cpu_time_counts (procs (tsched s) p)), s)
         | None \<Rightarrow> (0, s))
      else mono_ns r s)"

section \<open>The tick schedule of a CPU\<close>

definition timer_percpu_tick :: "u64 \<Rightarrow> u64 \<Rightarrow> nat \<Rightarrow> tsys \<Rightarrow> tsys" where
  "timer_percpu_tick freq now c s =
     (let acc = tick_error_acc s c + freq mod HZ;
          over = acc \<ge> HZ;
          interval = (if over then freq div HZ + 1 else freq div HZ);
          target = next_tick_target s c + interval;
          target1 = (if target \<le> now then now + interval else target)
      in s\<lparr>tick_error_acc := (tick_error_acc s)(c := if over then acc - HZ else acc),
           next_tick_target := (next_tick_target s)(c := target1),
           timer_compare := (timer_compare s)(c := target1)\<rparr>)"

definition timer_percpu_arm :: "u64 \<Rightarrow> u64 \<Rightarrow> nat \<Rightarrow> tsys \<Rightarrow> tsys" where
  "timer_percpu_arm freq now c s =
     (let target = now + freq div HZ
      in s\<lparr>next_tick_target := (next_tick_target s)(c := target),
           tick_error_acc := (tick_error_acc s)(c := 0),
           timer_compare := (timer_compare s)(c := target)\<rparr>)"

section \<open>Software timers\<close>

definition upd_timer :: "pref \<Rightarrow> (ktimer \<Rightarrow> ktimer) \<Rightarrow> tsys \<Rightarrow> tsys" where
  "upd_timer p f s = s\<lparr>timers := (timers s)(p := f (timers s p))\<rparr>"

definition on_list :: "pref \<Rightarrow> tsys \<Rightarrow> bool" where
  "on_list p s \<longleftrightarrow> list_ex (\<lambda>c. p \<in> set (timer_list s c)) [0..<MAX_CPUS]"

text \<open>\<open>list_del\<close> takes the node off the list it is really on.\<close>

definition timer_unlink :: "pref \<Rightarrow> tsys \<Rightarrow> tfault + tsys" where
  "timer_unlink p s =
     (if on_list p s then Inr (s\<lparr>timer_list := (\<lambda>c. remove1 p (timer_list s c))\<rparr>) else Inl ListCorrupted)"

definition timer_link :: "nat \<Rightarrow> pref \<Rightarrow> tsys \<Rightarrow> tfault + tsys" where
  "timer_link c p s =
     (if on_list p s then Inl ListCorrupted
      else Inr (s\<lparr>timer_list := (timer_list s)(c := timer_list s c @ [p])\<rparr>))"

text \<open>\<open>INIT_LIST_HEAD\<close> on a linked node breaks the list.\<close>

definition timer_setup :: "pref \<Rightarrow> tsys \<Rightarrow> tfault + tsys" where
  "timer_setup p s =
     (if on_list p s then Inl ListCorrupted
      else Inr (upd_timer p (\<lambda>t. t\<lparr>t_callback := True, t_pending := False, t_cpu := - 1\<rparr>) s))"

definition timer_pending :: "pref \<Rightarrow> tsys \<Rightarrow> bool" where
  "timer_pending p s = t_pending (timers s p)"

definition disarm :: "pref \<Rightarrow> tsys \<Rightarrow> tsys" where
  "disarm p s = upd_timer p (\<lambda>t. t\<lparr>t_pending := False, t_cpu := - 1\<rparr>) s"

definition timer_del :: "pref \<Rightarrow> tsys \<Rightarrow> tfault + tsys" where
  "timer_del p s =
     (let cpu = t_cpu (timers s p) in
      if cpu < 0 \<or> cpu \<ge> int MAX_CPUS then Inr s
      else if t_pending (timers s p) then (case timer_unlink p s of Inl e \<Rightarrow> Inl e | Inr s1 \<Rightarrow> Inr (disarm p s1))
      else Inr s)"

definition timer_publish :: "nat \<Rightarrow> pref \<Rightarrow> u64 \<Rightarrow> tsys \<Rightarrow> tfault + tsys" where
  "timer_publish c p expires s =
     timer_link c p (upd_timer p (\<lambda>t. t\<lparr>t_expires := expires, t_pending := True, t_cpu := int c\<rparr>) s)"

definition timer_add :: "nat \<Rightarrow> pref \<Rightarrow> u64 \<Rightarrow> tsys \<Rightarrow> tfault + tsys" where
  "timer_add c p expires s =
     (if t_pending (timers s p)
      then (case timer_del p s of Inl e \<Rightarrow> Inl e | Inr s1 \<Rightarrow> timer_publish c p expires s1)
      else timer_publish c p expires s)"

section \<open>The tick\<close>

definition on_tsched :: "(sched \<Rightarrow> sched) \<Rightarrow> tsys \<Rightarrow> tsys" where
  "on_tsched f s = s\<lparr>tsched := f (tsched s)\<rparr>"

definition proc_sleep_wake :: "pref \<Rightarrow> tsys \<Rightarrow> tsys" where
  "proc_sleep_wake p s =
     (if pstate (procs (tsched s) p) = PROC_SLEEPING then on_tsched (enqueue_task p) s else s)"

text \<open>The three stores of a firing, in the order of the code, and the callback.\<close>

definition fire_not_pending :: "pref \<Rightarrow> tsys \<Rightarrow> tsys" where
  "fire_not_pending p s = upd_timer p (\<lambda>t. t\<lparr>t_pending := False\<rparr>) s"

definition fire_no_cpu :: "pref \<Rightarrow> tsys \<Rightarrow> tsys" where
  "fire_no_cpu p s = upd_timer p (\<lambda>t. t\<lparr>t_cpu := - 1\<rparr>) s"

definition fire_callback :: "pref \<Rightarrow> tsys \<Rightarrow> tsys" where
  "fire_callback p s = (if t_callback (timers s p) then proc_sleep_wake p s else s)"

definition fire_timer :: "pref \<Rightarrow> tsys \<Rightarrow> tfault + tsys" where
  "fire_timer p s =
     (case timer_unlink p s of
        Inl e \<Rightarrow> Inl e
      | Inr s1 \<Rightarrow> Inr (fire_callback p (fire_no_cpu p (fire_not_pending p s1))))"

fun fire_loop :: "pref list \<Rightarrow> tsys \<Rightarrow> tfault + tsys" where
  "fire_loop [] s = Inr s"
| "fire_loop (p # ps) s =
     (if jiffies s \<ge> t_expires (timers s p)
      then (case fire_timer p s of Inl e \<Rightarrow> Inl e | Inr s1 \<Rightarrow> fire_loop ps s1)
      else fire_loop ps s)"

definition tick_jiffies :: "reading \<Rightarrow> nat \<Rightarrow> tsys \<Rightarrow> tsys" where
  "tick_jiffies r c s =
     (if c = 0 then
        (case mono_ns r s of
           (ns, s1) \<Rightarrow> if ns div NS_PER_TICK > jiffies s1 then s1\<lparr>jiffies := ns div NS_PER_TICK\<rparr> else s1)
      else s)"

definition tick_timers :: "reading \<Rightarrow> nat \<Rightarrow> tsys \<Rightarrow> tfault + tsys" where
  "tick_timers r c s =
     (let s1 = tick_jiffies r c (s\<lparr>tick_count := (tick_count s)(c := tick_count s c + 1)\<rparr>)
      in fire_loop (timer_list s1 c) s1)"

text \<open>The registers are the program counter they return to, as in the scheduler.\<close>

definition tschedule ::
    "(nat \<Rightarrow> bool) \<Rightarrow> u64 \<Rightarrow> nat \<Rightarrow> u64 option \<Rightarrow> tsys \<Rightarrow> tfault + (u64 option \<times> tsys)" where
  "tschedule trylock now c regs s =
     (case schedule trylock now (Some c) regs (tsched s) of
        Inl e \<Rightarrow> Inl (SchedPanic e)
      | Inr (r, s') \<Rightarrow> Inr (r, s\<lparr>tsched := s'\<rparr>))"

definition kernel_timer_tick ::
    "(nat \<Rightarrow> bool) \<Rightarrow> u64 \<Rightarrow> bool \<Rightarrow> reading \<Rightarrow> nat \<Rightarrow> u64 option \<Rightarrow> tsys \<Rightarrow> tfault + (u64 option \<times> tsys)" where
  "kernel_timer_tick trylock now panic_flag r c regs s =
     (if panic_flag then Inl Halted
      else case tick_timers r c s of Inl e \<Rightarrow> Inl e | Inr s1 \<Rightarrow> tschedule trylock now c regs s1)"

section \<open>Sleeping\<close>

datatype sleep_result = SleepDone | SleepRetry

definition sleep_ticks :: "u64 \<Rightarrow> u64" where
  "sleep_ticks d = (let t = (d + (NS_PER_TICK - 1)) div NS_PER_TICK in if t = 0 then 1 else t)"

definition arm_sleep :: "nat \<Rightarrow> pref \<Rightarrow> u64 \<Rightarrow> tsys \<Rightarrow> tfault + tsys" where
  "arm_sleep c p ticks s =
     (if timer_pending p s then Inr s
      else (case timer_setup p s of Inl e \<Rightarrow> Inl e | Inr s1 \<Rightarrow> timer_add c p (jiffies s1 + ticks) s1))"

definition nanosleep_done :: "pref \<Rightarrow> tsys \<Rightarrow> tfault + (sleep_result \<times> tsys)" where
  "nanosleep_done p s =
     (case timer_del p (s\<lparr>wake_ns := (wake_ns s)(p := 0)\<rparr>) of Inl e \<Rightarrow> Inl e | Inr s1 \<Rightarrow> Inr (SleepDone, s1))"

definition set_sleeping :: "pref \<Rightarrow> tsys \<Rightarrow> tsys" where
  "set_sleeping p s = on_tsched (upd_proc p (\<lambda>q. q\<lparr>pstate := PROC_SLEEPING\<rparr>)) s"

text \<open>One pass of the call: the readings are those of its (up to) three calls of \<open>mono_ns\<close>.\<close>

definition nanosleep_pass ::
    "reading \<Rightarrow> reading \<Rightarrow> reading \<Rightarrow> nat \<Rightarrow> u64 \<Rightarrow> tsys \<Rightarrow> tfault + (sleep_result \<times> tsys)" where
  "nanosleep_pass r1 r2 r3 c ns s =
     (case current_process (tsched s) c of
        None \<Rightarrow> Inr (SleepDone, s)
      | Some p \<Rightarrow>
          if ns = 0 then Inr (SleepDone, s)
          else
            let s1 = (if wake_ns s p = 0
                      then (case mono_ns r1 s of (t, s') \<Rightarrow> s'\<lparr>wake_ns := (wake_ns s')(p := t + ns)\<rparr>) else s) in
            (case mono_ns r2 s1 of
               (now1, s2) \<Rightarrow>
                 if now1 \<ge> wake_ns s2 p then nanosleep_done p s2
                 else
                   (case mono_ns r3 s2 of
                      (now2, s3) \<Rightarrow>
                        if now2 \<ge> wake_ns s3 p then nanosleep_done p s3
                        else (case arm_sleep c p (sleep_ticks (wake_ns s3 p - now2)) (set_sleeping p s3) of
                                Inl e \<Rightarrow> Inl e
                              | Inr s4 \<Rightarrow> Inr (SleepRetry, s4)))))"

definition sys_nanosleep ::
    "(nat \<Rightarrow> bool) \<Rightarrow> u64 \<Rightarrow> reading \<Rightarrow> reading \<Rightarrow> reading \<Rightarrow> nat \<Rightarrow> u64 option \<Rightarrow> u64 \<Rightarrow> tsys
      \<Rightarrow> tfault + (u64 option \<times> tsys)" where
  "sys_nanosleep trylock now r1 r2 r3 c regs ns s =
     (case nanosleep_pass r1 r2 r3 c ns s of
        Inl e \<Rightarrow> Inl e
      | Inr (SleepDone, s1) \<Rightarrow> Inr (regs, s1)
      | Inr (SleepRetry, s1) \<Rightarrow> tschedule trylock now c regs s1)"

text \<open>\<open>sys_yield\<close> up to the arming of the timer; the flag says that the budget is used up.\<close>

definition yield_arm :: "nat \<Rightarrow> pref \<Rightarrow> tsys \<Rightarrow> tfault + (bool \<times> tsys)" where
  "yield_arm c p s =
     (let s1 = (if yield_jiffy s p \<noteq> jiffies s
                then s\<lparr>yield_jiffy := (yield_jiffy s)(p := jiffies s), yield_count := (yield_count s)(p := 0)\<rparr> else s);
          n = yield_count s1 p + 1
      in if n > YIELD_SPIN_BUDGET
         then (case arm_sleep c p 1 (s1\<lparr>yield_count := (yield_count s1)(p := 0)\<rparr>) of
                 Inl e \<Rightarrow> Inl e | Inr s2 \<Rightarrow> Inr (True, s2))
         else Inr (False, s1\<lparr>yield_count := (yield_count s1)(p := n)\<rparr>))"

definition yield_sleep :: "pref \<Rightarrow> bool \<Rightarrow> tsys \<Rightarrow> tsys" where
  "yield_sleep p spin s = (if spin then set_sleeping p s else s)"

definition sys_yield ::
    "(nat \<Rightarrow> bool) \<Rightarrow> u64 \<Rightarrow> nat \<Rightarrow> u64 option \<Rightarrow> tsys \<Rightarrow> tfault + (u64 option \<times> tsys)" where
  "sys_yield trylock now c regs s =
     (case current_process (tsched s) c of
        None \<Rightarrow> tschedule trylock now c regs s
      | Some p \<Rightarrow>
          (case yield_arm c p s of
             Inl e \<Rightarrow> Inl e
           | Inr (spin, s1) \<Rightarrow> tschedule trylock now c regs (yield_sleep p spin s1)))"

end
