(* ===== verification/Timer_Lists.thy ===== *)
theory Timer_Lists
  imports Timer Sched_Correct
begin

text \<open>
  The software timers: the invariant of the timer lists, what cancelling, arming and firing do, and the
  effect of a tick on timers and processes.
\<close>

unbundle bit_operations_syntax

section \<open>Well-formed timer lists\<close>

definition timers_wf :: "tsys \<Rightarrow> bool" where
  "timers_wf s \<longleftrightarrow>
     (\<forall>c p. p \<in> set (timer_list s c) \<longleftrightarrow> t_pending (timers s p) \<and> t_cpu (timers s p) = int c) \<and>
     (\<forall>c. distinct (timer_list s c)) \<and>
     (\<forall>p. t_pending (timers s p) \<longrightarrow> t_callback (timers s p) \<and> 0 \<le> t_cpu (timers s p) \<and> t_cpu (timers s p) < int MAX_CPUS)"

lemma timers_wfD:
  assumes "timers_wf s"
  shows "p \<in> set (timer_list s c) \<longleftrightarrow> t_pending (timers s p) \<and> t_cpu (timers s p) = int c" "distinct (timer_list s c)"
    "t_pending (timers s p) \<Longrightarrow> t_callback (timers s p)" "t_pending (timers s p) \<Longrightarrow> 0 \<le> t_cpu (timers s p)"
    "t_pending (timers s p) \<Longrightarrow> t_cpu (timers s p) < int MAX_CPUS"
  using assms by (auto simp: timers_wf_def)

lemma timers_wf_cong:
  "timers s' = timers s \<Longrightarrow> timer_list s' = timer_list s \<Longrightarrow> timers_wf s' \<longleftrightarrow> timers_wf s"
  by (simp add: timers_wf_def)

lemma on_list_iff: "timers_wf s \<Longrightarrow> on_list p s \<longleftrightarrow> t_pending (timers s p)"
proof -
  assume wf: "timers_wf s"
  have "on_list p s \<longleftrightarrow> (\<exists>c<MAX_CPUS. t_pending (timers s p) \<and> t_cpu (timers s p) = int c)"
    using timers_wfD(1) [OF wf] by (auto simp: on_list_def list_ex_iff)
  also have "\<dots> \<longleftrightarrow> t_pending (timers s p)"
    using timers_wfD(4,5) [OF wf] by (metis nat_0_le nat_less_iff)
  finally show ?thesis .
qed

lemma upd_timer_simps [simp]:
  "timers (upd_timer p f s) = (timers s)(p := f (timers s p))" "timer_list (upd_timer p f s) = timer_list s"
  "tsched (upd_timer p f s) = tsched s" "jiffies (upd_timer p f s) = jiffies s" "wake_ns (upd_timer p f s) = wake_ns s"
  "clk_boot_count (upd_timer p f s) = clk_boot_count s" "clk_ready (upd_timer p f s) = clk_ready s"
  by (simp_all add: upd_timer_def)

lemma on_tsched_simps [simp]:
  "timers (on_tsched f s) = timers s" "timer_list (on_tsched f s) = timer_list s" "tsched (on_tsched f s) = f (tsched s)"
  "jiffies (on_tsched f s) = jiffies s" "wake_ns (on_tsched f s) = wake_ns s"
  "clk_boot_count (on_tsched f s) = clk_boot_count s"
  by (simp_all add: on_tsched_def)

text \<open>Taking a timer out of use: what cancelling and firing have in common.\<close>

definition detached :: "pref \<Rightarrow> tsys \<Rightarrow> tsys \<Rightarrow> bool" where
  "detached p s s' \<longleftrightarrow> timer_list s' = (\<lambda>c. filter (\<lambda>q. q \<noteq> p) (timer_list s c)) \<and>
     timers s' = (timers s)(p := (timers s p)\<lparr>t_pending := False, t_cpu := - 1\<rparr>)"

lemma detached_wf: "timers_wf s \<Longrightarrow> detached p s s' \<Longrightarrow> timers_wf s'"
  unfolding timers_wf_def detached_def by auto

lemma unlink_pending:
  assumes "timers_wf s" "t_pending (timers s p)"
  shows "timer_unlink p s = Inr (s\<lparr>timer_list := (\<lambda>c. filter (\<lambda>q. q \<noteq> p) (timer_list s c))\<rparr>)"
  using assms on_list_iff [OF assms(1)] timers_wfD(2) [OF assms(1)]
  by (simp add: timer_unlink_def distinct_remove1_removeAll removeAll_filter_not_eq neq_commute)

lemma timer_del_ok:
  assumes wf: "timers_wf s"
  obtains s' where "timer_del p s = Inr s'" "timers_wf s'" "\<not> t_pending (timers s' p)"
    "tsched s' = tsched s" "jiffies s' = jiffies s" "wake_ns s' = wake_ns s" "clk_boot_count s' = clk_boot_count s"
    "\<And>c. timer_list s' c = filter (\<lambda>q. q \<noteq> p) (timer_list s c)" "\<And>q. q \<noteq> p \<Longrightarrow> timers s' q = timers s q"
proof (cases "t_pending (timers s p)")
  case True
  define s' where "s' = disarm p (s\<lparr>timer_list := (\<lambda>c. filter (\<lambda>q. q \<noteq> p) (timer_list s c))\<rparr>)"
  have e: "timer_del p s = Inr s'"
    using True timers_wfD(4,5) [OF wf True] unlink_pending [OF wf True] by (simp add: timer_del_def Let_def s'_def)
  have "detached p s s'" by (auto simp: detached_def s'_def disarm_def)
  then show ?thesis by (intro that [OF e] detached_wf [OF wf]) (auto simp: s'_def disarm_def)
next
  case False
  then have "timer_del p s = Inr s" by (simp add: timer_del_def Let_def)
  moreover have "filter (\<lambda>q. q \<noteq> p) (timer_list s c) = timer_list s c" for c
    using timers_wfD(1) [OF wf] False by (metis (mono_tags, lifting) filter_True)
  ultimately show ?thesis by (intro that) (use wf False in auto)
qed

lemma arm_sleep_ok:
  assumes wf: "timers_wf s" and c: "c < MAX_CPUS"
  obtains s' where "arm_sleep c p k s = Inr s'" "timers_wf s'" "t_pending (timers s' p)"
    "tsched s' = tsched s" "jiffies s' = jiffies s" "wake_ns s' = wake_ns s" "clk_boot_count s' = clk_boot_count s" "clk_ready s' = clk_ready s" "\<And>q. q \<noteq> p \<Longrightarrow> timers s' q = timers s q"
    "t_pending (timers s p) \<Longrightarrow> s' = s"
    "\<not> t_pending (timers s p) \<Longrightarrow> t_expires (timers s' p) = jiffies s + k \<and> t_cpu (timers s' p) = int c
       \<and> timer_list s' = (timer_list s)(c := timer_list s c @ [p])"
proof (cases "t_pending (timers s p)")
  case True
  then have "arm_sleep c p k s = Inr s" by (simp add: arm_sleep_def timer_pending_def)
  then show ?thesis by (rule that) (use True wf in auto)
next
  case False
  have out: "p \<notin> set (timer_list s c)" for c using timers_wfD(1) [OF wf] False by simp
  define s1 where "s1 = upd_timer p (\<lambda>t. t\<lparr>t_callback := True, t_pending := False, t_cpu := - 1\<rparr>) s"
  define s2 where "s2 = upd_timer p (\<lambda>t. t\<lparr>t_expires := jiffies s + k, t_pending := True, t_cpu := int c\<rparr>) s1"
  define s' where "s' = s2\<lparr>timer_list := (timer_list s)(c := timer_list s c @ [p])\<rparr>"
  have nl: "\<not> on_list p s" "\<not> on_list p s2" using out by (auto simp: on_list_def list_ex_iff s2_def s1_def)
  then have "timer_setup p s = Inr s1" "timer_add c p (jiffies s1 + k) s1 = Inr s'"
    by (simp_all add: timer_setup_def s1_def timer_add_def timer_publish_def timer_link_def s'_def s2_def)
  then have "arm_sleep c p k s = Inr s'" using False by (simp add: arm_sleep_def timer_pending_def)
  moreover have "timers_wf s'"
    using wf out c unfolding timers_wf_def s'_def s2_def s1_def by auto
  ultimately show ?thesis by (rule that) (use False in \<open>auto simp: s'_def s2_def s1_def\<close>)
qed

section \<open>Firing\<close>

definition sleep_wake :: "pref \<Rightarrow> sched \<Rightarrow> sched" where
  "sleep_wake p t = (if pstate (procs t p) = PROC_SLEEPING then enqueue_task p t else t)"

lemma fire_timer_ok:
  assumes wf: "timers_wf s" and p: "t_pending (timers s p)"
  obtains s' where "fire_timer p s = Inr s'" "detached p s s'" "tsched s' = sleep_wake p (tsched s)" "jiffies s' = jiffies s"
    "wake_ns s' = wake_ns s" "clk_boot_count s' = clk_boot_count s" "clk_ready s' = clk_ready s"
proof -
  define s1 where "s1 = fire_no_cpu p (fire_not_pending p (s\<lparr>timer_list := (\<lambda>c. filter (\<lambda>q. q \<noteq> p) (timer_list s c))\<rparr>))"
  have "t_callback (timers s1 p)" using timers_wfD(3) [OF wf p] by (simp add: s1_def fire_no_cpu_def fire_not_pending_def)
  then have "fire_timer p s = Inr (proc_sleep_wake p s1)"
    by (simp add: fire_timer_def unlink_pending [OF wf p] fire_callback_def s1_def)
  moreover have "detached p s (proc_sleep_wake p s1)"
    by (auto simp: detached_def proc_sleep_wake_def s1_def fire_no_cpu_def fire_not_pending_def)
  ultimately show ?thesis
    by (rule that) (simp_all add: proc_sleep_wake_def sleep_wake_def s1_def fire_no_cpu_def fire_not_pending_def on_tsched_def upd_timer_def)
qed

definition wake_all :: "pref list \<Rightarrow> sched \<Rightarrow> sched" where
  "wake_all ps t = fold sleep_wake ps t"

definition due :: "u64 \<Rightarrow> (pref \<Rightarrow> ktimer) \<Rightarrow> pref \<Rightarrow> bool" where
  "due j tm p \<longleftrightarrow> t_expires (tm p) \<le> j"

lemma fire_loop_ok:
  assumes "timers_wf s" "distinct ps" "\<forall>p\<in>set ps. t_pending (timers s p)"
  shows "\<exists>s'. fire_loop ps s = Inr s' \<and> timers_wf s' \<and> jiffies s' = jiffies s \<and> wake_ns s' = wake_ns s
    \<and> tsched s' = wake_all (filter (due (jiffies s) (timers s)) ps) (tsched s)
    \<and> (\<forall>c. timer_list s' c = filter (\<lambda>p. \<not> (p \<in> set ps \<and> due (jiffies s) (timers s) p)) (timer_list s c))
    \<and> (\<forall>p. timers s' p = (if p \<in> set ps \<and> due (jiffies s) (timers s) p
          then (timers s p)\<lparr>t_pending := False, t_cpu := - 1\<rparr> else timers s p))"
  using assms
proof (induction ps arbitrary: s)
  case (Cons p ps)
  have p: "t_pending (timers s p)" and ps: "p \<notin> set ps" "distinct ps" "\<forall>q\<in>set ps. t_pending (timers s q)"
    using Cons.prems by auto
  show ?case
  proof (cases "due (jiffies s) (timers s) p")
    case True
    from fire_timer_ok [OF Cons.prems(1) p] obtain s1 where s1: "fire_timer p s = Inr s1" "detached p s s1"
      "tsched s1 = sleep_wake p (tsched s)" "jiffies s1 = jiffies s" "wake_ns s1 = wake_ns s" by blast
    have same: "timers s1 q = timers s q" if "q \<in> set ps" for q using s1(2) that ps(1) by (auto simp: detached_def)
    then have d: "due (jiffies s1) (timers s1) q = due (jiffies s) (timers s) q" if "q \<in> set ps" for q
      using that by (simp add: due_def s1(4))
    have "timers_wf s1" "\<forall>q\<in>set ps. t_pending (timers s1 q)"
      using detached_wf [OF Cons.prems(1) s1(2)] same ps(3) by auto
    from Cons.IH [OF this(1) ps(2) this(2)] obtain s' where s': "fire_loop ps s1 = Inr s'" "timers_wf s'" "jiffies s' = jiffies s1" "wake_ns s' = wake_ns s1"
      "tsched s' = wake_all (filter (due (jiffies s1) (timers s1)) ps) (tsched s1)"
      "\<forall>c. timer_list s' c = filter (\<lambda>p. \<not> (p \<in> set ps \<and> due (jiffies s1) (timers s1) p)) (timer_list s1 c)"
      "\<forall>q. timers s' q = (if q \<in> set ps \<and> due (jiffies s1) (timers s1) q
          then (timers s1 q)\<lparr>t_pending := False, t_cpu := - 1\<rparr> else timers s1 q)" by blast
    have "filter (due (jiffies s1) (timers s1)) ps = filter (due (jiffies s) (timers s)) ps" using d by (auto intro: filter_cong)
    then have t: "tsched s' = wake_all (filter (due (jiffies s) (timers s)) (p # ps)) (tsched s)"
      using s'(5) True s1(3) by (simp add: wake_all_def)
    have l: "timer_list s' c = filter (\<lambda>q. \<not> (q \<in> set (p # ps) \<and> due (jiffies s) (timers s) q)) (timer_list s c)" for c
      unfolding s'(6) [rule_format] using s1(2) d True by (auto simp: detached_def intro!: filter_cong)
    have "timers s' q = (if q \<in> set (p # ps) \<and> due (jiffies s) (timers s) q
          then (timers s q)\<lparr>t_pending := False, t_cpu := - 1\<rparr> else timers s q)" for q
      unfolding s'(7) [rule_format] using s1(2) d True ps(1) same by (auto simp: detached_def)
    moreover have "fire_loop (p # ps) s = Inr s'" using True s1(1) s'(1) by (simp add: due_def)
    ultimately show ?thesis using s'(2-4) s1(4,5) t l by simp
  next
    case False
    then have "fire_loop (p # ps) s = fire_loop ps s" by (simp add: due_def)
    moreover have "q \<in> set (p # ps) \<and> due (jiffies s) (timers s) q \<longleftrightarrow> q \<in> set ps \<and> due (jiffies s) (timers s) q" for q
      using False by auto
    ultimately show ?thesis using Cons.IH [OF Cons.prems(1) ps(2,3)] False by simp
  qed
qed (simp add: wake_all_def)


section \<open>Waking\<close>

lemma enqueue_keeps_other: "q \<noteq> p \<Longrightarrow> procs (enqueue_task p t) q = procs t q"
  by (simp add: enqueue_task_def Let_def list_add_tail_def upd_proc_def upd_cpu_def)

lemma sleep_wake_other: "q \<noteq> p \<Longrightarrow> procs (sleep_wake p t) q = procs t q"
  by (simp add: sleep_wake_def enqueue_keeps_other)

lemma sleep_wake_lists: "set (lists t l) \<subseteq> set (lists (sleep_wake p t) l)"
  by (auto simp: sleep_wake_def enqueue_task_def Let_def list_add_tail_def upd_proc_def upd_cpu_def)

lemma sleep_wake_sleeper:
  assumes "pstate (procs t p) = PROC_SLEEPING"
  defines "l \<equiv> Runqueue (cpu_of (procs t p)) (queue_prio (procs t p))"
  shows "pstate (procs (sleep_wake p t) p) = PROC_READY" "run_list (procs (sleep_wake p t) p) = Some l"
    "p \<in> set (lists (sleep_wake p t) l)"
  using assms(1) by (simp_all add: sleep_wake_def enqueue_task_def Let_def list_add_tail_def upd_proc_def upd_cpu_def l_def)

lemma wake_all_other: "p \<notin> set ps \<Longrightarrow> procs (wake_all ps t) p = procs t p"
  by (induction ps arbitrary: t) (simp_all add: wake_all_def sleep_wake_other)

lemma wake_all_lists: "set (lists t l) \<subseteq> set (lists (wake_all ps t) l)"
  by (induction ps arbitrary: t) (auto simp: wake_all_def dest: sleep_wake_lists [THEN subsetD])

lemma wake_all_split: "p \<in> set ps \<Longrightarrow> \<exists>as bs. wake_all ps t = wake_all bs (sleep_wake p (wake_all as t)) \<and> ps = as @ p # bs"
proof -
  assume "p \<in> set ps"
  then obtain as bs where "ps = as @ p # bs" by (meson split_list)
  then show ?thesis by (intro exI [of _ as] exI [of _ bs]) (simp add: wake_all_def)
qed

lemma wake_all_sleeper:
  assumes p: "p \<in> set ps" "distinct ps" and sl: "pstate (procs t p) = PROC_SLEEPING"
  defines "l \<equiv> Runqueue (cpu_of (procs t p)) (queue_prio (procs t p))"
  shows "pstate (procs (wake_all ps t) p) = PROC_READY \<and> run_list (procs (wake_all ps t) p) = Some l \<and> p \<in> set (lists (wake_all ps t) l)"
proof -
  obtain as bs where e: "wake_all ps t = wake_all bs (sleep_wake p (wake_all as t))" "ps = as @ p # bs"
    using wake_all_split [OF p(1)] by blast
  then have out: "p \<notin> set as" "p \<notin> set bs" using p(2) by auto
  define u where "u = wake_all as t"
  have u: "procs u p = procs t p" unfolding u_def by (rule wake_all_other [OF out(1)])
  note w = sleep_wake_sleeper [of u p, unfolded u, OF sl, folded l_def]
  show ?thesis unfolding e(1) u_def [symmetric]
    using w wake_all_other [OF out(2), of "sleep_wake p u"] wake_all_lists [of "sleep_wake p u" l bs] by auto
qed

text \<open>The processes that were not asleep are left alone, so waking is queueing the sleepers in order.\<close>

lemma wake_all_sleepers:
  "distinct ps \<Longrightarrow> wake_all ps t = fold enqueue_task (filter (\<lambda>p. pstate (procs t p) = PROC_SLEEPING) ps) t"
proof (induction ps arbitrary: t)
  case (Cons p ps)
  have "filter (\<lambda>q. pstate (procs (sleep_wake p t) q) = PROC_SLEEPING) ps
      = filter (\<lambda>q. pstate (procs t q) = PROC_SLEEPING) ps"
  proof (intro filter_cong refl)
    fix q assume "q \<in> set ps"
    then have "q \<noteq> p" using Cons.prems by auto
    then show "(pstate (procs (sleep_wake p t) q) = PROC_SLEEPING) = (pstate (procs t q) = PROC_SLEEPING)"
      by (simp add: sleep_wake_other)
  qed
  then show ?case
    using Cons.IH [of "sleep_wake p t"] Cons.prems by (simp add: wake_all_def sleep_wake_def)
qed (simp add: wake_all_def)

lemma fold_enqueue_other: "p \<notin> set ps \<Longrightarrow> procs (fold enqueue_task ps t) p = procs t p"
  by (induction ps arbitrary: t) (simp_all add: enqueue_keeps_other)

section \<open>The tick\<close>

lemma mono_ns_frame:
  assumes "mono_ns r s = (t, s')"
  shows "timers s' = timers s" "timer_list s' = timer_list s" "tsched s' = tsched s" "jiffies s' = jiffies s" "wake_ns s' = wake_ns s"
  using assms by (auto simp: mono_ns_def Let_def split: if_splits)

lemma tick_jiffies_frame:
  "timers (tick_jiffies r c s) = timers s" "timer_list (tick_jiffies r c s) = timer_list s"
  "tsched (tick_jiffies r c s) = tsched s" "wake_ns (tick_jiffies r c s) = wake_ns s" "jiffies s \<le> jiffies (tick_jiffies r c s)"
  by (auto simp: tick_jiffies_def mono_ns_def Let_def)

text \<open>What one tick of CPU \<open>c\<close> does to the timers and the processes.\<close>

definition ticked :: "nat \<Rightarrow> tsys \<Rightarrow> tsys \<Rightarrow> bool" where
  "ticked c s s' \<longleftrightarrow> timers_wf s' \<and> jiffies s \<le> jiffies s' \<and> wake_ns s' = wake_ns s
    \<and> timer_list s' = (timer_list s)(c := filter (\<lambda>p. \<not> due (jiffies s') (timers s) p) (timer_list s c))
    \<and> (\<forall>p. p \<notin> set (timer_list s c) \<or> \<not> due (jiffies s') (timers s) p \<longrightarrow>
         timers s' p = timers s p \<and> procs (tsched s') p = procs (tsched s) p)
    \<and> (\<forall>p. p \<in> set (timer_list s c) \<and> due (jiffies s') (timers s) p \<longrightarrow>
         timers s' p = (timers s p)\<lparr>t_pending := False, t_cpu := - 1\<rparr>)
    \<and> tsched s' = wake_all (filter (due (jiffies s') (timers s)) (timer_list s c)) (tsched s)"

lemma tick_timers_ok:
  assumes wf: "timers_wf s"
  shows "\<exists>s'. tick_timers r c s = Inr s' \<and> ticked c s s' \<and> jiffies s' = jiffies (tick_jiffies r c (s\<lparr>tick_count := (tick_count s)(c := tick_count s c + 1)\<rparr>))"
proof -
  define s1 where "s1 = tick_jiffies r c (s\<lparr>tick_count := (tick_count s)(c := tick_count s c + 1)\<rparr>)"
  have f: "timers s1 = timers s" "timer_list s1 = timer_list s" "tsched s1 = tsched s" "wake_ns s1 = wake_ns s" "jiffies s \<le> jiffies s1"
    using tick_jiffies_frame [where r = r and c = c and s = "s\<lparr>tick_count := (tick_count s)(c := tick_count s c + 1)\<rparr>"] by (simp_all add: s1_def)
  have wf1: "timers_wf s1" using wf f(1,2) by (simp add: timers_wf_def)
  have l: "distinct (timer_list s c)" "\<forall>p\<in>set (timer_list s c). t_pending (timers s1 p)"
    using timers_wfD(1,2) [OF wf] f(1) by auto
  let ?d = "due (jiffies s1) (timers s)"
  from fire_loop_ok [OF wf1 l, unfolded f(1-4)] obtain s' where s': "fire_loop (timer_list s c) s1 = Inr s'" "timers_wf s'"
    "jiffies s' = jiffies s1" "wake_ns s' = wake_ns s" "tsched s' = wake_all (filter ?d (timer_list s c)) (tsched s)"
    "\<forall>k. timer_list s' k = filter (\<lambda>p. \<not> (p \<in> set (timer_list s c) \<and> ?d p)) (timer_list s k)"
    "\<forall>p. timers s' p = (if p \<in> set (timer_list s c) \<and> ?d p then (timers s p)\<lparr>t_pending := False, t_cpu := - 1\<rparr> else timers s p)"
    by blast
  have "timer_list s' k = ((timer_list s)(c := filter (\<lambda>p. \<not> ?d p) (timer_list s c))) k" for k
  proof (cases "k = c")
    case False
    then have "p \<notin> set (timer_list s c)" if "p \<in> set (timer_list s k)" for p
      using that timers_wfD(1) [OF wf] by (metis of_nat_eq_iff)
    then have "filter (\<lambda>p. \<not> (p \<in> set (timer_list s c) \<and> ?d p)) (timer_list s k) = timer_list s k" by (auto intro: filter_True)
    then show ?thesis using False s'(6) by simp
  qed (auto simp: s'(6) intro!: filter_cong)
  then have "timer_list s' = (timer_list s)(c := filter (\<lambda>p. \<not> ?d p) (timer_list s c))" by (rule ext)
  moreover have "timers s' p = timers s p \<and> procs (tsched s') p = procs (tsched s) p"
    if "p \<notin> set (timer_list s c) \<or> \<not> ?d p" for p
    using that s'(5,7) by (auto simp: wake_all_other)
  moreover have "timers s' p = (timers s p)\<lparr>t_pending := False, t_cpu := - 1\<rparr>"
    if "p \<in> set (timer_list s c)" "?d p" for p using that s'(7) by simp
  ultimately have "ticked c s s'" unfolding ticked_def s'(3) using s'(2,4,5) f(5) by auto
  moreover have "tick_timers r c s = Inr s'" using s'(1) f(2) by (simp add: tick_timers_def Let_def flip: s1_def)
  ultimately show ?thesis using s'(3) by (auto simp: s1_def)
qed

lemma ticked_wakes:
  assumes wf: "timers_wf s" and t: "ticked c s s'" and p: "p \<in> set (timer_list s c)" "t_expires (timers s p) \<le> jiffies s'"
    and sl: "pstate (procs (tsched s) p) = PROC_SLEEPING"
  defines "l \<equiv> Runqueue (cpu_of (procs (tsched s) p)) (queue_prio (procs (tsched s) p))"
  shows "pstate (procs (tsched s') p) = PROC_READY" "run_list (procs (tsched s') p) = Some l" "p \<in> set (lists (tsched s') l)"
    "set (lists (tsched s) k) \<subseteq> set (lists (tsched s') k)"
proof -
  have ts: "tsched s' = wake_all (filter (due (jiffies s') (timers s)) (timer_list s c)) (tsched s)" using t by (simp add: ticked_def)
  show "set (lists (tsched s) k) \<subseteq> set (lists (tsched s') k)" unfolding ts by (rule wake_all_lists)
  have "p \<in> set (filter (due (jiffies s') (timers s)) (timer_list s c))" using p by (simp add: due_def)
  from wake_all_sleeper [OF this _ sl] timers_wfD(2) [OF wf, of c]
  show "pstate (procs (tsched s') p) = PROC_READY" "run_list (procs (tsched s') p) = Some l" "p \<in> set (lists (tsched s') l)"
    unfolding ts l_def by simp_all
qed

end
