(* ===== verification/Timer_Sleep.thy ===== *)
theory Timer_Sleep
  imports Timer_Lists
begin

text \<open>One pass of \<open>nanosleep\<close>: the deadline, the decision to return or sleep, and the tick it is armed for.\<close>

unbundle bit_operations_syntax

section \<open>Sleeping\<close>

text \<open>The time a reading shows, once the clock has its epoch.\<close>

definition shows_time :: "reading \<Rightarrow> tsys \<Rightarrow> u64" where
  "shows_time r s = timer_counts_to_ns (rd_freq r) (rd_count r - clk_boot_count s)"

definition started :: "reading \<Rightarrow> tsys \<Rightarrow> tsys" where
  "started r s = (if clk_ready s then s else s\<lparr>clk_boot_count := rd_first r, clk_ready := True\<rparr>)"

lemma mono_ns_started: "mono_ns r s = (shows_time r (started r s), started r s)"
  by (simp add: mono_ns_def shows_time_def started_def Let_def)

lemma started_simps [simp]:
  "clk_ready (started r s)" "timers (started r s) = timers s" "timer_list (started r s) = timer_list s"
  "tsched (started r s) = tsched s" "jiffies (started r s) = jiffies s" "wake_ns (started r s) = wake_ns s"
  "timers_wf (started r s) = timers_wf s"
  by (simp_all add: started_def timers_wf_def)

lemma started_ready: "clk_ready s \<Longrightarrow> started r s = s"
  by (simp add: started_def)

definition deadline :: "reading \<Rightarrow> u64 \<Rightarrow> pref \<Rightarrow> tsys \<Rightarrow> u64" where
  "deadline r ns p s = (if wake_ns s p = 0 then shows_time r (started r s) + ns else wake_ns s p)"

text \<open>The state in which a pass compares the clock with the deadline.\<close>

definition begun :: "reading \<Rightarrow> reading \<Rightarrow> u64 \<Rightarrow> pref \<Rightarrow> tsys \<Rightarrow> tsys" where
  "begun r1 r2 ns p s =
     (if wake_ns s p = 0 then (started r1 s)\<lparr>wake_ns := (wake_ns s)(p := deadline r1 ns p s)\<rparr> else started r2 s)"

lemma begun_simps [simp]:
  "timers (begun r1 r2 ns p s) = timers s" "timer_list (begun r1 r2 ns p s) = timer_list s" "tsched (begun r1 r2 ns p s) = tsched s"
  "jiffies (begun r1 r2 ns p s) = jiffies s" "wake_ns (begun r1 r2 ns p s) p = deadline r1 ns p s" "clk_ready (begun r1 r2 ns p s)"
  "timers_wf (begun r1 r2 ns p s) = timers_wf s"
  by (simp_all add: begun_def deadline_def timers_wf_def)

lemma nanosleep_unfold:
  fixes r1 r2 :: reading
  assumes "current_process (tsched s) c = Some p" "ns \<noteq> 0"
  defines "t \<equiv> begun r1 r2 ns p s"
  shows "nanosleep_pass r1 r2 r3 c ns s =
    (if deadline r1 ns p s \<le> shows_time r2 t \<or> deadline r1 ns p s \<le> shows_time r3 t then nanosleep_done p t
     else (case arm_sleep c p (sleep_ticks (deadline r1 ns p s - shows_time r3 t)) (set_sleeping p t) of
             Inl e \<Rightarrow> Inl e | Inr s4 \<Rightarrow> Inr (SleepRetry, s4)))"
proof -
  have r: "started r t = t" for r by (rule started_ready) (simp add: t_def)
  have m2: "mono_ns r2 (if wake_ns s p = 0 then (case mono_ns r1 s of (t, s') \<Rightarrow> s'\<lparr>wake_ns := (wake_ns s')(p := t + ns)\<rparr>) else s)
      = (shows_time r2 t, t)"
  proof (cases "wake_ns s p = 0")
    case True
    then have "(case mono_ns r1 s of (t, s') \<Rightarrow> s'\<lparr>wake_ns := (wake_ns s')(p := t + ns)\<rparr>) = t"
      by (simp add: mono_ns_started begun_def deadline_def t_def)
    then show ?thesis using True r by (simp only: if_P simp_thms mono_ns_started)
  qed (simp add: mono_ns_started t_def begun_def)
  have m3: "mono_ns r3 t = (shows_time r3 t, t)" by (simp only: mono_ns_started r)
  have w: "wake_ns t p = deadline r1 ns p s" by (simp add: t_def)
  show ?thesis
    unfolding nanosleep_pass_def Let_def assms(1) option.case if_not_P [OF assms(2)] m2 prod.case m3 w by simp
qed

lemma nanosleep_done_ok:
  assumes "timers_wf s"
  obtains s' where "nanosleep_done p s = Inr (SleepDone, s')" "timers_wf s'" "\<not> t_pending (timers s' p)" "wake_ns s' p = 0"
    "tsched s' = tsched s" "clk_boot_count s' = clk_boot_count s"
proof -
  define t where "t = s\<lparr>wake_ns := (wake_ns s)(p := 0)\<rparr>"
  have "timers_wf t" using assms by (simp add: t_def timers_wf_def)
  from timer_del_ok [OF this, of p] obtain s' where "timer_del p t = Inr s'" "timers_wf s'" "\<not> t_pending (timers s' p)"
    "tsched s' = tsched t" "wake_ns s' = wake_ns t" "clk_boot_count s' = clk_boot_count t" by metis
  then show ?thesis by (intro that [of s']) (simp_all add: nanosleep_done_def t_def)
qed

lemma sleep_ticks_exact:
  assumes "unat d < 2 ^ 63" "d \<noteq> 0"
  shows "unat d \<le> unat (sleep_ticks d) * 1000000" "unat (sleep_ticks d) * 1000000 < unat d + 1000000"
proof -
  have npt: "NS_PER_TICK = 1000000" by (simp add: NS_PER_TICK_def NSEC_PER_SEC_def HZ_def)
  have add: "unat (d + 999999) = unat d + 999999" using assms(1) by (subst unat_add_lem [THEN iffD1]) simp_all
  have q: "unat ((d + 999999) div 1000000) = (unat d + 999999) div 1000000" by (simp add: unat_div add)
  moreover have "0 < unat d" using assms(2) by (simp add: unat_gt_0)
  then have "(unat d + 999999) div 1000000 \<noteq> 0" by simp
  ultimately have "(d + 999999) div 1000000 \<noteq> 0" by (metis unat_0)
  then have "unat (sleep_ticks d) = (unat d + 999999) div 1000000" using q by (simp add: sleep_ticks_def npt Let_def)
  then show "unat d \<le> unat (sleep_ticks d) * 1000000" "unat (sleep_ticks d) * 1000000 < unat d + 1000000"
    using \<open>0 < unat d\<close> by simp_all
qed

lemma set_sleeping_simps [simp]:
  "timers (set_sleeping p s) = timers s" "timer_list (set_sleeping p s) = timer_list s" "jiffies (set_sleeping p s) = jiffies s"
  "wake_ns (set_sleeping p s) = wake_ns s" "clk_boot_count (set_sleeping p s) = clk_boot_count s"
  "pstate (procs (tsched (set_sleeping p s)) p) = PROC_SLEEPING" "timers_wf (set_sleeping p s) = timers_wf s"
  by (simp_all add: set_sleeping_def upd_proc_def timers_wf_def)

lemma nanosleep_pass_ok:
  fixes r1 r2 r3 :: reading
  assumes wf: "timers_wf s" and c: "c < MAX_CPUS" and cur: "current_process (tsched s) c = Some p" and ns: "ns \<noteq> 0"
  defines "D \<equiv> deadline r1 ns p s"
  shows "\<exists>res s'. nanosleep_pass r1 r2 r3 c ns s = Inr (res, s') \<and> timers_wf s'
    \<and> (res = SleepDone \<longrightarrow> wake_ns s' p = 0 \<and> \<not> t_pending (timers s' p) \<and> tsched s' = tsched s
         \<and> (D \<le> shows_time r2 s' \<or> D \<le> shows_time r3 s'))
    \<and> (res = SleepRetry \<longrightarrow> wake_ns s' p = D \<and> shows_time r2 s' < D \<and> shows_time r3 s' < D
         \<and> pstate (procs (tsched s') p) = PROC_SLEEPING \<and> t_pending (timers s' p)
         \<and> (\<not> t_pending (timers s p) \<longrightarrow> t_cpu (timers s' p) = int c
              \<and> t_expires (timers s' p) = jiffies s' + sleep_ticks (D - shows_time r3 s')))"
proof (cases "D \<le> shows_time r2 (begun r1 r2 ns p s) \<or> D \<le> shows_time r3 (begun r1 r2 ns p s)")
  case True
  have "timers_wf (begun r1 r2 ns p s)" using wf by simp
  from nanosleep_done_ok [OF this, of p] obtain s' where s': "nanosleep_done p (begun r1 r2 ns p s) = Inr (SleepDone, s')" "timers_wf s'"
    "\<not> t_pending (timers s' p)" "wake_ns s' p = 0" "tsched s' = tsched s" "clk_boot_count s' = clk_boot_count (begun r1 r2 ns p s)"
    by (metis begun_simps(3))
  moreover have "shows_time r s' = shows_time r (begun r1 r2 ns p s)" for r by (simp add: shows_time_def s'(6))
  ultimately show ?thesis using True nanosleep_unfold [OF cur ns, where ?r1.0 = r1 and ?r2.0 = r2 and ?r3.0 = r3] by (auto simp: D_def)
next
  case False
  define t where "t = set_sleeping p (begun r1 r2 ns p s)"
  define k where "k = sleep_ticks (D - shows_time r3 (begun r1 r2 ns p s))"
  have "timers_wf t" using wf by (simp add: t_def)
  from arm_sleep_ok [OF this c, of p k] obtain s' where s': "arm_sleep c p k t = Inr s'" "timers_wf s'" "t_pending (timers s' p)"
    "tsched s' = tsched t" "jiffies s' = jiffies t" "wake_ns s' = wake_ns t" "clk_boot_count s' = clk_boot_count t"
    "\<not> t_pending (timers t p) \<Longrightarrow> t_expires (timers s' p) = jiffies t + k \<and> t_cpu (timers s' p) = int c" by metis
  have sh: "shows_time r s' = shows_time r (begun r1 r2 ns p s)" for r by (simp add: shows_time_def s'(7) t_def)
  have "nanosleep_pass r1 r2 r3 c ns s = Inr (SleepRetry, s')"
    using False nanosleep_unfold [OF cur ns, where ?r1.0 = r1 and ?r2.0 = r2 and ?r3.0 = r3] s'(1) by (simp add: D_def t_def k_def)
  then show ?thesis using s' False sh by (auto simp: t_def k_def D_def)
qed

end
