(* ===== verification/Timer_Props.thy ===== *)
theory Timer_Props
  imports Timer_Sleep
begin

text \<open>
  Properties of time keeping: the exact tick rate, the integrity of the timer lists over all runs, exact
  firing, the contract of \<open>nanosleep\<close>, and what goes wrong when a firing or a tick falls between two stores.
\<close>

unbundle bit_operations_syntax

section \<open>The tick schedule\<close>

fun run_ticks :: "u64 \<Rightarrow> nat \<Rightarrow> u64 list \<Rightarrow> tsys \<Rightarrow> tsys" where
  "run_ticks freq c [] s = s"
| "run_ticks freq c (n # ns) s = run_ticks freq c ns (timer_percpu_tick freq n c s)"

text \<open>Each tick is handled before the next one is due.\<close>

fun on_time :: "u64 \<Rightarrow> nat \<Rightarrow> u64 list \<Rightarrow> tsys \<Rightarrow> bool" where
  "on_time freq c [] s \<longleftrightarrow> True"
| "on_time freq c (n # ns) s \<longleftrightarrow>
     unat n < unat (next_tick_target s c) + unat freq div 1000 \<and> on_time freq c ns (timer_percpu_tick freq n c s)"

lemma percpu_tick_step:
  assumes acc: "tick_error_acc s c < HZ" and room: "unat (next_tick_target s c) + unat freq div 1000 + 1 < 2 ^ 64"
    and time: "unat n < unat (next_tick_target s c) + unat freq div 1000"
  defines "s' \<equiv> timer_percpu_tick freq n c s"
  shows "1000 * unat (next_tick_target s' c) + unat (tick_error_acc s' c)
      = 1000 * unat (next_tick_target s c) + unat (tick_error_acc s c) + unat freq"
    "tick_error_acc s' c < HZ" "unat (next_tick_target s' c) \<le> unat (next_tick_target s c) + unat freq div 1000 + 1"
proof -
  define a where "a = tick_error_acc s c + freq mod HZ"
  have "unat (freq mod HZ) = unat freq mod 1000" by (simp add: HZ_def unat_mod)
  moreover have "unat (tick_error_acc s c) < 1000" using acc by (simp add: HZ_def word_less_nat_alt)
  ultimately have a: "unat a = unat (tick_error_acc s c) + unat freq mod 1000" "unat a < 2000"
    unfolding a_def by (subst unat_add_lem [THEN iffD1]; simp)+
  have over: "HZ \<le> a \<longleftrightarrow> 1000 \<le> unat a" by (simp add: HZ_def word_le_nat_alt)
  define i where "i = (if HZ \<le> a then freq div HZ + 1 else freq div HZ)"
  have q: "unat (freq div HZ) = unat freq div 1000" by (simp add: HZ_def unat_div)
  have "unat (freq div HZ + 1) = unat freq div 1000 + 1" using room q by (subst unat_add_lem [THEN iffD1]) simp_all
  then have i: "unat i = unat freq div 1000 + (if 1000 \<le> unat a then 1 else 0)" using q over by (simp add: i_def)
  have t: "unat (next_tick_target s c + i) = unat (next_tick_target s c) + unat i"
    using room i by (subst unat_add_lem [THEN iffD1]) (simp_all split: if_splits)
  have "\<not> next_tick_target s c + i \<le> n" using time t i by (simp add: word_le_nat_alt)
  then have s': "next_tick_target s' c = next_tick_target s c + i" "tick_error_acc s' c = (if HZ \<le> a then a - HZ else a)"
    by (simp_all add: s'_def timer_percpu_tick_def Let_def a_def i_def)
  have e: "unat (tick_error_acc s' c) = (if 1000 \<le> unat a then unat a - 1000 else unat a)"
    using over by (simp add: s'(2) unat_sub HZ_def)
  show "1000 * unat (next_tick_target s' c) + unat (tick_error_acc s' c)
      = 1000 * unat (next_tick_target s c) + unat (tick_error_acc s c) + unat freq"
    using e s'(1) t i a by (cases "1000 \<le> unat a") (simp_all add: algebra_simps)
  show "tick_error_acc s' c < HZ" using e a(2) by (simp add: HZ_def word_less_nat_alt split: if_splits)
  show "unat (next_tick_target s' c) \<le> unat (next_tick_target s c) + unat freq div 1000 + 1" using s'(1) t i by simp
qed

lemma run_ticks_exact:
  assumes "tick_error_acc s c < HZ" "unat (next_tick_target s c) + (unat freq div 1000 + 1) * length ns < 2 ^ 64"
    "on_time freq c ns s"
  shows "1000 * unat (next_tick_target (run_ticks freq c ns s) c) + unat (tick_error_acc (run_ticks freq c ns s) c)
      = 1000 * unat (next_tick_target s c) + unat (tick_error_acc s c) + length ns * unat freq
    \<and> tick_error_acc (run_ticks freq c ns s) c < HZ"
  using assms
proof (induction ns arbitrary: s)
  case (Cons n ns)
  have room: "unat (next_tick_target s c) + unat freq div 1000 + 1 < 2 ^ 64" using Cons.prems(2) by simp
  note st = percpu_tick_step [OF Cons.prems(1) room, of n]
  have "on_time freq c ns (timer_percpu_tick freq n c s)" and time: "unat n < unat (next_tick_target s c) + unat freq div 1000"
    using Cons.prems(3) by simp_all
  moreover have "unat (next_tick_target (timer_percpu_tick freq n c s) c) + (unat freq div 1000 + 1) * length ns < 2 ^ 64"
    using Cons.prems(2) st(3) [OF time] by simp
  ultimately show ?case using Cons.IH [OF st(2) [OF time]] st(1) [OF time] by simp
qed simp

section \<open>Runs\<close>

text \<open>The operations on timers, each atomic, and every operation of the scheduler.\<close>

inductive timer_step :: "tsys \<Rightarrow> tsys \<Rightarrow> bool" where
  tick: "tick_timers r c s = Inr s' \<Longrightarrow> timer_step s s'"
| sleep: "c < MAX_CPUS \<Longrightarrow> nanosleep_pass r1 r2 r3 c ns s = Inr (res, s') \<Longrightarrow> timer_step s s'"
| yield: "c < MAX_CPUS \<Longrightarrow> yield_arm c p s = Inr (spin, s') \<Longrightarrow> timer_step s s'"
| ysleep: "timer_step s (yield_sleep p spin s)"
| del: "timer_del p s = Inr s' \<Longrightarrow> timer_step s s'"
| sched: "timer_step s (on_tsched f s)"

lemma yield_arm_ok:
  assumes wf: "timers_wf s" and c: "c < MAX_CPUS"
  obtains spin s' where "yield_arm c p s = Inr (spin, s')" "timers_wf s'" "tsched s' = tsched s" "jiffies s' = jiffies s"
    "clk_boot_count s' = clk_boot_count s" "clk_ready s' = clk_ready s" "spin \<Longrightarrow> t_pending (timers s' p)"
    "spin \<Longrightarrow> \<not> t_pending (timers s p) \<Longrightarrow> t_expires (timers s' p) = jiffies s + 1 \<and> t_cpu (timers s' p) = int c"
    "spin \<longleftrightarrow> yield_jiffy s p = jiffies s \<and> YIELD_SPIN_BUDGET < yield_count s p + 1"
proof -
  define s1 where "s1 = (if yield_jiffy s p \<noteq> jiffies s
    then s\<lparr>yield_jiffy := (yield_jiffy s)(p := jiffies s), yield_count := (yield_count s)(p := 0)\<rparr> else s)"
  define s2 where "s2 = s1\<lparr>yield_count := (yield_count s1)(p := 0)\<rparr>"
  have f: "timers s2 = timers s" "timer_list s2 = timer_list s" "tsched s2 = tsched s" "jiffies s2 = jiffies s"
    "clk_boot_count s2 = clk_boot_count s" "clk_ready s2 = clk_ready s" by (simp_all add: s2_def s1_def)
  then have wf2: "timers_wf s2" using wf by (simp add: timers_wf_def)
  have b: "YIELD_SPIN_BUDGET < yield_count s1 p + 1 \<longleftrightarrow> yield_jiffy s p = jiffies s \<and> YIELD_SPIN_BUDGET < yield_count s p + 1"
    by (simp add: s1_def YIELD_SPIN_BUDGET_def)
  show ?thesis
  proof (cases "YIELD_SPIN_BUDGET < yield_count s1 p + 1")
    case True
    from arm_sleep_ok [OF wf2 c, of p 1] obtain s' where s': "arm_sleep c p 1 s2 = Inr s'" "timers_wf s'" "t_pending (timers s' p)"
      "tsched s' = tsched s2" "jiffies s' = jiffies s2" "clk_boot_count s' = clk_boot_count s2" "clk_ready s' = clk_ready s2"
      "\<not> t_pending (timers s2 p) \<Longrightarrow> t_expires (timers s' p) = jiffies s2 + 1 \<and> t_cpu (timers s' p) = int c" by metis
    have "yield_arm c p s = Inr (True, s')" using True s'(1) by (simp add: yield_arm_def Let_def s2_def flip: s1_def)
    then show ?thesis by (rule that) (use s' f True b in auto)
  next
    case False
    define s3 where "s3 = s1\<lparr>yield_count := (yield_count s1)(p := yield_count s1 p + 1)\<rparr>"
    have "yield_arm c p s = Inr (False, s3)" using False by (simp add: yield_arm_def Let_def s3_def flip: s1_def)
    moreover have "timers s3 = timers s" "timer_list s3 = timer_list s" "tsched s3 = tsched s" "jiffies s3 = jiffies s"
      "clk_boot_count s3 = clk_boot_count s" "clk_ready s3 = clk_ready s" by (simp_all add: s3_def s1_def)
    ultimately show ?thesis by (intro that [of False s3]) (use wf False b in \<open>auto simp: timers_wf_def\<close>)
  qed
qed

lemma nanosleep_total:
  assumes wf: "timers_wf s" and c: "c < MAX_CPUS"
  shows "\<exists>res s'. nanosleep_pass r1 r2 r3 c ns s = Inr (res, s') \<and> timers_wf s'"
proof (cases "current_process (tsched s) c = None \<or> ns = 0")
  case True
  then show ?thesis using wf by (auto simp: nanosleep_pass_def split: option.split)
next
  case False
  then show ?thesis using nanosleep_pass_ok [OF wf c, of _ ns r1 r2 r3] by auto
qed

lemma timer_step_wf: "timer_step s s' \<Longrightarrow> timers_wf s \<Longrightarrow> timers_wf s'"
proof (induction rule: timer_step.induct)
  case (tick r c s s')
  then show ?case using tick_timers_ok [of s r c] by (auto simp: ticked_def)
next
  case (sleep c r1 r2 r3 ns s res s')
  then show ?case using nanosleep_total [of s c r1 r2 r3 ns] by auto
next
  case (yield c p s spin s')
  then show ?case using yield_arm_ok [of s c p] by (metis Pair_inject sum.inject(2))
next
  case (del p s s')
  then show ?case using timer_del_ok [of s p] by (metis sum.inject(2))
qed (simp_all add: timers_wf_def yield_sleep_def set_sleeping_def)

lemma timer_run_wf: "timer_step\<^sup>*\<^sup>* s s' \<Longrightarrow> timers_wf s \<Longrightarrow> timers_wf s'"
  by (induction rule: rtranclp_induct) (auto intro: timer_step_wf)

section \<open>A small system\<close>

definition nap_timers :: tsys where
  "nap_timers = \<lparr>tsched = demo_sched, timers = (\<lambda>p. zero_timer), timer_list = (\<lambda>c. []), jiffies = 5, clk_boot_count = 0, clk_ready = True,
     wake_ns = (\<lambda>p. 0), yield_jiffy = (\<lambda>p. 5), yield_count = (\<lambda>p. 64), next_tick_target = (\<lambda>c. 62500), tick_error_acc = (\<lambda>c. 0),
     tick_count = (\<lambda>c. 0), timer_compare = (\<lambda>c. 0)\<rparr>"

definition at_ns :: "u64 \<Rightarrow> reading" where
  "at_ns t = \<lparr>rd_freq = 1000000000, rd_first = 0, rd_count = t\<rparr>"

lemma nap_wf: "timers_wf nap_timers"
  by (simp add: timers_wf_def nap_timers_def zero_timer_def)

lemma nap_current: "current_process (tsched nap_timers) 0 = Some 1"
  by (simp add: nap_timers_def demo_sched_def current_process_def)

lemma shows_at_ns: "clk_boot_count s = 0 \<Longrightarrow> shows_time (at_ns t) s = t"
  by (simp add: shows_time_def at_ns_def timer_counts_to_ns_def NSEC_PER_SEC_def)

lemma nap_deadline: "deadline (at_ns 7) 500 1 nap_timers = 507"
proof -
  have "clk_boot_count (started (at_ns 7) nap_timers) = 0" by (simp add: started_def nap_timers_def)
  then show ?thesis by (simp add: deadline_def shows_at_ns nap_timers_def)
qed

lemma nap_sleeps: "\<exists>s'. nanosleep_pass (at_ns 7) (at_ns 8) (at_ns 9) 0 500 nap_timers = Inr (SleepRetry, s')"
proof -
  from nanosleep_pass_ok [OF nap_wf _ nap_current, of 500 "at_ns 7" "at_ns 8" "at_ns 9"] obtain res t where
    t: "nanosleep_pass (at_ns 7) (at_ns 8) (at_ns 9) 0 500 nap_timers = Inr (res, t)" by (auto simp: MAX_CPUS_def)
  have "clk_boot_count (begun (at_ns 7) (at_ns 8) 500 1 nap_timers) = 0" by (simp add: begun_def started_def nap_timers_def)
  then have "shows_time (at_ns k) (begun (at_ns 7) (at_ns 8) 500 1 nap_timers) = k" for k by (rule shows_at_ns)
  then have "res = SleepRetry"
    using t nap_deadline nanosleep_unfold [OF nap_current, of 500 "at_ns 7" "at_ns 8" "at_ns 9"] by (auto split: sum.splits)
  then show ?thesis using t by blast
qed

text \<open>Process 2 sleeps, and its timer is due at tick 7.\<close>

definition nap_due :: tsys where
  "nap_due = nap_timers\<lparr>tsched := upd_proc 2 (\<lambda>q. q\<lparr>pstate := PROC_SLEEPING\<rparr>) demo_sched,
     timers := (\<lambda>p. zero_timer)(2 := \<lparr>t_expires = 7, t_callback = True, t_pending = True, t_cpu = 0\<rparr>),
     timer_list := (\<lambda>c. [])(0 := [2])\<rparr>"

lemma nap_due_simps:
  "timer_list nap_due 0 = [2]" "t_expires (timers nap_due 2) = 7" "pstate (procs (tsched nap_due) 2) = PROC_SLEEPING"
  by (simp_all add: nap_due_def upd_proc_def)

lemma nap_due_wf: "timers_wf nap_due"
  by (auto simp: timers_wf_def nap_due_def zero_timer_def MAX_CPUS_def split: if_splits)

section \<open>Properties\<close>

text \<open>C36. Timer lists stay intact.  Whatever sequence of ticks, sleeps, yields, cancellations and scheduler
  operations runs, a timer is pending exactly when it is linked, once, on the list of the CPU it records,
  and no further operation links a linked node or unlinks an unlinked one.\<close>

theorem timers_never_corrupt:
  assumes "timers_wf s" "timer_step\<^sup>*\<^sup>* s s'" "c < MAX_CPUS"
  shows "timers_wf s' \<and> (\<exists>t. tick_timers r c s' = Inr t) \<and> (\<exists>t. nanosleep_pass r1 r2 r3 c ns s' = Inr t)
    \<and> (\<exists>t. yield_arm c p s' = Inr t) \<and> (\<exists>t. timer_del p s' = Inr t)"
proof -
  have wf: "timers_wf s'" using timer_run_wf assms(1,2) by blast
  moreover have "\<exists>t. yield_arm c p s' = Inr t" using yield_arm_ok [OF wf assms(3), of p] by metis
  moreover have "\<exists>t. timer_del p s' = Inr t" using timer_del_ok [OF wf, of p] by metis
  ultimately show ?thesis using tick_timers_ok [OF wf, of r c] nanosleep_total [OF wf assms(3), of r1 r2 r3 ns] by auto
qed

theorem timers_never_corrupt_witness:
  "\<exists>s'. nanosleep_pass (at_ns 7) (at_ns 8) (at_ns 9) 0 500 nap_timers = Inr (SleepRetry, s') \<and> timers_wf s'
     \<and> (\<exists>t. timer_del 1 s' = Inr t)"
proof -
  obtain t where t: "nanosleep_pass (at_ns 7) (at_ns 8) (at_ns 9) 0 500 nap_timers = Inr (SleepRetry, t)" using nap_sleeps by blast
  have "timer_step\<^sup>*\<^sup>* nap_timers t" using timer_step.sleep [OF _ t] by (auto simp: MAX_CPUS_def)
  then show ?thesis using timers_never_corrupt [OF nap_wf, of t 0 undefined undefined undefined undefined undefined 1] t
    by (auto simp: MAX_CPUS_def)
qed

text \<open>C37. A tick fires exactly the timers that are due.  The clock never goes back.  On its CPU the due timers
  leave the list and the others stay in order; a fired timer is neither pending nor on a CPU and keeps
  its other fields, and every other timer, every other list of timers and every stored deadline is as before.
  The scheduler state afterwards is the one before with the sleepers among the processes of the fired
  timers queued in the order of the list: each of them becomes ready on its run queue, and every other
  process, also one whose timer fired while it was not asleep, is as before.\<close>

theorem timer_tick_exact:
  assumes "timers_wf s" "tick_timers r c s = Inr s'"
  defines "sleepers \<equiv> filter (\<lambda>p. t_expires (timers s p) \<le> jiffies s' \<and> pstate (procs (tsched s) p) = PROC_SLEEPING) (timer_list s c)"
  shows "jiffies s \<le> jiffies s' \<and> wake_ns s' = wake_ns s
    \<and> timer_list s' = (timer_list s)(c := filter (\<lambda>p. jiffies s' < t_expires (timers s p)) (timer_list s c))
    \<and> (\<forall>p. timers s' p = (if p \<in> set (timer_list s c) \<and> t_expires (timers s p) \<le> jiffies s'
                          then (timers s p)\<lparr>t_pending := False, t_cpu := - 1\<rparr> else timers s p))
    \<and> tsched s' = fold enqueue_task sleepers (tsched s)
    \<and> (\<forall>p \<in> set sleepers. pstate (procs (tsched s') p) = PROC_READY
         \<and> p \<in> set (lists (tsched s') (Runqueue (cpu_of (procs (tsched s) p)) (queue_prio (procs (tsched s) p)))))
    \<and> (\<forall>p. p \<notin> set sleepers \<longrightarrow> procs (tsched s') p = procs (tsched s) p)"
proof -
  have t: "ticked c s s'" using tick_timers_ok [OF assms(1), of r c] assms(2) by auto
  have d: "due (jiffies s') (timers s) p \<longleftrightarrow> t_expires (timers s p) \<le> jiffies s'" for p by (simp add: due_def)
  have nd: "(\<not> t_expires (timers s p) \<le> jiffies s') \<longleftrightarrow> jiffies s' < t_expires (timers s p)" for p by auto
  note tk = t [unfolded ticked_def d nd]
  have "filter (\<lambda>p. pstate (procs (tsched s) p) = PROC_SLEEPING) (filter (due (jiffies s') (timers s)) (timer_list s c)) = sleepers"
    by (simp add: sleepers_def d conj_commute)
  then have ts: "tsched s' = fold enqueue_task sleepers (tsched s)"
    using t wake_all_sleepers [of "filter (due (jiffies s') (timers s)) (timer_list s c)"] timers_wfD(2) [OF assms(1), of c]
    by (simp add: ticked_def)
  have tm: "timers s' p = (if p \<in> set (timer_list s c) \<and> t_expires (timers s p) \<le> jiffies s'
      then (timers s p)\<lparr>t_pending := False, t_cpu := - 1\<rparr> else timers s p)" for p
    using tk nd [of p] by (cases "p \<in> set (timer_list s c) \<and> t_expires (timers s p) \<le> jiffies s'") auto
  have w: "pstate (procs (tsched s') p) = PROC_READY
      \<and> p \<in> set (lists (tsched s') (Runqueue (cpu_of (procs (tsched s) p)) (queue_prio (procs (tsched s) p))))"
    if "p \<in> set sleepers" for p
    using ticked_wakes(1,3) [OF assms(1) t, of p] that by (simp add: sleepers_def)
  have o: "procs (tsched s') p = procs (tsched s) p" if "p \<notin> set sleepers" for p
    unfolding ts by (rule fold_enqueue_other [OF that])
  show ?thesis using tk tm ts w o by blast
qed

theorem timer_tick_exact_witness:
  "\<exists>s'. tick_timers (at_ns 7000000) 0 nap_due = Inr s' \<and> jiffies s' = 7 \<and> timer_list s' 0 = [] \<and> pstate (procs (tsched s') 2) = PROC_READY"
proof -
  from tick_timers_ok [OF nap_due_wf, of "at_ns 7000000" 0] obtain s' where
    s': "tick_timers (at_ns 7000000) 0 nap_due = Inr s'"
    "jiffies s' = jiffies (tick_jiffies (at_ns 7000000) 0 (nap_due\<lparr>tick_count := (tick_count nap_due)(0 := tick_count nap_due 0 + 1)\<rparr>))" by blast
  have j: "jiffies s' = 7"
    using s'(2) by (simp add: tick_jiffies_def mono_ns_def nap_due_def nap_timers_def at_ns_def timer_counts_to_ns_def NSEC_PER_SEC_def NS_PER_TICK_def HZ_def)
  note ex = timer_tick_exact [OF nap_due_wf s'(1)]
  have "timer_list s' 0 = []" using ex j by (simp add: nap_due_simps)
  moreover have "2 \<in> set (filter (\<lambda>p. t_expires (timers nap_due p) \<le> jiffies s' \<and> pstate (procs (tsched nap_due) p) = PROC_SLEEPING)
      (timer_list nap_due 0))" by (simp add: j nap_due_simps)
  then have "pstate (procs (tsched s') 2) = PROC_READY" using ex by blast
  ultimately show ?thesis using s'(1) j by blast
qed

text \<open>C38. A sleep never ends before its deadline, and no wake-up is lost.  A pass of \<open>nanosleep\<close> returns only
  when the clock has reached the deadline the first pass stored; otherwise the process sleeps with its
  timer linked and the deadline kept, and the tick of that CPU at which the timer is due puts the process
  on a run queue.  When its timer was not linked before (and less than 2^63 ns remain), the timer is
  armed for the current tick count plus the remaining time rounded up to whole ticks.  The clock may be
  ahead of the tick count, so that tick may come up to one tick before the deadline; the pass that then
  runs finds the deadline not reached and arms the timer again.\<close>

theorem nanosleep_contract:
  assumes wf: "timers_wf s" and c: "c < MAX_CPUS" and cur: "current_process (tsched s) c = Some p" and ns: "ns \<noteq> 0"
    and run: "nanosleep_pass r1 r2 r3 c ns s = Inr (res, s')"
  shows "(res = SleepDone \<longrightarrow> wake_ns s' p = 0 \<and> \<not> on_list p s'
        \<and> (deadline r1 ns p s \<le> shows_time r2 s' \<or> deadline r1 ns p s \<le> shows_time r3 s'))
    \<and> (res = SleepRetry \<longrightarrow> wake_ns s' p = deadline r1 ns p s \<and> pstate (procs (tsched s') p) = PROC_SLEEPING \<and> on_list p s'
        \<and> (\<not> on_list p s \<and> unat (deadline r1 ns p s - shows_time r3 s') < 2 ^ 63 \<longrightarrow>
             (\<exists>k. t_expires (timers s' p) = jiffies s' + k \<and> unat (deadline r1 ns p s - shows_time r3 s') \<le> unat k * 1000000
                \<and> unat k * 1000000 < unat (deadline r1 ns p s - shows_time r3 s') + 1000000))
        \<and> (\<forall>r b t. t_cpu (timers s' p) = int b \<and> tick_timers r b s' = Inr t \<and> t_expires (timers s' p) \<le> jiffies t \<longrightarrow>
             pstate (procs (tsched t) p) = PROC_READY \<and> (\<exists>q n. p \<in> set (lists (tsched t) (Runqueue q n)))))"
proof -
  note ok = nanosleep_pass_ok [OF wf c cur ns, of r1 r2 r3, unfolded run]
  have wf': "timers_wf s'" using ok by auto
  have tick: "pstate (procs (tsched t) p) = PROC_READY \<and> (\<exists>q n. p \<in> set (lists (tsched t) (Runqueue q n)))"
    if "pstate (procs (tsched s') p) = PROC_SLEEPING" "t_pending (timers s' p)" "t_cpu (timers s' p) = int b" "tick_timers r b s' = Inr t"
      "t_expires (timers s' p) \<le> jiffies t" for r b t
  proof -
    have "p \<in> set (timer_list s' b)" using timers_wfD(1) [OF wf'] that(2,3) by simp
    moreover have "ticked b s' t" using tick_timers_ok [OF wf', of r b] that(4) by auto
    ultimately show ?thesis using ticked_wakes [OF wf' _ _ that(5,1)] by blast
  qed
  have "\<exists>k. t_expires (timers s' p) = jiffies s' + k \<and> unat d \<le> unat k * 1000000 \<and> unat k * 1000000 < unat d + 1000000"
    if "unat d < 2 ^ 63" "d \<noteq> 0" "t_expires (timers s' p) = jiffies s' + sleep_ticks d" for d
    using sleep_ticks_exact [OF that(1,2)] that(3) by blast
  then show ?thesis using ok tick by (auto simp: on_list_iff [OF wf] on_list_iff [OF wf'])
qed

theorem nanosleep_contract_witness:
  "\<exists>s'. nanosleep_pass (at_ns 7) (at_ns 8) (at_ns 9) 0 500 nap_timers = Inr (SleepRetry, s') \<and> wake_ns s' 1 = 507
     \<and> pstate (procs (tsched s') 1) = PROC_SLEEPING \<and> on_list 1 s'"
proof -
  obtain t where t: "nanosleep_pass (at_ns 7) (at_ns 8) (at_ns 9) 0 500 nap_timers = Inr (SleepRetry, t)" using nap_sleeps by blast
  then show ?thesis using nanosleep_contract [OF nap_wf _ nap_current _ t] by (simp add: MAX_CPUS_def nap_deadline [simplified])
qed

text \<open>C39. The tick rate is exact.  As long as ticks are handled in time, the target of the next tick together
  with the remainder that is carried advances by exactly the frequency of the counter for every \<open>HZ\<close> ticks,
  whether or not \<open>HZ\<close> divides it; no rounding error accumulates.\<close>

theorem tick_rate_exact:
  assumes "tick_error_acc s c < HZ" "unat (next_tick_target s c) + (unat freq div 1000 + 1) * length ns < 2 ^ 64"
    "on_time freq c ns s"
  shows "1000 * unat (next_tick_target (run_ticks freq c ns s) c) + unat (tick_error_acc (run_ticks freq c ns s) c)
      = 1000 * unat (next_tick_target s c) + unat (tick_error_acc s c) + length ns * unat freq
    \<and> tick_error_acc (run_ticks freq c ns s) c < HZ"
  using assms by (rule run_ticks_exact)

theorem tick_rate_exact_witness:
  "1000 * unat (next_tick_target (run_ticks 62500500 0 [62500, 125000] nap_timers) 0)
     + unat (tick_error_acc (run_ticks 62500500 0 [62500, 125000] nap_timers) 0) = 187501000"
  using tick_rate_exact [of nap_timers 0 62500500 "[62500, 125000]"]
  by (simp add: nap_timers_def HZ_def timer_percpu_tick_def Let_def)


text \<open>The throttle of \<open>sys_yield\<close> can lose its wake-up.  It arms the timer first and sets the state later,
  with interrupts enabled; when the tick comes in between, the timer fires on a process that is still
  running, and the process then sleeps with no timer left.\<close>

theorem yield_lost_wakeup:
  assumes wf: "timers_wf s" and c: "c < MAX_CPUS" and run: "pstate (procs (tsched s) p) = PROC_RUNNING" and off: "\<not> on_list p s"
    and arm: "yield_arm c p s = Inr (True, s1)" and tick: "tick_timers r c s1 = Inr s2" and late: "jiffies s < jiffies s2"
  shows "pstate (procs (tsched (yield_sleep p True s2)) p) = PROC_SLEEPING \<and> \<not> on_list p (yield_sleep p True s2)"
proof -
  have np: "\<not> t_pending (timers s p)" using off on_list_iff [OF wf] by simp
  from yield_arm_ok [OF wf c, of p] arm np have s1: "timers_wf s1" "t_pending (timers s1 p)" "t_expires (timers s1 p) = jiffies s + 1" "t_cpu (timers s1 p) = int c"
    by (metis Pair_inject sum.inject(2))+
  have "jiffies s + 1 \<le> jiffies s2" using late by (simp add: inc_le)
  moreover have "ticked c s1 s2" using tick_timers_ok [OF s1(1), of r c] tick by auto
  ultimately have "p \<notin> set (timer_list s2 c)" and wf2: "timers_wf s2" by (auto simp: ticked_def due_def s1(3))
  moreover have "p \<notin> set (timer_list s2 k)" if "k \<noteq> c" for k
    using \<open>ticked c s1 s2\<close> that timers_wfD(1) [OF s1(1), of p k] s1(4) by (simp add: ticked_def)
  ultimately have "\<forall>k. p \<notin> set (timer_list s2 k)" by metis
  then have "\<not> on_list p s2" by (simp add: on_list_def list_ex_iff)
  then show ?thesis by (simp add: yield_sleep_def on_list_def)
qed

text \<open>C40. A timer that outlives its sleep links a task twice.  A process that is woken by a message before its
  throttle timer fires keeps the timer; if it then sleeps on a wait queue, the tick puts it on a run queue
  although its list node is still on the wait queue.\<close>

theorem timer_wake_double_links:
  assumes wf: "timers_wf s" and q: "queues_wf (tsched s)" and tick: "tick_timers r c s = Inr s'"
    and p: "p \<in> set (timer_list s c)" "t_expires (timers s p) \<le> jiffies s'"
    and sl: "pstate (procs (tsched s) p) = PROC_SLEEPING" "run_list (procs (tsched s) p) = Some (Waitqueue w)"
  shows "p \<in> set (lists (tsched s') (Waitqueue w)) \<and> (\<exists>b k. p \<in> set (lists (tsched s') (Runqueue b k))) \<and> \<not> queues_wf (tsched s')"
proof -
  have t: "ticked c s s'" using tick_timers_ok [OF wf, of r c] tick by auto
  note w = ticked_wakes [OF wf t p sl(1)]
  have "p \<in> set (lists (tsched s) (Waitqueue w))" using q sl(2) by (simp add: queues_wf_def)
  then have a: "p \<in> set (lists (tsched s') (Waitqueue w))" using w(4) by blast
  have "\<not> queues_wf (tsched s')"
  proof
    assume "queues_wf (tsched s')"
    then have "run_list (procs (tsched s') p) = Some (Waitqueue w)" using a by (simp add: queues_wf_def)
    then show False using w(2) by simp
  qed
  then show ?thesis using a w(3) by blast
qed

theorem timer_wake_double_links_witness:
  "\<exists>s1 s'. yield_arm 0 1 nap_timers = Inr (True, s1) \<and> tick_timers (at_ns 7000000) 0 (on_tsched (sleep_on 0 9) s1) = Inr s'
     \<and> \<not> queues_wf (tsched s')"
proof -
  have c: "(0::nat) < MAX_CPUS" by (simp add: MAX_CPUS_def)
  obtain spin s1 where s1: "yield_arm 0 1 nap_timers = Inr (spin, s1)" "timers_wf s1" "tsched s1 = tsched nap_timers"
    "jiffies s1 = jiffies nap_timers" "clk_boot_count s1 = clk_boot_count nap_timers" "clk_ready s1 = clk_ready nap_timers" "spin \<Longrightarrow> t_pending (timers s1 1)"
    "spin \<Longrightarrow> \<not> t_pending (timers nap_timers 1) \<Longrightarrow> t_expires (timers s1 1) = jiffies nap_timers + 1 \<and> t_cpu (timers s1 1) = int 0"
    "spin \<longleftrightarrow> yield_jiffy nap_timers 1 = jiffies nap_timers \<and> YIELD_SPIN_BUDGET < yield_count nap_timers 1 + 1"
    by (rule yield_arm_ok [OF nap_wf c, of 1]) (rule that)
  have spin: "spin" using s1(9) by (simp add: nap_timers_def YIELD_SPIN_BUDGET_def)
  have e: "t_expires (timers s1 1) = 6" "t_cpu (timers s1 1) = 0"
    using s1(8) [OF spin] by (simp_all add: nap_timers_def zero_timer_def)
  define t where "t = on_tsched (sleep_on 0 9) s1"
  have wt: "timers_wf t" using s1(2) by (simp add: t_def timers_wf_def)
  have sch: "tsched t = sleep_on 0 9 demo_sched" using s1(3) by (simp add: t_def nap_timers_def)
  have cur: "current_process demo_sched 0 = Some 1" using nap_current by (simp add: nap_timers_def)
  have rl: "run_list (procs demo_sched 1) = None" by (simp add: demo_sched_def demo_shell_def zero_process_def)
  have q: "queues_wf (tsched t)" unfolding sch using cur rl by (intro sleep_on_wf [OF demo_queues_wf]) simp
  from tick_timers_ok [OF wt, of "at_ns 7000000" 0] obtain s' where
    s': "tick_timers (at_ns 7000000) 0 t = Inr s'"
    "jiffies s' = jiffies (tick_jiffies (at_ns 7000000) 0 (t\<lparr>tick_count := (tick_count t)(0 := tick_count t 0 + 1)\<rparr>))" by blast
  have "jiffies s' = 7" using s1(4-6) unfolding s'(2) t_def
    by (simp add: tick_jiffies_def mono_ns_def nap_timers_def at_ns_def timer_counts_to_ns_def NSEC_PER_SEC_def NS_PER_TICK_def HZ_def on_tsched_def)
  then have "t_expires (timers t 1) \<le> jiffies s'" using e(1) by (simp add: t_def)
  moreover have "1 \<in> set (timer_list t 0)" using timers_wfD(1) [OF wt, of 1 0] s1(7) [OF spin] e(2) by (simp add: t_def)
  moreover have "pstate (procs (tsched t) 1) = PROC_SLEEPING" "run_list (procs (tsched t) 1) = Some (Waitqueue 9)"
    unfolding sch sleep_on_def cur by (simp_all add: list_add_tail_def upd_proc_def)
  ultimately show ?thesis using timer_wake_double_links [OF wt q s'(1), of 1 9] s1(1) s'(1) spin by (auto simp: t_def)
qed

text \<open>Re-arming races with a firing.  The tick clears the pending flag before the CPU number; if the owner,
  already on another CPU, arms the timer between the two stores, the timer ends up linked with no CPU, and
  \<open>timer_del\<close> leaves it linked.\<close>

theorem timer_rearm_race:
  assumes wf: "timers_wf s" and p: "p \<in> set (timer_list s b)" and a: "a < MAX_CPUS"
    and fire: "timer_unlink p s = Inr s1" and arm: "arm_sleep a p k (fire_not_pending p s1) = Inr s2"
  shows "p \<in> set (timer_list (fire_no_cpu p s2) a) \<and> timer_pending p (fire_no_cpu p s2)
    \<and> timer_del p (fire_no_cpu p s2) = Inr (fire_no_cpu p s2)"
proof -
  define t where "t = fire_not_pending p s1"
  have pend: "t_pending (timers s p)" using timers_wfD(1) [OF wf] p by simp
  have s1: "s1 = s\<lparr>timer_list := (\<lambda>c. filter (\<lambda>q. q \<noteq> p) (timer_list s c))\<rparr>" using fire unlink_pending [OF wf pend] by simp
  have wt: "timers_wf t" using wf unfolding timers_wf_def t_def fire_not_pending_def s1 by auto
  have "\<not> t_pending (timers t p)" by (simp add: t_def fire_not_pending_def)
  with arm_sleep_ok [OF wt a, of p k] arm have "t_pending (timers s2 p)" "timer_list s2 = (timer_list t)(a := timer_list t a @ [p])"
    by (metis sum.inject(2) t_def)+
  then show ?thesis by (simp add: fire_no_cpu_def timer_pending_def timer_del_def)
qed

end
