(* ===== verification/Spec2Isabelle.thy ===== *)
theory Spec2Isabelle
  imports Pmm_Run Region Kstring Buffer_Cache Process_Props Sched_Props Registry_Props Registry_Lock Heap_Props Vfs_Props Object_Props Vsnprintf_Props Timer_Props
begin

text \<open>
  Verification development of NexsOS1 (OS1), a small capability-oriented operating system kernel in C
  for AArch64 and AMD64.

  \<^bold>\<open>The program.\<close>  The kernel boots through \<open>kernel/main.c\<close>: the physical memory manager
  (\<open>kernel/mm/pmm.c\<close>) takes over the memory map and serves pages to everything else; the heap
  (\<open>kernel/lib/kmalloc.c\<close>), the buffer cache (\<open>kernel/mm/buffer.c\<close>) and the process table (\<open>kernel/sched/process.c\<close>) take pages from
  it; the scheduler in the same file keeps the run queues of each CPU, picks tasks, tears them down
  and delivers messages between them; the registry (\<open>kernel/lib/registry.c\<close>) is the namespace of
  settings and service keys and asks the process table for the environment of a process; the
  compositor keeps its damage as regions (\<open>kernel/graphics/region.c\<close>) and its windows are closed when
  their process dies; all of them use the string routines of \<open>kernel/lib/string.c\<close>.

  \<^bold>\<open>Theories and what they model.\<close>

  \<^item> \<open>Nexs_Prelude\<close>: machine types, panics as values (\<open>kres\<close>), memory as a function on addresses, and the
    generic facts on words, lists, searches and chains of sets.  The locale \<open>bit_array\<close> is the interface
    of an allocation bitmap.

  \<^item> \<open>Pmm_Bitmap\<close>, \<open>Pmm\<close>, \<open>Pmm_Correct\<close>, \<open>Pmm_Init\<close>, \<open>Pmm_Boot\<close>, \<open>Pmm_Run\<close>: \<open>kernel/mm/pmm.c\<close>.  The bitmap
    primitives on arrays of 64-bit words (an interpretation of \<open>bit_array\<close>), allocation of single,
    contiguous and aligned pages with the DMA fallback, release with reference counts and poisoning, the
    statistics, and the boot sequence from the memory map of the loader.  The invariant \<open>pmm_wf\<close> says that
    bitmap, page records and counters agree; the locale \<open>page_provider\<close> is what a client of the allocator
    may rely on (freshness, disjointness, zeroing), interpreted on the allocator's own functions.

  \<^item> \<open>Region\<close>: \<open>kernel/graphics/region.c\<close>, rectangle lists as sets of pixels, with allocation failure
    falling back to a covering rectangle.

  \<^item> \<open>Kstring\<close>: \<open>kernel/lib/string.c\<close> on byte memory with 64-bit pointers that wrap around; loops over
    strings are partial functions whose termination on terminated strings is proved.

  \<^item> \<open>Buffer_Cache\<close>: \<open>kernel/mm/buffer.c\<close>.  Each critical section is a function, the step relation
    interleaves the sections of concurrent callers, and the abstract content of a block is what a reader
    must see.

  \<^item> \<open>Process\<close>, \<open>Process_Correct\<close>, \<open>Process_Props\<close>: the process table of \<open>kernel/sched/process.c\<close>: pool slots,
    parent and owner links, authority to kill and to send messages, environments, creation with quotas
    and privilege clamping, exit statuses, introspection.  A process structure is a record in a store
    indexed by references; the invariant \<open>table_wf\<close> ties child counts, links and the number of processes
    together.

  \<^item> \<open>Sched\<close>, \<open>Sched_Correct\<close>, \<open>Sched_Props\<close>: the run queues with their priority bitmap, picking with the
    focus boost, stealing, the deferred reaping of dead tasks, termination and the kill of a subtree,
    stopping and continuing, \<open>schedule()\<close>, and the message queues.  \<open>sched_step\<close> is one operation on the
    scheduler state, and \<open>queues_wf\<close> is kept by every one of them.

  \<^item> \<open>Registry\<close>, \<open>Registry_Tree\<close>, \<open>Registry_Store\<close>, \<open>Registry_Props\<close>, \<open>Registry_Lock\<close>: \<open>kernel/lib/registry.c\<close>.
    The sorted tree with binary search, growth and failing allocations; the map with owners it stands
    for; virtual keys over the process table; the \<open>/reg\<close> file operations and the system call; the
    reader/writer lock as a step relation.  The locale \<open>owned_store\<close> states what an operation may do to a
    cell of somebody else; it is interpreted on the four entry points of the registry.

  \<^item> \<open>Heap\<close>, \<open>Heap_Inv\<close>, \<open>Heap_Ops\<close>, \<open>Heap_Blocks\<close>, \<open>Heap_Correct\<close>, \<open>Heap_Props\<close>: \<open>kernel/lib/kmalloc.c\<close> over the page
    allocator: buckets, growth by chunks with the lock dropped, large blocks, validation on release and
    the statistics.  The locale \<open>page_spans\<close> extends \<open>page_provider\<close> with what the heap needs of its pages;
    \<open>heap_wf\<close> ties page runs, slots, free lists and headers together; the locale \<open>block_allocator\<close> is the
    contract of the heap, a map from block headers to sizes.  \<open>km_step\<close> interleaves callers at the points
    where the lock is not held; the release of a large block and the return of its pages are one step.

  \<^item> \<open>Vfs\<close>, \<open>Vfs_Props\<close>: \<open>kernel/fs/vfs.c\<close> and \<open>kernel/fs/procfs.c\<close>: registration, mounts and their pins, dispatch to
    providers, listings, the write policy, canonical paths and the process name space.  A provider is a
    record of optional functions, as \<open>struct fs_ops\<close> is; \<open>regfs_ops\<close> and \<open>procfs_ops\<close> are two of them.

  \<^item> \<open>Object\<close>, \<open>Object_Inv\<close>, \<open>Object_Ops\<close>, \<open>Object_Run\<close>, \<open>Object_Authority\<close>, \<open>Object_Pipe\<close>, \<open>Object_Deliver\<close>,
    \<open>Object_Props\<close>: \<open>kernel/core/object.c\<close>, the capability layer over the process table, the scheduler, the registry
    and the VFS: objects with reference counts, handle tables, acquisition by name, pipes, ports,
    messages that carry capabilities, input and output on every type of object, redirection and teardown.
    A call that sleeps is cut where it sleeps and keeps its pin; \<open>obj_reach\<close> are the states that any
    sequence of calls and passes reaches.  \<open>caps_inv\<close> ties the counts to the tables; \<open>gain\<close> says which
    capabilities an operation may create; the locale \<open>bounded_fifo\<close> is the contract of the rings of pipes
    and ports, interpreted on both.

  \<^item> \<open>Vsnprintf\<close>, \<open>Vsnprintf_Props\<close>: \<open>kernel/lib/vsnprintf.c\<close> as built into the kernel: the format parser, the
    conversions and the bounded writer.  \<open>vs_text\<close> is the text a format stands for, and the code is shown
    to write a prefix of it.

  \<^item> \<open>Timer\<close>, \<open>Timer_Lists\<close>, \<open>Timer_Sleep\<close>, \<open>Timer_Props\<close>: \<open>kernel/core/timer.c\<close> and the system calls \<open>nanosleep\<close>, \<open>yield\<close> and
    \<open>clock_gettime\<close> of \<open>kernel/core/syscall_dispatch.c\<close>, over the scheduler: the clock, the tick schedule, the timer list of
    each CPU and the tick that fires timers.  \<open>timers_wf\<close> says that a timer is pending exactly when it is
    linked; the stores of a firing and the halves of \<open>yield\<close> are separate functions, so that what comes
    between them can be stated.

  \<^bold>\<open>State and operations.\<close>  A structure of the source is a record or a datatype with the fields of the
  source, a function of the source one definition with the same name (a suffix or a shorter name where
  the C name is reserved), and its loops are recursive functions.  A null pointer is address 0 or \<open>None\<close>; an error code is
  the negative integer the source returns; \<open>panic\<close> is the left side of a sum.  Page and byte addresses
  and flag words keep their width as words; a C \<open>int\<close> that only counts or names things is an \<open>int\<close>, and
  the places where its overflow is reachable (process numbers in registry keys, field widths) wrap explicitly.

  \<^bold>\<open>Concurrency.\<close>  A critical section under a lock is one atomic function.  What another component
  answers while a function runs (an allocation, a user copy, a lock attempt) is an argument, so the
  theorems hold for every answer.  Interleavings are explicit where the source releases a lock in the
  middle of an operation: the buffer cache, the scheduler steps, the registry lock, the growth of the heap, the
  pins of mounts, and the passes of object input and output.

  \<^bold>\<open>What the properties show.\<close>  Memory: in every reachable state of the allocator pages are handed out once,
  zeroed, and double frees stop the machine; the searches equal their specifications.  Regions: each
  operation is the set operation on pixels it stands for.  Strings: overlap-safe moves, bounded
  concatenation, search and number parsing.  Cache: bounded, coherent and never evicting a held block;
  reads are transparent.  Processes: authority is exactly the ancestor relation, the table stays
  consistent, a child never has more rights than its creator, an exit status is collected once.
  Scheduler: queues stay well formed, a picked task may run, a terminated task is in no queue, the kill
  of a subtree takes exactly the right set, no message wake-up is lost.  Registry: refinement of a map with
  owners, protection of foreign keys through every door, exact listings, and a lock that excludes and
  makes progress.  Heap: every allocation is one fresh block, releases are exact and validated, statistics
  are exact, and growth races are harmless.  VFS: canonical paths, the exact write policy, no mount removed under an
  operation.  Objects: exact reference counts, no amplification of rights, sends of capabilities that
  happen completely or not at all, pipes as byte queues.  Formatted output: a prefix of the text and no
  byte outside the buffer, numbers that are read back as printed.  Time: intact timer lists, exact firing, sleeps that end at
  their deadline and are never lost, an exact tick rate.  Several properties record defects: a lost update in cache write-back, a page leaked by
  a failed creation, a stopped task freed while queued, a stolen stopped task, a dangling file
  identifier, a heap lock that is kept when the interrupt word is zero, a port name lost to a race, arguments
  skipped by a truncated format, a lost wake-up of a throttled process, a task on two lists, and a timer
  that cannot be cancelled.

  \<^bold>\<open>Bounds and fuel.\<close>  Loops whose bound is in the source (\<open>MAX_PROCESSES\<close> steps of the ancestor walks, of the
  picking loop, and of the kill fixpoint) have that bound as fuel; the lemma \<open>chain_stable\<close> of the prelude
  shows that it is enough for the walks.  The allocation loop of the heap takes fuel; two passes are proved
  enough when nobody interferes.  All other loops are total functions with a termination
  proof, or partial functions with a proof that they return on the inputs the property names.

  \<^bold>\<open>Not modelled.\<close>  Assembly and register-level code of the two architectures and the drivers; virtual
  memory and the ELF loader, which work on hardware page tables; on-disk formats; drawing;
  user space and vendored libraries.  Log output, timing and the contents of IPC payload copies are left
  out of the modelled functions.
\<close>

end
